(* ===== verification/Prelude.thy ===== *)
theory Prelude
  imports Main "HOL-Library.Word" "HOL-Library.Monad_Syntax" "HOL-Library.Code_Target_Nat"
begin

text \<open>
  Shared vocabulary of the development: bytes, C integer conversions, checked accesses to
  byte buffers, and little-endian integers in memory.

  A buffer is the list of its bytes. Every raw access of the C code (an indexed read, an
  indexed write, memcpy, memmove) goes through a checked operation that gives \<open>None\<close> when it
  leaves the buffer, so \<open>None\<close> stands for undefined behaviour (or a failed assert), and a
  theorem that an operation returns \<open>Some\<close> states its memory safety.
\<close>

unbundle bit_operations_syntax

type_synonym byte = "8 word"

text \<open>Lemma collections: facts on checked memory, facts on the model's invariants.\<close>

named_theorems mem_simps "checked memory accesses"

section \<open>C integer conversions\<close>

definition u32 :: "nat \<Rightarrow> nat" where
  "u32 x = x mod 2 ^ 32"

definition u64 :: "nat \<Rightarrow> nat" where
  "u64 x = x mod 2 ^ 64"

definition inc64 :: "nat \<Rightarrow> nat" where
  "inc64 x = (x + 1) mod 2 ^ 64"

definition dec64 :: "nat \<Rightarrow> nat" where
  "dec64 x = (x + (2 ^ 64 - 1)) mod 2 ^ 64"

definition s32 :: "int \<Rightarrow> int" where
  "s32 x = signed_take_bit 31 x"

definition int64_range :: "int \<Rightarrow> bool" where
  "int64_range v \<longleftrightarrow> - (2 ^ 63) \<le> v \<and> v < 2 ^ 63"

lemma u32_id [simp]: "x < 4294967296 \<Longrightarrow> u32 x = x"
  by (simp add: u32_def)

lemma u32_le_id: "x \<le> y \<Longrightarrow> y < 2 ^ 32 \<Longrightarrow> u32 x = x"
  by (simp add: u32_def)

lemma u32_less: "u32 x < 4294967296"
  by (simp add: u32_def)

lemma u64_id [simp]: "x < 18446744073709551616 \<Longrightarrow> u64 x = x"
  by (simp add: u64_def)

lemma inc64_id: "x < 2 ^ 64 - 1 \<Longrightarrow> inc64 x = Suc x"
  by (simp add: inc64_def)

lemma dec64_id: "0 < x \<Longrightarrow> x < 2 ^ 64 \<Longrightarrow> dec64 x = x - 1"
  by (cases x) (simp_all add: dec64_def)

lemma s32_id [simp]: "- 2147483648 \<le> x \<Longrightarrow> x < 2147483648 \<Longrightarrow> s32 x = x"
  by (simp add: s32_def signed_take_bit_int_eq_self)

lemma s32_range: "- 2147483648 \<le> s32 x \<and> s32 x < 2147483648"
  using signed_take_bit_int_greater_eq_minus_exp [of 31 x] signed_take_bit_int_less_exp [of 31 x]
  by (simp add: s32_def)

section \<open>Checked accesses to byte buffers\<close>

definition mem_read :: "'a list \<Rightarrow> nat \<Rightarrow> nat \<Rightarrow> 'a list option" where
  "mem_read bs off n = (if off + n \<le> length bs then Some (take n (drop off bs)) else None)"

definition mem_write :: "'a list \<Rightarrow> nat \<Rightarrow> 'a list \<Rightarrow> 'a list option" where
  "mem_write bs off ys =
     (if off + length ys \<le> length bs
      then Some (take off bs @ ys @ drop (off + length ys) bs) else None)"

definition memmove :: "'a list \<Rightarrow> nat \<Rightarrow> nat \<Rightarrow> nat \<Rightarrow> 'a list option" where
  "memmove bs dst src n = do { xs \<leftarrow> mem_read bs src n; mem_write bs dst xs }"

definition mem_get :: "'a list \<Rightarrow> nat \<Rightarrow> 'a option" where
  "mem_get bs i = (if i < length bs then Some (bs ! i) else None)"

definition mem_set :: "'a list \<Rightarrow> nat \<Rightarrow> 'a \<Rightarrow> 'a list option" where
  "mem_set bs i x = (if i < length bs then Some (bs[i := x]) else None)"

text \<open>
  A block resized by zrealloc keeps its common prefix; bytes the allocator adds are not
  initialised, and \<open>garb i\<close> is what happens to be at offset \<open>i\<close>.
\<close>

definition mem_resize :: "(nat \<Rightarrow> 'a) \<Rightarrow> 'a list \<Rightarrow> nat \<Rightarrow> 'a list" where
  "mem_resize garb bs n = take n bs @ map garb [length bs ..< n]"

lemma length_mem_resize [simp]: "length (mem_resize garb bs n) = n"
  by (simp add: mem_resize_def)

lemma take_mem_resize [simp]: "k \<le> n \<Longrightarrow> k \<le> length bs \<Longrightarrow> take k (mem_resize garb bs n) = take k bs"
  by (simp add: mem_resize_def min_def)

lemma mem_resize_append: "length xs = n \<Longrightarrow> mem_resize garb (xs @ ys) n = xs"
  by (simp add: mem_resize_def)

lemma mem_read_Some [mem_simps]: "off + n \<le> length bs \<Longrightarrow> mem_read bs off n = Some (take n (drop off bs))"
  by (simp add: mem_read_def)

lemma mem_write_Some [mem_simps]:
  "off + length ys \<le> length bs \<Longrightarrow>
   mem_write bs off ys = Some (take off bs @ ys @ drop (off + length ys) bs)"
  by (simp add: mem_write_def)

lemma mem_get_Some [mem_simps]: "i < length bs \<Longrightarrow> mem_get bs i = Some (bs ! i)"
  by (simp add: mem_get_def)

lemma mem_get_None [mem_simps]: "length bs \<le> i \<Longrightarrow> mem_get bs i = None"
  by (simp add: mem_get_def)

lemma mem_set_Some [mem_simps]: "i < length bs \<Longrightarrow> mem_set bs i x = Some (bs[i := x])"
  by (simp add: mem_set_def)

lemma mem_write_length: "mem_write bs off ys = Some bs' \<Longrightarrow> length bs' = length bs"
  by (auto simp: mem_write_def split: if_splits)

lemma memmove_Some [mem_simps]:
  "src + n \<le> length bs \<Longrightarrow> dst + n \<le> length bs \<Longrightarrow>
   memmove bs dst src n = Some (take dst bs @ take n (drop src bs) @ drop (dst + n) bs)"
  by (simp add: memmove_def mem_read_def mem_write_def)

section \<open>Little-endian integers in memory\<close>

primrec le_bytes :: "nat \<Rightarrow> int \<Rightarrow> byte list" where
  "le_bytes 0 v = []"
| "le_bytes (Suc n) v = word_of_int v # le_bytes n (v div 256)"

primrec le_uint :: "byte list \<Rightarrow> int" where
  "le_uint [] = 0"
| "le_uint (b # bs) = uint b + 256 * le_uint bs"

definition le_sint :: "byte list \<Rightarrow> int" where
  "le_sint bs = signed_take_bit (8 * length bs - 1) (le_uint bs)"

lemma length_le_bytes [simp]: "length (le_bytes n v) = n"
  by (induction n arbitrary: v) auto

lemma le_uint_bounds: "0 \<le> le_uint bs \<and> le_uint bs < 256 ^ length bs"
proof (induction bs)
  case (Cons b bs)
  have "uint b < 256" using uint_lt2p [of b] by simp
  with Cons.IH show ?case by auto
qed simp

lemma le_uint_le_bytes: "le_uint (le_bytes n v) = v mod 256 ^ n"
proof (induction n arbitrary: v)
  case (Suc n)
  have "v mod (256 * 256 ^ n) = 256 * (v div 256 mod 256 ^ n) + v mod 256"
    by (rule zmod_zmult2_eq) simp
  then show ?case by (simp add: Suc.IH uint_word_of_int)
qed simp

lemma pow256: "(256::int) ^ n = 2 ^ (8 * n)"
  by (simp add: power_mult)

lemma le_sint_le_bytes:
  assumes "0 < n" "- (2 ^ (8 * n - 1)) \<le> v" "v < 2 ^ (8 * n - 1)"
  shows "le_sint (le_bytes n v) = v"
proof -
  have "le_sint (le_bytes n v) = signed_take_bit (8 * n - 1) (take_bit (8 * n) v)"
    by (simp add: le_sint_def le_uint_le_bytes pow256 take_bit_eq_mod)
  also have "\<dots> = signed_take_bit (8 * n - 1) v"
    using assms(1) by (auto simp: signed_take_bit_take_bit)
  also have "\<dots> = v"
    using assms(2,3) by (simp add: signed_take_bit_int_eq_self)
  finally show ?thesis .
qed

lemma le_sint_range:
  "- (2 ^ (8 * length bs - 1)) \<le> le_sint bs" "le_sint bs < 2 ^ (8 * length bs - 1)"
  by (simp_all add: le_sint_def)

section \<open>Lists\<close>

lemma take_drop_append_mid [simp]:
  "length xs = n \<Longrightarrow> length ys = m \<Longrightarrow> take m (drop n (xs @ ys @ zs)) = ys"
  by simp

lemma map_nth_eqI:
  "length xs = n \<Longrightarrow> (\<And>i. i < n \<Longrightarrow> f i = xs ! i) \<Longrightarrow> map f [0..<n] = xs"
  by (rule nth_equalityI) auto

end
