(* ===== verification/Set_Interface.thy ===== *)
theory Set_Interface
  imports Prelude
begin

text \<open>
  The contract between the set containers (\<open>intset.c\<close>, \<open>dict.c\<close>) and their clients: add,
  remove and find on a representation \<open>'s\<close>, each returning the new representation and the
  flag the C function reports. A lookup returns a representation too, since looking a key up
  in a dict may move a bucket. \<open>None\<close> is undefined behaviour.
\<close>

datatype 'a set_op = SAdd 'a | SRemove 'a | SFind 'a

primrec op_arg :: "'a set_op \<Rightarrow> 'a" where
  "op_arg (SAdd x) = x"
| "op_arg (SRemove x) = x"
| "op_arg (SFind x) = x"

text \<open>A sequence of operations on the mathematical set, with the flags reported.\<close>

primrec set_spec :: "'a set \<Rightarrow> 'a set_op list \<Rightarrow> 'a set \<times> bool list" where
  "set_spec A [] = (A, [])"
| "set_spec A (c # cs) =
     (let (A', r) = (case c of
          SAdd x \<Rightarrow> (insert x A, x \<notin> A)
        | SRemove x \<Rightarrow> (A - {x}, x \<in> A)
        | SFind x \<Rightarrow> (A, x \<in> A));
        (A'', rs) = set_spec A' cs
      in (A'', r # rs))"

text \<open>The same sequence on a representation.\<close>

primrec set_run ::
  "('s \<Rightarrow> 'a \<Rightarrow> ('s \<times> bool) option) \<Rightarrow> ('s \<Rightarrow> 'a \<Rightarrow> ('s \<times> bool) option) \<Rightarrow>
   ('s \<Rightarrow> 'a \<Rightarrow> ('s \<times> bool) option) \<Rightarrow> 's \<Rightarrow> 'a set_op list \<Rightarrow> ('s \<times> bool list) option" where
  "set_run add rem look s [] = Some (s, [])"
| "set_run add rem look s (c # cs) = do {
     (s, r) \<leftarrow> (case c of SAdd x \<Rightarrow> add s x | SRemove x \<Rightarrow> rem s x | SFind x \<Rightarrow> look s x);
     (s, rs) \<leftarrow> set_run add rem look s cs;
     Some (s, r # rs) }"

text \<open>Adding a list of elements, as the loops of the clients do.\<close>

primrec add_all :: "('s \<Rightarrow> 'a \<Rightarrow> ('s \<times> bool) option) \<Rightarrow> 's \<Rightarrow> 'a list \<Rightarrow> ('s \<times> nat) option" where
  "add_all add s [] = Some (s, 0)"
| "add_all add s (x # xs) = do {
     (s, r) \<leftarrow> add s x;
     (s, n) \<leftarrow> add_all add s xs;
     Some (s, (if r then 1 else 0) + n) }"

locale set_impl =
  fixes inv :: "'s \<Rightarrow> bool"
    and elems :: "'s \<Rightarrow> 'a set"
    and valid :: "'a \<Rightarrow> bool"
    and cap :: nat
    and add :: "'s \<Rightarrow> 'a \<Rightarrow> ('s \<times> bool) option"
    and rem :: "'s \<Rightarrow> 'a \<Rightarrow> ('s \<times> bool) option"
    and look :: "'s \<Rightarrow> 'a \<Rightarrow> ('s \<times> bool) option"
  assumes finite_elems: "inv s \<Longrightarrow> finite (elems s)"
    and add_law: "inv s \<Longrightarrow> valid x \<Longrightarrow> card (elems s) < cap \<Longrightarrow>
      \<exists>s'. add s x = Some (s', x \<notin> elems s) \<and> inv s' \<and> elems s' = insert x (elems s)"
    and rem_law: "inv s \<Longrightarrow> valid x \<Longrightarrow> card (elems s) \<le> cap \<Longrightarrow>
      \<exists>s'. rem s x = Some (s', x \<in> elems s) \<and> inv s' \<and> elems s' = elems s - {x}"
    and look_law: "inv s \<Longrightarrow> valid x \<Longrightarrow> card (elems s) \<le> cap \<Longrightarrow>
      \<exists>s'. look s x = Some (s', x \<in> elems s) \<and> inv s' \<and> elems s' = elems s"
begin

lemma add_all_law:
  assumes "inv s" "\<forall>x \<in> set xs. valid x" "card (elems s) + length xs \<le> cap"
  shows "\<exists>s'. add_all add s xs = Some (s', card (set xs - elems s)) \<and> inv s' \<and>
    elems s' = elems s \<union> set xs"
  using assms
proof (induction xs arbitrary: s)
  case (Cons x xs)
  obtain s1 where s1: "add s x = Some (s1, x \<notin> elems s)" "inv s1" "elems s1 = insert x (elems s)"
    using add_law [of s x] Cons.prems by auto
  have fin: "finite (elems s)" using Cons.prems(1) by (rule finite_elems)
  have "card (elems s1) + length xs \<le> cap"
    using Cons.prems(3) s1(3) fin by (auto simp: card_insert_if)
  then obtain s2 where s2: "add_all add s1 xs = Some (s2, card (set xs - elems s1))" "inv s2"
    "elems s2 = elems s1 \<union> set xs" using Cons.IH [OF s1(2)] Cons.prems(2) by auto
  have count: "(if x \<notin> elems s then 1 else 0) + card (set xs - insert x (elems s)) = card (set (x # xs) - elems s)"
  proof (cases "x \<in> elems s")
    case True
    then have eq: "set (x # xs) - elems s = set xs - insert x (elems s)" by auto
    show ?thesis unfolding eq using True by simp
  next
    case False
    then have eq: "set (x # xs) - elems s = insert x (set xs - insert x (elems s))" by auto
    have "card (insert x (set xs - insert x (elems s))) = Suc (card (set xs - insert x (elems s)))"
      by (subst card_insert_disjoint) auto
    then show ?thesis unfolding eq using False by simp
  qed
  have "add_all add s (x # xs) = Some (s2, card (set (x # xs) - elems s))"
    unfolding count [symmetric] by (simp add: s1 s2)
  moreover have "elems s2 = elems s \<union> set (x # xs)" using s1(3) s2(3) by simp
  ultimately show ?case using s2(2) by blast
qed simp

text \<open>Every sequence of operations reports what the mathematical set reports.\<close>

lemma run_refines:
  assumes "inv s" "\<forall>c \<in> set cs. valid (op_arg c)" "card (elems s) + length cs \<le> cap"
  shows "\<exists>s'. set_run add rem look s cs = Some (s', snd (set_spec (elems s) cs)) \<and> inv s' \<and>
    elems s' = fst (set_spec (elems s) cs)"
  using assms
proof (induction cs arbitrary: s)
  case (Cons c cs)
  have fin: "finite (elems s)" using Cons.prems(1) by (rule finite_elems)
  let ?abs = "case c of SAdd x \<Rightarrow> (insert x (elems s), x \<notin> elems s)
     | SRemove x \<Rightarrow> (elems s - {x}, x \<in> elems s) | SFind x \<Rightarrow> (elems s, x \<in> elems s)"
  have "\<exists>s1. (case c of SAdd x \<Rightarrow> add s x | SRemove x \<Rightarrow> rem s x | SFind x \<Rightarrow> look s x) =
      Some (s1, snd ?abs) \<and> inv s1 \<and> elems s1 = fst ?abs"
    using Cons.prems add_law [of s] rem_law [of s] look_law [of s] by (cases c) auto
  then obtain s1 where s1: "(case c of SAdd x \<Rightarrow> add s x | SRemove x \<Rightarrow> rem s x | SFind x \<Rightarrow> look s x) =
      Some (s1, snd ?abs)" "inv s1" "elems s1 = fst ?abs" by blast
  have "card (elems s1) \<le> Suc (card (elems s))"
    using fin card_mono [OF fin, of "elems s - {op_arg c}"]
    by (cases c) (auto simp: s1(3) card_insert_if)
  then have "card (elems s1) + length cs \<le> cap" using Cons.prems(3) by simp
  then obtain s2 where "set_run add rem look s1 cs = Some (s2, snd (set_spec (elems s1) cs))"
    "inv s2" "elems s2 = fst (set_spec (elems s1) cs)" using Cons.IH [OF s1(2)] Cons.prems(2) by auto
  with s1 show ?case by (auto simp: split_beta Let_def)
qed simp

end

end
