(* ===== verification/Intset.thy ===== *)
theory Intset
  imports Set_Interface
begin

text \<open>
  The integer set of \<open>intset.c\<close>: a sorted array of 16, 32 or 64 bit integers in one block of
  memory, upgraded to a wider encoding when a value needs it. The model keeps the block as
  bytes, so an upgrade that overwrites a value before it is read would be visible. The
  integers are stored little endian on every host (the \<open>memrev*ifbe\<close> calls of the source).
\<close>

section \<open>Byte order conversions (endianconv.c)\<close>

definition memrev16 :: "byte list \<Rightarrow> byte list" where
  "memrev16 x = (let t = x ! 0; x = x[0 := x ! 1] in x[1 := t])"

definition memrev32 :: "byte list \<Rightarrow> byte list" where
  "memrev32 x =
     (let t = x ! 0; x = x[0 := x ! 3]; x = x[3 := t];
          t = x ! 1; x = x[1 := x ! 2] in x[2 := t])"

definition memrev64 :: "byte list \<Rightarrow> byte list" where
  "memrev64 x =
     (let t = x ! 0; x = x[0 := x ! 7]; x = x[7 := t];
          t = x ! 1; x = x[1 := x ! 6]; x = x[6 := t];
          t = x ! 2; x = x[2 := x ! 5]; x = x[5 := t];
          t = x ! 3; x = x[3 := x ! 4] in x[4 := t])"

section \<open>The intset operations\<close>

record intset =
  is_encoding :: nat
  is_length :: nat
  is_contents :: "byte list"

definition INTSET_ENC_INT16 :: nat where "INTSET_ENC_INT16 = 2"

definition INTSET_ENC_INT32 :: nat where "INTSET_ENC_INT32 = 4"

definition INTSET_ENC_INT64 :: nat where "INTSET_ENC_INT64 = 8"

lemmas enc_defs = INTSET_ENC_INT16_def INTSET_ENC_INT32_def INTSET_ENC_INT64_def

definition intsetValueEncoding :: "int \<Rightarrow> nat" where
  "intsetValueEncoding v =
     (if v < - 2147483648 \<or> v > 2147483647 then INTSET_ENC_INT64
      else if v < - 32768 \<or> v > 32767 then INTSET_ENC_INT32
      else INTSET_ENC_INT16)"

definition intsetGetEncoded :: "intset \<Rightarrow> int \<Rightarrow> nat \<Rightarrow> int option" where
  "intsetGetEncoded is pos enc =
     (if pos < 0 then None
      else if enc = INTSET_ENC_INT64 then
        map_option le_sint (mem_read (is_contents is) (nat pos * 8) 8)
      else if enc = INTSET_ENC_INT32 then
        map_option le_sint (mem_read (is_contents is) (nat pos * 4) 4)
      else
        map_option le_sint (mem_read (is_contents is) (nat pos * 2) 2))"

definition intsetGet_at :: "intset \<Rightarrow> int \<Rightarrow> int option" where
  "intsetGet_at is pos = intsetGetEncoded is pos (is_encoding is)"

definition intsetSet :: "intset \<Rightarrow> int \<Rightarrow> int \<Rightarrow> intset option" where
  "intsetSet is pos value =
     (if pos < 0 then None
      else do {
        bs \<leftarrow> (if is_encoding is = INTSET_ENC_INT64 then
                 mem_write (is_contents is) (nat pos * 8) (le_bytes 8 value)
               else if is_encoding is = INTSET_ENC_INT32 then
                 mem_write (is_contents is) (nat pos * 4) (le_bytes 4 value)
               else
                 mem_write (is_contents is) (nat pos * 2) (le_bytes 2 value));
        Some (is\<lparr>is_contents := bs\<rparr>) })"

definition intsetNew :: intset where
  "intsetNew = \<lparr>is_encoding = INTSET_ENC_INT16, is_length = 0, is_contents = []\<rparr>"

definition intsetResize :: "(nat \<Rightarrow> byte) \<Rightarrow> intset \<Rightarrow> nat \<Rightarrow> intset" where
  "intsetResize garb is len =
     (let size = u32 (len * is_encoding is)
      in is\<lparr>is_contents := mem_resize garb (is_contents is) size\<rparr>)"

partial_function (option) intsetSearch_loop ::
  "intset \<Rightarrow> int \<Rightarrow> int \<Rightarrow> int \<Rightarrow> int \<Rightarrow> int \<Rightarrow> (int \<times> int \<times> int) option" where
  "intsetSearch_loop is value minp maxp mid cur =
     (if maxp \<ge> minp then
        (let mid = (minp mod 2 ^ 32 + maxp mod 2 ^ 32) mod 2 ^ 32 div 2
         in Option.bind (intsetGet_at is mid) (\<lambda>cur.
              if value > cur then intsetSearch_loop is value (mid + 1) maxp mid cur
              else if value < cur then intsetSearch_loop is value minp (mid - 1) mid cur
              else Some (minp, mid, cur)))
      else Some (minp, mid, cur))"

declare intsetSearch_loop.simps [code]

text \<open>
  The result is the C function's return value with what it stores through \<open>pos\<close>.
\<close>

definition intsetSearch :: "intset \<Rightarrow> int \<Rightarrow> (bool \<times> nat) option" where
  "intsetSearch is value =
     (let len = is_length is; maxp = s32 ((int len - 1) mod 2 ^ 32) in
      if len = 0 then Some (False, 0)
      else do {
        lst \<leftarrow> intsetGet_at is (int len - 1);
        if value > lst then Some (False, len)
        else do {
          first \<leftarrow> intsetGet_at is 0;
          if value < first then Some (False, 0)
          else do {
            (minp, mid, cur) \<leftarrow> intsetSearch_loop is value 0 maxp (- 1) (- 1);
            if value = cur then Some (True, nat mid) else Some (False, nat minp) } } })"

primrec intsetUpgrade_loop :: "nat \<Rightarrow> intset \<Rightarrow> nat \<Rightarrow> nat \<Rightarrow> intset option" where
  "intsetUpgrade_loop 0 is curenc prepend = Some is"
| "intsetUpgrade_loop (Suc len) is curenc prepend = do {
     v \<leftarrow> intsetGetEncoded is (int len) curenc;
     is \<leftarrow> intsetSet is (int (len + prepend)) v;
     intsetUpgrade_loop len is curenc prepend }"

definition intsetUpgradeAndAdd :: "(nat \<Rightarrow> byte) \<Rightarrow> intset \<Rightarrow> int \<Rightarrow> intset option" where
  "intsetUpgradeAndAdd garb is value =
     (let curenc = is_encoding is; newenc = intsetValueEncoding value;
          len = s32 (int (is_length is)); prepend = (if value < 0 then 1 else 0);
          is = is\<lparr>is_encoding := newenc\<rparr>;
          is = intsetResize garb is (u32 (is_length is + 1)) in
      if len < 0 then None
      else do {
        is \<leftarrow> intsetUpgrade_loop (nat len) is curenc prepend;
        is \<leftarrow> (if prepend = 1 then intsetSet is 0 value
               else intsetSet is (int (is_length is)) value);
        Some (is\<lparr>is_length := u32 (is_length is + 1)\<rparr>) })"

definition intsetMoveTail :: "intset \<Rightarrow> nat \<Rightarrow> nat \<Rightarrow> intset option" where
  "intsetMoveTail is from to =
     (let bytes = nat ((int (is_length is) - int from) mod 2 ^ 32) in do {
        bs \<leftarrow> (if is_encoding is = INTSET_ENC_INT64 then
                 memmove (is_contents is) (to * 8) (from * 8) (u32 (bytes * 8))
               else if is_encoding is = INTSET_ENC_INT32 then
                 memmove (is_contents is) (to * 4) (from * 4) (u32 (bytes * 4))
               else
                 memmove (is_contents is) (to * 2) (from * 2) (u32 (bytes * 2)));
        Some (is\<lparr>is_contents := bs\<rparr>) })"

text \<open>The end of \<open>intsetAdd\<close>, from the resize on: make room at \<open>pos\<close> and store the value.\<close>

definition intsetInsertAt :: "(nat \<Rightarrow> byte) \<Rightarrow> intset \<Rightarrow> nat \<Rightarrow> int \<Rightarrow> intset option" where
  "intsetInsertAt garb is pos value =
     (let is = intsetResize garb is (u32 (is_length is + 1)) in do {
        is \<leftarrow> (if pos < is_length is then intsetMoveTail is pos (pos + 1) else Some is);
        is \<leftarrow> intsetSet is (int pos) value;
        Some (is\<lparr>is_length := u32 (is_length is + 1)\<rparr>) })"

definition intsetAdd :: "(nat \<Rightarrow> byte) \<Rightarrow> intset \<Rightarrow> int \<Rightarrow> (intset \<times> bool) option" where
  "intsetAdd garb is value =
     (let valenc = intsetValueEncoding value in
      if valenc > is_encoding is then
        do { is \<leftarrow> intsetUpgradeAndAdd garb is value; Some (is, True) }
      else do {
        (found, pos) \<leftarrow> intsetSearch is value;
        if found then Some (is, False)
        else do { is \<leftarrow> intsetInsertAt garb is pos value; Some (is, True) } })"

definition intsetRemove :: "(nat \<Rightarrow> byte) \<Rightarrow> intset \<Rightarrow> int \<Rightarrow> (intset \<times> bool) option" where
  "intsetRemove garb is value =
     (let valenc = intsetValueEncoding value in
      if valenc \<le> is_encoding is then do {
        (found, pos) \<leftarrow> intsetSearch is value;
        if found then do {
          let len = is_length is;
          is \<leftarrow> (if pos < len - 1 then intsetMoveTail is (pos + 1) pos else Some is);
          is \<leftarrow> Some (intsetResize garb is (len - 1));
          Some (is\<lparr>is_length := len - 1\<rparr>, True) }
        else Some (is, False) }
      else Some (is, False))"

definition intsetFind :: "intset \<Rightarrow> int \<Rightarrow> bool option" where
  "intsetFind is value =
     (let valenc = intsetValueEncoding value in
      if valenc \<le> is_encoding is then map_option fst (intsetSearch is value) else Some False)"

text \<open>\<open>rnd\<close> is what \<open>rand()\<close> returns; a remainder by zero traps.\<close>

definition intsetRandom :: "nat \<Rightarrow> intset \<Rightarrow> int option" where
  "intsetRandom rnd is =
     (if is_length is = 0 then None else intsetGet_at is (int (rnd mod is_length is)))"

text \<open>\<open>Some None\<close> is the return value 0: the position is out of range.\<close>

definition intsetGet :: "intset \<Rightarrow> nat \<Rightarrow> int option option" where
  "intsetGet is pos =
     (if pos < is_length is then map_option Some (intsetGet_at is (int pos)) else Some None)"

definition intsetLen :: "intset \<Rightarrow> nat" where
  "intsetLen is = is_length is"

definition intsetBlobLen :: "intset \<Rightarrow> nat" where
  "intsetBlobLen is = 8 + u32 (is_length is * is_encoding is)"

section \<open>The sequence an intset stores\<close>

definition int_encs :: "nat \<Rightarrow> int list \<Rightarrow> byte list" where
  "int_encs e vs = concat (map (le_bytes e) vs)"

definition enc_range :: "nat \<Rightarrow> int \<Rightarrow> bool" where
  "enc_range e v \<longleftrightarrow> - (2 ^ (8 * e - 1)) \<le> v \<and> v < 2 ^ (8 * e - 1)"

definition intset_elems :: "intset \<Rightarrow> int list" where
  "intset_elems is =
     map (\<lambda>i. le_sint (take (is_encoding is) (drop (i * is_encoding is) (is_contents is))))
       [0..<is_length is]"

text \<open>
  The representation invariant: a known encoding, a block of exactly the encoded length, and
  strictly increasing values.
\<close>

definition intset_inv :: "intset \<Rightarrow> bool" where
  "intset_inv is \<longleftrightarrow>
     is_encoding is \<in> {2, 4, 8} \<and>
     length (is_contents is) = is_length is * is_encoding is \<and>
     sorted_wrt (<) (intset_elems is)"

text \<open>The same as a relation to the sequence stored, which the proofs below use.\<close>

definition intset_rep :: "intset \<Rightarrow> int list \<Rightarrow> bool" where
  "intset_rep is vs \<longleftrightarrow>
     is_encoding is \<in> {2, 4, 8} \<and> is_length is = length vs \<and>
     is_contents is = int_encs (is_encoding is) vs \<and>
     (\<forall>v \<in> set vs. enc_range (is_encoding is) v)"

lemma length_int_encs [simp]: "length (int_encs e vs) = length vs * e"
  by (induction vs) (auto simp: int_encs_def)

lemma int_encs_simps [simp]:
  "int_encs e [] = []"
  "int_encs e (v # vs) = le_bytes e v @ int_encs e vs"
  "int_encs e (vs @ ws) = int_encs e vs @ int_encs e ws"
  by (simp_all add: int_encs_def)

lemma take_int_encs [simp]: "take (i * e) (int_encs e vs) = int_encs e (take i vs)"
proof (induction vs arbitrary: i)
  case (Cons v vs)
  show ?case by (cases i) (auto simp: Cons.IH)
qed simp

lemma drop_int_encs [simp]: "drop (i * e) (int_encs e vs) = int_encs e (drop i vs)"
proof (induction vs arbitrary: i)
  case (Cons v vs)
  show ?case by (cases i) (auto simp: Cons.IH)
qed simp

lemma take_encoded: "i < length vs \<Longrightarrow> take e (drop (i * e) (int_encs e vs @ bs)) = le_bytes e (vs ! i)"
  by (simp add: drop_append Cons_nth_drop_Suc [symmetric])

lemma le_sint_enc: "0 < e \<Longrightarrow> enc_range e v \<Longrightarrow> le_sint (le_bytes e v) = v"
  by (simp add: enc_range_def le_sint_le_bytes)

lemma le_bytes_uint: "le_bytes (length bs) (le_uint bs) = bs"
proof (induction bs)
  case (Cons b bs)
  have "uint b < 256" "0 \<le> uint b" using uint_lt2p [of b] by simp_all
  then have "(uint b + 256 * le_uint bs) div 256 = le_uint bs" by simp
  moreover have "(word_of_int (uint b + 256 * le_uint bs) :: byte) = b"
    using \<open>uint b < 256\<close> by (intro word_uint_eqI, simp only: uint_word_of_int) simp
  ultimately show ?case using Cons.IH by simp
qed simp

lemma le_bytes_cong: "v mod 256 ^ n = w mod 256 ^ n \<Longrightarrow> le_bytes n v = le_bytes n w"
  by (metis le_bytes_uint le_uint_le_bytes length_le_bytes)

lemma le_bytes_sint:
  assumes "bs \<noteq> []"
  shows "le_bytes (length bs) (le_sint bs) = bs"
proof -
  have "le_sint bs mod 256 ^ length bs = take_bit (8 * length bs) (signed_take_bit (8 * length bs - 1) (le_uint bs))"
    by (simp add: le_sint_def pow256 take_bit_eq_mod)
  also have "\<dots> = take_bit (8 * length bs) (le_uint bs)"
    using assms by (subst take_bit_signed_take_bit) auto
  also have "\<dots> = le_uint bs mod 256 ^ length bs"
    by (simp add: pow256 take_bit_eq_mod)
  finally show ?thesis
    by (metis le_bytes_cong le_bytes_uint)
qed

lemma intset_rep_elems: "intset_rep is vs \<Longrightarrow> intset_elems is = vs"
  unfolding intset_elems_def intset_rep_def
  by (rule map_nth_eqI)
     (auto simp: take_encoded [where bs = "[]", simplified] intro!: le_sint_enc)

lemma int_encs_chunks:
  assumes "0 < e"
  shows "length bs = n * e \<Longrightarrow>
    int_encs e (map (\<lambda>i. le_sint (take e (drop (i * e) bs))) [0..<n]) = bs"
proof (induction n arbitrary: bs)
  case (Suc n)
  let ?c = "\<lambda>bs i. le_sint (take e (drop (i * e) bs))"
  let ?front = "take (n * e) bs" and ?write_back = "drop (n * e) bs"
  have len: "length ?front = n * e" "length ?write_back = e" using Suc.prems by simp_all
  have "map (?c bs) [0..<n] = map (?c ?front) [0..<n]"
  proof (rule map_cong [OF refl])
    fix i assume "i \<in> set [0..<n]"
    then have "i * e + e \<le> n * e" by (metis Suc_leI add.commute atLeastLessThan_iff mult_Suc mult_le_mono1 set_upt)
    then show "?c bs i = ?c ?front i" by (simp add: drop_take min_def)
  qed
  then have "int_encs e (map (?c bs) [0..<n]) = ?front"
    by (simp only: Suc.IH [OF len(1)])
  moreover have "le_bytes e (le_sint ?write_back) = ?write_back"
    using le_bytes_sint [of ?write_back] len(2) assms by force
  ultimately show ?case using len(2) by simp
qed simp

lemma intset_inv_rep:
  assumes "intset_inv is"
  shows "intset_rep is (intset_elems is)"
proof -
  let ?e = "is_encoding is"
  have e: "?e \<in> {2, 4, 8}" "0 < ?e" and len: "length (is_contents is) = is_length is * ?e"
    using assms by (auto simp: intset_inv_def)
  have "enc_range ?e v" if "v \<in> set (intset_elems is)" for v
  proof -
    from that obtain i where i: "i < is_length is"
      "v = le_sint (take ?e (drop (i * ?e) (is_contents is)))"
      by (auto simp: intset_elems_def)
    have "i * ?e + ?e \<le> is_length is * ?e"
      using i(1) by (metis Suc_leI add.commute mult_Suc mult_le_mono1)
    then have "length (take ?e (drop (i * ?e) (is_contents is))) = ?e"
      using len by simp
    then show ?thesis using i(2) le_sint_range by (metis enc_range_def)
  qed
  with e len int_encs_chunks [OF e(2) len] show ?thesis
    by (simp add: intset_rep_def intset_elems_def)
qed

lemma intset_rep_inv: "intset_rep is vs \<Longrightarrow> sorted_wrt (<) vs \<Longrightarrow> intset_inv is"
  by (auto simp: intset_inv_def intset_rep_elems) (auto simp: intset_rep_def)

section \<open>Access and search\<close>

lemma intsetGetEncoded_rep:
  assumes "intset_rep is vs" "i < length vs"
  shows "intsetGetEncoded is (int i) (is_encoding is) = Some (vs ! i)"
proof -
  have "Suc i * is_encoding is \<le> length vs * is_encoding is"
    using assms(2) by (intro mult_le_mono1) simp
  then show ?thesis
    using assms take_encoded [OF assms(2), of _ "[]"] le_sint_enc
    by (auto simp: intset_rep_def intsetGetEncoded_def enc_defs mem_read_def)
qed

lemma intsetGet_at_rep:
  "intset_rep is vs \<Longrightarrow> 0 \<le> i \<Longrightarrow> nat i < length vs \<Longrightarrow> intsetGet_at is i = Some (vs ! nat i)"
  using intsetGetEncoded_rep [of "is" vs "nat i"] by (simp add: intsetGet_at_def)

text \<open>What the binary search establishes about its final \<open>min\<close>, \<open>mid\<close> and \<open>cur\<close>.\<close>

definition search_post :: "int list \<Rightarrow> int \<Rightarrow> int \<times> int \<times> int \<Rightarrow> bool" where
  "search_post vs x r = (case r of (lo, mid, cur) \<Rightarrow>
     if cur = x then 0 \<le> mid \<and> nat mid < length vs \<and> vs ! nat mid = x
     else 0 \<le> lo \<and> nat lo \<le> length vs \<and> (\<forall>i < nat lo. vs ! i < x) \<and>
       (\<forall>i. nat lo \<le> i \<and> i < length vs \<longrightarrow> x < vs ! i))"

lemma intsetSearch_loop_correct:
  assumes rep: "intset_rep is vs" and srt: "sorted_wrt (<) vs" and small: "length vs < 2 ^ 31"
  shows "0 \<le> lo \<Longrightarrow> hi < int (length vs) \<Longrightarrow> lo \<le> hi + 1 \<Longrightarrow> (cur = x \<Longrightarrow> lo \<le> hi) \<Longrightarrow>
    (\<forall>i < nat lo. vs ! i < x) \<Longrightarrow> (\<forall>i. hi < int i \<and> i < length vs \<longrightarrow> x < vs ! i) \<Longrightarrow>
    \<exists>r. intsetSearch_loop is x lo hi mid cur = Some r \<and> search_post vs x r"
proof (induction "nat (hi - lo + 1)" arbitrary: lo hi mid cur rule: less_induct)
  case less
  show ?case
  proof (cases "lo \<le> hi")
    case False
    then have "lo = hi + 1" using less.prems(3) by simp
    with False less.prems show ?thesis
      by (subst intsetSearch_loop.simps) (auto simp: search_post_def nat_le_iff)
  next
    case True
    define m where "m = (lo + hi) div 2"
    have m: "lo \<le> m" "m \<le> hi" "0 \<le> m" "nat m < length vs"
      using True less.prems(1,2) by (auto simp: m_def)
    have "(lo mod 2 ^ 32 + hi mod 2 ^ 32) mod 2 ^ 32 div 2 = m"
      using True less.prems(1,2) small by (simp add: m_def)
    note unf = intsetSearch_loop.simps [of "is" x lo hi mid cur, unfolded this Let_def]
    note get = intsetGet_at_rep [OF rep m(3,4)]
    have below: "vs ! i < vs ! nat m" if "i < nat m" for i
      using srt that m(4) by (simp add: sorted_wrt_iff_nth_less)
    have above: "vs ! nat m < vs ! i" if "nat m < i" "i < length vs" for i
      using srt that m(4) by (simp add: sorted_wrt_iff_nth_less)
    consider "vs ! nat m < x" | "x < vs ! nat m" | "vs ! nat m = x" by linarith
    then show ?thesis
    proof cases
      case 1
      have "\<exists>r. intsetSearch_loop is x (m + 1) hi m (vs ! nat m) = Some r \<and> search_post vs x r"
      proof (rule less.hyps)
        show "\<forall>i < nat (m + 1). vs ! i < x"
          using 1 below by (metis dual_order.strict_trans less_Suc_eq m(3) Suc_nat_eq_nat_zadd1 add.commute)
      qed (use 1 m less.prems in auto)
      with 1 True show ?thesis by (simp add: unf get)
    next
      case 2
      have "\<exists>r. intsetSearch_loop is x lo (m - 1) m (vs ! nat m) = Some r \<and> search_post vs x r"
      proof (rule less.hyps)
        show "\<forall>i. m - 1 < int i \<and> i < length vs \<longrightarrow> x < vs ! i"
        proof (intro allI impI)
          fix i assume i: "m - 1 < int i \<and> i < length vs"
          then have "nat m = i \<or> nat m < i" by auto
          with 2 above i show "x < vs ! i" by fastforce
        qed
      qed (use 2 m less.prems in auto)
      with 2 True show ?thesis by (simp add: unf get)
    next
      case 3
      with True m show ?thesis by (simp add: unf get search_post_def)
    qed
  qed
qed

text \<open>The search as a whole: found, with its position, or the position to insert at.\<close>

lemma intsetSearch_correct:
  assumes rep: "intset_rep is vs" and srt: "sorted_wrt (<) vs" and small: "length vs < 2 ^ 31"
  shows "\<exists>found pos. intsetSearch is x = Some (found, pos) \<and> (found \<longleftrightarrow> x \<in> set vs) \<and>
    (found \<longrightarrow> pos < length vs \<and> vs ! pos = x) \<and>
    (\<not> found \<longrightarrow> pos \<le> length vs \<and> (\<forall>i < pos. vs ! i < x) \<and>
       (\<forall>i. pos \<le> i \<and> i < length vs \<longrightarrow> x < vs ! i))"
proof -
  have len: "is_length is = length vs" using rep by (simp add: intset_rep_def)
  have mono: "vs ! i \<le> vs ! j" if "i \<le> j" "j < length vs" for i j
    using srt that by (cases "i = j") (auto simp: sorted_wrt_iff_nth_less intro: less_imp_le)
  show ?thesis
  proof (cases "vs = []")
    case True
    then show ?thesis by (auto simp: intsetSearch_def len)
  next
    case False
    then have lst: "intsetGet_at is (int (length vs) - 1) = Some (vs ! (length vs - 1))"
      and fst: "intsetGet_at is 0 = Some (vs ! 0)"
      using intsetGet_at_rep [OF rep, of "int (length vs) - 1"] intsetGet_at_rep [OF rep, of 0]
      by (cases vs; simp)+
    consider (gt) "vs ! (length vs - 1) < x" | (lt) "x \<le> vs ! (length vs - 1)" "x < vs ! 0"
      | (mid) "x \<le> vs ! (length vs - 1)" "vs ! 0 \<le> x" by linarith
    then show ?thesis
    proof cases
      case gt
      have "vs ! i < x" if "i < length vs" for i
        using le_less_trans [OF mono gt] that by simp
      then have "x \<notin> set vs" "\<forall>i < length vs. vs ! i < x"
        by (auto simp: in_set_conv_nth)
      with gt False show ?thesis by (auto simp: intsetSearch_def len lst)
    next
      case lt
      have "x < vs ! i" if "i < length vs" for i
        using mono [of 0 i] that lt by auto
      then have "x \<notin> set vs" "\<forall>i < length vs. x < vs ! i"
        by (auto simp: in_set_conv_nth)
      with lt False show ?thesis by (auto simp: intsetSearch_def len lst fst)
    next
      case mid
      have hi: "s32 ((int (length vs) - 1) mod 2 ^ 32) = int (length vs) - 1"
        using small False by (simp add: Suc_leI)
      obtain lo m cur where r: "intsetSearch_loop is x 0 (int (length vs) - 1) (- 1) (- 1) = Some (lo, m, cur)"
        "search_post vs x (lo, m, cur)"
        using intsetSearch_loop_correct [OF rep srt small, of 0 "int (length vs) - 1" "- 1" x "- 1"] False
        by (auto simp: Suc_leI)
      have res: "intsetSearch is x = Some (if x = cur then (True, nat m) else (False, nat lo))"
        using mid False hi r(1) by (simp add: intsetSearch_def len lst fst Let_def)
      show ?thesis
      proof (cases "cur = x")
        case True
        with res r(2) show ?thesis by (auto simp: search_post_def)
      next
        case False
        with r(2) have post: "nat lo \<le> length vs" "\<forall>i < nat lo. vs ! i < x"
          "\<forall>i. nat lo \<le> i \<and> i < length vs \<longrightarrow> x < vs ! i" by (auto simp: search_post_def)
        then have "x \<notin> set vs"
          by (metis in_set_conv_nth less_irrefl not_le_imp_less)
        with False res post show ?thesis by auto
      qed
    qed
  qed
qed

section \<open>Insertion and removal on the stored sequence\<close>

lemma intsetSet_contents:
  assumes "is_encoding is \<in> {2, 4, 8}" "(i + 1) * is_encoding is \<le> length (is_contents is)"
  shows "intsetSet is (int i) v = Some (is\<lparr>is_contents :=
     take (i * is_encoding is) (is_contents is) @ le_bytes (is_encoding is) v @
     drop ((i + 1) * is_encoding is) (is_contents is)\<rparr>)"
  using assms by (auto simp: intsetSet_def enc_defs mem_write_def algebra_simps)

lemma intsetGetEncoded_prefix:
  assumes "e \<in> {2, 4, 8}" "i < length vs" "\<forall>v \<in> set vs. enc_range e v"
    "is_contents is = int_encs e vs @ bs"
  shows "intsetGetEncoded is (int i) e = Some (vs ! i)"
proof -
  have "Suc i * e \<le> length vs * e" using assms(2) by (intro mult_le_mono1) simp
  then show ?thesis
    using assms take_encoded [OF assms(2), of e bs] le_sint_enc
    by (auto simp: intsetGetEncoded_def enc_defs mem_read_def)
qed

lemma intsetMoveTail_contents:
  assumes "is_encoding is \<in> {2, 4, 8}" "from \<le> is_length is"
    "is_length is * is_encoding is < 2 ^ 32"
    "is_length is * is_encoding is \<le> length (is_contents is)"
    "(to + (is_length is - from)) * is_encoding is \<le> length (is_contents is)"
  shows "intsetMoveTail is from to = Some (is\<lparr>is_contents :=
     take (to * is_encoding is) (is_contents is) @
     take ((is_length is - from) * is_encoding is) (drop (from * is_encoding is) (is_contents is)) @
     drop ((to + (is_length is - from)) * is_encoding is) (is_contents is)\<rparr>)"
proof -
  let ?n = "is_length is - from" and ?e = "is_encoding is"
  have n: "nat ((int (is_length is) - int from) mod 2 ^ 32) = ?n"
  proof -
    have "is_length is < 2 ^ 32" using assms(1,3) by auto
    then show ?thesis using assms(2) by (simp add: nat_diff_distrib)
  qed
  have "?n * ?e \<le> is_length is * ?e" by (intro mult_le_mono1) simp
  then have u: "u32 (?n * ?e) = ?n * ?e" using assms(3) by (rule u32_le_id)
  have "from * ?e + ?n * ?e = is_length is * ?e"
    using assms(2) by (simp add: add_mult_distrib [symmetric])
  then have "memmove (is_contents is) (to * ?e) (from * ?e) (u32 (?n * ?e)) =
     Some (take (to * ?e) (is_contents is) @ take (?n * ?e) (drop (from * ?e) (is_contents is)) @
       drop (to * ?e + ?n * ?e) (is_contents is))"
    unfolding u by (intro memmove_Some) (use assms(4,5) in \<open>simp_all add: add_mult_distrib\<close>)
  then show ?thesis
    using assms(1) by (auto simp: intsetMoveTail_def n [simplified] enc_defs add_mult_distrib)
qed

lemma int_encs_room:
  assumes "is_encoding is \<in> {2, 4, 8}" "is_contents is = int_encs (is_encoding is) vs"
    "length vs * is_encoding is \<le> n"
  shows "take (length vs * is_encoding is) (mem_resize garb (is_contents is) n) = is_contents is"
  using assms by simp

lemma mult_enc_bound:
  assumes "e \<in> {2, 4, 8 :: nat}" "n \<le> 2 ^ 29 - 1" shows "n * e < 2 ^ 32"
  using assms by auto

lemma intsetInsert_rep:
  assumes rep: "intset_rep is vs" and pos: "pos \<le> length vs" and small: "length vs < 2 ^ 29 - 1"
    and v: "enc_range (is_encoding is) v"
  shows "\<exists>is'. intsetInsertAt garb is pos v = Some is' \<and>
    intset_rep is' (take pos vs @ v # drop pos vs)"
proof -
  let ?e = "is_encoding is" and ?L = "length vs"
  have e: "?e \<in> {2, 4, 8}" and len: "is_length is = ?L" and cont: "is_contents is = int_encs ?e vs"
    using rep by (auto simp: intset_rep_def)
  have lb: "(?L + 1) * ?e < 2 ^ 32" using mult_enc_bound [OF e, of "?L + 1"] small by simp
  define c where "c = mem_resize garb (is_contents is) ((?L + 1) * ?e)"
  have c_len: "length c = (?L + 1) * ?e" by (simp add: c_def)
  have c_take: "take (?L * ?e) c = int_encs ?e vs" by (simp add: c_def cont)
  have c_pos: "take (pos * ?e) c = int_encs ?e (take pos vs)"
    using arg_cong [OF c_take, of "take (pos * ?e)"] pos by (simp add: min_def mult_le_mono1)
  have r: "intsetResize garb is (u32 (?L + 1)) = is\<lparr>is_contents := c\<rparr>"
    using lb small by (simp add: intsetResize_def c_def len)
  have tail: "take ((?L - pos) * ?e) (drop (pos * ?e) c) = int_encs ?e (drop pos vs)"
    using arg_cong [OF c_take, of "drop (pos * ?e)"] pos
    by (simp add: drop_take diff_mult_distrib)
  let ?moved = "take ((pos + 1) * ?e) c @ int_encs ?e (drop pos vs)"
  have mv: "intsetMoveTail (is\<lparr>is_contents := c\<rparr>) pos (Suc pos) = Some (is\<lparr>is_contents := ?moved\<rparr>)"
    if "pos < ?L"
  proof -
    have "?L * ?e < 2 ^ 32" using lb by (simp add: add_mult_distrib)
    with that show ?thesis
      using e tail by (subst intsetMoveTail_contents) (auto simp: len c_len)
  qed
  have nomv: "c = ?moved" if "\<not> pos < ?L"
    using that pos by (simp add: c_len)
  have m_len: "length ?moved = (?L + 1) * ?e"
    using pos e by (auto simp: c_len min_def add_mult_distrib [symmetric])
  have m_take: "take (pos * ?e) ?moved = int_encs ?e (take pos vs)"
    using pos c_pos e by (auto simp: c_len min_def add_mult_distrib)
  have m_drop: "drop ((pos + 1) * ?e) ?moved = int_encs ?e (drop pos vs)"
    using pos by (auto simp: c_len min_def mult_le_mono1)
  have "(pos + 1) * ?e \<le> length ?moved" using m_len pos by (simp add: mult_le_mono1)
  then have st: "intsetSet (is\<lparr>is_contents := ?moved\<rparr>) (int pos) v =
      Some (is\<lparr>is_contents := int_encs ?e (take pos vs) @ le_bytes ?e v @ int_encs ?e (drop pos vs)\<rparr>)"
    using e m_take m_drop by (subst intsetSet_contents) simp_all
  have "set (take pos vs) \<subseteq> set vs" "set (drop pos vs) \<subseteq> set vs"
    by (simp_all add: set_take_subset set_drop_subset)
  then have "intset_rep (is\<lparr>is_contents := int_encs ?e (take pos vs) @ le_bytes ?e v @ int_encs ?e (drop pos vs),
      is_length := u32 (?L + 1)\<rparr>) (take pos vs @ v # drop pos vs)"
    using rep v pos small by (auto simp: intset_rep_def)
  then have "\<exists>is'. intsetSet (is\<lparr>is_contents := ?moved\<rparr>) (int pos) v \<bind>
      (\<lambda>is. Some (is\<lparr>is_length := u32 (is_length is + 1)\<rparr>)) = Some is' \<and>
      intset_rep is' (take pos vs @ v # drop pos vs)"
    using st by (simp add: len)
  then show ?thesis
    using mv nomv by (cases "pos < ?L") (simp_all add: intsetInsertAt_def len r [simplified])
qed

lemma sorted_insert_at:
  assumes "sorted_wrt (<) vs" "pos \<le> length vs" "\<forall>i < pos. vs ! i < (x::int)"
    "\<forall>i. pos \<le> i \<and> i < length vs \<longrightarrow> x < vs ! i"
  shows "sorted_wrt (<) (take pos vs @ x # drop pos vs)"
proof -
  have "\<forall>a \<in> set (take pos vs). a < x" using assms(2,3) by (auto simp: in_set_conv_nth)
  moreover have "\<forall>a \<in> set (drop pos vs). x < a" using assms(2,4) by (auto simp: in_set_conv_nth)
  ultimately show ?thesis
    using assms(1) by (fastforce simp: sorted_wrt_append sorted_wrt_take sorted_wrt_drop)
qed

section \<open>Upgrading the encoding\<close>

text \<open>
  The loop runs from the last element down. Before step \<open>n\<close> the first \<open>n\<close> elements are still
  in the old encoding at the start of the block and the others are in the new one from slot
  \<open>n + prepend\<close> on; the two areas never overlap, because the old encoding is the narrower one.
\<close>

lemma intsetUpgrade_loop_correct:
  assumes cur: "cur \<in> {2, 4, 8}" and new: "is_encoding is \<in> {2, 4, 8}" "cur \<le> is_encoding is"
    and rng: "\<forall>v \<in> set vs. enc_range cur v"
  shows "n \<le> length vs \<Longrightarrow> p \<le> 1 \<Longrightarrow>
    length (is_contents is) = (length vs + 1) * is_encoding is \<Longrightarrow>
    take (n * cur) (is_contents is) = int_encs cur (take n vs) \<Longrightarrow>
    drop ((n + p) * is_encoding is) (is_contents is) = int_encs (is_encoding is) (drop n vs) @ rest \<Longrightarrow>
    \<exists>bs. intsetUpgrade_loop n is cur p = Some (is\<lparr>is_contents := bs\<rparr>) \<and>
      length bs = (length vs + 1) * is_encoding is \<and>
      drop (p * is_encoding is) bs = int_encs (is_encoding is) vs @ rest"
  using new
proof (induction n arbitrary: "is")
  case 0
  then show ?case by (intro exI [of _ "is_contents is"]) simp
next
  case (Suc n)
  let ?e = "is_encoding is" and ?c = "is_contents is"
  have n: "n < length vs" using Suc.prems(1) by simp
  have "?c = int_encs cur (take (Suc n) vs) @ drop (Suc n * cur) ?c"
    using Suc.prems(4) by (metis append_take_drop_id)
  then have get: "intsetGetEncoded is (int n) cur = Some (vs ! n)"
    using intsetGetEncoded_prefix [OF cur, of n "take (Suc n) vs" "is" "drop (Suc n * cur) ?c"] n rng
    by (auto dest: in_set_takeD)
  let ?c' = "take ((n + p) * ?e) ?c @ le_bytes ?e (vs ! n) @ drop ((n + p + 1) * ?e) ?c"
  have fits: "(n + p + 1) * ?e \<le> length ?c"
    unfolding Suc.prems(3) using n Suc.prems(2) by (intro mult_le_mono1) simp
  then have set: "intsetSet is (int (n + p)) (vs ! n) = Some (is\<lparr>is_contents := ?c'\<rparr>)"
    using Suc.prems(6) by (rule intsetSet_contents [rotated])
  have below: "n * cur \<le> (n + p) * ?e"
    using Suc.prems(7) by (intro mult_le_mono) simp_all
  have len: "length (take ((n + p) * ?e) ?c) = (n + p) * ?e"
    using fits by (simp add: min_def)
  have tk: "take (n * cur) ?c' = int_encs cur (take n vs)"
  proof -
    have "take (n * cur) ?c' = take (n * cur) ?c"
      using below len by (simp add: min_def)
    also have "\<dots> = take (n * cur) (take (Suc n * cur) ?c)" by (simp add: min_def)
    also have "\<dots> = int_encs cur (take n vs)" unfolding Suc.prems(4) by simp
    finally show ?thesis .
  qed
  have dr: "drop ((n + p) * ?e) ?c' = int_encs ?e (drop n vs) @ rest"
    using len Suc.prems(5) n by (simp add: Cons_nth_drop_Suc [symmetric])
  have "\<exists>bs. intsetUpgrade_loop n (is\<lparr>is_contents := ?c'\<rparr>) cur p = Some (is\<lparr>is_contents := bs\<rparr>) \<and>
      length bs = (length vs + 1) * ?e \<and> drop (p * ?e) bs = int_encs ?e vs @ rest"
    using Suc.IH [of "is\<lparr>is_contents := ?c'\<rparr>"] Suc.prems tk dr fits by (simp add: algebra_simps)
  then show ?case using get set by simp
qed

lemma valueEncoding_cases: "intsetValueEncoding v \<in> {2, 4, 8}"
  by (simp add: intsetValueEncoding_def enc_defs)

lemma valueEncoding_range: "int64_range v \<Longrightarrow> enc_range (intsetValueEncoding v) v"
  by (auto simp: intsetValueEncoding_def enc_defs enc_range_def int64_range_def)

lemma enc_range_mono:
  assumes "enc_range e v" "e \<le> e'" shows "enc_range e' v"
proof -
  have "(2::int) ^ (8 * e - 1) \<le> 2 ^ (8 * e' - 1)"
    using assms(2) by (intro power_increasing) auto
  then show ?thesis using assms(1) unfolding enc_range_def by linarith
qed

lemma valueEncoding_le_iff:
  assumes "e \<in> {2, 4, 8}" "int64_range v"
  shows "intsetValueEncoding v \<le> e \<longleftrightarrow> enc_range e v"
  using assms by (auto simp: intsetValueEncoding_def enc_defs enc_range_def int64_range_def)

lemma wider_value_outside:
  assumes "e < intsetValueEncoding v" "e \<in> {2, 4, 8}" "enc_range e w" "int64_range v"
  shows "if v < 0 then v < w else w < v"
  using assms valueEncoding_le_iff [OF assms(2,4)] by (auto simp: enc_range_def)

lemma intsetUpgradeAndAdd_rep:
  assumes rep: "intset_rep is vs" and small: "length vs < 2 ^ 29 - 1" and v: "int64_range v"
    and wider: "is_encoding is < intsetValueEncoding v"
  shows "\<exists>is'. intsetUpgradeAndAdd garb is v = Some is' \<and>
    intset_rep is' (if v < 0 then v # vs else vs @ [v])"
proof -
  let ?cur = "is_encoding is" and ?new = "intsetValueEncoding v" and ?L = "length vs"
  let ?p = "if v < 0 then 1 else 0 :: nat"
  have cur: "?cur \<in> {2, 4, 8}" and len: "is_length is = ?L" and cont: "is_contents is = int_encs ?cur vs"
    and rng: "\<forall>v \<in> set vs. enc_range ?cur v" using rep by (auto simp: intset_rep_def)
  note new = valueEncoding_cases [of v]
  have lb: "(?L + 1) * ?new < 2 ^ 32" using mult_enc_bound [OF new, of "?L + 1"] small by simp
  define c where "c = mem_resize garb (is_contents is) ((?L + 1) * ?new)"
  let ?is1 = "is\<lparr>is_encoding := ?new, is_contents := c\<rparr>"
  have res: "intsetResize garb (is\<lparr>is_encoding := ?new\<rparr>) (Suc ?L) = ?is1"
    using lb small by (simp add: intsetResize_def c_def)
  have cl: "?L * ?cur \<le> (?L + 1) * ?new" using wider by (intro mult_le_mono) simp_all
  define rest where "rest = drop ((?L + ?p) * ?new) c"
  obtain bs where bs: "intsetUpgrade_loop ?L ?is1 ?cur ?p = Some (?is1\<lparr>is_contents := bs\<rparr>)"
    "length bs = (?L + 1) * ?new" "drop (?p * ?new) bs = int_encs ?new vs @ rest"
  proof -
    have "\<exists>bs. intsetUpgrade_loop ?L ?is1 ?cur ?p = Some (?is1\<lparr>is_contents := bs\<rparr>) \<and>
      length bs = (?L + 1) * is_encoding ?is1 \<and>
      drop (?p * is_encoding ?is1) bs = int_encs (is_encoding ?is1) vs @ rest"
    proof (rule intsetUpgrade_loop_correct [OF cur _ _ rng])
      show "take (?L * ?cur) (is_contents ?is1) = int_encs ?cur (take ?L vs)"
        using cl by (simp add: c_def cont)
    qed (use new wider in \<open>simp_all add: c_def rest_def\<close>)
    then show ?thesis using that by auto
  qed
  have fin: "\<exists>is'. (if ?p = 1 then intsetSet (?is1\<lparr>is_contents := bs\<rparr>) 0 v
      else intsetSet (?is1\<lparr>is_contents := bs\<rparr>) (int ?L) v) = Some is' \<and>
      is_encoding is' = ?new \<and> is_length is' = ?L \<and>
      is_contents is' = int_encs ?new (if v < 0 then v # vs else vs @ [v])"
  proof (cases "v < 0")
    case True
    have "rest = []" using True by (simp add: rest_def c_def)
    then show ?thesis
      using True bs(2,3) new intsetSet_contents [of "?is1\<lparr>is_contents := bs\<rparr>" 0 v] by (simp add: len)
  next
    case False
    have "bs = int_encs ?new vs @ rest" "length rest = ?new"
      using False bs(2,3) by (simp_all add: rest_def c_def)
    then show ?thesis
      using False new intsetSet_contents [of "?is1\<lparr>is_contents := bs\<rparr>" ?L v] by (simp add: len)
  qed
  have "\<forall>w \<in> set vs. enc_range ?new w" "enc_range ?new v"
    using rng wider enc_range_mono valueEncoding_range [OF v] by (auto intro: less_imp_le)
  then have ok: "\<forall>w \<in> set (if v < 0 then v # vs else vs @ [v]). enc_range ?new w" by simp
  obtain is2 where is2: "(if ?p = 1 then intsetSet (?is1\<lparr>is_contents := bs\<rparr>) 0 v
      else intsetSet (?is1\<lparr>is_contents := bs\<rparr>) (int ?L) v) = Some is2"
      "is_encoding is2 = ?new" "is_length is2 = ?L"
      "is_contents is2 = int_encs ?new (if v < 0 then v # vs else vs @ [v])"
    using fin by blast
  have "intsetUpgradeAndAdd garb is v = Some (is2\<lparr>is_length := u32 (is_length is2 + 1)\<rparr>)"
    using small is2(1) bs(1)
    by (cases "v < 0") (simp_all add: intsetUpgradeAndAdd_def len res Let_def)
  moreover have "intset_rep (is2\<lparr>is_length := u32 (is_length is2 + 1)\<rparr>) (if v < 0 then v # vs else vs @ [v])"
    using is2(2-4) ok new small by (simp add: intset_rep_def)
  ultimately show ?thesis by blast
qed

text \<open>What every operation does, on the invariant and the sequence stored.\<close>

lemma intsetAdd_cases:
  assumes inv: "intset_inv is" and small: "is_length is < 2 ^ 29 - 1" and v: "int64_range v"
  shows "\<exists>is'. intsetAdd garb is v = Some (is', v \<notin> set (intset_elems is)) \<and> intset_inv is' \<and>
    set (intset_elems is') = insert v (set (intset_elems is))"
proof -
  let ?vs = "intset_elems is"
  note rep = intset_inv_rep [OF inv]
  have srt: "sorted_wrt (<) ?vs" and enc: "is_encoding is \<in> {2, 4, 8}"
    using inv by (auto simp: intset_inv_def)
  have len: "length ?vs = is_length is" by (simp add: intset_elems_def)
  show ?thesis
  proof (cases "is_encoding is < intsetValueEncoding v")
    case True
    have out: "if v < 0 then v < w else w < v" if "w \<in> set ?vs" for w
      using wider_value_outside [OF True enc _ v] rep that by (auto simp: intset_rep_def)
    then have "v \<notin> set ?vs" by fastforce
    moreover have "sorted_wrt (<) (if v < 0 then v # ?vs else ?vs @ [v])"
      using srt out by (auto simp: sorted_wrt_append)
    ultimately show ?thesis
      using intsetUpgradeAndAdd_rep [OF rep _ v True, of garb] small len True
      by (fastforce simp: intsetAdd_def intset_rep_elems intro: intset_rep_inv)
  next
    case False
    then have er: "enc_range (is_encoding is) v"
      using valueEncoding_le_iff [OF enc v] by simp
    have "length ?vs < 2 ^ 31" using small len by simp
    from intsetSearch_correct [OF rep srt this, of v] obtain found pos where
      s: "intsetSearch is v = Some (found, pos)" "found \<longleftrightarrow> v \<in> set ?vs"
      "\<not> found \<longrightarrow> pos \<le> length ?vs \<and> (\<forall>i < pos. ?vs ! i < v) \<and>
         (\<forall>i. pos \<le> i \<and> i < length ?vs \<longrightarrow> v < ?vs ! i)" by blast
    show ?thesis
    proof (cases found)
      case True
      with False s inv show ?thesis by (auto simp: intsetAdd_def)
    next
      case nf: False
      then have pos: "pos \<le> length ?vs" and srt': "sorted_wrt (<) (take pos ?vs @ v # drop pos ?vs)"
        using s(3) srt by (auto intro: sorted_insert_at)
      from intsetInsert_rep [OF rep pos _ er, of garb] small len obtain is' where
        i: "intsetAdd garb is v = Some (is', True)" "intset_rep is' (take pos ?vs @ v # drop pos ?vs)"
        using False nf s(1) by (auto simp: intsetAdd_def)
      have "set (take pos ?vs @ v # drop pos ?vs) = insert v (set ?vs)"
        by (metis append_take_drop_id list.simps(15) set_append Un_insert_right)
      with i srt' nf s(2) show ?thesis
        by (auto simp: intset_rep_elems intro: intset_rep_inv)
    qed
  qed
qed

lemma intsetRemove_rep:
  assumes rep: "intset_rep is vs" and pos: "pos < length vs" and small: "length vs < 2 ^ 29"
  shows "\<exists>is'. (if pos < length vs - 1 then intsetMoveTail is (pos + 1) pos else Some is) = Some is' \<and>
    intset_rep ((intsetResize garb is' (length vs - 1))\<lparr>is_length := length vs - 1\<rparr>)
      (take pos vs @ drop (Suc pos) vs)"
proof -
  let ?e = "is_encoding is" and ?L = "length vs"
  have e: "?e \<in> {2, 4, 8}" and len: "is_length is = ?L" and cont: "is_contents is = int_encs ?e vs"
    and rng: "\<forall>v \<in> set vs. enc_range ?e v" using rep by (auto simp: intset_rep_def)
  have lb: "?L * ?e < 2 ^ 32" using mult_enc_bound [OF e, of ?L] small by simp
  have "(?L - 1) * ?e \<le> ?L * ?e" by (intro mult_le_mono1) simp
  then have u: "u32 ((?L - 1) * ?e) = (?L - 1) * ?e" using lb by (rule u32_le_id)
  let ?ws = "take pos vs @ drop (Suc pos) vs"
  have wlen: "length ?ws = ?L - 1" using pos by simp
  have ok: "\<forall>v \<in> set ?ws. enc_range ?e v"
    using rng by (auto dest: in_set_takeD in_set_dropD)
  have "\<exists>cs. (if pos < ?L - 1 then intsetMoveTail is (pos + 1) pos else Some is) = Some (is\<lparr>is_contents := int_encs ?e ?ws @ cs\<rparr>)"
  proof (cases "pos < ?L - 1")
    case True
    have "(pos + (?L - Suc pos)) * ?e \<le> ?L * ?e" using pos by (intro mult_le_mono1) simp
    then have mv: "intsetMoveTail is (Suc pos) pos = Some (is\<lparr>is_contents :=
        take (pos * ?e) (is_contents is) @
        take ((?L - Suc pos) * ?e) (drop (Suc pos * ?e) (is_contents is)) @
        drop ((pos + (?L - Suc pos)) * ?e) (is_contents is)\<rparr>)"
      unfolding len [symmetric] by (intro intsetMoveTail_contents e) (use pos lb in \<open>simp_all add: len cont\<close>)
    have "take ((?L - Suc pos) * ?e) (drop (Suc pos * ?e) (is_contents is)) = int_encs ?e (drop (Suc pos) vs)"
      unfolding cont drop_int_encs take_int_encs by simp
    with mv have "intsetMoveTail is (Suc pos) pos = Some (is\<lparr>is_contents :=
        int_encs ?e ?ws @ drop ((pos + (?L - Suc pos)) * ?e) (is_contents is)\<rparr>)"
      by (simp only: cont take_int_encs int_encs_simps append_assoc)
    with True show ?thesis by auto
  next
    case False
    then have "?L = Suc pos" using pos by simp
    then have "is = is\<lparr>is_contents := int_encs ?e ?ws @ int_encs ?e (drop pos vs)\<rparr>"
      using cont by (simp flip: int_encs_simps(3))
    with False show ?thesis by auto
  qed
  then obtain cs where cs: "(if pos < ?L - 1 then intsetMoveTail is (pos + 1) pos else Some is) =
      Some (is\<lparr>is_contents := int_encs ?e ?ws @ cs\<rparr>)" by blast
  have "mem_resize garb (int_encs ?e ?ws @ cs) ((?L - 1) * ?e) = int_encs ?e ?ws"
    by (intro mem_resize_append) (simp only: length_int_encs wlen)
  then have "intset_rep ((intsetResize garb (is\<lparr>is_contents := int_encs ?e ?ws @ cs\<rparr>) (?L - 1))\<lparr>is_length := ?L - 1\<rparr>) ?ws"
    using e ok wlen u by (simp add: intset_rep_def intsetResize_def Let_def)
  with cs show ?thesis by blast
qed

lemma remove_at_sorted:
  assumes "sorted_wrt (<) (vs :: int list)" "pos < length vs"
  shows "sorted_wrt (<) (take pos vs @ drop (Suc pos) vs)"
    "set (take pos vs @ drop (Suc pos) vs) = set vs - {vs ! pos}"
proof -
  let ?a = "take pos vs" and ?b = "drop (Suc pos) vs" and ?x = "vs ! pos"
  have split: "vs = ?a @ ?x # ?b" using assms(2) by (simp add: id_take_nth_drop)
  have s: "sorted_wrt (<) (?a @ ?x # ?b)" using assms(1) split by metis
  then show "sorted_wrt (<) (?a @ ?b)" by (auto simp: sorted_wrt_append)
  have "?x \<notin> set (?a @ ?b)" using s by (fastforce simp: sorted_wrt_append)
  then have "set (?a @ ?b) = set (?a @ ?x # ?b) - {?x}" by auto
  then show "set (?a @ ?b) = set vs - {?x}" using split by metis
qed

lemma intsetRemove_cases:
  assumes inv: "intset_inv is" and small: "is_length is < 2 ^ 29" and v: "int64_range v"
  shows "\<exists>is'. intsetRemove garb is v = Some (is', v \<in> set (intset_elems is)) \<and> intset_inv is' \<and>
    set (intset_elems is') = set (intset_elems is) - {v}"
proof -
  let ?vs = "intset_elems is"
  note rep = intset_inv_rep [OF inv]
  have srt: "sorted_wrt (<) ?vs" and enc: "is_encoding is \<in> {2, 4, 8}"
    using inv by (auto simp: intset_inv_def)
  have len: "length ?vs = is_length is" by (simp add: intset_elems_def)
  show ?thesis
  proof (cases "intsetValueEncoding v \<le> is_encoding is")
    case False
    then have "v \<notin> set ?vs"
      using valueEncoding_le_iff [OF enc v] rep by (auto simp: intset_rep_def)
    with False inv show ?thesis by (auto simp: intsetRemove_def)
  next
    case True
    have "length ?vs < 2 ^ 31" using small len by simp
    from intsetSearch_correct [OF rep srt this, of v] obtain found pos where
      s: "intsetSearch is v = Some (found, pos)" "found \<longleftrightarrow> v \<in> set ?vs"
      "found \<longrightarrow> pos < length ?vs \<and> ?vs ! pos = v" by blast
    show ?thesis
    proof (cases found)
      case False
      with True s inv show ?thesis by (auto simp: intsetRemove_def)
    next
      case f: True
      then have pos: "pos < length ?vs" "?vs ! pos = v" using s(3) by auto
      have "length ?vs < 2 ^ 29" using small len by simp
      from intsetRemove_rep [OF rep pos(1) this, of garb] obtain is' where
        i: "(if pos < length ?vs - 1 then intsetMoveTail is (pos + 1) pos else Some is) = Some is'"
        "intset_rep ((intsetResize garb is' (length ?vs - 1))\<lparr>is_length := length ?vs - 1\<rparr>)
           (take pos ?vs @ drop (Suc pos) ?vs)" by blast
      have "intsetRemove garb is v =
          Some ((intsetResize garb is' (length ?vs - 1))\<lparr>is_length := length ?vs - 1\<rparr>, True)"
        using True f s(1) i(1) by (simp add: intsetRemove_def len Let_def)
      with f s(2) i(2) remove_at_sorted [OF srt pos(1)] pos(2) show ?thesis
        by (auto simp: intset_rep_elems intro: intset_rep_inv)
    qed
  qed
qed

lemma intsetFind_cases:
  assumes inv: "intset_inv is" and small: "is_length is < 2 ^ 31" and v: "int64_range v"
  shows "intsetFind is v = Some (v \<in> set (intset_elems is))"
proof -
  let ?vs = "intset_elems is"
  note rep = intset_inv_rep [OF inv]
  have srt: "sorted_wrt (<) ?vs" and enc: "is_encoding is \<in> {2, 4, 8}"
    using inv by (auto simp: intset_inv_def)
  have "length ?vs < 2 ^ 31" using small by (simp add: intset_elems_def)
  from intsetSearch_correct [OF rep srt this, of v]
  show ?thesis
    using valueEncoding_le_iff [OF enc v] rep by (auto simp: intsetFind_def intset_rep_def)
qed

section \<open>The intset as a set\<close>

definition intset_find :: "intset \<Rightarrow> int \<Rightarrow> (intset \<times> bool) option" where
  "intset_find is v = map_option (\<lambda>b. (is, b)) (intsetFind is v)"

lemma intset_card: "intset_inv is \<Longrightarrow> card (set (intset_elems is)) = is_length is"
  by (simp add: intset_inv_def strict_sorted_iff distinct_card)
     (simp add: intset_elems_def)

interpretation int_set: set_impl intset_inv "\<lambda>is. set (intset_elems is)" int64_range "2 ^ 29 - 1"
  "intsetAdd garb" "intsetRemove garb" intset_find for garb
proof (unfold_locales, goal_cases)
  case (1 s)
  then show ?case by simp
next
  case (2 s x)
  then show ?case using intsetAdd_cases [of s x garb] intset_card [of s] by simp
next
  case (3 s x)
  then show ?case using intsetRemove_cases [of s x garb] intset_card [of s] by simp
next
  case (4 s x)
  then show ?case using intsetFind_cases [of s x] intset_card [of s] by (simp add: intset_find_def)
qed

lemma intsetNew_inv: "intset_inv intsetNew" "intset_elems intsetNew = []"
  by (simp_all add: intset_inv_def intset_elems_def intsetNew_def enc_defs)

end
