(* ===== verification/Dict.thy ===== *)
theory Dict
  imports Set_Interface
begin

text \<open>
  The hash table of \<open>dict.c\<close>: chaining, power-of-two sizes and incremental rehashing over two
  tables. A table is the list of its buckets and a bucket the list of the entries on its
  chain; a pointer to an entry is the table, the bucket and the position in the chain. The
  dictType callbacks are fields of the dict, as in the source; the process-wide flag
  \<open>dict_can_resize\<close> is an argument. Counters that the C code keeps in \<open>unsigned long\<close> wrap at 64
  bits, the \<open>int\<close> index of \<open>_dictKeyIndex\<close> at 32.
\<close>

section \<open>Data\<close>

record ('k, 'v) dictEntry =
  de_key :: 'k
  de_val :: "'v option"  \<comment> \<open>None: allocated, value not yet stored\<close>

record ('k, 'v) dictType =
  hashFunction :: "'k \<Rightarrow> 32 word"
  keyDup :: "('k \<Rightarrow> 'k) option"
  valDup :: "('v \<Rightarrow> 'v) option"
  keyCompare :: "('k \<Rightarrow> 'k \<Rightarrow> bool) option"

record ('k, 'v) dictht =
  ht_table :: "('k, 'v) dictEntry list list"  \<comment> \<open>the empty list is the NULL table\<close>
  ht_size :: nat
  ht_sizemask :: nat
  ht_used :: nat

record ('k, 'v) dict =
  d_type :: "('k, 'v) dictType"
  d_ht0 :: "('k, 'v) dictht"
  d_ht1 :: "('k, 'v) dictht"
  rehashidx :: int
  iterators :: int

type_synonym eref = "nat \<times> nat \<times> nat"

definition DICT_HT_INITIAL_SIZE :: nat where "DICT_HT_INITIAL_SIZE = 4"

definition dict_force_resize_ratio :: nat where "dict_force_resize_ratio = 5"

definition dictEnableResize :: "bool \<Rightarrow> bool" where "dictEnableResize can_resize = True"

definition dictDisableResize :: "bool \<Rightarrow> bool" where "dictDisableResize can_resize = False"

definition dictIsRehashing :: "('k, 'v) dict \<Rightarrow> bool" where
  "dictIsRehashing d \<longleftrightarrow> rehashidx d \<noteq> - 1"

definition dictSize :: "('k, 'v) dict \<Rightarrow> nat" where
  "dictSize d = u64 (ht_used (d_ht0 d) + ht_used (d_ht1 d))"

definition dictSlots :: "('k, 'v) dict \<Rightarrow> nat" where
  "dictSlots d = u64 (ht_size (d_ht0 d) + ht_size (d_ht1 d))"

definition dictHashKey :: "('k, 'v) dict \<Rightarrow> 'k \<Rightarrow> 32 word" where
  "dictHashKey d k = hashFunction (d_type d) k"

definition compareKeys :: "('k, 'v) dictType \<Rightarrow> 'k \<Rightarrow> 'k \<Rightarrow> bool" where
  "compareKeys t k1 k2 = (case keyCompare t of Some f \<Rightarrow> f k1 k2 | None \<Rightarrow> k1 = k2)"

definition dictCompareKeys :: "('k, 'v) dict \<Rightarrow> 'k \<Rightarrow> 'k \<Rightarrow> bool" where
  "dictCompareKeys d = compareKeys (d_type d)"

definition ht_get :: "('k, 'v) dict \<Rightarrow> nat \<Rightarrow> ('k, 'v) dictht" where
  "ht_get d t = (if t = 0 then d_ht0 d else d_ht1 d)"

definition ht_put :: "('k, 'v) dict \<Rightarrow> nat \<Rightarrow> ('k, 'v) dictht \<Rightarrow> ('k, 'v) dict" where
  "ht_put d t ht = (if t = 0 then d\<lparr>d_ht0 := ht\<rparr> else d\<lparr>d_ht1 := ht\<rparr>)"

definition ht_index :: "32 word \<Rightarrow> ('k, 'v) dictht \<Rightarrow> nat" where
  "ht_index h ht = unat h AND ht_sizemask ht"

section \<open>Creation, expansion\<close>

definition dictReset :: "('k, 'v) dictht" where
  "dictReset = \<lparr>ht_table = [], ht_size = 0, ht_sizemask = 0, ht_used = 0\<rparr>"

definition dictInit :: "('k, 'v) dictType \<Rightarrow> ('k, 'v) dict" where
  "dictInit t = \<lparr>d_type = t, d_ht0 = dictReset, d_ht1 = dictReset, rehashidx = - 1, iterators = 0\<rparr>"

definition dictCreate :: "('k, 'v) dictType \<Rightarrow> ('k, 'v) dict" where
  "dictCreate t = dictInit t"

definition LONG_MAX :: nat where "LONG_MAX = 2 ^ 63 - 1"

partial_function (option) dictNextPower_loop :: "nat \<Rightarrow> nat \<Rightarrow> nat option" where
  "dictNextPower_loop i sz = (if i \<ge> sz then Some i else dictNextPower_loop (u64 (i * 2)) sz)"

declare dictNextPower_loop.simps [code]

definition dictNextPower :: "nat \<Rightarrow> nat option" where
  "dictNextPower sz =
     (if sz \<ge> LONG_MAX then Some LONG_MAX else dictNextPower_loop DICT_HT_INITIAL_SIZE sz)"

text \<open>Functions that report DICT_OK or DICT_ERR return the flag \<open>True\<close> for DICT_OK.\<close>

definition dictExpand :: "('k, 'v) dict \<Rightarrow> nat \<Rightarrow> (('k, 'v) dict \<times> bool) option" where
  "dictExpand d sz = do {
     realsize \<leftarrow> dictNextPower sz;
     if dictIsRehashing d \<or> ht_used (d_ht0 d) > sz then Some (d, False)
     else if realsize = ht_size (d_ht0 d) then Some (d, False)
     else (let n = \<lparr>ht_table = replicate realsize [], ht_size = realsize,
                    ht_sizemask = realsize - 1, ht_used = 0\<rparr> in
       if ht_table (d_ht0 d) = [] then Some (d\<lparr>d_ht0 := n\<rparr>, True)
       else Some (d\<lparr>d_ht1 := n, rehashidx := 0\<rparr>, True)) }"

text \<open>\<open>int minimal = ht[0].used\<close> keeps the low 32 bits; the call sign-extends them again.\<close>

definition dictResize :: "bool \<Rightarrow> ('k, 'v) dict \<Rightarrow> (('k, 'v) dict \<times> bool) option" where
  "dictResize can_resize d =
     (if \<not> can_resize \<or> dictIsRehashing d then Some (d, False)
      else (let minimal = s32 (int (ht_used (d_ht0 d)));
                minimal = (if minimal < int DICT_HT_INITIAL_SIZE then int DICT_HT_INITIAL_SIZE else minimal)
            in dictExpand d (nat (minimal mod 2 ^ 64))))"

definition dictExpandIfNeeded :: "bool \<Rightarrow> ('k, 'v) dict \<Rightarrow> (('k, 'v) dict \<times> bool) option" where
  "dictExpandIfNeeded can_resize d =
     (if dictIsRehashing d then Some (d, True)
      else if ht_size (d_ht0 d) = 0 then dictExpand d DICT_HT_INITIAL_SIZE
      else if ht_used (d_ht0 d) \<ge> ht_size (d_ht0 d) \<and>
        (can_resize \<or> ht_used (d_ht0 d) div ht_size (d_ht0 d) > dict_force_resize_ratio)
      then dictExpand d (u64 (ht_used (d_ht0 d) * 2))
      else Some (d, True))"

section \<open>Incremental rehashing\<close>

text \<open>The loop that moves the chain of one bucket into the second table.\<close>

fun rehash_bucket :: "('k, 'v) dictEntry list \<Rightarrow> ('k, 'v) dict \<Rightarrow> ('k, 'v) dict option" where
  "rehash_bucket [] d = Some d"
| "rehash_bucket (de # des) d =
     (let h = ht_index (dictHashKey d (de_key de)) (d_ht1 d) in do {
        chain \<leftarrow> mem_get (ht_table (d_ht1 d)) h;
        tab \<leftarrow> mem_set (ht_table (d_ht1 d)) h (de # chain);
        rehash_bucket des (d\<lparr>d_ht0 := (d_ht0 d)\<lparr>ht_used := dec64 (ht_used (d_ht0 d))\<rparr>,
          d_ht1 := (d_ht1 d)\<lparr>ht_table := tab, ht_used := inc64 (ht_used (d_ht1 d))\<rparr>\<rparr>) })"

text \<open>
  The loop over empty buckets: the index reached, the visits left, and whether the function
  returns from inside it.
\<close>

function skip_empty :: "'a list list \<Rightarrow> nat \<Rightarrow> int \<Rightarrow> (nat \<times> int \<times> bool) option" where
  "skip_empty tab i empty_visits =
     (if i \<ge> length tab then None
      else if tab ! i = [] then
        (if empty_visits - 1 = 0 then Some (Suc i, 0, True)
         else skip_empty tab (Suc i) (empty_visits - 1))
      else Some (i, empty_visits, False))"
  by pat_completeness auto
termination
  by (relation "measure (\<lambda>(tab, i, v). length tab - i)") auto

declare skip_empty.simps [simp del]

primrec dictRehash_loop :: "nat \<Rightarrow> int \<Rightarrow> ('k, 'v) dict \<Rightarrow> (('k, 'v) dict \<times> bool) option" where
  "dictRehash_loop 0 empty_visits d = Some (d, False)"
| "dictRehash_loop (Suc n) empty_visits d =
     (if ht_used (d_ht0 d) = 0 then Some (d, False)
      else if rehashidx d < 0 \<or> int (ht_size (d_ht0 d)) \<le> rehashidx d then None
      else do {
        (i, empty_visits, stop) \<leftarrow> skip_empty (ht_table (d_ht0 d)) (nat (rehashidx d)) empty_visits;
        d \<leftarrow> Some (d\<lparr>rehashidx := int i\<rparr>);
        if stop then Some (d, True)
        else do {
          bucket \<leftarrow> mem_get (ht_table (d_ht0 d)) i;
          d \<leftarrow> rehash_bucket bucket d;
          tab \<leftarrow> mem_set (ht_table (d_ht0 d)) i [];
          dictRehash_loop n empty_visits
            (d\<lparr>d_ht0 := (d_ht0 d)\<lparr>ht_table := tab\<rparr>, rehashidx := rehashidx d + 1\<rparr>) } })"

text \<open>The flag is the return value: whether there are still keys to move.\<close>

definition dictRehash :: "('k, 'v) dict \<Rightarrow> nat \<Rightarrow> (('k, 'v) dict \<times> bool) option" where
  "dictRehash d n =
     (if \<not> dictIsRehashing d then Some (d, False)
      else do {
        (d, early) \<leftarrow> dictRehash_loop n (int n * 10) d;
        if early then Some (d, True)
        else if ht_used (d_ht0 d) = 0 then
          Some (d\<lparr>d_ht0 := d_ht1 d, d_ht1 := dictReset, rehashidx := - 1\<rparr>, False)
        else Some (d, True) })"

definition dictRehashStep :: "('k, 'v) dict \<Rightarrow> ('k, 'v) dict option" where
  "dictRehashStep d = (if iterators d = 0 then map_option fst (dictRehash d 1) else Some d)"

section \<open>Lookup, insertion, deletion\<close>

fun find_pos :: "('a \<Rightarrow> bool) \<Rightarrow> 'a list \<Rightarrow> nat option" where
  "find_pos P [] = None"
| "find_pos P (x # xs) = (if P x then Some 0 else map_option Suc (find_pos P xs))"

text \<open>
  The loop over the two tables that \<open>dictFind\<close>, \<open>dictGenericDelete\<close> and \<open>_dictKeyIndex\<close> share:
  the entry found, and the bucket index in the last table visited.
\<close>

definition dict_search :: "('k, 'v) dict \<Rightarrow> 'k \<Rightarrow> (eref option \<times> nat) option" where
  "dict_search d key =
     (let h = dictHashKey d key; idx0 = ht_index h (d_ht0 d) in do {
        chain0 \<leftarrow> mem_get (ht_table (d_ht0 d)) idx0;
        case find_pos (\<lambda>he. dictCompareKeys d key (de_key he)) chain0 of
          Some p \<Rightarrow> Some (Some (0, idx0, p), idx0)
        | None \<Rightarrow>
            if \<not> dictIsRehashing d then Some (None, idx0)
            else (let idx1 = ht_index h (d_ht1 d) in do {
              chain1 \<leftarrow> mem_get (ht_table (d_ht1 d)) idx1;
              case find_pos (\<lambda>he. dictCompareKeys d key (de_key he)) chain1 of
                Some p \<Rightarrow> Some (Some (1, idx1, p), idx1)
              | None \<Rightarrow> Some (None, idx1) }) })"

definition dictFind :: "('k, 'v) dict \<Rightarrow> 'k \<Rightarrow> (('k, 'v) dict \<times> eref option) option" where
  "dictFind d key =
     (if ht_size (d_ht0 d) = 0 then Some (d, None)
      else do {
        d \<leftarrow> (if dictIsRehashing d then dictRehashStep d else Some d);
        (r, _) \<leftarrow> dict_search d key;
        Some (d, r) })"

definition entry_at :: "('k, 'v) dict \<Rightarrow> eref \<Rightarrow> ('k, 'v) dictEntry option" where
  "entry_at d r = (case r of (t, i, p) \<Rightarrow> do {
     chain \<leftarrow> mem_get (ht_table (ht_get d t)) i;
     mem_get chain p })"

definition dictSetVal :: "('k, 'v) dict \<Rightarrow> eref \<Rightarrow> 'v \<Rightarrow> ('k, 'v) dict option" where
  "dictSetVal d r val = (case r of (t, i, p) \<Rightarrow> do {
     chain \<leftarrow> mem_get (ht_table (ht_get d t)) i;
     e \<leftarrow> mem_get chain p;
     let v = (case valDup (d_type d) of Some f \<Rightarrow> f val | None \<Rightarrow> val);
     chain \<leftarrow> mem_set chain p (e\<lparr>de_val := Some v\<rparr>);
     tab \<leftarrow> mem_set (ht_table (ht_get d t)) i chain;
     Some (ht_put d t ((ht_get d t)\<lparr>ht_table := tab\<rparr>)) })"

text \<open>\<open>Some (d, None)\<close> is the NULL result; an entry whose value was never stored reads as undefined.\<close>

definition dictFetchValue :: "('k, 'v) dict \<Rightarrow> 'k \<Rightarrow> (('k, 'v) dict \<times> 'v option) option" where
  "dictFetchValue d key = do {
     (d, r) \<leftarrow> dictFind d key;
     case r of None \<Rightarrow> Some (d, None)
     | Some r \<Rightarrow> do { e \<leftarrow> entry_at d r; v \<leftarrow> de_val e; Some (d, Some v) } }"

text \<open>The index is computed as \<open>unsigned int\<close> and returned as \<open>int\<close>.\<close>

definition dictKeyIndex :: "bool \<Rightarrow> ('k, 'v) dict \<Rightarrow> 'k \<Rightarrow> (('k, 'v) dict \<times> int) option" where
  "dictKeyIndex can_resize d key = do {
     (d, ok) \<leftarrow> dictExpandIfNeeded can_resize d;
     if \<not> ok then Some (d, - 1)
     else do {
       (r, idx) \<leftarrow> dict_search d key;
       Some (d, case r of Some _ \<Rightarrow> - 1 | None \<Rightarrow> s32 (int idx)) } }"

definition dictAddRaw :: "bool \<Rightarrow> ('k, 'v) dict \<Rightarrow> 'k \<Rightarrow> (('k, 'v) dict \<times> eref option) option" where
  "dictAddRaw can_resize d key = do {
     d \<leftarrow> (if dictIsRehashing d then dictRehashStep d else Some d);
     (d, index) \<leftarrow> dictKeyIndex can_resize d key;
     if index = - 1 then Some (d, None)
     else if index < 0 then None
     else (let t = (if dictIsRehashing d then 1 else 0); ht = ht_get d t; i = nat index;
               k = (case keyDup (d_type d) of Some f \<Rightarrow> f key | None \<Rightarrow> key) in do {
       chain \<leftarrow> mem_get (ht_table ht) i;
       tab \<leftarrow> mem_set (ht_table ht) i (\<lparr>de_key = k, de_val = None\<rparr> # chain);
       Some (ht_put d t (ht\<lparr>ht_table := tab, ht_used := inc64 (ht_used ht)\<rparr>), Some (t, i, 0)) }) }"

definition dictAdd :: "bool \<Rightarrow> ('k, 'v) dict \<Rightarrow> 'k \<Rightarrow> 'v \<Rightarrow> (('k, 'v) dict \<times> bool) option" where
  "dictAdd can_resize d key val = do {
     (d, entry) \<leftarrow> dictAddRaw can_resize d key;
     case entry of None \<Rightarrow> Some (d, False)
     | Some r \<Rightarrow> do { d \<leftarrow> dictSetVal d r val; Some (d, True) } }"

text \<open>The flag is the return value 1: the key was added from scratch.\<close>

definition dictReplace :: "bool \<Rightarrow> ('k, 'v) dict \<Rightarrow> 'k \<Rightarrow> 'v \<Rightarrow> (('k, 'v) dict \<times> bool) option" where
  "dictReplace can_resize d key val = do {
     (d, ok) \<leftarrow> dictAdd can_resize d key val;
     if ok then Some (d, True)
     else do {
       (d, entry) \<leftarrow> dictFind d key;
       case entry of None \<Rightarrow> None
       | Some r \<Rightarrow> do { d \<leftarrow> dictSetVal d r val; Some (d, False) } } }"

definition dictReplaceRaw :: "bool \<Rightarrow> ('k, 'v) dict \<Rightarrow> 'k \<Rightarrow> (('k, 'v) dict \<times> eref option) option" where
  "dictReplaceRaw can_resize d key = do {
     (d, entry) \<leftarrow> dictFind d key;
     case entry of Some r \<Rightarrow> Some (d, Some r) | None \<Rightarrow> dictAddRaw can_resize d key }"

text \<open>Freeing a key or a value has no effect inside the model, so \<open>nofree\<close> has none either.\<close>

definition dictGenericDelete :: "('k, 'v) dict \<Rightarrow> 'k \<Rightarrow> bool \<Rightarrow> (('k, 'v) dict \<times> bool) option" where
  "dictGenericDelete d key nofree =
     (if ht_size (d_ht0 d) = 0 then Some (d, False)
      else do {
        d \<leftarrow> (if dictIsRehashing d then dictRehashStep d else Some d);
        (r, _) \<leftarrow> dict_search d key;
        case r of None \<Rightarrow> Some (d, False)
        | Some (t, i, p) \<Rightarrow> (let ht = ht_get d t in do {
            chain \<leftarrow> mem_get (ht_table ht) i;
            tab \<leftarrow> mem_set (ht_table ht) i (take p chain @ drop (Suc p) chain);
            Some (ht_put d t (ht\<lparr>ht_table := tab, ht_used := dec64 (ht_used ht)\<rparr>), True) }) })"

definition dictDelete :: "('k, 'v) dict \<Rightarrow> 'k \<Rightarrow> (('k, 'v) dict \<times> bool) option" where
  "dictDelete d key = dictGenericDelete d key False"

definition dictDeleteNoFree :: "('k, 'v) dict \<Rightarrow> 'k \<Rightarrow> (('k, 'v) dict \<times> bool) option" where
  "dictDeleteNoFree d key = dictGenericDelete d key True"

definition dictClear :: "('k, 'v) dictht \<Rightarrow> ('k, 'v) dictht" where
  "dictClear ht = dictReset"

definition dictEmpty :: "('k, 'v) dict \<Rightarrow> ('k, 'v) dict" where
  "dictEmpty d = d\<lparr>d_ht0 := dictClear (d_ht0 d), d_ht1 := dictClear (d_ht1 d), rehashidx := - 1, iterators := 0\<rparr>"

end
