(* ===== verification/Dict_Inv.thy ===== *)
theory Dict_Inv
  imports Dict "HOL-Library.Multiset"
begin

text \<open>
  The representation invariant of the dict and what incremental rehashing keeps: the multiset
  of entries, the placement of every entry in the bucket its hash selects, and the two
  counters. The contents of a dict are read as a map on key classes, the classes of keys that
  the \<open>keyCompare\<close> callback identifies.
\<close>

section \<open>Invariant\<close>

text \<open>
  What the callbacks must satisfy: comparison is an equivalence, equal keys hash alike, and a
  duplicated key equals the original.
\<close>

definition dtype_ok :: "('k, 'v) dictType \<Rightarrow> bool" where
  "dtype_ok t \<longleftrightarrow> equivp (compareKeys t) \<and>
     (\<forall>a b. compareKeys t a b \<longrightarrow> hashFunction t a = hashFunction t b) \<and>
     (\<forall>f a. keyDup t = Some f \<longrightarrow> compareKeys t (f a) a)"

definition ht_ents :: "('k, 'v) dictht \<Rightarrow> ('k, 'v) dictEntry list" where
  "ht_ents ht = concat (ht_table ht)"

definition ht_wf :: "('k, 'v) dictType \<Rightarrow> ('k, 'v) dictht \<Rightarrow> bool" where
  "ht_wf t ht \<longleftrightarrow>
     (\<exists>p. 2 \<le> p \<and> p \<le> 31 \<and> ht_size ht = 2 ^ p \<and> ht_sizemask ht = 2 ^ p - 1) \<and>
     length (ht_table ht) = ht_size ht \<and> ht_used ht = length (ht_ents ht) \<and>
     (\<forall>i < ht_size ht. \<forall>e \<in> set (ht_table ht ! i). ht_index (hashFunction t (de_key e)) ht = i)"

definition dict_ents :: "('k, 'v) dict \<Rightarrow> ('k, 'v) dictEntry list" where
  "dict_ents d = ht_ents (d_ht0 d) @ ht_ents (d_ht1 d)"

definition rehash_wf :: "('k, 'v) dict \<Rightarrow> bool" where
  "rehash_wf d \<longleftrightarrow> ht_wf (d_type d) (d_ht0 d) \<and> ht_wf (d_type d) (d_ht1 d) \<and>
     0 \<le> rehashidx d \<and> rehashidx d \<le> int (ht_size (d_ht0 d)) \<and>
     (\<forall>i < nat (rehashidx d). ht_table (d_ht0 d) ! i = [])"

definition stable_wf :: "('k, 'v) dict \<Rightarrow> bool" where
  "stable_wf d \<longleftrightarrow> (d_ht0 d = dictReset \<or> ht_wf (d_type d) (d_ht0 d)) \<and> d_ht1 d = dictReset"

definition key_class :: "('k, 'v) dict \<Rightarrow> 'k \<Rightarrow> 'k \<Rightarrow> bool" where
  "key_class d k = compareKeys (d_type d) k"

definition dict_inv :: "('k, 'v) dict \<Rightarrow> bool" where
  "dict_inv d \<longleftrightarrow> dtype_ok (d_type d) \<and> length (dict_ents d) < 2 ^ 63 \<and>
     distinct (map (\<lambda>e. key_class d (de_key e)) (dict_ents d)) \<and>
     (if dictIsRehashing d then rehash_wf d else stable_wf d)"

text \<open>The map a dict stands for.\<close>

definition dict_map :: "('k, 'v) dict \<Rightarrow> 'k \<Rightarrow> 'v option option" where
  "dict_map d k = map_of (map (\<lambda>e. (key_class d (de_key e), de_val e)) (dict_ents d)) (key_class d k)"

section \<open>Buckets\<close>

lemma mset_concat_update:
  "i < length xs \<Longrightarrow> mset (concat (xs[i := ys])) + mset (xs ! i) = mset (concat xs) + mset ys"
proof (induction xs arbitrary: i)
  case (Cons x xs)
  show ?case
  proof (cases i)
    case (Suc j)
    then have "mset (concat (xs[j := ys])) + mset (xs ! j) = mset (concat xs) + mset ys"
      using Cons by simp
    with Suc show ?thesis by (simp add: add.assoc)
  qed simp
qed simp

lemma and_mask_less: "(x::nat) AND (2 ^ p - 1) < 2 ^ p"
proof -
  have "x AND (2 ^ p - 1) = take_bit p x" by (simp add: take_bit_eq_mask mask_eq_exp_minus_1)
  then show ?thesis by simp
qed

lemma ht_index_bound: "ht_wf t ht \<Longrightarrow> ht_index h ht < ht_size ht"
  using and_mask_less by (auto simp: ht_wf_def ht_index_def)

lemma ht_wf_size: "ht_wf t ht \<Longrightarrow> 0 < ht_size ht \<and> ht_size ht \<le> 2 ^ 31"
  using power_increasing [of _ 31 "2::nat"] by (auto simp: ht_wf_def)

lemma ht_wf_table: "ht_wf t ht \<Longrightarrow> length (ht_table ht) = ht_size ht"
  by (simp add: ht_wf_def)

lemma ht_wf_used: "ht_wf t ht \<Longrightarrow> ht_used ht = length (ht_ents ht)"
  by (simp add: ht_wf_def)

lemma ht_wf_update:
  assumes "ht_wf t ht" "i < ht_size ht"
    "\<forall>e \<in> set b. ht_index (hashFunction t (de_key e)) ht = i"
    "u = length (concat ((ht_table ht)[i := b]))"
  shows "ht_wf t (ht\<lparr>ht_table := (ht_table ht)[i := b], ht_used := u\<rparr>)"
  using assms by (auto simp: ht_wf_def ht_ents_def ht_index_def nth_list_update)

lemma length_concat_update:
  "i < length xs \<Longrightarrow> length (concat (xs[i := ys])) + length (xs ! i) = length (concat xs) + length ys"
  using mset_concat_update [of i xs ys] by (metis mset_append size_mset size_union)

lemma bucket_length_le: "i < length xs \<Longrightarrow> length (xs ! i) \<le> length (concat xs)"
  using length_concat_update [of i xs "[]"] by simp

lemma ht_ents_reset [simp]: "ht_ents dictReset = []"
  by (simp add: ht_ents_def dictReset_def)

section \<open>Rehashing\<close>

text \<open>What one rehashing action may change: where the entries are, never which they are.\<close>

definition same_contents :: "('k, 'v) dict \<Rightarrow> ('k, 'v) dict \<Rightarrow> bool" where
  "same_contents d d' \<longleftrightarrow> d_type d' = d_type d \<and> iterators d' = iterators d \<and>
     mset (dict_ents d') = mset (dict_ents d)"

lemma same_contents_refl [simp]: "same_contents d d"
  by (simp add: same_contents_def)

lemma same_contents_trans: "same_contents a b \<Longrightarrow> same_contents b c \<Longrightarrow> same_contents a c"
  by (simp add: same_contents_def)

lemma rehash_bucket_correct:
  assumes "ht_wf (d_type d) (d_ht1 d)" "length des \<le> ht_used (d_ht0 d)" "ht_used (d_ht0 d) < 2 ^ 63"
    "length des + ht_used (d_ht1 d) < 2 ^ 63"
  shows "\<exists>ht. rehash_bucket des d = Some (d\<lparr>d_ht0 := (d_ht0 d)\<lparr>ht_used := ht_used (d_ht0 d) - length des\<rparr>,
      d_ht1 := ht\<rparr>) \<and> ht_wf (d_type d) ht \<and> mset (ht_ents ht) = mset des + mset (ht_ents (d_ht1 d))"
  using assms
proof (induction des arbitrary: d)
  case (Cons de des)
  let ?h = "ht_index (dictHashKey d (de_key de)) (d_ht1 d)" and ?ht = "d_ht1 d"
  let ?b = "de # ht_table ?ht ! ?h"
  have h: "?h < ht_size ?ht" "?h < length (ht_table ?ht)"
    using ht_index_bound [OF Cons.prems(1)] ht_wf_table [OF Cons.prems(1)] by simp_all
  have used: "Suc (ht_used ?ht) = length (concat ((ht_table ?ht)[?h := ?b]))"
    using length_concat_update [OF h(2), of ?b] ht_wf_used [OF Cons.prems(1)] by (simp add: ht_ents_def)
  let ?ht' = "?ht\<lparr>ht_table := (ht_table ?ht)[?h := ?b], ht_used := Suc (ht_used ?ht)\<rparr>"
  have wf: "ht_wf (d_type d) ?ht'"
    by (rule ht_wf_update [OF Cons.prems(1) h(1) _ used])
       (use Cons.prems(1) h(1) in \<open>auto simp: ht_wf_def dictHashKey_def\<close>)
  have ms: "mset (ht_ents ?ht') = mset (ht_ents ?ht) + {#de#}"
    using mset_concat_update [OF h(2), of ?b] by (simp add: ht_ents_def)
  have id: "inc64 (ht_used ?ht) = Suc (ht_used ?ht)" "dec64 (ht_used (d_ht0 d)) = ht_used (d_ht0 d) - 1"
    using Cons.prems inc64_id [of "ht_used ?ht"] dec64_id [of "ht_used (d_ht0 d)"] by simp_all
  define d1 where "d1 = d\<lparr>d_ht0 := (d_ht0 d)\<lparr>ht_used := ht_used (d_ht0 d) - 1\<rparr>, d_ht1 := ?ht'\<rparr>"
  have d1: "d_type d1 = d_type d" "d_ht1 d1 = ?ht'" "ht_used (d_ht0 d1) = ht_used (d_ht0 d) - 1"
    by (simp_all add: d1_def)
  obtain ht where ht: "rehash_bucket des d1 = Some (d1\<lparr>d_ht0 := (d_ht0 d1)\<lparr>ht_used := ht_used (d_ht0 d1) - length des\<rparr>,
      d_ht1 := ht\<rparr>)" "ht_wf (d_type d1) ht" "mset (ht_ents ht) = mset des + mset (ht_ents (d_ht1 d1))"
  proof -
    have "length des \<le> ht_used (d_ht0 d1)" "ht_used (d_ht0 d1) < 2 ^ 63"
      "length des + ht_used (d_ht1 d1) < 2 ^ 63" using Cons.prems(2-4) d1 by simp_all
    from Cons.IH [OF _ this] wf d1 that show ?thesis by force
  qed
  have step: "rehash_bucket (de # des) d = rehash_bucket des d1"
    using h(2) id by (simp add: mem_get_def mem_set_def Let_def d1_def)
  have "rehash_bucket (de # des) d = Some (d\<lparr>d_ht0 := (d_ht0 d)\<lparr>ht_used := ht_used (d_ht0 d) - length (de # des)\<rparr>,
      d_ht1 := ht\<rparr>)"
    unfolding step ht(1) by (simp add: d1_def)
  moreover have "mset (ht_ents ht) = mset (de # des) + mset (ht_ents (d_ht1 d))"
    using ht(3) ms d1(2) by simp
  ultimately show ?case using ht(2) d1(1) by auto
qed (auto intro!: exI [of _ "d_ht1 _"])

lemma skip_empty_correct:
  assumes "i \<le> j" "j < length tab" "tab ! j \<noteq> []"
  shows "\<exists>i' ev' stop. skip_empty tab i ev = Some (i', ev', stop) \<and> i \<le> i' \<and> i' \<le> j \<and>
    (\<forall>k. i \<le> k \<and> k < i' \<longrightarrow> tab ! k = []) \<and> (\<not> stop \<longrightarrow> tab ! i' \<noteq> [])"
  using assms
proof (induction tab i ev rule: skip_empty.induct)
  case (1 tab i ev)
  show ?case
  proof (cases "tab ! i = []")
    case False
    with "1.prems" show ?thesis by (subst skip_empty.simps) auto
  next
    case True
    then have ij: "Suc i \<le> j" using "1.prems" by (metis Suc_leI le_neq_implies_less)
    show ?thesis
    proof (cases "ev - 1 = 0")
      case stop: True
      have "skip_empty tab i ev = Some (Suc i, 0, True)"
        using True stop "1.prems" by (subst skip_empty.simps) simp
      moreover have "\<forall>k. i \<le> k \<and> k < Suc i \<longrightarrow> tab ! k = []"
        using True by (metis le_antisym less_Suc_eq_le)
      ultimately show ?thesis using ij by (intro exI [of _ "Suc i"] exI [of _ 0] exI [of _ True]) simp
    next
      case False
      have lt: "\<not> i \<ge> length tab" using "1.prems" by simp
      from "1.IH" [OF lt True False ij "1.prems"(2,3)] obtain i' ev' stop where r: "skip_empty tab (Suc i) (ev - 1) = Some (i', ev', stop)" "Suc i \<le> i'"
        "i' \<le> j" "\<forall>k. Suc i \<le> k \<and> k < i' \<longrightarrow> tab ! k = []" "\<not> stop \<longrightarrow> tab ! i' \<noteq> []"
        by blast
      have upto: "\<forall>k. i \<le> k \<and> k < i' \<longrightarrow> tab ! k = []"
      proof (intro allI impI)
        fix k assume k: "i \<le> k \<and> k < i'"
        then have "k = i \<or> Suc i \<le> k" by auto
        with k r(4) True show "tab ! k = []" by auto
      qed
      have "skip_empty tab i ev = Some (i', ev', stop)"
        using lt True False r(1) by (subst skip_empty.simps) simp
      with r upto show ?thesis by (intro exI [of _ i'] exI [of _ ev'] exI [of _ stop]) auto
    qed
  qed
qed

lemma nonempty_bucket:
  assumes "concat tab \<noteq> []" "\<forall>i < n. tab ! i = []"
  shows "\<exists>j. n \<le> j \<and> j < length tab \<and> tab ! j \<noteq> []"
  using assms by (metis concat_eq_Nil_conv in_set_conv_nth linorder_not_less)

text \<open>Moving one whole bucket: the entries stay the same, the bucket left behind is empty.\<close>

lemma rehash_move_bucket:
  assumes wf: "rehash_wf d" and small: "length (dict_ents d) < 2 ^ 63"
    and i: "nat (rehashidx d) \<le> i" "i < ht_size (d_ht0 d)"
      "\<forall>k. nat (rehashidx d) \<le> k \<and> k < i \<longrightarrow> ht_table (d_ht0 d) ! k = []"
  shows "\<exists>d1 tab. rehash_bucket (ht_table (d_ht0 d) ! i) (d\<lparr>rehashidx := int i\<rparr>) = Some d1 \<and>
    mem_set (ht_table (d_ht0 d1)) i [] = Some tab \<and>
    rehash_wf (d1\<lparr>d_ht0 := (d_ht0 d1)\<lparr>ht_table := tab\<rparr>, rehashidx := rehashidx d1 + 1\<rparr>) \<and>
    same_contents d (d1\<lparr>d_ht0 := (d_ht0 d1)\<lparr>ht_table := tab\<rparr>, rehashidx := rehashidx d1 + 1\<rparr>)"
proof -
  let ?h0 = "d_ht0 d" and ?b = "ht_table (d_ht0 d) ! i" and ?d = "d\<lparr>rehashidx := int i\<rparr>"
  have w: "ht_wf (d_type d) ?h0" "ht_wf (d_type d) (d_ht1 d)" and low: "\<forall>k < nat (rehashidx d). ht_table ?h0 ! k = []"
    using wf by (auto simp: rehash_wf_def)
  have len: "i < length (ht_table ?h0)" using i(2) ht_wf_table [OF w(1)] by simp
  have u: "ht_used ?h0 = length (ht_ents ?h0)" "ht_used (d_ht1 d) = length (ht_ents (d_ht1 d))"
    using w by (simp_all add: ht_wf_used)
  have bl: "length ?b \<le> ht_used ?h0" using bucket_length_le [OF len] u by (simp add: ht_ents_def)
  have tot: "ht_used ?h0 + ht_used (d_ht1 d) < 2 ^ 63" using small u by (simp add: dict_ents_def)
  obtain ht where ht: "rehash_bucket ?b ?d = Some (?d\<lparr>d_ht0 := ?h0\<lparr>ht_used := ht_used ?h0 - length ?b\<rparr>, d_ht1 := ht\<rparr>)"
    "ht_wf (d_type d) ht" "mset (ht_ents ht) = mset ?b + mset (ht_ents (d_ht1 d))"
    using rehash_bucket_correct [of ?d ?b] w(2) bl tot by auto
  let ?d1 = "?d\<lparr>d_ht0 := ?h0\<lparr>ht_used := ht_used ?h0 - length ?b\<rparr>, d_ht1 := ht\<rparr>"
  let ?tab = "(ht_table ?h0)[i := []]"
  let ?d2 = "?d1\<lparr>d_ht0 := (d_ht0 ?d1)\<lparr>ht_table := ?tab\<rparr>, rehashidx := rehashidx ?d1 + 1\<rparr>"
  have lc: "length (concat ?tab) + length ?b = length (ht_ents ?h0)"
    using length_concat_update [OF len, of "[]"] by (simp add: ht_ents_def)
  have wf0: "ht_wf (d_type d) (?h0\<lparr>ht_used := ht_used ?h0 - length ?b, ht_table := ?tab\<rparr>)"
  proof -
    have eq: "ht_used ?h0 - length ?b = length (concat ?tab)" using lc u by simp
    have "?h0\<lparr>ht_used := ht_used ?h0 - length ?b, ht_table := ?tab\<rparr> =
        ?h0\<lparr>ht_table := ?tab, ht_used := length (concat ?tab)\<rparr>"
      unfolding eq by (rule dictht.equality) simp_all
    then show ?thesis using ht_wf_update [OF w(1) i(2) _ refl, of "[]"] by simp
  qed
  have "ht_table ?h0 ! k = []" if "k < i" for k
    using that i(3) low by (metis not_less)
  then have empt: "?tab ! k = []" if "k < Suc i" for k
    using that len by (auto simp: less_Suc_eq nth_list_update)
  have "rehash_wf ?d2"
    using wf0 ht(2) i(2) empt by (simp add: rehash_wf_def nat_add_distrib)
  moreover have "same_contents d ?d2"
    using ht(3) mset_concat_update [OF len, of "[]"]
    by (simp add: same_contents_def dict_ents_def ht_ents_def)
  moreover have "mem_set (ht_table (d_ht0 ?d1)) i [] = Some ?tab" using len by (simp add: mem_set_def)
  ultimately show ?thesis using ht(1) by blast
qed

lemma dictRehash_loop_correct:
  assumes "rehash_wf d" "length (dict_ents d) < 2 ^ 63"
  shows "\<exists>d' stop. dictRehash_loop n ev d = Some (d', stop) \<and> rehash_wf d' \<and> same_contents d d'"
  using assms
proof (induction n arbitrary: ev d)
  case (Suc n)
  let ?h0 = "d_ht0 d"
  have w: "ht_wf (d_type d) ?h0" and low: "\<forall>k < nat (rehashidx d). ht_table ?h0 ! k = []"
    and idx: "0 \<le> rehashidx d" "rehashidx d \<le> int (ht_size ?h0)"
    using Suc.prems(1) by (auto simp: rehash_wf_def)
  show ?case
  proof (cases "ht_used ?h0 = 0")
    case True
    with Suc.prems show ?thesis by auto
  next
    case False
    then have "concat (ht_table ?h0) \<noteq> []" using ht_wf_used [OF w] by (simp add: ht_ents_def)
    then obtain j where j: "nat (rehashidx d) \<le> j" "j < length (ht_table ?h0)" "ht_table ?h0 ! j \<noteq> []"
      using nonempty_bucket low by metis
    from skip_empty_correct [OF j, of ev] obtain i ev' stop where
      sk: "skip_empty (ht_table ?h0) (nat (rehashidx d)) ev = Some (i, ev', stop)"
      "nat (rehashidx d) \<le> i" "i \<le> j" "\<forall>k. nat (rehashidx d) \<le> k \<and> k < i \<longrightarrow> ht_table ?h0 ! k = []"
      by blast
    have guard: "\<not> (rehashidx d < 0 \<or> int (ht_size ?h0) \<le> rehashidx d)"
      using j ht_wf_table [OF w] idx by simp
    have i: "i < ht_size ?h0" using sk(3) j(2) ht_wf_table [OF w] by simp
    show ?thesis
    proof (cases stop)
      case True
      have "ht_table ?h0 ! k = []" if "k < i" for k
        using that sk(4) low by (metis not_less)
      then have "rehash_wf (d\<lparr>rehashidx := int i\<rparr>)" using Suc.prems(1) i by (simp add: rehash_wf_def)
      moreover have "same_contents d (d\<lparr>rehashidx := int i\<rparr>)" by (simp add: same_contents_def dict_ents_def)
      ultimately show ?thesis using True False guard sk(1) by auto
    next
      case cont: False
      from rehash_move_bucket [OF Suc.prems sk(2) i sk(4)] obtain d1 tab where
        m: "rehash_bucket (ht_table ?h0 ! i) (d\<lparr>rehashidx := int i\<rparr>) = Some d1"
        "mem_set (ht_table (d_ht0 d1)) i [] = Some tab"
        "rehash_wf (d1\<lparr>d_ht0 := (d_ht0 d1)\<lparr>ht_table := tab\<rparr>, rehashidx := rehashidx d1 + 1\<rparr>)"
        "same_contents d (d1\<lparr>d_ht0 := (d_ht0 d1)\<lparr>ht_table := tab\<rparr>, rehashidx := rehashidx d1 + 1\<rparr>)"
        by blast
      let ?d2 = "d1\<lparr>d_ht0 := (d_ht0 d1)\<lparr>ht_table := tab\<rparr>, rehashidx := rehashidx d1 + 1\<rparr>"
      have "length (dict_ents ?d2) < 2 ^ 63"
        using m(4) Suc.prems(2) by (metis same_contents_def size_mset)
      from Suc.IH [OF m(3) this] obtain d' stop' where
        r: "dictRehash_loop n ev' ?d2 = Some (d', stop')" "rehash_wf d'" "same_contents ?d2 d'" by blast
      have "mem_get (ht_table ?h0) i = Some (ht_table ?h0 ! i)"
        using i ht_wf_table [OF w] by (simp add: mem_get_def)
      then have "dictRehash_loop (Suc n) ev d = Some (d', stop')"
        using False guard sk(1) cont m(1,2) r(1) by simp
      with r(2,3) m(4) show ?thesis by (blast intro: same_contents_trans)
    qed
  qed
qed auto

lemma dict_map_same:
  assumes "dict_inv d" "same_contents d d'"
  shows "dict_map d' = dict_map d"
proof
  fix k
  let ?f = "\<lambda>e. (key_class d (de_key e), de_val e)"
  have cls: "key_class d' = key_class d" using assms(2) by (simp add: same_contents_def key_class_def fun_eq_iff)
  have ms: "mset (dict_ents d') = mset (dict_ents d)" using assms(2) by (simp add: same_contents_def)
  have d: "distinct (map fst (map ?f (dict_ents d)))"
    using assms(1) by (simp add: dict_inv_def comp_def)
  have d': "distinct (map fst (map ?f (dict_ents d')))"
  proof -
    have "mset (map fst (map ?f (dict_ents d'))) = mset (map fst (map ?f (dict_ents d)))"
      using ms by simp
    then show ?thesis using d by (rule mset_eq_imp_distinct_iff [THEN iffD2])
  qed
  have "set (map ?f (dict_ents d')) = set (map ?f (dict_ents d))"
    using mset_eq_setD [OF ms] by simp
  then have "map_of (map ?f (dict_ents d')) = map_of (map ?f (dict_ents d))"
    by (rule map_of_inject_set [OF d' d, THEN iffD2])
  then show "dict_map d' k = dict_map d k" by (simp only: dict_map_def cls)
qed

lemma dict_inv_same:
  assumes "dict_inv d" "same_contents d d'" "if dictIsRehashing d' then rehash_wf d' else stable_wf d'"
  shows "dict_inv d'"
proof -
  have cls: "key_class d' = key_class d" using assms(2) by (simp add: same_contents_def key_class_def fun_eq_iff)
  have ms: "mset (dict_ents d') = mset (dict_ents d)" using assms(2) by (simp add: same_contents_def)
  have "mset (map (\<lambda>e. key_class d (de_key e)) (dict_ents d')) = mset (map (\<lambda>e. key_class d (de_key e)) (dict_ents d))"
    using ms by simp
  then have "distinct (map (\<lambda>e. key_class d (de_key e)) (dict_ents d'))"
    using assms(1) by (metis dict_inv_def mset_eq_imp_distinct_iff)
  moreover have "length (dict_ents d') = length (dict_ents d)" using ms by (metis size_mset)
  ultimately show ?thesis
    using assms(1,2,3) cls by (simp add: dict_inv_def same_contents_def)
qed

text \<open>Rehashing always returns, keeps the invariant and does not change the map.\<close>

lemma dictRehash_correct:
  assumes inv: "dict_inv d"
  shows "\<exists>d' more. dictRehash d n = Some (d', more) \<and> dict_inv d' \<and> same_contents d d' \<and>
    more = dictIsRehashing d' \<and> (dictIsRehashing d \<longrightarrow> ht_wf (d_type d) (d_ht0 d'))"
proof (cases "dictIsRehashing d")
  case False
  with inv show ?thesis by (auto simp: dictRehash_def)
next
  case True
  have wf: "rehash_wf d" and small: "length (dict_ents d) < 2 ^ 63"
    using inv True by (simp_all add: dict_inv_def)
  obtain d1 stop where l: "dictRehash_loop n (int n * 10) d = Some (d1, stop)" "rehash_wf d1" "same_contents d d1"
    using dictRehash_loop_correct [OF wf small] by blast
  have re: "dictIsRehashing d1" using l(2) by (simp add: rehash_wf_def dictIsRehashing_def)
  show ?thesis
  proof (cases "\<not> stop \<and> ht_used (d_ht0 d1) = 0")
    case fin: True
    let ?d2 = "d1\<lparr>d_ht0 := d_ht1 d1, d_ht1 := dictReset, rehashidx := - 1\<rparr>"
    have "ht_ents (d_ht0 d1) = []"
      using fin l(2) by (auto simp: rehash_wf_def ht_wf_def)
    then have "same_contents d1 ?d2" by (simp add: same_contents_def dict_ents_def)
    then have same: "same_contents d ?d2" using l(3) by (rule same_contents_trans [rotated])
    moreover have "stable_wf ?d2" using l(2) by (simp add: stable_wf_def rehash_wf_def)
    moreover have "\<not> dictIsRehashing ?d2" by (simp add: dictIsRehashing_def)
    moreover have "ht_wf (d_type d) (d_ht0 ?d2)"
      using l(2,3) by (simp add: rehash_wf_def same_contents_def)
    moreover have "dictRehash d n = Some (?d2, False)"
      using True fin l(1) by (simp add: dictRehash_def)
    ultimately show ?thesis using dict_inv_same [OF inv same] by auto
  next
    case False
    then have "dictRehash d n = Some (d1, True)"
      using True l(1) by (auto simp: dictRehash_def)
    moreover have "ht_wf (d_type d) (d_ht0 d1)"
      using l(2,3) by (simp add: rehash_wf_def same_contents_def)
    ultimately show ?thesis using dict_inv_same [OF inv l(3)] l(2,3) re by auto
  qed
qed

lemma dictRehashStep_correct:
  assumes "dict_inv d" "dictIsRehashing d"
  shows "\<exists>d'. dictRehashStep d = Some d' \<and> dict_inv d' \<and> same_contents d d' \<and> ht_wf (d_type d) (d_ht0 d')"
proof (cases "iterators d = 0")
  case True
  then show ?thesis using dictRehash_correct [OF assms(1), of 1] assms(2) by (auto simp: dictRehashStep_def)
next
  case False
  then show ?thesis using assms by (simp add: dictRehashStep_def dict_inv_def rehash_wf_def)
qed

text \<open>The first step of every lookup and update.\<close>

lemma maybe_rehash_correct:
  assumes "dict_inv d"
  shows "\<exists>d'. (if dictIsRehashing d then dictRehashStep d else Some d) = Some d' \<and> dict_inv d' \<and>
    same_contents d d' \<and> (ht_size (d_ht0 d) \<noteq> 0 \<longrightarrow> ht_size (d_ht0 d') \<noteq> 0)"
  using assms dictRehashStep_correct [OF assms] ht_wf_size by (cases "dictIsRehashing d") fastforce+

end
