(* ===== verification/Dict_Ops.thy ===== *)
theory Dict_Ops
  imports Dict_Inv
begin

text \<open>
  Functional correctness of the dict operations: each returns (no access outside a table, no
  failed assert), keeps the invariant and acts on the map the dict stands for.
\<close>

section \<open>The map of a dict\<close>

lemma key_class_eq_iff:
  assumes "dict_inv d"
  shows "key_class d a = key_class d b \<longleftrightarrow> dictCompareKeys d a b"
proof -
  have "equivp (compareKeys (d_type d))" using assms by (simp add: dict_inv_def dtype_ok_def)
  then show ?thesis unfolding key_class_def dictCompareKeys_def
    by (metis equivp_def)
qed

lemma dict_map_eq_Some_iff:
  assumes inv: "dict_inv d"
  shows "dict_map d k = Some v \<longleftrightarrow> (\<exists>e \<in> set (dict_ents d). dictCompareKeys d k (de_key e) \<and> de_val e = v)"
proof -
  let ?f = "\<lambda>e. (key_class d (de_key e), de_val e)"
  have "distinct (map fst (map ?f (dict_ents d)))" using inv by (simp add: dict_inv_def comp_def)
  then have "dict_map d k = Some v \<longleftrightarrow> (key_class d k, v) \<in> set (map ?f (dict_ents d))"
    unfolding dict_map_def by (simp only: map_of_eq_Some_iff)
  then show ?thesis using key_class_eq_iff [OF inv] by fastforce
qed

lemma dict_map_eq_None_iff:
  assumes inv: "dict_inv d"
  shows "dict_map d k = None \<longleftrightarrow> (\<forall>e \<in> set (dict_ents d). \<not> dictCompareKeys d k (de_key e))"
  using dict_map_eq_Some_iff [OF inv, of k] by (metis not_None_eq)

lemma compare_sym: "dict_inv d \<Longrightarrow> dictCompareKeys d a b \<Longrightarrow> dictCompareKeys d b a"
  using key_class_eq_iff by metis

lemma compare_trans: "dict_inv d \<Longrightarrow> dictCompareKeys d a b \<Longrightarrow> dictCompareKeys d b c \<Longrightarrow> dictCompareKeys d a c"
  using key_class_eq_iff by metis

lemma compare_refl: "dict_inv d \<Longrightarrow> dictCompareKeys d a a"
  using key_class_eq_iff by metis

text \<open>At most one entry has a key of a given class.\<close>

lemma dict_entry_unique:
  assumes inv: "dict_inv d" and ents: "mset (dict_ents d) = add_mset e M"
    and e': "e' \<in># M" "dictCompareKeys d (de_key e) (de_key e')"
  shows False
proof -
  obtain xs where xs: "M = mset xs" using ex_mset [of M] by blast
  have "mset (map (\<lambda>e. key_class d (de_key e)) (dict_ents d)) = mset (map (\<lambda>e. key_class d (de_key e)) (e # xs))"
    using ents xs by simp
  then have "distinct (map (\<lambda>e. key_class d (de_key e)) (e # xs))"
    using inv by (metis dict_inv_def mset_eq_imp_distinct_iff)
  then have "key_class d (de_key e) \<notin> (\<lambda>e. key_class d (de_key e)) ` set xs" by simp
  with e' xs show False using key_class_eq_iff [OF inv] by auto
qed

section \<open>Changing one bucket\<close>

definition table_ok :: "('k, 'v) dict \<Rightarrow> nat \<Rightarrow> bool" where
  "table_ok d t \<longleftrightarrow> (t = 0 \<and> ht_size (d_ht0 d) \<noteq> 0) \<or> (t = 1 \<and> dictIsRehashing d)"

lemma table_ok_wf: "dict_inv d \<Longrightarrow> table_ok d t \<Longrightarrow> ht_wf (d_type d) (ht_get d t)"
  by (auto simp: table_ok_def dict_inv_def rehash_wf_def stable_wf_def ht_get_def dictReset_def split: if_splits)

lemma ht_put_simps [simp]:
  "d_type (ht_put d t ht) = d_type d" "iterators (ht_put d t ht) = iterators d"
  "rehashidx (ht_put d t ht) = rehashidx d"
  by (simp_all add: ht_put_def)

lemma put_bucket:
  assumes inv: "dict_inv d" and t: "table_ok d t" and i: "i < ht_size (ht_get d t)"
    and b: "\<forall>e \<in> set b. ht_index (hashFunction (d_type d) (de_key e)) (ht_get d t) = i"
    and low: "t = 0 \<Longrightarrow> b \<noteq> [] \<Longrightarrow> dictIsRehashing d \<Longrightarrow> rehashidx d \<le> int i"
    and u: "u = length (concat ((ht_table (ht_get d t))[i := b]))"
  defines "d' \<equiv> ht_put d t ((ht_get d t)\<lparr>ht_table := (ht_table (ht_get d t))[i := b], ht_used := u\<rparr>)"
  shows "if dictIsRehashing d' then rehash_wf d' else stable_wf d'"
    and "mset (dict_ents d') + mset (ht_table (ht_get d t) ! i) = mset (dict_ents d) + mset b"
proof -
  note wf = table_ok_wf [OF inv t]
  have len: "i < length (ht_table (ht_get d t))" using i ht_wf_table [OF wf] by simp
  have wf': "ht_wf (d_type d) ((ht_get d t)\<lparr>ht_table := (ht_table (ht_get d t))[i := b], ht_used := u\<rparr>)"
    by (rule ht_wf_update [OF wf i b u])
  show "if dictIsRehashing d' then rehash_wf d' else stable_wf d'"
  proof (cases "dictIsRehashing d")
    case True
    then have w: "rehash_wf d" using inv by (simp add: dict_inv_def)
    have "rehash_wf d'"
    proof (cases "t = 0")
      case True
      have "(ht_table (d_ht0 d))[i := b] ! k = []" if "k < nat (rehashidx d)" for k
        using that low [OF True _ \<open>dictIsRehashing d\<close>] w
        by (cases "k = i"; cases "b = []") (auto simp: rehash_wf_def ht_wf_table nth_list_update)
      with True w wf' show ?thesis by (simp add: d'_def ht_put_def ht_get_def rehash_wf_def)
    next
      case False
      with w wf' show ?thesis by (simp add: d'_def ht_put_def ht_get_def rehash_wf_def)
    qed
    with True show ?thesis by (simp add: d'_def dictIsRehashing_def)
  next
    case False
    then have "t = 0" using t by (simp add: table_ok_def)
    then have "stable_wf d'"
      using False inv wf' by (simp add: d'_def ht_put_def ht_get_def stable_wf_def dict_inv_def)
    with False show ?thesis by (simp add: d'_def dictIsRehashing_def)
  qed
  show "mset (dict_ents d') + mset (ht_table (ht_get d t) ! i) = mset (dict_ents d) + mset b"
    using mset_concat_update [OF len, of b]
    by (simp add: d'_def ht_put_def ht_get_def dict_ents_def ht_ents_def ac_simps split: if_splits)
qed

text \<open>The invariant and the map after the entries changed as a multiset.\<close>

lemma dict_inv_ents:
  assumes "dict_inv d" "d_type d' = d_type d"
    "if dictIsRehashing d' then rehash_wf d' else stable_wf d'"
    "mset (dict_ents d') = mset es" "length es < 2 ^ 63"
    "distinct (map (\<lambda>e. key_class d (de_key e)) es)"
  shows "dict_inv d'"
proof -
  have cls: "key_class d' = key_class d" using assms(2) by (simp add: key_class_def fun_eq_iff)
  have "mset (map (\<lambda>e. key_class d (de_key e)) (dict_ents d')) = mset (map (\<lambda>e. key_class d (de_key e)) es)"
    using assms(4) by simp
  then have "distinct (map (\<lambda>e. key_class d (de_key e)) (dict_ents d'))"
    using assms(6) by (rule mset_eq_imp_distinct_iff [THEN iffD2])
  moreover have "length (dict_ents d') = length es" using assms(4) by (metis size_mset)
  ultimately show ?thesis using assms cls by (simp add: dict_inv_def)
qed

section \<open>Search\<close>

lemma find_pos_Some: "find_pos P xs = Some p \<Longrightarrow> p < length xs \<and> P (xs ! p)"
  by (induction P xs arbitrary: p rule: find_pos.induct) (auto split: if_splits)

lemma find_pos_None: "find_pos P xs = None \<longleftrightarrow> (\<forall>x \<in> set xs. \<not> P x)"
  by (induction P xs rule: find_pos.induct) auto

lemma bucket_complete:
  assumes "ht_wf t ht" "dtype_ok t" "e \<in> set (ht_ents ht)" "compareKeys t k (de_key e)"
  shows "e \<in> set (ht_table ht ! ht_index (hashFunction t k) ht)"
proof -
  obtain i where i: "i < length (ht_table ht)" "e \<in> set (ht_table ht ! i)"
    using assms(3) unfolding ht_ents_def set_concat by (metis UN_iff in_set_conv_nth)
  then have "ht_index (hashFunction t (de_key e)) ht = i" using assms(1) by (auto simp: ht_wf_def)
  moreover have "hashFunction t k = hashFunction t (de_key e)" using assms(2,4) by (simp add: dtype_ok_def)
  ultimately show ?thesis using i by simp
qed

text \<open>An entry pointer is valid when it points at an entry of a table in use.\<close>

definition ref_ok :: "('k, 'v) dict \<Rightarrow> eref \<Rightarrow> ('k, 'v) dictEntry \<Rightarrow> bool" where
  "ref_ok d r e \<longleftrightarrow> (case r of (t, i, p) \<Rightarrow> table_ok d t \<and> i < ht_size (ht_get d t) \<and>
     p < length (ht_table (ht_get d t) ! i) \<and> ht_table (ht_get d t) ! i ! p = e)"

lemma ref_ok_entry: "dict_inv d \<Longrightarrow> ref_ok d r e \<Longrightarrow> entry_at d r = Some e"
  by (cases r) (auto simp: ref_ok_def entry_at_def mem_get_def ht_wf_table dest: table_ok_wf)

lemma ref_ok_in_ents: "dict_inv d \<Longrightarrow> ref_ok d r e \<Longrightarrow> e \<in> set (dict_ents d)"
proof (cases r)
  case (fields t i p)
  assume inv: "dict_inv d" and r: "ref_ok d r e"
  then have "e \<in> set (ht_ents (ht_get d t))"
    using fields table_ok_wf [of d t] by (auto simp: ref_ok_def ht_ents_def ht_wf_table intro!: bexI [of _ "ht_table (ht_get d t) ! i"])
  then show ?thesis by (auto simp: ht_get_def dict_ents_def split: if_splits)
qed

lemma dict_search_correct:
  assumes inv: "dict_inv d" and ne: "ht_size (d_ht0 d) \<noteq> 0"
  shows "\<exists>r idx. dict_search d k = Some (r, idx) \<and>
    (case r of Some r \<Rightarrow> \<exists>e. ref_ok d r e \<and> dictCompareKeys d k (de_key e)
     | None \<Rightarrow> dict_map d k = None \<and>
         idx = ht_index (dictHashKey d k) (if dictIsRehashing d then d_ht1 d else d_ht0 d))"
proof -
  let ?P = "\<lambda>he. dictCompareKeys d k (de_key he)" and ?h = "dictHashKey d k"
  have ty: "dtype_ok (d_type d)" using inv by (simp add: dict_inv_def)
  have t0: "table_ok d 0" using ne by (simp add: table_ok_def)
  have w0: "ht_wf (d_type d) (d_ht0 d)" using table_ok_wf [OF inv t0] by (simp add: ht_get_def)
  let ?i0 = "ht_index ?h (d_ht0 d)" and ?c0 = "ht_table (d_ht0 d) ! ht_index ?h (d_ht0 d)"
  have g0: "mem_get (ht_table (d_ht0 d)) ?i0 = Some ?c0"
    using ht_index_bound [OF w0] ht_wf_table [OF w0] by (simp add: mem_get_def)
  show ?thesis
  proof (cases "find_pos ?P ?c0")
    case (Some p)
    then have "ref_ok d (0, ?i0, p) (?c0 ! p)" "?P (?c0 ! p)"
      using find_pos_Some [OF Some] t0 ht_index_bound [OF w0] by (simp_all add: ref_ok_def ht_get_def)
    then show ?thesis using Some g0 by (auto simp: dict_search_def Let_def)
  next
    case N0: None
    have n0: "\<not> ?P e" if "e \<in> set (ht_ents (d_ht0 d))" for e
      using bucket_complete [OF w0 ty that, of k] N0 find_pos_None [of ?P ?c0]
      by (auto simp: dictCompareKeys_def dictHashKey_def)
    show ?thesis
    proof (cases "dictIsRehashing d")
      case False
      then have "d_ht1 d = dictReset" using inv by (simp add: dict_inv_def stable_wf_def)
      then have "dict_map d k = None"
        using n0 dict_map_eq_None_iff [OF inv, of k] by (simp add: dict_ents_def)
      with False N0 g0 show ?thesis by (simp add: dict_search_def Let_def)
    next
      case True
      then have w1: "ht_wf (d_type d) (d_ht1 d)" using inv by (simp add: dict_inv_def rehash_wf_def)
      let ?i1 = "ht_index ?h (d_ht1 d)" and ?c1 = "ht_table (d_ht1 d) ! ht_index ?h (d_ht1 d)"
      have g1: "mem_get (ht_table (d_ht1 d)) ?i1 = Some ?c1"
        using ht_index_bound [OF w1] ht_wf_table [OF w1] by (simp add: mem_get_def)
      show ?thesis
      proof (cases "find_pos ?P ?c1")
        case (Some p)
        then have "ref_ok d (1, ?i1, p) (?c1 ! p)" "?P (?c1 ! p)"
          using find_pos_Some [OF Some] True ht_index_bound [OF w1]
          by (simp_all add: ref_ok_def ht_get_def table_ok_def)
        then show ?thesis using Some N0 True g0 g1 by (auto simp: dict_search_def Let_def)
      next
        case N1: None
        have "\<not> ?P e" if "e \<in> set (ht_ents (d_ht1 d))" for e
          using bucket_complete [OF w1 ty that, of k] N1 find_pos_None [of ?P ?c1]
          by (auto simp: dictCompareKeys_def dictHashKey_def)
        then have "dict_map d k = None"
          using n0 dict_map_eq_None_iff [OF inv, of k] by (auto simp: dict_ents_def)
        with True N0 N1 g0 g1 show ?thesis by (simp add: dict_search_def Let_def)
      qed
    qed
  qed
qed

lemma same_contents_length: "same_contents d d' \<Longrightarrow> length (dict_ents d') = length (dict_ents d)"
  by (metis same_contents_def size_mset)

lemma same_contents_compare:
  "same_contents d d' \<Longrightarrow> dictCompareKeys d' = dictCompareKeys d \<and> dictHashKey d' = dictHashKey d"
  by (simp add: same_contents_def dictCompareKeys_def dictHashKey_def fun_eq_iff)

lemma dict_no_table:
  assumes "dict_inv d" "ht_size (d_ht0 d) = 0"
  shows "dict_ents d = []" "\<not> dictIsRehashing d" "d_ht0 d = dictReset"
proof -
  have n: "\<not> ht_wf (d_type d) (d_ht0 d)" using assms(2) ht_wf_size by fastforce
  then show "\<not> dictIsRehashing d" using assms(1) by (auto simp: dict_inv_def rehash_wf_def)
  with n assms(1) show "d_ht0 d = dictReset" "dict_ents d = []"
    by (auto simp: dict_inv_def stable_wf_def dict_ents_def)
qed

lemma dictFind_correct:
  assumes inv: "dict_inv d"
  shows "\<exists>d' r. dictFind d k = Some (d', r) \<and> dict_inv d' \<and> same_contents d d' \<and>
    (case r of None \<Rightarrow> dict_map d k = None
     | Some r \<Rightarrow> \<exists>e. ref_ok d' r e \<and> dictCompareKeys d k (de_key e) \<and> dict_map d k = Some (de_val e))"
proof (cases "ht_size (d_ht0 d) = 0")
  case True
  with inv dict_no_table [OF inv True] show ?thesis
    by (auto simp: dictFind_def dict_map_def)
next
  case False
  then obtain d1 where d1: "(if dictIsRehashing d then dictRehashStep d else Some d) = Some d1"
    "dict_inv d1" "same_contents d d1" "ht_size (d_ht0 d1) \<noteq> 0" using maybe_rehash_correct [OF inv] by blast
  have map: "dict_map d1 = dict_map d" by (rule dict_map_same [OF inv d1(3)])
  obtain r idx where s: "dict_search d1 k = Some (r, idx)"
    "case r of Some r \<Rightarrow> \<exists>e. ref_ok d1 r e \<and> dictCompareKeys d1 k (de_key e) | None \<Rightarrow> dict_map d1 k = None"
    using dict_search_correct [OF d1(2,4), of k] by (auto split: option.splits)
  have "dictFind d k = Some (d1, r)" using False d1(1) s(1) by (simp add: dictFind_def)
  moreover have "case r of None \<Rightarrow> dict_map d k = None
     | Some r \<Rightarrow> \<exists>e. ref_ok d1 r e \<and> dictCompareKeys d k (de_key e) \<and> dict_map d k = Some (de_val e)"
    using s(2) map same_contents_compare [OF d1(3)] ref_ok_in_ents [OF d1(2)] dict_map_eq_Some_iff [OF d1(2)]
    by (fastforce split: option.splits)
  ultimately show ?thesis using d1(2,3) by blast
qed

section \<open>Expansion\<close>

lemma dictNextPower_loop_correct:
  assumes "k \<le> 63" "sz \<le> 2 ^ 63"
  shows "\<exists>p. k \<le> p \<and> dictNextPower_loop (2 ^ k) sz = Some (2 ^ p) \<and> sz \<le> 2 ^ p \<and> (p = k \<or> 2 ^ (p - 1) < sz)"
  using assms(1)
proof (induction "63 - k" arbitrary: k rule: less_induct)
  case less
  show ?case
  proof (cases "sz \<le> 2 ^ k")
    case True
    then show ?thesis by (subst dictNextPower_loop.simps) auto
  next
    case False
    have "k \<noteq> 63" using False assms(2) by auto
    then have k: "k < 63" using less.prems by simp
    then have "(2::nat) ^ k * 2 \<le> 2 ^ 63" using power_increasing [of "Suc k" 63 "2::nat"] by simp
    then have u: "u64 (2 ^ k * 2) = 2 ^ Suc k" by simp
    obtain p where p: "Suc k \<le> p" "dictNextPower_loop (2 ^ Suc k) sz = Some (2 ^ p)" "sz \<le> 2 ^ p"
      "p = Suc k \<or> 2 ^ (p - 1) < sz"
    proof -
      have "63 - Suc k < 63 - k" using k by simp
      from less.hyps [OF this] k that show ?thesis by auto
    qed
    have "dictNextPower_loop (2 ^ k) sz = Some (2 ^ p)"
      using False p(2) u by (subst dictNextPower_loop.simps) simp
    with p False show ?thesis by (intro exI [of _ p]) auto
  qed
qed

lemma dictNextPower_cases:
  assumes "sz < LONG_MAX"
  shows "\<exists>p \<ge> 2. dictNextPower sz = Some (2 ^ p) \<and> sz \<le> 2 ^ p \<and> (p = 2 \<or> 2 ^ (p - 1) < sz)"
  using dictNextPower_loop_correct [of 2 sz] assms
  by (simp add: dictNextPower_def LONG_MAX_def DICT_HT_INITIAL_SIZE_def)

lemma fresh_table_wf:
  assumes "2 \<le> p" "p \<le> 31"
  shows "ht_wf t \<lparr>ht_table = replicate (2 ^ p) [], ht_size = 2 ^ p, ht_sizemask = 2 ^ p - 1, ht_used = 0\<rparr>"
    (is "ht_wf t ?n")
proof -
  have "ht_ents ?n = []" by (simp add: ht_ents_def)
  then show ?thesis using assms by (auto simp: ht_wf_def)
qed

lemma dictExpand_correct:
  assumes inv: "dict_inv d" and sz: "sz \<le> 2 ^ 31"
  shows "\<exists>d' ok. dictExpand d sz = Some (d', ok) \<and> dict_inv d' \<and> same_contents d d' \<and>
    (ok \<longrightarrow> ht_size (d_ht0 d') \<noteq> 0) \<and>
    (\<not> dictIsRehashing d \<longrightarrow> ht_used (d_ht0 d) \<le> sz \<longrightarrow> ht_size (d_ht0 d) < max 4 sz \<longrightarrow> ok)"
proof -
  have "sz < LONG_MAX" using sz by (simp add: LONG_MAX_def)
  then obtain p where p: "2 \<le> p" "dictNextPower sz = Some (2 ^ p)" "sz \<le> 2 ^ p" "p = 2 \<or> 2 ^ (p - 1) < sz"
    using dictNextPower_cases by blast
  have p31: "p \<le> 31"
  proof (rule ccontr)
    assume "\<not> p \<le> 31"
    then have "(2::nat) ^ 31 \<le> 2 ^ (p - 1)" by (intro power_increasing) auto
    with p(4) sz \<open>\<not> p \<le> 31\<close> show False by simp
  qed
  have big: "max 4 sz \<le> 2 ^ p" using p(1,3) power_increasing [of 2 p "2::nat"] by simp
  let ?n = "\<lparr>ht_table = replicate (2 ^ p) [], ht_size = 2 ^ p, ht_sizemask = 2 ^ p - 1, ht_used = 0\<rparr> :: ('a, 'b) dictht"
  note wfn = fresh_table_wf [OF p(1) p31, of "d_type d"]
  have en: "ht_ents ?n = []" by (simp add: ht_ents_def)
  show ?thesis
  proof (cases "dictIsRehashing d \<or> ht_used (d_ht0 d) > sz \<or> 2 ^ p = ht_size (d_ht0 d)")
    case True
    then have "dictExpand d sz = Some (d, False)" using p(2) by (auto simp: dictExpand_def)
    with True inv big show ?thesis by (intro exI [of _ d] exI [of _ False]) auto
  next
    case go: False
    then have st: "stable_wf d" using inv by (simp add: dict_inv_def)
    show ?thesis
    proof (cases "ht_table (d_ht0 d) = []")
      case True
      let ?d = "d\<lparr>d_ht0 := ?n\<rparr>"
      have "ht_ents (d_ht0 d) = []" using True by (simp add: ht_ents_def)
      then have same: "same_contents d ?d" using en by (simp add: same_contents_def dict_ents_def)
      have "stable_wf ?d" "\<not> dictIsRehashing ?d"
        using st wfn go by (simp_all add: stable_wf_def dictIsRehashing_def)
      then have "dict_inv ?d" using dict_inv_same [OF inv same] by simp
      moreover have "dictExpand d sz = Some (?d, True)" using go True p(2) by (simp add: dictExpand_def Let_def)
      ultimately show ?thesis using same by auto
    next
      case False
      let ?d = "d\<lparr>d_ht1 := ?n, rehashidx := 0\<rparr>"
      have w0: "ht_wf (d_type d) (d_ht0 d)" and h1: "d_ht1 d = dictReset"
        using st False by (auto simp: stable_wf_def dictReset_def)
      then have same: "same_contents d ?d" using en by (simp add: same_contents_def dict_ents_def)
      have "rehash_wf ?d" "dictIsRehashing ?d"
        using w0 wfn by (simp_all add: rehash_wf_def dictIsRehashing_def)
      then have "dict_inv ?d" using dict_inv_same [OF inv same] by simp
      moreover have "dictExpand d sz = Some (?d, True)" using go False p(2) by (simp add: dictExpand_def Let_def)
      ultimately show ?thesis using same ht_wf_size [OF w0] by auto
    qed
  qed
qed

lemma dict_used0: "dict_inv d \<Longrightarrow> ht_used (d_ht0 d) = length (ht_ents (d_ht0 d))"
  by (auto simp: dict_inv_def rehash_wf_def stable_wf_def ht_wf_used split: if_splits)
     (simp add: dictReset_def)

lemma dictExpandIfNeeded_correct:
  assumes inv: "dict_inv d" and small: "length (dict_ents d) < 2 ^ 30"
  shows "\<exists>d'. dictExpandIfNeeded can d = Some (d', True) \<and> dict_inv d' \<and> same_contents d d' \<and>
    ht_size (d_ht0 d') \<noteq> 0"
proof -
  have u: "ht_used (d_ht0 d) < 2 ^ 30" using small dict_used0 [OF inv] by (simp add: dict_ents_def)
  consider (re) "dictIsRehashing d" | (init) "\<not> dictIsRehashing d" "ht_size (d_ht0 d) = 0"
    | (grow) "\<not> dictIsRehashing d" "ht_size (d_ht0 d) \<noteq> 0" "ht_used (d_ht0 d) \<ge> ht_size (d_ht0 d)"
        "can \<or> ht_used (d_ht0 d) div ht_size (d_ht0 d) > dict_force_resize_ratio"
    | (keep) "\<not> dictIsRehashing d" "ht_size (d_ht0 d) \<noteq> 0" "\<not> (ht_used (d_ht0 d) \<ge> ht_size (d_ht0 d) \<and>
        (can \<or> ht_used (d_ht0 d) div ht_size (d_ht0 d) > dict_force_resize_ratio))"
    by blast
  then show ?thesis
  proof cases
    case re
    then have "ht_size (d_ht0 d) \<noteq> 0" using dict_no_table [OF inv] by blast
    with re inv show ?thesis by (simp add: dictExpandIfNeeded_def)
  next
    case init
    have "ht_used (d_ht0 d) = 0" using dict_no_table(3) [OF inv init(2)] by (simp add: dictReset_def)
    with init show ?thesis
      using dictExpand_correct [OF inv, of 4] by (auto simp: dictExpandIfNeeded_def DICT_HT_INITIAL_SIZE_def)
  next
    case grow
    have "u64 (ht_used (d_ht0 d) * 2) = ht_used (d_ht0 d) * 2" using u by simp
    with grow u show ?thesis
      using dictExpand_correct [OF inv, of "ht_used (d_ht0 d) * 2"] by (auto simp: dictExpandIfNeeded_def)
  next
    case keep
    then have "dictExpandIfNeeded can d = Some (d, True)" by (simp only: dictExpandIfNeeded_def if_False)
    with inv keep show ?thesis by simp
  qed
qed

section \<open>Insertion\<close>

text \<open>
  The index has 32 bits and a sign: it stays non-negative because a table has at most
  \<open>2 ^ 31\<close> buckets.
\<close>

lemma ht_index_s32: "ht_wf t ht \<Longrightarrow> s32 (int (ht_index h ht)) = int (ht_index h ht)"
  using ht_index_bound [of t ht h] ht_wf_size [of t ht] by simp

lemma dictKeyIndex_correct:
  assumes inv: "dict_inv d" and small: "length (dict_ents d) < 2 ^ 30"
  shows "\<exists>d' index. dictKeyIndex can d k = Some (d', index) \<and> dict_inv d' \<and> same_contents d d' \<and>
    (if dict_map d k = None
     then table_ok d' (if dictIsRehashing d' then 1 else 0) \<and>
       index = int (ht_index (dictHashKey d k) (ht_get d' (if dictIsRehashing d' then 1 else 0)))
     else index = - 1)"
proof -
  obtain d1 where e: "dictExpandIfNeeded can d = Some (d1, True)" "dict_inv d1" "same_contents d d1"
    "ht_size (d_ht0 d1) \<noteq> 0" using dictExpandIfNeeded_correct [OF inv small] by blast
  have map: "dict_map d1 = dict_map d" by (rule dict_map_same [OF inv e(3)])
  have hk: "dictHashKey d1 = dictHashKey d" using same_contents_compare [OF e(3)] by simp
  obtain r idx where s: "dict_search d1 k = Some (r, idx)"
    "case r of Some r \<Rightarrow> \<exists>e. ref_ok d1 r e \<and> dictCompareKeys d1 k (de_key e)
     | None \<Rightarrow> dict_map d1 k = None \<and> idx = ht_index (dictHashKey d1 k) (if dictIsRehashing d1 then d_ht1 d1 else d_ht0 d1)"
    using dict_search_correct [OF e(2,4), of k] by blast
  let ?t = "if dictIsRehashing d1 then 1 else 0 :: nat"
  have t: "table_ok d1 ?t" using e(4) by (simp add: table_ok_def)
  have ht: "(if dictIsRehashing d1 then d_ht1 d1 else d_ht0 d1) = ht_get d1 ?t" by (simp add: ht_get_def)
  show ?thesis
  proof (cases r)
    case None
    then have "dictKeyIndex can d k = Some (d1, s32 (int idx))" "dict_map d k = None"
      "idx = ht_index (dictHashKey d k) (ht_get d1 ?t)"
      using e(1) s map hk ht by (simp_all add: dictKeyIndex_def)
    then show ?thesis using e(2,3) t ht_index_s32 [OF table_ok_wf [OF e(2) t]] by auto
  next
    case (Some r')
    then obtain en where en: "ref_ok d1 r' en" "dictCompareKeys d1 k (de_key en)" using s(2) by auto
    then have "dict_map d k \<noteq> None"
      using ref_ok_in_ents [OF e(2) en(1)] dict_map_eq_None_iff [OF e(2), of k] map by auto
    moreover have "dictKeyIndex can d k = Some (d1, - 1)"
      using Some e(1) s(1) by (simp add: dictKeyIndex_def)
    ultimately show ?thesis using e(2,3) by auto
  qed
qed

lemma ht_get_in_range: "table_ok d t \<Longrightarrow> t = 0 \<or> t = 1"
  by (auto simp: table_ok_def)

lemma compare_hash: "dict_inv d \<Longrightarrow> dictCompareKeys d a b \<Longrightarrow> hashFunction (d_type d) a = hashFunction (d_type d) b"
  by (auto simp: dict_inv_def dtype_ok_def dictCompareKeys_def)

lemma distinct_classes_Cons:
  assumes inv: "dict_inv d" and none: "dict_map d k = None" and k': "dictCompareKeys d k' k"
  shows "distinct (map (\<lambda>e. key_class d (de_key e)) (\<lparr>de_key = k', de_val = v\<rparr> # dict_ents d))"
proof -
  have "key_class d k' \<noteq> key_class d (de_key e)" if "e \<in> set (dict_ents d)" for e
    using none that dict_map_eq_None_iff [OF inv, of k] k' key_class_eq_iff [OF inv] by metis
  then show ?thesis using inv by (auto simp: dict_inv_def)
qed

text \<open>The new entry is stored without a value; its pointer is returned.\<close>

lemma dictAddRaw_correct:
  assumes inv: "dict_inv d" and small: "length (dict_ents d) < 2 ^ 30"
  shows "\<exists>d' r. dictAddRaw can d k = Some (d', r) \<and> dict_inv d' \<and> d_type d' = d_type d \<and>
    iterators d' = iterators d \<and>
    (if dict_map d k = None
     then \<exists>r' k'. r = Some r' \<and> dictCompareKeys d k' k \<and> ref_ok d' r' \<lparr>de_key = k', de_val = None\<rparr> \<and>
       mset (dict_ents d') = add_mset \<lparr>de_key = k', de_val = None\<rparr> (mset (dict_ents d))
     else r = None \<and> same_contents d d')"
proof -
  obtain d1 where d1: "(if dictIsRehashing d then dictRehashStep d else Some d) = Some d1"
    "dict_inv d1" "same_contents d d1" using maybe_rehash_correct [OF inv] by blast
  have l1: "length (dict_ents d1) < 2 ^ 30" using d1(3) small by (metis same_contents_def size_mset)
  obtain d2 index where ki: "dictKeyIndex can d1 k = Some (d2, index)" "dict_inv d2" "same_contents d1 d2"
    "if dict_map d1 k = None
     then table_ok d2 (if dictIsRehashing d2 then 1 else 0) \<and>
       index = int (ht_index (dictHashKey d1 k) (ht_get d2 (if dictIsRehashing d2 then 1 else 0)))
     else index = - 1" using dictKeyIndex_correct [OF d1(2) l1] by blast
  have same: "same_contents d d2" using d1(3) ki(3) by (rule same_contents_trans)
  then have ty: "d_type d2 = d_type d" "iterators d2 = iterators d" "mset (dict_ents d2) = mset (dict_ents d)"
    by (simp_all add: same_contents_def)
  have map: "dict_map d1 = dict_map d" "dict_map d2 = dict_map d"
    using dict_map_same [OF inv d1(3)] dict_map_same [OF inv same] by simp_all
  show ?thesis
  proof (cases "dict_map d k = None")
    case False
    then have "dictAddRaw can d k = Some (d2, None)"
      using d1(1) ki(1,4) map by (simp add: dictAddRaw_def)
    with False ki(2) same ty show ?thesis by auto
  next
    case True
    define t where "t = (if dictIsRehashing d2 then 1 else 0 :: nat)"
    define i where "i = ht_index (dictHashKey d1 k) (ht_get d2 t)"
    define k' where "k' = (case keyDup (d_type d2) of Some f \<Rightarrow> f k | None \<Rightarrow> k)"
    let ?ht = "ht_get d2 t" and ?e = "\<lparr>de_key = k', de_val = None\<rparr> :: ('a, 'b) dictEntry"
    have t: "table_ok d2 t" and idx: "index = int i" using True ki(4) map(1) by (simp_all add: t_def i_def)
    note wf = table_ok_wf [OF ki(2) t]
    have i: "i < ht_size ?ht" "i < length (ht_table ?ht)"
      using ht_index_bound [OF wf] ht_wf_table [OF wf] by (simp_all add: i_def)
    have k': "dictCompareKeys d2 k' k"
      using ki(2) compare_refl [OF ki(2)]
      by (auto simp: k'_def dict_inv_def dtype_ok_def dictCompareKeys_def split: option.splits)
    let ?b = "?e # ht_table ?ht ! i"
    have hk: "dictHashKey d1 k = hashFunction (d_type d2) k"
      using ki(3) by (simp add: same_contents_def dictHashKey_def)
    have b: "\<forall>e \<in> set ?b. ht_index (hashFunction (d_type d2) (de_key e)) ?ht = i"
      using wf i(1) compare_hash [OF ki(2) k'] hk by (auto simp: ht_wf_def i_def)
    have u: "Suc (ht_used ?ht) = length (concat ((ht_table ?ht)[i := ?b]))"
      using length_concat_update [OF i(2), of ?b] ht_wf_used [OF wf] by (simp add: ht_ents_def)
    let ?d3 = "ht_put d2 t (?ht\<lparr>ht_table := (ht_table ?ht)[i := ?b], ht_used := Suc (ht_used ?ht)\<rparr>)"
    have wf3: "if dictIsRehashing ?d3 then rehash_wf ?d3 else stable_wf ?d3"
      and ms3: "mset (dict_ents ?d3) + mset (ht_table ?ht ! i) = mset (dict_ents d2) + mset ?b"
      using put_bucket [OF ki(2) t i(1) b _ u] by (auto simp: t_def split: if_splits)
    have ms: "mset (dict_ents ?d3) = mset (?e # dict_ents d2)" using ms3 by simp
    have l2: "length (dict_ents d2) < 2 ^ 30" using ty(3) small by (metis size_mset)
    have inv3: "dict_inv ?d3"
      by (rule dict_inv_ents [OF ki(2) _ wf3 ms])
         (use True map(2) k' l2 distinct_classes_Cons [OF ki(2)] in simp_all)
    have "ht_used ?ht < 2 ^ 64 - 1"
    proof -
      have "length (ht_ents ?ht) \<le> length (dict_ents d2)" by (simp add: ht_get_def dict_ents_def)
      then show ?thesis using l2 ht_wf_used [OF wf] by simp
    qed
    then have add: "dictAddRaw can d k = Some (?d3, Some (t, i, 0))"
      using d1(1) ki(1) i(2) idx inc64_id [of "ht_used ?ht"]
      by (simp add: dictAddRaw_def mem_get_def mem_set_def Let_def t_def [symmetric] k'_def [symmetric])
    have "ref_ok ?d3 (t, i, 0) ?e"
      using i t ht_get_in_range [OF t] by (auto simp: ref_ok_def ht_put_def ht_get_def table_ok_def dictIsRehashing_def)
    moreover have "dictCompareKeys d k' k" using k' ty(1) by (simp add: dictCompareKeys_def)
    ultimately show ?thesis
      using True add inv3 ty ms by (intro exI [of _ ?d3] exI [of _ "Some (t, i, 0)"]) auto
  qed
qed

text \<open>Storing a value through an entry pointer.\<close>

definition dup_val :: "('k, 'v) dict \<Rightarrow> 'v \<Rightarrow> 'v" where
  "dup_val d v = (case valDup (d_type d) of Some f \<Rightarrow> f v | None \<Rightarrow> v)"

lemma dictSetVal_correct:
  assumes inv: "dict_inv d" and r: "ref_ok d r e" and ms: "mset (dict_ents d) = add_mset e M"
  shows "\<exists>d'. dictSetVal d r v = Some d' \<and> dict_inv d' \<and> d_type d' = d_type d \<and> iterators d' = iterators d \<and>
    mset (dict_ents d') = add_mset (e\<lparr>de_val := Some (dup_val d v)\<rparr>) M"
proof -
  obtain t i p where rt: "r = (t, i, p)" by (cases r)
  let ?ht = "ht_get d t" and ?e = "e\<lparr>de_val := Some (dup_val d v)\<rparr>"
  let ?c = "ht_table ?ht ! i"
  have t: "table_ok d t" and i: "i < ht_size ?ht" and p: "p < length ?c" "?c ! p = e"
    using r rt by (auto simp: ref_ok_def)
  note wf = table_ok_wf [OF inv t]
  have len: "i < length (ht_table ?ht)" using i ht_wf_table [OF wf] by simp
  let ?b = "?c[p := ?e]"
  have b: "\<forall>e \<in> set ?b. ht_index (hashFunction (d_type d) (de_key e)) ?ht = i"
  proof
    fix x assume "x \<in> set ?b"
    then have "x \<in> set ?c \<or> x = ?e" using set_update_subset_insert by fastforce
    moreover have "e \<in> set ?c" using p by auto
    ultimately show "ht_index (hashFunction (d_type d) (de_key x)) ?ht = i"
      using wf i by (auto simp: ht_wf_def)
  qed
  have low: "rehashidx d \<le> int i" if "t = 0" "dictIsRehashing d"
  proof (rule ccontr)
    assume "\<not> rehashidx d \<le> int i"
    then have "?c = []" using that inv by (auto simp: dict_inv_def rehash_wf_def ht_get_def)
    with p show False by simp
  qed
  have u: "ht_used ?ht = length (concat ((ht_table ?ht)[i := ?b]))"
    using length_concat_update [OF len, of ?b] ht_wf_used [OF wf] by (simp add: ht_ents_def)
  let ?d = "ht_put d t (?ht\<lparr>ht_table := (ht_table ?ht)[i := ?b], ht_used := ht_used ?ht\<rparr>)"
  have wf': "if dictIsRehashing ?d then rehash_wf ?d else stable_wf ?d"
    and m: "mset (dict_ents ?d) + mset ?c = mset (dict_ents d) + mset ?b"
    using put_bucket [OF inv t i b low u] by blast+
  have "mset ?b = mset ?c - {#e#} + {#?e#}" using p by (simp add: mset_update)
  moreover have "e \<in># mset ?c" using p by auto
  ultimately have "mset ?b + {#e#} = mset ?c + {#?e#}" by simp
  then have "mset (dict_ents ?d) + mset ?c + {#e#} = mset (dict_ents d) + mset ?c + {#?e#}"
    unfolding m by (simp add: add.assoc)
  then have ms': "mset (dict_ents ?d) = add_mset ?e M" using ms by simp
  obtain xs where xs: "M = mset xs" using ex_mset by metis
  have dist: "distinct (map (\<lambda>e. key_class d (de_key e)) (?e # xs))"
  proof -
    have "mset (map (\<lambda>e. key_class d (de_key e)) (e # xs)) = mset (map (\<lambda>e. key_class d (de_key e)) (dict_ents d))"
      using ms xs by simp
    then have "distinct (map (\<lambda>e. key_class d (de_key e)) (e # xs))"
      using inv by (metis dict_inv_def mset_eq_imp_distinct_iff)
    then show ?thesis by simp
  qed
  have "length (?e # xs) = length (dict_ents d)"
    using arg_cong [OF ms, of size] xs by simp
  then have "length (?e # xs) < 2 ^ 63" using inv by (simp add: dict_inv_def)
  then have "dict_inv ?d"
    by (intro dict_inv_ents [OF inv _ wf' _ _ dist]) (use ms' xs in simp_all)
  moreover have "dictSetVal d r v = Some ?d"
    using len p rt by (simp add: dictSetVal_def mem_get_def mem_set_def dup_val_def Let_def)
  ultimately show ?thesis using ms' by simp
qed

lemma dict_map_add:
  assumes inv: "dict_inv d" "dict_inv d'" and ty: "d_type d' = d_type d"
    and ms: "mset (dict_ents d') = add_mset e (mset es)"
    and old: "\<And>x. x \<in> set es \<Longrightarrow> \<not> dictCompareKeys d (de_key e) (de_key x)"
    and es: "\<And>x. \<not> dictCompareKeys d (de_key e) (de_key x) \<Longrightarrow> x \<in> set es \<longleftrightarrow> x \<in> set (dict_ents d)"
  shows "dict_map d' k = (if dictCompareKeys d k (de_key e) then Some (de_val e) else dict_map d k)"
proof -
  have cmp: "dictCompareKeys d' = dictCompareKeys d" using ty by (simp add: dictCompareKeys_def fun_eq_iff)
  have set: "set (dict_ents d') = insert e (set es)" using arg_cong [OF ms, of set_mset] by simp
  show ?thesis
  proof (cases "dictCompareKeys d k (de_key e)")
    case True
    then have "dict_map d' k = Some (de_val e)"
      using dict_map_eq_Some_iff [OF inv(2), of k] cmp set by auto
    with True show ?thesis by simp
  next
    case False
    have "x \<in> set (dict_ents d') \<longleftrightarrow> x \<in> set (dict_ents d)" if "dictCompareKeys d k (de_key x)" for x
    proof -
      have "\<not> dictCompareKeys d (de_key e) (de_key x)"
        using that False compare_sym [OF inv(1)] compare_trans [OF inv(1)] by blast
      moreover have "x \<noteq> e" using that False by auto
      ultimately show ?thesis using es set by simp
    qed
    then have "dict_map d' k = Some v \<longleftrightarrow> dict_map d k = Some v" for v
      using dict_map_eq_Some_iff [OF inv(1), of k] dict_map_eq_Some_iff [OF inv(2), of k] cmp by auto
    then have "dict_map d' k = dict_map d k" by (metis not_None_eq)
    with False show ?thesis by simp
  qed
qed

section \<open>The public operations on the map\<close>

lemma ref_ok_same: "ref_ok d r e \<Longrightarrow> dict_inv d \<Longrightarrow> \<exists>es. mset (dict_ents d) = add_mset e (mset es)"
  using ref_ok_in_ents by (metis ex_mset multi_member_split set_mset_mset)

lemma dict_others:
  assumes inv: "dict_inv d" and ms: "mset (dict_ents d) = add_mset e (mset es)"
  shows "\<And>x. x \<in> set es \<Longrightarrow> \<not> dictCompareKeys d (de_key e) (de_key x)"
    and "\<And>x. \<not> dictCompareKeys d (de_key e) (de_key x) \<Longrightarrow> x \<in> set es \<longleftrightarrow> x \<in> set (dict_ents d)"
proof -
  show "\<not> dictCompareKeys d (de_key e) (de_key x)" if "x \<in> set es" for x
    using dict_entry_unique [OF inv ms] that by auto
  show "x \<in> set es \<longleftrightarrow> x \<in> set (dict_ents d)" if "\<not> dictCompareKeys d (de_key e) (de_key x)" for x
    using arg_cong [OF ms, of set_mset] that compare_refl [OF inv] by auto
qed

lemma dictAdd_correct:
  assumes inv: "dict_inv d" and small: "length (dict_ents d) < 2 ^ 30"
  shows "\<exists>d'. dictAdd can d k v = Some (d', dict_map d k = None) \<and> dict_inv d' \<and>
    d_type d' = d_type d \<and> iterators d' = iterators d \<and>
    dict_map d' = (\<lambda>x. if dictCompareKeys d x k \<and> dict_map d k = None then Some (Some (dup_val d v)) else dict_map d x) \<and>
    length (dict_ents d') = (if dict_map d k = None then Suc (length (dict_ents d)) else length (dict_ents d))"
proof -
  obtain d1 r where ar: "dictAddRaw can d k = Some (d1, r)" "dict_inv d1" "d_type d1 = d_type d"
    "iterators d1 = iterators d"
    "if dict_map d k = None
     then \<exists>r' k'. r = Some r' \<and> dictCompareKeys d k' k \<and> ref_ok d1 r' \<lparr>de_key = k', de_val = None\<rparr> \<and>
       mset (dict_ents d1) = add_mset \<lparr>de_key = k', de_val = None\<rparr> (mset (dict_ents d))
     else r = None \<and> same_contents d d1"
    using dictAddRaw_correct [OF inv small] by blast
  show ?thesis
  proof (cases "dict_map d k = None")
    case False
    then have "r = None" and sc: "same_contents d d1" using ar(5) by auto
    note m = dict_map_same [OF inv sc] and l = same_contents_length [OF sc]
    have "dictAdd can d k v = Some (d1, False)" using \<open>r = None\<close> ar(1) by (simp add: dictAdd_def)
    then show ?thesis using False ar(2-4) m l by (intro exI [of _ d1]) (auto simp: fun_eq_iff)
  next
    case True
    then obtain r' k' where r': "r = Some r'" "dictCompareKeys d k' k"
      "ref_ok d1 r' \<lparr>de_key = k', de_val = None\<rparr>"
      "mset (dict_ents d1) = add_mset \<lparr>de_key = k', de_val = None\<rparr> (mset (dict_ents d))"
      using ar(5) by auto
    let ?e = "\<lparr>de_key = k', de_val = Some (dup_val d1 v)\<rparr> :: ('a, 'b) dictEntry"
    obtain d2 where d2: "dictSetVal d1 r' v = Some d2" "dict_inv d2" "d_type d2 = d_type d1"
      "iterators d2 = iterators d1" "mset (dict_ents d2) = add_mset ?e (mset (dict_ents d))"
      using dictSetVal_correct [OF ar(2) r'(3,4), of v] by auto
    have old: "\<not> dictCompareKeys d (de_key ?e) (de_key x)" if "x \<in> set (dict_ents d)" for x
    proof -
      have "\<not> dictCompareKeys d k' (de_key x)"
        using True that r'(2) compare_sym [OF inv] compare_trans [OF inv] unfolding dict_map_eq_None_iff [OF inv] by blast
      then show ?thesis by simp
    qed
    have "dict_map d2 x = (if dictCompareKeys d x (de_key ?e) then Some (de_val ?e) else dict_map d x)" for x
      by (rule dict_map_add [OF inv d2(2) _ d2(5) old]) (use d2(3) ar(3) in simp_all)
    moreover have "dictCompareKeys d x k' = dictCompareKeys d x k" for x
      using r'(2) compare_sym [OF inv] compare_trans [OF inv] by blast
    ultimately have "dict_map d2 = (\<lambda>x. if dictCompareKeys d x k \<and> dict_map d k = None then Some (Some (dup_val d v)) else dict_map d x)"
      using True ar(3) by (auto simp: fun_eq_iff dup_val_def)
    moreover have "length (dict_ents d2) = Suc (length (dict_ents d))"
      using arg_cong [OF d2(5), of size] by simp
    moreover have "dictAdd can d k v = Some (d2, True)" using ar(1) r'(1) d2(1) by (simp add: dictAdd_def)
    ultimately show ?thesis using True ar(2-4) d2(2-4) by (intro exI [of _ d2]) simp
  qed
qed

lemma dictReplace_correct:
  assumes inv: "dict_inv d" and small: "length (dict_ents d) < 2 ^ 30"
  shows "\<exists>d'. dictReplace can d k v = Some (d', dict_map d k = None) \<and> dict_inv d' \<and>
    d_type d' = d_type d \<and> iterators d' = iterators d \<and>
    dict_map d' = (\<lambda>x. if dictCompareKeys d x k then Some (Some (dup_val d v)) else dict_map d x) \<and>
    length (dict_ents d') = (if dict_map d k = None then Suc (length (dict_ents d)) else length (dict_ents d))"
proof -
  obtain d1 where d1: "dictAdd can d k v = Some (d1, dict_map d k = None)" "dict_inv d1" "d_type d1 = d_type d"
    "iterators d1 = iterators d"
    "dict_map d1 = (\<lambda>x. if dictCompareKeys d x k \<and> dict_map d k = None then Some (Some (dup_val d v)) else dict_map d x)"
    "length (dict_ents d1) = (if dict_map d k = None then Suc (length (dict_ents d)) else length (dict_ents d))"
    using dictAdd_correct [OF inv small] by blast
  show ?thesis
  proof (cases "dict_map d k = None")
    case True
    then have "dictReplace can d k v = Some (d1, True)" using d1(1) by (simp add: dictReplace_def)
    then show ?thesis using True d1(2-6) by (intro exI [of _ d1]) simp
  next
    case False
    then have m1: "dict_map d1 = dict_map d" unfolding d1(5) by (simp only: simp_thms if_False)
    obtain d2 r where f: "dictFind d1 k = Some (d2, r)" "dict_inv d2" "same_contents d1 d2"
      "case r of None \<Rightarrow> dict_map d1 k = None
       | Some r \<Rightarrow> \<exists>e. ref_ok d2 r e \<and> dictCompareKeys d1 k (de_key e) \<and> dict_map d1 k = Some (de_val e)"
      using dictFind_correct [OF d1(2)] by blast
    then obtain r' e where r': "r = Some r'" "ref_ok d2 r' e" "dictCompareKeys d1 k (de_key e)"
      using False m1 by (auto split: option.splits)
    obtain es where es: "mset (dict_ents d2) = add_mset e (mset es)" using ref_ok_same [OF r'(2) f(2)] by blast
    let ?e = "e\<lparr>de_val := Some (dup_val d2 v)\<rparr>"
    obtain d3 where d3: "dictSetVal d2 r' v = Some d3" "dict_inv d3" "d_type d3 = d_type d2"
      "iterators d3 = iterators d2" "mset (dict_ents d3) = add_mset ?e (mset es)"
      using dictSetVal_correct [OF f(2) r'(2) es, of v] by auto
    have cmp: "dictCompareKeys d2 = dictCompareKeys d" "dup_val d2 = dup_val d" "dictCompareKeys d1 = dictCompareKeys d"
      using f(3) d1(3) by (simp_all add: same_contents_def dictCompareKeys_def dup_val_def fun_eq_iff)
    have m2: "dict_map d2 = dict_map d" using dict_map_same [OF d1(2) f(3)] m1 by simp
    have "dict_map d3 x = (if dictCompareKeys d2 x (de_key ?e) then Some (de_val ?e) else dict_map d2 x)" for x
      by (rule dict_map_add [OF f(2) d3(2,3,5)]) (use dict_others [OF f(2) es] in auto)
    moreover have "dictCompareKeys d x (de_key e) = dictCompareKeys d x k" for x
      using r'(3) cmp compare_sym [OF inv] compare_trans [OF inv] by metis
    ultimately have "dict_map d3 = (\<lambda>x. if dictCompareKeys d x k then Some (Some (dup_val d v)) else dict_map d x)"
      by (simp add: fun_eq_iff m2 cmp)
    moreover have "length (dict_ents d3) = length (dict_ents d)"
      using arg_cong [OF d3(5), of size] arg_cong [OF es, of size] same_contents_length [OF f(3)] d1(6) False
      by simp
    moreover have "dictReplace can d k v = Some (d3, False)"
      using False d1(1) f(1) r'(1) d3(1) by (simp add: dictReplace_def)
    moreover have "d_type d3 = d_type d" "iterators d3 = iterators d"
      using d1(3,4) f(3) d3(3,4) by (simp_all add: same_contents_def)
    ultimately show ?thesis using False d3(2) by (intro exI [of _ d3]) simp
  qed
qed

text \<open>Unlinking the entry a pointer designates.\<close>

lemma dict_unlink_correct:
  assumes inv: "dict_inv d" and r: "ref_ok d (t, i, p) e" and ms: "mset (dict_ents d) = add_mset e (mset es)"
  shows "\<exists>d'. (do { chain \<leftarrow> mem_get (ht_table (ht_get d t)) i;
       tab \<leftarrow> mem_set (ht_table (ht_get d t)) i (take p chain @ drop (Suc p) chain);
       Some (ht_put d t ((ht_get d t)\<lparr>ht_table := tab, ht_used := dec64 (ht_used (ht_get d t))\<rparr>), True) })
      = Some (d', True) \<and>
    dict_inv d' \<and> d_type d' = d_type d \<and> iterators d' = iterators d \<and> mset (dict_ents d') = mset es"
proof -
  let ?ht = "ht_get d t" let ?c = "ht_table ?ht ! i" let ?b = "take p ?c @ drop (Suc p) ?c"
  have t: "table_ok d t" and i: "i < ht_size ?ht" and p: "p < length ?c" "?c ! p = e"
    using r by (auto simp: ref_ok_def)
  note wf = table_ok_wf [OF inv t]
  have len: "i < length (ht_table ?ht)" using i ht_wf_table [OF wf] by simp
  have mc: "mset ?c = add_mset e (mset ?b)"
    using p arg_cong [OF id_take_nth_drop [OF p(1)], of mset] by simp
  have b: "\<forall>e \<in> set ?b. ht_index (hashFunction (d_type d) (de_key e)) ?ht = i"
    using wf i by (auto simp: ht_wf_def dest!: in_set_takeD in_set_dropD)
  have low: "rehashidx d \<le> int i" if "t = 0" "dictIsRehashing d"
  proof (rule ccontr)
    assume "\<not> rehashidx d \<le> int i"
    then have "?c = []" using that inv by (auto simp: dict_inv_def rehash_wf_def ht_get_def)
    with p show False by simp
  qed
  have lb: "length ?b = length ?c - 1" using p by simp
  have "length ?c \<le> ht_used ?ht" using bucket_length_le [OF len] ht_wf_used [OF wf] by (simp add: ht_ents_def)
  moreover have "length (ht_ents ?ht) \<le> length (dict_ents d)" by (simp add: ht_get_def dict_ents_def)
  moreover have "length (dict_ents d) < 2 ^ 63" using inv by (simp add: dict_inv_def)
  ultimately have "0 < ht_used ?ht" "ht_used ?ht < 2 ^ 64"
    using p(1) ht_wf_used [OF wf] by (linarith, simp)
  then have dec: "dec64 (ht_used ?ht) = ht_used ?ht - 1" "0 < ht_used ?ht" by (simp_all only: dec64_id)
  have u: "ht_used ?ht - 1 = length (concat ((ht_table ?ht)[i := ?b]))"
    using length_concat_update [OF len, of ?b] ht_wf_used [OF wf] lb dec(2) p by (simp add: ht_ents_def)
  let ?d = "ht_put d t (?ht\<lparr>ht_table := (ht_table ?ht)[i := ?b], ht_used := ht_used ?ht - 1\<rparr>)"
  have wf': "if dictIsRehashing ?d then rehash_wf ?d else stable_wf ?d"
    and m: "mset (dict_ents ?d) + mset ?c = mset (dict_ents d) + mset ?b"
    using put_bucket [OF inv t i b low u] by blast+
  have ms': "mset (dict_ents ?d) = mset es" using m ms unfolding mc by simp
  have "mset (map (\<lambda>e. key_class d (de_key e)) (e # es)) = mset (map (\<lambda>e. key_class d (de_key e)) (dict_ents d))"
    using ms by simp
  then have "distinct (map (\<lambda>e. key_class d (de_key e)) (e # es))"
    using inv by (metis dict_inv_def mset_eq_imp_distinct_iff)
  then have dist: "distinct (map (\<lambda>e. key_class d (de_key e)) es)" by simp
  have "length es < 2 ^ 63" using arg_cong [OF ms, of size] inv by (simp add: dict_inv_def)
  then have "dict_inv ?d" by (intro dict_inv_ents [OF inv _ wf' ms' _ dist]) simp_all
  then show ?thesis using len ms' dec(1) by (simp add: mem_get_def mem_set_def)
qed

lemma dict_map_remove:
  assumes inv: "dict_inv d" "dict_inv d'" and ty: "d_type d' = d_type d"
    and ms: "mset (dict_ents d') = mset es" "mset (dict_ents d) = add_mset e (mset es)"
  shows "dict_map d' k = (if dictCompareKeys d k (de_key e) then None else dict_map d k)"
proof -
  have cmp: "dictCompareKeys d' = dictCompareKeys d" using ty by (simp add: dictCompareKeys_def fun_eq_iff)
  note others = dict_others [OF inv(1) ms(2)]
  have set: "set (dict_ents d') = set es" using mset_eq_setD [OF ms(1)] by simp
  show ?thesis
  proof (cases "dictCompareKeys d k (de_key e)")
    case True
    then have "dict_map d' k = None"
      using dict_map_eq_None_iff [OF inv(2), of k] cmp set others(1) compare_sym [OF inv(1)] compare_trans [OF inv(1)]
      by metis
    with True show ?thesis by simp
  next
    case False
    have "x \<in> set (dict_ents d') \<longleftrightarrow> x \<in> set (dict_ents d)" if "dictCompareKeys d k (de_key x)" for x
      using that False compare_sym [OF inv(1)] compare_trans [OF inv(1)] others(2) set by metis
    then have "dict_map d' k = Some v \<longleftrightarrow> dict_map d k = Some v" for v
      using dict_map_eq_Some_iff [OF inv(1), of k] dict_map_eq_Some_iff [OF inv(2), of k] cmp by auto
    then have "dict_map d' k = dict_map d k" by (metis not_None_eq)
    with False show ?thesis by simp
  qed
qed

lemma dictGenericDelete_correct:
  assumes inv: "dict_inv d"
  shows "\<exists>d'. dictGenericDelete d k nofree = Some (d', dict_map d k \<noteq> None) \<and> dict_inv d' \<and>
    d_type d' = d_type d \<and> iterators d' = iterators d \<and>
    dict_map d' = (\<lambda>x. if dictCompareKeys d x k then None else dict_map d x) \<and>
    length (dict_ents d') = (if dict_map d k = None then length (dict_ents d) else length (dict_ents d) - 1)"
proof (cases "ht_size (d_ht0 d) = 0")
  case True
  then have "dict_map d = (\<lambda>_. None)" using dict_no_table [OF inv True] by (simp add: dict_map_def fun_eq_iff)
  with True inv show ?thesis by (auto simp: dictGenericDelete_def)
next
  case False
  then obtain d1 where d1: "(if dictIsRehashing d then dictRehashStep d else Some d) = Some d1"
    "dict_inv d1" "same_contents d d1" "ht_size (d_ht0 d1) \<noteq> 0" using maybe_rehash_correct [OF inv] by blast
  have map: "dict_map d1 = dict_map d" by (rule dict_map_same [OF inv d1(3)])
  have cmp: "dictCompareKeys d1 = dictCompareKeys d" using same_contents_compare [OF d1(3)] by simp
  have ty: "d_type d1 = d_type d" "iterators d1 = iterators d" using d1(3) by (simp_all add: same_contents_def)
  note len1 = same_contents_length [OF d1(3)]
  obtain r idx where s: "dict_search d1 k = Some (r, idx)"
    "case r of Some r \<Rightarrow> \<exists>e. ref_ok d1 r e \<and> dictCompareKeys d1 k (de_key e) | None \<Rightarrow> dict_map d1 k = None"
    using dict_search_correct [OF d1(2,4), of k] by (auto split: option.splits)
  show ?thesis
  proof (cases r)
    case None
    then have none: "dict_map d k = None" using s(2) map by simp
    then have "dict_map d x = None" if "dictCompareKeys d x k" for x
      using that compare_trans [OF inv] compare_sym [OF inv] unfolding dict_map_eq_None_iff [OF inv] by blast
    then have "(if dictCompareKeys d x k then None else dict_map d x) = dict_map d x" for x by simp
    moreover have "dictGenericDelete d k nofree = Some (d1, False)"
      using False None d1(1) s(1) by (simp add: dictGenericDelete_def)
    ultimately show ?thesis using none d1(2) ty map len1 by (intro exI [of _ d1]) simp
  next
    case (Some r')
    obtain t i p where rt: "r' = (t, i, p)" by (cases r')
    obtain e where e: "ref_ok d1 r' e" "dictCompareKeys d1 k (de_key e)" using s(2) Some by auto
    obtain es where es: "mset (dict_ents d1) = add_mset e (mset es)" using ref_ok_same [OF e(1) d1(2)] by blast
    have some: "dict_map d k \<noteq> None"
      using dict_map_eq_None_iff [OF d1(2), of k] ref_ok_in_ents [OF d1(2) e(1)] e(2) map by auto
    obtain d2 where d2: "dictGenericDelete d k nofree = Some (d2, True)" "dict_inv d2" "d_type d2 = d_type d1"
      "iterators d2 = iterators d1" "mset (dict_ents d2) = mset es"
      using dict_unlink_correct [OF d1(2) e(1) [unfolded rt] es] rt False Some d1(1) s(1)
      by (auto simp: dictGenericDelete_def Let_def)
    have "dict_map d2 x = (if dictCompareKeys d x k then None else dict_map d x)" for x
    proof -
      have iff: "dictCompareKeys d x k \<longleftrightarrow> dictCompareKeys d1 x (de_key e)"
        using e(2) cmp compare_sym [OF inv] compare_trans [OF inv] by metis
      show ?thesis
        using dict_map_remove [OF d1(2) d2(2,3,5) es] iff map by simp
    qed
    moreover have "length (dict_ents d2) = length (dict_ents d) - 1"
      using arg_cong [OF d2(5), of size] arg_cong [OF es, of size] len1 by simp
    ultimately show ?thesis using some d2(1-4) ty by (intro exI [of _ d2]) (auto simp: fun_eq_iff)
  qed
qed

end
