(* ===== verification/Map_Interface.thy ===== *)
theory Map_Interface
  imports Set_Interface
begin

text \<open>
  The contract of a finite map between \<open>dict.c\<close> and its clients: insert if absent, insert or
  overwrite, delete and fetch, each returning the new representation (a fetch may rehash a
  bucket) and what the C function reports. A map whose values are ignored gives the set
  contract of \<open>Set_Interface\<close>.
\<close>

datatype ('k, 'v) map_op = MAdd 'k 'v | MReplace 'k 'v | MDelete 'k | MFetch 'k

datatype 'v map_reply = Flag bool | Val "'v option"

text \<open>A sequence of operations on the mathematical map, with the replies.\<close>

primrec map_spec :: "('k \<rightharpoonup> 'v) \<Rightarrow> ('k, 'v) map_op list \<Rightarrow> ('k \<rightharpoonup> 'v) \<times> 'v map_reply list" where
  "map_spec m [] = (m, [])"
| "map_spec m (c # cs) =
     (let (m', r) = (case c of
          MAdd k v \<Rightarrow> (if m k = None then m(k \<mapsto> v) else m, Flag (m k = None))
        | MReplace k v \<Rightarrow> (m(k \<mapsto> v), Flag (m k = None))
        | MDelete k \<Rightarrow> (m(k := None), Flag (m k \<noteq> None))
        | MFetch k \<Rightarrow> (m, Val (m k)));
        (m'', rs) = map_spec m' cs
      in (m'', r # rs))"

text \<open>The same sequence on a representation.\<close>

primrec map_run ::
  "('s \<Rightarrow> 'k \<Rightarrow> 'v \<Rightarrow> ('s \<times> bool) option) \<Rightarrow> ('s \<Rightarrow> 'k \<Rightarrow> 'v \<Rightarrow> ('s \<times> bool) option) \<Rightarrow>
   ('s \<Rightarrow> 'k \<Rightarrow> ('s \<times> bool) option) \<Rightarrow> ('s \<Rightarrow> 'k \<Rightarrow> ('s \<times> 'v option) option) \<Rightarrow>
   's \<Rightarrow> ('k, 'v) map_op list \<Rightarrow> ('s \<times> 'v map_reply list) option" where
  "map_run add rep del get s [] = Some (s, [])"
| "map_run add rep del get s (c # cs) = do {
     (s, r) \<leftarrow> (case c of
        MAdd k v \<Rightarrow> map_option (\<lambda>(s, b). (s, Flag b)) (add s k v)
      | MReplace k v \<Rightarrow> map_option (\<lambda>(s, b). (s, Flag b)) (rep s k v)
      | MDelete k \<Rightarrow> map_option (\<lambda>(s, b). (s, Flag b)) (del s k)
      | MFetch k \<Rightarrow> map_option (\<lambda>(s, v). (s, Val v)) (get s k));
     (s, rs) \<leftarrow> map_run add rep del get s cs;
     Some (s, r # rs) }"

text \<open>
  The contract for the keys \<open>vk\<close> and the values \<open>vv\<close> a provider can hold: a hash on string objects, for instance, holds
  strings up to a length.
\<close>

definition op_valid :: "('k \<Rightarrow> bool) \<Rightarrow> ('v \<Rightarrow> bool) \<Rightarrow> ('k, 'v) map_op \<Rightarrow> bool" where
  "op_valid vk vv c = (case c of MAdd k v \<Rightarrow> vk k \<and> vv v | MReplace k v \<Rightarrow> vk k \<and> vv v | MDelete k \<Rightarrow> vk k | MFetch k \<Rightarrow> vk k)"

locale bounded_map =
  fixes inv :: "'s \<Rightarrow> bool"
    and abs :: "'s \<Rightarrow> 'k \<rightharpoonup> 'v"
    and vk :: "'k \<Rightarrow> bool"
    and vv :: "'v \<Rightarrow> bool"
    and cap :: nat
    and add :: "'s \<Rightarrow> 'k \<Rightarrow> 'v \<Rightarrow> ('s \<times> bool) option"
    and rep :: "'s \<Rightarrow> 'k \<Rightarrow> 'v \<Rightarrow> ('s \<times> bool) option"
    and del :: "'s \<Rightarrow> 'k \<Rightarrow> ('s \<times> bool) option"
    and get :: "'s \<Rightarrow> 'k \<Rightarrow> ('s \<times> 'v option) option"
  assumes finite_keys: "inv s \<Longrightarrow> finite (dom (abs s))"
    and add_law: "inv s \<Longrightarrow> vk k \<Longrightarrow> vv v \<Longrightarrow> card (dom (abs s)) < cap \<Longrightarrow>
      \<exists>s'. add s k v = Some (s', abs s k = None) \<and> inv s' \<and>
        abs s' = (if abs s k = None then (abs s)(k \<mapsto> v) else abs s)"
    and rep_law: "inv s \<Longrightarrow> vk k \<Longrightarrow> vv v \<Longrightarrow> card (dom (abs s)) < cap \<Longrightarrow>
      \<exists>s'. rep s k v = Some (s', abs s k = None) \<and> inv s' \<and> abs s' = (abs s)(k \<mapsto> v)"
    and del_law: "inv s \<Longrightarrow> vk k \<Longrightarrow> card (dom (abs s)) \<le> cap \<Longrightarrow>
      \<exists>s'. del s k = Some (s', abs s k \<noteq> None) \<and> inv s' \<and> abs s' = (abs s)(k := None)"
    and get_law: "inv s \<Longrightarrow> vk k \<Longrightarrow> \<exists>s'. get s k = Some (s', abs s k) \<and> inv s' \<and> abs s' = abs s"
begin

text \<open>Every sequence of operations replies what the mathematical map replies.\<close>

lemma run_refines:
  assumes "inv s" "\<forall>c \<in> set cs. op_valid vk vv c" "card (dom (abs s)) + length cs \<le> cap"
  shows "\<exists>s'. map_run add rep del get s cs = Some (s', snd (map_spec (abs s) cs)) \<and> inv s' \<and>
    abs s' = fst (map_spec (abs s) cs)"
  using assms
proof (induction cs arbitrary: s)
  case (Cons c cs)
  let ?step = "case c of MAdd k v \<Rightarrow> map_option (\<lambda>(s, b). (s, Flag b)) (add s k v)
      | MReplace k v \<Rightarrow> map_option (\<lambda>(s, b). (s, Flag b)) (rep s k v)
      | MDelete k \<Rightarrow> map_option (\<lambda>(s, b). (s, Flag b)) (del s k)
      | MFetch k \<Rightarrow> map_option (\<lambda>(s, v). (s, Val v)) (get s k)"
  let ?abs = "case c of MAdd k v \<Rightarrow> (if abs s k = None then (abs s)(k \<mapsto> v) else abs s, Flag (abs s k = None))
        | MReplace k v \<Rightarrow> ((abs s)(k \<mapsto> v), Flag (abs s k = None))
        | MDelete k \<Rightarrow> ((abs s)(k := None), Flag (abs s k \<noteq> None))
        | MFetch k \<Rightarrow> (abs s, Val (abs s k))"
  have fin: "finite (dom (abs s))" using Cons.prems(1) by (rule finite_keys)
  have small: "card (dom (abs s)) < cap" using Cons.prems(3) by simp
  have "\<exists>s1. ?step = Some (s1, snd ?abs) \<and> inv s1 \<and> abs s1 = fst ?abs"
  proof (cases c)
    case (MAdd k v)
    then show ?thesis using add_law [OF Cons.prems(1) _ _ small, of k v] Cons.prems(2) by (auto simp: op_valid_def)
  next
    case (MReplace k v)
    then show ?thesis using rep_law [OF Cons.prems(1) _ _ small, of k v] Cons.prems(2) by (auto simp: op_valid_def)
  next
    case (MDelete k)
    then show ?thesis using del_law [OF Cons.prems(1), of k] small Cons.prems(2) by (auto simp: op_valid_def)
  next
    case (MFetch k)
    then show ?thesis using get_law [OF Cons.prems(1), of k] Cons.prems(2) by (auto simp: op_valid_def)
  qed
  then obtain s1 where s1: "?step = Some (s1, snd ?abs)" "inv s1" "abs s1 = fst ?abs" by blast
  have "card (dom (fst ?abs)) \<le> Suc (card (dom (abs s)))"
    using fin card_mono [OF fin, of "dom (abs s) - _"]
    by (cases c) (auto simp: card_insert_if insert_absorb le_SucI)
  then have "card (dom (abs s1)) + length cs \<le> cap" using Cons.prems(3) s1(3) by simp
  then obtain s2 where "map_run add rep del get s1 cs = Some (s2, snd (map_spec (abs s1) cs))"
    "inv s2" "abs s2 = fst (map_spec (abs s1) cs)" using Cons.IH [OF s1(2)] Cons.prems(2) by auto
  with s1 show ?case by (auto simp: split_beta Let_def)
qed simp

end

text \<open>The contract of a provider that holds every key and every value.\<close>

locale map_impl =
  fixes inv :: "'s \<Rightarrow> bool"
    and abs :: "'s \<Rightarrow> 'k \<rightharpoonup> 'v"
    and cap :: nat
    and add :: "'s \<Rightarrow> 'k \<Rightarrow> 'v \<Rightarrow> ('s \<times> bool) option"
    and rep :: "'s \<Rightarrow> 'k \<Rightarrow> 'v \<Rightarrow> ('s \<times> bool) option"
    and del :: "'s \<Rightarrow> 'k \<Rightarrow> ('s \<times> bool) option"
    and get :: "'s \<Rightarrow> 'k \<Rightarrow> ('s \<times> 'v option) option"
  assumes finite_dom: "inv s \<Longrightarrow> finite (dom (abs s))"
    and add_map: "inv s \<Longrightarrow> card (dom (abs s)) < cap \<Longrightarrow>
      \<exists>s'. add s k v = Some (s', abs s k = None) \<and> inv s' \<and>
        abs s' = (if abs s k = None then (abs s)(k \<mapsto> v) else abs s)"
    and rep_map: "inv s \<Longrightarrow> card (dom (abs s)) < cap \<Longrightarrow>
      \<exists>s'. rep s k v = Some (s', abs s k = None) \<and> inv s' \<and> abs s' = (abs s)(k \<mapsto> v)"
    and del_map: "inv s \<Longrightarrow> \<exists>s'. del s k = Some (s', abs s k \<noteq> None) \<and> inv s' \<and> abs s' = (abs s)(k := None)"
    and get_map: "inv s \<Longrightarrow> \<exists>s'. get s k = Some (s', abs s k) \<and> inv s' \<and> abs s' = abs s"

sublocale map_impl \<subseteq> any: bounded_map inv abs "\<lambda>_. True" "\<lambda>_. True" cap add rep del get
  by unfold_locales (rule finite_dom add_map rep_map del_map get_map; assumption)+

context map_impl
begin

lemma run_refines_map:
  assumes "inv s" "card (dom (abs s)) + length cs \<le> cap"
  shows "\<exists>s'. map_run add rep del get s cs = Some (s', snd (map_spec (abs s) cs)) \<and> inv s' \<and>
    abs s' = fst (map_spec (abs s) cs)"
  by (rule any.run_refines) (use assms in \<open>auto simp: op_valid_def split: map_op.splits\<close>)

end

text \<open>A map whose clients only look at the keys: the value added is fixed.\<close>

locale map_as_set = map_impl inv abs cap add rep del get
  for inv :: "'s \<Rightarrow> bool" and abs :: "'s \<Rightarrow> 'k \<rightharpoonup> 'v" and cap add rep del get +
  fixes null :: 'v

sublocale map_as_set \<subseteq> keys: set_impl inv "\<lambda>s. dom (abs s)" "\<lambda>_. True" cap
  "\<lambda>s k. add s k null" del "\<lambda>s k. map_option (\<lambda>(s, v). (s, v \<noteq> None)) (get s k)"
proof (unfold_locales, goal_cases)
  case (1 s)
  then show ?case by (rule finite_dom)
next
  case (2 s x)
  then show ?case using add_map [of s x null] by auto
next
  case (3 s x)
  then show ?case using del_map [of s x] by auto
next
  case (4 s x)
  then show ?case using get_map [of s x] by auto
qed

end
