(* ===== verification/Dict_Map.thy ===== *)
theory Dict_Map
  imports Dict_Ops Map_Interface
begin

text \<open>
  The dict provides the map contract when its type compares keys by equality and duplicates
  neither keys nor values, as the types of the sets, hashes and keyspace do on string
  contents, and the set contract when the values are ignored.
\<close>

definition eq_type :: "('k, 'v) dictType \<Rightarrow> bool" where
  "eq_type t \<longleftrightarrow> dtype_ok t \<and> compareKeys t = (=) \<and> keyDup t = None \<and> valDup t = None"

definition plain_inv :: "('k, 'v) dict \<Rightarrow> bool" where
  "plain_inv d \<longleftrightarrow> dict_inv d \<and> eq_type (d_type d) \<and> (\<forall>e \<in> set (dict_ents d). de_val e \<noteq> None)"

definition dict_abs :: "('k, 'v) dict \<Rightarrow> 'k \<rightharpoonup> 'v" where
  "dict_abs d k = Option.bind (dict_map d k) (\<lambda>v. v)"

lemma plain_map_value:
  assumes "plain_inv d"
  shows "dict_map d k = None \<longleftrightarrow> dict_abs d k = None" "dict_map d k \<noteq> Some None"
proof -
  have inv: "dict_inv d" using assms by (simp add: plain_inv_def)
  show n: "dict_map d k \<noteq> Some None"
    using assms dict_map_eq_Some_iff [OF inv, of k None] by (auto simp: plain_inv_def)
  show "dict_map d k = None \<longleftrightarrow> dict_abs d k = None"
    using n by (cases "dict_map d k") (auto simp: dict_abs_def)
qed

lemma plain_compare: "plain_inv d \<Longrightarrow> dictCompareKeys d = (=)"
  by (simp add: plain_inv_def eq_type_def dictCompareKeys_def)

lemma plain_inv_intro:
  assumes "plain_inv d" "dict_inv d'" "d_type d' = d_type d" "\<And>k. dict_map d' k \<noteq> Some None"
  shows "plain_inv d'"
proof -
  have ty: "eq_type (d_type d')" using assms(1,3) by (simp add: plain_inv_def)
  then have "dictCompareKeys d' = (=)" by (simp add: eq_type_def dictCompareKeys_def)
  then have "de_val e \<noteq> None" if "e \<in> set (dict_ents d')" for e
    using assms(4) [of "de_key e"] dict_map_eq_Some_iff [OF assms(2), of "de_key e" None] that by auto
  then show ?thesis using ty assms(2) by (simp add: plain_inv_def)
qed

lemma plain_dom:
  assumes "plain_inv d"
  shows "dom (dict_abs d) = de_key ` set (dict_ents d)" "card (dom (dict_abs d)) = length (dict_ents d)"
proof -
  have inv: "dict_inv d" using assms by (simp add: plain_inv_def)
  note cmp = plain_compare [OF assms]
  have "k \<in> dom (dict_abs d) \<longleftrightarrow> k \<in> de_key ` set (dict_ents d)" for k
    using plain_map_value(1) [OF assms, of k] dict_map_eq_None_iff [OF inv, of k] by (auto simp: cmp)
  then show d: "dom (dict_abs d) = de_key ` set (dict_ents d)" by blast
  have "distinct (map de_key (dict_ents d))"
    using inv by (auto simp: dict_inv_def distinct_map inj_on_def)
  then show "card (dom (dict_abs d)) = length (dict_ents d)"
    unfolding d using distinct_card [of "map de_key (dict_ents d)"] by simp
qed

lemma plain_add:
  assumes p: "plain_inv d" and small: "card (dom (dict_abs d)) < 2 ^ 30"
  shows "\<exists>d'. dictAdd can d k v = Some (d', dict_abs d k = None) \<and> plain_inv d' \<and>
    dict_abs d' = (if dict_abs d k = None then (dict_abs d)(k \<mapsto> v) else dict_abs d)"
proof -
  have inv: "dict_inv d" and dv: "dup_val d v = v"
    using p by (auto simp: plain_inv_def eq_type_def dup_val_def)
  have l: "length (dict_ents d) < 2 ^ 30" using small plain_dom(2) [OF p] by simp
  obtain d' where d': "dictAdd can d k v = Some (d', dict_map d k = None)" "dict_inv d'" "d_type d' = d_type d"
    "dict_map d' = (\<lambda>x. if x = k \<and> dict_map d k = None then Some (Some v) else dict_map d x)"
    using dictAdd_correct [OF inv l, of can k v] unfolding plain_compare [OF p] dv by blast
  have "plain_inv d'" by (rule plain_inv_intro [OF p d'(2,3)]) (use plain_map_value(2) [OF p] in \<open>simp add: d'(4)\<close>)
  moreover have "dict_abs d' x = (if dict_abs d k = None then (dict_abs d)(k \<mapsto> v) else dict_abs d) x" for x
    using plain_map_value(1) [OF p, of k] by (simp add: dict_abs_def d'(4))
  ultimately show ?thesis using d'(1) plain_map_value(1) [OF p, of k] by (intro exI [of _ d']) auto
qed

lemma plain_replace:
  assumes p: "plain_inv d" and small: "card (dom (dict_abs d)) < 2 ^ 30"
  shows "\<exists>d'. dictReplace can d k v = Some (d', dict_abs d k = None) \<and> plain_inv d' \<and>
    dict_abs d' = (dict_abs d)(k \<mapsto> v)"
proof -
  have inv: "dict_inv d" and dv: "dup_val d v = v"
    using p by (auto simp: plain_inv_def eq_type_def dup_val_def)
  have l: "length (dict_ents d) < 2 ^ 30" using small plain_dom(2) [OF p] by simp
  obtain d' where d': "dictReplace can d k v = Some (d', dict_map d k = None)" "dict_inv d'" "d_type d' = d_type d"
    "dict_map d' = (\<lambda>x. if x = k then Some (Some v) else dict_map d x)"
    using dictReplace_correct [OF inv l, of can k v] unfolding plain_compare [OF p] dv by blast
  have "plain_inv d'" by (rule plain_inv_intro [OF p d'(2,3)]) (use plain_map_value(2) [OF p] in \<open>simp add: d'(4)\<close>)
  moreover have "dict_abs d' x = ((dict_abs d)(k \<mapsto> v)) x" for x by (simp add: dict_abs_def d'(4))
  ultimately show ?thesis using d'(1) plain_map_value(1) [OF p, of k] by (intro exI [of _ d']) auto
qed

lemma plain_delete:
  assumes p: "plain_inv d"
  shows "\<exists>d'. dictDelete d k = Some (d', dict_abs d k \<noteq> None) \<and> plain_inv d' \<and> dict_abs d' = (dict_abs d)(k := None)"
proof -
  have inv: "dict_inv d" using p by (simp add: plain_inv_def)
  obtain d' where d': "dictDelete d k = Some (d', dict_map d k \<noteq> None)" "dict_inv d'" "d_type d' = d_type d"
    "dict_map d' = (\<lambda>x. if x = k then None else dict_map d x)"
    using dictGenericDelete_correct [OF inv, of k False] unfolding plain_compare [OF p] dictDelete_def by blast
  have "plain_inv d'" by (rule plain_inv_intro [OF p d'(2,3)]) (use plain_map_value(2) [OF p] in \<open>simp add: d'(4)\<close>)
  moreover have "dict_abs d' x = ((dict_abs d)(k := None)) x" for x by (simp add: dict_abs_def d'(4))
  ultimately show ?thesis using d'(1) plain_map_value(1) [OF p, of k] by (intro exI [of _ d']) auto
qed

lemma plain_fetch:
  assumes p: "plain_inv d"
  shows "\<exists>d'. dictFetchValue d k = Some (d', dict_abs d k) \<and> plain_inv d' \<and> dict_abs d' = dict_abs d"
proof -
  have inv: "dict_inv d" using p by (simp add: plain_inv_def)
  obtain d' r where f: "dictFind d k = Some (d', r)" "dict_inv d'" "same_contents d d'"
    "case r of None \<Rightarrow> dict_map d k = None
     | Some r \<Rightarrow> \<exists>e. ref_ok d' r e \<and> dictCompareKeys d k (de_key e) \<and> dict_map d k = Some (de_val e)"
    using dictFind_correct [OF inv, of k] by blast
  have m: "dict_map d' = dict_map d" by (rule dict_map_same [OF inv f(3)])
  have ty: "d_type d' = d_type d" using f(3) by (simp add: same_contents_def)
  have p': "plain_inv d'" by (rule plain_inv_intro [OF p f(2) ty]) (use plain_map_value(2) [OF p] in \<open>simp add: m\<close>)
  have abs: "dict_abs d' = dict_abs d" by (rule ext) (simp add: dict_abs_def m)
  have "dictFetchValue d k = Some (d', dict_abs d k)"
  proof (cases r)
    case None
    then show ?thesis using f(1,4) by (simp add: dictFetchValue_def dict_abs_def)
  next
    case (Some r')
    then obtain e where e: "ref_ok d' r' e" "dict_map d k = Some (de_val e)" using f(4) by auto
    then obtain v where "de_val e = Some v" using plain_map_value(2) [OF p, of k] by auto
    then show ?thesis
      using f(1) Some e(2) ref_ok_entry [OF f(2) e(1)] by (simp add: dictFetchValue_def dict_abs_def)
  qed
  then show ?thesis using p' abs by blast
qed

interpretation dict: map_impl plain_inv dict_abs "2 ^ 30" "dictAdd can" "dictReplace can" dictDelete dictFetchValue
  for can
proof (unfold_locales, goal_cases)
  case (1 s)
  then show ?case by (simp add: plain_dom(1))
next
  case (2 s k v)
  then show ?case by (rule plain_add)
next
  case (3 s k v)
  then show ?case by (rule plain_replace)
next
  case (4 s k)
  then show ?case by (rule plain_delete)
next
  case (5 s k)
  then show ?case by (rule plain_fetch)
qed

interpretation dict_set: map_as_set plain_inv dict_abs "2 ^ 30" "dictAdd can" "dictReplace can" dictDelete
  dictFetchValue null for can null
  by unfold_locales

lemma dictCreate_plain:
  assumes "eq_type t"
  shows "plain_inv (dictCreate t)" "dict_abs (dictCreate t) = Map.empty"
  using assms by (auto simp: plain_inv_def eq_type_def dict_inv_def stable_wf_def dictIsRehashing_def dictCreate_def
      dictInit_def dict_ents_def dict_abs_def dict_map_def fun_eq_iff)

end
