(* ===== verification/Dict_Scan.thy ===== *)
theory Dict_Scan
  imports Dict_Ops
begin

text \<open>
  The stateless iterator \<open>dictScan\<close>: a cursor incremented on its reversed bits. The theorems
  read a 64 bit value through the order of its reversed bits, in which one call covers an
  interval of hash values and the cursor returned is the end of the interval.
\<close>

section \<open>Reversing the bits of a word\<close>

definition rev_swap :: "nat \<Rightarrow> 64 word \<Rightarrow> 64 word \<Rightarrow> 64 word" where
  "rev_swap s msk v = (drop_bit s v AND msk) OR (push_bit s v AND NOT msk)"

fun rev_loop :: "nat \<Rightarrow> 64 word \<Rightarrow> 64 word \<Rightarrow> 64 word" where
  "rev_loop s msk v =
     (let s = s div 2 in
      if s > 0 then (let msk = msk XOR push_bit s msk in rev_loop s msk (rev_swap s msk v))
      else v)"

declare rev_loop.simps [simp del]

definition rev_bits :: "64 word \<Rightarrow> 64 word" where
  "rev_bits v = rev_loop 64 (NOT 0) v"

lemma rev_bits_unfold:
  "rev_bits v =
     rev_swap 1 0x5555555555555555 (rev_swap 2 0x3333333333333333 (rev_swap 4 0x0F0F0F0F0F0F0F0F
       (rev_swap 8 0x00FF00FF00FF00FF (rev_swap 16 0x0000FFFF0000FFFF (rev_swap 32 0x00000000FFFFFFFF v)))))"
  by (simp add: rev_bits_def rev_loop.simps Let_def mask_eq_exp_minus_1 push_bit_eq_mult)

lemma bit_rev_swap:
  assumes "i < 64"
  shows "bit (rev_swap s m v) i = (if bit m i then bit v (i + s) else s \<le> i \<and> bit v (i - s))"
  using assms by (simp add: rev_swap_def bit_simps add.commute)

lemma bit_rev_bits:
  assumes "i < 64"
  shows "bit (rev_bits v) i = bit v (63 - i)"
proof -
  have "\<forall>i \<in> set [0..<64]. bit (rev_bits v) i = bit v (63 - i)"
    unfolding rev_bits_unfold by (simp add: upt_rec bit_rev_swap) (simp add: numeral_eq_Suc)
  then show ?thesis using assms by simp
qed

lemma rev_bits_rev_bits [simp]: "rev_bits (rev_bits v) = v"
  by (rule bit_eqI) (simp add: bit_rev_bits)

lemma rev_bits_0 [simp]: "rev_bits 0 = 0"
  by (rule bit_eqI) (simp add: bit_rev_bits)

text \<open>The place of a value in the order of its reversed bits.\<close>

definition rpos :: "64 word \<Rightarrow> nat" where
  "rpos v = unat (rev_bits v)"

lemma rpos_less: "rpos v < 2 ^ 64"
  using unsigned_less [of "rev_bits v"] by (simp add: rpos_def)

lemma rpos_0 [simp]: "rpos 0 = 0"
  by (simp add: rpos_def)

lemma rpos_eq_0_iff: "rpos v = 0 \<longleftrightarrow> v = 0"
  by (metis rpos_def rev_bits_0 rev_bits_rev_bits unat_eq_zero)

lemma rpos_block_iff:
  assumes "n \<le> 64"
  shows "rpos a div 2 ^ (64 - n) = rpos b div 2 ^ (64 - n) \<longleftrightarrow> a AND mask n = b AND mask n"
proof -
  have "rpos a div 2 ^ (64 - n) = rpos b div 2 ^ (64 - n) \<longleftrightarrow>
      drop_bit (64 - n) (rev_bits a) = drop_bit (64 - n) (rev_bits b)"
    by (simp only: rpos_def word_unat_eq_iff unat_drop_bit_eq) (simp only: drop_bit_eq_div)
  also have "\<dots> \<longleftrightarrow> (\<forall>i < n. bit a i = bit b i)"
  proof
    assume eq: "drop_bit (64 - n) (rev_bits a) = drop_bit (64 - n) (rev_bits b)"
    show "\<forall>i < n. bit a i = bit b i"
    proof (intro allI impI)
      fix i assume i: "i < n"
      have "bit (drop_bit (64 - n) (rev_bits a)) (n - Suc i) = bit (drop_bit (64 - n) (rev_bits b)) (n - Suc i)"
        using eq by simp
      then show "bit a i = bit b i" using i assms by (simp add: bit_drop_bit_eq bit_rev_bits)
    qed
  next
    assume eq: "\<forall>i < n. bit a i = bit b i"
    show "drop_bit (64 - n) (rev_bits a) = drop_bit (64 - n) (rev_bits b)"
    proof (rule bit_eqI)
      fix i
      show "bit (drop_bit (64 - n) (rev_bits a)) i = bit (drop_bit (64 - n) (rev_bits b)) i"
      proof (cases "i < n")
        case True
        then have "63 - (64 - n + i) < n" "64 - n + i < 64" using assms by simp_all
        then show ?thesis using eq by (simp add: bit_drop_bit_eq bit_rev_bits)
      next
        case False
        then have "64 \<le> 64 - n + i" using assms by simp
        then show ?thesis by (auto simp: bit_drop_bit_eq dest: bit_imp_le_length)
      qed
    qed
  qed
  also have "\<dots> \<longleftrightarrow> a AND mask n = b AND mask n"
  proof -
    have "a AND mask n = b AND mask n \<longleftrightarrow> (\<forall>i. i < 64 \<longrightarrow> (bit a i \<and> i < n) = (bit b i \<and> i < n))"
      by (auto simp: bit_eq_iff bit_simps)
    then show ?thesis using assms by (meson less_le_trans)
  qed
  finally show ?thesis .
qed

lemma rev_bits_or_not_mask:
  assumes "n \<le> 64"
  shows "rev_bits (v OR NOT (mask n)) = rev_bits v OR mask (64 - n)"
  by (rule bit_eqI) (use assms in \<open>auto simp: bit_rev_bits bit_simps\<close>)

lemma nat_or_mask: "(x::nat) OR mask k = x div 2 ^ k * 2 ^ k + mask k"
proof -
  have "x OR mask k = push_bit k (drop_bit k x) OR mask k"
    by (rule bit_eqI) (auto simp: bit_simps)
  also have "\<dots> = push_bit k (drop_bit k x) + mask k"
    by (rule disjunctive_add_eq_or [symmetric]) (simp add: bit_eq_iff bit_simps)
  finally show ?thesis by (simp add: push_bit_eq_mult drop_bit_eq_div)
qed

lemma unat_mask_64: "k \<le> 64 \<Longrightarrow> unat (mask k :: 64 word) = mask k"
  by (rule bit_eqI) (auto simp: bit_simps)

lemma unat_inc: "unat (x + 1 :: 64 word) = (unat x + 1) mod 2 ^ 64"
proof -
  have "unat (x + 1) = (unat x + unat (1 :: 64 word)) mod 2 ^ LENGTH(64)"
    by (rule unat_word_ariths(1))
  then show ?thesis by (simp only: unsigned_1 len_of_numeral_defs) simp
qed

lemma rpos_next:
  assumes "n \<le> 64"
  shows "rpos (rev_bits (rev_bits (v OR NOT (mask n)) + 1)) =
    (rpos v div 2 ^ (64 - n) + 1) * 2 ^ (64 - n) mod 2 ^ 64"
proof -
  let ?k = "64 - n"
  have "unat (rev_bits v OR mask ?k) + 1 = (rpos v div 2 ^ ?k + 1) * 2 ^ ?k"
    by (simp only: unsigned_or_eq unat_mask_64 [of ?k] nat_or_mask diff_le_self)
       (simp add: rpos_def mask_eq_exp_minus_1)
  moreover have "rpos (rev_bits ((rev_bits v OR mask ?k) + 1)) = (unat (rev_bits v OR mask ?k) + 1) mod 2 ^ 64"
    by (simp only: rpos_def rev_bits_rev_bits unat_inc)
  ultimately show ?thesis unfolding rev_bits_or_not_mask [OF assms] by simp
qed

text \<open>A value at or after the cursor is in the block of the cursor, or at or after the next one.\<close>

lemma rpos_next_cases:
  assumes "n \<le> 64" "rpos v \<le> rpos h"
  defines "v' \<equiv> rev_bits (rev_bits (v OR NOT (mask n)) + 1)"
  shows "h AND mask n = v AND mask n \<or> (v' \<noteq> 0 \<and> rpos v' \<le> rpos h)"
proof (cases "rpos h div 2 ^ (64 - n) = rpos v div 2 ^ (64 - n)")
  case True
  then show ?thesis using rpos_block_iff [OF assms(1)] by simp
next
  case False
  let ?B = "2 ^ (64 - n) :: nat"
  have "rpos v div ?B < rpos h div ?B" using assms(2) False by (metis div_le_mono le_neq_implies_less)
  then have le: "(rpos v div ?B + 1) * ?B \<le> rpos h"
    by (metis Suc_eq_plus1 Suc_leI div_times_less_eq_dividend le_trans mult_le_mono1)
  then have "rpos v' = (rpos v div ?B + 1) * ?B"
    using rpos_next [OF assms(1), of v] rpos_less [of h] by (simp add: v'_def)
  then show ?thesis using le rpos_eq_0_iff [of v'] by auto
qed

section \<open>dictScan\<close>

text \<open>The do-while loop over the expansions of the cursor in the larger table.\<close>

partial_function (option) dictScan_loop ::
  "('k, 'v) dictEntry list list \<Rightarrow> 64 word \<Rightarrow> 64 word \<Rightarrow> 64 word \<Rightarrow> (64 word \<times> ('k, 'v) dictEntry list) option" where
  "dictScan_loop tab m0 m1 v =
     Option.bind (mem_get tab (unat (v AND m1))) (\<lambda>de.
       let v = (((v OR m0) + 1) AND NOT m0) OR (v AND m0) in
       if v AND (m0 XOR m1) \<noteq> 0 then
         Option.bind (dictScan_loop tab m0 m1 v) (\<lambda>(v, es). Some (v, de @ es))
       else Some (v, de))"

declare dictScan_loop.simps [code]

text \<open>The entries passed to the callback, in order, and the cursor returned.\<close>

definition dictScan :: "('k, 'v) dict \<Rightarrow> 64 word \<Rightarrow> (64 word \<times> ('k, 'v) dictEntry list) option" where
  "dictScan d v =
     (if dictSize d = 0 then Some (0, [])
      else do {
        (v, m0, es) \<leftarrow>
          (if \<not> dictIsRehashing d then (let m0 = of_nat (ht_sizemask (d_ht0 d)) in do {
             de \<leftarrow> mem_get (ht_table (d_ht0 d)) (unat (v AND m0));
             Some (v, m0, de) })
           else (let (t0, t1) = (if ht_size (d_ht0 d) > ht_size (d_ht1 d) then (d_ht1 d, d_ht0 d)
                                 else (d_ht0 d, d_ht1 d));
                     m0 = of_nat (ht_sizemask t0); m1 = of_nat (ht_sizemask t1) in do {
             de \<leftarrow> mem_get (ht_table t0) (unat (v AND m0));
             (v, es) \<leftarrow> dictScan_loop (ht_table t1) m0 m1 v;
             Some (v, m0, de @ es) }));
        let v = v OR NOT m0;
        let v = rev_bits v;
        let v = v + 1;
        let v = rev_bits v;
        Some (v, es) })"

section \<open>One call covers one block\<close>

lemma of_nat_mask: "of_nat (2 ^ n - 1) = (mask n :: 64 word)"
  by (simp add: mask_eq_exp_minus_1 of_nat_diff)

lemma unat_and_mask: "unat (v AND mask n :: 64 word) = unat v mod 2 ^ n"
proof -
  have "unat (v AND mask n) = unat (take_bit n v)" by (simp only: take_bit_eq_mask)
  also have "\<dots> = take_bit n (unat v)" by (simp only: unsigned_take_bit_eq)
  finally show ?thesis by (simp only: take_bit_eq_mod)
qed

lemma unat_and_not_mask: "unat (v AND NOT (mask n) :: 64 word) = unat v div 2 ^ n * 2 ^ n"
proof -
  have "unat (v AND NOT (mask n)) = push_bit n (drop_bit n (unat v))"
    by (rule bit_eqI) (auto simp: bit_simps dest: bit_imp_le_length)
  then show ?thesis by (simp only: push_bit_eq_mult drop_bit_eq_div)
qed

lemma nat_or_split: "(x * 2 ^ n) OR (y mod 2 ^ n) = x * 2 ^ n + (y mod 2 ^ n :: nat)"
proof -
  have "push_bit n x OR take_bit n y = push_bit n x + take_bit n y"
    by (rule disjunctive_add_eq_or [symmetric]) (simp add: bit_eq_iff bit_simps)
  then show ?thesis by (simp only: push_bit_eq_mult take_bit_eq_mod)
qed

text \<open>The step of the inner loop increments the part of the cursor above the smaller mask.\<close>

definition expand_next :: "nat \<Rightarrow> 64 word \<Rightarrow> 64 word" where
  "expand_next n v = (((v OR mask n) + 1) AND NOT (mask n)) OR (v AND mask n)"

lemma unat_expand_next:
  assumes "n \<le> 64"
  shows "unat (expand_next n v) = (unat v div 2 ^ n + 1) mod 2 ^ (64 - n) * 2 ^ n + unat v mod 2 ^ n"
proof -
  let ?w = "(v OR mask n) + 1"
  have "unat (v OR mask n) + 1 = (unat v div 2 ^ n + 1) * 2 ^ n"
    using assms by (simp only: unsigned_or_eq unat_mask_64 [of n] nat_or_mask)
       (simp add: mask_eq_exp_minus_1)
  then have w: "unat ?w = (unat v div 2 ^ n + 1) * 2 ^ n mod 2 ^ 64"
    by (simp only: unat_inc)
  have p64: "(2::nat) ^ 64 = 2 ^ (64 - n) * 2 ^ n"
    using assms by (simp only: power_add [symmetric]) simp
  have w': "unat ?w = (unat v div 2 ^ n + 1) mod 2 ^ (64 - n) * 2 ^ n"
    unfolding w p64 by (rule mult_mod_left [symmetric])
  have "unat (expand_next n v) = (unat ?w div 2 ^ n * 2 ^ n) OR (unat v mod 2 ^ n)"
    by (simp only: expand_next_def unsigned_or_eq unat_and_mask unat_and_not_mask)
  also have "unat ?w div 2 ^ n * 2 ^ n = (unat v div 2 ^ n + 1) mod 2 ^ (64 - n) * 2 ^ n"
    unfolding w' by simp
  finally show ?thesis by (simp only: nat_or_split)
qed

text \<open>The tables of a step and the blocks it covers.\<close>

lemma unat_funpow_expand_next:
  assumes "n \<le> 64"
  shows "unat ((expand_next n ^^ j) v) = (unat v div 2 ^ n + j) mod 2 ^ (64 - n) * 2 ^ n + unat v mod 2 ^ n"
proof (induction j)
  case 0
  have "unat v < 2 ^ (64 - n) * 2 ^ n"
    using unsigned_less [of v] assms by (simp only: power_add [symmetric]) simp
  then have "unat v div 2 ^ n < 2 ^ (64 - n)" by (rule less_mult_imp_div_less)
  then show ?case by (simp add: div_mult_mod_eq)
next
  case (Suc j)
  have "unat ((expand_next n ^^ j) v) div 2 ^ n = (unat v div 2 ^ n + j) mod 2 ^ (64 - n)"
    "unat ((expand_next n ^^ j) v) mod 2 ^ n = unat v mod 2 ^ n"
    unfolding Suc by simp_all
  then show ?case
    by (simp only: funpow.simps o_apply unat_expand_next [OF assms]) (simp add: mod_Suc_eq)
qed

lemma expand_next_and_mask:
  assumes "n \<le> 64"
  shows "(expand_next n ^^ j) v AND mask n = v AND mask n"
  by (simp only: word_unat_eq_iff unat_and_mask unat_funpow_expand_next [OF assms]) simp

lemma and_xor_mask_eq_0_iff:
  assumes "n \<le> k" "k \<le> 64"
  shows "(v::64 word) AND (mask n XOR mask k) = 0 \<longleftrightarrow> unat v div 2 ^ n mod 2 ^ (k - n) = 0"
proof -
  have "unat v div 2 ^ n mod 2 ^ (k - n) = unat (take_bit (k - n) (drop_bit n v))"
    by (simp only: unsigned_take_bit_eq unat_drop_bit_eq) (simp only: take_bit_eq_mod drop_bit_eq_div)
  moreover have "take_bit (k - n) (drop_bit n v) = 0 \<longleftrightarrow> v AND (mask n XOR mask k) = 0"
  proof -
    have "v AND (mask n XOR mask k) = push_bit n (take_bit (k - n) (drop_bit n v))"
      by (rule bit_eqI) (use assms in \<open>auto simp: bit_simps\<close>)
    moreover have "take_bit (k - n) (drop_bit n v) = drop_bit n (v AND (mask n XOR mask k))"
      by (rule bit_eqI) (use assms in \<open>auto simp: bit_simps dest: bit_imp_le_length\<close>)
    ultimately show ?thesis by (metis push_bit_of_0 drop_bit_of_0)
  qed
  ultimately show ?thesis by (simp only: unat_eq_zero)
qed

lemma unat_expand_bucket:
  assumes "n \<le> k" "k \<le> 64" "v AND (mask n XOR mask k) = 0" "j < 2 ^ (k - n)"
  shows "unat ((expand_next n ^^ j) v AND mask k) = j * 2 ^ n + unat v mod 2 ^ n"
proof -
  have "n \<le> 64" using assms by simp
  have c: "(unat v div 2 ^ n + j) mod 2 ^ (64 - n) mod 2 ^ (k - n) = j"
  proof -
    have "(2::nat) ^ (k - n) dvd 2 ^ (64 - n)" using assms by (intro le_imp_power_dvd) simp
    then have "(unat v div 2 ^ n + j) mod 2 ^ (64 - n) mod 2 ^ (k - n) = (unat v div 2 ^ n + j) mod 2 ^ (k - n)"
      by (rule mod_mod_cancel)
    also have "\<dots> = (unat v div 2 ^ n mod 2 ^ (k - n) + j) mod 2 ^ (k - n)" by (simp only: mod_add_left_eq)
    also have "\<dots> = j" using assms and_xor_mask_eq_0_iff [OF assms(1,2), of v] by simp
    finally show ?thesis .
  qed
  have k: "(2::nat) ^ k = 2 ^ n * 2 ^ (k - n)" using assms by (simp only: power_add [symmetric]) simp
  have "(a * 2 ^ n + b) mod 2 ^ k = a mod 2 ^ (k - n) * 2 ^ n + b" if "b < 2 ^ n" for a b :: nat
    unfolding k using that by (simp add: mod_mult2_eq)
  then show ?thesis
    by (simp only: unat_and_mask unat_funpow_expand_next [OF \<open>n \<le> 64\<close>] c) (simp add: c)
qed

lemma expand_next_loops:
  assumes "n \<le> k" "k \<le> 64" "v AND (mask n XOR mask k) = 0" "j < 2 ^ (k - n)"
  shows "(expand_next n ^^ Suc j) v AND (mask n XOR mask k) \<noteq> 0 \<longleftrightarrow> Suc j < 2 ^ (k - n)"
proof -
  have n: "n \<le> 64" using assms by simp
  have d: "(2::nat) ^ (k - n) dvd 2 ^ (64 - n)" using assms by (intro le_imp_power_dvd) simp
  have "unat ((expand_next n ^^ Suc j) v) div 2 ^ n = (unat v div 2 ^ n + Suc j) mod 2 ^ (64 - n)"
    unfolding unat_funpow_expand_next [OF n] by simp
  then have "(expand_next n ^^ Suc j) v AND (mask n XOR mask k) = 0 \<longleftrightarrow>
      (unat v div 2 ^ n + Suc j) mod 2 ^ (64 - n) mod 2 ^ (k - n) = 0"
    by (simp only: and_xor_mask_eq_0_iff [OF assms(1,2)])
  also have "(unat v div 2 ^ n + Suc j) mod 2 ^ (64 - n) mod 2 ^ (k - n) =
      (unat v div 2 ^ n mod 2 ^ (k - n) + Suc j) mod 2 ^ (k - n)"
    by (simp only: mod_mod_cancel [OF d] mod_add_left_eq)
  also have "\<dots> = Suc j mod 2 ^ (k - n)"
    using assms and_xor_mask_eq_0_iff [OF assms(1,2), of v] by simp
  finally have "(expand_next n ^^ Suc j) v AND (mask n XOR mask k) = 0 \<longleftrightarrow> Suc j mod 2 ^ (k - n) = 0" .
  moreover have "Suc j mod 2 ^ (k - n) = 0 \<longleftrightarrow> \<not> Suc j < 2 ^ (k - n)"
  proof (cases "Suc j < 2 ^ (k - n)")
    case False
    then have "Suc j = 2 ^ (k - n)" using assms(4) by simp
    then show ?thesis by (metis less_irrefl mod_self)
  qed simp
  ultimately show ?thesis by argo
qed

lemma dictScan_loop_from:
  assumes nk: "n \<le> k" "k \<le> 64" "v AND (mask n XOR mask k) = 0" and tab: "length tab = 2 ^ k"
    and j: "j < 2 ^ (k - n)"
  shows "dictScan_loop tab (mask n) (mask k) ((expand_next n ^^ j) v) =
    Some ((expand_next n ^^ 2 ^ (k - n)) v,
      concat (map (\<lambda>i. tab ! (i * 2 ^ n + unat v mod 2 ^ n)) [j..<2 ^ (k - n)]))"
  using j
proof (induction "2 ^ (k - n) - j" arbitrary: j)
  case (Suc m)
  let ?v = "(expand_next n ^^ j) v"
  have b: "unat (?v AND mask k) = j * 2 ^ n + unat v mod 2 ^ n"
    by (rule unat_expand_bucket [OF nk Suc.prems])
  moreover have "unat (?v AND mask k) < length tab" using tab by (simp only: unat_and_mask) simp
  ultimately have g: "mem_get tab (unat (?v AND mask k)) = Some (tab ! (j * 2 ^ n + unat v mod 2 ^ n))"
    by (simp add: mem_get_def)
  have nx: "(((?v OR mask n) + 1) AND NOT (mask n)) OR (?v AND mask n) = (expand_next n ^^ Suc j) v"
    by (simp add: expand_next_def)
  note step = dictScan_loop.simps [of tab "mask n" "mask k" ?v, unfolded g nx Let_def bind.bind_lunit]
  show ?case
  proof (cases "Suc j < 2 ^ (k - n)")
    case True
    then have "dictScan_loop tab (mask n) (mask k) ((expand_next n ^^ Suc j) v) =
      Some ((expand_next n ^^ 2 ^ (k - n)) v,
        concat (map (\<lambda>i. tab ! (i * 2 ^ n + unat v mod 2 ^ n)) [Suc j..<2 ^ (k - n)]))"
      using Suc by (intro Suc.hyps(1)) simp_all
    moreover have "[j..<2 ^ (k - n)] = j # [Suc j..<2 ^ (k - n)]" using Suc.prems by (rule upt_conv_Cons)
    ultimately show ?thesis
      using expand_next_loops [OF nk Suc.prems] True by (simp only: step) simp
  next
    case False
    then have "Suc j = 2 ^ (k - n)" using Suc.prems by simp
    moreover from this have "[j..<2 ^ (k - n)] = [j]" by (metis upt_conv_Cons lessI upt_conv_Nil order_refl)
    ultimately show ?thesis
      using expand_next_loops [OF nk Suc.prems] False by (simp only: step) simp
  qed
qed simp

lemmas dictScan_loop_correct = dictScan_loop_from [where j = 0, simplified]

lemma mset_bucket_filter:
  assumes "\<forall>i < length tab. \<forall>e \<in> set (tab ! i). f e = i" "i < length tab"
  shows "filter (\<lambda>e. f e = i) (concat tab) = tab ! i"
proof -
  have "f e \<noteq> i" if "e \<in> set (concat (take i tab))" for e
  proof -
    obtain xs where "xs \<in> set (take i tab)" and e: "e \<in> set xs" using \<open>e \<in> _\<close> by auto
    then obtain j where "j < i" "xs = tab ! j" using assms(2) by (auto simp: in_set_conv_nth)
    then show ?thesis using assms e by (metis less_trans less_irrefl)
  qed
  then have "filter (\<lambda>e. f e = i) (concat (take i tab)) = []" by (auto simp: filter_empty_conv)
  moreover
  have "f e \<noteq> i" if "e \<in> set (concat (drop (Suc i) tab))" for e
  proof -
    obtain xs where "xs \<in> set (drop (Suc i) tab)" and e: "e \<in> set xs" using \<open>e \<in> _\<close> by auto
    then obtain j where "j < length (drop (Suc i) tab)" "xs = drop (Suc i) tab ! j"
      unfolding in_set_conv_nth by blast
    then have "Suc i + j < length tab" "xs = tab ! (Suc i + j)" by simp_all
    then have "f e = Suc i + j" using assms(1) e by blast
    then show ?thesis by simp
  qed
  then have "filter (\<lambda>e. f e = i) (concat (drop (Suc i) tab)) = []" by (auto simp: filter_empty_conv)
  moreover have "filter (\<lambda>e. f e = i) (tab ! i) = tab ! i" using assms by (simp add: filter_id_conv)
  moreover have "concat tab = concat (take i tab) @ tab ! i @ concat (drop (Suc i) tab)"
    using id_take_nth_drop [OF assms(2)] by (metis concat.simps(2) concat_append)
  ultimately show ?thesis by simp
qed

lemma mset_buckets_filter:
  assumes "\<forall>i < length tab. \<forall>e \<in> set (tab ! i). f e = i" "distinct is" "set is \<subseteq> {..<length tab}"
  shows "mset (concat (map ((!) tab) is)) = {#e \<in># mset (concat tab). f e \<in> set is#}"
  using assms(2,3)
proof (induction "is")
  case (Cons i "is")
  let ?M = "mset (concat tab)"
  have "mset (tab ! i) = {#e \<in># ?M. f e = i#}"
    using mset_bucket_filter [OF assms(1), of i] Cons.prems by (metis insert_subset lessThan_iff list.simps(15) mset_filter)
  moreover have "{#e \<in># ?M. f e = i \<or> f e \<in> set is#} = {#e \<in># ?M. f e = i#} + {#e \<in># ?M. f e \<in> set is#}"
    using Cons.prems by (intro multiset_eqI) auto
  ultimately show ?case using Cons by simp
qed simp

text \<open>The block of an entry in the table of \<open>2 ^ n\<close> buckets and in the one of \<open>2 ^ k\<close>.\<close>

lemma mod_block_iff:
  fixes x r :: nat
  assumes "n \<le> k" "r < 2 ^ n"
  shows "x mod 2 ^ k \<in> set (map (\<lambda>i. i * 2 ^ n + r) [0..<2 ^ (k - n)]) \<longleftrightarrow> x mod 2 ^ n = r"
proof
  have d: "(2::nat) ^ n dvd 2 ^ k" using assms(1) by (rule le_imp_power_dvd)
  assume "x mod 2 ^ k \<in> set (map (\<lambda>i. i * 2 ^ n + r) [0..<2 ^ (k - n)])"
  then obtain i where "x mod 2 ^ k = i * 2 ^ n + r" by auto
  then have "x mod 2 ^ k mod 2 ^ n = r" using assms(2) by simp
  then show "x mod 2 ^ n = r" by (simp only: mod_mod_cancel [OF d])
next
  assume r: "x mod 2 ^ n = r"
  have k: "(2::nat) ^ k = 2 ^ n * 2 ^ (k - n)" using assms(1) by (simp only: power_add [symmetric]) simp
  have "x mod 2 ^ k = (x div 2 ^ n mod 2 ^ (k - n)) * 2 ^ n + r"
    unfolding k mod_mult2_eq r by simp
  then show "x mod 2 ^ k \<in> set (map (\<lambda>i. i * 2 ^ n + r) [0..<2 ^ (k - n)])" by auto
qed

lemma distinct_blocks: "distinct (map (\<lambda>i. i * 2 ^ n + (r::nat)) [0..<m])"
  by (auto simp: distinct_map inj_on_def)

lemma blocks_range:
  fixes r :: nat
  assumes "n \<le> k" "r < 2 ^ n"
  shows "set (map (\<lambda>i. i * 2 ^ n + r) [0..<2 ^ (k - n)]) \<subseteq> {..<2 ^ k}"
proof -
  have k: "(2::nat) ^ k = 2 ^ (k - n) * 2 ^ n" using assms(1) by (simp only: power_add [symmetric]) simp
  have "i * 2 ^ n + r < 2 ^ k" if "i < 2 ^ (k - n)" for i
  proof -
    have "i * 2 ^ n + r < Suc i * 2 ^ n" using assms(2) by simp
    also have "\<dots> \<le> 2 ^ k" unfolding k using that by (intro mult_le_mono1) simp
    finally show ?thesis .
  qed
  then show ?thesis by auto
qed

text \<open>The entries of a table in the block of a cursor, as the scan reads them.\<close>

definition in_block :: "('k, 'v) dict \<Rightarrow> nat \<Rightarrow> 64 word \<Rightarrow> ('k, 'v) dictEntry \<Rightarrow> bool" where
  "in_block d n v e \<longleftrightarrow> (ucast (hashFunction (d_type d) (de_key e)) :: 64 word) AND mask n = v AND mask n"

lemma in_block_unat:
  "in_block d n v e \<longleftrightarrow> unat (hashFunction (d_type d) (de_key e)) mod 2 ^ n = unat v mod 2 ^ n"
proof -
  have "unat (ucast (hashFunction (d_type d) (de_key e)) :: 64 word) = unat (hashFunction (d_type d) (de_key e))"
    using unsigned_less [of "hashFunction (d_type d) (de_key e)", where 'a = nat]
    by (simp add: unsigned_ucast_eq take_bit_nat_eq_self)
  then show ?thesis by (simp only: in_block_def word_unat_eq_iff unat_and_mask)
qed

lemma ht_wf_obtain:
  assumes "ht_wf t ht"
  obtains n where "2 \<le> n" "n \<le> 31" "ht_size ht = 2 ^ n" "ht_sizemask ht = 2 ^ n - 1" "length (ht_table ht) = 2 ^ n"
    "\<And>h. ht_index h ht = unat h mod 2 ^ n"
proof -
  obtain n where n: "2 \<le> n" "n \<le> 31" "ht_size ht = 2 ^ n" "ht_sizemask ht = 2 ^ n - 1" "length (ht_table ht) = 2 ^ n"
    using assms by (auto simp: ht_wf_def)
  moreover have "ht_index h ht = unat h mod 2 ^ n" for h
    unfolding ht_index_def n mask_eq_exp_minus_1 [symmetric] take_bit_eq_mask [symmetric]
    by (rule take_bit_eq_mod)
  ultimately show ?thesis by (rule that)
qed

lemma ht_buckets_filter:
  assumes "ht_wf (d_type d) ht" "ht_size ht = 2 ^ k" "n \<le> k"
  shows "mset (concat (map (\<lambda>i. ht_table ht ! (i * 2 ^ n + unat v mod 2 ^ n)) [0..<2 ^ (k - n)])) =
    {#e \<in># mset (ht_ents ht). in_block d n v e#}"
proof -
  let ?f = "\<lambda>e. ht_index (hashFunction (d_type d) (de_key e)) ht"
  let ?r = "unat v mod 2 ^ n"
  let ?is = "map (\<lambda>i. i * 2 ^ n + ?r) [0..<2 ^ (k - n)]"
  obtain p where p: "ht_size ht = 2 ^ p" "length (ht_table ht) = 2 ^ p" "\<And>h. ht_index h ht = unat h mod 2 ^ p"
    using ht_wf_obtain [OF assms(1)] by metis
  have len: "length (ht_table ht) = 2 ^ k" and f: "\<And>h. ht_index h ht = unat h mod 2 ^ k"
    using p assms(2) by simp_all
  have wf: "\<forall>i < length (ht_table ht). \<forall>e \<in> set (ht_table ht ! i). ?f e = i"
    using assms(1) by (simp add: ht_wf_def)
  have r: "?r < 2 ^ n" by simp
  have sub: "set ?is \<subseteq> {..<length (ht_table ht)}" unfolding len by (rule blocks_range [OF assms(3) r])
  have "mset (concat (map ((!) (ht_table ht)) ?is)) = {#e \<in># mset (ht_ents ht). ?f e \<in> set ?is#}"
    unfolding ht_ents_def by (rule mset_buckets_filter [OF wf distinct_blocks sub])
  moreover have "?f e \<in> set ?is \<longleftrightarrow> in_block d n v e" for e
    unfolding f in_block_unat by (rule mod_block_iff [OF assms(3) r])
  ultimately show ?thesis by (simp add: comp_def)
qed

text \<open>
  A cursor whose bits between the two masks are not zero: the loop starts in the middle of the
  expansions and leaves out the lower ones.
\<close>

definition expand_pos :: "nat \<Rightarrow> nat \<Rightarrow> 64 word \<Rightarrow> nat" where
  "expand_pos n k v = unat v div 2 ^ n mod 2 ^ (k - n)"

lemma expand_base:
  assumes "n \<le> k" "k \<le> 64"
  obtains v0 where "v0 AND (mask n XOR mask k) = 0" "(expand_next n ^^ expand_pos n k v) v0 = v"
    "unat v0 mod 2 ^ n = unat v mod 2 ^ n"
proof
  let ?c = "expand_pos n k v" and ?q = "unat v div 2 ^ n"
  let ?u = "(?q - ?c) * 2 ^ n + unat v mod 2 ^ n"
  let ?v0 = "of_nat ?u :: 64 word"
  have n: "n \<le> 64" using assms by simp
  have c: "?c \<le> ?q" by (simp add: expand_pos_def)
  have "?u \<le> ?q * 2 ^ n + unat v mod 2 ^ n" by (intro add_mono mult_le_mono1) simp_all
  also have "\<dots> = unat v" by (rule div_mult_mod_eq)
  finally have "?u < 2 ^ LENGTH(64)" using unsigned_less [of v, where 'a = nat] by (rule le_less_trans)
  then have u: "unat ?v0 = ?u" by (simp only: unsigned_of_nat take_bit_nat_eq_self of_nat_id)
  have ud: "unat ?v0 div 2 ^ n = ?q - ?c" and um: "unat ?v0 mod 2 ^ n = unat v mod 2 ^ n"
    unfolding u by simp_all
  show "unat ?v0 mod 2 ^ n = unat v mod 2 ^ n" by (rule um)
  have "(?q - ?c) mod 2 ^ (k - n) = 0"
    unfolding expand_pos_def by (simp add: minus_mod_eq_mult_div)
  then show "?v0 AND (mask n XOR mask k) = 0"
    unfolding and_xor_mask_eq_0_iff [OF assms] ud .
  have "unat v < 2 ^ (64 - n) * 2 ^ n"
    using unsigned_less [of v, where 'a = nat] n by (simp only: power_add [symmetric]) simp
  then have "?q < 2 ^ (64 - n)" by (rule less_mult_imp_div_less)
  then have "unat ((expand_next n ^^ ?c) ?v0) = ?q * 2 ^ n + unat v mod 2 ^ n"
    unfolding unat_funpow_expand_next [OF n] ud um using c by simp
  then show "(expand_next n ^^ ?c) ?v0 = v"
    by (simp only: div_mult_mod_eq word_unat_eq_iff)
qed

lemma dictScan_loop_any:
  assumes "n \<le> k" "k \<le> 64" "length tab = 2 ^ k"
  shows "\<exists>v'. dictScan_loop tab (mask n) (mask k) v = Some (v',
      concat (map (\<lambda>i. tab ! (i * 2 ^ n + unat v mod 2 ^ n)) [expand_pos n k v..<2 ^ (k - n)])) \<and>
    v' AND mask n = v AND mask n"
proof -
  obtain v0 where v0: "v0 AND (mask n XOR mask k) = 0" "(expand_next n ^^ expand_pos n k v) v0 = v"
    "unat v0 mod 2 ^ n = unat v mod 2 ^ n"
    using expand_base [OF assms(1,2)] by metis
  have "expand_pos n k v < 2 ^ (k - n)" by (simp add: expand_pos_def)
  from dictScan_loop_from [OF assms(1,2) v0(1) assms(3) this]
  have "dictScan_loop tab (mask n) (mask k) v = Some ((expand_next n ^^ 2 ^ (k - n)) v0,
      concat (map (\<lambda>i. tab ! (i * 2 ^ n + unat v mod 2 ^ n)) [expand_pos n k v..<2 ^ (k - n)]))"
    by (simp only: v0)
  moreover have "(expand_next n ^^ 2 ^ (k - n)) v0 AND mask n = v AND mask n"
    using v0(3) assms by (simp only: expand_next_and_mask word_unat_eq_iff unat_and_mask)
  ultimately show ?thesis by blast
qed

section \<open>One call of dictScan\<close>

text \<open>The table the cursor moves in, the smaller one, and the other one while rehashing.\<close>

definition scan_tables :: "('k, 'v) dict \<Rightarrow> ('k, 'v) dictht \<times> ('k, 'v) dictht" where
  "scan_tables d = (if dictIsRehashing d \<and> ht_size (d_ht0 d) > ht_size (d_ht1 d) then (d_ht1 d, d_ht0 d)
     else (d_ht0 d, d_ht1 d))"

definition scan_mask :: "('k, 'v) dict \<Rightarrow> 64 word" where
  "scan_mask d = of_nat (ht_sizemask (fst (scan_tables d)))"

definition cursor_next :: "64 word \<Rightarrow> 64 word \<Rightarrow> 64 word" where
  "cursor_next m v = rev_bits (rev_bits (v OR NOT m) + 1)"

text \<open>No bit of the cursor lies between the masks of the two tables.\<close>

definition cursor_fits :: "('k, 'v) dict \<Rightarrow> 64 word \<Rightarrow> bool" where
  "cursor_fits d v \<longleftrightarrow> (dictIsRehashing d \<longrightarrow>
     v AND (of_nat (ht_sizemask (d_ht0 d)) XOR of_nat (ht_sizemask (d_ht1 d))) = 0)"

lemma cursor_next_cong: "a AND m = b AND m \<Longrightarrow> cursor_next m a = cursor_next m b"
proof -
  assume "a AND m = b AND m"
  moreover have "x OR NOT m = (x AND m) OR NOT m" for x :: "64 word"
    by (rule bit_eqI) (auto simp: bit_simps)
  ultimately show ?thesis unfolding cursor_next_def by metis
qed

lemma dictSize_ents:
  assumes "dict_inv d"
  shows "dictSize d = length (dict_ents d)"
proof -
  have "ht_used (d_ht0 d) = length (ht_ents (d_ht0 d))" "ht_used (d_ht1 d) = length (ht_ents (d_ht1 d))"
    using assms by (auto simp: dict_inv_def rehash_wf_def stable_wf_def ht_wf_def dictReset_def ht_ents_def split: if_splits)
  then show ?thesis using assms by (simp add: dictSize_def dict_ents_def dict_inv_def u64_def)
qed

lemma dictScan_stable:
  assumes inv: "dict_inv d" and ne: "dict_ents d \<noteq> []" and r: "\<not> dictIsRehashing d"
  shows "\<exists>n es. n \<le> 31 \<and> scan_mask d = mask n \<and> dictScan d v = Some (cursor_next (mask n) v, es) \<and>
    mset es = {#e \<in># mset (dict_ents d). in_block d n v e#}"
proof -
  have s: "d_ht1 d = dictReset" "ht_wf (d_type d) (d_ht0 d)"
    using inv ne r by (auto simp: dict_inv_def stable_wf_def dict_ents_def)
  obtain n where n: "n \<le> 31" "ht_size (d_ht0 d) = 2 ^ n" "ht_sizemask (d_ht0 d) = 2 ^ n - 1"
      "length (ht_table (d_ht0 d)) = 2 ^ n"
    using ht_wf_obtain [OF s(2)] by metis
  let ?b = "ht_table (d_ht0 d) ! (unat v mod 2 ^ n)"
  have m: "mem_get (ht_table (d_ht0 d)) (unat (v AND mask n)) = Some ?b"
    unfolding mem_get_def n unat_and_mask by simp
  have "mset ?b = {#e \<in># mset (dict_ents d). in_block d n v e#}"
    using ht_buckets_filter [OF s(2) n(2) order_refl, of v] s(1) by (simp add: dict_ents_def)
  moreover have "scan_mask d = mask n"
    using r by (simp add: scan_mask_def scan_tables_def n(3) mask_eq_exp_minus_1 of_nat_diff)
  moreover have "dictScan d v = Some (cursor_next (mask n) v, ?b)"
    using ne r inv by (simp only: dictScan_def dictSize_ents n(3) of_nat_mask Let_def m)
      (simp add: cursor_next_def)
  ultimately show ?thesis using n(1) by blast
qed

lemma dictScan_rehashing:
  assumes inv: "dict_inv d" and ne: "dict_ents d \<noteq> []" and r: "dictIsRehashing d"
  shows "\<exists>n k t0 t1 b0. scan_tables d = (t0, t1) \<and> n \<le> k \<and> k \<le> 31 \<and> scan_mask d = mask n \<and>
    ht_sizemask t0 = 2 ^ n - 1 \<and> ht_sizemask t1 = 2 ^ k - 1 \<and> ht_size t1 = 2 ^ k \<and> 
    ht_wf (d_type d) t1 \<and> mset (dict_ents d) = mset (ht_ents t0) + mset (ht_ents t1) \<and>
    mset b0 = {#e \<in># mset (ht_ents t0). in_block d n v e#} \<and>
    dictScan d v = Some (cursor_next (mask n) v, b0 @ 
      concat (map (\<lambda>i. ht_table t1 ! (i * 2 ^ n + unat v mod 2 ^ n)) [expand_pos n k v..<2 ^ (k - n)]))"
proof -
  obtain t0 t1 where t: "scan_tables d = (t0, t1)" by fastforce
  have wf: "ht_wf (d_type d) t0" "ht_wf (d_type d) t1" and le: "ht_size t0 \<le> ht_size t1"
    and ms: "mset (dict_ents d) = mset (ht_ents t0) + mset (ht_ents t1)"
    using t inv r by (auto simp: dict_inv_def rehash_wf_def scan_tables_def dict_ents_def split: if_splits)
  obtain n where n: "n \<le> 31" "ht_size t0 = 2 ^ n" "ht_sizemask t0 = 2 ^ n - 1" "length (ht_table t0) = 2 ^ n"
    using ht_wf_obtain [OF wf(1)] by metis
  obtain k where k: "k \<le> 31" "ht_size t1 = 2 ^ k" "ht_sizemask t1 = 2 ^ k - 1" "length (ht_table t1) = 2 ^ k"
    using ht_wf_obtain [OF wf(2)] by metis
  have nk: "n \<le> k" using le by (simp add: n k)
  let ?b = "ht_table t0 ! (unat v mod 2 ^ n)"
  let ?es = "concat (map (\<lambda>i. ht_table t1 ! (i * 2 ^ n + unat v mod 2 ^ n)) [expand_pos n k v..<2 ^ (k - n)])"
  have m: "mem_get (ht_table t0) (unat (v AND mask n)) = Some ?b"
    unfolding mem_get_def n unat_and_mask by simp
  have b: "mset ?b = {#e \<in># mset (ht_ents t0). in_block d n v e#}"
    using ht_buckets_filter [OF wf(1) n(2) order_refl, of v] by simp
  have sm: "scan_mask d = mask n" by (simp only: scan_mask_def t fst_conv n(3) of_nat_mask)
  obtain v' where v': "dictScan_loop (ht_table t1) (mask n) (mask k) v = Some (v', ?es)" "v' AND mask n = v AND mask n"
    using dictScan_loop_any [OF nk _ k(4)] k(1) by force
  have tt: "(if ht_size (d_ht0 d) > ht_size (d_ht1 d) then (d_ht1 d, d_ht0 d) else (d_ht0 d, d_ht1 d)) = (t0, t1)"
    using t r by (simp add: scan_tables_def)
  have "dictScan d v = Some (cursor_next (mask n) v', ?b @ ?es)"
    using ne inv r by (simp only: dictScan_def dictSize_ents tt n(3) k(3) of_nat_mask Let_def prod.case m v'(1))
      (simp add: cursor_next_def m v'(1))
  then have "dictScan d v = Some (cursor_next (mask n) v, ?b @ ?es)"
    by (simp only: cursor_next_cong [OF v'(2)])
  then show ?thesis using t nk k sm n(3) wf(2) ms b by blast
qed

theorem dictScan_step:
  assumes inv: "dict_inv d" and ne: "dict_ents d \<noteq> []" and fits: "cursor_fits d v"
  shows "\<exists>n es. n \<le> 31 \<and> scan_mask d = mask n \<and> dictScan d v = Some (cursor_next (mask n) v, es) \<and>
    mset es = {#e \<in># mset (dict_ents d). in_block d n v e#}"
proof (cases "dictIsRehashing d")
  case True
  obtain n k t0 t1 b0 where s: "scan_tables d = (t0, t1)" "n \<le> k" "k \<le> 31" "scan_mask d = mask n"
      "ht_sizemask t0 = 2 ^ n - 1" "ht_sizemask t1 = 2 ^ k - 1" "ht_size t1 = 2 ^ k"
      "ht_wf (d_type d) t1" "mset (dict_ents d) = mset (ht_ents t0) + mset (ht_ents t1)"
      "mset b0 = {#e \<in># mset (ht_ents t0). in_block d n v e#}"
      "dictScan d v = Some (cursor_next (mask n) v, b0 @
        concat (map (\<lambda>i. ht_table t1 ! (i * 2 ^ n + unat v mod 2 ^ n)) [expand_pos n k v..<2 ^ (k - n)]))"
    using dictScan_rehashing [OF inv ne True, of v] by blast
  have "(t0 = d_ht0 d \<and> t1 = d_ht1 d) \<or> (t0 = d_ht1 d \<and> t1 = d_ht0 d)"
    using s(1) by (auto simp: scan_tables_def split: if_splits)
  then have "v AND (mask n XOR mask k) = 0"
    using fits True s(5,6) by (auto simp: cursor_fits_def mask_eq_exp_minus_1 of_nat_diff xor.commute)
  then have "expand_pos n k v = 0"
    using and_xor_mask_eq_0_iff [of n k v] s(2,3) by (simp add: expand_pos_def)
  then show ?thesis
    using s(1-4,9-11) ht_buckets_filter [OF s(8,7,2), of v]
    by (intro exI [of _ n] exI [of _ "b0 @ _"]) (auto intro: order_trans)
qed (rule dictScan_stable [OF inv ne])

lemma dictScan_empty:
  assumes "dict_inv d" "dict_ents d = []"
  shows "dictScan d v = Some (0, [])"
  using assms by (simp add: dictScan_def dictSize_ents)

lemma dictScan_cursor:
  assumes inv: "dict_inv d" and ne: "dict_ents d \<noteq> []"
  shows "\<exists>n es. n \<le> 31 \<and> scan_mask d = mask n \<and> dictScan d v = Some (cursor_next (mask n) v, es)"
proof (cases "dictIsRehashing d")
  case True
  from dictScan_rehashing [OF inv ne True, of v] obtain n k es where
    "n \<le> k" "k \<le> 31" "scan_mask d = mask n" "dictScan d v = Some (cursor_next (mask n) v, es)" by blast
  then show ?thesis by (meson order_trans)
next
  case False
  then show ?thesis using dictScan_stable [OF inv ne] by blast
qed

section \<open>A whole iteration\<close>

text \<open>
  The calls a client makes, each on the state the dict is in at that time, until the cursor
  returned is zero. The result is the last cursor and all the entries reported.
\<close>

fun scan_run :: "('k, 'v) dict list \<Rightarrow> 64 word \<Rightarrow> (64 word \<times> ('k, 'v) dictEntry list) option" where
  "scan_run [] v = Some (v, [])"
| "scan_run (d # ds) v = do {
     (v', es) \<leftarrow> dictScan d v;
     if v' = 0 then Some (0, es)
     else do { (v'', es') \<leftarrow> scan_run ds v'; Some (v'', es @ es') } }"

fun fits_run :: "('k, 'v) dict list \<Rightarrow> 64 word \<Rightarrow> bool" where
  "fits_run [] v = True"
| "fits_run (d # ds) v = (cursor_fits d v \<and>
     (case dictScan d v of None \<Rightarrow> False | Some (v', es) \<Rightarrow> v' = 0 \<or> fits_run ds v'))"

lemma dictScan_total:
  assumes "dict_inv d"
  shows "\<exists>v' es. dictScan d v = Some (v', es)"
  using dictScan_cursor [OF assms] dictScan_empty [OF assms] by (cases "dict_ents d = []") blast+

lemma scan_run_total: "\<forall>d \<in> set ds. dict_inv d \<Longrightarrow> \<exists>v' es. scan_run ds v = Some (v', es)"
proof (induction ds arbitrary: v)
  case (Cons d ds)
  obtain v' es where "dictScan d v = Some (v', es)" using dictScan_total [of d v] Cons.prems by auto
  moreover obtain v'' es' where "scan_run ds v' = Some (v'', es')" using Cons by fastforce
  ultimately show ?case by simp
qed simp

lemma scan_run_covers_from:
  assumes "\<forall>d \<in> set ds. dict_inv d \<and> d_type d = t \<and> (\<exists>e \<in> set (dict_ents d). compareKeys t key (de_key e))"
    "dtype_ok t" "fits_run ds v" "ds \<noteq> []"
    "rpos v \<le> rpos (ucast (hashFunction t key))" "scan_run ds v = Some (0, es)"
  shows "\<exists>e \<in> set es. compareKeys t key (de_key e)"
  using assms
proof (induction ds arbitrary: v es)
  case (Cons d ds)
  let ?h = "ucast (hashFunction t key) :: 64 word"
  obtain e where inv: "dict_inv d" "d_type d = t" and e: "e \<in> set (dict_ents d)" "compareKeys t key (de_key e)"
    using Cons.prems(1) by auto
  have he: "hashFunction t (de_key e) = hashFunction t key" using e(2) Cons.prems(2) by (auto simp: dtype_ok_def)
  obtain n es1 where n: "n \<le> 31" and s: "dictScan d v = Some (cursor_next (mask n) v, es1)"
    and ms: "mset es1 = {#e \<in># mset (dict_ents d). in_block d n v e#}"
  proof -
    have "dict_ents d \<noteq> []" "cursor_fits d v" using e(1) Cons.prems(3) by auto
    from dictScan_step [OF inv(1) this] show ?thesis using that by blast
  qed
  have "?h AND mask n = v AND mask n \<or> (cursor_next (mask n) v \<noteq> 0 \<and> rpos (cursor_next (mask n) v) \<le> rpos ?h)"
    unfolding cursor_next_def by (rule rpos_next_cases) (use n Cons.prems(5) in simp_all)
  then show ?case
  proof
    assume "?h AND mask n = v AND mask n"
    then have "in_block d n v e" by (simp add: in_block_def inv(2) he)
    then have "e \<in> set es1" using e(1) arg_cong [OF ms, of set_mset] by simp
    moreover have "set es1 \<subseteq> set es" using Cons.prems(6) s by (auto split: if_splits bind_splits)
    ultimately show ?thesis using e(2) by blast
  next
    assume v': "cursor_next (mask n) v \<noteq> 0 \<and> rpos (cursor_next (mask n) v) \<le> rpos ?h"
    then obtain es2 where r: "scan_run ds (cursor_next (mask n) v) = Some (0, es2)" and es: "es = es1 @ es2"
      using Cons.prems(6) s by (auto split: bind_splits)
    moreover have "ds \<noteq> []" using r v' by auto
    ultimately have "\<exists>e \<in> set es2. compareKeys t key (de_key e)"
      using Cons.prems v' s by (intro Cons.IH [OF _ _ _ _ _ r]) auto
    then show ?thesis using es by auto
  qed
qed simp

text \<open>
  A cursor returned for the mask of \<open>n\<close> bits has no higher bit, so it fits every later state whose
  tables are at least as large.
\<close>

lemma rpos_cursor_next:
  assumes "n \<le> 64"
  shows "rpos (cursor_next (mask n) v) = (rpos v div 2 ^ (64 - n) + 1) * 2 ^ (64 - n) mod 2 ^ 64"
  unfolding cursor_next_def by (rule rpos_next [OF assms])

lemma cursor_next_low:
  assumes "n \<le> 64"
  shows "cursor_next (mask n) v AND NOT (mask n) = 0"
proof (rule bit_eqI)
  fix i :: nat
  let ?w = "cursor_next (mask n) v"
  have "(2::nat) ^ (64 - n) dvd 2 ^ 64" by (rule le_imp_power_dvd) simp
  then have "rpos ?w mod 2 ^ (64 - n) = 0"
    unfolding rpos_cursor_next [OF assms] by (simp only: mod_mod_cancel) simp
  then have "take_bit (64 - n) (rev_bits ?w) = 0"
    unfolding rpos_def by (simp only: take_bit_eq_mod [symmetric] unsigned_take_bit_eq [symmetric] unat_eq_zero)
  then have z: "\<not> bit (rev_bits ?w) j" if "j < 64 - n" for j
    using that by (metis bit_take_bit_iff bit_0_eq bot_apply bot_bool_def)
  have "\<not> bit ?w i" if "n \<le> i" "i < 64"
    using z [of "63 - i"] that by (simp add: bit_rev_bits)
  then have "i < n" if "bit ?w i" using that bit_imp_le_length [OF that] by (simp add: not_le [symmetric]) blast
  then show "bit (?w AND NOT (mask n)) i = bit 0 i"
    by (auto simp: bit_simps)
qed

lemma cursor_fits_low:
  assumes inv: "dict_inv d" and n: "n \<le> 64" and v: "v AND NOT (mask n) = 0"
    and le: "scan_mask d AND mask n = mask n"
  shows "cursor_fits d v"
proof (cases "dictIsRehashing d")
  case True
  let ?m0 = "of_nat (ht_sizemask (d_ht0 d)) :: 64 word" and ?m1 = "of_nat (ht_sizemask (d_ht1 d)) :: 64 word"
  have wf: "ht_wf (d_type d) (d_ht0 d)" "ht_wf (d_type d) (d_ht1 d)"
    using inv True by (auto simp: dict_inv_def rehash_wf_def)
  obtain a where a: "a \<le> 31" "ht_size (d_ht0 d) = 2 ^ a" "ht_sizemask (d_ht0 d) = 2 ^ a - 1"
    using ht_wf_obtain [OF wf(1)] by metis
  obtain b where b: "b \<le> 31" "ht_size (d_ht1 d) = 2 ^ b" "ht_sizemask (d_ht1 d) = 2 ^ b - 1"
    using ht_wf_obtain [OF wf(2)] by metis
  have m: "?m0 = mask a" "?m1 = mask b" unfolding a b by (simp_all only: of_nat_mask)
  have sm: "scan_mask d = (if b < a then mask b else mask a)"
    using True a(2) b(2) m by (simp add: scan_mask_def scan_tables_def)
  have "n \<le> a \<and> n \<le> b"
  proof -
    have "i < a \<and> i < b" if "i < n" for i
    proof -
      have "bit (scan_mask d AND mask n) i" unfolding le using that n by (simp add: bit_simps)
      then show ?thesis by (auto simp: sm bit_simps split: if_splits)
    qed
    then show ?thesis by (metis less_irrefl not_le)
  qed
  moreover have "\<not> bit v i" if "n \<le> i" for i
  proof -
    have "\<not> bit (v AND NOT (mask n)) i" unfolding v by simp
    then show ?thesis using that by (auto simp: bit_simps dest: bit_imp_le_length)
  qed
  ultimately have "v AND (mask a XOR mask b) = 0"
    by (intro bit_eqI) (auto simp: bit_simps, (meson not_le order_trans less_le_trans)+)
  then show ?thesis by (simp only: cursor_fits_def m) simp
qed (simp add: cursor_fits_def)

definition scan_size :: "('k, 'v) dict \<Rightarrow> nat" where
  "scan_size d = ht_size (fst (scan_tables d))"

lemma scan_size_mask:
  assumes "dict_inv d" "dict_ents d \<noteq> []"
  obtains n where "n \<le> 31" "scan_size d = 2 ^ n" "scan_mask d = mask n"
proof -
  have "ht_wf (d_type d) (fst (scan_tables d))"
    using assms by (auto simp: dict_inv_def rehash_wf_def stable_wf_def dict_ents_def scan_tables_def split: if_splits)
  from ht_wf_obtain [OF this] obtain n where
    "n \<le> 31" "scan_size d = 2 ^ n" "ht_sizemask (fst (scan_tables d)) = 2 ^ n - 1"
    unfolding scan_size_def by metis
  then show ?thesis by (intro that) (simp_all only: scan_mask_def of_nat_mask)
qed

lemma fits_run_growing:
  assumes "\<forall>d \<in> set ds. dict_inv d \<and> dict_ents d \<noteq> [] \<and> 2 ^ n \<le> scan_size d"
    "sorted_wrt (\<lambda>d d'. scan_size d \<le> scan_size d') ds" "n \<le> 31" "v AND NOT (mask n) = 0"
  shows "fits_run ds v"
  using assms
proof (induction ds arbitrary: n v)
  case (Cons d ds)
  have inv: "dict_inv d" "dict_ents d \<noteq> []" using Cons.prems by simp_all
  obtain m where m: "m \<le> 31" "scan_size d = 2 ^ m" "scan_mask d = mask m" using scan_size_mask [OF inv] .
  have "n \<le> m" using Cons.prems(1) m(2) by simp
  then have le: "scan_mask d AND mask n = mask n"
    unfolding m(3) by (intro bit_eqI) (auto simp: bit_simps)
  have "cursor_fits d v" by (rule cursor_fits_low [OF inv(1) _ Cons.prems(4) le]) (use Cons.prems(3) in simp)
  moreover obtain n' es where s: "scan_mask d = mask n'" "dictScan d v = Some (cursor_next (mask n') v, es)"
    using dictScan_cursor [OF inv, of v] by blast
  have s': "dictScan d v = Some (cursor_next (mask m) v, es)" using s m(3) by simp
  have "fits_run ds (cursor_next (mask m) v)"
  proof (rule Cons.IH [OF _ _ m(1)])
    show "cursor_next (mask m) v AND NOT (mask m) = 0" using m(1) by (intro cursor_next_low) simp
  qed (use Cons.prems m(2) in auto)
  ultimately show ?case by (simp add: s')
qed simp

text \<open>The iteration ends, whatever the dict goes through: every call moves the cursor forward.\<close>

lemma cursor_next_progress:
  assumes "n \<le> 31"
  shows "cursor_next (mask n) v = 0 \<or> rpos v div 2 ^ 33 < rpos (cursor_next (mask n) v) div 2 ^ 33"
proof (cases "(rpos v div 2 ^ (64 - n) + 1) * 2 ^ (64 - n) < 2 ^ 64")
  case True
  let ?B = "2 ^ (64 - n) :: nat"
  have n: "n \<le> 64" using assms by simp
  have r: "rpos (cursor_next (mask n) v) = (rpos v div ?B + 1) * ?B"
    unfolding rpos_cursor_next [OF n] using True by (rule mod_less)
  have "(2::nat) ^ 33 dvd ?B" using assms by (intro le_imp_power_dvd) simp
  then obtain c where c: "?B = 2 ^ 33 * c" ..
  then have d: "rpos (cursor_next (mask n) v) div 2 ^ 33 = (rpos v div ?B + 1) * c"
    unfolding r by simp
  have "rpos v < (rpos v div ?B + 1) * ?B"
    by (metis Suc_eq_plus1 dividend_less_div_times mult_Suc zero_less_numeral zero_less_power add.commute)
  also have "\<dots> = (rpos v div ?B + 1) * c * 2 ^ 33" unfolding c by simp
  finally have "rpos v div 2 ^ 33 < (rpos v div ?B + 1) * c" by (rule less_mult_imp_div_less)
  then show ?thesis using d by simp
next
  case False
  let ?B = "2 ^ (64 - n) :: nat"
  have n: "n \<le> 64" using assms by simp
  have p: "(2::nat) ^ 64 = 2 ^ n * ?B" using n by (simp only: power_add [symmetric]) simp
  have "rpos v < 2 ^ n * ?B" using rpos_less [of v] unfolding p .
  then have "rpos v div ?B < 2 ^ n" by (rule less_mult_imp_div_less)
  moreover have "\<not> rpos v div ?B + 1 < 2 ^ n" using False unfolding p by (meson mult_less_mono1 zero_less_numeral zero_less_power)
  ultimately have "rpos v div ?B + 1 = 2 ^ n" by simp
  then have "rpos (cursor_next (mask n) v) = 0" unfolding rpos_cursor_next [OF n] p by simp
  then show ?thesis by (simp add: rpos_eq_0_iff)
qed

lemma scan_run_ends_from:
  assumes "\<forall>d \<in> set ds. dict_inv d" "2 ^ 31 \<le> rpos v div 2 ^ 33 + length ds"
  shows "\<exists>es. scan_run ds v = Some (0, es)"
  using assms
proof (induction ds arbitrary: v)
  case Nil
  then have "2 ^ 31 * 2 ^ 33 \<le> rpos v" by simp
  then show ?case using rpos_less [of v] by simp
next
  case (Cons d ds)
  show ?case
  proof (cases "dict_ents d = []")
    case True
    then show ?thesis using dictScan_empty [of d v] Cons.prems by simp
  next
    case False
    then obtain n es where n: "n \<le> 31" and s: "dictScan d v = Some (cursor_next (mask n) v, es)"
      using dictScan_cursor [of d v] Cons.prems by auto
    show ?thesis
    proof (cases "cursor_next (mask n) v = 0")
      case False
      then have "rpos v div 2 ^ 33 < rpos (cursor_next (mask n) v) div 2 ^ 33"
        using cursor_next_progress [OF n, of v] by blast
      then obtain es' where "scan_run ds (cursor_next (mask n) v) = Some (0, es')"
        using Cons.IH [of "cursor_next (mask n) v"] Cons.prems by fastforce
      then show ?thesis using s False by simp
    qed (simp add: s)
  qed
qed

text \<open>Over a dict that does not change, every entry is reported once.\<close>

lemma scan_run_static_from:
  assumes inv: "dict_inv d" "dict_ents d \<noteq> []" and n: "n \<le> 31" "scan_mask d = mask n"
    and v: "rpos v = i * 2 ^ (64 - n)" "i < 2 ^ n" "v AND NOT (mask n) = 0"
  shows "\<exists>es. scan_run (replicate (2 ^ n - i) d) v = Some (0, es) \<and>
    mset es = {#e \<in># mset (dict_ents d). i \<le> rpos (ucast (hashFunction (d_type d) (de_key e))) div 2 ^ (64 - n)#}"
  using v
proof (induction "2 ^ n - i" arbitrary: i v)
  case (Suc m)
  let ?B = "2 ^ (64 - n) :: nat" and ?v' = "cursor_next (mask n) v"
  let ?q = "\<lambda>e. rpos (ucast (hashFunction (d_type d) (de_key e))) div ?B"
  have n64: "n \<le> 64" using n by simp
  have p: "(2::nat) ^ 64 = 2 ^ n * ?B" using n64 by (simp only: power_add [symmetric]) simp
  have "scan_mask d AND mask n = mask n" using n(2) by simp
  then have fits: "cursor_fits d v" using cursor_fits_low [OF inv(1) n64 Suc.prems(3)] by blast
  obtain es where s: "dictScan d v = Some (?v', es)" "mset es = {#e \<in># mset (dict_ents d). in_block d n v e#}"
  proof -
    obtain n' es where "n' \<le> 31" "mask n' = (mask n :: 64 word)" "dictScan d v = Some (cursor_next (mask n') v, es)"
      "mset es = {#e \<in># mset (dict_ents d). in_block d n' v e#}"
      using dictScan_step [OF inv fits] n(2) by auto
    then show ?thesis by (intro that [of es]) (simp_all add: in_block_def)
  qed
  have blk: "in_block d n v e \<longleftrightarrow> ?q e = i" for e
    unfolding in_block_def rpos_block_iff [OF n64, symmetric] Suc.prems(1) by simp
  have es: "mset es = {#e \<in># mset (dict_ents d). ?q e = i#}" using s(2) blk by simp
  have r': "rpos ?v' = Suc i * ?B mod 2 ^ 64"
    unfolding rpos_cursor_next [OF n64] Suc.prems(1) by simp
  have rep: "replicate (2 ^ n - i) d = d # replicate (2 ^ n - Suc i) d"
    using Suc.prems(2) by (metis Suc_diff_Suc replicate_Suc)
  show ?case
  proof (cases "Suc i < 2 ^ n")
    case True
    then have lt: "Suc i * ?B < 2 ^ 64" unfolding p by (rule mult_less_mono1) simp
    then have rv: "rpos ?v' = Suc i * ?B" unfolding r' by (rule mod_less)
    then have nz: "?v' \<noteq> 0" using rpos_eq_0_iff [of ?v'] by auto
    have "m = 2 ^ n - Suc i" using Suc.hyps(2) by simp
    then obtain es' where s': "scan_run (replicate (2 ^ n - Suc i) d) ?v' = Some (0, es')"
      "mset es' = {#e \<in># mset (dict_ents d). Suc i \<le> ?q e#}"
      using Suc.hyps(1) [OF _ rv True cursor_next_low [OF n64]] by blast
    have "{#e \<in># M. i \<le> ?q e#} = {#e \<in># M. ?q e = i#} + {#e \<in># M. Suc i \<le> ?q e#}" for M
      by (rule multiset_eqI) auto
    note split = this [of "mset (dict_ents d)"]
    have "mset (es @ es') = {#e \<in># mset (dict_ents d). i \<le> ?q e#}"
      unfolding mset_append es s'(2) by (rule split [symmetric])
    moreover have "scan_run (replicate (2 ^ n - i) d) v = Some (0, es @ es')"
      by (simp add: rep s(1) s'(1) nz)
    ultimately show ?thesis by blast
  next
    case False
    then have "Suc i = 2 ^ n" using Suc.prems(2) by simp
    then have "rpos ?v' = 0" unfolding r' p by simp
    then have z: "?v' = 0" by (simp add: rpos_eq_0_iff)
    have "?q e = i \<longleftrightarrow> i \<le> ?q e" for e
    proof -
      have "?q e < 2 ^ n" by (rule less_mult_imp_div_less) (use rpos_less p in metis)
      then show ?thesis using \<open>Suc i = 2 ^ n\<close> by linarith
    qed
    then have "mset es = {#e \<in># mset (dict_ents d). i \<le> ?q e#}" unfolding es by (intro filter_mset_cong) auto
    then show ?thesis using s(1) z by (simp add: rep)
  qed
qed simp

lemma scan_run_static:
  assumes "dict_inv d" "dict_ents d \<noteq> []"
  shows "\<exists>es. scan_run (replicate (scan_size d) d) 0 = Some (0, es) \<and> mset es = mset (dict_ents d)"
proof -
  obtain n where n: "n \<le> 31" "scan_size d = 2 ^ n" "scan_mask d = mask n" using scan_size_mask [OF assms] .
  show ?thesis using scan_run_static_from [OF assms n(1,3), of 0 0] n(2) by simp
qed

lemma scan_run_covers:
  assumes "\<forall>d \<in> set ds. dict_inv d \<and> d_type d = t \<and> (\<exists>e \<in> set (dict_ents d). compareKeys t key (de_key e))"
    "sorted_wrt (\<lambda>d d'. scan_size d \<le> scan_size d') ds" "2 ^ 31 \<le> length ds"
  shows "\<exists>es. scan_run ds 0 = Some (0, es) \<and> (\<exists>e \<in> set es. compareKeys t key (de_key e))"
proof -
  have ne: "ds \<noteq> []" using assms(3) by auto
  obtain es where es: "scan_run ds 0 = Some (0, es)" using scan_run_ends_from [of ds 0] assms by auto
  have "2 ^ 0 \<le> scan_size d" "dict_ents d \<noteq> []" if "d \<in> set ds" for d
  proof -
    show ne: "dict_ents d \<noteq> []" using assms(1) that by force
    have "dict_inv d" using assms(1) that by blast
    from scan_size_mask [OF this ne] obtain n where "scan_size d = 2 ^ n" .
    then show "2 ^ 0 \<le> scan_size d" by simp
  qed
  then have "fits_run ds 0" using assms by (intro fits_run_growing [where n = 0]) auto
  moreover have "dtype_ok t" using assms(1) ne by (cases ds) (auto simp: dict_inv_def)
  ultimately show ?thesis using scan_run_covers_from [OF assms(1) _ _ ne _ es] es by auto
qed

section \<open>A shrinking table\<close>

text \<open>
  A table of 16 buckets with one key in bucket 4, scanned from the start, resized to 4 buckets
  after the first call, and scanned to the end.
\<close>

definition identity_type :: "(32 word, unit) dictType" where
  "identity_type = \<lparr>hashFunction = (\<lambda>k. k), keyDup = None, valDup = None, keyCompare = None\<rparr>"

definition shrink_start :: "(32 word, unit) dict" where
  "shrink_start = (dictCreate identity_type)\<lparr>d_ht0 := 
     \<lparr>ht_table = [[], [], [], [], [], [], [], [], [], [], [], [], [], [], [], []], ht_size = 16, ht_sizemask = 15, ht_used = 0\<rparr>\<rparr>"

definition shrink_before :: "(32 word, unit) dict" where
  "shrink_before = shrink_start\<lparr>d_ht0 := \<lparr>ht_table =
       [[], [], [], [], [\<lparr>de_key = 4, de_val = Some ()\<rparr>], [], [], [], [], [], [], [], [], [], [], []],
       ht_size = 16, ht_sizemask = 15, ht_used = 1\<rparr>\<rparr>"

definition shrink_after :: "(32 word, unit) dict" where
  "shrink_after = shrink_before\<lparr>
     d_ht1 := \<lparr>ht_table = [[], [], [], []], ht_size = 4, ht_sizemask = 3, ht_used = 0\<rparr>, rehashidx := 0\<rparr>"

lemma dictNextPower_eval: "dictNextPower 16 = Some 16 \<and> dictNextPower 4 = Some 4"
  by code_simp

lemma replicate_eval: "replicate 4 x = [x, x, x, x]"
    "replicate 16 x = [x, x, x, x, x, x, x, x, x, x, x, x, x, x, x, x]"
  by (simp_all add: numeral_eq_Suc)

lemma shrink_start_made: "dictExpand (dictCreate identity_type) 16 = Some (shrink_start, True)"
  by (simp add: dictExpand_def shrink_start_def dictIsRehashing_def dictCreate_def dictInit_def dictReset_def
    dictNextPower_eval replicate_eval)

lemma shrink_before_made: "dictAdd True shrink_start 4 () = Some (shrink_before, True)"
  by (simp add: shrink_start_def dictCreate_def dictInit_def dictReset_def dictIsRehashing_def dictAdd_def dictAddRaw_def
      dictKeyIndex_def dictExpandIfNeeded_def dict_search_def ht_index_def dictHashKey_def identity_type_def
      mem_get_def mem_set_def dictSetVal_def ht_get_def ht_put_def shrink_before_def s32_def inc64_def u64_def)

lemma shrink_after_made: "dictResize True shrink_before = Some (shrink_after, True)"
  by (simp add: dictResize_def dictExpand_def shrink_before_def shrink_start_def shrink_after_def dictIsRehashing_def s32_def
      DICT_HT_INITIAL_SIZE_def dictCreate_def dictInit_def replicate_eval dictNextPower_eval)

lemma cursor_next_eval:
  "cursor_next 15 0 = 8" "cursor_next 3 0 = 2" "cursor_next 3 2 = 1" "cursor_next 3 1 = 3" "cursor_next 3 3 = 0"
proof -
  have r: "rev_bits (-16) = 0x0FFFFFFFFFFFFFFF" "rev_bits 0x1000000000000000 = 8" 
     "rev_bits (-4) = 0x3FFFFFFFFFFFFFFF" "rev_bits 0x4000000000000000 = 2"
    "rev_bits (-2) = 0x7FFFFFFFFFFFFFFF" "rev_bits 0x8000000000000000 = 1"
    "rev_bits (-3) = 0xBFFFFFFFFFFFFFFF" "rev_bits 0xC000000000000000 = 3"
   by (simp_all add: rev_bits_unfold rev_swap_def)
  have m: "rev_bits (-1) = -1" by (rule bit_eqI) (simp add: bit_rev_bits)
  show "cursor_next 15 0 = 8" "cursor_next 3 0 = 2" "cursor_next 3 2 = 1" "cursor_next 3 1 = 3" "cursor_next 3 3 = 0"
   by (simp_all add: cursor_next_def r m)
qed

lemma shrink_loop_eval:
  "dictScan_loop (ht_table (d_ht0 shrink_after)) 3 15 8 = Some (16, [])"
  "dictScan_loop (ht_table (d_ht0 shrink_after)) 3 15 2 = Some (18, [])"
  "dictScan_loop (ht_table (d_ht0 shrink_after)) 3 15 1 = Some (17, [])"
  "dictScan_loop (ht_table (d_ht0 shrink_after)) 3 15 3 = Some (19, [])"
  unfolding shrink_after_def shrink_before_def
  by ((subst dictScan_loop.simps, simp add: mem_get_def)+)

lemma dictScan_cursor_next:
  "dictScan d v = (if dictSize d = 0 then Some (0, []) else
     Option.bind (if \<not> dictIsRehashing d then (let m0 = of_nat (ht_sizemask (d_ht0 d)) in do {
             de \<leftarrow> mem_get (ht_table (d_ht0 d)) (unat (v AND m0));
             Some (v, m0, de) })
           else (let (t0, t1) = scan_tables d;
                     m0 = of_nat (ht_sizemask t0); m1 = of_nat (ht_sizemask t1) in do {
             de \<leftarrow> mem_get (ht_table t0) (unat (v AND m0));
             (v, es) \<leftarrow> dictScan_loop (ht_table t1) m0 m1 v;
             Some (v, m0, de @ es) })) (\<lambda>(v, m0, es). Some (cursor_next m0 v, es)))"
  by (simp add: dictScan_def scan_tables_def cursor_next_def Let_def)

lemmas shrink_defs = shrink_after_def shrink_before_def shrink_start_def dictCreate_def dictInit_def dictReset_def

lemma cursor_next_expanded:
  "cursor_next 3 16 = 2" "cursor_next 3 18 = 1" "cursor_next 3 17 = 3" "cursor_next 3 19 = 0"
  using cursor_next_cong [of 16 3 0] cursor_next_cong [of 18 3 2] cursor_next_cong [of 17 3 1]
    cursor_next_cong [of 19 3 3] by (simp_all add: cursor_next_eval)

lemma shrink_before_eval: "dictScan shrink_before 0 = Some (8, [])"
proof -
  have t: "\<not> dictIsRehashing shrink_before" "ht_sizemask (d_ht0 shrink_before) = 15" "dictSize shrink_before = 1"
    "mem_get (ht_table (d_ht0 shrink_before)) 0 = Some []"
    by (simp_all add: dictIsRehashing_def dictSize_def u64_def mem_get_def shrink_before_def shrink_start_def
        dictCreate_def dictInit_def dictReset_def)
  show ?thesis by (simp add: dictScan_cursor_next t cursor_next_eval)
qed

lemma shrink_after_eval:
  assumes "dictScan_loop (ht_table (d_ht0 shrink_after)) 3 15 v = Some (v', [])"
  shows "dictScan shrink_after v = Some (cursor_next 3 v', [])"
proof -
  have t: "scan_tables shrink_after = (d_ht1 shrink_after, d_ht0 shrink_after)" "dictIsRehashing shrink_after"
     "ht_sizemask (d_ht0 shrink_after) = 15" "ht_sizemask (d_ht1 shrink_after) = 3" "dictSize shrink_after = 1"
    by (simp_all add: scan_tables_def dictIsRehashing_def dictSize_def u64_def shrink_after_def shrink_before_def)
  have "ht_table (d_ht1 shrink_after) = replicate 4 []" by (simp add: shrink_after_def replicate_eval)
  moreover have "unat (v AND 3) < 4" using unat_and_mask [of v 2] by (simp add: mask_numeral)
  ultimately have "mem_get (ht_table (d_ht1 shrink_after)) (unat (v AND 3)) = Some []"
    by (simp add: mem_get_def)
  then show ?thesis by (simp add: dictScan_cursor_next t assms)
qed

lemmas shrink_scan_steps = shrink_before_eval shrink_loop_eval [THEN shrink_after_eval, unfolded cursor_next_expanded]

lemma shrink_scan_misses:
  "dictExpand (dictCreate identity_type) 16 = Some (shrink_start, True) \<and>
   dictAdd True shrink_start 4 () = Some (shrink_before, True) \<and>
   dictResize True shrink_before = Some (shrink_after, True) \<and>
   scan_run (shrink_before # replicate 4 shrink_after) 0 = Some (0, [])"
  by (simp add: shrink_start_made shrink_before_made shrink_after_made replicate_eval shrink_scan_steps)

lemma identity_compare: "compareKeys identity_type = (=)"
  by (simp add: fun_eq_iff identity_type_def compareKeys_def)

lemma identity_type_ok: "dtype_ok identity_type"
  unfolding dtype_ok_def identity_compare by (simp add: identity_type_def identity_equivp)

lemma dictCreate_inv: "dtype_ok t \<Longrightarrow> dict_inv (dictCreate t)" "dict_ents (dictCreate t) = []"
  by (simp_all add: dict_inv_def stable_wf_def dictIsRehashing_def dictCreate_def dictInit_def dict_ents_def)

lemma shrink_before_inv: "dict_inv shrink_before" "dict_ents shrink_before = [\<lparr>de_key = 4, de_val = Some ()\<rparr>]"
proof -
  have "dict_inv shrink_start"
    using dictExpand_correct [OF dictCreate_inv(1) [OF identity_type_ok], of 16] shrink_start_made by auto
  moreover have "dict_ents shrink_start = []"
    by (simp add: dict_ents_def ht_ents_def shrink_start_def dictCreate_def dictInit_def dictReset_def)
  ultimately show "dict_inv shrink_before"
    using dictAdd_correct [of shrink_start True 4 "()"] shrink_before_made by simp
  show "dict_ents shrink_before = [\<lparr>de_key = 4, de_val = Some ()\<rparr>]"
    by (simp add: dict_ents_def ht_ents_def shrink_before_def shrink_start_def dictCreate_def dictInit_def dictReset_def)
qed

end
