(* ===== verification/Util.thy ===== *)
theory Util
  imports Prelude
begin

text \<open>
  The conversions of \<open>util.c\<close> between integers and decimal strings: \<open>digits10\<close>, \<open>ll2string\<close>,
  \<open>string2ll\<close>, \<open>string2l\<close>, \<open>memtoll\<close>. Strings are lists of bytes; a \<open>char\<close> of C is an 8-bit word and its
  value as an \<open>int\<close> is the signed one.
\<close>

abbreviation ch :: "char \<Rightarrow> byte" where "ch c \<equiv> of_char c"

definition bytes :: "string \<Rightarrow> byte list" where
  "bytes s = map of_char s"

definition ULLONG_MAX :: nat where "ULLONG_MAX = 2 ^ 64 - 1"

definition LLONG_MAX :: int where "LLONG_MAX = 2 ^ 63 - 1"

definition LLONG_MIN :: int where "LLONG_MIN = - (2 ^ 63)"

text \<open>Conversion of an unsigned 64-bit value to \<open>long long\<close>.\<close>

definition s64 :: "int \<Rightarrow> int" where
  "s64 x = signed_take_bit 63 x"

definition isdigit :: "byte \<Rightarrow> bool" where
  "isdigit c \<longleftrightarrow> ch CHR ''0'' \<le> c \<and> c \<le> ch CHR ''9''"

definition digit_val :: "byte \<Rightarrow> nat" where
  "digit_val c = unat c - 48"

section \<open>Definitions\<close>

fun digits10 :: "nat \<Rightarrow> nat" where
  "digits10 v =
     (if v < 10 then 1
      else if v < 100 then 2
      else if v < 1000 then 3
      else if v < 1000000000000 then
        (if v < 100000000 then
          (if v < 1000000 then
            (if v < 10000 then 4 else 5 + (if v \<ge> 100000 then 1 else 0))
           else 7 + (if v \<ge> 10000000 then 1 else 0))
         else if v < 10000000000 then 9 + (if v \<ge> 1000000000 then 1 else 0)
         else 11 + (if v \<ge> 100000000000 then 1 else 0))
      else 12 + digits10 (v div 1000000000000))"

declare digits10.simps [simp del]

text \<open>The table of two-digit strings of \<open>ll2string\<close>.\<close>

definition digits_tab :: "byte list" where
  "digits_tab = bytes (
     ''0001020304050607080910111213141516171819'' @
     ''2021222324252627282930313233343536373839'' @
     ''4041424344454647484950515253545556575859'' @
     ''6061626364656667686970717273747576777879'' @
     ''8081828384858687888990919293949596979899'')"

text \<open>The loop that writes two digits at a time, from the end.\<close>

fun ll2string_loop :: "nat \<Rightarrow> byte list \<Rightarrow> nat \<Rightarrow> (nat \<times> byte list \<times> nat) option" where
  "ll2string_loop val dst nxt =
     (if val \<ge> 100 then
        (let i = val mod 100 * 2; val' = val div 100 in do {
           d1 \<leftarrow> mem_get digits_tab (i + 1);
           dst \<leftarrow> mem_set dst nxt d1;
           d0 \<leftarrow> mem_get digits_tab i;
           dst \<leftarrow> mem_set dst (u32 (nxt + (2 ^ 32 - 1))) d0;
           ll2string_loop val' dst (u32 (nxt + (2 ^ 32 - 2))) })
      else Some (val, dst, nxt))"

declare ll2string_loop.simps [simp del]

text \<open>The last one or two digits.\<close>

definition ll2string_last :: "nat \<Rightarrow> byte list \<Rightarrow> nat \<Rightarrow> byte list option" where
  "ll2string_last val dst nxt =
     (if val < 10 then mem_set dst nxt (ch CHR ''0'' + of_nat val)
      else (let i = val * 2 in do {
        d1 \<leftarrow> mem_get digits_tab (i + 1);
        dst \<leftarrow> mem_set dst nxt d1;
        d0 \<leftarrow> mem_get digits_tab i;
        mem_set dst (u32 (nxt + (2 ^ 32 - 1))) d0 }))"

text \<open>The result is the length written and the buffer; a length of 0 reports a buffer too small.\<close>

definition ll2string :: "byte list \<Rightarrow> nat \<Rightarrow> int \<Rightarrow> (nat \<times> byte list) option" where
  "ll2string dst dstlen svalue =
     (let (val, negative) =
        (if svalue < 0 then
           (if svalue \<noteq> LLONG_MIN then nat (- svalue) else nat LLONG_MAX + 1, True)
         else (nat svalue, False));
        len = digits10 val + (if negative then 1 else 0) in
      if len \<ge> dstlen then Some (0, dst)
      else do {
        dst \<leftarrow> mem_set dst len 0;
        (val, dst, nxt) \<leftarrow> ll2string_loop val dst (len - 1);
        dst \<leftarrow> ll2string_last val dst nxt;
        dst \<leftarrow> (if negative then mem_set dst 0 (ch CHR ''-'') else Some dst);
        Some (len, dst) })"

text \<open>The digits loop of \<open>string2ll\<close>: the value and the bytes left, or \<open>None\<close> on overflow.\<close>

fun string2ll_loop :: "nat \<Rightarrow> byte list \<Rightarrow> (nat \<times> byte list) option" where
  "string2ll_loop v [] = Some (v, [])"
| "string2ll_loop v (c # cs) =
     (if isdigit c then
        (if v > ULLONG_MAX div 10 then None
         else (let v = u64 (v * 10) in
           if v > ULLONG_MAX - digit_val c then None
           else string2ll_loop (u64 (v + digit_val c)) cs))
      else Some (v, c # cs))"

text \<open>\<open>None\<close> is the return value 0; the bytes are the \<open>slen\<close> bytes at \<open>s\<close>.\<close>

definition string2ll :: "byte list \<Rightarrow> int option" where
  "string2ll s =
     (if s = [] then None
      else if s = [ch CHR ''0''] then Some 0
      else (let negative = (hd s = ch CHR ''-''); p = (if negative then tl s else s) in
        if negative \<and> p = [] then None
        else if ch CHR ''1'' \<le> hd p \<and> hd p \<le> ch CHR ''9'' then
          (case string2ll_loop (digit_val (hd p)) (tl p) of
             None \<Rightarrow> None
           | Some (v, rest) \<Rightarrow>
               if rest \<noteq> [] then None
               else if negative then
                 (if v > nat (- (LLONG_MIN + 1)) + 1 then None else Some (s64 (- int v)))
               else if int v > LLONG_MAX then None
               else Some (int v))
        else if hd p = ch CHR ''0'' \<and> length s = 1 then Some 0
        else None))"

definition string2l :: "byte list \<Rightarrow> int option" where
  "string2l s = (case string2ll s of
     None \<Rightarrow> None
   | Some llval \<Rightarrow> if llval < LLONG_MIN \<or> llval > LLONG_MAX then None else Some llval)"

text \<open>
  The base-10 \<open>strtoll\<close> of the C library on a string of digits with an optional sign: the value,
  saturated at the bounds of \<open>long long\<close>, and the bytes after the number, or \<open>None\<close> without digits.
\<close>

definition strtoll10 :: "byte list \<Rightarrow> (int \<times> byte list) option" where
  "strtoll10 s =
     (let negative = (s \<noteq> [] \<and> hd s = ch CHR ''-''); p = (if negative then tl s else s);
          ds = takeWhile isdigit p; v = foldl (\<lambda>v c. v * 10 + digit_val c) 0 ds in
      if ds = [] then None
      else Some (if negative then max LLONG_MIN (- int v) else min LLONG_MAX (int v), dropWhile isdigit p))"

definition tolower_byte :: "byte \<Rightarrow> byte" where
  "tolower_byte c = (if ch CHR ''A'' \<le> c \<and> c \<le> ch CHR ''Z'' then c + 32 else c)"

definition strcaseeq :: "byte list \<Rightarrow> byte list \<Rightarrow> bool" where
  "strcaseeq a b \<longleftrightarrow> map tolower_byte a = map tolower_byte b"

definition unit_mul :: "byte list \<Rightarrow> int option" where
  "unit_mul u =
     (if u = [] \<or> strcaseeq u (bytes ''b'') then Some 1
      else if strcaseeq u (bytes ''k'') then Some 1000
      else if strcaseeq u (bytes ''kb'') then Some 1024
      else if strcaseeq u (bytes ''m'') then Some (1000 * 1000)
      else if strcaseeq u (bytes ''mb'') then Some (1024 * 1024)
      else if strcaseeq u (bytes ''g'') then Some (1000 * 1000 * 1000)
      else if strcaseeq u (bytes ''gb'') then Some (1024 * 1024 * 1024)
      else None)"

text \<open>
  The bytes of \<open>p\<close> before the terminating NUL. The result is the value and the error flag;
  \<open>einval\<close> is whether the C library reports EINVAL when there are no digits, and \<open>None\<close> is the
  undefined overflow of the last multiplication.
\<close>

definition memtoll :: "bool \<Rightarrow> byte list \<Rightarrow> (int \<times> bool) option" where
  "memtoll einval p =
     (let sign = (if p \<noteq> [] \<and> hd p = ch CHR ''-'' then 1 else 0);
          digits = sign + length (takeWhile isdigit (drop sign p));
          u = drop digits p in
      case unit_mul u of
        None \<Rightarrow> Some (0, True)
      | Some mul \<Rightarrow>
          if digits \<ge> 128 then Some (0, True)
          else (let buf = take digits p; r = strtoll10 buf;
                    (val, endptr) = (case r of None \<Rightarrow> (0, buf) | Some x \<Rightarrow> x) in
            if (val = 0 \<and> r = None \<and> einval) \<or> endptr \<noteq> [] then Some (0, True)
            else if int64_range (val * mul) then Some (val * mul, False) else None))"

section \<open>Decimal notation\<close>

fun dec :: "nat \<Rightarrow> byte list" where
  "dec n = (if n < 10 then [48 + of_nat n] else dec (n div 10) @ [48 + of_nat (n mod 10)])"

declare dec.simps [simp del]

definition sdec :: "int \<Rightarrow> byte list" where
  "sdec i = (if i < 0 then ch CHR ''-'' # dec (nat (- i)) else dec (nat i))"

lemma length_dec_pos: "0 < length (dec n)"
  by (subst dec.simps) simp

lemma dec_two: "100 \<le> n \<Longrightarrow> dec n = dec (n div 100) @ [48 + of_nat (n mod 100 div 10), 48 + of_nat (n mod 10)]"
proof -
  assume n: "100 \<le> n"
  have "n mod (10 * 10) = 10 * (n div 10 mod 10) + n mod 10" by (rule mod_mult2_eq)
  then have "n mod 100 div 10 = n div 10 mod 10" by simp
  moreover have "n div 10 div 10 = n div 100" by (simp add: div_mult2_eq [symmetric])
  ultimately have a: "n div 10 div 10 = n div 100" "n div 10 mod 10 = n mod 100 div 10" by simp_all
  have "dec n = dec (n div 10) @ [48 + of_nat (n mod 10)]" using n by (subst dec.simps) simp
  also have "dec (n div 10) = dec (n div 100) @ [48 + of_nat (n mod 100 div 10)]"
  proof -
    have "\<not> n div 10 < 10" using n by simp
    then show ?thesis using a by (subst dec.simps) simp
  qed
  finally show ?thesis by simp
qed

lemma ten_le_power: "(10::nat) \<le> 10 ^ Suc k"
  by simp

lemma length_dec_iff:
  "length (dec n) = Suc k \<longleftrightarrow> n < 10 ^ Suc k \<and> (k = 0 \<or> 10 ^ k \<le> n)"
proof (induction k arbitrary: n)
  case 0
  show ?case using length_dec_pos [of "n div 10"] by (subst dec.simps) auto
next
  case (Suc k)
  show ?case
  proof (cases "n < 10")
    case True
    then have "n < 10 ^ Suc k" using ten_le_power [of k] by linarith
    then show ?thesis using True by (subst dec.simps) simp
  next
    case False
    then have "length (dec n) = Suc (length (dec (n div 10)))" by (subst dec.simps) simp
    then have "length (dec n) = Suc (Suc k) \<longleftrightarrow> n div 10 < 10 ^ Suc k \<and> (k = 0 \<or> 10 ^ k \<le> n div 10)"
      using Suc.IH [of "n div 10"] by simp
    also have "\<dots> \<longleftrightarrow> n < 10 ^ Suc (Suc k) \<and> (Suc k = 0 \<or> 10 ^ Suc k \<le> n)"
      using False by (auto simp: div_less_iff_less_mult less_eq_div_iff_mult_less_eq mult.commute)
    finally show ?thesis .
  qed
qed

lemma length_dec_div: "10 ^ k \<le> n \<Longrightarrow> length (dec n) = k + length (dec (n div 10 ^ k))"
proof (induction k arbitrary: n)
  case (Suc k)
  have "10 \<le> n" using Suc.prems ten_le_power [of k] by linarith
  then have "length (dec n) = Suc (length (dec (n div 10)))" by (subst dec.simps) simp
  moreover have "10 ^ k \<le> n div 10" using Suc.prems by (simp add: less_eq_div_iff_mult_less_eq mult.commute)
  ultimately show ?case using Suc.IH [of "n div 10"] by (simp add: div_mult2_eq)
qed simp

lemma digits10_length: "digits10 v = length (dec v)"
proof (induction v rule: digits10.induct)
  case (1 v)
  show ?case
  proof (cases "v < 1000000000000")
    case True
    have l: "length (dec v) = Suc k" if "v < 10 ^ Suc k" "k = 0 \<or> 10 ^ k \<le> v" for k
      using length_dec_iff [of v k] that by simp
    show ?thesis
      using True l [of 0] l [of 1] l [of 2] l [of 3] l [of 4] l [of 5] l [of 6] l [of 7] l [of 8] l [of 9] l [of 10] l [of 11]
      by (subst digits10.simps) (auto simp: not_less split: if_splits)
  next
    case False
    then show ?thesis using 1 length_dec_div [of 12 v] by (subst digits10.simps) simp
  qed
qed

section \<open>Printing\<close>

lemma digits_tab_pairs:
  "digits_tab = concat (map (\<lambda>v. [48 + of_nat (v div 10), 48 + of_nat (v mod 10)]) [0..<100])"
  by (simp add: digits_tab_def bytes_def upt_rec)

lemma nth_concat_pairs:
  "v < length vs \<Longrightarrow> concat (map (\<lambda>v. [f v, g v]) vs) ! (v * 2) = f (vs ! v)"
  "v < length vs \<Longrightarrow> concat (map (\<lambda>v. [f v, g v]) vs) ! (v * 2 + 1) = g (vs ! v)"
  by (induction vs arbitrary: v) (auto simp: nth_Cons' less_Suc_eq_0_disj)

lemma length_concat_pairs: "length (concat (map (\<lambda>v. [f v, g v]) vs)) = 2 * length vs"
  by (induction vs) auto

lemma digits_tab_nth:
  assumes "v < 100"
  shows "mem_get digits_tab (v * 2) = Some (48 + of_nat (v div 10))"
    "mem_get digits_tab (v * 2 + 1) = Some (48 + of_nat (v mod 10))"
  using assms nth_concat_pairs [of v "[0..<100]"]
  by (simp_all add: digits_tab_pairs mem_get_def length_concat_pairs)

text \<open>Storing digits backwards: what is written is a segment of the buffer.\<close>

lemma update_two:
  assumes "Suc i < length dst"
  shows "dst[Suc i := b, i := a] = take i dst @ [a, b] @ drop (Suc (Suc i)) dst"
proof -
  have "dst[Suc i := b] = take (Suc i) dst @ b # drop (Suc (Suc i)) dst"
    using assms by (simp add: upd_conv_take_nth_drop)
  also have "take (Suc i) dst = take i dst @ [dst ! i]" using assms by (simp add: take_Suc_conv_app_nth)
  finally show ?thesis using assms by (simp add: list_update_append)
qed

lemma u32_back: "k \<le> n \<Longrightarrow> n < 2 ^ 32 \<Longrightarrow> k \<le> 2 ^ 32 \<Longrightarrow> u32 (n + (2 ^ 32 - k)) = n - k"
proof -
  assume k: "k \<le> n" "n < 2 ^ 32" "k \<le> 2 ^ 32"
  then have "n + (2 ^ 32 - k) = (n - k) + 2 ^ 32" by simp
  then have "u32 (n + (2 ^ 32 - k)) = (n - k) mod 2 ^ 32" unfolding u32_def by (metis mod_add_self2)
  also have "\<dots> = n - k" using k by (intro mod_less) simp
  finally show ?thesis .
qed

lemma u32_back_1: "1 \<le> n \<Longrightarrow> n < 2 ^ 32 \<Longrightarrow> u32 (n + (2 ^ 32 - 1)) = n - 1"
  by (rule u32_back) simp_all

lemma u32_back_2: "2 \<le> n \<Longrightarrow> n < 2 ^ 32 \<Longrightarrow> u32 (n + (2 ^ 32 - 2)) = n - 2"
  by (rule u32_back) simp_all

lemma ll2string_last_correct:
  assumes "val < 100" "length (dec val) \<le> Suc nxt" "nxt < length dst" "nxt < 2 ^ 32"
  shows "ll2string_last val dst nxt = Some (take (Suc nxt - length (dec val)) dst @ dec val @ drop (Suc nxt) dst)"
proof (cases "val < 10")
  case True
  then have d: "dec val = [48 + of_nat val]" by (subst dec.simps) simp
  have "dst[nxt := x] = take nxt dst @ [x] @ drop (Suc nxt) dst" for x
    using assms(3) by (simp add: upd_conv_take_nth_drop)
  then show ?thesis using True assms(3) by (simp add: ll2string_last_def d mem_set_def)
next
  case False
  then have d: "dec val = [48 + of_nat (val div 10), 48 + of_nat (val mod 10)]"
  proof -
    have "dec (val div 10) = [48 + of_nat (val div 10)]"
      using assms(1) by (subst dec.simps) (simp add: div_less_iff_less_mult)
    then show ?thesis using False by (subst dec.simps) simp
  qed
  then obtain i where i: "nxt = Suc i" using assms(2) by (cases nxt) auto
  have u: "u32 (nxt + (2 ^ 32 - 1)) = i" using u32_back_1 [of nxt] assms(4) i by simp
  have "ll2string_last val dst nxt = Some (dst[Suc i := 48 + of_nat (val mod 10), i := 48 + of_nat (val div 10)])"
    using False assms(1,3) digits_tab_nth [OF assms(1)] u i by (simp add: ll2string_last_def Let_def mem_set_def)
  also have "dst[Suc i := 48 + of_nat (val mod 10), i := 48 + of_nat (val div 10)] =
      take i dst @ dec val @ drop (Suc nxt) dst"
    using update_two [of i dst] assms(3) i d by simp
  finally show ?thesis using i d by simp
qed

lemma ll2string_digits:
  assumes "length (dec val) \<le> Suc nxt" "nxt < length dst" "nxt < 2 ^ 32"
  shows "do { (val, dst, nxt) \<leftarrow> ll2string_loop val dst nxt; ll2string_last val dst nxt } =
    Some (take (Suc nxt - length (dec val)) dst @ dec val @ drop (Suc nxt) dst)"
  using assms
proof (induction val arbitrary: dst nxt rule: less_induct)
  case (less val)
  show ?case
  proof (cases "val \<ge> 100")
    case False
    then show ?thesis using ll2string_last_correct [of val nxt dst] less.prems
      by (subst ll2string_loop.simps) simp
  next
    case True
    let ?a = "48 + of_nat (val mod 100 div 10) :: byte" and ?b = "48 + of_nat (val mod 10) :: byte"
    let ?q = "val div 100"
    have dd: "dec val = dec ?q @ [?a, ?b]" by (rule dec_two [OF True])
    have l2: "length (dec val) = Suc (Suc (length (dec ?q)))" by (simp add: dd)
    then obtain i where i: "nxt = Suc (Suc i)" using less.prems(1) length_dec_pos [of ?q]
      by (cases nxt; cases "nxt - 1") auto
    let ?dst = "take (Suc i) dst @ [?a, ?b] @ drop (Suc nxt) dst"
    have u: "u32 (nxt + (2 ^ 32 - 1)) = Suc i" "u32 (nxt + (2 ^ 32 - 2)) = i"
      using u32_back_1 [of nxt] u32_back_2 [of nxt] less.prems(3) i by simp_all
    have m: "val mod 100 mod 10 = val mod 10" by (simp add: mod_mod_cancel)
    have upd: "dst[nxt := ?b, Suc i := ?a] = ?dst"
      using update_two [of "Suc i" dst] less.prems(2) i by simp
    have "ll2string_loop val dst nxt = ll2string_loop ?q ?dst i"
      using True less.prems(2) digits_tab_nth [of "val mod 100"] u i upd m
      by (subst ll2string_loop.simps) (simp add: Let_def mem_set_def)
    moreover have "(do { (val, dst, nxt) \<leftarrow> ll2string_loop ?q ?dst i; ll2string_last val dst nxt }) =
        Some (take (Suc i - length (dec ?q)) ?dst @ dec ?q @ drop (Suc i) ?dst)"
      using less.prems True i l2 by (intro less.IH) (simp_all add: min_def)
    moreover have "take (Suc i - length (dec ?q)) ?dst = take (Suc nxt - length (dec val)) dst"
      using less.prems i l2 by (simp add: min_def)
    moreover have "drop (Suc i) ?dst = [?a, ?b] @ drop (Suc nxt) dst" using less.prems i by (simp add: min_def)
    ultimately show ?thesis using dd by simp
  qed
qed

lemma ll2string_correct:
  assumes "int64_range v" "dstlen \<le> length dst"
  shows "ll2string dst dstlen v =
    (if length (sdec v) < dstlen then Some (length (sdec v), sdec v @ [0] @ drop (Suc (length (sdec v))) dst)
     else Some (0, dst))"
proof -
  let ?neg = "v < 0" let ?n = "nat \<bar>v\<bar>"
  let ?s = "if ?neg then 1 else 0 :: nat"
  have val: "(if v < 0 then (if v \<noteq> LLONG_MIN then nat (- v) else nat LLONG_MAX + 1, True) else (nat v, False)) = (?n, ?neg)"
    by (auto simp: LLONG_MIN_def LLONG_MAX_def)
  have sd: "sdec v = (if ?neg then [ch CHR ''-''] else []) @ dec ?n" by (simp add: sdec_def)
  have len: "length (sdec v) = length (dec ?n) + ?s" by (simp add: sd)
  have small: "length (dec ?n) \<le> 20"
  proof (rule ccontr)
    assume "\<not> ?thesis"
    then obtain k where k: "length (dec ?n) = Suc k" "20 \<le> k" by (cases "length (dec ?n)") auto
    then have "(10::nat) ^ 20 \<le> 10 ^ k" by (intro power_increasing) simp_all
    moreover have "10 ^ k \<le> ?n" using k length_dec_iff [of ?n k] by simp
    moreover have "?n \<le> 2 ^ 63" using assms(1) unfolding int64_range_def by (simp add: nat_le_iff) linarith
    ultimately have "(10::nat) ^ 20 \<le> 2 ^ 63" by (meson order_trans)
    then show False by simp
  qed
  show ?thesis
  proof (cases "length (sdec v) < dstlen")
    case False
    then show ?thesis by (simp add: ll2string_def val digits10_length len Let_def)
  next
    case True
    let ?L = "length (sdec v)"
    have "?L \<noteq> 0" using length_dec_pos [of ?n] len by simp
    then obtain m where m: "?L = Suc m" using not0_implies_Suc by blast
    have L: "?L < length dst" using True assms(2) by simp
    let ?d1 = "dst[?L := 0]"
    have d1: "mem_set dst ?L 0 = Some ?d1" using L by (simp add: mem_set_def)
    have "do { (val, dst, nxt) \<leftarrow> ll2string_loop ?n ?d1 m; ll2string_last val dst nxt } =
        Some (take (Suc m - length (dec ?n)) ?d1 @ dec ?n @ drop (Suc m) ?d1)"
      by (rule ll2string_digits) (use m len L small in \<open>simp_all split: if_splits\<close>)
    moreover have "Suc m - length (dec ?n) = ?s" using m len by simp
    moreover have "drop (Suc m) ?d1 = 0 # drop (Suc ?L) dst"
      using L m by (simp add: drop_update_swap Cons_nth_drop_Suc [symmetric])
    ultimately have w: "do { (val, dst, nxt) \<leftarrow> ll2string_loop ?n ?d1 m; ll2string_last val dst nxt } =
        Some (take ?s ?d1 @ dec ?n @ 0 # drop (Suc ?L) dst)" by simp
    have "ll2string dst dstlen v = do {
        dst \<leftarrow> Option.bind (ll2string_loop ?n ?d1 m) (\<lambda>(val, dst, nxt). ll2string_last val dst nxt);
        dst \<leftarrow> (if ?neg then mem_set dst 0 (ch CHR ''-'') else Some dst);
        Some (?L, dst) }"
      using True d1 m by (simp add: ll2string_def val digits10_length len [symmetric] Let_def case_prod_unfold)
    also have "\<dots> = Some (?L, sdec v @ [0] @ drop (Suc ?L) dst)"
      unfolding w using L m by (cases "v < 0"; cases dst) (simp_all add: mem_set_def sd)
    finally show ?thesis using True by simp
  qed
qed

section \<open>Parsing\<close>

definition num :: "nat \<Rightarrow> byte list \<Rightarrow> nat" where
  "num v cs = foldl (\<lambda>v c. v * 10 + digit_val c) v cs"

lemma num_simps [simp]:
  "num v [] = v" "num v (c # cs) = num (v * 10 + digit_val c) cs" "num v (cs @ cs') = num (num v cs) cs'"
  by (simp_all add: num_def)

lemma num_ge: "v \<le> num v cs"
proof (induction cs arbitrary: v)
  case (Cons c cs)
  have "v \<le> v * 10 + digit_val c" by simp
  then show ?case using Cons [of "v * 10 + digit_val c"] by simp
qed simp

lemma isdigit_iff: "isdigit c \<longleftrightarrow> 48 \<le> unat c \<and> unat c \<le> 57"
  by (simp add: isdigit_def word_le_nat_alt)

lemma digit_val_le: "isdigit c \<Longrightarrow> digit_val c \<le> 9"
  by (auto simp: isdigit_iff digit_val_def)

lemma digit_byte: "isdigit c \<Longrightarrow> 48 + of_nat (digit_val c) = c"
  by (simp add: isdigit_iff digit_val_def of_nat_diff)

lemma isdigit_digit: "d < 10 \<Longrightarrow> isdigit (48 + of_nat d) \<and> digit_val (48 + of_nat d) = d"
proof -
  assume "d < 10"
  then have "unat (48 + of_nat d :: byte) = 48 + d"
    by (subst unat_add_lem [THEN iffD1]) (simp_all add: unsigned_of_nat take_bit_nat_eq_self)
  then show ?thesis using \<open>d < 10\<close> by (simp add: isdigit_iff digit_val_def)
qed

lemma string2ll_loop_correct:
  assumes "v \<le> ULLONG_MAX"
  shows "string2ll_loop v cs = Some (w, []) \<longleftrightarrow> (\<forall>c \<in> set cs. isdigit c) \<and> w = num v cs \<and> w \<le> ULLONG_MAX"
  using assms
proof (induction cs arbitrary: v)
  case (Cons c cs)
  let ?n = "v * 10 + digit_val c"
  show ?case
  proof (cases "isdigit c")
    case True
    note d9 = digit_val_le [OF True]
    have over: "\<not> num ?n cs \<le> ULLONG_MAX" if "\<not> ?n \<le> ULLONG_MAX" using num_ge [of ?n cs] that by simp
    show ?thesis
    proof (cases "?n \<le> ULLONG_MAX")
      case le: True
      then have "string2ll_loop v (c # cs) = string2ll_loop ?n cs"
        using True d9 by (auto simp: ULLONG_MAX_def Let_def)
      then show ?thesis using Cons.IH [OF le] True by simp
    next
      case False
      then have "string2ll_loop v (c # cs) = None"
        using True d9 Cons.prems by (auto simp: ULLONG_MAX_def Let_def)
      then show ?thesis using over [OF False] by auto
    qed
  qed auto
qed auto

lemma dec_step: "0 < v \<Longrightarrow> d < 10 \<Longrightarrow> dec (v * 10 + d) = dec v @ [48 + of_nat d]"
  by (subst dec.simps) simp

lemma dec_num: "0 < v \<Longrightarrow> \<forall>c \<in> set cs. isdigit c \<Longrightarrow> dec (num v cs) = dec v @ cs"
proof (induction cs arbitrary: v)
  case (Cons c cs)
  then have c: "isdigit c" "digit_val c < 10" using digit_val_le [of c] by auto
  then have "dec (num v (c # cs)) = dec (v * 10 + digit_val c) @ cs" using Cons by simp
  also have "dec (v * 10 + digit_val c) = dec v @ [c]" using dec_step [OF Cons.prems(1) c(2)] digit_byte [OF c(1)] by simp
  finally show ?case by simp
qed simp

lemma dec_parse:
  assumes "0 < n"
  shows "\<exists>c cs. dec n = c # cs \<and> ch CHR ''1'' \<le> c \<and> c \<le> ch CHR ''9'' \<and> (\<forall>c \<in> set cs. isdigit c) \<and>
    num (digit_val c) cs = n"
  using assms
proof (induction n rule: dec.induct)
  case (1 n)
  show ?case
  proof (cases "n < 10")
    case True
    have c: "isdigit (48 + of_nat n)" "digit_val (48 + of_nat n) = n" using isdigit_digit [OF True] by auto
    then have "48 < unat (48 + of_nat n :: byte)" using 1 by (simp add: digit_val_def)
    then have "ch CHR ''1'' \<le> 48 + of_nat n" by (simp add: word_le_nat_alt)
    then show ?thesis using True c by (subst dec.simps) (auto simp: isdigit_def)
  next
    case False
    then obtain c cs where i: "dec (n div 10) = c # cs" "ch CHR ''1'' \<le> c" "c \<le> ch CHR ''9''"
      "\<forall>c \<in> set cs. isdigit c" "num (digit_val c) cs = n div 10" using 1(1) by fastforce
    have d: "isdigit (48 + of_nat (n mod 10))" "digit_val (48 + of_nat (n mod 10)) = n mod 10"
      using isdigit_digit [of "n mod 10"] by auto
    have "dec n = c # (cs @ [48 + of_nat (n mod 10)])" using False i(1) by (subst dec.simps) simp
    then show ?thesis using i d by (intro exI [of _ c] exI [of _ "cs @ [48 + of_nat (n mod 10)]"]) auto
  qed
qed

text \<open>The part of \<open>string2ll\<close> after the sign: an unsigned number that starts with 1 to 9.\<close>

lemma parse_digits:
  assumes "p \<noteq> []"
  shows "ch CHR ''1'' \<le> hd p \<and> hd p \<le> ch CHR ''9'' \<and> string2ll_loop (digit_val (hd p)) (tl p) = Some (w, []) \<longleftrightarrow>
    0 < w \<and> w \<le> ULLONG_MAX \<and> p = dec w"
proof
  assume a: "ch CHR ''1'' \<le> hd p \<and> hd p \<le> ch CHR ''9'' \<and> string2ll_loop (digit_val (hd p)) (tl p) = Some (w, [])"
  then have c: "isdigit (hd p)" "0 < digit_val (hd p)" by (auto simp: isdigit_iff digit_val_def word_le_nat_alt)
  have d9: "digit_val (hd p) < 10" using digit_val_le [OF c(1)] by simp
  then have "digit_val (hd p) \<le> ULLONG_MAX" by (simp add: ULLONG_MAX_def)
  then have w: "\<forall>c \<in> set (tl p). isdigit c" "w = num (digit_val (hd p)) (tl p)" "w \<le> ULLONG_MAX"
    using a string2ll_loop_correct by blast+
  have "dec (digit_val (hd p)) = [hd p]" using d9 digit_byte [OF c(1)] by (subst dec.simps) simp
  then have "dec w = p" using dec_num [OF c(2) w(1)] assms w(2) by simp
  moreover have "0 < w" using num_ge [of "digit_val (hd p)" "tl p"] c(2) w(2) by simp
  ultimately show "0 < w \<and> w \<le> ULLONG_MAX \<and> p = dec w" using w(3) by simp
next
  assume a: "0 < w \<and> w \<le> ULLONG_MAX \<and> p = dec w"
  then obtain c cs where i: "dec w = c # cs" "ch CHR ''1'' \<le> c" "c \<le> ch CHR ''9''"
      "\<forall>c \<in> set cs. isdigit c" "num (digit_val c) cs = w" using dec_parse by blast
  have "isdigit c" using i(2,3) by (auto simp: isdigit_iff word_le_nat_alt)
  then have "digit_val c \<le> ULLONG_MAX" using digit_val_le [of c] by (simp add: ULLONG_MAX_def)
  then have "string2ll_loop (digit_val c) cs = Some (w, [])" using string2ll_loop_correct i a by blast
  then show "ch CHR ''1'' \<le> hd p \<and> hd p \<le> ch CHR ''9'' \<and> string2ll_loop (digit_val (hd p)) (tl p) = Some (w, [])"
    using a i by simp
qed

lemma hd_dec: "hd (dec n) \<noteq> ch CHR ''-''"
proof (cases "n = 0")
  case True
  then show ?thesis by (simp add: dec.simps)
next
  case False
  then obtain c cs where "dec n = c # cs" "ch CHR ''1'' \<le> c" using dec_parse by blast
  then show ?thesis by (auto simp: word_le_nat_alt)
qed

lemma dec_eq_zero_iff: "dec n = [48] \<longleftrightarrow> n = 0"
proof
  assume d: "dec n = [48]"
  show "n = 0"
  proof (rule ccontr)
    assume "n \<noteq> 0"
    then obtain c cs where "dec n = c # cs" "ch CHR ''1'' \<le> c" using dec_parse by blast
    then show False using d by (simp add: word_le_nat_alt)
  qed
qed (simp add: dec.simps)

lemma string2ll_sign:
  assumes "s \<noteq> []" "s \<noteq> [ch CHR ''0'']"
  shows "string2ll s = Some v \<longleftrightarrow> (\<exists>w. 0 < w \<and>
     (if hd s = ch CHR ''-'' then tl s = dec w \<and> w \<le> 2 ^ 63 \<and> v = - int w else s = dec w \<and> w < 2 ^ 63 \<and> v = int w))"
proof -
  let ?neg = "hd s = ch CHR ''-''"
  let ?p = "if ?neg then tl s else s"
  have s64: "s64 (- int w) = - int w" if "w \<le> 2 ^ 63" for w
    unfolding s64_def using that by (intro signed_take_bit_int_eq_self) (simp_all add: le_trans)
  show ?thesis
  proof (cases "?p = []")
    case True
    then have "string2ll s = None" using assms by (auto simp: string2ll_def Let_def split: if_splits)
    moreover have "dec w \<noteq> []" for w using length_dec_pos [of w] by auto
    ultimately show ?thesis using True assms(1) by (auto split: if_splits) (metis)+
  next
    case False
    have nz: "\<not> (hd ?p = ch CHR ''0'' \<and> length s = 1)"
      using assms False by (cases s) (auto split: if_splits)
    let ?ok = "\<lambda>w. ch CHR ''1'' \<le> hd ?p \<and> hd ?p \<le> ch CHR ''9'' \<and>
        string2ll_loop (digit_val (hd ?p)) (tl ?p) = Some (w, [])"
    have "string2ll s = Some v \<longleftrightarrow> (\<exists>w. ?ok w \<and>
        (if ?neg then w \<le> 2 ^ 63 \<and> v = - int w else w < 2 ^ 63 \<and> v = int w))"
      using assms False nz s64 by (auto simp: string2ll_def Let_def LLONG_MIN_def LLONG_MAX_def split: option.splits if_splits prod.splits)
    also have "\<dots> \<longleftrightarrow> (\<exists>w. (0 < w \<and> w \<le> ULLONG_MAX \<and> ?p = dec w) \<and>
        (if ?neg then w \<le> 2 ^ 63 \<and> v = - int w else w < 2 ^ 63 \<and> v = int w))"
      by (simp only: parse_digits [OF False])
    also have "\<dots> \<longleftrightarrow> (\<exists>w. 0 < w \<and>
       (if ?neg then tl s = dec w \<and> w \<le> 2 ^ 63 \<and> v = - int w else s = dec w \<and> w < 2 ^ 63 \<and> v = int w))"
      by (rule ex_cong1) (auto simp: ULLONG_MAX_def)
    finally show ?thesis .
  qed
qed

theorem string2ll_correct: "string2ll s = Some v \<longleftrightarrow> int64_range v \<and> s = sdec v"
proof -
  have d0: "dec 0 = [48]" by (simp add: dec_eq_zero_iff)
  have ne: "dec n \<noteq> []" for n using length_dec_pos [of n] by auto
  consider "s = []" | "s = [ch CHR ''0'']" | "s \<noteq> []" "s \<noteq> [ch CHR ''0'']" by blast
  then show ?thesis
  proof cases
    case 1
    then show ?thesis using ne [of "nat v"] by (auto simp: string2ll_def sdec_def)
  next
    case 2
    then have "string2ll s = Some v \<longleftrightarrow> v = 0" by (auto simp: string2ll_def)
    moreover have "s = sdec v \<longleftrightarrow> v = 0"
      using 2 dec_eq_zero_iff [of "nat v"] ne by (auto simp: sdec_def)
    ultimately show ?thesis by (auto simp: int64_range_def)
  next
    case 3
    have "(\<exists>w. 0 < w \<and> (if hd s = ch CHR ''-'' then tl s = dec w \<and> w \<le> 2 ^ 63 \<and> v = - int w
        else s = dec w \<and> w < 2 ^ 63 \<and> v = int w)) \<longleftrightarrow> int64_range v \<and> s = sdec v" (is "?L \<longleftrightarrow> ?R")
    proof
      assume ?L
      then obtain w where w: "0 < w" "if hd s = ch CHR ''-'' then tl s = dec w \<and> w \<le> 2 ^ 63 \<and> v = - int w
        else s = dec w \<and> w < 2 ^ 63 \<and> v = int w" by blast
      then show ?R using 3(1)
        by (cases "hd s = ch CHR ''-''") (auto simp: sdec_def int64_range_def intro: list.expand)
    next
      assume r: ?R
      then have "v \<noteq> 0" using 3(2) d0 by (auto simp: sdec_def)
      with r show ?L using hd_dec
        by (intro exI [of _ "nat \<bar>v\<bar>"]) (auto simp: sdec_def int64_range_def nat_less_iff nat_le_iff)
    qed
    then show ?thesis using string2ll_sign [OF 3] by simp
  qed
qed

section \<open>Amounts of memory\<close>

lemma dec_digits: "\<forall>c \<in> set (dec n). isdigit c" "num 0 (dec n) = n"
proof -
  have "(\<forall>c \<in> set (dec n). isdigit c) \<and> num 0 (dec n) = n"
  proof (cases "n = 0")
    case True
    then show ?thesis by (simp add: dec.simps isdigit_def digit_val_def)
  next
    case False
    then obtain c cs where i: "dec n = c # cs" "ch CHR ''1'' \<le> c" "c \<le> ch CHR ''9''"
      "\<forall>c \<in> set cs. isdigit c" "num (digit_val c) cs = n" using dec_parse by blast
    then show ?thesis by (auto simp: isdigit_iff word_le_nat_alt)
  qed
  then show "\<forall>c \<in> set (dec n). isdigit c" "num 0 (dec n) = n" by auto
qed

lemma strtoll10_dec: "strtoll10 (dec n) = Some (min LLONG_MAX (int n), [])"
proof -
  have ne: "dec n \<noteq> []" using length_dec_pos [of n] by auto
  have tw: "takeWhile isdigit (dec n) = dec n" "dropWhile isdigit (dec n) = []"
    using dec_digits(1) by (simp_all add: takeWhile_eq_all_conv dropWhile_eq_Nil_conv)
  show ?thesis using ne hd_dec [of n] dec_digits(2) [of n] by (simp add: strtoll10_def Let_def num_def tw)
qed

lemma length_dec_bound: "n < 10 ^ k \<Longrightarrow> 0 < k \<Longrightarrow> length (dec n) \<le> k"
proof (induction k arbitrary: n)
  case (Suc k)
  show ?case
  proof (cases "n < 10")
    case True
    then show ?thesis by (subst dec.simps) simp
  next
    case False
    then have "n div 10 < 10 ^ k" "0 < k" using Suc.prems by (auto simp: div_less_iff_less_mult mult.commute) (cases k; simp)
    then show ?thesis using Suc.IH [of "n div 10"] False by (subst dec.simps) simp
  qed
qed simp

lemma memtoll_correct:
  assumes u: "unit_mul u = Some m" "u = [] \<or> \<not> isdigit (hd u)" and v: "int n * m < 2 ^ 63"
  shows "memtoll e (dec n @ u) = Some (int n * m, False)"
proof -
  have m: "1 \<le> m" using u(1) by (auto simp: unit_mul_def split: if_splits)
  have "int n \<le> int n * m" using m by (simp add: mult_le_cancel_left1)
  then have n: "int n < 2 ^ 63" using v by linarith
  have "n < 10 ^ 20" using n by simp
  then have len: "length (dec n) < 128" using length_dec_bound [of n 20] by simp
  have ne: "dec n \<noteq> []" using length_dec_pos [of n] by auto
  have tw: "takeWhile isdigit (dec n @ u) = dec n"
    using dec_digits(1) [of n] u(2) by (cases u) (auto simp: takeWhile_append)
  have sign: "\<not> (dec n @ u \<noteq> [] \<and> hd (dec n @ u) = ch CHR ''-'')" using ne hd_dec [of n] by simp
  have st: "strtoll10 (dec n) = Some (int n, [])"
    using strtoll10_dec [of n] n by (simp add: LLONG_MAX_def min_def)
  have "0 \<le> int n * m" using m by (intro mult_nonneg_nonneg) simp_all
  then have r: "int64_range (int n * m)" using v by (simp add: int64_range_def)
  have s: "(if dec n @ u \<noteq> [] \<and> hd (dec n @ u) = ch CHR ''-'' then 1 else 0 :: nat) = 0"
    using sign by (simp only: if_False)
  show ?thesis unfolding memtoll_def s Let_def drop_0 add_0 tw using u(1) len r by (simp add: st)
qed

lemma string2l_correct: "string2l s = Some v \<longleftrightarrow> int64_range v \<and> s = sdec v"
proof -
  have "string2l s = string2ll s"
  proof (cases "string2ll s")
    case (Some w)
    then have "int64_range w" using string2ll_correct [of s w] by simp
    then show ?thesis using Some by (simp add: string2l_def LLONG_MIN_def LLONG_MAX_def int64_range_def)
  qed (simp add: string2l_def)
  then show ?thesis by (simp only: string2ll_correct)
qed
end
