(* ===== verification/Sds.thy ===== *)
theory Sds
  imports Util
begin

text \<open>
  The string library \<open>sds.c\<close>. A string is its header, the 32-bit counters \<open>len\<close> and \<open>free\<close>, and the
  buffer allocated behind it, \<open>len + free + 1\<close> bytes with a NUL at offset \<open>len\<close>. Allocation never
  fails: \<open>zmalloc\<close> ends the process when there is no memory. Bytes that the allocator does not
  initialise come from an argument \<open>garb\<close>.
\<close>

record sdshdr =
  s_len :: nat
  s_free :: nat
  s_buf :: "byte list"

definition SDS_MAX_PREALLOC :: nat where "SDS_MAX_PREALLOC = 1024 * 1024"

definition sdslen :: "sdshdr \<Rightarrow> nat" where "sdslen s = s_len s"

definition sdsavail :: "sdshdr \<Rightarrow> nat" where "sdsavail s = s_free s"

text \<open>\<open>init\<close> is the memory at the pointer given, or \<open>None\<close> for NULL.\<close>

definition sdsnewlen :: "(nat \<Rightarrow> byte) \<Rightarrow> byte list option \<Rightarrow> nat \<Rightarrow> sdshdr option" where
  "sdsnewlen garb ini initlen = do {
     let buf = (if ini \<noteq> None then map garb [0..<initlen + 1] else replicate (initlen + 1) 0);
     buf \<leftarrow> (case ini of
         Some t \<Rightarrow> if initlen \<noteq> 0 then do { bs \<leftarrow> mem_read t 0 initlen; mem_write buf 0 bs } else Some buf
       | None \<Rightarrow> Some buf);
     buf \<leftarrow> mem_set buf initlen 0;
     Some \<lparr>s_len = u32 initlen, s_free = 0, s_buf = buf\<rparr> }"

text \<open>The length of the C string at the start of a block; \<open>None\<close> when no NUL follows.\<close>

fun strlen :: "byte list \<Rightarrow> nat option" where
  "strlen [] = None"
| "strlen (c # cs) = (if c = 0 then Some 0 else map_option Suc (strlen cs))"

definition sdsempty :: "(nat \<Rightarrow> byte) \<Rightarrow> sdshdr option" where
  "sdsempty garb = sdsnewlen garb (Some [0]) 0"

definition sdsnew :: "(nat \<Rightarrow> byte) \<Rightarrow> byte list option \<Rightarrow> sdshdr option" where
  "sdsnew garb ini = do {
     initlen \<leftarrow> (case ini of None \<Rightarrow> Some 0 | Some t \<Rightarrow> strlen t);
     sdsnewlen garb ini initlen }"

definition sdsdup :: "(nat \<Rightarrow> byte) \<Rightarrow> sdshdr \<Rightarrow> sdshdr option" where
  "sdsdup garb s = sdsnewlen garb (Some (s_buf s)) (sdslen s)"

definition sdsupdatelen :: "sdshdr \<Rightarrow> sdshdr option" where
  "sdsupdatelen s = do {
     n \<leftarrow> strlen (s_buf s);
     let reallen = nat (s32 (int n) mod 2 ^ 32);
     Some (s\<lparr>s_free := u32 (s_free s + s_len s + (2 ^ 32 - reallen)), s_len := reallen\<rparr>) }"

definition sdsclear :: "sdshdr \<Rightarrow> sdshdr option" where
  "sdsclear s = do {
     buf \<leftarrow> mem_set (s_buf s) 0 0;
     Some \<lparr>s_len = 0, s_free = u32 (s_free s + s_len s), s_buf = buf\<rparr> }"

definition sdsMakeRoomFor :: "(nat \<Rightarrow> byte) \<Rightarrow> sdshdr \<Rightarrow> nat \<Rightarrow> sdshdr" where
  "sdsMakeRoomFor garb s addlen =
     (if sdsavail s \<ge> addlen then s
      else (let len = sdslen s; newlen = u64 (len + addlen);
                newlen = (if newlen < SDS_MAX_PREALLOC then u64 (newlen * 2) else u64 (newlen + SDS_MAX_PREALLOC))
            in s\<lparr>s_free := u32 (newlen + (2 ^ 64 - len)), s_buf := mem_resize garb (s_buf s) (newlen + 1)\<rparr>))"

definition sdsRemoveFreeSpace :: "(nat \<Rightarrow> byte) \<Rightarrow> sdshdr \<Rightarrow> sdshdr" where
  "sdsRemoveFreeSpace garb s = s\<lparr>s_free := 0, s_buf := mem_resize garb (s_buf s) (s_len s + 1)\<rparr>"

definition sdsAllocSize :: "sdshdr \<Rightarrow> nat" where
  "sdsAllocSize s = 8 + s_len s + s_free s + 1"

text \<open>\<open>None\<close> also stands for the assertions that fail.\<close>

definition sdsIncrLen :: "sdshdr \<Rightarrow> int \<Rightarrow> sdshdr option" where
  "sdsIncrLen s incr =
     (if (if incr \<ge> 0 then int (s_free s) \<ge> incr else int (s_len s) \<ge> - incr) then do {
        let len = nat ((int (s_len s) + incr) mod 2 ^ 32);
        buf \<leftarrow> mem_set (s_buf s) len 0;
        Some \<lparr>s_len = len, s_free = nat ((int (s_free s) - incr) mod 2 ^ 32), s_buf = buf\<rparr> }
      else None)"

definition sdsgrowzero :: "(nat \<Rightarrow> byte) \<Rightarrow> sdshdr \<Rightarrow> nat \<Rightarrow> sdshdr option" where
  "sdsgrowzero garb s len =
     (let curlen = s_len s in
      if len \<le> curlen then Some s
      else do {
        let s = sdsMakeRoomFor garb s (len - curlen);
        buf \<leftarrow> mem_write (s_buf s) curlen (replicate (len - curlen + 1) 0);
        let totlen = u32 (s_len s + s_free s);
        Some \<lparr>s_len = u32 len, s_free = u32 (totlen + (2 ^ 64 - u32 len)), s_buf = buf\<rparr> })"

text \<open>\<open>t\<close> is the memory at the pointer appended.\<close>

definition sdscatlen :: "(nat \<Rightarrow> byte) \<Rightarrow> sdshdr \<Rightarrow> byte list \<Rightarrow> nat \<Rightarrow> sdshdr option" where
  "sdscatlen garb s t len = do {
     let curlen = sdslen s;
     let s = sdsMakeRoomFor garb s len;
     bs \<leftarrow> mem_read t 0 len;
     buf \<leftarrow> mem_write (s_buf s) curlen bs;
     buf \<leftarrow> mem_set buf (curlen + len) 0;
     Some \<lparr>s_len = u32 (curlen + len), s_free = u32 (s_free s + (2 ^ 64 - len)), s_buf = buf\<rparr> }"

definition sdscat :: "(nat \<Rightarrow> byte) \<Rightarrow> sdshdr \<Rightarrow> byte list \<Rightarrow> sdshdr option" where
  "sdscat garb s t = do { n \<leftarrow> strlen t; sdscatlen garb s t n }"

definition sdscatsds :: "(nat \<Rightarrow> byte) \<Rightarrow> sdshdr \<Rightarrow> sdshdr \<Rightarrow> sdshdr option" where
  "sdscatsds garb s t = sdscatlen garb s (s_buf t) (sdslen t)"

definition sdscpylen :: "(nat \<Rightarrow> byte) \<Rightarrow> sdshdr \<Rightarrow> byte list \<Rightarrow> nat \<Rightarrow> sdshdr option" where
  "sdscpylen garb s t len = do {
     let totlen = u32 (s_free s + s_len s);
     let s = (if totlen < len then sdsMakeRoomFor garb s (len - s_len s) else s);
     let totlen = u32 (s_free s + s_len s);
     bs \<leftarrow> mem_read t 0 len;
     buf \<leftarrow> mem_write (s_buf s) 0 bs;
     buf \<leftarrow> mem_set buf len 0;
     Some \<lparr>s_len = u32 len, s_free = u32 (totlen + (2 ^ 64 - len)), s_buf = buf\<rparr> }"

definition sdscpy :: "(nat \<Rightarrow> byte) \<Rightarrow> sdshdr \<Rightarrow> byte list \<Rightarrow> sdshdr option" where
  "sdscpy garb s t = do { n \<leftarrow> strlen t; sdscpylen garb s t n }"

section \<open>Invariant and contents\<close>

definition sds_str :: "sdshdr \<Rightarrow> byte list" where
  "sds_str s = take (s_len s) (s_buf s)"

definition sds_inv :: "sdshdr \<Rightarrow> bool" where
  "sds_inv s \<longleftrightarrow> length (s_buf s) = s_len s + s_free s + 1 \<and> s_len s + s_free s < 2 ^ 32 \<and> s_buf s ! s_len s = 0"

lemma length_sds_str: "sds_inv s \<Longrightarrow> length (sds_str s) = s_len s"
  by (simp add: sds_inv_def sds_str_def)

lemma sds_layout: "sds_inv s \<Longrightarrow> \<exists>rest. s_buf s = sds_str s @ 0 # rest \<and> length rest = s_free s"
  unfolding sds_inv_def sds_str_def
  by (metis (no_types, lifting) Suc_eq_plus1 add_Suc diff_add_inverse id_take_nth_drop length_drop less_add_Suc1)

lemma sds_make:
  assumes "length buf = n + f + 1" "n + f < 2 ^ 32" "buf ! n = 0"
  shows "sds_inv \<lparr>s_len = n, s_free = f, s_buf = buf\<rparr>" "sds_str \<lparr>s_len = n, s_free = f, s_buf = buf\<rparr> = take n buf"
  using assms by (simp_all add: sds_inv_def sds_str_def)

lemma sdsnewlen_correct:
  assumes "initlen \<le> length t" "initlen < 2 ^ 32"
  shows "\<exists>s. sdsnewlen garb (Some t) initlen = Some s \<and> sds_inv s \<and> sds_str s = take initlen t"
proof (cases "initlen = 0")
  case True
  then show ?thesis by (simp add: sdsnewlen_def mem_simps sds_inv_def sds_str_def)
next
  case False
  let ?b = "map garb [0..<initlen + 1]"
  have "sdsnewlen garb (Some t) initlen =
      Some \<lparr>s_len = initlen, s_free = 0, s_buf = (take initlen t @ drop initlen ?b)[initlen := 0]\<rparr>"
    using assms False by (simp add: sdsnewlen_def mem_simps min_def)
  moreover have "take initlen ((take initlen t @ drop initlen ?b)[initlen := 0]) = take initlen t"
    using assms by (simp add: list_update_append min_def)
  ultimately show ?thesis
    using sds_make [of "(take initlen t @ drop initlen ?b)[initlen := 0]" initlen 0] assms by (simp add: min_def)
qed

lemma sdsnewlen_null:
  assumes "initlen < 2 ^ 32"
  shows "\<exists>s. sdsnewlen garb None initlen = Some s \<and> sds_inv s \<and> sds_str s = replicate initlen 0"
  using assms sds_make [of "(replicate (initlen + 1) 0)[initlen := 0]" initlen 0]
  by (simp add: sdsnewlen_def mem_simps del: replicate_Suc)

lemma u32_sub64: "k \<le> n \<Longrightarrow> n < 2 ^ 32 \<Longrightarrow> u32 (n + (2 ^ 64 - k)) = n - k"
proof -
  assume k: "k \<le> n" "n < 2 ^ 32"
  then have "n + (2 ^ 64 - k) = (n - k) + 2 ^ 32 * 2 ^ 32" by simp
  then have "u32 (n + (2 ^ 64 - k)) = (n - k) mod 2 ^ 32" unfolding u32_def by (simp only: mod_mult_self2)
  then show ?thesis using k by simp
qed

text \<open>After a request for room there is room, and the contents are untouched.\<close>

lemma sdsMakeRoomFor_correct:
  fixes garb :: "nat \<Rightarrow> byte"
  assumes inv: "sds_inv s" and room: "s_len s + addlen + SDS_MAX_PREALLOC < 2 ^ 32"
  defines "s' \<equiv> sdsMakeRoomFor garb s addlen"
  shows "sds_inv s'" "sds_str s' = sds_str s" "s_len s' = s_len s" "addlen \<le> s_free s'"
proof -
  have "sds_inv s' \<and> sds_str s' = sds_str s \<and> s_len s' = s_len s \<and> addlen \<le> s_free s'"
  proof (cases "s_free s \<ge> addlen")
    case True
    then show ?thesis using inv by (simp add: s'_def sdsMakeRoomFor_def sdsavail_def)
  next
    case False
    obtain n where nd: "n = (if s_len s + addlen < SDS_MAX_PREALLOC then (s_len s + addlen) * 2
        else s_len s + addlen + SDS_MAX_PREALLOC)" by blast
    have n: "s_len s + addlen \<le> n" "n < 2 ^ 32" using room by (auto simp: SDS_MAX_PREALLOC_def nd)
    have u: "u64 (s_len s + addlen) = s_len s + addlen" using n by simp
    have newlen: "(if s_len s + addlen < SDS_MAX_PREALLOC then u64 ((s_len s + addlen) * 2)
        else u64 (s_len s + addlen + SDS_MAX_PREALLOC)) = n"
      using n by (auto simp: nd)
    have s': "s' = s\<lparr>s_free := n - s_len s, s_buf := mem_resize garb (s_buf s) (n + 1)\<rparr>"
      unfolding s'_def sdsMakeRoomFor_def sdsavail_def sdslen_def Let_def u newlen
      using False u32_sub64 [of "s_len s" n] n by simp
    have l: "s_len s < length (s_buf s)" using inv by (simp add: sds_inv_def)
    have "mem_resize garb (s_buf s) (n + 1) ! s_len s = s_buf s ! s_len s"
      using l n by (simp add: mem_resize_def nth_append)
    moreover have "take (s_len s) (mem_resize garb (s_buf s) (n + 1)) = take (s_len s) (s_buf s)"
      using l n by (intro take_mem_resize) simp_all
    ultimately show ?thesis using inv n by (simp add: s' sds_inv_def sds_str_def)
  qed
  then show "sds_inv s'" "sds_str s' = sds_str s" "s_len s' = s_len s" "addlen \<le> s_free s'" by auto
qed

text \<open>Writing a string over the buffer: the tail of every operation that stores characters.\<close>

lemma sds_store:
  assumes inv: "sds_inv s" and fits: "n + length bs \<le> s_len s + s_free s" and n: "n \<le> s_len s + s_free s"
  shows "\<exists>b b'. mem_write (s_buf s) n bs = Some b \<and> mem_set b (n + length bs) 0 = Some b' \<and>
    sds_inv \<lparr>s_len = n + length bs, s_free = s_len s + s_free s - (n + length bs), s_buf = b'\<rparr> \<and>
    sds_str \<lparr>s_len = n + length bs, s_free = s_len s + s_free s - (n + length bs), s_buf = b'\<rparr> = take n (s_buf s) @ bs"
proof -
  have len: "length (s_buf s) = s_len s + s_free s + 1" and small: "s_len s + s_free s < 2 ^ 32"
    using inv by (simp_all add: sds_inv_def)
  let ?b = "take n (s_buf s) @ bs @ drop (n + length bs) (s_buf s)"
  have w: "mem_write (s_buf s) n bs = Some ?b" using fits len by (simp add: mem_write_def)
  have lb: "length ?b = s_len s + s_free s + 1" using fits len by simp
  have "take (n + length bs) (?b[n + length bs := 0]) = take n (s_buf s) @ bs" using fits len by simp
  moreover have "mem_set ?b (n + length bs) 0 = Some (?b[n + length bs := 0])" using fits lb by (simp add: mem_set_def)
  moreover have "sds_inv \<lparr>s_len = n + length bs, s_free = s_len s + s_free s - (n + length bs), s_buf = ?b[n + length bs := 0]\<rparr>"
    using fits small lb by (simp add: sds_inv_def)
  ultimately show ?thesis using w by (simp add: sds_str_def)
qed

lemma sdscatlen_correct:
  assumes inv: "sds_inv s" and t: "n \<le> length t" and room: "s_len s + n + SDS_MAX_PREALLOC < 2 ^ 32"
  shows "\<exists>s'. sdscatlen garb s t n = Some s' \<and> sds_inv s' \<and> sds_str s' = sds_str s @ take n t"
proof -
  let ?s = "sdsMakeRoomFor garb s n"
  note m = sdsMakeRoomFor_correct [OF inv room, of garb]
  have lt: "length (take n t) = n" using t by simp
  have f32: "s_len ?s + s_free ?s < 2 ^ 32" using m(1) by (simp add: sds_inv_def)
  obtain b b' where b: "mem_write (s_buf ?s) (s_len s) (take n t) = Some b" "mem_set b (s_len s + n) 0 = Some b'"
    "sds_inv \<lparr>s_len = s_len s + n, s_free = s_free ?s - n, s_buf = b'\<rparr>"
    "sds_str \<lparr>s_len = s_len s + n, s_free = s_free ?s - n, s_buf = b'\<rparr> = take (s_len s) (s_buf ?s) @ take n t"
    using sds_store [OF m(1), of "s_len s" "take n t"] m(3,4) t by (auto simp: lt)
  have "sdscatlen garb s t n = Some \<lparr>s_len = s_len s + n, s_free = s_free ?s - n, s_buf = b'\<rparr>"
    using t b(1,2) f32 m(3,4) u32_sub64 [of n "s_free ?s"] room
    by (simp add: sdscatlen_def sdslen_def mem_read_def SDS_MAX_PREALLOC_def)
  moreover have "take (s_len s) (s_buf ?s) = sds_str s" using m(2,3) by (simp add: sds_str_def)
  ultimately show ?thesis using b(3,4) by simp
qed

lemma strlen_append [simp]: "0 \<notin> set t \<Longrightarrow> strlen (t @ 0 # rest) = Some (length t)"
  by (induction t) auto

lemma sdscat_correct:
  assumes "sds_inv s" "0 \<notin> set t" "s_len s + length t + SDS_MAX_PREALLOC < 2 ^ 32"
  shows "\<exists>s'. sdscat garb s (t @ 0 # rest) = Some s' \<and> sds_inv s' \<and> sds_str s' = sds_str s @ t"
  using sdscatlen_correct [OF assms(1), of "length t" "t @ 0 # rest" garb] assms(2,3) by (simp add: sdscat_def)

lemma sdscpylen_correct:
  assumes inv: "sds_inv s" and t: "n \<le> length t" and room: "s_len s + n + SDS_MAX_PREALLOC < 2 ^ 32"
  shows "\<exists>s'. sdscpylen garb s t n = Some s' \<and> sds_inv s' \<and> sds_str s' = take n t"
proof -
  let ?tot = "u32 (s_free s + s_len s)"
  have tot: "?tot = s_free s + s_len s" using inv by (simp add: sds_inv_def add.commute)
  let ?s = "if ?tot < n then sdsMakeRoomFor garb s (n - s_len s) else s"
  have "s_len s + (n - s_len s) + SDS_MAX_PREALLOC < 2 ^ 32" using room by simp
  note m = sdsMakeRoomFor_correct [OF inv this, of garb]
  obtain s1 where s1: "?s = s1" by blast
  have s: "sds_inv s1" "n \<le> s_len s1 + s_free s1" unfolding s1 [symmetric] using m inv tot by auto
  then have t32: "u32 (s_free s1 + s_len s1) = s_len s1 + s_free s1" "s_len s1 + s_free s1 < 2 ^ 32"
    by (simp_all add: sds_inv_def add.commute)
  have lt: "length (take n t) = n" using t by simp
  obtain b b' where b: "mem_write (s_buf s1) 0 (take n t) = Some b" "mem_set b n 0 = Some b'"
    "sds_inv \<lparr>s_len = n, s_free = s_len s1 + s_free s1 - n, s_buf = b'\<rparr>"
    "sds_str \<lparr>s_len = n, s_free = s_len s1 + s_free s1 - n, s_buf = b'\<rparr> = take n t"
    using sds_store [OF s(1), of 0 "take n t", unfolded lt add_0 take_0 append_Nil] s(2) by blast
  have "sdscpylen garb s t n = Some \<lparr>s_len = n, s_free = s_len s1 + s_free s1 - n, s_buf = b'\<rparr>"
    unfolding sdscpylen_def Let_def s1 t32(1) using t b(1,2) u32_sub64 [OF s(2) t32(2)] s(2) t32(2)
    by (simp add: mem_read_def)
  then show ?thesis using b(3,4) by blast
qed

lemma sdsgrowzero_correct:
  assumes inv: "sds_inv s" and room: "n + SDS_MAX_PREALLOC < 2 ^ 32"
  shows "\<exists>s'. sdsgrowzero garb s n = Some s' \<and> sds_inv s' \<and> sds_str s' = sds_str s @ replicate (n - s_len s) 0"
proof (cases "n \<le> s_len s")
  case True
  then show ?thesis using inv by (simp add: sdsgrowzero_def)
next
  case False
  let ?k = "n - s_len s"
  let ?s = "sdsMakeRoomFor garb s ?k"
  have "s_len s + ?k + SDS_MAX_PREALLOC < 2 ^ 32" using room False by simp
  note m = sdsMakeRoomFor_correct [OF inv this, of garb]
  have len: "length (s_buf ?s) = s_len s + s_free ?s + 1" and f32: "s_len s + s_free ?s < 2 ^ 32"
    using m(1,3) by (simp_all add: sds_inv_def)
  let ?b = "take (s_len s) (s_buf ?s) @ replicate (Suc ?k) 0 @ drop (s_len s + Suc ?k) (s_buf ?s)"
  have w: "mem_write (s_buf ?s) (s_len s) (replicate (?k + 1) 0) = Some ?b"
    using len m(4) by (simp add: mem_write_def del: replicate_Suc)
  have lb: "length ?b = s_len s + s_free ?s + 1" using len m(4) False by simp
  have n: "n \<le> s_len s + s_free ?s" using m(4) False by simp
  have "?b ! n = 0" using len False by (simp add: nth_append del: replicate_Suc)
  moreover have "take n ?b = sds_str s @ replicate ?k 0"
  proof -
    have "take (s_len s) (s_buf ?s) = sds_str s" using m(2,3) by (simp add: sds_str_def)
    moreover have "length (sds_str s) = s_len s" by (rule length_sds_str [OF inv])
    ultimately show ?thesis using False by (simp add: min_def del: replicate_Suc)
  qed
  moreover have "sdsgrowzero garb s n = Some \<lparr>s_len = n, s_free = s_len s + s_free ?s - n, s_buf = ?b\<rparr>"
    using False w f32 m(3) n u32_sub64 [OF n f32] by (simp add: sdsgrowzero_def Let_def del: replicate_Suc)
  ultimately show ?thesis
    using sds_make [of ?b n "s_len s + s_free ?s - n"] lb n f32 by (simp del: replicate_Suc)
qed

lemma sdsclear_correct: "sds_inv s \<Longrightarrow> \<exists>s'. sdsclear s = Some s' \<and> sds_inv s' \<and> sds_str s' = []"
  by (auto simp: sdsclear_def mem_set_def sds_inv_def sds_str_def)

lemma sdsRemoveFreeSpace_correct:
  assumes "sds_inv s"
  shows "sds_inv (sdsRemoveFreeSpace garb s)" "sds_str (sdsRemoveFreeSpace garb s) = sds_str s"
    "s_free (sdsRemoveFreeSpace garb s) = 0"
  using assms by (simp_all add: sdsRemoveFreeSpace_def sds_inv_def sds_str_def mem_resize_def min_def)

lemma sdsIncrLen_correct:
  assumes inv: "sds_inv s" and incr: "- int (s_len s) \<le> incr" "incr \<le> int (s_free s)"
  shows "\<exists>s'. sdsIncrLen s incr = Some s' \<and> sds_inv s' \<and> sds_str s' = take (nat (int (s_len s) + incr)) (s_buf s)"
proof -
  let ?n = "nat (int (s_len s) + incr)"
  have len: "length (s_buf s) = s_len s + s_free s + 1" and f32: "s_len s + s_free s < 2 ^ 32"
    using inv by (simp_all add: sds_inv_def)
  have n: "(int (s_len s) + incr) mod 2 ^ 32 = int (s_len s) + incr"
    "(int (s_free s) - incr) mod 2 ^ 32 = int (s_free s) - incr"
    using incr f32 by (intro mod_pos_pos_trivial; simp)+
  have "?n < length (s_buf s)" using len incr by simp
  then have "sdsIncrLen s incr = Some \<lparr>s_len = ?n, s_free = nat (int (s_free s) - incr), s_buf = (s_buf s)[?n := 0]\<rparr>"
    using incr by (simp add: sdsIncrLen_def n [simplified] mem_set_def Let_def)
  moreover have "?n + nat (int (s_free s) - incr) = s_len s + s_free s" using incr by simp
  ultimately show ?thesis
    using sds_make [of "(s_buf s)[?n := 0]" ?n "nat (int (s_free s) - incr)"] len f32 \<open>?n < length (s_buf s)\<close> by simp
qed
end
