(* ===== verification/Sds_Ops.thy ===== *)
theory Sds_Ops
  imports Sds
begin

text \<open>
  The operations of \<open>sds.c\<close> on the contents of strings: trimming, ranges, case, comparison,
  splitting and joining, integers to strings and the formatter \<open>sdscatfmt\<close>.
\<close>

section \<open>Definitions\<close>

text \<open>\<open>strchr\<close> also finds the terminating NUL of the set.\<close>

definition strchr_found :: "byte list \<Rightarrow> byte \<Rightarrow> bool" where
  "strchr_found cset c \<longleftrightarrow> c \<in> set cset \<or> c = 0"

function trim_sp :: "byte list \<Rightarrow> byte list \<Rightarrow> nat \<Rightarrow> nat" where
  "trim_sp cset str sp = (if sp < length str \<and> strchr_found cset (str ! sp) then trim_sp cset str (sp + 1) else sp)"
  by auto
termination by (relation "measure (\<lambda>(_, str, sp). length str - sp)") auto

declare trim_sp.simps [simp del]

fun trim_ep :: "byte list \<Rightarrow> byte list \<Rightarrow> nat \<Rightarrow> nat" where
  "trim_ep cset str 0 = 0"
| "trim_ep cset str (Suc ep) = (if strchr_found cset (str ! Suc ep) then trim_ep cset str ep else Suc ep)"

definition sdstrim :: "sdshdr \<Rightarrow> byte list \<Rightarrow> sdshdr option" where
  "sdstrim s cset = do {
     let str = take (sdslen s) (s_buf s);
     let sp = trim_sp cset str 0;
     let ep = (if sdslen s = 0 then - 1 else int (trim_ep cset str (sdslen s - 1)));
     let len = (if int sp > ep then 0 else nat (ep - int sp) + 1);
     buf \<leftarrow> (if sp \<noteq> 0 then memmove (s_buf s) 0 sp len else Some (s_buf s));
     buf \<leftarrow> mem_set buf len 0;
     Some \<lparr>s_len = u32 len, s_free = u32 (s_free s + (s_len s + (2 ^ 64 - len))), s_buf = buf\<rparr> }"

text \<open>
  The bounds are 32-bit integers; \<open>None\<close> also stands for the signed overflow of \<open>(end - start) + 1\<close>.
\<close>

definition range_len :: "int \<Rightarrow> int \<Rightarrow> nat option" where
  "range_len a b = (if a > b then Some 0 else if b - a + 1 < 2 ^ 31 then Some (nat (b - a + 1)) else None)"

definition sdsrange :: "sdshdr \<Rightarrow> int \<Rightarrow> int \<Rightarrow> sdshdr option" where
  "sdsrange s a b =
     (let len = sdslen s in
      if len = 0 then Some s
      else do {
        let a = (if a < 0 then (let a = s32 (int len + a) in if a < 0 then 0 else a) else a);
        let b = (if b < 0 then (let b = s32 (int len + b) in if b < 0 then 0 else b) else b);
        newlen \<leftarrow> range_len a b;
        (a, newlen) \<leftarrow>
          (if newlen \<noteq> 0 then
             (if a \<ge> s32 (int len) then Some (a, 0)
              else if b \<ge> s32 (int len) then do { n \<leftarrow> range_len a (s32 (int len - 1)); Some (a, n) }
              else Some (a, newlen))
           else Some (0, newlen));
        buf \<leftarrow> (if a \<noteq> 0 \<and> newlen \<noteq> 0 then memmove (s_buf s) 0 (nat a) newlen else Some (s_buf s));
        buf \<leftarrow> mem_set buf newlen 0;
        Some \<lparr>s_len = u32 newlen, s_free = u32 (s_free s + (s_len s + (2 ^ 64 - newlen))), s_buf = buf\<rparr> })"

definition toupper_byte :: "byte \<Rightarrow> byte" where
  "toupper_byte c = (if ch CHR ''a'' \<le> c \<and> c \<le> ch CHR ''z'' then c - 32 else c)"

text \<open>The loops of \<open>sdstolower\<close>, \<open>sdstoupper\<close> and \<open>sdsmapchars\<close> over the bytes of the string.\<close>

fun map_loop :: "(byte \<Rightarrow> byte) \<Rightarrow> byte list \<Rightarrow> nat \<Rightarrow> nat \<Rightarrow> byte list option" where
  "map_loop f buf j 0 = Some buf"
| "map_loop f buf j (Suc n) = do {
     c \<leftarrow> mem_get buf j;
     buf \<leftarrow> mem_set buf j (f c);
     map_loop f buf (Suc j) n }"

definition sdstolower :: "sdshdr \<Rightarrow> sdshdr option" where
  "sdstolower s = map_option (\<lambda>b. s\<lparr>s_buf := b\<rparr>) (map_loop tolower_byte (s_buf s) 0 (nat (s32 (int (sdslen s)))))"

definition sdstoupper :: "sdshdr \<Rightarrow> sdshdr option" where
  "sdstoupper s = map_option (\<lambda>b. s\<lparr>s_buf := b\<rparr>) (map_loop toupper_byte (s_buf s) 0 (nat (s32 (int (sdslen s)))))"

fun map_char :: "byte list \<Rightarrow> byte list \<Rightarrow> byte \<Rightarrow> byte" where
  "map_char (x # xs) (y # ys) c = (if c = x then y else map_char xs ys c)"
| "map_char _ _ c = c"

text \<open>\<open>from\<close> and \<open>to\<close> have \<open>setlen\<close> bytes each.\<close>

definition sdsmapchars :: "sdshdr \<Rightarrow> byte list \<Rightarrow> byte list \<Rightarrow> sdshdr option" where
  "sdsmapchars s frm to = map_option (\<lambda>b. s\<lparr>s_buf := b\<rparr>) (map_loop (map_char frm to) (s_buf s) 0 (sdslen s))"

text \<open>\<open>memcmp\<close>: the sign of the difference of the first bytes that differ.\<close>

fun memcmp :: "byte list \<Rightarrow> byte list \<Rightarrow> int" where
  "memcmp (x # xs) (y # ys) = (if x = y then memcmp xs ys else uint x - uint y)"
| "memcmp _ _ = 0"

definition sdscmp :: "sdshdr \<Rightarrow> sdshdr \<Rightarrow> int" where
  "sdscmp s1 s2 =
     (let l1 = sdslen s1; l2 = sdslen s2; minlen = (if l1 < l2 then l1 else l2);
          cmp = memcmp (take minlen (s_buf s1)) (take minlen (s_buf s2)) in
      if cmp = 0 then s32 (int l1 - int l2) else cmp)"

text \<open>
  The loop of \<open>sdssplitlen\<close>: the position, the start of the token, the slots allocated for the
  array and the tokens stored. A store outside the array is \<open>None\<close>.
\<close>

function split_loop :: "(nat \<Rightarrow> byte) \<Rightarrow> byte list \<Rightarrow> byte list \<Rightarrow> nat \<Rightarrow> nat \<Rightarrow> nat \<Rightarrow> sdshdr list \<Rightarrow>
    (nat \<times> nat \<times> sdshdr list) option" where
  "split_loop garb s sep j start slots tokens =
     (if 0 < length sep \<and> int j < int (length s) - (int (length sep) - 1) then
        (let slots = (if slots < length tokens + 2 then slots * 2 else slots) in
         if (length sep = 1 \<and> s ! j = sep ! 0) \<or> memcmp (take (length sep) (drop j s)) sep = 0 then do {
           t \<leftarrow> sdsnewlen garb (Some (drop start s)) (j - start);
           if length tokens < slots then
             split_loop garb s sep (j + length sep) (j + length sep) slots (tokens @ [t])
           else None }
         else split_loop garb s sep (j + 1) start slots tokens)
      else Some (start, slots, tokens))"
  by auto
termination
proof (relation "measure (\<lambda>(_, s, sep, j, _). length s - j)", goal_cases)
  case (2 garb s sep j start slots tokens x t)
  then have "length s - (j + length sep) < length s - j" by linarith
  then show ?case by simp
next
  case (3 garb s sep j start slots tokens x)
  then have "length s - (j + 1) < length s - j" by linarith
  then show ?case by simp
qed simp

declare split_loop.simps [simp del]

text \<open>
  \<open>Some None\<close> is the NULL result for a separator without bytes; \<open>s\<close> is the string of \<open>len\<close> bytes and
  \<open>sep\<close> the one of \<open>seplen\<close> bytes.
\<close>

definition sdssplitlen :: "(nat \<Rightarrow> byte) \<Rightarrow> byte list \<Rightarrow> byte list \<Rightarrow> sdshdr list option option" where
  "sdssplitlen garb s sep =
     (if length sep < 1 then Some None
      else if length s = 0 then Some (Some [])
      else do {
        (start, slots, tokens) \<leftarrow> split_loop garb s sep 0 0 5 [];
        t \<leftarrow> sdsnewlen garb (Some (drop start s)) (length s - start);
        if length tokens < slots then Some (Some (tokens @ [t])) else None })"

text \<open>The array elements are C strings, the bytes up to a NUL.\<close>

fun join_loop :: "(nat \<Rightarrow> byte) \<Rightarrow> sdshdr \<Rightarrow> byte list list \<Rightarrow> byte list \<Rightarrow> sdshdr option" where
  "join_loop garb join [] sep = Some join"
| "join_loop garb join (a # argv) sep = do {
     join \<leftarrow> sdscat garb join a;
     join \<leftarrow> (if argv \<noteq> [] then sdscat garb join sep else Some join);
     join_loop garb join argv sep }"

definition sdsjoin :: "(nat \<Rightarrow> byte) \<Rightarrow> byte list list \<Rightarrow> byte list \<Rightarrow> sdshdr option" where
  "sdsjoin garb argv sep = do { join \<leftarrow> sdsempty garb; join_loop garb join argv sep }"

section \<open>Trimming\<close>

lemma trim_sp_correct: "sp \<le> length str \<Longrightarrow> trim_sp cset str sp = sp + length (takeWhile (strchr_found cset) (drop sp str))"
proof (induction "length str - sp" arbitrary: sp)
  case 0
  then show ?case by (subst trim_sp.simps) simp
next
  case (Suc k)
  then have sp: "sp < length str" by simp
  have d: "drop sp str = str ! sp # drop (Suc sp) str" using sp by (simp add: Cons_nth_drop_Suc)
  show ?case
  proof (cases "strchr_found cset (str ! sp)")
    case True
    then have "trim_sp cset str sp = trim_sp cset str (Suc sp)" using sp by (subst trim_sp.simps) simp
    then show ?thesis using Suc.hyps(1) [of "Suc sp"] Suc.hyps(2) sp True d by simp
  next
    case False
    then show ?thesis using d by (subst trim_sp.simps) simp
  qed
qed

lemma trim_ep_correct:
  assumes "n < length str"
  shows "trim_ep cset str n = n - length (takeWhile (strchr_found cset) (rev (take (Suc n) str)))"
  using assms
proof (induction n)
  case (Suc n)
  have "rev (take (Suc (Suc n)) str) = str ! Suc n # rev (take (Suc n) str)"
    using Suc.prems by (simp add: take_Suc_conv_app_nth)
  then show ?case using Suc by simp
qed simp

definition strip :: "byte list \<Rightarrow> byte list \<Rightarrow> byte list" where
  "strip cset str = rev (dropWhile (strchr_found cset) (rev (dropWhile (strchr_found cset) str)))"

lemma strip_segment:
  assumes "\<exists>c \<in> set str. \<not> P c"
  shows "rev (dropWhile P (rev (dropWhile P str))) =
    take (length str - length (takeWhile P (rev str)) - length (takeWhile P str)) (drop (length (takeWhile P str)) str)"
    "length (takeWhile P str) + length (takeWhile P (rev str)) < length str"
proof -
  let ?a = "takeWhile P str" and ?d = "dropWhile P str"
  have d: "\<exists>c \<in> set ?d. \<not> P c" using assms by (metis dropWhile_eq_Nil_conv hd_dropWhile hd_in_set)
  have str: "str = ?a @ ?d" by simp
  have "takeWhile P (rev str) = takeWhile P (rev ?d @ rev ?a)" by (metis rev_append str)
  also have "\<dots> = takeWhile P (rev ?d)"
  proof -
    obtain c where "c \<in> set (rev ?d)" "\<not> P c" using d by auto
    then show ?thesis by (rule takeWhile_append1)
  qed
  finally have tw: "takeWhile P (rev str) = takeWhile P (rev ?d)" .
  have "rev (dropWhile P (rev ?d)) = take (length ?d - length (takeWhile P (rev ?d))) ?d"
    by (metis dropWhile_eq_drop length_rev rev_rev_ident take_rev rev_drop)
  moreover have "length ?d = length str - length ?a" by (metis length_append add_diff_cancel_left' str)
  moreover have "drop (length ?a) str = ?d" by (metis dropWhile_eq_drop)
  ultimately show "rev (dropWhile P (rev ?d)) =
      take (length str - length (takeWhile P (rev str)) - length ?a) (drop (length ?a) str)"
    using tw by (simp add: add.commute)
  have "length (takeWhile P (rev ?d)) < length (rev ?d)"
  proof (rule ccontr)
    assume "\<not> ?thesis"
    then have "takeWhile P (rev ?d) = rev ?d" by (metis le_neq_implies_less length_takeWhile_le takeWhile_eq_take take_all)
    then show False using d by (metis set_rev set_takeWhileD)
  qed
  moreover have "length ?a + length ?d = length str" by (metis length_append str)
  ultimately show "length ?a + length (takeWhile P (rev str)) < length str" using tw by simp
qed

lemma u32_give_back:
  assumes "n \<le> l" "f + l < 2 ^ 32"
  shows "u32 (f + (l + (2 ^ 64 - n))) = f + l - n"
  using u32_sub64 [of n "f + l"] assms by (simp add: add.assoc)

text \<open>Moving a segment of the string to the front: the tail of \<open>sdstrim\<close> and \<open>sdsrange\<close>.\<close>

lemma sds_shift:
  assumes inv: "sds_inv s" and seg: "a + n \<le> s_len s"
  shows "\<exists>b b'. (if a \<noteq> 0 \<and> (c \<or> n \<noteq> 0) then memmove (s_buf s) 0 a n else Some (s_buf s)) = Some b \<and>
    mem_set b n 0 = Some b' \<and>
    sds_inv \<lparr>s_len = u32 n, s_free = u32 (s_free s + (s_len s + (2 ^ 64 - n))), s_buf = b'\<rparr> \<and>
    sds_str \<lparr>s_len = u32 n, s_free = u32 (s_free s + (s_len s + (2 ^ 64 - n))), s_buf = b'\<rparr> = take n (drop a (sds_str s))"
proof -
  have len: "length (s_buf s) = s_len s + s_free s + 1" and f32: "s_len s + s_free s < 2 ^ 32"
    using inv by (simp_all add: sds_inv_def)
  let ?b = "take n (drop a (s_buf s)) @ drop n (s_buf s)"
  obtain b where b: "(if a \<noteq> 0 \<and> (c \<or> n \<noteq> 0) then memmove (s_buf s) 0 a n else Some (s_buf s)) = Some b" "b = ?b"
  proof (cases "a \<noteq> 0 \<and> (c \<or> n \<noteq> 0)")
    case True
    then show ?thesis using that [of ?b] seg len memmove_Some [of a n "s_buf s" 0] by simp
  next
    case False
    then have "?b = s_buf s" by auto
    then show ?thesis using that [of "s_buf s"] False by auto
  qed
  have lb: "length ?b = s_len s + s_free s + 1" using seg len by simp
  have n: "u32 n = n" "u32 (s_free s + (s_len s + (2 ^ 64 - n))) = s_free s + s_len s - n"
    using seg f32 u32_give_back [of n "s_len s" "s_free s"] by simp_all
  have "take n (?b[n := 0]) = take n (drop a (sds_str s))"
    using seg len by (simp add: sds_str_def drop_take min_def)
  moreover have "sds_inv \<lparr>s_len = n, s_free = s_free s + s_len s - n, s_buf = ?b[n := 0]\<rparr>"
    using seg lb f32 by (simp add: sds_inv_def)
  moreover have "mem_set b n 0 = Some (?b[n := 0])" using lb seg b(2) by (simp add: mem_set_def)
  ultimately show ?thesis using b(1) unfolding n by (simp add: sds_str_def)
qed

lemma sdstrim_correct:
  assumes inv: "sds_inv s"
  shows "\<exists>s'. sdstrim s cset = Some s' \<and> sds_inv s' \<and> sds_str s' = strip cset (sds_str s)"
proof -
  let ?P = "strchr_found cset" and ?str = "sds_str s"
  have l: "length ?str = s_len s" by (rule length_sds_str [OF inv])
  have str: "take (sdslen s) (s_buf s) = ?str" by (simp add: sds_str_def sdslen_def)
  have sp: "trim_sp cset ?str 0 = length (takeWhile ?P ?str)" using trim_sp_correct [of 0 ?str cset] by simp
  let ?ep = "if sdslen s = 0 then - 1 else int (trim_ep cset ?str (sdslen s - 1))"
  let ?n = "if int (trim_sp cset ?str 0) > ?ep then 0 else nat (?ep - int (trim_sp cset ?str 0)) + 1"
  have "trim_sp cset ?str 0 + ?n \<le> s_len s \<and> take ?n (drop (trim_sp cset ?str 0) ?str) = strip cset ?str"
  proof (cases "\<exists>c \<in> set ?str. \<not> ?P c")
    case True
    note seg = strip_segment [OF True]
    have ne: "s_len s \<noteq> 0" using True l by (metis empty_iff list.set(1) length_0_conv)
    have ep: "trim_ep cset ?str (s_len s - 1) = s_len s - 1 - length (takeWhile ?P (rev ?str))"
      using trim_ep_correct [of "s_len s - 1" ?str cset] ne l by simp
    have "?n = length ?str - length (takeWhile ?P (rev ?str)) - length (takeWhile ?P ?str)"
      using seg(2) l ne unfolding sdslen_def sp ep by (simp add: nat_diff_distrib)
    then show ?thesis unfolding sp strip_def seg(1) using seg(2) l by simp
  next
    case False
    then have all: "takeWhile ?P ?str = ?str" "dropWhile ?P ?str = []" by (auto simp: takeWhile_eq_all_conv)
    have sp': "trim_sp cset ?str 0 = s_len s" using sp all(1) l by simp
    have "?n = 0"
    proof (cases "s_len s")
      case (Suc m)
      then have "trim_ep cset ?str m \<le> m" using trim_ep_correct [of m ?str cset] l by simp
      then show ?thesis using Suc sp' by (simp add: sdslen_def)
    qed (simp add: sdslen_def sp')
    then show ?thesis unfolding strip_def all(2) sp' by simp
  qed
  then have seg: "trim_sp cset ?str 0 + ?n \<le> s_len s" "take ?n (drop (trim_sp cset ?str 0) ?str) = strip cset ?str" by blast+
  from sds_shift [OF inv seg(1), of True] show ?thesis
    unfolding seg(2) sdstrim_def str Let_def by auto
qed

text \<open>The substring \<open>sdsrange\<close> is meant to keep, with the indexes counted from the end when negative.\<close>

definition range_index :: "nat \<Rightarrow> int \<Rightarrow> nat" where
  "range_index len i = (if i < 0 then nat (int len + i) else nat i)"

definition range_of :: "byte list \<Rightarrow> int \<Rightarrow> int \<Rightarrow> byte list" where
  "range_of str a b = (let a' = range_index (length str) a; b' = range_index (length str) b in
     take (Suc b' - a') (drop a' str))"

lemma range_normal:
  assumes "0 < len" "len < 2 ^ 31" "- (2 ^ 31) \<le> i" "i < 2 ^ 31"
  shows "(if i < 0 then (let a = s32 (int len + i) in if a < 0 then 0 else a) else i) = int (range_index len i)"
  using assms by (auto simp: range_index_def Let_def)

lemma sdsrange_correct:
  assumes inv: "sds_inv s" and len: "s_len s < 2 ^ 31"
    and a: "- (2 ^ 31) \<le> a" "a < 2 ^ 31" and b: "- (2 ^ 31) \<le> b" "b < 2 ^ 31 - 1"
  shows "\<exists>s'. sdsrange s a b = Some s' \<and> sds_inv s' \<and> sds_str s' = range_of (sds_str s) a b"
proof (cases "s_len s = 0")
  case True
  then show ?thesis using inv length_sds_str [OF inv] by (simp add: sdsrange_def sdslen_def range_of_def)
next
  case False
  let ?l = "s_len s"
  let ?a = "range_index ?l a" and ?b = "range_index ?l b"
  have na: "(if a < 0 then (let a = s32 (int ?l + a) in if a < 0 then 0 else a) else a) = int ?a"
    using range_normal [of ?l a] False len a by blast
  have nb: "(if b < 0 then (let b = s32 (int ?l + b) in if b < 0 then 0 else b) else b) = int ?b"
    using range_normal [of ?l b] False len b by auto
  have b31: "?b < 2 ^ 31 - 1" using b len by (auto simp: range_index_def)
  have l32: "s32 (int ?l) = int ?l" "s32 (int ?l - 1) = int ?l - 1" using len False by simp_all
  let ?n = "if ?a \<ge> ?l then 0 else min (Suc ?b) ?l - ?a"
  let ?a' = "if ?b < ?a then 0 else ?a"
  have rl: "range_len (int ?a) (int ?b) = Some (Suc ?b - ?a)"
    "?a < ?l \<Longrightarrow> range_len (int ?a) (int ?l - 1) = Some (?l - ?a)"
    using b31 len by (auto simp: range_len_def nat_diff_distrib)
  have sel: "(if Suc ?b - ?a \<noteq> 0 then
             (if int ?a \<ge> int ?l then Some (int ?a, 0)
              else if int ?b \<ge> int ?l then do { n \<leftarrow> range_len (int ?a) (int ?l - 1); Some (int ?a, n) }
              else Some (int ?a, Suc ?b - ?a))
           else Some (0, Suc ?b - ?a)) = Some (int ?a', ?n)"
    using rl(2) by (auto simp: min_def)
  obtain a1 n where an: "a1 = ?a'" "n = ?n" by blast
  have str: "length (sds_str s) = ?l" by (rule length_sds_str [OF inv])
  have res: "take n (drop a1 (sds_str s)) = range_of (sds_str s) a b"
    using str by (auto simp: range_of_def Let_def min_def an)
  have run: "sdsrange s a b = do {
      buf \<leftarrow> (if a1 \<noteq> 0 \<and> (False \<or> n \<noteq> 0) then memmove (s_buf s) 0 a1 n else Some (s_buf s));
      buf \<leftarrow> mem_set buf n 0;
      Some \<lparr>s_len = u32 n, s_free = u32 (s_free s + (s_len s + (2 ^ 64 - n))), s_buf = buf\<rparr> }"
    using False unfolding sdsrange_def sdslen_def Let_def na [unfolded Let_def] nb [unfolded Let_def] rl(1) l32
      bind.bind_lunit sel an [symmetric] by simp
  show ?thesis
  proof (cases "n = 0")
    case True
    then have "sdsrange s a b = do { buf \<leftarrow> mem_set (s_buf s) 0 0;
        Some \<lparr>s_len = u32 0, s_free = u32 (s_free s + (s_len s + (2 ^ 64 - 0))), s_buf = buf\<rparr> }"
      using run by simp
    moreover have "\<exists>b'. mem_set (s_buf s) 0 0 = Some b' \<and>
        sds_inv \<lparr>s_len = u32 0, s_free = u32 (s_free s + (s_len s + (2 ^ 64 - 0))), s_buf = b'\<rparr> \<and>
        sds_str \<lparr>s_len = u32 0, s_free = u32 (s_free s + (s_len s + (2 ^ 64 - 0))), s_buf = b'\<rparr> = []"
      using sds_shift [OF inv, of 0 0 False] by auto
    moreover have "range_of (sds_str s) a b = []" using res True by (metis take_0)
    ultimately show ?thesis by auto
  next
    case nz: False
    then have seg: "a1 + n \<le> ?l" by (auto simp: an split: if_splits)
    from sds_shift [OF inv seg, of False] show ?thesis unfolding res run by auto
  qed
qed

section \<open>Case, substitution, comparison\<close>

lemma map_loop_correct:
  "length xs = j \<Longrightarrow> map_loop f (xs @ ys @ zs) j (length ys) = Some (xs @ map f ys @ zs)"
proof (induction ys arbitrary: xs j)
  case (Cons y ys)
  have "map_loop f ((xs @ [f y]) @ ys @ zs) (Suc j) (length ys) = Some ((xs @ [f y]) @ map f ys @ zs)"
    by (rule Cons.IH) (use Cons.prems in simp)
  then show ?case using Cons.prems by (simp add: mem_get_def mem_set_def nth_append list_update_append)
qed simp

lemma map_loop_sds:
  assumes "sds_inv s"
  shows "\<exists>b. map_loop f (s_buf s) 0 (s_len s) = Some b \<and> sds_inv (s\<lparr>s_buf := b\<rparr>) \<and>
    sds_str (s\<lparr>s_buf := b\<rparr>) = map f (sds_str s)"
proof -
  obtain rest where r: "s_buf s = sds_str s @ 0 # rest" using sds_layout [OF assms] by blast
  have l: "length (sds_str s) = s_len s" by (rule length_sds_str [OF assms])
  have "map_loop f (s_buf s) 0 (s_len s) = Some (map f (sds_str s) @ 0 # rest)"
    using map_loop_correct [of "[]" 0 f "sds_str s" "0 # rest"] r l by simp
  moreover have "sds_inv (s\<lparr>s_buf := map f (sds_str s) @ 0 # rest\<rparr>)"
    "sds_str (s\<lparr>s_buf := map f (sds_str s) @ 0 # rest\<rparr>) = map f (sds_str s)"
    using assms l arg_cong [OF r, of length] by (simp_all add: sds_inv_def sds_str_def [of "s\<lparr>s_buf := _\<rparr>"] nth_append)
  ultimately show ?thesis by blast
qed

lemma sds_case_correct:
  assumes "sds_inv s" "s_len s < 2 ^ 31"
  shows "\<exists>s'. sdstolower s = Some s' \<and> sds_inv s' \<and> sds_str s' = map tolower_byte (sds_str s)"
    "\<exists>s'. sdstoupper s = Some s' \<and> sds_inv s' \<and> sds_str s' = map toupper_byte (sds_str s)"
  using map_loop_sds [OF assms(1), of tolower_byte] map_loop_sds [OF assms(1), of toupper_byte] assms(2)
  by (auto simp: sdstolower_def sdstoupper_def sdslen_def)

lemma sdsmapchars_correct:
  assumes "sds_inv s"
  shows "\<exists>s'. sdsmapchars s frm to = Some s' \<and> sds_inv s' \<and> sds_str s' = map (map_char frm to) (sds_str s)"
  using map_loop_sds [OF assms, of "map_char frm to"] by (auto simp: sdsmapchars_def sdslen_def)

text \<open>The order of byte strings: lexicographic on unsigned bytes, a proper prefix being smaller.\<close>

fun bytes_less :: "byte list \<Rightarrow> byte list \<Rightarrow> bool" where
  "bytes_less _ [] = False"
| "bytes_less [] (y # ys) = True"
| "bytes_less (x # xs) (y # ys) = (x < y \<or> x = y \<and> bytes_less xs ys)"

lemma bytes_less_irrefl: "\<not> bytes_less a a"
  by (induction a) auto

lemma memcmp_min:
  "(memcmp (take (min (length a) (length b)) a) (take (min (length a) (length b)) b) < 0 \<longrightarrow> bytes_less a b) \<and>
   (memcmp (take (min (length a) (length b)) a) (take (min (length a) (length b)) b) > 0 \<longrightarrow> bytes_less b a) \<and>
   (memcmp (take (min (length a) (length b)) a) (take (min (length a) (length b)) b) = 0 \<longrightarrow>
      (length a < length b \<longrightarrow> bytes_less a b) \<and> (length b < length a \<longrightarrow> bytes_less b a) \<and> (length a = length b \<longrightarrow> a = b))"
proof (induction a arbitrary: b)
  case Nil
  then show ?case by (cases b) auto
next
  case (Cons x xs)
  show ?case
  proof (cases b)
    case (Cons y ys)
    have "uint x < uint y \<longleftrightarrow> x < y" "uint y < uint x \<longleftrightarrow> y < x" by (simp_all add: word_less_def)
    then show ?thesis using Cons.IH [of ys] Cons by auto
  qed simp
qed

text \<open>Comparing the common prefix and then the lengths is the lexicographic order of bytes.\<close>

lemma compare_order:
  assumes c: "c = (let cmp = memcmp (take (min (length a) (length b)) a) (take (min (length a) (length b)) b) in
    if cmp = 0 then int (length a) - int (length b) else cmp)"
  shows "c < 0 \<longleftrightarrow> bytes_less a b" "c > 0 \<longleftrightarrow> bytes_less b a" "c = 0 \<longleftrightarrow> a = b"
proof -
  have "(c < 0 \<longrightarrow> bytes_less a b) \<and> (c > 0 \<longrightarrow> bytes_less b a) \<and> (c = 0 \<longrightarrow> a = b)"
    unfolding c using memcmp_min [of a b] by (auto simp: Let_def split: if_splits)
  moreover have "\<not> (bytes_less a b \<and> bytes_less b a)" for a b
    by (induction a b rule: bytes_less.induct) auto
  ultimately show "c < 0 \<longleftrightarrow> bytes_less a b" "c > 0 \<longleftrightarrow> bytes_less b a" "c = 0 \<longleftrightarrow> a = b"
    using bytes_less_irrefl by (metis linorder_neqE_linordered_idom)+
qed

lemma sdscmp_correct:
  assumes "sds_inv s1" "sds_inv s2" "s_len s1 < 2 ^ 31" "s_len s2 < 2 ^ 31"
  shows "sdscmp s1 s2 < 0 \<longleftrightarrow> bytes_less (sds_str s1) (sds_str s2)"
    "sdscmp s1 s2 > 0 \<longleftrightarrow> bytes_less (sds_str s2) (sds_str s1)"
    "sdscmp s1 s2 = 0 \<longleftrightarrow> sds_str s1 = sds_str s2"
proof -
  let ?a = "sds_str s1" and ?b = "sds_str s2"
  let ?m = "min (length ?a) (length ?b)"
  have l: "length ?a = s_len s1" "length ?b = s_len s2" using assms by (simp_all add: length_sds_str)
  have t: "take ?m (s_buf s1) = take ?m ?a" "take ?m (s_buf s2) = take ?m ?b"
    using l by (simp_all add: sds_str_def min_def)
  have m: "(if s_len s1 < s_len s2 then s_len s1 else s_len s2) = ?m" using l by (simp add: min_def)
  have "sdscmp s1 s2 = (let c = memcmp (take ?m ?a) (take ?m ?b) in if c = 0 then int (length ?a) - int (length ?b) else c)"
    unfolding sdscmp_def sdslen_def Let_def m t using assms(3,4) by (simp add: l)
  from compare_order [OF this] show "sdscmp s1 s2 < 0 \<longleftrightarrow> bytes_less ?a ?b" "sdscmp s1 s2 > 0 \<longleftrightarrow> bytes_less ?b ?a"
    "sdscmp s1 s2 = 0 \<longleftrightarrow> ?a = ?b" .
qed

section \<open>Splitting and joining\<close>

lemma memcmp_eq_0: "length a = length b \<Longrightarrow> memcmp a b = 0 \<longleftrightarrow> a = b"
  by (induction a b rule: memcmp.induct) (auto simp: word_uint_eq_iff)

text \<open>Leftmost, non-overlapping occurrences of the separator.\<close>

function split_ref :: "byte list \<Rightarrow> byte list \<Rightarrow> byte list \<Rightarrow> byte list list" where
  "split_ref sep acc s =
     (if s = [] then [acc]
      else if sep \<noteq> [] \<and> take (length sep) s = sep then acc # split_ref sep [] (drop (length sep) s)
      else split_ref sep (acc @ [hd s]) (tl s))"
  by auto
termination by (relation "measure (\<lambda>(sep, acc, s). length s)") auto

declare split_ref.simps [simp del]

definition join_ref :: "byte list \<Rightarrow> byte list list \<Rightarrow> byte list" where
  "join_ref sep ts = concat (case ts of [] \<Rightarrow> [] | t # ts \<Rightarrow> t # map (\<lambda>t. sep @ t) ts)"

lemma join_split_ref: "join_ref sep (split_ref sep acc s) = acc @ s"
proof (induction sep acc s rule: split_ref.induct)
  case (1 sep acc s)
  let ?r = "\<lambda>acc s. split_ref sep acc s"
  have ne: "?r acc s \<noteq> []" for acc s
    by (induction sep acc s rule: split_ref.induct) (subst split_ref.simps, simp)
  have j: "join_ref sep (t # ts) = t @ sep @ join_ref sep ts" if "ts \<noteq> []" for t ts
    using that by (cases ts) (simp_all add: join_ref_def)
  show ?case
  proof (cases "s = []")
    case True
    then show ?thesis by (subst split_ref.simps) (simp add: join_ref_def)
  next
    case False
    show ?thesis
    proof (cases "sep \<noteq> [] \<and> take (length sep) s = sep")
      case True
      then have "?r acc s = acc # ?r [] (drop (length sep) s)" using False by (subst split_ref.simps) simp
      moreover have "join_ref sep (?r [] (drop (length sep) s)) = drop (length sep) s" using 1(1) False True by simp
      moreover have "sep @ drop (length sep) s = s" using True by (metis append_take_drop_id)
      ultimately show ?thesis using j [OF ne] by simp
    next
      case neq: False
      then have "?r acc s = ?r (acc @ [hd s]) (tl s)" using False by (subst split_ref.simps) auto
      then show ?thesis using 1(2) False neq by simp
    qed
  qed
qed

text \<open>The slots of the array always leave room for the next token and the final one.\<close>

lemma split_loop_correct:
  assumes sep: "0 < length sep" and "start \<le> j" "j \<le> length s" "length s < 2 ^ 31" "1 \<le> slots" "length tokens < slots"
    "\<forall>t \<in> set tokens. sds_inv t"
  shows "\<exists>start' slots' ts. split_loop garb s sep j start slots tokens = Some (start', slots', tokens @ ts) \<and>
    start' \<le> length s \<and> length (tokens @ ts) < slots' \<and> (\<forall>t \<in> set ts. sds_inv t) \<and>
    split_ref sep (take (j - start) (drop start s)) (drop j s) = map sds_str ts @ [drop start' s]"
  using assms(2-)
proof (induction "length s - j" arbitrary: j start slots tokens rule: less_induct)
  case less
  let ?slots = "if slots < length tokens + 2 then slots * 2 else slots"
  let ?acc = "take (j - start) (drop start s)"
  have sl: "length tokens < ?slots" "length tokens + 1 < ?slots" "1 \<le> ?slots" using less.prems by auto
  show ?case
  proof (cases "int j < int (length s) - (int (length sep) - 1)")
    case False
    have tail: "split_ref sep acc r = [acc @ r]" if "length r < length sep" for acc r
      using that
    proof (induction r arbitrary: acc)
      case Nil
      then show ?case by (subst split_ref.simps) simp
    next
      case (Cons c r)
      then have "take (length sep) (c # r) \<noteq> sep" by auto
      then show ?case using Cons by (subst split_ref.simps) simp
    qed
    have "split_loop garb s sep j start slots tokens = Some (start, slots, tokens)"
      using False by (subst split_loop.simps) simp
    moreover have "split_ref sep ?acc (drop j s) = [?acc @ drop j s]"
    proof (rule tail)
      show "length (drop j s) < length sep" unfolding length_drop using False sep less.prems by linarith
    qed
    moreover have "?acc @ drop j s = drop start s"
      using less.prems by (metis append_take_drop_id drop_drop le_add_diff_inverse2)
    ultimately show ?thesis using less.prems
      by (intro exI [of _ start] exI [of _ slots] exI [of _ "[]"]) simp
  next
    case True
    have j: "j < length s" "j + length sep \<le> length s" using True sep by linarith+
    have m: "(length sep = 1 \<and> s ! j = sep ! 0) \<or> memcmp (take (length sep) (drop j s)) sep = 0 \<longleftrightarrow>
        take (length sep) (drop j s) = sep"
    proof -
      have "memcmp (take (length sep) (drop j s)) sep = 0 \<longleftrightarrow> take (length sep) (drop j s) = sep"
        using j by (intro memcmp_eq_0) simp
      moreover have "take (length sep) (drop j s) = sep" if "length sep = 1" "s ! j = sep ! 0"
        using that j by (cases sep) (auto simp: take_Suc_conv_app_nth)
      ultimately show ?thesis by blast
    qed
    have ne: "drop j s \<noteq> []" using j by simp
    show ?thesis
    proof (cases "take (length sep) (drop j s) = sep")
      case eq: True
      obtain t where t: "sdsnewlen garb (Some (drop start s)) (j - start) = Some t" "sds_inv t" "sds_str t = ?acc"
      proof -
        have "j - start \<le> length (drop start s)" "j - start < 2 ^ 32" using less.prems j by simp_all
        then show ?thesis using that sdsnewlen_correct by blast
      qed
      let ?k = "j + length sep"
      have step: "split_loop garb s sep j start slots tokens = split_loop garb s sep ?k ?k ?slots (tokens @ [t])"
        using True sep m eq t(1) sl(1) by (subst split_loop.simps) (simp add: Let_def)
      have "\<exists>start' slots' ts. split_loop garb s sep ?k ?k ?slots (tokens @ [t]) = Some (start', slots', (tokens @ [t]) @ ts) \<and>
        start' \<le> length s \<and> length ((tokens @ [t]) @ ts) < slots' \<and> (\<forall>t \<in> set ts. sds_inv t) \<and>
        split_ref sep (take (?k - ?k) (drop ?k s)) (drop ?k s) = map sds_str ts @ [drop start' s]"
      proof (rule less.hyps)
        show "length s - ?k < length s - j" using j sep by linarith
      qed (use j less.prems sl t(2) in simp_all)
      then obtain start' slots' ts where r: "split_loop garb s sep ?k ?k ?slots (tokens @ [t]) = Some (start', slots', (tokens @ [t]) @ ts)"
        "start' \<le> length s" "length ((tokens @ [t]) @ ts) < slots'" "\<forall>t \<in> set ts. sds_inv t"
        "split_ref sep [] (drop ?k s) = map sds_str ts @ [drop start' s]" by auto
      have "split_ref sep ?acc (drop j s) = ?acc # split_ref sep [] (drop ?k s)"
        using ne eq sep by (subst split_ref.simps) (simp add: add.commute)
      then have "split_ref sep ?acc (drop j s) = map sds_str (t # ts) @ [drop start' s]" using r(5) t(3) by simp
      then show ?thesis using r(1-4) t(2) step
        by (intro exI [of _ start'] exI [of _ slots'] exI [of _ "t # ts"]) simp
    next
      case neq: False
      have step: "split_loop garb s sep j start slots tokens = split_loop garb s sep (j + 1) start ?slots tokens"
        unfolding split_loop.simps [of garb s sep j] m using True sep neq by (simp add: Let_def)
      have "\<exists>start' slots' ts. split_loop garb s sep (j + 1) start ?slots tokens = Some (start', slots', tokens @ ts) \<and>
        start' \<le> length s \<and> length (tokens @ ts) < slots' \<and> (\<forall>t \<in> set ts. sds_inv t) \<and>
        split_ref sep (take (j + 1 - start) (drop start s)) (drop (j + 1) s) = map sds_str ts @ [drop start' s]"
        by (rule less.hyps) (use j less.prems sl in \<open>simp_all\<close>)
      moreover have "take (j + 1 - start) (drop start s) = ?acc @ [s ! j]"
        using less.prems j by (simp add: Suc_diff_le take_Suc_conv_app_nth)
      moreover have "split_ref sep ?acc (drop j s) = split_ref sep (?acc @ [s ! j]) (drop (j + 1) s)"
        using ne neq j by (subst split_ref.simps) (simp add: hd_drop_conv_nth tl_drop drop_Suc)
      ultimately show ?thesis using step by simp
    qed
  qed
qed

lemma sdssplitlen_correct:
  assumes "sep \<noteq> []" "s \<noteq> []" "length s < 2 ^ 31"
  shows "\<exists>ts. sdssplitlen garb s sep = Some (Some ts) \<and> (\<forall>t \<in> set ts. sds_inv t) \<and> map sds_str ts = split_ref sep [] s"
proof -
  have "\<exists>start' slots' ts. split_loop garb s sep 0 0 5 [] = Some (start', slots', [] @ ts) \<and>
    start' \<le> length s \<and> length ([] @ ts) < slots' \<and> (\<forall>t \<in> set ts. sds_inv t) \<and>
    split_ref sep (take (0 - 0) (drop 0 s)) (drop 0 s) = map sds_str ts @ [drop start' s]"
    by (rule split_loop_correct) (use assms in simp_all)
  then obtain start slots ts where r: "split_loop garb s sep 0 0 5 [] = Some (start, slots, ts)" "start \<le> length s"
    "length ts < slots" "\<forall>t \<in> set ts. sds_inv t" "split_ref sep [] s = map sds_str ts @ [drop start s]" by auto
  obtain t where t: "sdsnewlen garb (Some (drop start s)) (length s - start) = Some t" "sds_inv t" "sds_str t = drop start s"
  proof -
    have "length s - start < 2 ^ 32" using assms(3) by simp
    then show ?thesis using that sdsnewlen_correct [of "length s - start" "drop start s" garb] by auto
  qed
  have "sdssplitlen garb s sep = Some (Some (ts @ [t]))"
    using assms r(1,3) t(1) by (simp add: sdssplitlen_def)
  then show ?thesis using r(4,5) t(2,3) by simp
qed

lemma sdsempty_correct: "\<exists>s. sdsempty garb = Some s \<and> sds_inv s \<and> sds_str s = []"
  using sdsnewlen_correct [of 0 "[0]" garb] by (simp add: sdsempty_def)

definition cstr :: "byte list \<Rightarrow> byte list" where
  "cstr t = t @ [0]"

lemma sdscat_cstr:
  assumes "sds_inv s" "0 \<notin> set t" "length (sds_str s) + length t + SDS_MAX_PREALLOC < 2 ^ 32"
  shows "\<exists>s'. sdscat garb s (cstr t) = Some s' \<and> sds_inv s' \<and> sds_str s' = sds_str s @ t"
  using sdscat_correct [of s t garb "[]"] assms length_sds_str [OF assms(1)] by (simp add: cstr_def)

lemma join_ref_Cons: "join_ref sep (t # ts) = t @ (if ts = [] then [] else sep @ join_ref sep ts)"
  by (cases ts) (simp_all add: join_ref_def)

lemma join_loop_correct:
  assumes "sds_inv s" "\<forall>t \<in> set ts. 0 \<notin> set t" "0 \<notin> set sep"
    "length (sds_str s @ join_ref sep ts) + SDS_MAX_PREALLOC < 2 ^ 32"
  shows "\<exists>s'. join_loop garb s (map cstr ts) (cstr sep) = Some s' \<and> sds_inv s' \<and> sds_str s' = sds_str s @ join_ref sep ts"
  using assms
proof (induction ts arbitrary: s)
  case (Cons t ts)
  obtain s1 where s1: "sdscat garb s (cstr t) = Some s1" "sds_inv s1" "sds_str s1 = sds_str s @ t"
    using sdscat_cstr [of s t garb] Cons.prems by (auto simp: join_ref_Cons)
  show ?case
  proof (cases "ts = []")
    case True
    then show ?thesis using s1 by (simp add: join_ref_Cons)
  next
    case False
    obtain s2 where s2: "sdscat garb s1 (cstr sep) = Some s2" "sds_inv s2" "sds_str s2 = sds_str s @ t @ sep"
      using sdscat_cstr [of s1 sep garb] Cons.prems s1 False by (auto simp: join_ref_Cons)
    obtain s3 where "join_loop garb s2 (map cstr ts) (cstr sep) = Some s3" "sds_inv s3" "sds_str s3 = sds_str s2 @ join_ref sep ts"
      using Cons.IH [OF s2(2)] Cons.prems s2(3) False by (auto simp: join_ref_Cons)
    then show ?thesis using s1(1) s2 False by (simp add: join_ref_Cons)
  qed
qed (simp add: join_ref_def)

lemma sdsjoin_correct:
  assumes "\<forall>t \<in> set ts. 0 \<notin> set t" "0 \<notin> set sep" "length (join_ref sep ts) + SDS_MAX_PREALLOC < 2 ^ 32"
  shows "\<exists>s. sdsjoin garb (map cstr ts) (cstr sep) = Some s \<and> sds_inv s \<and> sds_str s = join_ref sep ts"
proof -
  obtain s where s: "sdsempty garb = Some s" "sds_inv s" "sds_str s = []" using sdsempty_correct by blast
  then show ?thesis using join_loop_correct [of s ts sep garb] assms by (simp add: sdsjoin_def)
qed

section \<open>Integers to strings\<close>
text \<open>The digits from the least significant one, at \<open>p\<close> and after.\<close>

fun ull_digits :: "nat \<Rightarrow> nat \<Rightarrow> byte list \<Rightarrow> (nat \<times> byte list) option" where
  "ull_digits v p s = do {
     s \<leftarrow> mem_set s p (ch CHR ''0'' + of_nat (v mod 10));
     if v div 10 \<noteq> 0 then ull_digits (v div 10) (p + 1) s else Some (p + 1, s) }"

declare ull_digits.simps [simp del]

text \<open>The loop that reverses the bytes from \<open>i\<close> to \<open>p\<close>.\<close>

function sds_reverse :: "nat \<Rightarrow> nat \<Rightarrow> byte list \<Rightarrow> byte list option" where
  "sds_reverse i p s =
     (if i < p then do {
        aux \<leftarrow> mem_get s i;
        c \<leftarrow> mem_get s p;
        s \<leftarrow> mem_set s i c;
        s \<leftarrow> mem_set s p aux;
        sds_reverse (i + 1) (p - 1) s }
      else Some s)"
  by auto
termination by (relation "measure (\<lambda>(i, p, s). p - i)") auto

declare sds_reverse.simps [simp del]

definition sdsull2str :: "byte list \<Rightarrow> nat \<Rightarrow> (nat \<times> byte list) option" where
  "sdsull2str s v = do {
     (l, s) \<leftarrow> ull_digits v 0 s;
     s \<leftarrow> mem_set s l 0;
     s \<leftarrow> sds_reverse 0 (l - 1) s;
     Some (l, s) }"

text \<open>The negation of \<open>LLONG_MIN\<close> overflows a signed integer.\<close>

definition sdsll2str :: "byte list \<Rightarrow> int \<Rightarrow> (nat \<times> byte list) option" where
  "sdsll2str s val =
     (if val = LLONG_MIN then None
      else do {
        let v = nat (if val < 0 then - val else val);
        (p, s) \<leftarrow> ull_digits v 0 s;
        (p, s) \<leftarrow> (if val < 0 then do { s \<leftarrow> mem_set s p (ch CHR ''-''); Some (p + 1, s) } else Some (p, s));
        let l = p;
        s \<leftarrow> mem_set s l 0;
        s \<leftarrow> sds_reverse 0 (p - 1) s;
        Some (l, s) })"

definition SDS_LLSTR_SIZE :: nat where "SDS_LLSTR_SIZE = 21"

definition sdsfromlonglong :: "(nat \<Rightarrow> byte) \<Rightarrow> int \<Rightarrow> sdshdr option" where
  "sdsfromlonglong garb val = do {
     (len, buf) \<leftarrow> sdsll2str (map garb [0..<SDS_LLSTR_SIZE]) val;
     sdsnewlen garb (Some buf) len }"

lemma ull_digits_correct:
  assumes "p + length (dec v) \<le> length s"
  shows "ull_digits v p s = Some (p + length (dec v), take p s @ rev (dec v) @ drop (p + length (dec v)) s)"
  using assms
proof (induction v arbitrary: p s rule: less_induct)
  case (less v)
  let ?d = "48 + of_nat (v mod 10) :: byte"
  have p: "p < length s" using less.prems length_dec_pos [of v] by linarith
  have upd: "s[p := ?d] = take p s @ ?d # drop (Suc p) s" using p by (rule upd_conv_take_nth_drop)
  show ?case
  proof (cases "v < 10")
    case True
    then have "dec v = [?d]" by (subst dec.simps) simp
    then show ?thesis using True p upd by (subst ull_digits.simps) (simp add: mem_set_def)
  next
    case False
    then have d: "dec v = dec (v div 10) @ [?d]" by (subst dec.simps) simp
    have "v div 10 \<noteq> 0" using False by simp
    then have "ull_digits v p s = ull_digits (v div 10) (p + 1) (s[p := ?d])"
      using p by (subst ull_digits.simps) (simp add: mem_set_def)
    also have "\<dots> = Some (p + 1 + length (dec (v div 10)), take (p + 1) (s[p := ?d]) @ rev (dec (v div 10)) @
        drop (p + 1 + length (dec (v div 10))) (s[p := ?d]))"
      by (rule less.IH) (use False less.prems d in simp_all)
    also have "take (p + 1) (s[p := ?d]) = take p s @ [?d]" using p by (simp add: upd)
    also have "drop (p + 1 + length (dec (v div 10))) (s[p := ?d]) = drop (p + length (dec v)) s" using d by simp
    finally show ?thesis using d by simp
  qed
qed

lemma sds_reverse_correct:
  assumes "B \<noteq> []"
  shows "sds_reverse (length A) (length A + length B - 1) (A @ B @ C) = Some (A @ rev B @ C)"
  using assms
proof (induction "length B" arbitrary: A B C rule: less_induct)
  case less
  show ?case
  proof (cases "length B = 1")
    case True
    then obtain x where "B = [x]" by (cases B) auto
    then show ?thesis by (subst sds_reverse.simps) simp
  next
    case False
    then obtain x M y where B: "B = x # M @ [y]"
      using less.prems by (metis One_nat_def append_butlast_last_id append_self_conv2 length_Cons list.size(3) neq_Nil_conv)
    let ?A = "A @ [y]" and ?C = "x # C"
    have sw: "sds_reverse (length A) (length A + length B - 1) (A @ B @ C) =
        sds_reverse (Suc (length A)) (length A + length M) (?A @ M @ ?C)"
    proof -
      have 1: "(A @ x # M @ y # C) ! length A = x" "(A @ x # M @ y # C) ! Suc (length A + length M) = y"
        by (simp_all add: nth_append)
      have 2: "(A @ x # M @ y # C)[length A := y, Suc (length A + length M) := x] = A @ y # M @ x # C"
        by (simp add: list_update_append)
      show ?thesis using 1 2 unfolding B by (subst sds_reverse.simps) (simp add: mem_get_def mem_set_def)
    qed
    show ?thesis
    proof (cases "M = []")
      case True
      then show ?thesis using sw B by (simp add: sds_reverse.simps [of "Suc (length A)" "length A"])
    next
      case M: False
      have "sds_reverse (length ?A) (length ?A + length M - 1) (?A @ M @ ?C) = Some (?A @ rev M @ ?C)"
        by (rule less.hyps) (use B M in simp_all)
      then show ?thesis using sw B M by simp
    qed
  qed
qed

lemma sdsull2str_correct:
  assumes "length (dec v) < length s"
  shows "sdsull2str s v = Some (length (dec v), dec v @ 0 # drop (Suc (length (dec v))) s)"
proof -
  let ?n = "length (dec v)"
  have "ull_digits v 0 s = Some (?n, rev (dec v) @ drop ?n s)" using ull_digits_correct [of 0 v s] assms by simp
  moreover have "mem_set (rev (dec v) @ drop ?n s) ?n 0 = Some ([] @ rev (dec v) @ 0 # drop (Suc ?n) s)"
    using assms by (simp add: mem_set_def list_update_append Cons_nth_drop_Suc [symmetric])
  moreover have "sds_reverse 0 (?n - 1) ([] @ rev (dec v) @ 0 # drop (Suc ?n) s) = Some (dec v @ 0 # drop (Suc ?n) s)"
    using sds_reverse_correct [of "rev (dec v)" "[]" "0 # drop (Suc ?n) s"] length_dec_pos [of v] by auto
  ultimately show ?thesis by (simp add: sdsull2str_def)
qed

lemma sdsll2str_correct:
  assumes "length (sdec val) < length s" "val \<noteq> LLONG_MIN"
  shows "sdsll2str s val = Some (length (sdec val), sdec val @ 0 # drop (Suc (length (sdec val))) s)"
proof (cases "val < 0")
  case False
  then have "sdsll2str s val = sdsull2str s (nat val)"
    using assms(2) by (simp add: sdsll2str_def sdsull2str_def)
  then show ?thesis using False assms sdsull2str_correct [of "nat val" s] by (simp add: sdec_def)
next
  case True
  let ?d = "dec (nat (- val))" let ?n = "length ?d"
  have sd: "sdec val = ch CHR ''-'' # ?d" using True by (simp add: sdec_def)
  have len: "Suc ?n < length s" using assms(1) sd by simp
  have "ull_digits (nat (- val)) 0 s = Some (?n, rev ?d @ drop ?n s)" using ull_digits_correct [of 0 "nat (- val)" s] len by simp
  moreover have "mem_set (rev ?d @ drop ?n s) ?n (ch CHR ''-'') = Some (rev (sdec val) @ drop (Suc ?n) s)"
    using len sd by (simp add: mem_set_def list_update_append Cons_nth_drop_Suc [symmetric])
  moreover have "mem_set (rev (sdec val) @ drop (Suc ?n) s) (Suc ?n) 0 = Some ([] @ rev (sdec val) @ 0 # drop (Suc (Suc ?n)) s)"
    using len sd by (simp add: mem_set_def list_update_append Cons_nth_drop_Suc [symmetric])
  moreover have "sds_reverse 0 ?n ([] @ rev (sdec val) @ 0 # drop (Suc (Suc ?n)) s) = Some (sdec val @ 0 # drop (Suc (Suc ?n)) s)"
    using sds_reverse_correct [of "rev (sdec val)" "[]" "0 # drop (Suc (Suc ?n)) s"] sd by auto
  ultimately show ?thesis using True assms(2) sd by (simp add: sdsll2str_def)
qed

lemma length_sdec_bound: "int64_range v \<Longrightarrow> length (sdec v) \<le> 20"
proof -
  assume v: "int64_range v"
  then have "nat \<bar>v\<bar> < 10 ^ 19" unfolding int64_range_def by (simp add: nat_less_iff) linarith
  then have "length (dec (nat \<bar>v\<bar>)) \<le> 19" by (rule length_dec_bound) simp
  then show ?thesis by (auto simp: sdec_def)
qed

lemma sdsfromlonglong_correct:
  assumes "int64_range val" "val \<noteq> LLONG_MIN"
  shows "\<exists>s. sdsfromlonglong garb val = Some s \<and> sds_inv s \<and> sds_str s = sdec val"
proof -
  have l: "length (sdec val) < length (map garb [0..<SDS_LLSTR_SIZE])"
    using length_sdec_bound [OF assms(1)] by (simp add: SDS_LLSTR_SIZE_def)
  obtain b where b: "sdsll2str (map garb [0..<SDS_LLSTR_SIZE]) val = Some (length (sdec val), sdec val @ b)"
    using sdsll2str_correct [OF l assms(2)] by blast
  have "\<exists>s. sdsnewlen garb (Some (sdec val @ b)) (length (sdec val)) = Some s \<and> sds_inv s \<and>
      sds_str s = take (length (sdec val)) (sdec val @ b)"
    by (rule sdsnewlen_correct) (use length_sdec_bound [OF assms(1)] in simp_all)
  then show ?thesis using b by (simp add: sdsfromlonglong_def)
qed
end
