(* ===== verification/Sds_Args.thy ===== *)
theory Sds_Args
  imports Sds_Ops
begin

text \<open>
  Quoting and parsing of argument lines: \<open>sdscatrepr\<close> writes a string as a quoted literal and
  \<open>sdssplitargs\<close> splits a line into arguments, and the formatter \<open>sdscatfmt\<close>.
\<close>

section \<open>Definitions\<close>

text \<open>\<open>isprint\<close> and \<open>isspace\<close> of the C locale.\<close>

definition isprint :: "byte \<Rightarrow> bool" where
  "isprint c \<longleftrightarrow> 32 \<le> c \<and> c \<le> 126"

definition isspace :: "byte \<Rightarrow> bool" where
  "isspace c \<longleftrightarrow> c = 32 \<or> (9 \<le> c \<and> c \<le> 13)"

definition hex_char :: "nat \<Rightarrow> byte" where
  "hex_char d = (if d < 10 then ch CHR ''0'' + of_nat d else ch CHR ''a'' + of_nat (d - 10))"

text \<open>The output of \<open>sdscatprintf\<close> for the formats of \<open>sdscatrepr\<close>: a backslash and a character, \<open>%c\<close> and \<open>\x%02x\<close>.\<close>

definition repr_char :: "byte \<Rightarrow> byte list" where
  "repr_char c =
     (if c = 92 \<or> c = 34 then [92, c]
      else if c = 10 then [92, ch CHR ''n'']
      else if c = 13 then [92, ch CHR ''r'']
      else if c = 9 then [92, ch CHR ''t'']
      else if c = 7 then [92, ch CHR ''a'']
      else if c = 8 then [92, ch CHR ''b'']
      else if isprint c then [c]
      else [92, ch CHR ''x'', hex_char (unat c div 16), hex_char (unat c mod 16)])"

fun repr_loop :: "(nat \<Rightarrow> byte) \<Rightarrow> sdshdr \<Rightarrow> byte list \<Rightarrow> sdshdr option" where
  "repr_loop garb s [] = Some s"
| "repr_loop garb s (c # p) = do {
     s \<leftarrow> sdscatlen garb s (repr_char c) (length (repr_char c));
     repr_loop garb s p }"

definition sdscatrepr :: "(nat \<Rightarrow> byte) \<Rightarrow> sdshdr \<Rightarrow> byte list \<Rightarrow> sdshdr option" where
  "sdscatrepr garb s p = do {
     s \<leftarrow> sdscatlen garb s [34] 1;
     s \<leftarrow> repr_loop garb s p;
     sdscatlen garb s [34] 1 }"

definition is_hex_digit :: "byte \<Rightarrow> bool" where
  "is_hex_digit c \<longleftrightarrow> (ch CHR ''0'' \<le> c \<and> c \<le> ch CHR ''9'') \<or> (ch CHR ''a'' \<le> c \<and> c \<le> ch CHR ''f'') \<or>
     (ch CHR ''A'' \<le> c \<and> c \<le> ch CHR ''F'')"

definition hex_digit_to_int :: "byte \<Rightarrow> nat" where
  "hex_digit_to_int c =
     (if ch CHR ''0'' \<le> c \<and> c \<le> ch CHR ''9'' then unat c - 48
      else if ch CHR ''a'' \<le> c \<and> c \<le> ch CHR ''f'' then unat c - 87
      else if ch CHR ''A'' \<le> c \<and> c \<le> ch CHR ''F'' then unat c - 55
      else 0)"

definition unescape :: "byte \<Rightarrow> byte" where
  "unescape c =
     (if c = ch CHR ''n'' then 10 else if c = ch CHR ''r'' then 13 else if c = ch CHR ''t'' then 9
      else if c = ch CHR ''b'' then 8 else if c = ch CHR ''a'' then 7 else c)"

text \<open>
  One step of the token loop of \<open>sdssplitargs\<close>. The line is the list of its bytes before the NUL, so
  the byte \<open>*(p+k)\<close> is the \<open>k\<close>-th of the rest or NUL at its end, and reading further is never done
  after a NUL. The results: another byte of the token, the end of the token, or an error.
\<close>

datatype quote_state = Plain | InQ | InSQ

datatype arg_result = Append byte "byte list" | Go quote_state "byte list" | Done "byte list" | Err

definition byte_at :: "byte list \<Rightarrow> nat \<Rightarrow> byte" where
  "byte_at p k = (if k < length p then p ! k else 0)"

definition arg_step :: "quote_state \<Rightarrow> byte list \<Rightarrow> arg_result" where
  "arg_step q p = (case q of
     InQ \<Rightarrow>
       if byte_at p 0 = 92 \<and> byte_at p 1 = ch CHR ''x'' \<and> is_hex_digit (byte_at p 2) \<and> is_hex_digit (byte_at p 3)
       then Append (of_nat (hex_digit_to_int (byte_at p 2) * 16 + hex_digit_to_int (byte_at p 3))) (drop 4 p)
       else if byte_at p 0 = 92 \<and> byte_at p 1 \<noteq> 0 then Append (unescape (byte_at p 1)) (drop 2 p)
       else if byte_at p 0 = 34 then (if byte_at p 1 \<noteq> 0 \<and> \<not> isspace (byte_at p 1) then Err else Done (drop 1 p))
       else if byte_at p 0 = 0 then Err
       else Append (byte_at p 0) (drop 1 p)
   | InSQ \<Rightarrow>
       if byte_at p 0 = 92 \<and> byte_at p 1 = 39 then Append 39 (drop 2 p)
       else if byte_at p 0 = 39 then (if byte_at p 1 \<noteq> 0 \<and> \<not> isspace (byte_at p 1) then Err else Done (drop 1 p))
       else if byte_at p 0 = 0 then Err
       else Append (byte_at p 0) (drop 1 p)
   | Plain \<Rightarrow>
       if byte_at p 0 \<in> {32, 10, 13, 9, 0} then Done (drop 1 p)
       else if byte_at p 0 = 34 then Go InQ (drop 1 p)
       else if byte_at p 0 = 39 then Go InSQ (drop 1 p)
       else Append (byte_at p 0) (drop 1 p))"

text \<open>The token loop: the token and the rest of the line, \<open>None\<close> for the \<open>err\<close> exit; a store that fails is \<open>Some None\<close>.\<close>

lemma arg_step_shrinks:
  "arg_step q p = Append c p' \<Longrightarrow> length p' < length p"
  "arg_step q p = Go q' p' \<Longrightarrow> length p' < length p"
proof -
  have e: "p \<noteq> []" if "byte_at p 0 \<noteq> 0" using that by (auto simp: byte_at_def)
  show "arg_step q p = Append c p' \<Longrightarrow> length p' < length p"
    using e by (cases q) (auto simp: arg_step_def split: if_splits)
  show "arg_step q p = Go q' p' \<Longrightarrow> length p' < length p"
    using e by (cases q) (auto simp: arg_step_def split: if_splits)
qed

function arg_loop :: "(nat \<Rightarrow> byte) \<Rightarrow> quote_state \<Rightarrow> sdshdr \<Rightarrow> byte list \<Rightarrow> (sdshdr \<times> byte list) option option" where
  "arg_loop garb q current p = (case arg_step q p of
     Err \<Rightarrow> Some None
   | Done p \<Rightarrow> Some (Some (current, p))
   | Go q p \<Rightarrow> arg_loop garb q current p
   | Append c p \<Rightarrow> Option.bind (sdscatlen garb current [c] 1) (\<lambda>current. arg_loop garb q current p))"
  by auto
termination
  by (relation "measure (\<lambda>(_, _, _, p). length p)") (auto dest: arg_step_shrinks)

declare arg_loop.simps [simp del]

lemma arg_loop_shrinks:
  assumes "arg_loop garb q cur p = Some (Some (cur', p'))" "p \<noteq> []"
  shows "length p' < length p"
  using assms
proof (induction garb q cur p rule: arg_loop.induct)
  case (1 garb q cur p)
  show ?case
  proof (cases "arg_step q p")
    case (Append c r)
    then obtain cur1 where "arg_loop garb q cur1 r = Some (Some (cur', p'))" "sdscatlen garb cur [c] 1 = Some cur1"
      using 1(3) by (auto simp: arg_loop.simps [of garb q cur p] bind_eq_Some_conv)
    moreover have "length r < length p" using arg_step_shrinks(1) [OF Append] .
    moreover have "length p' \<le> length r"
    proof (cases "r = []")
      case True
      then show ?thesis using calculation(1) by (auto simp: arg_loop.simps [of garb q] arg_step_def byte_at_def split: quote_state.splits if_splits)
    next
      case False
      then show ?thesis using 1(1) [OF Append calculation(2) calculation(1)] by simp
    qed
    ultimately show ?thesis by simp
  next
    case (Go q' r)
    then have r: "arg_loop garb q' cur r = Some (Some (cur', p'))" using 1(3) by (simp add: arg_loop.simps [of garb q cur p])
    have "length r < length p" using arg_step_shrinks(2) [OF Go] .
    moreover have "length p' \<le> length r"
    proof (cases "r = []")
      case True
      then show ?thesis using r by (auto simp: arg_loop.simps [of garb q'] arg_step_def byte_at_def split: quote_state.splits if_splits)
    next
      case False
      then show ?thesis using 1(2) [OF Go r] by simp
    qed
    ultimately show ?thesis by simp
  next
    case (Done r)
    then have "p' = r" using 1(3) by (simp add: arg_loop.simps [of garb q cur p])
    then show ?thesis using Done 1(4) by (cases q) (auto simp: arg_step_def split: if_splits)
  next
    case Err
    then show ?thesis using 1(3) by (simp add: arg_loop.simps [of garb q cur p])
  qed
qed

text \<open>\<open>Some None\<close> is the NULL result.\<close>

function sdssplitargs_loop :: "(nat \<Rightarrow> byte) \<Rightarrow> byte list \<Rightarrow> sdshdr list \<Rightarrow> sdshdr list option option" where
  "sdssplitargs_loop garb p vec =
     (let p = dropWhile isspace p in
      if byte_at p 0 \<noteq> 0 then
        Option.bind (sdsempty garb) (\<lambda>current.
        Option.bind (arg_loop garb Plain current p) (\<lambda>r. case r of
            None \<Rightarrow> Some None
          | Some (current, p) \<Rightarrow> sdssplitargs_loop garb p (vec @ [current])))
      else Some (Some vec))"
  by auto
termination
proof (relation "measure (\<lambda>(_, p, _). length p)", goal_cases)
  case (2 garb p vec x s r y cur p')
  then have "x \<noteq> []" by (auto simp: byte_at_def split: if_splits)
  then have "length p' < length x" using arg_loop_shrinks 2 by blast
  also have "length x \<le> length p" using 2(1) by (simp add: length_dropWhile_le)
  finally show ?case by simp
qed simp

declare sdssplitargs_loop.simps [simp del]

definition sdssplitargs :: "(nat \<Rightarrow> byte) \<Rightarrow> byte list \<Rightarrow> sdshdr list option option" where
  "sdssplitargs garb line = sdssplitargs_loop garb line []"

section \<open>Quoting and splitting\<close>

definition quote :: "byte list \<Rightarrow> byte list" where
  "quote p = [34] @ concat (map repr_char p) @ [34]"

lemma repr_char_length: "1 \<le> length (repr_char c)" "length (repr_char c) \<le> 4"
  by (simp_all add: repr_char_def)

lemma cat_exact:
  assumes "sds_inv s" "length (sds_str s) + length t + SDS_MAX_PREALLOC < 2 ^ 32"
  shows "\<exists>s'. sdscatlen garb s t (length t) = Some s' \<and> sds_inv s' \<and> sds_str s' = sds_str s @ t"
  using sdscatlen_correct [of s "length t" t garb] assms length_sds_str [OF assms(1)] by simp

lemma repr_loop_correct:
  assumes "sds_inv s" "length (sds_str s) + length (concat (map repr_char p)) + SDS_MAX_PREALLOC < 2 ^ 32"
  shows "\<exists>s'. repr_loop garb s p = Some s' \<and> sds_inv s' \<and> sds_str s' = sds_str s @ concat (map repr_char p)"
  using assms
proof (induction p arbitrary: s)
  case (Cons c p)
  obtain s1 where s1: "sdscatlen garb s (repr_char c) (length (repr_char c)) = Some s1" "sds_inv s1"
    "sds_str s1 = sds_str s @ repr_char c"
    using cat_exact [of s "repr_char c" garb] Cons.prems by auto
  have "length (sds_str s1) + length (concat (map repr_char p)) + SDS_MAX_PREALLOC < 2 ^ 32"
    using Cons.prems(2) s1(3) by simp
  from Cons.IH [OF s1(2) this] show ?case using s1 by auto
qed simp

lemma sdscatrepr_correct:
  assumes "sds_inv s" "length (sds_str s) + length (quote p) + SDS_MAX_PREALLOC < 2 ^ 32"
  shows "\<exists>s'. sdscatrepr garb s p = Some s' \<and> sds_inv s' \<and> sds_str s' = sds_str s @ quote p"
proof -
  let ?r = "concat (map repr_char p)"
  have b: "length (sds_str s) + length ?r + 2 + SDS_MAX_PREALLOC < 2 ^ 32" using assms(2) by (simp add: quote_def)
  obtain s1 where s1: "sdscatlen garb s [34] 1 = Some s1" "sds_inv s1" "sds_str s1 = sds_str s @ [34]"
    using cat_exact [of s "[34]" garb] assms(1) b by auto
  obtain s2 where s2: "repr_loop garb s1 p = Some s2" "sds_inv s2" "sds_str s2 = sds_str s1 @ ?r"
    using repr_loop_correct [OF s1(2), of p garb] s1(3) b by auto
  obtain s3 where s3: "sdscatlen garb s2 [34] 1 = Some s3" "sds_inv s3" "sds_str s3 = sds_str s2 @ [34]"
    using cat_exact [of s2 "[34]" garb] s1(3) s2(2,3) b by auto
  show ?thesis using s1 s2 s3 by (simp add: sdscatrepr_def quote_def)
qed

lemma hex_char_digit:
  assumes "d < 16"
  shows "is_hex_digit (hex_char d)" "hex_digit_to_int (hex_char d) = d"
proof -
  have "\<forall>d \<in> set [0..<16]. is_hex_digit (hex_char d) \<and> hex_digit_to_int (hex_char d) = d"
    by (simp add: upt_rec hex_char_def is_hex_digit_def hex_digit_to_int_def)
  then show "is_hex_digit (hex_char d)" "hex_digit_to_int (hex_char d) = d" using assms by auto
qed

lemma arg_step_repr: "arg_step InQ (repr_char c @ r) = Append c r"
proof -
  have hex: "arg_step InQ ([92, ch CHR ''x'', hex_char (unat c div 16), hex_char (unat c mod 16)] @ r) = Append c r"
  proof -
    have "unat c < 256" using unsigned_less [of c, where 'a = nat] by simp
    then have "unat c div 16 < 16" "unat c mod 16 < 16" by (simp_all add: div_less_iff_less_mult)
    moreover have "of_nat (unat c div 16 * 16 + unat c mod 16) = c" by (simp only: div_mult_mod_eq) simp
    ultimately show ?thesis
      using hex_char_digit [of "unat c div 16"] hex_char_digit [of "unat c mod 16"]
      by (simp add: arg_step_def byte_at_def)
  qed
  show ?thesis
  proof (cases "c = 92 \<or> c = 34 \<or> c = 10 \<or> c = 13 \<or> c = 9 \<or> c = 7 \<or> c = 8")
    case True
    then show ?thesis by (auto simp: repr_char_def arg_step_def byte_at_def unescape_def)
  next
    case False
    show ?thesis
    proof (cases "isprint c")
      case True
      then have "c \<noteq> 0" by (auto simp: isprint_def)
      then show ?thesis using True False by (simp add: repr_char_def arg_step_def byte_at_def)
    next
      case np: False
      then have "repr_char c = [92, ch CHR ''x'', hex_char (unat c div 16), hex_char (unat c mod 16)]"
        using False by (simp add: repr_char_def)
      then show ?thesis using hex by simp
    qed
  qed
qed

lemma arg_loop_quoted:
  assumes "sds_inv s" "length (sds_str s) + length p + SDS_MAX_PREALLOC < 2 ^ 32"
    "rest = [] \<or> isspace (hd rest)"
  shows "\<exists>s'. arg_loop garb InQ s (concat (map repr_char p) @ 34 # rest) = Some (Some (s', rest)) \<and>
    sds_inv s' \<and> sds_str s' = sds_str s @ p"
  using assms(1,2)
proof (induction p arbitrary: s)
  case Nil
  have "arg_step InQ (34 # rest) = Done rest"
    using assms(3) by (cases rest) (auto simp: arg_step_def byte_at_def)
  then show ?case using Nil by (simp add: arg_loop.simps [of garb InQ s])
next
  case (Cons c p)
  obtain s1 where s1: "sdscatlen garb s [c] 1 = Some s1" "sds_inv s1" "sds_str s1 = sds_str s @ [c]"
    using cat_exact [of s "[c]" garb] Cons.prems by auto
  have "length (sds_str s1) + length p + SDS_MAX_PREALLOC < 2 ^ 32" using Cons.prems(2) s1(3) by simp
  from Cons.IH [OF s1(2) this] show ?case
    using s1 by (auto simp: arg_loop.simps [of garb InQ s] arg_step_repr)
qed

lemma splitargs_quoted:
  assumes "length p + SDS_MAX_PREALLOC < 2 ^ 32" "rest = [] \<or> isspace (hd rest)"
  shows "\<exists>s. sdssplitargs_loop garb (quote p @ rest) vec = sdssplitargs_loop garb rest (vec @ [s]) \<and>
    sds_inv s \<and> sds_str s = p"
proof -
  have q: "dropWhile isspace (quote p @ rest) = quote p @ rest" "byte_at (quote p @ rest) 0 = 34"
    by (simp_all add: quote_def isspace_def byte_at_def)
  obtain s0 where s0: "sdsempty garb = Some s0" "sds_inv s0" "sds_str s0 = []" using sdsempty_correct by blast
  obtain s where s: "arg_loop garb InQ s0 (concat (map repr_char p) @ 34 # rest) = Some (Some (s, rest))" "sds_inv s" "sds_str s = p"
    using arg_loop_quoted [OF s0(2), of p rest garb] s0(3) assms by auto
  have "arg_step Plain (quote p @ rest) = Go InQ (concat (map repr_char p) @ 34 # rest)"
    by (simp add: arg_step_def byte_at_def quote_def)
  then have "arg_loop garb Plain s0 (quote p @ rest) = Some (Some (s, rest))"
    using s(1) by (simp add: arg_loop.simps [of garb Plain s0])
  then have "sdssplitargs_loop garb (quote p @ rest) vec = sdssplitargs_loop garb rest (vec @ [s])"
    by (simp add: sdssplitargs_loop.simps [of garb "quote p @ rest"] q s0(1))
  then show ?thesis using s(2,3) by blast
qed

lemma splitargs_line:
  assumes "\<forall>p \<in> set ps. length p + SDS_MAX_PREALLOC < 2 ^ 32"
  shows "\<exists>ts. sdssplitargs_loop garb (join_ref [32] (map quote ps)) vec = Some (Some (vec @ ts)) \<and>
    (\<forall>t \<in> set ts. sds_inv t) \<and> map sds_str ts = ps"
  using assms
proof (induction ps arbitrary: vec)
  case Nil
  show ?case by (simp add: join_ref_def sdssplitargs_loop.simps byte_at_def)
next
  case (Cons p ps)
  let ?rest = "if ps = [] then [] else [32] @ join_ref [32] (map quote ps)"
  obtain s where s: "sdssplitargs_loop garb (quote p @ ?rest) vec = sdssplitargs_loop garb ?rest (vec @ [s])"
    "sds_inv s" "sds_str s = p"
  proof -
    have "?rest = [] \<or> isspace (hd ?rest)" by (simp add: isspace_def)
    moreover have "length p + SDS_MAX_PREALLOC < 2 ^ 32" using Cons.prems by simp
    ultimately show ?thesis using that splitargs_quoted by blast
  qed
  obtain ts where ts: "sdssplitargs_loop garb (join_ref [32] (map quote ps)) (vec @ [s]) = Some (Some ((vec @ [s]) @ ts))"
    "\<forall>t \<in> set ts. sds_inv t" "map sds_str ts = ps" using Cons.IH [of "vec @ [s]"] Cons.prems by auto
  have "sdssplitargs_loop garb ?rest (vec @ [s]) = sdssplitargs_loop garb (join_ref [32] (map quote ps)) (vec @ [s])"
    by (cases "ps = []") (simp_all add: join_ref_def sdssplitargs_loop.simps [of garb "32 # _"]
        sdssplitargs_loop.simps [of garb "concat _"] isspace_def)
  moreover have "join_ref [32] (map quote (p # ps)) = quote p @ ?rest"
    by (simp add: join_ref_Cons)
  ultimately show ?case using s ts by (intro exI [of _ "s # ts"]) simp
qed

section \<open>The formatter\<close>

text \<open>The arguments of the variadic call: a C string, an sds string, a signed and an unsigned integer.\<close>

datatype fmt_arg = ArgStr "byte list" | ArgSds sdshdr | ArgInt int | ArgUInt nat

text \<open>The store of \<open>l\<close> bytes at \<open>i\<close> and the update of the counters.\<close>

definition fmt_put :: "(nat \<Rightarrow> byte) \<Rightarrow> sdshdr \<Rightarrow> nat \<Rightarrow> byte list \<Rightarrow> nat \<Rightarrow> sdshdr option" where
  "fmt_put garb s i str l = do {
     let s = (if s_free s < l then sdsMakeRoomFor garb s l else s);
     bs \<leftarrow> mem_read str 0 l;
     buf \<leftarrow> mem_write (s_buf s) i bs;
     Some \<lparr>s_len = u32 (s_len s + l), s_free = u32 (s_free s + (2 ^ 32 - l)), s_buf = buf\<rparr> }"

definition fmt_putc :: "sdshdr \<Rightarrow> nat \<Rightarrow> byte \<Rightarrow> sdshdr option" where
  "fmt_putc s i c = do {
     buf \<leftarrow> mem_set (s_buf s) i c;
     Some \<lparr>s_len = u32 (s_len s + 1), s_free = u32 (s_free s + (2 ^ 32 - 1)), s_buf = buf\<rparr> }"

definition fmt_spec :: "byte \<Rightarrow> bool" where
  "fmt_spec nxt \<longleftrightarrow> nxt \<in> {ch CHR ''s'', ch CHR ''S'', ch CHR ''i'', ch CHR ''I'', ch CHR ''u'', ch CHR ''U''}"

text \<open>The memory a specifier copies from and the number of bytes; \<open>None\<close> for an argument of another kind.\<close>

definition fmt_value :: "(nat \<Rightarrow> byte) \<Rightarrow> byte \<Rightarrow> fmt_arg \<Rightarrow> (byte list \<times> nat) option" where
  "fmt_value garb nxt a = (case a of
     ArgStr str \<Rightarrow> if nxt = ch CHR ''s'' then do { l \<leftarrow> strlen str; Some (str, u32 l) } else None
   | ArgSds str \<Rightarrow> if nxt = ch CHR ''S'' then Some (s_buf str, u32 (sdslen str)) else None
   | ArgInt inum \<Rightarrow> if nxt = ch CHR ''i'' \<or> nxt = ch CHR ''I'' then do {
         (l, buf) \<leftarrow> sdsll2str (map garb [0..<SDS_LLSTR_SIZE]) inum; Some (buf, l) } else None
   | ArgUInt unum \<Rightarrow> if nxt = ch CHR ''u'' \<or> nxt = ch CHR ''U'' then do {
         (l, buf) \<leftarrow> sdsull2str (map garb [0..<SDS_LLSTR_SIZE]) unum; Some (buf, l) } else None)"

text \<open>
  The loop over the format, whose bytes come before its NUL; \<open>%\<close> as the last byte makes the loop run
  past the end of the format.
\<close>

fun fmt_loop :: "(nat \<Rightarrow> byte) \<Rightarrow> byte list \<Rightarrow> nat \<Rightarrow> sdshdr \<Rightarrow> fmt_arg list \<Rightarrow> (nat \<times> sdshdr) option" where
  "fmt_loop garb [] i s args = Some (i, s)"
| "fmt_loop garb (c # f) i s args =
     (let s = (if s_free s = 0 then sdsMakeRoomFor garb s 1 else s) in
      if c = ch CHR ''%'' then
        (case f of
           [] \<Rightarrow> None
         | nxt # f' \<Rightarrow>
             if fmt_spec nxt then
               (case args of
                  [] \<Rightarrow> None
                | a # args' \<Rightarrow> do {
                    (str, l) \<leftarrow> fmt_value garb nxt a;
                    s \<leftarrow> fmt_put garb s i str l;
                    fmt_loop garb f' (i + l) s args' })
             else do {
               s \<leftarrow> fmt_putc s i nxt;
               fmt_loop garb f' (i + 1) s args })
      else do {
        s \<leftarrow> fmt_putc s i c;
        fmt_loop garb f (i + 1) s args })"

definition sdscatfmt :: "(nat \<Rightarrow> byte) \<Rightarrow> sdshdr \<Rightarrow> byte list \<Rightarrow> fmt_arg list \<Rightarrow> sdshdr option" where
  "sdscatfmt garb s fmt args = do {
     (i, s) \<leftarrow> fmt_loop garb fmt (sdslen s) s args;
     buf \<leftarrow> mem_set (s_buf s) i 0;
     Some (s\<lparr>s_buf := buf\<rparr>) }"

text \<open>What a format stands for; \<open>None\<close> when an argument is missing or of another kind.\<close>

definition arg_text :: "byte \<Rightarrow> fmt_arg \<Rightarrow> byte list option" where
  "arg_text nxt a = (case a of
     ArgStr str \<Rightarrow> if nxt = ch CHR ''s'' then map_option (\<lambda>l. take l str) (strlen str) else None
   | ArgSds str \<Rightarrow> if nxt = ch CHR ''S'' then Some (sds_str str) else None
   | ArgInt inum \<Rightarrow> if nxt = ch CHR ''i'' \<or> nxt = ch CHR ''I'' then Some (sdec inum) else None
   | ArgUInt unum \<Rightarrow> if nxt = ch CHR ''u'' \<or> nxt = ch CHR ''U'' then Some (dec unum) else None)"

fun render :: "byte list \<Rightarrow> fmt_arg list \<Rightarrow> byte list option" where
  "render [] args = Some []"
| "render (c # f) args =
     (if c = ch CHR ''%'' then
        (case f of
           [] \<Rightarrow> None
         | nxt # f' \<Rightarrow>
             if fmt_spec nxt then
               (case args of
                  [] \<Rightarrow> None
                | a # args' \<Rightarrow> do { t \<leftarrow> arg_text nxt a; r \<leftarrow> render f' args'; Some (t @ r) })
             else map_option (\<lambda>r. nxt # r) (render f' args))
      else map_option (\<lambda>r. c # r) (render f args))"

fun arg_ok :: "fmt_arg \<Rightarrow> bool" where
  "arg_ok (ArgStr str) = True"
| "arg_ok (ArgSds str) = sds_inv str"
| "arg_ok (ArgInt inum) = (int64_range inum \<and> inum \<noteq> LLONG_MIN)"
| "arg_ok (ArgUInt unum) = (unum < 2 ^ 64)"

text \<open>Inside the loop the string has no NUL at its end.\<close>

definition sds_open :: "sdshdr \<Rightarrow> bool" where
  "sds_open s \<longleftrightarrow> length (s_buf s) = s_len s + s_free s + 1 \<and> s_len s + s_free s < 2 ^ 32"

lemma sds_open_nul: "sds_open s \<Longrightarrow> sds_inv (s\<lparr>s_buf := (s_buf s)[s_len s := 0]\<rparr>)"
  by (simp add: sds_open_def sds_inv_def)

lemma sds_open_room:
  assumes "sds_open s" "s_len s + n + SDS_MAX_PREALLOC < 2 ^ 32"
  shows "sds_open (sdsMakeRoomFor garb s n)" "sds_str (sdsMakeRoomFor garb s n) = sds_str s"
    "s_len (sdsMakeRoomFor garb s n) = s_len s" "n \<le> s_free (sdsMakeRoomFor garb s n)"
proof -
  let ?z = "s\<lparr>s_buf := (s_buf s)[s_len s := 0]\<rparr>"
  have len: "s_len s < length (s_buf s)" using assms(1) by (simp add: sds_open_def)
  note m = sdsMakeRoomFor_correct [OF sds_open_nul [OF assms(1)], of n garb]
  have r: "s_len (sdsMakeRoomFor garb s n) = s_len (sdsMakeRoomFor garb ?z n)"
    "s_free (sdsMakeRoomFor garb s n) = s_free (sdsMakeRoomFor garb ?z n)"
    "length (s_buf (sdsMakeRoomFor garb s n)) = length (s_buf (sdsMakeRoomFor garb ?z n))"
    by (simp_all add: sdsMakeRoomFor_def sdsavail_def sdslen_def Let_def)
  then show "sds_open (sdsMakeRoomFor garb s n)" "s_len (sdsMakeRoomFor garb s n) = s_len s"
    "n \<le> s_free (sdsMakeRoomFor garb s n)"
    using m assms(2) by (simp_all add: sds_open_def sds_inv_def)
  have "take (s_len s) (mem_resize garb (s_buf s) k) = take (s_len s) (s_buf s)" if "s_len s \<le> k" for k
    using that len by (intro take_mem_resize) simp_all
  moreover have "s_len s \<le> length (s_buf (sdsMakeRoomFor garb s n))"
    using r m assms(2) by (simp add: sds_inv_def)
  ultimately show "sds_str (sdsMakeRoomFor garb s n) = sds_str s"
    by (auto simp: sdsMakeRoomFor_def sds_str_def sdsavail_def Let_def)
qed

lemma fmt_put_correct:
  assumes o: "sds_open s" and str: "l \<le> length str" and room: "s_len s + l + SDS_MAX_PREALLOC < 2 ^ 32"
  shows "\<exists>s'. fmt_put garb s (s_len s) str l = Some s' \<and> sds_open s' \<and> sds_str s' = sds_str s @ take l str \<and> s_len s' = s_len s + l"
proof -
  obtain s1 where s1: "(if s_free s < l then sdsMakeRoomFor garb s l else s) = s1" by blast
  have m: "sds_open s1" "sds_str s1 = sds_str s" "s_len s1 = s_len s" "l \<le> s_free s1"
    using sds_open_room [OF o room, of garb] o by (auto simp: s1 [symmetric])
  have len: "length (s_buf s1) = s_len s + s_free s1 + 1" "s_len s + s_free s1 < 2 ^ 32" using m(1,3) by (simp_all add: sds_open_def)
  let ?b = "take (s_len s) (s_buf s1) @ take l str @ drop (s_len s + l) (s_buf s1)"
  have "fmt_put garb s (s_len s) str l = Some \<lparr>s_len = s_len s + l, s_free = s_free s1 - l, s_buf = ?b\<rparr>"
    unfolding fmt_put_def s1 using str m(3,4) len u32_back [of l "s_free s1"] by (simp add: mem_read_def mem_write_def min_def)
  moreover have "sds_open \<lparr>s_len = s_len s + l, s_free = s_free s1 - l, s_buf = ?b\<rparr>"
    using len m(4) str by (simp add: sds_open_def)
  moreover have "take (s_len s) (s_buf s1) = sds_str s" using m(2,3) by (simp add: sds_str_def)
  moreover have "length (sds_str s) = s_len s" using o by (simp add: sds_str_def sds_open_def)
  ultimately show ?thesis using len str by (simp add: sds_str_def [of "\<lparr>s_len = _, s_free = _, s_buf = _\<rparr>"])
qed

lemma fmt_putc_correct:
  assumes o: "sds_open s" and f: "0 < s_free s"
  shows "\<exists>s'. fmt_putc s (s_len s) c = Some s' \<and> sds_open s' \<and> sds_str s' = sds_str s @ [c] \<and> s_len s' = s_len s + 1"
proof -
  have len: "length (s_buf s) = s_len s + s_free s + 1" "s_len s + s_free s < 2 ^ 32" using o by (simp_all add: sds_open_def)
  have "fmt_putc s (s_len s) c = Some \<lparr>s_len = s_len s + 1, s_free = s_free s - 1, s_buf = (s_buf s)[s_len s := c]\<rparr>"
    using len f u32_back_1 [of "s_free s"] by (simp add: fmt_putc_def mem_set_def)
  then show ?thesis using len f
    by (simp add: sds_open_def sds_str_def take_Suc_conv_app_nth)
qed

lemma fmt_room_one:
  fixes garb :: "nat \<Rightarrow> byte"
  assumes "sds_open s" "s_len s + 1 + SDS_MAX_PREALLOC < 2 ^ 32"
  defines "s1 \<equiv> if s_free s = 0 then sdsMakeRoomFor garb s 1 else s"
  shows "sds_open s1" "sds_str s1 = sds_str s" "s_len s1 = s_len s" "0 < s_free s1"
  using sds_open_room [OF assms(1,2), of garb] assms(1) by (auto simp: s1_def)

lemma fmt_put_then:
  assumes "sds_open s" "l \<le> length str" "s_len s + l + SDS_MAX_PREALLOC < 2 ^ 32"
    and "\<And>s'. sds_open s' \<Longrightarrow> s_len s' = s_len s + l \<Longrightarrow>
      \<exists>s''. f (s_len s + l) s' = Some (s_len s'', s'') \<and> sds_open s'' \<and> sds_str s'' = sds_str s' @ r"
  shows "\<exists>s''. Option.bind (fmt_put garb s (s_len s) str l) (f (s_len s + l)) = Some (s_len s'', s'') \<and> sds_open s'' \<and>
    sds_str s'' = sds_str s @ take l str @ r"
  using fmt_put_correct [OF assms(1-3), of garb] assms(4) by fastforce

lemma fmt_putc_then:
  assumes "sds_open s" "0 < s_free s"
    and "\<And>s'. sds_open s' \<Longrightarrow> s_len s' = s_len s + 1 \<Longrightarrow>
      \<exists>s''. f (s_len s + 1) s' = Some (s_len s'', s'') \<and> sds_open s'' \<and> sds_str s'' = sds_str s' @ r"
  shows "\<exists>s''. Option.bind (fmt_putc s (s_len s) c) (f (s_len s + 1)) = Some (s_len s'', s'') \<and> sds_open s'' \<and>
    sds_str s'' = sds_str s @ c # r"
  using fmt_putc_correct [OF assms(1,2), of c] assms(3) by fastforce

lemma strlen_le: "strlen t = Some n \<Longrightarrow> n < length t"
  by (induction t arbitrary: n) (auto split: if_splits)

lemma length_dec_64: "n < 2 ^ 64 \<Longrightarrow> length (dec n) \<le> 20"
proof -
  assume "n < 2 ^ 64"
  also have "(2::nat) ^ 64 \<le> 10 ^ 20" by simp
  finally show ?thesis by (rule length_dec_bound) simp
qed

lemma fmt_value_text:
  assumes "arg_ok a" "arg_text nxt a = Some t" "length t < 2 ^ 32"
  shows "\<exists>str. fmt_value garb nxt a = Some (str, length t) \<and> length t \<le> length str \<and> take (length t) str = t"
proof (cases a)
  case (ArgStr str)
  then obtain l where l: "strlen str = Some l" "t = take l str" "nxt = ch CHR ''s''"
    using assms(2) by (auto simp: arg_text_def split: if_splits)
  have "length t = l" using strlen_le [OF l(1)] l(2) by simp
  then show ?thesis using ArgStr l assms(3) strlen_le [OF l(1)] by (simp add: fmt_value_def)
next
  case (ArgSds str)
  then show ?thesis using assms
    by (auto simp: arg_text_def fmt_value_def sds_str_def sdslen_def sds_inv_def split: if_splits)
next
  case (ArgInt v)
  then have t: "t = sdec v" "nxt = ch CHR ''i'' \<or> nxt = ch CHR ''I''" and v: "int64_range v" "v \<noteq> LLONG_MIN"
    using assms by (auto simp: arg_text_def split: if_splits)
  have "length (sdec v) < length (map garb [0..<SDS_LLSTR_SIZE])"
    using length_sdec_bound [OF v(1)] by (simp add: SDS_LLSTR_SIZE_def)
  from sdsll2str_correct [OF this v(2)] show ?thesis using ArgInt t by (simp add: fmt_value_def)
next
  case (ArgUInt v)
  then have t: "t = dec v" "nxt = ch CHR ''u'' \<or> nxt = ch CHR ''U''" and v: "v < 2 ^ 64"
    using assms by (auto simp: arg_text_def split: if_splits)
  have "length (dec v) < length (map garb [0..<SDS_LLSTR_SIZE])"
    using length_dec_64 [OF v] by (simp add: SDS_LLSTR_SIZE_def)
  from sdsull2str_correct [OF this] show ?thesis using ArgUInt t by (simp add: fmt_value_def)
qed

lemma fmt_loop_correct:
  assumes "sds_open s" "render fmt args = Some r" "\<forall>a \<in> set args. arg_ok a"
    "s_len s + length r + 1 + SDS_MAX_PREALLOC < 2 ^ 32"
  shows "\<exists>s'. fmt_loop garb fmt (s_len s) s args = Some (s_len s', s') \<and> sds_open s' \<and> sds_str s' = sds_str s @ r"
  using assms
proof (induction fmt args arbitrary: s r rule: render.induct)
  case (2 c f args)
  obtain s1 where s1: "(if s_free s = 0 then sdsMakeRoomFor garb s 1 else s) = s1" by blast
  have "s_len s + 1 + SDS_MAX_PREALLOC < 2 ^ 32" using 2(7) by simp
  note m = fmt_room_one [OF 2(4) this, of garb, unfolded s1]
  note step = fmt_loop.simps(2) [of garb c f "s_len s" s args, unfolded s1 Let_def]
  have putc: "\<exists>s''. Option.bind (fmt_putc s1 (s_len s1) x) (\<lambda>s'. fmt_loop garb g (s_len s1 + 1) s' args) = Some (s_len s'', s'') \<and>
      sds_open s'' \<and> sds_str s'' = sds_str s1 @ x # r'"
    if "r = x # r'" "\<And>s. sds_open s \<Longrightarrow> s_len s + length r' + 1 + SDS_MAX_PREALLOC < 2 ^ 32 \<Longrightarrow>
      \<exists>s'. fmt_loop garb g (s_len s) s args = Some (s_len s', s') \<and> sds_open s' \<and> sds_str s' = sds_str s @ r'" for x g r'
    by (rule fmt_putc_then [OF m(1,4)]) (use that m(3) 2(7) in force)
  show ?case
  proof (cases "c = ch CHR ''%''")
    case False
    then obtain r' where r: "render f args = Some r'" "r = c # r'" using 2(5) by auto
    from putc [OF r(2), of f] show ?thesis using 2(3) [OF False] r(1) 2(6) False step m(2,3) r(2) by simp
  next
    case pc: True
    then obtain nxt f' where f: "f = nxt # f'" using 2(5) by (cases f) auto
    show ?thesis
    proof (cases "fmt_spec nxt")
      case False
      then obtain r' where r: "render f' args = Some r'" "r = nxt # r'" using 2(5) pc f by auto
      from putc [OF r(2), of f'] show ?thesis using 2(2) [OF pc f False] r(1) 2(6) False pc f step m(2,3) r(2) by simp
    next
      case sp: True
      then obtain a args' u r' where a: "args = a # args'" "arg_text nxt a = Some u" "render f' args' = Some r'" "r = u @ r'"
        using 2(5) pc f by (auto split: list.splits simp: bind_eq_Some_conv)
      obtain str where str: "fmt_value garb nxt a = Some (str, length u)" "length u \<le> length str" "take (length u) str = u"
        using fmt_value_text [OF _ a(2), of garb] 2(6,7) a(1,4) by auto
      have "\<exists>s''. Option.bind (fmt_put garb s1 (s_len s1) str (length u)) (\<lambda>s'. fmt_loop garb f' (s_len s1 + length u) s' args') =
          Some (s_len s'', s'') \<and> sds_open s'' \<and> sds_str s'' = sds_str s1 @ take (length u) str @ r'"
        by (rule fmt_put_then [OF m(1) str(2)])
           (use 2(1) [OF pc f sp a(1) a(2)] a 2(6,7) m(3) in force)+
      then show ?thesis using step pc f sp a str m(2,3) by simp
    qed
  qed
qed simp

lemma sdscatfmt_correct:
  assumes inv: "sds_inv s" and r: "render fmt args = Some r" and args: "\<forall>a \<in> set args. arg_ok a"
    and room: "length (sds_str s) + length r + 1 + SDS_MAX_PREALLOC < 2 ^ 32"
  shows "\<exists>s'. sdscatfmt garb s fmt args = Some s' \<and> sds_inv s' \<and> sds_str s' = sds_str s @ r"
proof -
  have "sds_open s" using inv by (simp add: sds_inv_def sds_open_def)
  moreover have "s_len s + length r + 1 + SDS_MAX_PREALLOC < 2 ^ 32" using room length_sds_str [OF inv] by simp
  ultimately obtain s' where s': "fmt_loop garb fmt (s_len s) s args = Some (s_len s', s')" "sds_open s'" "sds_str s' = sds_str s @ r"
    using fmt_loop_correct [OF _ r args] by blast
  then have "sdscatfmt garb s fmt args = Some (s'\<lparr>s_buf := (s_buf s')[s_len s' := 0]\<rparr>)"
    by (simp add: sdscatfmt_def sdslen_def mem_set_def sds_open_def)
  moreover have "sds_str (s'\<lparr>s_buf := (s_buf s')[s_len s' := 0]\<rparr>) = sds_str s'" by (simp add: sds_str_def)
  ultimately show ?thesis using sds_open_nul [OF s'(2)] s'(3) by simp
qed
end
