(* ===== verification/Crc.thy ===== *)
theory Crc
  imports Prelude
begin

text \<open>
  The checksums of \<open>crc16.c\<close>, which maps keys to hash slots, and \<open>crc64.c\<close>, which protects RDB files: the
  tables as the sources list them, the byte loops, and their equivalence with the bit-by-bit
  division that defines the two CRCs.
\<close>

section \<open>Definitions\<close>

definition crc16tab :: "16 word list" where
  "crc16tab = [
    0x0000, 0x1021, 0x2042, 0x3063, 0x4084, 0x50A5, 0x60C6, 0x70E7,
    0x8108, 0x9129, 0xA14A, 0xB16B, 0xC18C, 0xD1AD, 0xE1CE, 0xF1EF,
    0x1231, 0x0210, 0x3273, 0x2252, 0x52B5, 0x4294, 0x72F7, 0x62D6,
    0x9339, 0x8318, 0xB37B, 0xA35A, 0xD3BD, 0xC39C, 0xF3FF, 0xE3DE,
    0x2462, 0x3443, 0x0420, 0x1401, 0x64E6, 0x74C7, 0x44A4, 0x5485,
    0xA56A, 0xB54B, 0x8528, 0x9509, 0xE5EE, 0xF5CF, 0xC5AC, 0xD58D,
    0x3653, 0x2672, 0x1611, 0x0630, 0x76D7, 0x66F6, 0x5695, 0x46B4,
    0xB75B, 0xA77A, 0x9719, 0x8738, 0xF7DF, 0xE7FE, 0xD79D, 0xC7BC,
    0x48C4, 0x58E5, 0x6886, 0x78A7, 0x0840, 0x1861, 0x2802, 0x3823,
    0xC9CC, 0xD9ED, 0xE98E, 0xF9AF, 0x8948, 0x9969, 0xA90A, 0xB92B,
    0x5AF5, 0x4AD4, 0x7AB7, 0x6A96, 0x1A71, 0x0A50, 0x3A33, 0x2A12,
    0xDBFD, 0xCBDC, 0xFBBF, 0xEB9E, 0x9B79, 0x8B58, 0xBB3B, 0xAB1A,
    0x6CA6, 0x7C87, 0x4CE4, 0x5CC5, 0x2C22, 0x3C03, 0x0C60, 0x1C41,
    0xEDAE, 0xFD8F, 0xCDEC, 0xDDCD, 0xAD2A, 0xBD0B, 0x8D68, 0x9D49,
    0x7E97, 0x6EB6, 0x5ED5, 0x4EF4, 0x3E13, 0x2E32, 0x1E51, 0x0E70,
    0xFF9F, 0xEFBE, 0xDFDD, 0xCFFC, 0xBF1B, 0xAF3A, 0x9F59, 0x8F78,
    0x9188, 0x81A9, 0xB1CA, 0xA1EB, 0xD10C, 0xC12D, 0xF14E, 0xE16F,
    0x1080, 0x00A1, 0x30C2, 0x20E3, 0x5004, 0x4025, 0x7046, 0x6067,
    0x83B9, 0x9398, 0xA3FB, 0xB3DA, 0xC33D, 0xD31C, 0xE37F, 0xF35E,
    0x02B1, 0x1290, 0x22F3, 0x32D2, 0x4235, 0x5214, 0x6277, 0x7256,
    0xB5EA, 0xA5CB, 0x95A8, 0x8589, 0xF56E, 0xE54F, 0xD52C, 0xC50D,
    0x34E2, 0x24C3, 0x14A0, 0x0481, 0x7466, 0x6447, 0x5424, 0x4405,
    0xA7DB, 0xB7FA, 0x8799, 0x97B8, 0xE75F, 0xF77E, 0xC71D, 0xD73C,
    0x26D3, 0x36F2, 0x0691, 0x16B0, 0x6657, 0x7676, 0x4615, 0x5634,
    0xD94C, 0xC96D, 0xF90E, 0xE92F, 0x99C8, 0x89E9, 0xB98A, 0xA9AB,
    0x5844, 0x4865, 0x7806, 0x6827, 0x18C0, 0x08E1, 0x3882, 0x28A3,
    0xCB7D, 0xDB5C, 0xEB3F, 0xFB1E, 0x8BF9, 0x9BD8, 0xABBB, 0xBB9A,
    0x4A75, 0x5A54, 0x6A37, 0x7A16, 0x0AF1, 0x1AD0, 0x2AB3, 0x3A92,
    0xFD2E, 0xED0F, 0xDD6C, 0xCD4D, 0xBDAA, 0xAD8B, 0x9DE8, 0x8DC9,
    0x7C26, 0x6C07, 0x5C64, 0x4C45, 0x3CA2, 0x2C83, 0x1CE0, 0x0CC1,
    0xEF1F, 0xFF3E, 0xCF5D, 0xDF7C, 0xAF9B, 0xBFBA, 0x8FD9, 0x9FF8,
    0x6E17, 0x7E36, 0x4E55, 0x5E74, 0x2E93, 0x3EB2, 0x0ED1, 0x1EF0]"

definition crc16_byte :: "16 word \<Rightarrow> byte \<Rightarrow> 16 word" where
  "crc16_byte crc b = push_bit 8 crc XOR crc16tab ! unat ((drop_bit 8 crc XOR ucast b) AND 0x00FF)"

definition crc16 :: "byte list \<Rightarrow> 16 word" where
  "crc16 buf = foldl crc16_byte 0 buf"

definition crc64_tab :: "64 word list" where
  "crc64_tab = [
    0x0000000000000000, 0x7AD870C830358979, 0xF5B0E190606B12F2, 0x8F689158505E9B8B,
    0xC038E5739841B68F, 0xBAE095BBA8743FF6, 0x358804E3F82AA47D, 0x4F50742BC81F2D04,
    0xAB28ECB46814FE75, 0xD1F09C7C5821770C, 0x5E980D24087FEC87, 0x24407DEC384A65FE,
    0x6B1009C7F05548FA, 0x11C8790FC060C183, 0x9EA0E857903E5A08, 0xE478989FA00BD371,
    0x7D08FF3B88BE6F81, 0x07D08FF3B88BE6F8, 0x88B81EABE8D57D73, 0xF2606E63D8E0F40A,
    0xBD301A4810FFD90E, 0xC7E86A8020CA5077, 0x4880FBD87094CBFC, 0x32588B1040A14285,
    0xD620138FE0AA91F4, 0xACF86347D09F188D, 0x2390F21F80C18306, 0x594882D7B0F40A7F,
    0x1618F6FC78EB277B, 0x6CC0863448DEAE02, 0xE3A8176C18803589, 0x997067A428B5BCF0,
    0xFA11FE77117CDF02, 0x80C98EBF2149567B, 0x0FA11FE77117CDF0, 0x75796F2F41224489,
    0x3A291B04893D698D, 0x40F16BCCB908E0F4, 0xCF99FA94E9567B7F, 0xB5418A5CD963F206,
    0x513912C379682177, 0x2BE1620B495DA80E, 0xA489F35319033385, 0xDE51839B2936BAFC,
    0x9101F7B0E12997F8, 0xEBD98778D11C1E81, 0x64B116208142850A, 0x1E6966E8B1770C73,
    0x8719014C99C2B083, 0xFDC17184A9F739FA, 0x72A9E0DCF9A9A271, 0x08719014C99C2B08,
    0x4721E43F0183060C, 0x3DF994F731B68F75, 0xB29105AF61E814FE, 0xC849756751DD9D87,
    0x2C31EDF8F1D64EF6, 0x56E99D30C1E3C78F, 0xD9810C6891BD5C04, 0xA3597CA0A188D57D,
    0xEC09088B6997F879, 0x96D1784359A27100, 0x19B9E91B09FCEA8B, 0x636199D339C963F2,
    0xDF7ADABD7A6E2D6F, 0xA5A2AA754A5BA416, 0x2ACA3B2D1A053F9D, 0x50124BE52A30B6E4,
    0x1F423FCEE22F9BE0, 0x659A4F06D21A1299, 0xEAF2DE5E82448912, 0x902AAE96B271006B,
    0x74523609127AD31A, 0x0E8A46C1224F5A63, 0x81E2D7997211C1E8, 0xFB3AA75142244891,
    0xB46AD37A8A3B6595, 0xCEB2A3B2BA0EECEC, 0x41DA32EAEA507767, 0x3B024222DA65FE1E,
    0xA2722586F2D042EE, 0xD8AA554EC2E5CB97, 0x57C2C41692BB501C, 0x2D1AB4DEA28ED965,
    0x624AC0F56A91F461, 0x1892B03D5AA47D18, 0x97FA21650AFAE693, 0xED2251AD3ACF6FEA,
    0x095AC9329AC4BC9B, 0x7382B9FAAAF135E2, 0xFCEA28A2FAAFAE69, 0x8632586ACA9A2710,
    0xC9622C4102850A14, 0xB3BA5C8932B0836D, 0x3CD2CDD162EE18E6, 0x460ABD1952DB919F,
    0x256B24CA6B12F26D, 0x5FB354025B277B14, 0xD0DBC55A0B79E09F, 0xAA03B5923B4C69E6,
    0xE553C1B9F35344E2, 0x9F8BB171C366CD9B, 0x10E3202993385610, 0x6A3B50E1A30DDF69,
    0x8E43C87E03060C18, 0xF49BB8B633338561, 0x7BF329EE636D1EEA, 0x012B592653589793,
    0x4E7B2D0D9B47BA97, 0x34A35DC5AB7233EE, 0xBBCBCC9DFB2CA865, 0xC113BC55CB19211C,
    0x5863DBF1E3AC9DEC, 0x22BBAB39D3991495, 0xADD33A6183C78F1E, 0xD70B4AA9B3F20667,
    0x985B3E827BED2B63, 0xE2834E4A4BD8A21A, 0x6DEBDF121B863991, 0x1733AFDA2BB3B0E8,
    0xF34B37458BB86399, 0x8993478DBB8DEAE0, 0x06FBD6D5EBD3716B, 0x7C23A61DDBE6F812,
    0x3373D23613F9D516, 0x49ABA2FE23CC5C6F, 0xC6C333A67392C7E4, 0xBC1B436E43A74E9D,
    0x95AC9329AC4BC9B5, 0xEF74E3E19C7E40CC, 0x601C72B9CC20DB47, 0x1AC40271FC15523E,
    0x5594765A340A7F3A, 0x2F4C0692043FF643, 0xA02497CA54616DC8, 0xDAFCE7026454E4B1,
    0x3E847F9DC45F37C0, 0x445C0F55F46ABEB9, 0xCB349E0DA4342532, 0xB1ECEEC59401AC4B,
    0xFEBC9AEE5C1E814F, 0x8464EA266C2B0836, 0x0B0C7B7E3C7593BD, 0x71D40BB60C401AC4,
    0xE8A46C1224F5A634, 0x927C1CDA14C02F4D, 0x1D148D82449EB4C6, 0x67CCFD4A74AB3DBF,
    0x289C8961BCB410BB, 0x5244F9A98C8199C2, 0xDD2C68F1DCDF0249, 0xA7F41839ECEA8B30,
    0x438C80A64CE15841, 0x3954F06E7CD4D138, 0xB63C61362C8A4AB3, 0xCCE411FE1CBFC3CA,
    0x83B465D5D4A0EECE, 0xF96C151DE49567B7, 0x76048445B4CBFC3C, 0x0CDCF48D84FE7545,
    0x6FBD6D5EBD3716B7, 0x15651D968D029FCE, 0x9A0D8CCEDD5C0445, 0xE0D5FC06ED698D3C,
    0xAF85882D2576A038, 0xD55DF8E515432941, 0x5A3569BD451DB2CA, 0x20ED197575283BB3,
    0xC49581EAD523E8C2, 0xBE4DF122E51661BB, 0x3125607AB548FA30, 0x4BFD10B2857D7349,
    0x04AD64994D625E4D, 0x7E7514517D57D734, 0xF11D85092D094CBF, 0x8BC5F5C11D3CC5C6,
    0x12B5926535897936, 0x686DE2AD05BCF04F, 0xE70573F555E26BC4, 0x9DDD033D65D7E2BD,
    0xD28D7716ADC8CFB9, 0xA85507DE9DFD46C0, 0x273D9686CDA3DD4B, 0x5DE5E64EFD965432,
    0xB99D7ED15D9D8743, 0xC3450E196DA80E3A, 0x4C2D9F413DF695B1, 0x36F5EF890DC31CC8,
    0x79A59BA2C5DC31CC, 0x037DEB6AF5E9B8B5, 0x8C157A32A5B7233E, 0xF6CD0AFA9582AA47,
    0x4AD64994D625E4DA, 0x300E395CE6106DA3, 0xBF66A804B64EF628, 0xC5BED8CC867B7F51,
    0x8AEEACE74E645255, 0xF036DC2F7E51DB2C, 0x7F5E4D772E0F40A7, 0x05863DBF1E3AC9DE,
    0xE1FEA520BE311AAF, 0x9B26D5E88E0493D6, 0x144E44B0DE5A085D, 0x6E963478EE6F8124,
    0x21C640532670AC20, 0x5B1E309B16452559, 0xD476A1C3461BBED2, 0xAEAED10B762E37AB,
    0x37DEB6AF5E9B8B5B, 0x4D06C6676EAE0222, 0xC26E573F3EF099A9, 0xB8B627F70EC510D0,
    0xF7E653DCC6DA3DD4, 0x8D3E2314F6EFB4AD, 0x0256B24CA6B12F26, 0x788EC2849684A65F,
    0x9CF65A1B368F752E, 0xE62E2AD306BAFC57, 0x6946BB8B56E467DC, 0x139ECB4366D1EEA5,
    0x5CCEBF68AECEC3A1, 0x2616CFA09EFB4AD8, 0xA97E5EF8CEA5D153, 0xD3A62E30FE90582A,
    0xB0C7B7E3C7593BD8, 0xCA1FC72BF76CB2A1, 0x45775673A732292A, 0x3FAF26BB9707A053,
    0x70FF52905F188D57, 0x0A2722586F2D042E, 0x854FB3003F739FA5, 0xFF97C3C80F4616DC,
    0x1BEF5B57AF4DC5AD, 0x61372B9F9F784CD4, 0xEE5FBAC7CF26D75F, 0x9487CA0FFF135E26,
    0xDBD7BE24370C7322, 0xA10FCEEC0739FA5B, 0x2E675FB4576761D0, 0x54BF2F7C6752E8A9,
    0xCDCF48D84FE75459, 0xB71738107FD2DD20, 0x387FA9482F8C46AB, 0x42A7D9801FB9CFD2,
    0x0DF7ADABD7A6E2D6, 0x772FDD63E7936BAF, 0xF8474C3BB7CDF024, 0x829F3CF387F8795D,
    0x66E7A46C27F3AA2C, 0x1C3FD4A417C62355, 0x935745FC4798B8DE, 0xE98F353477AD31A7,
    0xA6DF411FBFB21CA3, 0xDC0731D78F8795DA, 0x536FA08FDFD90E51, 0x29B7D047EFEC8728]"

definition crc64_byte :: "64 word \<Rightarrow> byte \<Rightarrow> 64 word" where
  "crc64_byte crc b = crc64_tab ! unat (ucast crc XOR b :: byte) XOR drop_bit 8 crc"

definition crc64 :: "64 word \<Rightarrow> byte list \<Rightarrow> 64 word" where
  "crc64 crc s = foldl crc64_byte crc s"

section \<open>Bit-by-bit division\<close>

text \<open>Polynomial 0x1021, most significant bit first.\<close>

definition crc16_bit :: "16 word \<Rightarrow> 16 word" where
  "crc16_bit x = push_bit 1 x XOR (if bit x 15 then 0x1021 else 0)"

text \<open>Polynomial 0xAD93D23594C935A9, least significant bit first: its coefficients reversed.\<close>

definition crc64_bit :: "64 word \<Rightarrow> 64 word" where
  "crc64_bit x = drop_bit 1 x XOR (if bit x 0 then 0x95AC9329AC4BC9B5 else 0)"


definition crc16_ref :: "byte list \<Rightarrow> 16 word" where
  "crc16_ref buf = foldl (\<lambda>crc b. (crc16_bit ^^ 8) (crc XOR push_bit 8 (ucast b))) 0 buf"

definition crc64_ref :: "64 word \<Rightarrow> byte list \<Rightarrow> 64 word" where
  "crc64_ref crc s = foldl (\<lambda>crc b. (crc64_bit ^^ 8) (crc XOR ucast b)) crc s"

text \<open>The table of a linear map is spanned by its values at the powers of two.\<close>

fun xor_span :: "'a::len word list \<Rightarrow> 'a word list" where
  "xor_span [] = [0]"
| "xor_span (b # bs) = (let t = xor_span bs in t @ map (\<lambda>x. b XOR x) t)"

lemma of_nat_top_bit:
  assumes "j < 2 ^ k"
  shows "of_nat (2 ^ k + j) = (of_nat (2 ^ k) XOR of_nat j :: 'a::len word)"
proof -
  have "take_bit k j = j" using assms by (rule take_bit_nat_eq_self)
  then have nb: "\<not> bit j k" by (metis bit_take_bit_iff less_irrefl)
  have "2 ^ k + j = 2 ^ k XOR j"
    by (rule disjunctive_add_eq_xor) (rule bit_eqI, use nb in \<open>auto simp: bit_simps\<close>)
  then show ?thesis by (simp only: unsigned_xor_eq of_nat_xor_eq)
qed

lemma xor_span_table:
  fixes f :: "'a::len word \<Rightarrow> 'a word"
  assumes lin: "\<And>x y. f (x XOR y) = f x XOR f y"
  shows "map (\<lambda>i. f (of_nat i)) [0..<2 ^ k] = xor_span (rev (map (\<lambda>i. f (of_nat (2 ^ i))) [0..<k]))"
proof (induction k)
  case 0
  have "f 0 = 0" using lin [of 0 0] by simp
  then show ?case by simp
next
  case (Suc k)
  let ?m = "\<lambda>n. map (\<lambda>i. f (of_nat i)) [0..<n]"
  have "[0..<2 ^ Suc k] = [0..<2 ^ k] @ map (\<lambda>j. 2 ^ k + j) [0..<2 ^ k]"
    using map_add_upt [of "2 ^ k" "2 ^ k"] by (simp add: upt_add_eq_append [of 0] mult_2 add.commute del: upt_Suc)
  then have "?m (2 ^ Suc k) = ?m (2 ^ k) @ map (\<lambda>j. f (of_nat (2 ^ k + j))) [0..<2 ^ k]" by (simp del: upt_Suc)
  also have "map (\<lambda>j. f (of_nat (2 ^ k + j))) [0..<2 ^ k] = map (\<lambda>x. f (of_nat (2 ^ k)) XOR x) (?m (2 ^ k))"
    by (simp del: of_nat_add of_nat_power add: of_nat_top_bit lin)
  finally show ?case by (simp add: Suc Let_def del: of_nat_power)
qed

lemma funpow_linear:
  fixes f :: "'a::len word \<Rightarrow> 'a word"
  assumes "\<And>x y. f (x XOR y) = f x XOR f y"
  shows "(f ^^ n) (x XOR y) = (f ^^ n) x XOR (f ^^ n) y"
  by (induction n) (simp_all add: assms)

lemma crc16_bit_linear: "crc16_bit (x XOR y) = crc16_bit x XOR crc16_bit y"
  unfolding crc16_bit_def by (rule bit_eqI) (auto simp: bit_simps)

lemma crc64_bit_linear: "crc64_bit (x XOR y) = crc64_bit x XOR crc64_bit y"
  unfolding crc64_bit_def by (rule bit_eqI) (auto simp: bit_simps)

lemma crc64_shift: "(\<And>i. i < n \<Longrightarrow> \<not> bit x i) \<Longrightarrow> (crc64_bit ^^ n) x = drop_bit n x"
proof (induction n arbitrary: x)
  case (Suc n)
  have "crc64_bit x = drop_bit 1 x" using Suc.prems [of 0] by (simp add: crc64_bit_def)
  moreover have "(crc64_bit ^^ n) (drop_bit 1 x) = drop_bit n (drop_bit 1 x)"
    using Suc.prems by (intro Suc.IH) (simp add: bit_drop_bit_eq)
  ultimately show ?case by (simp add: funpow_swap1)
qed simp

lemma crc16_shift: "n \<le> 16 \<Longrightarrow> (\<And>i. i < n \<Longrightarrow> \<not> bit x (15 - i)) \<Longrightarrow> (crc16_bit ^^ n) x = push_bit n x"
proof (induction n arbitrary: x)
  case (Suc n)
  have "crc16_bit x = push_bit 1 x" using Suc.prems(2) [of 0] by (simp add: crc16_bit_def)
  moreover have "(crc16_bit ^^ n) (push_bit 1 x) = push_bit n (push_bit 1 x)"
  proof (rule Suc.IH)
    fix i assume "i < n"
    then have "\<not> bit x (15 - i - 1)" using Suc.prems(2) [of "Suc i"] by simp
    then show "\<not> bit (push_bit 1 x) (15 - i)" by (simp only: bit_push_bit_iff) simp
  qed (use Suc.prems(1) in simp)
  ultimately show ?case by (simp add: funpow_swap1)
qed simp

section \<open>The tables\<close>

lemma crc_power_values:
  "rev (map (\<lambda>i. (crc64_bit ^^ 8) (of_nat (2 ^ i))) [0..<8]) =
     [crc64_tab ! 128, crc64_tab ! 64, crc64_tab ! 32, crc64_tab ! 16, crc64_tab ! 8, crc64_tab ! 4, crc64_tab ! 2, crc64_tab ! 1]"
  "rev (map (\<lambda>i. (crc16_bit ^^ 8) (push_bit 8 (of_nat (2 ^ i)))) [0..<8]) =
     [crc16tab ! 128, crc16tab ! 64, crc16tab ! 32, crc16tab ! 16, crc16tab ! 8, crc16tab ! 4, crc16tab ! 2, crc16tab ! 1]"
proof -
  have 8: "(f ^^ 8) x = f (f (f (f (f (f (f (f x)))))))" for f :: "'a \<Rightarrow> 'a" and x
    by (simp add: numeral_eq_Suc)
  have u: "[0..<8] = [0, 1, 2, 3, 4, 5, 6, 7::nat]" by (simp add: upt_rec)
  show "rev (map (\<lambda>i. (crc64_bit ^^ 8) (of_nat (2 ^ i))) [0..<8]) =
     [crc64_tab ! 128, crc64_tab ! 64, crc64_tab ! 32, crc64_tab ! 16, crc64_tab ! 8, crc64_tab ! 4, crc64_tab ! 2, crc64_tab ! 1]"
    unfolding u by (simp add: crc64_tab_def) (simp add: 8 crc64_bit_def)
  show "rev (map (\<lambda>i. (crc16_bit ^^ 8) (push_bit 8 (of_nat (2 ^ i)))) [0..<8]) =
     [crc16tab ! 128, crc16tab ! 64, crc16tab ! 32, crc16tab ! 16, crc16tab ! 8, crc16tab ! 4, crc16tab ! 2, crc16tab ! 1]"
    unfolding u by (simp add: crc16tab_def) (simp add: 8 crc16_bit_def)
qed

lemma crc64_tab_span: "xor_span [crc64_tab ! 128, crc64_tab ! 64, crc64_tab ! 32, crc64_tab ! 16, crc64_tab ! 8,
    crc64_tab ! 4, crc64_tab ! 2, crc64_tab ! 1] = crc64_tab"
  by (simp add: crc64_tab_def Let_def)

lemma crc16tab_span: "xor_span [crc16tab ! 128, crc16tab ! 64, crc16tab ! 32, crc16tab ! 16, crc16tab ! 8,
    crc16tab ! 4, crc16tab ! 2, crc16tab ! 1] = crc16tab"
  by (simp add: crc16tab_def Let_def)

lemma crc64_tab_value: "n < 256 \<Longrightarrow> crc64_tab ! n = (crc64_bit ^^ 8) (of_nat n)"
proof -
  assume n: "n < 256"
  have "map (\<lambda>i. (crc64_bit ^^ 8) (of_nat i)) [0..<2 ^ 8] = crc64_tab"
    using xor_span_table [of "crc64_bit ^^ 8" 8, OF funpow_linear [OF crc64_bit_linear]]
    unfolding crc_power_values crc64_tab_span .
  then have "crc64_tab ! n = map (\<lambda>i. (crc64_bit ^^ 8) (of_nat i)) [0..<256] ! n" by simp
  then show ?thesis using n by (simp only: nth_map length_upt nth_upt) simp
qed

lemma crc16tab_value: "n < 256 \<Longrightarrow> crc16tab ! n = (crc16_bit ^^ 8) (push_bit 8 (of_nat n))"
proof -
  assume n: "n < 256"
  have lin: "(crc16_bit ^^ 8) (push_bit 8 (x XOR y)) = (crc16_bit ^^ 8) (push_bit 8 x) XOR (crc16_bit ^^ 8) (push_bit 8 y)" for x y
    by (simp only: push_bit_xor funpow_linear [OF crc16_bit_linear])
  have "map (\<lambda>i. (crc16_bit ^^ 8) (push_bit 8 (of_nat i))) [0..<2 ^ 8] = crc16tab"
    using xor_span_table [of "\<lambda>x. (crc16_bit ^^ 8) (push_bit 8 x)" 8, OF lin]
    unfolding crc_power_values crc16tab_span .
  then have "crc16tab ! n = map (\<lambda>i. (crc16_bit ^^ 8) (push_bit 8 (of_nat i))) [0..<256] ! n" by simp
  then show ?thesis using n by (simp only: nth_map length_upt nth_upt) simp
qed

lemma byte_less: "unat (b :: byte) < 256"
  using unsigned_less [of b, where 'a = nat] by simp

lemma crc64_byte_correct: "crc64_byte crc b = (crc64_bit ^^ 8) (crc XOR ucast b)"
proof -
  let ?i = "ucast crc XOR b" and ?z = "crc XOR ucast b :: 64 word"
  have split: "?z = ucast ?i XOR (crc AND NOT (mask 8))"
    by (rule bit_eqI) (auto simp: bit_simps dest: bit_imp_le_length)
  have "(crc64_bit ^^ 8) (crc AND NOT (mask 8)) = drop_bit 8 (crc AND NOT (mask 8))"
    by (rule crc64_shift) (simp add: bit_simps)
  also have "\<dots> = drop_bit 8 crc"
    by (rule bit_eqI) (auto simp: bit_simps dest: bit_imp_le_length)
  finally have hi: "(crc64_bit ^^ 8) (crc AND NOT (mask 8)) = drop_bit 8 crc" .
  have "(crc64_bit ^^ 8) (ucast ?i) = crc64_tab ! unat ?i"
    using crc64_tab_value [OF byte_less, of ?i] by simp
  then show ?thesis unfolding split crc64_byte_def funpow_linear [OF crc64_bit_linear] hi by simp
qed

lemma crc16_byte_correct: "crc16_byte crc b = (crc16_bit ^^ 8) (crc XOR push_bit 8 (ucast b))"
proof -
  let ?i = "drop_bit 8 crc XOR ucast b" let ?z = "crc XOR push_bit 8 (ucast b) :: 16 word"
  have m: "?i AND 0x00FF = ?i"
  proof -
    have "(0x00FF :: 16 word) = mask 8" by (simp add: mask_numeral)
    moreover have "?i AND mask 8 = ?i" by (rule bit_eqI) (auto simp: bit_simps dest: bit_imp_le_length)
    ultimately show ?thesis by simp
  qed
  have split: "?z = push_bit 8 ?i XOR take_bit 8 crc"
    by (rule bit_eqI) (auto simp: bit_simps dest: bit_imp_le_length)
  have "(crc16_bit ^^ 8) (take_bit 8 crc) = push_bit 8 (take_bit 8 crc)"
    by (rule crc16_shift) (auto simp: bit_simps)
  also have "\<dots> = push_bit 8 crc" by (rule bit_eqI) (auto simp: bit_simps)
  finally have lo: "(crc16_bit ^^ 8) (take_bit 8 crc) = push_bit 8 crc" .
  have "unat ?i < 256"
  proof -
    have "?i = take_bit 8 ?i" by (rule bit_eqI) (auto simp: bit_simps dest: bit_imp_le_length)
    then have "unat ?i = take_bit 8 (unat ?i)" by (metis unsigned_take_bit_eq)
    then show ?thesis using take_bit_nat_less_exp [of 8 "unat ?i"] by simp
  qed
  then have "(crc16_bit ^^ 8) (push_bit 8 ?i) = crc16tab ! unat ?i" using crc16tab_value [of "unat ?i"] by simp
  then show ?thesis
    unfolding split crc16_byte_def m funpow_linear [OF crc16_bit_linear] lo by (simp only: xor.commute)
qed

lemma crc16_correct: "crc16 buf = crc16_ref buf"
  by (simp add: crc16_def crc16_ref_def crc16_byte_correct [abs_def])

lemma crc64_correct: "crc64 crc s = crc64_ref crc s"
  by (simp add: crc64_def crc64_ref_def crc64_byte_correct [abs_def])

text \<open>A buffer may be fed to \<open>crc64\<close> in pieces, as the RDB writer does.\<close>

lemma crc64_append: "crc64 crc (a @ b) = crc64 (crc64 crc a) b"
  by (simp add: crc64_def)

text \<open>The check values the sources document, for the digits 1 to 9.\<close>

lemma crc_check_values:
  "crc16 [49, 50, 51, 52, 53, 54, 55, 56, 57] = 0x31C3"
  "crc64 0 [49, 50, 51, 52, 53, 54, 55, 56, 57] = 0xE9C6D914C4B8D9CA"
  by (simp_all add: crc16_def crc64_def crc16_byte_def crc64_byte_def crc16tab_def crc64_tab_def)
end
