(* ===== verification/Glob.thy ===== *)
theory Glob
  imports Util
begin

text \<open>
  The glob-style pattern matching of \<open>util.c\<close>, \<open>stringmatchlen\<close>, used by KEYS, SCAN, the pub/sub patterns
  and keyspace notifications. A pointer into a buffer is the rest of the buffer from it, the
  terminating NUL included; the two lengths are the C \<open>int\<close>s that count down beside the pointers, and
  may become negative. Reading past the end of a buffer gives \<open>None\<close>. The reference semantics is a
  language of tokens, and \<open>stringmatchlen_correct\<close> states that the matcher decides it on the printed
  pattern.
\<close>

section \<open>The matcher\<close>

text \<open>The loop over the stars that follow a star; the pointer is at the first star.\<close>

fun skip_stars :: "byte list \<Rightarrow> int \<Rightarrow> (byte list \<times> int) option" where
  "skip_stars (c # d # p) n = (if d = ch CHR ''*'' then skip_stars (d # p) (n - 1) else Some (c # d # p, n))"
| "skip_stars _ n = None"

text \<open>The loop that tries the rest of the pattern at every suffix of the string.\<close>

fun star_loop :: "(byte list \<Rightarrow> int \<Rightarrow> bool option) \<Rightarrow> byte list \<Rightarrow> int \<Rightarrow> bool option" where
  "star_loop f s m =
     (if m = 0 then Some False
      else do { r \<leftarrow> f s m;
                if r then Some True
                else (case s of [] \<Rightarrow> None | x # s' \<Rightarrow> star_loop f s' (m - 1)) })"

definition char_eq :: "bool \<Rightarrow> byte \<Rightarrow> byte \<Rightarrow> bool" where
  "char_eq nocase a b = (if nocase then tolower_byte a = tolower_byte b else a = b)"

definition in_range :: "bool \<Rightarrow> byte \<Rightarrow> byte \<Rightarrow> byte \<Rightarrow> bool" where
  "in_range nocase a b x =
     (let lo = (if sint b < sint a then b else a); hi = (if sint b < sint a then a else b);
          fld = (\<lambda>c. sint (if nocase then tolower_byte c else c)) in
      fld lo \<le> fld x \<and> fld x \<le> fld hi)"

text \<open>The loop over a character class; \<open>prev\<close> is the byte before the pointer.\<close>

fun class_loop :: "bool \<Rightarrow> byte list \<Rightarrow> byte \<Rightarrow> byte list \<Rightarrow> int \<Rightarrow> bool \<Rightarrow> (byte list \<times> int \<times> bool) option" where
  "class_loop nocase s prev [] n mt = None"
| "class_loop nocase s prev (c # p) n mt =
     (if c = 92 then
        (case p of [] \<Rightarrow> None
         | d # p' \<Rightarrow> do { x \<leftarrow> mem_get s 0; class_loop nocase s d p' (n - 2) (mt \<or> d = x) })
      else if c = ch CHR '']'' then Some (c # p, n, mt)
      else if n = 0 then Some (prev # c # p, n + 1, mt)
      else (case p of [] \<Rightarrow> None
         | d # p' \<Rightarrow>
             if d = ch CHR ''-'' \<and> 3 \<le> n then
               (case p' of [] \<Rightarrow> None
                | e # p'' \<Rightarrow> do { x \<leftarrow> mem_get s 0; class_loop nocase s e p'' (n - 3) (mt \<or> in_range nocase c e x) })
             else do { x \<leftarrow> mem_get s 0; class_loop nocase s c p (n - 1) (mt \<or> char_eq nocase c x) }))"

lemmas class_step = class_loop.simps(2)

declare class_loop.simps(2) [simp del]

text \<open>The stars left in the pattern when the string is used up.\<close>

fun skip_lead :: "byte list \<Rightarrow> int \<Rightarrow> int option" where
  "skip_lead [] n = None"
| "skip_lead (c # p) n = (if c = ch CHR ''*'' then skip_lead p (n - 1) else Some n)"

lemma skip_stars_shrinks: "skip_stars p n = Some (p', n') \<Longrightarrow> length p' \<le> length p \<and> p' \<noteq> []"
  by (induction p n rule: skip_stars.induct) (auto split: if_splits)

lemma class_loop_shrinks: "class_loop nocase s prev p n mt = Some (p', n', mt') \<Longrightarrow> length (tl p') \<le> length p"
proof (induction p arbitrary: prev n mt rule: measure_induct_rule [of length])
  case (less p)
  have IH: "length p' - Suc 0 \<le> length p" if "class_loop nocase s prev r n mt = Some (p', n', mt')" "length r < length p" for prev r n mt
    using less.IH [of r prev n mt] that by simp
  show ?case
  proof (cases p)
    case (Cons c q)
    show ?thesis using less.prems unfolding Cons class_step
      using Cons by (auto split: if_splits list.splits Option.bind_splits dest!: IH)
  qed (use less.prems in simp)
qed

text \<open>
  The end of an iteration: the pointer moves past the character that was matched, and when the
  string is used up only stars may follow. \<open>rec\<close> is the next iteration.
\<close>

definition advance :: "(byte list \<Rightarrow> int \<Rightarrow> byte list \<Rightarrow> int \<Rightarrow> bool option) \<Rightarrow> byte list \<Rightarrow> int \<Rightarrow> byte list \<Rightarrow> int \<Rightarrow> bool option" where
  "advance rec p n s m =
     (case p of [] \<Rightarrow> None
      | _ # p' \<Rightarrow> if m = 0 then map_option (\<lambda>n'. n' = 0) (skip_lead p' (n - 1)) else rec p' (n - 1) s m)"

lemma advance_cong [fundef_cong]:
  assumes "p = p'" "n = n'" "s = s'" "m = m'" "p' \<noteq> [] \<Longrightarrow> rec (tl p') (n' - 1) s' m' = rec' (tl p') (n' - 1) s' m'"
  shows "advance rec p n s m = advance rec' p' n' s' m'"
  using assms by (cases p') (auto simp: advance_def)

function stringmatchlen :: "bool \<Rightarrow> byte list \<Rightarrow> int \<Rightarrow> byte list \<Rightarrow> int \<Rightarrow> bool option" where
  "stringmatchlen nocase p n s m =
     (if n = 0 then Some (m = 0)
      else (case p of [] \<Rightarrow> None
        | c # q \<Rightarrow>
           if c = ch CHR ''*'' then
             (case skip_stars (c # q) n of None \<Rightarrow> None
              | Some (p', n') \<Rightarrow>
                  if n' = 1 then Some True
                  else star_loop (\<lambda>s m. stringmatchlen nocase (tl p') (n' - 1) s m) s m)
           else if c = ch CHR ''?'' then
             (if m = 0 then Some False
              else (case s of [] \<Rightarrow> None | x # s' \<Rightarrow> advance (\<lambda>p n s m. stringmatchlen nocase p n s m) p n s' (m - 1)))
           else if c = ch CHR ''['' then
             (case q of [] \<Rightarrow> None
              | c1 # q1 \<Rightarrow>
                  (case (if c1 = ch CHR ''^'' then class_loop nocase s c1 q1 (n - 2) False
                         else class_loop nocase s c q (n - 1) False) of None \<Rightarrow> None
                   | Some (p', n', mt) \<Rightarrow>
                       if mt = (c1 = ch CHR ''^'') then Some False
                       else (case s of [] \<Rightarrow> None
                             | x # s' \<Rightarrow> advance (\<lambda>p n s m. stringmatchlen nocase p n s m) p' n' s' (m - 1))))
           else
             (case (if c = 92 \<and> 2 \<le> n then (q, n - 1) else (p, n)) of (p', n') \<Rightarrow>
                (case (mem_get p' 0, s) of
                   (Some d, x # s') \<Rightarrow>
                     if \<not> char_eq nocase d x then Some False
                     else advance (\<lambda>p n s m. stringmatchlen nocase p n s m) p' n' s' (m - 1)
                 | _ \<Rightarrow> None))))"
  by pat_completeness auto
termination
  apply (relation "measure (\<lambda>(nocase, p, n, s, m). length p)")
  subgoal by simp
  subgoal for nocase p n s m c q x p' n'
    using skip_stars_shrinks [of "c # q" n p' n'] by (cases p') auto
  subgoal by simp
  subgoal for nocase p n s m c q c1 q1 x p' y n' mt
    using class_loop_shrinks [of nocase s _ q _ False p' n' mt] class_loop_shrinks [of nocase s _ q1 _ False p' n' mt]
    by (force split: if_splits)
  subgoal by (auto split: if_splits)
  done

declare stringmatchlen.simps [simp del]

section \<open>The language of patterns\<close>

datatype class_item = Chr byte | Esc byte | Range byte byte

datatype token = Star | AnyChar | Class bool "class_item list" | Lit byte | EscLit byte

fun item_bytes :: "class_item \<Rightarrow> byte list" where
  "item_bytes (Chr a) = [a]"
| "item_bytes (Esc a) = [92, a]"
| "item_bytes (Range a b) = [a, ch CHR ''-'', b]"

fun token_bytes :: "token \<Rightarrow> byte list" where
  "token_bytes Star = [ch CHR ''*'']"
| "token_bytes AnyChar = [ch CHR ''?'']"
| "token_bytes (Class neg items) =
     ch CHR ''['' # (if neg then [ch CHR ''^''] else []) @ concat (map item_bytes items) @ [ch CHR '']'']"
| "token_bytes (Lit a) = [a]"
| "token_bytes (EscLit a) = [92, a]"

definition plain_item :: "byte \<Rightarrow> bool" where
  "plain_item a \<longleftrightarrow> a \<notin> {92, ch CHR '']'', ch CHR ''-'', ch CHR ''^''}"

fun item_ok :: "class_item \<Rightarrow> bool" where
  "item_ok (Chr a) = plain_item a"
| "item_ok (Esc a) = True"
| "item_ok (Range a b) = plain_item a"

fun token_ok :: "token \<Rightarrow> bool" where
  "token_ok (Class neg items) = list_all item_ok items"
| "token_ok (Lit a) = (a \<notin> {92, ch CHR ''*'', ch CHR ''?'', ch CHR ''[''})"
| "token_ok _ = True"

fun item_match :: "bool \<Rightarrow> byte \<Rightarrow> class_item \<Rightarrow> bool" where
  "item_match nocase x (Chr a) = char_eq nocase a x"
| "item_match nocase x (Esc a) = (a = x)"
| "item_match nocase x (Range a b) = in_range nocase a b x"

fun token_match :: "bool \<Rightarrow> byte \<Rightarrow> token \<Rightarrow> bool" where
  "token_match nocase x AnyChar = True"
| "token_match nocase x (Class neg items) = (list_ex (item_match nocase x) items \<noteq> neg)"
| "token_match nocase x (Lit a) = char_eq nocase a x"
| "token_match nocase x (EscLit a) = char_eq nocase a x"
| "token_match nocase x Star = False"

text \<open>A star stands for any string, every other token for one character.\<close>

fun glob :: "bool \<Rightarrow> token list \<Rightarrow> byte list \<Rightarrow> bool" where
  "glob nocase [] s = (s = [])"
| "glob nocase (Star # ts) [] = glob nocase ts []"
| "glob nocase (Star # ts) (x # s) = (glob nocase ts (x # s) \<or> glob nocase (Star # ts) s)"
| "glob nocase (t # ts) s = (case s of [] \<Rightarrow> False | x # s' \<Rightarrow> token_match nocase x t \<and> glob nocase ts s')"

definition pattern_bytes :: "token list \<Rightarrow> byte list" where
  "pattern_bytes ts = concat (map token_bytes ts)"

section \<open>Correctness\<close>

lemma glob_token:
  assumes "t \<noteq> Star"
  shows "glob nocase (t # ts) [] = False" "glob nocase (t # ts) (x # s) = (token_match nocase x t \<and> glob nocase ts s)"
  using assms by (cases t; simp)+

lemma glob_suffix: "glob nocase (Star # ts) s \<longleftrightarrow> (\<exists>k \<le> length s. glob nocase ts (drop k s))"
proof (induction s)
  case (Cons x s)
  have "(\<exists>k \<le> length (x # s). glob nocase ts (drop k (x # s))) \<longleftrightarrow>
      glob nocase ts (x # s) \<or> (\<exists>k \<le> length s. glob nocase ts (drop k s))"
    by (metis Suc_le_mono drop0 drop_Suc_Cons le0 length_Cons not0_implies_Suc)
  then show ?case using Cons.IH by simp
qed simp

lemma class_loop_items:
  assumes "list_all item_ok items" "n = int (length (concat (map item_bytes items))) + 1 + int k"
  shows "class_loop nocase (x # s) prev (concat (map item_bytes items) @ ch CHR '']'' # p) n mt =
    Some (ch CHR '']'' # p, 1 + int k, mt \<or> list_ex (item_match nocase x) items)"
  using assms
proof (induction items arbitrary: prev n mt)
  case Nil
  then show ?case by (simp add: class_step)
next
  case (Cons it items)
  have IH: "class_loop nocase (x # s) prev (concat (map item_bytes items) @ 93 # p)
      (int (length (concat (map item_bytes items))) + 1 + int k) mt =
    Some (93 # p, 1 + int k, mt \<or> list_ex (item_match nocase x) items)" for prev mt
    using Cons.IH Cons.prems(1) by simp
  have hd: "\<exists>d r. concat (map item_bytes items) @ 93 # p = d # r \<and> d \<noteq> ch CHR ''-''"
  proof (cases items)
    case Nil
    then show ?thesis by simp
  next
    case (Cons i js)
    then show ?thesis using Cons.prems(1) by (cases i) (auto simp: plain_item_def)
  qed
  obtain d r where dr: "concat (map item_bytes items) @ 93 # p = d # r" "d \<noteq> ch CHR ''-''" using hd by blast
  show ?case
  proof (cases it)
    case (Chr a)
    have a: "a \<noteq> 92" "a \<noteq> 93" using Cons.prems(1) Chr by (auto simp: plain_item_def)
    have "class_loop nocase (x # s) prev (a # concat (map item_bytes items) @ 93 # p) n mt =
      class_loop nocase (x # s) a (concat (map item_bytes items) @ 93 # p) (n - 1) (mt \<or> char_eq nocase a x)"
      unfolding dr(1) class_step using a dr(2) Cons.prems(2) by (simp add: mem_get_def)
    then show ?thesis using IH [of a "mt \<or> char_eq nocase a x"] Cons.prems(2) Chr by (simp add: algebra_simps)
  next
    case (Esc a)
    then show ?thesis using IH [of a "mt \<or> a = x"] Cons.prems(2)
      by (simp add: class_step mem_get_def algebra_simps)
  next
    case (Range a b)
    have a: "a \<noteq> 92" "a \<noteq> 93" using Cons.prems(1) Range by (auto simp: plain_item_def)
    show ?thesis using IH [of b "mt \<or> in_range nocase a b x"] Cons.prems(2) Range a
      by (simp add: class_step [of nocase "x # s" prev a] mem_get_def algebra_simps)
  qed
qed

lemma token_hd:
  assumes "token_ok t" "t \<noteq> Star"
  shows "\<exists>c r. token_bytes t = c # r \<and> c \<noteq> ch CHR ''*''"
  using assms by (cases t) auto

lemma pattern_hd:
  assumes "list_all token_ok (t # ts)" "t \<noteq> Star"
  shows "\<exists>c r. pattern_bytes (t # ts) @ [0] = c # r \<and> c \<noteq> ch CHR ''*''"
  using token_hd [of t] assms by (auto simp: pattern_bytes_def)

lemma skip_lead_tokens:
  assumes "list_all token_ok ts"
  shows "map_option (\<lambda>n'. n' = 0) (skip_lead (pattern_bytes ts @ [0]) (int (length (pattern_bytes ts)))) = Some (glob nocase ts [])"
  using assms
proof (induction ts)
  case (Cons t ts)
  show ?case
  proof (cases "t = Star")
    case True
    then show ?thesis using Cons by (simp add: pattern_bytes_def)
  next
    case False
    then obtain c r where cr: "token_bytes t = c # r" "c \<noteq> ch CHR ''*''" using token_hd [of t] Cons.prems by auto
    then show ?thesis using glob_token(1) [OF False] by (simp add: pattern_bytes_def)
  qed
qed (simp add: pattern_bytes_def)

lemma star_loop_suffixes:
  assumes "\<And>k. k < length s \<Longrightarrow> f (drop k s @ [0]) (int (length s - k)) = Some (g (drop k s))"
  shows "star_loop f (s @ [0]) (int (length s)) = Some (\<exists>k < length s. g (drop k s))"
  using assms
proof (induction s)
  case (Cons x s)
  have "f (drop k s @ [0]) (int (length s - k)) = Some (g (drop k s))" if "k < length s" for k
    using Cons.prems [of "Suc k"] that by simp
  then have IH: "star_loop f (s @ [0]) (int (length s)) = Some (\<exists>k < length s. g (drop k s))"
    by (rule Cons.IH)
  have "(\<exists>k < length (x # s). g (drop k (x # s))) \<longleftrightarrow> g (x # s) \<or> (\<exists>k < length s. g (drop k s))"
    by (metis Suc_less_eq drop0 drop_Suc_Cons length_Cons not0_implies_Suc zero_less_Suc)
  then show ?case using Cons.prems [of 0] IH by (subst star_loop.simps) (simp add: add.commute)
qed simp

text \<open>The matcher at a printed pattern and at a string with at least one character.\<close>

definition matches :: "bool \<Rightarrow> token list \<Rightarrow> byte list \<Rightarrow> bool option" where
  "matches nocase ts s =
     stringmatchlen nocase (pattern_bytes ts @ [0]) (int (length (pattern_bytes ts))) (s @ [0]) (int (length s))"

lemma advance_tokens:
  assumes "list_all token_ok ts" "n = int (length (pattern_bytes ts)) + 1" "m = int (length s)"
  shows "advance (stringmatchlen nocase) (c # pattern_bytes ts @ [0]) n (s @ [0]) m =
    (if s = [] then Some (glob nocase ts []) else matches nocase ts s)"
  using skip_lead_tokens [OF assms(1), of nocase] assms(2,3) by (simp add: advance_def matches_def)

lemma matches_token:
  assumes t: "token_ok t" "t \<noteq> Star" and ts: "list_all token_ok ts"
  shows "matches nocase (t # ts) (x # s) =
    (if \<not> token_match nocase x t then Some False else if s = [] then Some (glob nocase ts []) else matches nocase ts s)"
proof -
  note adv = advance_tokens [OF ts, of _ _ s nocase]
  have app: "pattern_bytes (t # ts) = token_bytes t @ pattern_bytes ts" for t by (simp add: pattern_bytes_def)
  have start: "matches nocase (t # ts) (x # s) =
      stringmatchlen nocase (token_bytes t @ pattern_bytes ts @ [0]) (int (length (token_bytes t)) + int (length (pattern_bytes ts)))
        (x # s @ [0]) (1 + int (length s))" for t
    by (simp add: matches_def app)
  show ?thesis
  proof (cases t)
    case Star
    then show ?thesis using t by simp
  next
    case AnyChar
    show ?thesis unfolding start AnyChar by (subst stringmatchlen.simps) (simp add: adv)
  next
    case (Class neg items)
    define body where "body = concat (map item_bytes items) @ ch CHR '']'' # pattern_bytes ts @ [0]"
    define n where "n = int (length (concat (map item_bytes items))) + 1 + int (length (pattern_bytes ts))"
    have loop: "class_loop nocase (x # s @ [0]) prev body n False =
        Some (ch CHR '']'' # pattern_bytes ts @ [0], 1 + int (length (pattern_bytes ts)), list_ex (item_match nocase x) items)" for prev
      using class_loop_items [of items n "length (pattern_bytes ts)" nocase x "s @ [0]" prev "pattern_bytes ts @ [0]" False] t Class
      by (simp add: body_def n_def)
    have hd: "\<exists>d r. body = d # r \<and> d \<noteq> ch CHR ''^''"
    proof (cases items)
      case (Cons i js)
      then show ?thesis using t Class by (cases i) (auto simp: plain_item_def body_def)
    qed (simp add: body_def)
    then obtain d r where dr: "body = d # r" "d \<noteq> ch CHR ''^''" by blast
    have split: "token_bytes t @ pattern_bytes ts @ [0] = ch CHR ''['' # (if neg then [ch CHR ''^''] else []) @ body"
      "int (length (token_bytes t)) + int (length (pattern_bytes ts)) = (if neg then 2 else 1) + n"
      by (simp_all add: Class body_def n_def)
    have n: "0 < n" by (simp add: n_def)
    show ?thesis
    proof (cases neg)
      case True
      show ?thesis unfolding start split using loop [of "ch CHR ''^''"] n True Class
        by (subst stringmatchlen.simps) (simp add: adv)
    next
      case False
      show ?thesis unfolding start split using loop [of "ch CHR ''[''"] n False Class dr
        by (subst stringmatchlen.simps) (simp add: adv)
    qed
  next
    case (Lit a)
    show ?thesis unfolding start Lit using t Lit by (subst stringmatchlen.simps) (simp add: mem_get_def adv)
  next
    case (EscLit a)
    show ?thesis unfolding start EscLit by (subst stringmatchlen.simps) (simp add: mem_get_def adv)
  qed
qed

lemma matches_stars: "matches nocase (Star # Star # ts) s = matches nocase (Star # ts) s"
  unfolding matches_def
  by (subst (1 2) stringmatchlen.simps) (simp add: pattern_bytes_def)

lemma matches_star:
  assumes ts: "list_all token_ok (t # ts)" "t \<noteq> Star"
    and IH: "\<And>s. s \<noteq> [] \<Longrightarrow> matches nocase (t # ts) s = Some (glob nocase (t # ts) s)"
  shows "matches nocase (Star # t # ts) s = Some (glob nocase (Star # t # ts) s)"
proof -
  obtain c r where cr: "pattern_bytes (t # ts) @ [0] = c # r" "c \<noteq> ch CHR ''*''" using pattern_hd [OF ts] by blast
  have ne: "0 < length (pattern_bytes (t # ts))" using token_hd [of t] ts by (auto simp: pattern_bytes_def)
  have app: "pattern_bytes (Star # us) = ch CHR ''*'' # pattern_bytes us" for us by (simp add: pattern_bytes_def)
  define f where "f = stringmatchlen nocase (pattern_bytes (t # ts) @ [0]) (int (length (pattern_bytes (t # ts))))"
  have "matches nocase (Star # t # ts) s = star_loop f (s @ [0]) (int (length s))"
    unfolding matches_def f_def
    using cr ne by (subst stringmatchlen.simps) (simp add: app)
  also have "\<dots> = Some (\<exists>k < length s. glob nocase (t # ts) (drop k s))"
  proof (rule star_loop_suffixes)
    fix k
    assume "k < length s"
    then show "f (drop k s @ [0]) (int (length s - k)) = Some (glob nocase (t # ts) (drop k s))"
      using IH [of "drop k s"] by (simp add: f_def matches_def)
  qed
  also have "(\<exists>k < length s. glob nocase (t # ts) (drop k s)) = glob nocase (Star # t # ts) s"
    unfolding glob_suffix using glob_token(1) [OF ts(2), of nocase ts]
    by (metis drop_all le_eq_less_or_eq nle_le)
  finally show ?thesis .
qed

theorem stringmatchlen_correct:
  assumes "list_all token_ok ts" "s \<noteq> []"
  shows "matches nocase ts s = Some (glob nocase ts s)"
  using assms
proof (induction ts arbitrary: s)
  case Nil
  then show ?case by (subst matches_def) (simp add: pattern_bytes_def stringmatchlen.simps)
next
  case (Cons t ts)
  have ts: "list_all token_ok ts" "token_ok t" using Cons.prems by simp_all
  note IH = Cons.IH [OF ts(1)]
  obtain x xs where s: "s = x # xs" using Cons.prems(2) by (cases s) auto
  consider (stars) ts' where "t = Star" "ts = Star # ts'" | (last) "t = Star" "ts = []"
    | (star) u us where "t = Star" "ts = u # us" "u \<noteq> Star" | (one) "t \<noteq> Star"
    by (cases ts) auto
  then show ?case
  proof cases
    case stars
    have "glob nocase (Star # Star # ts') s = glob nocase (Star # ts') s"
      by (induction s) auto
    then show ?thesis using IH [OF Cons.prems(2)] stars by (simp add: matches_stars)
  next
    case last
    have "glob nocase [Star] s" by (induction s) auto
    then show ?thesis using last by (subst matches_def) (simp add: stringmatchlen.simps pattern_bytes_def)
  next
    case star
    show ?thesis unfolding star by (rule matches_star) (use IH ts star in auto)
  next
    case one
    show ?thesis unfolding s matches_token [OF ts(2) one ts(1)] glob_token(2) [OF one]
      using IH [of xs] by simp
  qed
qed

text \<open>On the empty string a negated class compares with the terminator, and the match goes wrong.\<close>

lemma stringmatchlen_empty_class:
  "matches False [Class True [Chr (ch CHR ''a'')], Star] [] = Some True"
  "\<not> glob False [Class True [Chr (ch CHR ''a'')], Star] []"
  "matches False [Class True [Chr (ch CHR ''a'')], AnyChar, Lit (ch CHR ''b'')] [] = None"
  by (simp_all add: matches_def pattern_bytes_def stringmatchlen.simps class_step mem_get_def char_eq_def advance_def)

end
