(* ===== verification/Objects.thy ===== *)
theory Objects
  imports Sds_Ops
begin

text \<open>
  The string objects of \<open>object.c\<close>: creation in the three string encodings, \<open>tryObjectEncoding\<close>,
  \<open>getDecodedObject\<close>, comparison, length and conversion to an integer.

  An object is its type, its encoding and what its \<open>ptr\<close> field holds. The body of a list, set, sorted
  set or hash is opaque: the commands modelled here only move it as a whole. Objects are values: two
  pointers to one object are two equal values. The reference count is therefore no field; where the
  code tests it, the count is an argument. The access time \<open>lru\<close> is left out. The choice between a
  shared integer object and a private one makes no difference to the value.
\<close>

section \<open>Objects\<close>

datatype rtype = REDIS_STRING | REDIS_LIST | REDIS_SET | REDIS_ZSET | REDIS_HASH

datatype rencoding = REDIS_ENCODING_RAW | REDIS_ENCODING_INT | REDIS_ENCODING_HT | REDIS_ENCODING_ZIPMAP
  | REDIS_ENCODING_LINKEDLIST | REDIS_ENCODING_ZIPLIST | REDIS_ENCODING_INTSET | REDIS_ENCODING_SKIPLIST
  | REDIS_ENCODING_EMBSTR

datatype rptr = PSds sdshdr | PLong int | PBody nat

record robj =
  o_type :: rtype
  o_encoding :: rencoding
  o_ptr :: rptr

definition createObject :: "rtype \<Rightarrow> rptr \<Rightarrow> robj" where
  "createObject ty p = \<lparr>o_type = ty, o_encoding = REDIS_ENCODING_RAW, o_ptr = p\<rparr>"

definition createRawStringObject :: "(nat \<Rightarrow> byte) \<Rightarrow> byte list option \<Rightarrow> nat \<Rightarrow> robj option" where
  "createRawStringObject garb p len = do {
     s \<leftarrow> sdsnewlen garb p len;
     Some (createObject REDIS_STRING (PSds s)) }"

text \<open>The header and the bytes lie behind the object in one block; the buffer starts at the header's end.\<close>

definition createEmbeddedStringObject :: "(nat \<Rightarrow> byte) \<Rightarrow> byte list option \<Rightarrow> nat \<Rightarrow> robj option" where
  "createEmbeddedStringObject garb p len = do {
     let buf = map garb [0..<len + 1];
     buf \<leftarrow> (case p of
         Some t \<Rightarrow> do { bs \<leftarrow> mem_read t 0 len; buf \<leftarrow> mem_write buf 0 bs; mem_set buf len 0 }
       | None \<Rightarrow> mem_write buf 0 (replicate (len + 1) 0));
     Some \<lparr>o_type = REDIS_STRING, o_encoding = REDIS_ENCODING_EMBSTR,
       o_ptr = PSds \<lparr>s_len = u32 len, s_free = 0, s_buf = buf\<rparr>\<rparr> }"

definition REDIS_ENCODING_EMBSTR_SIZE_LIMIT :: nat where "REDIS_ENCODING_EMBSTR_SIZE_LIMIT = 39"

definition createStringObject :: "(nat \<Rightarrow> byte) \<Rightarrow> byte list option \<Rightarrow> nat \<Rightarrow> robj option" where
  "createStringObject garb p len =
     (if len \<le> REDIS_ENCODING_EMBSTR_SIZE_LIMIT then createEmbeddedStringObject garb p len
      else createRawStringObject garb p len)"

definition REDIS_SHARED_INTEGERS :: int where "REDIS_SHARED_INTEGERS = 10000"

definition shared_integers :: "int \<Rightarrow> robj" where
  "shared_integers j = (createObject REDIS_STRING (PLong j))\<lparr>o_encoding := REDIS_ENCODING_INT\<rparr>"

definition createStringObjectFromLongLong :: "(nat \<Rightarrow> byte) \<Rightarrow> int \<Rightarrow> robj option" where
  "createStringObjectFromLongLong garb v =
     (if 0 \<le> v \<and> v < REDIS_SHARED_INTEGERS then Some (shared_integers v)
      else if LLONG_MIN \<le> v \<and> v \<le> LLONG_MAX then
        Some ((createObject REDIS_STRING (PLong 0))\<lparr>o_encoding := REDIS_ENCODING_INT, o_ptr := PLong v\<rparr>)
      else do { s \<leftarrow> sdsfromlonglong garb v; Some (createObject REDIS_STRING (PSds s)) })"

definition sdsEncodedObject :: "robj \<Rightarrow> bool" where
  "sdsEncodedObject ob \<longleftrightarrow> o_encoding ob = REDIS_ENCODING_RAW \<or> o_encoding ob = REDIS_ENCODING_EMBSTR"

fun ptr_sds :: "rptr \<Rightarrow> sdshdr option" where
  "ptr_sds (PSds s) = Some s"
| "ptr_sds _ = None"

fun ptr_long :: "rptr \<Rightarrow> int option" where
  "ptr_long (PLong v) = Some v"
| "ptr_long _ = None"

definition isObjectRepresentableAsLongLong :: "robj \<Rightarrow> int option option" where
  "isObjectRepresentableAsLongLong ob =
     (if o_type ob \<noteq> REDIS_STRING then None
      else if o_encoding ob = REDIS_ENCODING_INT then map_option Some (ptr_long (o_ptr ob))
      else do { s \<leftarrow> ptr_sds (o_ptr ob); Some (string2ll (sds_str s)) })"

text \<open>\<open>refs\<close> is the reference count of the object.\<close>

definition tryObjectEncoding :: "(nat \<Rightarrow> byte) \<Rightarrow> nat \<Rightarrow> robj \<Rightarrow> robj option" where
  "tryObjectEncoding garb refs ob =
     (if o_type ob \<noteq> REDIS_STRING then None
      else if \<not> sdsEncodedObject ob then Some ob
      else if refs > 1 then Some ob
      else do {
        s \<leftarrow> ptr_sds (o_ptr ob);
        let len = sdslen s;
        (case (if len \<le> 21 then string2l (take len (s_buf s)) else None) of
           Some v \<Rightarrow>
             if 0 \<le> v \<and> v < REDIS_SHARED_INTEGERS then Some (shared_integers v)
             else Some (ob\<lparr>o_encoding := REDIS_ENCODING_INT, o_ptr := PLong v\<rparr>)
         | None \<Rightarrow>
             if len \<le> REDIS_ENCODING_EMBSTR_SIZE_LIMIT then
               (if o_encoding ob = REDIS_ENCODING_EMBSTR then Some ob
                else createEmbeddedStringObject garb (Some (s_buf s)) (sdslen s))
             else if o_encoding ob = REDIS_ENCODING_RAW \<and> sdsavail s > len div 10
             then Some (ob\<lparr>o_ptr := PSds (sdsRemoveFreeSpace garb s)\<rparr>)
             else Some ob) })"

definition getDecodedObject :: "(nat \<Rightarrow> byte) \<Rightarrow> robj \<Rightarrow> robj option" where
  "getDecodedObject garb ob =
     (if sdsEncodedObject ob then Some ob
      else if o_type ob = REDIS_STRING \<and> o_encoding ob = REDIS_ENCODING_INT then do {
        v \<leftarrow> ptr_long (o_ptr ob);
        (_, buf) \<leftarrow> ll2string (map garb [0..<32]) 32 v;
        n \<leftarrow> strlen buf;
        createStringObject garb (Some buf) n }
      else None)"

text \<open>The bytes of a string object and their number, an integer printed into a buffer of \<open>sz\<close> bytes.\<close>

definition object_chars :: "(nat \<Rightarrow> byte) \<Rightarrow> nat \<Rightarrow> robj \<Rightarrow> (byte list \<times> nat) option" where
  "object_chars garb sz ob =
     (if sdsEncodedObject ob then do { s \<leftarrow> ptr_sds (o_ptr ob); Some (s_buf s, sdslen s) }
      else do { v \<leftarrow> ptr_long (o_ptr ob); (n, buf) \<leftarrow> ll2string (map garb [0..<sz]) sz v; Some (buf, n) })"

definition compareStringObjects :: "(nat \<Rightarrow> byte) \<Rightarrow> robj \<Rightarrow> robj \<Rightarrow> int option" where
  "compareStringObjects garb a b =
     (if o_type a \<noteq> REDIS_STRING \<or> o_type b \<noteq> REDIS_STRING then None
      else do {
        (astr, alen) \<leftarrow> object_chars garb 128 a;
        (bstr, blen) \<leftarrow> object_chars garb 128 b;
        let minlen = (if alen < blen then alen else blen);
        let cmp = memcmp (take minlen astr) (take minlen bstr);
        Some (if cmp = 0 then s32 (int alen - int blen) else cmp) })"

definition equalStringObjects :: "(nat \<Rightarrow> byte) \<Rightarrow> robj \<Rightarrow> robj \<Rightarrow> bool option" where
  "equalStringObjects garb a b =
     (if o_encoding a = REDIS_ENCODING_INT \<and> o_encoding b = REDIS_ENCODING_INT then Some (o_ptr a = o_ptr b)
      else map_option (\<lambda>c. c = 0) (compareStringObjects garb a b))"

definition stringObjectLen :: "(nat \<Rightarrow> byte) \<Rightarrow> robj \<Rightarrow> nat option" where
  "stringObjectLen garb ob =
     (if o_type ob \<noteq> REDIS_STRING then None
      else if sdsEncodedObject ob then do { s \<leftarrow> ptr_sds (o_ptr ob); Some (sdslen s) }
      else do { v \<leftarrow> ptr_long (o_ptr ob); (n, _) \<leftarrow> ll2string (map garb [0..<32]) 32 v; Some n })"

text \<open>
  The base-10 \<open>strtoll\<close> of the C library: white space, a sign, digits. The value is saturated and the
  flag (\<open>ERANGE\<close>) set when it does not fit; the bytes left are what \<open>eptr\<close> points to.
\<close>

definition isspace :: "byte \<Rightarrow> bool" where
  "isspace c \<longleftrightarrow> c = 32 \<or> 9 \<le> c \<and> c \<le> 13"

definition strtoll :: "byte list \<Rightarrow> int \<times> byte list \<times> bool" where
  "strtoll s =
     (let p = dropWhile isspace s;
          negative = (p \<noteq> [] \<and> hd p = ch CHR ''-'');
          q = (if p \<noteq> [] \<and> (hd p = ch CHR ''-'' \<or> hd p = ch CHR ''+'') then tl p else p);
          ds = takeWhile isdigit q;
          v = (if negative then - int (num 0 ds) else int (num 0 ds)) in
      if ds = [] then (0, s, False)
      else (max LLONG_MIN (min LLONG_MAX v), dropWhile isdigit q, v < LLONG_MIN \<or> v > LLONG_MAX))"

text \<open>The outer option is undefined behaviour or a panic, the inner one the error return.\<close>

definition getLongLongFromObject :: "robj option \<Rightarrow> int option option" where
  "getLongLongFromObject arg = (case arg of
     None \<Rightarrow> Some (Some 0)
   | Some ob \<Rightarrow>
       if o_type ob \<noteq> REDIS_STRING then None
       else if sdsEncodedObject ob then do {
         s \<leftarrow> ptr_sds (o_ptr ob);
         n \<leftarrow> strlen (s_buf s);
         let str = take n (s_buf s);
         let (v, rest, erange) = strtoll str;
         Some (if str \<noteq> [] \<and> isspace (hd str) \<or> rest \<noteq> [] \<or> erange then None else Some v) }
       else if o_encoding ob = REDIS_ENCODING_INT then map_option Some (ptr_long (o_ptr ob))
       else None)"

fun strEncoding :: "rencoding \<Rightarrow> byte list" where
  "strEncoding REDIS_ENCODING_RAW = bytes ''raw''"
| "strEncoding REDIS_ENCODING_INT = bytes ''int''"
| "strEncoding REDIS_ENCODING_HT = bytes ''hashtable''"
| "strEncoding REDIS_ENCODING_LINKEDLIST = bytes ''linkedlist''"
| "strEncoding REDIS_ENCODING_ZIPLIST = bytes ''ziplist''"
| "strEncoding REDIS_ENCODING_INTSET = bytes ''intset''"
| "strEncoding REDIS_ENCODING_SKIPLIST = bytes ''skiplist''"
| "strEncoding REDIS_ENCODING_EMBSTR = bytes ''embstr''"
| "strEncoding REDIS_ENCODING_ZIPMAP = bytes ''unknown''"

section \<open>The string an object stands for\<close>

definition STRING_MAX :: nat where "STRING_MAX = 512 * 1024 * 1024"

fun str_val :: "robj \<Rightarrow> byte list" where
  "str_val ob = (case o_ptr ob of PSds s \<Rightarrow> sds_str s | PLong v \<Rightarrow> sdec v | PBody _ \<Rightarrow> [])"

declare str_val.simps [simp del]

text \<open>A well-formed object, and one that is a string.\<close>

definition string_wf :: "robj \<Rightarrow> bool" where
  "string_wf ob \<longleftrightarrow> o_type ob = REDIS_STRING \<and>
     (case o_ptr ob of
        PSds s \<Rightarrow> sdsEncodedObject ob \<and> sds_inv s \<and> s_len s \<le> STRING_MAX
      | PLong v \<Rightarrow> o_encoding ob = REDIS_ENCODING_INT \<and> int64_range v
      | PBody _ \<Rightarrow> False)"

definition obj_wf :: "robj \<Rightarrow> bool" where
  "obj_wf ob \<longleftrightarrow> string_wf ob \<or> o_type ob \<noteq> REDIS_STRING"

lemma string_wf_cases:
  assumes "string_wf ob"
  obtains s where "o_ptr ob = PSds s" "sdsEncodedObject ob" "sds_inv s" "s_len s \<le> STRING_MAX" "str_val ob = sds_str s" "o_type ob = REDIS_STRING"
  | v where "o_ptr ob = PLong v" "o_encoding ob = REDIS_ENCODING_INT" "\<not> sdsEncodedObject ob" "int64_range v" "str_val ob = sdec v" "o_type ob = REDIS_STRING"
  using assms by (cases "o_ptr ob") (auto simp: string_wf_def str_val.simps sdsEncodedObject_def)

lemma string_wf_sds:
  assumes "sds_inv s" "s_len s \<le> STRING_MAX"
  shows "string_wf (createObject REDIS_STRING (PSds s))" "str_val (createObject REDIS_STRING (PSds s)) = sds_str s"
    "e = REDIS_ENCODING_RAW \<or> e = REDIS_ENCODING_EMBSTR \<Longrightarrow> string_wf \<lparr>o_type = REDIS_STRING, o_encoding = e, o_ptr = PSds s\<rparr>"
    "str_val \<lparr>o_type = REDIS_STRING, o_encoding = e, o_ptr = PSds s\<rparr> = sds_str s"
  using assms by (auto simp: string_wf_def createObject_def sdsEncodedObject_def str_val.simps)

lemma string_wf_long:
  assumes "int64_range v"
  shows "string_wf \<lparr>o_type = REDIS_STRING, o_encoding = REDIS_ENCODING_INT, o_ptr = PLong v\<rparr>"
    "str_val \<lparr>o_type = REDIS_STRING, o_encoding = REDIS_ENCODING_INT, o_ptr = PLong v\<rparr> = sdec v"
  using assms by (auto simp: string_wf_def str_val.simps)

lemma length_str_val:
  assumes "string_wf ob"
  shows "length (str_val ob) \<le> STRING_MAX"
  using assms
proof (cases rule: string_wf_cases)
  case (2 v)
  then have "length (sdec v) \<le> 20" by (intro length_sdec_bound)
  then show ?thesis using 2 by (simp add: STRING_MAX_def)
qed (simp add: length_sds_str)

lemma createEmbeddedStringObject_correct:
  assumes "len \<le> length t" "len \<le> STRING_MAX"
  shows "\<exists>ob. createEmbeddedStringObject garb (Some t) len = Some ob \<and> string_wf ob \<and> str_val ob = take len t"
proof -
  let ?buf = "(take len t @ drop len (map garb [0..<len + 1]))[len := 0]"
  have buf: "length ?buf = len + 0 + 1" "len + 0 < 2 ^ 32" "?buf ! len = 0" "take len ?buf = take len t"
    using assms by (simp_all add: STRING_MAX_def list_update_append nth_append)
  have "createEmbeddedStringObject garb (Some t) len =
      Some \<lparr>o_type = REDIS_STRING, o_encoding = REDIS_ENCODING_EMBSTR, o_ptr = PSds \<lparr>s_len = len, s_free = 0, s_buf = ?buf\<rparr>\<rparr>"
    using assms by (simp add: createEmbeddedStringObject_def mem_simps STRING_MAX_def min_def)
  then show ?thesis
    using string_wf_sds(3,4) [OF sds_make(1) [OF buf(1-3)], of REDIS_ENCODING_EMBSTR] sds_make(2) [OF buf(1-3)] buf(4) assms(2) by simp
qed

lemma createRawStringObject_correct:
  assumes "len \<le> length t" "len \<le> STRING_MAX"
  shows "\<exists>ob. createRawStringObject garb (Some t) len = Some ob \<and> string_wf ob \<and> str_val ob = take len t \<and>
    (\<exists>s. o_ptr ob = PSds s \<and> o_encoding ob = REDIS_ENCODING_RAW)"
proof -
  obtain s where s: "sdsnewlen garb (Some t) len = Some s" "sds_inv s" "sds_str s = take len t"
    using sdsnewlen_correct [of len t garb] assms by (auto simp: STRING_MAX_def)
  then have "s_len s = len" using length_sds_str [OF s(2)] assms(1) by simp
  then show ?thesis using s assms(2) string_wf_sds(1,2) [OF s(2)]
    by (simp add: createRawStringObject_def) (simp add: createObject_def)
qed

lemma createStringObject_correct:
  assumes "len \<le> length t" "len \<le> STRING_MAX"
  shows "\<exists>ob. createStringObject garb (Some t) len = Some ob \<and> string_wf ob \<and> str_val ob = take len t"
  using createEmbeddedStringObject_correct [OF assms, of garb] createRawStringObject_correct [OF assms, of garb]
  by (auto simp: createStringObject_def)

lemma shared_integers_wf: "int64_range v \<Longrightarrow> string_wf (shared_integers v) \<and> str_val (shared_integers v) = sdec v"
  using string_wf_long [of v] by (simp add: shared_integers_def createObject_def)

lemma createStringObjectFromLongLong_correct:
  assumes "int64_range v"
  shows "\<exists>ob. createStringObjectFromLongLong garb v = Some ob \<and> string_wf ob \<and> str_val ob = sdec v"
  using shared_integers_wf [OF assms] string_wf_long [OF assms] assms
  by (auto simp: createStringObjectFromLongLong_def createObject_def int64_range_def LLONG_MIN_def LLONG_MAX_def)

text \<open>Encoding an object never changes the string it stands for.\<close>

lemma tryObjectEncoding_correct:
  assumes wf: "string_wf ob"
  shows "\<exists>ob'. tryObjectEncoding garb refs ob = Some ob' \<and> string_wf ob' \<and> str_val ob' = str_val ob"
  using wf
proof (cases rule: string_wf_cases)
  case (2 v)
  then show ?thesis using wf by (simp add: tryObjectEncoding_def)
next
  case (1 s)
  have len: "sdslen s = s_len s" "take (s_len s) (s_buf s) = sds_str s" by (simp_all add: sdslen_def sds_str_def)
  have lenb: "s_len s \<le> length (s_buf s)" using 1(3) by (simp add: sds_inv_def)
  show ?thesis
  proof (cases "refs > 1")
    case True
    then show ?thesis using wf 1 by (simp add: tryObjectEncoding_def)
  next
    case refs: False
    show ?thesis
    proof (cases "if s_len s \<le> 21 then string2l (sds_str s) else None")
      case None
      have eq: "tryObjectEncoding garb refs ob =
         (if s_len s \<le> REDIS_ENCODING_EMBSTR_SIZE_LIMIT then
            (if o_encoding ob = REDIS_ENCODING_EMBSTR then Some ob else createEmbeddedStringObject garb (Some (s_buf s)) (s_len s))
          else if o_encoding ob = REDIS_ENCODING_RAW \<and> sdsavail s > s_len s div 10
          then Some (ob\<lparr>o_ptr := PSds (sdsRemoveFreeSpace garb s)\<rparr>) else Some ob)"
        using 1 refs None unfolding tryObjectEncoding_def by (cases "s_len s \<le> 21") (simp_all add: len Let_def)
      have "string_wf (ob\<lparr>o_ptr := PSds (sdsRemoveFreeSpace garb s)\<rparr>)"
        "str_val (ob\<lparr>o_ptr := PSds (sdsRemoveFreeSpace garb s)\<rparr>) = sds_str s"
        using sdsRemoveFreeSpace_correct [OF 1(3), of garb] 1
        by (auto simp: string_wf_def str_val.simps sdsEncodedObject_def sdsRemoveFreeSpace_def)
      then show ?thesis
        using eq 1 wf createEmbeddedStringObject_correct [OF lenb 1(4), of garb] by (auto simp: len)
    next
      case (Some v)
      then have v: "int64_range v" "sds_str s = sdec v" using string2l_correct [of "sds_str s" v] by (auto split: if_splits)
      have "ob\<lparr>o_encoding := REDIS_ENCODING_INT, o_ptr := PLong v\<rparr> =
          \<lparr>o_type = REDIS_STRING, o_encoding = REDIS_ENCODING_INT, o_ptr = PLong v\<rparr>" using 1(6) by (cases ob) simp
      then have "tryObjectEncoding garb refs ob = Some (if 0 \<le> v \<and> v < REDIS_SHARED_INTEGERS then shared_integers v
         else \<lparr>o_type = REDIS_STRING, o_encoding = REDIS_ENCODING_INT, o_ptr = PLong v\<rparr>)"
        using 1 refs Some unfolding tryObjectEncoding_def by (cases "s_len s \<le> 21") (simp_all add: len Let_def)
      then show ?thesis using v shared_integers_wf [OF v(1)] string_wf_long [OF v(1)] 1(5) by auto
    qed
  qed
qed

text \<open>An integer printed into a large enough buffer.\<close>

lemma ll2string_object:
  assumes "int64_range v" "32 \<le> sz"
  shows "\<exists>r. ll2string (map garb [0..<sz]) sz v = Some (length (sdec v), sdec v @ 0 # r)"
proof -
  have "length (sdec v) < sz" using length_sdec_bound [OF assms(1)] assms(2) by simp
  then show ?thesis using ll2string_correct [OF assms(1), of sz "map garb [0..<sz]"] by simp
qed

lemma sdec_no_nul: "0 \<notin> set (sdec v)"
  using dec_digits(1) [of "nat v"] dec_digits(1) [of "nat (- v)"] by (auto simp: sdec_def isdigit_def)

lemma strlen_cstring: "0 \<notin> set t \<Longrightarrow> strlen (t @ 0 # r) = Some (length t)"
  by (induction t) auto

lemma getDecodedObject_correct:
  assumes wf: "string_wf ob"
  shows "\<exists>ob'. getDecodedObject garb ob = Some ob' \<and> string_wf ob' \<and> sdsEncodedObject ob' \<and> str_val ob' = str_val ob"
  using wf
proof (cases rule: string_wf_cases)
  case (1 s)
  then show ?thesis using wf by (simp add: getDecodedObject_def)
next
  case (2 v)
  obtain r where r: "ll2string (map garb [0..<32]) 32 v = Some (length (sdec v), sdec v @ 0 # r)"
    using ll2string_object [OF 2(4), of 32 garb] by auto
  have small: "length (sdec v) \<le> 39" using length_sdec_bound [OF 2(4)] by simp
  have "getDecodedObject garb ob = createEmbeddedStringObject garb (Some (sdec v @ 0 # r)) (length (sdec v))"
    unfolding getDecodedObject_def using 2 small
    by (simp add: r strlen_cstring [OF sdec_no_nul] createStringObject_def REDIS_ENCODING_EMBSTR_SIZE_LIMIT_def)
  moreover obtain ob' where ob': "createEmbeddedStringObject garb (Some (sdec v @ 0 # r)) (length (sdec v)) = Some ob'"
    "string_wf ob'" "str_val ob' = sdec v"
    using createEmbeddedStringObject_correct [of "length (sdec v)" "sdec v @ 0 # r" garb] small by (auto simp: STRING_MAX_def)
  moreover have "sdsEncodedObject ob'"
    using ob'(1) by (auto simp: createEmbeddedStringObject_def sdsEncodedObject_def split: Option.bind_splits)
  ultimately show ?thesis using 2(5) by auto
qed

lemma object_chars_correct:
  assumes wf: "string_wf ob" and sz: "32 \<le> sz"
  shows "\<exists>r. object_chars garb sz ob = Some (str_val ob @ 0 # r, length (str_val ob))"
  using wf
proof (cases rule: string_wf_cases)
  case (1 s)
  then show ?thesis using sds_layout [OF 1(3)] by (auto simp: object_chars_def sdslen_def length_sds_str)
next
  case (2 v)
  then show ?thesis using ll2string_object [OF 2(4) sz, of garb] by (auto simp: object_chars_def)
qed

lemma stringObjectLen_correct:
  assumes wf: "string_wf ob"
  shows "stringObjectLen garb ob = Some (length (str_val ob))"
  using object_chars_correct [OF wf, of 32 garb] wf
  by (auto simp: stringObjectLen_def object_chars_def string_wf_def split: if_splits Option.bind_splits)

lemma s32_difference:
  assumes "m \<le> STRING_MAX" "n \<le> STRING_MAX"
  shows "s32 (int m - int n) = int m - int n"
  using assms by (intro s32_id) (auto simp: STRING_MAX_def)

lemma compareStringObjects_correct:
  assumes a: "string_wf a" and b: "string_wf b"
  shows "\<exists>c. compareStringObjects garb a b = Some c \<and>
    (c < 0 \<longleftrightarrow> bytes_less (str_val a) (str_val b)) \<and> (c > 0 \<longleftrightarrow> bytes_less (str_val b) (str_val a)) \<and>
    (c = 0 \<longleftrightarrow> str_val a = str_val b)"
proof -
  obtain ra where ra: "object_chars garb 128 a = Some (str_val a @ 0 # ra, length (str_val a))"
    using object_chars_correct [OF a, of 128 garb] by auto
  obtain rb where rb: "object_chars garb 128 b = Some (str_val b @ 0 # rb, length (str_val b))"
    using object_chars_correct [OF b, of 128 garb] by auto
  let ?m = "min (length (str_val a)) (length (str_val b))"
  have m: "(if length (str_val a) < length (str_val b) then length (str_val a) else length (str_val b)) = ?m" by simp
  have "compareStringObjects garb a b =
     Some (let cmp = memcmp (take ?m (str_val a)) (take ?m (str_val b)) in
       if cmp = 0 then int (length (str_val a)) - int (length (str_val b)) else cmp)"
    unfolding compareStringObjects_def using a b
    by (simp add: string_wf_def ra rb m s32_difference length_str_val Let_def)
  then show ?thesis using compare_order [OF refl, of "str_val a" "str_val b"] by simp
qed

lemma equalStringObjects_correct:
  assumes a: "string_wf a" and b: "string_wf b"
  shows "equalStringObjects garb a b = Some (str_val a = str_val b)"
proof (cases "o_encoding a = REDIS_ENCODING_INT \<and> o_encoding b = REDIS_ENCODING_INT")
  case True
  obtain v w where vw: "o_ptr a = PLong v" "int64_range v" "str_val a = sdec v" "o_ptr b = PLong w" "int64_range w" "str_val b = sdec w"
    using a b True by (elim string_wf_cases) (auto simp: sdsEncodedObject_def)
  have "v = w" if "sdec v = sdec w"
    using string2ll_correct [of "sdec v" v] string2ll_correct [of "sdec v" w] that vw by simp
  then show ?thesis using True vw by (auto simp: equalStringObjects_def)
next
  case False
  then show ?thesis using compareStringObjects_correct [OF a b, of garb] by (auto simp: equalStringObjects_def)
qed

section \<open>Conversion to an integer\<close>

text \<open>
  The integers the commands accept: an optional sign and decimal digits with a value in range, and
  the empty string, which counts as 0. Bytes from the first NUL on are not looked at.
\<close>

fun signed_num :: "byte list \<Rightarrow> int" where
  "signed_num (c # cs) = (if c = ch CHR ''-'' then - int (num 0 cs) else if c = ch CHR ''+'' then int (num 0 cs) else int (num 0 (c # cs)))"
| "signed_num [] = 0"

definition number_syntax :: "byte list \<Rightarrow> bool" where
  "number_syntax s \<longleftrightarrow>
     (let ds = (if s \<noteq> [] \<and> (hd s = ch CHR ''-'' \<or> hd s = ch CHR ''+'') then tl s else s) in ds \<noteq> [] \<and> list_all isdigit ds)"

definition cstring :: "byte list \<Rightarrow> byte list" where
  "cstring s = takeWhile (\<lambda>c. c \<noteq> 0) s"

definition parse_number :: "byte list \<Rightarrow> int option" where
  "parse_number s =
     (if s = [] then Some 0
      else if number_syntax s \<and> int64_range (signed_num s) then Some (signed_num s) else None)"

lemma strlen_take: "strlen (t @ 0 # r) = Some n \<Longrightarrow> take n (t @ 0 # r) = cstring t"
proof (induction t arbitrary: n)
  case (Cons c t)
  then show ?case by (cases "c = 0") (auto simp: cstring_def)
qed (simp add: cstring_def)

lemma strlen_total: "\<exists>n. strlen (t @ 0 # r) = Some n"
  by (induction t) auto

lemma isspace_digit: "isspace c \<Longrightarrow> \<not> isdigit c \<and> c \<noteq> ch CHR ''-'' \<and> c \<noteq> ch CHR ''+''"
  by (auto simp: isspace_def isdigit_def word_le_nat_alt)

lemma strtoll_at:
  assumes "\<not> isspace c" "q = (if c = ch CHR ''-'' \<or> c = ch CHR ''+'' then cs else c # cs)"
    "v = (if c = ch CHR ''-'' then - int (num 0 (takeWhile isdigit q)) else int (num 0 (takeWhile isdigit q)))"
  shows "strtoll (c # cs) = (if takeWhile isdigit q = [] then (0, c # cs, False)
    else (max LLONG_MIN (min LLONG_MAX v), dropWhile isdigit q, v < LLONG_MIN \<or> v > LLONG_MAX))"
  unfolding strtoll_def using assms by (simp add: Let_def)

lemma strtoll_parse:
  assumes st: "strtoll s = (v, rest, erange)"
  shows "(if s \<noteq> [] \<and> isspace (hd s) \<or> rest \<noteq> [] \<or> erange then None else Some v) = parse_number s"
proof (cases s)
  case Nil
  then show ?thesis using st by (simp add: strtoll_def parse_number_def)
next
  case (Cons c cs)
  show ?thesis
  proof (cases "isspace c")
    case True
    then show ?thesis using isspace_digit [OF True] Cons
      by (auto simp: parse_number_def number_syntax_def Let_def)
  next
    case False
    obtain q where q: "q = (if c = ch CHR ''-'' \<or> c = ch CHR ''+'' then cs else c # cs)" by blast
    obtain w where w: "w = (if c = ch CHR ''-'' then - int (num 0 (takeWhile isdigit q)) else int (num 0 (takeWhile isdigit q)))" by blast
    have syn: "number_syntax s \<longleftrightarrow> q \<noteq> [] \<and> list_all isdigit q" using Cons by (simp add: number_syntax_def q)
    note eq = strtoll_at [OF False q w, folded Cons]
    show ?thesis
    proof (cases "q \<noteq> [] \<and> list_all isdigit q")
      case True
      then have tw: "takeWhile isdigit q = q" "dropWhile isdigit q = []"
        by (simp_all add: takeWhile_eq_all_conv dropWhile_eq_Nil_conv list_all_iff)
      have ws: "w = signed_num s" unfolding w tw(1) using Cons by (simp add: q)
      have "v = max LLONG_MIN (min LLONG_MAX w)" "rest = []" "erange \<longleftrightarrow> w < LLONG_MIN \<or> w > LLONG_MAX"
        using st eq tw True by auto
      then show ?thesis using syn True Cons False ws
        by (auto simp: parse_number_def int64_range_def LLONG_MIN_def LLONG_MAX_def)
    next
      case bad: False
      have "rest \<noteq> []"
        using st eq bad Cons by (auto simp: takeWhile_eq_Nil_iff dropWhile_eq_Nil_conv list_all_iff split: if_splits)
      then show ?thesis using bad Cons syn by (auto simp: parse_number_def)
    qed
  qed
qed

lemma parse_number_sdec:
  assumes "int64_range v"
  shows "parse_number (sdec v) = Some v"
proof -
  have ne: "dec n \<noteq> []" for n using length_dec_pos [of n] by auto
  have d: "list_all isdigit (dec n)" "num 0 (dec n) = n" for n using dec_digits [of n] by (simp_all add: list_all_iff)
  have hd: "isdigit (hd (dec n))" for n using dec_digits(1) [of n] ne by simp
  have plus: "hd (dec n) \<noteq> ch CHR ''-''" "hd (dec n) \<noteq> ch CHR ''+''" for n using hd [of n] by (auto simp: isdigit_def)
  have sd: "number_syntax (sdec v) \<and> signed_num (sdec v) = v"
  proof (cases "v < 0")
    case True
    then show ?thesis using ne d by (simp add: sdec_def number_syntax_def)
  next
    case False
    obtain c cs where c: "dec (nat v) = c # cs" using ne by (cases "dec (nat v)") auto
    then show ?thesis using False plus [of "nat v"] d [of "nat v"] by (simp add: sdec_def number_syntax_def)
  qed
  moreover have "sdec v \<noteq> []" using ne by (auto simp: sdec_def)
  ultimately show ?thesis using assms by (simp add: parse_number_def)
qed

lemma getLongLongFromObject_correct:
  assumes wf: "string_wf ob"
  shows "getLongLongFromObject (Some ob) = Some (parse_number (cstring (str_val ob)))"
  using wf
proof (cases rule: string_wf_cases)
  case (1 s)
  obtain r where r: "s_buf s = sds_str s @ 0 # r" using sds_layout [OF 1(3)] by auto
  obtain n where n: "strlen (s_buf s) = Some n" using strlen_total [of "sds_str s" r] r by auto
  have t: "take n (s_buf s) = cstring (sds_str s)" using strlen_take [of "sds_str s" r n] n r by simp
  obtain v rest er where st: "strtoll (cstring (sds_str s)) = (v, rest, er)" by (metis prod_cases3)
  show ?thesis using 1 strtoll_parse [OF st]
    by (simp add: getLongLongFromObject_def n t st Let_def del: take_eq_Nil take_eq_Nil2)
next
  case (2 v)
  have "cstring (sdec v) = sdec v" using sdec_no_nul [of v] by (auto simp: cstring_def takeWhile_eq_all_conv)
  then show ?thesis using 2 parse_number_sdec [OF 2(4)] by (simp add: getLongLongFromObject_def)
qed

end
