(* ===== verification/Server.thy ===== *)
theory Server
  imports Objects
begin

text \<open>
  The state of the server that the keyspace, the transactions and the pub/sub system share
  (\<open>redis.h\<close>), and the replies of \<open>networking.c\<close>.

  A client is a number; \<open>sv_clients\<close> gives its state and \<open>sv_client_list\<close> is the list of connected
  clients. A database is a number below \<open>sv_dbnum\<close>. Keys, channels and patterns are compared by content
  everywhere, so they are byte strings. The dicts of the code are maps (see the theory of dicts for
  their implementation), its linked lists are lists. The replies to a client are the bytes queued for
  it. The model is the standalone server: the branches for \<open>cluster_enabled\<close> are left out. The clock
  \<open>sv_now\<close> does not advance while a command runs. The counters of statistics and \<open>dirty\<close> are unbounded.
\<close>

section \<open>State\<close>

type_synonym argv = "robj list"

text \<open>A command of the table; \<open>cmd_proc\<close> is the name of the C function.\<close>

record redisCommand =
  cmd_name :: string
  cmd_proc :: string
  cmd_arity :: int
  cmd_sflags :: string
  cmd_flags :: "32 word"
  cmd_firstkey :: int
  cmd_lastkey :: int
  cmd_keystep :: int

record multiCmd =
  mc_cmd :: redisCommand
  mc_argv :: argv

record redisClient =
  c_db :: nat
  c_argv :: argv
  c_flags :: "32 word"
  c_authenticated :: bool
  c_mstate :: "multiCmd list"
  c_watched_keys :: "(byte list \<times> nat) list"
  c_pubsub_channels :: "byte list list"
  c_pubsub_patterns :: "byte list list"
  c_reply :: "byte list"

record redisDb =
  db_dict :: "byte list \<rightharpoonup> robj"
  db_expires :: "byte list \<rightharpoonup> int"
  db_blocking_keys :: "byte list \<rightharpoonup> nat list"
  db_ready_keys :: "byte list list"
  db_watched_keys :: "byte list \<rightharpoonup> nat list"

record redisServer =
  sv_clients :: "nat \<Rightarrow> redisClient"
  sv_client_list :: "nat list"
  sv_dbs :: "nat \<Rightarrow> redisDb"
  sv_dbnum :: nat
  sv_pubsub_channels :: "byte list \<rightharpoonup> nat list"
  sv_pubsub_patterns :: "(nat \<times> byte list) list"
  sv_ready_keys :: "(nat \<times> byte list) list"
  sv_notify :: "32 word"
  sv_dirty :: int
  sv_loading :: bool
  sv_masterhost :: bool
  sv_aof_on :: bool
  sv_now :: int
  sv_lua_time :: "int option"
  sv_aof :: "(nat \<times> byte list list) list"
  sv_repl :: "(nat \<times> byte list list) list"
  sv_hits :: nat
  sv_misses :: nat
  sv_expiredkeys :: nat

definition REDIS_MULTI :: "32 word" where "REDIS_MULTI = 8"

definition REDIS_DIRTY_CAS :: "32 word" where "REDIS_DIRTY_CAS = 32"

definition REDIS_DIRTY_EXEC :: "32 word" where "REDIS_DIRTY_EXEC = 4096"

definition REDIS_PUBSUB :: "32 word" where "REDIS_PUBSUB = 262144"

definition upd_client :: "nat \<Rightarrow> (redisClient \<Rightarrow> redisClient) \<Rightarrow> redisServer \<Rightarrow> redisServer" where
  "upd_client i f s = s\<lparr>sv_clients := (sv_clients s)(i := f (sv_clients s i))\<rparr>"

definition upd_db :: "nat \<Rightarrow> (redisDb \<Rightarrow> redisDb) \<Rightarrow> redisServer \<Rightarrow> redisServer" where
  "upd_db j f s = s\<lparr>sv_dbs := (sv_dbs s)(j := f (sv_dbs s j))\<rparr>"

definition set_flag :: "32 word \<Rightarrow> redisClient \<Rightarrow> redisClient" where
  "set_flag m c = c\<lparr>c_flags := c_flags c OR m\<rparr>"

definition clear_flag :: "32 word \<Rightarrow> redisClient \<Rightarrow> redisClient" where
  "clear_flag m c = c\<lparr>c_flags := c_flags c AND NOT m\<rparr>"

definition has_flag :: "32 word \<Rightarrow> redisClient \<Rightarrow> bool" where
  "has_flag m c \<longleftrightarrow> c_flags c AND m \<noteq> 0"

lemma upd_client_sel [simp]:
  "sv_clients (upd_client i f s) = (sv_clients s)(i := f (sv_clients s i))"
  "sv_client_list (upd_client i f s) = sv_client_list s" "sv_dbs (upd_client i f s) = sv_dbs s" "sv_dbnum (upd_client i f s) = sv_dbnum s"
  "sv_pubsub_channels (upd_client i f s) = sv_pubsub_channels s" "sv_pubsub_patterns (upd_client i f s) = sv_pubsub_patterns s"
  "sv_notify (upd_client i f s) = sv_notify s" "sv_now (upd_client i f s) = sv_now s" "sv_dirty (upd_client i f s) = sv_dirty s"
  "sv_loading (upd_client i f s) = sv_loading s" "sv_masterhost (upd_client i f s) = sv_masterhost s"
  "sv_lua_time (upd_client i f s) = sv_lua_time s" "sv_aof_on (upd_client i f s) = sv_aof_on s"
  by (simp_all add: upd_client_def)

lemma upd_db_sel [simp]:
  "sv_dbs (upd_db j f s) = (sv_dbs s)(j := f (sv_dbs s j))" "sv_clients (upd_db j f s) = sv_clients s"
  "sv_client_list (upd_db j f s) = sv_client_list s" "sv_dbnum (upd_db j f s) = sv_dbnum s"
  "sv_pubsub_channels (upd_db j f s) = sv_pubsub_channels s" "sv_pubsub_patterns (upd_db j f s) = sv_pubsub_patterns s"
  "sv_notify (upd_db j f s) = sv_notify s" "sv_now (upd_db j f s) = sv_now s" "sv_dirty (upd_db j f s) = sv_dirty s"
  "sv_loading (upd_db j f s) = sv_loading s" "sv_masterhost (upd_db j f s) = sv_masterhost s"
  "sv_lua_time (upd_db j f s) = sv_lua_time s" "sv_aof_on (upd_db j f s) = sv_aof_on s"
  by (simp_all add: upd_db_def)

lemma flag_fields [simp]:
  "c_db (set_flag m c) = c_db c" "c_mstate (set_flag m c) = c_mstate c" "c_watched_keys (set_flag m c) = c_watched_keys c"
  "c_pubsub_channels (set_flag m c) = c_pubsub_channels c" "c_pubsub_patterns (set_flag m c) = c_pubsub_patterns c"
  "c_reply (set_flag m c) = c_reply c" "c_argv (set_flag m c) = c_argv c"
  "c_db (clear_flag m c) = c_db c" "c_mstate (clear_flag m c) = c_mstate c" "c_watched_keys (clear_flag m c) = c_watched_keys c"
  "c_pubsub_channels (clear_flag m c) = c_pubsub_channels c" "c_pubsub_patterns (clear_flag m c) = c_pubsub_patterns c"
  "c_reply (clear_flag m c) = c_reply c" "c_argv (clear_flag m c) = c_argv c"
  by (simp_all add: set_flag_def clear_flag_def)

text \<open>A flag that is set is set, a flag that is cleared is not, and flags with no common bit are independent.\<close>

lemma has_flag_self [simp]: "m \<noteq> 0 \<Longrightarrow> has_flag m (set_flag m c)" "\<not> has_flag m (clear_flag m c)"
proof -
  have "(x OR m) AND m = m" "(x AND NOT m) AND m = 0" for x by (rule bit_word_eqI; auto simp: bit_simps)+
  then show "m \<noteq> 0 \<Longrightarrow> has_flag m (set_flag m c)" "\<not> has_flag m (clear_flag m c)"
    by (simp_all add: has_flag_def set_flag_def clear_flag_def)
qed

lemma has_flag_other:
  assumes "m AND m' = 0"
  shows "has_flag m' (set_flag m c) = has_flag m' c" "has_flag m' (clear_flag m c) = has_flag m' c"
proof -
  have no: "\<not> (bit m n \<and> bit m' n)" for n using assms by (metis bit_and_iff bit_0_eq bot_apply bot_bool_def)
  have "(x OR m) AND m' = x AND m'" "(x AND NOT m) AND m' = x AND m'" for x
    using no by (intro bit_word_eqI; auto simp: bit_simps)+
  then show "has_flag m' (set_flag m c) = has_flag m' c" "has_flag m' (clear_flag m c) = has_flag m' c"
    by (simp_all add: has_flag_def set_flag_def clear_flag_def)
qed

section \<open>Replies\<close>

definition crlf :: "byte list" where "crlf = [13, 10]"

definition shared_ok :: "byte list" where "shared_ok = bytes ''+OK'' @ crlf"

definition shared_emptybulk :: "byte list" where "shared_emptybulk = bytes ''$0'' @ crlf @ crlf"

definition shared_czero :: "byte list" where "shared_czero = bytes '':0'' @ crlf"

definition shared_cone :: "byte list" where "shared_cone = bytes '':1'' @ crlf"

definition shared_nullbulk :: "byte list" where "shared_nullbulk = bytes ''$-1'' @ crlf"

definition shared_nullmultibulk :: "byte list" where "shared_nullmultibulk = bytes ''*-1'' @ crlf"

definition shared_queued :: "byte list" where "shared_queued = bytes ''+QUEUED'' @ crlf"

definition shared_wrongtypeerr :: "byte list" where
  "shared_wrongtypeerr = bytes ''-WRONGTYPE Operation against a key holding the wrong kind of value'' @ crlf"

definition shared_nokeyerr :: "byte list" where "shared_nokeyerr = bytes ''-ERR no such key'' @ crlf"

definition shared_syntaxerr :: "byte list" where "shared_syntaxerr = bytes ''-ERR syntax error'' @ crlf"

definition shared_sameobjecterr :: "byte list" where
  "shared_sameobjecterr = bytes ''-ERR source and destination objects are the same'' @ crlf"

definition shared_outofrangeerr :: "byte list" where "shared_outofrangeerr = bytes ''-ERR index out of range'' @ crlf"

definition shared_execaborterr :: "byte list" where
  "shared_execaborterr = bytes ''-EXECABORT Transaction discarded because of previous errors.'' @ crlf"

definition addReply :: "nat \<Rightarrow> byte list \<Rightarrow> redisServer \<Rightarrow> redisServer" where
  "addReply i bs = upd_client i (\<lambda>c. c\<lparr>c_reply := c_reply c @ bs\<rparr>)"

text \<open>An integer as \<open>ll2string\<close> prints it into a buffer on the stack.\<close>

definition ll_string :: "int \<Rightarrow> byte list" where
  "ll_string v = (case ll2string (replicate 127 0) 127 v of None \<Rightarrow> [] | Some (n, buf) \<Rightarrow> take n buf)"

definition reply_prefix :: "byte \<Rightarrow> int \<Rightarrow> byte list" where
  "reply_prefix prefix ll = prefix # ll_string ll @ crlf"

definition addReplyLongLong :: "nat \<Rightarrow> int \<Rightarrow> redisServer \<Rightarrow> redisServer" where
  "addReplyLongLong i ll =
     (if ll = 0 then addReply i shared_czero
      else if ll = 1 then addReply i shared_cone
      else addReply i (reply_prefix (ch CHR '':'') ll))"

definition addReplyMultiBulkLen :: "nat \<Rightarrow> int \<Rightarrow> redisServer \<Rightarrow> redisServer" where
  "addReplyMultiBulkLen i len = addReply i (reply_prefix (ch CHR ''*'') len)"

text \<open>The digits of an integer object are counted by division, which truncates towards zero.\<close>

fun count_digits :: "nat \<Rightarrow> int \<Rightarrow> nat" where
  "count_digits len n =
     (let n = (if n < 0 then - ((- n) div 10) else n div 10) in if n \<noteq> 0 then count_digits (len + 1) n else len)"

declare count_digits.simps [simp del]

definition bulk_len :: "robj \<Rightarrow> nat option" where
  "bulk_len ob =
     (if sdsEncodedObject ob then map_option sdslen (ptr_sds (o_ptr ob))
      else do {
        n \<leftarrow> ptr_long (o_ptr ob);
        Some (if n < 0 then count_digits 2 (s64 (- n)) else count_digits 1 n) })"

text \<open>\<open>addReply\<close> of a string object sends its bytes, those of an integer after printing it.\<close>

definition obj_bytes :: "robj \<Rightarrow> byte list option" where
  "obj_bytes ob =
     (if sdsEncodedObject ob then map_option sds_str (ptr_sds (o_ptr ob))
      else if o_encoding ob = REDIS_ENCODING_INT then map_option ll_string (ptr_long (o_ptr ob))
      else None)"

definition addReplyBulk :: "nat \<Rightarrow> robj \<Rightarrow> redisServer \<Rightarrow> redisServer option" where
  "addReplyBulk i ob s = do {
     len \<leftarrow> bulk_len ob;
     bs \<leftarrow> obj_bytes ob;
     Some (addReply i crlf (addReply i bs (addReply i (reply_prefix (ch CHR ''$'') (int len)) s))) }"

definition addReplyBulkCBuffer :: "nat \<Rightarrow> byte list \<Rightarrow> redisServer \<Rightarrow> redisServer" where
  "addReplyBulkCBuffer i bs s = addReply i crlf (addReply i bs (addReply i (reply_prefix (ch CHR ''$'') (int (length bs))) s))"

definition addReplyError :: "nat \<Rightarrow> string \<Rightarrow> redisServer \<Rightarrow> redisServer" where
  "addReplyError i err = addReply i (bytes ''-ERR '' @ bytes err @ crlf)"

definition addReplyStatus :: "nat \<Rightarrow> string \<Rightarrow> redisServer \<Rightarrow> redisServer" where
  "addReplyStatus i st = addReply i (ch CHR ''+'' # bytes st @ crlf)"

section \<open>What replies and notifications leave alone\<close>

text \<open>The state without the bytes queued for the clients.\<close>

definition silent :: "redisServer \<Rightarrow> redisServer" where
  "silent s = s\<lparr>sv_clients := (\<lambda>i. (sv_clients s i)\<lparr>c_reply := []\<rparr>)\<rparr>"

named_theorems silent_simps "operations that only queue replies"

lemma silent_addReply [silent_simps]: "silent (addReply i bs s) = silent s"
  by (simp add: silent_def addReply_def upd_client_def cong: if_cong) (rule redisServer.fold_congs(1); auto)

lemma silent_replies [silent_simps]:
  "silent (addReplyLongLong i v s) = silent s" "silent (addReplyMultiBulkLen i v s) = silent s"
  "silent (addReplyBulkCBuffer i bs s) = silent s" "silent (addReplyError i e s) = silent s"
  "silent (addReplyStatus i e s) = silent s"
  by (simp_all add: silent_simps addReplyLongLong_def addReplyMultiBulkLen_def addReplyBulkCBuffer_def addReplyError_def addReplyStatus_def)

lemma silent_addReplyBulk: "addReplyBulk i ob s = Some s' \<Longrightarrow> silent s' = silent s"
  by (auto simp: addReplyBulk_def silent_simps split: Option.bind_splits)

text \<open>What the state without replies determines.\<close>

lemma silent_eq_fields:
  assumes "silent s = silent s'"
  shows "sv_dbs s = sv_dbs s'" "sv_client_list s = sv_client_list s'" "sv_dbnum s = sv_dbnum s'"
    "sv_pubsub_channels s = sv_pubsub_channels s'" "sv_pubsub_patterns s = sv_pubsub_patterns s'"
    "sv_notify s = sv_notify s'" "sv_dirty s = sv_dirty s'" "sv_loading s = sv_loading s'" "sv_masterhost s = sv_masterhost s'"
    "sv_now s = sv_now s'" "sv_lua_time s = sv_lua_time s'" "sv_aof_on s = sv_aof_on s'" "sv_ready_keys s = sv_ready_keys s'"
    "c_db (sv_clients s i) = c_db (sv_clients s' i)" "c_flags (sv_clients s i) = c_flags (sv_clients s' i)"
    "c_mstate (sv_clients s i) = c_mstate (sv_clients s' i)" "c_watched_keys (sv_clients s i) = c_watched_keys (sv_clients s' i)"
    "c_pubsub_channels (sv_clients s i) = c_pubsub_channels (sv_clients s' i)"
    "c_pubsub_patterns (sv_clients s i) = c_pubsub_patterns (sv_clients s' i)"
  using arg_cong [OF assms, of sv_dbs] arg_cong [OF assms, of sv_client_list] arg_cong [OF assms, of sv_dbnum] arg_cong [OF assms, of sv_pubsub_channels] arg_cong [OF assms, of sv_pubsub_patterns] arg_cong [OF assms, of sv_notify] arg_cong [OF assms, of sv_dirty] arg_cong [OF assms, of sv_loading] arg_cong [OF assms, of sv_masterhost] arg_cong [OF assms, of sv_now] arg_cong [OF assms, of sv_lua_time] arg_cong [OF assms, of sv_aof_on] arg_cong [OF assms, of sv_ready_keys]
    arg_cong [OF assms, of "\<lambda>s. c_db (sv_clients s i)"] arg_cong [OF assms, of "\<lambda>s. c_flags (sv_clients s i)"] arg_cong [OF assms, of "\<lambda>s. c_mstate (sv_clients s i)"] arg_cong [OF assms, of "\<lambda>s. c_watched_keys (sv_clients s i)"] arg_cong [OF assms, of "\<lambda>s. c_pubsub_channels (sv_clients s i)"] arg_cong [OF assms, of "\<lambda>s. c_pubsub_patterns (sv_clients s i)"]
  by (simp_all add: silent_def)

section \<open>The bytes of a reply\<close>

lemma ll_string_sdec: "int64_range v \<Longrightarrow> ll_string v = sdec v"
  using ll2string_correct [of v 127 "replicate 127 0"] length_sdec_bound [of v] by (simp add: ll_string_def)

lemma count_digits_dec:
  "count_digits len (int n) = len + length (dec n) - 1 \<and> count_digits len (- int n) = len + length (dec n) - 1"
proof (induction n arbitrary: len rule: less_induct)
  case (less n)
  have q: "int n div 10 = int (n div 10)" by simp
  show ?case
  proof (cases "n < 10")
    case True
    then have "int n div 10 = 0" by simp
    then show ?thesis by (subst (1 2) count_digits.simps, subst (1 2) dec.simps) (simp add: True)
  next
    case False
    have "0 < length (dec (n div 10))" by (rule length_dec_pos)
    moreover have "n div 10 \<noteq> 0" using False by simp
    ultimately show ?thesis using less.IH [of "n div 10" "Suc len"] False q
      by (subst (1 2) count_digits.simps, subst (1 2) dec.simps) simp
  qed
qed

text \<open>The length announced for a bulk reply is the number of bytes sent, for \<open>LONG_MIN\<close> too.\<close>

lemma bulk_len_correct:
  assumes "string_wf ob"
  shows "bulk_len ob = Some (length (str_val ob))"
  using assms
proof (cases rule: string_wf_cases)
  case (1 s)
  then show ?thesis by (simp add: bulk_len_def sdslen_def length_sds_str)
next
  case (2 v)
  have pos: "0 < length (dec n)" for n by (rule length_dec_pos)
  have "count_digits 2 (s64 (- v)) = 1 + length (dec (nat (- v)))" if "v < 0"
  proof (cases "v = - (2 ^ 63)")
    case True
    then have "s64 (- v) = - int (2 ^ 63)" "nat (- v) = 2 ^ 63" by (simp_all add: s64_def)
    then show ?thesis using count_digits_dec [of 2 "2 ^ 63"] by simp
  next
    case False
    then have "s64 (- v) = int (nat (- v))"
      using 2(4) that by (simp add: s64_def int64_range_def signed_take_bit_int_eq_self)
    then show ?thesis using count_digits_dec [of 2 "nat (- v)"] by simp
  qed
  moreover have "count_digits 1 v = length (dec (nat v))" if "0 \<le> v"
    using count_digits_dec [of 1 "nat v"] that pos [of "nat v"] by simp
  ultimately show ?thesis using 2 by (simp add: bulk_len_def sdec_def)
qed

lemma obj_bytes_correct: "string_wf ob \<Longrightarrow> obj_bytes ob = Some (str_val ob)"
  by (elim string_wf_cases) (simp_all add: obj_bytes_def ll_string_sdec)

definition bulk :: "byte list \<Rightarrow> byte list" where
  "bulk bs = ch CHR ''$'' # dec (length bs) @ crlf @ bs @ crlf"

lemma addReply_addReply [simp]: "addReply i b (addReply i a s) = addReply i (a @ b) s"
  by (simp add: addReply_def upd_client_def)

lemma addReplyBulkCBuffer_correct:
  assumes "length bs \<le> STRING_MAX"
  shows "addReplyBulkCBuffer i bs s = addReply i (bulk bs) s"
proof -
  have "int64_range (int (length bs))" using assms by (simp add: int64_range_def STRING_MAX_def)
  then show ?thesis by (simp add: addReplyBulkCBuffer_def bulk_def reply_prefix_def ll_string_sdec sdec_def)
qed

lemma addReplyBulk_correct:
  assumes "string_wf ob"
  shows "addReplyBulk i ob s = Some (addReply i (bulk (str_val ob)) s)"
  using addReplyBulkCBuffer_correct [OF length_str_val [OF assms], of i s]
  by (simp add: addReplyBulk_def bulk_len_correct [OF assms] obj_bytes_correct [OF assms] addReplyBulkCBuffer_def)

lemma addReplyLongLong_correct:
  assumes "int64_range v"
  shows "addReplyLongLong i v s = addReply i (ch CHR '':'' # sdec v @ crlf) s"
  using assms
  by (simp add: addReplyLongLong_def reply_prefix_def ll_string_sdec shared_czero_def shared_cone_def bytes_def)
    (simp add: sdec_def dec.simps)

end
