(* ===== verification/Registry.thy ===== *)
theory Registry
  imports Main
begin

text \<open>
  A two-way index, the data structure behind subscriptions and watched keys: every client keeps the
  list of its keys, and every key with at least one client has the list of its clients. The two
  sides agree when neither has duplicates, no list of clients is empty, and a key is in a client's
  list exactly when the client is in the key's list.
\<close>

definition registry :: "('a \<Rightarrow> 'k list) \<Rightarrow> ('k \<rightharpoonup> 'a list) \<Rightarrow> bool" where
  "registry own idx \<longleftrightarrow>
     (\<forall>i. distinct (own i)) \<and> (\<forall>k l. idx k = Some l \<longrightarrow> l \<noteq> [] \<and> distinct l) \<and>
     (\<forall>i k. k \<in> set (own i) \<longleftrightarrow> (\<exists>l. idx k = Some l \<and> i \<in> set l))"

lemma registry_members:
  assumes "registry own idx"
  shows "set (case idx k of None \<Rightarrow> [] | Some l \<Rightarrow> l) = {i. k \<in> set (own i)}" "distinct (case idx k of None \<Rightarrow> [] | Some l \<Rightarrow> l)"
  using assms unfolding registry_def by (cases "idx k"; auto)+

lemma registry_entry:
  assumes "registry own idx" "k \<in> set (own i)"
  obtains l where "idx k = Some l" "i \<in> set l" "distinct l" "l \<noteq> []"
  using assms unfolding registry_def by blast

lemma registry_distinct: "registry own idx \<Longrightarrow> distinct (own i)"
  by (simp add: registry_def)

lemma registry_add:
  assumes "registry own idx" "k \<notin> set (own i)"
  shows "registry (own(i := own i @ [k])) (idx(k \<mapsto> (case idx k of None \<Rightarrow> [] | Some l \<Rightarrow> l) @ [i]))"
  using assms unfolding registry_def by (auto split: option.splits)

lemma registry_remove:
  assumes reg: "registry own idx" and l: "idx k = Some l" "i \<in> set l"
  shows "registry (own(i := remove1 k (own i))) (idx(k := (if remove1 i l = [] then None else Some (remove1 i l))))"
  unfolding registry_def
proof (intro conjI allI impI)
  fix j
  show "distinct ((own(i := remove1 k (own i))) j)" using registry_distinct [OF reg] by simp
  fix c
  have rest: "j \<in> set (remove1 i l) \<longleftrightarrow> j \<noteq> i \<and> k \<in> set (own j)"
    using reg l unfolding registry_def by auto
  show "c \<in> set ((own(i := remove1 k (own i))) j) \<longleftrightarrow>
      (\<exists>m. (idx(k := (if remove1 i l = [] then None else Some (remove1 i l)))) c = Some m \<and> j \<in> set m)"
  proof (cases "c = k")
    case True
    then show ?thesis using rest registry_distinct [OF reg, of i] by auto
  next
    case False
    then show ?thesis using reg by (auto simp: registry_def)
  qed
next
  fix c m
  assume "(idx(k := (if remove1 i l = [] then None else Some (remove1 i l)))) c = Some m"
  then show "m \<noteq> []" "distinct m" using reg l by (auto simp: registry_def split: if_splits)
qed

end
