(* ===== verification/Pubsub.thy ===== *)
theory Pubsub
  imports Server Glob Registry
begin

text \<open>
  The publish/subscribe system of \<open>pubsub.c\<close>: every client keeps the channels and patterns it is
  subscribed to, and the server keeps for every channel its clients and the list of all patterns.
  \<open>pubsub_inv\<close> states that the two sides agree. A result of \<open>None\<close> stands for an assertion that fails, a
  list node that is not found, or a pattern match that leaves its buffers.

  The dict of a client's channels is a list. The order in which the iterator of
  \<open>pubsubUnsubscribeAllChannels\<close> visits it is that of a hash table, given by the argument \<open>ord\<close>.
\<close>

section \<open>Definitions\<close>

definition shared_messagebulk :: "byte list" where "shared_messagebulk = bytes ''$7'' @ crlf @ bytes ''message'' @ crlf"

definition shared_pmessagebulk :: "byte list" where "shared_pmessagebulk = bytes ''$8'' @ crlf @ bytes ''pmessage'' @ crlf"

definition shared_subscribebulk :: "byte list" where "shared_subscribebulk = bytes ''$9'' @ crlf @ bytes ''subscribe'' @ crlf"

definition shared_unsubscribebulk :: "byte list" where
  "shared_unsubscribebulk = bytes ''$11'' @ crlf @ bytes ''unsubscribe'' @ crlf"

definition shared_psubscribebulk :: "byte list" where
  "shared_psubscribebulk = bytes ''$10'' @ crlf @ bytes ''psubscribe'' @ crlf"

definition shared_punsubscribebulk :: "byte list" where
  "shared_punsubscribebulk = bytes ''$12'' @ crlf @ bytes ''punsubscribe'' @ crlf"

definition clientSubscriptionsCount :: "redisClient \<Rightarrow> int" where
  "clientSubscriptionsCount c = int (length (c_pubsub_channels c)) + int (length (c_pubsub_patterns c))"

text \<open>The message of three bulks that reports a change of subscription.\<close>

definition notify_client :: "nat \<Rightarrow> byte list \<Rightarrow> byte list option \<Rightarrow> redisServer \<Rightarrow> redisServer" where
  "notify_client i kind name s =
     (let s = addReplyMultiBulkLen i 3 s;
          s = addReply i kind s;
          s = (case name of Some b \<Rightarrow> addReplyBulkCBuffer i b s | None \<Rightarrow> addReply i shared_nullbulk s) in
      addReplyLongLong i (clientSubscriptionsCount (sv_clients s i)) s)"

definition pubsubSubscribeChannel :: "nat \<Rightarrow> byte list \<Rightarrow> redisServer \<Rightarrow> redisServer \<times> nat" where
  "pubsubSubscribeChannel i channel s =
     (let (s, retval) =
        (if channel \<in> set (c_pubsub_channels (sv_clients s i)) then (s, 0)
         else (let s = upd_client i (\<lambda>c. c\<lparr>c_pubsub_channels := c_pubsub_channels c @ [channel]\<rparr>) s;
                   clients = (case sv_pubsub_channels s channel of None \<Rightarrow> [] | Some l \<Rightarrow> l)
               in (s\<lparr>sv_pubsub_channels := (sv_pubsub_channels s)(channel \<mapsto> clients @ [i])\<rparr>, 1)))
      in (notify_client i shared_subscribebulk (Some channel) s, retval))"

definition pubsubUnsubscribeChannel :: "nat \<Rightarrow> byte list \<Rightarrow> bool \<Rightarrow> redisServer \<Rightarrow> (redisServer \<times> nat) option" where
  "pubsubUnsubscribeChannel i channel notify s = do {
     (s, retval) \<leftarrow>
       (if channel \<in> set (c_pubsub_channels (sv_clients s i)) then do {
          let s = upd_client i (\<lambda>c. c\<lparr>c_pubsub_channels := remove1 channel (c_pubsub_channels c)\<rparr>) s;
          clients \<leftarrow> sv_pubsub_channels s channel;
          if i \<in> set clients then
            (let clients = remove1 i clients in
             Some (s\<lparr>sv_pubsub_channels := (sv_pubsub_channels s)(channel := (if clients = [] then None else Some clients))\<rparr>, 1))
          else None }
        else Some (s, 0));
     Some (if notify then notify_client i shared_unsubscribebulk (Some channel) s else s, retval) }"

definition pubsubSubscribePattern :: "nat \<Rightarrow> byte list \<Rightarrow> redisServer \<Rightarrow> redisServer \<times> nat" where
  "pubsubSubscribePattern i pattern s =
     (let (s, retval) =
        (if pattern \<in> set (c_pubsub_patterns (sv_clients s i)) then (s, 0)
         else (let s = upd_client i (\<lambda>c. c\<lparr>c_pubsub_patterns := c_pubsub_patterns c @ [pattern]\<rparr>) s
               in (s\<lparr>sv_pubsub_patterns := sv_pubsub_patterns s @ [(i, pattern)]\<rparr>, 1)))
      in (notify_client i shared_psubscribebulk (Some pattern) s, retval))"

definition pubsubUnsubscribePattern :: "nat \<Rightarrow> byte list \<Rightarrow> bool \<Rightarrow> redisServer \<Rightarrow> (redisServer \<times> nat) option" where
  "pubsubUnsubscribePattern i pattern notify s = do {
     (s, retval) \<leftarrow>
       (if pattern \<in> set (c_pubsub_patterns (sv_clients s i)) then
          (let s = upd_client i (\<lambda>c. c\<lparr>c_pubsub_patterns := remove1 pattern (c_pubsub_patterns c)\<rparr>) s in
           if (i, pattern) \<in> set (sv_pubsub_patterns s)
           then Some (s\<lparr>sv_pubsub_patterns := remove1 (i, pattern) (sv_pubsub_patterns s)\<rparr>, 1)
           else None)
        else Some (s, 0));
     Some (if notify then notify_client i shared_punsubscribebulk (Some pattern) s else s, retval) }"

fun unsubscribe_channels :: "nat \<Rightarrow> bool \<Rightarrow> byte list list \<Rightarrow> redisServer \<Rightarrow> (redisServer \<times> nat) option" where
  "unsubscribe_channels i notify [] s = Some (s, 0)"
| "unsubscribe_channels i notify (chan # chs) s = do {
     (s, r) \<leftarrow> pubsubUnsubscribeChannel i chan notify s;
     (s, n) \<leftarrow> unsubscribe_channels i notify chs s;
     Some (s, r + n) }"

definition pubsubUnsubscribeAllChannels :: "(byte list list \<Rightarrow> byte list list) \<Rightarrow> nat \<Rightarrow> bool \<Rightarrow> redisServer \<Rightarrow> (redisServer \<times> nat) option" where
  "pubsubUnsubscribeAllChannels ord i notify s = do {
     (s, count) \<leftarrow> unsubscribe_channels i notify (ord (c_pubsub_channels (sv_clients s i))) s;
     Some (if notify \<and> count = 0 then notify_client i shared_unsubscribebulk None s else s, count) }"

fun unsubscribe_patterns :: "nat \<Rightarrow> bool \<Rightarrow> byte list list \<Rightarrow> redisServer \<Rightarrow> (redisServer \<times> nat) option" where
  "unsubscribe_patterns i notify [] s = Some (s, 0)"
| "unsubscribe_patterns i notify (p # ps) s = do {
     (s, r) \<leftarrow> pubsubUnsubscribePattern i p notify s;
     (s, n) \<leftarrow> unsubscribe_patterns i notify ps s;
     Some (s, r + n) }"

definition pubsubUnsubscribeAllPatterns :: "nat \<Rightarrow> bool \<Rightarrow> redisServer \<Rightarrow> (redisServer \<times> nat) option" where
  "pubsubUnsubscribeAllPatterns i notify s = do {
     (s, count) \<leftarrow> unsubscribe_patterns i notify (c_pubsub_patterns (sv_clients s i)) s;
     Some (if notify \<and> count = 0 then notify_client i shared_punsubscribebulk None s else s, count) }"

text \<open>The two loops of \<open>pubsubPublishMessage\<close>, over the clients of the channel and over all patterns.\<close>

definition send_message :: "byte list \<Rightarrow> byte list \<Rightarrow> nat \<Rightarrow> redisServer \<Rightarrow> redisServer" where
  "send_message channel message i s =
     (let s = addReplyMultiBulkLen i 3 s; s = addReply i shared_messagebulk s; s = addReplyBulkCBuffer i channel s
      in addReplyBulkCBuffer i message s)"

definition send_pmessage :: "byte list \<Rightarrow> byte list \<Rightarrow> byte list \<Rightarrow> nat \<Rightarrow> redisServer \<Rightarrow> redisServer" where
  "send_pmessage pattern channel message i s =
     (let s = addReplyMultiBulkLen i 4 s; s = addReply i shared_pmessagebulk s; s = addReplyBulkCBuffer i pattern s;
          s = addReplyBulkCBuffer i channel s
      in addReplyBulkCBuffer i message s)"

fun publish_channel :: "byte list \<Rightarrow> byte list \<Rightarrow> nat list \<Rightarrow> redisServer \<Rightarrow> redisServer \<times> nat" where
  "publish_channel channel message [] s = (s, 0)"
| "publish_channel channel message (i # js) s =
     (let (s, n) = publish_channel channel message js (send_message channel message i s) in (s, Suc n))"

definition pattern_match :: "byte list \<Rightarrow> byte list \<Rightarrow> bool option" where
  "pattern_match pattern channel =
     stringmatchlen False (pattern @ [0]) (int (length pattern)) (channel @ [0]) (int (length channel))"

fun publish_patterns :: "byte list \<Rightarrow> byte list \<Rightarrow> (nat \<times> byte list) list \<Rightarrow> redisServer \<Rightarrow> (redisServer \<times> nat) option" where
  "publish_patterns channel message [] s = Some (s, 0)"
| "publish_patterns channel message ((i, pat) # ps) s = do {
     m \<leftarrow> pattern_match pat channel;
     if m then do {
       (s, n) \<leftarrow> publish_patterns channel message ps (send_pmessage pat channel message i s);
       Some (s, Suc n) }
     else publish_patterns channel message ps s }"

definition pubsubPublishMessage :: "byte list \<Rightarrow> byte list \<Rightarrow> redisServer \<Rightarrow> (redisServer \<times> nat) option" where
  "pubsubPublishMessage channel message s = do {
     let (s, n) = (case sv_pubsub_channels s channel of
         None \<Rightarrow> (s, 0) | Some l \<Rightarrow> publish_channel channel message l s);
     (s, m) \<leftarrow> (if sv_pubsub_patterns s \<noteq> [] then publish_patterns channel message (sv_pubsub_patterns s) s else Some (s, 0));
     Some (s, n + m) }"

subsection \<open>Commands\<close>

text \<open>The arguments are the strings after the command name.\<close>

definition subscribeCommand :: "nat \<Rightarrow> byte list list \<Rightarrow> redisServer \<Rightarrow> redisServer" where
  "subscribeCommand i args s =
     upd_client i (set_flag REDIS_PUBSUB) (fold (\<lambda>chan s. fst (pubsubSubscribeChannel i chan s)) args s)"

definition leave_pubsub :: "nat \<Rightarrow> redisServer \<Rightarrow> redisServer" where
  "leave_pubsub i s =
     (if clientSubscriptionsCount (sv_clients s i) = 0 then upd_client i (clear_flag REDIS_PUBSUB) s else s)"

definition unsubscribeCommand :: "(byte list list \<Rightarrow> byte list list) \<Rightarrow> nat \<Rightarrow> byte list list \<Rightarrow> redisServer \<Rightarrow> redisServer option" where
  "unsubscribeCommand ord i args s = do {
     (s, _) \<leftarrow> (if args = [] then pubsubUnsubscribeAllChannels ord i True s else unsubscribe_channels i True args s);
     Some (leave_pubsub i s) }"

definition psubscribeCommand :: "nat \<Rightarrow> byte list list \<Rightarrow> redisServer \<Rightarrow> redisServer" where
  "psubscribeCommand i args s =
     upd_client i (set_flag REDIS_PUBSUB) (fold (\<lambda>p s. fst (pubsubSubscribePattern i p s)) args s)"

definition punsubscribeCommand :: "nat \<Rightarrow> byte list list \<Rightarrow> redisServer \<Rightarrow> redisServer option" where
  "punsubscribeCommand i args s = do {
     (s, _) \<leftarrow> (if args = [] then pubsubUnsubscribeAllPatterns i True s else unsubscribe_patterns i True args s);
     Some (leave_pubsub i s) }"

definition REDIS_FORCE_REPL :: "32 word" where "REDIS_FORCE_REPL = 32768"

definition publishCommand :: "nat \<Rightarrow> byte list \<Rightarrow> byte list \<Rightarrow> redisServer \<Rightarrow> redisServer option" where
  "publishCommand i channel message s = do {
     (s, receivers) \<leftarrow> pubsubPublishMessage channel message s;
     let s = upd_client i (set_flag REDIS_FORCE_REPL) s;
     Some (addReplyLongLong i (int receivers) s) }"

text \<open>
  The introspection command. \<open>listing\<close> is the sequence of channels that the dict iterator returns; the
  deferred length of the reply is sent in front of it.
\<close>

fun channels_matching :: "byte list option \<Rightarrow> byte list list \<Rightarrow> byte list list option" where
  "channels_matching pat [] = Some []"
| "channels_matching pat (chan # chs) = do {
     m \<leftarrow> (case pat of None \<Rightarrow> Some True | Some p \<Rightarrow> pattern_match p chan);
     rest \<leftarrow> channels_matching pat chs;
     Some (if m then chan # rest else rest) }"

definition pubsubCommand :: "byte list list \<Rightarrow> nat \<Rightarrow> byte list list \<Rightarrow> redisServer \<Rightarrow> redisServer option" where
  "pubsubCommand listing i args s =
     (case args of [] \<Rightarrow> None
      | arg # rest \<Rightarrow> let sub = cstring arg in
          if strcaseeq sub (bytes ''channels'') \<and> length rest \<le> 1 then do {
            found \<leftarrow> channels_matching (if rest = [] then None else Some (hd rest)) listing;
            Some (fold (\<lambda>chan. addReplyBulkCBuffer i chan) found (addReplyMultiBulkLen i (int (length found)) s)) }
          else if strcaseeq sub (bytes ''numsub'') then
            Some (fold (\<lambda>chan s. addReplyLongLong i
                (case sv_pubsub_channels s chan of None \<Rightarrow> 0 | Some l \<Rightarrow> int (length l)) (addReplyBulkCBuffer i chan s))
              rest (addReplyMultiBulkLen i (int (length rest) * 2) s))
          else if strcaseeq sub (bytes ''numpat'') \<and> rest = [] then
            Some (addReplyLongLong i (int (length (sv_pubsub_patterns s))) s)
          else Some (addReply i (bytes ''-ERR Unknown PUBSUB subcommand or wrong number of arguments for '' @
            [39] @ map (\<lambda>c. if c = 13 \<or> c = 10 then 32 else c) sub @ [39] @ crlf) s))"

section \<open>Invariant\<close>

abbreviation channels_of :: "redisServer \<Rightarrow> nat \<Rightarrow> byte list list" where
  "channels_of s i \<equiv> c_pubsub_channels (sv_clients s i)"

abbreviation patterns_of :: "redisServer \<Rightarrow> nat \<Rightarrow> byte list list" where
  "patterns_of s i \<equiv> c_pubsub_patterns (sv_clients s i)"

definition channels_inv :: "redisServer \<Rightarrow> bool" where
  "channels_inv s \<longleftrightarrow> registry (\<lambda>i. channels_of s i) (sv_pubsub_channels s)"

definition patterns_inv :: "redisServer \<Rightarrow> bool" where
  "patterns_inv s \<longleftrightarrow>
     (\<forall>i. distinct (patterns_of s i)) \<and> distinct (sv_pubsub_patterns s) \<and>
     (\<forall>i p. p \<in> set (patterns_of s i) \<longleftrightarrow> (i, p) \<in> set (sv_pubsub_patterns s))"

definition pubsub_inv :: "redisServer \<Rightarrow> bool" where
  "pubsub_inv s \<longleftrightarrow> channels_inv s \<and> patterns_inv s"

lemma inv_silent:
  assumes "silent s = silent s'"
  shows "channels_inv s = channels_inv s'" "patterns_inv s = patterns_inv s'" "pubsub_inv s = pubsub_inv s'"
  by (simp_all add: channels_inv_def patterns_inv_def pubsub_inv_def silent_eq_fields [OF assms])

lemma silent_notify_client [silent_simps]: "silent (notify_client i kind name s) = silent s"
  by (simp add: notify_client_def Let_def silent_simps split: option.split)

lemma silent_send [silent_simps]:
  "silent (send_message channel message i s) = silent s" "silent (send_pmessage pat channel message i s) = silent s"
  by (simp_all add: send_message_def send_pmessage_def Let_def silent_simps)

section \<open>Subscriptions\<close>

text \<open>The subscriptions of the whole server, as a set of pairs.\<close>

definition channel_subs :: "redisServer \<Rightarrow> (nat \<times> byte list) set" where
  "channel_subs s = {(i, chan). chan \<in> set (channels_of s i)}"

definition pattern_subs :: "redisServer \<Rightarrow> (nat \<times> byte list) set" where
  "pattern_subs s = {(i, p). p \<in> set (patterns_of s i)}"

lemma subs_silent:
  assumes "silent s = silent s'"
  shows "channel_subs s = channel_subs s'" "pattern_subs s = pattern_subs s'"
  by (simp_all add: channel_subs_def pattern_subs_def silent_eq_fields [OF assms])

lemma pubsubSubscribeChannel_correct:
  assumes inv: "pubsub_inv s" and run: "pubsubSubscribeChannel i chan s = (s', r)"
  shows "pubsub_inv s'" "channel_subs s' = insert (i, chan) (channel_subs s)" "pattern_subs s' = pattern_subs s"
    "r = (if (i, chan) \<in> channel_subs s then 0 else 1)"
proof -
  define s1 where "s1 = (if chan \<in> set (channels_of s i) then s
    else (upd_client i (\<lambda>c. c\<lparr>c_pubsub_channels := c_pubsub_channels c @ [chan]\<rparr>) s)
      \<lparr>sv_pubsub_channels := (sv_pubsub_channels s)(chan \<mapsto> (case sv_pubsub_channels s chan of None \<Rightarrow> [] | Some l \<Rightarrow> l) @ [i])\<rparr>)"
  have s': "silent s' = silent s1" and r: "r = (if (i, chan) \<in> channel_subs s then 0 else 1)"
    using run by (auto simp: pubsubSubscribeChannel_def s1_def Let_def silent_simps channel_subs_def split: if_splits)
  have own: "(\<lambda>j. channels_of s1 j) = (if chan \<in> set (channels_of s i) then (\<lambda>j. channels_of s j)
      else (\<lambda>j. channels_of s j)(i := channels_of s i @ [chan]))"
    by (auto simp: s1_def)
  have "channels_inv s1 \<and> patterns_inv s1"
    using inv registry_add [of "\<lambda>j. channels_of s j" "sv_pubsub_channels s" chan i] unfolding pubsub_inv_def channels_inv_def own
    by (auto simp: s1_def patterns_inv_def)
  then show "pubsub_inv s'" using inv_silent(3) [OF s'] by (simp add: pubsub_inv_def)
  show "channel_subs s' = insert (i, chan) (channel_subs s)" "pattern_subs s' = pattern_subs s"
    unfolding subs_silent [OF s'] by (auto simp: s1_def channel_subs_def pattern_subs_def split: if_splits)
  show "r = (if (i, chan) \<in> channel_subs s then 0 else 1)" by (rule r)
qed

lemma pubsubUnsubscribeChannel_correct:
  assumes inv: "pubsub_inv s"
  shows "\<exists>s'. pubsubUnsubscribeChannel i chan notify s = Some (s', if (i, chan) \<in> channel_subs s then 1 else 0) \<and>
    pubsub_inv s' \<and> channel_subs s' = channel_subs s - {(i, chan)} \<and> pattern_subs s' = pattern_subs s"
proof (cases "chan \<in> set (channels_of s i)")
  case False
  then have "channel_subs s - {(i, chan)} = channel_subs s" by (auto simp: channel_subs_def)
  then show ?thesis using False inv inv_silent(3) [OF silent_notify_client] subs_silent [OF silent_notify_client]
    by (auto simp: pubsubUnsubscribeChannel_def channel_subs_def)
next
  case True
  obtain l where l: "sv_pubsub_channels s chan = Some l" "i \<in> set l" "distinct l" "l \<noteq> []"
    using inv registry_entry [of "\<lambda>j. channels_of s j" "sv_pubsub_channels s" chan i] True by (auto simp: pubsub_inv_def channels_inv_def)
  define s1 where "s1 = (upd_client i (\<lambda>c. c\<lparr>c_pubsub_channels := remove1 chan (c_pubsub_channels c)\<rparr>) s)
    \<lparr>sv_pubsub_channels := (sv_pubsub_channels s)(chan := (if remove1 i l = [] then None else Some (remove1 i l)))\<rparr>"
  have run: "pubsubUnsubscribeChannel i chan notify s =
      Some (if notify then notify_client i shared_unsubscribebulk (Some chan) s1 else s1, 1)"
    using True l by (simp add: pubsubUnsubscribeChannel_def s1_def Let_def)
  have sil: "silent (if notify then notify_client i shared_unsubscribebulk (Some chan) s1 else s1) = silent s1"
    by (simp add: silent_simps)
  have dist: "distinct (channels_of s i)"
    using inv registry_distinct [of "\<lambda>j. channels_of s j" "sv_pubsub_channels s" i] by (simp add: pubsub_inv_def channels_inv_def)
  have own: "(\<lambda>j. channels_of s1 j) = (\<lambda>j. channels_of s j)(i := remove1 chan (channels_of s i))" by (auto simp: s1_def)
  have "channels_inv s1"
    using inv registry_remove [of "\<lambda>j. channels_of s j" "sv_pubsub_channels s" chan l i] l
    unfolding channels_inv_def own by (simp add: s1_def pubsub_inv_def channels_inv_def)
  moreover have "patterns_inv s1" using inv by (auto simp: s1_def pubsub_inv_def patterns_inv_def)
  moreover have "channel_subs s1 = channel_subs s - {(i, chan)}" "pattern_subs s1 = pattern_subs s"
    using dist by (auto simp: s1_def channel_subs_def pattern_subs_def split: if_splits)
  ultimately show ?thesis
    using run inv_silent(3) [OF sil] subs_silent [OF sil] True by (simp add: pubsub_inv_def channel_subs_def)
qed

lemma pubsubSubscribePattern_correct:
  assumes inv: "pubsub_inv s" and run: "pubsubSubscribePattern i p s = (s', r)"
  shows "pubsub_inv s'" "pattern_subs s' = insert (i, p) (pattern_subs s)" "channel_subs s' = channel_subs s"
    "r = (if (i, p) \<in> pattern_subs s then 0 else 1)"
proof -
  define s1 where "s1 = (if p \<in> set (patterns_of s i) then s
    else (upd_client i (\<lambda>c. c\<lparr>c_pubsub_patterns := c_pubsub_patterns c @ [p]\<rparr>) s)\<lparr>sv_pubsub_patterns := sv_pubsub_patterns s @ [(i, p)]\<rparr>)"
  have s': "silent s' = silent s1" and r: "r = (if (i, p) \<in> pattern_subs s then 0 else 1)"
    using run by (auto simp: pubsubSubscribePattern_def s1_def Let_def silent_simps pattern_subs_def split: if_splits)
  have own: "(\<lambda>j. channels_of s1 j) = (\<lambda>j. channels_of s j)" by (auto simp: s1_def)
  have "channels_inv s1 \<and> patterns_inv s1"
    using inv unfolding pubsub_inv_def channels_inv_def own by (auto simp: s1_def patterns_inv_def)
  then show "pubsub_inv s'" using inv_silent(3) [OF s'] by (simp add: pubsub_inv_def)
  show "pattern_subs s' = insert (i, p) (pattern_subs s)" "channel_subs s' = channel_subs s"
    unfolding subs_silent [OF s'] by (auto simp: s1_def channel_subs_def pattern_subs_def split: if_splits)
  show "r = (if (i, p) \<in> pattern_subs s then 0 else 1)" by (rule r)
qed

lemma pubsubUnsubscribePattern_correct:
  assumes inv: "pubsub_inv s"
  shows "\<exists>s'. pubsubUnsubscribePattern i p notify s = Some (s', if (i, p) \<in> pattern_subs s then 1 else 0) \<and>
    pubsub_inv s' \<and> pattern_subs s' = pattern_subs s - {(i, p)} \<and> channel_subs s' = channel_subs s"
proof (cases "p \<in> set (patterns_of s i)")
  case False
  then have "pattern_subs s - {(i, p)} = pattern_subs s" by (auto simp: pattern_subs_def)
  then show ?thesis using False inv inv_silent(3) [OF silent_notify_client] subs_silent [OF silent_notify_client]
    by (auto simp: pubsubUnsubscribePattern_def pattern_subs_def)
next
  case True
  define s1 where "s1 = (upd_client i (\<lambda>c. c\<lparr>c_pubsub_patterns := remove1 p (c_pubsub_patterns c)\<rparr>) s)
    \<lparr>sv_pubsub_patterns := remove1 (i, p) (sv_pubsub_patterns s)\<rparr>"
  have mem: "(i, p) \<in> set (sv_pubsub_patterns s)" and dist: "distinct (sv_pubsub_patterns s)" "\<And>j. distinct (patterns_of s j)"
    and eqv: "\<And>j q. q \<in> set (patterns_of s j) \<longleftrightarrow> (j, q) \<in> set (sv_pubsub_patterns s)"
    using inv True by (auto simp: pubsub_inv_def patterns_inv_def)
  have run: "pubsubUnsubscribePattern i p notify s =
      Some (if notify then notify_client i shared_punsubscribebulk (Some p) s1 else s1, 1)"
    using True mem by (simp add: pubsubUnsubscribePattern_def s1_def Let_def)
  have sil: "silent (if notify then notify_client i shared_punsubscribebulk (Some p) s1 else s1) = silent s1"
    by (simp add: silent_simps)
  have "patterns_inv s1" unfolding patterns_inv_def using dist eqv by (auto simp: s1_def)
  moreover have "(\<lambda>j. channels_of s1 j) = (\<lambda>j. channels_of s j)" by (auto simp: s1_def)
  then have "channels_inv s1" using inv by (simp add: s1_def pubsub_inv_def channels_inv_def)
  moreover have "pattern_subs s1 = pattern_subs s - {(i, p)}" "channel_subs s1 = channel_subs s"
    using dist(2) [of i] by (auto simp: s1_def channel_subs_def pattern_subs_def split: if_splits)
  ultimately show ?thesis
    using run inv_silent(3) [OF sil] subs_silent [OF sil] True by (simp add: pubsub_inv_def pattern_subs_def)
qed

lemma unsubscribe_channels_correct:
  assumes "pubsub_inv s"
  shows "\<exists>s'. unsubscribe_channels i notify chs s = Some (s', card (Pair i ` set chs \<inter> channel_subs s)) \<and>
    pubsub_inv s' \<and> channel_subs s' = channel_subs s - Pair i ` set chs \<and> pattern_subs s' = pattern_subs s"
  using assms
proof (induction chs arbitrary: s)
  case (Cons c chs)
  obtain s1 where s1: "pubsubUnsubscribeChannel i c notify s = Some (s1, if (i, c) \<in> channel_subs s then 1 else 0)" "pubsub_inv s1"
      "channel_subs s1 = channel_subs s - {(i, c)}" "pattern_subs s1 = pattern_subs s"
    using pubsubUnsubscribeChannel_correct [OF Cons.prems, of i c notify] by blast
  obtain s2 where s2: "unsubscribe_channels i notify chs s1 = Some (s2, card (Pair i ` set chs \<inter> channel_subs s1))" "pubsub_inv s2"
      "channel_subs s2 = channel_subs s1 - Pair i ` set chs" "pattern_subs s2 = pattern_subs s1"
    using Cons.IH [OF s1(2)] by blast
  have "Pair i ` set (c # chs) \<inter> channel_subs s =
      (if (i, c) \<in> channel_subs s then insert (i, c) (Pair i ` set chs \<inter> channel_subs s1) else Pair i ` set chs \<inter> channel_subs s1)"
    using s1(3) by auto
  then have "card (Pair i ` set (c # chs) \<inter> channel_subs s) =
      (if (i, c) \<in> channel_subs s then 1 else 0) + card (Pair i ` set chs \<inter> channel_subs s1)"
    using s1(3) by simp
  then show ?case using s1 s2 by auto
qed simp

lemma unsubscribe_patterns_correct:
  assumes "pubsub_inv s"
  shows "\<exists>s'. unsubscribe_patterns i notify ps s = Some (s', card (Pair i ` set ps \<inter> pattern_subs s)) \<and>
    pubsub_inv s' \<and> pattern_subs s' = pattern_subs s - Pair i ` set ps \<and> channel_subs s' = channel_subs s"
  using assms
proof (induction ps arbitrary: s)
  case (Cons c ps)
  obtain s1 where s1: "pubsubUnsubscribePattern i c notify s = Some (s1, if (i, c) \<in> pattern_subs s then 1 else 0)" "pubsub_inv s1"
      "pattern_subs s1 = pattern_subs s - {(i, c)}" "channel_subs s1 = channel_subs s"
    using pubsubUnsubscribePattern_correct [OF Cons.prems, of i c notify] by blast
  obtain s2 where s2: "unsubscribe_patterns i notify ps s1 = Some (s2, card (Pair i ` set ps \<inter> pattern_subs s1))" "pubsub_inv s2"
      "pattern_subs s2 = pattern_subs s1 - Pair i ` set ps" "channel_subs s2 = channel_subs s1"
    using Cons.IH [OF s1(2)] by blast
  have "Pair i ` set (c # ps) \<inter> pattern_subs s =
      (if (i, c) \<in> pattern_subs s then insert (i, c) (Pair i ` set ps \<inter> pattern_subs s1) else Pair i ` set ps \<inter> pattern_subs s1)"
    using s1(3) by auto
  then have "card (Pair i ` set (c # ps) \<inter> pattern_subs s) =
      (if (i, c) \<in> pattern_subs s then 1 else 0) + card (Pair i ` set ps \<inter> pattern_subs s1)"
    using s1(3) by simp
  then show ?case using s1 s2 by auto
qed simp

text \<open>Dropping all subscriptions, as the release of a client does, leaves no trace of it in the server.\<close>

lemma unsubscribe_all_correct:
  assumes inv: "pubsub_inv s" and ord: "\<And>xs. set (ord xs) = set xs"
  shows "\<exists>s1 s2 n m. pubsubUnsubscribeAllChannels ord i notify s = Some (s1, n) \<and>
    pubsubUnsubscribeAllPatterns i notify s1 = Some (s2, m) \<and> pubsub_inv s2 \<and>
    channel_subs s2 = {x \<in> channel_subs s. fst x \<noteq> i} \<and> pattern_subs s2 = {x \<in> pattern_subs s. fst x \<noteq> i}"
proof -
  obtain a n where a: "unsubscribe_channels i notify (ord (channels_of s i)) s = Some (a, n)" "pubsub_inv a"
      "channel_subs a = channel_subs s - Pair i ` set (channels_of s i)" "pattern_subs a = pattern_subs s"
    using unsubscribe_channels_correct [OF inv, of i notify "ord (channels_of s i)"] ord by auto
  obtain s1 where s1: "pubsubUnsubscribeAllChannels ord i notify s = Some (s1, n)" "silent s1 = silent a"
    using a(1) by (auto simp: pubsubUnsubscribeAllChannels_def silent_simps)
  have inv1: "pubsub_inv s1" using a(2) inv_silent(3) [OF s1(2)] by simp
  obtain b m where b: "unsubscribe_patterns i notify (patterns_of s1 i) s1 = Some (b, m)" "pubsub_inv b"
      "pattern_subs b = pattern_subs s1 - Pair i ` set (patterns_of s1 i)" "channel_subs b = channel_subs s1"
    using unsubscribe_patterns_correct [OF inv1, of i notify "patterns_of s1 i"] by auto
  obtain s2 where s2: "pubsubUnsubscribeAllPatterns i notify s1 = Some (s2, m)" "silent s2 = silent b"
    using b(1) by (auto simp: pubsubUnsubscribeAllPatterns_def silent_simps)
  have "channel_subs s2 = {x \<in> channel_subs s. fst x \<noteq> i}"
    using a(3) b(4) subs_silent(1) [OF s1(2)] subs_silent(1) [OF s2(2)] by (auto simp: channel_subs_def)
  moreover have "pattern_subs s2 = {x \<in> pattern_subs s. fst x \<noteq> i}"
  proof -
    have "pattern_subs s1 = pattern_subs s" using a(4) subs_silent(2) [OF s1(2)] by simp
    moreover have "Pair i ` set (patterns_of s1 i) = {x \<in> pattern_subs s1. fst x = i}" by (auto simp: pattern_subs_def)
    ultimately show ?thesis using b(3) subs_silent(2) [OF s2(2)] by auto
  qed
  ultimately show ?thesis using s1 s2 b(2) inv_silent(3) [OF s2(2)] by auto
qed

section \<open>Delivery\<close>

definition bulk_text :: "byte list \<Rightarrow> byte list" where
  "bulk_text bs = reply_prefix (ch CHR ''$'') (int (length bs)) @ bs @ crlf"

definition message_text :: "byte list \<Rightarrow> byte list \<Rightarrow> byte list" where
  "message_text channel message = reply_prefix (ch CHR ''*'') 3 @ shared_messagebulk @ bulk_text channel @ bulk_text message"

definition pmessage_text :: "byte list \<Rightarrow> byte list \<Rightarrow> byte list \<Rightarrow> byte list" where
  "pmessage_text pat channel message =
     reply_prefix (ch CHR ''*'') 4 @ shared_pmessagebulk @ bulk_text pat @ bulk_text channel @ bulk_text message"

lemma send_text:
  "send_message channel message i s = addReply i (message_text channel message) s"
  "send_pmessage pat channel message i s = addReply i (pmessage_text pat channel message) s"
  by (simp_all add: send_message_def send_pmessage_def message_text_def pmessage_text_def bulk_text_def addReplyMultiBulkLen_def
    addReplyBulkCBuffer_def)

abbreviation out :: "redisServer \<Rightarrow> nat \<Rightarrow> byte list" where
  "out s j \<equiv> c_reply (sv_clients s j)"

lemma out_addReply: "out (addReply i bs s) j = (if i = j then out s j @ bs else out s j)"
  by (simp add: addReply_def)

lemma publish_channel_correct:
  assumes "distinct l"
  shows "publish_channel channel message l s = (s', n) \<Longrightarrow>
    n = length l \<and> silent s' = silent s \<and> (\<forall>j. out s' j = out s j @ (if j \<in> set l then message_text channel message else []))"
  using assms
proof (induction l arbitrary: s s' n)
  case (Cons i l)
  obtain n' where r: "publish_channel channel message l (addReply i (message_text channel message) s) = (s', n')" "n = Suc n'"
    using Cons.prems(1) by (auto simp: send_text split: prod.splits)
  from Cons.IH [OF r(1)] Cons.prems(2) r(2) show ?case by (auto simp: silent_simps out_addReply)
qed simp

text \<open>A pattern that the matcher never runs out of the buffers with.\<close>

definition safe_pattern :: "byte list \<Rightarrow> bool" where
  "safe_pattern p \<longleftrightarrow> (\<forall>chan. chan \<noteq> [] \<longrightarrow> pattern_match p chan \<noteq> None)"

lemma token_pattern_safe: "list_all token_ok ts \<Longrightarrow> safe_pattern (pattern_bytes ts)"
  using stringmatchlen_correct [of ts _ False] by (simp add: safe_pattern_def pattern_match_def matches_def)

definition hits :: "byte list \<Rightarrow> (nat \<times> byte list) list \<Rightarrow> (nat \<times> byte list) list" where
  "hits channel ps = filter (\<lambda>(k, p). pattern_match p channel = Some True) ps"

lemma publish_patterns_correct:
  assumes "\<forall>(k, p) \<in> set ps. pattern_match p channel \<noteq> None"
  shows "\<exists>s'. publish_patterns channel message ps s = Some (s', length (hits channel ps)) \<and> silent s' = silent s \<and>
    (\<forall>j. out s' j = out s j @ concat (map (\<lambda>(k, p). pmessage_text p channel message) (filter (\<lambda>(k, p). k = j) (hits channel ps))))"
  using assms
proof (induction ps arbitrary: s)
  case (Cons x ps)
  obtain i p where x: "x = (i, p)" by (cases x)
  obtain m where m: "pattern_match p channel = Some m" using Cons.prems x by auto
  define s1 where "s1 = (if m then addReply i (pmessage_text p channel message) s else s)"
  obtain s' where s': "publish_patterns channel message ps s1 = Some (s', length (hits channel ps))" "silent s' = silent s1"
    "\<forall>j. out s' j = out s1 j @ concat (map (\<lambda>(k, p). pmessage_text p channel message) (filter (\<lambda>(k, p). k = j) (hits channel ps)))"
    using Cons.IH [of s1] Cons.prems by auto
  have "publish_patterns channel message (x # ps) s = Some (s', length (hits channel (x # ps)))"
    using s'(1) m x by (cases m) (simp_all add: s1_def send_text hits_def)
  moreover have "silent s' = silent s" using s'(2) by (simp add: s1_def silent_simps)
  ultimately show ?case using s'(3) m x by (auto simp: s1_def hits_def out_addReply)
qed (simp add: hits_def)

theorem pubsubPublishMessage_correct:
  assumes inv: "pubsub_inv s" and pats: "\<forall>(k, p) \<in> set (sv_pubsub_patterns s). pattern_match p channel \<noteq> None"
  shows "\<exists>s' n. pubsubPublishMessage channel message s = Some (s', n) \<and> silent s' = silent s \<and>
    n = card {i. (i, channel) \<in> channel_subs s} + card {(i, p) \<in> pattern_subs s. pattern_match p channel = Some True} \<and>
    (\<forall>j. out s' j = out s j @ (if (j, channel) \<in> channel_subs s then message_text channel message else []) @
      concat (map (\<lambda>(k, p). pmessage_text p channel message) (filter (\<lambda>(k, p). k = j) (hits channel (sv_pubsub_patterns s)))))"
proof -
  define l where "l = (case sv_pubsub_channels s channel of None \<Rightarrow> [] | Some l \<Rightarrow> l)"
  have l: "distinct l" "set l = {i. (i, channel) \<in> channel_subs s}"
    using inv registry_members [of "\<lambda>j. channels_of s j" "sv_pubsub_channels s" channel]
    by (simp_all add: pubsub_inv_def channels_inv_def channel_subs_def l_def)
  have ln: "length l = card {i. (i, channel) \<in> channel_subs s}"
    using distinct_card [OF l(1)] l(2) by simp
  obtain s1 where p1: "publish_channel channel message l s = (s1, length l)" "silent s1 = silent s"
    "\<forall>j. out s1 j = out s j @ (if j \<in> set l then message_text channel message else [])"
    using publish_channel_correct [OF l(1), of channel message s] by (cases "publish_channel channel message l s") auto
  have f1: "(case sv_pubsub_channels s channel of None \<Rightarrow> (s, 0) | Some l \<Rightarrow> publish_channel channel message l s) = (s1, length l)"
    using p1(1) by (simp add: l_def split: option.splits)
  have ps: "sv_pubsub_patterns s1 = sv_pubsub_patterns s" using silent_eq_fields(5) [OF p1(2)] .
  obtain s2 where p2: "publish_patterns channel message (sv_pubsub_patterns s) s1 = Some (s2, length (hits channel (sv_pubsub_patterns s)))"
    "silent s2 = silent s1"
    "\<forall>j. out s2 j = out s1 j @ concat (map (\<lambda>(k, p). pmessage_text p channel message) (filter (\<lambda>(k, p). k = j) (hits channel (sv_pubsub_patterns s))))"
    using publish_patterns_correct [OF pats, of message s1] by auto
  have "(if sv_pubsub_patterns s1 \<noteq> [] then publish_patterns channel message (sv_pubsub_patterns s1) s1 else Some (s1, 0)) =
      Some (s2, length (hits channel (sv_pubsub_patterns s)))"
    using p2(1) ps by (auto simp: hits_def)
  then have run: "pubsubPublishMessage channel message s = Some (s2, length l + length (hits channel (sv_pubsub_patterns s)))"
    using f1 by (simp add: pubsubPublishMessage_def)
  have "distinct (sv_pubsub_patterns s)" "set (sv_pubsub_patterns s) = pattern_subs s"
    using inv by (auto simp: pubsub_inv_def patterns_inv_def pattern_subs_def)
  then have "length (hits channel (sv_pubsub_patterns s)) = card {(i, p) \<in> pattern_subs s. pattern_match p channel = Some True}"
    using distinct_card [of "hits channel (sv_pubsub_patterns s)"] by (simp add: hits_def case_prod_unfold)
  then show ?thesis using run ln p1(2,3) p2(2,3) l(2) by auto
qed

end
