(* ===== verification/Notify.thy ===== *)
theory Notify
  imports Pubsub
begin

text \<open>
  Keyspace notifications, \<open>notify.c\<close>: the event classes as a set of flags and as a string, and the
  publication of an event on the two channels of a key.
\<close>

definition REDIS_NOTIFY_KEYSPACE :: "32 word" where "REDIS_NOTIFY_KEYSPACE = 1"

definition REDIS_NOTIFY_KEYEVENT :: "32 word" where "REDIS_NOTIFY_KEYEVENT = 2"

definition REDIS_NOTIFY_GENERIC :: "32 word" where "REDIS_NOTIFY_GENERIC = 4"

definition REDIS_NOTIFY_STRING :: "32 word" where "REDIS_NOTIFY_STRING = 8"

definition REDIS_NOTIFY_LIST :: "32 word" where "REDIS_NOTIFY_LIST = 16"

definition REDIS_NOTIFY_SET :: "32 word" where "REDIS_NOTIFY_SET = 32"

definition REDIS_NOTIFY_HASH :: "32 word" where "REDIS_NOTIFY_HASH = 64"

definition REDIS_NOTIFY_ZSET :: "32 word" where "REDIS_NOTIFY_ZSET = 128"

definition REDIS_NOTIFY_EXPIRED :: "32 word" where "REDIS_NOTIFY_EXPIRED = 256"

definition REDIS_NOTIFY_EVICTED :: "32 word" where "REDIS_NOTIFY_EVICTED = 512"

lemmas notify_flags = REDIS_NOTIFY_KEYSPACE_def REDIS_NOTIFY_KEYEVENT_def REDIS_NOTIFY_GENERIC_def REDIS_NOTIFY_STRING_def
  REDIS_NOTIFY_LIST_def REDIS_NOTIFY_SET_def REDIS_NOTIFY_HASH_def REDIS_NOTIFY_ZSET_def REDIS_NOTIFY_EXPIRED_def REDIS_NOTIFY_EVICTED_def

definition REDIS_NOTIFY_ALL :: "32 word" where
  "REDIS_NOTIFY_ALL = REDIS_NOTIFY_GENERIC OR REDIS_NOTIFY_STRING OR REDIS_NOTIFY_LIST OR REDIS_NOTIFY_SET OR
     REDIS_NOTIFY_HASH OR REDIS_NOTIFY_ZSET OR REDIS_NOTIFY_EXPIRED OR REDIS_NOTIFY_EVICTED"

text \<open>The switch on one character; \<open>None\<close> is a character of no class.\<close>

definition class_flag :: "byte \<Rightarrow> 32 word option" where
  "class_flag c =
     (if c = ch CHR ''A'' then Some REDIS_NOTIFY_ALL
      else if c = ch CHR ''g'' then Some REDIS_NOTIFY_GENERIC
      else if c = ch CHR ''$'' then Some REDIS_NOTIFY_STRING
      else if c = ch CHR ''l'' then Some REDIS_NOTIFY_LIST
      else if c = ch CHR ''s'' then Some REDIS_NOTIFY_SET
      else if c = ch CHR ''h'' then Some REDIS_NOTIFY_HASH
      else if c = ch CHR ''z'' then Some REDIS_NOTIFY_ZSET
      else if c = ch CHR ''x'' then Some REDIS_NOTIFY_EXPIRED
      else if c = ch CHR ''e'' then Some REDIS_NOTIFY_EVICTED
      else if c = ch CHR ''K'' then Some REDIS_NOTIFY_KEYSPACE
      else if c = ch CHR ''E'' then Some REDIS_NOTIFY_KEYEVENT
      else None)"

text \<open>The string is read up to its NUL; the result \<open>-1\<close> for a bad character is the inner \<open>None\<close>.\<close>

fun classes_loop :: "32 word \<Rightarrow> byte list \<Rightarrow> 32 word option option" where
  "classes_loop flags [] = None"
| "classes_loop flags (c # p) =
     (if c = 0 then Some (Some flags)
      else (case class_flag c of None \<Rightarrow> Some None | Some f \<Rightarrow> classes_loop (flags OR f) p))"

definition keyspaceEventsStringToFlags :: "byte list \<Rightarrow> 32 word option option" where
  "keyspaceEventsStringToFlags classes = classes_loop 0 classes"

definition cat_class :: "(nat \<Rightarrow> byte) \<Rightarrow> 32 word \<Rightarrow> 32 word \<Rightarrow> byte \<Rightarrow> sdshdr \<Rightarrow> sdshdr option" where
  "cat_class garb flags f c res = (if flags AND f \<noteq> 0 then sdscatlen garb res [c, 0] 1 else Some res)"

definition keyspaceEventsFlagsToString :: "(nat \<Rightarrow> byte) \<Rightarrow> 32 word \<Rightarrow> sdshdr option" where
  "keyspaceEventsFlagsToString garb flags = do {
     res \<leftarrow> sdsempty garb;
     res \<leftarrow> (if flags AND REDIS_NOTIFY_ALL = REDIS_NOTIFY_ALL then sdscatlen garb res [ch CHR ''A'', 0] 1
       else do {
         res \<leftarrow> cat_class garb flags REDIS_NOTIFY_GENERIC (ch CHR ''g'') res;
         res \<leftarrow> cat_class garb flags REDIS_NOTIFY_STRING (ch CHR ''$'') res;
         res \<leftarrow> cat_class garb flags REDIS_NOTIFY_LIST (ch CHR ''l'') res;
         res \<leftarrow> cat_class garb flags REDIS_NOTIFY_SET (ch CHR ''s'') res;
         res \<leftarrow> cat_class garb flags REDIS_NOTIFY_HASH (ch CHR ''h'') res;
         res \<leftarrow> cat_class garb flags REDIS_NOTIFY_ZSET (ch CHR ''z'') res;
         res \<leftarrow> cat_class garb flags REDIS_NOTIFY_EXPIRED (ch CHR ''x'') res;
         cat_class garb flags REDIS_NOTIFY_EVICTED (ch CHR ''e'') res });
     res \<leftarrow> cat_class garb flags REDIS_NOTIFY_KEYSPACE (ch CHR ''K'') res;
     cat_class garb flags REDIS_NOTIFY_KEYEVENT (ch CHR ''E'') res }"

text \<open>
  The channel of an event: a prefix, the number of the database, a separator and a name. The
  database number is printed into a buffer of 24 bytes.
\<close>

definition event_channel :: "(nat \<Rightarrow> byte) \<Rightarrow> string \<Rightarrow> nat \<Rightarrow> byte list \<Rightarrow> sdshdr option" where
  "event_channel garb prefix dbid name = do {
     chan \<leftarrow> sdsnewlen garb (Some (bytes prefix @ [0])) 11;
     (len, buf) \<leftarrow> ll2string (map garb [0..<24]) 24 (int dbid);
     chan \<leftarrow> sdscatlen garb chan buf len;
     chan \<leftarrow> sdscatlen garb chan (bytes ''__:'' @ [0]) 3;
     sdscatlen garb chan name (length name) }"

definition notifyKeyspaceEvent :: "(nat \<Rightarrow> byte) \<Rightarrow> 32 word \<Rightarrow> string \<Rightarrow> byte list \<Rightarrow> nat \<Rightarrow> redisServer \<Rightarrow> redisServer option" where
  "notifyKeyspaceEvent garb ty event key dbid s =
     (if sv_notify s AND ty = 0 then Some s
      else do {
        s \<leftarrow> (if sv_notify s AND REDIS_NOTIFY_KEYSPACE \<noteq> 0 then do {
            chan \<leftarrow> event_channel garb ''__keyspace@'' dbid key;
            map_option fst (pubsubPublishMessage (sds_str chan) (bytes event) s) }
          else Some s);
        (if sv_notify s AND REDIS_NOTIFY_KEYEVENT \<noteq> 0 then do {
            chan \<leftarrow> event_channel garb ''__keyevent@'' dbid (bytes event);
            map_option fst (pubsubPublishMessage (sds_str chan) key s) }
          else Some s) })"

section \<open>Event classes\<close>

text \<open>The characters of the classes in the order they are printed.\<close>

definition event_classes :: "(32 word \<times> byte) list" where
  "event_classes =
     [(REDIS_NOTIFY_GENERIC, ch CHR ''g''), (REDIS_NOTIFY_STRING, ch CHR ''$''), (REDIS_NOTIFY_LIST, ch CHR ''l''),
      (REDIS_NOTIFY_SET, ch CHR ''s''), (REDIS_NOTIFY_HASH, ch CHR ''h''), (REDIS_NOTIFY_ZSET, ch CHR ''z''),
      (REDIS_NOTIFY_EXPIRED, ch CHR ''x''), (REDIS_NOTIFY_EVICTED, ch CHR ''e'')]"

definition channel_classes :: "(32 word \<times> byte) list" where
  "channel_classes = [(REDIS_NOTIFY_KEYSPACE, ch CHR ''K''), (REDIS_NOTIFY_KEYEVENT, ch CHR ''E'')]"

definition picked :: "32 word \<Rightarrow> (32 word \<times> byte) list \<Rightarrow> byte list" where
  "picked flags cs = map snd (filter (\<lambda>(f, c). flags AND f \<noteq> 0) cs)"

definition class_text :: "32 word \<Rightarrow> byte list" where
  "class_text flags =
     (if flags AND REDIS_NOTIFY_ALL = REDIS_NOTIFY_ALL then [ch CHR ''A''] else picked flags event_classes) @
     picked flags channel_classes"

fun cat_classes :: "(nat \<Rightarrow> byte) \<Rightarrow> 32 word \<Rightarrow> (32 word \<times> byte) list \<Rightarrow> sdshdr \<Rightarrow> sdshdr option" where
  "cat_classes garb flags [] res = Some res"
| "cat_classes garb flags ((f, c) # cs) res = do { res \<leftarrow> cat_class garb flags f c res; cat_classes garb flags cs res }"

lemma cat_classes_single [simp]: "cat_classes garb flags [(f, c)] = cat_class garb flags f c"
proof (rule ext)
  fix x
  show "cat_classes garb flags [(f, c)] x = cat_class garb flags f c x" by (cases "cat_class garb flags f c x") auto
qed

lemma cat_one:
  assumes "sds_inv res" "length (sds_str res) < 100"
  shows "\<exists>res'. sdscatlen garb res [c, 0] 1 = Some res' \<and> sds_inv res' \<and> sds_str res' = sds_str res @ [c]"
  using sdscatlen_correct [OF assms(1), of 1 "[c, 0]" garb] assms by (simp add: length_sds_str SDS_MAX_PREALLOC_def)

lemma cat_classes_correct:
  assumes "sds_inv res" "length (sds_str res) + length cs < 100"
  shows "\<exists>res'. cat_classes garb flags cs res = Some res' \<and> sds_inv res' \<and> sds_str res' = sds_str res @ picked flags cs"
  using assms
proof (induction cs arbitrary: res)
  case (Cons x cs)
  obtain f c where x: "x = (f, c)" by (cases x)
  obtain r where r: "cat_class garb flags f c res = Some r" "sds_inv r" "sds_str r = sds_str res @ picked flags [x]"
    using cat_one [OF Cons.prems(1), of garb c] Cons.prems x
    by (cases "flags AND f = 0") (auto simp: cat_class_def picked_def simp del: One_nat_def)
  have "length (sds_str r) + length cs < 100" using r(3) Cons.prems(2) by (auto simp: picked_def split: if_splits)
  from Cons.IH [OF r(2) this] show ?case using r x by (auto simp: picked_def)
qed (simp add: picked_def)

lemma flags_to_string:
  "\<exists>res. keyspaceEventsFlagsToString garb flags = Some res \<and> sds_inv res \<and> sds_str res = class_text flags"
proof -
  obtain e where e: "sdsempty garb = Some e" "sds_inv e" "sds_str e = []" using sdsempty_correct [of garb] by blast
  define mid where "mid = (if flags AND REDIS_NOTIFY_ALL = REDIS_NOTIFY_ALL then sdscatlen garb e [ch CHR ''A'', 0] 1
    else cat_classes garb flags event_classes e)"
  have eq: "keyspaceEventsFlagsToString garb flags = do { res \<leftarrow> mid; cat_classes garb flags channel_classes res }"
    by (simp add: keyspaceEventsFlagsToString_def mid_def e(1) event_classes_def channel_classes_def)
  have len8: "length event_classes = 8" by (simp add: event_classes_def)
  obtain r where r: "mid = Some r" "sds_inv r"
    "sds_str r = (if flags AND REDIS_NOTIFY_ALL = REDIS_NOTIFY_ALL then [ch CHR ''A''] else picked flags event_classes)"
    using cat_one [OF e(2), of garb "ch CHR ''A''"] cat_classes_correct [OF e(2), of event_classes garb flags] e(3) len8
    by (cases "flags AND REDIS_NOTIFY_ALL = REDIS_NOTIFY_ALL") (auto simp: mid_def simp del: One_nat_def)
  have "length (picked flags event_classes) \<le> 8" unfolding picked_def len8 [symmetric] by simp
  then have "length (sds_str r) + length channel_classes < 100" by (simp add: r(3) channel_classes_def)
  from cat_classes_correct [OF r(2) this, of garb flags] show ?thesis
    using r by (auto simp: eq class_text_def)
qed

text \<open>One bit of the flags.\<close>

lemma and_power: "(w::32 word) AND 2 ^ k = 0 \<or> w AND 2 ^ k = 2 ^ k"
  by (cases "bit w k") (auto intro!: bit_word_eqI simp: bit_simps)

lemma classes_loop_picked:
  assumes "\<forall>(f, c) \<in> set cs. class_flag c = Some f \<and> c \<noteq> 0 \<and> (\<exists>k. f = 2 ^ k)"
  shows "classes_loop acc (picked flags cs @ r) = classes_loop (acc OR flags AND foldr (OR) (map fst cs) 0) r"
  using assms
proof (induction cs arbitrary: acc)
  case (Cons x cs)
  obtain f c k where x: "x = (f, c)" "class_flag c = Some f" "c \<noteq> 0" "f = 2 ^ k" using Cons.prems by (cases x) auto
  have IH: "classes_loop acc (picked flags cs @ r) = classes_loop (acc OR flags AND foldr (OR) (map fst cs) 0) r" for acc
    using Cons.IH Cons.prems by simp
  have "acc OR flags AND (f OR b) = (acc OR flags AND f) OR flags AND b" for b
    by (rule bit_word_eqI) (auto simp: bit_simps)
  then show ?case using x IH and_power [of flags k] by (auto simp: picked_def)
qed (simp add: picked_def)

lemma event_classes_ok:
  "\<forall>(f, c) \<in> set event_classes. class_flag c = Some f \<and> c \<noteq> 0 \<and> (\<exists>k. f = 2 ^ k)"
  "\<forall>(f, c) \<in> set channel_classes. class_flag c = Some f \<and> c \<noteq> 0 \<and> (\<exists>k. f = 2 ^ k)"
proof -
  have p: "\<exists>k. (1::32 word) = 2 ^ k" "\<exists>k. (2::32 word) = 2 ^ k" "\<exists>k. (4::32 word) = 2 ^ k" "\<exists>k. (8::32 word) = 2 ^ k"
    "\<exists>k. (16::32 word) = 2 ^ k" "\<exists>k. (32::32 word) = 2 ^ k" "\<exists>k. (64::32 word) = 2 ^ k" "\<exists>k. (128::32 word) = 2 ^ k"
    "\<exists>k. (256::32 word) = 2 ^ k" "\<exists>k. (512::32 word) = 2 ^ k"
    by (rule exI [of _ 0], simp) (rule exI [of _ 1], simp, rule exI [of _ 2], simp, rule exI [of _ 3], simp, rule exI [of _ 4], simp,
      rule exI [of _ 5], simp, rule exI [of _ 6], simp, rule exI [of _ 7], simp, rule exI [of _ 8], simp, rule exI [of _ 9], simp)
  show "\<forall>(f, c) \<in> set event_classes. class_flag c = Some f \<and> c \<noteq> 0 \<and> (\<exists>k. f = 2 ^ k)"
    "\<forall>(f, c) \<in> set channel_classes. class_flag c = Some f \<and> c \<noteq> 0 \<and> (\<exists>k. f = 2 ^ k)"
    using p by (simp_all add: event_classes_def channel_classes_def class_flag_def notify_flags)
qed

lemma event_masks:
  "foldr (OR) (map fst event_classes) 0 = REDIS_NOTIFY_ALL"
  "foldr (OR) (map fst channel_classes) 0 = REDIS_NOTIFY_KEYSPACE OR REDIS_NOTIFY_KEYEVENT"
  by (simp_all add: event_classes_def channel_classes_def REDIS_NOTIFY_ALL_def)

text \<open>Printing the classes and reading them again gives the ten flags that have a class.\<close>

theorem keyspace_events_roundtrip:
  "\<exists>res. keyspaceEventsFlagsToString garb flags = Some res \<and> sds_inv res \<and>
    keyspaceEventsStringToFlags (sds_str res @ [0]) =
      Some (Some (flags AND (REDIS_NOTIFY_ALL OR REDIS_NOTIFY_KEYSPACE OR REDIS_NOTIFY_KEYEVENT)))"
proof -
  have A: "class_flag (ch CHR ''A'') = Some REDIS_NOTIFY_ALL" by (simp add: class_flag_def)
  have "classes_loop 0 (class_text flags @ [0]) =
      classes_loop (flags AND REDIS_NOTIFY_ALL) (picked flags channel_classes @ [0])"
    using classes_loop_picked [OF event_classes_ok(1), of 0 flags "picked flags channel_classes @ [0]"] A
    by (auto simp: class_text_def event_masks)
  also have "\<dots> = Some (Some (flags AND REDIS_NOTIFY_ALL OR flags AND (REDIS_NOTIFY_KEYSPACE OR REDIS_NOTIFY_KEYEVENT)))"
    using classes_loop_picked [OF event_classes_ok(2), of "flags AND REDIS_NOTIFY_ALL" flags "[0]"] by (simp add: event_masks)
  also have "flags AND REDIS_NOTIFY_ALL OR flags AND (REDIS_NOTIFY_KEYSPACE OR REDIS_NOTIFY_KEYEVENT) =
      flags AND (REDIS_NOTIFY_ALL OR REDIS_NOTIFY_KEYSPACE OR REDIS_NOTIFY_KEYEVENT)"
    by (rule bit_word_eqI) (auto simp: bit_simps)
  finally show ?thesis using flags_to_string [of garb flags] by (auto simp: keyspaceEventsStringToFlags_def)
qed

section \<open>Events\<close>

definition event_name :: "string \<Rightarrow> nat \<Rightarrow> byte list \<Rightarrow> byte list" where
  "event_name prefix dbid name = bytes prefix @ dec dbid @ bytes ''__:'' @ name"

lemma event_channel_correct:
  assumes "length prefix = 11" "length name \<le> STRING_MAX" "dbid < 2 ^ 31"
  shows "\<exists>chan. event_channel garb prefix dbid name = Some chan \<and> sds_str chan = event_name prefix dbid name"
proof -
  have r: "int64_range (int dbid)" using assms(3) by (simp add: int64_range_def)
  obtain a where a: "sdsnewlen garb (Some (bytes prefix @ [0])) 11 = Some a" "sds_inv a" "sds_str a = bytes prefix"
    using sdsnewlen_correct [of 11 "bytes prefix @ [0]" garb] assms(1) by (auto simp: bytes_def)
  have la: "s_len a = 11" using length_sds_str [OF a(2)] a(3) assms(1) by (simp add: bytes_def)
  have dl: "length (dec dbid) \<le> 20" using length_sdec_bound [OF r] by (simp add: sdec_def)
  obtain b where b: "ll2string (map garb [0..<24]) 24 (int dbid) = Some (length (dec dbid), dec dbid @ b)"
    using ll2string_correct [OF r, of 24 "map garb [0..<24]"] dl by (auto simp: sdec_def)
  obtain c where c: "sdscatlen garb a (dec dbid @ b) (length (dec dbid)) = Some c" "sds_inv c" "sds_str c = bytes prefix @ dec dbid"
    using sdscatlen_correct [OF a(2), of "length (dec dbid)" "dec dbid @ b" garb] a(3) la dl by (auto simp: SDS_MAX_PREALLOC_def)
  have lc: "s_len c \<le> 31" using length_sds_str [OF c(2)] c(3) assms(1) dl by (simp add: bytes_def)
  obtain d where d: "sdscatlen garb c (bytes ''__:'' @ [0]) 3 = Some d" "sds_inv d" "sds_str d = bytes prefix @ dec dbid @ bytes ''__:''"
    using sdscatlen_correct [OF c(2), of 3 "bytes ''__:'' @ [0]" garb] c(3) lc by (auto simp: SDS_MAX_PREALLOC_def bytes_def)
  have ld: "s_len d \<le> 34" using length_sds_str [OF d(2)] d(3) assms(1) dl by (simp add: bytes_def)
  obtain e where e: "sdscatlen garb d name (length name) = Some e" "sds_str e = event_name prefix dbid name"
    using sdscatlen_correct [OF d(2), of "length name" name garb] d(3) ld assms(2)
    by (auto simp: SDS_MAX_PREALLOC_def STRING_MAX_def event_name_def)
  show ?thesis using a b c d e by (simp add: event_channel_def)
qed

text \<open>The patterns that clients are subscribed to never take the matcher out of its buffers.\<close>

definition patterns_safe :: "redisServer \<Rightarrow> bool" where
  "patterns_safe s \<longleftrightarrow> (\<forall>(k, p) \<in> set (sv_pubsub_patterns s). safe_pattern p)"

lemma patterns_safe_silent: "silent s = silent s' \<Longrightarrow> patterns_safe s = patterns_safe s'"
  by (simp add: patterns_safe_def silent_eq_fields(5) [of s s'])

lemma publish_safe:
  assumes "pubsub_inv s" "patterns_safe s" "channel \<noteq> []"
  shows "\<exists>s'. map_option fst (pubsubPublishMessage channel message s) = Some s' \<and> silent s' = silent s \<and> (\<forall>j. \<exists>m. out s' j = out s j @ m)"
proof -
  have "\<forall>(k, p) \<in> set (sv_pubsub_patterns s). pattern_match p channel \<noteq> None"
    using assms(2,3) by (auto simp: patterns_safe_def safe_pattern_def)
  from pubsubPublishMessage_correct [OF assms(1) this, of message] show ?thesis by auto
qed

text \<open>A notification reaches subscribers and changes nothing else.\<close>

lemma notifyKeyspaceEvent_correct:
  assumes inv: "pubsub_inv s" "patterns_safe s" and key: "length key \<le> STRING_MAX" and event: "length event \<le> STRING_MAX"
    and db: "dbid < 2 ^ 31"
  shows "\<exists>s'. notifyKeyspaceEvent garb ty event key dbid s = Some s' \<and> silent s' = silent s \<and> (\<forall>j. \<exists>m. out s' j = out s j @ m)"
proof (cases "sv_notify s AND ty = 0")
  case True
  then show ?thesis by (simp add: notifyKeyspaceEvent_def)
next
  case False
  have ev: "length (bytes event) \<le> STRING_MAX" using event by (simp add: bytes_def)
  obtain a where a: "event_channel garb ''__keyspace@'' dbid key = Some a" "sds_str a = event_name ''__keyspace@'' dbid key"
    using event_channel_correct [of "''__keyspace@''" key dbid garb] key db by auto
  obtain b where b: "event_channel garb ''__keyevent@'' dbid (bytes event) = Some b" "sds_str b = event_name ''__keyevent@'' dbid (bytes event)"
    using event_channel_correct [of "''__keyevent@''" "bytes event" dbid garb] ev db by auto
  have ne: "event_name p dbid n \<noteq> []" for p n by (simp add: event_name_def bytes_def)
  obtain s1 where s1: "(if sv_notify s AND REDIS_NOTIFY_KEYSPACE \<noteq> 0
      then map_option fst (pubsubPublishMessage (event_name ''__keyspace@'' dbid key) (bytes event) s) else Some s) = Some s1" "silent s1 = silent s" "\<forall>j. \<exists>m. out s1 j = out s j @ m"
    using publish_safe [OF inv ne, of "''__keyspace@''" key "bytes event"] by (cases "sv_notify s AND REDIS_NOTIFY_KEYSPACE = 0") auto
  have inv1: "pubsub_inv s1" "patterns_safe s1" using inv inv_silent(3) [OF s1(2)] patterns_safe_silent [OF s1(2)] by simp_all
  obtain s2 where s2: "(if sv_notify s1 AND REDIS_NOTIFY_KEYEVENT \<noteq> 0
      then map_option fst (pubsubPublishMessage (event_name ''__keyevent@'' dbid (bytes event)) key s1) else Some s1) = Some s2" "silent s2 = silent s1" "\<forall>j. \<exists>m. out s2 j = out s1 j @ m"
    using publish_safe [OF inv1 ne, of "''__keyevent@''" "bytes event" key] by (cases "sv_notify s1 AND REDIS_NOTIFY_KEYEVENT = 0") auto
  have "notifyKeyspaceEvent garb ty event key dbid s = Some s2"
    using False s1(1) s2(1) by (simp add: notifyKeyspaceEvent_def a b cong: if_cong)
  moreover have "\<forall>j. \<exists>m. out s2 j = out s j @ m" using s1(3) s2(3) by (metis append.assoc)
  ultimately show ?thesis using s1(2) s2(2) by simp
qed

end
