(* ===== verification/Watch.thy ===== *)
theory Watch
  imports Notify
begin

text \<open>
  WATCH, the second part of \<open>multi.c\<close>: the keys a client watches, for every key of a database the
  clients that watch it, and the marking of those clients when a key is modified or a database is
  flushed. The two tables form a registry, with a pair of a key and a database as its key.
\<close>

section \<open>Definitions\<close>

definition watchForKey :: "nat \<Rightarrow> byte list \<Rightarrow> redisServer \<Rightarrow> redisServer" where
  "watchForKey i key s =
     (let c = sv_clients s i; db = c_db c in
      if (key, db) \<in> set (c_watched_keys c) then s
      else (let clients = (case db_watched_keys (sv_dbs s db) key of None \<Rightarrow> [] | Some l \<Rightarrow> l);
                s = upd_db db (\<lambda>d. d\<lparr>db_watched_keys := (db_watched_keys d)(key \<mapsto> clients @ [i])\<rparr>) s
            in upd_client i (\<lambda>c. c\<lparr>c_watched_keys := c_watched_keys c @ [(key, db)]\<rparr>) s))"

text \<open>The loop over the watched keys; every turn removes the node it is at, the first of the list.\<close>

fun unwatch_loop :: "nat \<Rightarrow> (byte list \<times> nat) list \<Rightarrow> redisServer \<Rightarrow> redisServer option" where
  "unwatch_loop i [] s = Some s"
| "unwatch_loop i ((key, db) # wks) s = do {
     clients \<leftarrow> db_watched_keys (sv_dbs s db) key;
     if i \<in> set clients then
       (let clients = remove1 i clients;
            s = upd_db db (\<lambda>d. d\<lparr>db_watched_keys := (db_watched_keys d)(key := (if clients = [] then None else Some clients))\<rparr>) s;
            s = upd_client i (\<lambda>c. c\<lparr>c_watched_keys := remove1 (key, db) (c_watched_keys c)\<rparr>) s
        in unwatch_loop i wks s)
     else None }"

definition unwatchAllKeys :: "nat \<Rightarrow> redisServer \<Rightarrow> redisServer option" where
  "unwatchAllKeys i s =
     (let wks = c_watched_keys (sv_clients s i) in if wks = [] then Some s else unwatch_loop i wks s)"

definition mark_dirty :: "nat \<Rightarrow> redisServer \<Rightarrow> redisServer" where
  "mark_dirty i = upd_client i (set_flag REDIS_DIRTY_CAS)"

definition touchWatchedKey :: "nat \<Rightarrow> byte list \<Rightarrow> redisServer \<Rightarrow> redisServer" where
  "touchWatchedKey db key s =
     (case db_watched_keys (sv_dbs s db) key of None \<Rightarrow> s | Some clients \<Rightarrow> fold mark_dirty clients s)"

text \<open>\<open>None\<close> for the database is the argument -1 of the code, all databases.\<close>

definition flush_hits :: "nat option \<Rightarrow> redisServer \<Rightarrow> byte list \<times> nat \<Rightarrow> bool" where
  "flush_hits dbid s wk = (case wk of (key, db) \<Rightarrow>
     (case dbid of None \<Rightarrow> True | Some d \<Rightarrow> db = d) \<and> db_dict (sv_dbs s db) key \<noteq> None)"

definition touchWatchedKeysOnFlush :: "nat option \<Rightarrow> redisServer \<Rightarrow> redisServer" where
  "touchWatchedKeysOnFlush dbid s =
     fold (\<lambda>i s. fold (\<lambda>wk s. if flush_hits dbid s wk then mark_dirty i s else s) (c_watched_keys (sv_clients s i)) s)
       (sv_client_list s) s"

definition signalModifiedKey :: "nat \<Rightarrow> byte list \<Rightarrow> redisServer \<Rightarrow> redisServer" where
  "signalModifiedKey db key s = touchWatchedKey db key s"

definition signalFlushedDb :: "nat option \<Rightarrow> redisServer \<Rightarrow> redisServer" where
  "signalFlushedDb dbid s = touchWatchedKeysOnFlush dbid s"

section \<open>Invariant\<close>

abbreviation watched_by :: "redisServer \<Rightarrow> nat \<Rightarrow> (byte list \<times> nat) list" where
  "watched_by s i \<equiv> c_watched_keys (sv_clients s i)"

definition watchers :: "redisServer \<Rightarrow> byte list \<times> nat \<Rightarrow> nat list option" where
  "watchers s wk = (case wk of (key, db) \<Rightarrow> db_watched_keys (sv_dbs s db) key)"

definition watch_inv :: "redisServer \<Rightarrow> bool" where
  "watch_inv s \<longleftrightarrow> registry (\<lambda>i. watched_by s i) (watchers s) \<and> (\<forall>i. watched_by s i \<noteq> [] \<longrightarrow> i \<in> set (sv_client_list s))"

definition dirty :: "redisServer \<Rightarrow> nat \<Rightarrow> bool" where
  "dirty s i \<longleftrightarrow> has_flag REDIS_DIRTY_CAS (sv_clients s i)"

section \<open>Operations that leave the registries alone\<close>

text \<open>
  \<open>keeps s s'\<close>: from \<open>s\<close> to \<open>s'\<close> only the keyspace, the replies, the counters and the logs change, and
  clients may be marked dirty.
\<close>

definition keeps :: "redisServer \<Rightarrow> redisServer \<Rightarrow> bool" where
  "keeps s s' \<longleftrightarrow>
     (\<forall>i. c_db (sv_clients s' i) = c_db (sv_clients s i) \<and> c_mstate (sv_clients s' i) = c_mstate (sv_clients s i) \<and>
        watched_by s' i = watched_by s i \<and> channels_of s' i = channels_of s i \<and> patterns_of s' i = patterns_of s i \<and>
        (\<forall>m. REDIS_DIRTY_CAS AND m = 0 \<longrightarrow> has_flag m (sv_clients s' i) = has_flag m (sv_clients s i)) \<and> (dirty s i \<longrightarrow> dirty s' i)) \<and>
     watchers s' = watchers s \<and> sv_client_list s' = sv_client_list s \<and>
     sv_pubsub_channels s' = sv_pubsub_channels s \<and> sv_pubsub_patterns s' = sv_pubsub_patterns s \<and>
     sv_dbnum s' = sv_dbnum s \<and> sv_notify s' = sv_notify s \<and> sv_loading s' = sv_loading s \<and> sv_masterhost s' = sv_masterhost s \<and>
     sv_now s' = sv_now s \<and> sv_lua_time s' = sv_lua_time s \<and> sv_aof_on s' = sv_aof_on s"

lemma keeps_refl [simp]: "keeps s s"
  by (simp add: keeps_def)

lemma keeps_trans: "keeps a b \<Longrightarrow> keeps b c \<Longrightarrow> keeps a c"
  unfolding keeps_def by metis

lemma watchers_eq: "sv_dbs s = sv_dbs s' \<Longrightarrow> watchers s = watchers s'"
  by (simp add: watchers_def fun_eq_iff)

lemma dirty_silent: "silent s = silent s' \<Longrightarrow> dirty s i = dirty s' i"
  by (simp add: dirty_def has_flag_def silent_eq_fields(15) [of s s'])

lemma keeps_silent:
  assumes "silent s' = silent s"
  shows "keeps s s'"
  unfolding keeps_def
  by (simp add: silent_eq_fields [OF assms] has_flag_def dirty_silent [OF assms] watchers_eq [OF silent_eq_fields(1) [OF assms]])

lemma keeps_inv:
  assumes "keeps s s'"
  shows "pubsub_inv s' = pubsub_inv s" "patterns_safe s' = patterns_safe s" "watch_inv s' = watch_inv s"
  using assms by (simp_all add: keeps_def pubsub_inv_def channels_inv_def patterns_inv_def patterns_safe_def watch_inv_def)

text \<open>A change of the keyspace of one database.\<close>

lemma keeps_upd_db:
  assumes "\<And>d. db_watched_keys (f d) = db_watched_keys d"
  shows "keeps s (upd_db db f s)"
  using assms by (simp add: keeps_def dirty_def watchers_def fun_eq_iff)

lemma keeps_fields:
  "keeps s (s\<lparr>sv_dirty := n\<rparr>)" "keeps s (s\<lparr>sv_hits := k\<rparr>)" "keeps s (s\<lparr>sv_misses := k\<rparr>)" "keeps s (s\<lparr>sv_expiredkeys := k\<rparr>)"
  "keeps s (s\<lparr>sv_aof := l\<rparr>)" "keeps s (s\<lparr>sv_repl := l\<rparr>)" "keeps s (s\<lparr>sv_ready_keys := r\<rparr>)"
  by (simp_all add: keeps_def dirty_def watchers_def fun_eq_iff)

section \<open>Watching\<close>

lemma watchers_upd_db:
  "watchers (upd_db db (\<lambda>d. d\<lparr>db_watched_keys := (db_watched_keys d)(key := v)\<rparr>) s) = (watchers s)((key, db) := v)"
  by (auto simp: watchers_def fun_eq_iff)

lemma watchers_upd_client [simp]: "watchers (upd_client i f s) = watchers s"
  by (rule watchers_eq) simp

lemma watchForKey_correct:
  assumes inv: "watch_inv s" and live: "i \<in> set (sv_client_list s)"
  shows "watch_inv (watchForKey i key s)"
    "set (watched_by (watchForKey i key s) j) = (if j = i then insert (key, c_db (sv_clients s i)) (set (watched_by s i)) else set (watched_by s j))"
    "dirty (watchForKey i key s) j = dirty s j"
proof -
  let ?wk = "(key, c_db (sv_clients s i))"
  show "set (watched_by (watchForKey i key s) j) = (if j = i then insert ?wk (set (watched_by s i)) else set (watched_by s j))"
    "dirty (watchForKey i key s) j = dirty s j"
    by (auto simp: watchForKey_def Let_def dirty_def has_flag_def)
  show "watch_inv (watchForKey i key s)"
  proof (cases "?wk \<in> set (watched_by s i)")
    case True
    then show ?thesis using inv by (simp add: watchForKey_def Let_def)
  next
    case False
    let ?l = "case watchers s ?wk of None \<Rightarrow> [] | Some l \<Rightarrow> l"
    have own: "(\<lambda>j. watched_by (watchForKey i key s) j) = (\<lambda>j. watched_by s j)(i := watched_by s i @ [?wk])"
      using False by (auto simp: watchForKey_def Let_def)
    have idx: "watchers (watchForKey i key s) = (watchers s)(?wk \<mapsto> ?l @ [i])"
      using False by (simp add: watchForKey_def Let_def watchers_upd_db) (simp add: watchers_def)
    have reg: "registry (\<lambda>i. watched_by s i) (watchers s)" and cl: "\<And>j. watched_by s j \<noteq> [] \<Longrightarrow> j \<in> set (sv_client_list s)"
      using inv by (auto simp: watch_inv_def)
    show ?thesis unfolding watch_inv_def own idx
      using registry_add [OF reg False] cl live False by (auto simp: watchForKey_def Let_def fun_upd_def)
  qed
qed

text \<open>Releasing the watched keys never fails, leaves nothing watched, and leaves the other clients alone.\<close>

lemma no_watched_keys: "c_watched_keys c = [] \<Longrightarrow> c\<lparr>c_watched_keys := []\<rparr> = c"
  by (cases c) simp

definition same_globals :: "redisServer \<Rightarrow> redisServer \<Rightarrow> bool" where
  "same_globals s s' \<longleftrightarrow> s'\<lparr>sv_clients := sv_clients s, sv_dbs := sv_dbs s\<rparr> = s"

lemma same_globals_trans:
  assumes "same_globals a b" "same_globals b c"
  shows "same_globals a c"
  using arg_cong [OF assms(2) [unfolded same_globals_def], of "\<lambda>x. x\<lparr>sv_clients := sv_clients a, sv_dbs := sv_dbs a\<rparr>"] assms(1)
  by (simp add: same_globals_def)

lemma same_globals_fields:
  assumes "same_globals s s'"
  shows "sv_client_list s' = sv_client_list s" "sv_pubsub_channels s' = sv_pubsub_channels s" "sv_pubsub_patterns s' = sv_pubsub_patterns s"
    "sv_notify s' = sv_notify s" "sv_dirty s' = sv_dirty s" "sv_dbnum s' = sv_dbnum s" "sv_now s' = sv_now s"
  using arg_cong [OF assms [unfolded same_globals_def], of sv_client_list] arg_cong [OF assms [unfolded same_globals_def], of sv_pubsub_channels]
    arg_cong [OF assms [unfolded same_globals_def], of sv_pubsub_patterns] arg_cong [OF assms [unfolded same_globals_def], of sv_notify]
    arg_cong [OF assms [unfolded same_globals_def], of sv_dirty] arg_cong [OF assms [unfolded same_globals_def], of sv_dbnum]
    arg_cong [OF assms [unfolded same_globals_def], of sv_now] by simp_all

lemma unwatch_loop_correct:
  assumes "registry (\<lambda>i. watched_by s i) (watchers s)" "watched_by s i = wks"
  shows "\<exists>s'. unwatch_loop i wks s = Some s' \<and> registry (\<lambda>i. watched_by s' i) (watchers s') \<and> watched_by s' i = [] \<and>
    sv_clients s' = (sv_clients s)(i := (sv_clients s i)\<lparr>c_watched_keys := []\<rparr>) \<and>
    (\<forall>db. (sv_dbs s' db)\<lparr>db_watched_keys := Map.empty\<rparr> = (sv_dbs s db)\<lparr>db_watched_keys := Map.empty\<rparr>) \<and>
    same_globals s s'"
  using assms
proof (induction wks arbitrary: s)
  case Nil
  then show ?case by (auto simp: no_watched_keys fun_upd_idem same_globals_def)
next
  case (Cons wk wks)
  obtain key db where wk: "wk = (key, db)" by (cases wk)
  obtain l where l: "watchers s wk = Some l" "i \<in> set l"
    using registry_entry [OF Cons.prems(1), of wk i] Cons.prems(2) by auto
  define s1 where "s1 = upd_client i (\<lambda>c. c\<lparr>c_watched_keys := remove1 wk (c_watched_keys c)\<rparr>)
    (upd_db db (\<lambda>d. d\<lparr>db_watched_keys := (db_watched_keys d)(key := (if remove1 i l = [] then None else Some (remove1 i l)))\<rparr>) s)"
  have step: "unwatch_loop i (wk # wks) s = unwatch_loop i wks s1"
    using l by (simp add: wk watchers_def s1_def)
  have own: "(\<lambda>j. watched_by s1 j) = (\<lambda>j. watched_by s j)(i := remove1 wk (watched_by s i))" by (auto simp: s1_def)
  have idx: "watchers s1 = (watchers s)(wk := (if remove1 i l = [] then None else Some (remove1 i l)))"
    by (simp add: s1_def watchers_upd_db wk)
  have reg: "registry (\<lambda>j. watched_by s1 j) (watchers s1)"
    unfolding own idx by (rule registry_remove [OF Cons.prems(1) l])
  have "watched_by s1 i = wks" using Cons.prems(2) by (simp add: s1_def)
  from Cons.IH [OF reg this] obtain s' where s': "unwatch_loop i wks s1 = Some s'" "registry (\<lambda>i. watched_by s' i) (watchers s')"
    "watched_by s' i = []" "sv_clients s' = (sv_clients s1)(i := (sv_clients s1 i)\<lparr>c_watched_keys := []\<rparr>)"
    "\<forall>db. (sv_dbs s' db)\<lparr>db_watched_keys := Map.empty\<rparr> = (sv_dbs s1 db)\<lparr>db_watched_keys := Map.empty\<rparr>"
    "same_globals s1 s'" by blast
  have "same_globals s s1" by (simp add: s1_def same_globals_def upd_client_def upd_db_def)
  then have "same_globals s s'" using s'(6) by (rule same_globals_trans)
  then show ?case using s' step by (auto simp: s1_def)
qed


lemma unwatchAllKeys_correct:
  assumes inv: "watch_inv s"
  shows "\<exists>s'. unwatchAllKeys i s = Some s' \<and> watch_inv s' \<and>
    sv_clients s' = (sv_clients s)(i := (sv_clients s i)\<lparr>c_watched_keys := []\<rparr>) \<and>
    (\<forall>db. (sv_dbs s' db)\<lparr>db_watched_keys := Map.empty\<rparr> = (sv_dbs s db)\<lparr>db_watched_keys := Map.empty\<rparr>) \<and>
    same_globals s s'"
proof -
  have reg: "registry (\<lambda>i. watched_by s i) (watchers s)" using inv by (simp add: watch_inv_def)
  from unwatch_loop_correct [OF reg refl, of i] obtain s' where s': "unwatch_loop i (watched_by s i) s = Some s'"
    "registry (\<lambda>i. watched_by s' i) (watchers s')"
    "sv_clients s' = (sv_clients s)(i := (sv_clients s i)\<lparr>c_watched_keys := []\<rparr>)"
    "\<forall>db. (sv_dbs s' db)\<lparr>db_watched_keys := Map.empty\<rparr> = (sv_dbs s db)\<lparr>db_watched_keys := Map.empty\<rparr>"
    "same_globals s s'" by blast
  have "unwatchAllKeys i s = Some s'" using s'(1) by (auto simp: unwatchAllKeys_def Let_def)
  moreover have "sv_client_list s' = sv_client_list s" using s'(5) by (rule same_globals_fields)
  then have "watch_inv s'" using s'(2,3) inv by (auto simp: watch_inv_def)
  ultimately show ?thesis using s' by blast
qed

section \<open>Touching\<close>

lemma mark_dirty_sel [simp]: "sv_dbs (mark_dirty i s) = sv_dbs s" "sv_client_list (mark_dirty i s) = sv_client_list s"
  by (simp_all add: mark_dirty_def)

lemma DIRTY_CAS_nonzero: "REDIS_DIRTY_CAS \<noteq> 0"
  by (simp add: REDIS_DIRTY_CAS_def)

lemma mark_dirty_keeps: "keeps s (mark_dirty i s)" "dirty (mark_dirty i s) j \<longleftrightarrow> dirty s j \<or> i = j"
proof -
  have *: "has_flag REDIS_DIRTY_CAS (set_flag REDIS_DIRTY_CAS c)" for c using DIRTY_CAS_nonzero by simp
  show "dirty (mark_dirty i s) j \<longleftrightarrow> dirty s j \<or> i = j" using * by (auto simp: dirty_def mark_dirty_def)
  show "keeps s (mark_dirty i s)"
    using * by (auto simp: keeps_def mark_dirty_def has_flag_other dirty_def)
qed

lemma mark_all:
  "keeps s (fold mark_dirty l s) \<and> sv_dbs (fold mark_dirty l s) = sv_dbs s \<and> (\<forall>j. dirty (fold mark_dirty l s) j \<longleftrightarrow> dirty s j \<or> j \<in> set l)"
proof (induction l arbitrary: s)
  case (Cons i l)
  then show ?case using mark_dirty_keeps keeps_trans by fastforce
qed simp

lemma touchWatchedKey_correct:
  assumes "watch_inv s"
  shows "keeps s (touchWatchedKey db key s)" "sv_dbs (touchWatchedKey db key s) = sv_dbs s"
    "dirty (touchWatchedKey db key s) j \<longleftrightarrow> dirty s j \<or> (key, db) \<in> set (watched_by s j)"
proof -
  let ?l = "case watchers s (key, db) of None \<Rightarrow> [] | Some l \<Rightarrow> l"
  have eq: "touchWatchedKey db key s = fold mark_dirty ?l s" by (simp add: touchWatchedKey_def watchers_def split: option.split)
  have "set ?l = {j. (key, db) \<in> set (watched_by s j)}"
    using registry_members(1) [of "\<lambda>i. watched_by s i" "watchers s" "(key, db)"] assms by (simp add: watch_inv_def)
  then show "keeps s (touchWatchedKey db key s)" "sv_dbs (touchWatchedKey db key s) = sv_dbs s"
    "dirty (touchWatchedKey db key s) j \<longleftrightarrow> dirty s j \<or> (key, db) \<in> set (watched_by s j)"
    unfolding eq using mark_all [of s ?l] by auto
qed

lemma flush_hits_dbs: "sv_dbs s' = sv_dbs s \<Longrightarrow> flush_hits dbid s' wk = flush_hits dbid s wk"
  by (simp add: flush_hits_def)

lemma flush_client:
  "(let s' = fold (\<lambda>wk s. if flush_hits dbid s wk then mark_dirty i s else s) wks s in
    keeps s s' \<and> sv_dbs s' = sv_dbs s \<and> (\<forall>j. dirty s' j \<longleftrightarrow> dirty s j \<or> j = i \<and> (\<exists>wk \<in> set wks. flush_hits dbid s wk)))"
proof (induction wks arbitrary: s)
  case (Cons wk wks)
  define s1 where "s1 = (if flush_hits dbid s wk then mark_dirty i s else s)"
  have s1: "keeps s s1" "sv_dbs s1 = sv_dbs s" "\<And>j. dirty s1 j \<longleftrightarrow> dirty s j \<or> j = i \<and> flush_hits dbid s wk"
    using mark_dirty_keeps by (auto simp: s1_def)
  show ?case using Cons.IH [of s1] s1 keeps_trans [OF s1(1)] flush_hits_dbs [OF s1(2)] by (auto simp: Let_def s1_def [symmetric])
qed simp

lemma flush_clients:
  assumes "\<And>j. watched_by s j = w j"
  shows "(let s' = fold (\<lambda>i s. fold (\<lambda>wk s. if flush_hits dbid s wk then mark_dirty i s else s) (c_watched_keys (sv_clients s i)) s) cl s in
    keeps s s' \<and> sv_dbs s' = sv_dbs s \<and> (\<forall>j. dirty s' j \<longleftrightarrow> dirty s j \<or> j \<in> set cl \<and> (\<exists>wk \<in> set (w j). flush_hits dbid s wk)))"
  using assms
proof (induction cl arbitrary: s)
  case (Cons i cl)
  define s1 where "s1 = fold (\<lambda>wk s. if flush_hits dbid s wk then mark_dirty i s else s) (watched_by s i) s"
  have s1: "keeps s s1" "sv_dbs s1 = sv_dbs s" "\<And>j. dirty s1 j \<longleftrightarrow> dirty s j \<or> j = i \<and> (\<exists>wk \<in> set (w i). flush_hits dbid s wk)"
    using flush_client [of dbid i "watched_by s i" s] Cons.prems by (simp_all add: s1_def Let_def)
  have "\<And>j. watched_by s1 j = w j" using s1(1) Cons.prems by (simp add: keeps_def)
  from Cons.IH [OF this] show ?case
    using s1 keeps_trans [OF s1(1)] flush_hits_dbs [OF s1(2)] by (auto simp: Let_def s1_def [symmetric])
qed simp

lemma touchWatchedKeysOnFlush_correct:
  assumes "watch_inv s"
  shows "keeps s (touchWatchedKeysOnFlush dbid s)" "sv_dbs (touchWatchedKeysOnFlush dbid s) = sv_dbs s"
    "dirty (touchWatchedKeysOnFlush dbid s) j \<longleftrightarrow> dirty s j \<or> (\<exists>wk \<in> set (watched_by s j). flush_hits dbid s wk)"
proof -
  note run = flush_clients [of s "\<lambda>j. watched_by s j" dbid "sv_client_list s", OF refl, folded touchWatchedKeysOnFlush_def, unfolded Let_def]
  show "keeps s (touchWatchedKeysOnFlush dbid s)" "sv_dbs (touchWatchedKeysOnFlush dbid s) = sv_dbs s" using run by simp_all
  have "watched_by s j \<noteq> [] \<Longrightarrow> j \<in> set (sv_client_list s)" using assms by (simp add: watch_inv_def)
  then have "(\<exists>wk \<in> set (watched_by s j). flush_hits dbid s wk) \<Longrightarrow> j \<in> set (sv_client_list s)" by fastforce
  then show "dirty (touchWatchedKeysOnFlush dbid s) j \<longleftrightarrow> dirty s j \<or> (\<exists>wk \<in> set (watched_by s j). flush_hits dbid s wk)"
    using run by blast
qed

end
