(* ===== verification/Db.thy ===== *)
theory Db
  imports Watch
begin

text \<open>
  The keyspace of \<open>db.c\<close>: lookup with lazy expiry, insertion, overwriting, deletion, expire times, and
  the commands that work on keys of any type. \<open>None\<close> stands for an assertion that fails, a panic or a
  signed overflow. The argument \<open>garb\<close> gives the bytes that allocations do not initialise.
\<close>

section \<open>The C-level interface\<close>

definition lookupKey :: "nat \<Rightarrow> byte list \<Rightarrow> redisServer \<Rightarrow> robj option" where
  "lookupKey db key s = db_dict (sv_dbs s db) key"

definition getExpire :: "nat \<Rightarrow> byte list \<Rightarrow> redisServer \<Rightarrow> int option" where
  "getExpire db key s = (case db_expires (sv_dbs s db) key of
     None \<Rightarrow> Some (- 1)
   | Some w \<Rightarrow> if db_dict (sv_dbs s db) key = None then None else Some w)"

definition dbDelete :: "nat \<Rightarrow> byte list \<Rightarrow> redisServer \<Rightarrow> redisServer \<times> bool" where
  "dbDelete db key s =
     (let s = upd_db db (\<lambda>d. d\<lparr>db_expires := (db_expires d)(key := None)\<rparr>) s in
      if db_dict (sv_dbs s db) key \<noteq> None
      then (upd_db db (\<lambda>d. d\<lparr>db_dict := (db_dict d)(key := None)\<rparr>) s, True)
      else (s, False))"

definition propagateExpire :: "nat \<Rightarrow> byte list \<Rightarrow> redisServer \<Rightarrow> redisServer" where
  "propagateExpire db key s =
     (let s = (if sv_aof_on s then s\<lparr>sv_aof := sv_aof s @ [(db, [bytes ''DEL'', key])]\<rparr> else s) in
      s\<lparr>sv_repl := sv_repl s @ [(db, [bytes ''DEL'', key])]\<rparr>)"

definition expireIfNeeded :: "(nat \<Rightarrow> byte) \<Rightarrow> nat \<Rightarrow> byte list \<Rightarrow> redisServer \<Rightarrow> (redisServer \<times> bool) option" where
  "expireIfNeeded garb db key s = do {
     whn \<leftarrow> getExpire db key s;
     if whn < 0 then Some (s, False)
     else if sv_loading s then Some (s, False)
     else (let now = (case sv_lua_time s of Some t \<Rightarrow> t | None \<Rightarrow> sv_now s) in
       if sv_masterhost s then Some (s, now > whn)
       else if now \<le> whn then Some (s, False)
       else do {
         let s = s\<lparr>sv_expiredkeys := sv_expiredkeys s + 1\<rparr>;
         let s = propagateExpire db key s;
         s \<leftarrow> notifyKeyspaceEvent garb REDIS_NOTIFY_EXPIRED ''expired'' key db s;
         Some (dbDelete db key s) }) }"

definition lookupKeyRead :: "(nat \<Rightarrow> byte) \<Rightarrow> nat \<Rightarrow> byte list \<Rightarrow> redisServer \<Rightarrow> (redisServer \<times> robj option) option" where
  "lookupKeyRead garb db key s = do {
     (s, _) \<leftarrow> expireIfNeeded garb db key s;
     let val = lookupKey db key s;
     Some (if val = None then s\<lparr>sv_misses := sv_misses s + 1\<rparr> else s\<lparr>sv_hits := sv_hits s + 1\<rparr>, val) }"

definition lookupKeyWrite :: "(nat \<Rightarrow> byte) \<Rightarrow> nat \<Rightarrow> byte list \<Rightarrow> redisServer \<Rightarrow> (redisServer \<times> robj option) option" where
  "lookupKeyWrite garb db key s = do {
     (s, _) \<leftarrow> expireIfNeeded garb db key s;
     Some (s, lookupKey db key s) }"

definition lookupKeyReadOrReply :: "(nat \<Rightarrow> byte) \<Rightarrow> nat \<Rightarrow> byte list \<Rightarrow> byte list \<Rightarrow> redisServer \<Rightarrow> (redisServer \<times> robj option) option" where
  "lookupKeyReadOrReply garb i key reply s = do {
     (s, ob) \<leftarrow> lookupKeyRead garb (c_db (sv_clients s i)) key s;
     Some (if ob = None then addReply i reply s else s, ob) }"

definition lookupKeyWriteOrReply :: "(nat \<Rightarrow> byte) \<Rightarrow> nat \<Rightarrow> byte list \<Rightarrow> byte list \<Rightarrow> redisServer \<Rightarrow> (redisServer \<times> robj option) option" where
  "lookupKeyWriteOrReply garb i key reply s = do {
     (s, ob) \<leftarrow> lookupKeyWrite garb (c_db (sv_clients s i)) key s;
     Some (if ob = None then addReply i reply s else s, ob) }"

text \<open>A key that clients are blocked on (\<open>t_list.c\<close>) is queued once when a list appears at it.\<close>

definition signalListAsReady :: "nat \<Rightarrow> byte list \<Rightarrow> redisServer \<Rightarrow> redisServer" where
  "signalListAsReady db key s =
     (if db_blocking_keys (sv_dbs s db) key = None then s
      else if key \<in> set (db_ready_keys (sv_dbs s db)) then s
      else upd_db db (\<lambda>d. d\<lparr>db_ready_keys := db_ready_keys d @ [key]\<rparr>) (s\<lparr>sv_ready_keys := sv_ready_keys s @ [(db, key)]\<rparr>))"

definition dbAdd :: "nat \<Rightarrow> byte list \<Rightarrow> robj \<Rightarrow> redisServer \<Rightarrow> redisServer option" where
  "dbAdd db key val s =
     (if db_dict (sv_dbs s db) key \<noteq> None then None
      else (let s = upd_db db (\<lambda>d. d\<lparr>db_dict := (db_dict d)(key \<mapsto> val)\<rparr>) s in
        Some (if o_type val = REDIS_LIST then signalListAsReady db key s else s)))"

definition dbOverwrite :: "nat \<Rightarrow> byte list \<Rightarrow> robj \<Rightarrow> redisServer \<Rightarrow> redisServer option" where
  "dbOverwrite db key val s =
     (if db_dict (sv_dbs s db) key = None then None
      else Some (upd_db db (\<lambda>d. d\<lparr>db_dict := (db_dict d)(key \<mapsto> val)\<rparr>) s))"

definition removeExpire :: "nat \<Rightarrow> byte list \<Rightarrow> redisServer \<Rightarrow> (redisServer \<times> bool) option" where
  "removeExpire db key s =
     (if db_dict (sv_dbs s db) key = None then None
      else Some (upd_db db (\<lambda>d. d\<lparr>db_expires := (db_expires d)(key := None)\<rparr>) s, db_expires (sv_dbs s db) key \<noteq> None))"

definition setExpire :: "nat \<Rightarrow> byte list \<Rightarrow> int \<Rightarrow> redisServer \<Rightarrow> redisServer option" where
  "setExpire db key whn s =
     (if db_dict (sv_dbs s db) key = None then None
      else Some (upd_db db (\<lambda>d. d\<lparr>db_expires := (db_expires d)(key \<mapsto> whn)\<rparr>) s))"

definition setKey :: "(nat \<Rightarrow> byte) \<Rightarrow> nat \<Rightarrow> byte list \<Rightarrow> robj \<Rightarrow> redisServer \<Rightarrow> redisServer option" where
  "setKey garb db key val s = do {
     (s, ob) \<leftarrow> lookupKeyWrite garb db key s;
     s \<leftarrow> (if ob = None then dbAdd db key val s else dbOverwrite db key val s);
     (s, _) \<leftarrow> removeExpire db key s;
     Some (signalModifiedKey db key s) }"

definition dbExists :: "nat \<Rightarrow> byte list \<Rightarrow> redisServer \<Rightarrow> bool" where
  "dbExists db key s = (db_dict (sv_dbs s db) key \<noteq> None)"

text \<open>\<open>refs\<close> is the reference count of the object.\<close>

definition dbUnshareStringValue :: "(nat \<Rightarrow> byte) \<Rightarrow> nat \<Rightarrow> nat \<Rightarrow> byte list \<Rightarrow> robj \<Rightarrow> redisServer \<Rightarrow> (redisServer \<times> robj) option" where
  "dbUnshareStringValue garb refs db key ob s =
     (if o_type ob \<noteq> REDIS_STRING then None
      else if refs \<noteq> 1 \<or> o_encoding ob \<noteq> REDIS_ENCODING_RAW then do {
        decoded \<leftarrow> getDecodedObject garb ob;
        p \<leftarrow> ptr_sds (o_ptr decoded);
        ob \<leftarrow> createRawStringObject garb (Some (s_buf p)) (sdslen p);
        s \<leftarrow> dbOverwrite db key ob s;
        Some (s, ob) }
      else Some (s, ob))"

definition empty_db :: "nat \<Rightarrow> redisServer \<Rightarrow> redisServer" where
  "empty_db j = upd_db j (\<lambda>d. d\<lparr>db_dict := Map.empty, db_expires := Map.empty\<rparr>)"

definition emptyDb :: "redisServer \<Rightarrow> redisServer \<times> int" where
  "emptyDb s =
     (fold empty_db [0..<sv_dbnum s] s, int (sum_list (map (\<lambda>j. card (dom (db_dict (sv_dbs s j)))) [0..<sv_dbnum s])))"

definition selectDb :: "nat \<Rightarrow> int \<Rightarrow> redisServer \<Rightarrow> redisServer option" where
  "selectDb i n s =
     (if n < 0 \<or> n \<ge> int (sv_dbnum s) then None else Some (upd_client i (\<lambda>c. c\<lparr>c_db := nat n\<rparr>) s))"

section \<open>Commands\<close>

definition checkType :: "nat \<Rightarrow> robj \<Rightarrow> rtype \<Rightarrow> redisServer \<Rightarrow> redisServer \<times> bool" where
  "checkType i ob ty s = (if o_type ob \<noteq> ty then (addReply i shared_wrongtypeerr s, True) else (s, False))"

definition getLongLongFromObjectOrReply :: "nat \<Rightarrow> robj option \<Rightarrow> string option \<Rightarrow> redisServer \<Rightarrow> (redisServer \<times> int option) option" where
  "getLongLongFromObjectOrReply i ob msg s = do {
     r \<leftarrow> getLongLongFromObject ob;
     Some (if r = None then addReplyError i (case msg of Some m \<Rightarrow> m | None \<Rightarrow> ''value is not an integer or out of range'') s else s, r) }"

definition getLongFromObjectOrReply :: "nat \<Rightarrow> robj option \<Rightarrow> string option \<Rightarrow> redisServer \<Rightarrow> (redisServer \<times> int option) option" where
  "getLongFromObjectOrReply i ob msg s = do {
     (s, r) \<leftarrow> getLongLongFromObjectOrReply i ob msg s;
     Some (case r of None \<Rightarrow> (s, None)
       | Some v \<Rightarrow> if v < LLONG_MIN \<or> v > LLONG_MAX
           then (addReplyError i (case msg of Some m \<Rightarrow> m | None \<Rightarrow> ''value is out of range'') s, None) else (s, Some v)) }"

text \<open>A result of a signed 64-bit operation, undefined when it does not fit.\<close>

definition chk64 :: "int \<Rightarrow> int option" where
  "chk64 v = (if int64_range v then Some v else None)"

definition incr_dirty :: "int \<Rightarrow> redisServer \<Rightarrow> redisServer" where
  "incr_dirty n s = s\<lparr>sv_dirty := sv_dirty s + n\<rparr>"

definition flushdbCommand :: "nat \<Rightarrow> redisServer \<Rightarrow> redisServer" where
  "flushdbCommand i s =
     (let db = c_db (sv_clients s i);
          s = incr_dirty (int (card (dom (db_dict (sv_dbs s db))))) s;
          s = signalFlushedDb (Some db) s;
          s = empty_db db s
      in addReply i shared_ok s)"

text \<open>FLUSHALL without the child process and the RDB file, which are I/O; \<open>rdbSave\<close> leaves \<open>dirty\<close> as it was.\<close>

definition flushallCommand :: "nat \<Rightarrow> redisServer \<Rightarrow> redisServer" where
  "flushallCommand i s =
     (let s = signalFlushedDb None s; (s, removed) = emptyDb s; s = incr_dirty removed s; s = addReply i shared_ok s
      in incr_dirty 1 s)"

fun del_loop :: "(nat \<Rightarrow> byte) \<Rightarrow> nat \<Rightarrow> byte list list \<Rightarrow> redisServer \<Rightarrow> (redisServer \<times> int) option" where
  "del_loop garb db [] s = Some (s, 0)"
| "del_loop garb db (key # keys) s = do {
     (s, _) \<leftarrow> expireIfNeeded garb db key s;
     let (s, deleted) = dbDelete db key s;
     if deleted then do {
       let s = signalModifiedKey db key s;
       s \<leftarrow> notifyKeyspaceEvent garb REDIS_NOTIFY_GENERIC ''del'' key db s;
       (s, n) \<leftarrow> del_loop garb db keys (incr_dirty 1 s);
       Some (s, n + 1) }
     else del_loop garb db keys s }"

definition delCommand :: "(nat \<Rightarrow> byte) \<Rightarrow> nat \<Rightarrow> byte list list \<Rightarrow> redisServer \<Rightarrow> redisServer option" where
  "delCommand garb i keys s = do {
     (s, deleted) \<leftarrow> del_loop garb (c_db (sv_clients s i)) keys s;
     Some (addReplyLongLong i deleted s) }"

fun exists_loop :: "(nat \<Rightarrow> byte) \<Rightarrow> nat \<Rightarrow> byte list list \<Rightarrow> redisServer \<Rightarrow> (redisServer \<times> int) option" where
  "exists_loop garb db [] s = Some (s, 0)"
| "exists_loop garb db (key # keys) s = do {
     (s, _) \<leftarrow> expireIfNeeded garb db key s;
     (s', n) \<leftarrow> exists_loop garb db keys s;
     Some (s', (if dbExists db key s then 1 else 0) + n) }"

definition existsCommand :: "(nat \<Rightarrow> byte) \<Rightarrow> nat \<Rightarrow> byte list list \<Rightarrow> redisServer \<Rightarrow> redisServer option" where
  "existsCommand garb i keys s = do {
     (s, count) \<leftarrow> exists_loop garb (c_db (sv_clients s i)) keys s;
     Some (addReplyLongLong i count s) }"

text \<open>The index is a \<open>long\<close> that \<open>selectDb\<close> takes as an \<open>int\<close>.\<close>

definition selectCommand :: "nat \<Rightarrow> robj \<Rightarrow> redisServer \<Rightarrow> redisServer option" where
  "selectCommand i arg s = do {
     (s, r) \<leftarrow> getLongFromObjectOrReply i (Some arg) (Some ''invalid DB index'') s;
     Some (case r of None \<Rightarrow> s
       | Some n \<Rightarrow> (case selectDb i (s32 n) s of
           None \<Rightarrow> addReplyError i ''invalid DB index'' s
         | Some s \<Rightarrow> addReply i shared_ok s)) }"

definition type_name :: "robj option \<Rightarrow> string" where
  "type_name ob = (case ob of None \<Rightarrow> ''none''
     | Some ob \<Rightarrow> (case o_type ob of REDIS_STRING \<Rightarrow> ''string'' | REDIS_LIST \<Rightarrow> ''list'' | REDIS_SET \<Rightarrow> ''set''
         | REDIS_ZSET \<Rightarrow> ''zset'' | REDIS_HASH \<Rightarrow> ''hash''))"

definition typeCommand :: "(nat \<Rightarrow> byte) \<Rightarrow> nat \<Rightarrow> byte list \<Rightarrow> redisServer \<Rightarrow> redisServer option" where
  "typeCommand garb i key s = do {
     (s, ob) \<leftarrow> lookupKeyRead garb (c_db (sv_clients s i)) key s;
     Some (addReplyStatus i (type_name ob) s) }"

definition renameGenericCommand :: "(nat \<Rightarrow> byte) \<Rightarrow> nat \<Rightarrow> byte list \<Rightarrow> byte list \<Rightarrow> bool \<Rightarrow> redisServer \<Rightarrow> redisServer option" where
  "renameGenericCommand garb i src dst nx s =
     (if src = dst then Some (addReply i shared_sameobjecterr s)
      else do {
        let db = c_db (sv_clients s i);
        (s, ob) \<leftarrow> lookupKeyWriteOrReply garb i src shared_nokeyerr s;
        (case ob of None \<Rightarrow> Some s
         | Some val \<Rightarrow> do {
             expire \<leftarrow> getExpire db src s;
             (s, old) \<leftarrow> lookupKeyWrite garb db dst s;
             if old \<noteq> None \<and> nx then Some (addReply i shared_czero s)
             else do {
               let s = (if old \<noteq> None then fst (dbDelete db dst s) else s);
               s \<leftarrow> dbAdd db dst val s;
               s \<leftarrow> (if expire \<noteq> - 1 then setExpire db dst expire s else Some s);
               let s = fst (dbDelete db src s);
               let s = signalModifiedKey db src s;
               let s = signalModifiedKey db dst s;
               s \<leftarrow> notifyKeyspaceEvent garb REDIS_NOTIFY_GENERIC ''rename_from'' src db s;
               s \<leftarrow> notifyKeyspaceEvent garb REDIS_NOTIFY_GENERIC ''rename_to'' dst db s;
               Some (addReply i (if nx then shared_cone else shared_ok) (incr_dirty 1 s)) } }) })"

definition moveCommand :: "(nat \<Rightarrow> byte) \<Rightarrow> nat \<Rightarrow> byte list \<Rightarrow> robj \<Rightarrow> redisServer \<Rightarrow> redisServer option" where
  "moveCommand garb i key dbarg s = do {
     let src = c_db (sv_clients s i);
     r \<leftarrow> getLongLongFromObject (Some dbarg);
     (case (case r of None \<Rightarrow> None | Some n \<Rightarrow> if n < - (2 ^ 31) \<or> n > 2 ^ 31 - 1 then None else selectDb i n s) of
        None \<Rightarrow> Some (addReply i shared_outofrangeerr s)
      | Some s \<Rightarrow> do {
          let dst = c_db (sv_clients s i);
          s \<leftarrow> (case selectDb i (int src) s of None \<Rightarrow> Some s | Some s \<Rightarrow> Some s);
          if src = dst then Some (addReply i shared_sameobjecterr s)
          else do {
            (s, ob) \<leftarrow> lookupKeyWrite garb src key s;
            (case ob of None \<Rightarrow> Some (addReply i shared_czero s)
             | Some val \<Rightarrow> do {
                 expire \<leftarrow> getExpire src key s;
                 (s, old) \<leftarrow> lookupKeyWrite garb dst key s;
                 if old \<noteq> None then Some (addReply i shared_czero s)
                 else do {
                   s \<leftarrow> dbAdd dst key val s;
                   s \<leftarrow> (if expire \<noteq> - 1 then setExpire dst key expire s else Some s);
                   let s = fst (dbDelete src key s);
                   Some (addReply i shared_cone (incr_dirty 1 s)) } }) } }) }"

text \<open>The arguments that the replicas and the append only file will see in place of those of the client.\<close>

definition rewriteClientCommandVector :: "nat \<Rightarrow> argv \<Rightarrow> redisServer \<Rightarrow> redisServer" where
  "rewriteClientCommandVector i args = upd_client i (\<lambda>c. c\<lparr>c_argv := args\<rparr>)"

datatype time_unit = UNIT_SECONDS | UNIT_MILLISECONDS

definition expireGenericCommand :: "(nat \<Rightarrow> byte) \<Rightarrow> nat \<Rightarrow> byte list \<Rightarrow> robj \<Rightarrow> int \<Rightarrow> time_unit \<Rightarrow> redisServer \<Rightarrow> redisServer option" where
  "expireGenericCommand garb i key param basetime unt s = do {
     let db = c_db (sv_clients s i);
     (s, r) \<leftarrow> getLongLongFromObjectOrReply i (Some param) None s;
     (case r of None \<Rightarrow> Some s
      | Some whn \<Rightarrow> do {
          whn \<leftarrow> (if unt = UNIT_SECONDS then chk64 (whn * 1000) else Some whn);
          whn \<leftarrow> chk64 (whn + basetime);
          (s, ob) \<leftarrow> lookupKeyRead garb db key s;
          if ob = None then Some (addReply i shared_czero s)
          else if whn \<le> sv_now s \<and> \<not> sv_loading s \<and> \<not> sv_masterhost s then do {
            let (s, deleted) = dbDelete db key s;
            if \<not> deleted then None
            else do {
              aux \<leftarrow> createStringObject garb (Some (bytes ''DEL'')) 3;
              let s = rewriteClientCommandVector i (aux # take 1 (drop 1 (c_argv (sv_clients s i)))) (incr_dirty 1 s);
              let s = signalModifiedKey db key s;
              s \<leftarrow> notifyKeyspaceEvent garb REDIS_NOTIFY_GENERIC ''del'' key db s;
              Some (addReply i shared_cone s) } }
          else do {
            s \<leftarrow> setExpire db key whn s;
            let s = signalModifiedKey db key (addReply i shared_cone s);
            s \<leftarrow> notifyKeyspaceEvent garb REDIS_NOTIFY_GENERIC ''expire'' key db s;
            Some (incr_dirty 1 s) } }) }"

definition expireCommand :: "(nat \<Rightarrow> byte) \<Rightarrow> nat \<Rightarrow> byte list \<Rightarrow> robj \<Rightarrow> redisServer \<Rightarrow> redisServer option" where
  "expireCommand garb i key param s = expireGenericCommand garb i key param (sv_now s) UNIT_SECONDS s"

definition expireatCommand :: "(nat \<Rightarrow> byte) \<Rightarrow> nat \<Rightarrow> byte list \<Rightarrow> robj \<Rightarrow> redisServer \<Rightarrow> redisServer option" where
  "expireatCommand garb i key param s = expireGenericCommand garb i key param 0 UNIT_SECONDS s"

definition pexpireCommand :: "(nat \<Rightarrow> byte) \<Rightarrow> nat \<Rightarrow> byte list \<Rightarrow> robj \<Rightarrow> redisServer \<Rightarrow> redisServer option" where
  "pexpireCommand garb i key param s = expireGenericCommand garb i key param (sv_now s) UNIT_MILLISECONDS s"

definition pexpireatCommand :: "(nat \<Rightarrow> byte) \<Rightarrow> nat \<Rightarrow> byte list \<Rightarrow> robj \<Rightarrow> redisServer \<Rightarrow> redisServer option" where
  "pexpireatCommand garb i key param s = expireGenericCommand garb i key param 0 UNIT_MILLISECONDS s"

definition ttlGenericCommand :: "(nat \<Rightarrow> byte) \<Rightarrow> nat \<Rightarrow> byte list \<Rightarrow> bool \<Rightarrow> redisServer \<Rightarrow> redisServer option" where
  "ttlGenericCommand garb i key output_ms s = do {
     let db = c_db (sv_clients s i);
     (s, ob) \<leftarrow> lookupKeyRead garb db key s;
     if ob = None then Some (addReplyLongLong i (- 2) s)
     else do {
       expire \<leftarrow> getExpire db key s;
       ttl \<leftarrow> (if expire \<noteq> - 1 then do { t \<leftarrow> chk64 (expire - sv_now s); Some (if t < 0 then 0 else t) } else Some (- 1));
       if ttl = - 1 then Some (addReplyLongLong i (- 1) s)
       else if output_ms then Some (addReplyLongLong i ttl s)
       else do { t \<leftarrow> chk64 (ttl + 500); Some (addReplyLongLong i (t div 1000) s) } } }"

definition persistCommand :: "nat \<Rightarrow> byte list \<Rightarrow> redisServer \<Rightarrow> redisServer option" where
  "persistCommand i key s = do {
     let db = c_db (sv_clients s i);
     if db_dict (sv_dbs s db) key = None then Some (addReply i shared_czero s)
     else do {
       (s, removed) \<leftarrow> removeExpire db key s;
       Some (if removed then incr_dirty 1 (addReply i shared_cone s) else addReply i shared_czero s) } }"

end
