(* ===== verification/Db_Spec.thy ===== *)
theory Db_Spec
  imports Db
begin

text \<open>
  The abstract keyspace that \<open>db.c\<close> promises, and what every operation does to it. A key of a database
  has a content and perhaps an expire time, unless its time has passed on a master: such a key is gone
  for every reader, whether or not the lazy expiry has removed it yet.
\<close>

section \<open>The abstract keyspace\<close>

datatype content = CString "byte list" | CBody rtype rptr

definition content :: "robj \<Rightarrow> content" where
  "content ob = (if o_type ob = REDIS_STRING then CString (str_val ob) else CBody (o_type ob) (o_ptr ob))"

definition clock :: "redisServer \<Rightarrow> int" where
  "clock s = (case sv_lua_time s of Some t \<Rightarrow> t | None \<Rightarrow> sv_now s)"

definition past :: "redisServer \<Rightarrow> int option \<Rightarrow> bool" where
  "past s e = (case e of None \<Rightarrow> False | Some w \<Rightarrow> 0 \<le> w \<and> \<not> sv_loading s \<and> \<not> sv_masterhost s \<and> w < clock s)"

type_synonym keyspace = "nat \<Rightarrow> byte list \<Rightarrow> (content \<times> int option) option"

definition view :: "redisServer \<Rightarrow> keyspace" where
  "view s db key =
     (if past s (db_expires (sv_dbs s db) key) then None
      else map_option (\<lambda>ob. (content ob, db_expires (sv_dbs s db) key)) (db_dict (sv_dbs s db) key))"

definition vput :: "nat \<Rightarrow> byte list \<Rightarrow> (content \<times> int option) option \<Rightarrow> keyspace \<Rightarrow> keyspace" where
  "vput db key x v = v(db := (v db)(key := x))"

section \<open>Invariant of the server\<close>

definition db_inv :: "redisServer \<Rightarrow> bool" where
  "db_inv s \<longleftrightarrow>
     (\<forall>db key. db_expires (sv_dbs s db) key \<noteq> None \<longrightarrow> db_dict (sv_dbs s db) key \<noteq> None) \<and>
     (\<forall>db key ob. db_dict (sv_dbs s db) key = Some ob \<longrightarrow> obj_wf ob)"

definition server_inv :: "redisServer \<Rightarrow> bool" where
  "server_inv s \<longleftrightarrow> db_inv s \<and> pubsub_inv s \<and> patterns_safe s \<and> watch_inv s \<and> sv_dbnum s \<le> 2 ^ 31 \<and>
     (\<forall>i. c_db (sv_clients s i) < sv_dbnum s) \<and> clock s \<le> sv_now s"

lemma clock_keeps: "keeps s s' \<Longrightarrow> clock s' = clock s"
  by (simp add: keeps_def clock_def split: option.split)

lemma server_inv_keeps:
  assumes "server_inv s" "keeps s s'" "db_inv s'"
  shows "server_inv s'"
  using assms keeps_inv [OF assms(2)] clock_keeps [OF assms(2)] by (simp add: server_inv_def) (simp add: keeps_def)

lemma past_keeps: "keeps s s' \<Longrightarrow> past s' e = past s e"
  using clock_keeps [of s s'] by (simp add: keeps_def past_def split: option.split)

lemma server_inv_db: "server_inv s \<Longrightarrow> c_db (sv_clients s i) < 2 ^ 31"
  unfolding server_inv_def by (meson order_less_le_trans)

section \<open>Effects\<close>

text \<open>
  \<open>effect s v t s'\<close>: from \<open>s\<close> to \<open>s'\<close> the invariant is kept, the abstract keyspace becomes \<open>v\<close>, exactly the
  watchers of \<open>t\<close> become dirty, and replies are only appended, none of them when notifications are off.
\<close>

definition appended :: "redisServer \<Rightarrow> redisServer \<Rightarrow> bool" where
  "appended s s' \<longleftrightarrow> (\<forall>j. \<exists>m. out s' j = out s j @ m \<and> (sv_notify s = 0 \<longrightarrow> m = []))"

definition effect :: "redisServer \<Rightarrow> keyspace \<Rightarrow> (byte list \<times> nat) set \<Rightarrow> redisServer \<Rightarrow> bool" where
  "effect s v t s' \<longleftrightarrow> server_inv s' \<and> keeps s s' \<and> view s' = v \<and>
     (\<forall>j. dirty s' j \<longleftrightarrow> dirty s j \<or> (\<exists>wk \<in> t. wk \<in> set (watched_by s j))) \<and> appended s s'"

lemma effect_refl: "server_inv s \<Longrightarrow> effect s (view s) {} s"
  by (simp add: effect_def appended_def)

lemma effect_trans:
  assumes "effect s v t s1" "effect s1 v' t' s2"
  shows "effect s v' (t \<union> t') s2"
proof -
  have w: "watched_by s1 j = watched_by s j" "sv_notify s1 = sv_notify s" for j using assms(1) by (simp_all add: effect_def keeps_def)
  have "appended s s2"
    using assms w(2) unfolding effect_def appended_def by (metis append.assoc append_Nil2)
  then show ?thesis using assms keeps_trans [of s s1 s2] w(1) unfolding effect_def by auto
qed

lemma effect_trans_same:
  assumes "effect s v t s1" "effect s1 (view s1) {} s2"
  shows "effect s v t s2"
  using effect_trans [OF assms] assms(1) by (simp add: effect_def)

lemma effect_inv: "effect s v t s' \<Longrightarrow> server_inv s'"
  by (simp add: effect_def)

lemma effect_view: "effect s v t s' \<Longrightarrow> view s' = v"
  by (simp add: effect_def)

lemma effect_keeps: "effect s v t s' \<Longrightarrow> keeps s s'"
  by (simp add: effect_def)

text \<open>Counters, logs and queues of the server that the keyspace does not depend on.\<close>

lemma effect_fields:
  assumes inv: "server_inv s" and k: "keeps s s'" and eq: "sv_clients s' = sv_clients s"
    and db: "\<And>db. db_dict (sv_dbs s' db) = db_dict (sv_dbs s db)" "\<And>db. db_expires (sv_dbs s' db) = db_expires (sv_dbs s db)"
  shows "effect s (view s) {} s'"
proof -
  have "db_inv s'" using inv db by (simp add: server_inv_def db_inv_def)
  moreover have "view s' = view s" by (simp add: view_def fun_eq_iff db past_keeps [OF k])
  ultimately show ?thesis using server_inv_keeps [OF inv k] k eq by (simp add: effect_def appended_def dirty_def)
qed

lemma effect_counters:
  assumes "server_inv s"
  shows "effect s (view s) {} (s\<lparr>sv_hits := k\<rparr>)" "effect s (view s) {} (s\<lparr>sv_misses := k\<rparr>)"
    "effect s (view s) {} (s\<lparr>sv_expiredkeys := k\<rparr>)" "effect s (view s) {} (incr_dirty n s)" "effect s (view s) {} (propagateExpire db key s)"
    "effect s (view s) {} (signalListAsReady db key s)"
proof -
  show "effect s (view s) {} (s\<lparr>sv_hits := k\<rparr>)" "effect s (view s) {} (s\<lparr>sv_misses := k\<rparr>)"
    "effect s (view s) {} (s\<lparr>sv_expiredkeys := k\<rparr>)" "effect s (view s) {} (incr_dirty n s)"
    unfolding incr_dirty_def by (rule effect_fields [OF assms]; simp add: keeps_fields)+
  have "keeps s (propagateExpire db key s)"
    unfolding propagateExpire_def Let_def by (auto intro: keeps_trans keeps_fields)
  then show "effect s (view s) {} (propagateExpire db key s)"
    by (rule effect_fields [OF assms]) (auto simp: propagateExpire_def Let_def)
  have "keeps s (signalListAsReady db key s)"
    unfolding signalListAsReady_def by (auto intro!: keeps_trans [OF keeps_fields(7) keeps_upd_db])
  then show "effect s (view s) {} (signalListAsReady db key s)"
    by (rule effect_fields [OF assms]) (auto simp: signalListAsReady_def)
qed

lemma effect_rewrite:
  assumes inv: "server_inv s"
  shows "effect s (view s) {} (rewriteClientCommandVector i args s)"
proof -
  let ?s' = "rewriteClientCommandVector i args s"
  have k: "keeps s ?s'" by (simp add: rewriteClientCommandVector_def keeps_def dirty_def has_flag_def watchers_def fun_eq_iff)
  have dbs: "sv_dbs ?s' = sv_dbs s" by (simp add: rewriteClientCommandVector_def)
  have "db_inv ?s'" using inv dbs by (simp add: server_inv_def db_inv_def)
  moreover have "view ?s' = view s" by (simp add: view_def fun_eq_iff dbs past_keeps [OF k])
  ultimately show ?thesis using server_inv_keeps [OF inv k] k
    by (simp add: effect_def appended_def dirty_def has_flag_def rewriteClientCommandVector_def)
qed

lemma effect_notify:
  assumes inv: "server_inv s" and key: "length key \<le> STRING_MAX" "length event \<le> STRING_MAX" "db < 2 ^ 31"
  shows "\<exists>s'. notifyKeyspaceEvent garb ty event key db s = Some s' \<and> effect s (view s) {} s'"
proof -
  have ps: "pubsub_inv s" "patterns_safe s" using inv by (simp_all add: server_inv_def)
  obtain s' where s': "notifyKeyspaceEvent garb ty event key db s = Some s'" "silent s' = silent s" "\<forall>j. \<exists>m. out s' j = out s j @ m"
    using notifyKeyspaceEvent_correct [OF ps key, of garb ty] by blast
  have k: "keeps s s'" by (rule keeps_silent [OF s'(2)])
  have dbs: "sv_dbs s' = sv_dbs s" by (rule silent_eq_fields(1) [OF s'(2)])
  have off: "s' = s" if "sv_notify s = 0" using s'(1) that by (simp add: notifyKeyspaceEvent_def)
  have "db_inv s'" using inv dbs by (simp add: server_inv_def db_inv_def)
  moreover have "view s' = view s" by (simp add: view_def fun_eq_iff dbs past_keeps [OF k])
  moreover have "appended s s'" using s'(3) off by (fastforce simp: appended_def)
  ultimately show ?thesis using s'(1) server_inv_keeps [OF inv k] k dirty_silent [OF s'(2)] by (auto simp: effect_def)
qed

lemma out_mark [simp]: "out (mark_dirty i s) j = out s j"
  by (simp add: mark_dirty_def)

lemma out_touch: "out (touchWatchedKey db key s) j = out s j"
proof -
  have "out (fold mark_dirty l s) j = out s j" for l by (induction l arbitrary: s) simp_all
  then show ?thesis by (simp add: touchWatchedKey_def split: option.split)
qed

lemma effect_touch:
  assumes inv: "server_inv s"
  shows "effect s (view s) {(key, db)} (signalModifiedKey db key s)"
proof -
  have w: "watch_inv s" using inv by (simp add: server_inv_def)
  note t = touchWatchedKey_correct [OF w, of db key]
  have "db_inv (touchWatchedKey db key s)" using inv by (simp add: server_inv_def db_inv_def t)
  moreover have "view (touchWatchedKey db key s) = view s" by (simp add: view_def fun_eq_iff t past_keeps [OF t(1)])
  ultimately show ?thesis using server_inv_keeps [OF inv t(1)] t
    by (simp add: effect_def appended_def signalModifiedKey_def out_touch)
qed

text \<open>Changing one key of one database.\<close>

lemma effect_upd_key:
  assumes inv: "server_inv s" and f: "\<And>d. db_watched_keys (f d) = db_watched_keys d"
    "db_dict (f (sv_dbs s db)) = (db_dict (sv_dbs s db))(key := x)" "db_expires (f (sv_dbs s db)) = (db_expires (sv_dbs s db))(key := e)"
    and ok: "e \<noteq> None \<Longrightarrow> x \<noteq> None" "\<And>ob. x = Some ob \<Longrightarrow> obj_wf ob"
  shows "effect s (vput db key (if past s e then None else map_option (\<lambda>ob. (content ob, e)) x) (view s)) {} (upd_db db f s)"
proof -
  have k: "keeps s (upd_db db f s)" by (rule keeps_upd_db) (rule f(1))
  have "db_inv (upd_db db f s)" using inv ok by (auto simp: server_inv_def db_inv_def f)
  moreover have "view (upd_db db f s) = vput db key (if past s e then None else map_option (\<lambda>ob. (content ob, e)) x) (view s)"
    by (auto simp: view_def fun_eq_iff vput_def f past_keeps [OF k])
  ultimately show ?thesis using server_inv_keeps [OF inv k] k by (simp add: effect_def appended_def dirty_def)
qed

section \<open>The C-level interface\<close>

lemma vput_same: "v db key = x \<Longrightarrow> vput db key x v = v"
  by (auto simp: vput_def fun_eq_iff)

lemma vput_vput [simp]: "vput db key x (vput db key y v) = vput db key x v"
  by (auto simp: vput_def fun_eq_iff)

lemma vput_at [simp]: "vput db key x v db' key' = (if db' = db \<and> key' = key then x else v db' key')"
  by (simp add: vput_def)

lemma absent_persistent:
  assumes "server_inv s" "db_dict (sv_dbs s db) key = None"
  shows "db_expires (sv_dbs s db) key = None"
  using assms unfolding server_inv_def db_inv_def by blast

lemma getExpire_correct:
  assumes "server_inv s"
  shows "getExpire db key s = Some (case db_expires (sv_dbs s db) key of None \<Rightarrow> - 1 | Some w \<Rightarrow> w)"
  using absent_persistent [OF assms, of db key] by (auto simp: getExpire_def split: option.split)

lemma dbDelete_correct:
  assumes inv: "server_inv s"
  shows "\<exists>s'. dbDelete db key s = (s', lookupKey db key s \<noteq> None) \<and> effect s (vput db key None (view s)) {} s' \<and>
    lookupKey db key s' = None"
proof -
  define f where "f = (\<lambda>d::redisDb. d\<lparr>db_expires := (db_expires d)(key := None), db_dict := (db_dict d)(key := None)\<rparr>)"
  have eq: "fst (dbDelete db key s) = upd_db db f s"
    by (auto simp: dbDelete_def Let_def f_def upd_db_def fun_upd_idem)
  have "effect s (vput db key (if past s None then None else map_option (\<lambda>ob. (content ob, None)) None) (view s)) {} (upd_db db f s)"
    by (rule effect_upd_key [OF inv]) (simp_all add: f_def)
  then show ?thesis using eq by (cases "dbDelete db key s") (auto simp: dbDelete_def Let_def lookupKey_def f_def split: if_splits)
qed

text \<open>The lazy expiry removes a key whose time has passed, which changes nothing for readers.\<close>

lemma expireIfNeeded_correct:
  assumes inv: "server_inv s" and key: "length key \<le> STRING_MAX" "db < 2 ^ 31"
  shows "\<exists>s' b. expireIfNeeded garb db key s = Some (s', b) \<and> effect s (view s) {} s' \<and>
    \<not> past s' (db_expires (sv_dbs s' db) key)"
proof (cases "past s (db_expires (sv_dbs s db) key)")
  case False
  then have "\<exists>b. expireIfNeeded garb db key s = Some (s, b)"
    by (auto simp: expireIfNeeded_def getExpire_correct [OF inv] past_def clock_def Let_def split: option.split)
  then show ?thesis using effect_refl [OF inv] False by blast
next
  case True
  then obtain w where w: "db_expires (sv_dbs s db) key = Some w" "0 \<le> w" "\<not> sv_loading s" "\<not> sv_masterhost s" "w < clock s"
    by (auto simp: past_def split: option.splits)
  define s1 where "s1 = propagateExpire db key (s\<lparr>sv_expiredkeys := sv_expiredkeys s + 1\<rparr>)"
  have e1: "effect s (view s) {} s1"
    unfolding s1_def by (rule effect_trans_same [OF effect_counters(3) [OF inv] effect_counters(5)]) (rule effect_inv [OF effect_counters(3) [OF inv]])
  obtain s2 where s2: "notifyKeyspaceEvent garb REDIS_NOTIFY_EXPIRED ''expired'' key db s1 = Some s2" "effect s1 (view s1) {} s2"
    using effect_notify [OF effect_inv [OF e1] key(1), of "''expired''" db garb] key(2) by (auto simp: STRING_MAX_def)
  have e2: "effect s (view s) {} s2" by (rule effect_trans_same [OF e1 s2(2)])
  obtain s3 where s3: "fst (dbDelete db key s2) = s3" "effect s2 (vput db key None (view s2)) {} s3" "lookupKey db key s3 = None"
    using dbDelete_correct [OF effect_inv [OF e2], of db key] by auto
  have run: "expireIfNeeded garb db key s = Some (dbDelete db key s2)"
    using w s2(1) by (simp add: expireIfNeeded_def getExpire_correct [OF inv] clock_def s1_def Let_def)
  have "view s db key = None" using True by (simp add: view_def)
  then have "effect s (view s) {} s3"
    using effect_trans [OF e2 s3(2)] by (simp add: effect_view [OF e2] vput_same)
  moreover have "db_expires (sv_dbs s3 db) key = None"
    using absent_persistent [OF effect_inv [OF s3(2)]] s3(3) by (simp add: lookupKey_def)
  ultimately show ?thesis using run s3(1) by (cases "dbDelete db key s2") (auto simp: past_def)
qed

text \<open>After a lookup the object found is what the abstract keyspace holds.\<close>

definition found :: "redisServer \<Rightarrow> nat \<Rightarrow> byte list \<Rightarrow> robj option \<Rightarrow> bool" where
  "found s db key ob \<longleftrightarrow> lookupKey db key s = ob \<and> \<not> past s (db_expires (sv_dbs s db) key) \<and>
     (\<forall>x. ob = Some x \<longrightarrow> obj_wf x) \<and> view s db key = map_option (\<lambda>ob. (content ob, db_expires (sv_dbs s db) key)) ob"

lemma found_lookup:
  assumes "server_inv s" "\<not> past s (db_expires (sv_dbs s db) key)"
  shows "found s db key (lookupKey db key s)"
  using assms by (auto simp: found_def view_def lookupKey_def server_inv_def db_inv_def)

lemma found_fields: "sv_dbs s' = sv_dbs s \<Longrightarrow> keeps s s' \<Longrightarrow> found s' db key ob = found s db key ob"
  by (simp add: found_def view_def lookupKey_def past_keeps)

lemma lookupKeyWrite_correct:
  assumes inv: "server_inv s" and key: "length key \<le> STRING_MAX" "db < 2 ^ 31"
  shows "\<exists>s' ob. lookupKeyWrite garb db key s = Some (s', ob) \<and> effect s (view s) {} s' \<and> found s' db key ob"
proof -
  obtain s1 b where s1: "expireIfNeeded garb db key s = Some (s1, b)" "effect s (view s) {} s1" "\<not> past s1 (db_expires (sv_dbs s1 db) key)"
    using expireIfNeeded_correct [OF inv key] by blast
  then show ?thesis using found_lookup [OF effect_inv [OF s1(2)] s1(3)] by (simp add: lookupKeyWrite_def)
qed

lemma lookupKeyRead_correct:
  assumes inv: "server_inv s" and key: "length key \<le> STRING_MAX" "db < 2 ^ 31"
  shows "\<exists>s' ob. lookupKeyRead garb db key s = Some (s', ob) \<and> effect s (view s) {} s' \<and> found s' db key ob"
proof -
  obtain s1 b where s1: "expireIfNeeded garb db key s = Some (s1, b)" "effect s (view s) {} s1" "\<not> past s1 (db_expires (sv_dbs s1 db) key)"
    using expireIfNeeded_correct [OF inv key] by blast
  define ob where "ob = lookupKey db key s1"
  define s2 where "s2 = (if ob = None then s1\<lparr>sv_misses := sv_misses s1 + 1\<rparr> else s1\<lparr>sv_hits := sv_hits s1 + 1\<rparr>)"
  have "found s1 db key ob" using found_lookup [OF effect_inv [OF s1(2)] s1(3)] by (simp add: ob_def)
  moreover have s2: "effect s1 (view s1) {} s2" "sv_dbs s2 = sv_dbs s1"
    using effect_counters [OF effect_inv [OF s1(2)]] by (simp_all add: s2_def)
  ultimately have "found s2 db key ob" using found_fields [OF s2(2) effect_keeps [OF s2(1)]] by simp
  moreover have "effect s (view s) {} s2" by (rule effect_trans_same [OF s1(2) s2(1)])
  ultimately show ?thesis using s1(1) by (simp add: lookupKeyRead_def ob_def s2_def Let_def)
qed

lemma dbAdd_correct:
  assumes inv: "server_inv s" and "found s db key None" "obj_wf val"
  shows "\<exists>s'. dbAdd db key val s = Some s' \<and> effect s (vput db key (Some (content val, None)) (view s)) {} s' \<and> lookupKey db key s' = Some val"
proof -
  define f where "f = (\<lambda>d::redisDb. d\<lparr>db_dict := (db_dict d)(key \<mapsto> val)\<rparr>)"
  have no: "db_dict (sv_dbs s db) key = None" using assms(2) by (simp add: found_def lookupKey_def)
  have noe: "db_expires (sv_dbs s db) key = None" by (rule absent_persistent [OF inv no])
  have "effect s (vput db key (if past s None then None else map_option (\<lambda>ob. (content ob, None)) (Some val)) (view s)) {} (upd_db db f s)"
    by (rule effect_upd_key [OF inv]) (use noe assms(3) in \<open>simp_all add: f_def fun_upd_idem\<close>)
  then have e1: "effect s (vput db key (Some (content val, None)) (view s)) {} (upd_db db f s)" by (simp add: past_def)
  have "effect s (vput db key (Some (content val, None)) (view s)) {} (signalListAsReady db key (upd_db db f s))"
    by (rule effect_trans_same [OF e1 effect_counters(6) [OF effect_inv [OF e1]]])
  then show ?thesis using e1 no by (auto simp: dbAdd_def f_def Let_def lookupKey_def signalListAsReady_def)
qed

lemma dbOverwrite_correct:
  assumes inv: "server_inv s" and f: "found s db key (Some old)" and "obj_wf val"
  shows "\<exists>s'. dbOverwrite db key val s = Some s' \<and>
    effect s (vput db key (Some (content val, db_expires (sv_dbs s db) key)) (view s)) {} s' \<and> lookupKey db key s' = Some val \<and>
    db_expires (sv_dbs s' db) = db_expires (sv_dbs s db)"
proof -
  define f where "f = (\<lambda>d::redisDb. d\<lparr>db_dict := (db_dict d)(key \<mapsto> val)\<rparr>)"
  have "effect s (vput db key (if past s (db_expires (sv_dbs s db) key) then None
      else map_option (\<lambda>ob. (content ob, db_expires (sv_dbs s db) key)) (Some val)) (view s)) {} (upd_db db f s)"
    by (rule effect_upd_key [OF inv]) (use assms(3) in \<open>simp_all add: f_def fun_upd_idem\<close>)
  then show ?thesis using f by (simp add: dbOverwrite_def f_def found_def lookupKey_def)
qed

lemma removeExpire_correct:
  assumes inv: "server_inv s" and "lookupKey db key s = Some ob"
  shows "\<exists>s'. removeExpire db key s = Some (s', db_expires (sv_dbs s db) key \<noteq> None) \<and>
    effect s (vput db key (Some (content ob, None)) (view s)) {} s' \<and> lookupKey db key s' = Some ob"
proof -
  define f where "f = (\<lambda>d::redisDb. d\<lparr>db_expires := (db_expires d)(key := None)\<rparr>)"
  have "obj_wf ob" using assms by (auto simp: server_inv_def db_inv_def lookupKey_def)
  then have "effect s (vput db key (if past s None then None else map_option (\<lambda>ob. (content ob, None)) (Some ob)) (view s)) {} (upd_db db f s)"
    by (intro effect_upd_key [OF inv]) (use assms(2) in \<open>auto simp: f_def fun_upd_idem lookupKey_def\<close>)
  then show ?thesis using assms(2) by (auto simp: removeExpire_def f_def lookupKey_def past_def)
qed

lemma setExpire_correct:
  assumes inv: "server_inv s" and "lookupKey db key s = Some ob"
  shows "\<exists>s'. setExpire db key whn s = Some s' \<and>
    effect s (vput db key (if past s (Some whn) then None else Some (content ob, Some whn)) (view s)) {} s' \<and> lookupKey db key s' = Some ob"
proof -
  define f where "f = (\<lambda>d::redisDb. d\<lparr>db_expires := (db_expires d)(key \<mapsto> whn)\<rparr>)"
  have "obj_wf ob" using assms by (auto simp: server_inv_def db_inv_def lookupKey_def)
  then have "effect s (vput db key (if past s (Some whn) then None else map_option (\<lambda>ob. (content ob, Some whn)) (Some ob)) (view s)) {} (upd_db db f s)"
    by (intro effect_upd_key [OF inv]) (use assms(2) in \<open>auto simp: f_def fun_upd_idem lookupKey_def\<close>)
  then show ?thesis using assms(2) by (auto simp: setExpire_def f_def lookupKey_def)
qed

theorem setKey_correct:
  assumes inv: "server_inv s" and key: "length key \<le> STRING_MAX" "db < 2 ^ 31" and val: "obj_wf val"
  shows "\<exists>s'. setKey garb db key val s = Some s' \<and> effect s (vput db key (Some (content val, None)) (view s)) {(key, db)} s' \<and>
    lookupKey db key s' = Some val"
proof -
  obtain s1 ob where s1: "lookupKeyWrite garb db key s = Some (s1, ob)" "effect s (view s) {} s1" "found s1 db key ob"
    using lookupKeyWrite_correct [OF inv key] by blast
  note i1 = effect_inv [OF s1(2)]
  obtain s2 e where s2: "(if ob = None then dbAdd db key val s1 else dbOverwrite db key val s1) = Some s2"
    "effect s1 (vput db key (Some (content val, e)) (view s1)) {} s2" "lookupKey db key s2 = Some val"
  proof (cases ob)
    case None
    then show ?thesis using that dbAdd_correct [OF i1 _ val, of db key] s1(3) by fastforce
  next
    case (Some old)
    then show ?thesis using that dbOverwrite_correct [OF i1 _ val, of db key old] s1(3) by fastforce
  qed
  obtain s3 b where s3: "removeExpire db key s2 = Some (s3, b)" "effect s2 (vput db key (Some (content val, None)) (view s2)) {} s3"
    "lookupKey db key s3 = Some val"
    using removeExpire_correct [OF effect_inv [OF s2(2)] s2(3)] by blast
  have e3: "effect s (vput db key (Some (content val, None)) (view s)) {} s3"
    using effect_trans [OF effect_trans [OF s1(2) s2(2)] s3(2)] by (simp add: effect_view [OF s2(2)] effect_view [OF s1(2)])
  have "effect s (vput db key (Some (content val, None)) (view s)) {(key, db)} (signalModifiedKey db key s3)"
    using effect_trans [OF e3 effect_touch [OF effect_inv [OF e3], of key db]] by (simp add: effect_view [OF e3])
  moreover have "lookupKey db key (signalModifiedKey db key s3) = Some val"
    using s3(3) touchWatchedKey_correct(2) [of s3 db key] effect_inv [OF e3] by (simp add: lookupKey_def signalModifiedKey_def server_inv_def)
  ultimately show ?thesis using s1(1) s2(1) s3(1) by (simp add: setKey_def)
qed

end
