(* ===== verification/Outcome.thy ===== *)
theory Outcome
  imports Db_Spec
begin

text \<open>
  The outcome of a command: the invariant of the server is kept, the abstract keyspace is the one
  given, exactly the clients that watch a key of the set given become dirty, and the client receives
  the reply, possibly among notifications it is subscribed to, and alone when notifications are off.
\<close>

section \<open>Outcomes\<close>

definition result :: "redisServer \<Rightarrow> nat \<Rightarrow> keyspace \<Rightarrow> (byte list \<times> nat) set \<Rightarrow> byte list \<Rightarrow> redisServer \<Rightarrow> bool" where
  "result s i v t r s' \<longleftrightarrow> server_inv s' \<and> keeps s s' \<and> view s' = v \<and>
     (\<forall>j. dirty s' j \<longleftrightarrow> dirty s j \<or> (\<exists>wk \<in> t. wk \<in> set (watched_by s j))) \<and>
     (\<forall>j. j \<noteq> i \<longrightarrow> (\<exists>m. out s' j = out s j @ m \<and> (sv_notify s = 0 \<longrightarrow> m = []))) \<and>
     (\<exists>a b. out s' i = out s i @ a @ r @ b \<and> (sv_notify s = 0 \<longrightarrow> a = [] \<and> b = []))"

lemma effect_addReply:
  assumes "server_inv s"
  shows "server_inv (addReply i r s)" "view (addReply i r s) = view s" "keeps s (addReply i r s)" "dirty (addReply i r s) j = dirty s j"
proof -
  have sil: "silent (addReply i r s) = silent s" by (simp add: silent_simps)
  have k: "keeps s (addReply i r s)" by (rule keeps_silent [OF sil])
  have dbs: "sv_dbs (addReply i r s) = sv_dbs s" by (rule silent_eq_fields(1) [OF sil])
  show "view (addReply i r s) = view s" by (simp add: view_def fun_eq_iff dbs past_keeps [OF k])
  have "db_inv (addReply i r s)" using assms dbs by (simp add: server_inv_def db_inv_def)
  then show "server_inv (addReply i r s)" by (rule server_inv_keeps [OF assms k])
  show "keeps s (addReply i r s)" by (rule k)
  show "dirty (addReply i r s) j = dirty s j" by (rule dirty_silent [OF sil])
qed

lemma result_reply:
  assumes e: "effect s v t s1"
  shows "result s i v t r (addReply i r s1)"
proof -
  note a = effect_addReply [OF effect_inv [OF e], of i r]
  have k: "keeps s (addReply i r s1)" by (rule keeps_trans [OF effect_keeps [OF e] a(3)])
  have o1: "\<exists>m. out s1 j = out s j @ m \<and> (sv_notify s = 0 \<longrightarrow> m = [])" for j using e by (simp add: effect_def appended_def)
  have "\<exists>x b. out (addReply i r s1) i = out s i @ x @ r @ b \<and> (sv_notify s = 0 \<longrightarrow> x = [] \<and> b = [])"
  proof -
    obtain m where m: "out s1 i = out s i @ m" "sv_notify s = 0 \<longrightarrow> m = []" using o1 [of i] by blast
    show ?thesis by (rule exI [of _ m], rule exI [of _ "[]"]) (use m in \<open>auto simp: out_addReply\<close>)
  qed
  moreover have "j \<noteq> i \<longrightarrow> (\<exists>m. out (addReply i r s1) j = out s j @ m \<and> (sv_notify s = 0 \<longrightarrow> m = []))" for j
    using o1 [of j] by (auto simp: out_addReply)
  ultimately show ?thesis using e a k by (simp add: result_def effect_def)
qed

lemma result_effect:
  assumes r: "result s i v t r s1" and e: "effect s1 v' t' s2"
  shows "result s i v' (t \<union> t') r s2"
proof -
  have w: "watched_by s1 j = watched_by s j" "sv_notify s1 = sv_notify s" for j using r by (simp_all add: result_def keeps_def)
  have o2: "\<exists>m. out s2 j = out s1 j @ m \<and> (sv_notify s = 0 \<longrightarrow> m = [])" for j using e w(2) by (simp add: effect_def appended_def)
  have "\<exists>a b. out s2 i = out s i @ a @ r @ b \<and> (sv_notify s = 0 \<longrightarrow> a = [] \<and> b = [])"
  proof -
    obtain a b where ab: "out s1 i = out s i @ a @ r @ b" "sv_notify s = 0 \<longrightarrow> a = [] \<and> b = []" using r by (auto simp: result_def)
    obtain m where m: "out s2 i = out s1 i @ m" "sv_notify s = 0 \<longrightarrow> m = []" using o2 [of i] by blast
    show ?thesis by (rule exI [of _ a], rule exI [of _ "b @ m"]) (use ab m in auto)
  qed
  moreover have "j \<noteq> i \<longrightarrow> (\<exists>m. out s2 j = out s j @ m \<and> (sv_notify s = 0 \<longrightarrow> m = []))" for j
  proof
    assume "j \<noteq> i"
    then obtain m1 where m1: "out s1 j = out s j @ m1" "sv_notify s = 0 \<longrightarrow> m1 = []" using r by (auto simp: result_def)
    obtain m2 where m2: "out s2 j = out s1 j @ m2" "sv_notify s = 0 \<longrightarrow> m2 = []" using o2 [of j] by blast
    show "\<exists>m. out s2 j = out s j @ m \<and> (sv_notify s = 0 \<longrightarrow> m = [])" by (rule exI [of _ "m1 @ m2"]) (use m1 m2 in auto)
  qed
  moreover have "keeps s s2" using r e by (auto simp: result_def effect_def intro: keeps_trans)
  ultimately show ?thesis using r e w(1) by (auto simp: result_def effect_def)
qed

lemma result_inv: "result s i v t r s' \<Longrightarrow> server_inv s'" "result s i v t r s' \<Longrightarrow> view s' = v"
  by (simp_all add: result_def)

text \<open>The hypotheses of a command: the invariant holds and the arguments are strings within the limit of the protocol.\<close>

lemma c_db_keeps: "keeps s s' \<Longrightarrow> c_db (sv_clients s' i) = c_db (sv_clients s i)"
  by (simp add: keeps_def)

lemma int64_length: "length xs \<le> STRING_MAX \<Longrightarrow> int64_range (int (length xs))"
  by (simp add: int64_range_def STRING_MAX_def)

abbreviation number_reply :: "int \<Rightarrow> byte list" where
  "number_reply v \<equiv> ch CHR '':'' # sdec v @ crlf"

lemma obj_wf_string: "obj_wf ob \<Longrightarrow> o_type ob = REDIS_STRING \<Longrightarrow> string_wf ob"
  by (simp add: obj_wf_def)

lemma string_wf_obj: "string_wf ob \<Longrightarrow> obj_wf ob" "string_wf ob \<Longrightarrow> content ob = CString (str_val ob)"
  by (simp_all add: obj_wf_def content_def string_wf_def)

text \<open>The value of a key as the string commands see it.\<close>

datatype seen = Missing | WrongType | Str "byte list"

definition seen :: "redisServer \<Rightarrow> nat \<Rightarrow> byte list \<Rightarrow> seen" where
  "seen s i key = (case view s (c_db (sv_clients s i)) key of
     None \<Rightarrow> Missing | Some (CString v, _) \<Rightarrow> Str v | Some (CBody _ _, _) \<Rightarrow> WrongType)"

lemma found_cases:
  assumes "found s db key ob" "db = c_db (sv_clients s i)"
  obtains "ob = None" "seen s i key = Missing" "view s db key = None"
  | x where "ob = Some x" "string_wf x" "seen s i key = Str (str_val x)" "view s db key = Some (CString (str_val x), db_expires (sv_dbs s db) key)" "o_type x = REDIS_STRING"
  | x where "ob = Some x" "o_type x \<noteq> REDIS_STRING" "seen s i key = WrongType"
  using assms by (cases ob; cases "o_type (the ob) = REDIS_STRING") (auto simp: found_def seen_def content_def obj_wf_def)

lemma seen_eq: "view s' = view s \<Longrightarrow> keeps s s' \<Longrightarrow> seen s' i key = seen s i key"
  by (simp add: seen_def keeps_def)

text \<open>The end of a command that changed one key.\<close>

lemma finish_write:
  assumes e: "effect s v {} s1" and key: "length key \<le> STRING_MAX" "length event \<le> STRING_MAX" "db < 2 ^ 31"
  shows "\<exists>s2. notifyKeyspaceEvent garb ty event key db (signalModifiedKey db key s1) = Some s2 \<and> effect s v {(key, db)} (incr_dirty 1 s2)"
proof -
  have e1: "effect s v {(key, db)} (signalModifiedKey db key s1)"
    using effect_trans [OF e effect_touch [OF effect_inv [OF e], of key db]] effect_view [OF e] by simp
  obtain s2 where s2: "notifyKeyspaceEvent garb ty event key db (signalModifiedKey db key s1) = Some s2" "effect (signalModifiedKey db key s1) (view (signalModifiedKey db key s1)) {} s2"
    using effect_notify [OF effect_inv [OF e1] key] by blast
  have "effect s v {(key, db)} (incr_dirty 1 s2)"
    by (rule effect_trans_same [OF effect_trans_same [OF e1 s2(2)] effect_counters(4) [OF effect_inv [OF s2(2)]]])
  then show ?thesis using s2(1) by blast
qed

end
