(* ===== verification/Db_Commands.thy ===== *)
theory Db_Commands
  imports Outcome
begin

text \<open>
  What the commands on keys of any type do to the abstract keyspace: DEL, EXISTS, TYPE, RENAME, MOVE,
  the EXPIRE family, TTL, PERSIST, FLUSHDB and SELECT.
\<close>

section \<open>DEL and EXISTS\<close>

definition vdel :: "nat \<Rightarrow> byte list set \<Rightarrow> keyspace \<Rightarrow> keyspace" where
  "vdel db ks v = (\<lambda>db' k. if db' = db \<and> k \<in> ks then None else v db' k)"

lemma vdel_insert: "vdel db ks (vput db k None v) = vdel db (insert k ks) v"
  by (auto simp: vdel_def fun_eq_iff)

definition present :: "keyspace \<Rightarrow> nat \<Rightarrow> byte list set \<Rightarrow> byte list set" where
  "present v db ks = {k \<in> ks. v db k \<noteq> None}"

lemma present_insert:
  "present v db (insert k ks) = (if v db k \<noteq> None then insert k (present (vput db k None v) db ks) else present (vput db k None v) db ks)"
  "k \<notin> present (vput db k None v) db ks"
  by (auto simp: present_def)

lemma del_loop_correct:
  assumes "server_inv s" "\<forall>k \<in> set keys. length k \<le> STRING_MAX" "db < 2 ^ 31"
  shows "\<exists>s'. del_loop garb db keys s = Some (s', int (card (present (view s) db (set keys)))) \<and>
    effect s (vdel db (set keys) (view s)) ((\<lambda>k. (k, db)) ` present (view s) db (set keys)) s'"
  using assms
proof (induction keys arbitrary: s)
  case Nil
  then show ?case using effect_refl by (simp add: vdel_def present_def)
next
  case (Cons k keys)
  have k: "length k \<le> STRING_MAX" and rest: "\<forall>k \<in> set keys. length k \<le> STRING_MAX" using Cons.prems(2) by simp_all
  obtain s1 b where s1: "expireIfNeeded garb db k s = Some (s1, b)" "effect s (view s) {} s1" "\<not> past s1 (db_expires (sv_dbs s1 db) k)"
    using expireIfNeeded_correct [OF Cons.prems(1) k Cons.prems(3)] by blast
  note f = found_lookup [OF effect_inv [OF s1(2)] s1(3)]
  have pr: "lookupKey db k s1 \<noteq> None \<longleftrightarrow> view s db k \<noteq> None" using f effect_view [OF s1(2)] by (auto simp: found_def)
  obtain s2 where s2: "dbDelete db k s1 = (s2, view s db k \<noteq> None)" "effect s1 (vput db k None (view s1)) {} s2"
    using dbDelete_correct [OF effect_inv [OF s1(2)], of db k] pr by auto
  have e2: "effect s (vput db k None (view s)) {} s2" using effect_trans [OF s1(2) s2(2)] effect_view [OF s1(2)] by simp
  show ?case
  proof (cases "view s db k = None")
    case True
    obtain s3 where s3: "del_loop garb db keys s2 = Some (s3, int (card (present (view s2) db (set keys))))"
      "effect s2 (vdel db (set keys) (view s2)) ((\<lambda>k. (k, db)) ` present (view s2) db (set keys)) s3"
      using Cons.IH [OF effect_inv [OF e2] rest Cons.prems(3)] by blast
    then show ?thesis using s1(1) s2(1) True effect_trans [OF e2 s3(2)] effect_view [OF e2] present_insert(1) [of "view s" db k "set keys"]
      by (simp add: vdel_insert)
  next
    case False
    obtain s3 where s3: "notifyKeyspaceEvent garb REDIS_NOTIFY_GENERIC ''del'' k db (signalModifiedKey db k s2) = Some s3"
      "effect s (vput db k None (view s)) {(k, db)} (incr_dirty 1 s3)"
      using finish_write [OF e2 k _ Cons.prems(3), of "''del''" garb REDIS_NOTIFY_GENERIC] by (auto simp: STRING_MAX_def)
    let ?v = "vput db k None (view s)"
    obtain s4 where s4: "del_loop garb db keys (incr_dirty 1 s3) = Some (s4, int (card (present ?v db (set keys))))"
      "effect (incr_dirty 1 s3) (vdel db (set keys) ?v) ((\<lambda>k. (k, db)) ` present ?v db (set keys)) s4"
      using Cons.IH [OF effect_inv [OF s3(2)] rest Cons.prems(3), unfolded effect_view [OF s3(2)]] by blast
    have "finite (present ?v db (set keys))" by (simp add: present_def)
    then have "card (present (view s) db (set (k # keys))) = Suc (card (present ?v db (set keys)))"
      using present_insert(1) [of "view s" db k "set keys"] present_insert(2) [of k db "view s" "set keys"] False by simp
    then show ?thesis using s1(1) s2(1) s3(1) s4(1) False effect_trans [OF s3(2) s4(2)] present_insert(1) [of "view s" db k "set keys"]
      by (simp add: vdel_insert Let_def)
  qed
qed

theorem delCommand_correct:
  assumes inv: "server_inv s" and keys: "\<forall>k \<in> set keys. length k \<le> STRING_MAX" "length keys < 2 ^ 31"
  shows "\<exists>s'. delCommand garb i keys s = Some s' \<and>
    (let db = c_db (sv_clients s i) in
     result s i (vdel db (set keys) (view s)) ((\<lambda>k. (k, db)) ` present (view s) db (set keys))
       (number_reply (int (card (present (view s) db (set keys))))) s')"
proof -
  let ?db = "c_db (sv_clients s i)"
  let ?n = "card (present (view s) ?db (set keys))"
  obtain s1 where s1: "del_loop garb ?db keys s = Some (s1, int ?n)"
    "effect s (vdel ?db (set keys) (view s)) ((\<lambda>k. (k, ?db)) ` present (view s) ?db (set keys)) s1"
    using del_loop_correct [OF inv keys(1) server_inv_db [OF inv]] by blast
  have "?n \<le> card (set keys)" by (rule card_mono) (auto simp: present_def)
  then have "?n < 2 ^ 31" using card_length [of keys] keys(2) by linarith
  then have "int64_range (int ?n)" by (simp add: int64_range_def)
  then have "delCommand garb i keys s = Some (addReply i (number_reply (int ?n)) s1)"
    using s1(1) by (simp add: delCommand_def addReplyLongLong_correct)
  then show ?thesis using result_reply [OF s1(2), of i "number_reply (int ?n)"] by (simp add: Let_def)
qed

lemma exists_loop_correct:
  assumes "server_inv s" "\<forall>k \<in> set keys. length k \<le> STRING_MAX" "db < 2 ^ 31"
  shows "\<exists>s'. exists_loop garb db keys s = Some (s', int (length (filter (\<lambda>k. view s db k \<noteq> None) keys))) \<and> effect s (view s) {} s'"
  using assms
proof (induction keys arbitrary: s)
  case Nil
  then show ?case using effect_refl by simp
next
  case (Cons k keys)
  have k: "length k \<le> STRING_MAX" and rest: "\<forall>k \<in> set keys. length k \<le> STRING_MAX" using Cons.prems(2) by simp_all
  obtain s1 b where s1: "expireIfNeeded garb db k s = Some (s1, b)" "effect s (view s) {} s1" "\<not> past s1 (db_expires (sv_dbs s1 db) k)"
    using expireIfNeeded_correct [OF Cons.prems(1) k Cons.prems(3)] by blast
  note f = found_lookup [OF effect_inv [OF s1(2)] s1(3)]
  have pr: "dbExists db k s1 \<longleftrightarrow> view s db k \<noteq> None"
    using f effect_view [OF s1(2)] by (auto simp: found_def dbExists_def lookupKey_def)
  obtain s2 where s2: "exists_loop garb db keys s1 = Some (s2, int (length (filter (\<lambda>k. view s1 db k \<noteq> None) keys)))" "effect s1 (view s1) {} s2"
    using Cons.IH [OF effect_inv [OF s1(2)] rest Cons.prems(3)] by blast
  then show ?case using s1(1) pr effect_trans_same [OF s1(2) s2(2)] effect_view [OF s1(2)] by auto
qed

theorem existsCommand_correct:
  assumes inv: "server_inv s" and keys: "\<forall>k \<in> set keys. length k \<le> STRING_MAX" "length keys < 2 ^ 31"
  shows "\<exists>s'. existsCommand garb i keys s = Some s' \<and>
    result s i (view s) {} (number_reply (int (length (filter (\<lambda>k. view s (c_db (sv_clients s i)) k \<noteq> None) keys)))) s'"
proof -
  let ?n = "length (filter (\<lambda>k. view s (c_db (sv_clients s i)) k \<noteq> None) keys)"
  obtain s1 where s1: "exists_loop garb (c_db (sv_clients s i)) keys s = Some (s1, int ?n)" "effect s (view s) {} s1"
    using exists_loop_correct [OF inv keys(1) server_inv_db [OF inv]] by blast
  have "?n < 2 ^ 31" using keys(2) length_filter_le order_le_less_trans by blast
  then have "int64_range (int ?n)" by (simp add: int64_range_def)
  then show ?thesis using s1(1) result_reply [OF s1(2), of i "number_reply (int ?n)"]
    by (simp add: existsCommand_def addReplyLongLong_correct)
qed

section \<open>RENAME\<close>

text \<open>
  The value moves with its expire time; the time -1, which the code uses for none, is lost on the way.
\<close>

definition carried :: "(content \<times> int option) option \<Rightarrow> (content \<times> int option) option" where
  "carried x = map_option (\<lambda>(c, e). (c, if e = Some (- 1) then None else e)) x"

definition rename_outcome :: "redisServer \<Rightarrow> nat \<Rightarrow> byte list \<Rightarrow> byte list \<Rightarrow> bool \<Rightarrow> redisServer \<Rightarrow> bool" where
  "rename_outcome s i src dst nx s' =
     (let db = c_db (sv_clients s i) in
      if src = dst then result s i (view s) {} shared_sameobjecterr s'
      else if view s db src = None then result s i (view s) {} shared_nokeyerr s'
      else if nx \<and> view s db dst \<noteq> None then result s i (view s) {} shared_czero s'
      else result s i (vput db src None (vput db dst (carried (view s db src)) (view s))) {(src, db), (dst, db)}
        (if nx then shared_cone else shared_ok) s')"

text \<open>Storing an object at a free key with the time read from another one.\<close>

lemma add_with_time:
  assumes inv: "server_inv s" and f: "found s db dst None" and val: "obj_wf val" and live: "\<not> past s e"
  shows "\<exists>s1 s2. dbAdd db dst val s = Some s1 \<and>
    (if (case e of None \<Rightarrow> - 1 | Some w \<Rightarrow> w) \<noteq> - 1 then setExpire db dst (case e of None \<Rightarrow> - 1 | Some w \<Rightarrow> w) s1 else Some s1) = Some s2 \<and>
    effect s (vput db dst (carried (Some (content val, e))) (view s)) {} s2"
proof -
  obtain s1 where s1: "dbAdd db dst val s = Some s1" "effect s (vput db dst (Some (content val, None)) (view s)) {} s1" "lookupKey db dst s1 = Some val"
    using dbAdd_correct [OF inv f val] by blast
  show ?thesis
  proof (cases "e = None \<or> e = Some (- 1)")
    case True
    then show ?thesis using s1 by (auto simp: carried_def)
  next
    case False
    then obtain w where w: "e = Some w" "w \<noteq> - 1" by auto
    obtain s2 where s2: "setExpire db dst w s1 = Some s2"
      "effect s1 (vput db dst (if past s1 (Some w) then None else Some (content val, Some w)) (view s1)) {} s2"
      using setExpire_correct [OF effect_inv [OF s1(2)] s1(3)] by blast
    have "\<not> past s1 (Some w)" using live w past_keeps [OF effect_keeps [OF s1(2)]] by simp
    then have "effect s (vput db dst (Some (content val, Some w)) (view s)) {} s2"
      using effect_trans [OF s1(2) s2(2)] effect_view [OF s1(2)] by simp
    then show ?thesis using s1(1) s2(1) w by (auto simp: carried_def)
  qed
qed

text \<open>The second half of the command, from the state in which the destination is known to be free.\<close>

lemma rename_move:
  assumes e: "effect s v {} s1" and fr: "found s1 db dst None" and val: "obj_wf val" and live: "\<not> past s1 ex"
    and key: "length src \<le> STRING_MAX" "length dst \<le> STRING_MAX" "db < 2 ^ 31"
  shows "\<exists>s'. do {
       s \<leftarrow> dbAdd db dst val s1;
       s \<leftarrow> (if (case ex of None \<Rightarrow> - 1 | Some w \<Rightarrow> w) \<noteq> - 1 then setExpire db dst (case ex of None \<Rightarrow> - 1 | Some w \<Rightarrow> w) s else Some s);
       let s = fst (dbDelete db src s);
       let s = signalModifiedKey db src s;
       let s = signalModifiedKey db dst s;
       s \<leftarrow> notifyKeyspaceEvent garb REDIS_NOTIFY_GENERIC ''rename_from'' src db s;
       s \<leftarrow> notifyKeyspaceEvent garb REDIS_NOTIFY_GENERIC ''rename_to'' dst db s;
       Some (addReply i r (incr_dirty 1 s)) } = Some s' \<and>
     result s i (vput db src None (vput db dst (carried (Some (content val, ex))) v)) {(src, db), (dst, db)} r s'"
proof -
  let ?v1 = "vput db dst (carried (Some (content val, ex))) v"
  let ?v2 = "vput db src None ?v1"
  obtain s2 s3 where s3: "dbAdd db dst val s1 = Some s2"
    "(if (case ex of None \<Rightarrow> - 1 | Some w \<Rightarrow> w) \<noteq> - 1 then setExpire db dst (case ex of None \<Rightarrow> - 1 | Some w \<Rightarrow> w) s2 else Some s2) = Some s3"
    "effect s1 (vput db dst (carried (Some (content val, ex))) (view s1)) {} s3"
    using add_with_time [OF effect_inv [OF e] fr val live] by blast
  have e3: "effect s ?v1 {} s3" using effect_trans [OF e s3(3)] effect_view [OF e] by simp
  obtain s4 where s4: "fst (dbDelete db src s3) = s4" "effect s3 (vput db src None (view s3)) {} s4"
    using dbDelete_correct [OF effect_inv [OF e3], of db src] by auto
  have e4: "effect s ?v2 {} s4" using effect_trans [OF e3 s4(2)] unfolding effect_view [OF e3] by simp
  let ?s5 = "signalModifiedKey db src s4"
  have e5: "effect s ?v2 {(src, db)} ?s5"
    using effect_trans [OF e4 effect_touch [OF effect_inv [OF e4], of src db]] effect_view [OF e4] by simp
  let ?s6 = "signalModifiedKey db dst ?s5"
  have e6: "effect s ?v2 {(src, db), (dst, db)} ?s6"
    using effect_trans [OF e5 effect_touch [OF effect_inv [OF e5], of dst db]] effect_view [OF e5] by (simp add: insert_commute)
  obtain s7 where s7: "notifyKeyspaceEvent garb REDIS_NOTIFY_GENERIC ''rename_from'' src db ?s6 = Some s7" "effect ?s6 (view ?s6) {} s7"
    using effect_notify [OF effect_inv [OF e6] key(1) _ key(3), of "''rename_from''"] by (auto simp: STRING_MAX_def)
  have e7: "effect s ?v2 {(src, db), (dst, db)} s7" by (rule effect_trans_same [OF e6 s7(2)])
  obtain s8 where s8: "notifyKeyspaceEvent garb REDIS_NOTIFY_GENERIC ''rename_to'' dst db s7 = Some s8" "effect s7 (view s7) {} s8"
    using effect_notify [OF effect_inv [OF e7] key(2) _ key(3), of "''rename_to''"] by (auto simp: STRING_MAX_def)
  have e8: "effect s ?v2 {(src, db), (dst, db)} (incr_dirty 1 s8)"
    by (rule effect_trans_same [OF effect_trans_same [OF e7 s8(2)] effect_counters(4) [OF effect_inv [OF s8(2)]]])
  show ?thesis using s3(1,2) s4(1) s7(1) s8(1) result_reply [OF e8, of i r] by (simp add: Let_def)
qed

theorem renameGenericCommand_correct:
  assumes inv: "server_inv s" and key: "length src \<le> STRING_MAX" "length dst \<le> STRING_MAX"
  shows "\<exists>s'. renameGenericCommand garb i src dst nx s = Some s' \<and> rename_outcome s i src dst nx s'"
proof (cases "src = dst")
  case True
  then show ?thesis using result_reply [OF effect_refl [OF inv], of i shared_sameobjecterr] by (simp add: renameGenericCommand_def rename_outcome_def)
next
  case ne: False
  define db where "db = c_db (sv_clients s i)"
  note dbl = server_inv_db [OF inv, of i, folded db_def]
  obtain s1 ob where s1: "lookupKeyWrite garb db src s = Some (s1, ob)" "effect s (view s) {} s1" "found s1 db src ob"
    using lookupKeyWrite_correct [OF inv key(1) dbl] by blast
  show ?thesis
  proof (cases ob)
    case None
    then have "view s db src = None" using s1(3) effect_view [OF s1(2)] by (simp add: found_def)
    then show ?thesis using None s1(1) ne result_reply [OF s1(2), of i shared_nokeyerr]
      by (simp add: renameGenericCommand_def lookupKeyWriteOrReply_def rename_outcome_def db_def [symmetric])
  next
    case (Some val)
    define ex where "ex = db_expires (sv_dbs s1 db) src"
    have v: "view s db src = Some (content val, ex)" "obj_wf val" "\<not> past s1 ex"
      using s1(3) effect_view [OF s1(2)] Some by (simp_all add: found_def ex_def)
    obtain s2 old where s2: "lookupKeyWrite garb db dst s1 = Some (s2, old)" "effect s1 (view s1) {} s2" "found s2 db dst old"
      using lookupKeyWrite_correct [OF effect_inv [OF s1(2)] key(2) dbl] by blast
    have e2: "effect s (view s) {} s2" by (rule effect_trans_same [OF s1(2) s2(2)])
    have vd: "view s db dst = None \<longleftrightarrow> old = None" using s2(3) effect_view [OF e2] by (simp add: found_def)
    define s3 where "s3 = (if old \<noteq> None then fst (dbDelete db dst s2) else s2)"
    obtain v3 where s3: "effect s v3 {} s3" "found s3 db dst None" "vput db dst x v3 = vput db dst x (view s)" for x
    proof (cases old)
      case None
      then show ?thesis using that [of "view s"] e2 s2(3) by (simp add: s3_def)
    next
      case (Some y)
      obtain s4 where s4: "fst (dbDelete db dst s2) = s4" "effect s2 (vput db dst None (view s2)) {} s4" "lookupKey db dst s4 = None"
        using dbDelete_correct [OF effect_inv [OF e2], of db dst] by auto
      have "found s4 db dst None"
        using found_lookup [OF effect_inv [OF s4(2)], of db dst] absent_persistent [OF effect_inv [OF s4(2)], of db dst] s4(3)
        by (simp add: lookupKey_def past_def)
      then show ?thesis using that [of "vput db dst None (view s)"] effect_trans [OF e2 s4(2)] effect_view [OF e2] Some s4(1) by (simp add: s3_def)
    qed
    have live: "\<not> past s3 ex" using v(3) past_keeps [OF effect_keeps [OF s1(2)]] past_keeps [OF effect_keeps [OF s3(1)]] by simp
    have gx: "getExpire db src s1 = Some (case ex of None \<Rightarrow> - 1 | Some w \<Rightarrow> w)"
      by (simp only: getExpire_correct [OF effect_inv [OF s1(2)]] ex_def)
    note m = rename_move [OF s3(1,2) v(2) live key dbl, of garb i "if nx then shared_cone else shared_ok", unfolded s3(3)]
    show ?thesis
    proof (cases "nx \<and> old \<noteq> None")
      case True
      then show ?thesis using Some s1(1) s2(1) ne v(1) vd result_reply [OF e2, of i shared_czero]
        by (simp add: renameGenericCommand_def lookupKeyWriteOrReply_def rename_outcome_def db_def [symmetric] gx)
    next
      case False
      then show ?thesis using m Some s1(1) s2(1) ne v(1) vd
        by (auto simp: renameGenericCommand_def lookupKeyWriteOrReply_def rename_outcome_def db_def [symmetric] gx s3_def Let_def)
    qed
  qed
qed

section \<open>MOVE\<close>

definition move_outcome :: "redisServer \<Rightarrow> nat \<Rightarrow> byte list \<Rightarrow> int option \<Rightarrow> redisServer \<Rightarrow> bool" where
  "move_outcome s i key n s' =
     (let src = c_db (sv_clients s i) in
      case n of
        None \<Rightarrow> result s i (view s) {} shared_outofrangeerr s'
      | Some n \<Rightarrow>
          if n < 0 \<or> n \<ge> int (sv_dbnum s) then result s i (view s) {} shared_outofrangeerr s'
          else if nat n = src then result s i (view s) {} shared_sameobjecterr s'
          else if view s src key = None \<or> view s (nat n) key \<noteq> None then result s i (view s) {} shared_czero s'
          else result s i (vput src key None (vput (nat n) key (carried (view s src key)) (view s))) {} shared_cone s')"

text \<open>No client becomes dirty, the watchers of the two keys included: MOVE escapes WATCH.\<close>

theorem moveCommand_correct:
  assumes inv: "server_inv s" and key: "length key \<le> STRING_MAX" and arg: "string_wf x"
  shows "\<exists>s'. moveCommand garb i key x s = Some s' \<and> move_outcome s i key (parse_number (cstring (str_val x))) s'"
proof -
  define src where "src = c_db (sv_clients s i)"
  have srcl: "src < sv_dbnum s" "sv_dbnum s \<le> 2 ^ 31" using inv by (simp_all add: server_inv_def src_def)
  define n where "n = parse_number (cstring (str_val x))"
  have g: "getLongLongFromObject (Some x) = Some n" using getLongLongFromObject_correct [OF arg] by (simp add: n_def)
  show ?thesis
  proof (cases "n = None \<or> the n < 0 \<or> the n \<ge> int (sv_dbnum s)")
    case True
    then show ?thesis using g result_reply [OF effect_refl [OF inv], of i shared_outofrangeerr] srcl
      by (cases n) (auto simp: moveCommand_def move_outcome_def n_def [symmetric] selectDb_def)
  next
    case False
    then obtain d where d: "n = Some (int d)" "d < sv_dbnum s" by (cases n) (auto, metis nat_0_le nat_less_iff not_less)
    let ?s0 = "upd_client i (\<lambda>c. c\<lparr>c_db := d\<rparr>) s"
    have sel: "selectDb i (int d) s = Some ?s0" "selectDb i (int src) ?s0 = Some s" "c_db (sv_clients ?s0 i) = d"
      using d(2) srcl by (simp_all add: selectDb_def upd_client_def src_def)
    have r: "\<not> (int d < - (2 ^ 31) \<or> int d > 2 ^ 31 - 1)" using d(2) srcl(2) by simp
    show ?thesis
    proof (cases "d = src")
      case True
      have "moveCommand garb i key x s = Some (addReply i shared_sameobjecterr s)"
        using g d(1) sel True r by (simp add: moveCommand_def src_def [symmetric])
      then show ?thesis using d True result_reply [OF effect_refl [OF inv], of i shared_sameobjecterr]
        by (simp add: move_outcome_def n_def [symmetric] src_def [symmetric])
    next
      case ne: False
      obtain s1 ob where s1: "lookupKeyWrite garb src key s = Some (s1, ob)" "effect s (view s) {} s1" "found s1 src key ob"
        using lookupKeyWrite_correct [OF inv key order_less_le_trans [OF srcl]] by blast
      show ?thesis
      proof (cases ob)
        case None
        then have "view s src key = None" using s1(3) effect_view [OF s1(2)] by (simp add: found_def)
        moreover have "moveCommand garb i key x s = Some (addReply i shared_czero s1)"
          using g d(1) sel ne r None s1(1) by (simp add: moveCommand_def src_def [symmetric])
        ultimately show ?thesis using d ne result_reply [OF s1(2), of i shared_czero]
          by (simp add: move_outcome_def n_def [symmetric] src_def [symmetric])
      next
        case (Some val)
        define ex where "ex = db_expires (sv_dbs s1 src) key"
        have v: "view s src key = Some (content val, ex)" "obj_wf val" "\<not> past s1 ex"
          using s1(3) effect_view [OF s1(2)] Some by (simp_all add: found_def ex_def)
        have gx: "getExpire src key s1 = Some (case ex of None \<Rightarrow> - 1 | Some w \<Rightarrow> w)"
          by (simp only: getExpire_correct [OF effect_inv [OF s1(2)]] ex_def)
        obtain s2 old where s2: "lookupKeyWrite garb d key s1 = Some (s2, old)" "effect s1 (view s1) {} s2" "found s2 d key old"
          using lookupKeyWrite_correct [OF effect_inv [OF s1(2)] key order_less_le_trans [OF d(2) srcl(2)]] by blast
        have e2: "effect s (view s) {} s2" by (rule effect_trans_same [OF s1(2) s2(2)])
        have vd: "view s d key = None \<longleftrightarrow> old = None" using s2(3) effect_view [OF e2] by (simp add: found_def)
        show ?thesis
        proof (cases "old = None")
          case False
          have "moveCommand garb i key x s = Some (addReply i shared_czero s2)"
            using g d(1) sel ne r Some s1(1) gx s2(1) False by (simp add: moveCommand_def src_def [symmetric])
          then show ?thesis using d ne vd False result_reply [OF e2, of i shared_czero]
            by (simp add: move_outcome_def n_def [symmetric] src_def [symmetric])
        next
          case True
          let ?v1 = "vput d key (carried (Some (content val, ex))) (view s)"
          have live: "\<not> past s2 ex" using v(3) past_keeps [OF effect_keeps [OF s2(2)]] by simp
          obtain s3 s4 where s4: "dbAdd d key val s2 = Some s3"
            "(if (case ex of None \<Rightarrow> - 1 | Some w \<Rightarrow> w) \<noteq> - 1 then setExpire d key (case ex of None \<Rightarrow> - 1 | Some w \<Rightarrow> w) s3 else Some s3) = Some s4"
            "effect s2 (vput d key (carried (Some (content val, ex))) (view s2)) {} s4"
            using add_with_time [OF effect_inv [OF e2] _ v(2) live] s2(3) True by blast
          have e4: "effect s ?v1 {} s4" using effect_trans [OF e2 s4(3)] effect_view [OF e2] by simp
          obtain s5 where s5: "fst (dbDelete src key s4) = s5" "effect s4 (vput src key None (view s4)) {} s5"
            using dbDelete_correct [OF effect_inv [OF e4], of src key] by auto
          have e5: "effect s (vput src key None ?v1) {} (incr_dirty 1 s5)"
            using effect_trans_same [OF effect_trans [OF e4 s5(2)] effect_counters(4) [OF effect_inv [OF s5(2)]]]
            unfolding effect_view [OF e4] by simp
          have "moveCommand garb i key x s = Some (addReply i shared_cone (incr_dirty 1 s5))"
            using g d(1) sel ne r Some s1(1) gx s2(1) True s4(1,2) s5(1) by (simp add: moveCommand_def src_def [symmetric])
          then show ?thesis using d ne vd v(1) True result_reply [OF e5, of i shared_cone]
            by (simp add: move_outcome_def n_def [symmetric] src_def [symmetric])
        qed
      qed
    qed
  qed
qed

section \<open>FLUSHDB and PERSIST\<close>

theorem flushdbCommand_correct:
  assumes inv: "server_inv s" and db: "db = c_db (sv_clients s i)"
  shows "result s i (\<lambda>d k. if d = db then None else view s d k) {(k, d). d = db \<and> db_dict (sv_dbs s db) k \<noteq> None} shared_ok
    (flushdbCommand i s)"
proof -
  define s1 where "s1 = incr_dirty (int (card (dom (db_dict (sv_dbs s db))))) s"
  have e1: "effect s (view s) {} s1" unfolding s1_def by (rule effect_counters(4) [OF inv])
  have same: "sv_dbs s1 = sv_dbs s" "\<And>j. watched_by s1 j = watched_by s j" by (simp_all add: s1_def incr_dirty_def)
  have w: "watch_inv s1" using effect_inv [OF e1] by (simp add: server_inv_def)
  define s2 where "s2 = touchWatchedKeysOnFlush (Some db) s1"
  note t = touchWatchedKeysOnFlush_correct [OF w, of "Some db", folded s2_def]
  have "out s2 j = out s1 j" for j
  proof -
    have inner: "out (fold (\<lambda>wk s. if flush_hits (Some db) s wk then mark_dirty i s else s) l s) j = out s j" for l i and s :: redisServer
      by (induction l arbitrary: s) simp_all
    have "out (fold (\<lambda>i s. fold (\<lambda>wk s. if flush_hits (Some db) s wk then mark_dirty i s else s) (c_watched_keys (sv_clients s i)) s) l s) j = out s j" for l and s :: redisServer
      by (induction l arbitrary: s) (simp_all add: inner)
    then show ?thesis by (simp add: s2_def touchWatchedKeysOnFlush_def)
  qed
  note o2 = this
  define s3 where "s3 = empty_db db s2"
  have k3: "keeps s2 s3" unfolding s3_def empty_db_def by (rule keeps_upd_db) simp
  have k: "keeps s s3" by (rule keeps_trans [OF keeps_trans [OF effect_keeps [OF e1] t(1)] k3])
  have dbs3: "sv_dbs s3 d = (if d = db then (sv_dbs s d)\<lparr>db_dict := Map.empty, db_expires := Map.empty\<rparr> else sv_dbs s d)" for d
    by (simp add: s3_def empty_db_def t(2) same)
  have "db_inv s3" using inv by (simp add: server_inv_def db_inv_def dbs3)
  moreover have "view s3 = (\<lambda>d k. if d = db then None else view s d k)"
    by (auto simp: view_def fun_eq_iff dbs3 past_keeps [OF k])
  moreover have "dirty s3 j \<longleftrightarrow> dirty s j \<or> (\<exists>wk \<in> {(k, d). d = db \<and> db_dict (sv_dbs s db) k \<noteq> None}. wk \<in> set (watched_by s j))" for j
  proof -
    have "dirty s3 j = dirty s2 j" by (simp add: s3_def empty_db_def dirty_def)
    moreover have "dirty s1 j = dirty s j" by (simp add: s1_def incr_dirty_def dirty_def)
    ultimately show ?thesis using t(3) [of j] same by (auto simp: flush_hits_def Bex_def)
  qed
  moreover have "appended s s3" using o2 by (simp add: appended_def s3_def empty_db_def s1_def incr_dirty_def)
  ultimately have "effect s (\<lambda>d k. if d = db then None else view s d k) {(k, d). d = db \<and> db_dict (sv_dbs s db) k \<noteq> None} s3"
    using server_inv_keeps [OF inv k] k by (simp add: effect_def)
  from result_reply [OF this, of i shared_ok] show ?thesis
    by (simp add: flushdbCommand_def db [symmetric] signalFlushedDb_def s3_def s2_def s1_def Let_def)
qed

text \<open>
  PERSIST reads the table without the lazy expiry, and marks no watcher: a key whose time has passed,
  gone for every reader, comes to life again.
\<close>

theorem persistCommand_correct:
  assumes inv: "server_inv s" and db: "db = c_db (sv_clients s i)" and key: "db_dict (sv_dbs s db) key = Some ob"
  shows "\<exists>s'. persistCommand i key s = Some s' \<and>
    result s i (vput db key (Some (content ob, None)) (view s)) {} (if db_expires (sv_dbs s db) key \<noteq> None then shared_cone else shared_czero) s'"
proof -
  obtain s1 where s1: "removeExpire db key s = Some (s1, db_expires (sv_dbs s db) key \<noteq> None)"
    "effect s (vput db key (Some (content ob, None)) (view s)) {} s1"
    using removeExpire_correct [OF inv, of db key ob] key by (auto simp: lookupKey_def)
  have e: "result s i (vput db key (Some (content ob, None)) (view s)) ({} \<union> {}) r (incr_dirty 1 (addReply i r s1))" for r
    using result_effect [OF result_reply [OF s1(2), of i r] effect_counters(4) [OF result_inv(1) [OF result_reply [OF s1(2), of i r]]], of 1]
    unfolding result_inv(2) [OF result_reply [OF s1(2), of i r]] .
  show ?thesis
    using s1 key db e [of shared_cone] result_reply [OF s1(2), of i shared_czero] by (auto simp: persistCommand_def)
qed

corollary persist_resurrects:
  assumes "server_inv s" "db = c_db (sv_clients s i)" "db_dict (sv_dbs s db) key = Some ob" "past s (db_expires (sv_dbs s db) key)"
  shows "view s db key = None" "\<exists>s'. persistCommand i key s = Some s' \<and> view s' db key = Some (content ob, None)"
proof -
  show "view s db key = None" using assms(4) by (simp add: view_def)
  obtain s' where "persistCommand i key s = Some s'" "view s' = vput db key (Some (content ob, None)) (view s)"
    using persistCommand_correct [OF assms(1-3)] result_inv(2) by blast
  then show "\<exists>s'. persistCommand i key s = Some s' \<and> view s' db key = Some (content ob, None)" by simp
qed

section \<open>Expire times\<close>

text \<open>
  The time an argument asks for. A deletion takes the place of a time that has passed, on a master
  that is not loading.
\<close>

definition expire_outcome :: "redisServer \<Rightarrow> nat \<Rightarrow> byte list \<Rightarrow> int \<Rightarrow> redisServer \<Rightarrow> bool" where
  "expire_outcome s i key w s' =
     (let db = c_db (sv_clients s i) in
      case view s db key of
        None \<Rightarrow> result s i (view s) {} shared_czero s'
      | Some (c, e) \<Rightarrow>
          result s i (vput db key (if w \<le> sv_now s \<and> \<not> sv_loading s \<and> \<not> sv_masterhost s then None
              else if past s (Some w) then None else Some (c, Some w)) (view s)) {(key, db)} shared_cone s')"

theorem expireGenericCommand_correct:
  assumes inv: "server_inv s" and key: "length key \<le> STRING_MAX" and arg: "string_wf x" "parse_number (cstring (str_val x)) = Some n"
    and range: "int64_range (if u = UNIT_SECONDS then n * 1000 else n)" "int64_range (w)" and w: "w = (if u = UNIT_SECONDS then n * 1000 else n) + base"
  shows "\<exists>s'. expireGenericCommand garb i key x base u s = Some s' \<and> expire_outcome s i key w s'"
proof -
  define db where "db = c_db (sv_clients s i)"
  note dbl = server_inv_db [OF inv, of i, folded db_def]
  obtain s1 ob where s1: "lookupKeyRead garb db key s = Some (s1, ob)" "effect s (view s) {} s1" "found s1 db key ob"
    using lookupKeyRead_correct [OF inv key dbl] by blast
  have now: "sv_now s1 = sv_now s" "sv_loading s1 = sv_loading s" "sv_masterhost s1 = sv_masterhost s"
    using effect_keeps [OF s1(2)] by (simp_all add: keeps_def)
  have start: "expireGenericCommand garb i key x base u s =
      (if ob = None then Some (addReply i shared_czero s1)
       else if w \<le> sv_now s \<and> \<not> sv_loading s \<and> \<not> sv_masterhost s then do {
         let (s, deleted) = dbDelete db key s1;
         if \<not> deleted then None
         else do {
           aux \<leftarrow> createStringObject garb (Some (bytes ''DEL'')) 3;
           let s = rewriteClientCommandVector i (aux # take 1 (drop 1 (c_argv (sv_clients s i)))) (incr_dirty 1 s);
           let s = signalModifiedKey db key s;
           s \<leftarrow> notifyKeyspaceEvent garb REDIS_NOTIFY_GENERIC ''del'' key db s;
           Some (addReply i shared_cone s) } }
       else do {
         s \<leftarrow> setExpire db key w s1;
         let s = signalModifiedKey db key (addReply i shared_cone s);
         s \<leftarrow> notifyKeyspaceEvent garb REDIS_NOTIFY_GENERIC ''expire'' key db s;
         Some (incr_dirty 1 s) })"
    using getLongLongFromObject_correct [OF arg(1)] arg(2) range w s1(1) now
    by (cases u) (simp_all add: expireGenericCommand_def getLongLongFromObjectOrReply_def chk64_def db_def [symmetric])
  show ?thesis
  proof (cases ob)
    case None
    then have "view s db key = None" using s1(3) effect_view [OF s1(2)] by (simp add: found_def)
    then show ?thesis using None start result_reply [OF s1(2), of i shared_czero] by (simp add: expire_outcome_def db_def [symmetric])
  next
    case (Some y)
    have v: "view s db key = Some (content y, db_expires (sv_dbs s1 db) key)" using s1(3) effect_view [OF s1(2)] Some by (simp add: found_def)
    have l: "lookupKey db key s1 = Some y" using s1(3) Some by (simp add: found_def)
    show ?thesis
    proof (cases "w \<le> sv_now s \<and> \<not> sv_loading s \<and> \<not> sv_masterhost s")
      case True
      obtain s2 where s2: "dbDelete db key s1 = (s2, True)" "effect s1 (vput db key None (view s1)) {} s2"
        using dbDelete_correct [OF effect_inv [OF s1(2)], of db key] l by auto
      obtain aux where aux: "createStringObject garb (Some (bytes ''DEL'')) 3 = Some aux"
        using createStringObject_correct [of 3 "bytes ''DEL''" garb] by (auto simp: STRING_MAX_def bytes_def)
      define s3 where "s3 = rewriteClientCommandVector i (aux # take 1 (drop 1 (c_argv (sv_clients s2 i)))) (incr_dirty 1 s2)"
      note d2 = effect_trans_same [OF effect_trans [OF s1(2) s2(2)] effect_counters(4) [OF effect_inv [OF s2(2)], of 1]]
      have e2: "effect s (vput db key None (view s)) {} s3"
        using effect_trans_same [OF d2 effect_rewrite [OF effect_inv [OF d2]]] effect_view [OF s1(2)] by (simp add: s3_def)
      have e3: "effect s (vput db key None (view s)) {(key, db)} (signalModifiedKey db key s3)"
        using effect_trans [OF e2 effect_touch [OF effect_inv [OF e2], of key db]] effect_view [OF e2] by simp
      obtain s4 where s4: "notifyKeyspaceEvent garb REDIS_NOTIFY_GENERIC ''del'' key db (signalModifiedKey db key s3) = Some s4"
        "effect (signalModifiedKey db key s3) (view (signalModifiedKey db key s3)) {} s4"
        using effect_notify [OF effect_inv [OF e3] key _ dbl, of "''del''"] by (auto simp: STRING_MAX_def)
      note e4 = effect_trans_same [OF e3 s4(2)]
      show ?thesis using start True Some s2(1) aux s4(1) v result_reply [OF e4, of i shared_cone]
        by (simp add: expire_outcome_def db_def [symmetric] s3_def)
    next
      case False
      obtain s2 where s2: "setExpire db key w s1 = Some s2"
        "effect s1 (vput db key (if past s1 (Some w) then None else Some (content y, Some w)) (view s1)) {} s2"
        using setExpire_correct [OF effect_inv [OF s1(2)] l] by blast
      have e2: "effect s (vput db key (if past s (Some w) then None else Some (content y, Some w)) (view s)) {} s2"
        using effect_trans [OF s1(2) s2(2)] effect_view [OF s1(2)] past_keeps [OF effect_keeps [OF s1(2)]] by simp
      note r3 = result_reply [OF e2, of i shared_cone]
      obtain s4 where s4: "notifyKeyspaceEvent garb REDIS_NOTIFY_GENERIC ''expire'' key db (signalModifiedKey db key (addReply i shared_cone s2)) = Some s4"
        "effect (addReply i shared_cone s2) (view (addReply i shared_cone s2)) {(key, db)} (incr_dirty 1 s4)"
        using finish_write [OF effect_refl [OF result_inv(1) [OF r3]] key _ dbl, of "''expire''" garb REDIS_NOTIFY_GENERIC] by (auto simp: STRING_MAX_def)
      have "expireGenericCommand garb i key x base u s = Some (incr_dirty 1 s4)"
        using start Some s2(1) s4(1) by (simp only: if_not_P [OF False]) simp
      moreover have "expire_outcome s i key w (incr_dirty 1 s4)"
        using v result_effect [OF r3 s4(2)] result_inv(2) [OF r3]
        by (simp only: expire_outcome_def db_def [symmetric] if_not_P [OF False]) simp
      ultimately show ?thesis by blast
    qed
  qed
qed

text \<open>TTL: -2 without the key, -1 without a time, otherwise the time left, in seconds rounded.\<close>

definition ttl_value :: "redisServer \<Rightarrow> nat \<Rightarrow> byte list \<Rightarrow> bool \<Rightarrow> int" where
  "ttl_value s i key ms = (case view s (c_db (sv_clients s i)) key of
     None \<Rightarrow> - 2
   | Some (c, None) \<Rightarrow> - 1
   | Some (c, Some w) \<Rightarrow> if ms then max 0 (w - sv_now s) else (max 0 (w - sv_now s) + 500) div 1000)"

theorem ttlGenericCommand_correct:
  assumes inv: "server_inv s" and key: "length key \<le> STRING_MAX" and now: "0 \<le> sv_now s" and nowmax: "sv_now s < 2 ^ 62"
    and range: "\<And>w. db_expires (sv_dbs s (c_db (sv_clients s i))) key = Some w \<Longrightarrow> 0 \<le> w \<and> w < 2 ^ 62"
  shows "\<exists>s'. ttlGenericCommand garb i key ms s = Some s' \<and> result s i (view s) {} (number_reply (ttl_value s i key ms)) s'"
proof -
  define db where "db = c_db (sv_clients s i)"
  obtain s1 ob where s1: "lookupKeyRead garb db key s = Some (s1, ob)" "effect s (view s) {} s1" "found s1 db key ob"
    using lookupKeyRead_correct [OF inv key server_inv_db [OF inv, of i, folded db_def]] by blast
  have now1: "sv_now s1 = sv_now s" using effect_keeps [OF s1(2)] by (simp add: keeps_def)
  have rep: "result s i (view s) {} (number_reply v) (addReplyLongLong i v s1)" if "int64_range v" for v
    using result_reply [OF s1(2), of i "number_reply v"] that by (simp add: addReplyLongLong_correct)
  show ?thesis
  proof (cases ob)
    case None
    then have "view s db key = None" using s1(3) effect_view [OF s1(2)] by (simp add: found_def)
    then show ?thesis using s1(1) None rep [of "- 2"] by (simp add: ttlGenericCommand_def ttl_value_def db_def [symmetric] int64_range_def)
  next
    case (Some y)
    have v: "view s db key = Some (content y, db_expires (sv_dbs s1 db) key)" using s1(3) effect_view [OF s1(2)] Some by (simp add: found_def)
    have same: "db_expires (sv_dbs s db) key = db_expires (sv_dbs s1 db) key"
      using v by (auto simp: view_def split: if_splits)
    show ?thesis
    proof (cases "db_expires (sv_dbs s1 db) key")
      case None
      then show ?thesis using s1(1) Some rep [of "- 1"] v
        by (simp add: ttlGenericCommand_def ttl_value_def db_def [symmetric] int64_range_def getExpire_correct [OF effect_inv [OF s1(2)]])
    next
      case (Some w)
      define r where "r = (if ms then max 0 (w - sv_now s) else (max 0 (w - sv_now s) + 500) div 1000)"
      have w: "0 \<le> w" "w < 2 ^ 62" using range same Some by (auto simp: db_def)
      have ran: "int64_range (w - sv_now s)" "int64_range (w - sv_now s + 500)" "int64_range 500" "int64_range r"
        using w now nowmax by (auto simp: int64_range_def r_def max_def)
      have "ttlGenericCommand garb i key ms s = Some (addReplyLongLong i r s1)"
        using s1(1) \<open>ob = Some y\<close> Some now1 ran(1,2,3) w
        by (auto simp: ttlGenericCommand_def db_def [symmetric] getExpire_correct [OF effect_inv [OF s1(2)]] chk64_def r_def max_def)
      then show ?thesis using rep [OF ran(4)] v Some by (simp add: ttl_value_def db_def [symmetric] r_def)
    qed
  qed
qed

end
