(* ===== verification/Multi.thy ===== *)
theory Multi
  imports Db_Commands
begin

text \<open>
  Transactions (\<open>multi.c\<close>): MULTI, EXEC, DISCARD, WATCH and UNWATCH. A client that is in MULTI queues its
  commands; EXEC runs them all with nothing in between, unless a key it watches was touched or a command
  could not be queued. The function that runs one command is an argument of \<open>execCommand\<close>.

  Left out: the monitors, and storing rewritten arguments into a queue that is freed right after.
\<close>

section \<open>Operations\<close>

definition REDIS_CMD_READONLY :: "32 word" where "REDIS_CMD_READONLY = 2"

definition initClientMultiState :: "nat \<Rightarrow> redisServer \<Rightarrow> redisServer" where
  "initClientMultiState i = upd_client i (\<lambda>c. c\<lparr>c_mstate := []\<rparr>)"

definition queueMultiCommand :: "nat \<Rightarrow> redisCommand \<Rightarrow> redisServer \<Rightarrow> redisServer" where
  "queueMultiCommand i cmd = upd_client i (\<lambda>c. c\<lparr>c_mstate := c_mstate c @ [\<lparr>mc_cmd = cmd, mc_argv = c_argv c\<rparr>]\<rparr>)"

definition discardTransaction :: "nat \<Rightarrow> redisServer \<Rightarrow> redisServer option" where
  "discardTransaction i s =
     unwatchAllKeys i (upd_client i (clear_flag (REDIS_MULTI OR REDIS_DIRTY_CAS OR REDIS_DIRTY_EXEC)) (initClientMultiState i s))"

definition flagTransaction :: "nat \<Rightarrow> redisServer \<Rightarrow> redisServer" where
  "flagTransaction i s = (if has_flag REDIS_MULTI (sv_clients s i) then upd_client i (set_flag REDIS_DIRTY_EXEC) s else s)"

definition multiCommand :: "nat \<Rightarrow> redisServer \<Rightarrow> redisServer" where
  "multiCommand i s =
     (if has_flag REDIS_MULTI (sv_clients s i) then addReplyError i ''MULTI calls can not be nested'' s
      else addReply i shared_ok (upd_client i (set_flag REDIS_MULTI) s))"

definition discardCommand :: "nat \<Rightarrow> redisServer \<Rightarrow> redisServer option" where
  "discardCommand i s =
     (if \<not> has_flag REDIS_MULTI (sv_clients s i) then Some (addReplyError i ''DISCARD without MULTI'' s)
      else map_option (addReply i shared_ok) (discardTransaction i s))"

text \<open>What goes to the append only file and to the replicas.\<close>

definition propagate :: "nat \<Rightarrow> byte list list \<Rightarrow> bool \<Rightarrow> bool \<Rightarrow> redisServer \<Rightarrow> redisServer" where
  "propagate dbid args aof repl s =
     (let s = (if sv_aof_on s \<and> aof then s\<lparr>sv_aof := sv_aof s @ [(dbid, args)]\<rparr> else s) in
      if repl then s\<lparr>sv_repl := sv_repl s @ [(dbid, args)]\<rparr> else s)"

definition execCommandPropagateMulti :: "nat \<Rightarrow> redisServer \<Rightarrow> redisServer" where
  "execCommandPropagateMulti i s = propagate (c_db (sv_clients s i)) [bytes ''MULTI''] True True s"

definition set_argv :: "nat \<Rightarrow> argv \<Rightarrow> redisServer \<Rightarrow> redisServer" where
  "set_argv i args = upd_client i (\<lambda>c. c\<lparr>c_argv := args\<rparr>)"

fun exec_loop :: "(nat \<Rightarrow> redisCommand \<Rightarrow> redisServer \<Rightarrow> redisServer option) \<Rightarrow> nat \<Rightarrow> multiCmd list \<Rightarrow> bool \<Rightarrow> redisServer \<Rightarrow>
    (redisServer \<times> bool) option" where
  "exec_loop call i [] must s = Some (s, must)"
| "exec_loop call i (mc # mcs) must s = do {
     let s = set_argv i (mc_argv mc) s;
     let (s, must) = (if \<not> must \<and> cmd_flags (mc_cmd mc) AND REDIS_CMD_READONLY = 0 then (execCommandPropagateMulti i s, True) else (s, must));
     s \<leftarrow> call i (mc_cmd mc) s;
     exec_loop call i mcs must s }"

definition execCommand :: "(nat \<Rightarrow> redisCommand \<Rightarrow> redisServer \<Rightarrow> redisServer option) \<Rightarrow> nat \<Rightarrow> redisServer \<Rightarrow> redisServer option" where
  "execCommand call i s =
     (let c = sv_clients s i in
      if \<not> has_flag REDIS_MULTI c then Some (addReplyError i ''EXEC without MULTI'' s)
      else if has_flag (REDIS_DIRTY_CAS OR REDIS_DIRTY_EXEC) c then
        discardTransaction i (addReply i (if has_flag REDIS_DIRTY_EXEC c then shared_execaborterr else shared_nullmultibulk) s)
      else do {
        s \<leftarrow> unwatchAllKeys i s;
        let orig_argv = c_argv (sv_clients s i);
        let mcs = c_mstate (sv_clients s i);
        let s = addReplyMultiBulkLen i (int (length mcs)) s;
        (s, must_propagate) \<leftarrow> exec_loop call i mcs False s;
        s \<leftarrow> discardTransaction i (set_argv i orig_argv s);
        Some (if must_propagate then incr_dirty 1 s else s) })"

definition watchCommand :: "nat \<Rightarrow> byte list list \<Rightarrow> redisServer \<Rightarrow> redisServer" where
  "watchCommand i keys s =
     (if has_flag REDIS_MULTI (sv_clients s i) then addReplyError i ''WATCH inside MULTI is not allowed'' s
      else addReply i shared_ok (fold (watchForKey i) keys s))"

definition unwatchCommand :: "nat \<Rightarrow> redisServer \<Rightarrow> redisServer option" where
  "unwatchCommand i s = do {
     s \<leftarrow> unwatchAllKeys i s;
     Some (addReply i shared_ok (upd_client i (clear_flag REDIS_DIRTY_CAS) s)) }"

section \<open>What keeps the invariant and the keyspace\<close>

text \<open>
  \<open>same_keys s s'\<close>: keys, expire times, clock, role, subscriptions and selected databases are those of \<open>s\<close>.
\<close>

definition same_keys :: "redisServer \<Rightarrow> redisServer \<Rightarrow> bool" where
  "same_keys s s' \<longleftrightarrow>
     (\<forall>db. db_dict (sv_dbs s' db) = db_dict (sv_dbs s db) \<and> db_expires (sv_dbs s' db) = db_expires (sv_dbs s db)) \<and>
     (\<forall>j. channels_of s' j = channels_of s j \<and> patterns_of s' j = patterns_of s j \<and> c_db (sv_clients s' j) = c_db (sv_clients s j)) \<and>
     sv_client_list s' = sv_client_list s \<and> sv_pubsub_channels s' = sv_pubsub_channels s \<and> sv_pubsub_patterns s' = sv_pubsub_patterns s \<and>
     sv_dbnum s' = sv_dbnum s \<and> sv_now s' = sv_now s \<and> sv_lua_time s' = sv_lua_time s \<and>
     sv_loading s' = sv_loading s \<and> sv_masterhost s' = sv_masterhost s"

lemma same_keys_refl [simp]: "same_keys s s"
  by (simp add: same_keys_def)

lemma same_keys_trans: "same_keys a b \<Longrightarrow> same_keys b c \<Longrightarrow> same_keys a c"
  by (simp add: same_keys_def)

lemma same_keys_clock: "same_keys s s' \<Longrightarrow> clock s' = clock s"
  by (simp add: same_keys_def clock_def split: option.split)

lemma same_keys_view:
  assumes "same_keys s s'"
  shows "view s' = view s"
proof -
  have "past s' e = past s e" for e
    using assms same_keys_clock [OF assms] by (simp add: same_keys_def past_def split: option.split)
  then show ?thesis using assms by (simp add: view_def fun_eq_iff same_keys_def)
qed

lemma same_keys_inv:
  assumes "same_keys s s'" "server_inv s" "watch_inv s'"
  shows "server_inv s'"
  using assms same_keys_clock [OF assms(1)]
  by (simp add: same_keys_def server_inv_def db_inv_def pubsub_inv_def channels_inv_def patterns_inv_def patterns_safe_def)

lemma same_keys_silent: "silent s' = silent s \<Longrightarrow> same_keys s s'"
  by (simp add: same_keys_def silent_eq_fields [of s' s])

lemma same_keys_unwatch:
  assumes "same_globals s s'" "sv_clients s' = (sv_clients s)(i := (sv_clients s i)\<lparr>c_watched_keys := []\<rparr>)"
    "\<forall>db. (sv_dbs s' db)\<lparr>db_watched_keys := Map.empty\<rparr> = (sv_dbs s db)\<lparr>db_watched_keys := Map.empty\<rparr>"
  shows "same_keys s s'"
proof -
  note g = assms(1) [unfolded same_globals_def]
  have "sv_loading s' = sv_loading s" "sv_masterhost s' = sv_masterhost s" "sv_lua_time s' = sv_lua_time s"
    using arg_cong [OF g, of sv_loading] arg_cong [OF g, of sv_masterhost] arg_cong [OF g, of sv_lua_time] by simp_all
  moreover have "db_dict (sv_dbs s' db) = db_dict (sv_dbs s db)" "db_expires (sv_dbs s' db) = db_expires (sv_dbs s db)" for db
    using arg_cong [OF assms(3) [rule_format, of db], of db_dict] arg_cong [OF assms(3) [rule_format, of db], of db_expires] by simp_all
  ultimately show ?thesis by (simp add: same_keys_def same_globals_fields [OF assms(1)] assms(2))
qed

text \<open>Changes of one client that concern neither its database nor its registrations.\<close>

definition inner :: "(redisClient \<Rightarrow> redisClient) \<Rightarrow> bool" where
  "inner f \<longleftrightarrow> (\<forall>c. c_db (f c) = c_db c \<and> c_watched_keys (f c) = c_watched_keys c \<and>
     c_pubsub_channels (f c) = c_pubsub_channels c \<and> c_pubsub_patterns (f c) = c_pubsub_patterns c)"

lemma inner_keys:
  assumes "inner f"
  shows "same_keys s (upd_client i f s)" "watch_inv s \<Longrightarrow> watch_inv (upd_client i f s)" "watched_by (upd_client i f s) j = watched_by s j"
proof -
  show "same_keys s (upd_client i f s)" using assms by (simp add: same_keys_def inner_def)
  show w: "watched_by (upd_client i f s) j = watched_by s j" for j using assms by (simp add: inner_def)
  show "watch_inv s \<Longrightarrow> watch_inv (upd_client i f s)" unfolding watch_inv_def w watchers_upd_client upd_client_sel(2) .
qed

lemma inner_intros [simp, intro]:
  "inner (set_flag m)" "inner (clear_flag m)" "inner (\<lambda>c. c\<lparr>c_mstate := f c\<rparr>)" "inner (\<lambda>c. c\<lparr>c_argv := a\<rparr>)"
  "inner (\<lambda>c. c\<lparr>c_authenticated := b\<rparr>)" "inner (\<lambda>c. c\<lparr>c_flags := g c\<rparr>)"
  by (simp_all add: inner_def)

lemma inner_inv: "inner f \<Longrightarrow> server_inv s \<Longrightarrow> server_inv (upd_client i f s)"
  using same_keys_inv [OF inner_keys(1)] inner_keys(2) by (simp add: server_inv_def)

lemma reply_inv: "server_inv s \<Longrightarrow> server_inv (addReply i r s)"
  by (rule effect_addReply(1))

section \<open>Ending a transaction\<close>

lemma same_globals_upd_client [simp]: "same_globals s (upd_client i f s)"
  by (simp add: same_globals_def upd_client_def)

lemma discardTransaction_correct:
  assumes inv: "server_inv s"
  shows "\<exists>s'. discardTransaction i s = Some s' \<and> server_inv s' \<and> same_keys s s' \<and> same_globals s s' \<and>
    sv_clients s' = (sv_clients s)(i :=
      clear_flag (REDIS_MULTI OR REDIS_DIRTY_CAS OR REDIS_DIRTY_EXEC) (sv_clients s i)\<lparr>c_mstate := [], c_watched_keys := []\<rparr>)"
proof -
  define s1 where "s1 = upd_client i (clear_flag (REDIS_MULTI OR REDIS_DIRTY_CAS OR REDIS_DIRTY_EXEC)) (initClientMultiState i s)"
  have inv1: "server_inv s1" unfolding s1_def initClientMultiState_def by (intro inner_inv inv) simp_all
  have k1: "same_keys s s1"
    unfolding s1_def initClientMultiState_def by (rule same_keys_trans [OF inner_keys(1) inner_keys(1)]) simp_all
  have g1: "same_globals s s1" by (simp add: s1_def initClientMultiState_def same_globals_def upd_client_def)
  obtain s' where s': "unwatchAllKeys i s1 = Some s'" "watch_inv s'" "sv_clients s' = (sv_clients s1)(i := (sv_clients s1 i)\<lparr>c_watched_keys := []\<rparr>)"
    "\<forall>db. (sv_dbs s' db)\<lparr>db_watched_keys := Map.empty\<rparr> = (sv_dbs s1 db)\<lparr>db_watched_keys := Map.empty\<rparr>" "same_globals s1 s'"
    using unwatchAllKeys_correct [of s1 i] inv1 by (auto simp: server_inv_def)
  have k2: "same_keys s1 s'" by (rule same_keys_unwatch [OF s'(5,3,4)])
  have "sv_clients s' = (sv_clients s)(i :=
      clear_flag (REDIS_MULTI OR REDIS_DIRTY_CAS OR REDIS_DIRTY_EXEC) (sv_clients s i)\<lparr>c_mstate := [], c_watched_keys := []\<rparr>)"
    unfolding s'(3) by (cases "sv_clients s i") (simp add: s1_def initClientMultiState_def clear_flag_def)
  then show ?thesis
    using s'(1) same_keys_inv [OF k2 inv1 s'(2)] same_keys_trans [OF k1 k2] same_globals_trans [OF g1 s'(5)]
    by (simp add: discardTransaction_def s1_def)
qed

text \<open>The state of a client outside any transaction.\<close>

definition idle :: "redisServer \<Rightarrow> nat \<Rightarrow> bool" where
  "idle s i \<longleftrightarrow> \<not> has_flag REDIS_MULTI (sv_clients s i) \<and> \<not> dirty s i \<and> \<not> has_flag REDIS_DIRTY_EXEC (sv_clients s i) \<and>
     c_mstate (sv_clients s i) = [] \<and> watched_by s i = []"

lemma has_flag_cleared: "m AND m' = m \<Longrightarrow> \<not> has_flag m (clear_flag m' c)"
proof -
  assume "m AND m' = m"
  then have "bit m n \<Longrightarrow> bit m' n" for n by (metis bit_and_iff)
  then have "(x AND NOT m') AND m = 0" for x by (intro bit_word_eqI) (auto simp: bit_simps)
  then show ?thesis by (simp add: has_flag_def clear_flag_def)
qed

lemma idle_after_discard:
  assumes "sv_clients s' i = clear_flag (REDIS_MULTI OR REDIS_DIRTY_CAS OR REDIS_DIRTY_EXEC) c\<lparr>c_mstate := [], c_watched_keys := []\<rparr>"
  shows "idle s' i"
  using assms has_flag_cleared [of REDIS_MULTI "REDIS_MULTI OR REDIS_DIRTY_CAS OR REDIS_DIRTY_EXEC" c]
    has_flag_cleared [of REDIS_DIRTY_CAS "REDIS_MULTI OR REDIS_DIRTY_CAS OR REDIS_DIRTY_EXEC" c]
    has_flag_cleared [of REDIS_DIRTY_EXEC "REDIS_MULTI OR REDIS_DIRTY_CAS OR REDIS_DIRTY_EXEC" c]
  by (simp add: idle_def dirty_def has_flag_def clear_flag_def REDIS_MULTI_def REDIS_DIRTY_CAS_def REDIS_DIRTY_EXEC_def)

lemma has_flag_or: "has_flag (a OR b) c \<longleftrightarrow> has_flag a c \<or> has_flag b c"
  by (auto simp: has_flag_def bit_eq_iff bit_simps)

text \<open>
  A transaction of a client that is dirty, or whose queue is incomplete, runs nothing: the keys are as
  they were, nothing is propagated, no other client is concerned, and the client is told.
\<close>

theorem execCommand_aborts:
  assumes inv: "server_inv s" and multi: "has_flag REDIS_MULTI (sv_clients s i)"
    and bad: "dirty s i \<or> has_flag REDIS_DIRTY_EXEC (sv_clients s i)"
  shows "\<exists>s'. execCommand call i s = Some s' \<and> server_inv s' \<and> view s' = view s \<and> same_globals s s' \<and> idle s' i \<and>
    out s' i = out s i @ (if has_flag REDIS_DIRTY_EXEC (sv_clients s i) then shared_execaborterr else shared_nullmultibulk) \<and>
    (\<forall>j. j \<noteq> i \<longrightarrow> sv_clients s' j = sv_clients s j)"
proof -
  let ?r = "if has_flag REDIS_DIRTY_EXEC (sv_clients s i) then shared_execaborterr else shared_nullmultibulk"
  let ?s1 = "addReply i ?r s"
  obtain s' where s': "discardTransaction i ?s1 = Some s'" "server_inv s'" "same_keys ?s1 s'" "same_globals ?s1 s'"
    "sv_clients s' = (sv_clients ?s1)(i :=
      clear_flag (REDIS_MULTI OR REDIS_DIRTY_CAS OR REDIS_DIRTY_EXEC) (sv_clients ?s1 i)\<lparr>c_mstate := [], c_watched_keys := []\<rparr>)"
    using discardTransaction_correct [OF reply_inv [OF inv]] by blast
  have "execCommand call i s = Some s'"
    using multi bad s'(1) by (simp add: execCommand_def Let_def has_flag_or dirty_def)
  moreover have "view s' = view s" using same_keys_view [OF s'(3)] effect_addReply(2) [OF inv] by simp
  moreover have "same_globals s s'" by (rule same_globals_trans [OF _ s'(4)]) (simp add: addReply_def)
  moreover have "idle s' i" by (rule idle_after_discard) (simp add: s'(5))
  ultimately show ?thesis using s'(2,5) by (simp add: addReply_def)
qed

section \<open>Optimistic locking\<close>

text \<open>
  \<open>guards Q i s s'\<close>: from \<open>s\<close> to \<open>s'\<close> the queued commands still have the property \<open>Q\<close>, the keys client \<open>i\<close> watches stay watched, and each of them still reads the
  same unless the client is dirty; once dirty it stays dirty.
\<close>

definition queue_ok :: "(multiCmd \<Rightarrow> bool) \<Rightarrow> redisServer \<Rightarrow> bool" where
  "queue_ok Q s \<longleftrightarrow> (\<forall>j. \<forall>mc \<in> set (c_mstate (sv_clients s j)). Q mc)"

definition guards :: "(multiCmd \<Rightarrow> bool) \<Rightarrow> nat \<Rightarrow> redisServer \<Rightarrow> redisServer \<Rightarrow> bool" where
  "guards Q i s s' \<longleftrightarrow> server_inv s' \<and> (queue_ok Q s \<longrightarrow> queue_ok Q s') \<and>
     sv_client_list s' = sv_client_list s \<and> set (watched_by s i) \<subseteq> set (watched_by s' i) \<and>
     (dirty s i \<longrightarrow> dirty s' i) \<and> (\<forall>k db. (k, db) \<in> set (watched_by s i) \<longrightarrow> view s' db k = view s db k \<or> dirty s' i)"

lemma guards_refl: "server_inv s \<Longrightarrow> guards Q i s s"
  by (simp add: guards_def)

lemma guards_trans: "guards Q i a b \<Longrightarrow> guards Q i b c \<Longrightarrow> guards Q i a c"
proof -
  assume ab: "guards Q i a b" and bc: "guards Q i b c"
  have "view c db k = view a db k \<or> dirty c i" if "(k, db) \<in> set (watched_by a i)" for k db
  proof -
    have "view b db k = view a db k \<or> dirty b i" using ab that by (simp add: guards_def)
    moreover have "(k, db) \<in> set (watched_by b i)" using ab that by (auto simp: guards_def)
    then have "view c db k = view b db k \<or> dirty c i" using bc by (simp add: guards_def)
    ultimately show ?thesis using bc by (auto simp: guards_def)
  qed
  then show ?thesis using ab bc by (auto simp: guards_def)
qed

lemma guards_inv: "guards Q i s s' \<Longrightarrow> server_inv s'"
  by (simp add: guards_def)

text \<open>A command whose changes are all signalled.\<close>

definition honest :: "redisServer \<Rightarrow> redisServer \<Rightarrow> bool" where
  "honest s s' \<longleftrightarrow> server_inv s' \<and> keeps s s' \<and>
     (\<exists>t. (\<forall>j. dirty s' j \<longleftrightarrow> dirty s j \<or> (\<exists>wk \<in> t. wk \<in> set (watched_by s j))) \<and>
       (\<forall>db k. view s' db k \<noteq> view s db k \<longrightarrow> (k, db) \<in> t))"

lemma honestI: "result s i v t r s' \<Longrightarrow> (\<And>db k. v db k \<noteq> view s db k \<Longrightarrow> (k, db) \<in> t) \<Longrightarrow> honest s s'"
  unfolding honest_def result_def by blast

lemma honest_same: "result s i (view s) t r s' \<Longrightarrow> honest s s'"
  by (erule honestI) simp

lemma honest_put: "result s i (vput db key x (view s)) {(key, db)} r s' \<Longrightarrow> honest s s'"
  by (rule honestI) (auto split: if_splits)

lemma honest_effect: "effect s (view s) t s' \<Longrightarrow> honest s s'"
  unfolding honest_def effect_def by auto

lemma honest_put_effect: "effect s (vput db key x (view s)) {(key, db)} s' \<Longrightarrow> honest s s'"
  unfolding honest_def effect_def by (rule conjI, simp, rule conjI, simp, rule exI [of _ "{(key, db)}"]) (auto split: if_splits)

lemma honest_keeps: "honest s s' \<Longrightarrow> keeps s s'" "honest s s' \<Longrightarrow> server_inv s'"
  by (auto simp: honest_def)

lemma honest_trans:
  assumes "honest a b" "honest b c"
  shows "honest a c"
proof -
  have w: "watched_by b j = watched_by a j" for j using honest_keeps(1) [OF assms(1)] by (simp add: keeps_def)
  obtain t where 1: "\<And>j. dirty b j \<longleftrightarrow> dirty a j \<or> (\<exists>wk \<in> t. wk \<in> set (watched_by a j))" "\<And>db k. view b db k \<noteq> view a db k \<Longrightarrow> (k, db) \<in> t"
    using assms(1) unfolding honest_def by blast
  obtain t' where 2: "\<And>j. dirty c j \<longleftrightarrow> dirty b j \<or> (\<exists>wk \<in> t'. wk \<in> set (watched_by b j))" "\<And>db k. view c db k \<noteq> view b db k \<Longrightarrow> (k, db) \<in> t'"
    using assms(2) unfolding honest_def by blast
  have "(k, db) \<in> t \<union> t'" if "view c db k \<noteq> view a db k" for db k
    using 1(2) [of db k] 2(2) [of db k] that by (metis Un_iff)
  moreover have "dirty c j \<longleftrightarrow> dirty a j \<or> (\<exists>wk \<in> t \<union> t'. wk \<in> set (watched_by a j))" for j
    using 1(1) [of j] 2(1) [of j] w [of j] by auto
  ultimately show ?thesis using honest_keeps(2) [OF assms(2)] keeps_trans [OF honest_keeps(1) [OF assms(1)] honest_keeps(1) [OF assms(2)]]
    unfolding honest_def by blast
qed

lemma honest_guards:
  assumes "honest s s'"
  shows "guards Q i s s'"
proof -
  obtain t where d: "dirty s' i \<longleftrightarrow> dirty s i \<or> (\<exists>wk \<in> t. wk \<in> set (watched_by s i))" and h: "\<And>db k. view s' db k \<noteq> view s db k \<Longrightarrow> (k, db) \<in> t"
    using assms unfolding honest_def by blast
  have k: "sv_client_list s' = sv_client_list s" "watched_by s' i = watched_by s i" "queue_ok Q s' = queue_ok Q s"
    using honest_keeps(1) [OF assms] by (simp_all add: keeps_def queue_ok_def)
  have "view s' db key = view s db key \<or> dirty s' i" if "(key, db) \<in> set (watched_by s i)" for key db
    using h [of db key] that d by blast
  then show ?thesis using honest_keeps(2) [OF assms] k d by (simp add: guards_def)
qed

text \<open>Operations on the state of a client itself.\<close>

lemma guards_same_keys:
  assumes "server_inv s" "same_keys s s'" "watch_inv s'" "set (watched_by s i) \<subseteq> set (watched_by s' i)" "dirty s i \<longrightarrow> dirty s' i"
    "queue_ok Q s \<longrightarrow> queue_ok Q s'"
  shows "guards Q i s s'"
  using assms same_keys_view [OF assms(2)] same_keys_inv [OF assms(2,1,3)] by (simp add: guards_def same_keys_def)

lemma guards_inner:
  assumes inv: "server_inv s" and f: "inner f" and m: "\<And>c. set (c_mstate (f c)) \<subseteq> set (c_mstate c)" and d: "j = i \<Longrightarrow> dirty s i \<Longrightarrow> has_flag REDIS_DIRTY_CAS (f (sv_clients s i))"
  shows "guards Q i s (upd_client j f s)"
proof (rule guards_same_keys [OF inv inner_keys(1) [OF f]])
  show "watch_inv (upd_client j f s)" using inv by (simp add: server_inv_def inner_keys(2) [OF f])
  show "set (watched_by s i) \<subseteq> set (watched_by (upd_client j f s) i)" by (simp only: inner_keys(3) [OF f] order_refl)
  show "dirty s i \<longrightarrow> dirty (upd_client j f s) i" using d by (auto simp: dirty_def)
  show "queue_ok Q s \<longrightarrow> queue_ok Q (upd_client j f s)" using m by (auto simp: queue_ok_def)
qed

lemma guards_reply: "server_inv s \<Longrightarrow> guards Q i s (addReply j r s)"
  unfolding addReply_def by (rule guards_inner) (simp_all add: inner_def dirty_def has_flag_def)

lemma guards_watch:
  assumes inv: "server_inv s" and live: "j \<in> set (sv_client_list s)"
  shows "guards Q i s (watchForKey j key s)"
proof (rule guards_same_keys [OF inv])
  have w: "watch_inv s" using inv by (simp add: server_inv_def)
  note c = watchForKey_correct [OF w live, of key]
  show "same_keys s (watchForKey j key s)" by (auto simp: same_keys_def watchForKey_def Let_def)
  show "watch_inv (watchForKey j key s)" by (rule c(1))
  show "set (watched_by s i) \<subseteq> set (watched_by (watchForKey j key s) i)" by (auto simp: c(2))
  show "dirty s i \<longrightarrow> dirty (watchForKey j key s) i" by (simp add: c(3))
  show "queue_ok Q s \<longrightarrow> queue_ok Q (watchForKey j key s)" by (simp add: queue_ok_def watchForKey_def Let_def)
qed

lemma guards_watches:
  assumes "server_inv s" "j \<in> set (sv_client_list s)"
  shows "guards Q i s (fold (watchForKey j) keys s)"
  using assms
proof (induction keys arbitrary: s)
  case Nil
  then show ?case by (simp add: guards_refl)
next
  case (Cons key keys)
  note g = guards_watch [OF Cons.prems, of Q i key]
  have "sv_client_list (watchForKey j key s) = sv_client_list s" using g by (simp add: guards_def)
  then show ?case using guards_trans [OF g Cons.IH [OF guards_inv [OF g]]] Cons.prems(2) by simp
qed

lemma guards_unwatch:
  assumes inv: "server_inv s" and "unwatchAllKeys j s = Some s'" "j \<noteq> i"
  shows "guards Q i s s'"
proof -
  have w: "watch_inv s" using inv by (simp add: server_inv_def)
  from unwatchAllKeys_correct [OF w, of j] assms(2) have s': "watch_inv s'" "sv_clients s' = (sv_clients s)(j := (sv_clients s j)\<lparr>c_watched_keys := []\<rparr>)"
    "\<forall>db. (sv_dbs s' db)\<lparr>db_watched_keys := Map.empty\<rparr> = (sv_dbs s db)\<lparr>db_watched_keys := Map.empty\<rparr>" "same_globals s s'" by auto
  show ?thesis
    by (rule guards_same_keys [OF inv same_keys_unwatch [OF s'(4,2,3)] s'(1)]) (use assms(3) in \<open>simp_all add: s'(2) dirty_def queue_ok_def\<close>)
qed

lemma guards_discard:
  assumes inv: "server_inv s" and "discardTransaction j s = Some s'" "j \<noteq> i"
  shows "guards Q i s s'"
proof -
  from discardTransaction_correct [OF inv, of j] assms(2) have s': "server_inv s'" "same_keys s s'"
    "\<And>k. k \<noteq> j \<Longrightarrow> sv_clients s' k = sv_clients s k" "c_mstate (sv_clients s' j) = []" by auto
  have "queue_ok Q s \<longrightarrow> queue_ok Q s'" unfolding queue_ok_def using s'(3,4) by (metis empty_iff list.set(1))
  show ?thesis
    by (rule guards_same_keys [OF inv s'(2)]) (use assms(3) s' \<open>queue_ok Q s \<longrightarrow> queue_ok Q s'\<close> in \<open>simp_all add: dirty_def server_inv_def\<close>)
qed

lemma guards_fields:
  assumes "server_inv s"
  shows "guards Q i s (propagate dbid args a b s)" "guards Q i s (incr_dirty n s)"
proof -
  have "keeps s (propagate dbid args a b s)"
    unfolding propagate_def Let_def by (auto intro: keeps_trans keeps_fields)
  then have "effect s (view s) {} (propagate dbid args a b s)"
    by (rule effect_fields [OF assms]) (auto simp: propagate_def Let_def)
  then show "guards Q i s (propagate dbid args a b s)" by (rule honest_guards [OF honest_effect])
  show "guards Q i s (incr_dirty n s)" by (rule honest_guards [OF honest_effect [OF effect_counters(4) [OF assms]]])
qed

text \<open>EXEC of another client, when every command it runs is one that guards.\<close>

lemma exec_loop_guards:
  assumes run: "\<And>mc s s'. mc \<in> set mcs \<Longrightarrow> server_inv s \<Longrightarrow> c_argv (sv_clients s j) = mc_argv mc \<Longrightarrow> sv_client_list s = cl \<Longrightarrow>
      call j (mc_cmd mc) s = Some s' \<Longrightarrow> guards Q i s s'"
    and "server_inv s" "sv_client_list s = cl" "exec_loop call j mcs must s = Some (s', must')"
  shows "guards Q i s s'"
  using assms
proof (induction mcs arbitrary: s must)
  case Nil
  then show ?case by (simp add: guards_refl)
next
  case (Cons mc mcs)
  define s1 where "s1 = set_argv j (mc_argv mc) s"
  define s2 where "s2 = (if \<not> must \<and> cmd_flags (mc_cmd mc) AND REDIS_CMD_READONLY = 0 then execCommandPropagateMulti j s1 else s1)"
  have g1: "guards Q i s s1" unfolding s1_def set_argv_def
    by (rule guards_inner [OF Cons.prems(2)]) (simp_all add: dirty_def has_flag_def)
  have g2: "guards Q i s1 s2" unfolding s2_def execCommandPropagateMulti_def
    using guards_fields(1) [OF guards_inv [OF g1]] guards_refl [OF guards_inv [OF g1]] by simp
  have a2: "c_argv (sv_clients s2 j) = mc_argv mc"
    by (simp add: s2_def s1_def set_argv_def execCommandPropagateMulti_def propagate_def Let_def)
  obtain s3 m where s3: "call j (mc_cmd mc) s2 = Some s3" "exec_loop call j mcs m s3 = Some (s', must')"
    using Cons.prems(4) by (auto simp: s1_def [symmetric] s2_def split: if_splits Option.bind_splits)
  have cl: "sv_client_list s2 = cl" using g1 g2 Cons.prems(3) by (simp add: guards_def)
  have g3: "guards Q i s2 s3" using Cons.prems(1) [of mc s2 s3] guards_inv [OF g2] a2 cl s3(1) by simp
  have "sv_client_list s3 = cl" using g3 cl by (simp add: guards_def)
  then have "guards Q i s3 s'" using Cons.IH [OF _ guards_inv [OF g3] _ s3(2)] Cons.prems(1) by (meson list.set_intros(2))
  then show ?case using guards_trans [OF guards_trans [OF g1 g2] g3] guards_trans by blast
qed

lemma execCommand_cases:
  assumes "execCommand call j s = Some s'"
  obtains "\<not> has_flag REDIS_MULTI (sv_clients s j)" "s' = addReplyError j ''EXEC without MULTI'' s"
    | r where "has_flag (REDIS_DIRTY_CAS OR REDIS_DIRTY_EXEC) (sv_clients s j)" "discardTransaction j (addReply j r s) = Some s'"
    | s1 s2 s3 must where "has_flag REDIS_MULTI (sv_clients s j)" "\<not> has_flag (REDIS_DIRTY_CAS OR REDIS_DIRTY_EXEC) (sv_clients s j)"
      "unwatchAllKeys j s = Some s1"
      "exec_loop call j (c_mstate (sv_clients s1 j)) False (addReplyMultiBulkLen j (int (length (c_mstate (sv_clients s1 j)))) s1) = Some (s2, must)"
      "discardTransaction j (set_argv j (c_argv (sv_clients s1 j)) s2) = Some s3" "s' = (if must then incr_dirty 1 s3 else s3)"
proof (cases "has_flag REDIS_MULTI (sv_clients s j)")
  case False
  then show ?thesis using that(1) assms by (simp add: execCommand_def)
next
  case m: True
  show ?thesis
  proof (cases "has_flag (REDIS_DIRTY_CAS OR REDIS_DIRTY_EXEC) (sv_clients s j)")
    case True
    then show ?thesis using that(2) assms m by (simp add: execCommand_def Let_def)
  next
    case False
    from assms m False have "\<exists>s1. unwatchAllKeys j s = Some s1 \<and>
        (\<exists>s2 must. exec_loop call j (c_mstate (sv_clients s1 j)) False (addReplyMultiBulkLen j (int (length (c_mstate (sv_clients s1 j)))) s1) = Some (s2, must) \<and>
          (\<exists>s3. discardTransaction j (set_argv j (c_argv (sv_clients s1 j)) s2) = Some s3 \<and> (if must then incr_dirty 1 s3 else s3) = s'))"
      by (simp add: execCommand_def Let_def bind_eq_Some_conv)
    then show ?thesis using that(3) [OF m False] by blast
  qed
qed

lemma execCommand_guards:
  assumes run: "\<And>mc s1 s2. mc \<in> set (c_mstate (sv_clients s j)) \<Longrightarrow> server_inv s1 \<Longrightarrow> c_argv (sv_clients s1 j) = mc_argv mc \<Longrightarrow>
      sv_client_list s1 = sv_client_list s \<Longrightarrow> call j (mc_cmd mc) s1 = Some s2 \<Longrightarrow> guards Q i s1 s2"
    and inv: "server_inv s" and "execCommand call j s = Some s'" "j \<noteq> i"
  shows "guards Q i s s'"
proof -
  from assms(3) show ?thesis
  proof (cases rule: execCommand_cases)
    case 1
    then show ?thesis using guards_reply [OF inv] by (simp add: addReplyError_def)
  next
    case (2 r)
    show ?thesis by (rule guards_trans [OF guards_reply [OF inv] guards_discard [OF reply_inv [OF inv] 2(2) assms(4)]])
  next
    case (3 s1 s2 s3 must)
    let ?h = "addReplyMultiBulkLen j (int (length (c_mstate (sv_clients s1 j)))) s1"
    note un = 3(3)
    have g1: "guards Q i s s1" by (rule guards_unwatch [OF inv un assms(4)])
    have m: "c_mstate (sv_clients s1 j) = c_mstate (sv_clients s j)"
      using unwatchAllKeys_correct [of s j] 3(3) inv by (auto simp: server_inv_def)
    have gh: "guards Q i s1 ?h" unfolding addReplyMultiBulkLen_def by (rule guards_reply [OF guards_inv [OF g1]])
    have cl: "sv_client_list ?h = sv_client_list s" using g1 gh by (simp add: guards_def)
    have "guards Q i a b" if "mc \<in> set (c_mstate (sv_clients s1 j))" "server_inv a" "c_argv (sv_clients a j) = mc_argv mc"
      "sv_client_list a = sv_client_list s" "call j (mc_cmd mc) a = Some b" for mc a b
      by (rule run [OF that(1) [unfolded m] that(2-5)])
    then have g2: "guards Q i ?h s2" by (rule exec_loop_guards [OF _ guards_inv [OF gh] cl 3(4)])
    have ga: "guards Q i s2 (set_argv j (c_argv (sv_clients s1 j)) s2)" unfolding set_argv_def
      by (rule guards_inner [OF guards_inv [OF g2]]) (simp_all add: dirty_def has_flag_def)
    have g3: "guards Q i (set_argv j (c_argv (sv_clients s1 j)) s2) s3" by (rule guards_discard [OF guards_inv [OF ga] 3(5) assms(4)])
    have g4: "guards Q i s3 s'" using 3(6) guards_refl [OF guards_inv [OF g3]] guards_fields(2) [OF guards_inv [OF g3]] by simp
    show ?thesis by (rule guards_trans [OF g1 guards_trans [OF gh guards_trans [OF g2 guards_trans [OF ga guards_trans [OF g3 g4]]]]])
  qed
qed

end
