(* ===== verification/T_string.thy ===== *)
theory T_string
  imports Db_Spec
begin

text \<open>
  The string commands of \<open>t_string.c\<close> (all but INCRBYFLOAT, which computes with \<open>long double\<close>). \<open>i\<close> is the
  client, keys are strings, other arguments are objects. \<open>rc\<close> gives the reference counts of objects: the
  commands encode or modify an object in place only when nobody else refers to it.
\<close>

section \<open>Commands\<close>

text \<open>The size is a \<open>long long\<close> that callers compute as an unsigned 64-bit sum.\<close>

definition checkStringLength :: "nat \<Rightarrow> nat \<Rightarrow> redisServer \<Rightarrow> redisServer \<times> bool" where
  "checkStringLength i sz s =
     (if s64 (int (u64 sz)) > 512 * 1024 * 1024
      then (addReplyError i ''string exceeds maximum allowed size (512MB)'' s, False) else (s, True))"

definition REDIS_SET_NX :: "32 word" where "REDIS_SET_NX = 1"

definition REDIS_SET_XX :: "32 word" where "REDIS_SET_XX = 2"

text \<open>The expire time of SET: an error reply, or the time in milliseconds.\<close>

definition set_expire_arg :: "nat \<Rightarrow> string \<Rightarrow> robj option \<Rightarrow> time_unit \<Rightarrow> redisServer \<Rightarrow> (redisServer \<times> int option) option" where
  "set_expire_arg i name expire unt s = (case expire of
     None \<Rightarrow> Some (s, Some 0)
   | Some e \<Rightarrow> do {
       (s, r) \<leftarrow> getLongLongFromObjectOrReply i (Some e) None s;
       (case r of None \<Rightarrow> Some (s, None)
        | Some ms \<Rightarrow>
            if ms \<le> 0 then Some (addReplyError i (''invalid expire time in '' @ name) s, None)
            else do { ms \<leftarrow> (if unt = UNIT_SECONDS then chk64 (ms * 1000) else Some ms); Some (s, Some ms) }) })"

definition setGenericCommand :: "(nat \<Rightarrow> byte) \<Rightarrow> string \<Rightarrow> nat \<Rightarrow> 32 word \<Rightarrow> byte list \<Rightarrow> robj \<Rightarrow> robj option \<Rightarrow> time_unit \<Rightarrow>
    byte list option \<Rightarrow> byte list option \<Rightarrow> redisServer \<Rightarrow> redisServer option" where
  "setGenericCommand garb name i flags key val expire unt ok_reply abort_reply s = do {
     let db = c_db (sv_clients s i);
     (s, ms) \<leftarrow> set_expire_arg i name expire unt s;
     (case ms of None \<Rightarrow> Some s
      | Some milliseconds \<Rightarrow> do {
          (s, busy) \<leftarrow> (if flags AND REDIS_SET_NX \<noteq> 0 then do { (s, ob) \<leftarrow> lookupKeyWrite garb db key s; Some (s, ob \<noteq> None) }
            else Some (s, False));
          (s, abort) \<leftarrow> (if busy then Some (s, True)
            else if flags AND REDIS_SET_XX \<noteq> 0 then do { (s, ob) \<leftarrow> lookupKeyWrite garb db key s; Some (s, ob = None) }
            else Some (s, False));
          if abort then Some (addReply i (case abort_reply of Some r \<Rightarrow> r | None \<Rightarrow> shared_nullbulk) s)
          else do {
            s \<leftarrow> setKey garb db key val s;
            let s = incr_dirty 1 s;
            s \<leftarrow> (if expire \<noteq> None then do { w \<leftarrow> chk64 (sv_now s + milliseconds); setExpire db key w s } else Some s);
            s \<leftarrow> notifyKeyspaceEvent garb REDIS_NOTIFY_STRING ''set'' key db s;
            s \<leftarrow> (if expire \<noteq> None then notifyKeyspaceEvent garb REDIS_NOTIFY_GENERIC ''expire'' key db s else Some s);
            Some (addReply i (case ok_reply of Some r \<Rightarrow> r | None \<Rightarrow> shared_ok) s) } }) }"

text \<open>The options of SET; \<open>None\<close> is a syntax error. An argument is compared up to its first NUL.\<close>

fun set_options :: "robj list \<Rightarrow> 32 word \<Rightarrow> time_unit \<Rightarrow> robj option \<Rightarrow> (32 word \<times> time_unit \<times> robj option) option" where
  "set_options [] flags unt expire = Some (flags, unt, expire)"
| "set_options (a # rest) flags unt expire =
     (let opt = cstring (str_val a) in
      if strcaseeq opt (bytes ''nx'') then set_options rest (flags OR REDIS_SET_NX) unt expire
      else if strcaseeq opt (bytes ''xx'') then set_options rest (flags OR REDIS_SET_XX) unt expire
      else (case rest of [] \<Rightarrow> None
        | nxt # rest' \<Rightarrow>
            if strcaseeq opt (bytes ''ex'') then set_options rest' flags UNIT_SECONDS (Some nxt)
            else if strcaseeq opt (bytes ''px'') then set_options rest' flags UNIT_MILLISECONDS (Some nxt)
            else None))"

definition setCommand :: "(nat \<Rightarrow> byte) \<Rightarrow> (robj \<Rightarrow> nat) \<Rightarrow> nat \<Rightarrow> byte list \<Rightarrow> robj \<Rightarrow> robj list \<Rightarrow> redisServer \<Rightarrow> redisServer option" where
  "setCommand garb rc i key val opts s = (case set_options opts 0 UNIT_SECONDS None of
     None \<Rightarrow> Some (addReply i shared_syntaxerr s)
   | Some (flags, unt, expire) \<Rightarrow> do {
       val \<leftarrow> tryObjectEncoding garb (rc val) val;
       setGenericCommand garb ''set'' i flags key val expire unt None None s })"

definition setnxCommand :: "(nat \<Rightarrow> byte) \<Rightarrow> (robj \<Rightarrow> nat) \<Rightarrow> nat \<Rightarrow> byte list \<Rightarrow> robj \<Rightarrow> redisServer \<Rightarrow> redisServer option" where
  "setnxCommand garb rc i key val s = do {
     val \<leftarrow> tryObjectEncoding garb (rc val) val;
     setGenericCommand garb ''setnx'' i REDIS_SET_NX key val None UNIT_SECONDS (Some shared_cone) (Some shared_czero) s }"

definition setexCommand :: "(nat \<Rightarrow> byte) \<Rightarrow> (robj \<Rightarrow> nat) \<Rightarrow> nat \<Rightarrow> byte list \<Rightarrow> robj \<Rightarrow> robj \<Rightarrow> redisServer \<Rightarrow> redisServer option" where
  "setexCommand garb rc i key secs val s = do {
     val \<leftarrow> tryObjectEncoding garb (rc val) val;
     setGenericCommand garb ''setex'' i 0 key val (Some secs) UNIT_SECONDS None None s }"

definition psetexCommand :: "(nat \<Rightarrow> byte) \<Rightarrow> (robj \<Rightarrow> nat) \<Rightarrow> nat \<Rightarrow> byte list \<Rightarrow> robj \<Rightarrow> robj \<Rightarrow> redisServer \<Rightarrow> redisServer option" where
  "psetexCommand garb rc i key ms val s = do {
     val \<leftarrow> tryObjectEncoding garb (rc val) val;
     setGenericCommand garb ''psetex'' i 0 key val (Some ms) UNIT_MILLISECONDS None None s }"

text \<open>The flag of the result tells \<open>REDIS_OK\<close>.\<close>

definition getGenericCommand :: "(nat \<Rightarrow> byte) \<Rightarrow> nat \<Rightarrow> byte list \<Rightarrow> redisServer \<Rightarrow> (redisServer \<times> bool) option" where
  "getGenericCommand garb i key s = do {
     (s, ob) \<leftarrow> lookupKeyReadOrReply garb i key shared_nullbulk s;
     (case ob of None \<Rightarrow> Some (s, True)
      | Some v \<Rightarrow>
          if o_type v \<noteq> REDIS_STRING then Some (addReply i shared_wrongtypeerr s, False)
          else do { s \<leftarrow> addReplyBulk i v s; Some (s, True) }) }"

definition getCommand :: "(nat \<Rightarrow> byte) \<Rightarrow> nat \<Rightarrow> byte list \<Rightarrow> redisServer \<Rightarrow> redisServer option" where
  "getCommand garb i key s = map_option fst (getGenericCommand garb i key s)"

definition getsetCommand :: "(nat \<Rightarrow> byte) \<Rightarrow> (robj \<Rightarrow> nat) \<Rightarrow> nat \<Rightarrow> byte list \<Rightarrow> robj \<Rightarrow> redisServer \<Rightarrow> redisServer option" where
  "getsetCommand garb rc i key val s = do {
     let db = c_db (sv_clients s i);
     (s, ok) \<leftarrow> getGenericCommand garb i key s;
     if \<not> ok then Some s
     else do {
       val \<leftarrow> tryObjectEncoding garb (rc val) val;
       s \<leftarrow> setKey garb db key val s;
       s \<leftarrow> notifyKeyspaceEvent garb REDIS_NOTIFY_STRING ''set'' key db s;
       Some (incr_dirty 1 s) } }"

text \<open>The object at a key is changed in place.\<close>

definition store_at :: "nat \<Rightarrow> byte list \<Rightarrow> robj \<Rightarrow> redisServer \<Rightarrow> redisServer" where
  "store_at db key ob = upd_db db (\<lambda>d. d\<lparr>db_dict := (db_dict d)(key \<mapsto> ob)\<rparr>)"

text \<open>The end of SETRANGE: the string is grown with zero bytes and the value copied over it.\<close>

definition setrange_write :: "(nat \<Rightarrow> byte) \<Rightarrow> nat \<Rightarrow> nat \<Rightarrow> byte list \<Rightarrow> nat \<Rightarrow> byte list \<Rightarrow> robj \<Rightarrow> redisServer \<Rightarrow> redisServer option" where
  "setrange_write garb i db key offset value ob s = do {
     p \<leftarrow> ptr_sds (o_ptr ob);
     p \<leftarrow> sdsgrowzero garb p (u64 (offset + length value));
     buf \<leftarrow> mem_write (s_buf p) offset value;
     let p = p\<lparr>s_buf := buf\<rparr>;
     let s = store_at db key (ob\<lparr>o_ptr := PSds p\<rparr>) s;
     let s = signalModifiedKey db key s;
     s \<leftarrow> notifyKeyspaceEvent garb REDIS_NOTIFY_STRING ''setrange'' key db s;
     Some (addReplyLongLong i (int (sdslen p)) (incr_dirty 1 s)) }"

definition setrangeCommand :: "(nat \<Rightarrow> byte) \<Rightarrow> (robj \<Rightarrow> nat) \<Rightarrow> nat \<Rightarrow> byte list \<Rightarrow> robj \<Rightarrow> byte list \<Rightarrow> redisServer \<Rightarrow> redisServer option" where
  "setrangeCommand garb rc i key offarg value s = do {
     let db = c_db (sv_clients s i);
     (s, r) \<leftarrow> getLongFromObjectOrReply i (Some offarg) None s;
     (case r of None \<Rightarrow> Some s
      | Some off \<Rightarrow>
          if off < 0 then Some (addReplyError i ''offset is out of range'' s)
          else do {
            let offset = nat off;
            (s, found) \<leftarrow> lookupKeyWrite garb db key s;
            (case found of
               None \<Rightarrow>
                 if value = [] then Some (addReply i shared_czero s)
                 else (let (s, ok) = checkStringLength i (offset + length value) s in
                   if \<not> ok then Some s
                   else do {
                     e \<leftarrow> sdsempty garb;
                     let ob = createObject REDIS_STRING (PSds e);
                     s \<leftarrow> dbAdd db key ob s;
                     setrange_write garb i db key offset value ob s })
             | Some ob \<Rightarrow>
                 let (s, bad) = checkType i ob REDIS_STRING s in
                 if bad then Some s
                 else do {
                   olen \<leftarrow> stringObjectLen garb ob;
                   if value = [] then Some (addReplyLongLong i (int olen) s)
                   else (let (s, ok) = checkStringLength i (offset + length value) s in
                     if \<not> ok then Some s
                     else do {
                       (s, ob) \<leftarrow> dbUnshareStringValue garb (rc ob) db key ob s;
                       setrange_write garb i db key offset value ob s }) }) }) }"

text \<open>The conversion of negative indexes and the clipping of GETRANGE, in \<open>long long\<close>; \<open>strlen - 1\<close> wraps to -1.\<close>

definition getrange_bounds :: "nat \<Rightarrow> int \<Rightarrow> int \<Rightarrow> int \<times> int" where
  "getrange_bounds len start end =
     (let start = (if start < 0 then s64 (int len + start) else start);
          end = (if end < 0 then s64 (int len + end) else end);
          start = (if start < 0 then 0 else start);
          end = (if end < 0 then 0 else end);
          end = (if end \<ge> int len then s64 (int len - 1) else end)
      in (start, end))"

definition getrangeCommand :: "(nat \<Rightarrow> byte) \<Rightarrow> nat \<Rightarrow> byte list \<Rightarrow> robj \<Rightarrow> robj \<Rightarrow> redisServer \<Rightarrow> redisServer option" where
  "getrangeCommand garb i key startarg endarg s = do {
     (s, r1) \<leftarrow> getLongLongFromObjectOrReply i (Some startarg) None s;
     (case r1 of None \<Rightarrow> Some s
      | Some start \<Rightarrow> do {
          (s, r2) \<leftarrow> getLongLongFromObjectOrReply i (Some endarg) None s;
          (case r2 of None \<Rightarrow> Some s
           | Some end \<Rightarrow> do {
               (s, found) \<leftarrow> lookupKeyReadOrReply garb i key shared_emptybulk s;
               (case found of None \<Rightarrow> Some s
                | Some ob \<Rightarrow>
                    let (s, bad) = checkType i ob REDIS_STRING s in
                    if bad then Some s
                    else do {
                      (str, len) \<leftarrow> object_chars garb 32 ob;
                      let (start, end) = getrange_bounds len start end;
                      if start > end \<or> len = 0 then Some (addReply i shared_emptybulk s)
                      else do {
                        bs \<leftarrow> mem_read str (nat start) (nat (end - start + 1));
                        Some (addReplyBulkCBuffer i bs s) } }) }) }) }"

fun mget_loop :: "(nat \<Rightarrow> byte) \<Rightarrow> nat \<Rightarrow> nat \<Rightarrow> byte list list \<Rightarrow> redisServer \<Rightarrow> redisServer option" where
  "mget_loop garb i db [] s = Some s"
| "mget_loop garb i db (key # keys) s = do {
     (s, ob) \<leftarrow> lookupKeyRead garb db key s;
     s \<leftarrow> (case ob of None \<Rightarrow> Some (addReply i shared_nullbulk s)
       | Some v \<Rightarrow> if o_type v \<noteq> REDIS_STRING then Some (addReply i shared_nullbulk s) else addReplyBulk i v s);
     mget_loop garb i db keys s }"

definition mgetCommand :: "(nat \<Rightarrow> byte) \<Rightarrow> nat \<Rightarrow> byte list list \<Rightarrow> redisServer \<Rightarrow> redisServer option" where
  "mgetCommand garb i keys s =
     mget_loop garb i (c_db (sv_clients s i)) keys (addReplyMultiBulkLen i (int (length keys)) s)"

fun count_busy :: "(nat \<Rightarrow> byte) \<Rightarrow> nat \<Rightarrow> (byte list \<times> robj) list \<Rightarrow> redisServer \<Rightarrow> (redisServer \<times> nat) option" where
  "count_busy garb db [] s = Some (s, 0)"
| "count_busy garb db ((key, val) # kvs) s = do {
     (s, ob) \<leftarrow> lookupKeyWrite garb db key s;
     (s, n) \<leftarrow> count_busy garb db kvs s;
     Some (s, (if ob \<noteq> None then 1 else 0) + n) }"

fun mset_loop :: "(nat \<Rightarrow> byte) \<Rightarrow> (robj \<Rightarrow> nat) \<Rightarrow> nat \<Rightarrow> (byte list \<times> robj) list \<Rightarrow> redisServer \<Rightarrow> redisServer option" where
  "mset_loop garb rc db [] s = Some s"
| "mset_loop garb rc db ((key, val) # kvs) s = do {
     val \<leftarrow> tryObjectEncoding garb (rc val) val;
     s \<leftarrow> setKey garb db key val s;
     s \<leftarrow> notifyKeyspaceEvent garb REDIS_NOTIFY_STRING ''set'' key db s;
     mset_loop garb rc db kvs s }"

text \<open>The arguments in pairs; \<open>None\<close> when their number is odd.\<close>

fun pairs :: "robj list \<Rightarrow> (byte list \<times> robj) list option" where
  "pairs [] = Some []"
| "pairs [x] = None"
| "pairs (k # v # r) = map_option (\<lambda>ps. (str_val k, v) # ps) (pairs r)"

definition msetGenericCommand :: "(nat \<Rightarrow> byte) \<Rightarrow> (robj \<Rightarrow> nat) \<Rightarrow> nat \<Rightarrow> robj list \<Rightarrow> bool \<Rightarrow> redisServer \<Rightarrow> redisServer option" where
  "msetGenericCommand garb rc i args nx s = (case pairs args of
     None \<Rightarrow> Some (addReplyError i ''wrong number of arguments for MSET'' s)
   | Some kvs \<Rightarrow> do {
       let db = c_db (sv_clients s i);
       (s, busykeys) \<leftarrow> (if nx then count_busy garb db kvs s else Some (s, 0));
       if busykeys \<noteq> 0 then Some (addReply i shared_czero s)
       else do {
         s \<leftarrow> mset_loop garb rc db kvs s;
         let s = incr_dirty (int (length kvs)) s;
         Some (addReply i (if nx then shared_cone else shared_ok) s) } })"

definition incrDecrCommand :: "(nat \<Rightarrow> byte) \<Rightarrow> (robj \<Rightarrow> nat) \<Rightarrow> nat \<Rightarrow> byte list \<Rightarrow> int \<Rightarrow> redisServer \<Rightarrow> redisServer option" where
  "incrDecrCommand garb rc i key incr s = do {
     let db = c_db (sv_clients s i);
     (s, ob) \<leftarrow> lookupKeyWrite garb db key s;
     let (s, bad) = (case ob of None \<Rightarrow> (s, False) | Some v \<Rightarrow> checkType i v REDIS_STRING s);
     if bad then Some s
     else do {
       (s, r) \<leftarrow> getLongLongFromObjectOrReply i ob None s;
       (case r of None \<Rightarrow> Some s
        | Some oldvalue \<Rightarrow>
            if incr < 0 \<and> oldvalue < 0 \<and> incr < LLONG_MIN - oldvalue \<or> incr > 0 \<and> oldvalue > 0 \<and> incr > LLONG_MAX - oldvalue
            then Some (addReplyError i ''increment or decrement would overflow'' s)
            else do {
              value \<leftarrow> chk64 (oldvalue + incr);
              (s, new) \<leftarrow> (case ob of
                  Some v \<Rightarrow>
                    if rc v = 1 \<and> o_encoding v = REDIS_ENCODING_INT \<and> (value < 0 \<or> value \<ge> REDIS_SHARED_INTEGERS) \<and>
                      value \<ge> LLONG_MIN \<and> value \<le> LLONG_MAX
                    then (let new = v\<lparr>o_ptr := PLong value\<rparr> in Some (store_at db key new s, new))
                    else do { new \<leftarrow> createStringObjectFromLongLong garb value; s \<leftarrow> dbOverwrite db key new s; Some (s, new) }
                | None \<Rightarrow> do { new \<leftarrow> createStringObjectFromLongLong garb value; s \<leftarrow> dbAdd db key new s; Some (s, new) });
              let s = signalModifiedKey db key s;
              s \<leftarrow> notifyKeyspaceEvent garb REDIS_NOTIFY_STRING ''incrby'' key db s;
              let s = incr_dirty 1 s;
              bs \<leftarrow> obj_bytes new;
              Some (addReply i crlf (addReply i bs (addReply i [ch CHR '':''] s))) }) } }"

definition incrCommand :: "(nat \<Rightarrow> byte) \<Rightarrow> (robj \<Rightarrow> nat) \<Rightarrow> nat \<Rightarrow> byte list \<Rightarrow> redisServer \<Rightarrow> redisServer option" where
  "incrCommand garb rc i key s = incrDecrCommand garb rc i key 1 s"

definition decrCommand :: "(nat \<Rightarrow> byte) \<Rightarrow> (robj \<Rightarrow> nat) \<Rightarrow> nat \<Rightarrow> byte list \<Rightarrow> redisServer \<Rightarrow> redisServer option" where
  "decrCommand garb rc i key s = incrDecrCommand garb rc i key (- 1) s"

definition incrbyCommand :: "(nat \<Rightarrow> byte) \<Rightarrow> (robj \<Rightarrow> nat) \<Rightarrow> nat \<Rightarrow> byte list \<Rightarrow> robj \<Rightarrow> redisServer \<Rightarrow> redisServer option" where
  "incrbyCommand garb rc i key arg s = do {
     (s, r) \<leftarrow> getLongLongFromObjectOrReply i (Some arg) None s;
     (case r of None \<Rightarrow> Some s | Some incr \<Rightarrow> incrDecrCommand garb rc i key incr s) }"

definition decrbyCommand :: "(nat \<Rightarrow> byte) \<Rightarrow> (robj \<Rightarrow> nat) \<Rightarrow> nat \<Rightarrow> byte list \<Rightarrow> robj \<Rightarrow> redisServer \<Rightarrow> redisServer option" where
  "decrbyCommand garb rc i key arg s = do {
     (s, r) \<leftarrow> getLongLongFromObjectOrReply i (Some arg) None s;
     (case r of None \<Rightarrow> Some s | Some incr \<Rightarrow> do { neg \<leftarrow> chk64 (- incr); incrDecrCommand garb rc i key neg s }) }"

definition appendCommand :: "(nat \<Rightarrow> byte) \<Rightarrow> (robj \<Rightarrow> nat) \<Rightarrow> nat \<Rightarrow> byte list \<Rightarrow> robj \<Rightarrow> redisServer \<Rightarrow> redisServer option" where
  "appendCommand garb rc i key arg s = do {
     let db = c_db (sv_clients s i);
     (s, found) \<leftarrow> lookupKeyWrite garb db key s;
     r \<leftarrow> (case found of
         None \<Rightarrow> do {
           val \<leftarrow> tryObjectEncoding garb (rc arg) arg;
           s \<leftarrow> dbAdd db key val s;
           totlen \<leftarrow> stringObjectLen garb val;
           Some (s, Some totlen) }
       | Some ob \<Rightarrow>
           let (s, bad) = checkType i ob REDIS_STRING s in
           if bad then Some (s, None)
           else do {
             olen \<leftarrow> stringObjectLen garb ob;
             a \<leftarrow> ptr_sds (o_ptr arg);
             let (s, ok) = checkStringLength i (olen + sdslen a) s;
             if \<not> ok then Some (s, None)
             else do {
               (s, ob) \<leftarrow> dbUnshareStringValue garb (rc ob) db key ob s;
               p \<leftarrow> ptr_sds (o_ptr ob);
               p \<leftarrow> sdscatlen garb p (s_buf a) (sdslen a);
               Some (store_at db key (ob\<lparr>o_ptr := PSds p\<rparr>) s, Some (sdslen p)) } });
     (case r of (s, None) \<Rightarrow> Some s
      | (s, Some totlen) \<Rightarrow> do {
          let s = signalModifiedKey db key s;
          s \<leftarrow> notifyKeyspaceEvent garb REDIS_NOTIFY_STRING ''append'' key db s;
          Some (addReplyLongLong i (int totlen) (incr_dirty 1 s)) }) }"

definition strlenCommand :: "(nat \<Rightarrow> byte) \<Rightarrow> nat \<Rightarrow> byte list \<Rightarrow> redisServer \<Rightarrow> redisServer option" where
  "strlenCommand garb i key s = do {
     (s, found) \<leftarrow> lookupKeyReadOrReply garb i key shared_czero s;
     (case found of None \<Rightarrow> Some s
      | Some ob \<Rightarrow>
          let (s, bad) = checkType i ob REDIS_STRING s in
          if bad then Some s else do { n \<leftarrow> stringObjectLen garb ob; Some (addReplyLongLong i (int n) s) }) }"

end
