(* ===== verification/T_string_Spec.thy ===== *)
theory T_string_Spec
  imports T_string Outcome
begin

text \<open>
  What the string commands do to the abstract keyspace and what they reply.
\<close>

section \<open>GET\<close>

definition get_reply :: "seen \<Rightarrow> byte list" where
  "get_reply x = (case x of Missing \<Rightarrow> shared_nullbulk | WrongType \<Rightarrow> shared_wrongtypeerr | Str v \<Rightarrow> bulk v)"

lemma getGenericCommand_correct:
  assumes inv: "server_inv s" and key: "length key \<le> STRING_MAX"
  shows "\<exists>s'. getGenericCommand garb i key s = Some (s', seen s i key \<noteq> WrongType) \<and>
    result s i (view s) {} (get_reply (seen s i key)) s'"
proof -
  let ?db = "c_db (sv_clients s i)"
  obtain s1 ob where s1: "lookupKeyRead garb ?db key s = Some (s1, ob)" "effect s (view s) {} s1" "found s1 ?db key ob"
    using lookupKeyRead_correct [OF inv key server_inv_db [OF inv]] by blast
  have db: "?db = c_db (sv_clients s1 i)" using c_db_keeps [OF effect_keeps [OF s1(2)]] by simp
  have sn: "seen s1 i key = seen s i key" by (rule seen_eq [OF effect_view [OF s1(2)] effect_keeps [OF s1(2)]])
  note rep = result_reply [OF s1(2), of i]
  from s1(3) db show ?thesis
  proof (cases rule: found_cases)
    case 1
    then show ?thesis using s1(1) rep sn by (auto simp: getGenericCommand_def lookupKeyReadOrReply_def get_reply_def)
  next
    case (2 x)
    then show ?thesis using s1(1) rep sn
      by (auto simp: getGenericCommand_def lookupKeyReadOrReply_def get_reply_def addReplyBulk_correct)
  next
    case (3 x)
    then show ?thesis using s1(1) rep sn by (auto simp: getGenericCommand_def lookupKeyReadOrReply_def get_reply_def)
  qed
qed

theorem getCommand_correct:
  assumes "server_inv s" "length key \<le> STRING_MAX"
  shows "\<exists>s'. getCommand garb i key s = Some s' \<and> result s i (view s) {} (get_reply (seen s i key)) s'"
  using getGenericCommand_correct [OF assms, of garb i] by (auto simp: getCommand_def)

section \<open>SET\<close>

text \<open>The expire time that the arguments ask for: a bad argument, no time, or a time in milliseconds.\<close>

definition unit_ms :: "time_unit \<Rightarrow> int \<Rightarrow> int" where
  "unit_ms u n = (if u = UNIT_SECONDS then n * 1000 else n)"

definition good_expire :: "redisServer \<Rightarrow> robj option \<Rightarrow> time_unit \<Rightarrow> int option \<Rightarrow> bool" where
  "good_expire s expire u w \<longleftrightarrow> (case expire of None \<Rightarrow> w = None
     | Some e \<Rightarrow> string_wf e \<and> (\<exists>n. parse_number (cstring (str_val e)) = Some n \<and> 0 < n \<and> int64_range (unit_ms u n) \<and>
         int64_range (sv_now s + unit_ms u n) \<and> w = Some (sv_now s + unit_ms u n)))"

lemma set_expire_arg_good:
  assumes "good_expire s expire u w"
  shows "\<exists>ms. set_expire_arg i name expire u s = Some (s, Some ms) \<and> (expire = None \<and> w = None \<or> expire \<noteq> None \<and> w = Some (sv_now s + ms) \<and> 0 < ms \<and> int64_range (sv_now s + ms))"
proof (cases expire)
  case None
  then show ?thesis using assms by (simp add: set_expire_arg_def good_expire_def)
next
  case (Some e)
  then obtain n where n: "parse_number (cstring (str_val e)) = Some n" "0 < n" "int64_range (unit_ms u n)"
    "int64_range (sv_now s + unit_ms u n)" "w = Some (sv_now s + unit_ms u n)" "string_wf e"
    using assms by (auto simp: good_expire_def)
  have "0 < unit_ms u n" using n(2) by (simp add: unit_ms_def)
  then show ?thesis using Some n
    by (auto simp: set_expire_arg_def getLongLongFromObjectOrReply_def getLongLongFromObject_correct chk64_def unit_ms_def)
qed

text \<open>An expire time that is not a number, or not positive, is reported and nothing changes.\<close>

lemma set_expire_arg_bad:
  assumes "string_wf e" "parse_number (cstring (str_val e)) = None \<or> (\<exists>n \<le> 0. parse_number (cstring (str_val e)) = Some n)"
  shows "\<exists>msg. set_expire_arg i name (Some e) u s = Some (addReplyError i msg s, None)"
  using assms by (auto simp: set_expire_arg_def getLongLongFromObjectOrReply_def getLongLongFromObject_correct)

lemma future_not_past: "server_inv s \<Longrightarrow> 0 < ms \<Longrightarrow> \<not> past s (Some (sv_now s + ms))"
  by (simp add: past_def server_inv_def)

text \<open>The two lookups that decide about NX and XX.\<close>

definition set_aborts :: "32 word \<Rightarrow> bool \<Rightarrow> bool" where
  "set_aborts flags present \<longleftrightarrow> flags AND REDIS_SET_NX \<noteq> 0 \<and> present \<or> flags AND REDIS_SET_XX \<noteq> 0 \<and> \<not> present"

lemma found_present: "found s db key ob \<Longrightarrow> view s db key \<noteq> None \<longleftrightarrow> ob \<noteq> None"
  by (auto simp: found_def)

lemma set_lookups:
  assumes inv: "server_inv s" and key: "length key \<le> STRING_MAX" "db < 2 ^ 31"
  shows "\<exists>s'. (do { (s, busy) \<leftarrow> (if flags AND REDIS_SET_NX \<noteq> 0 then do { (s, ob) \<leftarrow> lookupKeyWrite garb db key s; Some (s, ob \<noteq> None) }
        else Some (s, False));
      (if busy then Some (s, True)
       else if flags AND REDIS_SET_XX \<noteq> 0 then do { (s, ob) \<leftarrow> lookupKeyWrite garb db key s; Some (s, ob = None) }
       else Some (s, False)) }) = Some (s', set_aborts flags (view s db key \<noteq> None)) \<and> effect s (view s) {} s'"
proof -
  obtain s1 busy where s1: "(if flags AND REDIS_SET_NX \<noteq> 0 then do { (s, ob) \<leftarrow> lookupKeyWrite garb db key s; Some (s, ob \<noteq> None) }
      else Some (s, False)) = Some (s1, busy)" "effect s (view s) {} s1" "busy \<longleftrightarrow> flags AND REDIS_SET_NX \<noteq> 0 \<and> view s db key \<noteq> None"
  proof (cases "flags AND REDIS_SET_NX = 0")
    case True
    then show ?thesis using that effect_refl [OF inv] by auto
  next
    case False
    obtain a ob where a: "lookupKeyWrite garb db key s = Some (a, ob)" "effect s (view s) {} a" "found a db key ob"
      using lookupKeyWrite_correct [OF inv key] by blast
    then show ?thesis using that [of a "ob \<noteq> None"] False found_present [OF a(3)] effect_view [OF a(2)] by auto
  qed
  obtain s2 where s2: "(if busy then Some (s1, True) else if flags AND REDIS_SET_XX \<noteq> 0
      then do { (s, ob) \<leftarrow> lookupKeyWrite garb db key s1; Some (s, ob = None) } else Some (s1, False)) =
      Some (s2, set_aborts flags (view s db key \<noteq> None))" "effect s1 (view s1) {} s2"
  proof (cases "busy \<or> flags AND REDIS_SET_XX = 0")
    case True
    then have "set_aborts flags (view s db key \<noteq> None) = busy" using s1(3) by (auto simp: set_aborts_def)
    then show ?thesis using that [of s1] effect_refl [OF effect_inv [OF s1(2)]] True by (cases busy) simp_all
  next
    case False
    obtain a ob where a: "lookupKeyWrite garb db key s1 = Some (a, ob)" "effect s1 (view s1) {} a" "found a db key ob"
      using lookupKeyWrite_correct [OF effect_inv [OF s1(2)] key] by blast
    then show ?thesis using that [of a] False found_present [OF a(3)] effect_view [OF a(2)] effect_view [OF s1(2)] s1(3)
      by (auto simp: set_aborts_def)
  qed
  show ?thesis using s1(1) s2(1) effect_trans_same [OF s1(2) s2(2)] by auto
qed

text \<open>The writes of SET once it goes ahead.\<close>

definition set_write :: "(nat \<Rightarrow> byte) \<Rightarrow> nat \<Rightarrow> byte list \<Rightarrow> robj \<Rightarrow> int option \<Rightarrow> redisServer \<Rightarrow> redisServer option" where
  "set_write garb db key val ms s = do {
     s \<leftarrow> setKey garb db key val s;
     let s = incr_dirty 1 s;
     s \<leftarrow> (case ms of Some ms \<Rightarrow> do { w \<leftarrow> chk64 (sv_now s + ms); setExpire db key w s } | None \<Rightarrow> Some s);
     s \<leftarrow> notifyKeyspaceEvent garb REDIS_NOTIFY_STRING ''set'' key db s;
     (if ms \<noteq> None then notifyKeyspaceEvent garb REDIS_NOTIFY_GENERIC ''expire'' key db s else Some s) }"

lemma set_write_correct:
  assumes inv: "server_inv s" and key: "length key \<le> STRING_MAX" "db < 2 ^ 31" and val: "obj_wf val"
    and ms: "\<And>n. ms = Some n \<Longrightarrow> 0 < n \<and> int64_range (sv_now s + n)"
  shows "\<exists>s'. set_write garb db key val ms s = Some s' \<and>
    effect s (vput db key (Some (content val, map_option (\<lambda>n. sv_now s + n) ms)) (view s)) {(key, db)} s'"
proof -
  obtain s1 where s1: "setKey garb db key val s = Some s1" "effect s (vput db key (Some (content val, None)) (view s)) {(key, db)} s1"
    "lookupKey db key s1 = Some val"
    using setKey_correct [OF inv key val] by blast
  define s2 where "s2 = incr_dirty 1 s1"
  have e2: "effect s (vput db key (Some (content val, None)) (view s)) {(key, db)} s2"
    unfolding s2_def by (rule effect_trans_same [OF s1(2) effect_counters(4) [OF effect_inv [OF s1(2)]]])
  have l2: "lookupKey db key s2 = Some val" using s1(3) by (simp add: s2_def incr_dirty_def lookupKey_def)
  have now: "sv_now s2 = sv_now s" using effect_keeps [OF e2] by (simp add: keeps_def)
  obtain s3 where s3: "(case ms of Some ms \<Rightarrow> do { w \<leftarrow> chk64 (sv_now s2 + ms); setExpire db key w s2 } | None \<Rightarrow> Some s2) = Some s3"
    "effect s (vput db key (Some (content val, map_option (\<lambda>n. sv_now s + n) ms)) (view s)) {(key, db)} s3"
  proof (cases ms)
    case None
    then show ?thesis using that e2 by simp
  next
    case (Some n)
    note n = ms [OF Some]
    obtain a where a: "setExpire db key (sv_now s + n) s2 = Some a"
      "effect s2 (vput db key (if past s2 (Some (sv_now s + n)) then None else Some (content val, Some (sv_now s + n))) (view s2)) {} a"
      using setExpire_correct [OF effect_inv [OF e2] l2] by blast
    have "\<not> past s2 (Some (sv_now s + n))" using future_not_past [OF effect_inv [OF e2], of n] n now by simp
    then have "effect s (vput db key (Some (content val, Some (sv_now s + n))) (view s)) ({(key, db)} \<union> {}) a"
      using effect_trans [OF e2 a(2)] effect_view [OF e2] by simp
    then show ?thesis using that [of a] a(1) Some n now by (simp add: chk64_def)
  qed
  note ev = key(1) _ key(2)
  obtain s4 where s4: "notifyKeyspaceEvent garb REDIS_NOTIFY_STRING ''set'' key db s3 = Some s4" "effect s3 (view s3) {} s4"
    using effect_notify [OF effect_inv [OF s3(2)] key(1) _ key(2), of "''set''"] by (auto simp: STRING_MAX_def)
  obtain s5 where s5: "(if ms \<noteq> None then notifyKeyspaceEvent garb REDIS_NOTIFY_GENERIC ''expire'' key db s4 else Some s4) = Some s5"
    "effect s4 (view s4) {} s5"
    using effect_notify [OF effect_inv [OF s4(2)] key(1) _ key(2), of "''expire''" garb REDIS_NOTIFY_GENERIC] effect_refl [OF effect_inv [OF s4(2)]]
    by (cases ms) (auto simp: STRING_MAX_def)
  have "effect s (vput db key (Some (content val, map_option (\<lambda>n. sv_now s + n) ms)) (view s)) {(key, db)} s5"
    by (rule effect_trans_same [OF effect_trans_same [OF s3(2) s4(2)] s5(2)])
  then show ?thesis using s1(1) s3(1) s4(1) s5(1) by (auto simp: set_write_def s2_def Let_def cong: option.case_cong)
qed

text \<open>SET as an abstract operation: it is refused by NX and XX, or it replaces content and expire time.\<close>

definition set_outcome :: "redisServer \<Rightarrow> nat \<Rightarrow> 32 word \<Rightarrow> byte list \<Rightarrow> content \<Rightarrow> int option \<Rightarrow> byte list \<Rightarrow> byte list \<Rightarrow> redisServer \<Rightarrow> bool" where
  "set_outcome s i flags key c w ok_r abort_r s' =
     (let db = c_db (sv_clients s i) in
      if set_aborts flags (view s db key \<noteq> None) then result s i (view s) {} abort_r s'
      else result s i (vput db key (Some (c, w)) (view s)) {(key, db)} ok_r s')"

text \<open>The course of SET once the expire time is known.\<close>

lemma setGeneric_run:
  assumes inv: "server_inv s" and key: "length key \<le> STRING_MAX" and ms: "set_expire_arg i name expire u s = Some (s, Some ms)"
    and db: "db = c_db (sv_clients s i)"
  shows "\<exists>s1. effect s (view s) {} s1 \<and> setGenericCommand garb name i flags key val expire u ok_r abort_r s =
     (if set_aborts flags (view s db key \<noteq> None) then Some (addReply i (case abort_r of Some r \<Rightarrow> r | None \<Rightarrow> shared_nullbulk) s1)
      else do { s \<leftarrow> set_write garb db key val (if expire = None then None else Some ms) s1;
        Some (addReply i (case ok_r of Some r \<Rightarrow> r | None \<Rightarrow> shared_ok) s) })"
proof -
  obtain s1 where s1: "(do { (s, busy) \<leftarrow> (if flags AND REDIS_SET_NX \<noteq> 0 then do { (s, ob) \<leftarrow> lookupKeyWrite garb db key s; Some (s, ob \<noteq> None) }
        else Some (s, False));
      (if busy then Some (s, True)
       else if flags AND REDIS_SET_XX \<noteq> 0 then do { (s, ob) \<leftarrow> lookupKeyWrite garb db key s; Some (s, ob = None) }
       else Some (s, False)) }) = Some (s1, set_aborts flags (view s db key \<noteq> None))" "effect s (view s) {} s1"
    using set_lookups [OF inv key server_inv_db [OF inv, of i, folded db]] by blast
  have "setGenericCommand garb name i flags key val expire u ok_r abort_r s =
      (do { (s, abort) \<leftarrow> do { (s, busy) \<leftarrow> (if flags AND REDIS_SET_NX \<noteq> 0 then do { (s, ob) \<leftarrow> lookupKeyWrite garb db key s; Some (s, ob \<noteq> None) }
           else Some (s, False));
         (if busy then Some (s, True)
          else if flags AND REDIS_SET_XX \<noteq> 0 then do { (s, ob) \<leftarrow> lookupKeyWrite garb db key s; Some (s, ob = None) }
          else Some (s, False)) };
        if abort then Some (addReply i (case abort_r of Some r \<Rightarrow> r | None \<Rightarrow> shared_nullbulk) s)
        else do { s \<leftarrow> set_write garb db key val (if expire = None then None else Some ms) s;
          Some (addReply i (case ok_r of Some r \<Rightarrow> r | None \<Rightarrow> shared_ok) s) } })"
    unfolding setGenericCommand_def Let_def db [symmetric] ms set_write_def
    by (simp add: case_prod_unfold cong: if_cong)
  then show ?thesis unfolding s1(1) using s1(2) by auto
qed

lemma setGenericCommand_correct:
  assumes inv: "server_inv s" and key: "length key \<le> STRING_MAX" and val: "obj_wf val" and expire: "good_expire s expire u w"
  shows "\<exists>s'. setGenericCommand garb name i flags key val expire u ok_r abort_r s = Some s' \<and>
    set_outcome s i flags key (content val) w (case ok_r of Some r \<Rightarrow> r | None \<Rightarrow> shared_ok)
      (case abort_r of Some r \<Rightarrow> r | None \<Rightarrow> shared_nullbulk) s'"
proof -
  define db where "db = c_db (sv_clients s i)"
  note dbl = server_inv_db [OF inv, of i, folded db_def]
  obtain ms where ms: "set_expire_arg i name expire u s = Some (s, Some ms)"
    "expire = None \<and> w = None \<or> expire \<noteq> None \<and> w = Some (sv_now s + ms) \<and> 0 < ms \<and> int64_range (sv_now s + ms)"
    using set_expire_arg_good [OF expire] by blast
  define m where "m = (if expire = None then None else Some ms)"
  obtain s1 where s1: "effect s (view s) {} s1" and run: "setGenericCommand garb name i flags key val expire u ok_r abort_r s =
     (if set_aborts flags (view s db key \<noteq> None) then Some (addReply i (case abort_r of Some r \<Rightarrow> r | None \<Rightarrow> shared_nullbulk) s1)
      else do { s \<leftarrow> set_write garb db key val m s1; Some (addReply i (case ok_r of Some r \<Rightarrow> r | None \<Rightarrow> shared_ok) s) })"
    using setGeneric_run [OF inv key ms(1) db_def, of garb flags val ok_r abort_r, folded m_def] by blast
  have now: "sv_now s1 = sv_now s" using effect_keeps [OF s1] by (simp add: keeps_def)
  have mw: "map_option (\<lambda>n. sv_now s1 + n) m = w" using ms(2) now by (auto simp: m_def)
  have mok: "\<And>n. m = Some n \<Longrightarrow> 0 < n \<and> int64_range (sv_now s1 + n)" using ms(2) now by (auto simp: m_def split: if_splits)
  obtain s2 where s2: "set_write garb db key val m s1 = Some s2"
    "effect s1 (vput db key (Some (content val, w)) (view s1)) {(key, db)} s2"
    using set_write_correct [OF effect_inv [OF s1] key dbl val mok] mw by auto
  show ?thesis
  proof (cases "set_aborts flags (view s db key \<noteq> None)")
    case True
    then show ?thesis using run result_reply [OF s1, of i] by (simp add: set_outcome_def db_def [symmetric])
  next
    case False
    have "effect s (vput db key (Some (content val, w)) (view s)) {(key, db)} s2"
      using effect_trans [OF s1 s2(2)] effect_view [OF s1] by simp
    from result_reply [OF this, of i] show ?thesis using run False s2(1) by (simp add: set_outcome_def db_def [symmetric])
  qed
qed

lemma setGenericCommand_bad_expire:
  assumes inv: "server_inv s" and "string_wf e" "parse_number (cstring (str_val e)) = None \<or> (\<exists>n \<le> 0. parse_number (cstring (str_val e)) = Some n)"
  shows "\<exists>s' msg. setGenericCommand garb name i flags key val (Some e) u ok_r abort_r s = Some s' \<and>
    result s i (view s) {} (bytes ''-ERR '' @ bytes msg @ crlf) s'"
proof -
  obtain msg where msg: "set_expire_arg i name (Some e) u s = Some (addReplyError i msg s, None)"
    using set_expire_arg_bad [OF assms(2,3)] by blast
  then have "setGenericCommand garb name i flags key val (Some e) u ok_r abort_r s = Some (addReplyError i msg s)"
    by (simp add: setGenericCommand_def)
  then show ?thesis using result_reply [OF effect_refl [OF inv], of i "bytes ''-ERR '' @ bytes msg @ crlf"]
    unfolding addReplyError_def by blast
qed

text \<open>The options of SET are read from left to right, and the last EX or PX counts.\<close>

theorem setCommand_correct:
  assumes inv: "server_inv s" and key: "length key \<le> STRING_MAX" and val: "string_wf val"
    and opts: "set_options opts 0 UNIT_SECONDS None = Some (flags, u, expire)" and expire: "good_expire s expire u w"
  shows "\<exists>s'. setCommand garb rc i key val opts s = Some s' \<and>
    set_outcome s i flags key (CString (str_val val)) w shared_ok shared_nullbulk s'"
proof -
  obtain v where v: "tryObjectEncoding garb (rc val) val = Some v" "string_wf v" "str_val v = str_val val"
    using tryObjectEncoding_correct [OF val] by blast
  show ?thesis using setGenericCommand_correct [OF inv key string_wf_obj(1) [OF v(2)] expire, of garb "''set''" i flags None None] opts v
    by (simp add: setCommand_def string_wf_obj(2) [OF v(2)])
qed

theorem setnxCommand_correct:
  assumes inv: "server_inv s" and key: "length key \<le> STRING_MAX" and val: "string_wf val"
  shows "\<exists>s'. setnxCommand garb rc i key val s = Some s' \<and>
    set_outcome s i REDIS_SET_NX key (CString (str_val val)) None shared_cone shared_czero s'"
proof -
  obtain v where v: "tryObjectEncoding garb (rc val) val = Some v" "string_wf v" "str_val v = str_val val"
    using tryObjectEncoding_correct [OF val] by blast
  have "good_expire s None UNIT_SECONDS None" by (simp add: good_expire_def)
  from setGenericCommand_correct [OF inv key string_wf_obj(1) [OF v(2)] this, of garb "''setnx''" i REDIS_SET_NX "Some shared_cone" "Some shared_czero"]
  show ?thesis using v by (simp add: setnxCommand_def string_wf_obj(2) [OF v(2)])
qed

text \<open>What a client reads after a SET that went through.\<close>

lemma get_after_set:
  assumes "set_outcome s i flags key (CString v) w ok_r abort_r s'" "\<not> set_aborts flags (view s (c_db (sv_clients s i)) key \<noteq> None)"
  shows "seen s' i key = Str v"
  using assms by (auto simp: set_outcome_def Let_def result_def seen_def keeps_def)

section \<open>INCR and its relatives\<close>

text \<open>A value is changed in place, by overwriting the key or by adding it; the expire time stays.\<close>

lemma store_at_correct:
  assumes inv: "server_inv s" and f: "found s db key (Some old)" and "obj_wf val"
  shows "effect s (vput db key (Some (content val, db_expires (sv_dbs s db) key)) (view s)) {} (store_at db key val s)"
  using dbOverwrite_correct [OF assms] f by (auto simp: dbOverwrite_def store_at_def found_def lookupKey_def)

lemma incr_no_overflow:
  assumes "int64_range old" "int64_range incr"
    "\<not> (incr < 0 \<and> old < 0 \<and> incr < LLONG_MIN - old \<or> incr > 0 \<and> old > 0 \<and> incr > LLONG_MAX - old)"
  shows "int64_range (old + incr)"
  using assms by (auto simp: int64_range_def LLONG_MIN_def LLONG_MAX_def)

lemma parse_number_range: "parse_number s = Some v \<Longrightarrow> int64_range v"
  by (auto simp: parse_number_def int64_range_def split: if_splits)

text \<open>The number a key counts as: 0 when it is missing.\<close>

definition incr_old :: "seen \<Rightarrow> int option" where
  "incr_old x = (case x of Missing \<Rightarrow> Some 0 | Str v \<Rightarrow> parse_number (cstring v) | WrongType \<Rightarrow> None)"

definition incr_overflows :: "int \<Rightarrow> int \<Rightarrow> bool" where
  "incr_overflows old incr \<longleftrightarrow> \<not> int64_range (old + incr)"

lemma incr_overflows_iff:
  assumes "int64_range old" "int64_range incr"
  shows "incr_overflows old incr \<longleftrightarrow>
    incr < 0 \<and> old < 0 \<and> incr < LLONG_MIN - old \<or> incr > 0 \<and> old > 0 \<and> incr > LLONG_MAX - old"
  using assms by (auto simp: incr_overflows_def int64_range_def LLONG_MIN_def LLONG_MAX_def)

definition incr_outcome :: "redisServer \<Rightarrow> nat \<Rightarrow> byte list \<Rightarrow> int \<Rightarrow> redisServer \<Rightarrow> bool" where
  "incr_outcome s i key incr s' =
     (let db = c_db (sv_clients s i) in
      if seen s i key = WrongType then result s i (view s) {} shared_wrongtypeerr s'
      else (case incr_old (seen s i key) of
         None \<Rightarrow> result s i (view s) {} (bytes ''-ERR '' @ bytes ''value is not an integer or out of range'' @ crlf) s'
       | Some old \<Rightarrow>
           if incr_overflows old incr
           then result s i (view s) {} (bytes ''-ERR '' @ bytes ''increment or decrement would overflow'' @ crlf) s'
           else result s i (vput db key (Some (CString (sdec (old + incr)), (case view s db key of None \<Rightarrow> None | Some (c, e) \<Rightarrow> e))) (view s))
             {(key, db)} (number_reply (old + incr)) s'))"

lemma incr_new:
  assumes inv: "server_inv s" and f: "found s db key ob" and ok: "ob = None \<or> (\<exists>x. ob = Some x \<and> string_wf x)" and v: "int64_range value"
  shows "\<exists>s' new. (case ob of
      Some v \<Rightarrow>
        if rc v = 1 \<and> o_encoding v = REDIS_ENCODING_INT \<and> (value < 0 \<or> value \<ge> REDIS_SHARED_INTEGERS) \<and> value \<ge> LLONG_MIN \<and> value \<le> LLONG_MAX
        then (let new = v\<lparr>o_ptr := PLong value\<rparr> in Some (store_at db key new s, new))
        else do { new \<leftarrow> createStringObjectFromLongLong garb value; s \<leftarrow> dbOverwrite db key new s; Some (s, new) }
    | None \<Rightarrow> do { new \<leftarrow> createStringObjectFromLongLong garb value; s \<leftarrow> dbAdd db key new s; Some (s, new) }) = Some (s', new) \<and>
    string_wf new \<and> str_val new = sdec value \<and>
    effect s (vput db key (Some (CString (sdec value), (case view s db key of None \<Rightarrow> None | Some (c, e) \<Rightarrow> e))) (view s)) {} s'"
proof -
  obtain new where new: "createStringObjectFromLongLong garb value = Some new" "string_wf new" "str_val new = sdec value"
    using createStringObjectFromLongLong_correct [OF v] by blast
  note nw = string_wf_obj [OF new(2)]
  show ?thesis
  proof (cases ob)
    case None
    obtain s' where "dbAdd db key new s = Some s'" "effect s (vput db key (Some (content new, None)) (view s)) {} s'"
      using dbAdd_correct [OF inv _ nw(1)] f None by blast
    moreover have "view s db key = None" using f None by (simp add: found_def)
    ultimately show ?thesis using new None nw(2) by simp
  next
    case (Some x)
    have view: "view s db key = Some (content x, db_expires (sv_dbs s db) key)" using f Some by (simp add: found_def)
    show ?thesis
    proof (cases "rc x = 1 \<and> o_encoding x = REDIS_ENCODING_INT \<and> (value < 0 \<or> value \<ge> REDIS_SHARED_INTEGERS) \<and> value \<ge> LLONG_MIN \<and> value \<le> LLONG_MAX")
      case True
      have "o_type x = REDIS_STRING" using ok Some by (auto simp: string_wf_def)
      then have x: "x\<lparr>o_ptr := PLong value\<rparr> = \<lparr>o_type = REDIS_STRING, o_encoding = REDIS_ENCODING_INT, o_ptr = PLong value\<rparr>"
        using True by (cases x) simp
      have "string_wf (x\<lparr>o_ptr := PLong value\<rparr>)" "str_val (x\<lparr>o_ptr := PLong value\<rparr>) = sdec value"
        unfolding x using string_wf_long [OF v] by simp_all
      then show ?thesis using True Some view store_at_correct [OF inv f [unfolded Some], of "x\<lparr>o_ptr := PLong value\<rparr>"] string_wf_obj [of "x\<lparr>o_ptr := PLong value\<rparr>"]
        by (simp add: Let_def)
    next
      case False
      obtain s' where "dbOverwrite db key new s = Some s'" "effect s (vput db key (Some (content new, db_expires (sv_dbs s db) key)) (view s)) {} s'"
        using dbOverwrite_correct [OF inv _ nw(1)] f Some by blast
      then show ?thesis using new Some False nw(2) view by (simp only: option.case if_False bind.bind_lunit) simp
    qed
  qed
qed

theorem incrDecrCommand_correct:
  assumes inv: "server_inv s" and key: "length key \<le> STRING_MAX" and incr: "int64_range incr"
  shows "\<exists>s'. incrDecrCommand garb rc i key incr s = Some s' \<and> incr_outcome s i key incr s'"
proof -
  define db where "db = c_db (sv_clients s i)"
  note dbl = server_inv_db [OF inv, of i, folded db_def]
  obtain s1 ob where s1: "lookupKeyWrite garb db key s = Some (s1, ob)" "effect s (view s) {} s1" "found s1 db key ob"
    using lookupKeyWrite_correct [OF inv key dbl] by blast
  have db1: "db = c_db (sv_clients s1 i)" using c_db_keeps [OF effect_keeps [OF s1(2)]] by (simp add: db_def)
  have sn: "seen s1 i key = seen s i key" by (rule seen_eq [OF effect_view [OF s1(2)] effect_keeps [OF s1(2)]])
  note rep = result_reply [OF s1(2), of i]
  show ?thesis
  proof (cases "seen s i key = WrongType")
    case True
    then obtain x where "ob = Some x" "o_type x \<noteq> REDIS_STRING"
      using found_cases [OF s1(3) db1] sn by (metis seen.distinct(1) seen.distinct(5))
    then show ?thesis using s1(1) rep True
      by (auto simp: incrDecrCommand_def Let_def db_def [symmetric] checkType_def incr_outcome_def)
  next
    case str: False
    have all: "(ob = None \<or> (\<exists>x. ob = Some x \<and> string_wf x)) \<and> getLongLongFromObject ob = Some (incr_old (seen s i key)) \<and>
        (\<forall>x. ob = Some x \<longrightarrow> o_type x = REDIS_STRING)"
    proof (rule found_cases [OF s1(3) db1], goal_cases)
      case 1
      then show ?case using sn by (simp add: incr_old_def getLongLongFromObject_def)
    next
      case (2 x)
      then show ?case using sn getLongLongFromObject_correct [of x] by (simp add: incr_old_def)
    next
      case (3 x)
      then show ?case using sn str by simp
    qed
    then have ok: "ob = None \<or> (\<exists>x. ob = Some x \<and> string_wf x)" and
      old: "getLongLongFromObject ob = Some (incr_old (seen s i key))" and ty: "\<And>x. ob = Some x \<Longrightarrow> o_type x = REDIS_STRING"
      by simp_all
    have chk: "(case ob of None \<Rightarrow> (s1, False) | Some v \<Rightarrow> checkType i v REDIS_STRING s1) = (s1, False)"
      using ty by (auto simp: checkType_def split: option.split)
    show ?thesis
    proof (cases "incr_old (seen s i key)")
      case None
      then show ?thesis using s1(1) rep str old chk
        by (auto simp: incrDecrCommand_def Let_def db_def [symmetric] incr_outcome_def getLongLongFromObjectOrReply_def addReplyError_def)
    next
      case (Some n)
      have n: "int64_range n" using Some by (auto simp: incr_old_def int64_range_def dest!: parse_number_range split: seen.splits)
      note iff = incr_overflows_iff [OF n incr]
      show ?thesis
      proof (cases "incr_overflows n incr")
        case True
        then show ?thesis using s1(1) rep str old chk Some iff
          by (auto simp: incrDecrCommand_def Let_def db_def [symmetric] incr_outcome_def getLongLongFromObjectOrReply_def addReplyError_def)
      next
        case False
        have v: "int64_range (n + incr)" using False by (simp add: incr_overflows_def)
        obtain s2 new where s2: "(case ob of
            Some v \<Rightarrow>
              if rc v = 1 \<and> o_encoding v = REDIS_ENCODING_INT \<and> (n + incr < 0 \<or> n + incr \<ge> REDIS_SHARED_INTEGERS) \<and> n + incr \<ge> LLONG_MIN \<and> n + incr \<le> LLONG_MAX
              then (let new = v\<lparr>o_ptr := PLong (n + incr)\<rparr> in Some (store_at db key new s1, new))
              else do { new \<leftarrow> createStringObjectFromLongLong garb (n + incr); s \<leftarrow> dbOverwrite db key new s1; Some (s, new) }
          | None \<Rightarrow> do { new \<leftarrow> createStringObjectFromLongLong garb (n + incr); s \<leftarrow> dbAdd db key new s1; Some (s, new) }) = Some (s2, new)"
          "string_wf new" "str_val new = sdec (n + incr)"
          "effect s1 (vput db key (Some (CString (sdec (n + incr)), (case view s1 db key of None \<Rightarrow> None | Some (c, e) \<Rightarrow> e))) (view s1)) {} s2"
          using incr_new [OF effect_inv [OF s1(2)] s1(3) ok v] by blast
        have e2: "effect s (vput db key (Some (CString (sdec (n + incr)), (case view s db key of None \<Rightarrow> None | Some (c, e) \<Rightarrow> e))) (view s)) {} s2"
          using effect_trans [OF s1(2) s2(4)] effect_view [OF s1(2)] by simp
        obtain s3 where s3: "notifyKeyspaceEvent garb REDIS_NOTIFY_STRING ''incrby'' key db (signalModifiedKey db key s2) = Some s3"
          "effect s (vput db key (Some (CString (sdec (n + incr)), (case view s db key of None \<Rightarrow> None | Some (c, e) \<Rightarrow> e))) (view s)) {(key, db)} (incr_dirty 1 s3)"
          using finish_write [OF e2 key _ dbl, of "''incrby''" garb REDIS_NOTIFY_STRING] by (auto simp: STRING_MAX_def)
        have guards: "\<not> (incr < 0 \<and> n < 0 \<and> incr < LLONG_MIN - n)" "\<not> (0 < incr \<and> 0 < n \<and> LLONG_MAX - n < incr)"
          using iff False by auto
        have run: "incrDecrCommand garb rc i key incr s = Some (addReply i (number_reply (n + incr)) (incr_dirty 1 s3))"
          unfolding incrDecrCommand_def Let_def db_def [symmetric] s1(1)
          using chk old Some v s2(1) [unfolded Let_def] s3(1) obj_bytes_correct [OF s2(2)] s2(3)
          by (simp add: getLongLongFromObjectOrReply_def chk64_def) (use guards in blast)
        show ?thesis using run result_reply [OF s3(2), of i "number_reply (n + incr)"] str Some False
          by (simp add: incr_outcome_def db_def [symmetric])
      qed
    qed
  qed
qed

end
