(* ===== verification/T_string_More.thy ===== *)
theory T_string_More
  imports T_string_Spec
begin

text \<open>
  The string commands that work on parts of a string or on several keys: APPEND, STRLEN, GETRANGE,
  SETRANGE, MSET and MSETNX. The 512MB limit of the commands keeps every string within the range where
  the 32-bit counters of sds do not wrap; SETRANGE computes the size it checks with an overflow.
\<close>

section \<open>Changing a string in place\<close>

lemma found_overwrite:
  assumes e: "effect s v t s'" and l: "lookupKey db key s' = Some ob" and x: "db_expires (sv_dbs s' db) key = db_expires (sv_dbs s db) key"
    and np: "\<not> past s (db_expires (sv_dbs s db) key)"
  shows "found s' db key (Some ob)"
  using found_lookup [OF effect_inv [OF e], of db key] l x np past_keeps [OF effect_keeps [OF e]] by simp

lemma dbUnshareStringValue_correct:
  assumes inv: "server_inv s" and f: "found s db key (Some ob)" and wf: "string_wf ob"
  shows "\<exists>s' ob' p. dbUnshareStringValue garb refs db key ob s = Some (s', ob') \<and> effect s (view s) {} s' \<and> found s' db key (Some ob') \<and>
    ob' = createObject REDIS_STRING (PSds p) \<and> sds_inv p \<and> s_len p \<le> STRING_MAX \<and> sds_str p = str_val ob"
proof (cases "refs \<noteq> 1 \<or> o_encoding ob \<noteq> REDIS_ENCODING_RAW")
  case True
  obtain d where d: "getDecodedObject garb ob = Some d" "string_wf d" "sdsEncodedObject d" "str_val d = str_val ob"
    using getDecodedObject_correct [OF wf] by blast
  obtain q where q: "o_ptr d = PSds q" "sds_inv q" "s_len q \<le> STRING_MAX" "sds_str q = str_val ob"
    using d by (elim string_wf_cases) (auto simp: sdsEncodedObject_def)
  have "sdslen q \<le> length (s_buf q)" "sdslen q \<le> STRING_MAX" using q by (simp_all add: sdslen_def sds_inv_def)
  from createRawStringObject_correct [OF this, of garb] obtain n p where n: "createRawStringObject garb (Some (s_buf q)) (sdslen q) = Some n"
    "string_wf n" "str_val n = str_val ob" "o_ptr n = PSds p" "o_encoding n = REDIS_ENCODING_RAW"
    using q(4) by (auto simp: sds_str_def sdslen_def)
  have np: "n = createObject REDIS_STRING (PSds p)" "sds_inv p" "s_len p \<le> STRING_MAX" "sds_str p = str_val ob"
    using n by (auto simp: createObject_def string_wf_def str_val.simps)
  obtain s' where s': "dbOverwrite db key n s = Some s'" "effect s (vput db key (Some (content n, db_expires (sv_dbs s db) key)) (view s)) {} s'"
    "lookupKey db key s' = Some n" "db_expires (sv_dbs s' db) = db_expires (sv_dbs s db)"
    using dbOverwrite_correct [OF inv f string_wf_obj(1) [OF n(2)]] by blast
  have "view s db key = Some (content n, db_expires (sv_dbs s db) key)"
    using f string_wf_obj(2) [OF wf] string_wf_obj(2) [OF n(2)] n(3) by (simp add: found_def)
  then have "effect s (view s) {} s'" using s'(2) by (simp add: vput_same)
  moreover have "found s' db key (Some n)"
    by (rule found_overwrite [OF s'(2,3)]) (use s'(4) f in \<open>simp_all add: found_def\<close>)
  ultimately show ?thesis using True d(1) q(1) n(1) s'(1) np wf by (auto simp: dbUnshareStringValue_def string_wf_def)
next
  case False
  then obtain p where p: "o_ptr ob = PSds p" "sds_inv p" "s_len p \<le> STRING_MAX" "sds_str p = str_val ob" "o_type ob = REDIS_STRING"
    using wf by (elim string_wf_cases) auto
  have "ob = createObject REDIS_STRING (PSds p)" using p False by (cases ob) (simp add: createObject_def)
  then show ?thesis using False p f effect_refl [OF inv] by (auto simp: dbUnshareStringValue_def)
qed

text \<open>Storing a new string in the object at a key keeps the expire time.\<close>

lemma store_string:
  assumes inv: "server_inv s" and f: "found s db key (Some ob)" and p: "sds_inv p" "s_len p \<le> STRING_MAX"
  shows "effect s (vput db key (Some (CString (sds_str p), db_expires (sv_dbs s db) key)) (view s)) {}
    (store_at db key (createObject REDIS_STRING (PSds p)) s)"
proof -
  note w = string_wf_sds(1,2) [OF p]
  show ?thesis using store_at_correct [OF inv f string_wf_obj(1) [OF w(1)]] string_wf_obj(2) [OF w(1)] w(2) by simp
qed

lemma checkStringLength_ok:
  assumes "n < 2 ^ 63"
  shows "checkStringLength i n s = (if n > STRING_MAX then (addReplyError i ''string exceeds maximum allowed size (512MB)'' s, False) else (s, True))"
proof -
  have "s64 (int n) = int n" using assms by (simp add: s64_def signed_take_bit_int_eq_self)
  then show ?thesis using assms by (simp add: checkStringLength_def STRING_MAX_def)
qed

text \<open>The expire time that a key of the abstract keyspace has.\<close>

definition expiry :: "keyspace \<Rightarrow> nat \<Rightarrow> byte list \<Rightarrow> int option" where
  "expiry v db key = (case v db key of None \<Rightarrow> None | Some (c, e) \<Rightarrow> e)"

abbreviation too_long :: "byte list" where
  "too_long \<equiv> bytes ''-ERR '' @ bytes ''string exceeds maximum allowed size (512MB)'' @ crlf"

section \<open>APPEND\<close>

definition append_outcome :: "redisServer \<Rightarrow> nat \<Rightarrow> byte list \<Rightarrow> byte list \<Rightarrow> redisServer \<Rightarrow> bool" where
  "append_outcome s i key a s' =
     (let db = c_db (sv_clients s i);
          old = (case seen s i key of Str v \<Rightarrow> v | _ \<Rightarrow> []) in
      if seen s i key = WrongType then result s i (view s) {} shared_wrongtypeerr s'
      else if length old + length a > STRING_MAX then result s i (view s) {} too_long s'
      else result s i (vput db key (Some (CString (old @ a), expiry (view s) db key)) (view s)) {(key, db)}
        (number_reply (int (length (old @ a)))) s')"

theorem appendCommand_correct:
  assumes inv: "server_inv s" and key: "length key \<le> STRING_MAX" and arg: "string_wf arg" "sdsEncodedObject arg"
  shows "\<exists>s'. appendCommand garb rc i key arg s = Some s' \<and> append_outcome s i key (str_val arg) s'"
proof -
  define db where "db = c_db (sv_clients s i)"
  note dbl = server_inv_db [OF inv, of i, folded db_def]
  obtain s1 ob where s1: "lookupKeyWrite garb db key s = Some (s1, ob)" "effect s (view s) {} s1" "found s1 db key ob"
    using lookupKeyWrite_correct [OF inv key dbl] by blast
  note inv1 = effect_inv [OF s1(2)]
  have db1: "db = c_db (sv_clients s1 i)" using c_db_keeps [OF effect_keeps [OF s1(2)]] by (simp add: db_def)
  have sn: "seen s1 i key = seen s i key" by (rule seen_eq [OF effect_view [OF s1(2)] effect_keeps [OF s1(2)]])
  obtain a where a: "o_ptr arg = PSds a" "sds_inv a" "s_len a \<le> STRING_MAX" "sds_str a = str_val arg"
    using arg by (elim string_wf_cases) (auto simp: sdsEncodedObject_def)
  have la: "sdslen a = length (str_val arg)" using length_sds_str [OF a(2)] a(4) by (simp add: sdslen_def)
  have fin: "\<exists>s'. (case r of (s, None) \<Rightarrow> Some s
      | (s, Some totlen) \<Rightarrow> do {
          let s = signalModifiedKey db key s;
          s \<leftarrow> notifyKeyspaceEvent garb REDIS_NOTIFY_STRING ''append'' key db s;
          Some (addReplyLongLong i (int totlen) (incr_dirty 1 s)) }) = Some s' \<and> result s i v {(key, db)} (number_reply (int n)) s'"
    if e2: "effect s v {} s2" and r: "r = (s2, Some n)" and n: "n \<le> STRING_MAX" for r v s2 n
  proof -
    obtain s3 where s3: "notifyKeyspaceEvent garb REDIS_NOTIFY_STRING ''append'' key db (signalModifiedKey db key s2) = Some s3"
      "effect s v {(key, db)} (incr_dirty 1 s3)"
      using finish_write [OF e2 key _ dbl, of "''append''" garb REDIS_NOTIFY_STRING] by (auto simp: STRING_MAX_def)
    have "int64_range (int n)" using n by (simp add: int64_range_def STRING_MAX_def)
    then show ?thesis using s3 r result_reply [OF s3(2), of i "number_reply (int n)"] by (simp add: addReplyLongLong_correct)
  qed
  show ?thesis
  proof (rule found_cases [OF s1(3) db1], goal_cases)
    case 1
    obtain v where v: "tryObjectEncoding garb (rc arg) arg = Some v" "string_wf v" "str_val v = str_val arg"
      using tryObjectEncoding_correct [OF arg(1)] by blast
    obtain s2 where s2: "dbAdd db key v s1 = Some s2" "effect s1 (vput db key (Some (content v, None)) (view s1)) {} s2"
      using dbAdd_correct [OF inv1 _ string_wf_obj(1) [OF v(2)]] s1(3) 1(1) by blast
    have e2: "effect s (vput db key (Some (CString (str_val arg), None)) (view s)) {} s2"
      using effect_trans [OF s1(2) s2(2)] effect_view [OF s1(2)] string_wf_obj(2) [OF v(2)] v(3) by simp
    note l = length_str_val [OF arg(1)]
    from fin [OF e2 refl l] obtain s' where "appendCommand garb rc i key arg s = Some s'"
      "result s i (vput db key (Some (CString (str_val arg), None)) (view s)) {(key, db)} (number_reply (int (length (str_val arg)))) s'"
      using s1(1) 1(1) v s2(1) stringObjectLen_correct [OF v(2), of garb] by (auto simp: appendCommand_def Let_def db_def [symmetric])
    moreover have "expiry (view s) db key = None" using 1(3) effect_view [OF s1(2)] by (simp add: expiry_def)
    ultimately show ?case using 1(2) sn l by (auto simp: append_outcome_def db_def [symmetric])
  next
    case (3 x)
    then show ?case using s1(1) sn result_reply [OF s1(2), of i shared_wrongtypeerr]
      by (auto simp: appendCommand_def Let_def db_def [symmetric] checkType_def append_outcome_def)
  next
    case (2 x)
    have lx: "length (str_val x) \<le> STRING_MAX" by (rule length_str_val [OF 2(2)])
    have chk: "checkStringLength i (length (str_val x) + sdslen a) s1 =
        (if length (str_val x) + length (str_val arg) > STRING_MAX then (addReply i too_long s1, False) else (s1, True))"
      using checkStringLength_ok [of "length (str_val x) + sdslen a" i s1] lx length_str_val [OF arg(1)] la
      by (simp add: STRING_MAX_def addReplyError_def)
    show ?case
    proof (cases "length (str_val x) + length (str_val arg) > STRING_MAX")
      case True
      then show ?thesis using s1(1) 2 sn a(1) stringObjectLen_correct [OF 2(2), of garb] chk result_reply [OF s1(2), of i too_long]
        by (auto simp: appendCommand_def Let_def db_def [symmetric] checkType_def append_outcome_def)
    next
      case False
      obtain s2 y p where s2: "dbUnshareStringValue garb (rc x) db key x s1 = Some (s2, y)" "effect s1 (view s1) {} s2" "found s2 db key (Some y)"
        "y = createObject REDIS_STRING (PSds p)" "sds_inv p" "s_len p \<le> STRING_MAX" "sds_str p = str_val x"
        using dbUnshareStringValue_correct [OF inv1 s1(3) [unfolded 2(1)] 2(2)] by blast
      have lp: "s_len p = length (str_val x)" using length_sds_str [OF s2(5)] s2(7) by simp
      obtain q where q: "sdscatlen garb p (s_buf a) (sdslen a) = Some q" "sds_inv q" "sds_str q = str_val x @ str_val arg"
        using sdscatlen_correct [OF s2(5), of "sdslen a" "s_buf a" garb] a la lp False s2(7)
        by (auto simp: STRING_MAX_def SDS_MAX_PREALLOC_def sds_inv_def sdslen_def sds_str_def)
      have lq: "s_len q = length (str_val x @ str_val arg)" using length_sds_str [OF q(2)] q(3) by simp
      define s3 where "s3 = store_at db key (createObject REDIS_STRING (PSds q)) s2"
      have e3: "effect s2 (vput db key (Some (CString (str_val x @ str_val arg), db_expires (sv_dbs s2 db) key)) (view s2)) {} s3"
        using store_string [OF effect_inv [OF s2(2)] s2(3) q(2)] lq False q(3) by (simp add: s3_def)
      have ex: "db_expires (sv_dbs s2 db) key = expiry (view s) db key"
        using s2(3) effect_view [OF s2(2)] effect_view [OF s1(2)] by (auto simp: found_def expiry_def)
      have e4: "effect s (vput db key (Some (CString (str_val x @ str_val arg), expiry (view s) db key)) (view s)) {} s3"
        using effect_trans [OF effect_trans [OF s1(2) s2(2)] e3] effect_view [OF s2(2)] effect_view [OF s1(2)] ex by simp
      have n: "length (str_val x @ str_val arg) \<le> STRING_MAX" using False by simp
      from fin [OF e4 refl n] obtain s' where r: "(case (s3, Some (length (str_val x @ str_val arg))) of (s, None) \<Rightarrow> Some s
        | (s, Some totlen) \<Rightarrow> do {
            let s = signalModifiedKey db key s;
            s \<leftarrow> notifyKeyspaceEvent garb REDIS_NOTIFY_STRING ''append'' key db s;
            Some (addReplyLongLong i (int totlen) (incr_dirty 1 s)) }) = Some s'"
        "result s i (vput db key (Some (CString (str_val x @ str_val arg), expiry (view s) db key)) (view s)) {(key, db)}
          (number_reply (int (length (str_val x @ str_val arg)))) s'" by blast
      have upd: "y\<lparr>o_ptr := PSds q\<rparr> = createObject REDIS_STRING (PSds q)" by (simp add: s2(4) createObject_def)
      have py: "o_ptr y = PSds p" by (simp add: s2(4) createObject_def)
      have "appendCommand garb rc i key arg s = Some s'"
        using s1(1) 2 a(1) stringObjectLen_correct [OF 2(2), of garb] chk False s2(1) py q(1) upd r(1) lq
        by (simp add: appendCommand_def Let_def db_def [symmetric] checkType_def s3_def sdslen_def)
      then show ?thesis using r(2) 2 sn False by (auto simp: append_outcome_def db_def [symmetric])
    qed
  qed
qed

section \<open>STRLEN\<close>

theorem strlenCommand_correct:
  assumes inv: "server_inv s" and key: "length key \<le> STRING_MAX"
  shows "\<exists>s'. strlenCommand garb i key s = Some s' \<and>
    result s i (view s) {} (case seen s i key of Missing \<Rightarrow> shared_czero | WrongType \<Rightarrow> shared_wrongtypeerr | Str v \<Rightarrow> number_reply (int (length v))) s'"
proof -
  let ?db = "c_db (sv_clients s i)"
  obtain s1 ob where s1: "lookupKeyRead garb ?db key s = Some (s1, ob)" "effect s (view s) {} s1" "found s1 ?db key ob"
    using lookupKeyRead_correct [OF inv key server_inv_db [OF inv]] by blast
  have db: "?db = c_db (sv_clients s1 i)" using c_db_keeps [OF effect_keeps [OF s1(2)]] by simp
  have sn: "seen s1 i key = seen s i key" by (rule seen_eq [OF effect_view [OF s1(2)] effect_keeps [OF s1(2)]])
  note rep = result_reply [OF s1(2), of i]
  show ?thesis
    by (rule found_cases [OF s1(3) db])
      (use s1(1) rep sn stringObjectLen_correct in
        \<open>auto simp: strlenCommand_def lookupKeyReadOrReply_def checkType_def addReplyLongLong_correct int64_length length_str_val\<close>)
qed

section \<open>GETRANGE\<close>

text \<open>The bytes from one index to another, negative indexes counted from the end.\<close>

definition slice_from :: "nat \<Rightarrow> int \<Rightarrow> int" where
  "slice_from n a = (if a < 0 then max 0 (int n + a) else a)"

definition slice_to :: "nat \<Rightarrow> int \<Rightarrow> int" where
  "slice_to n b = min (int n - 1) (if b < 0 then max 0 (int n + b) else b)"

definition slice :: "byte list \<Rightarrow> int \<Rightarrow> int \<Rightarrow> byte list" where
  "slice v a b = take (nat (slice_to (length v) b - slice_from (length v) a + 1)) (drop (nat (slice_from (length v) a)) v)"

lemma getrange_bounds_correct:
  assumes "n \<le> STRING_MAX" "int64_range a" "int64_range b"
  shows "getrange_bounds n a b = (slice_from n a, slice_to n b)"
proof -
  have s: "s64 (int n + x) = int n + x" if "int64_range x" "x < 0" for x
    using that assms(1) by (simp add: s64_def signed_take_bit_int_eq_self int64_range_def STRING_MAX_def)
  have "s64 (int n - 1) = int n - 1"
    using assms(1) by (simp add: s64_def signed_take_bit_int_eq_self STRING_MAX_def)
  then show ?thesis using s [OF assms(2)] s [OF assms(3)] assms
    by (auto simp: getrange_bounds_def Let_def slice_from_def slice_to_def min_def max_def)
qed

lemma slice_read:
  assumes "slice_from (length v) a \<le> slice_to (length v) b" "v \<noteq> []"
  shows "mem_read (v @ r) (nat (slice_from (length v) a)) (nat (slice_to (length v) b - slice_from (length v) a + 1)) = Some (slice v a b)"
proof -
  let ?f = "slice_from (length v) a" and ?t = "slice_to (length v) b"
  have f: "0 \<le> ?f" "?t < int (length v)" by (auto simp: slice_from_def slice_to_def)
  then have "nat ?f + nat (?t - ?f + 1) \<le> length v" using assms(1) by linarith
  then show ?thesis by (simp add: mem_read_def slice_def)
qed

definition getrange_reply :: "seen \<Rightarrow> int \<Rightarrow> int \<Rightarrow> byte list" where
  "getrange_reply x a b = (case x of Missing \<Rightarrow> shared_emptybulk | WrongType \<Rightarrow> shared_wrongtypeerr
     | Str v \<Rightarrow> if slice v a b = [] then shared_emptybulk else bulk (slice v a b))"

lemma slice_empty: "slice v a b = [] \<longleftrightarrow> slice_to (length v) b < slice_from (length v) a \<or> v = []"
proof -
  have "0 \<le> slice_from (length v) a" "slice_to (length v) b < int (length v)" by (auto simp: slice_from_def slice_to_def)
  then show ?thesis by (auto simp: slice_def)
qed

theorem getrangeCommand_correct:
  assumes inv: "server_inv s" and key: "length key \<le> STRING_MAX" and args: "string_wf x" "string_wf y"
    and a: "parse_number (cstring (str_val x)) = Some a" and b: "parse_number (cstring (str_val y)) = Some b"
  shows "\<exists>s'. getrangeCommand garb i key x y s = Some s' \<and> result s i (view s) {} (getrange_reply (seen s i key) a b) s'"
proof -
  let ?db = "c_db (sv_clients s i)"
  obtain s1 ob where s1: "lookupKeyRead garb ?db key s = Some (s1, ob)" "effect s (view s) {} s1" "found s1 ?db key ob"
    using lookupKeyRead_correct [OF inv key server_inv_db [OF inv]] by blast
  have db: "?db = c_db (sv_clients s1 i)" using c_db_keeps [OF effect_keeps [OF s1(2)]] by simp
  have sn: "seen s1 i key = seen s i key" by (rule seen_eq [OF effect_view [OF s1(2)] effect_keeps [OF s1(2)]])
  note rep = result_reply [OF s1(2), of i]
  have start: "getrangeCommand garb i key x y s = (case ob of None \<Rightarrow> Some (addReply i shared_emptybulk s1)
      | Some ob \<Rightarrow> let (s, bad) = checkType i ob REDIS_STRING s1 in if bad then Some s
          else do { (str, len) \<leftarrow> object_chars garb 32 ob;
            let (start, end) = getrange_bounds len a b;
            if start > end \<or> len = 0 then Some (addReply i shared_emptybulk s)
            else do { bs \<leftarrow> mem_read str (nat start) (nat (end - start + 1)); Some (addReplyBulkCBuffer i bs s) } })"
    using s1(1) a b getLongLongFromObject_correct [OF args(1)] getLongLongFromObject_correct [OF args(2)]
    by (cases ob) (simp_all add: getrangeCommand_def getLongLongFromObjectOrReply_def lookupKeyReadOrReply_def)
  show ?thesis
  proof (rule found_cases [OF s1(3) db], goal_cases)
    case 1
    then show ?case using start rep sn by (auto simp: getrange_reply_def)
  next
    case (3 z)
    then show ?case using start rep sn by (auto simp: getrange_reply_def checkType_def)
  next
    case (2 z)
    let ?v = "str_val z"
    obtain r where r: "object_chars garb 32 z = Some (?v @ 0 # r, length ?v)" using object_chars_correct [OF 2(2), of 32 garb] by auto
    note l = length_str_val [OF 2(2)]
    have bd: "getrange_bounds (length ?v) a b = (slice_from (length ?v) a, slice_to (length ?v) b)"
      by (rule getrange_bounds_correct [OF l parse_number_range [OF a] parse_number_range [OF b]])
    have "length (slice ?v a b) \<le> length ?v" by (simp add: slice_def)
    then have sl: "length (slice ?v a b) \<le> STRING_MAX" using l by simp
    show ?case
    proof (cases "slice ?v a b = []")
      case True
      then show ?thesis using start 2 r bd sn rep slice_empty [of ?v a b] by (auto simp: checkType_def getrange_reply_def)
    next
      case False
      then have "slice_from (length ?v) a \<le> slice_to (length ?v) b" "?v \<noteq> []" using slice_empty [of ?v a b] by auto
      from slice_read [OF this, of "0 # r"] show ?thesis
        using start 2 r bd sn rep False slice_empty [of ?v a b] addReplyBulkCBuffer_correct [OF sl]
        by (auto simp: checkType_def getrange_reply_def)
    qed
  qed
qed

section \<open>SETRANGE\<close>

text \<open>Writing bytes at an offset, the string filled up with zero bytes.\<close>

definition splice :: "byte list \<Rightarrow> nat \<Rightarrow> byte list \<Rightarrow> byte list" where
  "splice old off a = take off (old @ replicate (off - length old) 0) @ a @ drop (off + length a) old"

lemma length_splice: "length (splice old off a) = max (length old) (off + length a)"
  by (auto simp: splice_def)

lemma sds_patch:
  assumes inv: "sds_inv p" and fits: "off + length a \<le> s_len p"
  shows "\<exists>buf. mem_write (s_buf p) off a = Some buf \<and> sds_inv (p\<lparr>s_buf := buf\<rparr>) \<and>
    sds_str (p\<lparr>s_buf := buf\<rparr>) = take off (sds_str p) @ a @ drop (off + length a) (sds_str p)"
proof -
  obtain r where r: "s_buf p = sds_str p @ 0 # r" "length r = s_free p" using sds_layout [OF inv] by blast
  have l: "length (sds_str p) = s_len p" by (rule length_sds_str [OF inv])
  define str where "str = take off (sds_str p) @ a @ drop (off + length a) (sds_str p)"
  have ls: "length str = s_len p" using l fits by (simp add: str_def)
  have w: "mem_write (s_buf p) off a = Some (str @ 0 # r)" using r l fits by (simp add: mem_write_def str_def)
  have "sds_inv (p\<lparr>s_buf := str @ 0 # r\<rparr>)" "sds_str (p\<lparr>s_buf := str @ 0 # r\<rparr>) = str"
    using inv ls r(2) by (simp_all add: sds_inv_def sds_str_def nth_append)
  then show ?thesis using w by (simp add: str_def)
qed

lemma setrange_write_correct:
  assumes e: "effect s v {} s1" and f: "found s1 db key (Some (createObject REDIS_STRING (PSds p)))"
    and p: "sds_inv p" "s_len p \<le> STRING_MAX" and key: "length key \<le> STRING_MAX" "db < 2 ^ 31"
    and size: "off + length a \<le> STRING_MAX"
  shows "\<exists>s'. setrange_write garb i db key off a (createObject REDIS_STRING (PSds p)) s1 = Some s' \<and>
    result s i (vput db key (Some (CString (splice (sds_str p) off a), db_expires (sv_dbs s1 db) key)) v) {(key, db)}
      (number_reply (int (length (splice (sds_str p) off a)))) s'"
proof -
  let ?n = "off + length a" and ?v' = "splice (sds_str p) off a"
  have lp: "length (sds_str p) = s_len p" by (rule length_sds_str [OF p(1)])
  obtain q where q: "sdsgrowzero garb p ?n = Some q" "sds_inv q" "sds_str q = sds_str p @ replicate (?n - s_len p) 0"
    using sdsgrowzero_correct [OF p(1), of ?n garb] size by (auto simp: SDS_MAX_PREALLOC_def STRING_MAX_def)
  have lq: "s_len q = max (s_len p) ?n" using length_sds_str [OF q(2)] q(3) lp by auto
  obtain buf where b: "mem_write (s_buf q) off a = Some buf" "sds_inv (q\<lparr>s_buf := buf\<rparr>)"
    "sds_str (q\<lparr>s_buf := buf\<rparr>) = take off (sds_str q) @ a @ drop ?n (sds_str q)"
    using sds_patch [OF q(2), of off a] lq by auto
  have str: "sds_str (q\<lparr>s_buf := buf\<rparr>) = ?v'"
    unfolding b(3) q(3) splice_def using lp by (auto simp: take_append min_def)
  have lb: "s_len (q\<lparr>s_buf := buf\<rparr>) \<le> STRING_MAX" using lq p(2) size by simp
  define s2 where "s2 = store_at db key (createObject REDIS_STRING (PSds (q\<lparr>s_buf := buf\<rparr>))) s1"
  have "effect s1 (vput db key (Some (CString ?v', db_expires (sv_dbs s1 db) key)) (view s1)) {} s2"
    using store_string [OF effect_inv [OF e] f b(2) lb] str by (simp add: s2_def)
  then have e2: "effect s (vput db key (Some (CString ?v', db_expires (sv_dbs s1 db) key)) v) {} s2"
    using effect_trans [OF e] effect_view [OF e] by simp
  obtain s3 where s3: "notifyKeyspaceEvent garb REDIS_NOTIFY_STRING ''setrange'' key db (signalModifiedKey db key s2) = Some s3"
    "effect s (vput db key (Some (CString ?v', db_expires (sv_dbs s1 db) key)) v) {(key, db)} (incr_dirty 1 s3)"
    using finish_write [OF e2 key(1) _ key(2), of "''setrange''" garb REDIS_NOTIFY_STRING] by (auto simp: STRING_MAX_def)
  have len: "s_len q = length ?v'" using lq lp by (simp add: length_splice)
  have "length ?v' \<le> STRING_MAX" using lb len by simp
  then have "addReplyLongLong i (int (length ?v')) (incr_dirty 1 s3) = addReply i (number_reply (int (length ?v'))) (incr_dirty 1 s3)"
    by (simp add: addReplyLongLong_correct int64_length)
  moreover have "u64 ?n = ?n" using size by (simp add: STRING_MAX_def)
  moreover have "(createObject REDIS_STRING (PSds p))\<lparr>o_ptr := PSds (q\<lparr>s_buf := buf\<rparr>)\<rparr> = createObject REDIS_STRING (PSds (q\<lparr>s_buf := buf\<rparr>))"
    "o_ptr (createObject REDIS_STRING (PSds p)) = PSds p" by (simp_all add: createObject_def)
  ultimately have "setrange_write garb i db key off a (createObject REDIS_STRING (PSds p)) s1 = Some (addReply i (number_reply (int (length ?v'))) (incr_dirty 1 s3))"
    using q(1) b(1) s3(1) len by (simp add: setrange_write_def Let_def s2_def sdslen_def)
  then show ?thesis using result_reply [OF s3(2), of i "number_reply (int (length ?v'))"] by blast
qed

definition setrange_outcome :: "redisServer \<Rightarrow> nat \<Rightarrow> byte list \<Rightarrow> int \<Rightarrow> byte list \<Rightarrow> redisServer \<Rightarrow> bool" where
  "setrange_outcome s i key off a s' =
     (let db = c_db (sv_clients s i);
          old = (case seen s i key of Str v \<Rightarrow> v | _ \<Rightarrow> []) in
      if off < 0 then result s i (view s) {} (bytes ''-ERR '' @ bytes ''offset is out of range'' @ crlf) s'
      else if seen s i key = WrongType then result s i (view s) {} shared_wrongtypeerr s'
      else if a = [] then result s i (view s) {} (number_reply (int (length old))) s'
      else if nat off + length a > STRING_MAX then result s i (view s) {} too_long s'
      else result s i (vput db key (Some (CString (splice old (nat off) a), expiry (view s) db key)) (view s)) {(key, db)}
        (number_reply (int (length (splice old (nat off) a)))) s')"

theorem setrangeCommand_correct:
  assumes inv: "server_inv s" and key: "length key \<le> STRING_MAX" and x: "string_wf x" "parse_number (cstring (str_val x)) = Some off"
    and size: "off + int (length a) < 2 ^ 63"
  shows "\<exists>s'. setrangeCommand garb rc i key x a s = Some s' \<and> setrange_outcome s i key off a s'"
proof -
  define db where "db = c_db (sv_clients s i)"
  note dbl = server_inv_db [OF inv, of i, folded db_def]
  have r: "int64_range off" by (rule parse_number_range [OF x(2)])
  have arg: "getLongFromObjectOrReply i (Some x) None s = Some (s, Some off)"
    using x(2) getLongLongFromObject_correct [OF x(1)] r
    by (simp add: getLongFromObjectOrReply_def getLongLongFromObjectOrReply_def int64_range_def LLONG_MIN_def LLONG_MAX_def)
  show ?thesis
  proof (cases "off < 0")
    case True
    then show ?thesis using arg result_reply [OF effect_refl [OF inv], of i]
      by (auto simp: setrangeCommand_def setrange_outcome_def addReplyError_def Let_def)
  next
    case pos: False
    obtain s1 ob where s1: "lookupKeyWrite garb db key s = Some (s1, ob)" "effect s (view s) {} s1" "found s1 db key ob"
      using lookupKeyWrite_correct [OF inv key dbl] by blast
    note inv1 = effect_inv [OF s1(2)]
    have db1: "db = c_db (sv_clients s1 i)" using c_db_keeps [OF effect_keeps [OF s1(2)]] by (simp add: db_def)
    have sn: "seen s1 i key = seen s i key" by (rule seen_eq [OF effect_view [OF s1(2)] effect_keeps [OF s1(2)]])
    note rep = result_reply [OF s1(2), of i]
    have "nat off + length a < 2 ^ 63" using size pos by simp
    then have chk: "checkStringLength i (nat off + length a) s1 =
        (if nat off + length a > STRING_MAX then (addReply i too_long s1, False) else (s1, True))"
      using checkStringLength_ok [of "nat off + length a" i s1] by (simp add: addReplyError_def)
    have zero: "number_reply 0 = shared_czero" by (simp add: sdec_def dec.simps shared_czero_def bytes_def)
    show ?thesis
    proof (rule found_cases [OF s1(3) db1], goal_cases)
      case 1
      show ?case
      proof (cases "a = [] \<or> nat off + length a > STRING_MAX")
        case True
        then show ?thesis using s1(1) 1 sn chk arg pos rep zero
          by (auto simp: setrangeCommand_def setrange_outcome_def Let_def db_def [symmetric])
      next
        case False
        obtain e where e: "sdsempty garb = Some e" "sds_inv e" "sds_str e = []" using sdsempty_correct [of garb] by blast
        have le: "s_len e = 0" using length_sds_str [OF e(2)] e(3) by simp
        have wf: "string_wf (createObject REDIS_STRING (PSds e))" using string_wf_sds(1) [OF e(2)] le by simp
        obtain s2 where s2: "dbAdd db key (createObject REDIS_STRING (PSds e)) s1 = Some s2"
          "effect s1 (vput db key (Some (content (createObject REDIS_STRING (PSds e)), None)) (view s1)) {} s2"
          "lookupKey db key s2 = Some (createObject REDIS_STRING (PSds e))"
          using dbAdd_correct [OF inv1 _ string_wf_obj(1) [OF wf]] s1(3) 1(1) by blast
        have v2: "view s2 db key = Some (content (createObject REDIS_STRING (PSds e)), None)" using effect_view [OF s2(2)] by simp
        have ex: "db_expires (sv_dbs s2 db) key = None" and np: "\<not> past s2 (db_expires (sv_dbs s2 db) key)"
          using v2 s2(3) by (auto simp: view_def lookupKey_def split: if_splits)
        have f2: "found s2 db key (Some (createObject REDIS_STRING (PSds e)))"
          using found_lookup [OF effect_inv [OF s2(2)] np] s2(3) by simp
        obtain s' where s': "setrange_write garb i db key (nat off) a (createObject REDIS_STRING (PSds e)) s2 = Some s'"
          "result s i (vput db key (Some (CString (splice [] (nat off) a), None))
            (vput db key (Some (content (createObject REDIS_STRING (PSds e)), None)) (view s))) {(key, db)}
            (number_reply (int (length (splice [] (nat off) a)))) s'"
          using setrange_write_correct [OF effect_trans [OF s1(2) s2(2), simplified] f2 e(2) _ key dbl, of "nat off" a garb i]
            effect_view [OF s1(2)] False le e(3) ex by auto
        have "expiry (view s) db key = None" using 1(3) effect_view [OF s1(2)] by (simp add: expiry_def)
        then show ?thesis using s1(1) 1 sn chk arg pos e(1) s2(1) s' False
          by (auto simp: setrangeCommand_def setrange_outcome_def Let_def db_def [symmetric])
      qed
    next
      case (3 z)
      then show ?case using s1(1) sn arg pos rep
        by (auto simp: setrangeCommand_def setrange_outcome_def Let_def db_def [symmetric] checkType_def)
    next
      case (2 z)
      note len = stringObjectLen_correct [OF 2(2), of garb]
      show ?case
      proof (cases "a = [] \<or> nat off + length a > STRING_MAX")
        case True
        then show ?thesis using s1(1) 2 sn chk arg pos rep len length_str_val [OF 2(2)]
          by (auto simp: setrangeCommand_def setrange_outcome_def Let_def db_def [symmetric] checkType_def addReplyLongLong_correct int64_length)
      next
        case False
        obtain s2 y p where s2: "dbUnshareStringValue garb (rc z) db key z s1 = Some (s2, y)" "effect s1 (view s1) {} s2" "found s2 db key (Some y)"
          "y = createObject REDIS_STRING (PSds p)" "sds_inv p" "s_len p \<le> STRING_MAX" "sds_str p = str_val z"
          using dbUnshareStringValue_correct [OF inv1 s1(3) [unfolded 2(1)] 2(2)] by blast
        have ex: "db_expires (sv_dbs s2 db) key = expiry (view s) db key"
          using s2(3) effect_view [OF s2(2)] effect_view [OF s1(2)] by (auto simp: found_def expiry_def)
        obtain s' where s': "setrange_write garb i db key (nat off) a y s2 = Some s'"
          "result s i (vput db key (Some (CString (splice (str_val z) (nat off) a), expiry (view s) db key)) (view s)) {(key, db)}
            (number_reply (int (length (splice (str_val z) (nat off) a)))) s'"
          using setrange_write_correct [OF effect_trans_same [OF s1(2) s2(2)] s2(3) [unfolded s2(4)] s2(5,6) key dbl, of "nat off" a garb i]
            False s2(4,7) ex by auto
        then show ?thesis using s1(1) 2 sn chk arg pos len s2(1) False
          by (auto simp: setrangeCommand_def setrange_outcome_def Let_def db_def [symmetric] checkType_def)
      qed
    qed
  qed
qed

text \<open>The size of the result is computed in 64 bits without a sign and checked with one: it can be taken for small.\<close>

lemma setrange_size_overflow: "checkStringLength i (nat LLONG_MAX + 1) s = (s, True)"
  by (simp add: checkStringLength_def LLONG_MAX_def s64_def)

section \<open>MSET and MSETNX\<close>

definition mset_view :: "nat \<Rightarrow> (byte list \<times> robj) list \<Rightarrow> keyspace \<Rightarrow> keyspace" where
  "mset_view db kvs v = fold (\<lambda>(k, x). vput db k (Some (CString (str_val x), None))) kvs v"

definition args_ok :: "(byte list \<times> robj) list \<Rightarrow> bool" where
  "args_ok kvs \<longleftrightarrow> (\<forall>(k, x) \<in> set kvs. length k \<le> STRING_MAX \<and> string_wf x)"

lemma mset_loop_correct:
  assumes "server_inv s" "args_ok kvs" "db < 2 ^ 31"
  shows "\<exists>s'. mset_loop garb rc db kvs s = Some s' \<and> effect s (mset_view db kvs (view s)) ((\<lambda>(k, x). (k, db)) ` set kvs) s'"
  using assms
proof (induction kvs arbitrary: s)
  case Nil
  then show ?case using effect_refl by (simp add: mset_view_def)
next
  case (Cons kx kvs)
  obtain k x where kx: "kx = (k, x)" by (cases kx)
  have k: "length k \<le> STRING_MAX" and x: "string_wf x" and rest: "args_ok kvs" using Cons.prems(2) by (auto simp: kx args_ok_def)
  obtain v where v: "tryObjectEncoding garb (rc x) x = Some v" "string_wf v" "str_val v = str_val x"
    using tryObjectEncoding_correct [OF x] by blast
  obtain s1 where s1: "setKey garb db k v s = Some s1" "effect s (vput db k (Some (CString (str_val x), None)) (view s)) {(k, db)} s1"
    using setKey_correct [OF Cons.prems(1) k Cons.prems(3) string_wf_obj(1) [OF v(2)], of garb] string_wf_obj(2) [OF v(2)] v(3) by auto
  obtain s2 where s2: "notifyKeyspaceEvent garb REDIS_NOTIFY_STRING ''set'' k db s1 = Some s2" "effect s1 (view s1) {} s2"
    using effect_notify [OF effect_inv [OF s1(2)] k _ Cons.prems(3), of "''set''"] by (auto simp: STRING_MAX_def)
  note e2 = effect_trans_same [OF s1(2) s2(2)]
  obtain s3 where s3: "mset_loop garb rc db kvs s2 = Some s3" "effect s2 (mset_view db kvs (view s2)) ((\<lambda>(k, x). (k, db)) ` set kvs) s3"
    using Cons.IH [OF effect_inv [OF e2] rest Cons.prems(3)] by blast
  have "effect s (mset_view db (kx # kvs) (view s)) ((\<lambda>(k, x). (k, db)) ` set (kx # kvs)) s3"
    using effect_trans [OF e2 s3(2)] effect_view [OF e2] by (simp add: mset_view_def kx)
  then show ?case using v(1) s1(1) s2(1) s3(1) by (simp add: kx)
qed

definition any_present :: "keyspace \<Rightarrow> nat \<Rightarrow> (byte list \<times> robj) list \<Rightarrow> bool" where
  "any_present v db kvs = list_ex (\<lambda>(k, x). v db k \<noteq> None) kvs"

lemma count_busy_correct:
  assumes "server_inv s" "args_ok kvs" "db < 2 ^ 31"
  shows "\<exists>s' n. count_busy garb db kvs s = Some (s', n) \<and> effect s (view s) {} s' \<and> (n = 0 \<longleftrightarrow> \<not> any_present (view s) db kvs)"
  using assms
proof (induction kvs arbitrary: s)
  case Nil
  then show ?case using effect_refl by (simp add: any_present_def)
next
  case (Cons kx kvs)
  obtain k x where kx: "kx = (k, x)" by (cases kx)
  have k: "length k \<le> STRING_MAX" and rest: "args_ok kvs" using Cons.prems(2) by (auto simp: kx args_ok_def)
  obtain s1 ob where s1: "lookupKeyWrite garb db k s = Some (s1, ob)" "effect s (view s) {} s1" "found s1 db k ob"
    using lookupKeyWrite_correct [OF Cons.prems(1) k Cons.prems(3)] by blast
  obtain s2 n where s2: "count_busy garb db kvs s1 = Some (s2, n)" "effect s1 (view s1) {} s2" "n = 0 \<longleftrightarrow> \<not> any_present (view s1) db kvs"
    using Cons.IH [OF effect_inv [OF s1(2)] rest Cons.prems(3)] by blast
  have "view s db k \<noteq> None \<longleftrightarrow> ob \<noteq> None" using found_present [OF s1(3)] effect_view [OF s1(2)] by simp
  then show ?case using s1(1) s2 effect_trans_same [OF s1(2) s2(2)] effect_view [OF s1(2)] by (auto simp: kx any_present_def)
qed

text \<open>MSETNX sets all the keys or, when one of them exists, none of them.\<close>

theorem msetGenericCommand_correct:
  assumes inv: "server_inv s" and args: "pairs args = Some kvs" "args_ok kvs"
  shows "\<exists>s'. msetGenericCommand garb rc i args nx s = Some s' \<and>
    (let db = c_db (sv_clients s i) in
     if nx \<and> any_present (view s) db kvs then result s i (view s) {} shared_czero s'
     else result s i (mset_view db kvs (view s)) ((\<lambda>(k, x). (k, db)) ` set kvs) (if nx then shared_cone else shared_ok) s')"
proof -
  define db where "db = c_db (sv_clients s i)"
  note dbl = server_inv_db [OF inv, of i, folded db_def]
  obtain s1 n where s1: "(if nx then count_busy garb db kvs s else Some (s, 0)) = Some (s1, n)" "effect s (view s) {} s1"
    "n \<noteq> 0 \<longleftrightarrow> nx \<and> any_present (view s) db kvs"
  proof (cases nx)
    case True
    obtain s1 n where c: "count_busy garb db kvs s = Some (s1, n)" "effect s (view s) {} s1" "n = 0 \<longleftrightarrow> \<not> any_present (view s) db kvs"
      using count_busy_correct [OF inv args(2) dbl] by blast
    have "n \<noteq> 0 \<longleftrightarrow> nx \<and> any_present (view s) db kvs" using True c(3) by auto
    then show ?thesis using that [of s1 n] True c by simp
  next
    case False
    then show ?thesis using that effect_refl [OF inv] by auto
  qed
  show ?thesis
  proof (cases "n = 0")
    case False
    then have "msetGenericCommand garb rc i args nx s = Some (addReply i shared_czero s1)"
      unfolding msetGenericCommand_def args(1) option.case Let_def db_def [symmetric] s1(1) by simp
    moreover have "nx \<and> any_present (view s) db kvs" using False s1(3) by blast
    ultimately show ?thesis using result_reply [OF s1(2), of i shared_czero] unfolding Let_def db_def by simp
  next
    case True
    obtain s2 where s2: "mset_loop garb rc db kvs s1 = Some s2" "effect s1 (mset_view db kvs (view s1)) ((\<lambda>(k, x). (k, db)) ` set kvs) s2"
      using mset_loop_correct [OF effect_inv [OF s1(2)] args(2) dbl] by blast
    have e: "effect s (mset_view db kvs (view s)) ((\<lambda>(k, x). (k, db)) ` set kvs) (incr_dirty (int (length kvs)) s2)"
      using effect_trans_same [OF effect_trans [OF s1(2) s2(2)] effect_counters(4) [OF effect_inv [OF s2(2)]]] effect_view [OF s1(2)] by simp
    have "msetGenericCommand garb rc i args nx s = Some (addReply i (if nx then shared_cone else shared_ok) (incr_dirty (int (length kvs)) s2))"
      unfolding msetGenericCommand_def args(1) option.case Let_def db_def [symmetric] s1(1) using True s2(1) by simp
    moreover have "\<not> (nx \<and> any_present (view s) db kvs)" using True s1(3) by blast
    ultimately show ?thesis using result_reply [OF e, of i "if nx then shared_cone else shared_ok"] unfolding Let_def db_def by (simp only: if_False) blast
  qed
qed

end
