(* ===== verification/Commands.thy ===== *)
theory Commands
  imports Multi T_string_More
begin

text \<open>
  The command table and the execution of commands (\<open>redis.c\<close>). \<open>proc\<close> is the dispatch on the C function
  of the table; a function that the development does not model has no result. \<open>call\<close> runs a command and
  propagates it, \<open>processCommand\<close> decides whether a request is refused, queued or run.

  Left out: monitors, the slow log and statistics, scripts, cluster redirection, the memory limit, and
  serving clients blocked on lists. \<open>rc\<close> gives the reference counts of objects, \<open>ord\<close> the order in which a
  dict of channels is traversed and \<open>listing\<close> the channels that its iterator returns.
\<close>

section \<open>The command table\<close>

definition REDIS_CMD_WRITE :: "32 word" where "REDIS_CMD_WRITE = 1"

definition REDIS_CMD_LOADING :: "32 word" where "REDIS_CMD_LOADING = 512"

definition REDIS_CMD_STALE :: "32 word" where "REDIS_CMD_STALE = 1024"

definition cmd_flag :: "char \<Rightarrow> 32 word option" where
  "cmd_flag f =
     (if f = CHR ''w'' then Some REDIS_CMD_WRITE
      else if f = CHR ''r'' then Some REDIS_CMD_READONLY
      else if f = CHR ''m'' then Some 4
      else if f = CHR ''a'' then Some 16
      else if f = CHR ''p'' then Some 32
      else if f = CHR ''s'' then Some 64
      else if f = CHR ''R'' then Some 128
      else if f = CHR ''S'' then Some 256
      else if f = CHR ''l'' then Some REDIS_CMD_LOADING
      else if f = CHR ''t'' then Some REDIS_CMD_STALE
      else if f = CHR ''M'' then Some 2048
      else if f = CHR ''k'' then Some 4096
      else if f = CHR ''F'' then Some 8192
      else None)"

fun populate_flags :: "string \<Rightarrow> 32 word \<Rightarrow> 32 word option" where
  "populate_flags [] flags = Some flags"
| "populate_flags (f # fs) flags = (case cmd_flag f of None \<Rightarrow> None | Some m \<Rightarrow> populate_flags fs (flags OR m))"

definition entry :: "string \<Rightarrow> string \<Rightarrow> int \<Rightarrow> string \<Rightarrow> int \<Rightarrow> int \<Rightarrow> int \<Rightarrow> redisCommand" where
  "entry name p arity sflags a b st =
     \<lparr>cmd_name = name, cmd_proc = p, cmd_arity = arity, cmd_sflags = sflags, cmd_flags = 0, cmd_firstkey = a, cmd_lastkey = b, cmd_keystep = st\<rparr>"

definition redisCommandTable :: "redisCommand list" where
  "redisCommandTable =
    [entry ''get'' ''getCommand'' 2 ''rF'' 1 1 1,
     entry ''set'' ''setCommand'' (- 3) ''wm'' 1 1 1,
     entry ''setnx'' ''setnxCommand'' 3 ''wmF'' 1 1 1,
     entry ''setex'' ''setexCommand'' 4 ''wm'' 1 1 1,
     entry ''psetex'' ''psetexCommand'' 4 ''wm'' 1 1 1,
     entry ''append'' ''appendCommand'' 3 ''wm'' 1 1 1,
     entry ''strlen'' ''strlenCommand'' 2 ''rF'' 1 1 1,
     entry ''del'' ''delCommand'' (- 2) ''w'' 1 (- 1) 1,
     entry ''exists'' ''existsCommand'' (- 2) ''rF'' 1 (- 1) 1,
     entry ''setbit'' ''setbitCommand'' 4 ''wm'' 1 1 1,
     entry ''getbit'' ''getbitCommand'' 3 ''rF'' 1 1 1,
     entry ''setrange'' ''setrangeCommand'' 4 ''wm'' 1 1 1,
     entry ''getrange'' ''getrangeCommand'' 4 ''r'' 1 1 1,
     entry ''substr'' ''getrangeCommand'' 4 ''r'' 1 1 1,
     entry ''incr'' ''incrCommand'' 2 ''wmF'' 1 1 1,
     entry ''decr'' ''decrCommand'' 2 ''wmF'' 1 1 1,
     entry ''mget'' ''mgetCommand'' (- 2) ''r'' 1 (- 1) 1,
     entry ''rpush'' ''rpushCommand'' (- 3) ''wmF'' 1 1 1,
     entry ''lpush'' ''lpushCommand'' (- 3) ''wmF'' 1 1 1,
     entry ''rpushx'' ''rpushxCommand'' 3 ''wmF'' 1 1 1,
     entry ''lpushx'' ''lpushxCommand'' 3 ''wmF'' 1 1 1,
     entry ''linsert'' ''linsertCommand'' 5 ''wm'' 1 1 1,
     entry ''rpop'' ''rpopCommand'' 2 ''wF'' 1 1 1,
     entry ''lpop'' ''lpopCommand'' 2 ''wF'' 1 1 1,
     entry ''brpop'' ''brpopCommand'' (- 3) ''ws'' 1 1 1,
     entry ''brpoplpush'' ''brpoplpushCommand'' 4 ''wms'' 1 2 1,
     entry ''blpop'' ''blpopCommand'' (- 3) ''ws'' 1 (- 2) 1,
     entry ''llen'' ''llenCommand'' 2 ''rF'' 1 1 1,
     entry ''lindex'' ''lindexCommand'' 3 ''r'' 1 1 1,
     entry ''lset'' ''lsetCommand'' 4 ''wm'' 1 1 1,
     entry ''lrange'' ''lrangeCommand'' 4 ''r'' 1 1 1,
     entry ''ltrim'' ''ltrimCommand'' 4 ''w'' 1 1 1,
     entry ''lrem'' ''lremCommand'' 4 ''w'' 1 1 1,
     entry ''rpoplpush'' ''rpoplpushCommand'' 3 ''wm'' 1 2 1,
     entry ''sadd'' ''saddCommand'' (- 3) ''wmF'' 1 1 1,
     entry ''srem'' ''sremCommand'' (- 3) ''wF'' 1 1 1,
     entry ''smove'' ''smoveCommand'' 4 ''wF'' 1 2 1,
     entry ''sismember'' ''sismemberCommand'' 3 ''rF'' 1 1 1,
     entry ''scard'' ''scardCommand'' 2 ''rF'' 1 1 1,
     entry ''spop'' ''spopCommand'' 2 ''wRsF'' 1 1 1,
     entry ''srandmember'' ''srandmemberCommand'' (- 2) ''rR'' 1 1 1,
     entry ''sinter'' ''sinterCommand'' (- 2) ''rS'' 1 (- 1) 1,
     entry ''sinterstore'' ''sinterstoreCommand'' (- 3) ''wm'' 1 (- 1) 1,
     entry ''sunion'' ''sunionCommand'' (- 2) ''rS'' 1 (- 1) 1,
     entry ''sunionstore'' ''sunionstoreCommand'' (- 3) ''wm'' 1 (- 1) 1,
     entry ''sdiff'' ''sdiffCommand'' (- 2) ''rS'' 1 (- 1) 1,
     entry ''sdiffstore'' ''sdiffstoreCommand'' (- 3) ''wm'' 1 (- 1) 1,
     entry ''smembers'' ''sinterCommand'' 2 ''rS'' 1 1 1,
     entry ''sscan'' ''sscanCommand'' (- 3) ''rR'' 1 1 1,
     entry ''zadd'' ''zaddCommand'' (- 4) ''wmF'' 1 1 1,
     entry ''zincrby'' ''zincrbyCommand'' 4 ''wmF'' 1 1 1,
     entry ''zrem'' ''zremCommand'' (- 3) ''wF'' 1 1 1,
     entry ''zremrangebyscore'' ''zremrangebyscoreCommand'' 4 ''w'' 1 1 1,
     entry ''zremrangebyrank'' ''zremrangebyrankCommand'' 4 ''w'' 1 1 1,
     entry ''zremrangebylex'' ''zremrangebylexCommand'' 4 ''w'' 1 1 1,
     entry ''zunionstore'' ''zunionstoreCommand'' (- 4) ''wm'' 0 0 0,
     entry ''zinterstore'' ''zinterstoreCommand'' (- 4) ''wm'' 0 0 0,
     entry ''zrange'' ''zrangeCommand'' (- 4) ''r'' 1 1 1,
     entry ''zrangebyscore'' ''zrangebyscoreCommand'' (- 4) ''r'' 1 1 1,
     entry ''zrevrangebyscore'' ''zrevrangebyscoreCommand'' (- 4) ''r'' 1 1 1,
     entry ''zrangebylex'' ''zrangebylexCommand'' (- 4) ''r'' 1 1 1,
     entry ''zrevrangebylex'' ''zrevrangebylexCommand'' (- 4) ''r'' 1 1 1,
     entry ''zcount'' ''zcountCommand'' 4 ''rF'' 1 1 1,
     entry ''zlexcount'' ''zlexcountCommand'' 4 ''rF'' 1 1 1,
     entry ''zrevrange'' ''zrevrangeCommand'' (- 4) ''r'' 1 1 1,
     entry ''zcard'' ''zcardCommand'' 2 ''rF'' 1 1 1,
     entry ''zscore'' ''zscoreCommand'' 3 ''rF'' 1 1 1,
     entry ''zrank'' ''zrankCommand'' 3 ''rF'' 1 1 1,
     entry ''zrevrank'' ''zrevrankCommand'' 3 ''rF'' 1 1 1,
     entry ''zscan'' ''zscanCommand'' (- 3) ''rR'' 1 1 1,
     entry ''hset'' ''hsetCommand'' 4 ''wmF'' 1 1 1,
     entry ''hsetnx'' ''hsetnxCommand'' 4 ''wmF'' 1 1 1,
     entry ''hget'' ''hgetCommand'' 3 ''rF'' 1 1 1,
     entry ''hmset'' ''hmsetCommand'' (- 4) ''wm'' 1 1 1,
     entry ''hmget'' ''hmgetCommand'' (- 3) ''r'' 1 1 1,
     entry ''hincrby'' ''hincrbyCommand'' 4 ''wmF'' 1 1 1,
     entry ''hincrbyfloat'' ''hincrbyfloatCommand'' 4 ''wmF'' 1 1 1,
     entry ''hdel'' ''hdelCommand'' (- 3) ''wF'' 1 1 1,
     entry ''hlen'' ''hlenCommand'' 2 ''rF'' 1 1 1,
     entry ''hkeys'' ''hkeysCommand'' 2 ''rS'' 1 1 1,
     entry ''hvals'' ''hvalsCommand'' 2 ''rS'' 1 1 1,
     entry ''hgetall'' ''hgetallCommand'' 2 ''r'' 1 1 1,
     entry ''hexists'' ''hexistsCommand'' 3 ''rF'' 1 1 1,
     entry ''hscan'' ''hscanCommand'' (- 3) ''rR'' 1 1 1,
     entry ''incrby'' ''incrbyCommand'' 3 ''wmF'' 1 1 1,
     entry ''decrby'' ''decrbyCommand'' 3 ''wmF'' 1 1 1,
     entry ''incrbyfloat'' ''incrbyfloatCommand'' 3 ''wmF'' 1 1 1,
     entry ''getset'' ''getsetCommand'' 3 ''wm'' 1 1 1,
     entry ''mset'' ''msetCommand'' (- 3) ''wm'' 1 (- 1) 2,
     entry ''msetnx'' ''msetnxCommand'' (- 3) ''wm'' 1 (- 1) 2,
     entry ''randomkey'' ''randomkeyCommand'' 1 ''rR'' 0 0 0,
     entry ''select'' ''selectCommand'' 2 ''rlF'' 0 0 0,
     entry ''move'' ''moveCommand'' 3 ''wF'' 1 1 1,
     entry ''rename'' ''renameCommand'' 3 ''w'' 1 2 1,
     entry ''renamenx'' ''renamenxCommand'' 3 ''wF'' 1 2 1,
     entry ''expire'' ''expireCommand'' 3 ''wF'' 1 1 1,
     entry ''expireat'' ''expireatCommand'' 3 ''wF'' 1 1 1,
     entry ''pexpire'' ''pexpireCommand'' 3 ''wF'' 1 1 1,
     entry ''pexpireat'' ''pexpireatCommand'' 3 ''wF'' 1 1 1,
     entry ''keys'' ''keysCommand'' 2 ''rS'' 0 0 0,
     entry ''scan'' ''scanCommand'' (- 2) ''rR'' 0 0 0,
     entry ''dbsize'' ''dbsizeCommand'' 1 ''rF'' 0 0 0,
     entry ''auth'' ''authCommand'' 2 ''rsltF'' 0 0 0,
     entry ''ping'' ''pingCommand'' (- 1) ''rtF'' 0 0 0,
     entry ''echo'' ''echoCommand'' 2 ''rF'' 0 0 0,
     entry ''save'' ''saveCommand'' 1 ''ars'' 0 0 0,
     entry ''bgsave'' ''bgsaveCommand'' 1 ''ar'' 0 0 0,
     entry ''bgrewriteaof'' ''bgrewriteaofCommand'' 1 ''ar'' 0 0 0,
     entry ''shutdown'' ''shutdownCommand'' (- 1) ''arlt'' 0 0 0,
     entry ''lastsave'' ''lastsaveCommand'' 1 ''rRF'' 0 0 0,
     entry ''type'' ''typeCommand'' 2 ''rF'' 1 1 1,
     entry ''multi'' ''multiCommand'' 1 ''rsF'' 0 0 0,
     entry ''exec'' ''execCommand'' 1 ''sM'' 0 0 0,
     entry ''discard'' ''discardCommand'' 1 ''rsF'' 0 0 0,
     entry ''sync'' ''syncCommand'' 1 ''ars'' 0 0 0,
     entry ''psync'' ''syncCommand'' 3 ''ars'' 0 0 0,
     entry ''replconf'' ''replconfCommand'' (- 1) ''arslt'' 0 0 0,
     entry ''flushdb'' ''flushdbCommand'' 1 ''w'' 0 0 0,
     entry ''flushall'' ''flushallCommand'' 1 ''w'' 0 0 0,
     entry ''sort'' ''sortCommand'' (- 2) ''wm'' 1 1 1,
     entry ''info'' ''infoCommand'' (- 1) ''rlt'' 0 0 0,
     entry ''monitor'' ''monitorCommand'' 1 ''ars'' 0 0 0,
     entry ''ttl'' ''ttlCommand'' 2 ''rF'' 1 1 1,
     entry ''pttl'' ''pttlCommand'' 2 ''rF'' 1 1 1,
     entry ''persist'' ''persistCommand'' 2 ''wF'' 1 1 1,
     entry ''slaveof'' ''slaveofCommand'' 3 ''ast'' 0 0 0,
     entry ''role'' ''roleCommand'' 1 ''lst'' 0 0 0,
     entry ''debug'' ''debugCommand'' (- 2) ''as'' 0 0 0,
     entry ''config'' ''configCommand'' (- 2) ''art'' 0 0 0,
     entry ''subscribe'' ''subscribeCommand'' (- 2) ''rpslt'' 0 0 0,
     entry ''unsubscribe'' ''unsubscribeCommand'' (- 1) ''rpslt'' 0 0 0,
     entry ''psubscribe'' ''psubscribeCommand'' (- 2) ''rpslt'' 0 0 0,
     entry ''punsubscribe'' ''punsubscribeCommand'' (- 1) ''rpslt'' 0 0 0,
     entry ''publish'' ''publishCommand'' 3 ''pltrF'' 0 0 0,
     entry ''pubsub'' ''pubsubCommand'' (- 2) ''pltrR'' 0 0 0,
     entry ''watch'' ''watchCommand'' (- 2) ''rsF'' 1 (- 1) 1,
     entry ''unwatch'' ''unwatchCommand'' 1 ''rsF'' 0 0 0,
     entry ''cluster'' ''clusterCommand'' (- 2) ''ar'' 0 0 0,
     entry ''restore'' ''restoreCommand'' (- 4) ''wm'' 1 1 1,
     entry ''restore-asking'' ''restoreCommand'' (- 4) ''wmk'' 1 1 1,
     entry ''migrate'' ''migrateCommand'' (- 6) ''w'' 0 0 0,
     entry ''asking'' ''askingCommand'' 1 ''r'' 0 0 0,
     entry ''readonly'' ''readonlyCommand'' 1 ''rF'' 0 0 0,
     entry ''readwrite'' ''readwriteCommand'' 1 ''rF'' 0 0 0,
     entry ''dump'' ''dumpCommand'' 2 ''r'' 1 1 1,
     entry ''object'' ''objectCommand'' 3 ''r'' 2 2 2,
     entry ''client'' ''clientCommand'' (- 2) ''rs'' 0 0 0,
     entry ''eval'' ''evalCommand'' (- 3) ''s'' 0 0 0,
     entry ''evalsha'' ''evalShaCommand'' (- 3) ''s'' 0 0 0,
     entry ''slowlog'' ''slowlogCommand'' (- 2) ''r'' 0 0 0,
     entry ''script'' ''scriptCommand'' (- 2) ''rs'' 0 0 0,
     entry ''time'' ''timeCommand'' 1 ''rRF'' 0 0 0,
     entry ''bitop'' ''bitopCommand'' (- 4) ''wm'' 2 (- 1) 1,
     entry ''bitcount'' ''bitcountCommand'' (- 2) ''r'' 1 1 1,
     entry ''bitpos'' ''bitposCommand'' (- 3) ''r'' 1 1 1,
     entry ''wait'' ''waitCommand'' 3 ''rs'' 0 0 0,
     entry ''command'' ''commandCommand'' 0 ''rlt'' 0 0 0,
     entry ''pfselftest'' ''pfselftestCommand'' 1 ''r'' 0 0 0,
     entry ''pfadd'' ''pfaddCommand'' (- 2) ''wmF'' 1 1 1,
     entry ''pfcount'' ''pfcountCommand'' (- 2) ''r'' 1 (- 1) 1,
     entry ''pfmerge'' ''pfmergeCommand'' (- 2) ''wm'' 1 (- 1) 1,
     entry ''pfdebug'' ''pfdebugCommand'' (- 3) ''w'' 0 0 0,
     entry ''latency'' ''latencyCommand'' (- 2) ''arslt'' 0 0 0]"

text \<open>The flags of an entry; an unknown character is a panic. The table of commands is a dict that ignores case.\<close>

definition populateCommand :: "redisCommand \<Rightarrow> redisCommand option" where
  "populateCommand c = map_option (\<lambda>m. c\<lparr>cmd_flags := m\<rparr>) (populate_flags (cmd_sflags c) 0)"

definition lookupCommand :: "redisCommand list \<Rightarrow> byte list \<Rightarrow> redisCommand option" where
  "lookupCommand tab name = find (\<lambda>c. bytes (cmd_name c) = map tolower_byte name) tab"

section \<open>Connection commands\<close>

definition REDIS_AUTHPASS_MAX_LEN :: nat where "REDIS_AUTHPASS_MAX_LEN = 512"

definition fill_buf :: "byte list \<Rightarrow> byte list" where
  "fill_buf a = a @ replicate (REDIS_AUTHPASS_MAX_LEN - length a) 0"

text \<open>\<open>diff\<close> is an \<open>int\<close>; the bytes are sign extended by the xor of two \<open>char\<close>, the lengths are below 512.\<close>

definition time_independent_strcmp :: "byte list \<Rightarrow> byte list \<Rightarrow> bool" where
  "time_independent_strcmp a b =
     (let alen = length (cstring a); blen = length (cstring b) in
      if alen > REDIS_AUTHPASS_MAX_LEN \<or> blen > REDIS_AUTHPASS_MAX_LEN then True
      else (let diff = fold (\<lambda>j d. d OR (fill_buf (cstring a) ! j XOR fill_buf (cstring b) ! j)) [0..<REDIS_AUTHPASS_MAX_LEN] 0 in
        diff \<noteq> 0 \<or> alen \<noteq> blen))"

definition authCommand :: "byte list option \<Rightarrow> nat \<Rightarrow> byte list \<Rightarrow> redisServer \<Rightarrow> redisServer" where
  "authCommand requirepass i pass s =
     (case requirepass of
        None \<Rightarrow> addReplyError i ''Client sent AUTH, but no password is set'' s
      | Some p \<Rightarrow>
          if \<not> time_independent_strcmp pass p then addReply i shared_ok (upd_client i (\<lambda>c. c\<lparr>c_authenticated := True\<rparr>) s)
          else addReplyError i ''invalid password'' (upd_client i (\<lambda>c. c\<lparr>c_authenticated := False\<rparr>) s))"

definition shared_pong :: "byte list" where "shared_pong = bytes ''+PONG'' @ crlf"

text \<open>\<open>addReplyErrorFormat\<close> with \<open>%s\<close>: the argument is a C string, and line breaks become spaces.\<close>

definition addReplyErrorFormat :: "nat \<Rightarrow> string \<Rightarrow> byte list \<Rightarrow> string \<Rightarrow> redisServer \<Rightarrow> redisServer" where
  "addReplyErrorFormat i before arg after =
     addReply i (bytes ''-ERR '' @ map (\<lambda>b. if b = 13 \<or> b = 10 then 32 else b) (bytes before @ cstring arg @ bytes after) @ crlf)"

definition pingCommand :: "nat \<Rightarrow> argv \<Rightarrow> redisServer \<Rightarrow> redisServer option" where
  "pingCommand i argv s =
     (if length argv > 2 then Some (addReplyErrorFormat i (''wrong number of arguments for '' @ [CHR 0x27]) (bytes ''ping'') (CHR 0x27 # '' command'') s)
      else if has_flag REDIS_PUBSUB (sv_clients s i) then
        (let s = addReplyBulkCBuffer i (bytes ''pong'') (addReply i (bytes ''*2'' @ crlf) s) in
         if length argv = 1 then Some (addReplyBulkCBuffer i [] s) else addReplyBulk i (argv ! 1) s)
      else if length argv = 1 then Some (addReply i shared_pong s)
      else addReplyBulk i (argv ! 1) s)"

definition echoCommand :: "nat \<Rightarrow> robj \<Rightarrow> redisServer \<Rightarrow> redisServer option" where
  "echoCommand i ob s = addReplyBulk i ob s"

definition dbsizeCommand :: "nat \<Rightarrow> redisServer \<Rightarrow> redisServer" where
  "dbsizeCommand i s = addReplyLongLong i (int (card (dom (db_dict (sv_dbs s (c_db (sv_clients s i))))))) s"

section \<open>Execution\<close>

text \<open>
  Every function of the table but \<open>execCommand\<close>, which never runs inside a transaction. A missing argument,
  which the check of the arity excludes, is a read outside the vector.
\<close>

definition proc :: "(nat \<Rightarrow> byte) \<Rightarrow> (robj \<Rightarrow> nat) \<Rightarrow> (byte list list \<Rightarrow> byte list list) \<Rightarrow> byte list list \<Rightarrow> byte list option \<Rightarrow>
    string \<Rightarrow> nat \<Rightarrow> argv \<Rightarrow> redisServer \<Rightarrow> redisServer option" where
  "proc garb rc ord listing requirepass p i argv s =
     (
      if p = ''getCommand'' then (case argv of [_, k] \<Rightarrow> getCommand garb i (str_val k) s | _ \<Rightarrow> None)
      else if p = ''setCommand'' then (case argv of _ # k # v # opts \<Rightarrow> setCommand garb rc i (str_val k) v opts s | _ \<Rightarrow> None)
      else if p = ''setnxCommand'' then (case argv of [_, k, v] \<Rightarrow> setnxCommand garb rc i (str_val k) v s | _ \<Rightarrow> None)
      else if p = ''setexCommand'' then (case argv of [_, k, e, v] \<Rightarrow> setexCommand garb rc i (str_val k) e v s | _ \<Rightarrow> None)
      else if p = ''psetexCommand'' then (case argv of [_, k, e, v] \<Rightarrow> psetexCommand garb rc i (str_val k) e v s | _ \<Rightarrow> None)
      else if p = ''appendCommand'' then (case argv of [_, k, v] \<Rightarrow> appendCommand garb rc i (str_val k) v s | _ \<Rightarrow> None)
      else if p = ''strlenCommand'' then (case argv of [_, k] \<Rightarrow> strlenCommand garb i (str_val k) s | _ \<Rightarrow> None)
      else if p = ''delCommand'' then (case argv of _ # ks \<Rightarrow> delCommand garb i (map str_val ks) s | _ \<Rightarrow> None)
      else if p = ''existsCommand'' then (case argv of _ # ks \<Rightarrow> existsCommand garb i (map str_val ks) s | _ \<Rightarrow> None)
      else if p = ''setrangeCommand'' then (case argv of [_, k, off, v] \<Rightarrow> setrangeCommand garb rc i (str_val k) off (str_val v) s | _ \<Rightarrow> None)
      else if p = ''getrangeCommand'' then (case argv of [_, k, a, b] \<Rightarrow> getrangeCommand garb i (str_val k) a b s | _ \<Rightarrow> None)
      else if p = ''incrCommand'' then (case argv of [_, k] \<Rightarrow> incrCommand garb rc i (str_val k) s | _ \<Rightarrow> None)
      else if p = ''decrCommand'' then (case argv of [_, k] \<Rightarrow> decrCommand garb rc i (str_val k) s | _ \<Rightarrow> None)
      else if p = ''incrbyCommand'' then (case argv of [_, k, n] \<Rightarrow> incrbyCommand garb rc i (str_val k) n s | _ \<Rightarrow> None)
      else if p = ''decrbyCommand'' then (case argv of [_, k, n] \<Rightarrow> decrbyCommand garb rc i (str_val k) n s | _ \<Rightarrow> None)
      else if p = ''getsetCommand'' then (case argv of [_, k, v] \<Rightarrow> getsetCommand garb rc i (str_val k) v s | _ \<Rightarrow> None)
      else if p = ''mgetCommand'' then (case argv of _ # ks \<Rightarrow> mgetCommand garb i (map str_val ks) s | _ \<Rightarrow> None)
      else if p = ''msetCommand'' then (case argv of _ # args \<Rightarrow> msetGenericCommand garb rc i args False s | _ \<Rightarrow> None)
      else if p = ''msetnxCommand'' then (case argv of _ # args \<Rightarrow> msetGenericCommand garb rc i args True s | _ \<Rightarrow> None)
      else if p = ''selectCommand'' then (case argv of [_, n] \<Rightarrow> selectCommand i n s | _ \<Rightarrow> None)
      else if p = ''moveCommand'' then (case argv of [_, k, n] \<Rightarrow> moveCommand garb i (str_val k) n s | _ \<Rightarrow> None)
      else if p = ''renameCommand'' then (case argv of [_, a, b] \<Rightarrow> renameGenericCommand garb i (str_val a) (str_val b) False s | _ \<Rightarrow> None)
      else if p = ''renamenxCommand'' then (case argv of [_, a, b] \<Rightarrow> renameGenericCommand garb i (str_val a) (str_val b) True s | _ \<Rightarrow> None)
      else if p = ''expireCommand'' then (case argv of [_, k, e] \<Rightarrow> expireCommand garb i (str_val k) e s | _ \<Rightarrow> None)
      else if p = ''expireatCommand'' then (case argv of [_, k, e] \<Rightarrow> expireatCommand garb i (str_val k) e s | _ \<Rightarrow> None)
      else if p = ''pexpireCommand'' then (case argv of [_, k, e] \<Rightarrow> pexpireCommand garb i (str_val k) e s | _ \<Rightarrow> None)
      else if p = ''pexpireatCommand'' then (case argv of [_, k, e] \<Rightarrow> pexpireatCommand garb i (str_val k) e s | _ \<Rightarrow> None)
      else if p = ''ttlCommand'' then (case argv of [_, k] \<Rightarrow> ttlGenericCommand garb i (str_val k) False s | _ \<Rightarrow> None)
      else if p = ''pttlCommand'' then (case argv of [_, k] \<Rightarrow> ttlGenericCommand garb i (str_val k) True s | _ \<Rightarrow> None)
      else if p = ''persistCommand'' then (case argv of [_, k] \<Rightarrow> persistCommand i (str_val k) s | _ \<Rightarrow> None)
      else if p = ''typeCommand'' then (case argv of [_, k] \<Rightarrow> typeCommand garb i (str_val k) s | _ \<Rightarrow> None)
      else if p = ''dbsizeCommand'' then (case argv of [_] \<Rightarrow> Some (dbsizeCommand i s) | _ \<Rightarrow> None)
      else if p = ''flushdbCommand'' then (case argv of [_] \<Rightarrow> Some (flushdbCommand i s) | _ \<Rightarrow> None)
      else if p = ''flushallCommand'' then (case argv of [_] \<Rightarrow> Some (flushallCommand i s) | _ \<Rightarrow> None)
      else if p = ''authCommand'' then (case argv of [_, p] \<Rightarrow> Some (authCommand requirepass i (str_val p) s) | _ \<Rightarrow> None)
      else if p = ''pingCommand'' then pingCommand i argv s
      else if p = ''echoCommand'' then (case argv of [_, x] \<Rightarrow> echoCommand i x s | _ \<Rightarrow> None)
      else if p = ''multiCommand'' then (case argv of [_] \<Rightarrow> Some (multiCommand i s) | _ \<Rightarrow> None)
      else if p = ''discardCommand'' then (case argv of [_] \<Rightarrow> discardCommand i s | _ \<Rightarrow> None)
      else if p = ''watchCommand'' then (case argv of _ # ks \<Rightarrow> Some (watchCommand i (map str_val ks) s) | _ \<Rightarrow> None)
      else if p = ''unwatchCommand'' then (case argv of [_] \<Rightarrow> unwatchCommand i s | _ \<Rightarrow> None)
      else if p = ''subscribeCommand'' then (case argv of _ # cs \<Rightarrow> Some (subscribeCommand i (map str_val cs) s) | _ \<Rightarrow> None)
      else if p = ''unsubscribeCommand'' then (case argv of _ # cs \<Rightarrow> unsubscribeCommand ord i (map str_val cs) s | _ \<Rightarrow> None)
      else if p = ''psubscribeCommand'' then (case argv of _ # ps \<Rightarrow> Some (psubscribeCommand i (map str_val ps) s) | _ \<Rightarrow> None)
      else if p = ''punsubscribeCommand'' then (case argv of _ # ps \<Rightarrow> punsubscribeCommand i (map str_val ps) s | _ \<Rightarrow> None)
      else if p = ''publishCommand'' then (case argv of [_, c, m] \<Rightarrow> publishCommand i (str_val c) (str_val m) s | _ \<Rightarrow> None)
      else if p = ''pubsubCommand'' then (case argv of _ # args \<Rightarrow> pubsubCommand listing i (map str_val args) s | _ \<Rightarrow> None)
      else None)"

definition REDIS_FORCE_AOF :: "32 word" where "REDIS_FORCE_AOF = 16384"

definition call :: "(string \<Rightarrow> nat \<Rightarrow> argv \<Rightarrow> redisServer \<Rightarrow> redisServer option) \<Rightarrow> nat \<Rightarrow> redisCommand \<Rightarrow> redisServer \<Rightarrow> redisServer option" where
  "call f i cmd s = do {
     let old = c_flags (sv_clients s i);
     let s = upd_client i (clear_flag (REDIS_FORCE_AOF OR REDIS_FORCE_REPL)) s;
     let before = sv_dirty s;
     s \<leftarrow> f (cmd_proc cmd) i (c_argv (sv_clients s i)) s;
     let changed = sv_dirty s - before > 0;
     let c = sv_clients s i;
     let s = propagate (c_db c) (map str_val (c_argv c)) (changed \<or> has_flag REDIS_FORCE_AOF c) (changed \<or> has_flag REDIS_FORCE_REPL c) s;
     let s = upd_client i (clear_flag (REDIS_FORCE_AOF OR REDIS_FORCE_REPL)) s;
     Some (upd_client i (set_flag (old AND (REDIS_FORCE_AOF OR REDIS_FORCE_REPL))) s) }"

definition run_proc :: "(string \<Rightarrow> nat \<Rightarrow> argv \<Rightarrow> redisServer \<Rightarrow> redisServer option) \<Rightarrow> string \<Rightarrow> nat \<Rightarrow> argv \<Rightarrow> redisServer \<Rightarrow> redisServer option" where
  "run_proc f p i argv s = (if p = ''execCommand'' then execCommand (call f) i s else f p i argv s)"

section \<open>Requests\<close>

definition shared_noautherr :: "byte list" where "shared_noautherr = bytes ''-NOAUTH Authentication required.'' @ crlf"

definition shared_bgsaveerr :: "byte list" where
  "shared_bgsaveerr = bytes ''-MISCONF Redis is configured to save RDB snapshots, but is currently not able to persist on disk. Commands that may modify the data set are disabled. Please check Redis logs for details about the error.'' @ crlf"

definition shared_noreplicaserr :: "byte list" where "shared_noreplicaserr = bytes ''-NOREPLICAS Not enough good slaves to write.'' @ crlf"

definition shared_roslaveerr :: "byte list" where
  "shared_roslaveerr = bytes ''-READONLY You can'' @ [ch (CHR 0x27)] @ bytes ''t write against a read only slave.'' @ crlf"

definition shared_masterdownerr :: "byte list" where
  "shared_masterdownerr = bytes ''-MASTERDOWN Link with MASTER is down and slave-serve-stale-data is set to '' @ [ch (CHR 0x27)] @ bytes ''no'' @ [ch (CHR 0x27)] @ bytes ''.'' @ crlf"

definition shared_loadingerr :: "byte list" where "shared_loadingerr = bytes ''-LOADING Redis is loading the dataset in memory'' @ crlf"

definition shared_slowscripterr :: "byte list" where
  "shared_slowscripterr = bytes ''-BUSY Redis is busy running a script. You can only call SCRIPT KILL or SHUTDOWN NOSAVE.'' @ crlf"

definition REDIS_MASTER :: "32 word" where "REDIS_MASTER = 2"

definition REDIS_CLOSE_AFTER_REPLY :: "32 word" where "REDIS_CLOSE_AFTER_REPLY = 64"

text \<open>The part of the configuration and of the state of persistence and replication that requests depend on.\<close>

record redisConfig =
  cf_requirepass :: "byte list option"
  cf_stop_writes_on_bgsave_err :: bool
  cf_saveparamslen :: nat
  cf_lastbgsave_ok :: bool
  cf_aof_last_write_ok :: bool
  cf_aof_errmsg :: "byte list"
  cf_min_slaves_to_write :: nat
  cf_min_slaves_max_lag :: nat
  cf_good_slaves_count :: nat
  cf_slave_ro :: bool
  cf_repl_connected :: bool
  cf_serve_stale_data :: bool
  cf_lua_timedout :: bool

definition refuse :: "nat \<Rightarrow> bool \<Rightarrow> byte list \<Rightarrow> redisServer \<Rightarrow> redisServer" where
  "refuse i flag r s = addReply i r (if flag then flagTransaction i s else s)"

definition arg_initial :: "argv \<Rightarrow> byte \<Rightarrow> bool" where
  "arg_initial argv b = (length argv = 2 \<and> tolower_byte (hd (str_val (argv ! 1) @ [0])) = b)"

text \<open>Why a request is refused: the reply and whether the transaction is flagged.\<close>

definition refusal :: "redisConfig \<Rightarrow> redisServer \<Rightarrow> nat \<Rightarrow> redisCommand \<Rightarrow> argv \<Rightarrow> (bool \<times> byte list) option" where
  "refusal cf s i cmd argv =
     (let c = sv_clients s i; wr = (cmd_flags cmd AND REDIS_CMD_WRITE \<noteq> 0); p = cmd_proc cmd in
      if cf_requirepass cf \<noteq> None \<and> \<not> c_authenticated c \<and> p \<noteq> ''authCommand'' then Some (True, shared_noautherr)
      else if (cf_stop_writes_on_bgsave_err cf \<and> cf_saveparamslen cf > 0 \<and> \<not> cf_lastbgsave_ok cf \<or> \<not> cf_aof_last_write_ok cf) \<and>
          \<not> sv_masterhost s \<and> (wr \<or> p = ''pingCommand'')
        then Some (True, if cf_aof_last_write_ok cf then shared_bgsaveerr
          else bytes ''-MISCONF Errors writing to the AOF file: '' @ cf_aof_errmsg cf @ crlf)
      else if \<not> sv_masterhost s \<and> cf_min_slaves_to_write cf \<noteq> 0 \<and> cf_min_slaves_max_lag cf \<noteq> 0 \<and> wr \<and>
          cf_good_slaves_count cf < cf_min_slaves_to_write cf then Some (True, shared_noreplicaserr)
      else if sv_masterhost s \<and> cf_slave_ro cf \<and> \<not> has_flag REDIS_MASTER c \<and> wr then Some (False, shared_roslaveerr)
      else if has_flag REDIS_PUBSUB c \<and> p \<noteq> ''pingCommand'' \<and> p \<noteq> ''subscribeCommand'' \<and> p \<noteq> ''unsubscribeCommand'' \<and>
          p \<noteq> ''psubscribeCommand'' \<and> p \<noteq> ''punsubscribeCommand''
        then Some (False, bytes ''-ERR '' @ bytes ''only (P)SUBSCRIBE / (P)UNSUBSCRIBE / PING / QUIT allowed in this context'' @ crlf)
      else if sv_masterhost s \<and> \<not> cf_repl_connected cf \<and> \<not> cf_serve_stale_data cf \<and> cmd_flags cmd AND REDIS_CMD_STALE = 0
        then Some (True, shared_masterdownerr)
      else if sv_loading s \<and> cmd_flags cmd AND REDIS_CMD_LOADING = 0 then Some (False, shared_loadingerr)
      else if cf_lua_timedout cf \<and> p \<noteq> ''authCommand'' \<and> p \<noteq> ''replconfCommand'' \<and>
          \<not> (p = ''shutdownCommand'' \<and> arg_initial argv (ch CHR ''n'')) \<and> \<not> (p = ''scriptCommand'' \<and> arg_initial argv (ch CHR ''k''))
        then Some (True, shared_slowscripterr)
      else None)"

definition apostrophe :: "string" where "apostrophe = [CHR 0x27]"

text \<open>The result is whether the connection goes on (\<open>REDIS_OK\<close>). The arguments of the client are not empty.\<close>

definition processCommand :: "(string \<Rightarrow> nat \<Rightarrow> argv \<Rightarrow> redisServer \<Rightarrow> redisServer option) \<Rightarrow> redisConfig \<Rightarrow> redisCommand list \<Rightarrow>
    nat \<Rightarrow> redisServer \<Rightarrow> (redisServer \<times> bool) option" where
  "processCommand f cf tab i s =
     (let argv = c_argv (sv_clients s i) in
      if argv = [] then None
      else if map tolower_byte (cstring (str_val (hd argv))) = bytes ''quit''
        then Some (upd_client i (set_flag REDIS_CLOSE_AFTER_REPLY) (addReply i shared_ok s), False)
      else (case lookupCommand tab (str_val (hd argv)) of
          None \<Rightarrow> Some (addReplyErrorFormat i (''unknown command '' @ apostrophe) (str_val (hd argv)) apostrophe (flagTransaction i s), True)
        | Some cmd \<Rightarrow>
            if cmd_arity cmd > 0 \<and> cmd_arity cmd \<noteq> int (length argv) \<or> int (length argv) < - cmd_arity cmd
            then Some (addReplyErrorFormat i (''wrong number of arguments for '' @ apostrophe) (bytes (cmd_name cmd)) (apostrophe @ '' command'') (flagTransaction i s), True)
            else (case refusal cf s i cmd argv of
                Some (flag, r) \<Rightarrow> Some (refuse i flag r s, True)
              | None \<Rightarrow>
                  if has_flag REDIS_MULTI (sv_clients s i) \<and> cmd_proc cmd \<noteq> ''execCommand'' \<and> cmd_proc cmd \<noteq> ''discardCommand'' \<and>
                      cmd_proc cmd \<noteq> ''multiCommand'' \<and> cmd_proc cmd \<noteq> ''watchCommand''
                  then Some (addReply i shared_queued (queueMultiCommand i cmd s), True)
                  else map_option (\<lambda>s. (s, True)) (call (run_proc f) i cmd s))))"

end
