(* ===== verification/Locking.thy ===== *)
theory Locking
  imports Commands
begin

text \<open>
  Optimistic locking over the commands of the table: whatever the clients send, a client that watches a
  key and is not dirty still reads the value it had when it began to watch it. First every command is
  shown to signal each key it changes; MOVE and PERSIST, which do not, are not among the commands covered.
\<close>

section \<open>Commands that signal what they change\<close>

lemma honest_reply: "effect s (view s) {} s1 \<Longrightarrow> honest s (addReply i r s1)"
  by (rule honest_same [OF result_reply])

lemma honest_error: "server_inv s \<Longrightarrow> honest s (addReplyError i e s)"
  unfolding addReplyError_def by (rule honest_reply [OF effect_refl])

lemma honest_get:
  assumes "server_inv s" "length key \<le> STRING_MAX" "getCommand garb i key s = Some s'"
  shows "honest s s'"
  using getCommand_correct [OF assms(1,2), of garb i] assms(3) honest_same by auto

lemma set_outcome_honest: "set_outcome s i flags key c w r r' s' \<Longrightarrow> honest s s'"
  by (auto simp: set_outcome_def Let_def split: if_splits intro: honest_same honest_put)

lemma honest_setGeneric:
  assumes inv: "server_inv s" and key: "length key \<le> STRING_MAX" and val: "obj_wf val"
    and e: "\<And>x. expire = Some x \<Longrightarrow> string_wf x" and run: "setGenericCommand garb name i flags key val expire u ok_r abort_r s = Some s'"
  shows "honest s s'"
proof (cases expire)
  case None
  then have "good_expire s expire u None" by (simp add: good_expire_def)
  from setGenericCommand_correct [OF inv key val this, of garb name i flags ok_r abort_r] run show ?thesis
    using set_outcome_honest by auto
next
  case (Some x)
  note wf = e [OF Some]
  define n where "n = parse_number (cstring (str_val x))"
  show ?thesis
  proof (cases "n = None \<or> the n \<le> 0")
    case True
    then have "n = None \<or> (\<exists>k \<le> 0. n = Some k)" by (cases n) auto
    from setGenericCommand_bad_expire [OF inv wf this [unfolded n_def], of garb name i flags key val u ok_r abort_r] run Some
    show ?thesis using honest_same by auto
  next
    case False
    then obtain k where k: "n = Some k" "0 < k" by auto
    show ?thesis
    proof (cases "int64_range (unit_ms u k) \<and> int64_range (sv_now s + unit_ms u k)")
      case True
      then have "good_expire s expire u (Some (sv_now s + unit_ms u k))" using Some wf k by (simp add: good_expire_def n_def)
      from setGenericCommand_correct [OF inv key val this, of garb name i flags ok_r abort_r] run show ?thesis
        using set_outcome_honest by auto
    next
      case ov: False
      define db where "db = c_db (sv_clients s i)"
      note dbl = server_inv_db [OF inv, of i, folded db_def]
      have arg: "set_expire_arg i name expire u s = (if int64_range (unit_ms u k) then Some (s, Some (unit_ms u k)) else None)"
        using k wf Some parse_number_range [OF k(1) [unfolded n_def]] by (simp add: set_expire_arg_def getLongLongFromObjectOrReply_def getLongLongFromObject_correct n_def chk64_def unit_ms_def)
      then have r: "int64_range (unit_ms u k)" using run by (auto simp: setGenericCommand_def split: if_splits)
      obtain s1 where s1: "effect s (view s) {} s1" and gen: "setGenericCommand garb name i flags key val expire u ok_r abort_r s =
         (if set_aborts flags (view s db key \<noteq> None) then Some (addReply i (case abort_r of Some r \<Rightarrow> r | None \<Rightarrow> shared_nullbulk) s1)
          else do { s \<leftarrow> set_write garb db key val (Some (unit_ms u k)) s1; Some (addReply i (case ok_r of Some r \<Rightarrow> r | None \<Rightarrow> shared_ok) s) })"
        using setGeneric_run [OF inv key _ db_def, of name expire u "unit_ms u k" garb flags val ok_r abort_r] arg r Some by auto
      obtain s2 where s2: "setKey garb db key val s1 = Some s2" "keeps s1 s2"
        using setKey_correct [OF effect_inv [OF s1] key dbl val] effect_keeps by blast
      have "sv_now s2 = sv_now s" using s2(2) effect_keeps [OF s1] by (simp add: keeps_def)
      then have "set_write garb db key val (Some (unit_ms u k)) s1 = None" using ov r s2(1) by (simp add: set_write_def chk64_def incr_dirty_def)
      then have "s' = addReply i (case abort_r of Some r \<Rightarrow> r | None \<Rightarrow> shared_nullbulk) s1" using run gen by (simp split: if_splits)
      then show ?thesis using honest_reply [OF s1] by simp
    qed
  qed
qed

lemma encoded_arg:
  assumes "string_wf val" "tryObjectEncoding garb r val \<bind> f = Some s'"
  obtains v where "string_wf v" "f v = Some s'"
  using tryObjectEncoding_correct [OF assms(1), of garb r] assms(2) by (auto split: Option.bind_splits)

lemma set_options_wf:
  "set_options opts flags u expire = Some (flags', u', expire') \<Longrightarrow> \<forall>x \<in> set opts. string_wf x \<Longrightarrow>
   (\<And>x. expire = Some x \<Longrightarrow> string_wf x) \<Longrightarrow> expire' = Some y \<Longrightarrow> string_wf y"
  by (induction opts flags u expire rule: set_options.induct) (auto simp: Let_def split: if_splits list.splits)

lemma honest_set:
  assumes inv: "server_inv s" and key: "length key \<le> STRING_MAX" and val: "string_wf val" and opts: "\<forall>x \<in> set opts. string_wf x"
    and run: "setCommand garb rc i key val opts s = Some s'"
  shows "honest s s'"
proof (cases "set_options opts 0 UNIT_SECONDS None")
  case None
  then show ?thesis using run honest_reply [OF effect_refl [OF inv], of i shared_syntaxerr] by (simp add: setCommand_def)
next
  case (Some p)
  obtain flags u expire where p: "p = (flags, u, expire)" by (cases p)
  have e: "string_wf x" if "expire = Some x" for x
    using set_options_wf [OF Some [unfolded p] opts _ that] by simp
  show ?thesis
    by (rule encoded_arg [OF val, of garb "rc val" "\<lambda>val. setGenericCommand garb ''set'' i flags key val expire u None None s" s'])
      (use run Some p honest_setGeneric [OF inv key string_wf_obj(1) e] in \<open>auto simp: setCommand_def\<close>)
qed

text \<open>A command known to return keeps what is known of its result.\<close>

lemma returned: "\<exists>s'. x = Some s' \<and> P s' \<Longrightarrow> x = Some s \<Longrightarrow> P s"
  by auto

lemma honest_setnx:
  assumes "server_inv s" "length key \<le> STRING_MAX" "string_wf val" "setnxCommand garb rc i key val s = Some s'"
  shows "honest s s'"
  by (rule set_outcome_honest [OF returned [OF setnxCommand_correct [OF assms(1-3)] assms(4)]])

lemma honest_setex:
  assumes "server_inv s" "length key \<le> STRING_MAX" "string_wf e" "string_wf val"
    "setexCommand garb rc i key e val s = Some s' \<or> psetexCommand garb rc i key e val s = Some s'"
  shows "honest s s'"
proof -
  obtain name u where "tryObjectEncoding garb (rc val) val \<bind> (\<lambda>val. setGenericCommand garb name i 0 key val (Some e) u None None s) = Some s'"
    using assms(5) unfolding setexCommand_def psetexCommand_def by blast
  then show ?thesis
    by (rule encoded_arg [OF assms(4)]) (rule honest_setGeneric [OF assms(1,2) string_wf_obj(1)], use assms(3) in auto)
qed

lemma honest_append:
  assumes "server_inv s" "length key \<le> STRING_MAX" "string_wf v" "sdsEncodedObject v" "appendCommand garb rc i key v s = Some s'"
  shows "honest s s'"
  using returned [OF appendCommand_correct [OF assms(1-4)] assms(5)]
  by (auto simp: append_outcome_def Let_def split: if_splits intro: honest_same honest_put)

lemma honest_strlen:
  assumes "server_inv s" "length key \<le> STRING_MAX" "strlenCommand garb i key s = Some s'"
  shows "honest s s'"
  by (rule honest_same [OF returned [OF strlenCommand_correct [OF assms(1,2)] assms(3)]])

lemma honest_del:
  assumes "server_inv s" "\<forall>k \<in> set keys. length k \<le> STRING_MAX" "length keys < 2 ^ 31" "delCommand garb i keys s = Some s'"
  shows "honest s s'"
  using returned [OF delCommand_correct [OF assms(1-3)] assms(4), unfolded Let_def]
  by (rule honestI) (auto simp: vdel_def present_def image_iff eq_commute [of None] split: if_splits)

lemma honest_exists:
  assumes "server_inv s" "\<forall>k \<in> set keys. length k \<le> STRING_MAX" "length keys < 2 ^ 31" "existsCommand garb i keys s = Some s'"
  shows "honest s s'"
  by (rule honest_same [OF returned [OF existsCommand_correct [OF assms(1-3)] assms(4)]])

text \<open>An argument that is not a number is reported before anything else.\<close>

lemma number_arg:
  assumes "server_inv s" "string_wf x"
    "getLongLongFromObjectOrReply i (Some x) None s \<bind> (\<lambda>(s, r). case r of None \<Rightarrow> Some s | Some n \<Rightarrow> f n s) = Some s'"
    "\<And>n. parse_number (cstring (str_val x)) = Some n \<Longrightarrow> f n s = Some s' \<Longrightarrow> honest s s'"
  shows "honest s s'"
proof (cases "parse_number (cstring (str_val x))")
  case None
  then show ?thesis using assms(2,3) honest_error [OF assms(1)]
    by (auto simp: getLongLongFromObjectOrReply_def getLongLongFromObject_correct)
next
  case (Some n)
  then show ?thesis using assms(2,3) assms(4) [OF Some] by (simp add: getLongLongFromObjectOrReply_def getLongLongFromObject_correct)
qed

lemma incr_outcome_honest: "incr_outcome s i key n s' \<Longrightarrow> honest s s'"
  by (auto simp: incr_outcome_def Let_def split: if_splits option.splits intro: honest_same honest_put)

lemma honest_incr:
  assumes "server_inv s" "length key \<le> STRING_MAX" "int64_range n" "incrDecrCommand garb rc i key n s = Some s'"
  shows "honest s s'"
  by (rule incr_outcome_honest [OF returned [OF incrDecrCommand_correct [OF assms(1-3)] assms(4)]])

lemma honest_incrby:
  assumes "server_inv s" "length key \<le> STRING_MAX" "string_wf x"
    "incrbyCommand garb rc i key x s = Some s' \<or> decrbyCommand garb rc i key x s = Some s'"
  shows "honest s s'"
  using assms(4)
proof
  assume "incrbyCommand garb rc i key x s = Some s'"
  then show ?thesis unfolding incrbyCommand_def
    by (rule number_arg [OF assms(1,3)]) (rule honest_incr [OF assms(1,2) parse_number_range])
next
  assume "decrbyCommand garb rc i key x s = Some s'"
  then show ?thesis unfolding decrbyCommand_def
    by (rule number_arg [OF assms(1,3)]) (auto simp: chk64_def split: if_splits intro: honest_incr [OF assms(1,2)])
qed

lemma honest_getrange:
  assumes "server_inv s" "length key \<le> STRING_MAX" "string_wf x" "string_wf y" "getrangeCommand garb i key x y s = Some s'"
  shows "honest s s'"
proof (rule number_arg [OF assms(1,3) assms(5) [unfolded getrangeCommand_def]], erule number_arg [OF assms(1,4)])
  fix a b assume "parse_number (cstring (str_val x)) = Some a" "parse_number (cstring (str_val y)) = Some b"
  from returned [OF getrangeCommand_correct [OF assms(1-4) this] assms(5)] show "honest s s'" by (rule honest_same)
qed

text \<open>The offset and the value of SETRANGE fit in 63 bits together.\<close>

lemma honest_setrange:
  assumes "server_inv s" "length key \<le> STRING_MAX" "string_wf x"
    "\<And>n. parse_number (cstring (str_val x)) = Some n \<Longrightarrow> n + int (length a) < 2 ^ 63" "setrangeCommand garb rc i key x a s = Some s'"
  shows "honest s s'"
proof (cases "parse_number (cstring (str_val x))")
  case None
  then show ?thesis using assms(3,5) honest_error [OF assms(1)]
    by (auto simp: setrangeCommand_def getLongFromObjectOrReply_def getLongLongFromObjectOrReply_def getLongLongFromObject_correct)
next
  case (Some n)
  from returned [OF setrangeCommand_correct [OF assms(1-3) Some assms(4) [OF Some]] assms(5)] show ?thesis
    by (auto simp: setrange_outcome_def Let_def split: if_splits intro: honest_same honest_put)
qed

lemma mset_view_other: "mset_view db kvs v db' k \<noteq> v db' k \<Longrightarrow> (k, db') \<in> (\<lambda>(k, x). (k, db)) ` set kvs"
proof (induction kvs arbitrary: v)
  case (Cons kv kvs)
  obtain k1 x where kv: "kv = (k1, x)" by (cases kv)
  let ?v = "vput db k1 (Some (CString (str_val x), None)) v"
  show ?case
  proof (cases "mset_view db kvs ?v db' k = ?v db' k")
    case True
    then have "?v db' k \<noteq> v db' k" using Cons.prems by (simp add: mset_view_def kv)
    then show ?thesis by (auto simp: kv split: if_splits)
  next
    case False
    from Cons.IH [OF this] show ?thesis by (simp add: kv)
  qed
qed (simp add: mset_view_def)

lemma pairs_ok: "pairs args = Some kvs \<Longrightarrow> \<forall>x \<in> set args. string_wf x \<Longrightarrow> args_ok kvs"
  by (induction args arbitrary: kvs rule: pairs.induct) (auto simp: args_ok_def length_str_val)

lemma honest_mset:
  assumes "server_inv s" "\<forall>x \<in> set args. string_wf x" "msetGenericCommand garb rc i args nx s = Some s'"
  shows "honest s s'"
proof (cases "pairs args")
  case None
  then show ?thesis using assms(3) honest_error [OF assms(1)] by (auto simp: msetGenericCommand_def)
next
  case (Some kvs)
  note r = returned [OF msetGenericCommand_correct [OF assms(1) Some pairs_ok [OF Some assms(2)]] assms(3), unfolded Let_def]
  show ?thesis
  proof (cases "nx \<and> any_present (view s) (c_db (sv_clients s i)) kvs")
    case True
    with r show ?thesis using honest_same by simp
  next
    case False
    have "result s i (mset_view (c_db (sv_clients s i)) kvs (view s)) ((\<lambda>(k, x). (k, c_db (sv_clients s i))) ` set kvs)
        (if nx then shared_cone else shared_ok) s'" using r unfolding if_not_P [OF False] .
    then show ?thesis by (rule honestI) (rule mset_view_other)
  qed
qed

lemma honest_rename:
  assumes "server_inv s" "length a \<le> STRING_MAX" "length b \<le> STRING_MAX" "renameGenericCommand garb i a b nx s = Some s'"
  shows "honest s s'"
proof -
  let ?db = "c_db (sv_clients s i)"
  note r = returned [OF renameGenericCommand_correct [OF assms(1-3)] assms(4), unfolded rename_outcome_def Let_def]
  have put: "honest s s'" if "result s i (vput ?db a None (vput ?db b x (view s))) {(a, ?db), (b, ?db)} r s'" for x r
    using that by (rule honestI) (auto split: if_splits)
  show ?thesis using r put by (auto split: if_splits intro: honest_same)
qed

lemma honest_expire:
  assumes inv: "server_inv s" and key: "length key \<le> STRING_MAX" and x: "string_wf x" and run: "expireGenericCommand garb i key x base u s = Some s'"
  shows "honest s s'"
proof (rule number_arg [OF inv x run [unfolded expireGenericCommand_def Let_def]])
  fix n assume n: "parse_number (cstring (str_val x)) = Some n"
  define m where "m = (if u = UNIT_SECONDS then n * 1000 else n)"
  have "getLongLongFromObjectOrReply i (Some x) None s = Some (s, Some n)"
    using n x by (simp add: getLongLongFromObjectOrReply_def getLongLongFromObject_correct)
  then obtain f where "expireGenericCommand garb i key x base u s = (if u = UNIT_SECONDS then chk64 (n * 1000) else Some n) \<bind> (\<lambda>w. chk64 (w + base) \<bind> f)"
    unfolding expireGenericCommand_def Let_def by simp
  then have "int64_range m" "int64_range (m + base)"
    using run n parse_number_range [OF n] by (auto simp: m_def chk64_def split: if_splits)
  from returned [OF expireGenericCommand_correct [OF inv key x n this(1) [unfolded m_def] this(2) m_def [THEN arg_cong, of "\<lambda>m. m + base"]] run]
  show "honest s s'"
    by (auto simp: expire_outcome_def Let_def split: option.splits intro: honest_same honest_put)
qed

lemma honest_ttl:
  assumes inv: "server_inv s" and key: "length key \<le> STRING_MAX" and run: "ttlGenericCommand garb i key ms s = Some s'"
  shows "honest s s'"
proof -
  let ?db = "c_db (sv_clients s i)"
  obtain s1 ob where s1: "lookupKeyRead garb ?db key s = Some (s1, ob)" "effect s (view s) {} s1"
    using lookupKeyRead_correct [OF inv key server_inv_db [OF inv]] by blast
  obtain v where "s' = addReplyLongLong i v s1"
    using run s1(1) by (auto simp: ttlGenericCommand_def Let_def split: if_splits Option.bind_splits)
  then show ?thesis using honest_reply [OF s1(2)] by (simp add: addReplyLongLong_def)
qed

lemma honest_type:
  assumes inv: "server_inv s" and key: "length key \<le> STRING_MAX" and run: "typeCommand garb i key s = Some s'"
  shows "honest s s'"
proof -
  let ?db = "c_db (sv_clients s i)"
  obtain s1 ob where s1: "lookupKeyRead garb ?db key s = Some (s1, ob)" "effect s (view s) {} s1"
    using lookupKeyRead_correct [OF inv key server_inv_db [OF inv]] by blast
  then show ?thesis using run honest_reply [OF s1(2)] by (auto simp: typeCommand_def addReplyStatus_def)
qed

lemma honest_flushdb: "server_inv s \<Longrightarrow> honest s (flushdbCommand i s)"
  using flushdbCommand_correct [OF _ refl, of s i] by (rule honestI) (auto simp: view_def split: if_splits)

lemma honest_getset:
  assumes inv: "server_inv s" and key: "length key \<le> STRING_MAX" and val: "string_wf val" and run: "getsetCommand garb rc i key val s = Some s'"
  shows "honest s s'"
proof -
  let ?db = "c_db (sv_clients s i)"
  note dbl = server_inv_db [OF inv, of i]
  obtain s1 where s1: "getGenericCommand garb i key s = Some (s1, seen s i key \<noteq> WrongType)" "result s i (view s) {} (get_reply (seen s i key)) s1"
    using getGenericCommand_correct [OF inv key] by blast
  note h1 = honest_same [OF s1(2)]
  show ?thesis
  proof (cases "seen s i key = WrongType")
    case True
    then show ?thesis using run s1(1) h1 by (simp add: getsetCommand_def)
  next
    case False
    obtain v where v: "tryObjectEncoding garb (rc val) val = Some v" "string_wf v" using tryObjectEncoding_correct [OF val] by blast
    obtain s2 where s2: "setKey garb ?db key v s1 = Some s2" "effect s1 (vput ?db key (Some (content v, None)) (view s1)) {(key, ?db)} s2"
      using setKey_correct [OF honest_keeps(2) [OF h1] key dbl string_wf_obj(1) [OF v(2)]] by blast
    obtain s3 where s3: "notifyKeyspaceEvent garb REDIS_NOTIFY_STRING ''set'' key ?db s2 = Some s3" "effect s2 (view s2) {} s3"
      using effect_notify [OF effect_inv [OF s2(2)] key _ dbl, of "''set''"] by (auto simp: STRING_MAX_def)
    have "effect s1 (vput ?db key (Some (content v, None)) (view s1)) {(key, ?db)} (incr_dirty 1 s3)"
      by (rule effect_trans_same [OF effect_trans_same [OF s2(2) s3(2)] effect_counters(4) [OF effect_inv [OF s3(2)]]])
    then have "honest s1 (incr_dirty 1 s3)" by (rule honest_put_effect)
    then show ?thesis using run s1(1) False v(1) s2(1) s3(1) honest_trans [OF h1] by (simp add: getsetCommand_def)
  qed
qed

lemma honest_bulk:
  assumes "server_inv s" "addReplyBulk i ob s = Some s'"
  shows "honest s s'"
proof -
  obtain r where "s' = addReply i r s" using assms(2) by (auto simp: addReplyBulk_def split: Option.bind_splits)
  then show ?thesis using honest_reply [OF effect_refl [OF assms(1)]] by simp
qed

lemma honest_mget_loop:
  assumes "server_inv s" "\<forall>k \<in> set keys. length k \<le> STRING_MAX" "db < 2 ^ 31" "mget_loop garb i db keys s = Some s'"
  shows "honest s s'"
  using assms
proof (induction keys arbitrary: s)
  case Nil
  then show ?case using honest_effect [OF effect_refl] by simp
next
  case (Cons key keys)
  obtain s1 ob where s1: "lookupKeyRead garb db key s = Some (s1, ob)" "effect s (view s) {} s1"
    using lookupKeyRead_correct [OF Cons.prems(1) _ Cons.prems(3)] Cons.prems(2) by (metis list.set_intros(1))
  obtain s2 where s2: "(case ob of None \<Rightarrow> Some (addReply i shared_nullbulk s1)
       | Some v \<Rightarrow> if o_type v \<noteq> REDIS_STRING then Some (addReply i shared_nullbulk s1) else addReplyBulk i v s1) = Some s2"
    "mget_loop garb i db keys s2 = Some s'" using Cons.prems(4) s1(1) by (auto split: Option.bind_splits)
  have "honest s1 s2" using s2(1) honest_reply [OF effect_refl [OF effect_inv [OF s1(2)]]] honest_bulk [OF effect_inv [OF s1(2)]]
    by (auto split: option.splits if_splits)
  then have h: "honest s s2" by (rule honest_trans [OF honest_effect [OF s1(2)]])
  from Cons.IH [OF honest_keeps(2) [OF h] _ Cons.prems(3) s2(2)] Cons.prems(2) show ?case using honest_trans [OF h] by simp
qed

lemma honest_mget:
  assumes "server_inv s" "\<forall>k \<in> set keys. length k \<le> STRING_MAX" "mgetCommand garb i keys s = Some s'"
  shows "honest s s'"
proof -
  have h: "honest s (addReplyMultiBulkLen i (int (length keys)) s)"
    unfolding addReplyMultiBulkLen_def by (rule honest_reply [OF effect_refl [OF assms(1)]])
  show ?thesis by (rule honest_trans [OF h honest_mget_loop [OF honest_keeps(2) [OF h] assms(2) server_inv_db [OF assms(1)] assms(3) [unfolded mgetCommand_def]]])
qed

lemma honest_ping:
  assumes inv: "server_inv s" and run: "pingCommand i argv s = Some s'"
  shows "honest s s'"
proof -
  have r: "honest x (addReply i r x)" if "server_inv x" for r x by (rule honest_reply [OF effect_refl [OF that]])
  let ?h = "addReplyBulkCBuffer i (bytes ''pong'') (addReply i (bytes ''*2'' @ crlf) s)"
  have h: "honest s ?h" using r [OF inv] by (simp add: addReplyBulkCBuffer_def)
  show ?thesis
    using run r [OF inv] honest_bulk [OF inv] honest_trans [OF h honest_bulk [OF honest_keeps(2) [OF h]]]
      honest_trans [OF h, of "addReplyBulkCBuffer i [] ?h"] r [OF honest_keeps(2) [OF h]]
    by (auto simp: pingCommand_def addReplyErrorFormat_def Let_def addReplyBulkCBuffer_def split: if_splits)
qed

lemma honest_dbsize: "server_inv s \<Longrightarrow> honest s (dbsizeCommand i s)"
  unfolding dbsizeCommand_def addReplyLongLong_def by (auto intro: honest_reply effect_refl)

section \<open>The dispatch\<close>

lemma proc_rows:
  "proc garb rc ord listing requirepass ''getCommand'' i argv s = (case argv of [_, k] \<Rightarrow> getCommand garb i (str_val k) s | _ \<Rightarrow> None)"
  "proc garb rc ord listing requirepass ''setCommand'' i argv s = (case argv of _ # k # v # opts \<Rightarrow> setCommand garb rc i (str_val k) v opts s | _ \<Rightarrow> None)"
  "proc garb rc ord listing requirepass ''setnxCommand'' i argv s = (case argv of [_, k, v] \<Rightarrow> setnxCommand garb rc i (str_val k) v s | _ \<Rightarrow> None)"
  "proc garb rc ord listing requirepass ''setexCommand'' i argv s = (case argv of [_, k, e, v] \<Rightarrow> setexCommand garb rc i (str_val k) e v s | _ \<Rightarrow> None)"
  "proc garb rc ord listing requirepass ''psetexCommand'' i argv s = (case argv of [_, k, e, v] \<Rightarrow> psetexCommand garb rc i (str_val k) e v s | _ \<Rightarrow> None)"
  "proc garb rc ord listing requirepass ''appendCommand'' i argv s = (case argv of [_, k, v] \<Rightarrow> appendCommand garb rc i (str_val k) v s | _ \<Rightarrow> None)"
  "proc garb rc ord listing requirepass ''strlenCommand'' i argv s = (case argv of [_, k] \<Rightarrow> strlenCommand garb i (str_val k) s | _ \<Rightarrow> None)"
  "proc garb rc ord listing requirepass ''delCommand'' i argv s = (case argv of _ # ks \<Rightarrow> delCommand garb i (map str_val ks) s | _ \<Rightarrow> None)"
  "proc garb rc ord listing requirepass ''existsCommand'' i argv s = (case argv of _ # ks \<Rightarrow> existsCommand garb i (map str_val ks) s | _ \<Rightarrow> None)"
  "proc garb rc ord listing requirepass ''setrangeCommand'' i argv s = (case argv of [_, k, off, v] \<Rightarrow> setrangeCommand garb rc i (str_val k) off (str_val v) s | _ \<Rightarrow> None)"
  "proc garb rc ord listing requirepass ''getrangeCommand'' i argv s = (case argv of [_, k, a, b] \<Rightarrow> getrangeCommand garb i (str_val k) a b s | _ \<Rightarrow> None)"
  "proc garb rc ord listing requirepass ''incrCommand'' i argv s = (case argv of [_, k] \<Rightarrow> incrCommand garb rc i (str_val k) s | _ \<Rightarrow> None)"
  "proc garb rc ord listing requirepass ''decrCommand'' i argv s = (case argv of [_, k] \<Rightarrow> decrCommand garb rc i (str_val k) s | _ \<Rightarrow> None)"
  "proc garb rc ord listing requirepass ''incrbyCommand'' i argv s = (case argv of [_, k, n] \<Rightarrow> incrbyCommand garb rc i (str_val k) n s | _ \<Rightarrow> None)"
  "proc garb rc ord listing requirepass ''decrbyCommand'' i argv s = (case argv of [_, k, n] \<Rightarrow> decrbyCommand garb rc i (str_val k) n s | _ \<Rightarrow> None)"
  "proc garb rc ord listing requirepass ''getsetCommand'' i argv s = (case argv of [_, k, v] \<Rightarrow> getsetCommand garb rc i (str_val k) v s | _ \<Rightarrow> None)"
  "proc garb rc ord listing requirepass ''mgetCommand'' i argv s = (case argv of _ # ks \<Rightarrow> mgetCommand garb i (map str_val ks) s | _ \<Rightarrow> None)"
  "proc garb rc ord listing requirepass ''msetCommand'' i argv s = (case argv of _ # args \<Rightarrow> msetGenericCommand garb rc i args False s | _ \<Rightarrow> None)"
  "proc garb rc ord listing requirepass ''msetnxCommand'' i argv s = (case argv of _ # args \<Rightarrow> msetGenericCommand garb rc i args True s | _ \<Rightarrow> None)"
  "proc garb rc ord listing requirepass ''selectCommand'' i argv s = (case argv of [_, n] \<Rightarrow> selectCommand i n s | _ \<Rightarrow> None)"
  "proc garb rc ord listing requirepass ''moveCommand'' i argv s = (case argv of [_, k, n] \<Rightarrow> moveCommand garb i (str_val k) n s | _ \<Rightarrow> None)"
  "proc garb rc ord listing requirepass ''renameCommand'' i argv s = (case argv of [_, a, b] \<Rightarrow> renameGenericCommand garb i (str_val a) (str_val b) False s | _ \<Rightarrow> None)"
  "proc garb rc ord listing requirepass ''renamenxCommand'' i argv s = (case argv of [_, a, b] \<Rightarrow> renameGenericCommand garb i (str_val a) (str_val b) True s | _ \<Rightarrow> None)"
  "proc garb rc ord listing requirepass ''expireCommand'' i argv s = (case argv of [_, k, e] \<Rightarrow> expireCommand garb i (str_val k) e s | _ \<Rightarrow> None)"
  "proc garb rc ord listing requirepass ''expireatCommand'' i argv s = (case argv of [_, k, e] \<Rightarrow> expireatCommand garb i (str_val k) e s | _ \<Rightarrow> None)"
  "proc garb rc ord listing requirepass ''pexpireCommand'' i argv s = (case argv of [_, k, e] \<Rightarrow> pexpireCommand garb i (str_val k) e s | _ \<Rightarrow> None)"
  "proc garb rc ord listing requirepass ''pexpireatCommand'' i argv s = (case argv of [_, k, e] \<Rightarrow> pexpireatCommand garb i (str_val k) e s | _ \<Rightarrow> None)"
  "proc garb rc ord listing requirepass ''ttlCommand'' i argv s = (case argv of [_, k] \<Rightarrow> ttlGenericCommand garb i (str_val k) False s | _ \<Rightarrow> None)"
  "proc garb rc ord listing requirepass ''pttlCommand'' i argv s = (case argv of [_, k] \<Rightarrow> ttlGenericCommand garb i (str_val k) True s | _ \<Rightarrow> None)"
  "proc garb rc ord listing requirepass ''persistCommand'' i argv s = (case argv of [_, k] \<Rightarrow> persistCommand i (str_val k) s | _ \<Rightarrow> None)"
  "proc garb rc ord listing requirepass ''typeCommand'' i argv s = (case argv of [_, k] \<Rightarrow> typeCommand garb i (str_val k) s | _ \<Rightarrow> None)"
  "proc garb rc ord listing requirepass ''dbsizeCommand'' i argv s = (case argv of [_] \<Rightarrow> Some (dbsizeCommand i s) | _ \<Rightarrow> None)"
  "proc garb rc ord listing requirepass ''flushdbCommand'' i argv s = (case argv of [_] \<Rightarrow> Some (flushdbCommand i s) | _ \<Rightarrow> None)"
  "proc garb rc ord listing requirepass ''flushallCommand'' i argv s = (case argv of [_] \<Rightarrow> Some (flushallCommand i s) | _ \<Rightarrow> None)"
  "proc garb rc ord listing requirepass ''authCommand'' i argv s = (case argv of [_, p] \<Rightarrow> Some (authCommand requirepass i (str_val p) s) | _ \<Rightarrow> None)"
  "proc garb rc ord listing requirepass ''pingCommand'' i argv s = pingCommand i argv s"
  "proc garb rc ord listing requirepass ''echoCommand'' i argv s = (case argv of [_, x] \<Rightarrow> echoCommand i x s | _ \<Rightarrow> None)"
  "proc garb rc ord listing requirepass ''multiCommand'' i argv s = (case argv of [_] \<Rightarrow> Some (multiCommand i s) | _ \<Rightarrow> None)"
  "proc garb rc ord listing requirepass ''discardCommand'' i argv s = (case argv of [_] \<Rightarrow> discardCommand i s | _ \<Rightarrow> None)"
  "proc garb rc ord listing requirepass ''watchCommand'' i argv s = (case argv of _ # ks \<Rightarrow> Some (watchCommand i (map str_val ks) s) | _ \<Rightarrow> None)"
  "proc garb rc ord listing requirepass ''unwatchCommand'' i argv s = (case argv of [_] \<Rightarrow> unwatchCommand i s | _ \<Rightarrow> None)"
  "proc garb rc ord listing requirepass ''subscribeCommand'' i argv s = (case argv of _ # cs \<Rightarrow> Some (subscribeCommand i (map str_val cs) s) | _ \<Rightarrow> None)"
  "proc garb rc ord listing requirepass ''unsubscribeCommand'' i argv s = (case argv of _ # cs \<Rightarrow> unsubscribeCommand ord i (map str_val cs) s | _ \<Rightarrow> None)"
  "proc garb rc ord listing requirepass ''psubscribeCommand'' i argv s = (case argv of _ # ps \<Rightarrow> Some (psubscribeCommand i (map str_val ps) s) | _ \<Rightarrow> None)"
  "proc garb rc ord listing requirepass ''punsubscribeCommand'' i argv s = (case argv of _ # ps \<Rightarrow> punsubscribeCommand i (map str_val ps) s | _ \<Rightarrow> None)"
  "proc garb rc ord listing requirepass ''publishCommand'' i argv s = (case argv of [_, c, m] \<Rightarrow> publishCommand i (str_val c) (str_val m) s | _ \<Rightarrow> None)"
  "proc garb rc ord listing requirepass ''pubsubCommand'' i argv s = (case argv of _ # args \<Rightarrow> pubsubCommand listing i (map str_val args) s | _ \<Rightarrow> None)"
  by (simp_all add: proc_def)

text \<open>Arguments as the protocol delivers them.\<close>

definition args_wf :: "argv \<Rightarrow> bool" where
  "args_wf argv \<longleftrightarrow> length argv < 2 ^ 31 \<and> (\<forall>x \<in> set argv. string_wf x \<and> sdsEncodedObject x)"

definition data_procs :: "string list" where
  "data_procs = [''getCommand'', ''setCommand'', ''setnxCommand'', ''setexCommand'', ''psetexCommand'', ''appendCommand'', ''strlenCommand'', ''delCommand'', ''existsCommand'', ''setrangeCommand'', ''getrangeCommand'', ''incrCommand'', ''decrCommand'', ''incrbyCommand'', ''decrbyCommand'', ''getsetCommand'', ''mgetCommand'', ''msetCommand'', ''msetnxCommand'', ''renameCommand'', ''renamenxCommand'', ''expireCommand'', ''expireatCommand'', ''pexpireCommand'', ''pexpireatCommand'', ''ttlCommand'', ''pttlCommand'', ''typeCommand'', ''flushdbCommand'', ''dbsizeCommand'', ''pingCommand'', ''echoCommand'']"

definition setrange_fits :: "argv \<Rightarrow> bool" where
  "setrange_fits argv = (case argv of
     [_, _, off, v] \<Rightarrow> (case parse_number (cstring (str_val off)) of None \<Rightarrow> True | Some n \<Rightarrow> n + int (length (str_val v)) < 2 ^ 63)
   | _ \<Rightarrow> True)"

lemma proc_honest:
  assumes inv: "server_inv s" and args: "args_wf argv" and p: "p \<in> set data_procs" and fits: "p = ''setrangeCommand'' \<Longrightarrow> setrange_fits argv"
    and run: "proc garb rc ord listing requirepass p i argv s = Some s'"
  shows "honest s s'"
proof -
  have w: "\<forall>x \<in> set argv. string_wf x \<and> length (str_val x) \<le> STRING_MAX \<and> sdsEncodedObject x" and n: "length argv < 2 ^ 31"
    using args length_str_val by (auto simp: args_wf_def)
  have h1: "honest s s'" if "p = ''getCommand''"
    using run w n that by (auto simp: proc_rows split: list.splits option.splits intro!: honest_get [OF inv, rotated -1])
  have h2: "honest s s'" if "p = ''setCommand''"
    using run w n that by (auto simp: proc_rows split: list.splits intro!: honest_set [OF inv, rotated -1])
  have h3: "honest s s'" if "p = ''setnxCommand''"
    using run w n that by (auto simp: proc_rows split: list.splits option.splits intro!: honest_setnx [OF inv, rotated -1])
  have h4: "honest s s'" if "p = ''setexCommand''"
    using run w n that by (auto simp: proc_rows split: list.splits option.splits intro!: honest_setex [OF inv, rotated -1])
  have h5: "honest s s'" if "p = ''psetexCommand''"
    using run w n that by (auto simp: proc_rows split: list.splits option.splits intro!: honest_setex [OF inv, rotated -1])
  have h6: "honest s s'" if "p = ''appendCommand''"
    using run w n that by (auto simp: proc_rows split: list.splits option.splits intro!: honest_append [OF inv, rotated -1])
  have h7: "honest s s'" if "p = ''strlenCommand''"
    using run w n that by (auto simp: proc_rows split: list.splits option.splits intro!: honest_strlen [OF inv, rotated -1])
  have h8: "honest s s'" if "p = ''delCommand''"
    using run w n that by (auto simp: proc_rows split: list.splits intro!: honest_del [OF inv, rotated -1])
  have h9: "honest s s'" if "p = ''existsCommand''"
    using run w n that by (auto simp: proc_rows split: list.splits intro!: honest_exists [OF inv, rotated -1])
  have h10: "honest s s'" if "p = ''setrangeCommand''"
    using run w n that fits by (auto simp: proc_rows setrange_fits_def split: list.splits option.splits intro!: honest_setrange [OF inv, rotated -1])
  have h11: "honest s s'" if "p = ''getrangeCommand''"
    using run w n that by (auto simp: proc_rows split: list.splits option.splits intro!: honest_getrange [OF inv, rotated -1])
  have h12: "honest s s'" if "p = ''incrCommand''"
    using run w n that by (auto simp: proc_rows incrCommand_def int64_range_def split: list.splits option.splits intro!: honest_incr [OF inv, rotated -1])
  have h13: "honest s s'" if "p = ''decrCommand''"
    using run w n that by (auto simp: proc_rows decrCommand_def int64_range_def split: list.splits option.splits intro!: honest_incr [OF inv, rotated -1])
  have h14: "honest s s'" if "p = ''incrbyCommand''"
    using run w n that by (auto simp: proc_rows split: list.splits option.splits intro!: honest_incrby [OF inv, rotated -1])
  have h15: "honest s s'" if "p = ''decrbyCommand''"
    using run w n that by (auto simp: proc_rows split: list.splits option.splits intro!: honest_incrby [OF inv, rotated -1])
  have h16: "honest s s'" if "p = ''getsetCommand''"
    using run w n that by (auto simp: proc_rows split: list.splits option.splits intro!: honest_getset [OF inv, rotated -1])
  have h17: "honest s s'" if "p = ''mgetCommand''"
    using run w n that by (auto simp: proc_rows split: list.splits intro!: honest_mget [OF inv, rotated -1])
  have h18: "honest s s'" if "p = ''msetCommand''"
    using run w n that by (auto simp: proc_rows split: list.splits intro!: honest_mset [OF inv, rotated -1])
  have h19: "honest s s'" if "p = ''msetnxCommand''"
    using run w n that by (auto simp: proc_rows split: list.splits intro!: honest_mset [OF inv, rotated -1])
  have h20: "honest s s'" if "p = ''renameCommand''"
    using run w n that by (auto simp: proc_rows split: list.splits option.splits intro!: honest_rename [OF inv, rotated -1])
  have h21: "honest s s'" if "p = ''renamenxCommand''"
    using run w n that by (auto simp: proc_rows split: list.splits option.splits intro!: honest_rename [OF inv, rotated -1])
  have h22: "honest s s'" if "p = ''expireCommand''"
    using run w n that by (auto simp: proc_rows expireCommand_def split: list.splits option.splits intro!: honest_expire [OF inv, rotated -1])
  have h23: "honest s s'" if "p = ''expireatCommand''"
    using run w n that by (auto simp: proc_rows expireatCommand_def split: list.splits option.splits intro!: honest_expire [OF inv, rotated -1])
  have h24: "honest s s'" if "p = ''pexpireCommand''"
    using run w n that by (auto simp: proc_rows pexpireCommand_def split: list.splits option.splits intro!: honest_expire [OF inv, rotated -1])
  have h25: "honest s s'" if "p = ''pexpireatCommand''"
    using run w n that by (auto simp: proc_rows pexpireatCommand_def split: list.splits option.splits intro!: honest_expire [OF inv, rotated -1])
  have h26: "honest s s'" if "p = ''ttlCommand''"
    using run w n that by (auto simp: proc_rows split: list.splits option.splits intro!: honest_ttl [OF inv, rotated -1])
  have h27: "honest s s'" if "p = ''pttlCommand''"
    using run w n that by (auto simp: proc_rows split: list.splits option.splits intro!: honest_ttl [OF inv, rotated -1])
  have h28: "honest s s'" if "p = ''typeCommand''"
    using run w n that by (auto simp: proc_rows split: list.splits option.splits intro!: honest_type [OF inv, rotated -1])
  have h29: "honest s s'" if "p = ''flushdbCommand''"
    using run w n that by (auto simp: proc_rows split: list.splits option.splits intro: honest_flushdb [OF inv])
  have h30: "honest s s'" if "p = ''dbsizeCommand''"
    using run w n that by (auto simp: proc_rows split: list.splits option.splits intro: honest_dbsize [OF inv])
  have h31: "honest s s'" if "p = ''pingCommand''"
    using run w n that by (auto simp: proc_rows split: list.splits option.splits intro!: honest_ping [OF inv, rotated -1])
  have h32: "honest s s'" if "p = ''echoCommand''"
    using run w n that by (auto simp: proc_rows echoCommand_def split: list.splits option.splits intro!: honest_bulk [OF inv, rotated -1])
  show ?thesis using p unfolding data_procs_def list.set
    by (elim insertE emptyE) (rule h1 h2 h3 h4 h5 h6 h7 h8 h9 h10 h11 h12 h13 h14 h15 h16 h17 h18 h19 h20 h21 h22 h23 h24 h25 h26 h27 h28 h29 h30 h31 h32, assumption)+
qed

section \<open>Commands on the connection and on transactions\<close>

lemma guards_selectDb:
  assumes inv: "server_inv s" and run: "selectDb j n s = Some s'"
  shows "guards Q i s s'"
proof -
  have n: "nat n < sv_dbnum s" and s': "s' = upd_client j (\<lambda>c. c\<lparr>c_db := nat n\<rparr>) s" using run by (auto simp: selectDb_def split: if_splits)
  have c: "channels_of s' = channels_of s" "patterns_of s' = patterns_of s" "\<And>k. watched_by s' k = watched_by s k"
    by (auto simp: s' fun_eq_iff)
  have "clock s' = clock s" by (simp add: s' clock_def split: option.split)
  then have "server_inv s'"
    using inv n c by (auto simp: server_inv_def db_inv_def pubsub_inv_def channels_inv_def patterns_inv_def patterns_safe_def watch_inv_def s')
  moreover have "past s' e = past s e" for e using \<open>clock s' = clock s\<close> by (simp add: past_def s' split: option.split)
  then have "view s' = view s" by (simp add: view_def fun_eq_iff s')
  ultimately show ?thesis by (auto simp: guards_def queue_ok_def dirty_def has_flag_def s')
qed

lemma guards_select:
  assumes inv: "server_inv s" and x: "string_wf x" and run: "selectCommand j x s = Some s'"
  shows "guards Q i s s'"
proof -
  obtain r where "getLongLongFromObject (Some x) = Some r" using getLongLongFromObject_correct [OF x] by simp
  then consider e where "s' = addReplyError j e s" | e e' where "s' = addReplyError j e (addReplyError j e' s)"
    | n s1 where "selectDb j n s = Some s1" "s' = addReply j shared_ok s1"
    using run by (auto simp: selectCommand_def getLongFromObjectOrReply_def getLongLongFromObjectOrReply_def split: option.splits if_splits)
  then show ?thesis
  proof cases
    case 3
    show ?thesis unfolding 3(2) by (rule guards_trans [OF guards_selectDb [OF inv 3(1)] guards_reply [OF guards_inv [OF guards_selectDb [OF inv 3(1)]]]])
  qed (use guards_reply [OF inv] in \<open>simp_all add: addReplyError_def\<close>)
qed

lemma guards_flag:
  assumes inv: "server_inv s"
  shows "guards Q i s (upd_client j (set_flag m) s)" "REDIS_DIRTY_CAS AND m = 0 \<Longrightarrow> guards Q i s (upd_client j (clear_flag m) s)"
proof -
  have or: "(a OR b) AND m' = 0 \<Longrightarrow> a AND m' = 0" for a b m' :: "32 word" by (auto simp: bit_eq_iff bit_simps)
  then show "guards Q i s (upd_client j (set_flag m) s)"
    by (intro guards_inner inv) (auto simp: dirty_def has_flag_def set_flag_def)
  show "guards Q i s (upd_client j (clear_flag m) s)" if "REDIS_DIRTY_CAS AND m = 0"
    by (intro guards_inner inv) (use has_flag_other(2) [of m REDIS_DIRTY_CAS] that in \<open>auto simp: dirty_def and.commute\<close>)
qed

lemma guards_auth:
  assumes inv: "server_inv s"
  shows "guards Q i s (authCommand requirepass j pass s)"
proof -
  have g: "guards Q i s (upd_client j (\<lambda>c. c\<lparr>c_authenticated := b\<rparr>) s)" for b
    by (rule guards_inner [OF inv]) (simp_all add: dirty_def has_flag_def)
  show ?thesis using guards_reply [OF inv] guards_trans [OF g guards_reply [OF guards_inv [OF g]]]
    by (auto simp: authCommand_def addReplyError_def split: option.split)
qed

lemma guards_multi: "server_inv s \<Longrightarrow> guards Q i s (multiCommand j s)"
  unfolding multiCommand_def addReplyError_def
  by (auto intro: guards_reply guards_trans [OF guards_flag(1) guards_reply] guards_inv [OF guards_flag(1)])

lemma guards_watchCommand:
  assumes "server_inv s" "j \<in> set (sv_client_list s)"
  shows "guards Q i s (watchCommand j keys s)"
  using guards_reply [OF assms(1)] guards_trans [OF guards_watches [OF assms] guards_reply [OF guards_inv [OF guards_watches [OF assms]]]]
  by (simp add: watchCommand_def addReplyError_def)

lemma guards_discardCommand:
  assumes inv: "server_inv s" and "discardCommand j s = Some s'" "j \<noteq> i"
  shows "guards Q i s s'"
  using assms(2) guards_reply [OF inv] guards_trans [OF guards_discard [OF inv _ assms(3)] guards_reply [OF guards_inv [OF guards_discard [OF inv _ assms(3)]]]]
  by (auto simp: discardCommand_def addReplyError_def split: if_splits)

lemma guards_unwatchCommand:
  assumes inv: "server_inv s" and run: "unwatchCommand j s = Some s'" and "j \<noteq> i"
  shows "guards Q i s s'"
proof -
  obtain s1 where s1: "unwatchAllKeys j s = Some s1" "s' = addReply j shared_ok (upd_client j (clear_flag REDIS_DIRTY_CAS) s1)"
    using run by (auto simp: unwatchCommand_def split: Option.bind_splits)
  note g1 = guards_unwatch [OF inv s1(1) assms(3), of Q]
  have g2: "guards Q i s1 (upd_client j (clear_flag REDIS_DIRTY_CAS) s1)"
    by (rule guards_inner [OF guards_inv [OF g1]]) (use assms(3) in simp_all)
  show ?thesis unfolding s1(2) by (rule guards_trans [OF g1 guards_trans [OF g2 guards_reply [OF guards_inv [OF g2]]]])
qed

section \<open>Requests\<close>

definition session_procs :: "string list" where
  "session_procs = [''selectCommand'', ''authCommand'', ''multiCommand'', ''discardCommand'', ''watchCommand'', ''unwatchCommand'']"

definition request_ok :: "string \<Rightarrow> argv \<Rightarrow> bool" where
  "request_ok p argv \<longleftrightarrow> args_wf argv \<and> (p \<in> set data_procs \<or> p \<in> set session_procs \<or> p = ''execCommand'') \<and>
     (p = ''setrangeCommand'' \<longrightarrow> setrange_fits argv)"

definition mc_ok :: "multiCmd \<Rightarrow> bool" where
  "mc_ok mc \<longleftrightarrow> request_ok (cmd_proc (mc_cmd mc)) (mc_argv mc)"

text \<open>The commands by which a client gives up its own watch.\<close>

definition releases :: "string \<Rightarrow> bool" where
  "releases p \<longleftrightarrow> p \<in> {''execCommand'', ''discardCommand'', ''unwatchCommand''}"

lemma proc_guards:
  assumes inv: "server_inv s" and live: "j \<in> set (sv_client_list s)" and ok: "request_ok p argv" and own: "i = j \<Longrightarrow> \<not> releases p"
    and run: "proc garb rc ord listing requirepass p j argv s = Some s'"
  shows "guards Q i s s'"
proof (cases "p \<in> set data_procs")
  case True
  show ?thesis by (rule honest_guards [OF proc_honest [OF inv _ True _ run]]) (use ok in \<open>simp_all add: request_ok_def\<close>)
next
  case False
  have w: "\<forall>x \<in> set argv. string_wf x" using ok by (simp add: request_ok_def args_wf_def)
  have "p \<noteq> ''execCommand''" using run by (auto simp: proc_def)
  then have "p \<in> set session_procs" using ok False by (simp add: request_ok_def)
  then show ?thesis unfolding session_procs_def list.set
  proof (elim insertE emptyE)
    assume "p = ''selectCommand''"
    then show ?thesis using run w by (auto simp: proc_rows split: list.splits intro: guards_select [OF inv])
  next
    assume "p = ''authCommand''"
    then show ?thesis using run guards_auth [OF inv] by (auto simp: proc_rows split: list.splits)
  next
    assume "p = ''multiCommand''"
    then show ?thesis using run guards_multi [OF inv] by (auto simp: proc_rows split: list.splits)
  next
    assume "p = ''discardCommand''"
    then show ?thesis using run own by (auto simp: proc_rows releases_def split: list.splits intro: guards_discardCommand [OF inv])
  next
    assume "p = ''watchCommand''"
    then show ?thesis using run guards_watchCommand [OF inv live] by (auto simp: proc_rows split: list.splits)
  next
    assume "p = ''unwatchCommand''"
    then show ?thesis using run own by (auto simp: proc_rows releases_def split: list.splits intro: guards_unwatchCommand [OF inv])
  qed
qed

lemma call_guards:
  assumes inv: "server_inv s" and run: "call f j cmd s = Some s'"
    and f: "\<And>s1 s2. server_inv s1 \<Longrightarrow> queue_ok Q s \<longrightarrow> queue_ok Q s1 \<Longrightarrow> sv_client_list s1 = sv_client_list s \<Longrightarrow>
      f (cmd_proc cmd) j (c_argv (sv_clients s j)) s1 = Some s2 \<Longrightarrow> guards Q i s1 s2"
  shows "guards Q i s s'"
proof -
  let ?m = "REDIS_FORCE_AOF OR REDIS_FORCE_REPL"
  let ?s1 = "upd_client j (clear_flag ?m) s"
  have m: "REDIS_DIRTY_CAS AND ?m = 0" by (simp add: REDIS_DIRTY_CAS_def REDIS_FORCE_AOF_def REDIS_FORCE_REPL_def)
  have g1: "guards Q i s ?s1" by (rule guards_flag(2) [OF inv m])
  obtain s2 s3 k where s2: "f (cmd_proc cmd) j (c_argv (sv_clients s j)) ?s1 = Some s2"
    and s3: "\<exists>d a b c. s3 = propagate d a b c s2" and s': "s' = upd_client j (set_flag k) (upd_client j (clear_flag ?m) s3)"
    using run unfolding call_def Let_def by (simp add: bind_eq_Some_conv) blast
  have "queue_ok Q s \<longrightarrow> queue_ok Q ?s1" "sv_client_list ?s1 = sv_client_list s" using g1 by (simp_all add: guards_def)
  then have g2: "guards Q i ?s1 s2" by (rule f [OF guards_inv [OF g1] _ _ s2])
  have g3: "guards Q i s2 s3" using s3 guards_fields(1) [OF guards_inv [OF g2]] by blast
  have g4: "guards Q i s3 (upd_client j (clear_flag ?m) s3)" by (rule guards_flag(2) [OF guards_inv [OF g3] m])
  have g5: "guards Q i (upd_client j (clear_flag ?m) s3) s'" unfolding s' by (rule guards_flag(1) [OF guards_inv [OF g4]])
  show ?thesis by (rule guards_trans [OF g1 guards_trans [OF g2 guards_trans [OF g3 guards_trans [OF g4 g5]]]])
qed

lemma run_proc_guards:
  assumes inv: "server_inv s" and q: "queue_ok mc_ok s" and live: "j \<in> set (sv_client_list s)" and ok: "request_ok p argv"
    and own: "i = j \<Longrightarrow> \<not> releases p" and run: "run_proc (proc garb rc ord listing requirepass) p j argv s = Some s'"
  shows "guards mc_ok i s s'"
proof (cases "p = ''execCommand''")
  case False
  then show ?thesis using proc_guards [OF inv live ok own] run by (simp add: run_proc_def)
next
  case True
  have ne: "j \<noteq> i" using own True by (auto simp: releases_def)
  have ex: "execCommand (call (proc garb rc ord listing requirepass)) j s = Some s'" using run True by (simp add: run_proc_def)
  show ?thesis
  proof (rule execCommand_guards [OF _ inv ex ne])
    fix mc s1 s2
    assume mc: "mc \<in> set (c_mstate (sv_clients s j))" and a: "server_inv s1" "c_argv (sv_clients s1 j) = mc_argv mc"
      "sv_client_list s1 = sv_client_list s" "call (proc garb rc ord listing requirepass) j (mc_cmd mc) s1 = Some s2"
    have okm: "request_ok (cmd_proc (mc_cmd mc)) (mc_argv mc)" using q mc by (auto simp: queue_ok_def mc_ok_def)
    show "guards mc_ok i s1 s2"
      by (rule call_guards [OF a(1,4)]) (use proc_guards [OF _ _ okm] live a(2,3) ne in auto)
  qed
qed

lemma processCommand_guards:
  assumes inv: "server_inv s" and q: "queue_ok mc_ok s" and live: "j \<in> set (sv_client_list s)"
    and ok: "\<And>cmd. lookupCommand tab (str_val (hd (c_argv (sv_clients s j)))) = Some cmd \<Longrightarrow>
      request_ok (cmd_proc cmd) (c_argv (sv_clients s j)) \<and> (i = j \<longrightarrow> \<not> releases (cmd_proc cmd))"
    and run: "processCommand (proc garb rc ord listing requirepass) cf tab j s = Some (s', b)"
  shows "guards mc_ok i s s'"
proof -
  let ?argv = "c_argv (sv_clients s j)"
  have gf: "guards mc_ok i s (flagTransaction j s)"
    unfolding flagTransaction_def using guards_flag(1) [OF inv] guards_refl [OF inv] by simp
  have gr: "guards mc_ok i s (addReply j r (flagTransaction j s))" for r by (rule guards_trans [OF gf guards_reply [OF guards_inv [OF gf]]])
  have gc: "guards mc_ok i s (upd_client j (set_flag m) (addReply j r s))" for r m
    by (rule guards_trans [OF guards_reply [OF inv] guards_flag(1) [OF reply_inv [OF inv]]])
  consider r where "s' = addReply j r s" | r where "s' = addReply j r (flagTransaction j s)"
    | r m where "s' = upd_client j (set_flag m) (addReply j r s)"
    | cmd where "lookupCommand tab (str_val (hd ?argv)) = Some cmd" "s' = addReply j shared_queued (queueMultiCommand j cmd s)"
    | cmd where "lookupCommand tab (str_val (hd ?argv)) = Some cmd" "call (run_proc (proc garb rc ord listing requirepass)) j cmd s = Some s'"
    using run unfolding processCommand_def Let_def addReplyErrorFormat_def refuse_def
    by (auto split: if_splits option.splits prod.splits)
  then show ?thesis
  proof cases
    case (4 cmd)
    note okc = ok [OF 4(1)]
    have g: "guards mc_ok i s (queueMultiCommand j cmd s)"
    proof (rule guards_same_keys [OF inv])
      have f: "inner (\<lambda>c. c\<lparr>c_mstate := c_mstate c @ [\<lparr>mc_cmd = cmd, mc_argv = c_argv c\<rparr>]\<rparr>)" by simp
      show "same_keys s (queueMultiCommand j cmd s)" unfolding queueMultiCommand_def by (rule inner_keys(1) [OF f])
      show "watch_inv (queueMultiCommand j cmd s)" unfolding queueMultiCommand_def using inner_keys(2) [OF f] inv by (simp add: server_inv_def)
      show "set (watched_by s i) \<subseteq> set (watched_by (queueMultiCommand j cmd s) i)" by (simp add: queueMultiCommand_def)
      show "dirty s i \<longrightarrow> dirty (queueMultiCommand j cmd s) i" by (simp add: queueMultiCommand_def dirty_def has_flag_def)
      show "queue_ok mc_ok s \<longrightarrow> queue_ok mc_ok (queueMultiCommand j cmd s)" using okc by (auto simp: queue_ok_def queueMultiCommand_def mc_ok_def)
    qed
    show ?thesis unfolding 4(2) by (rule guards_trans [OF g guards_reply [OF guards_inv [OF g]]])
  next
    case (5 cmd)
    note okc = ok [OF 5(1)]
    show ?thesis by (rule call_guards [OF inv 5(2)]) (use run_proc_guards okc live q in auto)
  qed (use guards_reply [OF inv] gr gc in simp_all)
qed

section \<open>Traces\<close>

text \<open>A sequence of requests, each with the configuration at the time, the client and its arguments.\<close>

fun serve :: "(nat \<Rightarrow> byte) \<Rightarrow> (robj \<Rightarrow> nat) \<Rightarrow> (byte list list \<Rightarrow> byte list list) \<Rightarrow> byte list list \<Rightarrow> redisCommand list \<Rightarrow>
    (redisConfig \<times> nat \<times> argv) list \<Rightarrow> redisServer \<Rightarrow> redisServer option" where
  "serve garb rc ord listing tab [] s = Some s"
| "serve garb rc ord listing tab ((cf, j, argv) # reqs) s = do {
     (s, _) \<leftarrow> processCommand (proc garb rc ord listing (cf_requirepass cf)) cf tab j (set_argv j argv s);
     serve garb rc ord listing tab reqs s }"

definition admitted :: "redisCommand list \<Rightarrow> nat \<Rightarrow> nat list \<Rightarrow> redisConfig \<times> nat \<times> argv \<Rightarrow> bool" where
  "admitted tab i clients req = (case req of (cf, j, argv) \<Rightarrow> j \<in> set clients \<and>
     (case lookupCommand tab (str_val (hd argv)) of None \<Rightarrow> True
      | Some cmd \<Rightarrow> request_ok (cmd_proc cmd) argv \<and> (i = j \<longrightarrow> \<not> releases (cmd_proc cmd))))"

lemma serve_guards:
  assumes "server_inv s" "queue_ok mc_ok s" "\<forall>r \<in> set reqs. admitted tab i (sv_client_list s) r"
    "serve garb rc ord listing tab reqs s = Some s'"
  shows "guards mc_ok i s s'"
  using assms
proof (induction reqs arbitrary: s)
  case Nil
  then show ?case by (simp add: guards_refl)
next
  case (Cons r reqs)
  obtain cf j argv where r: "r = (cf, j, argv)" by (cases r)
  let ?s0 = "set_argv j argv s"
  have g0: "guards mc_ok i s ?s0" unfolding set_argv_def
    by (rule guards_inner [OF Cons.prems(1)]) (simp_all add: dirty_def has_flag_def)
  have a: "c_argv (sv_clients ?s0 j) = argv" by (simp add: set_argv_def)
  have adm: "admitted tab i (sv_client_list s) (cf, j, argv)" using Cons.prems(3) r by simp
  have cl: "sv_client_list ?s0 = sv_client_list s" and q0: "queue_ok mc_ok ?s0" using g0 Cons.prems(2) by (simp_all add: guards_def)
  obtain s1 b where s1: "processCommand (proc garb rc ord listing (cf_requirepass cf)) cf tab j ?s0 = Some (s1, b)"
    "serve garb rc ord listing tab reqs s1 = Some s'"
    using Cons.prems(4) by (auto simp: r split: Option.bind_splits)
  have g1: "guards mc_ok i ?s0 s1"
  proof (rule processCommand_guards [OF guards_inv [OF g0] q0 _ _ s1(1)])
    show "j \<in> set (sv_client_list ?s0)" using adm cl by (simp add: admitted_def)
  next
    fix cmd assume "lookupCommand tab (str_val (hd (c_argv (sv_clients ?s0 j)))) = Some cmd"
    then show "request_ok (cmd_proc cmd) (c_argv (sv_clients ?s0 j)) \<and> (i = j \<longrightarrow> \<not> releases (cmd_proc cmd))"
      using adm a by (simp add: admitted_def)
  qed
  have "queue_ok mc_ok s1" "sv_client_list s1 = sv_client_list s" using g1 q0 cl by (simp_all add: guards_def)
  then have "guards mc_ok i s1 s'" using Cons.IH [OF guards_inv [OF g1] _ _ s1(2)] Cons.prems(3) by simp
  then show ?case by (rule guards_trans [OF guards_trans [OF g0 g1]])
qed

text \<open>
  The guarantee of WATCH: when a key changed since the client began to watch it, the EXEC of the client
  changes nothing and the client is told.
\<close>

theorem exec_after_change:
  assumes inv: "server_inv s" and q: "queue_ok mc_ok s" and reqs: "\<forall>r \<in> set reqs. admitted tab i (sv_client_list s) r"
    and run: "serve garb rc ord listing tab reqs s = Some s1" and watched: "(k, db) \<in> set (watched_by s i)"
    and changed: "view s1 db k \<noteq> view s db k" and multi: "has_flag REDIS_MULTI (sv_clients s1 i)"
  shows "\<exists>s2 r. execCommand f i s1 = Some s2 \<and> view s2 = view s1 \<and> same_globals s1 s2 \<and> idle s2 i \<and>
    r \<in> {shared_nullmultibulk, shared_execaborterr} \<and> out s2 i = out s1 i @ r"
proof -
  have g: "guards mc_ok i s s1" by (rule serve_guards [OF inv q reqs run])
  then have "dirty s1 i" using watched changed by (auto simp: guards_def)
  then show ?thesis using execCommand_aborts [OF guards_inv [OF g] multi, of f] by auto
qed

section \<open>Commands refused while a transaction is queued\<close>

text \<open>
  A write refused by a read only replica, a command refused while loading, or in the context of
  subscriptions, does not flag the transaction: EXEC will run the rest of the queue.
\<close>

theorem refused_not_flagged:
  assumes "lookupCommand tab (str_val (hd (c_argv (sv_clients s i)))) = Some cmd" "c_argv (sv_clients s i) \<noteq> []"
    "map tolower_byte (cstring (str_val (hd (c_argv (sv_clients s i))))) \<noteq> bytes ''quit''"
    "cmd_arity cmd = int (length (c_argv (sv_clients s i)))" "refusal cf s i cmd (c_argv (sv_clients s i)) = Some (False, r)"
  shows "processCommand f cf tab i s = Some (addReply i r s, True)"
  using assms by (simp add: processCommand_def refuse_def Let_def)

end
