(* ===== verification/Clients.thy ===== *)
theory Clients
  imports Multi
begin

text \<open>
  The life of the server and of its clients: \<open>initServer\<close> (\<open>redis.c\<close>), \<open>createClient\<close> and \<open>freeClient\<close>
  (\<open>networking.c\<close>), for connected clients that are neither masters, replicas nor monitors and that are not
  blocked or already scheduled to be closed. The invariant of the server holds from the start, and a
  client that is freed leaves no trace in the registries, which hold pointers to clients.
\<close>

section \<open>Operations\<close>

definition new_client :: redisClient where
  "new_client = \<lparr>c_db = 0, c_argv = [], c_flags = 0, c_authenticated = False, c_mstate = [], c_watched_keys = [],
     c_pubsub_channels = [], c_pubsub_patterns = [], c_reply = []\<rparr>"

text \<open>The fields of the server that \<open>initServer\<close> sets; the rest comes from the configuration.\<close>

definition initServer :: "nat \<Rightarrow> 32 word \<Rightarrow> bool \<Rightarrow> bool \<Rightarrow> int \<Rightarrow> redisServer" where
  "initServer dbnum notify masterhost aof now =
     \<lparr>sv_clients = (\<lambda>_. new_client), sv_client_list = [],
      sv_dbs = (\<lambda>_. \<lparr>db_dict = Map.empty, db_expires = Map.empty, db_blocking_keys = Map.empty, db_ready_keys = [], db_watched_keys = Map.empty\<rparr>),
      sv_dbnum = dbnum, sv_pubsub_channels = Map.empty, sv_pubsub_patterns = [], sv_ready_keys = [], sv_notify = notify, sv_dirty = 0,
      sv_loading = False, sv_masterhost = masterhost, sv_aof_on = aof, sv_now = now, sv_lua_time = None, sv_aof = [], sv_repl = [],
      sv_hits = 0, sv_misses = 0, sv_expiredkeys = 0\<rparr>"

definition createClient :: "nat \<Rightarrow> redisServer \<Rightarrow> redisServer" where
  "createClient i s = s\<lparr>sv_clients := (sv_clients s)(i := new_client), sv_client_list := sv_client_list s @ [i]\<rparr>"

definition freeClient :: "(byte list list \<Rightarrow> byte list list) \<Rightarrow> nat \<Rightarrow> redisServer \<Rightarrow> redisServer option" where
  "freeClient ord i s = do {
     s \<leftarrow> unwatchAllKeys i s;
     (s, _) \<leftarrow> pubsubUnsubscribeAllChannels ord i False s;
     (s, _) \<leftarrow> pubsubUnsubscribeAllPatterns i False s;
     if i \<in> set (sv_client_list s) then Some (s\<lparr>sv_client_list := remove1 i (sv_client_list s)\<rparr>) else None }"

section \<open>What subscriptions leave alone\<close>

text \<open>The state without subscriptions and replies.\<close>

definition bare :: "redisServer \<Rightarrow> redisServer" where
  "bare s = s\<lparr>sv_pubsub_channels := Map.empty, sv_pubsub_patterns := [],
     sv_clients := (\<lambda>i. (sv_clients s i)\<lparr>c_pubsub_channels := [], c_pubsub_patterns := [], c_reply := []\<rparr>)\<rparr>"

lemma bare_silent: "silent s = silent s' \<Longrightarrow> bare s = bare s'"
proof -
  assume a: "silent s = silent s'"
  have "bare s = bare (silent s)" for s by (simp add: bare_def silent_def)
  then show ?thesis using a by metis
qed

lemma bare_fields [simp]: "bare (s\<lparr>sv_pubsub_channels := m\<rparr>) = bare s" "bare (s\<lparr>sv_pubsub_patterns := l\<rparr>) = bare s"
  by (simp_all add: bare_def)

lemma bare_client [simp]:
  "bare (upd_client i (\<lambda>c. c\<lparr>c_pubsub_channels := f c\<rparr>) s) = bare s" "bare (upd_client i (\<lambda>c. c\<lparr>c_pubsub_patterns := f c\<rparr>) s) = bare s"
  by (rule redisServer.equality; simp add: bare_def upd_client_def fun_eq_iff)+

lemma bare_notify [simp]: "bare (notify_client i kind name s) = bare s"
  by (rule bare_silent) (simp add: silent_simps)

lemma bare_subscribe:
  "bare (fst (pubsubSubscribeChannel i chan s)) = bare s" "bare (fst (pubsubSubscribePattern i p s)) = bare s"
  by (simp_all add: pubsubSubscribeChannel_def pubsubSubscribePattern_def Let_def)

lemma bare_unsubscribe:
  "pubsubUnsubscribeChannel i chan notify s = Some (s', n) \<Longrightarrow> bare s' = bare s"
  "pubsubUnsubscribePattern i p notify s = Some (s', n) \<Longrightarrow> bare s' = bare s"
  by (auto simp: pubsubUnsubscribeChannel_def pubsubUnsubscribePattern_def Let_def split: if_splits Option.bind_splits)

lemma bare_unsubscribe_loops:
  "unsubscribe_channels i notify chs s = Some (s', n) \<Longrightarrow> bare s' = bare s"
  "unsubscribe_patterns i notify chs s = Some (s', n) \<Longrightarrow> bare s' = bare s"
  by (induction chs arbitrary: s n) (auto split: Option.bind_splits dest!: bare_unsubscribe)

lemma bare_unsubscribe_all:
  "pubsubUnsubscribeAllChannels ord i notify s = Some (s', n) \<Longrightarrow> bare s' = bare s"
  "pubsubUnsubscribeAllPatterns i notify s = Some (s', n) \<Longrightarrow> bare s' = bare s"
  by (auto simp: pubsubUnsubscribeAllChannels_def pubsubUnsubscribeAllPatterns_def split: if_splits Option.bind_splits dest!: bare_unsubscribe_loops)

text \<open>What the state without subscriptions determines.\<close>

lemma bare_eq_fields:
  assumes "bare s' = bare s"
  shows "sv_dbs s' = sv_dbs s" "sv_client_list s' = sv_client_list s" "sv_dbnum s' = sv_dbnum s" "sv_now s' = sv_now s"
    "sv_lua_time s' = sv_lua_time s" "sv_loading s' = sv_loading s" "sv_masterhost s' = sv_masterhost s"
    "c_db (sv_clients s' i) = c_db (sv_clients s i)" "c_flags (sv_clients s' i) = c_flags (sv_clients s i)"
    "c_mstate (sv_clients s' i) = c_mstate (sv_clients s i)" "watched_by s' i = watched_by s i"
  using arg_cong [OF assms, of sv_dbs] arg_cong [OF assms, of sv_client_list] arg_cong [OF assms, of sv_dbnum] arg_cong [OF assms, of sv_now]
    arg_cong [OF assms, of sv_lua_time] arg_cong [OF assms, of sv_loading] arg_cong [OF assms, of sv_masterhost]
    arg_cong [OF assms, of "\<lambda>s. c_db (sv_clients s i)"] arg_cong [OF assms, of "\<lambda>s. c_flags (sv_clients s i)"]
    arg_cong [OF assms, of "\<lambda>s. c_mstate (sv_clients s i)"] arg_cong [OF assms, of "\<lambda>s. watched_by s i"]
  by (simp_all add: bare_def)

lemma bare_inv:
  assumes "bare s' = bare s" "server_inv s" "pubsub_inv s'" "patterns_safe s'"
  shows "server_inv s'" "view s' = view s" "dirty s' i = dirty s i"
proof -
  note f = bare_eq_fields [OF assms(1)]
  have w: "watch_inv s' = watch_inv s" by (simp add: watch_inv_def watchers_eq [OF f(1)] f)
  have c: "clock s' = clock s" by (simp add: clock_def f split: option.split)
  show "server_inv s'" using assms(2-4) w c by (simp add: server_inv_def db_inv_def f)
  have "past s' e = past s e" for e by (simp add: past_def c f split: option.split)
  then show "view s' = view s" by (simp add: view_def fun_eq_iff f)
  show "dirty s' i = dirty s i" by (simp add: dirty_def has_flag_def f)
qed

section \<open>Correctness\<close>

theorem initServer_inv:
  assumes "0 < dbnum" "dbnum \<le> 2 ^ 31"
  shows "server_inv (initServer dbnum notify masterhost aof now)"
  using assms by (simp add: server_inv_def db_inv_def pubsub_inv_def channels_inv_def patterns_inv_def patterns_safe_def watch_inv_def
      registry_def initServer_def new_client_def clock_def watchers_def fun_eq_iff split: prod.split)

text \<open>A new client structure is fresh: nothing refers to it.\<close>

theorem createClient_inv:
  assumes inv: "server_inv s" and fresh: "watched_by s i = []" "channels_of s i = []" "patterns_of s i = []"
  shows "server_inv (createClient i s)" "view (createClient i s) = view s" "i \<in> set (sv_client_list (createClient i s))"
proof -
  let ?s = "createClient i s"
  have own: "(\<lambda>j. watched_by ?s j) = (\<lambda>j. watched_by s j)" "(\<lambda>j. channels_of ?s j) = (\<lambda>j. channels_of s j)"
    "\<And>j. patterns_of ?s j = patterns_of s j"
    using fresh by (auto simp: createClient_def new_client_def)
  have w: "watchers ?s = watchers s" by (rule watchers_eq) (simp add: createClient_def)
  have dbn: "0 < sv_dbnum s" using inv unfolding server_inv_def by (metis gr_zeroI not_less_zero)
  have c: "clock ?s = clock s" by (simp add: createClient_def clock_def split: option.split)
  have "watch_inv ?s" using inv unfolding server_inv_def watch_inv_def own(1) w by (auto simp: createClient_def own(1) [THEN fun_cong, unfolded createClient_def])
  moreover have "pubsub_inv ?s" using inv unfolding server_inv_def pubsub_inv_def channels_inv_def patterns_inv_def own by (simp add: createClient_def)
  ultimately show "server_inv ?s"
    using inv c dbn by (auto simp: server_inv_def db_inv_def patterns_safe_def createClient_def new_client_def)
  have "past ?s e = past s e" for e by (simp add: past_def c split: option.split) (simp add: createClient_def)
  then show "view ?s = view s" by (simp add: view_def fun_eq_iff createClient_def)
  show "i \<in> set (sv_client_list ?s)" by (simp add: createClient_def)
qed

text \<open>
  A freed client is referred to by nobody: not by the list of clients, the watchers of a key, the
  subscribers of a channel or the pattern subscriptions. Other clients keep their registrations.
\<close>

definition unreferenced :: "redisServer \<Rightarrow> nat \<Rightarrow> bool" where
  "unreferenced s i \<longleftrightarrow> i \<notin> set (sv_client_list s) \<and> (\<forall>wk l. watchers s wk = Some l \<longrightarrow> i \<notin> set l) \<and>
     (\<forall>chan l. sv_pubsub_channels s chan = Some l \<longrightarrow> i \<notin> set l) \<and> i \<notin> fst ` set (sv_pubsub_patterns s)"

theorem freeClient_correct:
  assumes inv: "server_inv s" and live: "i \<in> set (sv_client_list s)" "distinct (sv_client_list s)" and ord: "\<And>xs. set (ord xs) = set xs"
  shows "\<exists>s'. freeClient ord i s = Some s' \<and> server_inv s' \<and> view s' = view s \<and> unreferenced s' i \<and>
    channel_subs s' = {x \<in> channel_subs s. fst x \<noteq> i} \<and> pattern_subs s' = {x \<in> pattern_subs s. fst x \<noteq> i} \<and>
    (\<forall>j. j \<noteq> i \<longrightarrow> watched_by s' j = watched_by s j)"
proof -
  have w: "watch_inv s" using inv by (simp add: server_inv_def)
  obtain s1 where s1: "unwatchAllKeys i s = Some s1" "watch_inv s1" "sv_clients s1 = (sv_clients s)(i := (sv_clients s i)\<lparr>c_watched_keys := []\<rparr>)"
    "\<forall>db. (sv_dbs s1 db)\<lparr>db_watched_keys := Map.empty\<rparr> = (sv_dbs s db)\<lparr>db_watched_keys := Map.empty\<rparr>" "same_globals s s1"
    using unwatchAllKeys_correct [OF w] by blast
  have k1: "same_keys s s1" by (rule same_keys_unwatch [OF s1(5,3,4)])
  have i1: "server_inv s1" by (rule same_keys_inv [OF k1 inv s1(2)])
  obtain s2 s3 n m where s3: "pubsubUnsubscribeAllChannels ord i False s1 = Some (s2, n)" "pubsubUnsubscribeAllPatterns i False s2 = Some (s3, m)"
    "pubsub_inv s3" "channel_subs s3 = {x \<in> channel_subs s1. fst x \<noteq> i}" "pattern_subs s3 = {x \<in> pattern_subs s1. fst x \<noteq> i}"
    using unsubscribe_all_correct [OF _ ord, of s1 i False] i1 by (auto simp: server_inv_def)
  have b: "bare s3 = bare s1" using bare_unsubscribe_all(1) [OF s3(1)] bare_unsubscribe_all(2) [OF s3(2)] by simp
  note f = bare_eq_fields [OF b]
  have pats: "set (sv_pubsub_patterns s) = {(j, p). (j, p) \<in> pattern_subs s}" if "pubsub_inv s" for s
    using that by (auto simp: pubsub_inv_def patterns_inv_def pattern_subs_def)
  have subs: "channel_subs s1 = channel_subs s" "pattern_subs s1 = pattern_subs s"
    by (auto simp: channel_subs_def pattern_subs_def s1(3) split: if_splits)
  have p1: "pubsub_inv s1" "patterns_safe s1" using i1 by (simp_all add: server_inv_def)
  have "patterns_safe s3" using p1(2) pats [OF s3(3)] pats [OF p1(1)] s3(5) by (auto simp: patterns_safe_def)
  note i3 = bare_inv [OF b i1 s3(3) this]
  define s' where "s' = s3\<lparr>sv_client_list := remove1 i (sv_client_list s3)\<rparr>"
  have cl: "sv_client_list s3 = sv_client_list s" using f(2) k1 by (simp add: same_keys_def)
  have run: "freeClient ord i s = Some s'" using s1(1) s3(1,2) live(1) cl by (simp add: freeClient_def s'_def)
  have wi: "watched_by s3 i = []" "\<And>j. j \<noteq> i \<Longrightarrow> watched_by s3 j = watched_by s j" by (simp_all add: f s1(3))
  have reg: "registry (\<lambda>j. watched_by s3 j) (watchers s3)" "registry (\<lambda>j. channels_of s3 j) (sv_pubsub_channels s3)"
    using i3(1) by (simp_all add: server_inv_def watch_inv_def pubsub_inv_def channels_inv_def)
  have w': "watchers s' = watchers s3" by (rule watchers_eq) (simp add: s'_def)
  have c': "clock s' = clock s3" by (simp add: s'_def clock_def split: option.split)
  have "watched_by s' j \<noteq> [] \<Longrightarrow> j \<in> set (sv_client_list s')" for j
    using i3(1) wi(1) live(2) cl by (cases "j = i") (auto simp: s'_def server_inv_def watch_inv_def)
  then have "server_inv s'"
    using i3(1) reg(1) w' c' by (simp add: server_inv_def watch_inv_def db_inv_def pubsub_inv_def channels_inv_def patterns_inv_def patterns_safe_def) (simp add: s'_def)
  moreover have "past s' e = past s3 e" for e by (simp add: past_def c' split: option.split) (simp add: s'_def)
  then have "view s' = view s3" by (simp add: view_def fun_eq_iff) (simp add: s'_def)
  then have "view s' = view s" using i3(2) same_keys_view [OF k1] by simp
  moreover have "unreferenced s' i"
  proof -
    have "i \<notin> set l" if "watchers s3 wk = Some l" for wk l using registry_members(1) [OF reg(1), of wk] that wi(1) by auto
    moreover have "(i, chan) \<notin> channel_subs s3" for chan unfolding s3(4) by simp
    then have "i \<notin> set l" if "sv_pubsub_channels s3 chan = Some l" for chan l
      using registry_members(1) [OF reg(2), of chan] that by (auto simp: channel_subs_def)
    moreover have "i \<notin> fst ` set (sv_pubsub_patterns s3)" using pats [OF s3(3)] s3(5) by auto
    ultimately show ?thesis using live(2) cl w' by (auto simp: unreferenced_def s'_def)
  qed
  moreover have "channel_subs s' = channel_subs s3" "pattern_subs s' = pattern_subs s3" by (simp_all add: s'_def channel_subs_def pattern_subs_def)
  ultimately show ?thesis using run s3(4,5) subs wi(2) by (auto simp: s'_def)
qed

section \<open>A small server\<close>

text \<open>An empty server with 16 databases and two clients, and arguments as the protocol creates them.\<close>

definition small_server :: redisServer where
  "small_server = createClient 2 (createClient 1 (initServer 16 0 False False 1000))"

definition literal :: "string \<Rightarrow> robj" where
  "literal t = the (createStringObject (\<lambda>_. 0) (Some (bytes t)) (length t))"

lemma small_server_inv: "server_inv small_server"
proof -
  let ?s0 = "initServer 16 0 False False 1000"
  have 0: "server_inv ?s0" by (rule initServer_inv) simp_all
  have f: "watched_by ?s0 i = []" "channels_of ?s0 i = []" "patterns_of ?s0 i = []" for i by (simp_all add: initServer_def new_client_def)
  note 1 = createClient_inv(1) [OF 0 f [of 1]]
  have g: "watched_by (createClient 1 ?s0) 2 = []" "channels_of (createClient 1 ?s0) 2 = []" "patterns_of (createClient 1 ?s0) 2 = []"
    by (simp_all add: createClient_def f)
  show ?thesis unfolding small_server_def by (rule createClient_inv(1) [OF 1 g])
qed

lemma small_server_fields [simp]:
  "sv_client_list small_server = [1, 2]" "sv_notify small_server = 0" "sv_clients small_server i = new_client" "sv_now small_server = 1000"
  "db_dict (sv_dbs small_server db) key = None" "db_expires (sv_dbs small_server db) key = None" "view small_server db key = None"
  "sv_dbnum small_server = 16" "sv_masterhost small_server = False" "sv_loading small_server = False" "sv_pubsub_patterns small_server = []"
  by (simp_all add: small_server_def createClient_def initServer_def view_def)

lemma literal_wf:
  assumes "length t \<le> STRING_MAX"
  shows "string_wf (literal t)" "str_val (literal t) = bytes t" "sdsEncodedObject (literal t)"
proof -
  have l: "length t \<le> length (bytes t)" "take (length t) (bytes t) = bytes t" by (simp_all add: bytes_def)
  obtain ob where ob: "createStringObject (\<lambda>_. 0) (Some (bytes t)) (length t) = Some ob" "string_wf ob" "str_val ob = bytes t"
    using createStringObject_correct [OF l(1) assms, of "\<lambda>_. 0"] l(2) by auto
  then show "string_wf (literal t)" "str_val (literal t) = bytes t" by (simp_all add: literal_def)
  have "o_encoding ob = REDIS_ENCODING_RAW \<or> o_encoding ob = REDIS_ENCODING_EMBSTR"
    using ob(1) by (auto simp: createStringObject_def createEmbeddedStringObject_def createRawStringObject_def createObject_def split: if_splits Option.bind_splits)
  then show "sdsEncodedObject (literal t)" using ob(1) by (simp add: literal_def sdsEncodedObject_def)
qed

end
