(* ===== verification/Scenarios.thy ===== *)
theory Scenarios
  imports Locking Clients
begin

text \<open>
  A concrete race on which the guarantees of transactions can be observed: client 1 watches a key of a
  small server, client 2 sets it, and client 1 opens a transaction.
\<close>

definition open_config :: redisConfig where
  "open_config = \<lparr>cf_requirepass = None, cf_stop_writes_on_bgsave_err = True, cf_saveparamslen = 0, cf_lastbgsave_ok = True,
     cf_aof_last_write_ok = True, cf_aof_errmsg = [], cf_min_slaves_to_write = 0, cf_min_slaves_max_lag = 10, cf_good_slaves_count = 0,
     cf_slave_ro = True, cf_repl_connected = True, cf_serve_stale_data = True, cf_lua_timedout = False\<rparr>"

definition set_multi_table :: "redisCommand list" where
  "set_multi_table = map (the \<circ> populateCommand) [entry ''set'' ''setCommand'' (- 3) ''wm'' 1 1 1, entry ''multi'' ''multiCommand'' 1 ''rsF'' 0 0 0]"

definition race :: "(redisConfig \<times> nat \<times> argv) list" where
  "race = [(open_config, 2, [literal ''SET'', literal ''k'', literal ''v'']), (open_config, 1, [literal ''MULTI''])]"

definition watching :: redisServer where
  "watching = watchCommand 1 [bytes ''k''] small_server"

abbreviation run_race :: "redisServer option" where
  "run_race \<equiv> serve (\<lambda>_. 0) (\<lambda>_. 1) (\<lambda>x. x) [] set_multi_table race watching"

lemma literals: "length t < 100 \<Longrightarrow> string_wf (literal t) \<and> str_val (literal t) = bytes t \<and> sdsEncodedObject (literal t)"
  using literal_wf [of t] by (simp add: STRING_MAX_def)

lemma watching_facts:
  "server_inv watching" "watched_by watching 1 = [(bytes ''k'', 0)]" "sv_client_list watching = [1, 2]" "queue_ok mc_ok watching"
  "sv_masterhost watching = False" "sv_loading watching = False" "view watching db key = None" "c_flags (sv_clients watching i) = 0"
  "c_db (sv_clients watching i) = 0"
proof -
  have "guards mc_ok 3 small_server watching" unfolding watching_def by (rule guards_watchCommand [OF small_server_inv]) simp
  then show "server_inv watching" by (rule guards_inv)
qed (auto simp: watching_def watchCommand_def watchForKey_def Let_def addReply_def new_client_def has_flag_def queue_ok_def view_def past_def clock_def)

lemma set_entry: "lookupCommand set_multi_table (bytes ''SET'') = Some (entry ''set'' ''setCommand'' (- 3) ''wm'' 1 1 1\<lparr>cmd_flags := 5\<rparr>)"
  "lookupCommand set_multi_table (bytes ''MULTI'') = Some (entry ''multi'' ''multiCommand'' 1 ''rsF'' 0 0 0\<lparr>cmd_flags := 8258\<rparr>)"
  by code_simp+

lemma refusal_open:
  assumes "\<not> sv_masterhost s" "\<not> sv_loading s" "\<not> has_flag REDIS_PUBSUB (sv_clients s i)"
  shows "refusal open_config s i cmd argv = None"
  using assms by (simp add: refusal_def open_config_def Let_def)

lemma call_result:
  assumes "f (cmd_proc cmd) i (c_argv (sv_clients s i)) (upd_client i (clear_flag (REDIS_FORCE_AOF OR REDIS_FORCE_REPL)) s) = Some c"
  shows "\<exists>d. call f i cmd s = Some d \<and> same_keys c d \<and>
    (\<forall>m j. (REDIS_FORCE_AOF OR REDIS_FORCE_REPL) AND m = 0 \<longrightarrow> has_flag m (sv_clients d j) = has_flag m (sv_clients c j))"
proof -
  let ?M = "REDIS_FORCE_AOF OR REDIS_FORCE_REPL"
  obtain x args a b where p: "call f i cmd s = Some (upd_client i (set_flag (c_flags (sv_clients s i) AND ?M)) (upd_client i (clear_flag ?M) (propagate x args a b c)))"
    using assms by (simp add: call_def Let_def)
  have "same_keys c (propagate x args a b c)" by (simp add: same_keys_def propagate_def Let_def)
  then have "same_keys c (upd_client i (set_flag (c_flags (sv_clients s i) AND ?M)) (upd_client i (clear_flag ?M) (propagate x args a b c)))"
    by (rule same_keys_trans [OF same_keys_trans [OF _ inner_keys(1)] inner_keys(1)]) simp_all
  moreover have "has_flag m (set_flag (k AND ?M) (clear_flag ?M c)) = has_flag m c" if m: "?M AND m = 0" for m k c
  proof -
    have "(k AND ?M) AND m = 0" using m by (simp add: and.assoc)
    from has_flag_other(1) [OF this] has_flag_other(2) [OF m] show ?thesis by simp
  qed
  ultimately show ?thesis using p by (auto simp: propagate_def Let_def)
qed

lemma race_runs:
  "\<exists>s1. run_race = Some s1 \<and> view s1 0 (bytes ''k'') = Some (CString (bytes ''v''), None) \<and> has_flag REDIS_MULTI (sv_clients s1 1)"
proof -
  let ?f = "proc (\<lambda>_. 0) (\<lambda>_. 1) (\<lambda>x. x) [] None"
  let ?a = "set_argv 2 [literal ''SET'', literal ''k'', literal ''v''] watching"
  let ?m = "REDIS_FORCE_AOF OR REDIS_FORCE_REPL"
  let ?b = "upd_client 2 (clear_flag ?m) ?a"
  have b: "server_inv ?b" "view ?b = view watching"
    using inner_inv [of "clear_flag ?m" ?a 2] inner_inv [of "\<lambda>c. c\<lparr>c_argv := [literal ''SET'', literal ''k'', literal ''v'']\<rparr>" watching 2] watching_facts(1)
      same_keys_view [OF inner_keys(1) [of "clear_flag ?m" ?a 2]]
      same_keys_view [OF inner_keys(1) [of "\<lambda>c. c\<lparr>c_argv := [literal ''SET'', literal ''k'', literal ''v'']\<rparr>" watching 2]]
    by (simp_all add: set_argv_def)
  have "good_expire ?b None UNIT_SECONDS None" by (simp add: good_expire_def)
  then obtain c where c: "setCommand (\<lambda>_. 0) (\<lambda>_. 1) 2 (bytes ''k'') (literal ''v'') [] ?b = Some c"
    "set_outcome ?b 2 0 (bytes ''k'') (CString (bytes ''v'')) None shared_ok shared_nullbulk c"
    using setCommand_correct [OF b(1), of "bytes ''k''" "literal ''v''" "[]" 0 UNIT_SECONDS None None "\<lambda>_. 0" "\<lambda>_. 1" 2] literals [of "''v''"]
    by (auto simp: STRING_MAX_def bytes_def)
  have cc: "result ?b 2 (vput 0 (bytes ''k'') (Some (CString (bytes ''v''), None)) (view watching)) {(bytes ''k'', 0)} shared_ok c"
    using c(2) b(2) by (simp add: set_outcome_def set_aborts_def Let_def set_argv_def watching_facts)
  obtain d where d: "call (run_proc ?f) 2 (entry ''set'' ''setCommand'' (- 3) ''wm'' 1 1 1\<lparr>cmd_flags := 5\<rparr>) ?a = Some d" "same_keys c d"
    "\<And>m j. ?m AND m = 0 \<Longrightarrow> has_flag m (sv_clients d j) = has_flag m (sv_clients c j)"
    using call_result [of "run_proc ?f" "entry ''set'' ''setCommand'' (- 3) ''wm'' 1 1 1\<lparr>cmd_flags := 5\<rparr>" 2 ?a c] c(1) literals
    by (auto simp: entry_def run_proc_def proc_rows set_argv_def)
  have fl: "has_flag m (sv_clients d 1) = has_flag m (sv_clients watching 1)" if "?m AND m = 0" "REDIS_DIRTY_CAS AND m = 0" for m
    using d(3) [OF that(1)] cc that(2) by (simp add: result_def keeps_def set_argv_def)
  let ?e = "set_argv 1 [literal ''MULTI''] d"
  have p1: "processCommand ?f open_config set_multi_table 2 ?a = Some (d, True)"
    using d(1) literals set_entry(1)
    by (simp add: processCommand_def refusal_open set_argv_def watching_facts has_flag_def entry_def Let_def) (simp add: bytes_def cstring_def)
  have sd: "\<not> sv_masterhost ?e" "\<not> sv_loading ?e" "\<not> has_flag REDIS_PUBSUB (sv_clients ?e 1)" "\<not> has_flag REDIS_MULTI (sv_clients ?e 1)"
    using d(2) cc fl [of REDIS_PUBSUB] fl [of REDIS_MULTI]
    by (simp_all add: set_argv_def same_keys_def result_def keeps_def watching_facts has_flag_def REDIS_FORCE_AOF_def REDIS_FORCE_REPL_def
        REDIS_PUBSUB_def REDIS_MULTI_def REDIS_DIRTY_CAS_def)
  let ?g = "multiCommand 1 (upd_client 1 (clear_flag ?m) ?e)"
  have off: "\<not> has_flag REDIS_MULTI (clear_flag ?m (sv_clients ?e 1))"
    using sd(4) has_flag_other(2) [of ?m REDIS_MULTI] by (simp add: REDIS_FORCE_AOF_def REDIS_FORCE_REPL_def REDIS_MULTI_def)
  obtain s1 where s1: "call (run_proc ?f) 1 (entry ''multi'' ''multiCommand'' 1 ''rsF'' 0 0 0\<lparr>cmd_flags := 8258\<rparr>) ?e = Some s1" "same_keys ?g s1"
    "\<And>m j. ?m AND m = 0 \<Longrightarrow> has_flag m (sv_clients s1 j) = has_flag m (sv_clients ?g j)"
    using call_result [of "run_proc ?f" "entry ''multi'' ''multiCommand'' 1 ''rsF'' 0 0 0\<lparr>cmd_flags := 8258\<rparr>" 1 ?e ?g]
    by (auto simp: entry_def run_proc_def proc_rows set_argv_def)
  have p2: "processCommand ?f open_config set_multi_table 1 ?e = Some (s1, True)"
  proof -
    have a: "c_argv (sv_clients ?e 1) = [literal ''MULTI'']" by (simp add: set_argv_def)
    have "str_val (literal ''MULTI'') = bytes ''MULTI''" "map tolower_byte (cstring (bytes ''MULTI'')) \<noteq> bytes ''quit''"
      using literals [of "''MULTI''"] by (simp_all add: bytes_def cstring_def)
    then show ?thesis using s1(1) set_entry(2) sd(4)
      by (simp add: processCommand_def a refusal_open [OF sd(1-3)] entry_def Let_def del: One_nat_def)
  qed
  have "has_flag REDIS_MULTI (sv_clients s1 1)"
    using s1(3) [of REDIS_MULTI 1] off
    by (simp add: multiCommand_def addReply_def REDIS_FORCE_AOF_def REDIS_FORCE_REPL_def REDIS_MULTI_def) (simp add: has_flag_def set_flag_def)
  moreover have "same_keys d ?g"
  proof -
    have "same_keys d (upd_client 1 (clear_flag ?m) ?e)" unfolding set_argv_def
      by (rule same_keys_trans [OF inner_keys(1) inner_keys(1)]) simp_all
    moreover have "same_keys x (multiCommand 1 x)" for x
      by (simp add: multiCommand_def addReplyError_def addReply_def same_keys_def)
    ultimately show ?thesis by (rule same_keys_trans)
  qed
  then have "view s1 = view c" using same_keys_view [OF s1(2)] same_keys_view [OF d(2)] same_keys_view [of d ?g] by simp
  then have "view s1 0 (bytes ''k'') = Some (CString (bytes ''v''), None)" using result_inv(2) [OF cc] by simp
  moreover have "run_race = Some s1" using p1 p2 by (simp add: race_def open_config_def)
  ultimately show ?thesis by blast
qed

section \<open>A server with one key\<close>

definition stocked_server :: redisServer where
  "stocked_server = the (setKey (\<lambda>_. 0) 0 (bytes ''k'') (literal ''10'') small_server)"

lemma stocked_server_facts:
  "server_inv stocked_server" "view stocked_server = vput 0 (bytes ''k'') (Some (CString (bytes ''10''), None)) (view small_server)"
  "keeps small_server stocked_server"
proof -
  have wf: "obj_wf (literal ''10'')" "content (literal ''10'') = CString (bytes ''10'')"
    using literals [of "''10''"] string_wf_obj by simp_all
  obtain s' where "setKey (\<lambda>_. 0) 0 (bytes ''k'') (literal ''10'') small_server = Some s'"
    "effect small_server (vput 0 (bytes ''k'') (Some (CString (bytes ''10''), None)) (view small_server)) {(bytes ''k'', 0)} s'"
    using setKey_correct [OF small_server_inv, of "bytes ''k''" 0 "literal ''10''" "\<lambda>_. 0"] wf by (auto simp: STRING_MAX_def bytes_def)
  then show "server_inv stocked_server" "view stocked_server = vput 0 (bytes ''k'') (Some (CString (bytes ''10''), None)) (view small_server)"
    "keeps small_server stocked_server" by (simp_all add: stocked_server_def effect_def)
qed

lemma stocked_server_fields [simp]:
  "c_db (sv_clients stocked_server i) = 0" "sv_now stocked_server = 1000" "sv_loading stocked_server = False" "sv_masterhost stocked_server = False"
  "sv_notify stocked_server = 0" "sv_dbnum stocked_server = 16" "sv_client_list stocked_server = [1, 2]" "watched_by stocked_server i = []"
  using stocked_server_facts(3) by (simp_all add: keeps_def new_client_def)

lemma stocked_server_view [simp]:
  "view stocked_server db key = (if db = 0 \<and> key = bytes ''k'' then Some (CString (bytes ''10''), None) else None)"
  by (simp add: stocked_server_facts(2))

lemma stocked_server_seen: "seen stocked_server i key = (if key = bytes ''k'' then Str (bytes ''10'') else Missing)"
  by (simp add: seen_def)

lemma short_literal: "length t < 100 \<Longrightarrow> length (bytes t) \<le> STRING_MAX"
  by (simp add: bytes_def STRING_MAX_def)

text \<open>A client whose transaction had an error while commands were queued.\<close>

definition aborted :: redisServer where
  "aborted = upd_client 1 (\<lambda>c. c\<lparr>c_flags := REDIS_MULTI OR REDIS_DIRTY_EXEC\<rparr>) stocked_server"

lemma aborted_facts:
  "server_inv aborted" "has_flag REDIS_MULTI (sv_clients aborted 1)" "has_flag REDIS_DIRTY_EXEC (sv_clients aborted 1)"
proof -
  show "server_inv aborted" unfolding aborted_def by (rule inner_inv [OF _ stocked_server_facts(1)]) (simp add: inner_def)
qed (simp_all add: aborted_def has_flag_def REDIS_MULTI_def REDIS_DIRTY_EXEC_def)

text \<open>A server whose only key has expired but is still stored.\<close>

definition overdue :: redisServer where
  "overdue = upd_db 0 (\<lambda>d. d\<lparr>db_dict := [bytes ''old'' \<mapsto> literal ''x''], db_expires := [bytes ''old'' \<mapsto> 5]\<rparr>) small_server"

lemma overdue_facts:
  "server_inv overdue" "db_dict (sv_dbs overdue 0) (bytes ''old'') = Some (literal ''x'')" "past overdue (db_expires (sv_dbs overdue 0) (bytes ''old''))"
  "c_db (sv_clients overdue i) = 0" "sv_now overdue = 1000" "db_expires (sv_dbs overdue 0) (bytes ''old'') = Some 5"
proof -
  have k: "keeps small_server overdue" unfolding overdue_def by (rule keeps_upd_db) simp
  have "db_inv overdue" using literals [of "''x''"] string_wf_obj(1) by (auto simp: db_inv_def overdue_def upd_db_def)
  then show "server_inv overdue" by (rule server_inv_keeps [OF small_server_inv k])
qed (simp_all add: overdue_def upd_db_def past_def clock_def small_server_def createClient_def initServer_def new_client_def)

end
