(* ===== verification/Protocol.thy ===== *)
theory Protocol
  imports Commands Clients Sds_Args
begin

text \<open>
  The request protocol (\<open>networking.c\<close>): the query buffer of a client, the incremental parser of inline and
  multi bulk requests, the loop that executes them and the handler that reads from the socket. The
  query buffer is a dynamic string; positions in it are below 1 GB, the limit of the buffer, so the C type
  \<open>int\<close> holds them. The arguments read so far are the \<open>c_argv\<close> of the client.

  What \<open>read\<close> returns and whether clients are paused are arguments. Timestamps, the replication offset of a
  master and statistics are left out, and so is the acknowledgement of replicas by empty lines.
\<close>

section \<open>State\<close>

record query =
  q_buf :: sdshdr
  q_reqtype :: nat
  q_multibulklen :: int
  q_bulklen :: int

definition REDIS_REQ_INLINE :: nat where "REDIS_REQ_INLINE = 1"

definition REDIS_REQ_MULTIBULK :: nat where "REDIS_REQ_MULTIBULK = 2"

definition REDIS_INLINE_MAX_SIZE :: nat where "REDIS_INLINE_MAX_SIZE = 65536"

definition REDIS_MBULK_BIG_ARG :: int where "REDIS_MBULK_BIG_ARG = 32768"

definition REDIS_IOBUF_LEN :: nat where "REDIS_IOBUF_LEN = 16384"

definition REDIS_SLAVE :: "32 word" where "REDIS_SLAVE = 1"

definition REDIS_BLOCKED :: "32 word" where "REDIS_BLOCKED = 16"

definition REDIS_ASKING :: "32 word" where "REDIS_ASKING = 512"

text \<open>\<open>strchr\<close> for a character other than the terminator: the index of its first occurrence, if any; no value when the text is not terminated.\<close>

fun strchr :: "byte list \<Rightarrow> byte \<Rightarrow> nat option option" where
  "strchr [] c = None"
| "strchr (b # t) c = (if b = c then Some (Some 0) else if b = 0 then Some None else map_option (map_option Suc) (strchr t c))"

definition push_arg :: "nat \<Rightarrow> robj \<Rightarrow> redisServer \<Rightarrow> redisServer" where
  "push_arg i ob = upd_client i (\<lambda>c. c\<lparr>c_argv := c_argv c @ [ob]\<rparr>)"

section \<open>Parsing\<close>

text \<open>The command that precedes is never \<open>askingCommand\<close>, which belongs to cluster mode.\<close>

definition reset_args :: "nat \<Rightarrow> redisServer \<Rightarrow> redisServer" where
  "reset_args i s = upd_client i (\<lambda>c. if \<not> has_flag REDIS_MULTI c then clear_flag REDIS_ASKING c else c) (set_argv i [] s)"

definition resetClient :: "nat \<Rightarrow> query \<Rightarrow> redisServer \<Rightarrow> query \<times> redisServer" where
  "resetClient i q s =
     (q\<lparr>q_reqtype := 0, q_multibulklen := 0, q_bulklen := - 1\<rparr>, reset_args i s)"

definition setProtocolError :: "nat \<Rightarrow> nat \<Rightarrow> query \<Rightarrow> redisServer \<Rightarrow> (query \<times> redisServer) option" where
  "setProtocolError i pos q s = do {
     buf \<leftarrow> sdsrange (q_buf q) (int pos) (- 1);
     Some (q\<lparr>q_buf := buf\<rparr>, upd_client i (set_flag REDIS_CLOSE_AFTER_REPLY) s) }"

text \<open>The flag is the result \<open>REDIS_OK\<close>.\<close>

definition processInlineBuffer :: "(nat \<Rightarrow> byte) \<Rightarrow> nat \<Rightarrow> query \<Rightarrow> redisServer \<Rightarrow> (query \<times> redisServer \<times> bool) option" where
  "processInlineBuffer garb i q s = do {
     newline \<leftarrow> strchr (s_buf (q_buf q)) 10;
     (case newline of
        None \<Rightarrow>
          if sdslen (q_buf q) > REDIS_INLINE_MAX_SIZE then do {
            (q, s) \<leftarrow> setProtocolError i 0 q (addReplyError i ''Protocol error: too big inline request'' s);
            Some (q, s, False) }
          else Some (q, s, False)
      | Some newline \<Rightarrow> do {
          querylen \<leftarrow> (if newline = 0 then Some 0
             else do { c \<leftarrow> mem_get (s_buf (q_buf q)) (newline - 1); Some (if c = 13 then newline - 1 else newline) });
          aux \<leftarrow> sdsnewlen garb (Some (s_buf (q_buf q))) querylen;
          argv \<leftarrow> sdssplitargs garb (sds_str aux);
          (case argv of
             None \<Rightarrow> do {
               (q, s) \<leftarrow> setProtocolError i 0 q (addReplyError i ''Protocol error: unbalanced quotes in request'' s);
               Some (q, s, False) }
           | Some argv \<Rightarrow> do {
               buf \<leftarrow> sdsrange (q_buf q) (int (querylen + 2)) (- 1);
               Some (q\<lparr>q_buf := buf\<rparr>,
                 set_argv i (map (\<lambda>a. createObject REDIS_STRING (PSds a)) (filter (\<lambda>a. sdslen a \<noteq> 0) argv)) s, True) }) }) }"

text \<open>
  The multi bulk count: the parser goes on in the arguments from the position given, or the function returns with
  the flag given. Both end of line tests compare with the length as \<open>int\<close>.
\<close>

datatype count_result = Continue query nat redisServer | Return query redisServer bool

definition line_complete :: "nat \<Rightarrow> sdshdr \<Rightarrow> bool" where
  "line_complete newline buf \<longleftrightarrow> \<not> int newline > s32 (int (sdslen buf)) - 2"

definition read_count :: "nat \<Rightarrow> query \<Rightarrow> redisServer \<Rightarrow> count_result option" where
  "read_count i q s = do {
     newline \<leftarrow> strchr (s_buf (q_buf q)) 13;
     (case newline of
        None \<Rightarrow>
          if sdslen (q_buf q) > REDIS_INLINE_MAX_SIZE then do {
            (q, s) \<leftarrow> setProtocolError i 0 q (addReplyError i ''Protocol error: too big mbulk count string'' s);
            Some (Return q s False) }
          else Some (Return q s False)
      | Some newline \<Rightarrow>
          if \<not> line_complete newline (q_buf q) then Some (Return q s False)
          else do {
            c \<leftarrow> mem_get (s_buf (q_buf q)) 0;
            if c \<noteq> ch CHR ''*'' then None
            else do {
              t \<leftarrow> mem_read (s_buf (q_buf q)) 1 (newline - 1);
              (let bad = do {
                 (q, s) \<leftarrow> setProtocolError i 0 q (addReplyError i ''Protocol error: invalid multibulk length'' s);
                 Some (Return q s False) } in
               case string2ll t of
                 None \<Rightarrow> bad
               | Some ll \<Rightarrow>
                   if ll > 1024 * 1024 then bad
                   else if ll \<le> 0 then do {
                     buf \<leftarrow> sdsrange (q_buf q) (int (newline + 2)) (- 1);
                     Some (Return (q\<lparr>q_buf := buf\<rparr>) s True) }
                   else Some (Continue (q\<lparr>q_multibulklen := ll\<rparr>) (newline + 2) (set_argv i [] s))) } }) }"

text \<open>The length of an argument, when it is not known yet.\<close>

datatype bulk_result = Known query nat redisServer | Wait query nat redisServer | Bad query redisServer

definition bad_bulk :: "nat \<Rightarrow> nat \<Rightarrow> query \<Rightarrow> redisServer \<Rightarrow> bulk_result option" where
  "bad_bulk i pos q s = do { (q, s) \<leftarrow> setProtocolError i pos q s; Some (Bad q s) }"

definition read_bulklen :: "(nat \<Rightarrow> byte) \<Rightarrow> nat \<Rightarrow> query \<Rightarrow> nat \<Rightarrow> redisServer \<Rightarrow> bulk_result option" where
  "read_bulklen garb i q pos s = do {
     newline \<leftarrow> strchr (drop pos (s_buf (q_buf q))) 13;
     (case newline of
        None \<Rightarrow>
          if sdslen (q_buf q) > REDIS_INLINE_MAX_SIZE
          then bad_bulk i 0 q (addReplyError i ''Protocol error: too big bulk count string'' s)
          else Some (Wait q pos s)
      | Some k \<Rightarrow>
          (let newline = pos + k in
           if \<not> line_complete newline (q_buf q) then Some (Wait q pos s)
           else do {
             c \<leftarrow> mem_get (s_buf (q_buf q)) pos;
             if c \<noteq> ch CHR ''$''
             then bad_bulk i pos q (addReplyErrorFormat i (''Protocol error: expected '' @ apostrophe @ ''$'' @ apostrophe @ '', got '' @ apostrophe) [c] apostrophe s)
             else do {
               t \<leftarrow> mem_read (s_buf (q_buf q)) (pos + 1) (newline - (pos + 1));
               (case string2ll t of
                  None \<Rightarrow> bad_bulk i pos q (addReplyError i ''Protocol error: invalid bulk length'' s)
                | Some ll \<Rightarrow>
                    if ll < 0 \<or> ll > 512 * 1024 * 1024
                    then bad_bulk i pos q (addReplyError i ''Protocol error: invalid bulk length'' s)
                    else if ll \<ge> REDIS_MBULK_BIG_ARG then do {
                      buf \<leftarrow> sdsrange (q_buf q) (int (newline + 2)) (- 1);
                      let buf = (if int (sdslen buf) < ll + 2 then sdsMakeRoomFor garb buf (nat (ll + 2 - int (sdslen buf))) else buf);
                      Some (Known (q\<lparr>q_buf := buf, q_bulklen := ll\<rparr>) 0 s) }
                    else Some (Known (q\<lparr>q_bulklen := ll\<rparr>) (newline + 2) s)) } })) }"

definition next_bulk :: "query \<Rightarrow> query" where
  "next_bulk q = q\<lparr>q_bulklen := - 1, q_multibulklen := q_multibulklen q - 1\<rparr>"

definition read_bulk :: "(nat \<Rightarrow> byte) \<Rightarrow> nat \<Rightarrow> query \<Rightarrow> nat \<Rightarrow> redisServer \<Rightarrow> bulk_result option" where
  "read_bulk garb i q pos s =
     (let buf = q_buf q; blen = q_bulklen q in
      if (int (sdslen buf) - int pos) mod 2 ^ 64 < (blen + 2) mod 2 ^ 32 then Some (Wait q pos s)
      else if pos = 0 \<and> blen \<ge> REDIS_MBULK_BIG_ARG \<and> s32 (int (sdslen buf)) = blen + 2 then do {
        arg \<leftarrow> sdsIncrLen buf (- 2);
        new \<leftarrow> sdsempty garb;
        Some (Known (next_bulk (q\<lparr>q_buf := sdsMakeRoomFor garb new (nat (blen + 2))\<rparr>)) 0 (push_arg i (createObject REDIS_STRING (PSds arg)) s)) }
      else do {
        arg \<leftarrow> createStringObject garb (Some (drop pos (s_buf buf))) (nat blen);
        Some (Known (next_bulk q) (pos + nat blen + 2) (push_arg i arg s)) })"

text \<open>The loop over the arguments; its count is \<open>multibulklen\<close>.\<close>

fun mbulk_loop :: "(nat \<Rightarrow> byte) \<Rightarrow> nat \<Rightarrow> nat \<Rightarrow> query \<Rightarrow> nat \<Rightarrow> redisServer \<Rightarrow> bulk_result option" where
  "mbulk_loop garb i 0 q pos s = Some (Wait q pos s)"
| "mbulk_loop garb i (Suc n) q pos s = do {
     r \<leftarrow> (if q_bulklen q = - 1 then read_bulklen garb i q pos s else Some (Known q pos s));
     (case r of
        Known q pos s \<Rightarrow> do {
          r \<leftarrow> read_bulk garb i q pos s;
          (case r of Known q pos s \<Rightarrow> mbulk_loop garb i n q pos s | _ \<Rightarrow> Some r) }
      | _ \<Rightarrow> Some r) }"

definition read_args :: "(nat \<Rightarrow> byte) \<Rightarrow> nat \<Rightarrow> query \<Rightarrow> nat \<Rightarrow> redisServer \<Rightarrow> (query \<times> redisServer \<times> bool) option" where
  "read_args garb i q pos s = do {
     r \<leftarrow> mbulk_loop garb i (nat (q_multibulklen q)) q pos s;
     (case r of
        Wait q pos s \<Rightarrow> do {
          buf \<leftarrow> (if pos \<noteq> 0 then sdsrange (q_buf q) (int pos) (- 1) else Some (q_buf q));
          Some (q\<lparr>q_buf := buf\<rparr>, s, q_multibulklen q = 0) }
      | Bad q s \<Rightarrow> Some (q, s, False)
      | Known q pos s \<Rightarrow> None) }"

definition processMultibulkBuffer :: "(nat \<Rightarrow> byte) \<Rightarrow> nat \<Rightarrow> query \<Rightarrow> redisServer \<Rightarrow> (query \<times> redisServer \<times> bool) option" where
  "processMultibulkBuffer garb i q s = do {
     r \<leftarrow> (if q_multibulklen q = 0 then (if c_argv (sv_clients s i) = [] then read_count i q s else None) else Some (Continue q 0 s));
     (case r of
        Return q s ok \<Rightarrow> Some (q, s, ok)
      | Continue q pos s \<Rightarrow> if q_multibulklen q \<le> 0 then None else read_args garb i q pos s) }"

section \<open>Execution\<close>

definition closing :: "nat \<Rightarrow> redisServer \<Rightarrow> bool" where
  "closing i s \<longleftrightarrow> has_flag REDIS_BLOCKED (sv_clients s i) \<or> has_flag REDIS_CLOSE_AFTER_REPLY (sv_clients s i)"

text \<open>The loop of \<open>processInputBuffer\<close>. Every round that goes on shortens the buffer: its length plus one rounds are enough.\<close>

fun input_loop :: "(nat \<Rightarrow> byte) \<Rightarrow> (nat \<Rightarrow> redisServer \<Rightarrow> (redisServer \<times> bool) option) \<Rightarrow> bool \<Rightarrow> nat \<Rightarrow> nat \<Rightarrow> query \<Rightarrow> redisServer \<Rightarrow> (query \<times> redisServer) option" where
  "input_loop garb exec paused i 0 q s = None"
| "input_loop garb exec paused i (Suc n) q s =
     (if sdslen (q_buf q) = 0 then Some (q, s)
      else if \<not> has_flag REDIS_SLAVE (sv_clients s i) \<and> paused then Some (q, s)
      else if closing i s then Some (q, s)
      else do {
        q \<leftarrow> (if q_reqtype q = 0
              then do { c \<leftarrow> mem_get (s_buf (q_buf q)) 0; Some (q\<lparr>q_reqtype := if c = ch CHR ''*'' then REDIS_REQ_MULTIBULK else REDIS_REQ_INLINE\<rparr>) }
              else Some q);
        (q, s, ok) \<leftarrow> (if q_reqtype q = REDIS_REQ_INLINE then processInlineBuffer garb i q s
           else if q_reqtype q = REDIS_REQ_MULTIBULK then processMultibulkBuffer garb i q s else None);
        if \<not> ok then Some (q, s)
        else if c_argv (sv_clients s i) = [] then (let (q, s) = resetClient i q s in input_loop garb exec paused i n q s)
        else do {
          (s, ok) \<leftarrow> exec i s;
          let (q, s) = (if ok then resetClient i q s else (q, s));
          input_loop garb exec paused i n q s } })"

definition processInputBuffer :: "(nat \<Rightarrow> byte) \<Rightarrow> (nat \<Rightarrow> redisServer \<Rightarrow> (redisServer \<times> bool) option) \<Rightarrow> bool \<Rightarrow> nat \<Rightarrow> query \<Rightarrow> redisServer \<Rightarrow> (query \<times> redisServer) option" where
  "processInputBuffer garb exec paused i q s = input_loop garb exec paused i (Suc (sdslen (q_buf q))) q s"

text \<open>What the system call returns.\<close>

datatype read_result = Data "byte list" | Again | Failed | Eof

definition readlen :: "query \<Rightarrow> nat" where
  "readlen q =
     (if q_reqtype q = REDIS_REQ_MULTIBULK \<and> q_multibulklen q \<noteq> 0 \<and> q_bulklen q \<noteq> - 1 \<and> q_bulklen q \<ge> REDIS_MBULK_BIG_ARG
      then (let remaining = s32 ((q_bulklen q + 2) mod 2 ^ 32 - int (sdslen (q_buf q))) in
            if remaining < int REDIS_IOBUF_LEN then nat remaining else REDIS_IOBUF_LEN)
      else REDIS_IOBUF_LEN)"

text \<open>The result: the client goes on, or it has been freed.\<close>

definition readQueryFromClient :: "(nat \<Rightarrow> byte) \<Rightarrow> (nat \<Rightarrow> redisServer \<Rightarrow> (redisServer \<times> bool) option) \<Rightarrow> bool \<Rightarrow> (byte list list \<Rightarrow> byte list list) \<Rightarrow> nat \<Rightarrow>
    nat \<Rightarrow> read_result \<Rightarrow> query \<Rightarrow> redisServer \<Rightarrow> (query option \<times> redisServer) option" where
  "readQueryFromClient garb exec paused ord maxlen i r q s =
     (let qblen = sdslen (q_buf q); n = readlen q; buf = sdsMakeRoomFor garb (q_buf q) n in
      case r of
        Again \<Rightarrow> Some (Some (q\<lparr>q_buf := buf\<rparr>), s)
      | Failed \<Rightarrow> map_option (\<lambda>s. (None, s)) (freeClient ord i s)
      | Eof \<Rightarrow> map_option (\<lambda>s. (None, s)) (freeClient ord i s)
      | Data d \<Rightarrow>
          if length d > n then None
          else do {
            mem \<leftarrow> mem_write (s_buf buf) qblen d;
            buf \<leftarrow> sdsIncrLen (buf\<lparr>s_buf := mem\<rparr>) (int (length d));
            if sdslen buf > maxlen then map_option (\<lambda>s. (None, s)) (freeClient ord i s)
            else map_option (\<lambda>(q, s). (Some q, s)) (processInputBuffer garb exec paused i (q\<lparr>q_buf := buf\<rparr>) s) })"

end
