(* ===== verification/Protocol_Spec.thy ===== *)
theory Protocol_Spec
  imports Protocol
begin

text \<open>
  What the parser of requests promises: however the stream of bytes is cut into reads, the requests executed are
  those that were encoded, in their order, each with its exact arguments.
\<close>

section \<open>Requests as bytes\<close>

definition header :: "byte \<Rightarrow> nat \<Rightarrow> byte list" where
  "header c n = c # dec n @ crlf"

definition encode :: "byte list list \<Rightarrow> byte list" where
  "encode args = header (ch CHR ''*'') (length args) @ concat (map bulk args)"

lemma bulk_header: "bulk a = header (ch CHR ''$'') (length a) @ a @ crlf"
  by (simp add: bulk_def header_def)

lemma dec_plain: "13 \<notin> set (dec n)" "0 \<notin> set (dec n)"
  using dec_digits(1) [of n] by (auto simp: isdigit_iff)

lemma strchr_found: "c \<notin> set xs \<Longrightarrow> 0 \<notin> set xs \<Longrightarrow> strchr (xs @ c # r) c = Some (Some (length xs))"
  by (induction xs) auto

lemma strchr_none: "c \<notin> set xs \<Longrightarrow> 0 \<notin> set xs \<Longrightarrow> c \<noteq> 0 \<Longrightarrow> strchr (xs @ 0 # r) c = Some None"
  by (induction xs) auto

lemma long_prefix: "p @ st = h @ r \<Longrightarrow> length h \<le> length p \<Longrightarrow> \<exists>z. p = h @ z \<and> z @ st = r"
  by (auto simp: append_eq_append_conv2)

lemma sds_drop:
  assumes "sds_inv b" "s_len b < 2 ^ 31" "pos < 2 ^ 31"
  shows "\<exists>b'. sdsrange b (int pos) (- 1) = Some b' \<and> sds_inv b' \<and> sds_str b' = drop pos (sds_str b)"
proof -
  have "range_of (sds_str b) (int pos) (- 1) = drop pos (sds_str b)"
    by (cases "sds_str b = []") (auto simp: range_of_def range_index_def Let_def nat_diff_distrib' Suc_diff_le)
  then show ?thesis using sdsrange_correct [of b "int pos" "- 1"] assms by auto
qed

text \<open>A line of a header in a buffer that holds a part of the stream.\<close>

lemma header_line:
  assumes inv: "sds_inv b" "s_len b < 2 ^ 31" and pos: "pos \<le> s_len b" and stream: "drop pos (sds_str b) @ st = header c n @ r"
    and c: "c \<noteq> 13" "c \<noteq> 0" and nl: "nl = pos + Suc (length (dec n))"
  shows "s_len b - pos < length (header c n) \<Longrightarrow>
      strchr (drop pos (s_buf b)) 13 = Some None \<or> strchr (drop pos (s_buf b)) 13 = Some (Some (nl - pos)) \<and> \<not> line_complete nl b"
    "\<not> s_len b - pos < length (header c n) \<Longrightarrow>
      strchr (drop pos (s_buf b)) 13 = Some (Some (nl - pos)) \<and> line_complete nl b \<and> mem_get (s_buf b) pos = Some c \<and>
      mem_read (s_buf b) (Suc pos) (nl - Suc pos) = Some (dec n) \<and> nl + 2 \<le> s_len b \<and>
      drop (nl + 2) (sds_str b) @ st = r"
proof -
  let ?p = "drop pos (sds_str b)"
  obtain rest where buf: "s_buf b = sds_str b @ 0 # rest" using sds_layout [OF inv(1)] by blast
  have l: "length (sds_str b) = s_len b" by (rule length_sds_str [OF inv(1)])
  have lp: "length ?p = s_len b - pos" by (simp add: l)
  have bp: "drop pos (s_buf b) = ?p @ 0 # rest" using pos by (simp add: buf l)
  have plain: "13 \<notin> set (c # dec n)" "0 \<notin> set (c # dec n)" using c dec_plain [of n] by auto
  have lc: "line_complete k b \<longleftrightarrow> k + 2 \<le> s_len b" for k using inv(2) by (auto simp: line_complete_def sdslen_def)
  have hl: "length (header c n) = Suc (length (dec n)) + 2" by (simp add: header_def crlf_def)
  have pre: "?p = take (s_len b - pos) ((c # dec n) @ 13 # 10 # r)"
    using arg_cong [OF stream, of "take (s_len b - pos)"] lp by (simp add: header_def crlf_def)
  show "strchr (drop pos (s_buf b)) 13 = Some None \<or> strchr (drop pos (s_buf b)) 13 = Some (Some (nl - pos)) \<and> \<not> line_complete nl b"
    if short: "s_len b - pos < length (header c n)"
  proof (cases "s_len b - pos \<le> Suc (length (dec n))")
    case True
    then have "?p = take (s_len b - pos) (c # dec n)" unfolding pre take_append by simp
    then have "13 \<notin> set ?p" "0 \<notin> set ?p" using plain by (metis in_set_takeD)+
    then show ?thesis unfolding bp by (simp add: strchr_none)
  next
    case False
    then have e: "s_len b - pos = Suc (length (dec n)) + 1" using short hl by simp
    have "?p = (c # dec n) @ [13]" using pre unfolding e by (simp add: take_Cons')
    then have "strchr (drop pos (s_buf b)) 13 = Some (Some (nl - pos))" unfolding bp using strchr_found [OF plain] nl by simp
    moreover have "\<not> line_complete nl b" using e nl pos lc [of nl] by simp
    ultimately show ?thesis by blast
  qed
  show "strchr (drop pos (s_buf b)) 13 = Some (Some (nl - pos)) \<and> line_complete nl b \<and> mem_get (s_buf b) pos = Some c \<and>
      mem_read (s_buf b) (Suc pos) (nl - Suc pos) = Some (dec n) \<and> nl + 2 \<le> s_len b \<and> drop (nl + 2) (sds_str b) @ st = r"
    if long: "\<not> s_len b - pos < length (header c n)"
  proof -
    obtain z where p: "?p = (c # dec n) @ 13 # 10 # z" "z @ st = r"
    proof -
      have "?p @ st = (c # dec n @ [13, 10]) @ r" using stream by (simp add: header_def crlf_def)
      then obtain z where "?p = (c # dec n @ [13, 10]) @ z" "z @ st = r"
        using long_prefix [of ?p st "c # dec n @ [13, 10]" r] long hl lp by (auto simp: not_less)
      then show ?thesis using that by simp
    qed
    have n2: "nl + 2 \<le> s_len b" using long hl nl pos by simp
    have "strchr (drop pos (s_buf b)) 13 = Some (Some (nl - pos))" unfolding bp p(1) using strchr_found [OF plain] nl by simp
    moreover have d: "drop pos (s_buf b) = c # dec n @ 13 # 10 # z @ 0 # rest" unfolding bp p(1) by simp
    then have "mem_get (s_buf b) pos = Some c" using pos by (auto simp: mem_get_def l buf nth_append simp flip: hd_drop_conv_nth)
    moreover have "drop (Suc pos) (s_buf b) = dec n @ 13 # 10 # z @ 0 # rest" using d by (metis drop_Suc drop_tl list.sel(3))
    then have "mem_read (s_buf b) (Suc pos) (nl - Suc pos) = Some (dec n)" using nl n2 l buf by (simp add: mem_read_def)
    moreover have "drop (nl + 2) (sds_str b) = z"
    proof -
      have "drop (nl + 2) (sds_str b) = drop (nl + 2 - pos) ?p" using nl by (simp add: numeral_3_eq_3 ac_simps)
      then show ?thesis using nl by (simp add: p(1) numeral_3_eq_3)
    qed
    ultimately show ?thesis using n2 lc p(2) by auto
  qed
qed


section \<open>Reading an argument\<close>

text \<open>The bounds within which the parser keeps the buffer: a long argument is alone in it.\<close>

definition roomy :: "sdshdr \<Rightarrow> nat \<Rightarrow> int \<Rightarrow> bool" where
  "roomy b pos l \<longleftrightarrow> pos \<le> s_len b \<and> (s_len b \<le> REDIS_INLINE_MAX_SIZE \<or> REDIS_MBULK_BIG_ARG \<le> l \<and> pos = 0 \<and> int (s_len b) \<le> l + 2)"

lemma string2ll_dec: "n < 2 ^ 63 \<Longrightarrow> string2ll (dec n) = Some (int n)"
  by (simp add: string2ll_correct sdec_def int64_range_def)

lemma read_bulklen_correct:
  assumes inv: "sds_inv (q_buf q)" and room: "roomy (q_buf q) pos (- 1)"
    and stream: "drop pos (sds_str (q_buf q)) @ st = header (ch CHR ''$'') n @ r" and n: "n \<le> STRING_MAX"
  shows "if s_len (q_buf q) - pos < length (header (ch CHR ''$'') n) then read_bulklen garb i q pos s = Some (Wait q pos s)
    else \<exists>b pos'. read_bulklen garb i q pos s = Some (Known (q\<lparr>q_buf := b, q_bulklen := int n\<rparr>) pos' s) \<and> sds_inv b \<and>
      roomy b pos' (int n) \<and> drop pos' (sds_str b) @ st = r"
proof -
  let ?b = "q_buf q" and ?nl = "pos + Suc (length (dec n))"
  have len: "s_len ?b \<le> REDIS_INLINE_MAX_SIZE" "pos \<le> s_len ?b" using room by (auto simp: roomy_def REDIS_MBULK_BIG_ARG_def)
  have l31: "s_len ?b < 2 ^ 31" using len(1) by (simp add: REDIS_INLINE_MAX_SIZE_def)
  note line = header_line [OF inv l31 len(2) stream _ _ refl]
  show ?thesis
  proof (cases "s_len ?b - pos < length (header (ch CHR ''$'') n)")
    case True
    then have "read_bulklen garb i q pos s = Some (Wait q pos s)"
      using line(1) len(1) by (auto simp: read_bulklen_def sdslen_def Let_def)
    then show ?thesis using True by simp
  next
    case False
    have ll: "string2ll (dec n) = Some (int n)" using n by (intro string2ll_dec) (simp add: STRING_MAX_def)
    obtain b1 where b1: "sdsrange ?b (int (?nl + 2)) (- 1) = Some b1" "sds_inv b1" "sds_str b1 = drop (?nl + 2) (sds_str ?b)"
      using sds_drop [OF inv l31, of "?nl + 2"] line(2) [OF _ _ False] l31 by auto
    have l1: "s_len b1 \<le> s_len ?b" using length_sds_str [OF b1(2)] length_sds_str [OF inv] b1(3) by simp
    define b2 where "b2 = (if int (sdslen b1) < int n + 2 then sdsMakeRoomFor garb b1 (nat (int n + 2 - int (sdslen b1))) else b1)"
    have b2: "sds_inv b2" "sds_str b2 = sds_str b1" "s_len b2 = s_len b1"
      using sdsMakeRoomFor_correct [OF b1(2), of "nat (int n + 2 - int (sdslen b1))" garb] b1(2) n
      by (auto simp: b2_def sdslen_def STRING_MAX_def SDS_MAX_PREALLOC_def)
    have run: "read_bulklen garb i q pos s =
        (if REDIS_MBULK_BIG_ARG \<le> int n then Some (Known (q\<lparr>q_buf := b2, q_bulklen := int n\<rparr>) 0 s)
         else Some (Known (q\<lparr>q_bulklen := int n\<rparr>) (?nl + 2) s))"
      using line(2) [OF _ _ False] ll n b1(1)
      by (simp add: read_bulklen_def Let_def b2_def STRING_MAX_def)
    show ?thesis
    proof (cases "REDIS_MBULK_BIG_ARG \<le> int n")
      case True
      have "roomy b2 0 (int n)" using l1 len(1) b2(3) by (simp add: roomy_def)
      then show ?thesis using False True run b2 b1(3) line(2) [OF _ _ False] by auto
    next
      case f: False
      have "roomy ?b (?nl + 2) (int n)" using line(2) [OF _ _ False] len(1) by (simp add: roomy_def)
      then have "read_bulklen garb i q pos s = Some (Known (q\<lparr>q_buf := ?b, q_bulklen := int n\<rparr>) (?nl + 2) s) \<and> sds_inv ?b \<and>
        roomy ?b (?nl + 2) (int n) \<and> drop (?nl + 2) (sds_str ?b) @ st = r" using f run line(2) [OF _ _ False] inv by simp
      then show ?thesis unfolding if_not_P [OF False] by blast
    qed
  qed
qed


definition carries :: "robj \<Rightarrow> byte list \<Rightarrow> bool" where
  "carries ob a \<longleftrightarrow> string_wf ob \<and> sdsEncodedObject ob \<and> str_val ob = a"

lemma createStringObject_carries:
  assumes "n \<le> length t" "n \<le> STRING_MAX"
  shows "\<exists>ob. createStringObject garb (Some t) n = Some ob \<and> carries ob (take n t)"
proof -
  obtain ob where ob: "createStringObject garb (Some t) n = Some ob" "string_wf ob" "str_val ob = take n t"
    using createStringObject_correct [OF assms] by blast
  have "o_encoding ob = REDIS_ENCODING_RAW \<or> o_encoding ob = REDIS_ENCODING_EMBSTR"
    using ob(1) by (auto simp: createStringObject_def createEmbeddedStringObject_def createRawStringObject_def createObject_def split: if_splits Option.bind_splits)
  then show ?thesis using ob by (simp add: carries_def sdsEncodedObject_def)
qed

lemma read_bulk_correct:
  assumes inv: "sds_inv (q_buf q)" and room: "roomy (q_buf q) pos (int (length a))" and l: "q_bulklen q = int (length a)"
    and stream: "drop pos (sds_str (q_buf q)) @ st = a @ crlf @ r" and a: "length a \<le> STRING_MAX"
  shows "if s_len (q_buf q) - pos < length a + 2 then read_bulk garb i q pos s = Some (Wait q pos s)
    else \<exists>b pos' ob. read_bulk garb i q pos s = Some (Known (next_bulk (q\<lparr>q_buf := b\<rparr>)) pos' (push_arg i ob s)) \<and> sds_inv b \<and>
      roomy b pos' (- 1) \<and> carries ob a \<and> drop pos' (sds_str b) @ st = r"
proof -
  let ?b = "q_buf q" and ?a = "int (length a)"
  have len: "pos \<le> s_len ?b" "s_len ?b < 2 ^ 31"
    using room a by (auto simp: roomy_def REDIS_INLINE_MAX_SIZE_def STRING_MAX_def)
  have m: "(int (sdslen ?b) - int pos) mod 2 ^ 64 = int (s_len ?b - pos)" "(?a + 2) mod 2 ^ 32 = ?a + 2" "s32 (int (sdslen ?b)) = int (s_len ?b)"
    using len a by (simp_all add: sdslen_def of_nat_diff STRING_MAX_def)
  have ls: "length (sds_str ?b) = s_len ?b" by (rule length_sds_str [OF inv])
  show ?thesis
  proof (cases "s_len ?b - pos < length a + 2")
    case True
    then have "read_bulk garb i q pos s = Some (Wait q pos s)" using m l by (simp add: read_bulk_def Let_def)
    then show ?thesis using True by simp
  next
    case False
    then have more: "\<not> int (s_len ?b - pos) < ?a + 2" by simp
    obtain z where z: "drop pos (sds_str ?b) = (a @ crlf) @ z" "z @ st = r"
      using long_prefix [of "drop pos (sds_str ?b)" st "a @ crlf" r] stream False ls by (auto simp: crlf_def)
    obtain rest where buf: "s_buf ?b = sds_str ?b @ 0 # rest" using sds_layout [OF inv] by blast
    show ?thesis
    proof (cases "pos = 0 \<and> REDIS_MBULK_BIG_ARG \<le> ?a \<and> int (s_len ?b) = ?a + 2")
      case True
      have "length z = 0" using arg_cong [OF z(1), of length] ls True by (simp add: crlf_def)
      then have z0: "z = []" by simp
      obtain arg where arg: "sdsIncrLen ?b (- 2) = Some arg" "sds_inv arg" "sds_str arg = take (nat (int (s_len ?b) - 2)) (s_buf ?b)"
        using sdsIncrLen_correct [OF inv, of "- 2"] True by auto
      have av: "sds_str arg = a" using arg(3) True z(1) by (simp add: buf)
      obtain e where e: "sdsempty garb = Some e" "sds_inv e" "sds_str e = []" using sdsempty_correct by blast
      define b where "b = sdsMakeRoomFor garb e (nat (?a + 2))"
      have e0: "s_len e = 0" using length_sds_str [OF e(2)] e(3) by simp
      have b: "sds_inv b" "sds_str b = []" "s_len b = 0"
        using sdsMakeRoomFor_correct [OF e(2), of "nat (?a + 2)" garb] e(3) e0 a by (auto simp: b_def STRING_MAX_def SDS_MAX_PREALLOC_def nat_add_distrib)
      have "carries (createObject REDIS_STRING (PSds arg)) a"
        using string_wf_sds(1,2) [OF arg(2)] length_sds_str [OF arg(2)] av a by (simp add: carries_def createObject_def sdsEncodedObject_def)
      moreover have "read_bulk garb i q pos s = Some (Known (next_bulk (q\<lparr>q_buf := b\<rparr>)) 0 (push_arg i (createObject REDIS_STRING (PSds arg)) s))"
        using m l more True arg(1) e(1) by (simp add: read_bulk_def Let_def b_def)
      moreover have "roomy b 0 (- 1)" using b(3) by (simp add: roomy_def)
      ultimately show ?thesis unfolding if_not_P [OF False] using b z(2) z0 by fastforce
    next
      case f: False
      have small: "s_len ?b \<le> REDIS_INLINE_MAX_SIZE" using room f False by (auto simp: roomy_def)
      have d: "drop pos (s_buf ?b) = a @ crlf @ z @ 0 # rest" using z(1) len(1) ls by (simp add: buf)
      obtain ob where ob: "createStringObject garb (Some (drop pos (s_buf ?b))) (length a) = Some ob" "carries ob a"
        using createStringObject_carries [of "length a" "drop pos (s_buf ?b)" garb] a d by auto
      have "read_bulk garb i q pos s = Some (Known (next_bulk (q\<lparr>q_buf := ?b\<rparr>)) (pos + length a + 2) (push_arg i ob s))"
        using m l more f ob(1) by (auto simp: read_bulk_def Let_def)
      moreover have "roomy ?b (pos + length a + 2) (- 1)" using small False len(1) by (simp add: roomy_def)
      moreover have "drop (pos + length a + 2) (sds_str ?b) = z"
      proof -
        have "drop (pos + length a + 2) (sds_str ?b) = drop (length a + 2) (drop pos (sds_str ?b))" by (simp add: ac_simps)
        then show ?thesis unfolding z(1) by (simp add: crlf_def)
      qed
      ultimately show ?thesis unfolding if_not_P [OF False] using ob(2) z(2) inv by blast
    qed
  qed
qed


section \<open>Reading the arguments\<close>

text \<open>What is still to come of a request: the arguments \<open>todo\<close>, of which the length of the first is known when \<open>l\<close> is not -1.\<close>

definition body :: "int \<Rightarrow> byte list list \<Rightarrow> byte list" where
  "body l todo = (if l = - 1 then concat (map bulk todo) else hd todo @ crlf @ concat (map bulk (tl todo)))"

definition arg_state :: "int \<Rightarrow> byte list list \<Rightarrow> bool" where
  "arg_state l todo \<longleftrightarrow> (l = - 1 \<or> todo \<noteq> [] \<and> l = int (length (hd todo))) \<and> (\<forall>a \<in> set todo. length a \<le> STRING_MAX)"

text \<open>How many bytes the next step needs.\<close>

definition needed :: "int \<Rightarrow> byte list list \<Rightarrow> nat" where
  "needed l todo = (if l = - 1 then length (header (ch CHR ''$'') (length (hd todo))) else length (hd todo) + 2)"

definition push_args :: "nat \<Rightarrow> robj list \<Rightarrow> redisServer \<Rightarrow> redisServer" where
  "push_args i obs = upd_client i (\<lambda>c. c\<lparr>c_argv := c_argv c @ obs\<rparr>)"

lemma push_args_simps: "push_args i [] s = s" "push_args i obs (push_arg i ob s) = push_args i (ob # obs) s"
  by (simp_all add: push_args_def push_arg_def upd_client_def)

text \<open>The parser waits: the request goes on in the stream and the buffer has too little of it.\<close>

definition waiting :: "query \<Rightarrow> nat \<Rightarrow> byte list \<Rightarrow> byte list list \<Rightarrow> byte list \<Rightarrow> bool" where
  "waiting q pos st todo r \<longleftrightarrow> sds_inv (q_buf q) \<and> roomy (q_buf q) pos (q_bulklen q) \<and> arg_state (q_bulklen q) todo \<and>
     q_multibulklen q = int (length todo) \<and> drop pos (sds_str (q_buf q)) @ st = body (q_bulklen q) todo @ r"

lemma waiting_known:
  assumes w: "waiting q pos st (a # todo) r"
  shows "if s_len (q_buf q) - pos < needed (q_bulklen q) (a # todo) \<and> q_bulklen q = - 1
    then read_bulklen garb i q pos s = Some (Wait q pos s)
    else \<exists>q' pos'. (if q_bulklen q = - 1 then read_bulklen garb i q pos s else Some (Known q pos s)) = Some (Known q' pos' s) \<and>
      waiting q' pos' st (a # todo) r \<and> q_bulklen q' = int (length a) \<and> q_reqtype q' = q_reqtype q"
proof (cases "q_bulklen q = - 1")
  case True
  have n: "length a \<le> STRING_MAX" using w by (simp add: waiting_def arg_state_def)
  have p: "sds_inv (q_buf q)" "roomy (q_buf q) pos (- 1)"
    "drop pos (sds_str (q_buf q)) @ st = header (ch CHR ''$'') (length a) @ a @ crlf @ concat (map bulk todo) @ r"
    using w True by (simp_all add: waiting_def body_def bulk_header)
  show ?thesis
  proof (cases "s_len (q_buf q) - pos < length (header (ch CHR ''$'') (length a))")
    case short: True
    then show ?thesis using read_bulklen_correct [OF p n, of garb i s] True by (simp add: needed_def)
  next
    case False
    then obtain b pos' where b: "read_bulklen garb i q pos s = Some (Known (q\<lparr>q_buf := b, q_bulklen := int (length a)\<rparr>) pos' s)" "sds_inv b"
      "roomy b pos' (int (length a))" "drop pos' (sds_str b) @ st = a @ crlf @ concat (map bulk todo) @ r"
      using read_bulklen_correct [OF p n, of garb i s] by auto
    have "waiting (q\<lparr>q_buf := b, q_bulklen := int (length a)\<rparr>) pos' st (a # todo) r"
      using w b(2-4) by (simp add: waiting_def arg_state_def body_def)
    then show ?thesis using True False b(1) by (fastforce simp: needed_def)
  qed
next
  case False
  then have "q_bulklen q = int (length a)" using w by (simp add: waiting_def arg_state_def)
  then show ?thesis using w False by simp
qed

lemma waiting_read:
  assumes w: "waiting q pos st (a # todo) r" and l: "q_bulklen q = int (length a)"
  shows "if s_len (q_buf q) - pos < needed (q_bulklen q) (a # todo) then read_bulk garb i q pos s = Some (Wait q pos s)
    else \<exists>q' pos' ob. read_bulk garb i q pos s = Some (Known q' pos' (push_arg i ob s)) \<and> carries ob a \<and>
      waiting q' pos' st todo r \<and> q_bulklen q' = - 1 \<and> q_reqtype q' = q_reqtype q"
proof -
  have p: "sds_inv (q_buf q)" "roomy (q_buf q) pos (int (length a))" "length a \<le> STRING_MAX"
    "drop pos (sds_str (q_buf q)) @ st = a @ crlf @ concat (map bulk todo) @ r"
    using w l by (simp_all add: waiting_def body_def arg_state_def)
  note read = read_bulk_correct [OF p(1,2) l p(4,3), of garb i s]
  have w': "waiting (next_bulk (q\<lparr>q_buf := b\<rparr>)) pos' st todo r" if "sds_inv b" "roomy b pos' (- 1)" "drop pos' (sds_str b) @ st = concat (map bulk todo) @ r" for b pos'
    using that w by (simp add: waiting_def next_bulk_def arg_state_def body_def)
  show ?thesis
  proof (cases "s_len (q_buf q) - pos < length a + 2")
    case True
    then show ?thesis using read l by (simp add: needed_def)
  next
    case False
    then obtain b pos' ob where "read_bulk garb i q pos s = Some (Known (next_bulk (q\<lparr>q_buf := b\<rparr>)) pos' (push_arg i ob s))" "carries ob a"
      "waiting (next_bulk (q\<lparr>q_buf := b\<rparr>)) pos' st todo r"
      using read w' by auto
    then show ?thesis using False l by (fastforce simp: needed_def next_bulk_def)
  qed
qed

lemma mbulk_loop_correct:
  assumes "waiting q pos st todo r" "todo = [] \<Longrightarrow> q_bulklen q = - 1"
  shows "\<exists>q' pos' obs todo'. mbulk_loop garb i (length todo) q pos s = Some (Wait q' pos' (push_args i obs s)) \<and>
    waiting q' pos' st todo' r \<and> q_reqtype q' = q_reqtype q \<and> (\<exists>k \<le> length todo. todo' = drop k todo \<and> list_all2 carries obs (take k todo)) \<and>
    (if todo' = [] then q_bulklen q' = - 1 else s_len (q_buf q') - pos' < needed (q_bulklen q') todo')"
  using assms
proof (induction todo arbitrary: q pos s)
  case Nil
  then show ?case by (fastforce simp: push_args_simps)
next
  case (Cons a todo)
  note w = Cons.prems(1)
  show ?case
  proof (cases "s_len (q_buf q) - pos < needed (q_bulklen q) (a # todo) \<and> q_bulklen q = - 1")
    case True
    then have "read_bulklen garb i q pos s = Some (Wait q pos s)" using waiting_known [OF w, of garb i s] by (metis (full_types))
    then have "mbulk_loop garb i (length (a # todo)) q pos s = Some (Wait q pos s)" using True by simp
    then show ?thesis using True w by (intro exI [of _ q] exI [of _ pos] exI [of _ "[]"] exI [of _ "a # todo"]) (auto simp: push_args_simps)
  next
    case known: False
    obtain q1 pos1 where q1: "(if q_bulklen q = - 1 then read_bulklen garb i q pos s else Some (Known q pos s)) = Some (Known q1 pos1 s)"
      "waiting q1 pos1 st (a # todo) r" "q_bulklen q1 = int (length a)" "q_reqtype q1 = q_reqtype q"
      using waiting_known [OF w, of garb i s] unfolding if_not_P [OF known] by blast
    have step: "mbulk_loop garb i (length (a # todo)) q pos s = do {
        r \<leftarrow> read_bulk garb i q1 pos1 s;
        (case r of Known q pos s \<Rightarrow> mbulk_loop garb i (length todo) q pos s | _ \<Rightarrow> Some r) }" using q1(1) by simp
    show ?thesis
    proof (cases "s_len (q_buf q1) - pos1 < needed (q_bulklen q1) (a # todo)")
      case True
      then have "read_bulk garb i q1 pos1 s = Some (Wait q1 pos1 s)" using waiting_read [OF q1(2,3), of garb i s] by simp
      then show ?thesis using step True q1(2,4)
        by (intro exI [of _ q1] exI [of _ pos1] exI [of _ "[]"] exI [of _ "a # todo"]) (auto simp: push_args_simps)
    next
      case False
      obtain q2 pos2 ob where q2: "read_bulk garb i q1 pos1 s = Some (Known q2 pos2 (push_arg i ob s))" "carries ob a"
        "waiting q2 pos2 st todo r" "q_bulklen q2 = - 1" "q_reqtype q2 = q_reqtype q1"
        using waiting_read [OF q1(2,3), of garb i s] unfolding if_not_P [OF False] by blast
      obtain q' pos' obs todo' k where ih: "mbulk_loop garb i (length todo) q2 pos2 (push_arg i ob s) = Some (Wait q' pos' (push_args i obs (push_arg i ob s)))"
        "waiting q' pos' st todo' r" "q_reqtype q' = q_reqtype q2" "k \<le> length todo" "todo' = drop k todo" "list_all2 carries obs (take k todo)"
        "if todo' = [] then q_bulklen q' = - 1 else s_len (q_buf q') - pos' < needed (q_bulklen q') todo'"
        using Cons.IH [OF q2(3) q2(4), of "push_arg i ob s"] by blast
      have "Suc k \<le> length (a # todo)" "todo' = drop (Suc k) (a # todo)" "list_all2 carries (ob # obs) (take (Suc k) (a # todo))"
        using ih(4-6) q2(2) by simp_all
      then show ?thesis using step q2(1,5) q1(4) ih(1-3,7)
        by (intro exI [of _ q'] exI [of _ pos'] exI [of _ "ob # obs"] exI [of _ todo']) (auto simp: push_args_simps)
    qed
  qed
qed


lemma waiting_trim:
  assumes w: "waiting q pos st todo r"
  shows "\<exists>b. (if pos \<noteq> 0 then sdsrange (q_buf q) (int pos) (- 1) else Some (q_buf q)) = Some b \<and>
    waiting (q\<lparr>q_buf := b\<rparr>) 0 st todo r \<and> s_len b = s_len (q_buf q) - pos"
proof (cases "pos = 0")
  case True
  then show ?thesis using w by (simp add: waiting_def)
next
  case False
  have room: "roomy (q_buf q) pos (q_bulklen q)" and inv: "sds_inv (q_buf q)" using w by (simp_all add: waiting_def)
  then have len: "s_len (q_buf q) \<le> REDIS_INLINE_MAX_SIZE" "pos \<le> s_len (q_buf q)" using False by (auto simp: roomy_def)
  then obtain b where b: "sdsrange (q_buf q) (int pos) (- 1) = Some b" "sds_inv b" "sds_str b = drop pos (sds_str (q_buf q))"
    using sds_drop [OF inv, of pos] by (auto simp: REDIS_INLINE_MAX_SIZE_def)
  have l: "s_len b = s_len (q_buf q) - pos" using length_sds_str [OF b(2)] length_sds_str [OF inv] b(3) by simp
  then have "s_len b \<le> REDIS_INLINE_MAX_SIZE" using len(1) by simp
  then show ?thesis using False b w l by (simp add: waiting_def roomy_def)
qed

lemma body_pos: "arg_state l todo \<Longrightarrow> todo \<noteq> [] \<Longrightarrow> needed l todo \<le> length (body l todo) \<and> 0 < needed l todo"
  by (cases todo) (auto simp: body_def needed_def bulk_header header_def crlf_def)

lemma loop_finish:
  assumes w: "waiting q pos st todo r" and todo: "todo \<noteq> []" and m: "q_multibulklen q = int (length todo)"
  shows "\<exists>q' obs. read_args garb i q pos s = Some (q', push_args i obs s, q_multibulklen q' = 0) \<and> q_reqtype q' = q_reqtype q \<and>
    (\<exists>k \<le> length todo. list_all2 carries obs (take k todo) \<and> waiting q' 0 st (drop k todo) r \<and>
      (if k = length todo then q_bulklen q' = - 1 else s_len (q_buf q') < needed (q_bulklen q') (drop k todo)))"
proof -
  obtain q1 pos1 obs todo' k where q1: "mbulk_loop garb i (length todo) q pos s = Some (Wait q1 pos1 (push_args i obs s))"
    "waiting q1 pos1 st todo' r" "q_reqtype q1 = q_reqtype q" "k \<le> length todo" "todo' = drop k todo" "list_all2 carries obs (take k todo)"
    "if todo' = [] then q_bulklen q1 = - 1 else s_len (q_buf q1) - pos1 < needed (q_bulklen q1) todo'"
    using mbulk_loop_correct [OF w, of garb i s] todo by blast
  obtain b where b: "(if pos1 \<noteq> 0 then sdsrange (q_buf q1) (int pos1) (- 1) else Some (q_buf q1)) = Some b"
    "waiting (q1\<lparr>q_buf := b\<rparr>) 0 st todo' r" "s_len b = s_len (q_buf q1) - pos1"
    using waiting_trim [OF q1(2)] by blast
  have "if k = length todo then q_bulklen q1 = - 1 else s_len b < needed (q_bulklen q1) todo'"
    using q1(4,5,7) b(3) by (auto split: if_splits)
  then show ?thesis using q1 b m
    by (intro exI [of _ "q1\<lparr>q_buf := b\<rparr>"] exI [of _ obs] conjI exI [of _ k]) (simp_all add: read_args_def split: if_splits)
qed

section \<open>Reading a request\<close>

definition good_request :: "byte list list \<Rightarrow> bool" where
  "good_request args \<longleftrightarrow> args \<noteq> [] \<and> length args \<le> 1024 * 1024 \<and> (\<forall>a \<in> set args. length a \<le> STRING_MAX)"

definition counting :: "nat \<Rightarrow> query \<Rightarrow> redisServer \<Rightarrow> byte list \<Rightarrow> byte list list list \<Rightarrow> bool" where
  "counting i q s st reqs \<longleftrightarrow> q_multibulklen q = 0 \<and> q_bulklen q = - 1 \<and> c_argv (sv_clients s i) = [] \<and>
     sds_inv (q_buf q) \<and> s_len (q_buf q) \<le> REDIS_INLINE_MAX_SIZE \<and> sds_str (q_buf q) @ st = concat (map encode reqs)"

lemma read_count_correct:
  assumes c: "counting i q s st (args # reqs)" and good: "good_request args"
  shows "if s_len (q_buf q) < length (header (ch CHR ''*'') (length args)) then read_count i q s = Some (Return q s False)
    else \<exists>pos. read_count i q s = Some (Continue (q\<lparr>q_multibulklen := int (length args)\<rparr>) pos (set_argv i [] s)) \<and>
      waiting (q\<lparr>q_multibulklen := int (length args)\<rparr>) pos st args (concat (map encode reqs))"
proof -
  let ?b = "q_buf q" and ?n = "length args"
  have inv: "sds_inv ?b" "s_len ?b \<le> REDIS_INLINE_MAX_SIZE" using c by (simp_all add: counting_def)
  have l31: "s_len ?b < 2 ^ 31" using inv(2) by (simp add: REDIS_INLINE_MAX_SIZE_def)
  have stream: "drop 0 (sds_str ?b) @ st = header (ch CHR ''*'') ?n @ concat (map bulk args) @ concat (map encode reqs)"
    using c by (simp add: counting_def encode_def)
  note line = header_line [OF inv(1) l31 _ stream _ _ refl, simplified]
  show ?thesis
  proof (cases "s_len ?b < length (header (ch CHR ''*'') ?n)")
    case True
    then have "read_count i q s = Some (Return q s False)" using line(1) inv(2) by (auto simp: read_count_def sdslen_def)
    then show ?thesis using True by simp
  next
    case False
    have n: "?n \<le> 1024 * 1024" "0 < ?n" using good by (simp_all add: good_request_def)
    have ll: "string2ll (dec ?n) = Some (int ?n)" using n by (intro string2ll_dec) simp
    let ?pos = "Suc (Suc (Suc (length (dec ?n))))"
    have "read_count i q s = Some (Continue (q\<lparr>q_multibulklen := int ?n\<rparr>) ?pos (set_argv i [] s))"
      using line(2) False ll n by (simp add: read_count_def)
    moreover have "waiting (q\<lparr>q_multibulklen := int ?n\<rparr>) ?pos st args (concat (map encode reqs))"
      using c good line(2) False by (simp add: waiting_def counting_def roomy_def arg_state_def good_request_def body_def)
    ultimately show ?thesis using False by auto
  qed
qed


text \<open>The requests that the buffer and the rest of the stream hold, the first of them perhaps read in part.\<close>

definition pending :: "bool \<Rightarrow> nat \<Rightarrow> query \<Rightarrow> redisServer \<Rightarrow> byte list \<Rightarrow> byte list list list \<Rightarrow> bool" where
  "pending starved i q s st reqs \<longleftrightarrow> list_all good_request reqs \<and>
     ((q_reqtype q = 0 \<or> q_reqtype q = REDIS_REQ_MULTIBULK) \<and> counting i q s st reqs \<and>
        (starved \<longrightarrow> s_len (q_buf q) = 0 \<or> reqs \<noteq> [] \<and> s_len (q_buf q) < length (header (ch CHR ''*'') (length (hd reqs)))) \<or>
      q_reqtype q = REDIS_REQ_MULTIBULK \<and>
        (\<exists>args todo rest. reqs = (args @ todo) # rest \<and> todo \<noteq> [] \<and> list_all2 carries (c_argv (sv_clients s i)) args \<and>
          waiting q 0 st todo (concat (map encode rest)) \<and> (starved \<longrightarrow> s_len (q_buf q) < needed (q_bulklen q) todo)))"

lemma argv_push: "c_argv (sv_clients (push_args i obs s) i) = c_argv (sv_clients s i) @ obs"
  "c_argv (sv_clients (set_argv i a s) i) = a" "set_argv i a (push_args i obs s) = set_argv i a s" "set_argv i a (set_argv i b s) = set_argv i a s"
  "c_argv (sv_clients s i) = [] \<Longrightarrow> set_argv i [] s = s"
  "push_args i obs s = set_argv i (c_argv (sv_clients s i) @ obs) s"
  by (auto simp: push_args_def set_argv_def upd_client_def intro!: redisServer.equality)

text \<open>A request has been read: what is left to the next ones.\<close>

definition request_read :: "nat \<Rightarrow> query \<Rightarrow> byte list \<Rightarrow> byte list list list \<Rightarrow> bool" where
  "request_read i q st reqs \<longleftrightarrow> q_multibulklen q = 0 \<and> q_bulklen q = - 1 \<and> q_reqtype q = REDIS_REQ_MULTIBULK \<and> sds_inv (q_buf q) \<and>
     s_len (q_buf q) \<le> REDIS_INLINE_MAX_SIZE \<and> sds_str (q_buf q) @ st = concat (map encode reqs)"

lemma multibulk_args:
  assumes w: "waiting q pos st todo (concat (map encode rest))" and todo: "todo \<noteq> []" and args: "list_all2 carries (c_argv (sv_clients s i)) args"
    and good: "list_all good_request ((args @ todo) # rest)" and req: "q_reqtype q = REDIS_REQ_MULTIBULK"
  shows "\<exists>q' argv ok. read_args garb i q pos s = Some (q', set_argv i argv s, ok) \<and>
    (if ok then list_all2 carries argv (args @ todo) \<and> request_read i q' st rest
     else pending True i q' (set_argv i argv s) st ((args @ todo) # rest))"
proof -
  have m: "q_multibulklen q = int (length todo)" using w by (simp add: waiting_def)
  obtain q' obs k where q': "read_args garb i q pos s = Some (q', push_args i obs s, q_multibulklen q' = 0)" "q_reqtype q' = q_reqtype q"
    "k \<le> length todo" "list_all2 carries obs (take k todo)" "waiting q' 0 st (drop k todo) (concat (map encode rest))"
    "if k = length todo then q_bulklen q' = - 1 else s_len (q_buf q') < needed (q_bulklen q') (drop k todo)"
    using loop_finish [OF w todo m, of garb i s] by blast
  let ?argv = "c_argv (sv_clients s i) @ obs"
  have all: "list_all2 carries ?argv (args @ take k todo)" by (rule list_all2_appendI [OF args q'(4)])
  show ?thesis
  proof (cases "k = length todo")
    case True
    have "request_read i q' st rest" using q'(2,5,6) True req by (auto simp: request_read_def waiting_def roomy_def REDIS_MBULK_BIG_ARG_def body_def)
    moreover have "q_multibulklen q' = 0" using q'(5) True by (simp add: waiting_def)
    ultimately show ?thesis using q'(1) all True by (intro exI [of _ q'] exI [of _ ?argv] exI [of _ True]) (simp add: argv_push(6))
  next
    case False
    then have "pending True i q' (set_argv i ?argv s) st ((args @ todo) # rest)"
      using q'(2,3,5,6) all good req unfolding pending_def
      by (intro conjI disjI2 exI [of _ "args @ take k todo"] exI [of _ "drop k todo"] exI [of _ rest]) (simp_all add: argv_push)
    moreover have "q_multibulklen q' \<noteq> 0" using q'(3,5) False by (simp add: waiting_def)
    ultimately show ?thesis using q'(1) by (intro exI [of _ q'] exI [of _ ?argv] exI [of _ False]) (simp add: argv_push(6))
  qed
qed

lemma multibulk_correct:
  assumes p: "pending b i q s st reqs" and req: "q_reqtype q = REDIS_REQ_MULTIBULK" and ne: "s_len (q_buf q) \<noteq> 0"
  shows "\<exists>q' argv ok. processMultibulkBuffer garb i q s = Some (q', set_argv i argv s, ok) \<and>
    (if ok then \<exists>args rest. reqs = args # rest \<and> list_all2 carries argv args \<and> request_read i q' st rest
     else pending True i q' (set_argv i argv s) st reqs)"
proof -
  have good: "list_all good_request reqs" using p by (simp add: pending_def)
  consider (count) "counting i q s st reqs"
    | (args) args todo rest where "reqs = (args @ todo) # rest" "todo \<noteq> []" "list_all2 carries (c_argv (sv_clients s i)) args"
        "waiting q 0 st todo (concat (map encode rest))"
    using p unfolding pending_def by blast
  then show ?thesis
  proof cases
  case c: count
  obtain args rest where reqs: "reqs = args # rest"
    using c ne length_sds_str [of "q_buf q"] by (cases reqs) (auto simp: counting_def)
  have g: "good_request args" using good reqs by simp
  have "c_argv (sv_clients s i) = []" "q_multibulklen q = 0" using c by (simp_all add: counting_def)
  then have run: "processMultibulkBuffer garb i q s = do {
     r \<leftarrow> read_count i q s;
     (case r of
        Return q s ok \<Rightarrow> Some (q, s, ok)
      | Continue q pos s \<Rightarrow> if q_multibulklen q \<le> 0 then None else read_args garb i q pos s) }" and a0: "set_argv i [] s = s"
    by (simp_all add: processMultibulkBuffer_def argv_push(5))
  note count = read_count_correct [OF c [unfolded reqs] g]
  show ?thesis
  proof (cases "s_len (q_buf q) < length (header (ch CHR ''*'') (length args))")
    case True
    then have "processMultibulkBuffer garb i q s = Some (q, set_argv i [] s, False)" using run count a0 by simp
    moreover have "pending True i q (set_argv i [] s) st reqs" using good c req True a0 reqs by (simp add: pending_def)
    ultimately show ?thesis by fastforce
  next
    case False
    let ?q = "q\<lparr>q_multibulklen := int (length args)\<rparr>"
    obtain pos where pos: "read_count i q s = Some (Continue ?q pos s)" "waiting ?q pos st args (concat (map encode rest))"
      using count False a0 by auto
    have n: "\<not> q_multibulklen ?q \<le> 0" using g by (auto simp: good_request_def)
    have "processMultibulkBuffer garb i q s = read_args garb i ?q pos s" using run pos(1) n by simp
    moreover have "args \<noteq> []" "list_all2 carries (c_argv (sv_clients s i)) []" "list_all good_request (([] @ args) # rest)" "q_reqtype ?q = REDIS_REQ_MULTIBULK"
      using g good reqs req \<open>c_argv (sv_clients s i) = []\<close> by (simp_all add: good_request_def)
    ultimately show ?thesis using multibulk_args [OF pos(2), of s i "[]" garb] unfolding reqs by (metis (no_types, lifting) append_Nil)
  qed
next
  case (args args todo rest)
  note reqs = args(1) and todo = args(2) and w = args(4)
  have m: "\<not> q_multibulklen q \<le> 0" "q_multibulklen q \<noteq> 0" using w todo by (auto simp: waiting_def)
  have "processMultibulkBuffer garb i q s = read_args garb i q 0 s" using m by (simp add: processMultibulkBuffer_def)
  then show ?thesis using multibulk_args [OF w todo args(3) good [unfolded reqs] req, of garb] unfolding reqs by (metis (no_types, lifting))
qed
qed

end
