(* ===== verification/Protocol_Run.thy ===== *)
theory Protocol_Run
  imports Protocol_Spec
begin

text \<open>
  The execution of a stream of requests: the loop of \<open>processInputBuffer\<close> and the reads of \<open>readQueryFromClient\<close>
  against the plain sequence of the encoded requests.
\<close>

section \<open>Requests as they are executed\<close>

fun run_requests :: "(nat \<Rightarrow> redisServer \<Rightarrow> (redisServer \<times> bool) option) \<Rightarrow> nat \<Rightarrow> argv list \<Rightarrow> redisServer \<Rightarrow> redisServer option" where
  "run_requests exec i [] s = Some s"
| "run_requests exec i (argv # argvs) s =
     (if closing i s then Some s
      else do { (s, ok) \<leftarrow> exec i (set_argv i argv s); run_requests exec i argvs (if ok then reset_args i s else s) })"

lemma run_closed: "closing i s \<Longrightarrow> run_requests exec i argvs s = Some s"
  by (cases argvs) simp_all

lemma run_append: "run_requests exec i (a @ b) s = do { s \<leftarrow> run_requests exec i a s; run_requests exec i b s }"
  by (induction a arbitrary: s) (auto simp: run_closed split: Option.bind_split)

abbreviation requests_carried :: "argv list \<Rightarrow> byte list list list \<Rightarrow> bool" where
  "requests_carried argvs reqs \<equiv> list_all2 (list_all2 carries) argvs reqs"

lemma list_all2_exists: "\<forall>x \<in> set xs. \<exists>y. P y x \<Longrightarrow> \<exists>ys. list_all2 P ys xs"
  by (induction xs) (auto intro: list_all2_Cons [THEN iffD2, OF conjI])

lemma carried_exists:
  assumes "list_all good_request reqs"
  shows "\<exists>argvs. requests_carried argvs reqs"
proof (intro list_all2_exists ballI)
  fix r a assume r: "r \<in> set reqs" and a: "a \<in> set r"
  then have "length a \<le> STRING_MAX" using assms by (auto simp: list_all_iff good_request_def)
  then show "\<exists>ob. carries ob a" using createStringObject_carries [of "length a" a "\<lambda>_. 0"] by auto
qed

lemma closing_set_argv [simp]: "closing i (set_argv i a s) = closing i s"
  by (simp add: closing_def set_argv_def has_flag_def)

lemma reset_args_argv [simp]: "c_argv (sv_clients (reset_args i s) i) = []"
  by (simp add: reset_args_def set_argv_def clear_flag_def)

section \<open>The loop\<close>

lemma pending_empty:
  assumes "pending b i q s st reqs" "s_len (q_buf q) = 0"
  shows "pending True i q s st reqs"
proof -
  have "s_len (q_buf q) < needed (q_bulklen q) todo" if "waiting q 0 st todo r" "todo \<noteq> []" for todo r
    using body_pos [of "q_bulklen q" todo] that assms(2) by (simp add: waiting_def)
  then show ?thesis using assms unfolding pending_def by blast
qed

lemma pending_reqtype:
  assumes p: "pending b i q s st reqs" and ne: "s_len (q_buf q) \<noteq> 0"
  shows "\<exists>q'. (if q_reqtype q = 0
      then do { c \<leftarrow> mem_get (s_buf (q_buf q)) 0; Some (q\<lparr>q_reqtype := if c = ch CHR ''*'' then REDIS_REQ_MULTIBULK else REDIS_REQ_INLINE\<rparr>) }
      else Some q) = Some q' \<and> pending b i q' s st reqs \<and> q_reqtype q' = REDIS_REQ_MULTIBULK \<and> q_buf q' = q_buf q"
proof (cases "q_reqtype q = 0")
  case True
  then have c: "counting i q s st reqs" using p by (auto simp: pending_def REDIS_REQ_MULTIBULK_def)
  then have inv: "sds_inv (q_buf q)" by (simp add: counting_def)
  then obtain x xs where x: "sds_str (q_buf q) = x # xs" using ne length_sds_str [OF inv] by (cases "sds_str (q_buf q)") auto
  obtain args rest where "reqs = args # rest" using c x by (cases reqs) (auto simp: counting_def)
  then have "x = ch CHR ''*''" using c x by (simp add: counting_def encode_def header_def)
  moreover have "mem_get (s_buf (q_buf q)) 0 = Some x" using sds_layout [OF inv] x by (auto simp: mem_get_def)
  moreover have "pending b i (q\<lparr>q_reqtype := REDIS_REQ_MULTIBULK\<rparr>) s st reqs"
    using p True unfolding pending_def by (auto simp: counting_def REDIS_REQ_MULTIBULK_def)
  ultimately show ?thesis using True by simp
next
  case False
  then show ?thesis using p by (auto simp: pending_def)
qed

lemma request_shrinks:
  assumes p: "pending b i q s st (args # rest)" and r: "request_read i q' st rest"
  shows "s_len (q_buf q') < s_len (q_buf q)"
proof -
  have q': "s_len (q_buf q') + length st = length (concat (map encode rest))"
    using r length_sds_str [of "q_buf q'"] arg_cong [of _ _ length] unfolding request_read_def by (metis length_append)
  consider (count) "counting i q s st (args # rest)" | (args) todo where "todo \<noteq> []" "waiting q 0 st todo (concat (map encode rest))"
    using p unfolding pending_def by blast
  then have "length (concat (map encode rest)) < s_len (q_buf q) + length st"
  proof cases
    case count
    then have "s_len (q_buf q) + length st = length (encode args) + length (concat (map encode rest))"
      using length_sds_str [of "q_buf q"] unfolding counting_def by (metis length_append concat.simps(2) list.simps(9))
    then show ?thesis by (simp add: encode_def header_def)
  next
    case args
    then have "s_len (q_buf q) + length st = length (body (q_bulklen q) todo) + length (concat (map encode rest))"
      using length_sds_str [of "q_buf q"] unfolding waiting_def by (metis length_append drop_0)
    moreover have "0 < length (body (q_bulklen q) todo)" using body_pos [of "q_bulklen q" todo] args by (fastforce simp: waiting_def)
    ultimately show ?thesis by linarith
  qed
  then show ?thesis using q' by simp
qed


section \<open>Reads\<close>

lemma sds_read:
  assumes inv: "sds_inv b" and d: "length d \<le> n" and room: "s_len b + n + SDS_MAX_PREALLOC < 2 ^ 32"
  shows "\<exists>mem b'. mem_write (s_buf (sdsMakeRoomFor garb b n)) (s_len b) d = Some mem \<and>
    sdsIncrLen ((sdsMakeRoomFor garb b n)\<lparr>s_buf := mem\<rparr>) (int (length d)) = Some b' \<and> sds_inv b' \<and> sds_str b' = sds_str b @ d"
proof -
  let ?r = "sdsMakeRoomFor garb b n"
  note m = sdsMakeRoomFor_correct [OF inv room, of garb]
  have f32: "s_len ?r + s_free ?r < 2 ^ 32" using m(1) by (simp add: sds_inv_def)
  obtain x y where x: "mem_write (s_buf ?r) (s_len b) d = Some x" "mem_set x (s_len b + length d) 0 = Some y"
    "sds_inv \<lparr>s_len = s_len b + length d, s_free = s_free ?r - length d, s_buf = y\<rparr>"
    "sds_str \<lparr>s_len = s_len b + length d, s_free = s_free ?r - length d, s_buf = y\<rparr> = take (s_len b) (s_buf ?r) @ d"
    using sds_store [OF m(1), of "s_len b" d] m(3,4) d by auto
  have l: "nat ((int (s_len b) + int (length d)) mod 2 ^ 32) = s_len b + length d" "nat ((int (s_free ?r) - int (length d)) mod 2 ^ 32) = s_free ?r - length d"
    using f32 m(3,4) d by (simp_all add: nat_diff_distrib)
  have "sdsIncrLen (?r\<lparr>s_buf := x\<rparr>) (int (length d)) = Some \<lparr>s_len = s_len b + length d, s_free = s_free ?r - length d, s_buf = y\<rparr>"
    using x(2) l m(3,4) d by (simp add: sdsIncrLen_def Let_def nat_add_distrib nat_diff_distrib')
  moreover have "take (s_len b) (s_buf ?r) = sds_str b" using m(2,3) by (simp add: sds_str_def)
  ultimately show ?thesis using x by simp
qed

lemma header_short: "n \<le> STRING_MAX \<Longrightarrow> length (header c n) \<le> 13"
  using length_dec_bound [of n 10] by (simp add: header_def crlf_def STRING_MAX_def)

lemma pending_length:
  assumes "pending b i q s st reqs"
  shows "s_len (q_buf q) + length st \<le> length (concat (map encode reqs))"
proof -
  consider (count) "counting i q s st reqs" | (args) args todo rest where "reqs = (args @ todo) # rest" "todo \<noteq> []" "waiting q 0 st todo (concat (map encode rest))"
    using assms unfolding pending_def by blast
  then show ?thesis
  proof cases
    case count
    then show ?thesis using length_sds_str [of "q_buf q"] unfolding counting_def by (metis length_append order_refl)
  next
    case args
    have "s_len (q_buf q) + length st = length (body (q_bulklen q) todo) + length (concat (map encode rest))"
      using args(3) length_sds_str [of "q_buf q"] unfolding waiting_def by (metis length_append drop_0)
    moreover have "length (body (q_bulklen q) todo) \<le> length (concat (map bulk todo))"
      using args(2) by (cases todo) (simp_all add: body_def bulk_header)
    ultimately show ?thesis by (simp add: args(1) encode_def)
  qed
qed

text \<open>With the whole stream in the buffer nothing is left.\<close>

lemma pending_end:
  assumes p: "pending True i q s [] reqs"
  shows "reqs = [] \<and> c_argv (sv_clients s i) = []"
proof -
  consider (count) "counting i q s [] reqs" "s_len (q_buf q) = 0 \<or> reqs \<noteq> [] \<and> s_len (q_buf q) < length (header (ch CHR ''*'') (length (hd reqs)))"
    | (args) todo r where "todo \<noteq> []" "waiting q 0 [] todo r" "s_len (q_buf q) < needed (q_bulklen q) todo"
    using p unfolding pending_def by blast
  then show ?thesis
  proof cases
    case count
    have "length (concat (map encode reqs)) = s_len (q_buf q)" using count(1) length_sds_str [of "q_buf q"] by (simp add: counting_def)
    then have "reqs = []" using count(2) by (cases reqs) (auto simp: encode_def header_def)
    then show ?thesis using count(1) by (simp add: counting_def)
  next
    case args
    have "length (body (q_bulklen q) todo) \<le> s_len (q_buf q)" using args(2) length_sds_str [of "q_buf q"] by (simp add: waiting_def)
    then show ?thesis using body_pos [of "q_bulklen q" todo] args by (simp add: waiting_def)
  qed
qed

text \<open>The next read finds room, and the buffer stays within its bounds.\<close>

lemma pending_read:
  assumes p: "pending True i q s st reqs"
  shows "0 < readlen q" "readlen q \<le> REDIS_IOBUF_LEN" "s_len (q_buf q) < 2 ^ 30" "sds_inv (q_buf q)"
    "\<And>b d st'. st = d @ st' \<Longrightarrow> length d \<le> readlen q \<Longrightarrow> sds_inv b \<Longrightarrow> sds_str b = sds_str (q_buf q) @ d \<Longrightarrow>
      pending False i (q\<lparr>q_buf := b\<rparr>) s st' reqs"
proof -
  let ?n = "s_len (q_buf q)"
  have sb: "s_len b = ?n + length d" if "sds_inv b" "sds_str b = sds_str (q_buf q) @ d" "sds_inv (q_buf q)" for b d
    using length_sds_str [OF that(1)] length_sds_str [OF that(3)] that(2) by simp
  have good: "list_all good_request reqs" using p by (simp add: pending_def)
  consider (count) "counting i q s st reqs" "?n \<le> 13" "q_reqtype q = 0 \<or> q_reqtype q = REDIS_REQ_MULTIBULK"
    | (args) args todo rest where "reqs = (args @ todo) # rest" "todo \<noteq> []" "list_all2 carries (c_argv (sv_clients s i)) args"
        "waiting q 0 st todo (concat (map encode rest))" "?n < needed (q_bulklen q) todo" "q_reqtype q = REDIS_REQ_MULTIBULK"
  proof (cases "counting i q s st reqs")
    case True
    have "?n = 0 \<or> reqs \<noteq> [] \<and> ?n < length (header (ch CHR ''*'') (length (hd reqs)))" "q_reqtype q = 0 \<or> q_reqtype q = REDIS_REQ_MULTIBULK"
      using p True unfolding pending_def counting_def waiting_def by auto
    moreover have "length (header (ch CHR ''*'') (length (hd reqs))) \<le> 13" if "reqs \<noteq> []"
      using good that by (intro header_short) (auto simp: neq_Nil_conv good_request_def STRING_MAX_def)
    ultimately show ?thesis using that(1) True by force
  next
    case False
    then show ?thesis using that(2) p unfolding pending_def by blast
  qed
  then have "0 < readlen q \<and> readlen q \<le> REDIS_IOBUF_LEN \<and> ?n < 2 ^ 30 \<and> sds_inv (q_buf q) \<and>
    (\<forall>b d st'. st = d @ st' \<longrightarrow> length d \<le> readlen q \<longrightarrow> sds_inv b \<longrightarrow> sds_str b = sds_str (q_buf q) @ d \<longrightarrow>
      pending False i (q\<lparr>q_buf := b\<rparr>) s st' reqs)"
  proof cases
    case count
    have r: "readlen q = REDIS_IOBUF_LEN" using count(1) by (simp add: readlen_def counting_def)
    have inv: "sds_inv (q_buf q)" using count(1) by (simp add: counting_def)
    have "pending False i (q\<lparr>q_buf := b\<rparr>) s st' reqs"
      if "st = d @ st'" "length d \<le> readlen q" "sds_inv b" "sds_str b = sds_str (q_buf q) @ d" for b d st'
      using that count good sb [OF that(3,4) inv] r by (simp add: pending_def counting_def REDIS_IOBUF_LEN_def REDIS_INLINE_MAX_SIZE_def)
    then show ?thesis using r inv count(2) by (simp add: REDIS_IOBUF_LEN_def)
  next
    case args
    let ?l = "q_bulklen q"
    have st: "arg_state ?l todo" "sds_inv (q_buf q)" "q_multibulklen q \<noteq> 0" using args(2,4) by (simp_all add: waiting_def)
    have l: "?l = - 1 \<and> ?n < 13 \<or> 0 \<le> ?l \<and> int ?n < ?l + 2 \<and> ?l \<le> int STRING_MAX"
    proof -
      have hd: "length (hd todo) \<le> STRING_MAX" using st(1) args(2) by (auto simp: arg_state_def neq_Nil_conv)
      then show ?thesis using st(1) args(5) header_short [OF hd, of "ch CHR ''$''"] by (auto simp: arg_state_def needed_def split: if_splits)
    qed
    have r: "0 < readlen q" "readlen q \<le> REDIS_IOBUF_LEN" "REDIS_MBULK_BIG_ARG \<le> ?l \<Longrightarrow> int ?n + int (readlen q) \<le> ?l + 2"
      using l st(3) args(6) by (auto simp: readlen_def Let_def sdslen_def REDIS_IOBUF_LEN_def REDIS_MBULK_BIG_ARG_def STRING_MAX_def)
    have "pending False i (q\<lparr>q_buf := b\<rparr>) s st' reqs"
      if d: "st = d @ st'" "length d \<le> readlen q" "sds_inv b" "sds_str b = sds_str (q_buf q) @ d" for b d st'
    proof -
      have n: "s_len b = ?n + length d" by (rule sb [OF d(3,4) st(2)])
      have "roomy b 0 ?l" unfolding roomy_def
        using n l r d(2) by (cases "REDIS_MBULK_BIG_ARG \<le> ?l") (auto simp: REDIS_INLINE_MAX_SIZE_def REDIS_IOBUF_LEN_def REDIS_MBULK_BIG_ARG_def)
      then have "waiting (q\<lparr>q_buf := b\<rparr>) 0 st' todo (concat (map encode rest))" using args(4) d by (simp add: waiting_def)
      then show ?thesis using args(1,2,3,6) good unfolding pending_def by auto
    qed
    then show ?thesis using r(1,2) l st(2) by (auto simp: STRING_MAX_def)
  qed
  then show "0 < readlen q" "readlen q \<le> REDIS_IOBUF_LEN" "s_len (q_buf q) < 2 ^ 30" "sds_inv (q_buf q)"
    "\<And>b d st'. st = d @ st' \<Longrightarrow> length d \<le> readlen q \<Longrightarrow> sds_inv b \<Longrightarrow> sds_str b = sds_str (q_buf q) @ d \<Longrightarrow>
      pending False i (q\<lparr>q_buf := b\<rparr>) s st' reqs" by auto
qed

text \<open>
  A connection that delivers a stream: every read returns some bytes of it, at least one and at most as many as
  are asked for; \<open>k\<close> bounds the number that the network has ready. The reads end when the client is freed.
\<close>

fun feed :: "(nat \<Rightarrow> byte) \<Rightarrow> (nat \<Rightarrow> redisServer \<Rightarrow> (redisServer \<times> bool) option) \<Rightarrow> (byte list list \<Rightarrow> byte list list) \<Rightarrow> nat \<Rightarrow> nat \<Rightarrow>
    nat list \<Rightarrow> byte list \<Rightarrow> query \<Rightarrow> redisServer \<Rightarrow> redisServer option" where
  "feed garb exec ord maxlen i [] st q s = Some s"
| "feed garb exec ord maxlen i (k # ks) st q s =
     (if st = [] then Some s
      else (let n = min (Suc k) (readlen q) in do {
        (q, s) \<leftarrow> readQueryFromClient garb exec False ord maxlen i (Data (take n st)) q s;
        (case q of None \<Rightarrow> Some s | Some q \<Rightarrow> feed garb exec ord maxlen i ks (drop n st) q s) }))"

lemma read_data:
  assumes inv: "sds_inv (q_buf q)" and d: "length d \<le> readlen q" and n: "readlen q \<le> REDIS_IOBUF_LEN"
    and len: "s_len (q_buf q) + length d \<le> maxlen" "s_len (q_buf q) < 2 ^ 31"
  shows "\<exists>b. readQueryFromClient garb exec paused ord maxlen i (Data d) q s =
      map_option (\<lambda>(q, s). (Some q, s)) (processInputBuffer garb exec paused i (q\<lparr>q_buf := b\<rparr>) s) \<and>
    sds_inv b \<and> sds_str b = sds_str (q_buf q) @ d"
proof -
  obtain mem b where b: "mem_write (s_buf (sdsMakeRoomFor garb (q_buf q) (readlen q))) (s_len (q_buf q)) d = Some mem"
    "sdsIncrLen ((sdsMakeRoomFor garb (q_buf q) (readlen q))\<lparr>s_buf := mem\<rparr>) (int (length d)) = Some b" "sds_inv b" "sds_str b = sds_str (q_buf q) @ d"
    using sds_read [OF inv d, of garb] len(2) n by (auto simp: REDIS_IOBUF_LEN_def SDS_MAX_PREALLOC_def)
  have "s_len b \<le> maxlen" using length_sds_str [OF b(3)] length_sds_str [OF inv] b(4) len(1) by simp
  then show ?thesis using b d by (intro exI [of _ b]) (simp add: readQueryFromClient_def sdslen_def Let_def)
qed

text \<open>The contract of the executor: when it asks not to reset the client, the client is closing.\<close>

locale executor =
  fixes exec :: "nat \<Rightarrow> redisServer \<Rightarrow> (redisServer \<times> bool) option"
  assumes stops: "exec i s = Some (s', False) \<Longrightarrow> closing i s'"
begin

lemma input_closing: "closing i s \<Longrightarrow> 0 < n \<Longrightarrow> input_loop garb exec False i n q s = Some (q, s)"
  by (cases n) simp_all

text \<open>What the loop leaves: the executor failed, the client is closing, or the rest of the requests is pending.\<close>

definition loop_post :: "nat \<Rightarrow> redisServer \<Rightarrow> byte list \<Rightarrow> byte list list list \<Rightarrow> (query \<times> redisServer) option \<Rightarrow> bool" where
  "loop_post i s st reqs res \<longleftrightarrow> (\<exists>argvs reqs1 reqs2. reqs = reqs1 @ reqs2 \<and> requests_carried argvs reqs1 \<and>
     (case res of
        None \<Rightarrow> run_requests exec i argvs s = None
      | Some (q', s') \<Rightarrow>
          closing i s' \<and> q_multibulklen q' = 0 \<and> sds_inv (q_buf q') \<and> s_len (q_buf q') + length st \<le> length (concat (map encode reqs2)) \<and> run_requests exec i argvs s = Some s' \<or>
          \<not> closing i s' \<and> pending True i q' s' st reqs2 \<and> run_requests exec i argvs s = Some (set_argv i [] s')))"

lemma loop_postI:
  assumes "reqs = reqs1 @ reqs2" "requests_carried argvs reqs1"
    "res = None \<Longrightarrow> run_requests exec i argvs s = None"
    "\<And>q' s'. res = Some (q', s') \<Longrightarrow>
       closing i s' \<and> q_multibulklen q' = 0 \<and> sds_inv (q_buf q') \<and> s_len (q_buf q') + length st \<le> length (concat (map encode reqs2)) \<and> run_requests exec i argvs s = Some s' \<or>
       \<not> closing i s' \<and> pending True i q' s' st reqs2 \<and> run_requests exec i argvs s = Some (set_argv i [] s')"
  shows "loop_post i s st reqs res"
  using assms unfolding loop_post_def by (cases res) fastforce+

lemma loop_post_step:
  assumes e: "exec i (set_argv i argv s) = Some (s1, ok)" "\<not> closing i s" and a: "list_all2 carries argv args"
    and post: "loop_post i (if ok then reset_args i s1 else s1) st rest res"
  shows "loop_post i s st (args # rest) res"
proof -
  obtain argvs reqs1 reqs2 where p: "rest = reqs1 @ reqs2" "requests_carried argvs reqs1"
    "case res of None \<Rightarrow> run_requests exec i argvs (if ok then reset_args i s1 else s1) = None
      | Some (q', s') \<Rightarrow>
          closing i s' \<and> q_multibulklen q' = 0 \<and> sds_inv (q_buf q') \<and> s_len (q_buf q') + length st \<le> length (concat (map encode reqs2)) \<and> run_requests exec i argvs (if ok then reset_args i s1 else s1) = Some s' \<or>
          \<not> closing i s' \<and> pending True i q' s' st reqs2 \<and> run_requests exec i argvs (if ok then reset_args i s1 else s1) = Some (set_argv i [] s')"
    using post unfolding loop_post_def by blast
  have "run_requests exec i (argv # argvs) s = run_requests exec i argvs (if ok then reset_args i s1 else s1)" using e by simp
  then show ?thesis using p a by (intro loop_postI [of _ "args # reqs1" reqs2 "argv # argvs"]) auto
qed

lemma input_loop_correct:
  assumes "pending b i q s st reqs" "\<not> closing i s" "s_len (q_buf q) < n"
  shows "loop_post i (set_argv i [] s) st reqs (input_loop garb exec False i n q s)"
  using assms
proof (induction n arbitrary: b q s reqs)
  case (Suc n)
  note p = Suc.prems(1) and open_s = Suc.prems(2) and n = Suc.prems(3)
  show ?case
  proof (cases "s_len (q_buf q) = 0")
    case True
    then show ?thesis using pending_empty [OF p True] open_s by (intro loop_postI [of _ "[]" reqs "[]"]) (auto simp: sdslen_def)
  next
    case ne: False
    obtain q0 where q0: "(if q_reqtype q = 0
      then do { c \<leftarrow> mem_get (s_buf (q_buf q)) 0; Some (q\<lparr>q_reqtype := if c = ch CHR ''*'' then REDIS_REQ_MULTIBULK else REDIS_REQ_INLINE\<rparr>) }
      else Some q) = Some q0" "pending b i q0 s st reqs" "q_reqtype q0 = REDIS_REQ_MULTIBULK" "q_buf q0 = q_buf q"
      using pending_reqtype [OF p ne] by blast
    obtain q1 argv ok where q1: "processMultibulkBuffer garb i q0 s = Some (q1, set_argv i argv s, ok)"
      "if ok then \<exists>args rest. reqs = args # rest \<and> list_all2 carries argv args \<and> request_read i q1 st rest
       else pending True i q1 (set_argv i argv s) st reqs"
      using multibulk_correct [OF q0(2,3), of garb] ne q0(4) by auto
    have step: "input_loop garb exec False i (Suc n) q s = (if \<not> ok then Some (q1, set_argv i argv s)
        else if argv = [] then (let (q, s) = resetClient i q1 (set_argv i argv s) in input_loop garb exec False i n q s)
        else do { (s, ok) \<leftarrow> exec i (set_argv i argv s);
          let (q, s) = (if ok then resetClient i q1 s else (q1, s)); input_loop garb exec False i n q s })"
      using ne open_s q0(1,3) q1(1) by (simp add: sdslen_def REDIS_REQ_MULTIBULK_def REDIS_REQ_INLINE_def argv_push)
    show ?thesis
    proof (cases ok)
      case False
      then show ?thesis using q1(2) step open_s by (intro loop_postI [of _ "[]" reqs "[]"]) (auto simp: argv_push)
    next
      case True
      then obtain args rest where r: "reqs = args # rest" "list_all2 carries argv args" "request_read i q1 st rest" using q1(2) by auto
      have good: "good_request args" "list_all good_request rest" using p r(1) by (simp_all add: pending_def)
      then have ne1: "argv \<noteq> []" using r(2) by (auto simp: good_request_def)
      have l1: "s_len (q_buf q1) < s_len (q_buf q)" using request_shrinks [of b i q0 s st args rest q1] q0(2,4) r(1,3) by simp
      show ?thesis
      proof (cases "exec i (set_argv i argv s)")
        case None
        then have "loop_post i (set_argv i [] s) st reqs None" using r(1,2) open_s
          by (intro loop_postI [of _ "[args]" rest "[argv]"]) (auto simp: argv_push)
        then show ?thesis using step True ne1 None by simp
      next
        case (Some res)
        obtain s1 ok1 where res: "exec i (set_argv i argv s) = Some (s1, ok1)" using Some by (cases res) auto
        define q2 where "q2 = (if ok1 then q1\<lparr>q_reqtype := 0, q_multibulklen := 0, q_bulklen := - 1\<rparr> else q1)"
        define s2 where "s2 = (if ok1 then reset_args i s1 else s1)"
        have run: "input_loop garb exec False i (Suc n) q s = input_loop garb exec False i n q2 s2"
          using step True ne1 res by (simp add: q2_def s2_def resetClient_def)
        have q2: "q_buf q2 = q_buf q1" "q_multibulklen q2 = 0" using r(3) by (simp_all add: q2_def request_read_def)
        have left: "s_len (q_buf q1) + length st \<le> length (concat (map encode rest))"
          using r(3) length_sds_str [of "q_buf q1"] unfolding request_read_def by (metis length_append order_refl)
        have "loop_post i s2 st rest (input_loop garb exec False i n q2 s2)"
        proof (cases "closing i s2")
          case True
          have "0 < n" using n ne by simp
          then have "input_loop garb exec False i n q2 s2 = Some (q2, s2)" by (rule input_closing [OF True])
          then show ?thesis using True q2 r(3) left by (intro loop_postI [of _ "[]" rest "[]"]) (auto simp: request_read_def)
        next
          case False
          have ok1: "ok1" using stops [of i "set_argv i argv s" s1] res False by (cases ok1) (auto simp: s2_def)
          have a2: "c_argv (sv_clients s2 i) = []" using ok1 by (simp add: s2_def)
          have "pending False i q2 s2 st rest"
            using r(3) good(2) ok1 a2 by (auto simp: pending_def counting_def request_read_def q2_def)
          from Suc.IH [OF this False] l1 n q2(1) argv_push(5) [OF a2] show ?thesis by simp
        qed
        then show ?thesis unfolding run r(1)
          by (intro loop_post_step [OF _ _ r(2)]) (simp_all add: res open_s argv_push s2_def)
      qed
    qed
  qed
qed simp

lemma feed_closing:
  assumes "closing i s" "q_multibulklen q = 0" "sds_inv (q_buf q)" "s_len (q_buf q) + length st \<le> maxlen" "maxlen \<le> 2 ^ 30"
  shows "feed garb exec ord maxlen i ks st q s = Some s"
  using assms
proof (induction ks arbitrary: st q)
  case (Cons k ks)
  have r: "readlen q = REDIS_IOBUF_LEN" using Cons.prems(2) by (simp add: readlen_def)
  define n where "n = min (Suc k) (readlen q)"
  have d: "length (take n st) \<le> readlen q" "s_len (q_buf q) + length (take n st) \<le> maxlen" "s_len (q_buf q) < 2 ^ 31"
    using Cons.prems(4,5) by (auto simp: n_def)
  obtain b where b: "readQueryFromClient garb exec False ord maxlen i (Data (take n st)) q s =
      map_option (\<lambda>(q, s). (Some q, s)) (processInputBuffer garb exec False i (q\<lparr>q_buf := b\<rparr>) s)" "sds_inv b" "sds_str b = sds_str (q_buf q) @ take n st"
    using read_data [OF Cons.prems(3) d(1) _ d(2,3), of garb exec False ord i s] r by auto
  have "processInputBuffer garb exec False i (q\<lparr>q_buf := b\<rparr>) s = Some (q\<lparr>q_buf := b\<rparr>, s)"
    unfolding processInputBuffer_def by (rule input_closing [OF Cons.prems(1)]) simp
  moreover have "s_len b + length (drop n st) \<le> maxlen"
    using length_sds_str [OF b(2)] length_sds_str [OF Cons.prems(3)] b(3) Cons.prems(4) by simp
  ultimately show ?case using Cons.IH [of "q\<lparr>q_buf := b\<rparr>" "drop n st"] Cons.prems b(1,2) by (simp add: Let_def n_def)
qed simp

lemma feed_correct:
  assumes "pending True i q s st reqs" "\<not> closing i s" "length (concat (map encode reqs)) \<le> maxlen" "maxlen \<le> 2 ^ 30" "length st \<le> length ks"
  shows "\<exists>argvs. requests_carried argvs reqs \<and> feed garb exec ord maxlen i ks st q s = run_requests exec i argvs (set_argv i [] s)"
  using assms
proof (induction ks arbitrary: q s st reqs)
  case Nil
  then show ?case using pending_end [of i q s reqs] by (auto simp: argv_push(5))
next
  case (Cons k ks)
  note p = Cons.prems(1)
  show ?case
  proof (cases "st = []")
    case True
    then show ?thesis using pending_end [of i q s reqs] p by (auto simp: argv_push(5))
  next
    case False
    note room = pending_read [OF p]
    define n where "n = min (Suc k) (readlen q)"
    have n: "0 < n" "length (take n st) \<le> readlen q" using room(1) by (auto simp: n_def)
    have "s_len (q_buf q) + length (take n st) \<le> maxlen" using pending_length [OF p] Cons.prems(3) by simp
    then obtain b where b: "readQueryFromClient garb exec False ord maxlen i (Data (take n st)) q s =
        map_option (\<lambda>(q, s). (Some q, s)) (processInputBuffer garb exec False i (q\<lparr>q_buf := b\<rparr>) s)" "sds_inv b" "sds_str b = sds_str (q_buf q) @ take n st"
      using read_data [OF room(4) n(2) room(2), of maxlen garb exec False ord i s] room(3) by auto
    have "pending False i (q\<lparr>q_buf := b\<rparr>) s (drop n st) reqs" by (rule room(5) [OF _ n(2) b(2,3)]) simp
    then have post: "loop_post i (set_argv i [] s) (drop n st) reqs (processInputBuffer garb exec False i (q\<lparr>q_buf := b\<rparr>) s)"
      unfolding processInputBuffer_def sdslen_def by (rule input_loop_correct [OF _ Cons.prems(2)]) simp
    have step: "feed garb exec ord maxlen i (k # ks) st q s =
        do { (q, s) \<leftarrow> processInputBuffer garb exec False i (q\<lparr>q_buf := b\<rparr>) s; feed garb exec ord maxlen i ks (drop n st) q s }"
      using False b(1) by (simp add: Let_def n_def [symmetric] split_def map_option_case split: option.split)
    obtain argvs reqs1 reqs2 where r: "reqs = reqs1 @ reqs2" "requests_carried argvs reqs1"
      "case processInputBuffer garb exec False i (q\<lparr>q_buf := b\<rparr>) s of
        None \<Rightarrow> run_requests exec i argvs (set_argv i [] s) = None
      | Some (q', s') \<Rightarrow>
          closing i s' \<and> q_multibulklen q' = 0 \<and> sds_inv (q_buf q') \<and> s_len (q_buf q') + length (drop n st) \<le> length (concat (map encode reqs2)) \<and>
            run_requests exec i argvs (set_argv i [] s) = Some s' \<or>
          \<not> closing i s' \<and> pending True i q' s' (drop n st) reqs2 \<and> run_requests exec i argvs (set_argv i [] s) = Some (set_argv i [] s')"
      using post unfolding loop_post_def by blast
    have good: "list_all good_request reqs2" using p r(1) by (simp add: pending_def)
    have rest: "length (concat (map encode reqs2)) \<le> maxlen" "length (drop n st) \<le> length ks" using Cons.prems(3,5) r(1) n(1) by auto
    have done_if: ?thesis if "requests_carried argvs2 reqs2" "feed garb exec ord maxlen i (k # ks) st q s = do { s \<leftarrow> run_requests exec i argvs (set_argv i [] s); run_requests exec i argvs2 s }" for argvs2
      using that r(1,2) by (intro exI [of _ "argvs @ argvs2"]) (simp add: run_append list_all2_appendI)
    obtain argvs2 where a2: "requests_carried argvs2 reqs2" using carried_exists [OF good] by blast
    show ?thesis
    proof (cases "processInputBuffer garb exec False i (q\<lparr>q_buf := b\<rparr>) s")
      case None
      then show ?thesis using r(3) step by (intro done_if [OF a2]) simp
    next
      case (Some res)
      obtain q' s' where res: "res = (q', s')" by (cases res)
      show ?thesis
      proof (cases "closing i s'")
        case True
        then have "feed garb exec ord maxlen i ks (drop n st) q' s' = Some s'"
          using r(3) Some res rest(1) Cons.prems(4) by (intro feed_closing) auto
        then show ?thesis using r(3) step Some res True run_closed [OF True] by (intro done_if [OF a2]) auto
      next
        case False
        then have w: "pending True i q' s' (drop n st) reqs2" "run_requests exec i argvs (set_argv i [] s) = Some (set_argv i [] s')"
          using r(3) Some res by auto
        obtain argvs3 where a3: "requests_carried argvs3 reqs2" "feed garb exec ord maxlen i ks (drop n st) q' s' = run_requests exec i argvs3 (set_argv i [] s')"
          using Cons.IH [OF w(1) False rest(1) Cons.prems(4) rest(2)] by blast
        then show ?thesis using step Some res w(2) by (intro done_if [OF a3(1)]) simp
      qed
    qed
  qed
qed

end

interpretation command: executor "processCommand f cf tab" for f cf tab
proof
  fix i s s'
  assume "processCommand f cf tab i s = Some (s', False)"
  then have "s' = upd_client i (set_flag REDIS_CLOSE_AFTER_REPLY) (addReply i shared_ok s)"
    by (auto simp: processCommand_def Let_def split: if_splits option.splits)
  then show "closing i s'" by (simp add: closing_def has_flag_self REDIS_CLOSE_AFTER_REPLY_def)
qed

section \<open>The whole connection\<close>

definition fresh_query :: "(nat \<Rightarrow> byte) \<Rightarrow> query" where
  "fresh_query garb = \<lparr>q_buf = the (sdsempty garb), q_reqtype = 0, q_multibulklen = 0, q_bulklen = - 1\<rparr>"

theorem feed_requests:
  assumes good: "list_all good_request reqs" and len: "length (concat (map encode reqs)) \<le> maxlen" "maxlen \<le> 2 ^ 30"
    and ks: "length (concat (map encode reqs)) \<le> length ks" and s: "c_argv (sv_clients s i) = []" "\<not> closing i s"
  shows "\<exists>argvs. requests_carried argvs reqs \<and>
    feed garb (processCommand f cf tab) ord maxlen i ks (concat (map encode reqs)) (fresh_query garb) s = run_requests (processCommand f cf tab) i argvs s"
proof -
  obtain e where e: "sdsempty garb = Some e" "sds_inv e" "sds_str e = []" using sdsempty_correct by blast
  have e0: "s_len e = 0" using length_sds_str [OF e(2)] e(3) by simp
  have "pending True i (fresh_query garb) s (concat (map encode reqs)) reqs"
    using good s(1) e e0 by (simp add: pending_def counting_def fresh_query_def)
  from command.feed_correct [OF this s(2) len ks] show ?thesis using argv_push(5) [OF s(1)] by simp
qed

end
