(* ===== verification/Inline.thy ===== *)
theory Inline
  imports Protocol_Spec
begin

text \<open>
  Inline requests (\<open>processInlineBuffer\<close>): a line of words, quoted where needed. What the parser reads is what
  argument splitting gives for the line. The rest of the buffer is what follows the line when it ends in \<open>\r\n\<close>;
  when it ends in \<open>\n\<close> alone, the first byte of what follows is lost as well.
\<close>

lemma inline_line:
  assumes inv: "sds_inv (q_buf q)" "s_len (q_buf q) < 2 ^ 30" and str: "sds_str (q_buf q) = line @ nl @ rest"
    and plain: "10 \<notin> set line" "0 \<notin> set line" and nl: "nl = [13, 10] \<or> nl = [10] \<and> (line = [] \<or> last line \<noteq> 13)"
    and args: "sdssplitargs garb line = Some (Some ts)"
  shows "\<exists>b. processInlineBuffer garb i q s = Some (q\<lparr>q_buf := b\<rparr>,
      set_argv i (map (\<lambda>a. createObject REDIS_STRING (PSds a)) (filter (\<lambda>a. sdslen a \<noteq> 0) ts)) s, True) \<and>
    sds_inv b \<and> sds_str b = drop (length line + 2) (sds_str (q_buf q))"
proof -
  let ?b = "q_buf q" and ?p = "line @ butlast nl"
  obtain r where buf: "s_buf ?b = line @ nl @ rest @ 0 # r" using sds_layout [OF inv(1)] str by auto
  have last: "nl = butlast nl @ [10]" "10 \<notin> set (butlast nl)" "0 \<notin> set (butlast nl)" using nl by auto
  have "strchr (?p @ 10 # rest @ 0 # r) 10 = Some (Some (length ?p))" by (rule strchr_found) (use plain last in auto)
  then have at: "strchr (s_buf ?b) 10 = Some (Some (length ?p))" using buf last(1) by (metis append.assoc append_Cons append_Nil)
  have len: "(if length ?p = 0 then Some 0
      else do { c \<leftarrow> mem_get (s_buf ?b) (length ?p - 1); Some (if c = 13 then length ?p - 1 else length ?p) }) = Some (length line)"
  proof (cases "nl = [13, 10]")
    case True
    then have "mem_get (s_buf ?b) (length line) = Some 13" by (simp add: mem_get_def buf nth_append)
    then show ?thesis using True by simp
  next
    case False
    then have n: "nl = [10]" "line = [] \<or> last line \<noteq> 13" using nl by auto
    then have "line \<noteq> [] \<Longrightarrow> mem_get (s_buf ?b) (length line - 1) = Some (last line)" by (simp add: mem_get_def buf nth_append last_conv_nth)
    then show ?thesis using n by auto
  qed
  obtain aux where aux: "sdsnewlen garb (Some (s_buf ?b)) (length line) = Some aux" "sds_str aux = line"
    using sdsnewlen_correct [of "length line" "s_buf ?b" garb] buf inv(2) length_sds_str [OF inv(1)] str by auto
  obtain b where b: "sdsrange ?b (int (length line + 2)) (- 1) = Some b" "sds_inv b" "sds_str b = drop (length line + 2) (sds_str ?b)"
  proof -
    have "length line < s_len ?b" using length_sds_str [OF inv(1)] str nl by auto
    then show ?thesis using that sds_drop [OF inv(1), of "length line + 2"] inv(2) by auto
  qed
  have "processInlineBuffer garb i q s = Some (q\<lparr>q_buf := b\<rparr>,
      set_argv i (map (\<lambda>a. createObject REDIS_STRING (PSds a)) (filter (\<lambda>a. sdslen a \<noteq> 0) ts)) s, True)"
    unfolding processInlineBuffer_def at using len aux args b(1) by (simp del: bind_eq_Some_conv length_append)
  then show ?thesis using b(2,3) by blast
qed

text \<open>Lines of quoted words.\<close>

lemma quote_plain: "10 \<notin> set (quote p)" "13 \<notin> set (quote p)" "0 \<notin> set (quote p)"
proof -
  have hex: "hex_char n \<noteq> 10 \<and> hex_char n \<noteq> 13 \<and> hex_char n \<noteq> 0" if "n < 16" for n
    using hex_char_digit(1) [OF that] by (auto simp: is_hex_digit_def)
  have "10 \<notin> set (repr_char c) \<and> 13 \<notin> set (repr_char c) \<and> 0 \<notin> set (repr_char c)" for c
    using hex [of "unat c div 16"] hex [of "unat c mod 16"] unsigned_less [of c, where ?'a = nat] by (auto simp: repr_char_def isprint_def)
  then show "10 \<notin> set (quote p)" "13 \<notin> set (quote p)" "0 \<notin> set (quote p)" by (auto simp: quote_def)
qed

lemma line_plain: "c \<noteq> 32 \<Longrightarrow> \<forall>p. c \<notin> set (quote p) \<Longrightarrow> c \<notin> set (join_ref [32] (map quote ps))"
  by (cases ps) (auto simp: join_ref_def)

theorem inline_words:
  assumes inv: "sds_inv (q_buf q)" "s_len (q_buf q) < 2 ^ 30" and str: "sds_str (q_buf q) = join_ref [32] (map quote ps) @ [13, 10] @ rest"
    and ps: "\<forall>p \<in> set ps. p \<noteq> [] \<and> length p \<le> STRING_MAX"
  shows "\<exists>b argv. processInlineBuffer garb i q s = Some (q\<lparr>q_buf := b\<rparr>, set_argv i argv s, True) \<and>
    list_all2 carries argv ps \<and> sds_inv b \<and> sds_str b = rest"
proof -
  let ?line = "join_ref [32] (map quote ps)"
  obtain ts where ts: "sdssplitargs garb ?line = Some (Some ts)" "\<forall>t \<in> set ts. sds_inv t" "map sds_str ts = ps"
  proof -
    have "\<forall>p \<in> set ps. length p + SDS_MAX_PREALLOC < 2 ^ 32" using ps by (auto simp: STRING_MAX_def SDS_MAX_PREALLOC_def)
    from splitargs_line [OF this, of garb "[]"] show ?thesis using that by (auto simp: sdssplitargs_def)
  qed
  have plain: "10 \<notin> set ?line" "0 \<notin> set ?line" by (intro line_plain; simp add: quote_plain)+
  obtain b where b: "processInlineBuffer garb i q s = Some (q\<lparr>q_buf := b\<rparr>,
      set_argv i (map (\<lambda>a. createObject REDIS_STRING (PSds a)) (filter (\<lambda>a. sdslen a \<noteq> 0) ts)) s, True)" "sds_inv b" "sds_str b = rest"
    using inline_line [OF inv str plain _ ts(1)] str by auto
  have each: "sdslen t \<noteq> 0 \<and> carries (createObject REDIS_STRING (PSds t)) (sds_str t)" if "t \<in> set ts" for t
  proof -
    have "sds_inv t" "sds_str t \<noteq> []" "length (sds_str t) \<le> STRING_MAX" using that ts(2,3) ps by auto
    then have "0 < s_len t" "s_len t \<le> STRING_MAX" using length_sds_str [of t] by (simp_all flip: length_greater_0_conv)
    then show ?thesis using \<open>sds_inv t\<close> string_wf_sds(1,2) [of t] by (auto simp: sdslen_def carries_def createObject_def sdsEncodedObject_def)
  qed
  then have "filter (\<lambda>a. sdslen a \<noteq> 0) ts = ts" by (simp add: filter_id_conv)
  moreover have "list_all2 carries (map (\<lambda>a. createObject REDIS_STRING (PSds a)) ts) (map sds_str ts)"
    using each by (simp add: list_all2_map1 list_all2_map2 list.rel_refl_strong)
  ultimately show ?thesis using b ts(3) by auto
qed

text \<open>After a line that ends in \<open>\n\<close> alone, a byte of the next request is skipped.\<close>

theorem inline_newline_eats:
  assumes inv: "sds_inv (q_buf q)" "s_len (q_buf q) < 2 ^ 30" and str: "sds_str (q_buf q) = line @ [10] @ c # rest"
    and plain: "10 \<notin> set line" "0 \<notin> set line" "line \<noteq> []" "last line \<noteq> 13" and args: "sdssplitargs garb line = Some (Some ts)"
  shows "\<exists>q' s'. processInlineBuffer garb i q s = Some (q', s', True) \<and> sds_str (q_buf q') = rest"
  using inline_line [OF inv str plain(1,2) _ args, of i s] plain str by auto

end
