(* ===== verification/Ziplist.thy ===== *)
theory Ziplist
  imports Util
begin

text \<open>
  The compact lists of \<open>ziplist.c\<close>: a block of bytes that holds a header (size in bytes, offset of the
  tail entry, number of entries), the entries and an end marker. Each entry holds the size of the
  entry before it (in one byte, or in five), an encoding with a length, and its value, a string or an
  integer in one of six widths.

  The block is a byte list, and a pointer into it is an offset; \<open>None\<close> of the outer option is undefined
  behaviour or a failed assert. The target is little-endian. Loops that walk the entries by the sizes they find
  there are partial functions: on a damaged block they may not end.
\<close>

section \<open>Constants and header fields\<close>

definition ZIP_END :: byte where "ZIP_END = 255"
definition ZIP_BIGLEN :: nat where "ZIP_BIGLEN = 254"

definition ZIP_STR_MASK :: byte where "ZIP_STR_MASK = 0xc0"
definition ZIP_STR_06B :: byte where "ZIP_STR_06B = 0"
definition ZIP_STR_14B :: byte where "ZIP_STR_14B = 0x40"
definition ZIP_STR_32B :: byte where "ZIP_STR_32B = 0x80"
definition ZIP_INT_16B :: byte where "ZIP_INT_16B = 0xc0"
definition ZIP_INT_32B :: byte where "ZIP_INT_32B = 0xd0"
definition ZIP_INT_64B :: byte where "ZIP_INT_64B = 0xe0"
definition ZIP_INT_24B :: byte where "ZIP_INT_24B = 0xf0"
definition ZIP_INT_8B :: byte where "ZIP_INT_8B = 0xfe"
definition ZIP_INT_IMM_MASK :: byte where "ZIP_INT_IMM_MASK = 0x0f"
definition ZIP_INT_IMM_MIN :: byte where "ZIP_INT_IMM_MIN = 0xf1"
definition ZIP_INT_IMM_MAX :: byte where "ZIP_INT_IMM_MAX = 0xfd"

lemmas zip_consts = ZIP_END_def ZIP_BIGLEN_def ZIP_STR_MASK_def ZIP_STR_06B_def ZIP_STR_14B_def
  ZIP_STR_32B_def ZIP_INT_16B_def ZIP_INT_32B_def ZIP_INT_64B_def ZIP_INT_24B_def ZIP_INT_8B_def
  ZIP_INT_IMM_MASK_def ZIP_INT_IMM_MIN_def ZIP_INT_IMM_MAX_def

definition ZIP_IS_STR :: "byte \<Rightarrow> bool" where
  "ZIP_IS_STR enc \<longleftrightarrow> enc AND ZIP_STR_MASK < ZIP_STR_MASK"

definition ZIPLIST_HEADER_SIZE :: nat where "ZIPLIST_HEADER_SIZE = 10"

definition ZIPLIST_BYTES :: "byte list \<Rightarrow> nat option" where
  "ZIPLIST_BYTES zl = map_option (\<lambda>bs. nat (le_uint bs)) (mem_read zl 0 4)"

definition ZIPLIST_TAIL_OFFSET :: "byte list \<Rightarrow> nat option" where
  "ZIPLIST_TAIL_OFFSET zl = map_option (\<lambda>bs. nat (le_uint bs)) (mem_read zl 4 4)"

definition ZIPLIST_LENGTH :: "byte list \<Rightarrow> nat option" where
  "ZIPLIST_LENGTH zl = map_option (\<lambda>bs. nat (le_uint bs)) (mem_read zl 8 2)"

text \<open>The stores truncate to the width of the field.\<close>

definition set_BYTES :: "byte list \<Rightarrow> int \<Rightarrow> byte list option" where
  "set_BYTES zl v = mem_write zl 0 (le_bytes 4 v)"

definition set_TAIL_OFFSET :: "byte list \<Rightarrow> int \<Rightarrow> byte list option" where
  "set_TAIL_OFFSET zl v = mem_write zl 4 (le_bytes 4 v)"

definition set_LENGTH :: "byte list \<Rightarrow> int \<Rightarrow> byte list option" where
  "set_LENGTH zl v = mem_write zl 8 (le_bytes 2 v)"

text \<open>A pointer or a size moved by a signed distance; a negative one would wrap around, which no caller survives.\<close>

definition signed_add :: "nat \<Rightarrow> int \<Rightarrow> nat option" where
  "signed_add p d = (if 0 \<le> int p + d then Some (nat (int p + d)) else None)"

definition ZIPLIST_ENTRY_HEAD :: nat where
  "ZIPLIST_ENTRY_HEAD = ZIPLIST_HEADER_SIZE"

definition ZIPLIST_ENTRY_TAIL :: "byte list \<Rightarrow> nat option" where
  "ZIPLIST_ENTRY_TAIL zl = ZIPLIST_TAIL_OFFSET zl"

definition ZIPLIST_ENTRY_END :: "byte list \<Rightarrow> nat option" where
  "ZIPLIST_ENTRY_END zl = do { n \<leftarrow> ZIPLIST_BYTES zl; signed_add n (- 1) }"

definition UINT16_MAX :: nat where "UINT16_MAX = 65535"

definition ZIPLIST_INCR_LENGTH :: "byte list \<Rightarrow> int \<Rightarrow> byte list option" where
  "ZIPLIST_INCR_LENGTH zl incr = do {
     n \<leftarrow> ZIPLIST_LENGTH zl;
     if n < UINT16_MAX then set_LENGTH zl (int n + incr) else Some zl }"

section \<open>Fields of an entry\<close>

record zlentry =
  e_prevrawlensize :: nat
  e_prevrawlen :: nat
  e_lensize :: nat
  e_len :: nat
  e_headersize :: nat
  e_encoding :: byte
  e_p :: nat

definition ZIP_ENTRY_ENCODING :: "byte list \<Rightarrow> nat \<Rightarrow> byte option" where
  "ZIP_ENTRY_ENCODING zl p = do {
     b \<leftarrow> mem_get zl p;
     Some (if b < ZIP_STR_MASK then b AND ZIP_STR_MASK else b) }"

definition zipIntSize :: "byte \<Rightarrow> nat" where
  "zipIntSize enc =
     (if enc = ZIP_INT_8B then 1
      else if enc = ZIP_INT_16B then 2
      else if enc = ZIP_INT_24B then 3
      else if enc = ZIP_INT_32B then 4
      else if enc = ZIP_INT_64B then 8
      else 0)"

text \<open>The bytes \<open>zipEncodeLength\<close> prepares in its local buffer; with a null pointer it only reports their number.\<close>

definition zipEncodeLength_buf :: "byte \<Rightarrow> nat \<Rightarrow> byte list" where
  "zipEncodeLength_buf enc rawlen =
     (if ZIP_IS_STR enc then
        (if rawlen \<le> 0x3f then [ZIP_STR_06B OR of_nat rawlen]
         else if rawlen \<le> 0x3fff then
           [ZIP_STR_14B OR (of_nat (rawlen div 2 ^ 8) AND 0x3f), of_nat rawlen AND 0xff]
         else [ZIP_STR_32B, of_nat (rawlen div 2 ^ 24) AND 0xff, of_nat (rawlen div 2 ^ 16) AND 0xff,
           of_nat (rawlen div 2 ^ 8) AND 0xff, of_nat rawlen AND 0xff])
      else [enc])"

definition zipEncodeLength_size :: "byte \<Rightarrow> nat \<Rightarrow> nat" where
  "zipEncodeLength_size enc rawlen =
     (if ZIP_IS_STR enc then (if rawlen \<le> 0x3f then 1 else if rawlen \<le> 0x3fff then 2 else 5) else 1)"

definition zipEncodeLength :: "byte list \<Rightarrow> nat \<Rightarrow> byte \<Rightarrow> nat \<Rightarrow> (byte list \<times> nat) option" where
  "zipEncodeLength zl p enc rawlen = do {
     zl \<leftarrow> mem_write zl p (zipEncodeLength_buf enc rawlen);
     Some (zl, zipEncodeLength_size enc rawlen) }"

text \<open>The encoding, the size of the length field and the length of the entry whose length field is at \<open>p\<close>.\<close>

definition ZIP_DECODE_LENGTH :: "byte list \<Rightarrow> nat \<Rightarrow> (byte \<times> nat \<times> nat) option" where
  "ZIP_DECODE_LENGTH zl p = do {
     enc \<leftarrow> ZIP_ENTRY_ENCODING zl p;
     (if enc < ZIP_STR_MASK then
        (if enc = ZIP_STR_06B then do { b0 \<leftarrow> mem_get zl p; Some (enc, 1, unat (b0 AND 0x3f)) }
         else if enc = ZIP_STR_14B then do {
           b0 \<leftarrow> mem_get zl p;
           b1 \<leftarrow> mem_get zl (p + 1);
           Some (enc, 2, unat (b0 AND 0x3f) * 2 ^ 8 + unat b1) }
         else if enc = ZIP_STR_32B then do {
           b1 \<leftarrow> mem_get zl (p + 1);
           b2 \<leftarrow> mem_get zl (p + 2);
           b3 \<leftarrow> mem_get zl (p + 3);
           b4 \<leftarrow> mem_get zl (p + 4);
           Some (enc, 5, unat b1 * 2 ^ 24 + unat b2 * 2 ^ 16 + unat b3 * 2 ^ 8 + unat b4) }
         else None)
      else Some (enc, 1, zipIntSize enc)) }"

definition zipPrevEncodeLength_size :: "nat \<Rightarrow> nat" where
  "zipPrevEncodeLength_size len = (if u32 len < ZIP_BIGLEN then 1 else 5)"

definition zipPrevEncodeLength :: "byte list \<Rightarrow> nat \<Rightarrow> nat \<Rightarrow> (byte list \<times> nat) option" where
  "zipPrevEncodeLength zl p len =
     (if u32 len < ZIP_BIGLEN then do { zl \<leftarrow> mem_set zl p (of_nat len); Some (zl, 1) }
      else do {
        zl \<leftarrow> mem_set zl p (of_nat ZIP_BIGLEN);
        zl \<leftarrow> mem_write zl (p + 1) (le_bytes 4 (int len));
        Some (zl, 5) })"

definition zipPrevEncodeLengthForceLarge :: "byte list \<Rightarrow> nat \<Rightarrow> nat \<Rightarrow> byte list option" where
  "zipPrevEncodeLengthForceLarge zl p len = do {
     zl \<leftarrow> mem_set zl p (of_nat ZIP_BIGLEN);
     mem_write zl (p + 1) (le_bytes 4 (int len)) }"

definition ZIP_DECODE_PREVLENSIZE :: "byte list \<Rightarrow> nat \<Rightarrow> nat option" where
  "ZIP_DECODE_PREVLENSIZE zl p = do {
     b \<leftarrow> mem_get zl p;
     Some (if unat b < ZIP_BIGLEN then 1 else 5) }"

definition ZIP_DECODE_PREVLEN :: "byte list \<Rightarrow> nat \<Rightarrow> (nat \<times> nat) option" where
  "ZIP_DECODE_PREVLEN zl p = do {
     prevlensize \<leftarrow> ZIP_DECODE_PREVLENSIZE zl p;
     (if prevlensize = 1 then do { b \<leftarrow> mem_get zl p; Some (1, unat b) }
      else do { bs \<leftarrow> mem_read zl (p + 1) 4; Some (prevlensize, nat (le_uint bs)) }) }"

definition zipPrevLenByteDiff :: "byte list \<Rightarrow> nat \<Rightarrow> nat \<Rightarrow> int option" where
  "zipPrevLenByteDiff zl p len = do {
     prevlensize \<leftarrow> ZIP_DECODE_PREVLENSIZE zl p;
     Some (int (zipPrevEncodeLength_size len) - int prevlensize) }"

definition zipRawEntryLength :: "byte list \<Rightarrow> nat \<Rightarrow> nat option" where
  "zipRawEntryLength zl p = do {
     prevlensize \<leftarrow> ZIP_DECODE_PREVLENSIZE zl p;
     (_, lensize, len) \<leftarrow> ZIP_DECODE_LENGTH zl (p + prevlensize);
     Some (u32 (prevlensize + lensize + len)) }"

definition zipTryEncoding :: "byte list \<Rightarrow> (int \<times> byte) option" where
  "zipTryEncoding entry =
     (if length entry \<ge> 32 \<or> length entry = 0 then None
      else do {
        v \<leftarrow> string2ll entry;
        Some (v,
          if 0 \<le> v \<and> v \<le> 12 then ZIP_INT_IMM_MIN + word_of_int v
          else if - 0x80 \<le> v \<and> v \<le> 0x7f then ZIP_INT_8B
          else if - 0x8000 \<le> v \<and> v \<le> 0x7fff then ZIP_INT_16B
          else if - 0x800000 \<le> v \<and> v \<le> 0x7fffff then ZIP_INT_24B
          else if - 0x80000000 \<le> v \<and> v \<le> 0x7fffffff then ZIP_INT_32B
          else ZIP_INT_64B) })"

text \<open>The 24 bit encoding stores the upper three bytes of the value shifted left by a byte.\<close>

definition zipSaveInteger :: "byte list \<Rightarrow> nat \<Rightarrow> int \<Rightarrow> byte \<Rightarrow> byte list option" where
  "zipSaveInteger zl p v enc =
     (if enc = ZIP_INT_8B then mem_set zl p (word_of_int v)
      else if enc = ZIP_INT_16B then mem_write zl p (le_bytes 2 v)
      else if enc = ZIP_INT_24B then mem_write zl p (drop 1 (le_bytes 4 (v * 2 ^ 8)))
      else if enc = ZIP_INT_32B then mem_write zl p (le_bytes 4 v)
      else if enc = ZIP_INT_64B then mem_write zl p (le_bytes 8 v)
      else if ZIP_INT_IMM_MIN \<le> enc \<and> enc \<le> ZIP_INT_IMM_MAX then Some zl
      else None)"

definition zipLoadInteger :: "byte list \<Rightarrow> nat \<Rightarrow> byte \<Rightarrow> int option" where
  "zipLoadInteger zl p enc =
     (if enc = ZIP_INT_8B then map_option sint (mem_get zl p)
      else if enc = ZIP_INT_16B then map_option le_sint (mem_read zl p 2)
      else if enc = ZIP_INT_32B then map_option le_sint (mem_read zl p 4)
      else if enc = ZIP_INT_24B then map_option (\<lambda>bs. le_sint (0 # bs) div 2 ^ 8) (mem_read zl p 3)
      else if enc = ZIP_INT_64B then map_option le_sint (mem_read zl p 8)
      else if ZIP_INT_IMM_MIN \<le> enc \<and> enc \<le> ZIP_INT_IMM_MAX
      then Some (uint (enc AND ZIP_INT_IMM_MASK) - 1)
      else None)"

definition zipEntry :: "byte list \<Rightarrow> nat \<Rightarrow> zlentry option" where
  "zipEntry zl p = do {
     (prevrawlensize, prevrawlen) \<leftarrow> ZIP_DECODE_PREVLEN zl p;
     (encoding, lensize, len) \<leftarrow> ZIP_DECODE_LENGTH zl (p + prevrawlensize);
     Some \<lparr>e_prevrawlensize = prevrawlensize, e_prevrawlen = prevrawlen, e_lensize = lensize, e_len = len,
       e_headersize = prevrawlensize + lensize, e_encoding = encoding, e_p = p\<rparr> }"

section \<open>Operations\<close>

definition ziplistNew :: "(nat \<Rightarrow> byte) \<Rightarrow> byte list option" where
  "ziplistNew garb = do {
     let bytes = ZIPLIST_HEADER_SIZE + 1;
     let zl = map garb [0..<bytes];
     zl \<leftarrow> set_BYTES zl (int bytes);
     zl \<leftarrow> set_TAIL_OFFSET zl (int ZIPLIST_HEADER_SIZE);
     zl \<leftarrow> set_LENGTH zl 0;
     mem_set zl (bytes - 1) ZIP_END }"

definition ziplistResize :: "(nat \<Rightarrow> byte) \<Rightarrow> byte list \<Rightarrow> int \<Rightarrow> byte list option" where
  "ziplistResize garb zl len = do {
     let len = nat (len mod 2 ^ 32);
     let zl = mem_resize garb zl len;
     zl \<leftarrow> set_BYTES zl (int len);
     mem_set zl (len - 1) ZIP_END }"

partial_function (option) cascade_loop ::
  "(nat \<Rightarrow> byte) \<Rightarrow> byte list \<Rightarrow> nat \<Rightarrow> nat \<Rightarrow> byte list option" where
  "cascade_loop garb zl p curlen = do {
     b \<leftarrow> mem_get zl p;
     if b = ZIP_END then Some zl
     else do {
       cur \<leftarrow> zipEntry zl p;
       let rawlen = u32 (e_headersize cur + e_len cur);
       let rawlensize = zipPrevEncodeLength_size rawlen;
       b \<leftarrow> mem_get zl (p + rawlen);
       if b = ZIP_END then Some zl
       else do {
         nxt \<leftarrow> zipEntry zl (p + rawlen);
         if e_prevrawlen nxt = rawlen then Some zl
         else if e_prevrawlensize nxt < rawlensize then do {
           let extra = rawlensize - e_prevrawlensize nxt;
           zl \<leftarrow> ziplistResize garb zl (int curlen + int extra);
           let np = p + rawlen;
           tail \<leftarrow> ZIPLIST_TAIL_OFFSET zl;
           zl \<leftarrow> (if tail \<noteq> np then set_TAIL_OFFSET zl (int tail + int extra) else Some zl);
           n \<leftarrow> signed_add curlen (- int np - int (e_prevrawlensize nxt) - 1);
           zl \<leftarrow> memmove zl (np + rawlensize) (np + e_prevrawlensize nxt) n;
           (zl, _) \<leftarrow> zipPrevEncodeLength zl np rawlen;
           cascade_loop garb zl (p + rawlen) (curlen + extra) }
         else if e_prevrawlensize nxt > rawlensize then zipPrevEncodeLengthForceLarge zl (p + rawlen) rawlen
         else map_option fst (zipPrevEncodeLength zl (p + rawlen) rawlen) } } }"

definition ziplistCascadeUpdate :: "(nat \<Rightarrow> byte) \<Rightarrow> byte list \<Rightarrow> nat \<Rightarrow> byte list option" where
  "ziplistCascadeUpdate garb zl p = do {
     curlen \<leftarrow> ZIPLIST_BYTES zl;
     cascade_loop garb zl p curlen }"

text \<open>The walk over the entries to delete: the pointer behind them and their number.\<close>

primrec delete_walk :: "byte list \<Rightarrow> nat \<Rightarrow> nat \<Rightarrow> (nat \<times> nat) option" where
  "delete_walk zl p 0 = do { b \<leftarrow> mem_get zl p; Some (p, 0) }"
| "delete_walk zl p (Suc n) = do {
     b \<leftarrow> mem_get zl p;
     if b = ZIP_END then Some (p, 0)
     else do {
       l \<leftarrow> zipRawEntryLength zl p;
       (q, deleted) \<leftarrow> delete_walk zl (p + l) n;
       Some (q, Suc deleted) } }"

text \<open>
  The branches of \<open>__ziplistDelete\<close>: with an entry at \<open>p\<close> behind the deleted ones, it gets the size recorded in the
  first of them, and the rest moves to the front; otherwise only the tail offset changes.
\<close>

definition delete_front :: "byte list \<Rightarrow> zlentry \<Rightarrow> nat \<Rightarrow> nat \<Rightarrow> (byte list \<times> int) option" where
  "delete_front zl first p totlen = do {
     nextdiff \<leftarrow> zipPrevLenByteDiff zl p (e_prevrawlen first);
     p \<leftarrow> signed_add p (- nextdiff);
     (zl, _) \<leftarrow> zipPrevEncodeLength zl p (e_prevrawlen first);
     t \<leftarrow> ZIPLIST_TAIL_OFFSET zl;
     zl \<leftarrow> set_TAIL_OFFSET zl (int t - int totlen);
     tail \<leftarrow> zipEntry zl p;
     e \<leftarrow> mem_get zl (p + (e_headersize tail + e_len tail));
     zl \<leftarrow> (if e \<noteq> ZIP_END then do {
         t \<leftarrow> ZIPLIST_TAIL_OFFSET zl;
         set_TAIL_OFFSET zl (int t + nextdiff) }
       else Some zl);
     bytes \<leftarrow> ZIPLIST_BYTES zl;
     n \<leftarrow> signed_add bytes (- int p - 1);
     zl \<leftarrow> memmove zl (e_p first) p n;
     Some (zl, nextdiff) }"

definition ziplistDelete_at :: "(nat \<Rightarrow> byte) \<Rightarrow> byte list \<Rightarrow> nat \<Rightarrow> nat \<Rightarrow> byte list option" where
  "ziplistDelete_at garb zl p0 count = do {
     first \<leftarrow> zipEntry zl p0;
     (p, deleted) \<leftarrow> delete_walk zl p0 count;
     let totlen = u32 (p - e_p first);
     if totlen > 0 then do {
       b \<leftarrow> mem_get zl p;
       (zl, nextdiff) \<leftarrow>
         (if b \<noteq> ZIP_END then delete_front zl first p totlen
          else do {
            zl \<leftarrow> set_TAIL_OFFSET zl (int (e_p first) - int (e_prevrawlen first));
            Some (zl, 0) });
       let offset = e_p first;
       bytes \<leftarrow> ZIPLIST_BYTES zl;
       zl \<leftarrow> ziplistResize garb zl (int bytes - int totlen + nextdiff);
       zl \<leftarrow> ZIPLIST_INCR_LENGTH zl (- int deleted);
       if nextdiff \<noteq> 0 then ziplistCascadeUpdate garb zl offset else Some zl }
     else Some zl }"

text \<open>The three parts of \<open>__ziplistInsert\<close> that touch the block: the size to record in the new entry, \<dots>\<close>

definition insert_prevlen :: "byte list \<Rightarrow> nat \<Rightarrow> nat option" where
  "insert_prevlen zl p = do {
     b \<leftarrow> mem_get zl p;
     if b \<noteq> ZIP_END then map_option snd (ZIP_DECODE_PREVLEN zl p)
     else do {
       ptail \<leftarrow> ZIPLIST_ENTRY_TAIL zl;
       t \<leftarrow> mem_get zl ptail;
       if t \<noteq> ZIP_END then zipRawEntryLength zl ptail else Some 0 } }"

text \<open>\<dots> the room for it, with the tail moved behind it and the tail offset updated, \<dots>\<close>

definition insert_room :: "(nat \<Rightarrow> byte) \<Rightarrow> byte list \<Rightarrow> nat \<Rightarrow> nat \<Rightarrow> nat \<Rightarrow> int \<Rightarrow> byte list option" where
  "insert_room garb zl p curlen reqlen nextdiff = do {
     zl \<leftarrow> ziplistResize garb zl (int curlen + int reqlen + nextdiff);
     b \<leftarrow> mem_get zl p;
     if b \<noteq> ZIP_END then do {
       src \<leftarrow> signed_add p (- nextdiff);
       n \<leftarrow> signed_add curlen (- int p - 1 + nextdiff);
       zl \<leftarrow> memmove zl (p + reqlen) src n;
       (zl, _) \<leftarrow> zipPrevEncodeLength zl (p + reqlen) reqlen;
       t \<leftarrow> ZIPLIST_TAIL_OFFSET zl;
       zl \<leftarrow> set_TAIL_OFFSET zl (int t + int reqlen);
       tail \<leftarrow> zipEntry zl (p + reqlen);
       e \<leftarrow> mem_get zl (p + reqlen + (e_headersize tail + e_len tail));
       if e \<noteq> ZIP_END then do {
         t \<leftarrow> ZIPLIST_TAIL_OFFSET zl;
         set_TAIL_OFFSET zl (int t + nextdiff) }
       else Some zl }
     else set_TAIL_OFFSET zl (int p) }"

text \<open>\<dots> and the entry itself, with the count of the entries.\<close>

definition insert_write :: "byte list \<Rightarrow> nat \<Rightarrow> nat \<Rightarrow> byte \<Rightarrow> int \<Rightarrow> byte list \<Rightarrow> byte list option" where
  "insert_write zl p prevlen encoding value s = do {
     (zl, n) \<leftarrow> zipPrevEncodeLength zl p prevlen;
     let p = p + n;
     (zl, n) \<leftarrow> zipEncodeLength zl p encoding (length s);
     let p = p + n;
     zl \<leftarrow> (if ZIP_IS_STR encoding then mem_write zl p s else zipSaveInteger zl p value encoding);
     ZIPLIST_INCR_LENGTH zl 1 }"

definition ziplistInsert :: "(nat \<Rightarrow> byte) \<Rightarrow> byte list \<Rightarrow> nat \<Rightarrow> byte list \<Rightarrow> byte list option" where
  "ziplistInsert garb zl p s = do {
     curlen \<leftarrow> ZIPLIST_BYTES zl;
     prevlen \<leftarrow> insert_prevlen zl p;
     let (value, encoding, reqlen) = (case zipTryEncoding s of
         Some (v, e) \<Rightarrow> (v, e, zipIntSize e)
       | None \<Rightarrow> (123456789, 0, length s));
     let reqlen = reqlen + zipPrevEncodeLength_size prevlen;
     let reqlen = reqlen + zipEncodeLength_size encoding (length s);
     b \<leftarrow> mem_get zl p;
     nextdiff \<leftarrow> (if b \<noteq> ZIP_END then zipPrevLenByteDiff zl p reqlen else Some 0);
     zl \<leftarrow> insert_room garb zl p curlen reqlen nextdiff;
     zl \<leftarrow> (if nextdiff \<noteq> 0 then ziplistCascadeUpdate garb zl (p + reqlen) else Some zl);
     insert_write zl p prevlen encoding value s }"

definition ZIPLIST_HEAD :: int where "ZIPLIST_HEAD = 0"
definition ZIPLIST_TAIL :: int where "ZIPLIST_TAIL = 1"

definition ziplistPush :: "(nat \<Rightarrow> byte) \<Rightarrow> byte list \<Rightarrow> byte list \<Rightarrow> int \<Rightarrow> byte list option" where
  "ziplistPush garb zl s wh = do {
     p \<leftarrow> (if wh = ZIPLIST_HEAD then Some ZIPLIST_ENTRY_HEAD else ZIPLIST_ENTRY_END zl);
     ziplistInsert garb zl p s }"

text \<open>The two walks of \<open>ziplistIndex\<close>: the pointer reached and the steps that were left.\<close>

partial_function (option) index_back :: "byte list \<Rightarrow> nat \<Rightarrow> nat \<Rightarrow> int \<Rightarrow> (nat \<times> int) option" where
  "index_back zl p prevlen index =
     (if prevlen > 0 then
        (if index = 0 then Some (p, -1)
         else do {
           p \<leftarrow> signed_add p (- int prevlen);
           (_, prevlen) \<leftarrow> ZIP_DECODE_PREVLEN zl p;
           index_back zl p prevlen (index - 1) })
      else Some (p, index))"

partial_function (option) index_forward :: "byte list \<Rightarrow> nat \<Rightarrow> int \<Rightarrow> (nat \<times> int) option" where
  "index_forward zl p index = do {
     b \<leftarrow> mem_get zl p;
     if b \<noteq> ZIP_END then
       (if index = 0 then Some (p, -1)
        else do { l \<leftarrow> zipRawEntryLength zl p; index_forward zl (p + l) (index - 1) })
     else Some (p, index) }"

text \<open>The inner option is the null pointer. Negating the least \<open>int\<close> overflows.\<close>

definition ziplistIndex :: "byte list \<Rightarrow> int \<Rightarrow> nat option option" where
  "ziplistIndex zl index = do {
     (p, index) \<leftarrow>
       (if index < 0 then
          (if index \<le> - (2 ^ 31) then None
           else do {
             let index = - index - 1;
             p \<leftarrow> ZIPLIST_ENTRY_TAIL zl;
             b \<leftarrow> mem_get zl p;
             if b \<noteq> ZIP_END then do {
               (_, prevlen) \<leftarrow> ZIP_DECODE_PREVLEN zl p;
               index_back zl p prevlen index }
             else Some (p, index) })
        else index_forward zl ZIPLIST_ENTRY_HEAD index);
     b \<leftarrow> mem_get zl p;
     Some (if b = ZIP_END \<or> index > 0 then None else Some p) }"

definition ziplistNext :: "byte list \<Rightarrow> nat \<Rightarrow> nat option option" where
  "ziplistNext zl p = do {
     b \<leftarrow> mem_get zl p;
     if b = ZIP_END then Some None
     else do {
       l \<leftarrow> zipRawEntryLength zl p;
       b \<leftarrow> mem_get zl (p + l);
       Some (if b = ZIP_END then None else Some (p + l)) } }"

definition ziplistPrev :: "byte list \<Rightarrow> nat \<Rightarrow> nat option option" where
  "ziplistPrev zl p = do {
     b \<leftarrow> mem_get zl p;
     if b = ZIP_END then do {
       p \<leftarrow> ZIPLIST_ENTRY_TAIL zl;
       b \<leftarrow> mem_get zl p;
       Some (if b = ZIP_END then None else Some p) }
     else if p = ZIPLIST_ENTRY_HEAD then Some None
     else do {
       (_, prevlen) \<leftarrow> ZIP_DECODE_PREVLEN zl p;
       if prevlen > 0 then map_option Some (signed_add p (- int prevlen)) else None } }"

text \<open>The value of an entry: the bytes at \<open>*sstr\<close>, or the integer in \<open>*sval\<close>; \<open>Some None\<close> is the return value 0.\<close>

datatype zval = ZStr "byte list" | ZInt int

definition ziplistGet :: "byte list \<Rightarrow> nat option \<Rightarrow> zval option option" where
  "ziplistGet zl ptr = (case ptr of None \<Rightarrow> Some None
   | Some p \<Rightarrow> do {
     b \<leftarrow> mem_get zl p;
     if b = ZIP_END then Some None
     else do {
       entry \<leftarrow> zipEntry zl p;
       if ZIP_IS_STR (e_encoding entry)
       then do { bs \<leftarrow> mem_read zl (p + e_headersize entry) (e_len entry); Some (Some (ZStr bs)) }
       else do { v \<leftarrow> zipLoadInteger zl (p + e_headersize entry) (e_encoding entry); Some (Some (ZInt v)) } } })"

definition ziplistDelete :: "(nat \<Rightarrow> byte) \<Rightarrow> byte list \<Rightarrow> nat \<Rightarrow> (byte list \<times> nat) option" where
  "ziplistDelete garb zl p = do {
     let offset = p;
     zl \<leftarrow> ziplistDelete_at garb zl p 1;
     Some (zl, offset) }"

text \<open>The index, an unsigned integer, is passed on as a signed one.\<close>

definition ziplistDeleteRange :: "(nat \<Rightarrow> byte) \<Rightarrow> byte list \<Rightarrow> nat \<Rightarrow> nat \<Rightarrow> byte list option" where
  "ziplistDeleteRange garb zl index count = do {
     ptr \<leftarrow> ziplistIndex zl (s32 (int index));
     (case ptr of None \<Rightarrow> Some zl | Some p \<Rightarrow> ziplistDelete_at garb zl p count) }"

definition ziplistCompare :: "byte list \<Rightarrow> nat \<Rightarrow> byte list \<Rightarrow> bool option" where
  "ziplistCompare zl p sstr = do {
     b \<leftarrow> mem_get zl p;
     if b = ZIP_END then Some False
     else do {
       entry \<leftarrow> zipEntry zl p;
       if ZIP_IS_STR (e_encoding entry) then
         (if e_len entry = length sstr
          then do { bs \<leftarrow> mem_read zl (p + e_headersize entry) (length sstr); Some (bs = sstr) }
          else Some False)
       else (case zipTryEncoding sstr of
           Some (sval, _) \<Rightarrow> do {
             zval \<leftarrow> zipLoadInteger zl (p + e_headersize entry) (e_encoding entry);
             Some (zval = sval) }
         | None \<Rightarrow> Some False) } }"

text \<open>
  The loop of \<open>ziplistFind\<close>: \<open>vcache\<close> is \<open>vencoding\<close> with \<open>vll\<close>, \<open>None\<close> before the first try (\<open>vencoding\<close> is 0),
  \<open>Some None\<close> when the searched bytes are no integer (\<open>vencoding\<close> is \<open>UCHAR_MAX\<close>).
\<close>

partial_function (option) find_loop ::
  "byte list \<Rightarrow> nat \<Rightarrow> byte list \<Rightarrow> nat \<Rightarrow> nat \<Rightarrow> int option option \<Rightarrow> nat option option" where
  "find_loop zl p vstr skip skipcnt vcache = do {
     b \<leftarrow> mem_get zl p;
     if b = ZIP_END then Some None
     else do {
       prevlensize \<leftarrow> ZIP_DECODE_PREVLENSIZE zl p;
       (encoding, lensize, len) \<leftarrow> ZIP_DECODE_LENGTH zl (p + prevlensize);
       let q = p + prevlensize + lensize;
       if skipcnt = 0 then
         (if ZIP_IS_STR encoding then do {
            found \<leftarrow> (if len = length vstr then do { bs \<leftarrow> mem_read zl q (length vstr); Some (bs = vstr) } else Some False);
            if found then Some (Some p) else find_loop zl (q + len) vstr skip skip vcache }
          else do {
            let v = (case vcache of None \<Rightarrow> map_option fst (zipTryEncoding vstr) | Some v \<Rightarrow> v);
            found \<leftarrow> (case v of
                None \<Rightarrow> Some False
              | Some vll \<Rightarrow> do { ll \<leftarrow> zipLoadInteger zl q encoding; Some (ll = vll) });
            if found then Some (Some p) else find_loop zl (q + len) vstr skip skip (Some v) })
       else find_loop zl (q + len) vstr skip (skipcnt - 1) vcache } }"

definition ziplistFind :: "byte list \<Rightarrow> nat \<Rightarrow> byte list \<Rightarrow> nat \<Rightarrow> nat option option" where
  "ziplistFind zl p vstr skip = find_loop zl p vstr skip 0 None"

partial_function (option) len_loop :: "byte list \<Rightarrow> nat \<Rightarrow> nat \<Rightarrow> nat option" where
  "len_loop zl p len = do {
     b \<leftarrow> mem_get zl p;
     if b \<noteq> ZIP_END then do { l \<leftarrow> zipRawEntryLength zl p; len_loop zl (p + l) (Suc len) }
     else Some len }"

definition ziplistLen :: "byte list \<Rightarrow> (byte list \<times> nat) option" where
  "ziplistLen zl = do {
     n \<leftarrow> ZIPLIST_LENGTH zl;
     if n < UINT16_MAX then Some (zl, n)
     else do {
       len \<leftarrow> len_loop zl ZIPLIST_HEADER_SIZE 0;
       zl \<leftarrow> (if len < UINT16_MAX then set_LENGTH zl (int len) else Some zl);
       Some (zl, len) } }"

definition ziplistBlobLen :: "byte list \<Rightarrow> nat option" where
  "ziplistBlobLen zl = ZIPLIST_BYTES zl"

end
