(* ===== verification/Ziplist_Repr.thy ===== *)
theory Ziplist_Repr
  imports Ziplist
begin

text \<open>
  The layout of a ziplist: the bytes of a value and of an entry with the facts on reading them back, the
  header fields, and the effect of resizing, moving and writing inside a block.
\<close>

section \<open>Reading behind a prefix\<close>

lemma mem_get_shift: "mem_get (xs @ ys) (length xs + i) = mem_get ys i"
  by (simp add: mem_get_def nth_append)

lemma mem_read_shift: "mem_read (xs @ ys) (length xs + i) n = mem_read ys i n"
  by (simp add: mem_read_def)

lemma mem_get_Cons_0 [simp]: "mem_get (b # bs) 0 = Some b"
  by (simp add: mem_get_def)

lemma mem_get_Cons_Suc [simp]: "mem_get (b # bs) (Suc i) = mem_get bs i"
  by (simp add: mem_get_def)

lemma mem_get_Cons_numeral [simp]: "mem_get (b # bs) (numeral k) = mem_get bs (pred_numeral k)"
  by (simp add: numeral_eq_Suc)

lemma mem_read_prefix [simp]: "length xs = n \<Longrightarrow> mem_read (xs @ ys) 0 n = Some xs"
  by (simp add: mem_read_def)

lemma mem_read_Cons_Suc [simp]: "mem_read (b # bs) (Suc i) n = mem_read bs i n"
  by (simp add: mem_read_def)

lemma ZIP_ENTRY_ENCODING_shift: "ZIP_ENTRY_ENCODING (xs @ ys) (length xs + i) = ZIP_ENTRY_ENCODING ys i"
  by (simp add: ZIP_ENTRY_ENCODING_def mem_get_shift)

lemma ZIP_DECODE_LENGTH_shift: "ZIP_DECODE_LENGTH (xs @ ys) (length xs + i) = ZIP_DECODE_LENGTH ys i"
  unfolding ZIP_DECODE_LENGTH_def ZIP_ENTRY_ENCODING_shift add.assoc mem_get_shift by (rule refl)

lemma ZIP_DECODE_PREVLENSIZE_shift:
  "ZIP_DECODE_PREVLENSIZE (xs @ ys) (length xs + i) = ZIP_DECODE_PREVLENSIZE ys i"
  by (simp add: ZIP_DECODE_PREVLENSIZE_def mem_get_shift)

lemma ZIP_DECODE_PREVLEN_shift: "ZIP_DECODE_PREVLEN (xs @ ys) (length xs + i) = ZIP_DECODE_PREVLEN ys i"
  unfolding ZIP_DECODE_PREVLEN_def ZIP_DECODE_PREVLENSIZE_shift add.assoc mem_get_shift mem_read_shift by (rule refl)

lemma zipLoadInteger_shift: "zipLoadInteger (xs @ ys) (length xs + i) e = zipLoadInteger ys i e"
  by (simp add: zipLoadInteger_def mem_get_shift mem_read_shift)

section \<open>The bytes of a value\<close>

text \<open>The encoded integer of \<open>zipSaveInteger\<close>, and the length field with the value behind it.\<close>

definition int_payload :: "int \<Rightarrow> byte \<Rightarrow> byte list" where
  "int_payload v e =
     (if e = ZIP_INT_8B then [word_of_int v]
      else if e = ZIP_INT_16B then le_bytes 2 v
      else if e = ZIP_INT_24B then drop 1 (le_bytes 4 (v * 2 ^ 8))
      else if e = ZIP_INT_32B then le_bytes 4 v
      else if e = ZIP_INT_64B then le_bytes 8 v
      else [])"

definition zip_body :: "byte list \<Rightarrow> byte list" where
  "zip_body s = (case zipTryEncoding s of
     Some (v, e) \<Rightarrow> e # int_payload v e
   | None \<Rightarrow> zipEncodeLength_buf 0 (length s) @ s)"

definition body_enc :: "byte list \<Rightarrow> byte" where
  "body_enc s = (case zipTryEncoding s of
     Some (v, e) \<Rightarrow> e
   | None \<Rightarrow> if length s \<le> 0x3f then ZIP_STR_06B else if length s \<le> 0x3fff then ZIP_STR_14B else ZIP_STR_32B)"

definition body_lensize :: "byte list \<Rightarrow> nat" where
  "body_lensize s = (if zipTryEncoding s = None then zipEncodeLength_size 0 (length s) else 1)"

definition body_len :: "byte list \<Rightarrow> nat" where
  "body_len s = (case zipTryEncoding s of Some (v, e) \<Rightarrow> zipIntSize e | None \<Rightarrow> length s)"

lemma ZIP_IS_STR_zero [simp]: "ZIP_IS_STR 0"
  by (simp add: ZIP_IS_STR_def zip_consts)

lemma imm_cases:
  assumes "0 \<le> v" "v \<le> 12"
  shows "ZIP_INT_IMM_MIN + word_of_int v \<in> {ZIP_INT_IMM_MIN .. ZIP_INT_IMM_MAX}"
    "uint ((ZIP_INT_IMM_MIN + word_of_int v) AND ZIP_INT_IMM_MASK) - 1 = v"
proof -
  have "\<forall>v \<in> set [0..12]. ZIP_INT_IMM_MIN \<le> ZIP_INT_IMM_MIN + word_of_int v \<and> ZIP_INT_IMM_MIN + word_of_int v \<le> ZIP_INT_IMM_MAX \<and>
      uint ((ZIP_INT_IMM_MIN + word_of_int v) AND ZIP_INT_IMM_MASK) - 1 = v"
    by code_simp
  then show "ZIP_INT_IMM_MIN + word_of_int v \<in> {ZIP_INT_IMM_MIN .. ZIP_INT_IMM_MAX}"
    "uint ((ZIP_INT_IMM_MIN + word_of_int v) AND ZIP_INT_IMM_MASK) - 1 = v"
    using assms by auto
qed

text \<open>The encodings \<open>zipTryEncoding\<close> chooses, each with the range of its values.\<close>

lemma zipTryEncoding_cases:
  assumes "zipTryEncoding s = Some (v, e)"
  obtains "0 \<le> v" "v \<le> 12" "e = ZIP_INT_IMM_MIN + word_of_int v"
  | "- 0x80 \<le> v" "v \<le> 0x7f" "e = ZIP_INT_8B"
  | "- 0x8000 \<le> v" "v \<le> 0x7fff" "e = ZIP_INT_16B"
  | "- 0x800000 \<le> v" "v \<le> 0x7fffff" "e = ZIP_INT_24B"
  | "- 0x80000000 \<le> v" "v \<le> 0x7fffffff" "e = ZIP_INT_32B"
  | "int64_range v" "e = ZIP_INT_64B"
  using assms by (auto simp: zipTryEncoding_def string2ll_correct split: if_splits bind_splits)

lemma zipTryEncoding_value: "zipTryEncoding s = Some (v, e) \<Longrightarrow> s = sdec v \<and> int64_range v"
  by (auto simp: zipTryEncoding_def string2ll_correct split: if_splits bind_splits)

lemma imm_enc_neq:
  assumes "e \<in> {ZIP_INT_IMM_MIN .. ZIP_INT_IMM_MAX}"
  shows "e \<noteq> ZIP_INT_8B" "e \<noteq> ZIP_INT_16B" "e \<noteq> ZIP_INT_24B" "e \<noteq> ZIP_INT_32B" "e \<noteq> ZIP_INT_64B" "\<not> e < ZIP_STR_MASK" "\<not> ZIP_IS_STR e"
proof -
  have "241 \<le> unat e" "unat e \<le> 253" using assms by (simp_all add: zip_consts word_le_nat_alt)
  then show "e \<noteq> ZIP_INT_8B" "e \<noteq> ZIP_INT_16B" "e \<noteq> ZIP_INT_24B" "e \<noteq> ZIP_INT_32B" "e \<noteq> ZIP_INT_64B" "\<not> e < ZIP_STR_MASK"
    by (auto simp: zip_consts word_less_nat_alt)
  have "\<forall>k \<in> set [241..<254]. \<not> ZIP_IS_STR (of_nat k)" by code_simp
  moreover have "unat e \<in> set [241..<254]" using \<open>241 \<le> unat e\<close> \<open>unat e \<le> 253\<close> by (simp only: set_upt atLeastLessThan_iff) simp
  ultimately have "\<not> ZIP_IS_STR (of_nat (unat e))" by (rule bspec)
  then show "\<not> ZIP_IS_STR e" by simp
qed

lemma int_enc_consts:
  "\<not> ZIP_IS_STR ZIP_INT_8B" "\<not> ZIP_IS_STR ZIP_INT_16B" "\<not> ZIP_IS_STR ZIP_INT_24B" "\<not> ZIP_IS_STR ZIP_INT_32B"
  "\<not> ZIP_IS_STR ZIP_INT_64B" "\<not> ZIP_INT_8B < ZIP_STR_MASK" "\<not> ZIP_INT_16B < ZIP_STR_MASK" "\<not> ZIP_INT_24B < ZIP_STR_MASK"
  "\<not> ZIP_INT_32B < ZIP_STR_MASK" "\<not> ZIP_INT_64B < ZIP_STR_MASK"
  by (simp_all add: ZIP_IS_STR_def zip_consts)

lemma int_enc_not_str:
  assumes "zipTryEncoding s = Some (v, e)"
  shows "\<not> ZIP_IS_STR e \<and> \<not> e < ZIP_STR_MASK"
  using assms by (cases rule: zipTryEncoding_cases) (simp_all only: int_enc_consts imm_enc_neq imm_cases not_False_eq_True simp_thms)

lemma length_int_payload: "length (int_payload v e) = zipIntSize e"
  by (simp add: int_payload_def zipIntSize_def)

lemma shift24: "drop 1 (le_bytes 4 (v * 2 ^ 8)) = le_bytes 3 v" "le_bytes 4 (v * 2 ^ 8) = 0 # le_bytes 3 v"
proof -
  have "(word_of_int (v * 256) :: byte) = word_of_int v * word_of_int 256" by (rule wi_hom_mult [symmetric])
  also have "(word_of_int 256 :: byte) = 0" by simp
  finally show "drop 1 (le_bytes 4 (v * 2 ^ 8)) = le_bytes 3 v" "le_bytes 4 (v * 2 ^ 8) = 0 # le_bytes 3 v"
    by (simp_all add: numeral_eq_Suc)
qed

lemma load_payload:
  assumes "zipTryEncoding s = Some (v, e)"
  shows "zipLoadInteger (int_payload v e @ ys) 0 e = Some v"
  using assms
proof (cases rule: zipTryEncoding_cases)
  case 1
  then show ?thesis using imm_cases [OF 1(1,2)] imm_enc_neq [OF imm_cases(1) [OF 1(1,2)]]
    by (simp add: zipLoadInteger_def)
next
  case 2
  then show ?thesis by (simp add: zipLoadInteger_def int_payload_def signed_of_int signed_take_bit_int_eq_self)
next
  case 3
  then show ?thesis using le_sint_le_bytes [of 2 v] by (simp add: zipLoadInteger_def int_payload_def zip_consts)
next
  case 4
  have "le_sint (0 # le_bytes 3 v) = v * 2 ^ 8"
    unfolding shift24(2) [symmetric] by (rule le_sint_le_bytes) (use 4 in auto)
  then show ?thesis using 4 by (simp add: zipLoadInteger_def int_payload_def zip_consts shift24 [simplified])
next
  case 5
  then show ?thesis using le_sint_le_bytes [of 4 v] by (simp add: zipLoadInteger_def int_payload_def zip_consts)
next
  case 6
  then show ?thesis using le_sint_le_bytes [of 8 v] by (simp add: zipLoadInteger_def int_payload_def zip_consts int64_range_def)
qed

section \<open>Decoding a value\<close>

lemma byte_low6:
  assumes "n \<le> 0x3f"
  shows "(0 :: byte) OR of_nat n < 0xc0" "((0 :: byte) OR of_nat n) AND 0xc0 = 0" "unat (((0 :: byte) OR of_nat n) AND 0x3f) = n"
    "(0x40 :: byte) OR (of_nat n AND 0x3f) < 0xc0" "((0x40 :: byte) OR (of_nat n AND 0x3f)) AND 0xc0 = 0x40"
    "unat (((0x40 :: byte) OR (of_nat n AND 0x3f)) AND 0x3f) = n"
proof -
  have "\<forall>n \<in> set [0..<64]. (0 :: byte) OR of_nat n < 0xc0 \<and> ((0 :: byte) OR of_nat n) AND 0xc0 = 0 \<and> unat (((0 :: byte) OR of_nat n) AND 0x3f) = n \<and>
    (0x40 :: byte) OR (of_nat n AND 0x3f) < 0xc0 \<and> ((0x40 :: byte) OR (of_nat n AND 0x3f)) AND 0xc0 = 0x40 \<and>
    unat (((0x40 :: byte) OR (of_nat n AND 0x3f)) AND 0x3f) = n"
    by code_simp
  moreover have "n \<in> set [0..<64]" using assms by simp
  ultimately show "(0 :: byte) OR of_nat n < 0xc0" "((0 :: byte) OR of_nat n) AND 0xc0 = 0" "unat (((0 :: byte) OR of_nat n) AND 0x3f) = n"
    "(0x40 :: byte) OR (of_nat n AND 0x3f) < 0xc0" "((0x40 :: byte) OR (of_nat n AND 0x3f)) AND 0xc0 = 0x40"
    "unat (((0x40 :: byte) OR (of_nat n AND 0x3f)) AND 0x3f) = n" by (blast dest: bspec)+
qed

lemma byte_and_ff: "(x :: byte) AND 0xff = x"
proof -
  have "(0xff :: byte) = - 1" by simp
  then show ?thesis by (simp only: and.right_neutral)
qed

lemma unat_byte: "unat (of_nat n :: byte) = n mod 256"
  by (simp add: unat_of_nat)

lemma split_two: "(n :: nat) \<le> 0x3fff \<Longrightarrow> n div 2 ^ 8 \<le> 0x3f \<and> n div 2 ^ 8 * 2 ^ 8 + n mod 256 = n"
  by (simp add: div_mult_mod_eq)

lemma split_four:
  fixes n :: nat
  assumes "n < 2 ^ 32"
  shows "n div 2 ^ 24 mod 256 * 2 ^ 24 + n div 2 ^ 16 mod 256 * 2 ^ 16 + n div 2 ^ 8 mod 256 * 2 ^ 8 + n mod 256 = n"
proof -
  let ?a = "n div 256"
  let ?b = "?a div 256"
  have eqs: "n div 2 ^ 16 = ?b" "n div 2 ^ 24 = ?b div 256" "n div 2 ^ 8 = ?a"
    by (simp_all add: div_mult2_eq [symmetric])
  have small: "?b div 256 mod 256 = ?b div 256" using assms eqs(2) by simp
  have p: "(2 :: nat) ^ 24 = 256 * (256 * 256)" "(2 :: nat) ^ 16 = 256 * 256" "(2 :: nat) ^ 8 = 256" by simp_all
  show ?thesis unfolding eqs small unfolding p
    using div_mult_mod_eq [of n 256] div_mult_mod_eq [of ?a 256] div_mult_mod_eq [of ?b 256] by linarith
qed

lemma decode_length:
  assumes "length s < 2 ^ 32"
  shows "ZIP_DECODE_LENGTH (zip_body s @ ys) 0 = Some (body_enc s, body_lensize s, body_len s)"
proof (cases "zipTryEncoding s")
  case None
  consider "length s \<le> 0x3f" | "0x3f < length s" "length s \<le> 0x3fff" | "0x3fff < length s" by linarith
  then show ?thesis
  proof cases
    case 1
    then show ?thesis using None byte_low6 [OF 1]
      by (simp add: ZIP_DECODE_LENGTH_def ZIP_ENTRY_ENCODING_def zip_body_def body_enc_def body_lensize_def body_len_def
        zipEncodeLength_buf_def zipEncodeLength_size_def zip_consts)
  next
    case 2
    then show ?thesis using None byte_low6 [of "length s div 2 ^ 8"] split_two [OF 2(2)]
      by (simp add: ZIP_DECODE_LENGTH_def ZIP_ENTRY_ENCODING_def zip_body_def body_enc_def body_lensize_def body_len_def
        zipEncodeLength_buf_def zipEncodeLength_size_def zip_consts byte_and_ff unat_byte)
  next
    case 3
    then show ?thesis using None split_four [OF assms] assms
      by (simp add: ZIP_DECODE_LENGTH_def ZIP_ENTRY_ENCODING_def zip_body_def body_enc_def body_lensize_def body_len_def
        zipEncodeLength_buf_def zipEncodeLength_size_def zip_consts byte_and_ff unat_byte)
  qed
next
  case (Some ve)
  then show ?thesis using int_enc_not_str [of s "fst ve" "snd ve"]
    by (cases ve) (simp add: ZIP_DECODE_LENGTH_def ZIP_ENTRY_ENCODING_def zip_body_def body_enc_def body_lensize_def body_len_def)
qed

section \<open>Entries\<close>

text \<open>An entry: whether its size field is the large one, the size it records, its value.\<close>

type_synonym zent = "bool \<times> nat \<times> byte list"

definition prev_field :: "bool \<Rightarrow> nat \<Rightarrow> byte list" where
  "prev_field lg pv = (if lg then of_nat ZIP_BIGLEN # le_bytes 4 (int pv) else [of_nat pv])"

fun entry_bytes :: "zent \<Rightarrow> byte list" where
  "entry_bytes (lg, pv, s) = prev_field lg pv @ zip_body s"

fun entry_ok :: "zent \<Rightarrow> bool" where
  "entry_ok (lg, pv, s) \<longleftrightarrow> pv < 2 ^ 32 \<and> (\<not> lg \<longrightarrow> pv < 254) \<and> length s < 2 ^ 32"

definition entry_size :: "zent \<Rightarrow> nat" where
  "entry_size e = length (entry_bytes e)"

definition entries :: "zent list \<Rightarrow> byte list" where
  "entries es = concat (map entry_bytes es)"

lemma entries_simps [simp]:
  "entries [] = []" "entries (e # es) = entry_bytes e @ entries es" "entries (es @ fs) = entries es @ entries fs"
  by (simp_all add: entries_def)

lemma length_prev_field [simp]: "length (prev_field lg pv) = (if lg then 5 else 1)"
  by (simp add: prev_field_def)

lemma length_zip_body: "length (zip_body s) = body_lensize s + body_len s"
  by (auto simp: zip_body_def body_lensize_def body_len_def length_int_payload zipEncodeLength_buf_def
    zipEncodeLength_size_def split: option.splits)

lemma body_lensize_pos: "0 < body_lensize s"
  by (simp add: body_lensize_def zipEncodeLength_size_def)

lemma entry_size_eq: "entry_size (lg, pv, s) = (if lg then 5 else 1) + length (zip_body s)"
  by (simp add: entry_size_def)

lemma entry_size_ge: "2 \<le> entry_size e"
proof -
  obtain lg pv s where e: "e = (lg, pv, s)" by (cases e)
  show ?thesis using body_lensize_pos [of s] by (simp add: e entry_size_eq length_zip_body)
qed

lemma unat_small: "n < 254 \<Longrightarrow> unat (of_nat n :: byte) = n"
  by (simp add: unat_byte)

lemma byte_neq_end: "n < 254 \<Longrightarrow> (of_nat n :: byte) \<noteq> ZIP_END"
  using unat_small [of n] by (auto simp: zip_consts)

lemma decode_prevlensize:
  assumes "\<not> lg \<longrightarrow> pv < 254"
  shows "ZIP_DECODE_PREVLENSIZE (prev_field lg pv @ ys) 0 = Some (if lg then 5 else 1)"
  using assms by (cases lg) (simp_all add: ZIP_DECODE_PREVLENSIZE_def prev_field_def zip_consts unat_small [simplified])

lemma decode_prevlen:
  assumes "pv < 2 ^ 32" "\<not> lg \<longrightarrow> pv < 254"
  shows "ZIP_DECODE_PREVLEN (prev_field lg pv @ ys) 0 = Some (if lg then 5 else 1, pv)"
proof (cases lg)
  case True
  have "le_uint (le_bytes 4 (int pv)) = int pv" using assms(1) by (simp add: le_uint_le_bytes)
  then show ?thesis
    using True decode_prevlensize [OF assms(2)] by (simp add: ZIP_DECODE_PREVLEN_def prev_field_def)
next
  case False
  then show ?thesis
    using assms decode_prevlensize [OF assms(2)] by (simp add: ZIP_DECODE_PREVLEN_def prev_field_def unat_small [simplified])
qed

lemma mem_get_entry:
  assumes "entry_ok e"
  shows "\<exists>b. mem_get (xs @ entry_bytes e @ ys) (length xs) = Some b \<and> b \<noteq> ZIP_END"
proof -
  obtain lg pv s where e: "e = (lg, pv, s)" by (cases e)
  show ?thesis using assms mem_get_shift [of xs "entry_bytes e @ ys" 0] byte_neq_end [of pv]
    by (cases lg) (auto simp: e prev_field_def zip_consts)
qed

lemma zipEntry_entry:
  assumes "entry_ok (lg, pv, s)"
  shows "zipEntry (xs @ entry_bytes (lg, pv, s) @ ys) (length xs) =
    Some \<lparr>e_prevrawlensize = (if lg then 5 else 1), e_prevrawlen = pv, e_lensize = body_lensize s, e_len = body_len s,
      e_headersize = (if lg then 5 else 1) + body_lensize s, e_encoding = body_enc s, e_p = length xs\<rparr>"
proof -
  let ?r = "zip_body s @ ys"
  have eq: "xs @ entry_bytes (lg, pv, s) @ ys = xs @ prev_field lg pv @ ?r" by simp
  have "ZIP_DECODE_PREVLEN (xs @ prev_field lg pv @ ?r) (length xs) = Some (if lg then 5 else 1, pv)"
    using ZIP_DECODE_PREVLEN_shift [of xs _ 0] decode_prevlen [of pv lg ?r] assms by simp
  moreover have "ZIP_DECODE_LENGTH (xs @ prev_field lg pv @ ?r) (length xs + (if lg then 5 else 1)) =
      Some (body_enc s, body_lensize s, body_len s)"
    using ZIP_DECODE_LENGTH_shift [of "xs @ prev_field lg pv" ?r 0] decode_length [of s ys] assms by simp
  ultimately show ?thesis unfolding eq zipEntry_def by simp
qed

lemma zipRawEntryLength_entry:
  assumes "entry_ok e" "entry_size e < 2 ^ 32"
  shows "zipRawEntryLength (xs @ entry_bytes e @ ys) (length xs) = Some (entry_size e)"
proof -
  obtain lg pv s where e: "e = (lg, pv, s)" by (cases e)
  let ?r = "zip_body s @ ys"
  have eq: "xs @ entry_bytes e @ ys = xs @ prev_field lg pv @ ?r" by (simp add: e)
  have "ZIP_DECODE_PREVLENSIZE (xs @ prev_field lg pv @ ?r) (length xs) = Some (if lg then 5 else 1)"
    using ZIP_DECODE_PREVLENSIZE_shift [of xs _ 0] decode_prevlensize [of lg pv ?r] assms e by simp
  moreover have "ZIP_DECODE_LENGTH (xs @ prev_field lg pv @ ?r) (length xs + (if lg then 5 else 1)) =
      Some (body_enc s, body_lensize s, body_len s)"
    using ZIP_DECODE_LENGTH_shift [of "xs @ prev_field lg pv" ?r 0] decode_length [of s ys] assms e by simp
  ultimately show ?thesis using assms(2) unfolding eq zipRawEntryLength_def
    by (simp add: e entry_size_eq length_zip_body add.assoc)
qed

section \<open>The header\<close>

definition zl_header :: "int \<Rightarrow> int \<Rightarrow> int \<Rightarrow> byte list" where
  "zl_header b t c = le_bytes 4 b @ le_bytes 4 t @ le_bytes 2 c"

lemma length_zl_header [simp]: "length (zl_header b t c) = 10"
  by (simp add: zl_header_def)

lemma header_get [simp]:
  "0 \<le> b \<Longrightarrow> b < 4294967296 \<Longrightarrow> ZIPLIST_BYTES (zl_header b t c @ r) = Some (nat b)"
  "0 \<le> t \<Longrightarrow> t < 4294967296 \<Longrightarrow> ZIPLIST_TAIL_OFFSET (zl_header b t c @ r) = Some (nat t)"
  "0 \<le> c \<Longrightarrow> c < 65536 \<Longrightarrow> ZIPLIST_LENGTH (zl_header b t c @ r) = Some (nat c)"
  by (simp_all add: ZIPLIST_BYTES_def ZIPLIST_TAIL_OFFSET_def ZIPLIST_LENGTH_def mem_read_def zl_header_def le_uint_le_bytes)

lemma header_get_nat:
  "n < 2 ^ 32 \<Longrightarrow> ZIPLIST_BYTES (zl_header (int n) t c @ r) = Some n"
  "n < 2 ^ 32 \<Longrightarrow> ZIPLIST_TAIL_OFFSET (zl_header b (int n) c @ r) = Some n"
  by simp_all

lemma header_set [simp]:
  "set_BYTES (zl_header b t c @ r) v = Some (zl_header v t c @ r)"
  "set_TAIL_OFFSET (zl_header b t c @ r) v = Some (zl_header b v c @ r)"
  "set_LENGTH (zl_header b t c @ r) v = Some (zl_header b t v @ r)"
  by (simp_all add: set_BYTES_def set_TAIL_OFFSET_def set_LENGTH_def mem_write_def zl_header_def)

text \<open>Growing keeps the entries and puts fresh bytes before the end marker; shrinking cuts behind the entries.\<close>

lemma mem_set_last:
  assumes "ws \<noteq> []" "Suc i = length us + length ws"
  shows "mem_set (us @ ws) i x = Some (us @ butlast ws @ [x])"
proof -
  obtain vs w where "ws = vs @ [w]" using assms(1) by (cases ws rule: rev_cases) auto
  with assms(2) show ?thesis by (simp add: mem_set_def list_update_append)
qed

lemma resize_grow:
  assumes "L = int (11 + length xs + k)" "L < 2 ^ 32"
  shows "\<exists>g. length g = k \<and> (0 < k \<longrightarrow> hd g = e) \<and>
    ziplistResize garb (zl_header b t c @ xs @ [e]) L = Some (zl_header L t c @ xs @ g @ [ZIP_END])"
proof -
  let ?zl = "zl_header b t c @ xs @ [e]"
  let ?f = "map garb [11 + length xs ..< 11 + length xs + k]"
  have n: "nat (L mod 2 ^ 32) = 11 + length xs + k" using assms by simp
  have "mem_resize garb ?zl (11 + length xs + k) = zl_header b t c @ xs @ e # ?f"
    by (simp add: mem_resize_def)
  then have "ziplistResize garb ?zl L = mem_set (zl_header L t c @ xs @ e # ?f) (10 + length xs + k) ZIP_END"
    unfolding ziplistResize_def n Let_def using assms(1) by (simp add: add.assoc)
  also have "\<dots> = Some (zl_header L t c @ xs @ butlast (e # ?f) @ [ZIP_END])"
    using mem_set_last [of "e # ?f" "10 + length xs + k" "zl_header L t c @ xs" ZIP_END] by simp
  finally show ?thesis by (intro exI [of _ "butlast (e # ?f)"]) (cases k; simp)
qed

lemma resize_shrink:
  assumes "L = int (11 + length xs)" "L < 2 ^ 32" "ys \<noteq> []"
  shows "ziplistResize garb (zl_header b t c @ xs @ ys) L = Some (zl_header L t c @ xs @ [ZIP_END])"
proof -
  have n: "nat (L mod 2 ^ 32) = 11 + length xs" using assms by simp
  obtain y zs where ys: "ys = y # zs" using assms(3) by (cases ys) auto
  have "mem_resize garb (zl_header b t c @ xs @ ys) (11 + length xs) = zl_header b t c @ xs @ [y]"
    by (simp add: mem_resize_def ys)
  then show ?thesis unfolding ziplistResize_def n Let_def
    using assms(1) by (simp add: mem_set_def list_update_append nth_append)
qed

lemma incr_length:
  assumes "0 \<le> c" "c < 65536"
  shows "ZIPLIST_INCR_LENGTH (zl_header b t c @ r) i = Some (zl_header b t (if c < 65535 then c + i else c) @ r)"
  using assms by (simp add: ZIPLIST_INCR_LENGTH_def UINT16_MAX_def nat_less_iff)

section \<open>Moving and writing inside a block\<close>

lemma memmove_right:
  "memmove (xs @ a @ ys @ g @ zs) (length xs + length a + length g) (length xs + length a) (length ys) =
     Some (xs @ take (length a + length g) (a @ ys @ g) @ ys @ zs)"
  by (simp add: memmove_Some)

lemma memmove_left:
  "\<exists>w. length w = length a \<and>
     memmove (xs @ a @ ys @ zs) (length xs) (length xs + length a) (length ys) = Some (xs @ ys @ w @ zs)"
proof -
  have "length ys \<le> length (a @ ys)" by simp
  then have "drop (length ys) (a @ ys @ zs) = drop (length ys) (a @ ys) @ zs" by simp
  then show ?thesis by (intro exI [of _ "drop (length ys) (a @ ys)"]) (simp add: memmove_Some)
qed

lemma write_prev_field:
  assumes "length f = zipPrevEncodeLength_size n" "n < 2 ^ 32"
  shows "zipPrevEncodeLength (xs @ f @ ys) (length xs) n = Some (xs @ prev_field (254 \<le> n) n @ ys, zipPrevEncodeLength_size n)"
proof (cases "n < 254")
  case True
  then obtain b where "f = [b]" using assms by (auto simp: zipPrevEncodeLength_size_def zip_consts length_Suc_conv)
  then show ?thesis using True assms
    by (simp add: zipPrevEncodeLength_def zipPrevEncodeLength_size_def prev_field_def zip_consts mem_set_def list_update_append)
next
  case False
  then obtain b fs where f: "f = b # fs" "length fs = 4"
    using assms by (cases f) (auto simp: zipPrevEncodeLength_size_def zip_consts)
  have "mem_write (xs @ 254 # fs @ ys) (Suc (length xs)) (le_bytes 4 (int n)) = Some (xs @ 254 # le_bytes 4 (int n) @ ys)"
    using f(2) by (simp add: mem_write_def)
  then show ?thesis using False assms f
    by (simp add: zipPrevEncodeLength_def zipPrevEncodeLength_size_def prev_field_def zip_consts mem_set_def list_update_append)
qed

lemma force_prev_field:
  assumes "length f = 5"
  shows "zipPrevEncodeLengthForceLarge (xs @ f @ ys) (length xs) n = Some (xs @ prev_field True n @ ys)"
proof -
  obtain b fs where f: "f = b # fs" "length fs = 4" using assms by (cases f) auto
  have "mem_write (xs @ 254 # fs @ ys) (Suc (length xs)) (le_bytes 4 (int n)) = Some (xs @ 254 # le_bytes 4 (int n) @ ys)"
    using f(2) by (simp add: mem_write_def)
  then show ?thesis using f
    by (simp add: zipPrevEncodeLengthForceLarge_def prev_field_def zip_consts mem_set_def list_update_append)
qed

lemma prev_size: "n < 2 ^ 32 \<Longrightarrow> zipPrevEncodeLength_size n = (if 254 \<le> n then 5 else 1)"
  by (simp add: zipPrevEncodeLength_size_def zip_consts)

end
