(* ===== verification/Ziplist_Ops.thy ===== *)
theory Ziplist_Ops
  imports Ziplist_Repr
begin

text \<open>
  The insertion of \<open>ziplist.c\<close>. Every entry records the size of the one before it, so a new entry may
  enlarge the size field of the next, and so on (\<open>__ziplistCascadeUpdate\<close>); the theorem \<open>ziplistInsert_correct\<close>
  says that the entries keep their values and their links, except in one case (\<open>insert_safe\<close>).
\<close>

section \<open>Blocks\<close>

text \<open>A block whose header describes some bytes followed by entries.\<close>

definition zl_block :: "int \<Rightarrow> byte list \<Rightarrow> zent list \<Rightarrow> byte list" where
  "zl_block c P es =
     zl_header (int (11 + length P + length (entries es))) (int (10 + length P + length (entries (butlast es)))) c @
     P @ entries es @ [ZIP_END]"

lemma zl_block_shift: "es \<noteq> [] \<Longrightarrow> zl_block c P (e # es) = zl_block c (P @ entry_bytes e) es"
  by (simp add: zl_block_def ac_simps)

lemma zl_block_append: "es \<noteq> [] \<Longrightarrow> zl_block c P (fs @ es) = zl_block c (P @ entries fs) es"
  by (induction fs arbitrary: P) (simp_all add: zl_block_shift)

text \<open>Every entry records the size of the one before it; the first one records \<open>n\<close>.\<close>

fun linked :: "nat \<Rightarrow> zent list \<Rightarrow> bool" where
  "linked n [] \<longleftrightarrow> True"
| "linked n ((lg, pv, s) # es) \<longleftrightarrow> pv = n \<and> linked (entry_size (lg, pv, s)) es"

definition zvals :: "zent list \<Rightarrow> byte list list" where
  "zvals es = map (\<lambda>(lg, pv, s). s) es"

lemma zvals_simps [simp]: "zvals [] = []" "zvals ((lg, pv, s) # es) = s # zvals es" "zvals (es @ fs) = zvals es @ zvals fs"
  "length (zvals es) = length es"
  by (simp_all add: zvals_def)

text \<open>What the cascade makes of the entries behind one whose size has become \<open>n\<close>.\<close>

fun cascade :: "nat \<Rightarrow> zent list \<Rightarrow> zent list" where
  "cascade n [] = []"
| "cascade n ((lg, pv, s) # es) =
     (if pv = n then (lg, pv, s) # es
      else if \<not> lg \<and> 254 \<le> n then (True, n, s) # cascade (entry_size (True, n, s)) es
      else (lg, n, s) # es)"

lemma cascade_zvals [simp]: "zvals (cascade n es) = zvals es"
  by (induction n es rule: cascade.induct) auto

lemma cascade_length [simp]: "length (cascade n es) = length es"
  by (induction n es rule: cascade.induct) auto

lemma cascade_growth: "length (entries (cascade n es)) \<le> length (entries es) + 4 * length es"
  by (induction n es rule: cascade.induct) auto

lemma linked_tail: "linked m (e # es) \<Longrightarrow> linked (entry_size e) es"
  by (cases e) auto

lemma entry_size_same: "entry_size (lg, pv, s) = entry_size (lg, pv', s)"
  by (simp add: entry_size_eq)

lemma cascade_linked:
  assumes "linked m es"
  shows "linked n (cascade n es)"
  using assms
proof (induction n es arbitrary: m rule: cascade.induct)
  case (2 n lg pv s es)
  then show ?case using entry_size_same [of lg pv s n] by auto
qed simp

lemma cascade_ok:
  assumes "list_all entry_ok es" "n < 2 ^ 32" "n + length (entries es) + 4 * length es < 2 ^ 32"
  shows "list_all entry_ok (cascade n es)"
  using assms
proof (induction n es rule: cascade.induct)
  case (2 n lg pv s es)
  then show ?case by (auto simp: entry_size_eq)
qed simp

lemma entries_ge: "2 * length es \<le> length (entries es)"
proof (induction es)
  case (Cons e es)
  then show ?case using entry_size_ge [of e] by (simp add: entry_size_def)
qed simp

lemma entries_butlast: "length (entries (butlast es)) \<le> length (entries es)"
  by (induction es) auto

section \<open>The cascade\<close>

text \<open>The next entry's size field grows from one byte to five.\<close>

lemma cascade_grow:
  fixes cur rest s pv c P
  defines "n \<equiv> entry_size cur"
    and "es \<equiv> cur # (False, pv, s) # rest"
    and "es' \<equiv> cur # (True, entry_size cur, s) # rest"
  assumes "254 \<le> n" "15 + length P + length (entries es) < 2 ^ 32"
  shows "(do {
     zl \<leftarrow> ziplistResize garb (zl_block c P es) (int (11 + length P + length (entries es)) + 4);
     tail \<leftarrow> ZIPLIST_TAIL_OFFSET zl;
     zl \<leftarrow> (if tail \<noteq> 10 + length P + n then set_TAIL_OFFSET zl (int tail + int 4) else Some zl);
     k \<leftarrow> signed_add (11 + length P + length (entries es)) (- int (10 + length P + n) - int 1 - 1);
     zl \<leftarrow> memmove zl (10 + length P + n + 5) (10 + length P + n + 1) k;
     (zl, _) \<leftarrow> zipPrevEncodeLength zl (10 + length P + n) n;
     f zl }) = f (zl_block c P es')"
proof -
  let ?L = "int (11 + length P + length (entries es)) + 4"
  let ?T = "int (10 + length P + length (entries (butlast es)))"
  let ?T' = "int (10 + length P + length (entries (butlast es')))"
  let ?B = "zip_body s @ entries rest"
  let ?X = "P @ entry_bytes cur"
  have nlen: "n = length (entry_bytes cur)" by (simp add: n_def entry_size_def)
  have block: "zl_block c P es = zl_header (int (11 + length P + length (entries es))) ?T c @ (?X @ prev_field False pv @ ?B) @ [ZIP_END]"
    by (simp add: zl_block_def es_def)
  obtain g where g: "length g = 4" "ziplistResize garb (zl_block c P es) ?L = Some (zl_header ?L ?T c @ ?X @ prev_field False pv @ ?B @ g @ [ZIP_END])"
    using resize_grow [of ?L "?X @ prev_field False pv @ ?B" 4 ZIP_END garb "int (11 + length P + length (entries es))" ?T c] assms(5)
    unfolding block by (auto simp: es_def)
  have tail: "ZIPLIST_TAIL_OFFSET (zl_header ?L ?T c @ r) = Some (10 + length P + length (entries (butlast es)))" for r
    using assms(5) entries_butlast [of es] by (intro header_get_nat) simp
  have neq: "(if 10 + length P + length (entries (butlast es)) \<noteq> 10 + length P + n
      then set_TAIL_OFFSET (zl_header ?L ?T c @ r) (?T + int 4) else Some (zl_header ?L ?T c @ r)) = Some (zl_header ?L ?T' c @ r)" for r
    by (cases rest) (auto simp: es_def es'_def nlen zip_body_def)
  have k: "signed_add (11 + length P + length (entries es)) (- int (10 + length P + n) - int 1 - 1) = Some (length ?B)"
    by (simp add: signed_add_def es_def nlen)
  let ?w = "take 5 (prev_field False pv @ ?B @ g)"
  have move: "memmove (zl_header ?L ?T' c @ ?X @ prev_field False pv @ ?B @ g @ [ZIP_END]) (10 + length P + n + 5) (10 + length P + n + 1) (length ?B) =
      Some (zl_header ?L ?T' c @ ?X @ ?w @ ?B @ [ZIP_END])"
    using memmove_right [of "zl_header ?L ?T' c @ ?X" "prev_field False pv" ?B g "[ZIP_END]"] g(1)
    by (simp add: nlen add.assoc)
  have w: "length ?w = zipPrevEncodeLength_size n" using assms(4,5) g(1) by (simp add: prev_size es_def nlen)
  have enc: "zipPrevEncodeLength (zl_header ?L ?T' c @ ?X @ ?w @ ?B @ [ZIP_END]) (10 + length P + n) n =
      Some (zl_header ?L ?T' c @ ?X @ prev_field True n @ ?B @ [ZIP_END], 5)"
    using write_prev_field [OF w, of "zl_header ?L ?T' c @ ?X" "?B @ [ZIP_END]"] assms(4,5)
    by (simp add: nlen es_def prev_size add.assoc)
  have "zl_header ?L ?T' c @ ?X @ prev_field True n @ ?B @ [ZIP_END] = zl_block c P es'"
    by (simp add: zl_block_def es'_def es_def n_def)
  then show ?thesis by (simp only: g(2) tail neq k move enc Option.bind.simps prod.case)
qed


text \<open>Reading the first entry of a block.\<close>

definition entry_info :: "nat \<Rightarrow> zent \<Rightarrow> zlentry" where
  "entry_info p e = (case e of (lg, pv, s) \<Rightarrow>
     \<lparr>e_prevrawlensize = (if lg then 5 else 1), e_prevrawlen = pv, e_lensize = body_lensize s, e_len = body_len s,
      e_headersize = (if lg then 5 else 1) + body_lensize s, e_encoding = body_enc s, e_p = p\<rparr>)"

lemma entry_info_size: "e_headersize (entry_info p e) + e_len (entry_info p e) = entry_size e"
  by (cases e) (simp add: entry_info_def entry_size_eq length_zip_body)

lemma block_prefix: obtains H where "length H = 10 + length P" "zl_block c P (e # es) = H @ entry_bytes e @ entries es @ [ZIP_END]"
  by (rule that [of "zl_header b t c @ P" for b t]) (simp_all add: zl_block_def del: entry_bytes.simps)

lemma block_get:
  assumes "entry_ok e"
  shows "\<exists>b. mem_get (zl_block c P (e # es)) (10 + length P) = Some b \<and> b \<noteq> ZIP_END"
proof -
  obtain H where "length H = 10 + length P" "zl_block c P (e # es) = H @ entry_bytes e @ entries es @ [ZIP_END]"
    by (rule block_prefix)
  then show ?thesis using mem_get_entry [OF assms, of H] by simp
qed

lemma block_end: "mem_get (zl_block c P es) (10 + length P + length (entries es)) = Some ZIP_END"
  using mem_get_shift [of "zl_header b t c @ P @ entries es" "[ZIP_END]" 0 for b t]
  by (simp add: zl_block_def add.assoc)

lemma block_zipEntry:
  assumes "entry_ok e"
  shows "zipEntry (zl_block c P (e # es)) (10 + length P) = Some (entry_info (10 + length P) e)"
proof -
  obtain lg pv s where e: "e = (lg, pv, s)" by (cases e)
  obtain H where "length H = 10 + length P" "zl_block c P (e # es) = H @ entry_bytes e @ entries es @ [ZIP_END]"
    by (rule block_prefix)
  then show ?thesis using zipEntry_entry [of lg pv s H] assms by (simp add: e entry_info_def)
qed

lemma block_raw:
  assumes "entry_ok e" "entry_size e < 2 ^ 32"
  shows "zipRawEntryLength (zl_block c P (e # es)) (10 + length P) = Some (entry_size e)"
proof -
  obtain H where "length H = 10 + length P" "zl_block c P (e # es) = H @ entry_bytes e @ entries es @ [ZIP_END]"
    by (rule block_prefix)
  then show ?thesis using zipRawEntryLength_entry [OF assms, of H] by simp
qed

text \<open>Writing the size field of an entry in place.\<close>

lemma write_field_block:
  assumes "lg \<longleftrightarrow> 254 \<le> n" "n < 2 ^ 32"
  shows "zipPrevEncodeLength (zl_block c P ((lg, pv, s) # es)) (10 + length P) n = Some (zl_block c P ((lg, n, s) # es), if lg then 5 else 1)"
proof -
  let ?H = "zl_header (int (11 + length P + length (entries ((lg, pv, s) # es)))) (int (10 + length P + length (entries (butlast ((lg, pv, s) # es))))) c"
  have "zl_block c P ((lg, x, s) # es) = (?H @ P) @ prev_field lg x @ zip_body s @ entries es @ [ZIP_END]" for x
    by (simp add: zl_block_def)
  moreover have "zipPrevEncodeLength ((?H @ P) @ prev_field lg pv @ zip_body s @ entries es @ [ZIP_END]) (length (?H @ P)) n =
      Some ((?H @ P) @ prev_field lg n @ zip_body s @ entries es @ [ZIP_END], zipPrevEncodeLength_size n)"
    using write_prev_field [of "prev_field lg pv" n "?H @ P"] assms by (simp add: prev_size)
  ultimately show ?thesis using assms by (simp add: prev_size)
qed

lemma force_field_block:
  "zipPrevEncodeLengthForceLarge (zl_block c P ((True, pv, s) # es)) (10 + length P) n = Some (zl_block c P ((True, n, s) # es))"
proof -
  let ?H = "zl_header (int (11 + length P + length (entries ((True, pv, s) # es)))) (int (10 + length P + length (entries (butlast ((True, pv, s) # es))))) c"
  have "zl_block c P ((True, x, s) # es) = (?H @ P) @ prev_field True x @ zip_body s @ entries es @ [ZIP_END]" for x
    by (simp add: zl_block_def)
  moreover have "zipPrevEncodeLengthForceLarge ((?H @ P) @ prev_field True pv @ zip_body s @ entries es @ [ZIP_END]) (length (?H @ P)) n =
      Some ((?H @ P) @ prev_field True n @ zip_body s @ entries es @ [ZIP_END])"
    using force_prev_field [of "prev_field True pv" "?H @ P"] by simp
  ultimately show ?thesis by simp
qed

lemma cascade_loop_correct:
  assumes "list_all entry_ok (cur # es)" "linked m es"
    "11 + length P + length (entries (cur # es)) + 4 * length es < 2 ^ 32"
  shows "cascade_loop garb (zl_block c P (cur # es)) (10 + length P) (11 + length P + length (entries (cur # es))) =
    Some (zl_block c P (cur # cascade (entry_size cur) es))"
  using assms
proof (induction es arbitrary: cur P m)
  case Nil
  let ?zl = "zl_block c P [cur]"
  have ok: "entry_ok cur" using Nil.prems by simp
  have raw: "u32 (e_headersize (entry_info (10 + length P) cur) + e_len (entry_info (10 + length P) cur)) = entry_size cur"
    using Nil.prems(3) by (simp add: entry_info_size entry_size_def)
  obtain b where "mem_get ?zl (10 + length P) = Some b" "b \<noteq> ZIP_END" using block_get [OF ok] by blast
  moreover have "mem_get ?zl (10 + length P + entry_size cur) = Some ZIP_END"
    using block_end [of c P "[cur]"] by (simp add: entry_size_def)
  ultimately show ?case using block_zipEntry [OF ok] raw by (subst cascade_loop.simps) (simp add: Let_def)
next
  case (Cons nxt es)
  obtain lg pv s where nxt: "nxt = (lg, pv, s)" by (cases nxt)
  let ?zl = "zl_block c P (cur # nxt # es)"
  let ?n = "entry_size cur"
  let ?L = "11 + length P + length (entries (cur # nxt # es))"
  let ?P = "P @ entry_bytes cur"
  have ok: "entry_ok cur" "entry_ok nxt" using Cons.prems by simp_all
  have pos: "10 + length ?P = 10 + length P + ?n" by (simp add: entry_size_def)
  have shift: "zl_block c P (cur # e # es') = zl_block c ?P (e # es')" for e es' by (rule zl_block_shift) simp
  have n32: "?n < 2 ^ 32" using Cons.prems(3) by (simp add: entry_size_def)
  have raw: "u32 (e_headersize (entry_info (10 + length P) cur) + e_len (entry_info (10 + length P) cur)) = ?n"
    using n32 by (simp add: entry_info_size)
  obtain b b' where b: "mem_get ?zl (10 + length P) = Some b" "b \<noteq> ZIP_END"
    "mem_get ?zl (10 + length P + ?n) = Some b'" "b' \<noteq> ZIP_END"
    using block_get [OF ok(1), of c P "nxt # es"] block_get [OF ok(2), of c ?P es] unfolding pos shift by blast
  have info: "zipEntry ?zl (10 + length P + ?n) = Some (entry_info (10 + length P + ?n) nxt)"
    using block_zipEntry [OF ok(2), of c ?P es] unfolding pos shift .
  note start = b info block_zipEntry [OF ok(1), of c P "nxt # es"] raw
  consider "pv = ?n" | "pv \<noteq> ?n" "\<not> lg" "254 \<le> ?n" | "pv \<noteq> ?n" "lg" "?n < 254" | "pv \<noteq> ?n" "lg \<longleftrightarrow> 254 \<le> ?n"
    by linarith
  then show ?case
  proof cases
    case 1
    then show ?thesis using start by (subst cascade_loop.simps) (simp add: Let_def nxt entry_info_def)
  next
    case 2
    let ?nxt = "(True, ?n, s)"
    have nxt': "nxt = (False, pv, s)" using 2 nxt by simp
    have "cascade_loop garb (zl_block c ?P (?nxt # es)) (10 + length ?P) (11 + length ?P + length (entries (?nxt # es))) =
        Some (zl_block c ?P (?nxt # cascade (entry_size ?nxt) es))"
      by (rule Cons.IH) (use Cons.prems n32 2 nxt in \<open>auto simp: entry_size_def\<close>)
    moreover have "cascade_loop garb ?zl (10 + length P) ?L = (do {
       zl \<leftarrow> ziplistResize garb ?zl (int ?L + 4);
       tail \<leftarrow> ZIPLIST_TAIL_OFFSET zl;
       zl \<leftarrow> (if tail \<noteq> 10 + length P + ?n then set_TAIL_OFFSET zl (int tail + int 4) else Some zl);
       k \<leftarrow> signed_add ?L (- int (10 + length P + ?n) - int 1 - 1);
       zl \<leftarrow> memmove zl (10 + length P + ?n + 5) (10 + length P + ?n + 1) k;
       (zl, _) \<leftarrow> zipPrevEncodeLength zl (10 + length P + ?n) ?n;
       cascade_loop garb zl (10 + length P + ?n) (?L + 4) })"
      using start 2 n32 by (subst cascade_loop.simps) (simp add: Let_def nxt entry_info_def prev_size)
    moreover have "\<dots> = cascade_loop garb (zl_block c P (cur # ?nxt # es)) (10 + length P + ?n) (?L + 4)"
      unfolding nxt' by (rule cascade_grow) (use Cons.prems(3) 2 nxt in auto)
    moreover have "11 + length ?P + length (entries (?nxt # es)) = ?L + 4" by (simp add: nxt')
    ultimately show ?thesis using 2 pos shift by (simp only: nxt cascade.simps if_False if_True simp_thms)
  next
    case 3
    then show ?thesis using start force_field_block [of c ?P pv s es ?n, unfolded pos] shift n32
      by (subst cascade_loop.simps) (simp add: Let_def nxt entry_info_def prev_size)
  next
    case 4
    then show ?thesis using start write_field_block [of lg ?n c ?P pv s es, unfolded pos] shift n32
      by (subst cascade_loop.simps) (simp add: Let_def nxt entry_info_def prev_size)
  qed
qed


lemma cascade_update:
  assumes "list_all entry_ok (cur # es)" "linked m es"
    "11 + length P + length (entries (cur # es)) + 4 * length es < 2 ^ 32"
  shows "ziplistCascadeUpdate garb (zl_block c P (cur # es)) (10 + length P) =
    Some (zl_block c P (cur # cascade (entry_size cur) es))"
proof -
  have "ZIPLIST_BYTES (zl_block c P (cur # es)) = Some (11 + length P + length (entries (cur # es)))"
    unfolding zl_block_def by (rule header_get_nat) (use assms(3) in simp)
  then show ?thesis using cascade_loop_correct [OF assms] by (simp add: ziplistCascadeUpdate_def del: entries_simps)
qed

lemma cascade_id: "linked n es \<Longrightarrow> cascade n es = es"
  by (cases es) auto

section \<open>Insertion\<close>

definition last_size :: "zent list \<Rightarrow> nat" where
  "last_size es = (if es = [] then 0 else entry_size (last es))"

lemma linked_append: "linked n (es @ fs) \<longleftrightarrow> linked n es \<and> linked (if es = [] then n else entry_size (last es)) fs"
  by (induction n es rule: linked.induct) auto

lemma entry_size_le: "e \<in> set es \<Longrightarrow> entry_size e \<le> length (entries es)"
  by (induction es) (auto simp: entry_size_def)

lemma insert_prevlen_block:
  assumes "list_all entry_ok (A @ es)" "linked 0 (A @ es)" "11 + length (entries (A @ es)) < 2 ^ 32"
  shows "insert_prevlen (zl_block c [] (A @ es)) (10 + length (entries A)) = Some (last_size A)"
proof (cases es)
  case (Cons e rest)
  obtain lg pv s where e: "e = (lg, pv, s)" by (cases e)
  have zl: "zl_block c [] (A @ es) = zl_block c (entries A) (e # rest)"
    using zl_block_append [of es c "[]" A] Cons by simp
  have ok: "entry_ok e" using assms Cons by simp
  obtain b where b: "mem_get (zl_block c [] (A @ es)) (10 + length (entries A)) = Some b" "b \<noteq> ZIP_END"
    using block_get [OF ok, of c "entries A" rest] zl by auto
  have "pv = last_size A" using assms(2) Cons e by (simp add: linked_append last_size_def)
  moreover obtain H where "length H = 10 + length (entries A)" "zl_block c [] (A @ es) = H @ entry_bytes e @ entries rest @ [ZIP_END]"
    unfolding zl by (rule block_prefix)
  ultimately have "ZIP_DECODE_PREVLEN (zl_block c [] (A @ es)) (10 + length (entries A)) = Some (if lg then 5 else 1, last_size A)"
    using ZIP_DECODE_PREVLEN_shift [of H _ 0] decode_prevlen [of pv lg "zip_body s @ entries rest @ [ZIP_END]"] ok e by simp
  then show ?thesis using b by (simp add: insert_prevlen_def)
next
  case Nil
  have at_end: "mem_get (zl_block c [] A) (10 + length (entries A)) = Some ZIP_END"
    using block_end [of c "[]" A] by simp
  have tail: "ZIPLIST_ENTRY_TAIL (zl_block c [] A) = Some (10 + length (entries (butlast A)))"
    unfolding zl_block_def ZIPLIST_ENTRY_TAIL_def using assms(3) entries_butlast [of A] Nil
    by (subst header_get_nat) auto
  show ?thesis
  proof (cases A rule: rev_cases)
    case 1: Nil
    then show ?thesis using at_end tail Nil by (simp add: insert_prevlen_def last_size_def)
  next
    case (snoc A' l)
    have ok: "entry_ok l" "entry_size l < 2 ^ 32" using assms Nil snoc by (auto simp: entry_size_def)
    have zl: "zl_block c [] A = zl_block c (entries A') [l]" using zl_block_append [of "[l]" c "[]" A'] snoc by simp
    obtain b where b: "mem_get (zl_block c [] A) (10 + length (entries A')) = Some b" "b \<noteq> ZIP_END"
      using block_get [OF ok(1), of c "entries A'" "[]"] zl by auto
    have "zipRawEntryLength (zl_block c [] A) (10 + length (entries A')) = Some (entry_size l)"
      using block_raw [OF ok, of c "entries A'" "[]"] zl by simp
    then show ?thesis using b at_end tail Nil snoc by (simp add: insert_prevlen_def last_size_def)
  qed
qed


text \<open>A block with a gap of raw bytes where a new entry will be written.\<close>

definition zl_gap :: "int \<Rightarrow> byte list \<Rightarrow> byte list \<Rightarrow> zent list \<Rightarrow> byte list" where
  "zl_gap c P w es =
     zl_header (int (11 + length P + length w + length (entries es)))
       (int (10 + length P + (if es = [] then 0 else length w + length (entries (butlast es))))) c @
     P @ w @ entries es @ [ZIP_END]"

lemma zl_gap_block: "es \<noteq> [] \<Longrightarrow> zl_gap c P w es = zl_block c (P @ w) es"
  by (simp add: zl_gap_def zl_block_def ac_simps)

lemma zl_gap_filled: "length w = entry_size e \<Longrightarrow> zl_block c P (e # es) =
    zl_header (int (11 + length P + length w + length (entries es)))
       (int (10 + length P + (if es = [] then 0 else length w + length (entries (butlast es))))) c @
     P @ entry_bytes e @ entries es @ [ZIP_END]"
  by (simp add: zl_block_def entry_size_def add.assoc)

lemma room_at_end:
  assumes "11 + length (entries A) + k < 2 ^ 32" "0 < k"
  shows "\<exists>w. length w = k \<and>
    insert_room garb (zl_block c [] A) (10 + length (entries A)) (11 + length (entries A)) k 0 = Some (zl_gap c (entries A) w [])"
proof -
  let ?L = "int (11 + length (entries A) + k)"
  obtain g where g: "length g = k" "hd g = ZIP_END"
    "ziplistResize garb (zl_block c [] A) ?L = Some (zl_header ?L (int (10 + length (entries (butlast A)))) c @ entries A @ g @ [ZIP_END])"
    using resize_grow [of ?L "entries A" k ZIP_END garb "int (11 + length (entries A))" "int (10 + length (entries (butlast A)))" c]
      assms unfolding zl_block_def by auto
  have "mem_get ((H @ entries A) @ g @ [ZIP_END]) (length (H @ entries A) + 0) = Some ZIP_END" for H
    unfolding mem_get_shift using g assms(2) by (cases g) auto
  then have "mem_get (zl_header ?L t c @ entries A @ g @ [ZIP_END]) (10 + length (entries A)) = Some ZIP_END" for t
    by (metis append.assoc length_append length_zl_header add_0_right)
  then show ?thesis using g by (intro exI [of _ g]) (simp add: insert_room_def zl_gap_def)
qed

text \<open>The move of the following entries, for each change of the first one's size field: \<open>f\<close> is the old field.\<close>

lemma room_move:
  fixes Y f B g :: "byte list"
  assumes g: "int (length g) = int k + nd" and nd: "nd = int m - int (length f)" and m: "m \<in> {1, 5}" "length f \<in> {1, 5}"
    and Y: "4 \<le> length Y" and room: "- nd \<le> int k"
  shows "\<exists>w f'. length w = k \<and> length f' = m \<and>
    (do { src \<leftarrow> signed_add (length Y) (- nd);
          n \<leftarrow> signed_add (length (Y @ f @ B) + 1) (- int (length Y) - 1 + nd);
          memmove (Y @ f @ B @ g @ [z]) (length Y + k) src n }) = Some (Y @ w @ f' @ B @ [z])"
proof -
  let ?run = "do { src \<leftarrow> signed_add (length Y) (- nd);
      n \<leftarrow> signed_add (length (Y @ f @ B) + 1) (- int (length Y) - 1 + nd);
      memmove (Y @ f @ B @ g @ [z]) (length Y + k) src n }"
  consider "nd = 0" "length f = m" | "nd = 4" "length f = 1" "m = 5" | "nd = - 4" "length f = 5" "m = 1" using nd m by auto
  then show ?thesis
  proof cases
    case 1
    then have "length g = k" "signed_add (length (Y @ f @ B) + 1) (- int (length Y) - 1 + nd) = Some (length (f @ B))"
      "signed_add (length Y) (- nd) = Some (length Y)"
      using g by (simp_all add: signed_add_def)
    then have "?run = Some (Y @ take k (f @ B @ g) @ f @ B @ [z])" "length (take k (f @ B @ g)) = k"
      using memmove_right [of Y "[]" "f @ B" g "[z]"] by simp_all
    with 1 show ?thesis by blast
  next
    case 2
    define Y' j where "Y' = take (length Y - 4) Y" and "j = drop (length Y - 4) Y"
    have split: "Y = Y' @ j" "length j = 4" using Y by (simp_all add: Y'_def j_def)
    have "length g = k + 4" "signed_add (length (Y @ f @ B) + 1) (- int (length Y) - 1 + nd) = Some (length (j @ f @ B))"
      "signed_add (length Y) (- nd) = Some (length Y')"
      using g 2 split by (simp_all add: signed_add_def)
    then have "?run = Some (Y @ take k (f @ B @ g) @ (j @ f) @ B @ [z])" "length (take k (f @ B @ g)) = k" "length (j @ f) = m"
      using memmove_right [of Y' "[]" "j @ f @ B" g "[z]"] split 2 by (simp_all add: add.commute add.left_commute)
    then show ?thesis by blast
  next
    case 3
    define f0 f1 where "f0 = take 4 f" and "f1 = drop 4 f"
    have split: "f = f0 @ f1" "length f0 = 4" "length f1 = 1" using 3 by (simp_all add: f0_def f1_def)
    have "4 + length g = k" "signed_add (length (Y @ f @ B) + 1) (- int (length Y) - 1 + nd) = Some (length (f1 @ B))"
      "signed_add (length Y) (- nd) = Some (length Y + length f0)"
      using g 3 split room by (simp_all add: signed_add_def)
    then have "?run = Some (Y @ take k (f @ B @ g) @ f1 @ B @ [z])" "length (take k (f @ B @ g)) = k"
      using memmove_right [of Y f0 "f1 @ B" g "[z]"] split by (simp_all add: add.assoc)
    then show ?thesis using split 3 by blast
  qed
qed


text \<open>The byte behind an entry is the end marker exactly for the last one.\<close>

lemma mem_get_behind:
  assumes "list_all entry_ok es"
  shows "\<exists>b. mem_get (X @ entries es @ [ZIP_END]) (length X) = Some b \<and> (b = ZIP_END \<longleftrightarrow> es = [])"
proof (cases es)
  case Nil
  then show ?thesis using mem_get_shift [of X "[ZIP_END]" 0] by simp
next
  case (Cons e rest)
  then show ?thesis using mem_get_entry [of e X "entries rest @ [ZIP_END]"] assms by auto
qed

text \<open>The update of the tail offset: by \<open>h\<close>, and by \<open>nd\<close> more unless the entry at the end of \<open>Q\<close> is the last one.\<close>

lemma tail_fix:
  assumes "list_all entry_ok (e # R)" "t < 2 ^ 32" "0 \<le> h t" "h t < 2 ^ 32"
  shows "(do {
     u \<leftarrow> ZIPLIST_TAIL_OFFSET (zl_header b (int t) c @ Q @ entry_bytes e @ entries R @ [ZIP_END]);
     zl \<leftarrow> set_TAIL_OFFSET (zl_header b (int t) c @ Q @ entry_bytes e @ entries R @ [ZIP_END]) (h u);
     tail \<leftarrow> zipEntry zl (10 + length Q);
     x \<leftarrow> mem_get zl (10 + length Q + (e_headersize tail + e_len tail));
     zl \<leftarrow> (if x \<noteq> ZIP_END then do { t \<leftarrow> ZIPLIST_TAIL_OFFSET zl; set_TAIL_OFFSET zl (int t + nd) } else Some zl);
     F zl }) = F (zl_header b (h t + (if R = [] then 0 else nd)) c @ Q @ entry_bytes e @ entries R @ [ZIP_END])"
proof -
  let ?r = "Q @ entry_bytes e @ entries R @ [ZIP_END]"
  obtain lg pv s where e: "e = (lg, pv, s)" by (cases e)
  have entry: "zipEntry (zl_header b (h t) c @ ?r) (10 + length Q) = Some (entry_info (10 + length Q) e)"
    using zipEntry_entry [of lg pv s "zl_header b (h t) c @ Q" "entries R @ [ZIP_END]"] assms(1) e by (simp add: entry_info_def)
  obtain x where x: "mem_get (zl_header b (h t) c @ ?r) (10 + length Q + entry_size e) = Some x" "x = ZIP_END \<longleftrightarrow> R = []"
    using mem_get_behind [of R "zl_header b (h t) c @ Q @ entry_bytes e"] assms(1) by (auto simp: entry_size_def add.assoc)
  show ?thesis using assms(2-4) by (simp add: header_get_nat entry entry_info_size x)
qed

lemma room_before:
  fixes lg pv s R P k
  defines "N \<equiv> (lg, pv, s)" and "lg' \<equiv> 254 \<le> k"
  defines "nd \<equiv> int (if lg' then 5 else 1) - int (if lg then 5 else 1)"
  assumes ok: "list_all entry_ok (N # R)" and size: "15 + length P + length (entries (N # R)) + k < 2 ^ 32" and room: "- nd \<le> int k"
  shows "\<exists>w. length w = k \<and>
    insert_room garb (zl_block c P (N # R)) (10 + length P) (11 + length P + length (entries (N # R))) k nd =
      Some (zl_gap c P w ((lg', k, s) # R))"
proof -
  define f B m where "f = prev_field lg pv" and "B = zip_body s @ entries R" and "m = (if lg' then 5 else 1 :: nat)"
  define C t where "C = 11 + length P + length (entries (N # R))" and "t = 10 + length P + length (entries (butlast (N # R)))"
  define L where "L = int C + int k + nd"
  define Y where "Y = zl_header L (int t) c @ P"
  have lens: "length Y = 10 + length P" "length f = (if lg then 5 else 1)" "length (Y @ f @ B) + 1 = C"
    by (simp_all add: Y_def f_def B_def C_def N_def)
  have nat_k: "int (nat (int k + nd)) = int k + nd" using room by simp
  have nd: "nd = int m - int (length f)" "m \<in> {1, 5}" "length f \<in> {1, 5}" by (simp_all add: nd_def m_def lens)
  have L32: "L < 2 ^ 32" "L = int (11 + length (P @ f @ B) + nat (int k + nd))"
    using size nat_k nd by (auto simp: L_def C_def N_def f_def B_def)
  have zl: "zl_block c P (N # R) = zl_header (int C) (int t) c @ (P @ f @ B) @ [ZIP_END]"
    by (simp add: zl_block_def C_def t_def f_def B_def N_def)
  obtain g where g: "length g = nat (int k + nd)"
    "ziplistResize garb (zl_block c P (N # R)) L = Some (Y @ f @ B @ g @ [ZIP_END])"
    using resize_grow [OF L32(2,1), of ZIP_END garb "int C" "int t" c] unfolding zl Y_def by auto
  have NB: "X @ f @ B @ r = X @ entry_bytes N @ entries R @ r" for X r by (simp add: N_def f_def B_def)
  obtain b where b: "mem_get (Y @ f @ B @ g @ [ZIP_END]) (10 + length P) = Some b" "b \<noteq> ZIP_END"
    using mem_get_entry [of N Y "entries R @ g @ [ZIP_END]"] ok unfolding NB lens by auto
  obtain w f' where w: "length w = k" "length f' = m"
    "(do { src \<leftarrow> signed_add (10 + length P) (- nd);
           n \<leftarrow> signed_add C (- int (10 + length P) - 1 + nd);
           memmove (Y @ f @ B @ g @ [ZIP_END]) (10 + length P + k) src n }) = Some (Y @ w @ f' @ B @ [ZIP_END])"
    using room_move [of g k nd m f Y B ZIP_END, unfolded lens(1,3)] g(1) nat_k room nd by auto
  from w(3) obtain src n where sn: "signed_add (10 + length P) (- nd) = Some src"
    "signed_add C (- int (10 + length P) - 1 + nd) = Some n"
    "memmove (Y @ f @ B @ g @ [ZIP_END]) (10 + length P + k) src n = Some (Y @ w @ f' @ B @ [ZIP_END])"
    unfolding bind_eq_Some_conv by blast
  let ?N = "(lg', k, s)"
  have k32: "k < 2 ^ 32" "m = zipPrevEncodeLength_size k" using size by (simp_all add: prev_size m_def lg'_def)
  have enc: "zipPrevEncodeLength (Y @ w @ f' @ B @ [ZIP_END]) (10 + length P + k) k =
      Some (Y @ w @ entry_bytes ?N @ entries R @ [ZIP_END], m)"
    using write_prev_field [of f' k "Y @ w" "B @ [ZIP_END]"] w k32 lens(1) by (simp add: lg'_def B_def)
  let ?h = "\<lambda>t. int t + int k"
  have t32: "t < 2 ^ 32" "?h t < 2 ^ 32" using size entries_butlast [of "N # R"] by (simp_all add: t_def del: butlast.simps entries_simps)
  have ok': "list_all entry_ok (?N # R)" using ok k32 by (simp add: N_def lg'_def)
  have fix_: "(do {
     u \<leftarrow> ZIPLIST_TAIL_OFFSET (Y @ w @ entry_bytes ?N @ entries R @ [ZIP_END]);
     zl \<leftarrow> set_TAIL_OFFSET (Y @ w @ entry_bytes ?N @ entries R @ [ZIP_END]) (?h u);
     tail \<leftarrow> zipEntry zl (10 + length P + k);
     x \<leftarrow> mem_get zl (10 + length P + k + (e_headersize tail + e_len tail));
     if x \<noteq> ZIP_END then do { t \<leftarrow> ZIPLIST_TAIL_OFFSET zl; set_TAIL_OFFSET zl (int t + nd) } else Some zl }) =
     Some (zl_header L (?h t + (if R = [] then 0 else nd)) c @ (P @ w) @ entry_bytes ?N @ entries R @ [ZIP_END])"
    using tail_fix [where F = Some and Q = "P @ w" and h = ?h, OF ok' t32(1) _ t32(2), of L c nd]
    by (simp add: Y_def w(1) add.assoc del: entry_bytes.simps)
  have "zl_header L (?h t + (if R = [] then 0 else nd)) c @ (P @ w) @ entry_bytes ?N @ entries R @ [ZIP_END] = zl_gap c P w (?N # R)"
    by (simp add: zl_gap_def w(1) L_def C_def t_def N_def nd_def ac_simps)
  then have "insert_room garb (zl_block c P (N # R)) (10 + length P) C k nd = Some (zl_gap c P w (?N # R))"
    unfolding insert_room_def g(2) [unfolded L_def] Option.bind.simps b(1) if_P [OF b(2)] sn enc prod.case using fix_ by simp
  then show ?thesis using w(1) unfolding C_def by blast
qed


text \<open>The value and the encoding \<open>__ziplistInsert\<close> settles on, and the bytes they need.\<close>

definition insert_code :: "byte list \<Rightarrow> int \<times> byte \<times> nat" where
  "insert_code s = (case zipTryEncoding s of Some (v, e) \<Rightarrow> (v, e, zipIntSize e) | None \<Rightarrow> (123456789, 0, length s))"

lemma insert_code_size:
  assumes "insert_code s = (v, e, r)" "pr < 2 ^ 32"
  shows "r + zipPrevEncodeLength_size pr + zipEncodeLength_size e (length s) = entry_size (254 \<le> pr, pr, s)"
proof (cases "zipTryEncoding s")
  case None
  then show ?thesis using assms
    by (simp add: insert_code_def entry_size_eq length_zip_body body_len_def body_lensize_def prev_size)
next
  case (Some x)
  then show ?thesis using assms int_enc_not_str [of s "fst x" "snd x"]
    by (cases x) (auto simp: insert_code_def entry_size_eq length_zip_body body_len_def body_lensize_def prev_size zipEncodeLength_size_def)
qed

lemma mem_write_mid: "length zs = length ys \<Longrightarrow> mem_write (X @ zs @ Y) (length X) ys = Some (X @ ys @ Y)"
  by (simp add: mem_write_def)

lemma save_payload:
  assumes "zipTryEncoding s = Some (v, e)" "length w = zipIntSize e"
  shows "zipSaveInteger (X @ w @ Y) (length X) v e = Some (X @ int_payload v e @ Y)"
proof -
  have len: "length w = length (int_payload v e)" using assms(2) by (simp add: length_int_payload)
  note wr = mem_write_mid [OF len, of X Y]
  show ?thesis using assms(1)
  proof (cases rule: zipTryEncoding_cases)
    case 1
    then show ?thesis using imm_cases [OF 1(1,2)] imm_enc_neq [OF imm_cases(1) [OF 1(1,2)]] assms(2)
      by (simp add: zipSaveInteger_def int_payload_def zipIntSize_def)
  next
    case 2
    then obtain b where "w = [b]" using assms(2) by (auto simp: zipIntSize_def length_Suc_conv)
    then show ?thesis using 2 by (simp add: zipSaveInteger_def int_payload_def mem_set_def list_update_append)
  qed (use wr in \<open>simp_all add: zipSaveInteger_def int_payload_def zip_consts\<close>)
qed

lemma write_body:
  assumes "insert_code s = (v, e, r)" "length w = length (zip_body s)"
  shows "(do { (zl, n) \<leftarrow> zipEncodeLength (X @ w @ Y) (length X) e (length s);
      if ZIP_IS_STR e then mem_write zl (length X + n) s else zipSaveInteger zl (length X + n) v e }) = Some (X @ zip_body s @ Y)"
proof -
  define h w1 w2 where "h = zipEncodeLength_buf e (length s)" and "w1 = take (body_lensize s) w" and "w2 = drop (body_lensize s) w"
  have size: "zipEncodeLength_size e (length s) = length h" "length h = body_lensize s"
    using assms(1) int_enc_not_str [of s v e]
    by (auto simp: h_def zipEncodeLength_buf_def zipEncodeLength_size_def body_lensize_def insert_code_def split: option.splits prod.splits)
  have w: "w = w1 @ w2" "length w1 = length h" "length w2 = body_len s"
    using assms(2) size by (simp_all add: w1_def w2_def length_zip_body)
  have head: "zipEncodeLength (X @ w @ Y) (length X) e (length s) = Some (X @ h @ w2 @ Y, length h)"
    using mem_write_mid [of w1 h X "w2 @ Y"] w by (simp add: zipEncodeLength_def size(1) flip: h_def)
  show ?thesis
  proof (cases "zipTryEncoding s")
    case None
    then have "e = 0" using assms(1) by (simp add: insert_code_def)
    then show ?thesis using mem_write_mid [of w2 s "X @ h" Y] w None unfolding head Option.bind.simps prod.case
      by (simp add: body_len_def zip_body_def h_def)
  next
    case (Some x)
    then have se: "zipTryEncoding s = Some (v, e)" using assms(1) by (auto simp: insert_code_def split: prod.splits)
    then have "h = [e]" using int_enc_not_str [OF se] by (simp add: h_def zipEncodeLength_buf_def)
    then show ?thesis using save_payload [OF se, of w2 "X @ h" Y] w(3) se int_enc_not_str [OF se]
      unfolding head Option.bind.simps prod.case by (simp add: body_len_def zip_body_def)
  qed
qed

lemma insert_write_gap:
  assumes "insert_code s = (v, e, r)" "length w = entry_size (254 \<le> pr, pr, s)" "pr < 2 ^ 32" "0 \<le> c" "c < 65536"
  shows "insert_write (zl_gap c P w es) (10 + length P) pr e v s =
    Some (zl_block (if c < 65535 then c + 1 else c) P ((254 \<le> pr, pr, s) # es))"
proof -
  define H where "H c = zl_header (int (11 + length P + length w + length (entries es)))
       (int (10 + length P + (if es = [] then 0 else length w + length (entries (butlast es))))) c" for c
  let ?z = "zipPrevEncodeLength_size pr"
  let ?r = "entries es @ [ZIP_END]"
  let ?X = "H c @ P"
  let ?f = "prev_field (254 \<le> pr) pr"
  define w1 w2 where "w1 = take ?z w" and "w2 = drop ?z w"
  have w: "w = w1 @ w2" "length w1 = ?z" "length w2 = length (zip_body s)"
    using assms(2,3) by (simp_all add: w1_def w2_def entry_size_eq prev_size)
  have X: "length ?X = 10 + length P" "length (?X @ ?f) = 10 + length P + ?z" using assms(3) by (simp_all add: H_def prev_size)
  have gap: "zl_gap c P w es = ?X @ w1 @ w2 @ ?r" using w(1) by (simp add: zl_gap_def H_def)
  have "zipPrevEncodeLength (?X @ w1 @ w2 @ ?r) (10 + length P) pr = Some (?X @ ?f @ w2 @ ?r, ?z)"
    using write_prev_field [OF w(2) assms(3), of ?X "w2 @ ?r"] X(1) by simp
  moreover have body: "(do { (zl, n) \<leftarrow> zipEncodeLength (?X @ ?f @ w2 @ ?r) (10 + length P + ?z) e (length s);
      if ZIP_IS_STR e then mem_write zl (10 + length P + ?z + n) s else zipSaveInteger zl (10 + length P + ?z + n) v e }) =
      Some (?X @ ?f @ zip_body s @ ?r)"
    using write_body [OF assms(1) w(3), of "?X @ ?f" ?r] unfolding X(2) by simp
  moreover have "ZIPLIST_INCR_LENGTH (?X @ ?f @ zip_body s @ ?r) 1 = Some (zl_block (if c < 65535 then c + 1 else c) P ((254 \<le> pr, pr, s) # es))"
    using incr_length [OF assms(4,5)] by (simp add: H_def zl_gap_filled [OF assms(2)])
  moreover from body obtain zl n where "zipEncodeLength (?X @ ?f @ w2 @ ?r) (10 + length P + ?z) e (length s) = Some (zl, n)"
    "(if ZIP_IS_STR e then mem_write zl (10 + length P + ?z + n) s else zipSaveInteger zl (10 + length P + ?z + n) v e) =
      Some (?X @ ?f @ zip_body s @ ?r)"
    unfolding bind_eq_Some_conv by auto
  ultimately show ?thesis unfolding insert_write_def gap Let_def by (simp only: Option.bind.simps prod.case)
qed


text \<open>
  The invariant of a ziplist's entries and count. A count of 65535 stands for any number; the first
  entry records 0, in one byte.
\<close>

definition zl_inv :: "int \<Rightarrow> zent list \<Rightarrow> bool" where
  "zl_inv c es \<longleftrightarrow> list_all entry_ok es \<and> linked 0 es \<and> (es \<noteq> [] \<longrightarrow> \<not> fst (hd es)) \<and>
     0 \<le> c \<and> c \<le> 65535 \<and> (c < 65535 \<longrightarrow> c = int (length es))"

text \<open>
  The one case the insertion does not survive: the entry behind has the large size field, and the new one
  is shorter than the four bytes that field shrinks by.
\<close>

definition insert_safe :: "zent list \<Rightarrow> byte list \<Rightarrow> zent list \<Rightarrow> bool" where
  "insert_safe A s B \<longleftrightarrow> (B \<noteq> [] \<and> fst (hd B) \<longrightarrow> 4 \<le> entry_size (254 \<le> last_size A, last_size A, s))"

lemma zip_body_le: "length (zip_body s) \<le> length s + 9"
proof (cases "zipTryEncoding s")
  case (Some x)
  then show ?thesis by (cases x) (simp add: zip_body_def length_int_payload zipIntSize_def)
qed (simp add: zip_body_def zipEncodeLength_buf_def)

lemma entry_size_bound: "entry_size (lg, pv, s) \<le> length s + 14"
  using zip_body_le [of s] by (simp add: entry_size_eq)

lemma last_size_bound: "last_size A \<le> length (entries A)"
  using entry_size_le [of "last A" A] by (simp add: last_size_def)

text \<open>The entries behind a place where the entry before them now has size \<open>n\<close>.\<close>

definition relink :: "nat \<Rightarrow> zent list \<Rightarrow> zent list" where
  "relink n B = (case B of [] \<Rightarrow> [] | (lg, pv, t) # R \<Rightarrow> (254 \<le> n, n, t) # cascade (entry_size (254 \<le> n, n, t)) R)"

lemma relink_props:
  assumes "list_all entry_ok B" "linked m B" "n < 2 ^ 31" "length (entries B) < 2 ^ 30"
  shows "list_all entry_ok (relink n B)" "linked n (relink n B)" "zvals (relink n B) = zvals B" "length (relink n B) = length B"
    "length (entries (relink n B)) \<le> length (entries B) + 4 * length B"
proof -
  have "list_all entry_ok (relink n B) \<and> linked n (relink n B) \<and> zvals (relink n B) = zvals B \<and> length (relink n B) = length B \<and>
      length (entries (relink n B)) \<le> length (entries B) + 4 * length B"
  proof (cases B)
    case (Cons N R)
    obtain lg pv t where N: "N = (lg, pv, t)" by (cases N)
    let ?N = "(254 \<le> n, n, t)"
    have l: "linked (entry_size N) R" "list_all entry_ok R" "length t < 2 ^ 32"
      using assms(1,2) Cons N by auto
    have "entry_size ?N + length (entries R) + 4 * length R < 2 ^ 32"
      using assms(4) Cons N entries_ge [of R] by (auto simp: entry_size_eq)
    then show ?thesis using Cons N l assms(3) cascade_linked [OF l(1)] cascade_ok [OF l(2), of "entry_size ?N"] cascade_growth [of "entry_size ?N" R]
      by (auto simp: relink_def entry_size_eq)
  qed (simp add: relink_def)
  then show "list_all entry_ok (relink n B)" "linked n (relink n B)" "zvals (relink n B) = zvals B" "length (relink n B) = length B"
    "length (entries (relink n B)) \<le> length (entries B) + 4 * length B" by simp_all
qed

lemma insert_inv:
  assumes "zl_inv c (A @ B)" "length (entries (A @ B)) + length s < 2 ^ 30"
    and new: "new = (254 \<le> last_size A, last_size A, s)"
  shows "zl_inv (if c < 65535 then c + 1 else c) (A @ new # relink (entry_size new) B)" "zvals (relink (entry_size new) B) = zvals B"
    "length (entries (relink (entry_size new) B)) \<le> length (entries B) + 4 * length B"
proof -
  have ps: "last_size A < 2 ^ 32" using last_size_bound [of A] assms(2) by simp
  have ks: "entry_size new < 2 ^ 31" unfolding new using entry_size_bound [of "254 \<le> last_size A" "last_size A" s] assms(2) by simp
  have "list_all entry_ok B" "linked (last_size A) B" "length (entries B) < 2 ^ 30"
    using assms(1,2) by (auto simp: zl_inv_def linked_append last_size_def split: if_splits)
  note B = relink_props [OF this(1,2) ks this(3)]
  show "zl_inv (if c < 65535 then c + 1 else c) (A @ new # relink (entry_size new) B)" "zvals (relink (entry_size new) B) = zvals B"
    "length (entries (relink (entry_size new) B)) \<le> length (entries B) + 4 * length B"
    using assms(1,2) ps B by (auto simp: zl_inv_def linked_append new last_size_def split: if_splits)
qed

lemma delete_inv:
  assumes "zl_inv c (A @ D @ B)" "length (entries (A @ D @ B)) < 2 ^ 30"
  shows "zl_inv (if c < 65535 then c - int (length D) else c) (A @ relink (last_size A) B)" "zvals (relink (last_size A) B) = zvals B"
    "length (entries (relink (last_size A) B)) \<le> length (entries B) + 4 * length B"
proof -
  have "last_size A < 2 ^ 31" using last_size_bound [of A] assms(2) by simp
  moreover have "list_all entry_ok B" "\<exists>m. linked m B" "length (entries B) < 2 ^ 30"
    using assms by (auto simp: zl_inv_def linked_append)
  ultimately have B: "list_all entry_ok (relink (last_size A) B)" "linked (last_size A) (relink (last_size A) B)" "zvals (relink (last_size A) B) = zvals B"
    "length (relink (last_size A) B) = length B" "length (entries (relink (last_size A) B)) \<le> length (entries B) + 4 * length B"
    using relink_props by blast+
  have "A = [] \<Longrightarrow> relink (last_size A) B \<noteq> [] \<Longrightarrow> \<not> fst (hd (relink (last_size A) B))"
    by (auto simp: relink_def last_size_def split: list.splits prod.splits)
  then show "zl_inv (if c < 65535 then c - int (length D) else c) (A @ relink (last_size A) B)" "zvals (relink (last_size A) B) = zvals B"
    "length (entries (relink (last_size A) B)) \<le> length (entries B) + 4 * length B"
    using assms(1) B by (auto simp: zl_inv_def linked_append last_size_def hd_append split: if_splits)
qed

lemma prevLenByteDiff_block:
  assumes "entry_ok (lg, pv, s)" "k < 2 ^ 32"
  shows "zipPrevLenByteDiff (zl_block c P ((lg, pv, s) # R)) (10 + length P) k =
    Some (int (if 254 \<le> k then 5 else 1) - int (if lg then 5 else 1))"
proof -
  obtain H where H: "length H = 10 + length P" "zl_block c P ((lg, pv, s) # R) = H @ entry_bytes (lg, pv, s) @ entries R @ [ZIP_END]"
    by (rule block_prefix)
  have "ZIP_DECODE_PREVLENSIZE (zl_block c P ((lg, pv, s) # R)) (10 + length P) = Some (if lg then 5 else 1)"
    using ZIP_DECODE_PREVLENSIZE_shift [of H _ 0] decode_prevlensize [of lg pv "zip_body s @ entries R @ [ZIP_END]"] assms H by simp
  then show ?thesis using assms(2) by (simp add: zipPrevLenByteDiff_def prev_size)
qed

text \<open>After the room is made, the cascade leaves the bytes for the new entry alone.\<close>

lemma room_cascade:
  assumes "list_all entry_ok (N # R)" "linked m (N # R)" "N = (lg, pv, t)" "0 < k"
    "11 + length P + length (entries (N # R)) + k + 4 * (1 + length R) < 2 ^ 32"
    and nd: "nd = int (if 254 \<le> k then 5 else 1) - int (if lg then 5 else 1)" "- nd \<le> int k"
  shows "\<exists>w. length w = k \<and> (do {
     zl \<leftarrow> insert_room garb (zl_block c P (N # R)) (10 + length P) (11 + length P + length (entries (N # R))) k nd;
     zl \<leftarrow> (if nd \<noteq> 0 then ziplistCascadeUpdate garb zl (10 + length P + k) else Some zl);
     F zl }) = F (zl_gap c P w ((254 \<le> k, k, t) # cascade (entry_size (254 \<le> k, k, t)) R))"
proof -
  let ?N = "(254 \<le> k, k, t)"
  obtain w where w: "length w = k" "insert_room garb (zl_block c P (N # R)) (10 + length P) (11 + length P + length (entries (N # R))) k nd =
      Some (zl_gap c P w (?N # R))"
    using room_before [of lg pv t R P k garb c] assms by auto
  have gap: "zl_gap c P w (?N # es) = zl_block c (P @ w) (?N # es)" for es by (rule zl_gap_block) simp
  have "(if nd \<noteq> 0 then ziplistCascadeUpdate garb (zl_gap c P w (?N # R)) (10 + length P + k) else Some (zl_gap c P w (?N # R))) =
      Some (zl_gap c P w (?N # cascade (entry_size ?N) R))"
  proof (cases "nd = 0")
    case True
    then have "entry_size ?N = entry_size N" using nd(1) assms(3) by (auto simp: entry_size_eq split: if_splits)
    then show ?thesis using True cascade_id [OF linked_tail [OF assms(2)]] by simp
  next
    case False
    have "ziplistCascadeUpdate garb (zl_block c (P @ w) (?N # R)) (10 + length (P @ w)) = Some (zl_block c (P @ w) (?N # cascade (entry_size ?N) R))"
      by (rule cascade_update [where m = "entry_size N"]) (use assms w(1) in \<open>auto split: if_splits\<close>)
    then show ?thesis using False w(1) unfolding gap by (simp add: add.assoc)
  qed
  then show ?thesis using w by (intro exI [of _ w]) (simp only: Option.bind.simps simp_thms)
qed

theorem ziplistInsert_correct:
  assumes inv: "zl_inv c (A @ B)" and safe: "insert_safe A s B" and size: "11 + length (entries (A @ B)) + length s < 2 ^ 30"
  defines "new \<equiv> (254 \<le> last_size A, last_size A, s)"
  shows "\<exists>c'. ziplistInsert garb (zl_block c [] (A @ B)) (10 + length (entries A)) s =
      Some (zl_block c' [] (A @ new # relink (entry_size new) B)) \<and>
    zl_inv c' (A @ new # relink (entry_size new) B) \<and> zvals (relink (entry_size new) B) = zvals B"
proof -
  let ?zl = "zl_block c [] (A @ B)"
  let ?p = "10 + length (entries A)"
  let ?C = "11 + length (entries (A @ B))"
  define k where "k = entry_size new"
  define B' where "B' = relink k B"
  let ?c = "if c < 65535 then c + 1 else c"
  obtain v e r where code: "insert_code s = (v, e, r)" by (cases "insert_code s")
  have s32: "length (entries (A @ B)) + length s < 2 ^ 30" using size by simp
  have ok: "list_all entry_ok (A @ B)" "linked 0 (A @ B)" "0 \<le> c" "c < 65536" using inv by (auto simp: zl_inv_def)
  have pr: "last_size A < 2 ^ 32" using last_size_bound [of A] size by simp
  have k_bound: "k \<le> length s + 14" "2 \<le> k"
    unfolding k_def new_def by (rule entry_size_bound, rule entry_size_ge)
  have k: "r + zipPrevEncodeLength_size (last_size A) + zipEncodeLength_size e (length s) = k"
    using insert_code_size [OF code pr] by (simp add: k_def new_def)
  have bytes: "ZIPLIST_BYTES ?zl = Some ?C" unfolding zl_block_def by (subst header_get_nat) (use size in simp_all)
  have prevlen: "insert_prevlen ?zl ?p = Some (last_size A)" using ok size by (intro insert_prevlen_block) simp_all
  have entry: "insert_write (zl_gap c (entries A) w B') ?p (last_size A) e v s = Some (zl_block ?c [] (A @ new # B'))" if "length w = k" for w
    using insert_write_gap [OF code _ pr ok(3,4), of w "entries A" B'] that zl_block_append [of "new # B'" ?c "[]" A]
    by (simp add: k_def new_def)
  have "ziplistInsert garb ?zl ?p s = Some (zl_block ?c [] (A @ new # B'))"
  proof (cases B)
    case Nil
    have "mem_get ?zl ?p = Some ZIP_END" using block_end [of c "[]" A] Nil by simp
    moreover obtain w where w: "length w = k" "insert_room garb ?zl ?p ?C k 0 = Some (zl_gap c (entries A) w [])"
      using room_at_end [of A k garb c] k_bound size Nil by auto
    ultimately show ?thesis using bytes prevlen k entry [OF w(1)] Nil B'_def relink_def code
      by (simp add: ziplistInsert_def flip: insert_code_def)
  next
    case (Cons N R)
    obtain lg pv t where N: "N = (lg, pv, t)" by (cases N)
    let ?nd = "int (if 254 \<le> k then 5 else 1) - int (if lg then 5 else 1)"
    have zl: "?zl = zl_block c (entries A) (N # R)" using zl_block_append [of B c "[]" A] Cons by simp
    have NR: "list_all entry_ok (N # R)" "linked (last_size A) (N # R)"
      using ok Cons by (auto simp: linked_append last_size_def split: if_splits)
    have C: "?C = 11 + length (entries A) + length (entries (N # R))" using Cons by simp
    have room: "- ?nd \<le> int k" using safe k_bound N Cons by (auto simp: insert_safe_def k_def new_def)
    have big: "11 + length (entries A) + length (entries (N # R)) + k + 4 * (1 + length R) < 2 ^ 32"
      using k_bound size Cons entries_ge [of R] by simp
    obtain b where b: "mem_get ?zl ?p = Some b" "b \<noteq> ZIP_END" using block_get [of N c "entries A" R] NR(1) zl by auto
    have diff: "zipPrevLenByteDiff ?zl ?p k = Some ?nd"
      unfolding zl N by (rule prevLenByteDiff_block) (use NR(1) N k_bound size in auto)
    obtain w where w: "length w = k" "(do {
       zl \<leftarrow> insert_room garb ?zl ?p ?C k ?nd;
       zl \<leftarrow> (if ?nd \<noteq> 0 then ziplistCascadeUpdate garb zl (?p + k) else Some zl);
       insert_write zl ?p (last_size A) e v s }) = insert_write (zl_gap c (entries A) w B') ?p (last_size A) e v s"
      using room_cascade [OF NR N _ big refl room, of garb c "\<lambda>zl. insert_write zl ?p (last_size A) e v s"] k_bound
      unfolding zl C by (auto simp: B'_def relink_def Cons N)
    show ?thesis
      unfolding ziplistInsert_def insert_code_def [symmetric] bytes prevlen code Option.bind.simps Let_def prod.case k b(1)
        if_P [OF b(2)] diff w(2) by (rule entry [OF w(1)])
  qed
  then show ?thesis using insert_inv [OF inv s32, of new] unfolding B'_def k_def new_def by blast
qed

end
