(* ===== verification/Ziplist_Delete.thy ===== *)
theory Ziplist_Delete
  imports Ziplist_Ops
begin

text \<open>
  The deletion of \<open>ziplist.c\<close>: \<open>__ziplistDelete\<close> removes a run of entries and relinks the ones behind it,
  whatever the size fields do.
\<close>

section \<open>Deletion\<close>

lemma delete_walk_entries:
  assumes "list_all entry_ok es" "length (entries es) < 2 ^ 32"
  shows "delete_walk (X @ entries es @ [ZIP_END]) (length X) n =
    Some (length X + length (entries (take n es)), length (take n es))"
  using assms
proof (induction n arbitrary: X es)
  case 0
  then show ?case using mem_get_behind [of es X] by auto
next
  case (Suc n)
  obtain b where b: "mem_get (X @ entries es @ [ZIP_END]) (length X) = Some b" "b = ZIP_END \<longleftrightarrow> es = []"
    using mem_get_behind [of es X] Suc.prems by blast
  show ?case
  proof (cases es)
    case Nil
    then show ?thesis using b by simp
  next
    case (Cons e rest)
    have "zipRawEntryLength (X @ entries es @ [ZIP_END]) (length X) = Some (entry_size e)"
      using zipRawEntryLength_entry [of e X "entries rest @ [ZIP_END]"] Suc.prems Cons by (simp add: entry_size_def)
    moreover have "delete_walk (X @ entries es @ [ZIP_END]) (length X + entry_size e) n =
        Some (length X + entry_size e + length (entries (take n rest)), length (take n rest))"
      using Suc.IH [of rest "X @ entry_bytes e"] Suc.prems Cons by (simp add: entry_size_def)
    ultimately show ?thesis using b Cons by (simp add: entry_size_def)
  qed
qed

lemma delete_front_block:
  fixes P D lg pv s R m
  defines "N \<equiv> (lg, pv, s)" and "lg' \<equiv> 254 \<le> m"
  defines "nd \<equiv> int (if lg' then 5 else 1) - int (if lg then 5 else 1)"
  assumes ok: "list_all entry_ok (N # R)" and size: "15 + length P + length D + length (entries (N # R)) < 2 ^ 32"
    and m: "m < 2 ^ 32" "lg' \<longrightarrow> 4 \<le> length D" and first: "e_prevrawlen first = m" "e_p first = 10 + length P"
  shows "\<exists>w. length w = nat (int (length D) - nd) \<and>
    delete_front (zl_header (int (11 + length P + length D + length (entries (N # R))))
        (int (10 + length P + length D + length (entries (butlast (N # R))))) c @ P @ D @ entries (N # R) @ [ZIP_END])
      first (10 + length P + length D) (length D) =
    Some (zl_header (int (11 + length P + length D + length (entries (N # R))))
        (int (10 + length P + length (entries (butlast ((lg', m, s) # R))))) c @ P @ entries ((lg', m, s) # R) @ w @ [ZIP_END], nd)"
proof -
  define f z where "f = prev_field lg pv" and "z = (if lg' then 5 else 1 :: nat)"
  define b t where "b = 11 + length P + length D + length (entries (N # R))"
    and "t = 10 + length P + length D + length (entries (butlast (N # R)))"
  define w0 f0 where "w0 = take (length (D @ f) - z) (D @ f)" and "f0 = drop (length (D @ f) - z) (D @ f)"
  let ?N = "(lg', m, s)"
  let ?H = "zl_header (int b) (int t) c"
  let ?zl = "?H @ P @ D @ entries (N # R) @ [ZIP_END]"
  let ?p = "10 + length P + length D"
  have lens: "length f = (if lg then 5 else 1)" "z \<le> length (D @ f)" "length f0 = z" "D @ f = w0 @ f0"
    using m(2) by (simp_all add: f_def z_def w0_def f0_def)
  have w0: "int (length w0) = int (length D) - nd" "?p + length f = 10 + length P + length w0 + z"
    using arg_cong [OF lens(4), of length] lens(1,3) by (auto simp: nd_def z_def)
  have z: "z = zipPrevEncodeLength_size m" using m(1) by (simp add: z_def lg'_def prev_size)
  have diff: "zipPrevLenByteDiff ?zl ?p m = Some nd"
  proof -
    have "ZIP_DECODE_PREVLENSIZE ((?H @ P @ D) @ prev_field lg pv @ zip_body s @ entries R @ [ZIP_END]) (length (?H @ P @ D) + 0) = Some (if lg then 5 else 1)"
      unfolding ZIP_DECODE_PREVLENSIZE_shift using ok by (intro decode_prevlensize) (simp add: N_def)
    then show ?thesis using z by (simp add: zipPrevLenByteDiff_def N_def nd_def z_def add.assoc)
  qed
  have p': "signed_add ?p (- nd) = Some (10 + length P + length w0)" using w0(1) by (auto simp: signed_add_def)
  have split: "?zl = (?H @ P @ w0) @ f0 @ zip_body s @ entries R @ [ZIP_END]"
  proof -
    have "D @ f @ r = w0 @ f0 @ r" for r using lens(4) by (metis append.assoc)
    then show ?thesis by (simp add: N_def flip: f_def)
  qed
  have enc: "zipPrevEncodeLength ?zl (10 + length P + length w0) m = Some (?H @ (P @ w0) @ entry_bytes ?N @ entries R @ [ZIP_END], z)"
    unfolding split
    using write_prev_field [of f0 m "?H @ P @ w0" "zip_body s @ entries R @ [ZIP_END]"] lens(3) z m(1) by (simp add: lg'_def add.assoc)
  have ok': "list_all entry_ok (?N # R)" using ok m(1) by (simp add: N_def lg'_def)
  let ?h = "\<lambda>t. int t - int (length D)"
  let ?T = "?h t + (if R = [] then 0 else nd)"
  let ?E = "entry_bytes ?N @ entries R"
  have t32: "t < 2 ^ 32" "0 \<le> ?h t" "?h t < 2 ^ 32" using size entries_butlast [of "N # R"] by (simp_all add: t_def del: butlast.simps entries_simps)
  have bytes: "ZIPLIST_BYTES (zl_header (int b) x c @ r) = Some b" for x r by (rule header_get_nat) (use size in \<open>simp add: b_def\<close>)
  have n: "signed_add b (- int (10 + length P + length w0) - 1) = Some (length ?E)"
    using w0 lens(1) by (auto simp: signed_add_def b_def N_def z_def)
  obtain w where w: "length w = length w0" "memmove (zl_header (int b) ?T c @ (P @ w0) @ entry_bytes ?N @ entries R @ [ZIP_END]) (10 + length P) (10 + length P + length w0) (length ?E) =
      Some (zl_header (int b) ?T c @ P @ ?E @ w @ [ZIP_END])"
    using memmove_left [of w0 "zl_header (int b) ?T c @ P" ?E "[ZIP_END]"] by (auto simp: add.assoc)
  have lenQ: "10 + length (P @ w0) = 10 + length P + length w0" by simp
  have "delete_front ?zl first ?p (length D) = Some (zl_header (int b) ?T c @ P @ ?E @ w @ [ZIP_END], nd)"
    using tail_fix [where Q = "P @ w0" and h = ?h and nd = nd and b = "int b" and c = c and
        F = "\<lambda>zl. do { bytes \<leftarrow> ZIPLIST_BYTES zl; n \<leftarrow> signed_add bytes (- int (10 + length P + length w0) - 1);
          zl \<leftarrow> memmove zl (10 + length P) (10 + length P + length w0) n; Some (zl, nd) }", OF ok' t32]
    unfolding delete_front_def first diff Option.bind.simps p' enc prod.case
    by (simp only: bytes n w(2) Option.bind.simps lenQ)
  moreover have T: "?T = int (10 + length P + length (entries (butlast (?N # R))))" by (simp add: t_def N_def nd_def)
  moreover have "length w = nat (int (length D) - nd)" using w(1) w0(1) by simp
  ultimately show ?thesis unfolding T b_def t_def by (intro exI [of _ w]) (simp only: entries_simps append.assoc simp_thms)
qed


text \<open>The end of \<open>__ziplistDelete\<close>: the block is cut, the count adjusted and the sizes cascaded.\<close>

lemma delete_finish:
  assumes "list_all entry_ok (N # R)" "linked m R" "0 \<le> c" "c < 65536" "11 + length P + length (entries (N # R)) + 4 * length R < 2 ^ 32"
    "L = int (11 + length P + length (entries (N # R)))" "T = int (10 + length P + length (entries (butlast (N # R))))"
    "nd = 0 \<Longrightarrow> m = entry_size N"
  shows "(do {
     zl \<leftarrow> ziplistResize garb (zl_header b T c @ P @ entries (N # R) @ w @ [ZIP_END]) L;
     zl \<leftarrow> ZIPLIST_INCR_LENGTH zl (- int d);
     if nd \<noteq> 0 then ziplistCascadeUpdate garb zl (10 + length P) else Some zl }) =
    Some (zl_block (if c < 65535 then c - int d else c) P (N # cascade (entry_size N) R))"
proof -
  let ?c = "if c < 65535 then c - int d else c"
  have "ziplistResize garb (zl_header b T c @ P @ entries (N # R) @ w @ [ZIP_END]) L =
      Some (zl_header L T c @ P @ entries (N # R) @ [ZIP_END])"
    using resize_shrink [of L "P @ entries (N # R)" "w @ [ZIP_END]" garb b T c] assms(5,6) by simp
  moreover have "ZIPLIST_INCR_LENGTH (zl_header L T c @ P @ entries (N # R) @ [ZIP_END]) (- int d) = Some (zl_block ?c P (N # R))"
    using incr_length [OF assms(3,4)] by (simp add: zl_block_def assms(6,7))
  moreover have "(if nd \<noteq> 0 then ziplistCascadeUpdate garb (zl_block ?c P (N # R)) (10 + length P) else Some (zl_block ?c P (N # R))) =
      Some (zl_block ?c P (N # cascade (entry_size N) R))"
    using cascade_update [OF assms(1,2,5)] cascade_id [OF assms(2)] assms(8) by (cases "nd = 0") simp_all
  ultimately show ?thesis by simp
qed

lemma butlast_pos: "int (10 + length (entries A)) - int (last_size A) = int (10 + length (entries (butlast A)))"
  by (cases A rule: rev_cases) (simp_all add: last_size_def entry_size_def)

theorem ziplistDelete_at_correct:
  assumes inv: "zl_inv c (A @ D @ B)" and D: "D \<noteq> []" "take n (D @ B) = D" and size: "11 + length (entries (A @ D @ B)) < 2 ^ 30"
  shows "\<exists>c'. ziplistDelete_at garb (zl_block c [] (A @ D @ B)) (10 + length (entries A)) n = Some (zl_block c' [] (A @ relink (last_size A) B)) \<and>
    zl_inv c' (A @ relink (last_size A) B) \<and> zvals (relink (last_size A) B) = zvals B"
proof -
  let ?zl = "zl_block c [] (A @ D @ B)"
  let ?p = "10 + length (entries A)"
  let ?c = "if c < 65535 then c - int (length D) else c"
  define dl where "dl = length (entries D)"
  obtain lg0 s0 D' where D0: "D = (lg0, last_size A, s0) # D'"
    using D(1) inv by (cases D) (auto simp: zl_inv_def linked_append last_size_def split: if_splits)
  have ok: "list_all entry_ok (A @ D @ B)" "linked 0 (A @ D @ B)" "0 \<le> c" "c < 65536" using inv by (auto simp: zl_inv_def)
  have dl: "u32 (?p + dl - ?p) = dl" "0 < dl" using size entries_ge [of D] D0 by (simp_all add: dl_def)
  have first: "zipEntry ?zl ?p = Some (entry_info ?p (lg0, last_size A, s0))"
    using block_zipEntry [of "(lg0, last_size A, s0)" c "entries A" "D' @ B"] zl_block_append [of "D @ B" c "[]" A] ok(1) D0 by simp
  define H where "H = zl_header (int (11 + length (entries A) + dl + length (entries B))) (int (10 + length (entries (butlast (A @ D @ B))))) c"
  have zl: "?zl = H @ entries A @ entries D @ entries B @ [ZIP_END]" by (simp add: zl_block_def H_def dl_def add.assoc)
  have walk: "delete_walk ?zl ?p n = Some (?p + dl, length D)"
    using delete_walk_entries [of "D @ B" "H @ entries A" n, unfolded D(2)] ok(1) size unfolding zl by (simp add: H_def dl_def)
  obtain b where b: "mem_get ?zl (?p + dl) = Some b" "b = ZIP_END \<longleftrightarrow> B = []"
    using mem_get_behind [of B "H @ entries A @ entries D"] ok(1) unfolding zl by (auto simp: H_def dl_def add.assoc)
  note start = first walk Option.bind.simps prod.case Let_def
  have "ziplistDelete_at garb ?zl ?p n = Some (zl_block ?c [] (A @ relink (last_size A) B))"
  proof (cases B)
    case Nil
    let ?T = "int (10 + length (entries (butlast A)))"
    have set_tail: "set_TAIL_OFFSET ?zl (int ?p - int (last_size A)) = Some (zl_header (int (?p + 1 + dl)) ?T c @ entries A @ entries D @ [ZIP_END])"
      unfolding zl H_def butlast_pos using Nil by simp
    have "ziplistResize garb (zl_header (int (?p + 1 + dl)) ?T c @ entries A @ entries D @ [ZIP_END]) (int (?p + 1)) =
        Some (zl_header (int (?p + 1)) ?T c @ entries A @ [ZIP_END])"
      using size by (intro resize_shrink) auto
    moreover have "ZIPLIST_BYTES (zl_header (int (?p + 1 + dl)) ?T c @ r) = Some (?p + 1 + dl)" for r
      by (rule header_get_nat) (use size in \<open>simp add: dl_def\<close>)
    moreover have "ZIPLIST_INCR_LENGTH (zl_header (int (?p + 1)) ?T c @ entries A @ [ZIP_END]) (- int (length D)) = Some (zl_block ?c [] A)"
      using incr_length [OF ok(3,4)] by (simp add: zl_block_def)
    ultimately show ?thesis using b dl set_tail Nil
      unfolding ziplistDelete_at_def start by (simp add: entry_info_def relink_def)
  next
    case (Cons N R)
    obtain lg pv t where N: "N = (lg, pv, t)" by (cases N)
    define m where "m = last_size A"
    let ?nd = "int (if 254 \<le> m then 5 else 1) - int (if lg then 5 else 1)"
    let ?N = "(254 \<le> m, m, t)"
    let ?b = "11 + length (entries A) + dl + length (entries (N # R))"
    let ?T = "int (10 + length (entries A) + length (entries (butlast (?N # R))))"
    let ?first = "entry_info ?p (lg0, m, s0)"
    have NR: "list_all entry_ok (N # R)" "linked (entry_size N) R" using ok Cons by (auto simp: linked_append dest: linked_tail)
    have m: "m < 2 ^ 32" "254 \<le> m \<longrightarrow> 4 \<le> dl" using last_size_bound [of A] size ok(1) D0 by (auto simp: m_def dl_def)
    have zl': "?zl = zl_header (int ?b) (int (10 + length (entries A) + dl + length (entries (butlast (N # R))))) c @
        entries A @ entries D @ entries (N # R) @ [ZIP_END]"
      unfolding zl H_def using Cons by (simp add: butlast_append dl_def add.assoc)
    obtain w where front: "delete_front ?zl ?first (?p + dl) dl = Some (zl_header (int ?b) ?T c @ entries A @ entries (?N # R) @ w @ [ZIP_END], ?nd)"
      using delete_front_block [of lg pv t R "entries A" "entries D" m ?first c] NR(1) m size Cons N
      unfolding zl' dl_def by (auto simp: entry_info_def)
    have bytes: "ZIPLIST_BYTES (zl_header (int ?b) x c @ r) = Some ?b" for x r
      by (rule header_get_nat) (use size Cons in \<open>simp add: dl_def\<close>)
    have "(do {
       zl \<leftarrow> ziplistResize garb (zl_header (int ?b) ?T c @ entries A @ entries (?N # R) @ w @ [ZIP_END]) (int ?b - int dl + ?nd);
       zl \<leftarrow> ZIPLIST_INCR_LENGTH zl (- int (length D));
       if ?nd \<noteq> 0 then ziplistCascadeUpdate garb zl ?p else Some zl }) = Some (zl_block ?c (entries A) (?N # cascade (entry_size ?N) R))"
      by (rule delete_finish [where m = "entry_size N"])
        (use NR m ok(3,4) size Cons N entries_ge [of R] in \<open>auto simp: entry_size_eq split: if_splits\<close>)
    moreover have "zl_block ?c (entries A) (?N # cascade (entry_size ?N) R) = zl_block ?c [] (A @ relink m B)"
      using zl_block_append [of "relink m B" ?c "[]" A] Cons N by (simp add: relink_def)
    moreover have "b \<noteq> ZIP_END" "e_p ?first = ?p" using b(2) Cons by (simp_all add: entry_info_def)
    ultimately show ?thesis
      unfolding ziplistDelete_at_def m_def [symmetric]
      by (simp only: first [folded m_def] walk Option.bind.simps prod.case Let_def dl b(1) if_True not_False_eq_True simp_thms front bytes)
  qed
  then show ?thesis using delete_inv [OF inv] size by (intro exI [of _ ?c]) simp
qed

end
