(* ===== verification/Ziplist_Walk.thy ===== *)
theory Ziplist_Walk
  imports Ziplist_Delete
begin

text \<open>
  The traversals of \<open>ziplist.c\<close> on well-formed blocks: index, next, previous, the value of an entry, comparison,
  search with a stride, and the number of entries.
\<close>

section \<open>Positions\<close>

definition zl_pos :: "zent list \<Rightarrow> nat \<Rightarrow> nat" where
  "zl_pos es i = 10 + length (entries (take i es))"

text \<open>The facts a traversal needs of a block.\<close>

definition walkable :: "zent list \<Rightarrow> bool" where
  "walkable es \<longleftrightarrow> list_all entry_ok es \<and> linked 0 es \<and> 11 + length (entries es) < 2 ^ 32"

lemma split_at: "i < length es \<Longrightarrow> zl_block c [] es = zl_block c (entries (take i es)) (es ! i # drop (Suc i) es)"
  using zl_block_append [of "es ! i # drop (Suc i) es" c "[]" "take i es"] by (simp add: id_take_nth_drop [symmetric])

lemma walkable_nth: "walkable es \<Longrightarrow> i < length es \<Longrightarrow> entry_ok (es ! i) \<and> entry_size (es ! i) < 2 ^ 32"
  using entry_size_le [of "es ! i" es] by (auto simp: walkable_def list_all_length)

lemma zl_pos_Suc: "i < length es \<Longrightarrow> zl_pos es (Suc i) = zl_pos es i + entry_size (es ! i)"
  by (simp add: zl_pos_def take_Suc_conv_app_nth entry_size_def)

lemma get_at:
  assumes "walkable es" "i \<le> length es"
  shows "\<exists>b. mem_get (zl_block c [] es) (zl_pos es i) = Some b \<and> (b = ZIP_END \<longleftrightarrow> i = length es)"
proof (cases "i = length es")
  case True
  then show ?thesis using block_end [of c "[]" es] by (simp add: zl_pos_def)
next
  case False
  then have i: "i < length es" using assms(2) by simp
  show ?thesis using block_get [of "es ! i" c "entries (take i es)" "drop (Suc i) es"] walkable_nth [OF assms(1) i] False
    unfolding split_at [OF i] zl_pos_def by auto
qed

lemma raw_at:
  assumes "walkable es" "i < length es"
  shows "zipRawEntryLength (zl_block c [] es) (zl_pos es i) = Some (entry_size (es ! i))"
  using block_raw [of "es ! i" c "entries (take i es)" "drop (Suc i) es"] walkable_nth [OF assms]
  unfolding split_at [OF assms(2)] zl_pos_def by simp

lemma entry_at:
  assumes "walkable es" "i < length es"
  shows "zipEntry (zl_block c [] es) (zl_pos es i) = Some (entry_info (zl_pos es i) (es ! i))"
  using block_zipEntry [of "es ! i" c "entries (take i es)" "drop (Suc i) es"] walkable_nth [OF assms]
  unfolding split_at [OF assms(2)] zl_pos_def by simp

lemma linked_nth:
  assumes "linked n es" "i < length es"
  shows "fst (snd (es ! i)) = (if i = 0 then n else entry_size (es ! (i - 1)))"
  using assms
proof (induction n es arbitrary: i rule: linked.induct)
  case (2 n lg pv s es)
  then show ?case by (cases i) (auto simp: nth_Cons split: nat.splits)
qed simp

lemma prevlen_at:
  assumes "walkable es" "i < length es"
  shows "\<exists>z. ZIP_DECODE_PREVLEN (zl_block c [] es) (zl_pos es i) = Some (z, zl_pos es i - zl_pos es (i - 1))"
proof -
  obtain lg pv s where e: "es ! i = (lg, pv, s)" by (cases "es ! i")
  have "zipEntry (zl_block c [] es) (zl_pos es i) = Some (entry_info (zl_pos es i) (es ! i))" by (rule entry_at [OF assms])
  then obtain z where "ZIP_DECODE_PREVLEN (zl_block c [] es) (zl_pos es i) = Some (z, pv)"
    by (auto simp: zipEntry_def bind_eq_Some_conv entry_info_def e)
  moreover have "pv = zl_pos es i - zl_pos es (i - 1)"
    using linked_nth [of 0 es i] assms e zl_pos_Suc [of "i - 1" es] by (cases i) (auto simp: walkable_def)
  ultimately show ?thesis by blast
qed

lemma tail_at: "walkable es \<Longrightarrow> ZIPLIST_ENTRY_TAIL (zl_block c [] es) = Some (zl_pos es (length es - 1))"
  unfolding ZIPLIST_ENTRY_TAIL_def zl_block_def zl_pos_def using entries_butlast [of es]
  by (subst header_get_nat) (simp_all add: walkable_def butlast_conv_take)

section \<open>Values\<close>

text \<open>What \<open>ziplistGet\<close> reports for an entry that holds \<open>s\<close>, and the bytes it stands for.\<close>

definition zval_of :: "byte list \<Rightarrow> zval" where
  "zval_of s = (case zipTryEncoding s of Some (v, e) \<Rightarrow> ZInt v | None \<Rightarrow> ZStr s)"

primrec zval_bytes :: "zval \<Rightarrow> byte list" where
  "zval_bytes (ZStr s) = s"
| "zval_bytes (ZInt v) = sdec v"

lemma zval_bytes_of [simp]: "zval_bytes (zval_of s) = s"
  using zipTryEncoding_value [of s] by (auto simp: zval_of_def split: option.splits)


lemma is_str_body: "ZIP_IS_STR (body_enc s) \<longleftrightarrow> zipTryEncoding s = None"
proof (cases "zipTryEncoding s")
  case None
  then show ?thesis by (simp add: body_enc_def ZIP_IS_STR_def zip_consts)
next
  case (Some x)
  then show ?thesis using int_enc_not_str [of s "fst x" "snd x"] by (cases x) (simp add: body_enc_def)
qed

lemma payload_at:
  assumes "walkable es" "i < length es" "es ! i = (lg, pv, s)"
  defines "q \<equiv> zl_pos es i + (if lg then 5 else 1) + body_lensize s"
  shows "zipTryEncoding s = None \<Longrightarrow> mem_read (zl_block c [] es) q (length s) = Some s"
    "zipTryEncoding s = Some (v, e) \<Longrightarrow> zipLoadInteger (zl_block c [] es) q e = Some v"
proof -
  obtain H where H: "length H = zl_pos es i" "zl_block c [] es = H @ entry_bytes (lg, pv, s) @ entries (drop (Suc i) es) @ [ZIP_END]"
    using block_prefix [of "entries (take i es)" c "es ! i" "drop (Suc i) es"] unfolding split_at [OF assms(2)] zl_pos_def assms(3) by metis
  let ?r = "entries (drop (Suc i) es) @ [ZIP_END]"
  show "mem_read (zl_block c [] es) q (length s) = Some s" if "zipTryEncoding s = None"
  proof -
    let ?h = "zipEncodeLength_buf 0 (length s)"
    have "length ?h = body_lensize s" using that by (simp add: body_lensize_def zipEncodeLength_buf_def zipEncodeLength_size_def)
    then have "q = length (H @ prev_field lg pv @ ?h)" "zl_block c [] es = (H @ prev_field lg pv @ ?h) @ s @ ?r"
      using H that by (simp_all add: q_def zip_body_def)
    then show ?thesis using mem_read_shift [of "H @ prev_field lg pv @ ?h" "s @ ?r" 0] by simp
  qed
  show "zipLoadInteger (zl_block c [] es) q e = Some v" if "zipTryEncoding s = Some (v, e)"
  proof -
    have "q = length (H @ prev_field lg pv @ [e])" "zl_block c [] es = (H @ prev_field lg pv @ [e]) @ int_payload v e @ ?r"
      using H that by (simp_all add: q_def zip_body_def body_lensize_def)
    then show ?thesis using zipLoadInteger_shift [of "H @ prev_field lg pv @ [e]" "int_payload v e @ ?r" 0] load_payload [OF that] by simp
  qed
qed

lemma zvals_nth: "i < length es \<Longrightarrow> zvals es ! i = snd (snd (es ! i))"
  by (simp add: zvals_def split_beta)

theorem ziplistGet_correct:
  assumes "walkable es" "i \<le> length es"
  shows "ziplistGet (zl_block c [] es) (Some (zl_pos es i)) = Some (if i < length es then Some (zval_of (zvals es ! i)) else None)"
proof (cases "i < length es")
  case True
  obtain lg pv s where e: "es ! i = (lg, pv, s)" by (cases "es ! i")
  obtain b where b: "mem_get (zl_block c [] es) (zl_pos es i) = Some b" "b \<noteq> ZIP_END" using get_at [OF assms] True by auto
  show ?thesis
  proof (cases "zipTryEncoding s")
    case None
    then show ?thesis using b entry_at [OF assms(1) True] payload_at(1) [OF assms(1) True e None] True is_str_body [of s]
      by (simp add: ziplistGet_def entry_info_def e zvals_nth zval_of_def body_len_def add.assoc)
  next
    case (Some x)
    then show ?thesis using b entry_at [OF assms(1) True] payload_at(2) [OF assms(1) True e, of "fst x" "snd x"] True is_str_body [of s]
      by (cases x) (simp add: ziplistGet_def entry_info_def e zvals_nth zval_of_def body_enc_def add.assoc)
  qed
next
  case False
  then show ?thesis using get_at [OF assms] assms(2) by (auto simp: ziplistGet_def)
qed

theorem ziplistCompare_correct:
  assumes "walkable es" "i < length es"
  shows "ziplistCompare (zl_block c [] es) (zl_pos es i) x = Some (zvals es ! i = x)"
proof -
  obtain lg pv s where e: "es ! i = (lg, pv, s)" by (cases "es ! i")
  obtain b where b: "mem_get (zl_block c [] es) (zl_pos es i) = Some b" "b \<noteq> ZIP_END" using get_at [of es i c] assms by auto
  show ?thesis
  proof (cases "zipTryEncoding s")
    case None
    then show ?thesis using b entry_at [OF assms] payload_at(1) [OF assms e None] is_str_body [of s] assms(2)
      by (auto simp: ziplistCompare_def entry_info_def e zvals_nth body_len_def add.assoc)
  next
    case (Some y)
    obtain v enc where y: "y = (v, enc)" by (cases y)
    have s: "s = sdec v" "int64_range v" "string2ll s = Some v" using zipTryEncoding_value [of s v enc] Some y by (simp_all add: string2ll_correct)
    have x: "s = x \<longleftrightarrow> map_option fst (zipTryEncoding x) = Some v"
      using Some y zipTryEncoding_value [of x] s(1) by (cases "zipTryEncoding x") auto
    show ?thesis using b entry_at [OF assms] payload_at(2) [OF assms e, of v enc] Some y is_str_body [of s] assms(2) x
      by (auto simp: ziplistCompare_def entry_info_def e zvals_nth body_enc_def add.assoc split: option.splits)
  qed
qed

section \<open>Neighbours and indices\<close>

theorem ziplistNext_correct:
  assumes "walkable es" "i < length es"
  shows "ziplistNext (zl_block c [] es) (zl_pos es i) = Some (if Suc i < length es then Some (zl_pos es (Suc i)) else None)"
  using get_at [of es i c] get_at [of es "Suc i" c] raw_at [OF assms] assms zl_pos_Suc [OF assms(2)]
  by (auto simp: ziplistNext_def)

lemma zl_pos_less: "i < j \<Longrightarrow> j \<le> length es \<Longrightarrow> zl_pos es i < zl_pos es j"
proof (induction j)
  case (Suc j)
  then show ?case using zl_pos_Suc [of j es] entry_size_ge [of "es ! j"] by (cases "i = j") auto
qed simp

theorem ziplistPrev_correct:
  assumes "walkable es" "i \<le> length es"
  shows "ziplistPrev (zl_block c [] es) (zl_pos es i) = Some (if i = 0 then None else Some (zl_pos es (i - 1)))"
proof -
  consider "i = length es" | "i = 0" "es \<noteq> []" | "0 < i" "i < length es"
    using assms(2) by (cases "i = 0"; cases "es = []"; force)
  then show ?thesis
  proof cases
    case 1
    then show ?thesis using get_at [OF assms] tail_at [OF assms(1)] get_at [of es "length es - 1" c] assms(1)
      by (cases es) (auto simp: ziplistPrev_def)
  next
    case 2
    then show ?thesis using get_at [OF assms, of c] by (auto simp: ziplistPrev_def zl_pos_def ZIPLIST_ENTRY_HEAD_def ZIPLIST_HEADER_SIZE_def)
  next
    case 3
    have less: "zl_pos es (i - 1) < zl_pos es i" "zl_pos es 0 < zl_pos es i" using 3 by (auto intro: zl_pos_less)
    then have "zl_pos es i \<noteq> ZIPLIST_ENTRY_HEAD" by (simp add: zl_pos_def ZIPLIST_ENTRY_HEAD_def ZIPLIST_HEADER_SIZE_def)
    moreover obtain z where "ZIP_DECODE_PREVLEN (zl_block c [] es) (zl_pos es i) = Some (z, zl_pos es i - zl_pos es (i - 1))"
      using prevlen_at [OF assms(1) 3(2)] by blast
    ultimately show ?thesis using get_at [OF assms, of c] 3 less by (auto simp: ziplistPrev_def signed_add_def)
  qed
qed


lemma index_forward_at:
  assumes "walkable es" "i \<le> length es" "0 \<le> k"
  shows "index_forward (zl_block c [] es) (zl_pos es i) k =
    Some (if i + nat k < length es then (zl_pos es (i + nat k), -1) else (zl_pos es (length es), k - int (length es - i)))"
  using assms
proof (induction "length es - i" arbitrary: i k)
  case 0
  then show ?case using get_at [of es i c] by (subst index_forward.simps) auto
next
  case (Suc d)
  then have i: "i < length es" by simp
  obtain b where b: "mem_get (zl_block c [] es) (zl_pos es i) = Some b" "b \<noteq> ZIP_END" using get_at [of es i c] Suc.prems i by auto
  show ?case
  proof (cases "k = 0")
    case True
    then show ?thesis using b i by (subst index_forward.simps) simp
  next
    case False
    have "index_forward (zl_block c [] es) (zl_pos es (Suc i)) (k - 1) =
      Some (if Suc i + nat (k - 1) < length es then (zl_pos es (Suc i + nat (k - 1)), -1) else (zl_pos es (length es), k - 1 - int (length es - Suc i)))"
      by (rule Suc.hyps(1)) (use Suc False i in auto)
    moreover have k: "Suc i + nat (k - 1) = i + nat k" using False Suc.prems(3) by simp
    ultimately show ?thesis using b raw_at [OF Suc.prems(1) i] zl_pos_Suc [OF i] False i
      unfolding k by (subst index_forward.simps) auto
  qed
qed

lemma index_back_at:
  assumes "walkable es" "i < length es" "0 \<le> k"
  shows "index_back (zl_block c [] es) (zl_pos es i) (zl_pos es i - zl_pos es (i - 1)) k =
    Some (if k < int i then (zl_pos es (i - nat k), -1) else (zl_pos es 0, k - int i))"
  using assms
proof (induction i arbitrary: k)
  case 0
  then show ?case by (subst index_back.simps) simp
next
  case (Suc i)
  have less: "zl_pos es i < zl_pos es (Suc i)" using Suc.prems by (intro zl_pos_less) auto
  show ?case
  proof (cases "k = 0")
    case True
    then show ?thesis using less by (subst index_back.simps) simp
  next
    case False
    obtain z where z: "ZIP_DECODE_PREVLEN (zl_block c [] es) (zl_pos es i) = Some (z, zl_pos es i - zl_pos es (i - 1))"
      using prevlen_at [of es i] Suc.prems by auto
    have p: "signed_add (zl_pos es (Suc i)) (- int (zl_pos es (Suc i) - zl_pos es i)) = Some (zl_pos es i)"
      using less by (simp add: signed_add_def)
    have "index_back (zl_block c [] es) (zl_pos es i) (zl_pos es i - zl_pos es (i - 1)) (k - 1) =
        Some (if k - 1 < int i then (zl_pos es (i - nat (k - 1)), -1) else (zl_pos es 0, k - 1 - int i))"
      by (rule Suc.IH) (use Suc.prems False in auto)
    moreover have "k - 1 < int i \<Longrightarrow> i - nat (k - 1) = Suc i - nat k" using False Suc.prems(3) by linarith
    ultimately show ?thesis using less z p False by (subst index_back.simps) (auto simp: algebra_simps)
  qed
qed

theorem ziplistIndex_correct:
  assumes "walkable es" "- (2 ^ 31) < k"
  shows "ziplistIndex (zl_block c [] es) k = Some (
    if 0 \<le> k \<and> k < int (length es) then Some (zl_pos es (nat k))
    else if k < 0 \<and> - k \<le> int (length es) then Some (zl_pos es (length es - nat (- k))) else None)"
proof (cases "0 \<le> k")
  case True
  have "zl_pos es 0 = ZIPLIST_ENTRY_HEAD" by (simp add: zl_pos_def ZIPLIST_ENTRY_HEAD_def ZIPLIST_HEADER_SIZE_def)
  then show ?thesis
    using True index_forward_at [OF assms(1) _ True, of 0 c] get_at [of es "nat k" c] get_at [of es "length es" c] assms(1)
    by (cases "nat k < length es") (auto simp: ziplistIndex_def nat_less_iff)
next
  case False
  show ?thesis
  proof (cases "es = []")
    case True
    then show ?thesis using False assms tail_at [OF assms(1), of c] get_at [of es 0 c] by (auto simp: ziplistIndex_def)
  next
    case ne: False
    let ?i = "length es - 1"
    have i: "?i < length es" using ne by (simp add: neq_Nil_conv)
    obtain b z where b: "mem_get (zl_block c [] es) (zl_pos es ?i) = Some b" "b \<noteq> ZIP_END"
      "ZIP_DECODE_PREVLEN (zl_block c [] es) (zl_pos es ?i) = Some (z, zl_pos es ?i - zl_pos es (?i - 1))"
      using get_at [of es ?i c] prevlen_at [OF assms(1) i, of c] assms(1) i by auto
    have bk: "index_back (zl_block c [] es) (zl_pos es ?i) (zl_pos es ?i - zl_pos es (?i - 1)) (- k - 1) =
        Some (if - k - 1 < int ?i then (zl_pos es (?i - nat (- k - 1)), -1) else (zl_pos es 0, - k - 1 - int ?i))"
      using False by (intro index_back_at assms(1) i) simp
    have pos: "?i - nat (- k - 1) = length es - nat (- k)" using False by linarith
    obtain b0 where b0: "mem_get (zl_block c [] es) (zl_pos es 0) = Some b0" "b0 \<noteq> ZIP_END" using get_at [of es 0 c] assms(1) ne by auto
    obtain b1 where b1: "mem_get (zl_block c [] es) (zl_pos es (length es - nat (- k))) = Some b1" "b1 \<noteq> ZIP_END"
      using get_at [of es "length es - nat (- k)" c] assms(1) ne False by (auto simp: neq_Nil_conv)
    consider "- k - 1 < int ?i" | "- k = int (length es)" | "int (length es) < - k" using i by linarith
    then show ?thesis
      using False assms(2) tail_at [OF assms(1), of c] b bk [unfolded pos] b0 b1 i
      by cases (auto simp: ziplistIndex_def)
  qed
qed


section \<open>Search and length\<close>

text \<open>The first entry equal to \<open>x\<close> among the entries \<open>k\<close>, \<open>k + skip + 1\<close>, and so on.\<close>

fun find_ref :: "byte list list \<Rightarrow> byte list \<Rightarrow> nat \<Rightarrow> nat \<Rightarrow> nat option" where
  "find_ref [] x skip k = None"
| "find_ref (v # vs) x skip 0 = (if v = x then Some 0 else map_option Suc (find_ref vs x skip skip))"
| "find_ref (v # vs) x skip (Suc k) = map_option Suc (find_ref vs x skip k)"

lemma decode_at:
  assumes "walkable es" "i < length es" "es ! i = (lg, pv, s)"
  shows "ZIP_DECODE_PREVLENSIZE (zl_block c [] es) (zl_pos es i) = Some (if lg then 5 else 1)"
    "ZIP_DECODE_LENGTH (zl_block c [] es) (zl_pos es i + (if lg then 5 else 1)) = Some (body_enc s, body_lensize s, body_len s)"
proof -
  have "zipEntry (zl_block c [] es) (zl_pos es i) = Some (entry_info (zl_pos es i) (es ! i))" by (rule entry_at [OF assms(1,2)])
  then show "ZIP_DECODE_PREVLENSIZE (zl_block c [] es) (zl_pos es i) = Some (if lg then 5 else 1)"
    "ZIP_DECODE_LENGTH (zl_block c [] es) (zl_pos es i + (if lg then 5 else 1)) = Some (body_enc s, body_lensize s, body_len s)"
    by (auto simp: zipEntry_def ZIP_DECODE_PREVLEN_def bind_eq_Some_conv entry_info_def assms(3) split: if_splits)
qed

lemma int_match: "zipTryEncoding s = Some (v, e) \<Longrightarrow> (case map_option fst (zipTryEncoding x) of None \<Rightarrow> False | Some u \<Rightarrow> v = u) \<longleftrightarrow> s = x"
  using zipTryEncoding_value [of s v e] zipTryEncoding_value [of x] by (cases "zipTryEncoding x") auto

lemma find_loop_at:
  assumes "walkable es" "i \<le> length es" "vc = None \<or> vc = Some (map_option fst (zipTryEncoding x))"
  shows "find_loop (zl_block c [] es) (zl_pos es i) x skip k vc =
    Some (map_option (\<lambda>j. zl_pos es (i + j)) (find_ref (drop i (zvals es)) x skip k))"
  using assms
proof (induction "length es - i" arbitrary: i k vc)
  case 0
  then show ?case using get_at [of es i c] by (subst find_loop.simps) auto
next
  case (Suc d)
  then have i: "i < length es" by simp
  obtain lg pv s where e: "es ! i = (lg, pv, s)" by (cases "es ! i")
  have drop: "drop i (zvals es) = s # drop (Suc i) (zvals es)" using i e by (simp add: zvals_nth flip: Cons_nth_drop_Suc)
  obtain b where b: "mem_get (zl_block c [] es) (zl_pos es i) = Some b" "b \<noteq> ZIP_END" using get_at [of es i c] Suc.prems i by auto
  define z where "z = (if lg then 5 else 1 :: nat)"
  have next_pos: "zl_pos es i + z + body_lensize s + body_len s = zl_pos es (Suc i)"
    using zl_pos_Suc [OF i] by (simp add: e entry_size_eq length_zip_body z_def)
  have IH: "find_loop (zl_block c [] es) (zl_pos es (Suc i)) x skip k' vc' =
      Some (map_option (\<lambda>j. zl_pos es (Suc i + j)) (find_ref (drop (Suc i) (zvals es)) x skip k'))"
    if "vc' = None \<or> vc' = Some (map_option fst (zipTryEncoding x))" for k' vc'
    by (rule Suc.hyps(1)) (use Suc that i in auto)
  note step = b(1) decode_at [OF Suc.prems(1) i e, folded z_def] Option.bind.simps prod.case Let_def next_pos
  consider k' where "k = Suc k'" | "k = 0" "zipTryEncoding s = None" | v enc where "k = 0" "zipTryEncoding s = Some (v, enc)"
    by (cases k; cases "zipTryEncoding s") auto
  then show ?case
  proof cases
    case 1
    then show ?thesis using IH [OF Suc.prems(3)] b(2)
      by (subst find_loop.simps) (simp add: step drop option.map_comp comp_def)
  next
    case 2
    have "ZIP_IS_STR (body_enc s)" "body_len s = length s" using 2 by (simp_all add: is_str_body body_len_def)
    then show ?thesis using IH [OF Suc.prems(3)] b(2) payload_at(1) [OF Suc.prems(1) i e 2(2), of c, folded z_def] 2 next_pos
      by (subst find_loop.simps) (auto simp: step drop option.map_comp comp_def)
  next
    case 3
    have "\<not> ZIP_IS_STR (body_enc s)" "body_enc s = enc" using 3 is_str_body [of s] by (simp_all add: body_enc_def)
    moreover have "(case vc of None \<Rightarrow> map_option fst (zipTryEncoding x) | Some v \<Rightarrow> v) = map_option fst (zipTryEncoding x)"
      using Suc.prems(3) by auto
    ultimately show ?thesis using IH [of "Some (map_option fst (zipTryEncoding x))"] b(2) payload_at(2) [OF Suc.prems(1) i e 3(2), of c, folded z_def] 3 int_match [OF 3(2), of x]
      by (subst find_loop.simps) (auto simp: step drop option.map_comp comp_def split: option.splits)
  qed
qed

theorem ziplistFind_correct:
  assumes "walkable es" "i \<le> length es"
  shows "ziplistFind (zl_block c [] es) (zl_pos es i) x skip = Some (map_option (\<lambda>j. zl_pos es (i + j)) (find_ref (drop i (zvals es)) x skip 0))"
  unfolding ziplistFind_def by (rule find_loop_at [OF assms]) simp

lemma len_loop_at:
  assumes "walkable es" "i \<le> length es"
  shows "len_loop (zl_block c [] es) (zl_pos es i) n = Some (n + (length es - i))"
  using assms
proof (induction "length es - i" arbitrary: i n)
  case 0
  then show ?case using get_at [of es i c] by (subst len_loop.simps) auto
next
  case (Suc d)
  then have i: "i < length es" by simp
  have "len_loop (zl_block c [] es) (zl_pos es (Suc i)) (Suc n) = Some (Suc n + (length es - Suc i))"
    by (rule Suc.hyps(1)) (use Suc i in auto)
  then show ?case using get_at [of es i c] Suc.prems i raw_at [OF Suc.prems(1) i, of c] zl_pos_Suc [OF i]
    by (subst len_loop.simps) auto
qed

text \<open>The number of entries, also when there are too many for the field; the field is refreshed if it can be.\<close>

theorem ziplistLen_correct:
  assumes "zl_inv c es" "11 + length (entries es) < 2 ^ 32"
  shows "\<exists>c'. ziplistLen (zl_block c [] es) = Some (zl_block c' [] es, length es) \<and> zl_inv c' es"
proof -
  have w: "walkable es" "0 \<le> c" "c < 65536" "c < 65535 \<Longrightarrow> c = int (length es)" using assms by (auto simp: zl_inv_def walkable_def)
  have n: "ZIPLIST_LENGTH (zl_block c [] es) = Some (nat c)" unfolding zl_block_def using w by (intro header_get)
  have pos0: "zl_pos es 0 = ZIPLIST_HEADER_SIZE" by (simp add: zl_pos_def ZIPLIST_HEADER_SIZE_def)
  show ?thesis
  proof (cases "c < 65535")
    case True
    then show ?thesis using n w assms(1) by (intro exI [of _ c]) (simp add: ziplistLen_def UINT16_MAX_def)
  next
    case False
    let ?c = "if length es < 65535 then int (length es) else c"
    have "ziplistLen (zl_block c [] es) = Some (zl_block ?c [] es, length es)"
      using False n len_loop_at [OF w(1), of 0 c 0] pos0 w(2) by (simp add: ziplistLen_def UINT16_MAX_def nat_less_iff) (simp add: zl_block_def)
    moreover have "zl_inv ?c es" using assms(1) by (auto simp: zl_inv_def)
    ultimately show ?thesis by blast
  qed
qed

end
