(* ===== verification/Ziplist_List.thy ===== *)
theory Ziplist_List
  imports Ziplist_Walk
begin

text \<open>
  A ziplist as a list of byte strings. \<open>cursor zl vs i p\<close> says that \<open>zl\<close> holds the values \<open>vs\<close> and that the
  pointer \<open>p\<close> is at the entry with index \<open>i\<close> (the end marker, when \<open>i\<close> is their number); \<open>place\<close> says in addition that an
  entry of any size may be inserted there. The laws of the operations are stated over these two.
\<close>

section \<open>Space\<close>

text \<open>An upper bound for the bytes of a ziplist in terms of its values.\<close>

definition zl_cost :: "byte list list \<Rightarrow> nat" where
  "zl_cost vs = sum_list (map (\<lambda>v. length v + 14) vs)"

definition fits :: "byte list list \<Rightarrow> bool" where
  "fits vs \<longleftrightarrow> 11 + zl_cost vs < 2 ^ 30"

lemma zl_cost_simps [simp]:
  "zl_cost [] = 0" "zl_cost (v # vs) = length v + 14 + zl_cost vs" "zl_cost (vs @ ws) = zl_cost vs + zl_cost ws"
  by (simp_all add: zl_cost_def)

lemma entries_cost: "length (entries es) \<le> zl_cost (zvals es)"
proof (induction es)
  case (Cons e es)
  obtain lg pv s where e: "e = (lg, pv, s)" by (cases e)
  show ?case using Cons.IH entry_size_bound [of lg pv s] by (simp add: e entry_size_def)
qed simp

lemma zl_cost_split: "zl_cost vs = zl_cost (take i vs) + zl_cost (drop i vs)"
  by (simp flip: zl_cost_simps(3))

lemma fits_remove: "fits vs \<Longrightarrow> fits (take i vs @ drop (i + n) vs)"
  using zl_cost_split [of vs i] zl_cost_split [of "drop i vs" n] by (simp add: fits_def add.commute)

section \<open>Cursors\<close>

definition safe_at :: "zent list \<Rightarrow> nat \<Rightarrow> bool" where
  "safe_at es i \<longleftrightarrow> (i < length es \<and> fst (es ! i) \<longrightarrow> 254 \<le> last_size (take i es))"

definition cursor :: "byte list \<Rightarrow> byte list list \<Rightarrow> nat \<Rightarrow> nat \<Rightarrow> bool" where
  "cursor zl vs i p \<longleftrightarrow> (\<exists>c es. zl = zl_block c [] es \<and> zl_inv c es \<and> zvals es = vs \<and> i \<le> length es \<and> p = zl_pos es i)"

definition place :: "byte list \<Rightarrow> byte list list \<Rightarrow> nat \<Rightarrow> nat \<Rightarrow> bool" where
  "place zl vs i p \<longleftrightarrow> (\<exists>c es. zl = zl_block c [] es \<and> zl_inv c es \<and> zvals es = vs \<and> i \<le> length es \<and> p = zl_pos es i \<and> safe_at es i)"

definition ziplist :: "byte list \<Rightarrow> byte list list \<Rightarrow> bool" where
  "ziplist zl vs \<longleftrightarrow> (\<exists>c es. zl = zl_block c [] es \<and> zl_inv c es \<and> zvals es = vs)"

lemma cursorI: "zl_inv c es \<Longrightarrow> i \<le> length es \<Longrightarrow> cursor (zl_block c [] es) (zvals es) i (zl_pos es i)"
  unfolding cursor_def by blast

lemma place_cursor: "place zl vs i p \<Longrightarrow> cursor zl vs i p"
  unfolding place_def cursor_def by blast

lemma cursor_ziplist: "cursor zl vs i p \<Longrightarrow> ziplist zl vs"
  unfolding cursor_def ziplist_def by blast

lemma inv_walkable: "zl_inv c es \<Longrightarrow> fits (zvals es) \<Longrightarrow> walkable es"
  using entries_cost [of es] by (simp add: zl_inv_def walkable_def fits_def)

lemma safe_at_insert: "safe_at es i \<Longrightarrow> i \<le> length es \<Longrightarrow> insert_safe (take i es) s (drop i es)"
  by (auto simp: safe_at_def insert_safe_def hd_drop_conv_nth entry_size_eq)

section \<open>Laws\<close>

lemma ziplistNew_block: "ziplistNew garb = Some (zl_block 0 [] [])"
  by (simp add: ziplistNew_def ZIPLIST_HEADER_SIZE_def set_BYTES_def set_TAIL_OFFSET_def set_LENGTH_def mem_write_def mem_set_def
    zl_block_def zl_header_def numeral_eq_Suc upt_rec)

lemma ziplist_new: "\<exists>zl. ziplistNew garb = Some zl \<and> ziplist zl []"
proof -
  have "zl_inv 0 []" by (simp add: zl_inv_def)
  then show ?thesis unfolding ziplistNew_block ziplist_def by (metis zvals_simps(1))
qed

lemma insert_law:
  assumes "place zl vs i p" "fits (take i vs @ s # drop i vs)"
  shows "\<exists>zl'. ziplistInsert garb zl p s = Some zl' \<and> cursor zl' (take i vs @ s # drop i vs) i p"
proof -
  obtain c es where es: "zl = zl_block c [] es" "zl_inv c es" "zvals es = vs" "i \<le> length es" "p = zl_pos es i" "safe_at es i"
    using assms(1) unfolding place_def by blast
  let ?A = "take i es" and ?B = "drop i es"
  have vals: "zvals ?A = take i vs" "zvals ?B = drop i vs" using es(3) by (auto simp: zvals_def take_map drop_map)
  have size: "11 + length (entries (?A @ ?B)) + length s < 2 ^ 30"
    using entries_cost [of es] assms(2) es(3) zl_cost_split [of vs i] by (simp add: fits_def)
  let ?new = "(254 \<le> last_size ?A, last_size ?A, s)"
  define B' where "B' = relink (entry_size ?new) ?B"
  obtain c' where B': "ziplistInsert garb (zl_block c [] (?A @ ?B)) (10 + length (entries ?A)) s = Some (zl_block c' [] (?A @ ?new # B'))"
    "zl_inv c' (?A @ ?new # B')" "zvals B' = zvals ?B"
    using ziplistInsert_correct [of c ?A ?B s garb] es(2) safe_at_insert [OF es(6,4)] size unfolding B'_def by auto
  have "cursor (zl_block c' [] (?A @ (254 \<le> last_size ?A, last_size ?A, s) # B')) (take i vs @ s # drop i vs) i p"
    unfolding cursor_def
    by (rule exI [of _ c'], rule exI [of _ "?A @ (254 \<le> last_size ?A, last_size ?A, s) # B'"])
      (use B'(2,3) vals es in \<open>auto simp: zl_pos_def\<close>)
  then show ?thesis using B'(1) es(1,5) by (simp add: zl_pos_def)
qed

lemma delete_at_law:
  assumes "cursor zl vs i p" "fits vs" "i < length vs" "0 < n"
  shows "\<exists>zl'. ziplistDelete_at garb zl p n = Some zl' \<and> place zl' (take i vs @ drop (i + n) vs) i p"
proof -
  obtain c es where es: "zl = zl_block c [] es" "zl_inv c es" "zvals es = vs" "i \<le> length es" "p = zl_pos es i"
    using assms(1) unfolding cursor_def by blast
  let ?A = "take i es" and ?D = "take n (drop i es)" and ?B = "drop (i + n) es"
  have split: "?A @ ?D @ ?B = es" by (metis append_take_drop_id drop_drop add.commute)
  have vals: "zvals ?A = take i vs" "zvals ?B = drop (i + n) vs" using es(3) by (auto simp: zvals_def take_map drop_map)
  have i: "i < length es" using assms(3) es(3) by auto
  have size: "11 + length (entries (?A @ ?D @ ?B)) < 2 ^ 30"
    using entries_cost [of es] assms(2) es(3) unfolding split by (simp add: fits_def)
  have "n \<le> length es - i \<or> length es \<le> i + n" by linarith
  then obtain c' where del: "ziplistDelete_at garb (zl_block c [] (?A @ ?D @ ?B)) (10 + length (entries ?A)) n =
      Some (zl_block c' [] (?A @ relink (last_size ?A) ?B))" "zl_inv c' (?A @ relink (last_size ?A) ?B)" "zvals (relink (last_size ?A) ?B) = zvals ?B"
    using ziplistDelete_at_correct [of c ?A ?D ?B n garb] es(2) size i assms(4) unfolding split by (auto simp: split)
  have "safe_at (?A @ relink (last_size ?A) ?B) i"
    using i by (auto simp: safe_at_def nth_append relink_def split: list.splits prod.splits)
  then have "place (zl_block c' [] (?A @ relink (last_size ?A) ?B)) (take i vs @ drop (i + n) vs) i p"
    unfolding place_def
    by (intro exI [of _ c'] exI [of _ "?A @ relink (last_size ?A) ?B"]) (use del(2,3) vals es i in \<open>auto simp: zl_pos_def\<close>)
  then show ?thesis using del(1) es(1,5) unfolding split by (simp add: zl_pos_def)
qed


text \<open>From here on the layout is closed: what follows rests on the laws below and the two above.\<close>

lemma head_place: "ziplist zl vs \<Longrightarrow> place zl vs 0 ZIPLIST_ENTRY_HEAD"
  unfolding ziplist_def place_def
  by (fastforce simp: zl_pos_def ZIPLIST_ENTRY_HEAD_def ZIPLIST_HEADER_SIZE_def safe_at_def zl_inv_def hd_conv_nth)

lemma end_place:
  assumes "ziplist zl vs" "fits vs"
  shows "\<exists>p. ZIPLIST_ENTRY_END zl = Some p \<and> place zl vs (length vs) p"
proof -
  obtain c es where es: "zl = zl_block c [] es" "zl_inv c es" "zvals es = vs" using assms(1) unfolding ziplist_def by blast
  have "ZIPLIST_BYTES zl = Some (11 + length (entries es))"
    unfolding es(1) zl_block_def by (subst header_get_nat) (use entries_cost [of es] assms(2) es(3) in \<open>simp_all add: fits_def\<close>)
  then have "ZIPLIST_ENTRY_END zl = Some (zl_pos es (length es))"
    by (simp add: ZIPLIST_ENTRY_END_def signed_add_def zl_pos_def)
  moreover have "place zl vs (length vs) (zl_pos es (length es))"
    unfolding place_def using es by (intro exI [of _ c] exI [of _ es]) (auto simp: safe_at_def)
  ultimately show ?thesis by blast
qed

lemma get_law:
  assumes "cursor zl vs i p" "fits vs"
  shows "ziplistGet zl (Some p) = Some (if i < length vs then Some (zval_of (vs ! i)) else None)"
  using assms ziplistGet_correct [OF inv_walkable] unfolding cursor_def by fastforce

lemma compare_law: "cursor zl vs i p \<Longrightarrow> fits vs \<Longrightarrow> i < length vs \<Longrightarrow> ziplistCompare zl p x = Some (vs ! i = x)"
  using ziplistCompare_correct [OF inv_walkable] unfolding cursor_def by fastforce

lemma next_law:
  assumes "cursor zl vs i p" "fits vs" "i < length vs"
  shows "if Suc i < length vs then \<exists>q. ziplistNext zl p = Some (Some q) \<and> cursor zl vs (Suc i) q else ziplistNext zl p = Some None"
proof -
  obtain c es where es: "zl = zl_block c [] es" "zl_inv c es" "zvals es = vs" "i \<le> length es" "p = zl_pos es i"
    using assms(1) unfolding cursor_def by blast
  have "cursor zl vs (Suc i) (zl_pos es (Suc i))" if "Suc i < length vs" using cursorI [OF es(2), of "Suc i"] es that by auto
  then show ?thesis using ziplistNext_correct [of es i c] inv_walkable [OF es(2)] es assms(2,3) by auto
qed

lemma prev_law:
  assumes "cursor zl vs i p" "fits vs"
  shows "if i = 0 then ziplistPrev zl p = Some None else \<exists>q. ziplistPrev zl p = Some (Some q) \<and> cursor zl vs (i - 1) q"
proof -
  obtain c es where es: "zl = zl_block c [] es" "zl_inv c es" "zvals es = vs" "i \<le> length es" "p = zl_pos es i"
    using assms(1) unfolding cursor_def by blast
  have "cursor zl vs (i - 1) (zl_pos es (i - 1))" using cursorI [OF es(2), of "i - 1"] es by auto
  then show ?thesis using ziplistPrev_correct [of es i c] inv_walkable [OF es(2)] es assms(2) by auto
qed

text \<open>The index of the C interface: from the front, or from the back when negative.\<close>

definition norm_index :: "int \<Rightarrow> nat \<Rightarrow> nat option" where
  "norm_index k n = (if 0 \<le> k \<and> k < int n then Some (nat k) else if k < 0 \<and> - k \<le> int n then Some (n - nat (- k)) else None)"

lemma index_law:
  assumes "ziplist zl vs" "fits vs" "- (2 ^ 31) < k"
  shows "case norm_index k (length vs) of
      Some i \<Rightarrow> i < length vs \<and> (\<exists>p. ziplistIndex zl k = Some (Some p) \<and> cursor zl vs i p)
    | None \<Rightarrow> ziplistIndex zl k = Some None"
proof -
  obtain c es where es: "zl = zl_block c [] es" "zl_inv c es" "zvals es = vs" using assms(1) unfolding ziplist_def by blast
  have len: "length vs = length es" using es(3) by auto
  have "cursor zl vs i (zl_pos es i)" if "i < length es" for i using cursorI [OF es(2), of i] es that by auto
  moreover have "i < length es" if "norm_index k (length es) = Some i" for i
    using that by (auto simp: norm_index_def split: if_splits)
  ultimately show ?thesis
    using ziplistIndex_correct [OF inv_walkable [OF es(2)] assms(3), of c] assms(2) es(1,3)
    unfolding len by (auto simp: norm_index_def split: option.splits if_splits)
qed

lemma find_ref_bound: "find_ref vs x skip k = Some j \<Longrightarrow> j < length vs"
  by (induction vs x skip k arbitrary: j rule: find_ref.induct) (auto split: if_splits)

lemma find_law:
  assumes "cursor zl vs i p" "fits vs"
  shows "case find_ref (drop i vs) x skip 0 of
      Some j \<Rightarrow> i + j < length vs \<and> (\<exists>q. ziplistFind zl p x skip = Some (Some q) \<and> cursor zl vs (i + j) q)
    | None \<Rightarrow> ziplistFind zl p x skip = Some None"
proof -
  obtain c es where es: "zl = zl_block c [] es" "zl_inv c es" "zvals es = vs" "i \<le> length es" "p = zl_pos es i"
    using assms(1) unfolding cursor_def by blast
  have "cursor zl vs k (zl_pos es k)" if "k < length vs" for k using cursorI [OF es(2), of k] es that by auto
  then show ?thesis
    using ziplistFind_correct [OF inv_walkable [OF es(2)] es(4), of c x skip] assms(2) es find_ref_bound [of "drop i vs" x skip 0]
    by (fastforce split: option.splits)
qed

lemma len_law:
  assumes "ziplist zl vs" "fits vs"
  shows "\<exists>zl'. ziplistLen zl = Some (zl', length vs) \<and> ziplist zl' vs"
proof -
  obtain c es where es: "zl = zl_block c [] es" "zl_inv c es" "zvals es = vs" using assms(1) unfolding ziplist_def by blast
  then show ?thesis using ziplistLen_correct [OF es(2)] entries_cost [of es] assms(2) by (fastforce simp: fits_def ziplist_def)
qed

lemma bloblen_law:
  assumes "ziplist zl vs" "fits vs"
  shows "ziplistBlobLen zl = Some (length zl)"
proof -
  obtain c es where es: "zl = zl_block c [] es" "zvals es = vs" using assms(1) unfolding ziplist_def by blast
  show ?thesis unfolding es(1) zl_block_def ziplistBlobLen_def
    by (subst header_get_nat) (use entries_cost [of es] assms(2) es in \<open>auto simp: fits_def\<close>)
qed

section \<open>Push and deletion\<close>

lemma push_law:
  assumes "ziplist zl vs" "fits (s # vs)"
  shows "\<exists>zl'. ziplistPush garb zl s wh = Some zl' \<and> ziplist zl' (if wh = ZIPLIST_HEAD then s # vs else vs @ [s])"
proof (cases "wh = ZIPLIST_HEAD")
  case True
  then show ?thesis using insert_law [OF head_place [OF assms(1)], of s garb] assms(2)
    by (auto simp: ziplistPush_def dest: cursor_ziplist)
next
  case False
  obtain p where p: "ZIPLIST_ENTRY_END zl = Some p" "place zl vs (length vs) p"
    using end_place [OF assms(1)] assms(2) by (auto simp: fits_def)
  have "fits (vs @ [s])" using assms(2) by (simp add: fits_def)
  then show ?thesis using insert_law [OF p(2), of s garb] p(1) False by (auto simp: ziplistPush_def dest: cursor_ziplist)
qed

lemma delete_law:
  assumes "cursor zl vs i p" "fits vs" "i < length vs"
  shows "\<exists>zl'. ziplistDelete garb zl p = Some (zl', p) \<and> place zl' (take i vs @ drop (Suc i) vs) i p"
  using delete_at_law [OF assms, of 1 garb] by (auto simp: ziplistDelete_def)

text \<open>Replacing an entry, as \<open>LSET\<close> and \<open>HSET\<close> do.\<close>

lemma replace_law:
  assumes "cursor zl vs i p" "fits (s # vs)" "i < length vs"
  shows "\<exists>zl1 zl2. ziplistDelete garb zl p = Some (zl1, p) \<and> ziplistInsert garb zl1 p s = Some zl2 \<and> ziplist zl2 (vs[i := s])"
proof -
  have f: "fits vs" "fits (vs[i := s])"
    using assms(2) zl_cost_split [of vs i] zl_cost_split [of "drop i vs" 1] by (simp_all add: fits_def upd_conv_take_nth_drop [OF assms(3)])
  obtain zl1 where zl1: "ziplistDelete garb zl p = Some (zl1, p)" "place zl1 (take i vs @ drop (Suc i) vs) i p"
    using delete_law [OF assms(1) f(1) assms(3)] by blast
  have "take i (take i vs @ drop (Suc i) vs) @ s # drop i (take i vs @ drop (Suc i) vs) = vs[i := s]"
    using assms(3) by (simp add: upd_conv_take_nth_drop min_def)
  then show ?thesis using insert_law [OF zl1(2), of s garb] zl1(1) f(2) by (auto dest: cursor_ziplist)
qed

lemma delete_range_law:
  assumes "ziplist zl vs" "fits vs" "i < 2 ^ 31"
  shows "\<exists>zl'. ziplistDeleteRange garb zl i n = Some zl' \<and> ziplist zl' (take i vs @ drop (i + n) vs)"
proof (cases "i < length vs")
  case True
  have "norm_index (int i) (length vs) = Some i" using True by (simp add: norm_index_def)
  then obtain p where p: "ziplistIndex zl (s32 (int i)) = Some (Some p)" "cursor zl vs i p"
    using index_law [OF assms(1,2), of "int i"] assms(3) by auto
  show ?thesis
  proof (cases "n = 0")
    case False
    then show ?thesis using delete_at_law [OF p(2) assms(2) True, of n garb] p(1)
      by (auto simp: ziplistDeleteRange_def dest: place_cursor cursor_ziplist)
  next
    case n0: True
    obtain c es where es: "zl = zl_block c [] es" "zl_inv c es" "zvals es = vs" "p = zl_pos es i" using p(2) unfolding cursor_def by blast
    have w: "walkable es" "i < length es" using inv_walkable [OF es(2)] assms(2) True es(3) by auto
    have "ziplistDelete_at garb zl p 0 = Some zl"
      using entry_at [OF w, of c] get_at [OF w(1), of i c] w(2) by (auto simp: ziplistDelete_at_def es(1,4) entry_info_def u32_def split: prod.splits)
    then show ?thesis using p(1) n0 assms(1) by (simp add: ziplistDeleteRange_def)
  qed
next
  case False
  have "norm_index (int i) (length vs) = None" using False by (simp add: norm_index_def)
  then show ?thesis using index_law [OF assms(1,2), of "int i"] assms False by (simp add: ziplistDeleteRange_def)
qed

end
