(* ===== verification/Ziplist_Overflow.thy ===== *)
theory Ziplist_Overflow
  imports Ziplist_List
begin

text \<open>
  The insertion that \<open>insert_safe\<close> excludes: the block is shrunk before the entries behind the new one have been moved, so
  that the move reads behind its end. A list of three entries from which the first is deleted shows that pushes and a deletion lead there.
\<close>

lemma resize_cut:
  assumes "L = int (10 + length P + length E - k)" "k < length E" "L < 2 ^ 32"
  shows "ziplistResize garb (zl_header b t c @ P @ E) L =
    Some (zl_header L t c @ P @ butlast (take (length E - k) E) @ [ZIP_END])"
proof -
  have n: "nat (L mod 2 ^ 32) = 10 + length P + (length E - k)" using assms by simp
  have "mem_resize garb (zl_header b t c @ P @ E) (10 + length P + (length E - k)) = zl_header b t c @ P @ take (length E - k) E"
    using assms(2) by (simp add: mem_resize_def)
  moreover have "int (10 + length P + (length E - k)) = L" using assms by simp
  moreover have "mem_set ((zl_header L t c @ P) @ take (length E - k) E) (10 + length P + (length E - k) - 1) ZIP_END =
      Some ((zl_header L t c @ P) @ butlast (take (length E - k) E) @ [ZIP_END])"
    using assms(2) by (intro mem_set_last) auto
  ultimately show ?thesis unfolding ziplistResize_def n Let_def by simp
qed

lemma room_overflow:
  assumes "entry_ok (True, pv, t)" "11 + length P + length (entries ((True, pv, t) # R)) < 2 ^ 32"
  shows "insert_room garb (zl_block c P ((True, pv, t) # R)) (10 + length P) (11 + length P + length (entries ((True, pv, t) # R))) 2 (- 4) = None"
proof -
  let ?C = "11 + length P + length (entries ((True, pv, t) # R))"
  define E where "E = entries ((True, pv, t) # R) @ [ZIP_END]"
  have zl: "zl_block c P ((True, pv, t) # R) = zl_header (int ?C) (int (10 + length P + length (entries (butlast ((True, pv, t) # R))))) c @ P @ E"
    by (simp add: zl_block_def E_def)
  have E: "6 < length E" "E ! 0 = 254" "?C = 10 + length P + length E"
    using body_lensize_pos [of t] by (simp_all add: E_def prev_field_def length_zip_body zip_consts)
  define F where "F = butlast (take (length E - 2) E) @ [ZIP_END]"
  have F: "length F = length E - 2" "F ! 0 = 254" using E by (simp_all add: F_def nth_append nth_butlast)
  have resize: "\<exists>T. ziplistResize garb (zl_block c P ((True, pv, t) # R)) (int ?C + int 2 + - 4) = Some (zl_header (int ?C - 2) T c @ P @ F)"
    unfolding zl F_def using resize_cut [of "int ?C - 2" P E 2 garb] E assms(2) by (auto simp: of_nat_diff)
  then obtain T where T: "ziplistResize garb (zl_block c P ((True, pv, t) # R)) (int ?C + int 2 + - 4) = Some (zl_header (int ?C - 2) T c @ P @ F)"
    by blast
  have "mem_get (zl_header (int ?C - 2) T c @ P @ F) (10 + length P) = Some 254"
    using F E by (simp add: mem_get_def nth_append)
  moreover have "signed_add ?C (- int (10 + length P) - 1 + - 4) = Some (length E - 5)" "signed_add (10 + length P) (- (- 4)) = Some (14 + length P)"
    using E by (simp_all add: signed_add_def)
  moreover have "memmove (zl_header (int ?C - 2) T c @ P @ F) (10 + length P + 2) (14 + length P) (length E - 5) = None"
    using E F by (simp add: memmove_def mem_read_def)
  moreover have "(254 :: byte) \<noteq> ZIP_END" by (simp add: zip_consts)
  ultimately show ?thesis unfolding insert_room_def T Option.bind.simps by (simp only: Option.bind.simps if_True simp_thms)
qed

lemma insert_overflow:
  assumes inv: "zl_inv c (A @ (True, pv, t) # R)" and size: "11 + length (entries (A @ (True, pv, t) # R)) < 2 ^ 30"
    and small: "entry_size (254 \<le> last_size A, last_size A, s) = 2"
  shows "ziplistInsert garb (zl_block c [] (A @ (True, pv, t) # R)) (10 + length (entries A)) s = None"
proof -
  let ?zl = "zl_block c [] (A @ (True, pv, t) # R)"
  let ?p = "10 + length (entries A)"
  let ?C = "11 + length (entries A) + length (entries ((True, pv, t) # R))"
  obtain v e r where code: "insert_code s = (v, e, r)" by (cases "insert_code s")
  have ok: "list_all entry_ok (A @ (True, pv, t) # R)" "linked 0 (A @ (True, pv, t) # R)" "entry_ok (True, pv, t)" using inv by (auto simp: zl_inv_def)
  have pr: "last_size A < 2 ^ 32" using last_size_bound [of A] size by simp
  have k: "r + zipPrevEncodeLength_size (last_size A) + zipEncodeLength_size e (length s) = 2"
    using insert_code_size [OF code pr] small by simp
  have zl: "?zl = zl_block c (entries A) ((True, pv, t) # R)" using zl_block_append [of "(True, pv, t) # R" c "[]" A] by simp
  have bytes: "ZIPLIST_BYTES ?zl = Some ?C" unfolding zl zl_block_def by (subst header_get_nat) (use size in simp_all)
  have prevlen: "insert_prevlen ?zl ?p = Some (last_size A)" using ok size by (intro insert_prevlen_block) simp_all
  obtain b where b: "mem_get ?zl ?p = Some b" "b \<noteq> ZIP_END" using block_get [OF ok(3), of c "entries A" R] zl by auto
  have diff: "zipPrevLenByteDiff ?zl ?p 2 = Some (- 4)" unfolding zl using prevLenByteDiff_block [OF ok(3), of 2 c "entries A" R] by simp
  have room: "insert_room garb ?zl ?p ?C 2 (- 4) = None" unfolding zl by (rule room_overflow [OF ok(3)]) (use size in simp)
  show ?thesis
    unfolding ziplistInsert_def insert_code_def [symmetric] bytes prevlen code Option.bind.simps Let_def prod.case k b(1)
      if_P [OF b(2)] diff room by simp
qed

section \<open>A history that leads there\<close>

lemma entries_sizes: "length (entries es) = sum_list (map entry_size es)"
  by (induction es) (simp_all add: entry_size_def)

lemma tail_push:
  assumes "zl_inv c es" "11 + sum_list (map entry_size es) + length s < 2 ^ 30"
  shows "\<exists>c'. ziplistPush garb (zl_block c [] es) s ZIPLIST_TAIL = Some (zl_block c' [] (es @ [(254 \<le> last_size es, last_size es, s)])) \<and>
    zl_inv c' (es @ [(254 \<le> last_size es, last_size es, s)])"
proof -
  have "ZIPLIST_BYTES (zl_block c [] es) = Some (11 + length (entries es))"
    unfolding zl_block_def by (subst header_get_nat) (use assms(2) in \<open>simp_all add: entries_sizes\<close>)
  then have "ZIPLIST_ENTRY_END (zl_block c [] es) = Some (10 + length (entries es))" by (simp add: ZIPLIST_ENTRY_END_def signed_add_def)
  moreover have "insert_safe es s []" by (simp add: insert_safe_def)
  ultimately show ?thesis using ziplistInsert_correct [of c es "[]" s garb] assms
    by (simp add: ziplistPush_def ZIPLIST_TAIL_def ZIPLIST_HEAD_def relink_def entries_sizes)
qed

lemma big_entry: "length s = n \<Longrightarrow> 63 < n \<Longrightarrow> n \<le> 0x3fff \<Longrightarrow> entry_size (lg, pv, s) = (if lg then 7 else 3) + n"
proof -
  assume n: "length s = n" "63 < n" "n \<le> 0x3fff"
  then have "zipTryEncoding s = None" by (simp add: zipTryEncoding_def)
  then show ?thesis using n by (simp add: entry_size_eq zip_body_def zipEncodeLength_buf_def zip_consts)
qed

lemma overflow_history:
  assumes len: "length a = 300" "length b = 250" and d: "length d < 1000" and small: "entry_size (False, 253, s) = 2"
  shows "\<exists>z0 z1 z2 z3 z4. ziplistNew garb = Some z0 \<and> ziplistPush garb z0 a ZIPLIST_TAIL = Some z1 \<and> ziplistPush garb z1 b ZIPLIST_TAIL = Some z2 \<and>
    ziplistPush garb z2 d ZIPLIST_TAIL = Some z3 \<and> ziplistDeleteRange garb z3 0 1 = Some z4 \<and> ziplistIndex z4 1 = Some (Some 263) \<and>
    ziplist z4 [b, d] \<and> ziplistInsert garb z4 263 s = None"
proof -
  have sa: "entry_size (False, 0, a) = 303" "entry_size (False, 0, b) = 253" "entry_size (True, 303, b) = 257"
    using len big_entry by simp_all
  have sd: "entry_size (True, 257, d) \<le> 1014" "entry_size (True, 253, d) \<le> 1014"
    using d entry_size_bound [of True 257 d] entry_size_bound [of True 253 d] by simp_all
  obtain c1 where 1: "ziplistPush garb (zl_block 0 [] []) a ZIPLIST_TAIL = Some (zl_block c1 [] [(False, 0, a)])" "zl_inv c1 [(False, 0, a)]"
    using tail_push [of 0 "[]" a garb] len by (auto simp: last_size_def zl_inv_def)
  obtain c2 where 2: "ziplistPush garb (zl_block c1 [] [(False, 0, a)]) b ZIPLIST_TAIL = Some (zl_block c2 [] [(False, 0, a), (True, 303, b)])"
    "zl_inv c2 [(False, 0, a), (True, 303, b)]"
    using tail_push [OF 1(2), of b garb] len sa by (auto simp: last_size_def)
  obtain c3 where 3: "ziplistPush garb (zl_block c2 [] [(False, 0, a), (True, 303, b)]) d ZIPLIST_TAIL =
      Some (zl_block c3 [] [(False, 0, a), (True, 303, b), (True, 257, d)])" "zl_inv c3 [(False, 0, a), (True, 303, b), (True, 257, d)]"
    using tail_push [OF 2(2), of d garb] len d sa by (auto simp: last_size_def)
  let ?es = "[(False, 0, b), (True, 253, d)]"
  have relink: "relink 0 [(True, 303, b), (True, 257, d)] = ?es" using sa by (simp add: relink_def)
  obtain c4 where 4: "ziplistDelete_at garb (zl_block c3 [] [(False, 0, a), (True, 303, b), (True, 257, d)]) 10 1 = Some (zl_block c4 [] ?es)" "zl_inv c4 ?es"
    using ziplistDelete_at_correct [of c3 "[]" "[(False, 0, a)]" "[(True, 303, b), (True, 257, d)]" 1 garb] 3(2) sa sd relink
    by (auto simp: last_size_def entries_sizes simp del: entries_simps)
  have size3: "walkable [(False, 0, a), (True, 303, b), (True, 257, d)]" "walkable ?es"
    using 3(2) 4(2) sa sd by (simp_all add: walkable_def zl_inv_def entries_sizes del: entries_simps)
  have z3: "cursor (zl_block c3 [] [(False, 0, a), (True, 303, b), (True, 257, d)]) [a, b, d] 0 10"
    using cursorI [OF 3(2), of 0] by (simp add: zl_pos_def)
  have z4: "cursor (zl_block c4 [] ?es) [b, d] 1 263"
    using cursorI [OF 4(2), of 1] sa by (simp add: zl_pos_def entries_sizes del: entries_simps)
  have "ziplistIndex (zl_block c3 [] [(False, 0, a), (True, 303, b), (True, 257, d)]) 0 = Some (Some 10)"
    using ziplistIndex_correct [OF size3(1), of 0 c3] by (simp add: zl_pos_def)
  moreover have "ziplistIndex (zl_block c4 [] ?es) 1 = Some (Some 263)"
    using ziplistIndex_correct [OF size3(2), of 1 c4] sa by (simp add: zl_pos_def entries_sizes del: entries_simps)
  moreover have "ziplistInsert garb (zl_block c4 [] ?es) 263 s = None"
    using insert_overflow [of c4 "[(False, 0, b)]" 253 d "[]" s garb] 4(2) sa sd small
    by (auto simp: last_size_def entries_sizes simp del: entries_simps)
  moreover have "ziplistNew garb = Some (zl_block 0 [] [])" by (rule ziplistNew_block)
  ultimately show ?thesis using 1(1) 2(1) 3(1) 4(1) cursor_ziplist [OF z4] by (auto simp: ziplistDeleteRange_def)
qed

lemma digit_entry: "entry_size (False, pv, bytes ''1'') = 2"
  by code_simp

end
