(* ===== verification/Dict_Hash.thy ===== *)
theory Dict_Hash
  imports Dict Util
begin

text \<open>
  The hash functions of \<open>dict.c\<close>: the integer mix, MurmurHash2 on bytes, and the case-insensitive hash. A read of four
  bytes is little-endian.
\<close>

definition dictIntHashFunction :: "32 word \<Rightarrow> 32 word" where
  "dictIntHashFunction key = (
     let key = key + NOT (push_bit 15 key);
         key = key XOR drop_bit 10 key;
         key = key + push_bit 3 key;
         key = key XOR drop_bit 6 key;
         key = key + NOT (push_bit 11 key)
     in key XOR drop_bit 16 key)"

text \<open>The loop over blocks of four bytes: the hash so far and the bytes that are left.\<close>

fun murmur_loop :: "32 word \<Rightarrow> byte list \<Rightarrow> 32 word \<times> byte list" where
  "murmur_loop h (a # b # c # d # data) = (
     let m = 0x5bd1e995;
         k = word_of_int (le_uint [a, b, c, d]);
         k = k * m;
         k = k XOR drop_bit 24 k;
         k = k * m;
         h = h * m
     in murmur_loop (h XOR k) data)"
| "murmur_loop h data = (h, data)"

definition dictGenHashFunction :: "32 word \<Rightarrow> byte list \<Rightarrow> 32 word" where
  "dictGenHashFunction seed key = (
     let m = 0x5bd1e995;
         (h, data) = murmur_loop (seed XOR of_nat (length key)) key;
         h = (if length data \<ge> 3 then h XOR push_bit 16 (ucast (data ! 2)) else h);
         h = (if length data \<ge> 2 then h XOR push_bit 8 (ucast (data ! 1)) else h);
         h = (if length data \<ge> 1 then (h XOR ucast (data ! 0)) * m else h);
         h = h XOR drop_bit 13 h;
         h = h * m
     in h XOR drop_bit 15 h)"

definition dictGenCaseHashFunction :: "32 word \<Rightarrow> byte list \<Rightarrow> 32 word" where
  "dictGenCaseHashFunction seed buf =
     fold (\<lambda>c hash. push_bit 5 hash + hash + ucast (tolower_byte c)) buf seed"

text \<open>
  Two byte strings that differ in case only have the same case-insensitive hash, as the command table needs, whose keys
  are compared without regard to case.
\<close>

lemma case_hash_respects: "map tolower_byte a = map tolower_byte b \<Longrightarrow> dictGenCaseHashFunction s a = dictGenCaseHashFunction s b"
proof -
  have eq: "dictGenCaseHashFunction s x = fold (\<lambda>c hash. push_bit 5 hash + hash + ucast c) (map tolower_byte x) s" for x
    unfolding dictGenCaseHashFunction_def by (simp add: fold_map comp_def)
  show "map tolower_byte a = map tolower_byte b \<Longrightarrow> dictGenCaseHashFunction s a = dictGenCaseHashFunction s b"
    unfolding eq by simp
qed

end
