(* ===== verification/T_set.thy ===== *)
theory T_set
  imports Dict_Hash Dict_Map Dict_Scan Intset Objects
begin

text \<open>
  The set type of \<open>t_set.c\<close>: a set object is an intset, or a dict whose keys are string objects, and the operations
  choose and change the encoding. The dict is modelled on the strings its keys stand for: hash and comparison
  (\<open>dictEncObjHash\<close>, \<open>dictEncObjKeyCompare\<close>) look at nothing else.

  The elements of a set object are the strings it stands for; the operations keep to the set contract of \<open>Set_Interface\<close>
  whatever the encodings of the set and of the arguments are.
\<close>

datatype setobj = SetHT "(byte list, unit) dict" | SetInt intset

definition setDictType :: "32 word \<Rightarrow> (byte list, unit) dictType" where
  "setDictType seed = \<lparr>hashFunction = dictGenHashFunction seed, keyDup = None, valDup = None, keyCompare = Some (=)\<rparr>"

definition createSetObject :: "32 word \<Rightarrow> setobj" where
  "createSetObject seed = SetHT (dictCreate (setDictType seed))"

definition createIntsetObject :: setobj where
  "createIntsetObject = SetInt intsetNew"

text \<open>The string of a key, as the hash function of the dict type prints it.\<close>

definition set_key :: "(nat \<Rightarrow> byte) \<Rightarrow> robj \<Rightarrow> byte list option" where
  "set_key garb ob = do { (buf, n) \<leftarrow> object_chars garb 32 ob; Some (take n buf) }"

definition setTypeCreate :: "32 word \<Rightarrow> robj \<Rightarrow> setobj option" where
  "setTypeCreate seed value = do {
     ll \<leftarrow> isObjectRepresentableAsLongLong value;
     Some (if ll \<noteq> None then createIntsetObject else createSetObject seed) }"

text \<open>The loop of \<open>setTypeConvert\<close>: \<open>ii\<close> is the iterator; adding an element that is already there fails an assertion.\<close>

partial_function (option) convert_loop ::
  "(nat \<Rightarrow> byte) \<Rightarrow> bool \<Rightarrow> intset \<Rightarrow> nat \<Rightarrow> (byte list, unit) dict \<Rightarrow> (byte list, unit) dict option" where
  "convert_loop garb can is ii d = do {
     next \<leftarrow> intsetGet is ii;
     (case next of
        None \<Rightarrow> Some d
      | Some intele \<Rightarrow> do {
          element \<leftarrow> createStringObjectFromLongLong garb intele;
          k \<leftarrow> set_key garb element;
          (d, ok) \<leftarrow> dictAdd can d k ();
          if ok then convert_loop garb can is (Suc ii) d else None }) }"

definition setTypeConvert :: "(nat \<Rightarrow> byte) \<Rightarrow> bool \<Rightarrow> 32 word \<Rightarrow> intset \<Rightarrow> (byte list, unit) dict option" where
  "setTypeConvert garb can seed is = do {
     (d, _) \<leftarrow> dictExpand (dictCreate (setDictType seed)) (intsetLen is);
     convert_loop garb can is 0 d }"

definition setTypeAdd ::
  "(nat \<Rightarrow> byte) \<Rightarrow> bool \<Rightarrow> 32 word \<Rightarrow> nat \<Rightarrow> setobj \<Rightarrow> robj \<Rightarrow> (setobj \<times> bool) option" where
  "setTypeAdd garb can seed set_max_intset_entries subject value = (case subject of
     SetHT d \<Rightarrow> do {
       k \<leftarrow> set_key garb value;
       (d, ok) \<leftarrow> dictAdd can d k ();
       Some (SetHT d, ok) }
   | SetInt is \<Rightarrow> do {
       ll \<leftarrow> isObjectRepresentableAsLongLong value;
       (case ll of
          Some llval \<Rightarrow> do {
            (is, success) \<leftarrow> intsetAdd garb is llval;
            if success then
              (if intsetLen is > set_max_intset_entries
               then do { d \<leftarrow> setTypeConvert garb can seed is; Some (SetHT d, True) }
               else Some (SetInt is, True))
            else Some (SetInt is, False) }
        | None \<Rightarrow> do {
            d \<leftarrow> setTypeConvert garb can seed is;
            k \<leftarrow> set_key garb value;
            (d, ok) \<leftarrow> dictAdd can d k ();
            if ok then Some (SetHT d, True) else None }) })"

definition REDIS_HT_MINFILL :: nat where "REDIS_HT_MINFILL = 10"

definition htNeedsResize :: "('k, 'v) dict \<Rightarrow> bool" where
  "htNeedsResize d = (let size = dictSlots d; used = dictSize d in
     size \<noteq> 0 \<and> used \<noteq> 0 \<and> size > DICT_HT_INITIAL_SIZE \<and> used * 100 div size < REDIS_HT_MINFILL)"

definition setTypeRemove :: "(nat \<Rightarrow> byte) \<Rightarrow> bool \<Rightarrow> setobj \<Rightarrow> robj \<Rightarrow> (setobj \<times> bool) option" where
  "setTypeRemove garb can setobj value = (case setobj of
     SetHT d \<Rightarrow> do {
       k \<leftarrow> set_key garb value;
       (d, ok) \<leftarrow> dictDelete d k;
       if ok then do {
         (d, _) \<leftarrow> (if htNeedsResize d then dictResize can d else Some (d, False));
         Some (SetHT d, True) }
       else Some (SetHT d, False) }
   | SetInt is \<Rightarrow> do {
       ll \<leftarrow> isObjectRepresentableAsLongLong value;
       (case ll of
          Some llval \<Rightarrow> do { (is, success) \<leftarrow> intsetRemove garb is llval; Some (SetInt is, success) }
        | None \<Rightarrow> Some (SetInt is, False)) })"

definition setTypeIsMember :: "(nat \<Rightarrow> byte) \<Rightarrow> setobj \<Rightarrow> robj \<Rightarrow> (setobj \<times> bool) option" where
  "setTypeIsMember garb subject value = (case subject of
     SetHT d \<Rightarrow> do {
       k \<leftarrow> set_key garb value;
       (d, r) \<leftarrow> dictFind d k;
       Some (SetHT d, r \<noteq> None) }
   | SetInt is \<Rightarrow> do {
       ll \<leftarrow> isObjectRepresentableAsLongLong value;
       (case ll of
          Some llval \<Rightarrow> do { b \<leftarrow> intsetFind is llval; Some (SetInt is, b) }
        | None \<Rightarrow> Some (SetInt is, False)) })"

definition setTypeSize :: "setobj \<Rightarrow> nat" where
  "setTypeSize subject = (case subject of SetHT d \<Rightarrow> dictSize d | SetInt is \<Rightarrow> intsetLen is)"

section \<open>The set a set object stands for\<close>

definition set_elems :: "setobj \<Rightarrow> byte list set" where
  "set_elems st = (case st of SetHT d \<Rightarrow> dom (dict_abs d) | SetInt is \<Rightarrow> sdec ` set (intset_elems is))"

definition set_inv :: "setobj \<Rightarrow> bool" where
  "set_inv st \<longleftrightarrow> (case st of SetHT d \<Rightarrow> plain_inv d | SetInt is \<Rightarrow> intset_inv is \<and> (\<forall>v \<in> set (intset_elems is). int64_range v))"

lemma sdec_inj: "int64_range v \<Longrightarrow> int64_range w \<Longrightarrow> sdec v = sdec w \<longleftrightarrow> v = w"
  using string2ll_correct [of "sdec v" v] string2ll_correct [of "sdec v" w] by auto

lemma set_key_correct: "string_wf ob \<Longrightarrow> set_key garb ob = Some (str_val ob)"
  using object_chars_correct [of ob 32 garb] by (auto simp: set_key_def)

lemma representable_correct:
  assumes "string_wf ob"
  shows "isObjectRepresentableAsLongLong ob = Some (string2ll (str_val ob))"
  using assms
proof (cases rule: string_wf_cases)
  case (1 s)
  then show ?thesis by (auto simp: isObjectRepresentableAsLongLong_def sdsEncodedObject_def)
next
  case (2 v)
  then have "string2ll (sdec v) = Some v" by (simp add: string2ll_correct)
  then show ?thesis using 2 by (simp add: isObjectRepresentableAsLongLong_def)
qed

lemma set_type_eq: "eq_type (setDictType seed)"
proof -
  have "compareKeys (setDictType seed) = (=)" by (simp add: fun_eq_iff setDictType_def compareKeys_def)
  then show ?thesis by (simp add: eq_type_def dtype_ok_def setDictType_def equivp_reflp_symp_transp reflp_def symp_def transp_def)
qed

lemma same_contents_plain:
  assumes "plain_inv d" "dict_inv d'" "same_contents d d'"
  shows "plain_inv d'" "dict_abs d' = dict_abs d"
proof -
  have inv: "dict_inv d" using assms(1) by (simp add: plain_inv_def)
  have m: "dict_map d' = dict_map d" by (rule dict_map_same [OF inv assms(3)])
  have ty: "d_type d' = d_type d" using assms(3) by (simp add: same_contents_def)
  show "plain_inv d'" by (rule plain_inv_intro [OF assms(1,2) ty]) (use plain_map_value(2) [OF assms(1)] in \<open>simp add: m\<close>)
  show "dict_abs d' = dict_abs d" by (rule ext) (simp add: dict_abs_def m)
qed

section \<open>Conversion\<close>

lemma intsetGet_elems:
  assumes "intset_inv is"
  shows "intsetGet is i = Some (if i < length (intset_elems is) then Some (intset_elems is ! i) else None)"
  using intsetGet_at_rep [OF intset_inv_rep [OF assms], of "int i"] by (simp add: intsetGet_def intset_elems_def)

lemma convert_loop_law:
  assumes "intset_inv is" "\<forall>v \<in> set (intset_elems is). int64_range v" "is_length is \<le> 2 ^ 29" "ii \<le> is_length is"
    "plain_inv d" "dom (dict_abs d) = sdec ` set (take ii (intset_elems is))"
  shows "\<exists>d'. convert_loop garb can is ii d = Some d' \<and> plain_inv d' \<and> dom (dict_abs d') = sdec ` set (intset_elems is)"
  using assms
proof (induction "is_length is - ii" arbitrary: ii d)
  case 0
  then show ?case using intsetGet_elems [OF 0(2), of ii] by (subst convert_loop.simps) (simp add: intset_elems_def)
next
  case (Suc n)
  let ?vs = "intset_elems is"
  have len: "length ?vs = is_length is" by (simp add: intset_elems_def)
  have ii: "ii < length ?vs" using Suc len by simp
  let ?v = "?vs ! ii"
  have v: "int64_range ?v" using Suc.prems(2) ii by simp
  obtain ob where ob: "createStringObjectFromLongLong garb ?v = Some ob" "set_key garb ob = Some (sdec ?v)"
    using createStringObjectFromLongLong_correct [OF v, of garb] set_key_correct by fastforce
  have "distinct ?vs" using Suc.prems(1) by (simp add: intset_inv_def strict_sorted_iff)
  then have "?v \<notin> set (take ii ?vs)" by (subst (asm) id_take_nth_drop [OF ii]) simp
  moreover have "w \<in> set (take ii ?vs) \<Longrightarrow> int64_range w" for w using Suc.prems(2) in_set_takeD by fast
  ultimately have "sdec ?v \<notin> dom (dict_abs d)" using Suc.prems(6) sdec_inj [OF v] by auto
  then have fresh: "dict_abs d (sdec ?v) = None" by blast
  have "card (dom (dict_abs d)) \<le> length (take ii ?vs)"
    unfolding Suc.prems(6) using card_image_le [of "set (take ii ?vs)" sdec] card_length [of "take ii ?vs"] by (meson finite_set le_trans)
  then have "card (dom (dict_abs d)) < 2 ^ 30" using Suc.prems(3) ii len by simp
  then obtain d1 where d1: "dictAdd can d (sdec ?v) () = Some (d1, True)" "plain_inv d1" "dict_abs d1 = (dict_abs d)(sdec ?v \<mapsto> ())"
    using dict.add_map [OF Suc.prems(5), where k = "sdec ?v" and v = "()" and can = can] fresh by auto
  have "dom (dict_abs d1) = sdec ` set (take (Suc ii) ?vs)" using d1(3) Suc.prems(6) ii by (simp add: take_Suc_conv_app_nth)
  then have "\<exists>d'. convert_loop garb can is (Suc ii) d1 = Some d' \<and> plain_inv d' \<and> dom (dict_abs d') = sdec ` set ?vs"
    by (intro Suc.hyps(1)) (use Suc len ii d1(2) in auto)
  then show ?case using intsetGet_elems [OF Suc.prems(1), of ii] ii ob d1(1) by (subst convert_loop.simps) simp
qed

lemma setTypeConvert_law:
  assumes "set_inv (SetInt is)" "is_length is \<le> 2 ^ 29"
  shows "\<exists>d. setTypeConvert garb can seed is = Some d \<and> set_inv (SetHT d) \<and> set_elems (SetHT d) = set_elems (SetInt is)"
proof -
  note d0 = dictCreate_plain [OF set_type_eq, of seed]
  have "dict_inv (dictCreate (setDictType seed))" using d0 by (simp add: plain_inv_def)
  then obtain d ok where d: "dictExpand (dictCreate (setDictType seed)) (intsetLen is) = Some (d, ok)" "dict_inv d" "same_contents (dictCreate (setDictType seed)) d"
    using dictExpand_correct [of "dictCreate (setDictType seed)" "intsetLen is"] assms(2) by (auto simp: intsetLen_def)
  note p = same_contents_plain [OF d0(1) d(2,3)]
  show ?thesis using convert_loop_law [of "is" 0 d garb can] assms p d0(2) d(1)
    by (auto simp: setTypeConvert_def set_inv_def set_elems_def)
qed

section \<open>The laws\<close>

lemma set_card_int:
  assumes "set_inv (SetInt is)"
  shows "card (set_elems (SetInt is)) = is_length is"
proof -
  have "inj_on sdec (set (intset_elems is))" using assms by (auto simp: set_inv_def inj_on_def sdec_inj)
  then show ?thesis using assms intset_card [of "is"] by (simp add: set_elems_def set_inv_def card_image)
qed

lemma not_a_number:
  assumes "set_inv (SetInt iset)" "string2ll b = None"
  shows "b \<notin> set_elems (SetInt iset)"
  using assms string2ll_correct [of b] by (auto simp: set_inv_def set_elems_def)

lemma setTypeAdd_law:
  assumes "set_inv st" "string_wf ob" "card (set_elems st) < 2 ^ 29 - 1"
  shows "\<exists>st'. setTypeAdd garb can seed mx st ob = Some (st', str_val ob \<notin> set_elems st) \<and> set_inv st' \<and>
    set_elems st' = insert (str_val ob) (set_elems st)"
proof (cases st)
  case (SetHT d)
  have "plain_inv d" "card (dom (dict_abs d)) < 2 ^ 30" using assms SetHT by (simp_all add: set_inv_def set_elems_def)
  then show ?thesis using dict.add_map [of d, where k = "str_val ob" and v = "()" and can = can] set_key_correct [OF assms(2), of garb] SetHT
    by (auto simp: setTypeAdd_def set_elems_def set_inv_def domIff insert_absorb)
next
  case (SetInt iset)
  let ?b = "str_val ob"
  have len: "is_length iset < 2 ^ 29 - 1" using assms(3) set_card_int [of iset] assms(1) SetInt by simp
  note rep = representable_correct [OF assms(2)]
  show ?thesis
  proof (cases "string2ll ?b")
    case None
    then have fresh: "?b \<notin> set_elems st" using assms(1) SetInt not_a_number by simp
    obtain d where d: "setTypeConvert garb can seed iset = Some d" "plain_inv d" "dom (dict_abs d) = set_elems st"
      using setTypeConvert_law [of iset garb can seed] assms(1) SetInt len by (auto simp: set_inv_def set_elems_def)
    have "dict_abs d ?b = None" using d(3) fresh by blast
    moreover have "card (dom (dict_abs d)) < 2 ^ 30" using assms(3) d(3) by simp
    ultimately show ?thesis using dict.add_map [OF d(2), where k = ?b and v = "()" and can = can] d(1,3) fresh rep None SetInt
        set_key_correct [OF assms(2), of garb]
      by (auto simp: setTypeAdd_def set_elems_def set_inv_def domIff)
  next
    case (Some v)
    then have v: "int64_range v" "?b = sdec v" by (simp_all add: string2ll_correct)
    have iv: "intset_inv iset" "\<forall>w \<in> set (intset_elems iset). int64_range w" using assms(1) SetInt by (simp_all add: set_inv_def)
    have mem: "?b \<in> set_elems st \<longleftrightarrow> v \<in> set (intset_elems iset)"
      using SetInt v iv(2) sdec_inj [OF v(1)] by (auto simp: set_elems_def)
    have "card (set (intset_elems iset)) < 2 ^ 29 - 1" using len intset_card [OF iv(1)] by simp
    then obtain jset where jset: "intsetAdd garb iset v = Some (jset, v \<notin> set (intset_elems iset))" "intset_inv jset"
      "set (intset_elems jset) = insert v (set (intset_elems iset))"
      using int_set.add_law [OF iv(1) v(1), where garb = garb] by blast
    have inv': "set_inv (SetInt jset)" "set_elems (SetInt jset) = insert ?b (set_elems st)"
      using jset(2,3) iv(2) v SetInt by (auto simp: set_inv_def set_elems_def)
    have "is_length jset \<le> 2 ^ 29"
      using intset_card [OF jset(2)] intset_card [OF iv(1)] jset(3) len by (simp add: card_insert_if split: if_splits)
    then obtain d where "setTypeConvert garb can seed jset = Some d" "set_inv (SetHT d)" "set_elems (SetHT d) = insert ?b (set_elems st)"
      using setTypeConvert_law [OF inv'(1), of garb can seed] inv'(2) by auto
    then show ?thesis using jset(1) inv' rep Some SetInt mem by (auto simp: setTypeAdd_def)
  qed
qed

lemma dictResize_plain:
  assumes "plain_inv d" "card (dom (dict_abs d)) \<le> 2 ^ 30"
  shows "\<exists>d' ok. dictResize can d = Some (d', ok) \<and> plain_inv d' \<and> dict_abs d' = dict_abs d"
proof (cases "\<not> can \<or> dictIsRehashing d")
  case True
  then show ?thesis using assms by (auto simp: dictResize_def)
next
  case False
  have inv: "dict_inv d" using assms(1) by (simp add: plain_inv_def)
  have "ht_used (d_ht0 d) = length (ht_ents (d_ht0 d))"
    using inv by (auto simp: dict_inv_def rehash_wf_def stable_wf_def ht_wf_def dictReset_def ht_ents_def split: if_splits)
  then have "ht_used (d_ht0 d) \<le> 2 ^ 30"
    using plain_dom(2) [OF assms(1)] assms(2) by (simp add: dict_ents_def)
  moreover from this obtain d' ok where d': "dictExpand d (max 4 (ht_used (d_ht0 d))) = Some (d', ok)" "dict_inv d'" "same_contents d d'"
    using dictExpand_correct [OF inv, of "max 4 (ht_used (d_ht0 d))"] by auto
  ultimately have "dictResize can d = Some (d', ok)"
    using False by (simp add: dictResize_def DICT_HT_INITIAL_SIZE_def max_def Let_def split: if_splits)
  then show ?thesis using same_contents_plain [OF assms(1) d'(2,3)] by blast
qed

lemma setTypeRemove_law:
  assumes "set_inv st" "string_wf ob" "card (set_elems st) \<le> 2 ^ 29 - 1"
  shows "\<exists>st'. setTypeRemove garb can st ob = Some (st', str_val ob \<in> set_elems st) \<and> set_inv st' \<and>
    set_elems st' = set_elems st - {str_val ob}"
proof (cases st)
  case (SetHT d)
  have pd: "plain_inv d" using assms SetHT by (simp add: set_inv_def)
  obtain d1 where d1: "dictDelete d (str_val ob) = Some (d1, str_val ob \<in> dom (dict_abs d))" "plain_inv d1" "dict_abs d1 = (dict_abs d)(str_val ob := None)"
    using dict.del_map [OF pd, where k = "str_val ob"] by (auto simp: domIff)
  have "card (dom (dict_abs d1)) \<le> card (dom (dict_abs d))"
    using d1(3) card_mono [OF dict.finite_dom [OF pd], of "dom (dict_abs d) - {str_val ob}"] by auto
  then obtain d2 ok where "dictResize can d1 = Some (d2, ok)" "plain_inv d2" "dict_abs d2 = dict_abs d1"
    using dictResize_plain [OF d1(2), of can] assms(3) SetHT by (auto simp: set_elems_def)
  then show ?thesis using d1 SetHT set_key_correct [OF assms(2), of garb]
    by (auto simp: setTypeRemove_def set_inv_def set_elems_def)
next
  case (SetInt iset)
  note rep = representable_correct [OF assms(2)]
  have iv: "intset_inv iset" "\<forall>w \<in> set (intset_elems iset). int64_range w" using assms(1) SetInt by (simp_all add: set_inv_def)
  show ?thesis
  proof (cases "string2ll (str_val ob)")
    case None
    then have "str_val ob \<notin> set_elems st" using assms(1) SetInt not_a_number by simp
    then show ?thesis using assms(1) rep None SetInt by (auto simp: setTypeRemove_def)
  next
    case (Some v)
    then have v: "int64_range v" "str_val ob = sdec v" by (simp_all add: string2ll_correct)
    have "card (set (intset_elems iset)) \<le> 2 ^ 29 - 1" using assms set_card_int [of iset] SetInt intset_card [OF iv(1)] by simp
    then obtain jset where jset: "intsetRemove garb iset v = Some (jset, v \<in> set (intset_elems iset))" "intset_inv jset"
      "set (intset_elems jset) = set (intset_elems iset) - {v}"
      using int_set.rem_law [OF iv(1) v(1), where garb = garb] by blast
    have "str_val ob \<in> set_elems st \<longleftrightarrow> v \<in> set (intset_elems iset)"
      using SetInt v iv(2) sdec_inj [OF v(1)] by (auto simp: set_elems_def)
    moreover have "set_inv (SetInt jset)" "set_elems (SetInt jset) = set_elems st - {str_val ob}"
      using jset(2,3) iv(2) v SetInt sdec_inj by (auto simp: set_inv_def set_elems_def)
    ultimately show ?thesis using jset(1) rep Some SetInt by (simp add: setTypeRemove_def)
  qed
qed

lemma setTypeIsMember_law:
  assumes "set_inv st" "string_wf ob" "card (set_elems st) \<le> 2 ^ 29 - 1"
  shows "\<exists>st'. setTypeIsMember garb st ob = Some (st', str_val ob \<in> set_elems st) \<and> set_inv st' \<and> set_elems st' = set_elems st"
proof (cases st)
  case (SetHT d)
  have pd: "plain_inv d" "dict_inv d" using assms SetHT by (simp_all add: set_inv_def plain_inv_def)
  obtain d' r where f: "dictFind d (str_val ob) = Some (d', r)" "dict_inv d'" "same_contents d d'" "r \<noteq> None \<longleftrightarrow> dict_map d (str_val ob) \<noteq> None"
    using dictFind_correct [OF pd(2), of "str_val ob"] by (fastforce split: option.splits)
  then show ?thesis using same_contents_plain [OF pd(1) f(2,3)] plain_map_value(1) [OF pd(1), of "str_val ob"] SetHT set_key_correct [OF assms(2), of garb]
    by (auto simp: setTypeIsMember_def set_inv_def set_elems_def domIff)
next
  case (SetInt iset)
  note rep = representable_correct [OF assms(2)]
  have iv: "intset_inv iset" "\<forall>w \<in> set (intset_elems iset). int64_range w" using assms(1) SetInt by (simp_all add: set_inv_def)
  show ?thesis
  proof (cases "string2ll (str_val ob)")
    case None
    then have "str_val ob \<notin> set_elems st" using assms(1) SetInt not_a_number by simp
    then show ?thesis using assms(1) rep None SetInt by (auto simp: setTypeIsMember_def)
  next
    case (Some v)
    then have v: "int64_range v" "str_val ob = sdec v" by (simp_all add: string2ll_correct)
    have "is_length iset \<le> 2 ^ 29 - 1" using assms set_card_int [of iset] SetInt by simp
    then have "intsetFind iset v = Some (v \<in> set (intset_elems iset))" using intsetFind_cases [OF iv(1) _ v(1)] by simp
    moreover have "str_val ob \<in> set_elems st \<longleftrightarrow> v \<in> set (intset_elems iset)"
      using SetInt v iv(2) sdec_inj [OF v(1)] by (auto simp: set_elems_def)
    ultimately show ?thesis using assms(1) rep Some SetInt by (simp add: setTypeIsMember_def)
  qed
qed

lemma setTypeSize_law:
  assumes "set_inv st"
  shows "setTypeSize st = card (set_elems st)"
proof (cases st)
  case (SetHT d)
  then show ?thesis using assms plain_dom(2) [of d] dictSize_ents [of d] by (simp add: setTypeSize_def set_elems_def set_inv_def plain_inv_def)
next
  case (SetInt iset)
  then show ?thesis using assms set_card_int [of iset] by (simp add: setTypeSize_def intsetLen_def)
qed

lemma setTypeCreate_law:
  assumes "string_wf ob"
  shows "\<exists>st. setTypeCreate seed ob = Some st \<and> set_inv st \<and> set_elems st = {}"
  using representable_correct [OF assms] dictCreate_plain [OF set_type_eq, of seed] intsetNew_inv
  by (auto simp: setTypeCreate_def createIntsetObject_def createSetObject_def set_inv_def set_elems_def)

text \<open>The object \<open>createStringObject\<close> gives for a string is one such encoding.\<close>

definition raw_object :: "byte list \<Rightarrow> robj" where
  "raw_object b = the (createStringObject (\<lambda>_. 0) (Some b) (length b))"

lemma raw_object_wf: "length b \<le> STRING_MAX \<Longrightarrow> string_wf (raw_object b) \<and> str_val (raw_object b) = b"
  using createStringObject_correct [of "length b" b "\<lambda>_. 0"] by (auto simp: raw_object_def)

text \<open>The set contract, for arguments encoded by \<open>enc\<close>: any function that gives each string an object standing for it.\<close>

interpretation set_type: set_impl set_inv set_elems "\<lambda>b. string_wf (enc b) \<and> str_val (enc b) = b" "2 ^ 29 - 1"
  "\<lambda>st b. setTypeAdd garb can seed mx st (enc b)" "\<lambda>st b. setTypeRemove garb can st (enc b)" "\<lambda>st b. setTypeIsMember garb st (enc b)"
  for enc garb can seed mx
proof (unfold_locales, goal_cases)
  case (1 s)
  then show ?case using dict.finite_dom by (cases s) (auto simp: set_elems_def set_inv_def)
next
  case (2 s x)
  then show ?case using setTypeAdd_law [of s "enc x" garb can seed mx] by simp
next
  case (3 s x)
  then show ?case using setTypeRemove_law [of s "enc x" garb can] by simp
next
  case (4 s x)
  then show ?case using setTypeIsMember_law [of s "enc x" garb] by simp
qed

end
