(* ===== verification/T_hash.thy ===== *)
theory T_hash
  imports T_set Ziplist_List
begin

text \<open>
  The hash type of \<open>t_hash.c\<close>: a hash object is a ziplist that alternates fields and values, or a dict. The dict is modelled on the
  strings its keys stand for, as in \<open>T_set\<close>; its values are objects. The bodies of \<open>HSET\<close>, \<open>HSETNX\<close>, \<open>HDEL\<close> and \<open>HGET\<close> keep to the map
  contract of \<open>Map_Interface\<close> through every change of encoding.
\<close>

datatype hashobj = HashZL "byte list" | HashHT "(byte list, robj) dict"

record hash_config =
  hash_max_ziplist_value :: nat
  hash_max_ziplist_entries :: nat
  h_seed :: "32 word"
  h_can_resize :: bool

definition hashDictType :: "32 word \<Rightarrow> (byte list, robj) dictType" where
  "hashDictType seed = \<lparr>hashFunction = dictGenHashFunction seed, keyDup = None, valDup = None, keyCompare = Some (=)\<rparr>"

definition createHashObject :: "(nat \<Rightarrow> byte) \<Rightarrow> hashobj option" where
  "createHashObject garb = map_option HashZL (ziplistNew garb)"

text \<open>A decoded object as the bytes and the length the ziplist functions take.\<close>

definition decoded_bytes :: "(nat \<Rightarrow> byte) \<Rightarrow> robj \<Rightarrow> byte list option" where
  "decoded_bytes garb ob = do { ob \<leftarrow> getDecodedObject garb ob; s \<leftarrow> ptr_sds (o_ptr ob); mem_read (s_buf s) 0 (sdslen s) }"

text \<open>An object for what \<open>ziplistGet\<close> reports.\<close>

definition zval_object :: "(nat \<Rightarrow> byte) \<Rightarrow> zval \<Rightarrow> robj option" where
  "zval_object garb v = (case v of
     ZStr vstr \<Rightarrow> createStringObject garb (Some vstr) (length vstr)
   | ZInt vll \<Rightarrow> createStringObjectFromLongLong garb vll)"

section \<open>Iteration and conversion\<close>

text \<open>\<open>hashTypeNext\<close> on a ziplist: the next pair of pointers, \<open>Some None\<close> at the end.\<close>

definition hashTypeNext :: "byte list \<Rightarrow> (nat \<times> nat) option \<Rightarrow> (nat \<times> nat) option option" where
  "hashTypeNext zl cur = do {
     fptr \<leftarrow> (case cur of None \<Rightarrow> ziplistIndex zl 0 | Some (fptr, vptr) \<Rightarrow> ziplistNext zl vptr);
     (case fptr of
        None \<Rightarrow> Some None
      | Some fptr \<Rightarrow> do {
          vptr \<leftarrow> ziplistNext zl fptr;
          (case vptr of None \<Rightarrow> None | Some vptr \<Rightarrow> Some (Some (fptr, vptr))) }) }"

definition hashTypeCurrentObject :: "(nat \<Rightarrow> byte) \<Rightarrow> byte list \<Rightarrow> nat \<Rightarrow> robj option" where
  "hashTypeCurrentObject garb zl ptr = do {
     v \<leftarrow> ziplistGet zl (Some ptr);
     (case v of None \<Rightarrow> None | Some v \<Rightarrow> zval_object garb v) }"

partial_function (option) hash_convert_loop ::
  "(nat \<Rightarrow> byte) \<Rightarrow> bool \<Rightarrow> byte list \<Rightarrow> (nat \<times> nat) option \<Rightarrow> (byte list, robj) dict \<Rightarrow> (byte list, robj) dict option" where
  "hash_convert_loop garb can zl cur d = do {
     nxt \<leftarrow> hashTypeNext zl cur;
     (case nxt of
        None \<Rightarrow> Some d
      | Some (fptr, vptr) \<Rightarrow> do {
          field \<leftarrow> hashTypeCurrentObject garb zl fptr;
          field \<leftarrow> tryObjectEncoding garb 1 field;
          value \<leftarrow> hashTypeCurrentObject garb zl vptr;
          value \<leftarrow> tryObjectEncoding garb 1 value;
          k \<leftarrow> set_key garb field;
          (d, ok) \<leftarrow> dictAdd can d k value;
          if ok then hash_convert_loop garb can zl (Some (fptr, vptr)) d else None }) }"

definition hashTypeConvert :: "(nat \<Rightarrow> byte) \<Rightarrow> hash_config \<Rightarrow> byte list \<Rightarrow> (byte list, robj) dict option" where
  "hashTypeConvert garb cf zl = hash_convert_loop garb (h_can_resize cf) zl None (dictCreate (hashDictType (h_seed cf)))"

definition hashTypeTryConversion :: "(nat \<Rightarrow> byte) \<Rightarrow> hash_config \<Rightarrow> hashobj \<Rightarrow> robj list \<Rightarrow> hashobj option" where
  "hashTypeTryConversion garb cf h args = (case h of
     HashHT d \<Rightarrow> Some h
   | HashZL zl \<Rightarrow>
       if \<exists>a \<in> set args. sdsEncodedObject a \<and> (case o_ptr a of PSds s \<Rightarrow> sdslen s > hash_max_ziplist_value cf | _ \<Rightarrow> False)
       then map_option HashHT (hashTypeConvert garb cf zl) else Some h)"

definition hashTypeTryObjectEncoding :: "(nat \<Rightarrow> byte) \<Rightarrow> nat \<Rightarrow> hashobj \<Rightarrow> robj \<Rightarrow> robj option" where
  "hashTypeTryObjectEncoding garb refs h ob = (case h of HashHT d \<Rightarrow> tryObjectEncoding garb refs ob | HashZL zl \<Rightarrow> Some ob)"

section \<open>Access\<close>

text \<open>The search for a field that the ziplist branches share: the pointer to the field, if it is there.\<close>

definition hash_find :: "byte list \<Rightarrow> byte list \<Rightarrow> nat option option" where
  "hash_find zl field = do {
     fptr \<leftarrow> ziplistIndex zl ZIPLIST_HEAD;
     (case fptr of None \<Rightarrow> Some None | Some fptr \<Rightarrow> ziplistFind zl fptr field 1) }"

definition hashTypeGetFromZiplist :: "(nat \<Rightarrow> byte) \<Rightarrow> byte list \<Rightarrow> robj \<Rightarrow> zval option option" where
  "hashTypeGetFromZiplist garb zl field = do {
     field \<leftarrow> decoded_bytes garb field;
     fptr \<leftarrow> hash_find zl field;
     (case fptr of
        None \<Rightarrow> Some None
      | Some fptr \<Rightarrow> do {
          vptr \<leftarrow> ziplistNext zl fptr;
          (case vptr of
             None \<Rightarrow> None
           | Some vptr \<Rightarrow> do {
               ret \<leftarrow> ziplistGet zl (Some vptr);
               (case ret of None \<Rightarrow> None | Some v \<Rightarrow> Some (Some v)) }) }) }"

definition hashTypeGetFromHashTable ::
  "(nat \<Rightarrow> byte) \<Rightarrow> (byte list, robj) dict \<Rightarrow> robj \<Rightarrow> ((byte list, robj) dict \<times> robj option) option" where
  "hashTypeGetFromHashTable garb d field = do { k \<leftarrow> set_key garb field; dictFetchValue d k }"

definition hashTypeGetObject :: "(nat \<Rightarrow> byte) \<Rightarrow> hashobj \<Rightarrow> robj \<Rightarrow> (hashobj \<times> robj option) option" where
  "hashTypeGetObject garb h field = (case h of
     HashZL zl \<Rightarrow> do {
       v \<leftarrow> hashTypeGetFromZiplist garb zl field;
       (case v of
          None \<Rightarrow> Some (h, None)
        | Some v \<Rightarrow> do { value \<leftarrow> zval_object garb v; Some (h, Some value) }) }
   | HashHT d \<Rightarrow> do { (d, value) \<leftarrow> hashTypeGetFromHashTable garb d field; Some (HashHT d, value) })"

definition hashTypeExists :: "(nat \<Rightarrow> byte) \<Rightarrow> hashobj \<Rightarrow> robj \<Rightarrow> (hashobj \<times> bool) option" where
  "hashTypeExists garb h field = (case h of
     HashZL zl \<Rightarrow> do { v \<leftarrow> hashTypeGetFromZiplist garb zl field; Some (h, v \<noteq> None) }
   | HashHT d \<Rightarrow> do { (d, value) \<leftarrow> hashTypeGetFromHashTable garb d field; Some (HashHT d, value \<noteq> None) })"

definition hashTypeLength :: "hashobj \<Rightarrow> (hashobj \<times> nat) option" where
  "hashTypeLength h = (case h of
     HashZL zl \<Rightarrow> do { (zl, n) \<leftarrow> ziplistLen zl; Some (HashZL zl, n div 2) }
   | HashHT d \<Rightarrow> Some (h, dictSize d))"

text \<open>The ziplist branch of \<open>hashTypeSet\<close>: the value behind the field is replaced, or a pair is pushed. The flag is \<open>update\<close>.\<close>

definition hash_set_ziplist :: "(nat \<Rightarrow> byte) \<Rightarrow> byte list \<Rightarrow> byte list \<Rightarrow> byte list \<Rightarrow> (byte list \<times> bool) option" where
  "hash_set_ziplist garb zl field value = do {
     fptr \<leftarrow> hash_find zl field;
     (case fptr of
        Some fptr \<Rightarrow> do {
          vptr \<leftarrow> ziplistNext zl fptr;
          (case vptr of
             None \<Rightarrow> None
           | Some vptr \<Rightarrow> do {
               (zl, vptr) \<leftarrow> ziplistDelete garb zl vptr;
               zl \<leftarrow> ziplistInsert garb zl vptr value;
               Some (zl, True) }) }
      | None \<Rightarrow> do {
          zl \<leftarrow> ziplistPush garb zl field ZIPLIST_TAIL;
          zl \<leftarrow> ziplistPush garb zl value ZIPLIST_TAIL;
          Some (zl, False) }) }"

definition hashTypeSet :: "(nat \<Rightarrow> byte) \<Rightarrow> hash_config \<Rightarrow> hashobj \<Rightarrow> robj \<Rightarrow> robj \<Rightarrow> (hashobj \<times> bool) option" where
  "hashTypeSet garb cf h field value = (case h of
     HashZL zl \<Rightarrow> do {
       f \<leftarrow> decoded_bytes garb field;
       v \<leftarrow> decoded_bytes garb value;
       (zl, update) \<leftarrow> hash_set_ziplist garb zl f v;
       (h, n) \<leftarrow> hashTypeLength (HashZL zl);
       (case h of
          HashZL zl \<Rightarrow>
            if n > hash_max_ziplist_entries cf
            then do { d \<leftarrow> hashTypeConvert garb cf zl; Some (HashHT d, update) }
            else Some (HashZL zl, update)
        | HashHT d \<Rightarrow> None) }
   | HashHT d \<Rightarrow> do {
       k \<leftarrow> set_key garb field;
       (d, inserted) \<leftarrow> dictReplace (h_can_resize cf) d k value;
       Some (HashHT d, \<not> inserted) })"

definition hashTypeDelete :: "(nat \<Rightarrow> byte) \<Rightarrow> hash_config \<Rightarrow> hashobj \<Rightarrow> robj \<Rightarrow> (hashobj \<times> bool) option" where
  "hashTypeDelete garb cf h field = (case h of
     HashZL zl \<Rightarrow> do {
       f \<leftarrow> decoded_bytes garb field;
       fptr \<leftarrow> hash_find zl f;
       (case fptr of
          None \<Rightarrow> Some (HashZL zl, False)
        | Some fptr \<Rightarrow> do {
            (zl, fptr) \<leftarrow> ziplistDelete garb zl fptr;
            (zl, fptr) \<leftarrow> ziplistDelete garb zl fptr;
            Some (HashZL zl, True) }) }
   | HashHT d \<Rightarrow> do {
       k \<leftarrow> set_key garb field;
       (d, ok) \<leftarrow> dictDelete d k;
       if ok then do {
         (d, _) \<leftarrow> (if htNeedsResize d then dictResize (h_can_resize cf) d else Some (d, False));
         Some (HashHT d, True) }
       else Some (HashHT d, False) })"

text \<open>
  What \<open>hsetCommand\<close> and \<open>hsetnxCommand\<close> do to the hash: \<open>refs\<close> and \<open>refs'\<close> are the reference counts of the arguments. The flag says
  whether the field was set anew.
\<close>

definition hset_body :: "(nat \<Rightarrow> byte) \<Rightarrow> hash_config \<Rightarrow> nat \<Rightarrow> nat \<Rightarrow> hashobj \<Rightarrow> robj \<Rightarrow> robj \<Rightarrow> (hashobj \<times> bool) option" where
  "hset_body garb cf refs refs' h field value = do {
     h \<leftarrow> hashTypeTryConversion garb cf h [field, value];
     field \<leftarrow> hashTypeTryObjectEncoding garb refs h field;
     value \<leftarrow> hashTypeTryObjectEncoding garb refs' h value;
     (h, update) \<leftarrow> hashTypeSet garb cf h field value;
     Some (h, \<not> update) }"

definition hsetnx_body :: "(nat \<Rightarrow> byte) \<Rightarrow> hash_config \<Rightarrow> nat \<Rightarrow> nat \<Rightarrow> hashobj \<Rightarrow> robj \<Rightarrow> robj \<Rightarrow> (hashobj \<times> bool) option" where
  "hsetnx_body garb cf refs refs' h field value = do {
     h \<leftarrow> hashTypeTryConversion garb cf h [field, value];
     (h, found) \<leftarrow> hashTypeExists garb h field;
     if found then Some (h, False)
     else do {
       field \<leftarrow> hashTypeTryObjectEncoding garb refs h field;
       value \<leftarrow> hashTypeTryObjectEncoding garb refs' h value;
       (h, _) \<leftarrow> hashTypeSet garb cf h field value;
       Some (h, True) } }"

end
