(* ===== verification/Ziplist_Values.thy ===== *)
theory Ziplist_Values
  imports Ziplist_List
begin

text \<open>
  The list of values of a ziplist as a function: the walk with \<open>ziplistGet\<close> and \<open>ziplistNext\<close> that its clients do. The
  number of bytes bounds the number of steps.
\<close>

primrec zl_collect :: "nat \<Rightarrow> byte list \<Rightarrow> nat \<Rightarrow> byte list list" where
  "zl_collect 0 zl p = []"
| "zl_collect (Suc n) zl p = (case ziplistGet zl (Some p) of
     Some (Some v) \<Rightarrow> zval_bytes v # (case ziplistNext zl p of Some (Some q) \<Rightarrow> zl_collect n zl q | _ \<Rightarrow> [])
   | _ \<Rightarrow> [])"

definition zl_values :: "byte list \<Rightarrow> byte list list" where
  "zl_values zl = zl_collect (length zl) zl ZIPLIST_ENTRY_HEAD"

lemma zl_collect_cursor:
  assumes "cursor zl vs i p" "fits vs" "length vs \<le> i + n"
  shows "zl_collect n zl p = drop i vs"
  using assms
proof (induction n arbitrary: i p)
  case (Suc n)
  show ?case
  proof (cases "i < length vs")
    case True
    then have get: "ziplistGet zl (Some p) = Some (Some (zval_of (vs ! i)))" using get_law [OF Suc.prems(1,2)] by simp
    have drop: "drop i vs = vs ! i # drop (Suc i) vs" using True by (simp add: Cons_nth_drop_Suc)
    show ?thesis
    proof (cases "Suc i < length vs")
      case Suc_i: True
      obtain q where "ziplistNext zl p = Some (Some q)" "cursor zl vs (Suc i) q"
        using next_law [OF Suc.prems(1,2) True] Suc_i by auto
      then show ?thesis using get drop Suc.IH [of "Suc i" q] Suc.prems by simp
    next
      case False
      then show ?thesis using get drop next_law [OF Suc.prems(1,2) True] by simp
    qed
  next
    case False
    then show ?thesis using get_law [OF Suc.prems(1,2)] by simp
  qed
qed simp

lemma ziplist_count:
  assumes "ziplist zl vs"
  shows "length vs \<le> length zl"
proof -
  obtain c es where es: "zl = zl_block c [] es" "zvals es = vs" using assms unfolding ziplist_def by blast
  have "length vs = length es" using es(2) by auto
  then show ?thesis using entries_ge [of es] by (simp add: es(1) zl_block_def)
qed

lemma zl_values_eq: "ziplist zl vs \<Longrightarrow> fits vs \<Longrightarrow> zl_values zl = vs"
  unfolding zl_values_def
  using zl_collect_cursor [OF place_cursor [OF head_place], of zl vs "length zl"] ziplist_count [of zl vs] by simp

end
