(* ===== verification/T_hash_Spec.thy ===== *)
theory T_hash_Spec
  imports T_hash Ziplist_Values
begin

text \<open>
  The hash object as a finite map. \<open>hash_rep zl ps\<close> says that a ziplist holds the pairs \<open>ps\<close> with distinct fields; \<open>hash_abs\<close> is the map of a
  hash object in either encoding, and \<open>hash_inv\<close> bounds the small encoding by the configuration. Every operation of \<open>T_hash\<close> is shown to act on
  that map as the contract of \<open>Map_Interface\<close> says, conversions from ziplist to dict included.
\<close>

section \<open>Pairs in a list\<close>

text \<open>The fields and values of a hash in the order of the ziplist.\<close>

definition flat :: "(byte list \<times> byte list) list \<Rightarrow> byte list list" where
  "flat ps = concat (map (\<lambda>(f, v). [f, v]) ps)"

fun unflat :: "byte list list \<Rightarrow> (byte list \<times> byte list) list" where
  "unflat (f # v # vs) = (f, v) # unflat vs"
| "unflat _ = []"

lemma flat_simps [simp]: "flat [] = []" "flat ((f, v) # ps) = f # v # flat ps" "flat (ps @ qs) = flat ps @ flat qs" "length (flat ps) = 2 * length ps"
  by (simp_all add: flat_def length_concat comp_def split_beta sum_list_triv)

lemma unflat_flat [simp]: "unflat (flat ps) = ps"
  by (induction ps) auto

lemma find_flat:
  "case find_ref (flat ps) x 1 0 of
     None \<Rightarrow> map_of ps x = None
   | Some k \<Rightarrow> \<exists>qs v rs. ps = qs @ (x, v) # rs \<and> x \<notin> fst ` set qs \<and> k = 2 * length qs"
proof (induction ps)
  case (Cons a ps)
  obtain f v where a: "a = (f, v)" by (cases a)
  have one: "find_ref (v # vs) x 1 1 = map_option Suc (find_ref vs x 1 0)" for v vs by simp
  show ?case
  proof (cases "f = x")
    case True
    then show ?thesis by (auto simp: a intro: exI [of _ "[]"])
  next
    case False
    show ?thesis
    proof (cases "find_ref (flat ps) x 1 0")
      case None
      then show ?thesis using Cons.IH False by (simp add: a one)
    next
      case (Some k)
      then obtain qs w rs where "ps = qs @ (x, w) # rs" "x \<notin> fst ` set qs" "k = 2 * length qs" using Cons.IH by auto
      then show ?thesis using Some False
        by (auto simp: a one intro!: exI [of _ "(f, v) # qs"])
    qed
  qed
qed simp


lemma map_of_mid:
  assumes "distinct (map fst (qs @ (f, v) # rs))"
  shows "map_of (qs @ (f, v) # rs) = (map_of (qs @ rs))(f \<mapsto> v)" "map_of (qs @ rs) f = None"
proof -
  have f: "map_of qs f = None" "map_of rs f = None" using assms by (auto simp: map_of_eq_None_iff)
  then show "map_of (qs @ (f, v) # rs) = (map_of (qs @ rs))(f \<mapsto> v)" "map_of (qs @ rs) f = None"
    by (auto simp: map_add_def fun_eq_iff split: option.splits)
qed

section \<open>The ziplist encoding\<close>

definition hash_rep :: "byte list \<Rightarrow> (byte list \<times> byte list) list \<Rightarrow> bool" where
  "hash_rep zl ps \<longleftrightarrow> ziplist zl (flat ps) \<and> fits (flat ps) \<and> distinct (map fst ps)"

lemma hash_find_law:
  assumes "hash_rep zl ps"
  shows "if map_of ps x = None then hash_find zl x = Some None
    else \<exists>qs v rs p. ps = qs @ (x, v) # rs \<and> hash_find zl x = Some (Some p) \<and> cursor zl (flat ps) (2 * length qs) p"
proof (cases ps)
  case Nil
  then show ?thesis using index_law [of zl "[]" 0] assms by (simp add: hash_rep_def hash_find_def ZIPLIST_HEAD_def norm_index_def)
next
  case (Cons a qs')
  have zl: "ziplist zl (flat ps)" "fits (flat ps)" using assms by (simp_all add: hash_rep_def)
  have "norm_index 0 (length (flat ps)) = Some 0" using Cons by (simp add: norm_index_def)
  then obtain p where p: "ziplistIndex zl ZIPLIST_HEAD = Some (Some p)" "cursor zl (flat ps) 0 p"
    using index_law [OF zl, of 0] by (auto simp: ZIPLIST_HEAD_def)
  then have find: "hash_find zl x = ziplistFind zl p x 1" by (simp add: hash_find_def)
  show ?thesis
  proof (cases "find_ref (flat ps) x 1 0")
    case None
    then show ?thesis using find_flat [of ps x] find_law [OF p(2) zl(2), of x 1] find by simp
  next
    case (Some k)
    then obtain qs v rs q where "ps = qs @ (x, v) # rs" "k = 2 * length qs" "ziplistFind zl p x 1 = Some (Some q)" "cursor zl (flat ps) k q"
      using find_flat [of ps x] find_law [OF p(2) zl(2), of x 1] by auto
    then show ?thesis using find by (auto simp: map_add_def split: option.splits)
  qed
qed

lemma value_cursor:
  assumes "hash_rep zl (qs @ (f, v) # rs)" "cursor zl (flat (qs @ (f, v) # rs)) (2 * length qs) p"
  shows "\<exists>q. ziplistNext zl p = Some (Some q) \<and> cursor zl (flat (qs @ (f, v) # rs)) (Suc (2 * length qs)) q"
  using next_law [OF assms(2)] assms(1) by (auto simp: hash_rep_def)

lemma hash_get_law:
  assumes "hash_rep zl ps" "decoded_bytes garb ob = Some f"
  shows "hashTypeGetFromZiplist garb zl ob = Some (map_option zval_of (map_of ps f))"
proof (cases "map_of ps f")
  case None
  then show ?thesis using hash_find_law [OF assms(1), of f] assms(2) by (simp add: hashTypeGetFromZiplist_def)
next
  case (Some w)
  then obtain qs v rs p where p: "ps = qs @ (f, v) # rs" "hash_find zl f = Some (Some p)" "cursor zl (flat ps) (2 * length qs) p"
    using hash_find_law [OF assms(1), of f] by auto
  then obtain q where q: "ziplistNext zl p = Some (Some q)" "cursor zl (flat ps) (Suc (2 * length qs)) q"
    using value_cursor [of zl qs f v rs p] assms(1) by auto
  have "map_of ps f = Some v" using assms(1) map_of_mid(1) [of qs f v rs] unfolding p(1) by (simp add: hash_rep_def)
  moreover have "ziplistGet zl (Some q) = Some (Some (zval_of v))"
    using get_law [OF q(2)] assms(1) p(1) by (simp add: hash_rep_def nth_append)
  ultimately show ?thesis using assms(2) p(2) q(1) by (simp add: hashTypeGetFromZiplist_def)
qed

lemma hash_set_law:
  assumes "hash_rep zl ps" and room: "11 + zl_cost (flat ps) + (length f + length v + 28) < 2 ^ 30"
  shows "\<exists>zl' ps'. hash_set_ziplist garb zl f v = Some (zl', map_of ps f \<noteq> None) \<and> hash_rep zl' ps' \<and>
    map_of ps' = (map_of ps)(f \<mapsto> v) \<and> set ps' \<subseteq> insert (f, v) (set ps)"
proof (cases "map_of ps f")
  case None
  have zl: "ziplist zl (flat ps)" "f \<notin> fst ` set ps" "distinct (map fst ps)" using assms(1) None by (auto simp: hash_rep_def map_of_eq_None_iff)
  have "fits (f # flat ps)" "fits (v # flat ps @ [f])" "fits (flat ps @ [f, v])" using room by (simp_all add: fits_def)
  moreover obtain zl1 where zl1: "ziplistPush garb zl f ZIPLIST_TAIL = Some zl1" "ziplist zl1 (flat ps @ [f])"
    using push_law [OF zl(1), of f garb ZIPLIST_TAIL] calculation by (auto simp: ZIPLIST_TAIL_def ZIPLIST_HEAD_def)
  ultimately obtain zl2 where zl2: "ziplistPush garb zl1 v ZIPLIST_TAIL = Some zl2" "ziplist zl2 (flat ps @ [f, v])" "fits (flat ps @ [f, v])"
    using push_law [OF zl1(2), of v garb ZIPLIST_TAIL] by (auto simp: ZIPLIST_TAIL_def ZIPLIST_HEAD_def)
  have "hash_rep zl2 (ps @ [(f, v)])" using zl2 zl(2,3) by (simp add: hash_rep_def)
  moreover have "map_of (ps @ [(f, v)]) = (map_of ps)(f \<mapsto> v)" using None by (auto simp: fun_eq_iff map_add_def split: option.splits)
  moreover have "set (ps @ [(f, v)]) \<subseteq> insert (f, v) (set ps)" by auto
  moreover have "hash_set_ziplist garb zl f v = Some (zl2, False)"
    using hash_find_law [OF assms(1), of f] None zl1(1) zl2(1) by (simp add: hash_set_ziplist_def)
  ultimately show ?thesis using None by auto
next
  case (Some w)
  then obtain qs u rs p where p: "ps = qs @ (f, u) # rs" "hash_find zl f = Some (Some p)" "cursor zl (flat ps) (2 * length qs) p"
    using hash_find_law [OF assms(1), of f] by auto
  have fit: "fits (flat ps)" using assms(1) by (simp add: hash_rep_def)
  obtain q where q: "ziplistNext zl p = Some (Some q)" "cursor zl (flat ps) (Suc (2 * length qs)) q"
    using value_cursor [of zl qs f u rs p] assms(1) p by auto
  obtain zl1 where zl1: "ziplistDelete garb zl q = Some (zl1, q)" "place zl1 (flat qs @ f # flat rs) (Suc (2 * length qs)) q"
    using delete_law [OF q(2) fit, of garb] p(1) by auto
  have fit2: "fits (flat (qs @ (f, v) # rs))" using room p(1) by (simp add: fits_def)
  obtain zl2 where zl2: "ziplistInsert garb zl1 q v = Some zl2" "cursor zl2 (flat (qs @ (f, v) # rs)) (Suc (2 * length qs)) q"
    using insert_law [OF zl1(2), of v garb] fit2 by auto
  have "hash_rep zl2 (qs @ (f, v) # rs)" using cursor_ziplist [OF zl2(2)] fit2 assms(1) p(1) by (simp add: hash_rep_def)
  moreover have "map_of (qs @ (f, v) # rs) = (map_of ps)(f \<mapsto> v)"
    using assms(1) map_of_mid(1) [of qs f _ rs] unfolding p(1) by (simp add: hash_rep_def del: map_of_append)
  moreover have "set (qs @ (f, v) # rs) \<subseteq> insert (f, v) (set ps)" using p(1) by auto
  moreover have "hash_set_ziplist garb zl f v = Some (zl2, True)" using p(2) q(1) zl1(1) zl2(1) by (simp add: hash_set_ziplist_def)
  moreover have found: "(map_of ps f \<noteq> None) = True" using Some by simp
  ultimately show ?thesis unfolding found by blast
qed

lemma hash_delete_law:
  assumes "hash_rep zl ps" "decoded_bytes garb ob = Some f"
  shows "\<exists>zl' ps'. hashTypeDelete garb cf (HashZL zl) ob = Some (HashZL zl', map_of ps f \<noteq> None) \<and> hash_rep zl' ps' \<and>
    map_of ps' = (map_of ps)(f := None) \<and> set ps' \<subseteq> set ps"
proof (cases "map_of ps f")
  case None
  then have "map_of ps = (map_of ps)(f := None)" by (simp add: fun_eq_iff)
  then show ?thesis using hash_find_law [OF assms(1), of f] None assms by (auto simp: hashTypeDelete_def)
next
  case (Some w)
  then obtain qs u rs p where p: "ps = qs @ (f, u) # rs" "hash_find zl f = Some (Some p)" "cursor zl (flat ps) (2 * length qs) p"
    using hash_find_law [OF assms(1), of f] by auto
  have fit: "fits (flat ps)" "fits (flat qs @ u # flat rs)" "fits (flat (qs @ rs))" using assms(1) p(1) by (auto simp: hash_rep_def fits_def)
  obtain zl1 where zl1: "ziplistDelete garb zl p = Some (zl1, p)" "place zl1 (flat qs @ u # flat rs) (2 * length qs) p"
    using delete_law [OF p(3) fit(1), of garb] p(1) by auto
  obtain zl2 where zl2: "ziplistDelete garb zl1 p = Some (zl2, p)" "place zl2 (flat (qs @ rs)) (2 * length qs) p"
    using delete_law [OF place_cursor [OF zl1(2)] fit(2), of garb] by auto
  have "hash_rep zl2 (qs @ rs)" using cursor_ziplist [OF place_cursor [OF zl2(2)]] fit(3) assms(1) p(1) by (simp add: hash_rep_def)
  moreover have "map_of (qs @ rs) = (map_of ps)(f := None)"
    using assms(1) map_of_mid [of qs f u rs] unfolding p(1) by (simp add: hash_rep_def fun_eq_iff del: map_of_append)
  moreover have "set (qs @ rs) \<subseteq> set ps" using p(1) by auto
  moreover have "hashTypeDelete garb cf (HashZL zl) ob = Some (HashZL zl2, True)"
    using assms(2) p(2) zl1(1) zl2(1) by (simp add: hashTypeDelete_def)
  moreover have found: "(map_of ps f \<noteq> None) = True" using Some by simp
  ultimately show ?thesis unfolding found by blast
qed


section \<open>Conversion to a dict\<close>

lemma decoded_bytes_correct:
  assumes "string_wf ob"
  shows "decoded_bytes garb ob = Some (str_val ob)"
proof -
  obtain ob' where ob': "getDecodedObject garb ob = Some ob'" "string_wf ob'" "sdsEncodedObject ob'" "str_val ob' = str_val ob"
    using getDecodedObject_correct [OF assms] by blast
  from ob'(2) show ?thesis
  proof (cases rule: string_wf_cases)
    case (1 t)
    then show ?thesis using ob' sds_layout [OF 1(3)] by (auto simp: decoded_bytes_def sdslen_def length_sds_str mem_read_def)
  qed (use ob'(3) in simp)
qed

lemma zval_object_correct:
  assumes "length s \<le> STRING_MAX"
  shows "\<exists>ob. zval_object garb (zval_of s) = Some ob \<and> string_wf ob \<and> str_val ob = s"
proof (cases "zipTryEncoding s")
  case None
  then show ?thesis using createStringObject_correct [of "length s" s garb] assms by (simp add: zval_object_def zval_of_def)
next
  case (Some x)
  then show ?thesis using zipTryEncoding_value [of s "fst x" "snd x"] createStringObjectFromLongLong_correct [of "fst x" garb]
    by (cases x) (auto simp: zval_object_def zval_of_def)
qed

definition str_map :: "(byte list, robj) dict \<Rightarrow> byte list \<rightharpoonup> byte list" where
  "str_map d = (\<lambda>k. map_option str_val (dict_abs d k))"

definition dict_strings :: "(byte list, robj) dict \<Rightarrow> bool" where
  "dict_strings d \<longleftrightarrow> plain_inv d \<and> (\<forall>k v. dict_abs d k = Some v \<longrightarrow> string_wf v)"

lemma dom_str_map [simp]: "dom (str_map d) = dom (dict_abs d)"
  by (auto simp: str_map_def)

lemma str_map_add:
  assumes "dict_strings d" "card (dom (str_map d)) < 2 ^ 30" "string_wf v"
  shows "\<exists>d'. dictAdd can d k v = Some (d', str_map d k = None) \<and> dict_strings d' \<and>
    str_map d' = (if str_map d k = None then (str_map d)(k \<mapsto> str_val v) else str_map d)"
proof -
  have "plain_inv d" "card (dom (dict_abs d)) < 2 ^ 30" using assms(1,2) by (simp_all add: dict_strings_def)
  then obtain d' where d': "dictAdd can d k v = Some (d', dict_abs d k = None)" "plain_inv d'"
    "dict_abs d' = (if dict_abs d k = None then (dict_abs d)(k \<mapsto> v) else dict_abs d)"
    using dict.add_map [of d, where k = k and v = v and can = can] by blast
  moreover have "str_map d k = None \<longleftrightarrow> dict_abs d k = None" by (simp add: str_map_def)
  moreover have "dict_strings d'" using assms(1,3) d'(2,3) by (auto simp: dict_strings_def split: if_splits)
  moreover have "str_map d' = (if dict_abs d k = None then (str_map d)(k \<mapsto> str_val v) else str_map d)"
    by (auto simp: str_map_def fun_eq_iff d'(3))
  ultimately show ?thesis by auto
qed

lemma object_at_cursor:
  assumes "cursor zl vs i p" "fits vs" "i < length vs" "length (vs ! i) \<le> STRING_MAX"
  shows "\<exists>ob ob'. hashTypeCurrentObject garb zl p = Some ob \<and> tryObjectEncoding garb 1 ob = Some ob' \<and> string_wf ob' \<and> str_val ob' = vs ! i"
proof -
  obtain ob where ob: "zval_object garb (zval_of (vs ! i)) = Some ob" "string_wf ob" "str_val ob = vs ! i" using zval_object_correct [OF assms(4)] by blast
  then show ?thesis using get_law [OF assms(1,2)] assms(3) tryObjectEncoding_correct [OF ob(2), of garb 1] by (auto simp: hashTypeCurrentObject_def)
qed

lemma flat_nth: "i < length ps \<Longrightarrow> flat ps ! (2 * i) = fst (ps ! i) \<and> flat ps ! Suc (2 * i) = snd (ps ! i)"
proof (induction ps arbitrary: i)
  case (Cons a ps)
  then show ?case by (cases a; cases i) auto
qed simp

text \<open>The iterator after \<open>i\<close> pairs, and its next step.\<close>

definition iter_at :: "byte list \<Rightarrow> (byte list \<times> byte list) list \<Rightarrow> nat \<Rightarrow> (nat \<times> nat) option \<Rightarrow> bool" where
  "iter_at zl ps i cur \<longleftrightarrow> (case cur of
     None \<Rightarrow> i = 0
   | Some (fp, vp) \<Rightarrow> 0 < i \<and> cursor zl (flat ps) (2 * i - 1) vp)"

lemma hashTypeNext_law:
  assumes "hash_rep zl ps" "iter_at zl ps i cur" "i \<le> length ps"
  shows "if i < length ps then \<exists>fp vp. hashTypeNext zl cur = Some (Some (fp, vp)) \<and> cursor zl (flat ps) (2 * i) fp \<and>
      cursor zl (flat ps) (Suc (2 * i)) vp else hashTypeNext zl cur = Some None"
proof -
  have zl: "ziplist zl (flat ps)" "fits (flat ps)" using assms(1) by (simp_all add: hash_rep_def)
  let ?first = "case cur of None \<Rightarrow> ziplistIndex zl 0 | Some (fp, vp) \<Rightarrow> ziplistNext zl vp"
  have first: "if i < length ps then \<exists>fp. ?first = Some (Some fp) \<and> cursor zl (flat ps) (2 * i) fp else ?first = Some None"
  proof (cases cur)
    case None
    then have "i = 0" using assms(2) by (simp add: iter_at_def)
    then show ?thesis using None index_law [OF zl, of 0] by (cases ps) (auto simp: norm_index_def)
  next
    case (Some fv)
    then obtain fp vp where v: "cur = Some (fp, vp)" "0 < i" "cursor zl (flat ps) (2 * i - 1) vp" using assms(2) by (cases fv) (simp add: iter_at_def)
    then have "Suc (2 * i - 1) = 2 * i" "2 * i - 1 < length (flat ps)" using assms(3) by auto
    then show ?thesis using next_law [OF v(3) zl(2)] v(1) by (auto split: if_splits)
  qed
  show ?thesis
  proof (cases "i < length ps")
    case True
    then obtain fp where fp: "?first = Some (Some fp)" "cursor zl (flat ps) (2 * i) fp" using first by auto
    obtain vp where "ziplistNext zl fp = Some (Some vp)" "cursor zl (flat ps) (Suc (2 * i)) vp"
      using next_law [OF fp(2) zl(2)] True by auto
    then show ?thesis using fp True by (simp add: hashTypeNext_def)
  qed (use first in \<open>simp add: hashTypeNext_def\<close>)
qed

lemma hash_convert_loop_law:
  assumes "hash_rep zl ps" "\<forall>s \<in> set (flat ps). length s \<le> STRING_MAX" "length ps \<le> 2 ^ 29"
    "iter_at zl ps i cur" "i \<le> length ps" "dict_strings d" "str_map d = map_of (take i ps)"
  shows "\<exists>d'. hash_convert_loop garb can zl cur d = Some d' \<and> dict_strings d' \<and> str_map d' = map_of ps"
  using assms
proof (induction "length ps - i" arbitrary: i cur d)
  case 0
  then show ?case using hashTypeNext_law [of zl ps i cur] by (subst hash_convert_loop.simps) simp
next
  case (Suc n)
  then have i: "i < length ps" by simp
  have fit: "fits (flat ps)" "distinct (map fst ps)" using Suc.prems(1) by (simp_all add: hash_rep_def)
  obtain fp vp where nxt: "hashTypeNext zl cur = Some (Some (fp, vp))" "cursor zl (flat ps) (2 * i) fp" "cursor zl (flat ps) (Suc (2 * i)) vp"
    using hashTypeNext_law [OF Suc.prems(1,4,5)] i by auto
  obtain f v where fv: "ps ! i = (f, v)" by (cases "ps ! i")
  have idx: "2 * i < length (flat ps)" "Suc (2 * i) < length (flat ps)" using i by simp_all
  have vals: "flat ps ! (2 * i) = f" "flat ps ! Suc (2 * i) = v" using flat_nth [OF i] fv by simp_all
  have short: "length f \<le> STRING_MAX" "length v \<le> STRING_MAX" using Suc.prems(2) idx [THEN nth_mem] vals by auto
  obtain fo fo' where fo: "hashTypeCurrentObject garb zl fp = Some fo" "tryObjectEncoding garb 1 fo = Some fo'" "string_wf fo'" "str_val fo' = f"
    using object_at_cursor [OF nxt(2) fit(1) idx(1), unfolded vals, OF short(1)] by blast
  obtain vo vo' where vo: "hashTypeCurrentObject garb zl vp = Some vo" "tryObjectEncoding garb 1 vo = Some vo'" "string_wf vo'" "str_val vo' = v"
    using object_at_cursor [OF nxt(3) fit(1) idx(2), unfolded vals, OF short(2)] by blast
  have split: "ps = take i ps @ (f, v) # drop (Suc i) ps" using id_take_nth_drop [OF i] fv by simp
  have fresh: "str_map d f = None" using map_of_mid [of "take i ps" f v "drop (Suc i) ps"] fit(2) split Suc.prems(7)
    by (metis map_of_append map_add_None)
  have "dom (str_map d) = fst ` set (take i ps)" using Suc.prems(7) by (simp add: dom_map_of_conv_image_fst)
  then have "card (dom (str_map d)) \<le> length (take i ps)" using card_image_le [of "set (take i ps)" fst] card_length [of "take i ps"] by simp
  then have "card (dom (str_map d)) < 2 ^ 30" using Suc.prems(3) i by simp
  then obtain d1 where d1: "dictAdd can d f vo' = Some (d1, True)" "dict_strings d1" "str_map d1 = (str_map d)(f \<mapsto> v)"
    using str_map_add [OF Suc.prems(6) _ vo(3), of can f] fresh vo(4) by auto
  have "map_of (take (Suc i) ps) = (map_of (take i ps))(f \<mapsto> v)"
    using fresh Suc.prems(7) i fv by (auto simp: take_Suc_conv_app_nth map_add_def fun_eq_iff split: option.splits)
  then have "\<exists>d'. hash_convert_loop garb can zl (Some (fp, vp)) d1 = Some d' \<and> dict_strings d' \<and> str_map d' = map_of ps"
    using d1 Suc nxt(3) i by (intro Suc.hyps(1) [of "Suc i"]) (auto simp: iter_at_def)
  then show ?case using nxt(1) fo vo d1(1) set_key_correct [OF fo(3), of garb] by (subst hash_convert_loop.simps) simp
qed

lemma hash_type_eq: "eq_type (hashDictType seed)"
proof -
  have "compareKeys (hashDictType seed) = (=)" by (simp add: fun_eq_iff hashDictType_def compareKeys_def)
  then show ?thesis by (simp add: eq_type_def dtype_ok_def hashDictType_def equivp_reflp_symp_transp reflp_def symp_def transp_def)
qed

lemma hashTypeConvert_law:
  assumes "hash_rep zl ps" "\<forall>s \<in> set (flat ps). length s \<le> STRING_MAX" "length ps \<le> 2 ^ 29"
  shows "\<exists>d. hashTypeConvert garb cf zl = Some d \<and> dict_strings d \<and> str_map d = map_of ps"
  unfolding hashTypeConvert_def
  by (rule hash_convert_loop_law [OF assms, of 0]) (simp_all add: iter_at_def dict_strings_def str_map_def dictCreate_plain [OF hash_type_eq])


section \<open>The map a hash object stands for\<close>

text \<open>
  The longest string a ziplist hash holds (integers have at most 20 characters and are not checked), and the limits under
  which its ziplist stays small.
\<close>

definition hash_limit :: "hash_config \<Rightarrow> nat" where
  "hash_limit cf = max (hash_max_ziplist_value cf) 20"

definition config_ok :: "hash_config \<Rightarrow> bool" where
  "config_ok cf \<longleftrightarrow> 11 + 2 * (hash_max_ziplist_entries cf + 1) * (hash_limit cf + 14) < 2 ^ 30"

definition hash_abs :: "hashobj \<Rightarrow> byte list \<rightharpoonup> byte list" where
  "hash_abs h = (case h of HashZL zl \<Rightarrow> map_of (unflat (zl_values zl)) | HashHT d \<Rightarrow> str_map d)"

definition small_pairs :: "hash_config \<Rightarrow> (byte list \<times> byte list) list \<Rightarrow> bool" where
  "small_pairs cf ps \<longleftrightarrow> (\<forall>s \<in> set (flat ps). length s \<le> hash_limit cf)"

definition hash_inv :: "hash_config \<Rightarrow> hashobj \<Rightarrow> bool" where
  "hash_inv cf h \<longleftrightarrow> config_ok cf \<and> (case h of
     HashZL zl \<Rightarrow> \<exists>ps. hash_rep zl ps \<and> small_pairs cf ps \<and> length ps \<le> hash_max_ziplist_entries cf
   | HashHT d \<Rightarrow> dict_strings d)"

lemma hash_rep_abs: "hash_rep zl ps \<Longrightarrow> hash_abs (HashZL zl) = map_of ps"
  using zl_values_eq [of zl "flat ps"] by (simp add: hash_rep_def hash_abs_def)

lemma set_flat: "set (flat ps) = (\<Union>(f, v) \<in> set ps. {f, v})"
  by (induction ps) auto

lemma small_cost: "small_pairs cf ps \<Longrightarrow> zl_cost (flat ps) \<le> 2 * length ps * (hash_limit cf + 14)"
  unfolding small_pairs_def
proof (induction ps)
  case (Cons a ps)
  then show ?case by (cases a) fastforce
qed simp

lemma config_bounds:
  assumes "config_ok cf"
  shows "hash_limit cf \<le> STRING_MAX" "hash_max_ziplist_entries cf + 1 \<le> 2 ^ 29"
proof -
  let ?e = "hash_max_ziplist_entries cf + 1" and ?l = "hash_limit cf + 14"
  have "2 * ?e * ?l < 2 ^ 30" using assms by (simp add: config_ok_def)
  moreover have "2 * ?l \<le> 2 * ?e * ?l" "2 * ?e \<le> 2 * ?e * ?l"
    using mult_le_mono [of 1 ?e "2 * ?l" "2 * ?l"] mult_le_mono [of "2 * ?e" "2 * ?e" 1 ?l] by (simp_all add: ac_simps)
  ultimately show "hash_limit cf \<le> STRING_MAX" "hash_max_ziplist_entries cf + 1 \<le> 2 ^ 29" by (simp_all add: STRING_MAX_def)
qed

lemma distinct_pairs_card: "distinct (map fst ps) \<Longrightarrow> card (dom (map_of ps)) = length ps"
  using distinct_card [of "map fst ps"] by (simp add: dom_map_of_conv_image_fst)

lemma hash_convert_inv:
  assumes "config_ok cf" "hash_rep zl ps" "small_pairs cf ps" "length ps \<le> hash_max_ziplist_entries cf + 1"
  shows "\<exists>d. hashTypeConvert garb cf zl = Some d \<and> hash_inv cf (HashHT d) \<and> hash_abs (HashHT d) = map_of ps"
  using hashTypeConvert_law [OF assms(2), of garb cf] config_bounds [OF assms(1)] assms
  by (fastforce simp: small_pairs_def hash_inv_def hash_abs_def)

lemma hashTypeSet_law:
  assumes inv: "hash_inv cf h" and f: "string_wf fo" and v: "string_wf vo"
    and short: "\<And>zl. h = HashZL zl \<Longrightarrow> length (str_val fo) \<le> hash_limit cf \<and> length (str_val vo) \<le> hash_limit cf"
    and card: "card (dom (hash_abs h)) < 2 ^ 29"
  shows "\<exists>h'. hashTypeSet garb cf h fo vo = Some (h', hash_abs h (str_val fo) \<noteq> None) \<and> hash_inv cf h' \<and>
    hash_abs h' = (hash_abs h)(str_val fo \<mapsto> str_val vo)"
proof (cases h)
  case (HashZL zl)
  let ?f = "str_val fo" and ?v = "str_val vo"
  obtain ps where ps: "hash_rep zl ps" "small_pairs cf ps" "length ps \<le> hash_max_ziplist_entries cf" "config_ok cf"
    using inv HashZL by (auto simp: hash_inv_def)
  have short': "length ?f \<le> hash_limit cf" "length ?v \<le> hash_limit cf" using short HashZL by auto
  have "2 * length ps * (hash_limit cf + 14) \<le> 2 * hash_max_ziplist_entries cf * (hash_limit cf + 14)" using ps(3) by simp
  then have "11 + zl_cost (flat ps) + (length ?f + length ?v + 28) < 2 ^ 30"
    using small_cost [OF ps(2)] ps(4) short' by (simp add: config_ok_def algebra_simps)
  then obtain zl1 ps1 where zl1: "hash_set_ziplist garb zl ?f ?v = Some (zl1, map_of ps ?f \<noteq> None)" "hash_rep zl1 ps1"
    "map_of ps1 = (map_of ps)(?f \<mapsto> ?v)" "set ps1 \<subseteq> insert (?f, ?v) (set ps)"
    using hash_set_law [OF ps(1)] by blast
  have small: "small_pairs cf ps1" using zl1(4) ps(2) short' by (auto simp: small_pairs_def set_flat)
  have "length ps1 \<le> length ps + 1"
    using distinct_pairs_card [of ps1] distinct_pairs_card [of ps] zl1(2,3) ps(1)
      card_insert_if [OF finite_dom_map_of [of ps], of ?f]
    by (simp add: hash_rep_def split: if_splits)
  then have len: "length ps1 \<le> hash_max_ziplist_entries cf + 1" using ps(3) by simp
  obtain zl2 where zl2: "ziplistLen zl1 = Some (zl2, 2 * length ps1)" "ziplist zl2 (flat ps1)"
    using len_law [of zl1 "flat ps1"] zl1(2) by (auto simp: hash_rep_def)
  have rep2: "hash_rep zl2 ps1" using zl2(2) zl1(2) by (simp add: hash_rep_def)
  obtain d where d: "hashTypeConvert garb cf zl2 = Some d" "hash_inv cf (HashHT d)" "hash_abs (HashHT d) = map_of ps1"
    using hash_convert_inv [OF ps(4) rep2 small len] by blast
  have "hash_inv cf (HashZL zl2)" if "length ps1 \<le> hash_max_ziplist_entries cf" using rep2 small ps(4) that by (auto simp: hash_inv_def)
  then show ?thesis
    using HashZL decoded_bytes_correct [OF f, of garb] decoded_bytes_correct [OF v, of garb] zl1(1,3) zl2(1) d
      hash_rep_abs [OF ps(1)] hash_rep_abs [OF rep2]
    by (cases "length ps1 > hash_max_ziplist_entries cf") (simp_all add: hashTypeSet_def hashTypeLength_def)
next
  case (HashHT d)
  have d: "dict_strings d" "plain_inv d" "card (dom (dict_abs d)) < 2 ^ 30" "config_ok cf"
    using inv card HashHT by (auto simp: hash_inv_def dict_strings_def hash_abs_def)
  obtain d' where d': "dictReplace (h_can_resize cf) d (str_val fo) vo = Some (d', dict_abs d (str_val fo) = None)" "plain_inv d'"
    "dict_abs d' = (dict_abs d)(str_val fo \<mapsto> vo)"
    using dict.rep_map [OF d(2,3), where k = "str_val fo" and v = vo and can = "h_can_resize cf"] by blast
  have "dict_strings d'" using d(1) d'(2,3) v by (auto simp: dict_strings_def split: if_splits)
  then show ?thesis using HashHT d(4) d' set_key_correct [OF f, of garb]
    by (auto simp: hashTypeSet_def hash_inv_def hash_abs_def str_map_def fun_eq_iff)
qed


lemma int_object_short: "string_wf ob \<Longrightarrow> \<not> sdsEncodedObject ob \<Longrightarrow> length (str_val ob) \<le> 20"
  by (erule string_wf_cases) (simp_all add: length_sdec_bound)

lemma hashTypeTryConversion_law:
  assumes "hash_inv cf h" "\<forall>a \<in> set args. string_wf a"
  shows "\<exists>h'. hashTypeTryConversion garb cf h args = Some h' \<and> hash_inv cf h' \<and> hash_abs h' = hash_abs h \<and>
    (\<forall>zl. h' = HashZL zl \<longrightarrow> (\<forall>a \<in> set args. length (str_val a) \<le> hash_limit cf))"
proof (cases h)
  case (HashHT d)
  then show ?thesis using assms(1) by (simp add: hashTypeTryConversion_def)
next
  case (HashZL zl)
  obtain ps where ps: "hash_rep zl ps" "small_pairs cf ps" "length ps \<le> hash_max_ziplist_entries cf" "config_ok cf"
    using assms(1) HashZL by (auto simp: hash_inv_def)
  obtain d where d: "hashTypeConvert garb cf zl = Some d" "hash_inv cf (HashHT d)" "hash_abs (HashHT d) = hash_abs h"
    using hash_convert_inv [OF ps(4,1,2), of garb] ps(3) hash_rep_abs [OF ps(1)] HashZL by auto
  let ?long = "\<lambda>a. sdsEncodedObject a \<and> (case o_ptr a of PSds s \<Rightarrow> sdslen s > hash_max_ziplist_value cf | _ \<Rightarrow> False)"
  have "length (str_val a) \<le> hash_limit cf" if "string_wf a" "\<not> ?long a" for a
    using that(1)
  proof (cases rule: string_wf_cases)
    case (1 s)
    then show ?thesis using that(2) by (auto simp: hash_limit_def sdslen_def length_sds_str)
  next
    case (2 v)
    then show ?thesis using int_object_short [OF that(1)] by (simp add: hash_limit_def)
  qed
  then have "\<not> (\<exists>a \<in> set args. ?long a) \<Longrightarrow> \<forall>a \<in> set args. length (str_val a) \<le> hash_limit cf" using assms(2) by blast
  then show ?thesis using HashZL assms(1) d by (cases "\<exists>a \<in> set args. ?long a") (simp_all add: hashTypeTryConversion_def)
qed

lemma hashTypeTryObjectEncoding_law:
  "string_wf ob \<Longrightarrow> \<exists>ob'. hashTypeTryObjectEncoding garb refs h ob = Some ob' \<and> string_wf ob' \<and> str_val ob' = str_val ob"
  using tryObjectEncoding_correct [of ob garb refs] by (cases h) (auto simp: hashTypeTryObjectEncoding_def)

lemma fetch_law:
  assumes "dict_strings d" "string_wf fo"
  shows "\<exists>d' r. hashTypeGetFromHashTable garb d fo = Some (d', r) \<and> dict_strings d' \<and> str_map d' = str_map d \<and>
    map_option str_val r = str_map d (str_val fo) \<and> (\<forall>ob. r = Some ob \<longrightarrow> string_wf ob)"
proof -
  have "plain_inv d" using assms(1) by (simp add: dict_strings_def)
  then obtain d' where "dictFetchValue d (str_val fo) = Some (d', dict_abs d (str_val fo))" "plain_inv d'" "dict_abs d' = dict_abs d"
    using dict.get_map [of d, where k = "str_val fo"] by blast
  then show ?thesis using assms(1) set_key_correct [OF assms(2), of garb]
    by (auto simp: hashTypeGetFromHashTable_def dict_strings_def str_map_def)
qed

lemma hashTypeGetObject_law:
  assumes "hash_inv cf h" "string_wf fo"
  shows "\<exists>h' r. hashTypeGetObject garb h fo = Some (h', r) \<and> hash_inv cf h' \<and> hash_abs h' = hash_abs h \<and>
    map_option str_val r = hash_abs h (str_val fo) \<and> (\<forall>ob. r = Some ob \<longrightarrow> string_wf ob)"
proof (cases h)
  case (HashZL zl)
  obtain ps where ps: "hash_rep zl ps" "small_pairs cf ps" "config_ok cf" using assms(1) HashZL by (auto simp: hash_inv_def)
  note get = hash_get_law [OF ps(1) decoded_bytes_correct [OF assms(2)], of garb]
  show ?thesis
  proof (cases "map_of ps (str_val fo)")
    case None
    then show ?thesis using HashZL assms(1) get hash_rep_abs [OF ps(1)] by (simp add: hashTypeGetObject_def)
  next
    case (Some v)
    then have "v \<in> set (flat ps)" using map_of_SomeD [OF Some] by (auto simp: set_flat)
    then have "length v \<le> STRING_MAX" using ps(2) config_bounds(1) [OF ps(3)] by (auto simp: small_pairs_def)
    then show ?thesis using HashZL assms(1) get hash_rep_abs [OF ps(1)] Some zval_object_correct [of v garb]
      by (auto simp: hashTypeGetObject_def)
  qed
next
  case (HashHT d)
  then show ?thesis using fetch_law [of d fo garb] assms by (auto simp: hashTypeGetObject_def hash_inv_def hash_abs_def)
qed

lemma hashTypeExists_law:
  assumes "hash_inv cf h" "string_wf fo"
  shows "\<exists>h'. hashTypeExists garb h fo = Some (h', hash_abs h (str_val fo) \<noteq> None) \<and> hash_inv cf h' \<and> hash_abs h' = hash_abs h \<and>
    (\<forall>zl. h' = HashZL zl \<longrightarrow> h = HashZL zl)"
proof (cases h)
  case (HashZL zl)
  obtain ps where ps: "hash_rep zl ps" using assms(1) HashZL by (auto simp: hash_inv_def)
  show ?thesis using hash_get_law [OF ps decoded_bytes_correct [OF assms(2)], of garb] HashZL assms(1) hash_rep_abs [OF ps]
    by (auto simp: hashTypeExists_def)
next
  case (HashHT d)
  then obtain d' r where "hashTypeGetFromHashTable garb d fo = Some (d', r)" "dict_strings d'" "str_map d' = str_map d" "map_option str_val r = str_map d (str_val fo)"
    using fetch_law [of d fo garb] assms by (auto simp: hash_inv_def)
  moreover have "r \<noteq> None \<longleftrightarrow> str_map d (str_val fo) \<noteq> None" using calculation(4) by (metis option.map_disc_iff)
  ultimately show ?thesis using HashHT assms(1) by (simp add: hashTypeExists_def hash_inv_def hash_abs_def)
qed

lemma hashTypeDelete_law:
  assumes "hash_inv cf h" "string_wf fo" "card (dom (hash_abs h)) \<le> 2 ^ 29"
  shows "\<exists>h'. hashTypeDelete garb cf h fo = Some (h', hash_abs h (str_val fo) \<noteq> None) \<and> hash_inv cf h' \<and>
    hash_abs h' = (hash_abs h)(str_val fo := None)"
proof (cases h)
  case (HashZL zl)
  obtain ps where ps: "hash_rep zl ps" "small_pairs cf ps" "length ps \<le> hash_max_ziplist_entries cf" "config_ok cf"
    using assms(1) HashZL by (auto simp: hash_inv_def)
  obtain zl' ps' where d: "hashTypeDelete garb cf (HashZL zl) fo = Some (HashZL zl', map_of ps (str_val fo) \<noteq> None)" "hash_rep zl' ps'"
    "map_of ps' = (map_of ps)(str_val fo := None)" "set ps' \<subseteq> set ps"
    using hash_delete_law [OF ps(1) decoded_bytes_correct [OF assms(2)]] by blast
  have "length ps' \<le> length ps"
    using distinct_pairs_card [of ps'] distinct_pairs_card [of ps] d(2,3) ps(1) card_mono [OF finite_dom_map_of [of ps], of "dom (map_of ps')"]
    by (auto simp: hash_rep_def)
  moreover have "small_pairs cf ps'" using d(4) ps(2) by (fastforce simp: small_pairs_def set_flat)
  ultimately have "hash_inv cf (HashZL zl')" using d(2) ps(3,4) by (auto simp: hash_inv_def)
  then show ?thesis using d HashZL hash_rep_abs [OF ps(1)] hash_rep_abs [OF d(2)] by simp
next
  case (HashHT d)
  let ?f = "str_val fo"
  have ds: "dict_strings d" "plain_inv d" "config_ok cf" using assms(1) HashHT by (auto simp: hash_inv_def dict_strings_def)
  obtain d1 where d1: "dictDelete d ?f = Some (d1, dict_abs d ?f \<noteq> None)" "plain_inv d1" "dict_abs d1 = (dict_abs d)(?f := None)"
    using dict.del_map [OF ds(2), where k = ?f] by blast
  have "card (dom (dict_abs d1)) \<le> card (dom (dict_abs d))"
    using d1(3) card_mono [OF dict.finite_dom [OF ds(2)], of "dom (dict_abs d) - {?f}"] by auto
  then obtain d2 ok where d2: "dictResize (h_can_resize cf) d1 = Some (d2, ok)" "plain_inv d2" "dict_abs d2 = dict_abs d1"
    using dictResize_plain [OF d1(2), of "h_can_resize cf"] assms(3) HashHT by (auto simp: hash_abs_def)
  have "dict_strings d1" "dict_strings d2" using ds(1) d1(2,3) d2(2,3) by (auto simp: dict_strings_def split: if_splits)
  moreover have "str_map d1 = (str_map d)(?f := None)" "str_map d2 = str_map d1" using d1(3) d2(3) by (simp_all add: str_map_def fun_eq_iff)
  moreover have "(dict_abs d ?f \<noteq> None) = (str_map d ?f \<noteq> None)" by (simp add: str_map_def)
  ultimately show ?thesis using HashHT ds(3) d1(1) d2(1) set_key_correct [OF assms(2), of garb]
    by (cases "dict_abs d ?f = None"; cases "htNeedsResize d1") (simp_all add: hashTypeDelete_def hash_inv_def hash_abs_def)
qed


section \<open>The commands' bodies as a map\<close>

lemma hset_body_law:
  assumes "hash_inv cf h" "string_wf fo" "string_wf vo" "card (dom (hash_abs h)) < 2 ^ 29"
  shows "\<exists>h'. hset_body garb cf refs refs' h fo vo = Some (h', hash_abs h (str_val fo) = None) \<and> hash_inv cf h' \<and>
    hash_abs h' = (hash_abs h)(str_val fo \<mapsto> str_val vo)"
proof -
  obtain h1 where h1: "hashTypeTryConversion garb cf h [fo, vo] = Some h1" "hash_inv cf h1" "hash_abs h1 = hash_abs h"
    "\<And>zl. h1 = HashZL zl \<Longrightarrow> length (str_val fo) \<le> hash_limit cf \<and> length (str_val vo) \<le> hash_limit cf"
    using hashTypeTryConversion_law [of cf h "[fo, vo]" garb] assms by auto
  obtain f1 v1 where fv: "hashTypeTryObjectEncoding garb refs h1 fo = Some f1" "string_wf f1" "str_val f1 = str_val fo"
    "hashTypeTryObjectEncoding garb refs' h1 vo = Some v1" "string_wf v1" "str_val v1 = str_val vo"
    using hashTypeTryObjectEncoding_law assms(2,3) by blast
  then show ?thesis using hashTypeSet_law [OF h1(2) fv(2,5), of garb] h1 assms(4) by (auto simp: hset_body_def)
qed

lemma hsetnx_body_law:
  assumes "hash_inv cf h" "string_wf fo" "string_wf vo" "card (dom (hash_abs h)) < 2 ^ 29"
  shows "\<exists>h'. hsetnx_body garb cf refs refs' h fo vo = Some (h', hash_abs h (str_val fo) = None) \<and> hash_inv cf h' \<and>
    hash_abs h' = (if hash_abs h (str_val fo) = None then (hash_abs h)(str_val fo \<mapsto> str_val vo) else hash_abs h)"
proof -
  obtain h1 where h1: "hashTypeTryConversion garb cf h [fo, vo] = Some h1" "hash_inv cf h1" "hash_abs h1 = hash_abs h"
    "\<And>zl. h1 = HashZL zl \<Longrightarrow> length (str_val fo) \<le> hash_limit cf \<and> length (str_val vo) \<le> hash_limit cf"
    using hashTypeTryConversion_law [of cf h "[fo, vo]" garb] assms by auto
  obtain h2 where h2: "hashTypeExists garb h1 fo = Some (h2, hash_abs h (str_val fo) \<noteq> None)" "hash_inv cf h2" "hash_abs h2 = hash_abs h"
    "\<And>zl. h2 = HashZL zl \<Longrightarrow> h1 = HashZL zl"
    using hashTypeExists_law [OF h1(2) assms(2), of garb] h1(3) by auto
  obtain f1 v1 where fv: "hashTypeTryObjectEncoding garb refs h2 fo = Some f1" "string_wf f1" "str_val f1 = str_val fo"
    "hashTypeTryObjectEncoding garb refs' h2 vo = Some v1" "string_wf v1" "str_val v1 = str_val vo"
    using hashTypeTryObjectEncoding_law assms(2,3) by blast
  obtain h3 where "hashTypeSet garb cf h2 f1 v1 = Some (h3, hash_abs h (str_val fo) \<noteq> None)" "hash_inv cf h3"
    "hash_abs h3 = (hash_abs h)(str_val fo \<mapsto> str_val vo)"
    using hashTypeSet_law [OF h2(2) fv(2,5), of garb] h1(4) h2(3,4) fv(3,6) assms(4) by auto
  then show ?thesis using h1(1) h2 fv by (auto simp: hsetnx_body_def)
qed

lemma hash_finite:
  assumes "hash_inv cf h"
  shows "finite (dom (hash_abs h))"
proof (cases h)
  case (HashZL zl)
  then show ?thesis using assms hash_rep_abs by (auto simp: hash_inv_def finite_dom_map_of)
next
  case (HashHT d)
  then show ?thesis using assms dict.finite_dom [of d] by (simp add: hash_inv_def hash_abs_def dict_strings_def)
qed

lemma hashTypeLength_law:
  assumes "hash_inv cf h"
  shows "\<exists>h'. hashTypeLength h = Some (h', card (dom (hash_abs h))) \<and> hash_abs h' = hash_abs h"
proof (cases h)
  case (HashZL zl)
  then obtain ps where ps: "hash_rep zl ps" using assms by (auto simp: hash_inv_def)
  then obtain zl' where zl': "ziplistLen zl = Some (zl', length (flat ps))" "ziplist zl' (flat ps)"
    using len_law [of zl "flat ps"] by (auto simp: hash_rep_def)
  have "hash_rep zl' ps" using ps zl'(2) by (simp add: hash_rep_def)
  then show ?thesis using HashZL zl'(1) ps by (auto simp: hashTypeLength_def hash_rep_abs hash_rep_def distinct_pairs_card)
next
  case (HashHT d)
  then show ?thesis using assms plain_dom(2) [of d] dictSize_ents [of d]
    by (simp add: hashTypeLength_def hash_abs_def hash_inv_def dict_strings_def plain_inv_def)
qed

text \<open>The configuration of \<open>redis.h\<close>.\<close>

definition default_hash :: hash_config where
  "default_hash = \<lparr>hash_max_ziplist_value = 64, hash_max_ziplist_entries = 512, h_seed = 5381, h_can_resize = True\<rparr>"

lemma createHashObject_law:
  assumes "config_ok cf"
  shows "\<exists>h. createHashObject garb = Some h \<and> hash_inv cf h \<and> hash_abs h = Map.empty"
proof -
  obtain zl where zl: "ziplistNew garb = Some zl" "ziplist zl []" using ziplist_new by blast
  then have "hash_rep zl []" by (simp add: hash_rep_def fits_def)
  then show ?thesis using zl(1) assms hash_rep_abs [of zl "[]"] by (auto simp: createHashObject_def hash_inv_def small_pairs_def)
qed

text \<open>The map contract, for strings that \<open>enc\<close> turns into objects standing for them.\<close>

interpretation hash_type: bounded_map "hash_inv cf" hash_abs "\<lambda>b. string_wf (enc b) \<and> str_val (enc b) = b"
  "\<lambda>b. string_wf (enc b) \<and> str_val (enc b) = b" "2 ^ 29"
  "\<lambda>h f v. hsetnx_body garb cf refs refs' h (enc f) (enc v)" "\<lambda>h f v. hset_body garb cf refs refs' h (enc f) (enc v)"
  "\<lambda>h f. hashTypeDelete garb cf h (enc f)" "\<lambda>h f. map_option (\<lambda>(h, r). (h, map_option str_val r)) (hashTypeGetObject garb h (enc f))"
  for cf enc garb refs refs'
proof (unfold_locales, goal_cases)
  case (1 s)
  then show ?case by (rule hash_finite)
next
  case (2 s k v)
  then have e: "str_val (enc k) = k" "str_val (enc v) = v" "string_wf (enc k)" "string_wf (enc v)" by simp_all
  show ?case using hsetnx_body_law [OF 2(1) e(3,4) 2(4), of garb refs refs'] unfolding e(1,2) .
next
  case (3 s k v)
  then show ?case using hset_body_law [of cf s "enc k" "enc v" garb refs refs'] by simp
next
  case (4 s k)
  then show ?case using hashTypeDelete_law [of cf s "enc k" garb] by simp
next
  case (5 s k)
  then show ?case using hashTypeGetObject_law [of cf s "enc k" garb] by auto
qed

end
