(* ===== verification/Skiplist.thy ===== *)
theory Skiplist
  imports Objects Dict_Map T_set
begin

text \<open>
  The skip list of \<open>t_zset.c\<close>. Nodes live in a store, a map from addresses to nodes; a read through a dangling pointer and an
  access outside a level array have no value. The address that \<open>zmalloc\<close> returns for a node is an argument, which must not be in use, as are
  the contents of fresh memory and the values of \<open>random()\<close>.

  Scores are elements of a linear order: doubles that are not NaN, as \<open>zslInsert\<close> asserts, compare like one, where 0 and -0 count as the same value.
  Spans and ranks are 32-bit integers, the length is a 64-bit one.
\<close>

section \<open>Nodes and the store\<close>

record 's zskiplistNode =
  zn_obj :: "robj option"
  zn_score :: 's
  zn_backward :: "nat option"
  zn_level :: "(nat option \<times> nat) list"

type_synonym 's nodes = "nat \<rightharpoonup> 's zskiplistNode"

record 's zskiplist =
  zsl_header :: nat
  zsl_tail :: "nat option"
  zsl_length :: nat
  zsl_level :: nat
  zsl_nodes :: "'s nodes"

definition ZSKIPLIST_MAXLEVEL :: nat where "ZSKIPLIST_MAXLEVEL = 32"

text \<open>The difference of two values of type \<open>unsigned int\<close>.\<close>

definition u32_sub :: "nat \<Rightarrow> nat \<Rightarrow> nat" where
  "u32_sub a b = u32 (a + (2 ^ 32 - b))"

definition get_level :: "'s nodes \<Rightarrow> nat \<Rightarrow> nat \<Rightarrow> (nat option \<times> nat) option" where
  "get_level nodes x i = do { n \<leftarrow> nodes x; mem_get (zn_level n) i }"

definition set_level :: "'s nodes \<Rightarrow> nat \<Rightarrow> nat \<Rightarrow> nat option \<times> nat \<Rightarrow> 's nodes option" where
  "set_level nodes x i v = do { n \<leftarrow> nodes x; lv \<leftarrow> mem_set (zn_level n) i v; Some (nodes(x \<mapsto> n\<lparr>zn_level := lv\<rparr>)) }"

definition set_backward :: "'s nodes \<Rightarrow> nat \<Rightarrow> nat option \<Rightarrow> 's nodes option" where
  "set_backward nodes x b = do { n \<leftarrow> nodes x; Some (nodes(x \<mapsto> n\<lparr>zn_backward := b\<rparr>)) }"

definition zslCreateNode ::
  "(nat \<Rightarrow> nat option \<times> nat) \<Rightarrow> nat option \<Rightarrow> nat \<Rightarrow> 's nodes \<Rightarrow> nat \<Rightarrow> 's \<Rightarrow> robj option \<Rightarrow> 's nodes option" where
  "zslCreateNode fresh back a nodes level score obj =
     (if nodes a \<noteq> None then None
      else Some (nodes(a \<mapsto> \<lparr>zn_obj = obj, zn_score = score, zn_backward = back, zn_level = map fresh [0..<level]\<rparr>)))"

definition zslCreate :: "nat \<Rightarrow> ('s :: {linorder, zero}) zskiplist" where
  "zslCreate a = \<lparr>zsl_header = a, zsl_tail = None, zsl_length = 0, zsl_level = 1,
     zsl_nodes = [a \<mapsto> \<lparr>zn_obj = None, zn_score = 0, zn_backward = None, zn_level = replicate ZSKIPLIST_MAXLEVEL (None, 0)\<rparr>]\<rparr>"

definition zslFreeNode :: "'s nodes \<Rightarrow> nat \<Rightarrow> 's nodes" where
  "zslFreeNode nodes x = nodes(x := None)"

text \<open>
  The level of a new node, from the values of \<open>random()\<close>. The bound \<open>ZSKIPLIST_P * 0xFFFF\<close> is the double 16383.75; the loop ends when a value
  is above it.
\<close>

definition level_up :: "nat \<Rightarrow> bool" where
  "level_up v \<longleftrightarrow> 4 * (v AND 0xFFFF) < 0xFFFF"

partial_function (option) level_loop :: "(nat \<Rightarrow> nat) \<Rightarrow> nat \<Rightarrow> nat \<Rightarrow> nat option" where
  "level_loop random k level = (if level_up (random k) then level_loop random (Suc k) (level + 1) else Some level)"

definition zslRandomLevel :: "(nat \<Rightarrow> nat) \<Rightarrow> nat option" where
  "zslRandomLevel random = do {
     level \<leftarrow> level_loop random 0 1;
     Some (if level < ZSKIPLIST_MAXLEVEL then level else ZSKIPLIST_MAXLEVEL) }"

section \<open>Searching\<close>

text \<open>
  The loop on one level that all searches share: \<open>go\<close> is the condition on the next node, given the rank it would have; \<open>w\<close>
  is the width of the variable that counts. \<open>zsl_search\<close> is the loop over the levels from the top; its result are the arrays \<open>update\<close> and \<open>rank\<close>,
  from level 0.
\<close>

partial_function (option) zsl_walk ::
  "(nat \<Rightarrow> nat) \<Rightarrow> ('s zskiplistNode \<Rightarrow> nat \<Rightarrow> bool option) \<Rightarrow> 's nodes \<Rightarrow> nat \<Rightarrow> nat \<Rightarrow> nat \<Rightarrow> (nat \<times> nat) option" where
  "zsl_walk w go nodes i x rank = do {
     (forward, span) \<leftarrow> get_level nodes x i;
     (case forward of
        None \<Rightarrow> Some (x, rank)
      | Some f \<Rightarrow> do {
          n \<leftarrow> nodes f;
          b \<leftarrow> go n (w (rank + span));
          if b then zsl_walk w go nodes i f (w (rank + span)) else Some (x, rank) }) }"

primrec zsl_search ::
  "(nat \<Rightarrow> nat) \<Rightarrow> ('s zskiplistNode \<Rightarrow> nat \<Rightarrow> bool option) \<Rightarrow> 's nodes \<Rightarrow> nat \<Rightarrow> nat \<Rightarrow> nat \<Rightarrow> (nat \<times> nat) list option" where
  "zsl_search w go nodes 0 x rank = Some []"
| "zsl_search w go nodes (Suc i) x rank = do {
     (x, rank) \<leftarrow> zsl_walk w go nodes i x rank;
     us \<leftarrow> zsl_search w go nodes i x rank;
     Some (us @ [(x, rank)]) }"

text \<open>The loop condition of \<open>zslInsert\<close> and \<open>zslDelete\<close>, and with \<open>le\<close> the one of \<open>zslGetRank\<close>.\<close>

definition zsl_before :: "bool \<Rightarrow> (nat \<Rightarrow> byte) \<Rightarrow> ('s :: linorder) \<Rightarrow> robj \<Rightarrow> 's zskiplistNode \<Rightarrow> nat \<Rightarrow> bool option" where
  "zsl_before le garb score obj n rank =
     (if zn_score n < score then Some True
      else if zn_score n = score then do {
        ob \<leftarrow> zn_obj n;
        c \<leftarrow> compareStringObjects garb ob obj;
        Some (c < 0 \<or> le \<and> c = 0) }
      else Some False)"

section \<open>Insertion\<close>

text \<open>The loops of \<open>zslInsert\<close>: opening new levels, linking the node \<open>x\<close> in, and widening the spans above it.\<close>

primrec raise_levels :: "nat \<Rightarrow> nat \<Rightarrow> 's nodes \<Rightarrow> nat list \<Rightarrow> 's nodes option" where
  "raise_levels header len nodes [] = Some nodes"
| "raise_levels header len nodes (i # js) = do {
     (forward, span) \<leftarrow> get_level nodes header i;
     nodes \<leftarrow> set_level nodes header i (forward, u32 len);
     raise_levels header len nodes js }"

primrec link_levels :: "(nat \<times> nat) list \<Rightarrow> nat \<Rightarrow> nat \<Rightarrow> 's nodes \<Rightarrow> nat list \<Rightarrow> 's nodes option" where
  "link_levels us rank0 x nodes [] = Some nodes"
| "link_levels us rank0 x nodes (i # js) = do {
     (u, rank) \<leftarrow> mem_get us i;
     (forward, span) \<leftarrow> get_level nodes u i;
     nodes \<leftarrow> set_level nodes x i (forward, u32_sub span (u32_sub rank0 rank));
     nodes \<leftarrow> set_level nodes u i (Some x, u32 (u32_sub rank0 rank + 1));
     link_levels us rank0 x nodes js }"

primrec bump_levels :: "(nat \<times> nat) list \<Rightarrow> 's nodes \<Rightarrow> nat list \<Rightarrow> 's nodes option" where
  "bump_levels us nodes [] = Some nodes"
| "bump_levels us nodes (i # js) = do {
     (u, rank) \<leftarrow> mem_get us i;
     (forward, span) \<leftarrow> get_level nodes u i;
     nodes \<leftarrow> set_level nodes u i (forward, u32 (span + 1));
     bump_levels us nodes js }"

text \<open>Creating the node and linking it behind the nodes \<open>us\<close>; the result is the store and the tail.\<close>

definition insert_node ::
  "(nat \<Rightarrow> nat option \<times> nat) \<Rightarrow> nat option \<Rightarrow> nat \<Rightarrow> nat \<Rightarrow> (nat \<times> nat) list \<Rightarrow> nat \<Rightarrow> nat \<Rightarrow> 's nodes \<Rightarrow> nat option \<Rightarrow> 's \<Rightarrow> robj \<Rightarrow>
   ('s nodes \<times> nat option) option" where
  "insert_node fresh back a header us level toplevel nodes tail score obj = do {
     nodes \<leftarrow> zslCreateNode fresh back a nodes level score (Some obj);
     (u0, rank0) \<leftarrow> mem_get us 0;
     nodes \<leftarrow> link_levels us rank0 a nodes [0..<level];
     nodes \<leftarrow> bump_levels us nodes [level..<toplevel];
     nodes \<leftarrow> set_backward nodes a (if u0 = header then None else Some u0);
     (forward, _) \<leftarrow> get_level nodes a 0;
     (case forward of
        Some f \<Rightarrow> do { nodes \<leftarrow> set_backward nodes f (Some a); Some (nodes, tail) }
      | None \<Rightarrow> Some (nodes, Some a)) }"

definition zslInsert ::
  "(nat \<Rightarrow> byte) \<Rightarrow> (nat \<Rightarrow> nat option \<times> nat) \<Rightarrow> nat option \<Rightarrow> (nat \<Rightarrow> nat) \<Rightarrow> nat \<Rightarrow>
   ('s :: linorder) zskiplist \<Rightarrow> 's \<Rightarrow> robj \<Rightarrow> ('s zskiplist \<times> nat) option" where
  "zslInsert garb fresh back random a zsl score obj = do {
     let header = zsl_header zsl;
     us \<leftarrow> zsl_search u32 (zsl_before False garb score obj) (zsl_nodes zsl) (zsl_level zsl) header 0;
     level \<leftarrow> zslRandomLevel random;
     (nodes, us, toplevel) \<leftarrow> (if level > zsl_level zsl
       then do {
         nodes \<leftarrow> raise_levels header (zsl_length zsl) (zsl_nodes zsl) [zsl_level zsl..<level];
         Some (nodes, us @ map (\<lambda>_. (header, 0)) [zsl_level zsl..<level], level) }
       else Some (zsl_nodes zsl, us, zsl_level zsl));
     (nodes, tail) \<leftarrow> insert_node fresh back a header us level toplevel nodes (zsl_tail zsl) score obj;
     Some (zsl\<lparr>zsl_nodes := nodes, zsl_level := toplevel, zsl_tail := tail, zsl_length := inc64 (zsl_length zsl)\<rparr>, a) }"

section \<open>Deletion\<close>

primrec unlink_levels :: "(nat \<times> nat) list \<Rightarrow> nat \<Rightarrow> 's nodes \<Rightarrow> nat list \<Rightarrow> 's nodes option" where
  "unlink_levels us x nodes [] = Some nodes"
| "unlink_levels us x nodes (i # js) = do {
     (u, rank) \<leftarrow> mem_get us i;
     (forward, span) \<leftarrow> get_level nodes u i;
     nodes \<leftarrow> (if forward = Some x
       then do {
         (xforward, xspan) \<leftarrow> get_level nodes x i;
         set_level nodes u i (xforward, u32 (span + u32_sub xspan 1)) }
       else set_level nodes u i (forward, u32_sub span 1));
     unlink_levels us x nodes js }"

primrec shrink_level :: "'s nodes \<Rightarrow> nat \<Rightarrow> nat \<Rightarrow> nat option" where
  "shrink_level nodes header 0 = Some 0"
| "shrink_level nodes header (Suc l) =
     (if Suc l > 1 then do {
        (forward, _) \<leftarrow> get_level nodes header l;
        if forward = None then shrink_level nodes header l else Some (Suc l) }
      else Some (Suc l))"

definition zslDeleteNode :: "'s zskiplist \<Rightarrow> nat \<Rightarrow> (nat \<times> nat) list \<Rightarrow> 's zskiplist option" where
  "zslDeleteNode zsl x us = do {
     nodes \<leftarrow> unlink_levels us x (zsl_nodes zsl) [0..<zsl_level zsl];
     (forward, _) \<leftarrow> get_level nodes x 0;
     n \<leftarrow> nodes x;
     (nodes, tail) \<leftarrow> (case forward of
        Some f \<Rightarrow> do { nodes \<leftarrow> set_backward nodes f (zn_backward n); Some (nodes, zsl_tail zsl) }
      | None \<Rightarrow> Some (nodes, zn_backward n));
     level \<leftarrow> shrink_level nodes (zsl_header zsl) (zsl_level zsl);
     Some (zsl\<lparr>zsl_nodes := nodes, zsl_tail := tail, zsl_level := level, zsl_length := dec64 (zsl_length zsl)\<rparr>) }"

definition zslDelete :: "(nat \<Rightarrow> byte) \<Rightarrow> ('s :: linorder) zskiplist \<Rightarrow> 's \<Rightarrow> robj \<Rightarrow> ('s zskiplist \<times> bool) option" where
  "zslDelete garb zsl score obj = do {
     us \<leftarrow> zsl_search u32 (zsl_before False garb score obj) (zsl_nodes zsl) (zsl_level zsl) (zsl_header zsl) 0;
     (u, _) \<leftarrow> mem_get us 0;
     (forward, _) \<leftarrow> get_level (zsl_nodes zsl) u 0;
     (case forward of
        None \<Rightarrow> Some (zsl, False)
      | Some x \<Rightarrow> do {
          n \<leftarrow> zsl_nodes zsl x;
          same \<leftarrow> (if score = zn_score n then do { ob \<leftarrow> zn_obj n; equalStringObjects garb ob obj } else Some False);
          if same then do {
            zsl \<leftarrow> zslDeleteNode zsl x us;
            Some (zsl\<lparr>zsl_nodes := zslFreeNode (zsl_nodes zsl) x\<rparr>, True) }
          else Some (zsl, False) }) }"

end
