(* ===== verification/Skiplist_Inv.thy ===== *)
theory Skiplist_Inv
  imports Skiplist
begin

text \<open>
  What a skip list stands for: the sequence of its elements. The level array of a node is determined by the elements behind it
  (\<open>fwd\<close>, \<open>spn\<close>), and a search ends, on each level, at the last element of that height before the place searched for (\<open>tall\<close>).
\<close>

section \<open>Elements and level arrays\<close>

datatype 's elem = Elem (el_addr: nat) (el_height: nat) (el_score: 's) (el_obj: robj)

primrec fwd :: "nat \<Rightarrow> 's elem list \<Rightarrow> nat option" where
  "fwd i [] = None"
| "fwd i (e # ys) = (if i < el_height e then Some (el_addr e) else fwd i ys)"

primrec spn :: "nat \<Rightarrow> 's elem list \<Rightarrow> nat" where
  "spn i [] = 0"
| "spn i (e # ys) = (if i < el_height e then 1 else Suc (spn i ys))"

definition tower :: "nat \<Rightarrow> 's elem list \<Rightarrow> (nat option \<times> nat) list" where
  "tower h ys = map (\<lambda>i. (fwd i ys, spn i ys)) [0..<h]"

definition node_of :: "nat option \<Rightarrow> 's elem \<Rightarrow> 's elem list \<Rightarrow> 's zskiplistNode" where
  "node_of b e ys = \<lparr>zn_obj = Some (el_obj e), zn_score = el_score e, zn_backward = b, zn_level = tower (el_height e) ys\<rparr>"

text \<open>The elements \<open>L\<close> are in the store, linked to each other and to \<open>Y\<close> behind them.\<close>

fun seg :: "'s nodes \<Rightarrow> nat option \<Rightarrow> 's elem list \<Rightarrow> 's elem list \<Rightarrow> bool" where
  "seg nodes b [] Y \<longleftrightarrow> True"
| "seg nodes b (e # L) Y \<longleftrightarrow> nodes (el_addr e) = Some (node_of b e (L @ Y)) \<and> seg nodes (Some (el_addr e)) L Y"

definition last_back :: "nat option \<Rightarrow> 's elem list \<Rightarrow> nat option" where
  "last_back b L = (if L = [] then b else Some (el_addr (last L)))"

definition head_ok :: "'s nodes \<Rightarrow> nat \<Rightarrow> nat \<Rightarrow> 's elem list \<Rightarrow> bool" where
  "head_ok nodes header lv xs \<longleftrightarrow> (\<exists>n. nodes header = Some n \<and> zn_obj n = None \<and> length (zn_level n) = ZSKIPLIST_MAXLEVEL \<and>
     (\<forall>i < ZSKIPLIST_MAXLEVEL. fst (zn_level n ! i) = fwd i xs) \<and> (\<forall>i < lv. snd (zn_level n ! i) = spn i xs))"

definition heights_ok :: "nat \<Rightarrow> 's elem list \<Rightarrow> bool" where
  "heights_ok lv xs \<longleftrightarrow> lv \<le> ZSKIPLIST_MAXLEVEL \<and> 1 \<le> lv \<and> (\<forall>e \<in> set xs. 1 \<le> el_height e \<and> el_height e \<le> lv)"

text \<open>The element a search has reached, after the elements \<open>A\<close>.\<close>

definition nd :: "nat \<Rightarrow> 's elem list \<Rightarrow> nat" where
  "nd header A = (if A = [] then header else el_addr (last A))"

definition reaches :: "nat \<Rightarrow> 's elem list \<Rightarrow> bool" where
  "reaches i A \<longleftrightarrow> A = [] \<or> i < el_height (last A)"

lemma seg_append: "seg nodes b (L @ M) Y \<longleftrightarrow> seg nodes b L (M @ Y) \<and> seg nodes (last_back b L) M Y"
  by (induction L arbitrary: b) (auto simp: last_back_def)

lemma fwd_skip: "\<forall>e \<in> set M. el_height e \<le> i \<Longrightarrow> fwd i (M @ Y) = fwd i Y \<and> spn i (M @ Y) = length M + spn i Y"
  by (induction M) auto

lemma fwd_hit: "\<forall>e \<in> set M. el_height e \<le> i \<Longrightarrow> i < el_height e \<Longrightarrow> fwd i (M @ e # Y) = Some (el_addr e) \<and> spn i (M @ e # Y) = Suc (length M)"
  by (induction M) auto

lemma spn_le: "spn i ys \<le> length ys"
  by (induction ys) auto

lemma first_tall:
  assumes "\<not> (\<forall>e \<in> set M. el_height e \<le> i)"
  obtains M1 e M2 where "M = M1 @ e # M2" "\<forall>e \<in> set M1. el_height e \<le> i" "i < el_height e"
  using split_list_first_prop [of M "\<lambda>e. i < el_height e"] assms that by (metis linorder_not_le)

lemma fwd_in: "fwd i ys = Some f \<Longrightarrow> \<exists>ys1 e ys2. ys = ys1 @ e # ys2 \<and> f = el_addr e \<and> spn i ys = Suc (length ys1) \<and> i < el_height e"
proof (induction ys)
  case (Cons e ys)
  show ?case
  proof (cases "i < el_height e")
    case True
    then show ?thesis using Cons.prems by (intro exI [of _ "[]"]) auto
  next
    case False
    then obtain ys1 e' ys2 where "ys = ys1 @ e' # ys2" "f = el_addr e'" "spn i ys = Suc (length ys1)" "i < el_height e'" using Cons by auto
    then show ?thesis using False by (intro exI [of _ "e # ys1"]) auto
  qed
qed simp

lemma get_tower: "i < h \<Longrightarrow> mem_get (tower h ys) i = Some (fwd i ys, spn i ys)"
  by (simp add: tower_def mem_get_def)

lemma get_level_at:
  assumes "head_ok nodes header lv (A @ ys)" "seg nodes None (A @ ys) []" "reaches i A" "i < lv" "lv \<le> ZSKIPLIST_MAXLEVEL"
  shows "get_level nodes (nd header A) i = Some (fwd i ys, spn i ys)"
proof (cases A rule: rev_cases)
  case Nil
  then show ?thesis using assms by (auto simp: head_ok_def get_level_def nd_def mem_get_def prod_eq_iff)
next
  case (snoc B e)
  then show ?thesis using assms get_tower [of i "el_height e" ys]
    by (auto simp: seg_append reaches_def nd_def get_level_def node_of_def)
qed

section \<open>The last element of a height\<close>

definition tall :: "nat \<Rightarrow> 's elem list \<Rightarrow> 's elem list" where
  "tall i L = rev (dropWhile (\<lambda>e. el_height e \<le> i) (rev L))"

lemma tall_split: "\<exists>M. L = tall i L @ M \<and> (\<forall>e \<in> set M. el_height e \<le> i) \<and> reaches i (tall i L)"
proof (intro exI conjI)
  let ?M = "rev (takeWhile (\<lambda>e. el_height e \<le> i) (rev L))"
  show "L = tall i L @ ?M" unfolding tall_def by (metis rev_append rev_rev_ident takeWhile_dropWhile_id)
  show "\<forall>e \<in> set ?M. el_height e \<le> i" by (auto dest: set_takeWhileD)
  show "reaches i (tall i L)"
    using hd_dropWhile [of "\<lambda>e. el_height e \<le> i" "rev L"] by (force simp: reaches_def tall_def last_rev)
qed

lemma tall_unique: "\<forall>e \<in> set M. el_height e \<le> i \<Longrightarrow> reaches i A \<Longrightarrow> tall i (A @ M) = A"
proof (induction M rule: rev_induct)
  case Nil
  then show ?case by (cases A rule: rev_cases) (auto simp: tall_def reaches_def)
next
  case (snoc e M)
  then show ?case by (simp add: tall_def)
qed

lemma tall_length: "length (tall i L) \<le> length L"
  using tall_split [of L i] by (metis le_add1 length_append)

lemma tall_0: "\<forall>e \<in> set L. 1 \<le> el_height e \<Longrightarrow> tall 0 L = L"
  using tall_unique [of "[]" 0 L] by (cases L rule: rev_cases) (auto simp: reaches_def)

lemma nd_nth: "L = A @ M \<Longrightarrow> nd header A = (header # map el_addr L) ! length A"
  by (cases A rule: rev_cases) (auto simp: nd_def nth_append)

lemma nd_inj:
  assumes "distinct (header # map el_addr L)" "L = A @ M" "L = B @ N" "nd header A = nd header B"
  shows "A = B"
proof -
  have "length L = length A + length M" "length L = length B + length N" using arg_cong [OF assms(2), of length] arg_cong [OF assms(3), of length] by auto
  then have "length A < length (header # map el_addr L)" "length B < length (header # map el_addr L)" by auto
  then have "length A = length B" using nth_eq_iff_index_eq [OF assms(1)] nd_nth [OF assms(2)] nd_nth [OF assms(3)] assms(4) by metis
  then show ?thesis using assms(2,3) by simp
qed

section \<open>Searches\<close>

definition is_node :: "'s elem \<Rightarrow> 's zskiplistNode \<Rightarrow> bool" where
  "is_node e n \<longleftrightarrow> zn_obj n = Some (el_obj e) \<and> zn_score n = el_score e"

text \<open>The condition of a search holds for the elements \<open>L\<close> and for none of the elements \<open>R\<close> behind them.\<close>

definition splits :: "('s zskiplistNode \<Rightarrow> nat \<Rightarrow> bool option) \<Rightarrow> 's elem list \<Rightarrow> 's elem list \<Rightarrow> bool" where
  "splits go L R \<longleftrightarrow> (\<forall>A e B n. L = A @ e # B \<and> is_node e n \<longrightarrow> go n (Suc (length A)) = Some True) \<and>
     (\<forall>A e B n. R = A @ e # B \<and> is_node e n \<longrightarrow> go n (Suc (length L + length A)) = Some False)"

lemma node_at: "seg nodes b (A @ e # B) Y \<Longrightarrow> \<exists>n. nodes (el_addr e) = Some n \<and> is_node e n"
  by (auto simp: seg_append node_of_def is_node_def)

lemma walk_correct:
  assumes store: "head_ok nodes header lv (L @ R)" "seg nodes None (L @ R) []"
    and go: "splits go L R" and w: "\<And>k. k \<le> length (L @ R) \<Longrightarrow> w k = k"
    and lv: "i < lv" "lv \<le> ZSKIPLIST_MAXLEVEL"
  shows "L = A @ M \<Longrightarrow> reaches i A \<Longrightarrow> zsl_walk w go nodes i (nd header A) (length A) = Some (nd header (tall i L), length (tall i L))"
proof (induction "length M" arbitrary: A M rule: less_induct)
  case less
  have get: "get_level nodes (nd header A) i = Some (fwd i (M @ R), spn i (M @ R))"
    using get_level_at [of nodes header lv A "M @ R" i] store lv less.prems by simp
  show ?case
  proof (cases "\<forall>e \<in> set M. el_height e \<le> i")
    case True
    then have tall: "tall i L = A" using tall_unique less.prems by simp
    have skip: "fwd i (M @ R) = fwd i R" "spn i (M @ R) = length M + spn i R" using fwd_skip [OF True] by auto
    show ?thesis
    proof (cases "fwd i R")
      case None
      then show ?thesis using get skip tall by (simp add: zsl_walk.simps)
    next
      case (Some f)
      then obtain R1 e R2 where R: "R = R1 @ e # R2" "f = el_addr e" "spn i R = Suc (length R1)" using fwd_in [OF Some] by blast
      obtain n where n: "nodes f = Some n" "is_node e n" using node_at [of nodes None "L @ R1" e R2 "[]"] store(2) R by auto
      have k: "length A + spn i (M @ R) = Suc (length L + length R1)" using skip R(3) less.prems(1) by simp
      have "w (Suc (length L + length R1)) = Suc (length L + length R1)" using w R(1) by simp
      moreover have "go n (Suc (length L + length R1)) = Some False" using go R(1) n(2) unfolding splits_def by blast
      ultimately show ?thesis using get skip(1) Some n(1) tall k by (subst zsl_walk.simps) simp
    qed
  next
    case False
    then obtain M1 e M2 where M: "M = M1 @ e # M2" "\<forall>e \<in> set M1. el_height e \<le> i" "i < el_height e" by (rule first_tall)
    have hit: "fwd i (M @ R) = Some (el_addr e)" "spn i (M @ R) = Suc (length M1)" using fwd_hit [OF M(2,3), of "M2 @ R"] M(1) by auto
    obtain n where n: "nodes (el_addr e) = Some n" "is_node e n" using node_at [of nodes None "A @ M1" e "M2 @ R" "[]"] store(2) M less.prems by auto
    let ?A = "A @ M1 @ [e]"
    have L: "L = (A @ M1) @ e # M2" "L = ?A @ M2" "reaches i ?A" "nd header ?A = el_addr e" "length ?A = length A + Suc (length M1)"
      using less.prems M by (auto simp: reaches_def nd_def)
    have "go n (Suc (length (A @ M1))) = Some True" using go L(1) n(2) unfolding splits_def by blast
    moreover have "w (length A + Suc (length M1)) = length A + Suc (length M1)" using w L(1) by simp
    ultimately have "zsl_walk w go nodes i (nd header A) (length A) = zsl_walk w go nodes i (nd header ?A) (length ?A)"
      using get hit n(1) L(4,5) by (subst zsl_walk.simps) simp
    also have "\<dots> = Some (nd header (tall i L), length (tall i L))" by (rule less.hyps) (use M L in auto)
    finally show ?thesis .
  qed
qed

lemma search_correct:
  assumes store: "head_ok nodes header lv (L @ R)" "seg nodes None (L @ R) []"
    and go: "splits go L R" and w: "\<And>k. k \<le> length (L @ R) \<Longrightarrow> w k = k" and lv: "lv \<le> ZSKIPLIST_MAXLEVEL"
  shows "l \<le> lv \<Longrightarrow> L = A @ M \<Longrightarrow> reaches (l - 1) A \<Longrightarrow>
    zsl_search w go nodes l (nd header A) (length A) = Some (map (\<lambda>i. (nd header (tall i L), length (tall i L))) [0..<l])"
proof (induction l arbitrary: A M)
  case (Suc i)
  have walk: "zsl_walk w go nodes i (nd header A) (length A) = Some (nd header (tall i L), length (tall i L))"
    using walk_correct [OF store go w, of i A M] lv Suc.prems by auto
  obtain N where N: "L = tall i L @ N" "reaches i (tall i L)" using tall_split by blast
  then have "reaches (i - 1) (tall i L)" by (auto simp: reaches_def)
  then have "zsl_search w go nodes i (nd header (tall i L)) (length (tall i L)) = Some (map (\<lambda>i. (nd header (tall i L), length (tall i L))) [0..<i])"
    using Suc.IH [OF _ N(1)] Suc.prems(1) by simp
  then show ?case using walk by simp
qed simp

end
