(* ===== verification/Skiplist_Patch.thy ===== *)
theory Skiplist_Patch
  imports Skiplist_Inv
begin

text \<open>
  The loops of insertion and deletion change one entry of the level arrays on each level. \<open>patch\<close> is the store after such changes,
  level by level, and \<open>seg_patch\<close> and \<open>head_patch\<close> show what they achieve: the elements \<open>L\<close> before the place are linked to what is now behind it.
\<close>

section \<open>Changing a level array entry by entry\<close>

definition patch :: "(nat \<Rightarrow> nat) \<Rightarrow> (nat \<Rightarrow> nat option \<times> nat) \<Rightarrow> nat set \<Rightarrow> 's nodes \<Rightarrow> 's nodes" where
  "patch u new J nodes = (\<lambda>b. map_option (\<lambda>n. n\<lparr>zn_level :=
     map (\<lambda>i. if i \<in> J \<and> u i = b then new i else zn_level n ! i) [0..<length (zn_level n)]\<rparr>) (nodes b))"

lemma patch_empty [simp]: "patch u new {} nodes = nodes"
  by (simp add: patch_def map_nth option.map_ident)

lemma patch_other: "\<forall>i \<in> J. u i \<noteq> b \<Longrightarrow> patch u new J nodes b = nodes b"
proof -
  assume "\<forall>i \<in> J. u i \<noteq> b"
  then have "(if i \<in> J \<and> u i = b then new i else x) = x" for i x by auto
  then show ?thesis by (simp add: patch_def map_nth option.map_ident)
qed

lemma dom_patch [simp]: "dom (patch u new J nodes) = dom nodes"
  by (auto simp: patch_def dom_def)

lemma patch_upd: "\<forall>i \<in> J. u i \<noteq> x \<Longrightarrow> (patch u new J nodes)(x \<mapsto> n) = patch u new J (nodes(x \<mapsto> n))"
  using patch_other [of J u x new "nodes(x \<mapsto> n)"] by (auto simp: patch_def fun_eq_iff)

lemma get_patch: "i \<notin> J \<Longrightarrow> get_level (patch u new J nodes) x i = get_level nodes x i"
  by (cases "nodes x") (auto simp: get_level_def patch_def mem_get_def)

lemma set_patch:
  assumes "get_level nodes (u j) j = Some v" "j \<notin> J"
  shows "set_level (patch u new J nodes) (u j) j (new j) = Some (patch u new (insert j J) nodes)"
proof -
  obtain n where n: "nodes (u j) = Some n" "j < length (zn_level n)"
    using assms(1) by (cases "nodes (u j)") (auto simp: get_level_def mem_get_def split: if_splits)
  let ?old = "\<lambda>J. map (\<lambda>i. if i \<in> J \<and> u i = u j then new i else zn_level n ! i) [0..<length (zn_level n)]"
  have "(?old J)[j := new j] = ?old (insert j J)" using assms(2) n(2) by (auto intro!: nth_equalityI simp: nth_list_update)
  moreover have "patch u new J nodes x = patch u new (insert j J) nodes x" if "x \<noteq> u j" for x
  proof -
    have "(i \<in> insert j J \<and> u i = x) = (i \<in> J \<and> u i = x)" for i using that by auto
    then show ?thesis unfolding patch_def by simp
  qed
  ultimately show ?thesis using n by (auto simp: set_level_def mem_set_def fun_eq_iff) (auto simp: patch_def)
qed

section \<open>The loops\<close>

definition level_at :: "'s nodes \<Rightarrow> (nat \<Rightarrow> nat) \<Rightarrow> (nat \<Rightarrow> nat option) \<Rightarrow> (nat \<Rightarrow> nat) \<Rightarrow> nat \<Rightarrow> bool" where
  "level_at nodes u f sp i \<longleftrightarrow> get_level nodes (u i) i = Some (f i, sp i)"

lemma raise_levels_patch:
  assumes "\<forall>i \<in> set js. level_at nodes u f sp i \<and> u i = header \<and> new i = (f i, u32 len)" "distinct js" "set js \<inter> J = {}"
  shows "raise_levels header len (patch u new J nodes) js = Some (patch u new (J \<union> set js) nodes)"
  using assms
proof (induction js arbitrary: J)
  case (Cons i js)
  then have "get_level (patch u new J nodes) header i = Some (f i, sp i)" "set_level (patch u new J nodes) header i (f i, u32 len) = Some (patch u new (insert i J) nodes)"
    using get_patch [of i J u new nodes header] set_patch [of nodes u i "(f i, sp i)" J new] by (auto simp: level_at_def)
  then show ?case using Cons.IH [of "insert i J"] Cons.prems by simp
qed simp

lemma bump_levels_patch:
  assumes "\<forall>i \<in> set js. level_at nodes u f sp i \<and> mem_get us i = Some (u i, r i) \<and> new i = (f i, u32 (sp i + 1))" "distinct js" "set js \<inter> J = {}"
  shows "bump_levels us (patch u new J nodes) js = Some (patch u new (J \<union> set js) nodes)"
  using assms
proof (induction js arbitrary: J)
  case (Cons i js)
  then have "get_level (patch u new J nodes) (u i) i = Some (f i, sp i)" "set_level (patch u new J nodes) (u i) i (f i, u32 (sp i + 1)) = Some (patch u new (insert i J) nodes)"
    using get_patch [of i J u new nodes "u i"] set_patch [of nodes u i "(f i, sp i)" J new] by (auto simp: level_at_def)
  then show ?case using Cons.IH [of "insert i J"] Cons.prems by simp
qed simp

lemma unlink_levels_patch:
  assumes "\<forall>i \<in> set js. level_at nodes u f sp i \<and> mem_get us i = Some (u i, r i) \<and>
      (if f i = Some x then \<exists>xf xsp. get_level nodes x i = Some (xf, xsp) \<and> new i = (xf, u32 (sp i + u32_sub xsp 1)) else new i = (f i, u32_sub (sp i) 1))"
    "distinct js" "set js \<inter> J = {}"
  shows "unlink_levels us x (patch u new J nodes) js = Some (patch u new (J \<union> set js) nodes)"
  using assms
proof (induction js arbitrary: J)
  case (Cons i js)
  have step: "get_level (patch u new J nodes) y i = get_level nodes y i" "set_level (patch u new J nodes) (u i) i (new i) = Some (patch u new (insert i J) nodes)" for y
    using get_patch [of i J u new nodes] set_patch [of nodes u i "(f i, sp i)" J new] Cons.prems by (auto simp: level_at_def)
  have "unlink_levels us x (patch u new J nodes) (i # js) = unlink_levels us x (patch u new (insert i J) nodes) js"
    using Cons.prems(1) step by (auto simp: level_at_def split: if_splits)
  also have "\<dots> = Some (patch u new (insert i J \<union> set js) nodes)" by (rule Cons.IH) (use Cons.prems in auto)
  finally show ?case by simp
qed simp

text \<open>The node linked in has the levels \<open>xl\<close> for those processed and fresh memory for the others.\<close>

definition linked_node :: "'s zskiplistNode \<Rightarrow> nat \<Rightarrow> (nat \<Rightarrow> nat option \<times> nat) \<Rightarrow> (nat \<Rightarrow> nat option \<times> nat) \<Rightarrow> nat set \<Rightarrow> 's zskiplistNode" where
  "linked_node n h fresh xl J = n\<lparr>zn_level := map (\<lambda>i. if i \<in> J then xl i else fresh i) [0..<h]\<rparr>"

lemma set_linked:
  assumes "i < h"
  shows "set_level (N(x \<mapsto> linked_node n h fresh xl J)) x i (xl i) = Some (N(x \<mapsto> linked_node n h fresh xl (insert i J)))"
proof -
  have "(map (\<lambda>i. if i \<in> J then xl i else fresh i) [0..<h])[i := xl i] = map (\<lambda>j. if j \<in> insert i J then xl j else fresh j) [0..<h]"
    using assms by (auto intro!: nth_equalityI simp: nth_list_update)
  then show ?thesis using assms by (simp add: set_level_def linked_node_def mem_set_def)
qed

lemma link_levels_patch:
  assumes "\<forall>i \<in> set js. i < h \<and> level_at nodes u f sp i \<and> u i \<noteq> x \<and> mem_get us i = Some (u i, r i) \<and>
      xl i = (f i, u32_sub (sp i) (u32_sub r0 (r i))) \<and> new i = (Some x, u32 (u32_sub r0 (r i) + 1))" "distinct js" "set js \<inter> J = {}"
  shows "link_levels us r0 x ((patch u new J nodes)(x \<mapsto> linked_node n h fresh xl J)) js =
    Some ((patch u new (J \<union> set js) nodes)(x \<mapsto> linked_node n h fresh xl (J \<union> set js)))"
  using assms
proof (induction js arbitrary: J)
  case (Cons i js)
  let ?N = "patch u new J nodes" and ?x = "linked_node n h fresh xl"
  have i: "i < h" "u i \<noteq> x" "mem_get us i = Some (u i, r i)" using Cons.prems by auto
  have "get_level (?N(x \<mapsto> ?x J)) (u i) i = Some (f i, sp i)"
    using get_patch [of i J u new nodes "u i"] Cons.prems i(2) by (auto simp: level_at_def get_level_def)
  moreover have "set_level (?N(x \<mapsto> ?x J)) x i (f i, u32_sub (sp i) (u32_sub r0 (r i))) = Some (?N(x \<mapsto> ?x (insert i J)))"
    using set_linked [OF i(1), of ?N x n fresh xl J] Cons.prems(1) by simp
  moreover have "set_level (?N(x \<mapsto> ?x (insert i J))) (u i) i (Some x, u32 (u32_sub r0 (r i) + 1)) = Some ((patch u new (insert i J) nodes)(x \<mapsto> ?x (insert i J)))"
  proof -
    have "set_level ?N (u i) i (new i) = Some (patch u new (insert i J) nodes)"
      using set_patch [of nodes u i "(f i, sp i)" J new] Cons.prems by (auto simp: level_at_def)
    then show ?thesis using i(2) Cons.prems(1) by (auto simp: set_level_def fun_upd_twist split: Option.bind_splits)
  qed
  ultimately have "link_levels us r0 x (?N(x \<mapsto> ?x J)) (i # js) = link_levels us r0 x ((patch u new (insert i J) nodes)(x \<mapsto> ?x (insert i J))) js"
    unfolding link_levels.simps i(3) Option.bind.simps prod.case by (simp only: Option.bind.simps prod.case)
  also have "\<dots> = Some ((patch u new (insert i J \<union> set js) nodes)(x \<mapsto> ?x (insert i J \<union> set js)))" by (rule Cons.IH) (use Cons.prems in auto)
  finally show ?case by (simp only: list.set Un_insert_left Un_insert_right)
qed simp

section \<open>What the changes achieve\<close>

lemma seg_cong: "\<forall>e \<in> set L. nodes' (el_addr e) = nodes (el_addr e) \<Longrightarrow> seg nodes' b L Y = seg nodes b L Y"
  by (induction L arbitrary: b) auto

lemma seg_patch:
  assumes "distinct (header # map el_addr T)" "\<forall>i \<in> J. u i = nd header (tall i T) \<and> new i = (fwd i Y', length T - length (tall i T) + spn i Y')"
  shows "seg nodes b L Y \<Longrightarrow> T = A @ L \<Longrightarrow> \<forall>e \<in> set L. {..<el_height e} \<subseteq> J \<Longrightarrow> seg (patch u new J nodes) b L Y'"
proof (induction L arbitrary: A b)
  case (Cons e L)
  have entry: "(if i \<in> J \<and> u i = el_addr e then new i else (fwd i (L @ Y), spn i (L @ Y))) = (fwd i (L @ Y'), spn i (L @ Y'))" if i: "i < el_height e" for i
  proof -
    have J: "i \<in> J" "u i = nd header (tall i T)" "new i = (fwd i Y', length T - length (tall i T) + spn i Y')" using Cons.prems(3) i assms(2) by auto
    have e: "reaches i (A @ [e])" "nd header (A @ [e]) = el_addr e" "T = (A @ [e]) @ L" using i Cons.prems(2) by (auto simp: reaches_def nd_def)
    show ?thesis
    proof (cases "\<forall>e \<in> set L. el_height e \<le> i")
      case True
      then have "tall i T = A @ [e]" using tall_unique [OF _ e(1)] e(3) by metis
      then show ?thesis using J e fwd_skip [OF True, of Y'] by simp
    next
      case False
      then obtain M1 e1 M2 where M: "L = M1 @ e1 # M2" "\<forall>e \<in> set M1. el_height e \<le> i" "i < el_height e1" by (rule first_tall)
      obtain M where "T = tall i T @ M" "\<forall>e \<in> set M. el_height e \<le> i" using tall_split by blast
      then have "tall i T \<noteq> A @ [e]" using False e(3) by (metis same_append_eq)
      then have "u i \<noteq> el_addr e" using nd_inj [OF assms(1) _ e(3)] tall_split [of T i] J(2) e(2) by metis
      then show ?thesis using fwd_hit [OF M(2,3), of "M2 @ Y"] fwd_hit [OF M(2,3), of "M2 @ Y'"] M(1) by simp
    qed
  qed
  have "map (\<lambda>i. if i \<in> J \<and> u i = el_addr e then new i else tower (el_height e) (L @ Y) ! i) [0..<el_height e] = tower (el_height e) (L @ Y')"
    unfolding tower_def by (rule map_cong [OF refl]) (subst entry [symmetric], simp_all)
  moreover have "length (tower (el_height e) (L @ Y)) = el_height e" by (simp add: tower_def)
  ultimately have "patch u new J nodes (el_addr e) = Some (node_of b e (L @ Y'))"
    using Cons.prems(1) by (simp add: patch_def node_of_def cong: if_cong)
  then show ?case using Cons.IH [of "Some (el_addr e)" "A @ [e]"] Cons.prems by simp
qed simp

lemma short_fwd: "heights_ok lv xs \<Longrightarrow> lv \<le> i \<Longrightarrow> fwd i xs = None \<and> spn i xs = length xs"
  using fwd_skip [of xs i "[]"] by (auto simp: heights_ok_def dest: order_trans)

lemma head_patch:
  assumes "distinct (header # map el_addr L)" "\<forall>i < lv. u i = nd header (tall i L) \<and> new i = (fwd i Y', length L - length (tall i L) + spn i Y')"
    and "head_ok nodes header lv (L @ Y)" "heights_ok lv (L @ Y)" "heights_ok lv (L @ Y')"
  shows "head_ok (patch u new {..<lv} nodes) header lv (L @ Y')"
proof -
  obtain n where n: "nodes header = Some n" "zn_obj n = None" "length (zn_level n) = ZSKIPLIST_MAXLEVEL"
    "\<forall>i < ZSKIPLIST_MAXLEVEL. fst (zn_level n ! i) = fwd i (L @ Y)" "\<forall>i < lv. snd (zn_level n ! i) = spn i (L @ Y)"
    using assms(3) by (auto simp: head_ok_def)
  have low: "(if u i = header then new i else zn_level n ! i) = (fwd i (L @ Y'), spn i (L @ Y'))" if i: "i < lv" for i
  proof -
    have u: "u i = nd header (tall i L)" "new i = (fwd i Y', length L - length (tall i L) + spn i Y')" using assms(2) i by auto
    show ?thesis
    proof (cases "\<forall>e \<in> set L. el_height e \<le> i")
      case True
      then have "tall i L = []" using tall_unique [of L i "[]"] by (simp add: reaches_def)
      then show ?thesis using u fwd_skip [OF True, of Y'] by (simp add: nd_def)
    next
      case False
      then obtain M1 e1 M2 where M: "L = M1 @ e1 # M2" "\<forall>e \<in> set M1. el_height e \<le> i" "i < el_height e1" by (rule first_tall)
      have "tall i L \<noteq> []" using tall_split [of L i] False by auto
      then have "u i \<noteq> header" using nd_inj [OF assms(1), of "tall i L" _ "[]"] tall_split [of L i] u(1) by (metis append_Nil nd_def)
      moreover have "zn_level n ! i = (fwd i (L @ Y), spn i (L @ Y))" using n(4,5) i assms(4) by (simp add: prod_eq_iff heights_ok_def)
      ultimately show ?thesis using fwd_hit [OF M(2,3), of "M2 @ Y"] fwd_hit [OF M(2,3), of "M2 @ Y'"] M(1) by simp
    qed
  qed
  have high: "fst (zn_level n ! i) = fwd i (L @ Y')" if "lv \<le> i" "i < ZSKIPLIST_MAXLEVEL" for i
    using n(4) that short_fwd [OF assms(4)] short_fwd [OF assms(5)] by simp
  have lv: "lv \<le> ZSKIPLIST_MAXLEVEL" using assms(4) by (simp add: heights_ok_def)
  define n' where "n' = n\<lparr>zn_level := map (\<lambda>i. if i \<in> {..<lv} \<and> u i = header then new i else zn_level n ! i) [0..<length (zn_level n)]\<rparr>"
  have "zn_level n' ! i = (if i < lv then (fwd i (L @ Y'), spn i (L @ Y')) else zn_level n ! i)" if "i < ZSKIPLIST_MAXLEVEL" for i
    using low [of i] that n(3) by (auto simp: n'_def)
  moreover have "zn_obj n' = None" "length (zn_level n') = ZSKIPLIST_MAXLEVEL" "patch u new {..<lv} nodes header = Some n'"
    using n(1-3) by (simp_all add: n'_def patch_def)
  ultimately show ?thesis unfolding head_ok_def using high lv by auto
qed

lemma set_back:
  assumes "seg nodes b (e # R) Y" "distinct (map el_addr (e # R))"
  shows "\<exists>n. set_backward nodes (el_addr e) b' = Some (nodes(el_addr e \<mapsto> n)) \<and> seg (nodes(el_addr e \<mapsto> n)) b' (e # R) Y"
proof -
  have "seg (nodes(el_addr e \<mapsto> node_of b' e (R @ Y))) (Some (el_addr e)) R Y"
    using assms by (subst seg_cong [where nodes = nodes]) (auto simp: image_iff)
  moreover have "set_backward nodes (el_addr e) b' = Some (nodes(el_addr e \<mapsto> node_of b' e (R @ Y)))"
    using assms(1) by (simp add: set_backward_def node_of_def)
  ultimately show ?thesis by auto
qed

end
