(* ===== verification/Skiplist_Ops.thy ===== *)
theory Skiplist_Ops
  imports Skiplist_Patch
begin

text \<open>
  Insertion and deletion. \<open>store_ok\<close> says that a store holds the elements \<open>xs\<close> behind a header, \<open>zsl_shape\<close> that a skip list does; the order of the
  elements plays no part here: \<open>zslInsert\<close> puts the new element where its search ends, \<open>zslDeleteNode\<close> takes an element out.
\<close>

section \<open>The invariant\<close>

definition store_ok :: "'s nodes \<Rightarrow> nat \<Rightarrow> nat \<Rightarrow> 's elem list \<Rightarrow> bool" where
  "store_ok nodes header lv xs \<longleftrightarrow> head_ok nodes header lv xs \<and> seg nodes None xs [] \<and> distinct (header # map el_addr xs) \<and>
     dom nodes = insert header (el_addr ` set xs) \<and> heights_ok lv xs"

definition zsl_shape :: "'s zskiplist \<Rightarrow> 's elem list \<Rightarrow> bool" where
  "zsl_shape zsl xs \<longleftrightarrow> store_ok (zsl_nodes zsl) (zsl_header zsl) (zsl_level zsl) xs \<and> length xs < 2 ^ 32 \<and>
     (zsl_level zsl = 1 \<or> (\<exists>e \<in> set xs. el_height e = zsl_level zsl)) \<and> zsl_tail zsl = last_back None xs \<and> zsl_length zsl = length xs"

definition arrays :: "nat \<Rightarrow> 's elem list \<Rightarrow> nat \<Rightarrow> (nat \<times> nat) list" where
  "arrays header L l = map (\<lambda>i. (nd header (tall i L), length (tall i L))) [0..<l]"

lemma get_arrays: "i < l \<Longrightarrow> mem_get (arrays header L l) i = Some (nd header (tall i L), length (tall i L))"
  by (simp add: arrays_def mem_get_def)

lemma zslCreate_shape: "zsl_shape (zslCreate a) []"
  by (simp add: zsl_shape_def zslCreate_def store_ok_def head_ok_def heights_ok_def last_back_def ZSKIPLIST_MAXLEVEL_def)

lemma search_shape:
  assumes "store_ok nodes header lv (L @ R)" "splits go L R" "\<And>k. k \<le> length (L @ R) \<Longrightarrow> w k = k"
  shows "zsl_search w go nodes lv header 0 = Some (arrays header L lv)"
  using search_correct [of nodes header lv L R go w lv "[]" L] assms
  by (simp add: store_ok_def heights_ok_def arrays_def nd_def reaches_def)

lemma level_at_tall:
  assumes "store_ok nodes header lv (L @ Y)" "i < lv"
  shows "level_at nodes (\<lambda>i. nd header (tall i L)) (\<lambda>i. fwd i Y) (\<lambda>i. length L - length (tall i L) + spn i Y) i"
proof -
  obtain M where M: "L = tall i L @ M" "\<forall>e \<in> set M. el_height e \<le> i" "reaches i (tall i L)" using tall_split by blast
  have "get_level nodes (nd header (tall i L)) i = Some (fwd i (M @ Y), spn i (M @ Y))"
    by (rule get_level_at [of nodes header lv]) (use assms M in \<open>auto simp: store_ok_def heights_ok_def simp flip: append_assoc\<close>)
  moreover have "length M = length L - length (tall i L)" using arg_cong [OF M(1), of length] by simp
  ultimately show ?thesis using fwd_skip [OF M(2), of Y] by (simp add: level_at_def)
qed

text \<open>The places a search ends at are the header and elements before the place.\<close>

lemma set_tall: "set (tall i L) \<subseteq> set L"
  unfolding tall_def using set_dropWhileD [of _ "\<lambda>e. el_height e \<le> i" "rev L"] by auto

lemma nd_tall: "nd header (tall i L) \<in> insert header (el_addr ` set L)"
  using subsetD [OF set_tall last_in_set, of i L] by (auto simp: nd_def)

lemma head_cong: "nodes' header = nodes header \<Longrightarrow> head_ok nodes' header lv xs = head_ok nodes header lv xs"
  by (simp add: head_ok_def)

section \<open>Raising the level\<close>

lemma tall_high: "heights_ok lv L \<Longrightarrow> lv \<le> i \<Longrightarrow> tall i L = []"
  using tall_unique [of L i "[]"] by (auto simp: heights_ok_def reaches_def dest: order_trans)

lemma raise_store:
  assumes "store_ok nodes header lv (L @ R)" "lv \<le> h" "h \<le> ZSKIPLIST_MAXLEVEL" "length (L @ R) < 2 ^ 32"
  shows "\<exists>nodes'. raise_levels header (length (L @ R)) nodes [lv..<h] = Some nodes' \<and> store_ok nodes' header h (L @ R) \<and>
    arrays header L lv @ map (\<lambda>_. (header, 0)) [lv..<h] = arrays header L h"
proof -
  let ?xs = "L @ R"
  obtain n where n: "nodes header = Some n" "zn_obj n = None" "length (zn_level n) = ZSKIPLIST_MAXLEVEL"
    "\<forall>i < ZSKIPLIST_MAXLEVEL. fst (zn_level n ! i) = fwd i ?xs" "\<forall>i < lv. snd (zn_level n ! i) = spn i ?xs"
    using assms(1) by (auto simp: store_ok_def head_ok_def)
  have hs: "heights_ok lv ?xs" "heights_ok h ?xs" "heights_ok lv L" using assms by (auto simp: store_ok_def heights_ok_def dest: order_trans)
  let ?u = "\<lambda>_ :: nat. header" and ?new = "\<lambda>_. (None, u32 (length ?xs))"
  let ?N = "patch ?u ?new {lv..<h} nodes"
  have "level_at nodes ?u (\<lambda>_. None) (\<lambda>i. snd (zn_level n ! i)) i" if "lv \<le> i" "i < h" for i
    using that n short_fwd [OF hs(1)] assms(3) by (auto simp: level_at_def get_level_def mem_get_def prod_eq_iff)
  then have "raise_levels header (length ?xs) (patch ?u ?new {} nodes) [lv..<h] = Some (patch ?u ?new ({} \<union> set [lv..<h]) nodes)"
    by (intro raise_levels_patch) auto
  moreover have "store_ok ?N header h ?xs"
  proof -
    have "seg ?N None ?xs []"
      using assms(1) by (subst seg_cong [where nodes = nodes]) (auto simp: store_ok_def intro!: patch_other)
    moreover have "head_ok ?N header h ?xs"
      using n short_fwd [OF hs(1)] assms(3,4) by (auto simp: head_ok_def patch_def)
    ultimately show ?thesis using assms(1) hs(2) by (simp add: store_ok_def)
  qed
  moreover have "arrays header L lv @ map (\<lambda>_. (header, 0)) [lv..<h] = arrays header L h"
  proof -
    have "[0..<h] = [0..<lv] @ [lv..<h]" using assms(2) by (metis le0 le_add_diff_inverse upt_add_eq_append)
    then show ?thesis using tall_high [OF hs(3)] by (simp add: arrays_def nd_def)
  qed
  ultimately show ?thesis by simp
qed

section \<open>Linking a node in\<close>

lemma u32_sub_id: "b \<le> a \<Longrightarrow> a < 2 ^ 32 \<Longrightarrow> u32_sub a b = a - b"
proof -
  assume "b \<le> a" "a < 2 ^ 32"
  then have "a + (2 ^ 32 - b) = (a - b) + 2 ^ 32" by simp
  then show ?thesis unfolding u32_sub_def u32_def using \<open>a < 2 ^ 32\<close> by (simp only: mod_add_self2) simp
qed

lemma insert_levels:
  fixes s :: 's and ob :: robj
  assumes ok: "store_ok nodes header lv (L @ R)" and a: "nodes a = None" and h: "1 \<le> h" "h \<le> lv" and len: "Suc (length (L @ R)) < 2 ^ 32"
  defines "e \<equiv> Elem a h s ob" and "u \<equiv> \<lambda>i. nd header (tall i L)"
  defines "new \<equiv> \<lambda>i. (fwd i (e # R), length L - length (tall i L) + spn i (e # R))"
  shows "\<exists>n. do { nodes \<leftarrow> zslCreateNode fresh back a nodes h s (Some ob);
       nodes \<leftarrow> link_levels (arrays header L lv) (length L) a nodes [0..<h];
       bump_levels (arrays header L lv) nodes [h..<lv] } = Some ((patch u new {..<lv} nodes)(a \<mapsto> n)) \<and> n = node_of back e R"
proof -
  let ?us = "arrays header L lv" and ?f = "\<lambda>i. fwd i R" and ?sp = "\<lambda>i. length L - length (tall i L) + spn i R"
  let ?xl = "\<lambda>i. (fwd i R, spn i R)" and ?n = "\<lparr>zn_obj = Some ob, zn_score = s, zn_backward = back, zn_level = []\<rparr>"
  have fresh_a: "a \<notin> insert header (el_addr ` set L)" using ok a unfolding store_ok_def by (metis UnCI domIff image_Un insertCI insertE set_append)
  have at: "level_at nodes u ?f ?sp i" "u i \<noteq> a" "mem_get ?us i = Some (u i, length (tall i L))" if "i < lv" for i
    using level_at_tall [OF ok that] get_arrays [OF that, of header L] nd_tall [of header i L] fresh_a by (auto simp: u_def)
  have small: "length (tall i L) \<le> length L" "?sp i < 2 ^ 32" "u32_sub (length L) (length (tall i L)) = length L - length (tall i L)"
    "u32_sub (?sp i) (length L - length (tall i L)) = spn i R" "u32 (Suc (?sp i)) = Suc (?sp i)"
    "Suc (length L + spn i R) - length (tall i L) = Suc (length L + spn i R - length (tall i L))" for i
    using tall_length [of i L] spn_le [of i R] len by (auto simp: u32_sub_id)
  have "link_levels ?us (length L) a ((patch u new {} nodes)(a \<mapsto> linked_node ?n h fresh ?xl {})) [0..<h] =
      Some ((patch u new ({} \<union> set [0..<h]) nodes)(a \<mapsto> linked_node ?n h fresh ?xl ({} \<union> set [0..<h])))"
  proof (rule link_levels_patch [where f = ?f and sp = ?sp and r = "\<lambda>i. length (tall i L)"], goal_cases)
    case 1
    show ?case using at small h(2) len by (auto simp: new_def e_def Suc_diff_le)
  qed auto
  moreover have "linked_node ?n h fresh ?xl ({} \<union> set [0..<h]) = node_of back e R"
    by (auto simp: linked_node_def node_of_def tower_def e_def)
  moreover have "linked_node ?n h fresh ?xl {} = \<lparr>zn_obj = Some ob, zn_score = s, zn_backward = back, zn_level = map fresh [0..<h]\<rparr>"
    by (simp add: linked_node_def)
  moreover have "(patch u new {..<h} nodes)(a \<mapsto> N) = patch u new {..<h} (nodes(a \<mapsto> N))" "(patch u new {..<lv} nodes)(a \<mapsto> N) = patch u new {..<lv} (nodes(a \<mapsto> N))" for N
    using patch_upd [of "{..<h}" u a new nodes N] patch_upd [of "{..<lv}" u a new nodes N] at(2) less_le_trans [OF _ h(2)] by auto
  moreover have "bump_levels ?us (patch u new {..<h} (nodes(a \<mapsto> N))) [h..<lv] = Some (patch u new ({..<h} \<union> set [h..<lv]) (nodes(a \<mapsto> N)))" for N
  proof (rule bump_levels_patch [where f = ?f and sp = ?sp and r = "\<lambda>i. length (tall i L)"], goal_cases)
    case 1
    show ?case using at small len by (auto simp: new_def e_def level_at_def get_level_def Suc_diff_le)
  qed auto
  moreover have "{..<h} \<union> set [h..<lv] = {..<lv}" "{} \<union> set [0..<h] = {..<h}" using h(2) by auto
  ultimately show ?thesis using a by (simp add: zslCreateNode_def)
qed

lemma insert_node_store:
  assumes ok: "store_ok nodes header lv (L @ R)" and a: "nodes a = None" and h: "1 \<le> h" "h \<le> lv" and len: "Suc (length (L @ R)) < 2 ^ 32"
  shows "\<exists>nodes'. insert_node fresh back a header (arrays header L lv) h lv nodes (last_back None (L @ R)) s ob =
      Some (nodes', last_back None (L @ Elem a h s ob # R)) \<and> store_ok nodes' header lv (L @ Elem a h s ob # R)"
proof -
  let ?e = "Elem a h s ob" and ?u = "\<lambda>i. nd header (tall i L)"
  define new where "new = (\<lambda>i. (fwd i (?e # R), length L - length (tall i L) + spn i (?e # R)))"
  let ?P = "patch ?u new {..<lv} nodes"
  have st: "head_ok nodes header lv (L @ R)" "seg nodes None L R" "seg nodes (last_back None L) R []" "heights_ok lv (L @ R)"
    "distinct (header # map el_addr L)" "distinct (map el_addr R)" "dom nodes = insert header (el_addr ` set (L @ R))"
    "el_addr ` set R \<inter> insert header (el_addr ` set L) = {}"
    using ok by (auto simp: store_ok_def seg_append)
  have new_a: "a \<notin> insert header (el_addr ` set (L @ R))" using st(7) a by blast
  have hs: "heights_ok lv (L @ ?e # R)" "\<forall>e \<in> set L. 1 \<le> el_height e" using st(4) h by (auto simp: heights_ok_def)
  have head: "head_ok ?P header lv (L @ ?e # R)" by (rule head_patch [OF st(5) _ st(1,4) hs(1)]) (simp add: new_def)
  have segL: "seg ?P None L (?e # R)"
    by (rule seg_patch [OF st(5) _ st(2), of _ _ _ _ "[]"]) (use st(4) in \<open>auto simp: heights_ok_def new_def\<close>)
  have outside: "?P b = nodes b" if "b \<notin> insert header (el_addr ` set L)" for b
    using that nd_tall [of header _ L] by (intro patch_other) auto
  have segR: "seg ?P (last_back None L) R []"
    using st(3,8) outside by (subst seg_cong [where nodes = nodes]) blast+
  let ?N = "?P(a \<mapsto> node_of (last_back None L) ?e R)"
  have u0: "mem_get (arrays header L lv) 0 = Some (nd header L, length L)" using get_arrays [of 0 lv header L] tall_0 [OF hs(2)] h by simp
  have prev: "(if nd header L = header then None else Some (nd header L)) = last_back None L"
    using st(5) last_in_set [of L] by (auto simp: nd_def last_back_def)
  obtain n where n: "do { nodes \<leftarrow> zslCreateNode fresh back a nodes h s (Some ob); nodes \<leftarrow> link_levels (arrays header L lv) (length L) a nodes [0..<h];
       bump_levels (arrays header L lv) nodes [h..<lv] } = Some (?P(a \<mapsto> n))" "n = node_of back ?e R"
    using insert_levels [OF ok a h len, of fresh "back" s ob] unfolding new_def by blast
  have "set_backward (?P(a \<mapsto> n)) a (last_back None L) = Some ?N" using n(2) by (simp add: set_backward_def node_of_def)
  then have run: "insert_node fresh back a header (arrays header L lv) h lv nodes tl s ob = do {
     (forward, _) \<leftarrow> get_level ?N a 0;
     (case forward of Some f \<Rightarrow> do { nodes \<leftarrow> set_backward ?N f (Some a); Some (nodes, tl) } | None \<Rightarrow> Some (?N, Some a)) }" for tl
    using n(1) u0 prev by (auto simp: insert_node_def split: Option.bind_splits)
  have fw: "get_level ?N a 0 = Some (fwd 0 R, spn 0 R)" using h by (simp add: get_level_def node_of_def get_tower)
  have base: "seg N None L (?e # R)" "head_ok N header lv (L @ ?e # R)" if "\<And>b. b \<in> insert header (el_addr ` set L) \<Longrightarrow> N b = ?P b" for N
    using segL head that by (auto simp: seg_cong [of L N ?P] head_cong [of N header ?P])
  have domN: "dom ?N = insert header (el_addr ` set (L @ ?e # R))" using st(7) by auto
  have dist: "distinct (header # map el_addr (L @ ?e # R))" using ok new_a by (auto simp: store_ok_def)
  show ?thesis
  proof (cases R)
    case Nil
    have "?N b = ?P b" if "b \<in> insert header (el_addr ` set L)" for b using that new_a by auto
    from base [of ?N, OF this] have "store_ok ?N header lv (L @ ?e # R)" unfolding store_ok_def using hs(1) domN dist Nil by (simp add: seg_append)
    then show ?thesis using run fw Nil by (simp add: last_back_def)
  next
    case (Cons e1 R1)
    have f: "fwd 0 R = Some (el_addr e1)" using st(4) Cons by (auto simp: heights_ok_def)
    have "seg ?N (last_back None L) (e1 # R1) []" using segR new_a Cons by (subst seg_cong [where nodes = ?P]) auto
    then obtain m where m: "set_backward ?N (el_addr e1) (Some a) = Some (?N(el_addr e1 \<mapsto> m))" "seg (?N(el_addr e1 \<mapsto> m)) (Some a) R []"
      using set_back [of ?N "last_back None L" e1 R1 "[]" "Some a"] st(6) Cons by auto
    have e1: "el_addr e1 \<notin> insert header (el_addr ` set L)" "el_addr e1 \<noteq> a" using st(8) new_a Cons by auto
    let ?M = "?N(el_addr e1 \<mapsto> m)"
    have "?M b = ?P b" if "b \<in> insert header (el_addr ` set L)" for b
    proof -
      have "b \<noteq> a" "b \<noteq> el_addr e1" using that new_a e1(1) by auto
      then show ?thesis by simp
    qed
    note base [of ?M, OF this]
    moreover have "dom ?M = insert header (el_addr ` set (L @ ?e # R))" using domN Cons by auto
    moreover have "seg ?M (last_back None L) (?e # R) []" using m(2) e1(2) by simp
    ultimately have "store_ok ?M header lv (L @ ?e # R)" unfolding store_ok_def using hs(1) dist by (simp only: seg_append append_Nil2 simp_thms)
    then show ?thesis using run fw f m(1) Cons by (simp add: last_back_def)
  qed
qed

section \<open>Insertion\<close>

lemma level_loop_ge: "level_loop random k l = Some l' \<Longrightarrow> l \<le> l'"
proof (rule level_loop.raw_induct [where P = "\<lambda>random k l l'. l \<le> l'"], goal_cases)
  case (1 f r j m m')
  show ?case
  proof (cases "level_up (r j)")
    case True
    have "m + 1 \<le> m'" by (rule 1(2) [of r "Suc j"]) (use 1(3) True in simp)
    then show ?thesis by simp
  next
    case False
    then show ?thesis using 1(3) by simp
  qed
qed

lemma zslRandomLevel_bounds: "zslRandomLevel random = Some h \<Longrightarrow> 1 \<le> h \<and> h \<le> ZSKIPLIST_MAXLEVEL"
  using level_loop_ge [of random 0 1] by (auto simp: zslRandomLevel_def ZSKIPLIST_MAXLEVEL_def split: Option.bind_splits)

lemma zslRandomLevel_total:
  assumes "\<not> level_up (random k)"
  shows "\<exists>h. zslRandomLevel random = Some h"
proof -
  have "\<exists>l'. level_loop random j l = Some l'" if "j \<le> k" for j l
    using that
  proof (induction "k - j" arbitrary: j l)
    case 0
    then show ?case using assms by (auto simp: level_loop.simps)
  next
    case (Suc d)
    then show ?case using Suc.hyps(1) [of "Suc j" "l + 1"] by (subst level_loop.simps) auto
  qed
  then obtain l where "level_loop random 0 1 = Some l" by blast
  then show ?thesis by (simp add: zslRandomLevel_def)
qed

theorem zslInsert_shape:
  assumes shape: "zsl_shape zsl (L @ R)" and go: "splits (zsl_before False garb s ob) L R" and h: "zslRandomLevel random = Some h"
    and a: "zsl_nodes zsl a = None" and len: "Suc (length (L @ R)) < 2 ^ 32"
  shows "\<exists>zsl'. zslInsert garb fresh back random a zsl s ob = Some (zsl', a) \<and> zsl_shape zsl' (L @ Elem a h s ob # R) \<and> zsl_header zsl' = zsl_header zsl"
proof -
  let ?hd = "zsl_header zsl" and ?lv = "max (zsl_level zsl) h" and ?ys = "L @ Elem a h s ob # R"
  have st: "store_ok (zsl_nodes zsl) ?hd (zsl_level zsl) (L @ R)" "zsl_tail zsl = last_back None (L @ R)" "zsl_length zsl = length (L @ R)"
    using shape by (auto simp: zsl_shape_def)
  note hb = zslRandomLevel_bounds [OF h]
  have search: "zsl_search u32 (zsl_before False garb s ob) (zsl_nodes zsl) (zsl_level zsl) ?hd 0 = Some (arrays ?hd L (zsl_level zsl))"
    by (rule search_shape [OF st(1) go]) (use len in simp)
  obtain nodes where nodes: "store_ok nodes ?hd ?lv (L @ R)"
    "(if h > zsl_level zsl then do {
         nodes \<leftarrow> raise_levels ?hd (zsl_length zsl) (zsl_nodes zsl) [zsl_level zsl..<h];
         Some (nodes, arrays ?hd L (zsl_level zsl) @ map (\<lambda>_. (?hd, 0)) [zsl_level zsl..<h], h) }
       else Some (zsl_nodes zsl, arrays ?hd L (zsl_level zsl), zsl_level zsl)) = Some (nodes, arrays ?hd L ?lv, ?lv)"
  proof (cases "h > zsl_level zsl")
    case True
    obtain nodes where "raise_levels ?hd (length (L @ R)) (zsl_nodes zsl) [zsl_level zsl..<h] = Some nodes" "store_ok nodes ?hd h (L @ R)"
      "arrays ?hd L (zsl_level zsl) @ map (\<lambda>_. (?hd, 0)) [zsl_level zsl..<h] = arrays ?hd L h"
      using raise_store [OF st(1), of h] True hb len by auto
    then show ?thesis using that [of nodes] True st(3) by (simp add: max_def)
  next
    case False
    then show ?thesis using that [of "zsl_nodes zsl"] st(1) by (simp add: max_def)
  qed
  have "nodes a = None" using nodes(1) st(1) a unfolding store_ok_def by (metis domIff)
  then obtain nodes' where nodes': "insert_node fresh back a ?hd (arrays ?hd L ?lv) h ?lv nodes (zsl_tail zsl) s ob = Some (nodes', last_back None ?ys)"
    "store_ok nodes' ?hd ?lv ?ys"
    using insert_node_store [OF nodes(1) _ _ _ len, of a h fresh "back" s ob] hb st(2) by auto
  have "?lv = 1 \<or> (\<exists>e \<in> set ?ys. el_height e = ?lv)" using shape hb by (auto simp: zsl_shape_def max_def)
  moreover have "inc64 (zsl_length zsl) = length ?ys" using st(3) len by (simp add: inc64_id)
  ultimately show ?thesis using search h nodes(2) nodes' len by (auto simp: zslInsert_def zsl_shape_def)
qed

section \<open>Deletion\<close>

lemma shrink_store:
  assumes "head_ok nodes header lv xs" "lv \<le> ZSKIPLIST_MAXLEVEL"
  shows "heights_ok l xs \<Longrightarrow> l \<le> lv \<Longrightarrow> \<exists>l'. shrink_level nodes header l = Some l' \<and> heights_ok l' xs \<and> l' \<le> l \<and> (l' = 1 \<or> (\<exists>e \<in> set xs. el_height e = l'))"
proof (induction l)
  case 0
  then show ?case by (simp add: heights_ok_def)
next
  case (Suc l)
  show ?case
  proof (cases "l = 0")
    case True
    then show ?thesis using Suc.prems by auto
  next
    case False
    obtain sp where get: "get_level nodes header l = Some (fwd l xs, sp)"
      using assms Suc.prems(2) by (auto simp: head_ok_def get_level_def mem_get_def prod_eq_iff)
    show ?thesis
    proof (cases "\<forall>e \<in> set xs. el_height e \<le> l")
      case True
      then have "fwd l xs = None" "heights_ok l xs" using fwd_skip [OF True, of "[]"] Suc.prems(1) False by (auto simp: heights_ok_def)
      then show ?thesis using get Suc.IH Suc.prems(2) False by auto
    next
      case tall: False
      then obtain M1 e M2 where M: "xs = M1 @ e # M2" "\<forall>e \<in> set M1. el_height e \<le> l" "l < el_height e" by (rule first_tall)
      then have "fwd l xs \<noteq> None" "el_height e = Suc l" using fwd_hit [OF M(2,3), of M2] Suc.prems(1) by (auto simp: heights_ok_def)
      then show ?thesis using get False Suc.prems(1) M(1) by auto
    qed
  qed
qed

lemma unlink_store:
  assumes ok: "store_ok nodes header lv (L @ e # R)" and len: "length (L @ e # R) < 2 ^ 32"
    and us: "\<forall>i < lv. \<exists>r. mem_get us i = Some (nd header (tall i L), r)"
  defines "u \<equiv> \<lambda>i. nd header (tall i L)" and "new \<equiv> \<lambda>i. (fwd i R, length L - length (tall i L) + spn i R)"
  shows "unlink_levels us (el_addr e) nodes [0..<lv] = Some (patch u new {..<lv} nodes)"
proof -
  let ?f = "\<lambda>i. fwd i (e # R)" and ?sp = "\<lambda>i. length L - length (tall i L) + spn i (e # R)"
  have node: "nodes (el_addr e) = Some (node_of (last_back None L) e R)" "distinct (map el_addr (e # R))" using ok by (auto simp: store_ok_def seg_append)
  have at: "level_at nodes u ?f ?sp i" if "i < lv" for i unfolding u_def by (rule level_at_tall [OF ok that])
  have e: "?f i = Some (el_addr e) \<longleftrightarrow> i < el_height e" for i
    using node(2) fwd_in [of i R "el_addr e"] by auto
  have bound: "?sp i < 2 ^ 32" "length L - length (tall i L) + Suc (spn i R) < 2 ^ 32" for i
    using len spn_le [of i R] spn_le [of i "e # R"] by simp_all
  have step: "if ?f i = Some (el_addr e) then \<exists>xf xsp. get_level nodes (el_addr e) i = Some (xf, xsp) \<and> new i = (xf, u32 (?sp i + u32_sub xsp 1))
      else new i = (?f i, u32_sub (?sp i) 1)" for i
  proof (cases "i < el_height e")
    case True
    have "?sp i + u32_sub (spn i R) 1 = length L - length (tall i L) + spn i R \<or> spn i R = 0 \<and> u32_sub (spn i R) 1 = 2 ^ 32 - 1"
    proof (cases "spn i R")
      case (Suc m)
      then show ?thesis using True u32_sub_id [of 1 "spn i R"] bound(2) [of i] by simp
    qed (simp add: u32_sub_def)
    then have "u32 (?sp i + u32_sub (spn i R) 1) = length L - length (tall i L) + spn i R"
      using True bound(2) [of i] by (auto simp: u32_def)
    then show ?thesis using True e node(1) by (simp add: get_level_def node_of_def get_tower new_def)
  next
    case False
    then have "fwd i R \<noteq> Some (el_addr e)" using e [of i] by simp
    then show ?thesis using False bound(2) [of i] by (simp add: new_def u32_sub_id)
  qed
  obtain r where r: "\<forall>i < lv. mem_get us i = Some (u i, r i)" using us unfolding u_def by metis
  have "unlink_levels us (el_addr e) (patch u new {} nodes) [0..<lv] = Some (patch u new ({} \<union> set [0..<lv]) nodes)"
  proof (rule unlink_levels_patch [where f = ?f and sp = ?sp and r = r], goal_cases)
    case 1
    show ?case using at step r by (intro ballI conjI) (simp_all only: set_upt atLeastLessThan_iff)
  qed auto
  then show ?thesis by (simp add: atLeast0LessThan)
qed

lemma head_mono: "head_ok nodes header lv xs \<Longrightarrow> l \<le> lv \<Longrightarrow> head_ok nodes header l xs"
  by (auto simp: head_ok_def)

text \<open>The store after the node has been unlinked, its successor linked back and its memory freed.\<close>

lemma unlinked_store:
  assumes ok: "store_ok nodes header lv (L @ e # R)"
  defines "u \<equiv> \<lambda>i. nd header (tall i L)" and "new \<equiv> \<lambda>i. (fwd i R, length L - length (tall i L) + spn i R)"
  defines "P \<equiv> patch u new {..<lv} nodes"
  shows "P (el_addr e) = Some (node_of (last_back None L) e R)"
    "\<exists>N. (case fwd 0 R of Some f \<Rightarrow> do { N \<leftarrow> set_backward P f (last_back None L); Some (N, last_back None (L @ e # R)) } | None \<Rightarrow> Some (P, last_back None L)) =
      Some (N, last_back None (L @ R)) \<and> store_ok (zslFreeNode N (el_addr e)) header lv (L @ R) \<and> N header = P header \<and> N (el_addr e) = P (el_addr e)"
proof -
  have st: "head_ok nodes header lv (L @ e # R)" "seg nodes None L (e # R)" "nodes (el_addr e) = Some (node_of (last_back None L) e R)"
    "seg nodes (Some (el_addr e)) R []" "heights_ok lv (L @ e # R)" "heights_ok lv (L @ R)"
    "distinct (header # map el_addr L)" "distinct (map el_addr (e # R))" "dom nodes = insert header (el_addr ` set (L @ e # R))"
    "el_addr ` set (e # R) \<inter> insert header (el_addr ` set L) = {}"
    using ok by (auto simp: store_ok_def seg_append heights_ok_def)
  have outside: "P b = nodes b" if "b \<notin> insert header (el_addr ` set L)" for b
    unfolding P_def u_def using that nd_tall [of header _ L] by (intro patch_other) auto
  show Pe: "P (el_addr e) = Some (node_of (last_back None L) e R)" using outside [of "el_addr e"] st(3,10) by auto
  have head: "head_ok P header lv (L @ R)" unfolding P_def by (rule head_patch [OF st(7) _ st(1,5,6)]) (simp add: u_def new_def)
  have segL: "seg P None L R" unfolding P_def
    by (rule seg_patch [OF st(7) _ st(2), of _ _ _ _ "[]"]) (use st(5) in \<open>auto simp: heights_ok_def u_def new_def\<close>)
  have "\<forall>e \<in> set R. el_addr e \<notin> insert header (el_addr ` set L)" using st(10) by auto
  then have "\<forall>e \<in> set R. P (el_addr e) = nodes (el_addr e)" using outside by blast
  from seg_cong [OF this] have segR: "seg P (Some (el_addr e)) R []" using st(4) by blast
  have fin: "store_ok (zslFreeNode N (el_addr e)) header lv (L @ R)"
    if N: "\<And>b. b \<in> insert header (el_addr ` set L) \<Longrightarrow> N b = P b" and R: "seg N (last_back None L) R []" and D: "dom N = dom nodes" for N
  proof -
    let ?N = "zslFreeNode N (el_addr e)"
    have out: "?N b = N b" if "b \<noteq> el_addr e" for b using that by (simp add: zslFreeNode_def)
    have L: "?N b = P b" if "b \<in> insert header (el_addr ` set L)" for b
    proof -
      have "b \<noteq> el_addr e" using that st(10) by auto
      then show ?thesis using N [OF that] out by simp
    qed
    have "\<forall>e' \<in> set R. ?N (el_addr e') = N (el_addr e')" using st(8) by (auto simp: zslFreeNode_def image_iff)
    from seg_cong [OF this] have "seg ?N (last_back None L) R []" using R by blast
    moreover have "seg ?N None L R" using segL seg_cong [of L ?N P None R] L by blast
    moreover have "head_ok ?N header lv (L @ R)" using head head_cong [of ?N header P] L by blast
    moreover have "dom ?N = insert header (el_addr ` set (L @ R))" using D st(8,9,10) by (auto simp: zslFreeNode_def intro: rev_image_eqI)
    moreover have "distinct (header # map el_addr (L @ R))" using ok by (auto simp: store_ok_def)
    ultimately show ?thesis using st(6) by (simp add: store_ok_def seg_append)
  qed
  have domP: "dom P = dom nodes" by (simp add: P_def)
  show "\<exists>N. (case fwd 0 R of Some f \<Rightarrow> do { N \<leftarrow> set_backward P f (last_back None L); Some (N, last_back None (L @ e # R)) } | None \<Rightarrow> Some (P, last_back None L)) =
      Some (N, last_back None (L @ R)) \<and> store_ok (zslFreeNode N (el_addr e)) header lv (L @ R) \<and> N header = P header \<and> N (el_addr e) = P (el_addr e)"
  proof (cases R)
    case Nil
    then show ?thesis using fin [of P] segR domP by (auto simp: last_back_def)
  next
    case (Cons e1 R1)
    have f: "fwd 0 R = Some (el_addr e1)" using st(5) Cons by (auto simp: heights_ok_def)
    obtain n where n: "set_backward P (el_addr e1) (last_back None L) = Some (P(el_addr e1 \<mapsto> n))" "seg (P(el_addr e1 \<mapsto> n)) (last_back None L) R []"
      using set_back [of P "Some (el_addr e)" e1 R1 "[]" "last_back None L"] segR st(8) Cons by auto
    have e1: "el_addr e1 \<notin> insert header (el_addr ` set L)" "el_addr e1 \<in> dom nodes" using st(9,10) Cons by auto
    have "store_ok (zslFreeNode (P(el_addr e1 \<mapsto> n)) (el_addr e)) header lv (L @ R)"
      by (rule fin) (use n(2) e1 domP in auto)
    moreover have "el_addr e1 \<noteq> header" "el_addr e1 \<noteq> el_addr e" using e1(1) st(8) Cons by auto
    ultimately show ?thesis using n(1) f Cons by (auto simp: last_back_def)
  qed
qed

theorem zslDeleteNode_shape:
  assumes shape: "zsl_shape zsl (L @ e # R)" and us: "\<forall>i < zsl_level zsl. \<exists>r. mem_get us i = Some (nd (zsl_header zsl) (tall i L), r)"
  shows "\<exists>zsl'. zslDeleteNode zsl (el_addr e) us = Some zsl' \<and> zsl_shape (zsl'\<lparr>zsl_nodes := zslFreeNode (zsl_nodes zsl') (el_addr e)\<rparr>) (L @ R) \<and>
    zsl_header zsl' = zsl_header zsl \<and> zsl_level zsl' \<le> zsl_level zsl \<and>
    (\<exists>n. zsl_nodes zsl' (el_addr e) = Some n \<and> is_node e n)"
proof -
  let ?hd = "zsl_header zsl" and ?lv = "zsl_level zsl" and ?x = "el_addr e"
  have st: "store_ok (zsl_nodes zsl) ?hd ?lv (L @ e # R)" "length (L @ e # R) < 2 ^ 32" "zsl_tail zsl = last_back None (L @ e # R)" "zsl_length zsl = length (L @ e # R)"
    using shape by (auto simp: zsl_shape_def)
  let ?P = "patch (\<lambda>i. nd ?hd (tall i L)) (\<lambda>i. (fwd i R, length L - length (tall i L) + spn i R)) {..<?lv} (zsl_nodes zsl)"
  note unlink = unlink_store [OF st(1,2) us]
  note node = unlinked_store(1) [OF st(1)]
  obtain N where N: "(case fwd 0 R of Some f \<Rightarrow> do { N \<leftarrow> set_backward ?P f (last_back None L); Some (N, last_back None (L @ e # R)) } | None \<Rightarrow> Some (?P, last_back None L)) =
      Some (N, last_back None (L @ R))" "store_ok (zslFreeNode N ?x) ?hd ?lv (L @ R)" "N ?hd = ?P ?hd" "N ?x = ?P ?x"
    using unlinked_store(2) [OF st(1)] by blast
  have h1: "1 \<le> el_height e" "?x \<noteq> ?hd" "?lv \<le> ZSKIPLIST_MAXLEVEL" using st(1) by (auto simp: store_ok_def heights_ok_def)
  have fw: "get_level ?P ?x 0 = Some (fwd 0 R, spn 0 R)" using node h1(1) by (simp add: get_level_def node_of_def get_tower)
  have headN: "head_ok N ?hd ?lv (L @ R)" "heights_ok ?lv (L @ R)"
    using N(2) h1(2) head_cong [of "zslFreeNode N ?x" ?hd N] by (auto simp: store_ok_def zslFreeNode_def)
  obtain l where l: "shrink_level N ?hd ?lv = Some l" "heights_ok l (L @ R)" "l \<le> ?lv" "l = 1 \<or> (\<exists>e \<in> set (L @ R). el_height e = l)"
    using shrink_store [OF headN(1) h1(3) headN(2)] by blast
  have "store_ok (zslFreeNode N ?x) ?hd l (L @ R)" using N(2) l(2,3) head_mono by (auto simp: store_ok_def)
  moreover have "dec64 (zsl_length zsl) = length (L @ R)" using st(2,4) by (simp add: dec64_id)
  moreover have "\<exists>n. N ?x = Some n \<and> is_node e n" using N(4) node by (simp add: is_node_def node_of_def)
  moreover have "zslDeleteNode zsl ?x us = Some (zsl\<lparr>zsl_nodes := N, zsl_tail := last_back None (L @ R), zsl_level := l, zsl_length := dec64 (zsl_length zsl)\<rparr>)"
  proof -
    have b: "zn_backward (node_of (last_back None L) e R) = last_back None L" by (simp add: node_of_def)
    show ?thesis unfolding zslDeleteNode_def unlink Option.bind.simps fw prod.case node b st(3) N(1) l(1) ..
  qed
  ultimately show ?thesis using l st(2) by (auto simp: zsl_shape_def)
qed

end
