(* ===== verification/Skiplist_Order.thy ===== *)
theory Skiplist_Order
  imports Skiplist_Ops
begin

text \<open>
  The skip list as a sorted sequence: elements ordered by score and, for equal scores, by the bytes of the objects. \<open>zslInsert\<close> and \<open>zslDelete\<close> add and
  remove exactly one pair, and the spans give ranks: \<open>zslGetRank\<close> and \<open>zslGetElementByRank\<close> are position and element of the sequence.
\<close>

section \<open>Ranks\<close>

primrec rank_loop :: "(nat \<Rightarrow> byte) \<Rightarrow> ('s :: linorder) nodes \<Rightarrow> 's \<Rightarrow> robj \<Rightarrow> nat \<Rightarrow> nat \<Rightarrow> nat \<Rightarrow> nat option" where
  "rank_loop garb nodes score ob 0 x rank = Some 0"
| "rank_loop garb nodes score ob (Suc i) x rank = do {
     (x, rank) \<leftarrow> zsl_walk u64 (zsl_before True garb score ob) nodes i x rank;
     n \<leftarrow> nodes x;
     found \<leftarrow> (case zn_obj n of None \<Rightarrow> Some False | Some obj \<Rightarrow> equalStringObjects garb obj ob);
     if found then Some rank else rank_loop garb nodes score ob i x rank }"

definition zslGetRank :: "(nat \<Rightarrow> byte) \<Rightarrow> ('s :: linorder) zskiplist \<Rightarrow> 's \<Rightarrow> robj \<Rightarrow> nat option" where
  "zslGetRank garb zsl score ob = rank_loop garb (zsl_nodes zsl) score ob (zsl_level zsl) (zsl_header zsl) 0"

primrec element_loop :: "'s nodes \<Rightarrow> nat \<Rightarrow> nat \<Rightarrow> nat \<Rightarrow> nat \<Rightarrow> nat option option" where
  "element_loop nodes rank 0 x traversed = Some None"
| "element_loop nodes rank (Suc i) x traversed = do {
     (x, traversed) \<leftarrow> zsl_walk u64 (\<lambda>n r. Some (r \<le> rank)) nodes i x traversed;
     if traversed = rank then Some (Some x) else element_loop nodes rank i x traversed }"

definition zslGetElementByRank :: "'s zskiplist \<Rightarrow> nat \<Rightarrow> nat option option" where
  "zslGetElementByRank zsl rank = element_loop (zsl_nodes zsl) rank (zsl_level zsl) (zsl_header zsl) 0"

section \<open>The order\<close>

lemma bytes_less_trans: "bytes_less a b \<Longrightarrow> bytes_less b c \<Longrightarrow> bytes_less a c"
proof (induction a b arbitrary: c rule: bytes_less.induct)
  case (2 y ys)
  then show ?case by (cases c) auto
next
  case (3 x xs y ys)
  then show ?case by (cases c) auto
qed simp

lemma bytes_less_Nil [simp]: "bytes_less [] a \<longleftrightarrow> a \<noteq> []"
  by (cases a) auto

lemma bytes_less_linear: "bytes_less a b \<or> a = b \<or> bytes_less b a"
  by (induction a b rule: bytes_less.induct) auto

fun zless :: "('s :: linorder) \<times> byte list \<Rightarrow> 's \<times> byte list \<Rightarrow> bool" where
  "zless (s, a) (t, b) \<longleftrightarrow> s < t \<or> s = t \<and> bytes_less a b"

definition zkey :: "'s elem \<Rightarrow> 's \<times> byte list" where
  "zkey e = (el_score e, str_val (el_obj e))"

abbreviation el_str :: "'s elem \<Rightarrow> byte list" where
  "el_str \<equiv> \<lambda>e. str_val (el_obj e)"

lemma zless_irrefl [simp]: "\<not> zless k k"
  by (cases k) (simp add: bytes_less_irrefl)

lemma zless_trans: "zless j k \<Longrightarrow> zless k l \<Longrightarrow> zless j l"
  by (cases j; cases k; cases l) (auto dest: bytes_less_trans)

lemma zless_asym: "zless j k \<Longrightarrow> \<not> zless k j \<and> k \<noteq> j"
  using zless_trans [of j k j] zless_irrefl [of j] by auto

lemma zless_linear: "zless j k \<or> j = k \<or> zless k j"
  using bytes_less_linear by (cases j; cases k) auto

definition zsorted :: "('s :: linorder) elem list \<Rightarrow> bool" where
  "zsorted xs \<longleftrightarrow> sorted_wrt (\<lambda>x y. zless (zkey x) (zkey y)) xs"

definition zsl_ok :: "('s :: linorder) zskiplist \<Rightarrow> 's elem list \<Rightarrow> bool" where
  "zsl_ok zsl xs \<longleftrightarrow> zsl_shape zsl xs \<and> zsorted xs \<and> (\<forall>e \<in> set xs. string_wf (el_obj e))"

lemma zsorted_keys: "zsorted xs \<Longrightarrow> distinct (map zkey xs)"
  unfolding zsorted_def by (induction xs) auto

text \<open>A condition that holds for an element whenever it holds for a later one splits the sequence in two.\<close>

lemma split_down:
  assumes "sorted_wrt r xs" "\<And>x y. r x y \<Longrightarrow> Q y \<Longrightarrow> Q x"
  shows "filter Q xs @ filter (\<lambda>x. \<not> Q x) xs = xs"
  using assms(1)
proof (induction xs)
  case (Cons x xs)
  show ?case
  proof (cases "Q x")
    case False
    then have "filter Q xs = []" "filter (\<lambda>x. \<not> Q x) xs = xs" using Cons.prems assms(2) by (auto simp: filter_empty_conv filter_id_conv)
    then show ?thesis using False by simp
  qed (use Cons in simp)
qed simp

lemma before_correct:
  assumes "is_node e n" "string_wf (el_obj e)" "string_wf ob"
  shows "zsl_before le garb s ob n r = Some (zless (zkey e) (s, str_val ob) \<or> le \<and> zkey e = (s, str_val ob))"
proof -
  obtain c where "compareStringObjects garb (el_obj e) ob = Some c" "(c < 0) = bytes_less (str_val (el_obj e)) (str_val ob)" "(c = 0) = (str_val (el_obj e) = str_val ob)"
    using compareStringObjects_correct [OF assms(2,3), of garb] by blast
  then show ?thesis using assms(1) by (auto simp: zsl_before_def is_node_def zkey_def)
qed

text \<open>The condition of a search whose place is determined by a predicate on elements.\<close>

lemma splits_pred:
  assumes "sorted_wrt r xs" "\<And>x y. r x y \<Longrightarrow> Q y \<Longrightarrow> Q x" "\<And>e n k. e \<in> set xs \<Longrightarrow> is_node e n \<Longrightarrow> go n k = Some (Q e)"
  shows "splits go (filter Q xs) (filter (\<lambda>x. \<not> Q x) xs)"
proof -
  have mem: "e \<in> set xs \<and> P e" if "filter P xs = A @ e # B" for A e B P
    using arg_cong [OF that, of set] by auto
  have "go n k = Some True" if "filter Q xs = A @ e # B" "is_node e n" for A e B n k using assms(3) [of e n k] mem [OF that(1)] that(2) by simp
  moreover have "go n k = Some False" if "filter (\<lambda>x. \<not> Q x) xs = A @ e # B" "is_node e n" for A e B n k using assms(3) [of e n k] mem [OF that(1)] that(2) by simp
  ultimately show ?thesis unfolding splits_def by blast
qed

definition zbefore :: "('s :: linorder) \<times> byte list \<Rightarrow> 's elem list \<Rightarrow> 's elem list" where
  "zbefore k xs = filter (\<lambda>e. zless (zkey e) k) xs"

definition zafter :: "('s :: linorder) \<times> byte list \<Rightarrow> 's elem list \<Rightarrow> 's elem list" where
  "zafter k xs = filter (\<lambda>e. \<not> zless (zkey e) k) xs"

lemma zbefore_split: "zsorted xs \<Longrightarrow> zbefore k xs @ zafter k xs = xs"
  unfolding zsorted_def zbefore_def zafter_def by (erule split_down) (rule zless_trans)

lemma before_splits:
  assumes "zsorted xs" "\<forall>e \<in> set xs. string_wf (el_obj e)" "string_wf ob"
  shows "splits (zsl_before False garb s ob) (zbefore (s, str_val ob) xs) (zafter (s, str_val ob) xs)"
  unfolding zbefore_def zafter_def
proof (rule splits_pred [OF assms(1) [unfolded zsorted_def]], goal_cases)
  case (1 x y)
  then show ?case by (rule zless_trans)
next
  case (2 e n k)
  then show ?case using before_correct [of e n ob False garb s k] assms(2,3) by simp
qed

section \<open>Insertion and deletion\<close>

theorem zslInsert_ok:
  assumes ok: "zsl_ok zsl xs" and ob: "string_wf ob" and new: "(s, str_val ob) \<notin> zkey ` set xs"
    and h: "zslRandomLevel random = Some h" and a: "zsl_nodes zsl a = None" and len: "Suc (length xs) < 2 ^ 32"
  defines "ys \<equiv> zbefore (s, str_val ob) xs @ Elem a h s ob # zafter (s, str_val ob) xs"
  shows "\<exists>zsl'. zslInsert garb fresh back random a zsl s ob = Some (zsl', a) \<and> zsl_ok zsl' ys \<and> zsl_header zsl' = zsl_header zsl"
    "set ys = insert (Elem a h s ob) (set xs)" "length ys = Suc (length xs)"
proof -
  let ?k = "(s, str_val ob)"
  let ?L = "zbefore ?k xs" and ?R = "zafter ?k xs"
  have xs: "?L @ ?R = xs" and st: "zsl_shape zsl (?L @ ?R)" "zsorted xs" "\<forall>e \<in> set xs. string_wf (el_obj e)"
    using ok zbefore_split [of xs ?k] by (simp_all add: zsl_ok_def)
  have mem: "zless (zkey e) ?k" if "e \<in> set ?L" for e using that by (simp add: zbefore_def)
  have mem': "zless ?k (zkey e)" if "e \<in> set ?R" for e
    using that new zless_linear [of "zkey e" ?k] by (auto simp: zafter_def) (metis imageI)
  have "zkey (Elem a h s ob) = ?k" by (simp add: zkey_def)
  moreover have "sorted_wrt (\<lambda>x y. zless (zkey x) (zkey y)) (?L @ ?R)" using st(2) xs by (simp add: zsorted_def)
  ultimately have "zsorted ys" using mem mem' by (auto simp: zsorted_def ys_def sorted_wrt_append)
  moreover show sy: "set ys = insert (Elem a h s ob) (set xs)" using arg_cong [OF xs, of set] by (simp add: ys_def)
  moreover show "length ys = Suc (length xs)" using arg_cong [OF xs, of length] by (simp add: ys_def)
  moreover obtain zsl' where "zslInsert garb fresh back random a zsl s ob = Some (zsl', a)" "zsl_shape zsl' ys" "zsl_header zsl' = zsl_header zsl"
    using zslInsert_shape [OF st(1) before_splits [OF st(2,3) ob] h a] len xs unfolding ys_def by metis
  ultimately show "\<exists>zsl'. zslInsert garb fresh back random a zsl s ob = Some (zsl', a) \<and> zsl_ok zsl' ys \<and> zsl_header zsl' = zsl_header zsl"
    using st(3) ob by (auto simp: zsl_ok_def)
qed

lemma zafter_cases:
  assumes "zsorted xs"
  shows "if k \<in> zkey ` set xs then \<exists>e R. zafter k xs = e # R \<and> zkey e = k \<and> filter (\<lambda>e. zkey e \<noteq> k) xs = zbefore k xs @ R
    else (\<forall>e \<in> set (zafter k xs). zkey e \<noteq> k) \<and> filter (\<lambda>e. zkey e \<noteq> k) xs = xs"
proof (cases "k \<in> zkey ` set xs")
  case True
  note xs = zbefore_split [OF assms, of k]
  have sorted: "zsorted (zbefore k xs @ zafter k xs)" using assms xs by simp
  obtain e where e: "e \<in> set xs" "zkey e = k" using True by blast
  then have in_R: "e \<in> set (zafter k xs)" by (simp add: zafter_def)
  then obtain f R where R: "zafter k xs = f # R" by (cases "zafter k xs") auto
  have "f \<in> set (zafter k xs)" using R by simp
  then have "\<not> zless (zkey f) k" by (simp add: zafter_def)
  then have "f = e" using sorted in_R e(2) unfolding R by (auto simp: zsorted_def sorted_wrt_append)
  moreover have "filter (\<lambda>e. zkey e \<noteq> k) (zbefore k xs) = zbefore k xs" by (rule filter_True) (auto simp: zbefore_def)
  moreover have "filter (\<lambda>e. zkey e \<noteq> k) R = R" using sorted R \<open>f = e\<close> e(2) by (auto simp: zsorted_def sorted_wrt_append filter_id_conv)
  moreover have "filter (\<lambda>e. zkey e \<noteq> k) xs = filter (\<lambda>e. zkey e \<noteq> k) (zbefore k xs) @ filter (\<lambda>e. zkey e \<noteq> k) (f # R)" using xs R by (metis filter_append)
  ultimately show ?thesis using True e(2) R by simp
next
  case False
  then show ?thesis by (auto simp: zafter_def filter_id_conv)
qed

lemma search_at:
  assumes "zsl_shape zsl (L @ R)" "splits go L R" "\<And>k. k \<le> length (L @ R) \<Longrightarrow> w k = k"
  shows "zsl_search w go (zsl_nodes zsl) (zsl_level zsl) (zsl_header zsl) 0 = Some (arrays (zsl_header zsl) L (zsl_level zsl))"
    "mem_get (arrays (zsl_header zsl) L (zsl_level zsl)) 0 = Some (nd (zsl_header zsl) L, length L)"
    "get_level (zsl_nodes zsl) (nd (zsl_header zsl) L) 0 = Some (if R = [] then None else Some (el_addr (hd R)), spn 0 R)"
proof -
  have st: "store_ok (zsl_nodes zsl) (zsl_header zsl) (zsl_level zsl) (L @ R)" using assms(1) by (simp add: zsl_shape_def)
  then show "zsl_search w go (zsl_nodes zsl) (zsl_level zsl) (zsl_header zsl) 0 = Some (arrays (zsl_header zsl) L (zsl_level zsl))"
    by (rule search_shape) (use assms in auto)
  have h: "\<forall>e \<in> set L. 1 \<le> el_height e" "\<forall>e \<in> set R. 1 \<le> el_height e" "0 < zsl_level zsl" using st by (auto simp: store_ok_def heights_ok_def)
  then show "mem_get (arrays (zsl_header zsl) L (zsl_level zsl)) 0 = Some (nd (zsl_header zsl) L, length L)"
    using get_arrays [of 0 "zsl_level zsl" "zsl_header zsl" L] tall_0 [OF h(1)] by simp
  show "get_level (zsl_nodes zsl) (nd (zsl_header zsl) L) 0 = Some (if R = [] then None else Some (el_addr (hd R)), spn 0 R)"
    using level_at_tall [OF st h(3)] tall_0 [OF h(1)] h(2) by (cases R) (auto simp: level_at_def)
qed

lemma shape_node: "zsl_shape zsl xs \<Longrightarrow> e \<in> set xs \<Longrightarrow> \<exists>n. zsl_nodes zsl (el_addr e) = Some n \<and> is_node e n"
  using node_at [of "zsl_nodes zsl" None _ e _ "[]"] by (auto simp: zsl_shape_def store_ok_def dest!: split_list)

theorem zslDelete_ok:
  assumes ok: "zsl_ok zsl xs" and ob: "string_wf ob"
  shows "\<exists>zsl'. zslDelete garb zsl s ob = Some (zsl', (s, str_val ob) \<in> zkey ` set xs) \<and>
    zsl_ok zsl' (filter (\<lambda>e. zkey e \<noteq> (s, str_val ob)) xs) \<and> zsl_header zsl' = zsl_header zsl"
proof -
  let ?k = "(s, str_val ob)"
  let ?L = "zbefore ?k xs" and ?R = "zafter ?k xs" and ?hd = "zsl_header zsl"
  have xs: "?L @ ?R = xs" and st: "zsl_shape zsl (?L @ ?R)" "zsorted xs" "\<forall>e \<in> set xs. string_wf (el_obj e)" "length xs < 2 ^ 32"
    using ok zbefore_split [of xs ?k] by (simp_all add: zsl_ok_def zsl_shape_def)
  have small: "u32 k = k" if "k \<le> length (?L @ ?R)" for k using st(4) xs that by simp
  note srch = search_at [OF st(1) before_splits [OF st(2,3) ob] small]
  show ?thesis
  proof (cases ?R)
    case Nil
    then show ?thesis using srch zafter_cases [OF st(2), of ?k] ok by (auto simp: zslDelete_def split: if_splits)
  next
    case (Cons e R)
    have e: "e \<in> set xs" using arg_cong [OF xs, of set] Cons by auto
    obtain n where n: "zsl_nodes zsl (el_addr e) = Some n" "is_node e n" using shape_node [OF st(1)] e xs by auto
    have same: "(if s = zn_score n then do { ob' \<leftarrow> zn_obj n; equalStringObjects garb ob' ob } else Some False) = Some (zkey e = ?k)"
      using n(2) equalStringObjects_correct [of "el_obj e" ob garb] st(3) e ob by (auto simp: is_node_def zkey_def)
    show ?thesis
    proof (cases "zkey e = ?k")
      case True
      have us: "\<forall>i < zsl_level zsl. \<exists>r. mem_get (arrays ?hd ?L (zsl_level zsl)) i = Some (nd ?hd (tall i ?L), r)" using get_arrays by blast
      obtain zsl' where d: "zslDeleteNode zsl (el_addr e) (arrays ?hd ?L (zsl_level zsl)) = Some zsl'"
        "zsl_shape (zsl'\<lparr>zsl_nodes := zslFreeNode (zsl_nodes zsl') (el_addr e)\<rparr>) (?L @ R)" "zsl_header zsl' = ?hd"
        using zslDeleteNode_shape [of zsl ?L e R, OF _ us] st(1) Cons by auto
      have k: "?k \<in> zkey ` set xs" using True e by force
      have rest: "filter (\<lambda>e. zkey e \<noteq> ?k) xs = ?L @ R" using zafter_cases [OF st(2), of ?k] k Cons by auto
      have "zsorted (filter (\<lambda>e. zkey e \<noteq> ?k) xs)" using st(2) by (simp add: zsorted_def sorted_wrt_filter)
      then have "zsl_ok (zsl'\<lparr>zsl_nodes := zslFreeNode (zsl_nodes zsl') (el_addr e)\<rparr>) (filter (\<lambda>e. zkey e \<noteq> ?k) xs)"
        using d(2) st(3) unfolding zsl_ok_def rest [symmetric] by simp
      moreover have "zslDelete garb zsl s ob = Some (zsl'\<lparr>zsl_nodes := zslFreeNode (zsl_nodes zsl') (el_addr e)\<rparr>, True)"
        using srch n(1) same True d(1) Cons by (simp add: zslDelete_def)
      ultimately show ?thesis using k d(3) by auto
    next
      case False
      then have k: "?k \<notin> zkey ` set xs" using zafter_cases [OF st(2), of ?k] Cons by (auto split: if_splits)
      have "zslDelete garb zsl s ob = Some (zsl, False)" using srch n(1) same False Cons by (simp add: zslDelete_def)
      then show ?thesis using k ok zafter_cases [OF st(2), of ?k] by simp
    qed
  qed
qed

section \<open>Ranks\<close>

lemma distinct_strings_last:
  assumes "distinct (map el_str (L @ R))" "L = A @ M" "A \<noteq> []" "str_val (el_obj (last A)) = str_val (el_obj (last L))" "L \<noteq> []"
  shows "A = L"
proof -
  have "distinct (map el_str L)" using assms(1) by simp
  moreover have "last A = L ! (length A - 1)" "last L = L ! (length L - 1)" "length A \<le> length L" using assms by (auto simp: last_conv_nth nth_append)
  ultimately have "length A - 1 = length L - 1"
    using assms(3-5) nth_eq_iff_index_eq [of "map el_str L" "length A - 1" "length L - 1"] by (simp add: Suc_le_lessD diff_less_mono2)
  then have "length A = length L" using assms(3,5) by (cases A; cases L) auto
  then show ?thesis using assms(2) by simp
qed

lemma rank_loop_correct:
  assumes store: "store_ok nodes header lv (L @ R)" and go: "splits (zsl_before True garb s ob) L R" and len: "length (L @ R) < 2 ^ 32"
    and wf: "\<forall>e \<in> set (L @ R). string_wf (el_obj e)" "string_wf ob"
  shows "l \<le> lv \<Longrightarrow> L = A @ M \<Longrightarrow> reaches (l - 1) A \<Longrightarrow>
    (if \<forall>e \<in> set L. str_val (el_obj e) \<noteq> str_val ob then rank_loop garb nodes s ob l (nd header A) (length A) = Some 0
     else distinct (map el_str (L @ R)) \<and> L \<noteq> [] \<and> str_val (el_obj (last L)) = str_val ob \<and> 0 < l \<longrightarrow>
       rank_loop garb nodes s ob l (nd header A) (length A) = Some (length L))"
proof (induction l arbitrary: A M)
  case (Suc i)
  have st: "head_ok nodes header lv (L @ R)" "seg nodes None (L @ R) []" "lv \<le> ZSKIPLIST_MAXLEVEL" "\<forall>e \<in> set L. 1 \<le> el_height e"
    using store by (auto simp: store_ok_def heights_ok_def)
  have walk: "zsl_walk u64 (zsl_before True garb s ob) nodes i (nd header A) (length A) = Some (nd header (tall i L), length (tall i L))"
    using walk_correct [OF st(1,2) go, of u64 i A M] len st(3) Suc.prems by auto
  obtain N where N: "L = tall i L @ N" "reaches i (tall i L)" using tall_split by blast
  have nx: "reaches (i - 1) (tall i L)" using N(2) by (auto simp: reaches_def)
  note IH = Suc.IH [OF _ N(1) nx]
  define found where "found = (tall i L \<noteq> [] \<and> str_val (el_obj (last (tall i L))) = str_val ob)"
  have test: "\<exists>n. nodes (nd header (tall i L)) = Some n \<and> (case zn_obj n of None \<Rightarrow> Some False | Some obj \<Rightarrow> equalStringObjects garb obj ob) = Some found"
  proof (cases "tall i L = []")
    case True
    then show ?thesis using st(1) by (auto simp: nd_def head_ok_def found_def)
  next
    case False
    then have e: "last (tall i L) \<in> set (L @ R)" using set_tall [of i L] last_in_set by fastforce
    then obtain n where "nodes (el_addr (last (tall i L))) = Some n" "is_node (last (tall i L)) n"
      using node_at [of nodes None _ "last (tall i L)" _ "[]"] st(2) split_list by metis
    then show ?thesis using equalStringObjects_correct [of "el_obj (last (tall i L))" ob garb] wf e False by (auto simp: nd_def is_node_def found_def)
  qed
  then have step: "rank_loop garb nodes s ob (Suc i) (nd header A) (length A) =
      (if found then Some (length (tall i L)) else rank_loop garb nodes s ob i (nd header (tall i L)) (length (tall i L)))"
    using walk by auto
  show ?case
  proof (cases "\<forall>e \<in> set L. str_val (el_obj e) \<noteq> str_val ob")
    case True
    then have "\<not> found" using subsetD [OF set_tall last_in_set, of i L] by (auto simp: found_def)
    then show ?thesis using True step IH Suc.prems(1) by simp
  next
    case False
    have "rank_loop garb nodes s ob (Suc i) (nd header A) (length A) = Some (length L)"
      if d: "distinct (map el_str (L @ R))" "L \<noteq> []" "str_val (el_obj (last L)) = str_val ob"
    proof (cases "i < el_height (last L)")
      case True
      then have "tall i L = L" using tall_unique [of "[]" i L] by (simp add: reaches_def)
      then show ?thesis using step d by (simp add: found_def)
    next
      case low: False
      then have "0 < i" using st(4) d(2) by (metis gr0I last_in_set less_eq_Suc_le One_nat_def)
      moreover have "\<not> found"
      proof
        assume f: "found"
        then have "tall i L = L" using distinct_strings_last [OF d(1) N(1)] d by (auto simp: found_def)
        then show False using N(2) low d(2) by (simp add: reaches_def)
      qed
      ultimately show ?thesis using step IH Suc.prems(1) False d by auto
    qed
    then show ?thesis unfolding if_not_P [OF False] by blast
  qed
qed simp

lemma element_loop_correct:
  assumes store: "store_ok nodes header lv (L @ R)" and go: "splits (\<lambda>n r. Some (r \<le> rank)) L R" and len: "length (L @ R) < 2 ^ 32"
    and rank: "length L \<le> rank"
  shows "l \<le> lv \<Longrightarrow> L = A @ M \<Longrightarrow> reaches (l - 1) A \<Longrightarrow> 0 < l \<Longrightarrow>
    element_loop nodes rank l (nd header A) (length A) = Some (if length L = rank then Some (nd header L) else None)"
proof (induction l arbitrary: A M)
  case (Suc i)
  have st: "head_ok nodes header lv (L @ R)" "seg nodes None (L @ R) []" "lv \<le> ZSKIPLIST_MAXLEVEL" "\<forall>e \<in> set L. 1 \<le> el_height e"
    using store by (auto simp: store_ok_def heights_ok_def)
  have walk: "zsl_walk u64 (\<lambda>n r. Some (r \<le> rank)) nodes i (nd header A) (length A) = Some (nd header (tall i L), length (tall i L))"
    using walk_correct [OF st(1,2) go, of u64 i A M] len st(3) Suc.prems by auto
  obtain N where N: "L = tall i L @ N" "reaches i (tall i L)" using tall_split by blast
  have nx: "reaches (i - 1) (tall i L)" using N(2) by (auto simp: reaches_def)
  have full: "tall i L = L" if "length (tall i L) = rank" using arg_cong [OF N(1), of length] rank that N(1) by (cases N) auto
  show ?case
  proof (cases "length (tall i L) = rank")
    case True
    then show ?thesis using walk full by simp
  next
    case False
    show ?thesis
    proof (cases i)
      case 0
      then show ?thesis using walk False tall_0 [OF st(4)] by simp
    next
      case (Suc j)
      have "element_loop nodes rank i (nd header (tall i L)) (length (tall i L)) = Some (if length L = rank then Some (nd header L) else None)"
        using Suc.IH [OF _ N(1) nx] Suc.prems(1) Suc by simp
      then show ?thesis using walk False by simp
    qed
  qed
qed simp

theorem zslGetElementByRank_ok:
  assumes "zsl_ok zsl xs" "0 < rank"
  shows "zslGetElementByRank zsl rank = Some (if rank \<le> length xs then Some (el_addr (xs ! (rank - 1))) else None)"
proof -
  let ?L = "take rank xs" and ?R = "drop rank xs"
  have st: "store_ok (zsl_nodes zsl) (zsl_header zsl) (zsl_level zsl) (?L @ ?R)" "length (?L @ ?R) < 2 ^ 32" "0 < zsl_level zsl"
    using assms(1) by (auto simp: zsl_ok_def zsl_shape_def store_ok_def heights_ok_def)
  have "splits (\<lambda>n r. Some (r \<le> rank)) ?L ?R"
  proof -
    have "Suc (length A) \<le> rank" if "take rank xs = A @ e # B" for A e B using arg_cong [OF that, of length] by simp
    moreover have "length (take rank xs) = rank" if "drop rank xs = A @ e # B" for A e B using arg_cong [OF that, of length] by simp
    ultimately show ?thesis unfolding splits_def by fastforce
  qed
  then have "element_loop (zsl_nodes zsl) rank (zsl_level zsl) (nd (zsl_header zsl) ([] :: 'a elem list)) (length ([] :: 'a elem list)) =
      Some (if length ?L = rank then Some (nd (zsl_header zsl) ?L) else None)"
    by (rule element_loop_correct [OF st(1) _ st(2)]) (use st(3) in \<open>auto simp: reaches_def\<close>)
  moreover have "nd (zsl_header zsl) ?L = el_addr (xs ! (rank - 1))" if "rank \<le> length xs" using that assms(2) by (auto simp: nd_def last_conv_nth min_def)
  moreover have "length ?L = rank \<longleftrightarrow> rank \<le> length xs" by auto
  ultimately show ?thesis by (auto simp: zslGetElementByRank_def nd_def)
qed

definition rank_of :: "('s :: linorder) \<times> byte list \<Rightarrow> 's elem list \<Rightarrow> nat" where
  "rank_of k xs = length (filter (\<lambda>e. zless (zkey e) k) xs)"

theorem zslGetRank_ok:
  assumes ok: "zsl_ok zsl xs" and ob: "string_wf ob" and uniq: "distinct (map el_str xs)"
  shows "(s, str_val ob) \<in> zkey ` set xs \<Longrightarrow> zslGetRank garb zsl s ob = Some (Suc (rank_of (s, str_val ob) xs))"
    "str_val ob \<notin> el_str ` set xs \<Longrightarrow> zslGetRank garb zsl s ob = Some 0"
proof -
  let ?k = "(s, str_val ob)"
  let ?Q = "\<lambda>e. zless (zkey e) ?k \<or> zkey e = ?k"
  let ?L = "filter ?Q xs" and ?R = "filter (\<lambda>e. \<not> ?Q e) xs"
  have st: "zsl_shape zsl xs" "zsorted xs" "\<forall>e \<in> set xs. string_wf (el_obj e)" using ok by (auto simp: zsl_ok_def)
  have down: "?Q x" if "zless (zkey x) (zkey y)" "?Q y" for x y using that zless_trans by metis
  have xs: "?L @ ?R = xs" by (rule split_down [OF st(2) [unfolded zsorted_def]]) (rule down)
  have go: "splits (zsl_before True garb s ob) ?L ?R"
  proof (rule splits_pred [OF st(2) [unfolded zsorted_def]], goal_cases)
    case (1 x y)
    then show ?case by (rule down)
  next
    case (2 e n k)
    then show ?case using before_correct [of e n ob True garb s k] st(3) ob by simp
  qed
  have store: "store_ok (zsl_nodes zsl) (zsl_header zsl) (zsl_level zsl) (?L @ ?R)" "length (?L @ ?R) < 2 ^ 32" "0 < zsl_level zsl"
    using st(1) unfolding xs by (auto simp: zsl_shape_def store_ok_def heights_ok_def)
  have wf: "\<forall>e \<in> set (?L @ ?R). string_wf (el_obj e)" using st(3) by auto
  have "reaches i []" for i by (simp add: reaches_def)
  note loop = rank_loop_correct [OF store(1) go store(2) wf ob order_refl append_Nil [symmetric] this]
  have run: "zslGetRank garb zsl s ob = rank_loop garb (zsl_nodes zsl) s ob (zsl_level zsl) (nd (zsl_header zsl) ([] :: 'a elem list)) (length ([] :: 'a elem list))"
    by (simp add: zslGetRank_def nd_def)
  show "zslGetRank garb zsl s ob = Some 0" if "str_val ob \<notin> el_str ` set xs"
  proof -
    have "\<forall>e \<in> set ?L. str_val (el_obj e) \<noteq> str_val ob" using that by (auto simp: image_iff)
    then show ?thesis using loop unfolding run if_P [OF \<open>\<forall>e \<in> set ?L. _\<close>] by blast
  qed
  show "zslGetRank garb zsl s ob = Some (Suc (rank_of ?k xs))" if k: "?k \<in> zkey ` set xs"
  proof -
    obtain e R where e: "zafter ?k xs = e # R" "zkey e = ?k" "filter (\<lambda>e. zkey e \<noteq> ?k) xs = zbefore ?k xs @ R"
      using zafter_cases [OF st(2), of ?k] k by auto
    have xs': "xs = zbefore ?k xs @ e # R" using zbefore_split [OF st(2), of ?k] e(1) by simp
    have "filter ?Q (zbefore ?k xs) = zbefore ?k xs" by (rule filter_True) (auto simp: zbefore_def)
    moreover have "filter ?Q R = []"
    proof -
      have "zsorted (zbefore ?k xs @ e # R)" using st(2) xs' by simp
      then have "\<forall>f \<in> set R. zless ?k (zkey f)" using e(2) by (simp add: zsorted_def sorted_wrt_append)
      then have "\<forall>f \<in> set R. \<not> ?Q f" using zless_asym by blast
      then show ?thesis by (rule filter_False)
    qed
    ultimately have L: "?L = zbefore ?k xs @ [e]" using e(2) by (subst xs') simp
    have l: "?L \<noteq> []" "last ?L = e" "e \<in> set ?L" "length ?L = Suc (rank_of ?k xs)" unfolding L by (simp_all add: rank_of_def zbefore_def)
    have str: "str_val (el_obj e) = str_val ob" using e(2) by (simp add: zkey_def)
    then have "\<not> (\<forall>e \<in> set ?L. str_val (el_obj e) \<noteq> str_val ob)" using l(3) by blast
    from loop [unfolded if_not_P [OF this] xs] have "rank_loop garb (zsl_nodes zsl) s ob (zsl_level zsl) (nd (zsl_header zsl) ([] :: 'a elem list)) (length ([] :: 'a elem list)) = Some (length ?L)"
      using uniq l(1,2) str store(3) by blast
    then show ?thesis unfolding run l(4) .
  qed
qed

end
