(* ===== verification/Skiplist_Range.thy ===== *)
theory Skiplist_Range
  imports Skiplist_Order
begin

text \<open>
  Ranges of a skip list by score, by the order of the strings and by rank: the test whether a range can contain an element, its first and last element,
  and the deletion of a range, which also deletes the objects from the dict of the sorted set. The dict maps a string to the object and to the address of
  the node whose score its value points to.
\<close>

section \<open>Range specifications\<close>

record 's zrangespec =
  zr_min :: 's
  zr_max :: 's
  zr_minex :: bool
  zr_maxex :: bool

definition zslValueGteMin :: "('s :: linorder) \<Rightarrow> 's zrangespec \<Rightarrow> bool" where
  "zslValueGteMin value spec = (if zr_minex spec then value > zr_min spec else value \<ge> zr_min spec)"

definition zslValueLteMax :: "('s :: linorder) \<Rightarrow> 's zrangespec \<Rightarrow> bool" where
  "zslValueLteMax value spec = (if zr_maxex spec then value < zr_max spec else value \<le> zr_max spec)"

text \<open>A limit of a lexicographic range: an object, or one of the shared objects that stand for the ends of the order.\<close>

datatype lexitem = MinString | MaxString | LexObj robj

record zlexrangespec =
  zl_min :: lexitem
  zl_max :: lexitem
  zl_minex :: bool
  zl_maxex :: bool

text \<open>The contents of the shared objects \<open>shared.minstring\<close> and \<open>shared.maxstring\<close>.\<close>

definition lex_object :: "(nat \<Rightarrow> byte) \<Rightarrow> lexitem \<Rightarrow> robj option" where
  "lex_object garb item = (case item of
     MinString \<Rightarrow> createStringObject garb (Some (bytes ''minstring'')) 9
   | MaxString \<Rightarrow> createStringObject garb (Some (bytes ''maxstring'')) 9
   | LexObj ob \<Rightarrow> Some ob)"

text \<open>An object compares as equal with itself, so only the shared objects need the comparison of pointers.\<close>

definition compareStringObjectsForLexRange :: "(nat \<Rightarrow> byte) \<Rightarrow> lexitem \<Rightarrow> lexitem \<Rightarrow> int option" where
  "compareStringObjectsForLexRange garb a b = (case (a, b) of
     (MinString, MinString) \<Rightarrow> Some 0
   | (MaxString, MaxString) \<Rightarrow> Some 0
   | (MinString, _) \<Rightarrow> Some (- 1)
   | (_, MaxString) \<Rightarrow> Some (- 1)
   | (MaxString, _) \<Rightarrow> Some 1
   | (_, MinString) \<Rightarrow> Some 1
   | (LexObj x, LexObj y) \<Rightarrow> compareStringObjects garb x y)"

definition zslLexValueGteMin :: "(nat \<Rightarrow> byte) \<Rightarrow> robj \<Rightarrow> zlexrangespec \<Rightarrow> bool option" where
  "zslLexValueGteMin garb value spec = do {
     c \<leftarrow> compareStringObjectsForLexRange garb (LexObj value) (zl_min spec);
     Some (if zl_minex spec then c > 0 else c \<ge> 0) }"

definition zslLexValueLteMax :: "(nat \<Rightarrow> byte) \<Rightarrow> robj \<Rightarrow> zlexrangespec \<Rightarrow> bool option" where
  "zslLexValueLteMax garb value spec = do {
     c \<leftarrow> compareStringObjectsForLexRange garb (LexObj value) (zl_max spec);
     Some (if zl_maxex spec then c < 0 else c \<le> 0) }"

text \<open>Parsing a limit: the item and whether it is exclusive; \<open>Some None\<close> is the error.\<close>

definition zslParseLexRangeItem :: "(nat \<Rightarrow> byte) \<Rightarrow> robj \<Rightarrow> (lexitem \<times> bool) option option" where
  "zslParseLexRangeItem garb item = do {
     s \<leftarrow> ptr_sds (o_ptr item);
     c0 \<leftarrow> mem_get (s_buf s) 0;
     if c0 = ch CHR ''+'' then do { c1 \<leftarrow> mem_get (s_buf s) 1; Some (if c1 \<noteq> 0 then None else Some (MaxString, False)) }
     else if c0 = ch CHR ''-'' then do { c1 \<leftarrow> mem_get (s_buf s) 1; Some (if c1 \<noteq> 0 then None else Some (MinString, False)) }
     else if c0 = ch CHR ''('' then do { ob \<leftarrow> createStringObject garb (Some (drop 1 (s_buf s))) (sdslen s - 1); Some (Some (LexObj ob, True)) }
     else if c0 = ch CHR ''['' then do { ob \<leftarrow> createStringObject garb (Some (drop 1 (s_buf s))) (sdslen s - 1); Some (Some (LexObj ob, False)) }
     else Some None }"

definition zslParseLexRange :: "(nat \<Rightarrow> byte) \<Rightarrow> robj \<Rightarrow> robj \<Rightarrow> zlexrangespec option option" where
  "zslParseLexRange garb mn mx =
     (if o_encoding mn = REDIS_ENCODING_INT \<or> o_encoding mx = REDIS_ENCODING_INT then Some None
      else do {
        a \<leftarrow> zslParseLexRangeItem garb mn;
        (case a of
           None \<Rightarrow> Some None
         | Some (lo, loex) \<Rightarrow> do {
             b \<leftarrow> zslParseLexRangeItem garb mx;
             (case b of
                None \<Rightarrow> Some None
              | Some (hi, hiex) \<Rightarrow> Some (Some \<lparr>zl_min = lo, zl_max = hi, zl_minex = loex, zl_maxex = hiex\<rparr>)) }) })"

section \<open>First and last element\<close>

text \<open>What the two versions of the three functions share: \<open>none\<close> is the test for a range that is always empty.\<close>

definition in_range ::
  "bool option \<Rightarrow> ('s zskiplistNode \<Rightarrow> bool option) \<Rightarrow> ('s zskiplistNode \<Rightarrow> bool option) \<Rightarrow> 's zskiplist \<Rightarrow> bool option" where
  "in_range none gte lte zsl = do {
     e \<leftarrow> none;
     if e then Some False
     else (case zsl_tail zsl of
        None \<Rightarrow> Some False
      | Some x \<Rightarrow> do {
          n \<leftarrow> zsl_nodes zsl x;
          g \<leftarrow> gte n;
          if \<not> g then Some False
          else do {
            (forward, _) \<leftarrow> get_level (zsl_nodes zsl) (zsl_header zsl) 0;
            (case forward of
               None \<Rightarrow> Some False
             | Some x \<Rightarrow> do { n \<leftarrow> zsl_nodes zsl x; lte n }) } }) }"

definition range_first ::
  "bool option \<Rightarrow> ('s zskiplistNode \<Rightarrow> bool option) \<Rightarrow> ('s zskiplistNode \<Rightarrow> bool option) \<Rightarrow> 's zskiplist \<Rightarrow> nat option option" where
  "range_first inr gte lte zsl = do {
     i \<leftarrow> inr;
     if \<not> i then Some None
     else do {
       us \<leftarrow> zsl_search u64 (\<lambda>n r. map_option Not (gte n)) (zsl_nodes zsl) (zsl_level zsl) (zsl_header zsl) 0;
       (u, _) \<leftarrow> mem_get us 0;
       (forward, _) \<leftarrow> get_level (zsl_nodes zsl) u 0;
       x \<leftarrow> forward;
       n \<leftarrow> zsl_nodes zsl x;
       l \<leftarrow> lte n;
       Some (if l then Some x else None) } }"

definition range_last ::
  "bool option \<Rightarrow> ('s zskiplistNode \<Rightarrow> bool option) \<Rightarrow> ('s zskiplistNode \<Rightarrow> bool option) \<Rightarrow> 's zskiplist \<Rightarrow> nat option option" where
  "range_last inr gte lte zsl = do {
     i \<leftarrow> inr;
     if \<not> i then Some None
     else do {
       us \<leftarrow> zsl_search u64 (\<lambda>n r. lte n) (zsl_nodes zsl) (zsl_level zsl) (zsl_header zsl) 0;
       (x, _) \<leftarrow> mem_get us 0;
       n \<leftarrow> zsl_nodes zsl x;
       g \<leftarrow> gte n;
       Some (if g then Some x else None) } }"

abbreviation gte_score :: "('s :: linorder) zrangespec \<Rightarrow> 's zskiplistNode \<Rightarrow> bool option" where
  "gte_score spec \<equiv> \<lambda>n. Some (zslValueGteMin (zn_score n) spec)"

abbreviation lte_score :: "('s :: linorder) zrangespec \<Rightarrow> 's zskiplistNode \<Rightarrow> bool option" where
  "lte_score spec \<equiv> \<lambda>n. Some (zslValueLteMax (zn_score n) spec)"

definition zslIsInRange :: "('s :: linorder) zskiplist \<Rightarrow> 's zrangespec \<Rightarrow> bool option" where
  "zslIsInRange zsl spec = in_range
     (Some (zr_min spec > zr_max spec \<or> zr_min spec = zr_max spec \<and> (zr_minex spec \<or> zr_maxex spec)))
     (gte_score spec) (lte_score spec) zsl"

definition zslFirstInRange :: "('s :: linorder) zskiplist \<Rightarrow> 's zrangespec \<Rightarrow> nat option option" where
  "zslFirstInRange zsl spec = range_first (zslIsInRange zsl spec) (gte_score spec) (lte_score spec) zsl"

definition zslLastInRange :: "('s :: linorder) zskiplist \<Rightarrow> 's zrangespec \<Rightarrow> nat option option" where
  "zslLastInRange zsl spec = range_last (zslIsInRange zsl spec) (gte_score spec) (lte_score spec) zsl"

abbreviation gte_lex :: "(nat \<Rightarrow> byte) \<Rightarrow> zlexrangespec \<Rightarrow> 's zskiplistNode \<Rightarrow> bool option" where
  "gte_lex garb spec \<equiv> \<lambda>n. do { ob \<leftarrow> zn_obj n; zslLexValueGteMin garb ob spec }"

abbreviation lte_lex :: "(nat \<Rightarrow> byte) \<Rightarrow> zlexrangespec \<Rightarrow> 's zskiplistNode \<Rightarrow> bool option" where
  "lte_lex garb spec \<equiv> \<lambda>n. do { ob \<leftarrow> zn_obj n; zslLexValueLteMax garb ob spec }"

definition lex_empty :: "(nat \<Rightarrow> byte) \<Rightarrow> zlexrangespec \<Rightarrow> bool option" where
  "lex_empty garb spec = do {
     c \<leftarrow> compareStringObjectsForLexRange garb (zl_min spec) (zl_max spec);
     if c > 1 then Some True
     else do {
       a \<leftarrow> lex_object garb (zl_min spec);
       b \<leftarrow> lex_object garb (zl_max spec);
       c \<leftarrow> compareStringObjects garb a b;
       Some (c = 0 \<and> (zl_minex spec \<or> zl_maxex spec)) } }"

definition zslIsInLexRange :: "(nat \<Rightarrow> byte) \<Rightarrow> 's zskiplist \<Rightarrow> zlexrangespec \<Rightarrow> bool option" where
  "zslIsInLexRange garb zsl spec = in_range (lex_empty garb spec) (gte_lex garb spec) (lte_lex garb spec) zsl"

definition zslFirstInLexRange :: "(nat \<Rightarrow> byte) \<Rightarrow> 's zskiplist \<Rightarrow> zlexrangespec \<Rightarrow> nat option option" where
  "zslFirstInLexRange garb zsl spec = range_first (zslIsInLexRange garb zsl spec) (gte_lex garb spec) (lte_lex garb spec) zsl"

definition zslLastInLexRange :: "(nat \<Rightarrow> byte) \<Rightarrow> 's zskiplist \<Rightarrow> zlexrangespec \<Rightarrow> nat option option" where
  "zslLastInLexRange garb zsl spec = range_last (zslIsInLexRange garb zsl spec) (gte_lex garb spec) (lte_lex garb spec) zsl"

section \<open>Deletion of a range\<close>

type_synonym zset_dict = "(byte list, robj \<times> nat) dict"

text \<open>The loop of the three deletions: \<open>go\<close> is its condition, \<open>rank\<close> the counter of the one by rank.\<close>

partial_function (option) delete_loop ::
  "(nat \<Rightarrow> byte) \<Rightarrow> ('s zskiplistNode \<Rightarrow> nat \<Rightarrow> bool option) \<Rightarrow> (nat \<times> nat) list \<Rightarrow> 's zskiplist \<Rightarrow> zset_dict \<Rightarrow> nat option \<Rightarrow> nat \<Rightarrow> nat \<Rightarrow>
   ('s zskiplist \<times> zset_dict \<times> nat) option" where
  "delete_loop garb go us zsl d x rank removed = (case x of
     None \<Rightarrow> Some (zsl, d, removed)
   | Some x \<Rightarrow> do {
       n \<leftarrow> zsl_nodes zsl x;
       b \<leftarrow> go n rank;
       if b then do {
         (next, _) \<leftarrow> get_level (zsl_nodes zsl) x 0;
         zsl \<leftarrow> zslDeleteNode zsl x us;
         n \<leftarrow> zsl_nodes zsl x;
         ob \<leftarrow> zn_obj n;
         k \<leftarrow> set_key garb ob;
         (d, _) \<leftarrow> dictDelete d k;
         delete_loop garb go us (zsl\<lparr>zsl_nodes := zslFreeNode (zsl_nodes zsl) x\<rparr>) d next (u64 (rank + 1)) (u64 (removed + 1)) }
       else Some (zsl, d, removed) })"

definition delete_range ::
  "(nat \<Rightarrow> byte) \<Rightarrow> ('s zskiplistNode \<Rightarrow> nat \<Rightarrow> bool option) \<Rightarrow> ('s zskiplistNode \<Rightarrow> nat \<Rightarrow> bool option) \<Rightarrow> 's zskiplist \<Rightarrow> zset_dict \<Rightarrow>
   ('s zskiplist \<times> zset_dict \<times> nat) option" where
  "delete_range garb skip go zsl d = do {
     us \<leftarrow> zsl_search u64 skip (zsl_nodes zsl) (zsl_level zsl) (zsl_header zsl) 0;
     (u, traversed) \<leftarrow> mem_get us 0;
     (x, _) \<leftarrow> get_level (zsl_nodes zsl) u 0;
     delete_loop garb go us zsl d x (u64 (traversed + 1)) 0 }"

definition zslDeleteRangeByScore ::
  "(nat \<Rightarrow> byte) \<Rightarrow> ('s :: linorder) zskiplist \<Rightarrow> 's zrangespec \<Rightarrow> zset_dict \<Rightarrow> ('s zskiplist \<times> zset_dict \<times> nat) option" where
  "zslDeleteRangeByScore garb zsl spec d = delete_range garb
     (\<lambda>n r. Some (if zr_minex spec then zn_score n \<le> zr_min spec else zn_score n < zr_min spec))
     (\<lambda>n r. Some (if zr_maxex spec then zn_score n < zr_max spec else zn_score n \<le> zr_max spec)) zsl d"

definition zslDeleteRangeByLex ::
  "(nat \<Rightarrow> byte) \<Rightarrow> 's zskiplist \<Rightarrow> zlexrangespec \<Rightarrow> zset_dict \<Rightarrow> ('s zskiplist \<times> zset_dict \<times> nat) option" where
  "zslDeleteRangeByLex garb zsl spec d = delete_range garb
     (\<lambda>n r. map_option Not (gte_lex garb spec n)) (\<lambda>n r. lte_lex garb spec n) zsl d"

definition zslDeleteRangeByRank ::
  "(nat \<Rightarrow> byte) \<Rightarrow> 's zskiplist \<Rightarrow> nat \<Rightarrow> nat \<Rightarrow> zset_dict \<Rightarrow> ('s zskiplist \<times> zset_dict \<times> nat) option" where
  "zslDeleteRangeByRank garb zsl start stop d = delete_range garb (\<lambda>n r. Some (r < start)) (\<lambda>n r. Some (r \<le> stop)) zsl d"

section \<open>First and last element: correctness\<close>

text \<open>A predicate on elements that a test on nodes decides.\<close>

definition decides :: "('s zskiplistNode \<Rightarrow> bool option) \<Rightarrow> ('s elem \<Rightarrow> bool) \<Rightarrow> 's elem list \<Rightarrow> bool" where
  "decides t P xs \<longleftrightarrow> (\<forall>e \<in> set xs. \<forall>n. is_node e n \<longrightarrow> t n = Some (P e))"

lemma in_range_ok:
  assumes shape: "zsl_shape zsl xs" and gte: "decides gte G xs" and lte: "decides lte H xs"
  shows "in_range (Some b) gte lte zsl = Some (\<not> b \<and> xs \<noteq> [] \<and> G (last xs) \<and> H (hd xs))"
proof (cases "xs = []")
  case True
  then show ?thesis using shape by (simp add: in_range_def zsl_shape_def last_back_def)
next
  case False
  have t: "zsl_tail zsl = Some (el_addr (last xs))" using shape False by (simp add: zsl_shape_def last_back_def)
  obtain n where n: "zsl_nodes zsl (el_addr (last xs)) = Some n" "is_node (last xs) n" using shape_node [OF shape, of "last xs"] False by auto
  obtain m where m: "zsl_nodes zsl (el_addr (hd xs)) = Some m" "is_node (hd xs) m" using shape_node [OF shape, of "hd xs"] False by auto
  have "splits (\<lambda>n r. Some False) [] xs" by (simp add: splits_def)
  then have "get_level (zsl_nodes zsl) (zsl_header zsl) 0 = Some (Some (el_addr (hd xs)), spn 0 xs)"
    using search_at(3) [of zsl "[]" xs _ "\<lambda>k. k"] shape False by (simp add: nd_def)
  moreover have "gte n = Some (G (last xs))" "lte m = Some (H (hd xs))" using gte lte n(2) m(2) False by (auto simp: decides_def)
  ultimately show ?thesis using t n(1) m(1) False by (simp add: in_range_def)
qed

lemma find_skip: "\<forall>x \<in> set A. \<not> P x \<Longrightarrow> find P (A @ B) = find P B"
  by (induction A) auto

lemma range_none:
  assumes sorted: "sorted_wrt r xs" and up: "\<And>x y. r x y \<Longrightarrow> G x \<Longrightarrow> G y" and down: "\<And>x y. r x y \<Longrightarrow> H y \<Longrightarrow> H x"
    and none: "b \<Longrightarrow> \<forall>e \<in> set xs. \<not> (G e \<and> H e)" and out: "\<not> (\<not> b \<and> xs \<noteq> [] \<and> G (last xs) \<and> H (hd xs))"
  shows "\<forall>e \<in> set xs. \<not> (G e \<and> H e)"
proof (intro ballI notI)
  fix e assume e: "e \<in> set xs" and gh: "G e \<and> H e"
  then have "\<not> b" "xs \<noteq> []" using none by auto
  moreover have "G (last xs)"
  proof (cases xs rule: rev_cases)
    case (snoc ys y)
    then show ?thesis using e gh sorted up by (auto simp: sorted_wrt_append)
  qed (use e in simp)
  moreover have "H (hd xs)" using e gh sorted down by (cases xs) auto
  ultimately show False using out by simp
qed

lemma range_first_ok:
  assumes shape: "zsl_shape zsl xs" and gte: "decides gte G xs" and lte: "decides lte H xs" and sorted: "sorted_wrt r xs"
    and up: "\<And>x y. r x y \<Longrightarrow> G x \<Longrightarrow> G y" and down: "\<And>x y. r x y \<Longrightarrow> H y \<Longrightarrow> H x"
    and none: "b \<Longrightarrow> \<forall>e \<in> set xs. \<not> (G e \<and> H e)"
  shows "range_first (in_range (Some b) gte lte zsl) gte lte zsl = Some (map_option el_addr (find (\<lambda>e. G e \<and> H e) xs))"
proof (cases "\<not> b \<and> xs \<noteq> [] \<and> G (last xs) \<and> H (hd xs)")
  case False
  have "\<forall>e \<in> set xs. \<not> (G e \<and> H e)" by (rule range_none [of r xs G H b]) (fact sorted, fact up, fact down, fact none, fact False)
  then have "find (\<lambda>e. G e \<and> H e) xs = None" by (simp add: find_None_iff)
  then show ?thesis using in_range_ok [OF shape gte lte, of b] False by (simp add: range_first_def)
next
  case True
  let ?L = "filter (\<lambda>e. \<not> G e) xs" and ?R = "filter G xs"
  have xs: "?L @ ?R = xs" using split_down [OF sorted, of "\<lambda>e. \<not> G e"] up by auto
  have "splits (\<lambda>n r. map_option Not (gte n)) ?L (filter (\<lambda>e. \<not> \<not> G e) xs)"
    by (rule splits_pred [OF sorted]) (use up gte in \<open>auto simp: decides_def\<close>)
  then have go: "splits (\<lambda>n r. map_option Not (gte n)) ?L ?R" by simp
  have sh: "zsl_shape zsl (?L @ ?R)" "length xs < 2 ^ 32" using shape unfolding xs by (auto simp: zsl_shape_def)
  have small: "u64 k = k" if "k \<le> length (?L @ ?R)" for k using sh(2) that unfolding xs by simp
  note srch = search_at [OF sh(1) go small]
  have "last xs \<in> set ?R" using True by simp
  then obtain e R where R: "?R = e # R" by (cases ?R) auto
  then have e: "G e" "e \<in> set xs" by (auto simp: filter_eq_Cons_iff)
  obtain n where n: "zsl_nodes zsl (el_addr e) = Some n" "lte n = Some (H e)" using shape_node [OF shape e(2)] lte e(2) by (auto simp: decides_def)
  have "find (\<lambda>e. G e \<and> H e) xs = (if H e then Some e else None)"
  proof -
    have "find (\<lambda>e. G e \<and> H e) xs = find (\<lambda>e. G e \<and> H e) (?L @ e # R)" using xs R by simp
    also have "\<dots> = find (\<lambda>e. G e \<and> H e) (e # R)" by (rule find_skip) auto
    also have "\<dots> = (if H e then Some e else None)"
    proof -
      have "sorted_wrt r (e # R)" using sorted_wrt_filter [OF sorted, of G] R by simp
      then have "\<not> H e \<Longrightarrow> find (\<lambda>e. G e \<and> H e) R = None" using down by (auto simp: find_None_iff)
      then show ?thesis using e(1) by auto
    qed
    finally show ?thesis .
  qed
  then show ?thesis using in_range_ok [OF shape gte lte, of b] True srch R n by (simp add: range_first_def)
qed

lemma range_last_ok:
  assumes shape: "zsl_shape zsl xs" and gte: "decides gte G xs" and lte: "decides lte H xs" and sorted: "sorted_wrt r xs"
    and up: "\<And>x y. r x y \<Longrightarrow> G x \<Longrightarrow> G y" and down: "\<And>x y. r x y \<Longrightarrow> H y \<Longrightarrow> H x"
    and none: "b \<Longrightarrow> \<forall>e \<in> set xs. \<not> (G e \<and> H e)"
  shows "range_last (in_range (Some b) gte lte zsl) gte lte zsl = Some (map_option el_addr (find (\<lambda>e. G e \<and> H e) (rev xs)))"
proof (cases "\<not> b \<and> xs \<noteq> [] \<and> G (last xs) \<and> H (hd xs)")
  case False
  have "\<forall>e \<in> set xs. \<not> (G e \<and> H e)" by (rule range_none [of r xs G H b]) (fact sorted, fact up, fact down, fact none, fact False)
  then have "find (\<lambda>e. G e \<and> H e) (rev xs) = None" by (simp add: find_None_iff)
  then show ?thesis using in_range_ok [OF shape gte lte, of b] False by (simp add: range_last_def)
next
  case True
  let ?L = "filter H xs" and ?R = "filter (\<lambda>e. \<not> H e) xs"
  have xs: "?L @ ?R = xs" using split_down [OF sorted, of H] down by auto
  have go: "splits (\<lambda>n r. lte n) ?L ?R"
    by (rule splits_pred [OF sorted]) (use down lte in \<open>auto simp: decides_def\<close>)
  have sh: "zsl_shape zsl (?L @ ?R)" "length xs < 2 ^ 32" using shape unfolding xs by (auto simp: zsl_shape_def)
  have small: "u64 k = k" if "k \<le> length (?L @ ?R)" for k using sh(2) that unfolding xs by simp
  note srch = search_at [OF sh(1) go small]
  have "hd xs \<in> set ?L" using True by simp
  then obtain L e where L: "?L = L @ [e]" by (cases ?L rule: rev_cases) auto
  then have "e \<in> set ?L" by simp
  then have e: "H e" "e \<in> set xs" by auto
  obtain n where n: "zsl_nodes zsl (el_addr e) = Some n" "gte n = Some (G e)" using shape_node [OF shape e(2)] gte e(2) by (auto simp: decides_def)
  have "find (\<lambda>e. G e \<and> H e) (rev xs) = (if G e then Some e else None)"
  proof -
    have "find (\<lambda>e. G e \<and> H e) (rev xs) = find (\<lambda>e. G e \<and> H e) (rev ?R @ e # rev L)" using arg_cong [OF xs, of rev] L by simp
    also have "\<dots> = find (\<lambda>e. G e \<and> H e) (e # rev L)" by (rule find_skip) auto
    also have "\<dots> = (if G e then Some e else None)"
    proof -
      have "sorted_wrt r (L @ [e])" using sorted_wrt_filter [OF sorted, of H] L by simp
      then have "\<not> G e \<Longrightarrow> find (\<lambda>e. G e \<and> H e) (rev L) = None" using up by (auto simp: find_None_iff sorted_wrt_append)
      then show ?thesis using e(1) by auto
    qed
    finally show ?thesis .
  qed
  then show ?thesis using in_range_ok [OF shape gte lte, of b] True srch L n by (simp add: range_last_def nd_def)
qed

theorem zslRange_ok:
  fixes zsl :: "('s :: linorder) zskiplist" and spec :: "'s zrangespec"
  assumes "zsl_ok zsl xs"
  defines "P \<equiv> \<lambda>e. zslValueGteMin (el_score e) spec \<and> zslValueLteMax (el_score e) spec"
  shows "zslFirstInRange zsl spec = Some (map_option el_addr (find P xs))" "zslLastInRange zsl spec = Some (map_option el_addr (find P (rev xs)))"
proof -
  let ?b = "zr_min spec > zr_max spec \<or> zr_min spec = zr_max spec \<and> (zr_minex spec \<or> zr_maxex spec)"
  have st: "zsl_shape zsl xs" "sorted_wrt (\<lambda>x y. zless (zkey x) (zkey y)) xs" using assms(1) by (auto simp: zsl_ok_def zsorted_def)
  have d: "decides (gte_score spec) (\<lambda>e. zslValueGteMin (el_score e) spec) xs" "decides (lte_score spec) (\<lambda>e. zslValueLteMax (el_score e) spec) xs"
    by (auto simp: decides_def is_node_def)
  have mono: "zslValueGteMin (el_score x) spec \<Longrightarrow> zslValueGteMin (el_score y) spec" "zslValueLteMax (el_score y) spec \<Longrightarrow> zslValueLteMax (el_score x) spec"
    if "zless (zkey x) (zkey y)" for x y :: "'s elem"
    using that by (auto simp: zkey_def zslValueGteMin_def zslValueLteMax_def split: if_splits)
  have none: "\<forall>e \<in> set xs. \<not> (zslValueGteMin (el_score e) spec \<and> zslValueLteMax (el_score e) spec)" if ?b
    using that by (auto simp: zslValueGteMin_def zslValueLteMax_def split: if_splits)
  show "zslFirstInRange zsl spec = Some (map_option el_addr (find P xs))"
    unfolding zslFirstInRange_def zslIsInRange_def P_def by (rule range_first_ok [OF st(1) d st(2) mono none])
  show "zslLastInRange zsl spec = Some (map_option el_addr (find P (rev xs)))"
    unfolding zslLastInRange_def zslIsInRange_def P_def by (rule range_last_ok [OF st(1) d st(2) mono none])
qed

section \<open>Deletion of a range: correctness\<close>

lemma delete_loop_ok:
  assumes "\<forall>A e B n. D = A @ e # B \<and> is_node e n \<longrightarrow> go n (c + length A) = Some True" "\<forall>e B n. E = e # B \<and> is_node e n \<longrightarrow> go n (c + length D) = Some False"
    "zsl_shape zsl (L @ D @ E)" "\<forall>e \<in> set D. string_wf (el_obj e)" "plain_inv d" "c + length D < 2 ^ 33" "k + length D < 2 ^ 33"
    "\<forall>i < zsl_level zsl. \<exists>r. mem_get us i = Some (nd (zsl_header zsl) (tall i L), r)"
  shows "\<exists>zsl' d'. delete_loop garb go us zsl d (if D @ E = [] then None else Some (el_addr (hd (D @ E)))) c k = Some (zsl', d', k + length D) \<and>
    zsl_shape zsl' (L @ E) \<and> zsl_header zsl' = zsl_header zsl \<and> plain_inv d' \<and> dict_abs d' = dict_abs d |` (- el_str ` set D)"
  using assms
proof (induction D arbitrary: zsl d c k)
  case Nil
  show ?case
  proof (cases E)
    case Nil
    then show ?thesis using Nil.prems by (auto simp: delete_loop.simps)
  next
    case (Cons e B)
    obtain n where "zsl_nodes zsl (el_addr e) = Some n" "is_node e n" using shape_node [OF Nil.prems(3), of e] Cons by auto
    then show ?thesis using Nil.prems Cons by (auto simp: delete_loop.simps)
  qed
next
  case (Cons e D)
  obtain n where n: "zsl_nodes zsl (el_addr e) = Some n" "is_node e n" using shape_node [OF Cons.prems(3), of e] by auto
  have go: "go n c = Some True" using Cons.prems(1) n(2) by (auto dest: spec [where x = "[]"])
  have shape: "zsl_shape zsl ((L @ [e]) @ D @ E)" using Cons.prems(3) by simp
  have "splits (\<lambda>n r. Some (r \<le> Suc (length L))) (L @ [e]) (D @ E)"
  proof -
    have "length A \<le> length L" if "L @ [e] = A @ f # B" for A f B using arg_cong [OF that, of length] by simp
    then show ?thesis by (auto simp: splits_def)
  qed
  from search_at(3) [OF shape this, of "\<lambda>k. k"] have nx:
    "get_level (zsl_nodes zsl) (el_addr e) 0 = Some (if D @ E = [] then None else Some (el_addr (hd (D @ E))), spn 0 (D @ E))" by (simp add: nd_def)
  obtain z where z: "zslDeleteNode zsl (el_addr e) us = Some z" "zsl_shape (z\<lparr>zsl_nodes := zslFreeNode (zsl_nodes z) (el_addr e)\<rparr>) (L @ D @ E)"
    "zsl_header z = zsl_header zsl" "zsl_level z \<le> zsl_level zsl" "\<exists>n. zsl_nodes z (el_addr e) = Some n \<and> is_node e n"
    using zslDeleteNode_shape [of zsl L e "D @ E" us] Cons.prems(3,8) by auto
  obtain m where m: "zsl_nodes z (el_addr e) = Some m" "zn_obj m = Some (el_obj e)" using z(5) by (auto simp: is_node_def)
  have key: "set_key garb (el_obj e) = Some (str_val (el_obj e))" using Cons.prems(4) by (simp add: set_key_correct)
  obtain d1 b where d1: "dictDelete d (str_val (el_obj e)) = Some (d1, b)" "plain_inv d1" "dict_abs d1 = (dict_abs d)(str_val (el_obj e) := None)"
    using plain_delete [OF Cons.prems(5)] by blast
  let ?z = "z\<lparr>zsl_nodes := zslFreeNode (zsl_nodes z) (el_addr e)\<rparr>"
  have go': "\<forall>A f B n. D = A @ f # B \<and> is_node f n \<longrightarrow> go n (Suc c + length A) = Some True"
    using Cons.prems(1) by (metis add_Suc_shift append_Cons length_Cons)
  obtain z' d' where r: "delete_loop garb go us ?z d1 (if D @ E = [] then None else Some (el_addr (hd (D @ E)))) (Suc c) (Suc k) = Some (z', d', Suc k + length D)"
    "zsl_shape z' (L @ E)" "zsl_header z' = zsl_header ?z" "plain_inv d'" "dict_abs d' = dict_abs d1 |` (- el_str ` set D)"
    using Cons.IH [OF go', of ?z d1 "Suc k"] Cons.prems(2,4,6,7,8) z(2,3,4) d1(2) by auto
  have "delete_loop garb go us zsl d (Some (el_addr e)) c k = delete_loop garb go us ?z d1 (if D @ E = [] then None else Some (el_addr (hd (D @ E)))) (Suc c) (Suc k)"
    using n(1) go nx z(1) m key d1(1) Cons.prems(6,7) by (subst delete_loop.simps) simp
  moreover have "dict_abs d' = dict_abs d |` (- el_str ` set (e # D))" unfolding r(5) d1(3) by (auto simp: restrict_map_def fun_eq_iff)
  ultimately show ?case using r z(3) by simp
qed

lemma delete_range_ok:
  assumes "splits skip L (D @ E)" "\<forall>A e B n. D = A @ e # B \<and> is_node e n \<longrightarrow> go n (Suc (length L + length A)) = Some True"
    "\<forall>e B n. E = e # B \<and> is_node e n \<longrightarrow> go n (Suc (length L + length D)) = Some False"
    "zsl_ok zsl (L @ D @ E)" "plain_inv d"
  shows "\<exists>zsl' d'. delete_range garb skip go zsl d = Some (zsl', d', length D) \<and> zsl_ok zsl' (L @ E) \<and> zsl_header zsl' = zsl_header zsl \<and>
    plain_inv d' \<and> dict_abs d' = dict_abs d |` (- el_str ` set D)"
proof -
  let ?us = "arrays (zsl_header zsl) L (zsl_level zsl)"
  have st: "zsl_shape zsl (L @ D @ E)" "length (L @ D @ E) < 2 ^ 32" "zsorted (L @ D @ E)" "\<forall>e \<in> set (L @ D @ E). string_wf (el_obj e)"
    using assms(4) by (auto simp: zsl_ok_def zsl_shape_def)
  have small: "u64 k = k" if "k \<le> length (L @ D @ E)" for k using st(2) that by simp
  note srch = search_at [OF st(1) assms(1) small]
  have us: "\<forall>i < zsl_level zsl. \<exists>r. mem_get ?us i = Some (nd (zsl_header zsl) (tall i L), r)" using get_arrays by blast
  obtain zsl' d' where l: "delete_loop garb go ?us zsl d (if D @ E = [] then None else Some (el_addr (hd (D @ E)))) (Suc (length L)) 0 = Some (zsl', d', 0 + length D)"
    "zsl_shape zsl' (L @ E)" "zsl_header zsl' = zsl_header zsl" "plain_inv d'" "dict_abs d' = dict_abs d |` (- el_str ` set D)"
    using delete_loop_ok [of D go "Suc (length L)" E zsl L d 0 ?us garb, OF _ _ st(1) _ assms(5) _ _ us] assms(2,3) st(2,4) by auto
  have "delete_range garb skip go zsl d = Some (zsl', d', length D)" using srch l(1) st(2) by (simp add: delete_range_def)
  moreover have "zsorted (L @ E)" using st(3) by (auto simp: zsorted_def sorted_wrt_append)
  ultimately show ?thesis using l st(4) by (auto simp: zsl_ok_def)
qed

text \<open>The deletions whose limits are predicates on elements.\<close>

lemma delete_range_pred:
  assumes ok: "zsl_ok zsl xs" "plain_inv d" and gte: "decides gte G xs" and lte: "decides lte H xs"
    and up: "\<And>x y. x \<in> set xs \<Longrightarrow> y \<in> set xs \<Longrightarrow> zless (zkey x) (zkey y) \<Longrightarrow> G x \<Longrightarrow> G y"
    and down: "\<And>x y. x \<in> set xs \<Longrightarrow> y \<in> set xs \<Longrightarrow> zless (zkey x) (zkey y) \<Longrightarrow> H y \<Longrightarrow> H x"
  defines "P \<equiv> \<lambda>e. G e \<and> H e"
  shows "\<exists>zsl' d'. delete_range garb (\<lambda>n r. map_option Not (gte n)) (\<lambda>n r. lte n) zsl d = Some (zsl', d', length (filter P xs)) \<and>
    zsl_ok zsl' (filter (\<lambda>e. \<not> P e) xs) \<and> zsl_header zsl' = zsl_header zsl \<and> plain_inv d' \<and> dict_abs d' = dict_abs d |` (- el_str ` set (filter P xs))"
proof -
  let ?L = "filter (\<lambda>e. \<not> G e) xs" and ?D = "filter P xs" and ?E = "filter (\<lambda>e. G e \<and> \<not> H e) xs"
  define r where "r = (\<lambda>x y. x \<in> set xs \<and> y \<in> set xs \<and> zless (zkey x) (zkey y))"
  have sorted: "sorted_wrt r xs"
    using ok(1) unfolding zsl_ok_def zsorted_def r_def by (auto intro: sorted_wrt_mono_rel [rotated])
  have L: "?L @ filter G xs = xs" using split_down [OF sorted, of "\<lambda>e. \<not> G e"] up by (auto simp: r_def)
  have "filter H (filter G xs) @ filter (\<lambda>e. \<not> H e) (filter G xs) = filter G xs"
    by (rule split_down [OF sorted_wrt_filter [OF sorted]]) (use down in \<open>auto simp: r_def\<close>)
  then have DE: "?D @ ?E = filter G xs" by (simp add: P_def conj_commute)
  have xs: "?L @ ?D @ ?E = xs" using L DE by simp
  have "splits (\<lambda>n r. map_option Not (gte n)) ?L (filter (\<lambda>e. \<not> \<not> G e) xs)"
    by (rule splits_pred [OF sorted]) (use up gte in \<open>auto simp: decides_def r_def\<close>)
  then have skip: "splits (\<lambda>n r. map_option Not (gte n)) ?L (?D @ ?E)" using DE by simp
  have D: "lte n = Some True" if "?D = A @ e # B" "is_node e n" for A e B n
  proof -
    have "e \<in> set ?D" unfolding that(1) by simp
    then show ?thesis using lte that(2) by (auto simp: decides_def P_def)
  qed
  have E: "lte n = Some False" if "?E = e # B" "is_node e n" for e B n
  proof -
    have "e \<in> set ?E" unfolding that(1) by simp
    then show ?thesis using lte that(2) by (auto simp: decides_def)
  qed
  have "filter (\<lambda>e. \<not> P e) xs = ?L @ ?E"
  proof -
    have "filter (\<lambda>e. \<not> P e) ?L = ?L" by (rule filter_True) (simp add: P_def)
    moreover have "filter (\<lambda>e. \<not> P e) ?D = []" by (rule filter_False) simp
    moreover have "filter (\<lambda>e. \<not> P e) ?E = ?E" by (rule filter_True) (simp add: P_def)
    ultimately have "filter (\<lambda>e. \<not> P e) (?L @ ?D @ ?E) = ?L @ ?E" by (simp only: filter_append append_Nil)
    then show ?thesis using xs by simp
  qed
  then show ?thesis using delete_range_ok [OF skip, of "\<lambda>n r. lte n" zsl d garb] D E ok xs by auto
qed

theorem zslDeleteRangeByScore_ok:
  fixes zsl :: "('s :: linorder) zskiplist" and spec :: "'s zrangespec"
  assumes "zsl_ok zsl xs" "plain_inv d"
  defines "P \<equiv> \<lambda>e. zslValueGteMin (el_score e) spec \<and> zslValueLteMax (el_score e) spec"
  shows "\<exists>zsl' d'. zslDeleteRangeByScore garb zsl spec d = Some (zsl', d', length (filter P xs)) \<and>
    zsl_ok zsl' (filter (\<lambda>e. \<not> P e) xs) \<and> zsl_header zsl' = zsl_header zsl \<and> plain_inv d' \<and> dict_abs d' = dict_abs d |` (- el_str ` set (filter P xs))"
proof -
  have "(\<lambda>n :: 's zskiplistNode. \<lambda>r :: nat. Some (if zr_minex spec then zn_score n \<le> zr_min spec else zn_score n < zr_min spec)) =
      (\<lambda>n r. map_option Not (gte_score spec n))" "(\<lambda>n :: 's zskiplistNode. \<lambda>r :: nat. Some (if zr_maxex spec then zn_score n < zr_max spec else zn_score n \<le> zr_max spec)) =
      (\<lambda>n r. lte_score spec n)"
    by (auto simp: fun_eq_iff zslValueGteMin_def zslValueLteMax_def)
  then show ?thesis unfolding zslDeleteRangeByScore_def P_def
    by (simp only:) (rule delete_range_pred [OF assms(1,2)];
      auto simp: decides_def is_node_def zkey_def zslValueGteMin_def zslValueLteMax_def split: if_splits)
qed

theorem zslDeleteRangeByRank_ok:
  fixes start stop :: nat
  assumes "zsl_ok zsl xs" "plain_inv d" "1 \<le> start"
  defines "D \<equiv> take (Suc stop - start) (drop (start - 1) xs)"
  shows "\<exists>zsl' d'. zslDeleteRangeByRank garb zsl start stop d = Some (zsl', d', length D) \<and>
    zsl_ok zsl' (take (start - 1) xs @ drop (max stop (start - 1)) xs) \<and> zsl_header zsl' = zsl_header zsl \<and>
    plain_inv d' \<and> dict_abs d' = dict_abs d |` (- el_str ` set D)"
proof -
  let ?L = "take (start - 1) xs" and ?E = "drop (Suc stop - start) (drop (start - 1) xs)"
  have xs: "?L @ D @ ?E = xs" unfolding D_def by (simp only: append_take_drop_id)
  have E: "?E = drop (max stop (start - 1)) xs" using assms(3) by (auto simp: max_def)
  have "splits (\<lambda>n r. Some (r < start)) ?L (D @ ?E)"
  proof -
    have "Suc (length A) < start" if "?L = A @ e # B" for A e B using arg_cong [OF that, of length] assms(3) by auto
    moreover have "length ?L = start - 1" if "D @ ?E = A @ e # B" for A e B using arg_cong [OF that, of length] xs by (auto simp: D_def)
    ultimately show ?thesis using assms(3) unfolding splits_def by fastforce
  qed
  moreover have "Suc (length ?L + length A) \<le> stop" if "D = A @ e # B" for A e B
    using arg_cong [OF that, of length] assms(3) by (auto simp: D_def)
  moreover have "\<not> Suc (length ?L + length D) \<le> stop" if "?E = e # B" for e B
    using arg_cong [OF that, of length] assms(3) by (auto simp: D_def)
  ultimately show ?thesis unfolding zslDeleteRangeByRank_def E [symmetric]
    using delete_range_ok [of _ ?L D ?E "\<lambda>n r. Some (r \<le> stop)" zsl d garb] assms(1,2) xs by auto
qed

end
