(* ===== verification/Skiplist_Lex.thy ===== *)
theory Skiplist_Lex
  imports Skiplist_Range
begin

text \<open>
  Lexicographic ranges, for sorted sets whose elements have the same score. The functions find the first and last element of the range and delete it, but
  for one thing: the test for empty ranges compares the contents of the shared objects that stand for the ends of the order.
\<close>

definition lex_ge :: "zlexrangespec \<Rightarrow> byte list \<Rightarrow> bool" where
  "lex_ge spec b = (case zl_min spec of MinString \<Rightarrow> True | MaxString \<Rightarrow> False
     | LexObj ob \<Rightarrow> if zl_minex spec then bytes_less (str_val ob) b else \<not> bytes_less b (str_val ob))"

definition lex_le :: "zlexrangespec \<Rightarrow> byte list \<Rightarrow> bool" where
  "lex_le spec b = (case zl_max spec of MaxString \<Rightarrow> True | MinString \<Rightarrow> False
     | LexObj ob \<Rightarrow> if zl_maxex spec then bytes_less b (str_val ob) else \<not> bytes_less (str_val ob) b)"

primrec item_wf :: "lexitem \<Rightarrow> bool" where
  "item_wf MinString = True"
| "item_wf MaxString = True"
| "item_wf (LexObj ob) = string_wf ob"

definition lex_wf :: "zlexrangespec \<Rightarrow> bool" where
  "lex_wf spec \<longleftrightarrow> item_wf (zl_min spec) \<and> item_wf (zl_max spec)"

text \<open>The ranges for which the test for emptiness is wrong.\<close>

definition misjudged :: "zlexrangespec \<Rightarrow> bool" where
  "misjudged spec \<longleftrightarrow> (zl_minex spec \<or> zl_maxex spec) \<and>
     ((\<exists>ob. zl_min spec = MinString \<and> zl_max spec = LexObj ob \<and> str_val ob = bytes ''minstring'') \<or>
      (\<exists>ob. zl_max spec = MaxString \<and> zl_min spec = LexObj ob \<and> str_val ob = bytes ''maxstring''))"

lemma lex_tests:
  assumes "lex_wf spec" "string_wf v"
  shows "zslLexValueGteMin garb v spec = Some (lex_ge spec (str_val v))" "zslLexValueLteMax garb v spec = Some (lex_le spec (str_val v))"
proof -
  show "zslLexValueGteMin garb v spec = Some (lex_ge spec (str_val v))"
  proof (cases "zl_min spec")
    case (LexObj ob)
    then obtain c where "compareStringObjects garb v ob = Some c" "(c < 0) = bytes_less (str_val v) (str_val ob)" "(c > 0) = bytes_less (str_val ob) (str_val v)"
      using compareStringObjects_correct [of v ob garb] assms by (auto simp: lex_wf_def)
    then show ?thesis using LexObj by (auto simp: zslLexValueGteMin_def compareStringObjectsForLexRange_def lex_ge_def not_less [symmetric])
  qed (simp_all add: zslLexValueGteMin_def compareStringObjectsForLexRange_def lex_ge_def)
  show "zslLexValueLteMax garb v spec = Some (lex_le spec (str_val v))"
  proof (cases "zl_max spec")
    case (LexObj ob)
    then obtain c where "compareStringObjects garb v ob = Some c" "(c < 0) = bytes_less (str_val v) (str_val ob)" "(c > 0) = bytes_less (str_val ob) (str_val v)"
      using compareStringObjects_correct [of v ob garb] assms by (auto simp: lex_wf_def)
    then show ?thesis using LexObj by (auto simp: zslLexValueLteMax_def compareStringObjectsForLexRange_def lex_le_def not_less [symmetric])
  qed (simp_all add: zslLexValueLteMax_def compareStringObjectsForLexRange_def lex_le_def)
qed

lemma bytes_not_less: "\<not> bytes_less a b \<longleftrightarrow> a = b \<or> bytes_less b a"
  using bytes_less_linear [of a b] bytes_less_irrefl bytes_less_trans by blast

lemma lex_mono: "bytes_less a b \<Longrightarrow> lex_ge spec a \<Longrightarrow> lex_ge spec b" "bytes_less a b \<Longrightarrow> lex_le spec b \<Longrightarrow> lex_le spec a"
  by (auto simp: lex_ge_def lex_le_def bytes_not_less split: lexitem.splits if_splits intro: bytes_less_trans)

lemma lex_object_ok:
  assumes "item_wf it"
  shows "\<exists>ob. lex_object garb it = Some ob \<and> string_wf ob \<and>
    str_val ob = (case it of MinString \<Rightarrow> bytes ''minstring'' | MaxString \<Rightarrow> bytes ''maxstring'' | LexObj ob \<Rightarrow> str_val ob)"
proof (cases it)
  case (LexObj ob)
  then show ?thesis using assms by (simp add: lex_object_def)
qed (use createStringObject_correct [of 9 "bytes ''minstring''" garb] createStringObject_correct [of 9 "bytes ''maxstring''" garb] in
    \<open>auto simp: lex_object_def bytes_def STRING_MAX_def\<close>)

lemma lex_compare_ok:
  assumes "item_wf a" "item_wf b"
  shows "\<exists>c. compareStringObjectsForLexRange garb a b = Some c \<and> (1 < c \<longrightarrow> (\<exists>x y. a = LexObj x \<and> b = LexObj y \<and> bytes_less (str_val y) (str_val x)))"
  using assms compareStringObjects_correct [of _ _ garb]
  by (cases a; cases b) (auto simp: compareStringObjectsForLexRange_def, metis zero_less_one less_trans)

lemma lex_empty_ok:
  assumes "lex_wf spec"
  shows "\<exists>b. lex_empty garb spec = Some b \<and> (b \<and> \<not> misjudged spec \<longrightarrow> (\<forall>v. \<not> (lex_ge spec v \<and> lex_le spec v))) \<and> (misjudged spec \<longrightarrow> b)"
proof -
  have wf: "item_wf (zl_min spec)" "item_wf (zl_max spec)" using assms by (auto simp: lex_wf_def)
  obtain c where c: "compareStringObjectsForLexRange garb (zl_min spec) (zl_max spec) = Some c"
    "1 < c \<longrightarrow> (\<exists>x y. zl_min spec = LexObj x \<and> zl_max spec = LexObj y \<and> bytes_less (str_val y) (str_val x))"
    using lex_compare_ok [OF wf, of garb] by auto
  obtain x y where xy: "lex_object garb (zl_min spec) = Some x" "string_wf x" "lex_object garb (zl_max spec) = Some y" "string_wf y"
    "str_val x = (case zl_min spec of MinString \<Rightarrow> bytes ''minstring'' | MaxString \<Rightarrow> bytes ''maxstring'' | LexObj ob \<Rightarrow> str_val ob)"
    "str_val y = (case zl_max spec of MinString \<Rightarrow> bytes ''minstring'' | MaxString \<Rightarrow> bytes ''maxstring'' | LexObj ob \<Rightarrow> str_val ob)"
    using lex_object_ok [OF wf(1), of garb] lex_object_ok [OF wf(2), of garb] by blast
  obtain k where k: "compareStringObjects garb x y = Some k" "(k = 0) = (str_val x = str_val y)" using compareStringObjects_correct [OF xy(2,4), of garb] by blast
  have neq: "bytes ''minstring'' \<noteq> bytes ''maxstring''" by (simp add: bytes_def)
  show ?thesis
  proof (cases "1 < c")
    case True
    then obtain p q where pq: "zl_min spec = LexObj p" "zl_max spec = LexObj q" "bytes_less (str_val q) (str_val p)" using c(2) by blast
    then have "\<forall>v. \<not> (lex_ge spec v \<and> lex_le spec v)"
      using bytes_less_trans bytes_less_irrefl by (auto simp: lex_ge_def lex_le_def bytes_not_less split: if_splits)
    then show ?thesis using c(1) True by (intro exI [of _ True]) (simp add: lex_empty_def)
  next
    case False
    let ?b = "str_val x = str_val y \<and> (zl_minex spec \<or> zl_maxex spec)"
    have run: "lex_empty garb spec = Some ?b" using c(1) False xy(1,3) k by (simp add: lex_empty_def)
    have "\<not> (lex_ge spec v \<and> lex_le spec v)" if "?b" "\<not> misjudged spec" for v
      using that xy(5,6) neq bytes_less_irrefl bytes_less_trans
      by (auto simp: lex_ge_def lex_le_def misjudged_def bytes_not_less split: lexitem.splits if_splits) (metis bytes_less_irrefl bytes_less_trans)+
    moreover have "misjudged spec \<Longrightarrow> ?b" using xy(5,6) by (auto simp: misjudged_def)
    ultimately show ?thesis using run by blast
  qed
qed

lemma same_score_less: "\<forall>e \<in> set xs. el_score e = s \<Longrightarrow> x \<in> set xs \<Longrightarrow> y \<in> set xs \<Longrightarrow> zless (zkey x) (zkey y) \<Longrightarrow> bytes_less (el_str x) (el_str y)"
  by (auto simp: zkey_def)

lemma lex_decides:
  assumes "lex_wf spec" "\<forall>e \<in> set xs. string_wf (el_obj e)"
  shows "decides (gte_lex garb spec) (\<lambda>e. lex_ge spec (el_str e)) xs" "decides (lte_lex garb spec) (\<lambda>e. lex_le spec (el_str e)) xs"
  using lex_tests [OF assms(1)] assms(2) by (auto simp: decides_def is_node_def)

theorem zslLexRange_ok:
  fixes zsl :: "('s :: linorder) zskiplist" and spec :: zlexrangespec
  assumes ok: "zsl_ok zsl xs" and same: "\<forall>e \<in> set xs. el_score e = s" and wf: "lex_wf spec"
  defines "P \<equiv> \<lambda>e :: 's elem. lex_ge spec (el_str e) \<and> lex_le spec (el_str e)"
  shows "\<not> misjudged spec \<Longrightarrow> zslFirstInLexRange garb zsl spec = Some (map_option el_addr (find P xs))"
    "\<not> misjudged spec \<Longrightarrow> zslLastInLexRange garb zsl spec = Some (map_option el_addr (find P (rev xs)))"
    "misjudged spec \<Longrightarrow> zslFirstInLexRange garb zsl spec = Some None"
proof -
  define r where "r = (\<lambda>x y. x \<in> set xs \<and> y \<in> set xs \<and> zless (zkey x) (zkey y))"
  have st: "zsl_shape zsl xs" "sorted_wrt r xs" "\<forall>e \<in> set xs. string_wf (el_obj e)"
    using ok by (auto simp: zsl_ok_def zsorted_def r_def intro: sorted_wrt_mono_rel [rotated])
  note d = lex_decides [OF wf st(3), of garb]
  have mono: "lex_ge spec (el_str x) \<Longrightarrow> lex_ge spec (el_str y)" "lex_le spec (el_str y) \<Longrightarrow> lex_le spec (el_str x)" if "r x y" for x y
    using that same_score_less [OF same] lex_mono unfolding r_def by blast+
  obtain b where b: "lex_empty garb spec = Some b" "b \<and> \<not> misjudged spec \<longrightarrow> (\<forall>v. \<not> (lex_ge spec v \<and> lex_le spec v))" "misjudged spec \<longrightarrow> b"
    using lex_empty_ok [OF wf] by blast
  show "zslFirstInLexRange garb zsl spec = Some (map_option el_addr (find P xs))" if "\<not> misjudged spec"
    unfolding zslFirstInLexRange_def zslIsInLexRange_def P_def b(1) by (rule range_first_ok [OF st(1) d st(2) mono]) (use b(2) that in auto)
  show "zslLastInLexRange garb zsl spec = Some (map_option el_addr (find P (rev xs)))" if "\<not> misjudged spec"
    unfolding zslLastInLexRange_def zslIsInLexRange_def P_def b(1) by (rule range_last_ok [OF st(1) d st(2) mono]) (use b(2) that in auto)
  show "zslFirstInLexRange garb zsl spec = Some None" if "misjudged spec"
    using that b(1,3) by (simp add: zslFirstInLexRange_def zslIsInLexRange_def range_first_def in_range_def)
qed

theorem zslDeleteRangeByLex_ok:
  fixes zsl :: "('s :: linorder) zskiplist" and spec :: zlexrangespec
  assumes ok: "zsl_ok zsl xs" and same: "\<forall>e \<in> set xs. el_score e = s" and wf: "lex_wf spec" and d: "plain_inv d"
  defines "P \<equiv> \<lambda>e :: 's elem. lex_ge spec (el_str e) \<and> lex_le spec (el_str e)"
  shows "\<exists>zsl' d'. zslDeleteRangeByLex garb zsl spec d = Some (zsl', d', length (filter P xs)) \<and>
    zsl_ok zsl' (filter (\<lambda>e. \<not> P e) xs) \<and> zsl_header zsl' = zsl_header zsl \<and> plain_inv d' \<and> dict_abs d' = dict_abs d |` (- el_str ` set (filter P xs))"
proof -
  have "\<forall>e \<in> set xs. string_wf (el_obj e)" using ok by (simp add: zsl_ok_def)
  note dec = lex_decides [OF wf this, of garb]
  show ?thesis unfolding zslDeleteRangeByLex_def P_def
    by (rule delete_range_pred [OF ok d dec]) (use same_score_less [OF same] lex_mono in blast)+
qed

end
