(* ===== verification/T_zset.thy ===== *)
theory T_zset
  imports Skiplist_Lex
begin

text \<open>
  Sorted sets in the skip list encoding: a dict that finds the node of a string and a skip list that keeps the nodes in order (\<open>t_zset.c\<close>). The operations are
  the branches of the commands for that encoding: adding, incrementing and removing elements, score and rank of an element.

  What a sorted set stands for is a sequence of pairs of score and string, ordered by score and then by the bytes of the string; the operations are refined by
  operations on such sequences. The sum of two scores is a parameter, undefined where it is not a number.
\<close>

section \<open>The operations\<close>

record 's zset =
  zs_dict :: zset_dict
  zs_zsl :: "'s zskiplist"

definition zsetDictType :: "32 word \<Rightarrow> (byte list, robj \<times> nat) dictType" where
  "zsetDictType seed = \<lparr>hashFunction = dictGenHashFunction seed, keyDup = None, valDup = None, keyCompare = Some (=)\<rparr>"

definition createZsetObject :: "32 word \<Rightarrow> nat \<Rightarrow> ('s :: {linorder, zero}) zset" where
  "createZsetObject seed a = \<lparr>zs_dict = dictCreate (zsetDictType seed), zs_zsl = zslCreate a\<rparr>"

text \<open>
  What the run of an operation depends on: contents of fresh memory, the values \<open>random()\<close> returns, the address the allocator returns given the nodes in
  use, the reference count of the argument and \<open>dict_can_resize\<close>.
\<close>

record 's zenv =
  ze_garb :: "nat \<Rightarrow> byte"
  ze_fresh :: "nat \<Rightarrow> nat option \<times> nat"
  ze_back :: "nat option"
  ze_random :: "nat \<Rightarrow> nat"
  ze_alloc :: "'s nodes \<Rightarrow> nat"
  ze_refs :: nat
  ze_can :: bool

text \<open>The key and the score an entry of the dict points to.\<close>

definition zset_entry :: "'s zset \<Rightarrow> eref \<Rightarrow> (robj \<times> 's) option" where
  "zset_entry zs r = do {
     e \<leftarrow> entry_at (zs_dict zs) r;
     (ob, a) \<leftarrow> de_val e;
     n \<leftarrow> zsl_nodes (zs_zsl zs) a;
     Some (ob, zn_score n) }"

definition zset_insert :: "'s zenv \<Rightarrow> ('s :: linorder) zskiplist \<Rightarrow> 's \<Rightarrow> robj \<Rightarrow> ('s zskiplist \<times> nat) option" where
  "zset_insert env zsl = zslInsert (ze_garb env) (ze_fresh env) (ze_back env) (ze_random env) (ze_alloc env (zsl_nodes zsl)) zsl"

text \<open>One round of the loop of \<open>zaddGenericCommand\<close>. Assigning to \<open>dictGetVal(de)\<close> is \<open>dictSetVal\<close> for a type that duplicates no values.\<close>

datatype 's zadded = Skipped | NotANumber | Unchanged 's | Updated 's | Added 's

definition zadd_element ::
  "('s \<Rightarrow> 's \<Rightarrow> 's option) \<Rightarrow> bool \<Rightarrow> bool \<Rightarrow> bool \<Rightarrow> 's zenv \<Rightarrow> ('s :: linorder) zset \<Rightarrow> 's \<Rightarrow> robj \<Rightarrow> ('s zset \<times> 's zadded) option" where
  "zadd_element sum_of nx xx incr env zs score ele = do {
     ele \<leftarrow> tryObjectEncoding (ze_garb env) (ze_refs env) ele;
     k \<leftarrow> set_key (ze_garb env) ele;
     (d, de) \<leftarrow> dictFind (zs_dict zs) k;
     let zs = zs\<lparr>zs_dict := d\<rparr>;
     (case de of
        Some r \<Rightarrow>
          if nx then Some (zs, Skipped)
          else do {
            (curobj, curscore) \<leftarrow> zset_entry zs r;
            (case if incr then sum_of score curscore else Some score of
               None \<Rightarrow> Some (zs, NotANumber)
             | Some score \<Rightarrow>
                 if score \<noteq> curscore then do {
                   (zsl, ok) \<leftarrow> zslDelete (ze_garb env) (zs_zsl zs) curscore curobj;
                   if \<not> ok then None
                   else do {
                     (zsl, znode) \<leftarrow> zset_insert env zsl score curobj;
                     d \<leftarrow> dictSetVal d r (curobj, znode);
                     Some (\<lparr>zs_dict = d, zs_zsl = zsl\<rparr>, Updated score) } }
                 else Some (zs, Unchanged score)) }
      | None \<Rightarrow>
          if \<not> xx then do {
            (zsl, znode) \<leftarrow> zset_insert env (zs_zsl zs) score ele;
            (d, ok) \<leftarrow> dictAdd (ze_can env) d k (ele, znode);
            if \<not> ok then None else Some (\<lparr>zs_dict = d, zs_zsl = zsl\<rparr>, Added score) }
          else Some (zs, Skipped)) }"

text \<open>One round of the loop of \<open>zremCommand\<close>: whether the element was there.\<close>

definition zrem_element :: "'s zenv \<Rightarrow> ('s :: linorder) zset \<Rightarrow> robj \<Rightarrow> ('s zset \<times> bool) option" where
  "zrem_element env zs ele = do {
     k \<leftarrow> set_key (ze_garb env) ele;
     (d, de) \<leftarrow> dictFind (zs_dict zs) k;
     let zs = zs\<lparr>zs_dict := d\<rparr>;
     (case de of
        None \<Rightarrow> Some (zs, False)
      | Some r \<Rightarrow> do {
          (_, score) \<leftarrow> zset_entry zs r;
          (zsl, ok) \<leftarrow> zslDelete (ze_garb env) (zs_zsl zs) score ele;
          if \<not> ok then None
          else do {
            (d, _) \<leftarrow> dictDelete d k;
            (d, _) \<leftarrow> (if htNeedsResize d then dictResize (ze_can env) d else Some (d, False));
            Some (\<lparr>zs_dict = d, zs_zsl = zsl\<rparr>, True) } }) }"

text \<open>The score of an element, as \<open>zscoreCommand\<close> finds it, and its rank, as \<open>zrankGenericCommand\<close> does.\<close>

definition zset_score :: "'s zenv \<Rightarrow> 's zset \<Rightarrow> robj \<Rightarrow> ('s zset \<times> 's option) option" where
  "zset_score env zs ele = do {
     ele \<leftarrow> tryObjectEncoding (ze_garb env) (ze_refs env) ele;
     k \<leftarrow> set_key (ze_garb env) ele;
     (d, de) \<leftarrow> dictFind (zs_dict zs) k;
     let zs = zs\<lparr>zs_dict := d\<rparr>;
     (case de of
        None \<Rightarrow> Some (zs, None)
      | Some r \<Rightarrow> do { (_, score) \<leftarrow> zset_entry zs r; Some (zs, Some score) }) }"

definition zset_rank :: "'s zenv \<Rightarrow> bool \<Rightarrow> ('s :: linorder) zset \<Rightarrow> robj \<Rightarrow> ('s zset \<times> nat option) option" where
  "zset_rank env reverse zs ele = do {
     let llen = u32 (zsl_length (zs_zsl zs));
     ele \<leftarrow> tryObjectEncoding (ze_garb env) (ze_refs env) ele;
     k \<leftarrow> set_key (ze_garb env) ele;
     (d, de) \<leftarrow> dictFind (zs_dict zs) k;
     let zs = zs\<lparr>zs_dict := d\<rparr>;
     (case de of
        None \<Rightarrow> Some (zs, None)
      | Some r \<Rightarrow> do {
          (_, score) \<leftarrow> zset_entry zs r;
          rank \<leftarrow> zslGetRank (ze_garb env) (zs_zsl zs) score ele;
          if rank = 0 then None
          else Some (zs, Some (if reverse then u64 (llen + (2 ^ 64 - rank)) else rank - 1)) }) }"

section \<open>Entries of the dict\<close>

lemma plain_find:
  assumes p: "plain_inv d"
  shows "\<exists>d' r. dictFind d k = Some (d', r) \<and> plain_inv d' \<and> dict_abs d' = dict_abs d \<and>
    (case r of None \<Rightarrow> dict_abs d k = None
     | Some r \<Rightarrow> \<exists>e v. ref_ok d' r e \<and> entry_at d' r = Some e \<and> de_key e = k \<and> de_val e = Some v \<and> dict_abs d k = Some v)"
proof -
  have inv: "dict_inv d" using p by (simp add: plain_inv_def)
  obtain d' r where f: "dictFind d k = Some (d', r)" "dict_inv d'" "same_contents d d'"
    "case r of None \<Rightarrow> dict_map d k = None
     | Some r \<Rightarrow> \<exists>e. ref_ok d' r e \<and> dictCompareKeys d k (de_key e) \<and> dict_map d k = Some (de_val e)"
    using dictFind_correct [OF inv, of k] by blast
  note same = same_contents_plain [OF p f(2,3)]
  have "case r of None \<Rightarrow> dict_abs d k = None
     | Some r \<Rightarrow> \<exists>e v. ref_ok d' r e \<and> entry_at d' r = Some e \<and> de_key e = k \<and> de_val e = Some v \<and> dict_abs d k = Some v"
  proof (cases r)
    case None
    then show ?thesis using f(4) plain_map_value(1) [OF p, of k] by simp
  next
    case (Some r')
    then obtain e where e: "ref_ok d' r' e" "k = de_key e" "dict_map d k = Some (de_val e)" using f(4) plain_compare [OF p] by auto
    then obtain v where "de_val e = Some v" using plain_map_value(2) [OF p, of k] by auto
    then show ?thesis using Some e ref_ok_entry [OF f(2) e(1)] by (auto simp: dict_abs_def)
  qed
  then show ?thesis using f(1) same by blast
qed

lemma plain_set_val:
  assumes p: "plain_inv d" and r: "ref_ok d r e"
  shows "\<exists>d'. dictSetVal d r v = Some d' \<and> plain_inv d' \<and> dict_abs d' = (dict_abs d)(de_key e \<mapsto> v)"
proof -
  have inv: "dict_inv d" and dv: "dup_val d v = v" using p by (auto simp: plain_inv_def eq_type_def dup_val_def)
  obtain es where es: "mset (dict_ents d) = add_mset e (mset es)" using ref_ok_same [OF r inv] by blast
  let ?e = "e\<lparr>de_val := Some v\<rparr>"
  obtain d' where d': "dictSetVal d r v = Some d'" "dict_inv d'" "d_type d' = d_type d" "mset (dict_ents d') = add_mset ?e (mset es)"
    using dictSetVal_correct [OF inv r es, of v] dv by auto
  have m: "dict_map d' x = (if dictCompareKeys d x (de_key ?e) then Some (de_val ?e) else dict_map d x)" for x
    by (rule dict_map_add [OF inv d'(2,3,4)]) (use dict_others [OF inv es] in auto)
  have "plain_inv d'" by (rule plain_inv_intro [OF p d'(2,3)]) (use plain_map_value(2) [OF p] in \<open>simp add: m\<close>)
  moreover have "dict_abs d' x = ((dict_abs d)(de_key e \<mapsto> v)) x" for x by (simp add: dict_abs_def m plain_compare [OF p])
  ultimately show ?thesis using d'(1) by blast
qed

section \<open>The sequence a sorted set stands for\<close>

abbreviation el_entry :: "'s elem \<Rightarrow> byte list \<times> robj \<times> nat" where
  "el_entry \<equiv> \<lambda>e. (str_val (el_obj e), el_obj e, el_addr e)"

definition zset_ok :: "('s :: linorder) zset \<Rightarrow> 's elem list \<Rightarrow> bool" where
  "zset_ok zs xs \<longleftrightarrow> zsl_ok (zs_zsl zs) xs \<and> distinct (map el_str xs) \<and> plain_inv (zs_dict zs) \<and> dict_abs (zs_dict zs) = map_of (map el_entry xs)"

definition env_ok :: "'s zenv \<Rightarrow> bool" where
  "env_ok env \<longleftrightarrow> (\<forall>nodes. finite (dom nodes) \<longrightarrow> nodes (ze_alloc env nodes) = None) \<and> (\<exists>k. \<not> level_up (ze_random env k))"

text \<open>The abstract operations.\<close>

type_synonym 's zseq = "('s \<times> byte list) list"

definition zseq_wf :: "('s :: linorder) zseq \<Rightarrow> bool" where
  "zseq_wf zl \<longleftrightarrow> sorted_wrt zless zl \<and> distinct (map snd zl)"

definition zseq_lookup :: "byte list \<Rightarrow> 's zseq \<Rightarrow> 's option" where
  "zseq_lookup b zl = map_of (map prod.swap zl) b"

definition zseq_insert :: "('s :: linorder) \<Rightarrow> byte list \<Rightarrow> 's zseq \<Rightarrow> 's zseq" where
  "zseq_insert s b zl = filter (\<lambda>k. zless k (s, b)) zl @ (s, b) # filter (\<lambda>k. \<not> zless k (s, b)) zl"

definition zseq_delete :: "byte list \<Rightarrow> 's zseq \<Rightarrow> 's zseq" where
  "zseq_delete b zl = filter (\<lambda>k. snd k \<noteq> b) zl"

definition zseq_add ::
  "('s \<Rightarrow> 's \<Rightarrow> 's option) \<Rightarrow> bool \<Rightarrow> bool \<Rightarrow> bool \<Rightarrow> ('s :: linorder) zseq \<Rightarrow> 's \<Rightarrow> byte list \<Rightarrow> 's zseq \<times> 's zadded" where
  "zseq_add sum_of nx xx incr zl s b = (case zseq_lookup b zl of
     Some c \<Rightarrow>
       if nx then (zl, Skipped)
       else (case if incr then sum_of s c else Some s of
          None \<Rightarrow> (zl, NotANumber)
        | Some t \<Rightarrow> if t = c then (zl, Unchanged t) else (zseq_insert t b (zseq_delete b zl), Updated t))
   | None \<Rightarrow> if xx then (zl, Skipped) else (zseq_insert s b zl, Added s))"

lemma map_zkey_filter: "map zkey (filter (\<lambda>e. P (zkey e)) xs) = filter P (map zkey xs)"
  by (simp add: filter_map comp_def)

lemma zset_dict_lookup:
  assumes "zset_ok zs xs"
  shows "dict_abs (zs_dict zs) b = Some v \<longleftrightarrow> (\<exists>e \<in> set xs. el_str e = b \<and> v = (el_obj e, el_addr e))"
proof -
  have "distinct (map fst (map el_entry xs))" using assms by (simp add: zset_ok_def comp_def)
  then show ?thesis using assms by (auto simp: zset_ok_def map_of_eq_Some_iff image_iff)
qed

lemma zseq_lookup_zset:
  assumes "distinct (map el_str xs)"
  shows "zseq_lookup b (map zkey xs) = Some s \<longleftrightarrow> (\<exists>e \<in> set xs. el_str e = b \<and> el_score e = s)"
proof -
  have "distinct (map fst (map prod.swap (map zkey xs)))" using assms by (simp add: comp_def zkey_def)
  then show ?thesis by (auto simp: zseq_lookup_def map_of_eq_Some_iff image_iff zkey_def)
qed

text \<open>The entry of a string that is in the sorted set, and what the search for one gives.\<close>

lemma zset_find:
  assumes ok: "zset_ok zs xs"
  shows "\<exists>d r. dictFind (zs_dict zs) b = Some (d, r) \<and> zset_ok (zs\<lparr>zs_dict := d\<rparr>) xs \<and>
    (case r of None \<Rightarrow> zseq_lookup b (map zkey xs) = None \<and> b \<notin> el_str ` set xs
     | Some r \<Rightarrow> \<exists>e de. e \<in> set xs \<and> el_str e = b \<and> zseq_lookup b (map zkey xs) = Some (el_score e) \<and>
         ref_ok d r de \<and> de_key de = b \<and> zset_entry (zs\<lparr>zs_dict := d\<rparr>) r = Some (el_obj e, el_score e))"
proof -
  have p: "plain_inv (zs_dict zs)" and dist: "distinct (map el_str xs)" and shape: "zsl_shape (zs_zsl zs) xs"
    using ok by (simp_all add: zset_ok_def zsl_ok_def)
  obtain d r where f: "dictFind (zs_dict zs) b = Some (d, r)" "plain_inv d" "dict_abs d = dict_abs (zs_dict zs)"
    "case r of None \<Rightarrow> dict_abs (zs_dict zs) b = None
     | Some r \<Rightarrow> \<exists>e v. ref_ok d r e \<and> entry_at d r = Some e \<and> de_key e = b \<and> de_val e = Some v \<and> dict_abs (zs_dict zs) b = Some v"
    using plain_find [OF p] by blast
  have "zset_ok (zs\<lparr>zs_dict := d\<rparr>) xs" using ok f(2,3) by (simp add: zset_ok_def)
  moreover have "case r of None \<Rightarrow> zseq_lookup b (map zkey xs) = None \<and> b \<notin> el_str ` set xs
     | Some r \<Rightarrow> \<exists>e de. e \<in> set xs \<and> el_str e = b \<and> zseq_lookup b (map zkey xs) = Some (el_score e) \<and>
         ref_ok d r de \<and> de_key de = b \<and> zset_entry (zs\<lparr>zs_dict := d\<rparr>) r = Some (el_obj e, el_score e)"
  proof (cases r)
    case None
    then have no: "b \<notin> el_str ` set xs" using f(4) zset_dict_lookup [OF ok, of b] by auto
    then have "zseq_lookup b (map zkey xs) = None" using zseq_lookup_zset [OF dist, of b] by (cases "zseq_lookup b (map zkey xs)") auto
    then show ?thesis using None no by simp
  next
    case (Some r')
    then obtain de v where de: "ref_ok d r' de" "entry_at d r' = Some de" "de_key de = b" "de_val de = Some v" "dict_abs (zs_dict zs) b = Some v"
      using f(4) by auto
    then obtain e where e: "e \<in> set xs" "el_str e = b" "v = (el_obj e, el_addr e)" using zset_dict_lookup [OF ok] by blast
    obtain n where "zsl_nodes (zs_zsl zs) (el_addr e) = Some n" "is_node e n" using shape_node [OF shape e(1)] by blast
    then have "zset_entry (zs\<lparr>zs_dict := d\<rparr>) r' = Some (el_obj e, el_score e)" using de e(3) by (simp add: zset_entry_def is_node_def)
    moreover have "zseq_lookup b (map zkey xs) = Some (el_score e)" using zseq_lookup_zset [OF dist] e by blast
    ultimately show ?thesis using Some e de by auto
  qed
  ultimately show ?thesis using f(1) by blast
qed


section \<open>The laws\<close>

lemma zset_insert_ok:
  assumes ok: "zsl_ok zsl xs" and ob: "string_wf ob" and new: "str_val ob \<notin> el_str ` set xs"
    and env: "env_ok env" and len: "Suc (length xs) < 2 ^ 32"
  shows "\<exists>zsl' a ys e. zset_insert env zsl s ob = Some (zsl', a) \<and> zsl_ok zsl' ys \<and> map zkey ys = zseq_insert s (str_val ob) (map zkey xs) \<and>
    set ys = insert e (set xs) \<and> length ys = Suc (length xs) \<and> el_addr e = a \<and> el_obj e = ob"
proof -
  have "finite (dom (zsl_nodes zsl))" using ok by (simp add: zsl_ok_def zsl_shape_def store_ok_def)
  then have a: "zsl_nodes zsl (ze_alloc env (zsl_nodes zsl)) = None" using env by (simp add: env_ok_def)
  obtain h where h: "zslRandomLevel (ze_random env) = Some h" using env zslRandomLevel_total unfolding env_ok_def by blast
  have "(s, str_val ob) \<notin> zkey ` set xs" using new by (auto simp: zkey_def image_iff)
  note ins = zslInsert_ok [OF ok ob this h a len]
  let ?e = "Elem (ze_alloc env (zsl_nodes zsl)) h s ob"
  let ?ys = "zbefore (s, str_val ob) xs @ ?e # zafter (s, str_val ob) xs"
  have "map zkey ?ys = zseq_insert s (str_val ob) (map zkey xs)"
    using zkey_def [of ?e] by (simp add: zseq_insert_def zbefore_def zafter_def filter_map comp_def)
  moreover obtain zsl' where "zset_insert env zsl s ob = Some (zsl', ze_alloc env (zsl_nodes zsl))" "zsl_ok zsl' ?ys"
    using ins(1) unfolding zset_insert_def by blast
  moreover have "el_addr ?e = ze_alloc env (zsl_nodes zsl)" "el_obj ?e = ob" by simp_all
  ultimately show ?thesis using ins(2,3) by blast
qed

text \<open>With strings that occur once, the dict is determined by the elements.\<close>

lemma zset_ok_insert:
  assumes "zsl_ok zsl ys" "distinct (map el_str xs)" "set ys = insert e (set xs)" "length ys = Suc (length xs)" "el_str e \<notin> el_str ` set xs"
    "plain_inv d" "dict_abs d = (map_of (map el_entry xs))(el_str e \<mapsto> (el_obj e, el_addr e))"
  shows "zset_ok \<lparr>zs_dict = d, zs_zsl = zsl\<rparr> ys"
proof -
  have "card (el_str ` set ys) = length ys"
    using assms(2-5) distinct_card [of "map el_str xs"] by simp
  then have dist: "distinct (map el_str ys)" using card_distinct [of "map el_str ys"] by simp
  have "map_of (map el_entry ys) = map_of (map el_entry (e # xs))"
    by (rule map_of_inject_set [THEN iffD2]) (use dist assms(2,3,5) in \<open>auto simp: comp_def\<close>)
  then show ?thesis using assms(1,6,7) dist by (simp add: zset_ok_def)
qed

lemma delete_str:
  assumes "distinct (map el_str xs)" "e \<in> set xs"
  shows "filter (\<lambda>x. zkey x \<noteq> zkey e) xs = filter (\<lambda>x. el_str x \<noteq> el_str e) xs"
proof -
  have "x = e" if "x \<in> set xs" "el_str x = el_str e" for x
    using assms that by (auto simp: distinct_map inj_on_def)
  then show ?thesis by (intro filter_cong refl) (auto simp: zkey_def)
qed

lemma zset_delete_ok:
  assumes ok: "zset_ok zs xs" and e: "e \<in> set xs" and ob: "string_wf ob" "str_val ob = el_str e"
  defines "ys \<equiv> filter (\<lambda>x. el_str x \<noteq> el_str e) xs"
  shows "\<exists>zsl. zslDelete garb (zs_zsl zs) (el_score e) ob = Some (zsl, True) \<and> zsl_ok zsl ys \<and> map zkey ys = zseq_delete (el_str e) (map zkey xs) \<and>
    distinct (map el_str ys) \<and> el_str e \<notin> el_str ` set ys \<and> map_of (map el_entry ys) = (map_of (map el_entry xs))(el_str e := None) \<and> length ys < length xs"
proof -
  have zk: "(el_score e, str_val ob) = zkey e" using ob(2) by (simp add: zkey_def)
  have ok': "zsl_ok (zs_zsl zs) xs" "distinct (map el_str xs)" using ok by (simp_all add: zset_ok_def)
  obtain zsl where "zslDelete garb (zs_zsl zs) (el_score e) ob = Some (zsl, True)" "zsl_ok zsl ys"
    using zslDelete_ok [OF ok'(1) ob(1), of garb "el_score e"] e unfolding zk delete_str [OF ok'(2) e] ys_def by auto
  moreover have "map zkey ys = zseq_delete (el_str e) (map zkey xs)" unfolding ys_def zseq_delete_def by (simp add: filter_map comp_def zkey_def)
  moreover have "distinct (map el_str ys)" "el_str e \<notin> el_str ` set ys" using ok'(2) by (auto simp: ys_def distinct_map_filter)
  moreover have "map_of (map el_entry ys) = (map_of (map el_entry xs))(el_str e := None)"
    unfolding ys_def by (induction xs) (auto simp: fun_eq_iff)
  moreover have "length ys < length xs" unfolding ys_def using e by (simp add: length_filter_less)
  ultimately show ?thesis by blast
qed

lemma card_dom_entries:
  assumes "distinct (map el_str xs)"
  shows "card (dom (map_of (map el_entry xs))) = length xs"
proof -
  have "dom (map_of (map el_entry xs)) = set (map el_str xs)" by (auto simp: dom_map_of_conv_image_fst image_iff)
  then show ?thesis using distinct_card [OF assms] by simp
qed

theorem zadd_element_ok:
  assumes ok: "zset_ok zs xs" and env: "env_ok env" and ele: "string_wf ele" and len: "length xs < 2 ^ 30"
  shows "\<exists>zs' ys r. zadd_element sum_of nx xx incr env zs s ele = Some (zs', r) \<and> zset_ok zs' ys \<and>
    zseq_add sum_of nx xx incr (map zkey xs) s (str_val ele) = (map zkey ys, r) \<and> length ys \<le> Suc (length xs)"
proof -
  let ?b = "str_val ele" and ?garb = "ze_garb env"
  obtain ob where ob: "tryObjectEncoding ?garb (ze_refs env) ele = Some ob" "string_wf ob" "str_val ob = ?b"
    using tryObjectEncoding_correct [OF ele] by blast
  note key = set_key_correct [OF ob(2), of ?garb, unfolded ob(3)]
  obtain d r where f: "dictFind (zs_dict zs) ?b = Some (d, r)" "zset_ok (zs\<lparr>zs_dict := d\<rparr>) xs"
    "case r of None \<Rightarrow> zseq_lookup ?b (map zkey xs) = None \<and> ?b \<notin> el_str ` set xs
     | Some r \<Rightarrow> \<exists>e de. e \<in> set xs \<and> el_str e = ?b \<and> zseq_lookup ?b (map zkey xs) = Some (el_score e) \<and>
         ref_ok d r de \<and> de_key de = ?b \<and> zset_entry (zs\<lparr>zs_dict := d\<rparr>) r = Some (el_obj e, el_score e)"
    using zset_find [OF ok] by blast
  have st: "zsl_ok (zs_zsl zs) xs" "distinct (map el_str xs)" "plain_inv d" "dict_abs d = map_of (map el_entry xs)" using f(2) by (simp_all add: zset_ok_def)
  note run = zadd_element_def [of sum_of nx xx incr env zs s ele] ob(1) key f(1) Option.bind.simps prod.case Let_def
  show ?thesis
  proof (cases r)
    case None
    then have no: "zseq_lookup ?b (map zkey xs) = None" "?b \<notin> el_str ` set xs" using f(3) by auto
    show ?thesis
    proof (cases xx)
      case True
      then show ?thesis using f(2) no None unfolding run by (auto simp: zseq_add_def intro!: exI [of _ xs])
    next
      case False
      obtain zsl a ys e where ins: "zset_insert env (zs_zsl zs) s ob = Some (zsl, a)" "zsl_ok zsl ys" "map zkey ys = zseq_insert s ?b (map zkey xs)"
        "set ys = insert e (set xs)" "length ys = Suc (length xs)" "el_addr e = a" "el_obj e = ob"
        using zset_insert_ok [OF st(1) ob(2) _ env, of s] no(2) ob(3) len by auto
      have "card (dom (dict_abs d)) < 2 ^ 30" using card_dom_entries [OF st(2)] len unfolding st(4) by simp
      moreover have "dict_abs d ?b = None" unfolding st(4) using no(2) by (auto simp: map_of_eq_None_iff image_iff)
      ultimately obtain d' where d': "dictAdd (ze_can env) d ?b (ob, a) = Some (d', True)" "plain_inv d'" "dict_abs d' = (dict_abs d)(?b \<mapsto> (ob, a))"
        using plain_add [OF st(3), where k = ?b and v = "(ob, a)" and can = "ze_can env"] by auto
      have "zset_ok \<lparr>zs_dict = d', zs_zsl = zsl\<rparr> ys"
        by (rule zset_ok_insert [OF ins(2) st(2) ins(4,5) _ d'(2)]) (use no(2) ins(6,7) ob(3) d'(3) st(4) in simp_all)
      then show ?thesis using False None no ins d'(1) unfolding run by (auto simp: zseq_add_def)
    qed
  next
    case (Some r')
    then obtain e de where e: "e \<in> set xs" "el_str e = ?b" "zseq_lookup ?b (map zkey xs) = Some (el_score e)"
      "ref_ok d r' de" "de_key de = ?b" "zset_entry (zs\<lparr>zs_dict := d\<rparr>) r' = Some (el_obj e, el_score e)"
      using f(3) by auto
    show ?thesis
    proof (cases "nx \<or> (if incr then sum_of s (el_score e) else Some s) \<in> {None, Some (el_score e)}")
      case True
      then show ?thesis using f(2) e(3,6) Some unfolding run by (auto simp: zseq_add_def split: if_splits intro!: exI [of _ xs])
    next
      case False
      then obtain t where t: "(if incr then sum_of s (el_score e) else Some s) = Some t" "t \<noteq> el_score e" "\<not> nx" by auto
      have wf: "string_wf (el_obj e)" using st(1) e(1) by (simp add: zsl_ok_def)
      let ?ys = "filter (\<lambda>x. el_str x \<noteq> el_str e) xs"
      obtain zsl where del: "zslDelete ?garb (zs_zsl zs) (el_score e) (el_obj e) = Some (zsl, True)" "zsl_ok zsl ?ys"
        "map zkey ?ys = zseq_delete ?b (map zkey xs)" "distinct (map el_str ?ys)" "el_str e \<notin> el_str ` set ?ys"
        "map_of (map el_entry ?ys) = (map_of (map el_entry xs))(?b := None)" "length ?ys < length xs"
        using zset_delete_ok [OF f(2) e(1) wf refl, of ?garb] e(2) by auto
      obtain zsl' a zs' g where ins: "zset_insert env zsl t (el_obj e) = Some (zsl', a)" "zsl_ok zsl' zs'"
        "map zkey zs' = zseq_insert t ?b (map zkey ?ys)" "set zs' = insert g (set ?ys)" "length zs' = Suc (length ?ys)" "el_addr g = a" "el_obj g = el_obj e"
        using zset_insert_ok [OF del(2) wf del(5) env, of t] e(2) del(7) len by auto
      obtain d' where d': "dictSetVal d r' (el_obj e, a) = Some d'" "plain_inv d'" "dict_abs d' = (dict_abs d)(?b \<mapsto> (el_obj e, a))"
        using plain_set_val [OF st(3) e(4)] e(5) by metis
      have "dict_abs d' = (map_of (map el_entry ?ys))(el_str g \<mapsto> (el_obj g, el_addr g))"
        unfolding del(6) unfolding d'(3) st(4) ins(6,7) e(2) by simp
      then have "zset_ok \<lparr>zs_dict = d', zs_zsl = zsl'\<rparr> zs'"
        by (intro zset_ok_insert [OF ins(2) del(4) ins(4,5) _ d'(2)]) (use del(5) ins(7) in simp_all)
      moreover have "zseq_add sum_of nx xx incr (map zkey xs) s ?b = (map zkey zs', Updated t)"
        using t e(3) unfolding zseq_add_def ins(3) del(3) by simp
      moreover have "zadd_element sum_of nx xx incr env zs s ele = Some (\<lparr>zs_dict = d', zs_zsl = zsl'\<rparr>, Updated t)"
        using t Some e(6) del(1) ins(1) d'(1) unfolding run by simp
      ultimately show ?thesis using ins(5) del(7) by (intro exI conjI) auto
    qed
  qed
qed

definition zseq_rank :: "byte list \<Rightarrow> 's zseq \<Rightarrow> nat option" where
  "zseq_rank b zl = (if b \<in> snd ` set zl then Some (length (takeWhile (\<lambda>k. snd k \<noteq> b) zl)) else None)"

lemma zset_seq_wf: "zset_ok zs xs \<Longrightarrow> zseq_wf (map zkey xs)"
  by (auto simp: zset_ok_def zsl_ok_def zsorted_def zseq_wf_def sorted_wrt_map comp_def zkey_def)

lemma zseq_lookup_None: "zseq_lookup b zl = None \<longleftrightarrow> b \<notin> snd ` set zl"
  by (auto simp: zseq_lookup_def map_of_eq_None_iff image_iff)

lemma zseq_delete_other: "b \<notin> snd ` set zl \<Longrightarrow> zseq_delete b zl = zl"
  by (auto simp: zseq_delete_def filter_id_conv)

theorem zrem_element_ok:
  assumes ok: "zset_ok zs xs" and ele: "string_wf ele" and len: "length xs \<le> 2 ^ 30"
  shows "\<exists>zs' ys. zrem_element env zs ele = Some (zs', str_val ele \<in> snd ` set (map zkey xs)) \<and> zset_ok zs' ys \<and>
    map zkey ys = zseq_delete (str_val ele) (map zkey xs) \<and> length ys \<le> length xs"
proof -
  let ?b = "str_val ele" and ?garb = "ze_garb env"
  note key = set_key_correct [OF ele, of ?garb]
  obtain d r where f: "dictFind (zs_dict zs) ?b = Some (d, r)" "zset_ok (zs\<lparr>zs_dict := d\<rparr>) xs"
    "case r of None \<Rightarrow> zseq_lookup ?b (map zkey xs) = None \<and> ?b \<notin> el_str ` set xs
     | Some r \<Rightarrow> \<exists>e de. e \<in> set xs \<and> el_str e = ?b \<and> zseq_lookup ?b (map zkey xs) = Some (el_score e) \<and>
         ref_ok d r de \<and> de_key de = ?b \<and> zset_entry (zs\<lparr>zs_dict := d\<rparr>) r = Some (el_obj e, el_score e)"
    using zset_find [OF ok] by blast
  note run = zrem_element_def [of env zs ele] key f(1) Option.bind.simps prod.case Let_def
  show ?thesis
  proof (cases r)
    case None
    then have "?b \<notin> snd ` set (map zkey xs)" using f(3) unfolding zseq_lookup_None by auto
    then show ?thesis using None f(2) zseq_delete_other [of ?b "map zkey xs"] unfolding run by (auto intro!: exI [of _ xs])
  next
    case (Some r')
    then obtain e where e: "e \<in> set xs" "el_str e = ?b" "zset_entry (zs\<lparr>zs_dict := d\<rparr>) r' = Some (el_obj e, el_score e)" using f(3) by auto
    then have mem: "?b \<in> snd ` set (map zkey xs)" by (force simp: zkey_def)
    let ?ys = "filter (\<lambda>x. el_str x \<noteq> el_str e) xs"
    obtain zsl where del: "zslDelete ?garb (zs_zsl zs) (el_score e) ele = Some (zsl, True)" "zsl_ok zsl ?ys"
      "map zkey ?ys = zseq_delete ?b (map zkey xs)" "distinct (map el_str ?ys)"
      "map_of (map el_entry ?ys) = (map_of (map el_entry xs))(?b := None)" "length ?ys < length xs"
      using zset_delete_ok [OF f(2) e(1) ele, of ?garb] e(2) by auto
    have p: "plain_inv d" "dict_abs d = map_of (map el_entry xs)" using f(2) by (simp_all add: zset_ok_def)
    obtain d1 where d1: "dictDelete d ?b = Some (d1, dict_abs d ?b \<noteq> None)" "plain_inv d1" "dict_abs d1 = map_of (map el_entry ?ys)"
      using plain_delete [OF p(1), of ?b] unfolding del(5) p(2) by blast
    have "card (dom (dict_abs d1)) \<le> 2 ^ 30" using card_dom_entries [OF del(4)] del(6) len unfolding d1(3) by simp
    then obtain d2 ok where d2: "dictResize (ze_can env) d1 = Some (d2, ok)" "plain_inv d2" "dict_abs d2 = dict_abs d1"
      using dictResize_plain [OF d1(2), of "ze_can env"] by blast
    have "zset_ok \<lparr>zs_dict = d1, zs_zsl = zsl\<rparr> ?ys" "zset_ok \<lparr>zs_dict = d2, zs_zsl = zsl\<rparr> ?ys"
      using del(2,4) d1(2,3) d2(2,3) by (simp_all add: zset_ok_def)
    moreover have "zrem_element env zs ele = Some (\<lparr>zs_dict = if htNeedsResize d1 then d2 else d1, zs_zsl = zsl\<rparr>, True)"
      using Some e(3) del(1) d1(1) d2(1) unfolding run by simp
    ultimately have "\<exists>zs'. zrem_element env zs ele = Some (zs', True) \<and> zset_ok zs' ?ys" by (cases "htNeedsResize d1") auto
    then show ?thesis using del(3,6) mem by (simp only: eq_True [THEN iffD2, OF mem]) (blast intro: less_imp_le)
  qed
qed

theorem zset_score_ok:
  assumes ok: "zset_ok zs xs" and ele: "string_wf ele"
  shows "\<exists>zs'. zset_score env zs ele = Some (zs', zseq_lookup (str_val ele) (map zkey xs)) \<and> zset_ok zs' xs"
proof -
  obtain ob where ob: "tryObjectEncoding (ze_garb env) (ze_refs env) ele = Some ob" "string_wf ob" "str_val ob = str_val ele"
    using tryObjectEncoding_correct [OF ele] by blast
  show ?thesis using zset_find [OF ok, of "str_val ele"] set_key_correct [OF ob(2), of "ze_garb env", unfolded ob(3)] ob(1)
    by (auto simp: zset_score_def Let_def split: option.splits)
qed

lemma rank_of_takeWhile:
  assumes "zsorted xs" "distinct (map el_str xs)" "e \<in> set xs"
  shows "rank_of (zkey e) xs = length (takeWhile (\<lambda>k. snd k \<noteq> el_str e) (map zkey xs))"
proof -
  obtain L R where xs: "xs = L @ e # R" using assms(3) split_list by metis
  have "filter (\<lambda>x. zless (zkey x) (zkey e)) L = L" "filter (\<lambda>x. zless (zkey x) (zkey e)) R = []"
    using assms(1) unfolding xs zsorted_def by (auto simp: sorted_wrt_append filter_id_conv filter_empty_conv dest: zless_asym)
  then have "rank_of (zkey e) xs = length L" by (simp add: rank_of_def xs)
  moreover have "snd k \<noteq> el_str e" if "k \<in> set (map zkey L)" for k using assms(2) that unfolding xs by (auto simp: zkey_def image_iff)
  moreover have "snd (zkey e) = el_str e" by (simp add: zkey_def)
  ultimately show ?thesis using takeWhile_append2 [of "map zkey L" "\<lambda>k. snd k \<noteq> el_str e" "zkey e # map zkey R"] unfolding xs by simp
qed

theorem zset_rank_ok:
  assumes ok: "zset_ok zs xs" and ele: "string_wf ele"
  shows "\<exists>zs'. zset_rank env reverse zs ele =
      Some (zs', map_option (\<lambda>r. if reverse then length xs - Suc r else r) (zseq_rank (str_val ele) (map zkey xs))) \<and> zset_ok zs' xs"
proof -
  let ?b = "str_val ele" and ?garb = "ze_garb env"
  obtain ob where ob: "tryObjectEncoding ?garb (ze_refs env) ele = Some ob" "string_wf ob" "str_val ob = ?b"
    using tryObjectEncoding_correct [OF ele] by blast
  note key = set_key_correct [OF ob(2), of ?garb, unfolded ob(3)]
  obtain d r where f: "dictFind (zs_dict zs) ?b = Some (d, r)" "zset_ok (zs\<lparr>zs_dict := d\<rparr>) xs"
    "case r of None \<Rightarrow> zseq_lookup ?b (map zkey xs) = None \<and> ?b \<notin> el_str ` set xs
     | Some r \<Rightarrow> \<exists>e de. e \<in> set xs \<and> el_str e = ?b \<and> zseq_lookup ?b (map zkey xs) = Some (el_score e) \<and>
         ref_ok d r de \<and> de_key de = ?b \<and> zset_entry (zs\<lparr>zs_dict := d\<rparr>) r = Some (el_obj e, el_score e)"
    using zset_find [OF ok] by blast
  have st: "zsl_ok (zs_zsl zs) xs" "distinct (map el_str xs)" "zsorted xs" "zsl_length (zs_zsl zs) = length xs" "length xs < 2 ^ 32"
    using f(2) by (auto simp: zset_ok_def zsl_ok_def zsl_shape_def)
  show ?thesis
  proof (cases r)
    case None
    then have "zseq_rank ?b (map zkey xs) = None" using f(3) unfolding zseq_lookup_None by (simp add: zseq_rank_def)
    then show ?thesis using None f(1,2) ob(1) key by (simp add: zset_rank_def Let_def)
  next
    case (Some r')
    then obtain e where e: "e \<in> set xs" "el_str e = ?b" "zset_entry (zs\<lparr>zs_dict := d\<rparr>) r' = Some (el_obj e, el_score e)" using f(3) by auto
    then have "?b \<in> snd ` set (map zkey xs)" by (force simp: zkey_def)
    then have rk: "zseq_rank ?b (map zkey xs) = Some (rank_of (zkey e) xs)" using rank_of_takeWhile [OF st(3,2) e(1)] e(2) by (simp add: zseq_rank_def)
    have zk: "(el_score e, str_val ob) = zkey e" using ob(3) e(2) by (simp add: zkey_def)
    have "zslGetRank ?garb (zs_zsl zs) (el_score e) ob = Some (Suc (rank_of (zkey e) xs))"
      using zslGetRank_ok(1) [OF st(1) ob(2) st(2), where s = "el_score e" and garb = ?garb] e(1) unfolding zk by blast
    moreover have "rank_of (zkey e) xs < length xs"
      unfolding rank_of_def by (rule length_filter_less [OF e(1)]) simp
    ultimately show ?thesis using rk Some f(1,2) ob(1) key e(3) st(4,5) by (simp add: zset_rank_def Let_def u64_def mod_if)
  qed
qed

theorem createZsetObject_ok: "zset_ok (createZsetObject seed a) []"
proof -
  have "compareKeys (zsetDictType seed) = (=)" by (simp add: fun_eq_iff zsetDictType_def compareKeys_def)
  then have "eq_type (zsetDictType seed)"
    by (simp add: eq_type_def dtype_ok_def zsetDictType_def equivp_reflp_symp_transp reflp_def symp_def transp_def)
  then show ?thesis using dictCreate_plain [of "zsetDictType seed"] zslCreate_shape by (simp add: zset_ok_def createZsetObject_def zsl_ok_def zsorted_def)
qed

end
