(* ===== verification/T_zset_Range.thy ===== *)
theory T_zset_Range
  imports T_zset
begin

text \<open>
  The range queries on sorted sets in the skip list encoding: \<open>ZRANGE\<close>, \<open>ZRANGEBYSCORE\<close>, \<open>ZRANGEBYLEX\<close> and their reverse forms, \<open>ZCOUNT\<close>, \<open>ZLEXCOUNT\<close>
  and the three commands that remove a range. A query gives the pairs of score and object the command replies with, in their order; parsing the arguments
  and writing the reply are left out. The reverse forms follow the backward pointers, so their correctness rests on those.
\<close>

section \<open>The operations\<close>

definition zsl_step :: "bool \<Rightarrow> 's nodes \<Rightarrow> nat \<Rightarrow> nat option option" where
  "zsl_step reverse nodes x =
     (if reverse then do { n \<leftarrow> nodes x; Some (zn_backward n) }
      else do { (forward, _) \<leftarrow> get_level nodes x 0; Some forward })"

text \<open>The indexes of \<open>zrangeGenericCommand\<close> and \<open>zremrangeGenericCommand\<close>, made non-negative; \<open>None\<close> is the empty range.\<close>

definition range_indexes :: "int \<Rightarrow> int \<Rightarrow> int \<Rightarrow> (int \<times> int) option" where
  "range_indexes llen start stop =
     (let start = (if start < 0 then llen + start else start);
          stop = (if stop < 0 then llen + stop else stop);
          start = (if start < 0 then 0 else start)
      in if start > stop \<or> start \<ge> llen then None
         else Some (start, if stop \<ge> llen then llen - 1 else stop))"

primrec range_items :: "bool \<Rightarrow> 's nodes \<Rightarrow> nat \<Rightarrow> nat option \<Rightarrow> ('s \<times> robj) list option" where
  "range_items reverse nodes 0 ln = Some []"
| "range_items reverse nodes (Suc rangelen) ln = do {
     x \<leftarrow> ln;
     n \<leftarrow> nodes x;
     ele \<leftarrow> zn_obj n;
     ln \<leftarrow> zsl_step reverse nodes x;
     rest \<leftarrow> range_items reverse nodes rangelen ln;
     Some ((zn_score n, ele) # rest) }"

definition zset_range :: "bool \<Rightarrow> 's zset \<Rightarrow> int \<Rightarrow> int \<Rightarrow> ('s \<times> robj) list option" where
  "zset_range reverse zs start stop = (
     let zsl = zs_zsl zs; nodes = zsl_nodes zsl; llen = s32 (int (zsl_length zsl)) in
     (case range_indexes llen start stop of
        None \<Rightarrow> Some []
      | Some (start, stop) \<Rightarrow> do {
          let rangelen = s32 (stop - start + 1);
          ln \<leftarrow> (if start > 0 then zslGetElementByRank zsl (nat (if reverse then llen - start else start + 1))
                 else if reverse then Some (zsl_tail zsl)
                 else do { (forward, _) \<leftarrow> get_level nodes (zsl_header zsl) 0; Some forward });
          range_items reverse nodes (nat rangelen) ln }))"

text \<open>The loops of \<open>genericZrangebyscoreCommand\<close> and \<open>genericZrangebylexCommand\<close>: skipping \<open>offset\<close> elements, and collecting up to \<open>limit\<close> that pass \<open>go\<close>.\<close>

partial_function (option) skip_loop :: "bool \<Rightarrow> 's nodes \<Rightarrow> int \<Rightarrow> nat option \<Rightarrow> nat option option" where
  "skip_loop reverse nodes offset ln = (case ln of
     None \<Rightarrow> Some None
   | Some x \<Rightarrow>
       if offset = 0 then Some (Some x)
       else do { ln \<leftarrow> zsl_step reverse nodes x; skip_loop reverse nodes (s64 (offset - 1)) ln })"

partial_function (option) items_loop ::
  "bool \<Rightarrow> ('s zskiplistNode \<Rightarrow> bool option) \<Rightarrow> 's nodes \<Rightarrow> int \<Rightarrow> nat option \<Rightarrow> ('s \<times> robj) list option" where
  "items_loop reverse go nodes limit ln = (case ln of
     None \<Rightarrow> Some []
   | Some x \<Rightarrow>
       if limit = 0 then Some []
       else do {
         n \<leftarrow> nodes x;
         b \<leftarrow> go n;
         if \<not> b then Some []
         else do {
           ele \<leftarrow> zn_obj n;
           ln \<leftarrow> zsl_step reverse nodes x;
           rest \<leftarrow> items_loop reverse go nodes (s64 (limit - 1)) ln;
           Some ((zn_score n, ele) # rest) } })"

definition range_query ::
  "bool \<Rightarrow> nat option option \<Rightarrow> ('s zskiplistNode \<Rightarrow> bool option) \<Rightarrow> 's zskiplist \<Rightarrow> int \<Rightarrow> int \<Rightarrow> ('s \<times> robj) list option" where
  "range_query reverse start go zsl offset limit = do {
     ln \<leftarrow> start;
     (case ln of
        None \<Rightarrow> Some []
      | Some x \<Rightarrow> do {
          ln \<leftarrow> skip_loop reverse (zsl_nodes zsl) offset (Some x);
          items_loop reverse go (zsl_nodes zsl) limit ln }) }"

definition zset_rangebyscore :: "bool \<Rightarrow> ('s :: linorder) zset \<Rightarrow> 's zrangespec \<Rightarrow> int \<Rightarrow> int \<Rightarrow> ('s \<times> robj) list option" where
  "zset_rangebyscore reverse zs spec offset limit = (let zsl = zs_zsl zs in
     range_query reverse (if reverse then zslLastInRange zsl spec else zslFirstInRange zsl spec)
       (if reverse then gte_score spec else lte_score spec) zsl offset limit)"

definition zset_rangebylex :: "(nat \<Rightarrow> byte) \<Rightarrow> bool \<Rightarrow> 's zset \<Rightarrow> zlexrangespec \<Rightarrow> int \<Rightarrow> int \<Rightarrow> ('s \<times> robj) list option" where
  "zset_rangebylex garb reverse zs spec offset limit = (let zsl = zs_zsl zs in
     range_query reverse (if reverse then zslLastInLexRange garb zsl spec else zslFirstInLexRange garb zsl spec)
       (if reverse then gte_lex garb spec else lte_lex garb spec) zsl offset limit)"

text \<open>The count of \<open>zcountCommand\<close> and \<open>zlexcountCommand\<close>, an \<open>int\<close>.\<close>

definition node_rank :: "(nat \<Rightarrow> byte) \<Rightarrow> ('s :: linorder) zskiplist \<Rightarrow> nat \<Rightarrow> nat option" where
  "node_rank garb zsl x = do { n \<leftarrow> zsl_nodes zsl x; ob \<leftarrow> zn_obj n; zslGetRank garb zsl (zn_score n) ob }"

definition range_count ::
  "(nat \<Rightarrow> byte) \<Rightarrow> nat option option \<Rightarrow> nat option option \<Rightarrow> ('s :: linorder) zskiplist \<Rightarrow> int option" where
  "range_count garb lo hi zsl = do {
     zn \<leftarrow> lo;
     (case zn of
        None \<Rightarrow> Some 0
      | Some x \<Rightarrow> do {
          rank \<leftarrow> node_rank garb zsl x;
          let count = s32 (int (zsl_length zsl) - (int rank - 1));
          zn \<leftarrow> hi;
          (case zn of
             None \<Rightarrow> Some count
           | Some x \<Rightarrow> do {
               rank \<leftarrow> node_rank garb zsl x;
               Some (s32 (count - (int (zsl_length zsl) - int rank))) }) }) }"

definition zset_count :: "(nat \<Rightarrow> byte) \<Rightarrow> ('s :: linorder) zset \<Rightarrow> 's zrangespec \<Rightarrow> int option" where
  "zset_count garb zs spec = (let zsl = zs_zsl zs in range_count garb (zslFirstInRange zsl spec) (zslLastInRange zsl spec) zsl)"

definition zset_lexcount :: "(nat \<Rightarrow> byte) \<Rightarrow> ('s :: linorder) zset \<Rightarrow> zlexrangespec \<Rightarrow> int option" where
  "zset_lexcount garb zs spec = (let zsl = zs_zsl zs in range_count garb (zslFirstInLexRange garb zsl spec) (zslLastInLexRange garb zsl spec) zsl)"

text \<open>Step 3 of \<open>zremrangeGenericCommand\<close>, and for ranks the part of step 2 that computes them.\<close>

definition shrink_dict :: "bool \<Rightarrow> ('k, 'v) dict \<Rightarrow> ('k, 'v) dict option" where
  "shrink_dict can d = do {
     (d, _) \<leftarrow> (if htNeedsResize d then dictResize can d else Some (d, False));
     Some d }"

definition zset_remrangebyscore :: "'s zenv \<Rightarrow> ('s :: linorder) zset \<Rightarrow> 's zrangespec \<Rightarrow> ('s zset \<times> nat) option" where
  "zset_remrangebyscore env zs spec = do {
     (zsl, d, deleted) \<leftarrow> zslDeleteRangeByScore (ze_garb env) (zs_zsl zs) spec (zs_dict zs);
     d \<leftarrow> shrink_dict (ze_can env) d;
     Some (\<lparr>zs_dict = d, zs_zsl = zsl\<rparr>, deleted) }"

definition zset_remrangebylex :: "'s zenv \<Rightarrow> 's zset \<Rightarrow> zlexrangespec \<Rightarrow> ('s zset \<times> nat) option" where
  "zset_remrangebylex env zs spec = do {
     (zsl, d, deleted) \<leftarrow> zslDeleteRangeByLex (ze_garb env) (zs_zsl zs) spec (zs_dict zs);
     d \<leftarrow> shrink_dict (ze_can env) d;
     Some (\<lparr>zs_dict = d, zs_zsl = zsl\<rparr>, deleted) }"

definition zset_remrangebyrank :: "'s zenv \<Rightarrow> 's zset \<Rightarrow> int \<Rightarrow> int \<Rightarrow> ('s zset \<times> nat) option" where
  "zset_remrangebyrank env zs start stop = (case range_indexes (int (u32 (zsl_length (zs_zsl zs)))) start stop of
     None \<Rightarrow> Some (zs, 0)
   | Some (start, stop) \<Rightarrow> do {
       (zsl, d, deleted) \<leftarrow> zslDeleteRangeByRank (ze_garb env) (zs_zsl zs) (nat (start + 1)) (nat (stop + 1)) (zs_dict zs);
       d \<leftarrow> shrink_dict (ze_can env) d;
       Some (\<lparr>zs_dict = d, zs_zsl = zsl\<rparr>, deleted) })"

text \<open>Releasing a skip list: \<open>zslFree\<close>, on the store of the nodes.\<close>

partial_function (option) free_loop :: "'s nodes \<Rightarrow> nat option \<Rightarrow> 's nodes option" where
  "free_loop nodes node = (case node of
     None \<Rightarrow> Some nodes
   | Some x \<Rightarrow> do { (next, _) \<leftarrow> get_level nodes x 0; free_loop (zslFreeNode nodes x) next })"

definition zslFree :: "'s zskiplist \<Rightarrow> 's nodes option" where
  "zslFree zsl = do {
     (node, _) \<leftarrow> get_level (zsl_nodes zsl) (zsl_header zsl) 0;
     free_loop ((zsl_nodes zsl)(zsl_header zsl := None)) node }"

section \<open>Walking the list\<close>

lemma s64_id: "int64_range x \<Longrightarrow> s64 x = x"
  by (simp add: s64_def int64_range_def signed_take_bit_int_eq_self)

lemma s64_pred:
  assumes "int64_range x"
  shows "s64 (x - 1) = (if x = - (2 ^ 63) then 2 ^ 63 - 1 else x - 1)" "int64_range (s64 (x - 1))"
proof -
  have "s64 (- (2 ^ 63) - 1) = 2 ^ 63 - 1" by (simp add: s64_def signed_take_bit_int_eq_self_iff signed_take_bit_eq_take_bit_minus take_bit_int_def)
  then show "s64 (x - 1) = (if x = - (2 ^ 63) then 2 ^ 63 - 1 else x - 1)" using assms s64_id [of "x - 1"] by (auto simp: int64_range_def)
  then show "int64_range (s64 (x - 1))" using assms by (auto simp: int64_range_def)
qed

definition ptr :: "'s elem list \<Rightarrow> nat option" where
  "ptr B = (case B of [] \<Rightarrow> None | e # _ \<Rightarrow> Some (el_addr e))"

lemma ptr_simps [simp]: "ptr [] = None" "ptr (e # B) = Some (el_addr e)"
  by (simp_all add: ptr_def)

abbreviation dir :: "bool \<Rightarrow> 'a list \<Rightarrow> 'a list" where
  "dir reverse xs \<equiv> if reverse then rev xs else xs"

abbreviation el_pair :: "'s elem \<Rightarrow> 's \<times> robj" where
  "el_pair \<equiv> \<lambda>e. (el_score e, el_obj e)"

lemma step_ok:
  assumes shape: "zsl_shape zsl xs" and at: "dir reverse xs = A @ e # B"
  shows "zsl_step reverse (zsl_nodes zsl) (el_addr e) = Some (ptr B)" "\<exists>n. zsl_nodes zsl (el_addr e) = Some n \<and> is_node e n"
proof -
  have "e \<in> set (dir reverse xs)" unfolding at by simp
  then show "\<exists>n. zsl_nodes zsl (el_addr e) = Some n \<and> is_node e n" using shape_node [OF shape] by (cases reverse) simp_all
  have seg: "seg (zsl_nodes zsl) None xs []" using shape by (simp add: zsl_shape_def store_ok_def)
  have h: "\<forall>e \<in> set xs. 1 \<le> el_height e" using shape by (simp add: zsl_shape_def store_ok_def heights_ok_def)
  show "zsl_step reverse (zsl_nodes zsl) (el_addr e) = Some (ptr B)"
  proof (cases reverse)
    case True
    then have "xs = rev B @ e # rev A" using at by (metis append.assoc append_Cons append_Nil rev.simps(2) rev_append rev_rev_ident)
    moreover have "last_back None (rev B) = ptr B" by (cases B) (simp_all add: last_back_def)
    ultimately show ?thesis using True seg by (simp add: zsl_step_def seg_append node_of_def)
  next
    case False
    then have xs: "xs = A @ e # B" using at by simp
    then have "fwd 0 B = ptr B" using h by (cases B) auto
    moreover have "0 < el_height e" using h xs by auto
    ultimately show ?thesis using False seg get_tower [of 0 "el_height e" B] unfolding xs
      by (simp add: zsl_step_def seg_append node_of_def get_level_def)
  qed
qed

lemma range_items_ok:
  assumes "zsl_shape zsl xs"
  shows "dir reverse xs = A @ B \<Longrightarrow> k \<le> length B \<Longrightarrow> range_items reverse (zsl_nodes zsl) k (ptr B) = Some (map el_pair (take k B))"
proof (induction k arbitrary: A B)
  case (Suc k)
  then obtain e B' where B: "B = e # B'" by (cases B) auto
  obtain n where n: "zsl_nodes zsl (el_addr e) = Some n" "is_node e n" using step_ok(2) [OF assms Suc.prems(1) [unfolded B]] by blast
  have "range_items reverse (zsl_nodes zsl) k (ptr B') = Some (map el_pair (take k B'))" by (rule Suc.IH [of "A @ [e]"]) (use Suc.prems B in auto)
  then show ?case using n step_ok(1) [OF assms Suc.prems(1) [unfolded B]] B by (simp add: is_node_def)
qed simp

lemma skip_loop_ok:
  assumes "zsl_shape zsl xs"
  shows "dir reverse xs = A @ B \<Longrightarrow> int64_range offset \<Longrightarrow>
    skip_loop reverse (zsl_nodes zsl) offset (ptr B) = Some (ptr (if offset < 0 then [] else drop (nat offset) B))"
proof (induction B arbitrary: A offset)
  case Nil
  then show ?case by (simp add: skip_loop.simps)
next
  case (Cons e B)
  have len: "length B < 2 ^ 32" using assms arg_cong [OF Cons.prems(1), of length] by (auto simp: zsl_shape_def split: if_splits)
  note sp = s64_pred [OF Cons.prems(2)]
  have "skip_loop reverse (zsl_nodes zsl) (s64 (offset - 1)) (ptr B) = Some (ptr (if s64 (offset - 1) < 0 then [] else drop (nat (s64 (offset - 1))) B))"
    by (rule Cons.IH [of "A @ [e]"]) (use Cons.prems sp(2) in auto)
  moreover have "(if s64 (offset - 1) < 0 then [] else drop (nat (s64 (offset - 1))) B) = (if offset < 0 then [] else drop (nat offset) (e # B))" if "offset \<noteq> 0"
  proof -
    have "drop (nat (2 ^ 63 - 1)) B = []" using len by simp
    then show ?thesis using that sp(1) by (auto simp: drop_Cons' nat_diff_distrib)
  qed
  ultimately show ?case using step_ok(1) [OF assms Cons.prems(1)] by (subst skip_loop.simps) auto
qed

lemma items_loop_ok:
  assumes shape: "zsl_shape zsl xs" and go: "decides go T xs"
  shows "dir reverse xs = A @ B \<Longrightarrow> int64_range limit \<Longrightarrow>
    items_loop reverse go (zsl_nodes zsl) limit (ptr B) = Some (map el_pair (if limit < 0 then takeWhile T B else take (nat limit) (takeWhile T B)))"
proof (induction B arbitrary: A limit)
  case Nil
  then show ?case by (simp add: items_loop.simps)
next
  case (Cons e B)
  have len: "length B < 2 ^ 32" using shape arg_cong [OF Cons.prems(1), of length] by (auto simp: zsl_shape_def split: if_splits)
  note sp = s64_pred [OF Cons.prems(2)]
  let ?f = "\<lambda>k. map el_pair (if k < 0 then takeWhile T B else take (nat k) (takeWhile T B))"
  have IH: "items_loop reverse go (zsl_nodes zsl) (s64 (limit - 1)) (ptr B) = Some (?f (s64 (limit - 1)))"
    by (rule Cons.IH [of "A @ [e]"]) (use Cons.prems sp(2) in auto)
  obtain n where n: "zsl_nodes zsl (el_addr e) = Some n" "is_node e n" using step_ok(2) [OF shape Cons.prems(1)] by blast
  have "e \<in> set (dir reverse xs)" unfolding Cons.prems(1) by simp
  then have "go n = Some (T e)" using go n(2) by (cases reverse) (simp_all add: decides_def)
  moreover have "?f (s64 (limit - 1)) = map el_pair (if limit < 0 then takeWhile T B else take (nat limit - 1) (takeWhile T B))" if "limit \<noteq> 0"
  proof -
    have "take (nat (2 ^ 63 - 1)) (takeWhile T B) = takeWhile T B" using len length_takeWhile_le [of T B] by (intro take_all) simp
    then show ?thesis using that sp(1) by (auto simp: nat_diff_distrib)
  qed
  ultimately show ?case using IH n step_ok(1) [OF shape Cons.prems(1)] by (subst items_loop.simps) (auto simp: is_node_def take_Cons')
qed

section \<open>Ranges by index\<close>

definition zseq_slice :: "int \<Rightarrow> int \<Rightarrow> 'a list \<Rightarrow> nat \<times> nat" where
  "zseq_slice start stop zl = (let n = int (length zl);
     a = (if start < 0 then max 0 (n + start) else start); b = (if stop < 0 then n + stop else stop) in (nat a, nat (b + 1)))"

definition zseq_range :: "int \<Rightarrow> int \<Rightarrow> 'a list \<Rightarrow> 'a list" where
  "zseq_range start stop zl = (case zseq_slice start stop zl of (a, b) \<Rightarrow> drop a (take b zl))"

definition zseq_remrange :: "int \<Rightarrow> int \<Rightarrow> 'a list \<Rightarrow> 'a list" where
  "zseq_remrange start stop zl = (case zseq_slice start stop zl of (a, b) \<Rightarrow> take a zl @ drop (max a b) zl)"

lemma range_indexes_slice:
  assumes "zseq_slice start stop zl = (a, b)"
  shows "range_indexes (int (length zl)) start stop =
    (if a < min b (length zl) then Some (int a, int (min b (length zl)) - 1) else None)"
  using assms by (auto simp: zseq_slice_def range_indexes_def Let_def split: if_splits)

lemma zseq_slice_cong: "length xs = length ys \<Longrightarrow> zseq_slice start stop xs = zseq_slice start stop ys"
  by (simp add: zseq_slice_def)

lemma range_start_ok:
  assumes ok: "zsl_ok zsl xs" and a: "a < length xs" and len: "length xs < 2 ^ 31"
  shows "(if int a > 0 then zslGetElementByRank zsl (nat (if reverse then s32 (int (zsl_length zsl)) - int a else int a + 1))
      else if reverse then Some (zsl_tail zsl)
      else do { (forward, _) \<leftarrow> get_level (zsl_nodes zsl) (zsl_header zsl) 0; Some forward }) = Some (ptr (drop a (dir reverse xs)))"
proof -
  have shape: "zsl_shape zsl xs" "zsl_length zsl = length xs" "zsl_tail zsl = last_back None xs" using ok by (simp_all add: zsl_ok_def zsl_shape_def)
  show ?thesis
  proof (cases "a = 0")
    case True
    have "splits (\<lambda>n r. Some False) [] xs" by (simp add: splits_def)
    from search_at(3) [of zsl "[]" xs, OF _ this, of "\<lambda>k. k"] shape(1) have "get_level (zsl_nodes zsl) (zsl_header zsl) 0 = Some (ptr xs, spn 0 xs)"
      by (cases xs) (simp_all add: nd_def)
    moreover have "zsl_tail zsl = ptr (rev xs)" using shape(3) by (cases xs rule: rev_cases) (simp_all add: last_back_def)
    ultimately show ?thesis using True by simp
  next
    case False
    let ?r = "nat (if reverse then s32 (int (zsl_length zsl)) - int a else int a + 1)"
    have r: "?r = (if reverse then length xs - a else Suc a)" using len a shape(2) by auto
    then have "0 < ?r" using a by auto
    then have "zslGetElementByRank zsl ?r = Some (Some (el_addr (xs ! (?r - 1))))" using zslGetElementByRank_ok [OF ok, of ?r] a False unfolding r by auto
    moreover have "xs ! (?r - 1) = dir reverse xs ! a" using a unfolding r by (auto simp: rev_nth)
    moreover have "ptr (drop a (dir reverse xs)) = Some (el_addr (dir reverse xs ! a))" using a by (subst Cons_nth_drop_Suc [symmetric]) simp_all
    ultimately show ?thesis using False by simp
  qed
qed

theorem zset_range_ok:
  assumes ok: "zset_ok zs xs" and len: "length xs < 2 ^ 31"
  shows "zset_range reverse zs start stop = Some (map el_pair (zseq_range start stop (dir reverse xs)))"
proof -
  obtain a b where ab: "zseq_slice start stop xs = (a, b)" by fastforce
  have ab': "zseq_slice start stop (dir reverse xs) = (a, b)" using ab zseq_slice_cong [of "rev xs" xs] by simp
  have z: "zsl_ok (zs_zsl zs) xs" "zsl_shape (zs_zsl zs) xs" "zsl_length (zs_zsl zs) = length xs" using ok by (simp_all add: zset_ok_def zsl_ok_def zsl_shape_def)
  let ?m = "min b (length xs)"
  note idx = range_indexes_slice [OF ab]
  show ?thesis
  proof (cases "a < ?m")
    case False
    then have "zseq_range start stop (dir reverse xs) = []" using ab' by (simp add: zseq_range_def min_def split: if_splits)
    moreover have "range_indexes (int (length xs)) start stop = None" using False unfolding idx by (simp only: if_False)
    ultimately show ?thesis using z(3) len by (simp add: zset_range_def Let_def)
  next
    case True
    have "nat (s32 (int ?m - 1 - int a + 1)) = ?m - a" using len True by simp
    moreover have "range_items reverse (zsl_nodes (zs_zsl zs)) (?m - a) (ptr (drop a (dir reverse xs))) = Some (map el_pair (take (?m - a) (drop a (dir reverse xs))))"
      by (rule range_items_ok [OF z(2), of _ "take a (dir reverse xs)"]) (use True in simp_all)
    moreover have "take (?m - a) (drop a (dir reverse xs)) = zseq_range start stop (dir reverse xs)"
      using ab' by (simp add: zseq_range_def drop_take min_def)
    moreover have "range_indexes (int (length xs)) start stop = Some (int a, int ?m - 1)" using True unfolding idx by (simp only: if_True)
    moreover have "s32 (int (length xs)) = int (length xs)" using len by simp
    ultimately show ?thesis using True z(3) range_start_ok [OF z(1) _ len, of a reverse] unfolding zset_range_def Let_def
      by (simp only: option.case prod.case Option.bind.simps)
  qed
qed

section \<open>Ranges by limits\<close>

definition window :: "int \<Rightarrow> int \<Rightarrow> 'a list \<Rightarrow> 'a list" where
  "window offset limit xs = (let ys = (if offset < 0 then [] else drop (nat offset) xs) in if limit < 0 then ys else take (nat limit) ys)"

lemma range_parts:
  assumes sorted: "sorted_wrt r xs" and up: "\<And>x y. r x y \<Longrightarrow> G x \<Longrightarrow> G y" and down: "\<And>x y. r x y \<Longrightarrow> H y \<Longrightarrow> H x"
  shows "xs = filter (\<lambda>e. \<not> G e) xs @ filter (\<lambda>e. G e \<and> H e) xs @ filter (\<lambda>e. G e \<and> \<not> H e) xs"
proof -
  have "filter (\<lambda>e. \<not> G e) xs @ filter G xs = xs" using split_down [OF sorted, of "\<lambda>e. \<not> G e"] up by auto
  moreover have "filter H (filter G xs) @ filter (\<lambda>e. \<not> H e) (filter G xs) = filter G xs"
    by (rule split_down [OF sorted_wrt_filter [OF sorted]]) (rule down)
  ultimately show ?thesis by (simp add: conj_commute)
qed

text \<open>A query that starts at the first element of the range, in the order of the walk, and goes on while \<open>T\<close> holds.\<close>

lemma range_query_parts:
  assumes shape: "zsl_shape zsl xs" and go: "decides go T xs" and ys: "dir reverse xs = A @ D @ E" and D: "\<forall>e \<in> set D. T e" and E: "\<forall>e \<in> set E. \<not> T e"
    and start: "start = Some (if D = [] then None else ptr D)" and range: "int64_range offset" "int64_range limit"
  shows "range_query reverse start go zsl offset limit = Some (map el_pair (window offset limit D))"
proof (cases "D = []")
  case True
  then show ?thesis using start by (simp add: range_query_def window_def)
next
  case False
  then obtain e D' where e: "D = e # D'" by (cases D) auto
  have skip: "skip_loop reverse (zsl_nodes zsl) offset (ptr (D @ E)) = Some (ptr (if offset < 0 then [] else drop (nat offset) (D @ E)))"
    by (rule skip_loop_ok [OF shape ys range(1)])
  let ?B = "if offset < 0 then [] else drop (nat offset) (D @ E)"
  have tw: "takeWhile T (drop k (D @ E)) = drop k D" for k
  proof -
    have "takeWhile T (drop k D @ drop (k - length D) E) = drop k D @ takeWhile T (drop (k - length D) E)"
      by (rule takeWhile_append2) (use D in \<open>auto dest: in_set_dropD\<close>)
    moreover have "takeWhile T (drop (k - length D) E) = []"
    proof -
      have "\<not> T x" if "x \<in> set (drop (k - length D) E)" for x using E in_set_dropD [OF that] by blast
      then show ?thesis by (cases "drop (k - length D) E") auto
    qed
    ultimately show ?thesis by simp
  qed
  have "dir reverse xs = (A @ (if offset < 0 then D @ E else take (nat offset) (D @ E))) @ ?B" using ys by (simp del: take_append drop_append)
  from items_loop_ok [OF shape go this range(2)] have
    "items_loop reverse go (zsl_nodes zsl) limit (ptr ?B) = Some (map el_pair (window offset limit D))"
    using tw by (simp add: window_def Let_def)
  then show ?thesis using start skip e by (simp add: range_query_def)
qed

lemma find_filter: "find P xs = (case filter P xs of [] \<Rightarrow> None | x # _ \<Rightarrow> Some x)"
  by (induction xs) auto

lemma ptr_find: "map_option el_addr (find P xs) = ptr (filter P xs)"
  by (simp add: find_filter ptr_def split: list.split)

lemma range_query_ok:
  assumes shape: "zsl_shape zsl xs" and sorted: "sorted_wrt r xs" and gte: "decides gte G xs" and lte: "decides lte H xs"
    and up: "\<And>x y. r x y \<Longrightarrow> G x \<Longrightarrow> G y" and down: "\<And>x y. r x y \<Longrightarrow> H y \<Longrightarrow> H x"
    and start: "start = Some (map_option el_addr (find (\<lambda>e. G e \<and> H e) (dir reverse xs)))" and range: "int64_range offset" "int64_range limit"
  shows "range_query reverse start (if reverse then gte else lte) zsl offset limit =
    Some (map el_pair (window offset limit (dir reverse (filter (\<lambda>e. G e \<and> H e) xs))))"
proof (rule range_query_parts [OF shape _ _ _ _ _ range])
  let ?D = "filter (\<lambda>e. G e \<and> H e) xs" and ?L = "filter (\<lambda>e. \<not> G e) xs" and ?E = "filter (\<lambda>e. G e \<and> \<not> H e) xs"
  have parts: "xs = ?L @ ?D @ ?E" using up down by (intro range_parts [OF sorted]) blast+
  show "decides (if reverse then gte else lte) (if reverse then G else H) xs" using gte lte by simp
  have "rev xs = rev ?E @ rev ?D @ rev ?L" by (subst (1) parts) simp
  then show "dir reverse xs = (if reverse then rev ?E else ?L) @ dir reverse ?D @ (if reverse then rev ?L else ?E)" using parts by (cases reverse) simp_all
  show "\<forall>e \<in> set (dir reverse ?D). (if reverse then G else H) e" "\<forall>e \<in> set (if reverse then rev ?L else ?E). \<not> (if reverse then G else H) e" by simp_all
  show "start = Some (if dir reverse ?D = [] then None else ptr (dir reverse ?D))" using start unfolding ptr_find by (auto simp: rev_filter)
qed

lemma zset_shape: "zset_ok zs xs \<Longrightarrow> zsl_ok (zs_zsl zs) xs \<and> zsl_shape (zs_zsl zs) xs \<and> zsorted xs \<and> distinct (map el_str xs)"
  by (simp add: zset_ok_def zsl_ok_def)

definition score_in :: "('s :: linorder) zrangespec \<Rightarrow> 's \<Rightarrow> bool" where
  "score_in spec s \<longleftrightarrow> zslValueGteMin s spec \<and> zslValueLteMax s spec"

lemma score_mono:
  assumes "zless (zkey x) (zkey y)"
  shows "zslValueGteMin (el_score x) spec \<Longrightarrow> zslValueGteMin (el_score y) spec" "zslValueLteMax (el_score y) spec \<Longrightarrow> zslValueLteMax (el_score x) spec"
  using assms by (auto simp: zkey_def zslValueGteMin_def zslValueLteMax_def split: if_splits)

lemma score_decides: "decides (gte_score spec) (\<lambda>e. zslValueGteMin (el_score e) spec) xs" "decides (lte_score spec) (\<lambda>e. zslValueLteMax (el_score e) spec) xs"
  by (auto simp: decides_def is_node_def)

theorem zset_rangebyscore_ok:
  assumes ok: "zset_ok zs xs" and range: "int64_range offset" "int64_range limit"
  shows "zset_rangebyscore reverse zs spec offset limit =
    Some (map el_pair (window offset limit (dir reverse (filter (\<lambda>e. score_in spec (el_score e)) xs))))"
proof -
  note z = zset_shape [OF ok]
  have st: "zsl_ok (zs_zsl zs) xs" "zsl_shape (zs_zsl zs) xs" "sorted_wrt (\<lambda>x y. zless (zkey x) (zkey y)) xs" using z by (simp_all add: zsorted_def)
  have "(if reverse then zslLastInRange (zs_zsl zs) spec else zslFirstInRange (zs_zsl zs) spec) =
      Some (map_option el_addr (find (\<lambda>e. zslValueGteMin (el_score e) spec \<and> zslValueLteMax (el_score e) spec) (dir reverse xs)))"
    using zslRange_ok [OF st(1), of spec] by simp
  from range_query_ok [OF st(2,3) score_decides score_mono this range] show ?thesis by (simp add: zset_rangebyscore_def Let_def score_in_def)
qed

section \<open>Counting\<close>

lemma rank_of_parts:
  assumes "zsorted xs" "xs = L @ e # R"
  shows "rank_of (zkey e) xs = length L"
proof -
  have "filter (\<lambda>x. zless (zkey x) (zkey e)) L = L" "filter (\<lambda>x. zless (zkey x) (zkey e)) R = []"
    using assms unfolding zsorted_def by (auto simp: sorted_wrt_append filter_id_conv filter_empty_conv dest: zless_asym)
  then show ?thesis using assms(2) by (simp add: rank_of_def)
qed

lemma node_rank_ok:
  assumes "zsl_ok zsl xs" "distinct (map el_str xs)" "xs = L @ e # R"
  shows "node_rank garb zsl (el_addr e) = Some (Suc (length L))"
proof -
  have e: "e \<in> set xs" "string_wf (el_obj e)" "zsorted xs" using assms by (auto simp: zsl_ok_def)
  obtain n where n: "zsl_nodes zsl (el_addr e) = Some n" "is_node e n" using shape_node [of zsl xs e] assms(1) e(1) by (auto simp: zsl_ok_def)
  have "zslGetRank garb zsl (el_score e) (el_obj e) = Some (Suc (rank_of (zkey e) xs))"
    using zslGetRank_ok(1) [OF assms(1) e(2) assms(2), of "el_score e" garb] e(1) by (simp add: zkey_def image_iff) metis
  then show ?thesis using n rank_of_parts [OF e(3) assms(3)] by (simp add: node_rank_def is_node_def)
qed

lemma range_count_parts:
  assumes ok: "zsl_ok zsl xs" and uniq: "distinct (map el_str xs)" and len: "length xs < 2 ^ 31" and xs: "xs = L @ D @ E"
    and lo: "lo = Some (ptr D)" and hi: "hi = Some (ptr (rev D))"
  shows "range_count garb lo hi zsl = Some (int (length D))"
proof (cases "D = []")
  case True
  then show ?thesis using lo by (simp add: range_count_def)
next
  case False
  obtain e D' f D'' where D: "D = e # D'" "D = D'' @ [f]" using False by (metis neq_Nil_conv rev_exhaust)
  have n: "zsl_length zsl = length xs" using ok by (simp add: zsl_ok_def zsl_shape_def)
  have a: "node_rank garb zsl (el_addr e) = Some (Suc (length L))" by (rule node_rank_ok [OF ok uniq]) (use xs D(1) in simp)
  have b: "node_rank garb zsl (el_addr f) = Some (Suc (length (L @ D'')))" by (rule node_rank_ok [OF ok uniq, where R = E]) (use xs D(2) in simp)
  have l: "length xs = length L + length D + length E" "length D = Suc (length D'')" using xs D(2) by simp_all
  have p: "ptr D = Some (el_addr e)" "ptr (rev D) = Some (el_addr f)" using arg_cong [OF D(1), of ptr] arg_cong [OF D(2), of "\<lambda>D. ptr (rev D)"] by simp_all
  have "s32 (int (length xs) - (int (Suc (length L)) - 1)) = int (length xs) - int (length L)" using len l by simp
  then show ?thesis using lo hi p a b n len l by (simp add: range_count_def Let_def)
qed

lemma range_count_ok:
  assumes ok: "zsl_ok zsl xs" "distinct (map el_str xs)" "length xs < 2 ^ 31" and sorted: "sorted_wrt r xs"
    and up: "\<And>x y. r x y \<Longrightarrow> G x \<Longrightarrow> G y" and down: "\<And>x y. r x y \<Longrightarrow> H y \<Longrightarrow> H x"
    and lo: "lo = Some (map_option el_addr (find (\<lambda>e. G e \<and> H e) xs))" and hi: "hi = Some (map_option el_addr (find (\<lambda>e. G e \<and> H e) (rev xs)))"
  shows "range_count garb lo hi zsl = Some (int (length (filter (\<lambda>e. G e \<and> H e) xs)))"
proof (rule range_count_parts [OF ok])
  show "xs = filter (\<lambda>e. \<not> G e) xs @ filter (\<lambda>e. G e \<and> H e) xs @ filter (\<lambda>e. G e \<and> \<not> H e) xs"
    using up down by (intro range_parts [OF sorted]) blast+
  show "lo = Some (ptr (filter (\<lambda>e. G e \<and> H e) xs))" "hi = Some (ptr (rev (filter (\<lambda>e. G e \<and> H e) xs)))" using lo hi unfolding ptr_find by (simp_all add: rev_filter)
qed

theorem zset_count_ok:
  assumes ok: "zset_ok zs xs" and len: "length xs < 2 ^ 31"
  shows "zset_count garb zs spec = Some (int (length (filter (\<lambda>e. score_in spec (el_score e)) xs)))"
proof -
  note z = zset_shape [OF ok]
  have st: "zsl_ok (zs_zsl zs) xs" "distinct (map el_str xs)" "sorted_wrt (\<lambda>x y. zless (zkey x) (zkey y)) xs" using z by (simp_all add: zsorted_def)
  from range_count_ok [OF st(1,2) len st(3) score_mono zslRange_ok [OF st(1)]] show ?thesis by (simp add: zset_count_def Let_def score_in_def)
qed

section \<open>Releasing\<close>

lemma free_loop_ok:
  "\<forall>e \<in> set L. 1 \<le> el_height e \<Longrightarrow> distinct (map el_addr L) \<Longrightarrow> (\<And>A e B. L = A @ e # B \<Longrightarrow> \<exists>b. nodes (el_addr e) = Some (node_of b e B)) \<Longrightarrow>
    free_loop nodes (ptr L) = Some (nodes |` (- el_addr ` set L))"
proof (induction L arbitrary: nodes)
  case Nil
  then show ?case by (simp add: free_loop.simps)
next
  case (Cons e L)
  obtain b where b: "nodes (el_addr e) = Some (node_of b e L)" using Cons.prems(3) [of "[]" e L] by auto
  have "fwd 0 L = ptr L" using Cons.prems(1) by (cases L) auto
  then have nx: "get_level nodes (el_addr e) 0 = Some (ptr L, spn 0 L)"
    using b Cons.prems(1) get_tower [of 0 "el_height e" L] by (simp add: get_level_def node_of_def)
  have "free_loop (zslFreeNode nodes (el_addr e)) (ptr L) = Some (zslFreeNode nodes (el_addr e) |` (- el_addr ` set L))"
  proof (rule Cons.IH)
    fix A f B assume L: "L = A @ f # B"
    have "el_addr f \<noteq> el_addr e" using Cons.prems(2) L by auto
    then show "\<exists>b. zslFreeNode nodes (el_addr e) (el_addr f) = Some (node_of b f B)" using Cons.prems(3) [of "e # A" f B] L by (simp add: zslFreeNode_def)
  qed (use Cons.prems in simp_all)
  moreover have "zslFreeNode nodes (el_addr e) |` (- el_addr ` set L) = nodes |` (- el_addr ` set (e # L))" by (auto simp: zslFreeNode_def restrict_map_def fun_eq_iff)
  ultimately show ?case using nx by (subst free_loop.simps) simp
qed

text \<open>Every node is released once, and none is read after that.\<close>

theorem zslFree_ok:
  assumes shape: "zsl_shape zsl xs"
  shows "zslFree zsl = Some Map.empty"
proof -
  let ?N = "(zsl_nodes zsl)(zsl_header zsl := None)"
  have st: "seg (zsl_nodes zsl) None xs []" "distinct (zsl_header zsl # map el_addr xs)" "dom (zsl_nodes zsl) = insert (zsl_header zsl) (el_addr ` set xs)"
    "\<forall>e \<in> set xs. 1 \<le> el_height e" using shape by (auto simp: zsl_shape_def store_ok_def heights_ok_def)
  have N: "\<exists>b. ?N (el_addr e) = Some (node_of b e B)" if "xs = A @ e # B" for A e B using st(1,2) that by (auto simp: seg_append)
  have "free_loop ?N (ptr xs) = Some (?N |` (- el_addr ` set xs))" by (rule free_loop_ok [OF st(4) _ N]) (use st(2) in simp_all)
  moreover have "?N |` (- el_addr ` set xs) = Map.empty" using st(3) by (auto simp: fun_eq_iff restrict_map_def)
  moreover have "get_level (zsl_nodes zsl) (zsl_header zsl) 0 = Some (ptr xs, spn 0 xs)"
    using search_at(3) [of zsl "[]" xs "\<lambda>n r. Some False" "\<lambda>k. k"] shape by (cases xs) (auto simp: nd_def splits_def)
  ultimately show ?thesis by (simp add: zslFree_def)
qed

end
