(* ===== verification/T_zset_Run.thy ===== *)
theory T_zset_Run
  imports T_zset_Range
begin

text \<open>
  Removal of ranges, lexicographic queries, and sequences of operations: whatever operations are applied to a sorted set, its contents and all replies are
  those of the same operations on the ordered sequence of pairs. The loop and the reply of \<open>zaddGenericCommand\<close> are at the end.
\<close>

section \<open>Removing a range\<close>

lemma shrink_dict_ok:
  assumes "plain_inv d" "card (dom (dict_abs d)) \<le> 2 ^ 30"
  shows "\<exists>d'. shrink_dict can d = Some d' \<and> plain_inv d' \<and> dict_abs d' = dict_abs d"
  using dictResize_plain [OF assms, of can] assms(1) by (auto simp: shrink_dict_def)

lemma entries_minus:
  assumes "distinct (map el_str xs)" "mset xs = mset ys + mset D"
  shows "distinct (map el_str ys)" "map_of (map el_entry ys) = map_of (map el_entry xs) |` (- el_str ` set D)"
proof -
  have "mset (map el_str xs) = mset (map el_str (ys @ D))" using assms(2) by simp
  then have d: "distinct (map el_str (ys @ D))" using assms(1) mset_eq_imp_distinct_iff by blast
  then show dy: "distinct (map el_str ys)" by simp
  have set: "set xs = set ys \<union> set D" using arg_cong [OF assms(2), of set_mset] by simp
  have look: "map_of (map el_entry zs) b = Some v \<longleftrightarrow> (\<exists>e \<in> set zs. el_str e = b \<and> v = (el_obj e, el_addr e))" if "distinct (map el_str zs)" for zs :: "'a elem list" and b v
    using map_of_eq_Some_iff [of "map el_entry zs" b v] that by (auto simp: comp_def image_iff)
  have "map_of (map el_entry ys) b = Some v \<longleftrightarrow> (map_of (map el_entry xs) |` (- el_str ` set D)) b = Some v" for b v
    unfolding look [OF dy] using look [OF assms(1), of b v] d set by (auto simp: restrict_map_def image_iff)
  then show "map_of (map el_entry ys) = map_of (map el_entry xs) |` (- el_str ` set D)" by (metis (no_types, lifting) not_None_eq ext)
qed

lemma zset_removed:
  assumes ok: "zset_ok zs xs" and len: "length xs \<le> 2 ^ 30" and ms: "mset xs = mset ys + mset D"
    and del: "zsl_ok zsl ys" "plain_inv d" "dict_abs d = dict_abs (zs_dict zs) |` (- el_str ` set D)"
  shows "\<exists>d'. shrink_dict can d = Some d' \<and> zset_ok \<lparr>zs_dict = d', zs_zsl = zsl\<rparr> ys"
proof -
  have z: "distinct (map el_str xs)" "dict_abs (zs_dict zs) = map_of (map el_entry xs)" using ok by (simp_all add: zset_ok_def)
  note e = entries_minus [OF z(1) ms]
  have abs: "dict_abs d = map_of (map el_entry ys)" unfolding e(2) del(3) z(2) ..
  have "length ys \<le> length xs" using arg_cong [OF ms, of size] by simp
  then have "card (dom (dict_abs d)) \<le> 2 ^ 30" unfolding abs card_dom_entries [OF e(1)] using len by simp
  then show ?thesis using shrink_dict_ok [OF del(2), of can] del(1) e(1) abs by (auto simp: zset_ok_def)
qed

lemma mset_partition: "mset xs = mset (filter (\<lambda>x. \<not> P x) xs) + mset (filter P xs)"
  using multiset_partition [of "mset xs" P] by (simp add: mset_filter add.commute)

theorem zset_remrangebyscore_ok:
  fixes spec :: "('s :: linorder) zrangespec"
  assumes ok: "zset_ok zs xs" and len: "length xs \<le> 2 ^ 30"
  defines "P \<equiv> \<lambda>e. score_in spec (el_score e)"
  shows "\<exists>zs'. zset_remrangebyscore env zs spec = Some (zs', length (filter P xs)) \<and> zset_ok zs' (filter (\<lambda>e. \<not> P e) xs)"
proof -
  have z: "zsl_ok (zs_zsl zs) xs" "plain_inv (zs_dict zs)" using ok by (simp_all add: zset_ok_def)
  obtain zsl d where del: "zslDeleteRangeByScore (ze_garb env) (zs_zsl zs) spec (zs_dict zs) = Some (zsl, d, length (filter P xs))"
    "zsl_ok zsl (filter (\<lambda>e. \<not> P e) xs)" "plain_inv d" "dict_abs d = dict_abs (zs_dict zs) |` (- el_str ` set (filter P xs))"
    using zslDeleteRangeByScore_ok [OF z, of "ze_garb env" spec] unfolding P_def score_in_def by blast
  show ?thesis using zset_removed [OF ok len mset_partition del(2-4), of "ze_can env"] del(1) by (auto simp: zset_remrangebyscore_def)
qed

theorem zset_remrangebylex_ok:
  fixes spec :: zlexrangespec and s :: "'s :: linorder"
  assumes ok: "zset_ok zs xs" and len: "length xs \<le> 2 ^ 30" and same: "\<forall>e \<in> set xs. el_score e = s" and wf: "lex_wf spec"
  defines "P \<equiv> \<lambda>e :: 's elem. lex_ge spec (el_str e) \<and> lex_le spec (el_str e)"
  shows "\<exists>zs'. zset_remrangebylex env zs spec = Some (zs', length (filter P xs)) \<and> zset_ok zs' (filter (\<lambda>e. \<not> P e) xs)"
proof -
  have z: "zsl_ok (zs_zsl zs) xs" "plain_inv (zs_dict zs)" using ok by (simp_all add: zset_ok_def)
  obtain zsl d where del: "zslDeleteRangeByLex (ze_garb env) (zs_zsl zs) spec (zs_dict zs) = Some (zsl, d, length (filter P xs))"
    "zsl_ok zsl (filter (\<lambda>e. \<not> P e) xs)" "plain_inv d" "dict_abs d = dict_abs (zs_dict zs) |` (- el_str ` set (filter P xs))"
    using zslDeleteRangeByLex_ok [OF z(1) same wf z(2), of "ze_garb env"] unfolding P_def by blast
  show ?thesis using zset_removed [OF ok len mset_partition del(2-4), of "ze_can env"] del(1) by (auto simp: zset_remrangebylex_def)
qed

theorem zset_remrangebyrank_ok:
  assumes ok: "zset_ok zs xs" and len: "length xs \<le> 2 ^ 30"
  shows "\<exists>zs'. zset_remrangebyrank env zs start stop = Some (zs', length (zseq_range start stop xs)) \<and> zset_ok zs' (zseq_remrange start stop xs)"
proof -
  obtain a b where ab: "zseq_slice start stop xs = (a, b)" by fastforce
  have z: "zsl_ok (zs_zsl zs) xs" "plain_inv (zs_dict zs)" "zsl_length (zs_zsl zs) = length xs" using ok by (simp_all add: zset_ok_def zsl_ok_def zsl_shape_def)
  let ?m = "min b (length xs)"
  have idx: "range_indexes (int (u32 (zsl_length (zs_zsl zs)))) start stop = (if a < ?m then Some (int a, int ?m - 1) else None)"
    using range_indexes_slice [OF ab] z(3) len by simp
  show ?thesis
  proof (cases "a < ?m")
    case False
    then have "zseq_range start stop xs = []" "zseq_remrange start stop xs = xs"
      using ab by (auto simp: zseq_range_def zseq_remrange_def min_def max_def split: if_splits)
    then show ?thesis using ok unfolding zset_remrangebyrank_def idx if_not_P [OF False] by simp
  next
    case True
    let ?D = "take (Suc ?m - Suc a) (drop (Suc a - 1) xs)" and ?ys = "take (Suc a - 1) xs @ drop (max ?m (Suc a - 1)) xs"
    obtain zsl d where del: "zslDeleteRangeByRank (ze_garb env) (zs_zsl zs) (Suc a) ?m (zs_dict zs) = Some (zsl, d, length ?D)"
      "zsl_ok zsl ?ys" "plain_inv d" "dict_abs d = dict_abs (zs_dict zs) |` (- el_str ` set ?D)"
      using zslDeleteRangeByRank_ok [OF z(1,2), of "Suc a" "ze_garb env" ?m] by auto
    have ys: "?D = zseq_range start stop xs" "?ys = zseq_remrange start stop xs"
      using ab True by (auto simp: zseq_range_def zseq_remrange_def drop_take min_def max_def)
    have "xs = take a xs @ ?D @ drop ?m xs" using True by (simp add: drop_take) (metis append_take_drop_id drop_drop le_add_diff_inverse2 less_imp_le min_less_iff_conj)
    then have "mset xs = mset (take a xs @ ?D @ drop ?m xs)" by (rule arg_cong)
    then have ms: "mset xs = mset ?ys + mset ?D" using max_absorb1 [OF less_imp_le [OF True]] by simp
    have n: "nat (int a + 1) = Suc a" "nat (int ?m - 1 + 1) = ?m" by simp_all
    show ?thesis using zset_removed [OF ok len ms del(2-4), of "ze_can env"] del(1) True idx unfolding zset_remrangebyrank_def n ys by (auto simp: n)
  qed
qed

section \<open>Parsing limits\<close>

lemma createEmbedded_encoding: "createEmbeddedStringObject garb p len = Some ob \<Longrightarrow> sdsEncodedObject ob"
  by (auto simp: createEmbeddedStringObject_def sdsEncodedObject_def Let_def split: Option.bind_splits)

lemma raw_object_encoded:
  assumes "length b \<le> REDIS_ENCODING_EMBSTR_SIZE_LIMIT"
  shows "sdsEncodedObject (raw_object b)"
proof -
  have "length b \<le> STRING_MAX" using assms by (simp add: REDIS_ENCODING_EMBSTR_SIZE_LIMIT_def STRING_MAX_def)
  then obtain ob where "createEmbeddedStringObject (\<lambda>_. 0) (Some b) (length b) = Some ob"
    using createEmbeddedStringObject_correct [of "length b" b "\<lambda>_. 0"] by auto
  then show ?thesis using assms createEmbedded_encoding by (simp add: raw_object_def createStringObject_def)
qed

theorem zslParseLexRangeItem_ok:
  assumes wf: "string_wf ob" "sdsEncodedObject ob"
  shows "str_val ob = [ch CHR ''-''] \<Longrightarrow> zslParseLexRangeItem garb ob = Some (Some (MinString, False))"
    "str_val ob = [ch CHR ''+''] \<Longrightarrow> zslParseLexRangeItem garb ob = Some (Some (MaxString, False))"
    "str_val ob = c # w \<Longrightarrow> c = ch CHR ''('' \<or> c = ch CHR ''['' \<Longrightarrow>
      \<exists>ob'. zslParseLexRangeItem garb ob = Some (Some (LexObj ob', c = ch CHR ''('')) \<and> string_wf ob' \<and> str_val ob' = w"
    "str_val ob = c # w \<Longrightarrow> c \<notin> {ch CHR ''+'', ch CHR ''-'', ch CHR ''('', ch CHR ''[''} \<Longrightarrow> zslParseLexRangeItem garb ob = Some None"
proof -
  obtain s where s: "o_ptr ob = PSds s" "sds_inv s" "s_len s \<le> STRING_MAX" "str_val ob = sds_str s"
    using wf by (cases rule: string_wf_cases) auto
  have at: "mem_get (s_buf s) i = Some ((str_val ob @ [0]) ! i)" if "i \<le> length (str_val ob)" for i
  proof (cases "i < s_len s")
    case True
    then show ?thesis using s(2,4) by (simp add: mem_get_def sds_inv_def sds_str_def nth_append)
  next
    case False
    then have "i = s_len s" using that s(2,4) length_sds_str by fastforce
    then show ?thesis using s(2,4) length_sds_str [OF s(2)] by (simp add: mem_get_def sds_inv_def nth_append)
  qed
  have d: "ch CHR ''-'' \<noteq> ch CHR ''+''" "ch CHR ''('' \<noteq> ch CHR ''+''" "ch CHR ''('' \<noteq> ch CHR ''-''" "ch CHR ''['' \<noteq> ch CHR ''+''" "ch CHR ''['' \<noteq> ch CHR ''-''" "ch CHR ''['' \<noteq> ch CHR ''(''"
    by code_simp+
  show "zslParseLexRangeItem garb ob = Some (Some (MinString, False))" if "str_val ob = [ch CHR ''-'']"
    using at [of 0] at [of 1] that d s(1) by (simp add: zslParseLexRangeItem_def)
  show "zslParseLexRangeItem garb ob = Some (Some (MaxString, False))" if "str_val ob = [ch CHR ''+'']"
    using at [of 0] at [of 1] that s(1) by (simp add: zslParseLexRangeItem_def)
  show "zslParseLexRangeItem garb ob = Some None" if "str_val ob = c # w" "c \<notin> {ch CHR ''+'', ch CHR ''-'', ch CHR ''('', ch CHR ''[''}"
    using at [of 0] that s(1) by (simp add: zslParseLexRangeItem_def)
  show "\<exists>ob'. zslParseLexRangeItem garb ob = Some (Some (LexObj ob', c = ch CHR ''('')) \<and> string_wf ob' \<and> str_val ob' = w"
    if c: "str_val ob = c # w" "c = ch CHR ''('' \<or> c = ch CHR ''[''"
  proof -
    have l: "s_len s = Suc (length w)" unfolding length_sds_str [OF s(2), symmetric] s(4) [symmetric] c(1) by simp
    then have w: "take (s_len s - 1) (drop 1 (s_buf s)) = w" using s(4) c(1) by (cases "s_buf s") (auto simp: sds_str_def)
    have "s_len s - 1 \<le> length (drop 1 (s_buf s))" "s_len s - 1 \<le> STRING_MAX" using s(2,3) by (simp_all add: sds_inv_def)
    then obtain ob' where "createStringObject garb (Some (drop 1 (s_buf s))) (s_len s - 1) = Some ob'" "string_wf ob'" "str_val ob' = w"
      using createStringObject_correct [of "s_len s - 1" "drop 1 (s_buf s)" garb] unfolding w by blast
    then show ?thesis using c at [of 0] d s(1) by (auto simp: zslParseLexRangeItem_def sdslen_def)
  qed
qed

lemma parse_before_minstring:
  "\<exists>ob. zslParseLexRange garb (raw_object (bytes ''-'')) (raw_object (bytes ''(minstring'')) =
     Some (Some \<lparr>zl_min = MinString, zl_max = LexObj ob, zl_minex = False, zl_maxex = True\<rparr>) \<and> string_wf ob \<and> str_val ob = bytes ''minstring''"
proof -
  let ?a = "raw_object (bytes ''-'')" and ?b = "raw_object (bytes ''(minstring'')"
  have wf: "string_wf ?a" "str_val ?a = [ch CHR ''-'']" "string_wf ?b" "str_val ?b = ch CHR ''('' # bytes ''minstring''"
    using raw_object_wf [of "bytes ''-''"] raw_object_wf [of "bytes ''(minstring''"] by (simp_all add: bytes_def STRING_MAX_def)
  have enc: "sdsEncodedObject ?a" "sdsEncodedObject ?b" by (simp_all add: raw_object_encoded bytes_def REDIS_ENCODING_EMBSTR_SIZE_LIMIT_def)
  obtain ob where "zslParseLexRangeItem garb ?b = Some (Some (LexObj ob, True))" "string_wf ob" "str_val ob = bytes ''minstring''"
    using zslParseLexRangeItem_ok(3) [OF wf(3) enc(2) wf(4)] by auto
  then show ?thesis using zslParseLexRangeItem_ok(1) [OF wf(1) enc(1) wf(2), of garb] enc by (auto simp: zslParseLexRange_def sdsEncodedObject_def)
qed

section \<open>Lexicographic queries\<close>

definition lex_in :: "zlexrangespec \<Rightarrow> byte list \<Rightarrow> bool" where
  "lex_in spec b \<longleftrightarrow> lex_ge spec b \<and> lex_le spec b"

theorem zset_lex_ok:
  assumes ok: "zset_ok zs xs" and same: "\<forall>e \<in> set xs. el_score e = s" and wf: "lex_wf spec" and good: "\<not> misjudged spec"
  shows "int64_range offset \<Longrightarrow> int64_range limit \<Longrightarrow> zset_rangebylex garb reverse zs spec offset limit =
      Some (map el_pair (window offset limit (dir reverse (filter (\<lambda>e. lex_in spec (el_str e)) xs))))"
    "length xs < 2 ^ 31 \<Longrightarrow> zset_lexcount garb zs spec = Some (int (length (filter (\<lambda>e. lex_in spec (el_str e)) xs)))"
proof -
  define r where "r = (\<lambda>x y. x \<in> set xs \<and> y \<in> set xs \<and> zless (zkey x) (zkey y))"
  note z = zset_shape [OF ok]
  have st: "zsl_ok (zs_zsl zs) xs" "zsl_shape (zs_zsl zs) xs" "distinct (map el_str xs)" "sorted_wrt r xs" "\<forall>e \<in> set xs. string_wf (el_obj e)"
    using z by (auto simp: zsorted_def zsl_ok_def r_def intro: sorted_wrt_mono_rel [rotated])
  have mono: "lex_ge spec (el_str x) \<Longrightarrow> lex_ge spec (el_str y)" "lex_le spec (el_str y) \<Longrightarrow> lex_le spec (el_str x)" if "r x y" for x y
    using that same_score_less [OF same] lex_mono unfolding r_def by blast+
  note ends = zslLexRange_ok(1,2) [OF st(1) same wf good]
  have start: "(if reverse then zslLastInLexRange garb (zs_zsl zs) spec else zslFirstInLexRange garb (zs_zsl zs) spec) =
      Some (map_option el_addr (find (\<lambda>e. lex_ge spec (el_str e) \<and> lex_le spec (el_str e)) (dir reverse xs)))"
    using ends by simp
  show "zset_rangebylex garb reverse zs spec offset limit = Some (map el_pair (window offset limit (dir reverse (filter (\<lambda>e. lex_in spec (el_str e)) xs))))"
    if "int64_range offset" "int64_range limit"
    unfolding zset_rangebylex_def Let_def lex_in_def by (rule range_query_ok [OF st(2,4) lex_decides [OF wf st(5)] _ _ start that]) (use mono in blast)+
  show "zset_lexcount garb zs spec = Some (int (length (filter (\<lambda>e. lex_in spec (el_str e)) xs)))" if "length xs < 2 ^ 31"
    unfolding zset_lexcount_def Let_def lex_in_def by (rule range_count_ok [OF st(1,3) that st(4) _ _ ends]) (use mono in blast)+
qed

text \<open>A range whose limits the test for emptiness confuses with the ends of the order is answered with nothing.\<close>

theorem zset_lex_misjudged:
  assumes ok: "zset_ok zs xs" and same: "\<forall>e \<in> set xs. el_score e = s" and wf: "lex_wf spec" and bad: "misjudged spec"
  shows "zset_rangebylex garb False zs spec offset limit = Some []" "zset_lexcount garb zs spec = Some 0"
proof -
  have "zsl_ok (zs_zsl zs) xs" using ok by (simp add: zset_ok_def)
  note none = zslLexRange_ok(3) [OF this same wf bad, of garb]
  show "zset_rangebylex garb False zs spec offset limit = Some []" using none by (simp add: zset_rangebylex_def range_query_def)
  show "zset_lexcount garb zs spec = Some 0" using none by (simp add: zset_lexcount_def range_count_def)
qed

section \<open>Sequences of operations\<close>

datatype 's zop =
  ZAdd bool bool bool 's robj | ZRem robj | ZScore robj | ZRank bool robj | ZRange bool int int
  | ZRangeByScore bool "'s zrangespec" int int | ZCount "'s zrangespec" | ZRemRangeByScore "'s zrangespec" | ZRemRangeByRank int int

datatype 's zres = RAdd "'s zadded" | RBool bool | RScore "'s option" | RRank "nat option" | RItems "('s \<times> byte list) list" | RInt int

fun zset_step :: "('s \<Rightarrow> 's \<Rightarrow> 's option) \<Rightarrow> 's zenv \<Rightarrow> 's zop \<Rightarrow> ('s :: linorder) zset \<Rightarrow> ('s zset \<times> 's zres) option" where
  "zset_step sum_of env (ZAdd nx xx incr s ele) zs = do { (zs, r) \<leftarrow> zadd_element sum_of nx xx incr env zs s ele; Some (zs, RAdd r) }"
| "zset_step sum_of env (ZRem ele) zs = do { (zs, r) \<leftarrow> zrem_element env zs ele; Some (zs, RBool r) }"
| "zset_step sum_of env (ZScore ele) zs = do { (zs, r) \<leftarrow> zset_score env zs ele; Some (zs, RScore r) }"
| "zset_step sum_of env (ZRank reverse ele) zs = do { (zs, r) \<leftarrow> zset_rank env reverse zs ele; Some (zs, RRank r) }"
| "zset_step sum_of env (ZRange reverse start stop) zs =
     do { items \<leftarrow> zset_range reverse zs start stop; Some (zs, RItems (map (\<lambda>(s, ob). (s, str_val ob)) items)) }"
| "zset_step sum_of env (ZRangeByScore reverse spec offset limit) zs =
     do { items \<leftarrow> zset_rangebyscore reverse zs spec offset limit; Some (zs, RItems (map (\<lambda>(s, ob). (s, str_val ob)) items)) }"
| "zset_step sum_of env (ZCount spec) zs = do { count \<leftarrow> zset_count (ze_garb env) zs spec; Some (zs, RInt count) }"
| "zset_step sum_of env (ZRemRangeByScore spec) zs = do { (zs, deleted) \<leftarrow> zset_remrangebyscore env zs spec; Some (zs, RInt (int deleted)) }"
| "zset_step sum_of env (ZRemRangeByRank start stop) zs = do { (zs, deleted) \<leftarrow> zset_remrangebyrank env zs start stop; Some (zs, RInt (int deleted)) }"

fun zseq_step :: "('s \<Rightarrow> 's \<Rightarrow> 's option) \<Rightarrow> 's zop \<Rightarrow> ('s :: linorder) zseq \<Rightarrow> 's zseq \<times> 's zres" where
  "zseq_step sum_of (ZAdd nx xx incr s ele) zl = (case zseq_add sum_of nx xx incr zl s (str_val ele) of (zl, r) \<Rightarrow> (zl, RAdd r))"
| "zseq_step sum_of (ZRem ele) zl = (zseq_delete (str_val ele) zl, RBool (str_val ele \<in> snd ` set zl))"
| "zseq_step sum_of (ZScore ele) zl = (zl, RScore (zseq_lookup (str_val ele) zl))"
| "zseq_step sum_of (ZRank reverse ele) zl =
     (zl, RRank (map_option (\<lambda>r. if reverse then length zl - Suc r else r) (zseq_rank (str_val ele) zl)))"
| "zseq_step sum_of (ZRange reverse start stop) zl = (zl, RItems (zseq_range start stop (dir reverse zl)))"
| "zseq_step sum_of (ZRangeByScore reverse spec offset limit) zl =
     (zl, RItems (window offset limit (dir reverse (filter (\<lambda>k. score_in spec (fst k)) zl))))"
| "zseq_step sum_of (ZCount spec) zl = (zl, RInt (int (length (filter (\<lambda>k. score_in spec (fst k)) zl))))"
| "zseq_step sum_of (ZRemRangeByScore spec) zl =
     (filter (\<lambda>k. \<not> score_in spec (fst k)) zl, RInt (int (length (filter (\<lambda>k. score_in spec (fst k)) zl))))"
| "zseq_step sum_of (ZRemRangeByRank start stop) zl = (zseq_remrange start stop zl, RInt (int (length (zseq_range start stop zl))))"

fun zop_ok :: "'s zop \<Rightarrow> bool" where
  "zop_ok (ZAdd nx xx incr s ele) = string_wf ele"
| "zop_ok (ZRem ele) = string_wf ele"
| "zop_ok (ZScore ele) = string_wf ele"
| "zop_ok (ZRank reverse ele) = string_wf ele"
| "zop_ok (ZRangeByScore reverse spec offset limit) = (int64_range offset \<and> int64_range limit)"
| "zop_ok _ = True"

lemma zseq_range_map: "zseq_range start stop (map f xs) = map f (zseq_range start stop xs)"
  using zseq_slice_cong [of "map f xs" xs start stop] by (simp add: zseq_range_def take_map drop_map split: prod.split)

lemma zseq_remrange_map: "zseq_remrange start stop (map f xs) = map f (zseq_remrange start stop xs)"
  using zseq_slice_cong [of "map f xs" xs start stop] by (simp add: zseq_remrange_def take_map drop_map split: prod.split)

lemma window_map: "window offset limit (map f xs) = map f (window offset limit xs)"
  by (simp add: window_def take_map drop_map Let_def)

lemma map_pair_zkey: "map (\<lambda>(s, ob). (s, str_val ob)) (map el_pair xs) = map zkey xs"
  by (simp add: zkey_def)

lemma filter_score_zkey: "filter (\<lambda>k. P (fst k)) (map zkey xs) = map zkey (filter (\<lambda>e. P (el_score e)) xs)"
  by (simp add: filter_map comp_def zkey_def)

lemma dir_map: "dir reverse (map f xs) = map f (dir reverse xs)"
  by (simp add: rev_map)

lemma zset_step_ok:
  assumes ok: "zset_ok zs xs" and env: "env_ok env" and op: "zop_ok op" and len: "length xs < 2 ^ 30"
  shows "\<exists>zs' ys r. zset_step sum_of env op zs = Some (zs', r) \<and> zset_ok zs' ys \<and> zseq_step sum_of op (map zkey xs) = (map zkey ys, r) \<and> length ys \<le> Suc (length xs)"
proof (cases op)
  case (ZAdd nx xx incr s ele)
  then show ?thesis using zadd_element_ok [OF ok env _ len, of ele sum_of nx xx incr s] op by fastforce
next
  case (ZRem ele)
  then show ?thesis using zrem_element_ok [OF ok, of ele env] op len by fastforce
next
  case (ZScore ele)
  then show ?thesis using zset_score_ok [OF ok, of ele env] op by fastforce
next
  case (ZRank reverse ele)
  have "zseq_step sum_of op (map zkey xs) =
      (map zkey xs, RRank (map_option (\<lambda>r. if reverse then length xs - Suc r else r) (zseq_rank (str_val ele) (map zkey xs))))"
    unfolding ZRank zseq_step.simps length_map ..
  then show ?thesis using zset_rank_ok [OF ok, of ele env reverse] op ZRank by (auto intro!: exI [of _ xs])
next
  case (ZRange reverse start stop)
  then show ?thesis using zset_range_ok [OF ok, of reverse start stop] len ok
    by (auto simp: dir_map zseq_range_map map_pair_zkey intro!: exI [of _ xs] simp del: map_map)
next
  case (ZRangeByScore reverse spec offset limit)
  then show ?thesis using zset_rangebyscore_ok [OF ok, of offset limit reverse spec] op ok
    by (auto simp: rev_map filter_score_zkey window_map map_pair_zkey intro!: exI [of _ xs] simp del: map_map)
next
  case (ZCount spec)
  then show ?thesis using zset_count_ok [OF ok, of "ze_garb env" spec] len ok by (auto simp: filter_score_zkey intro!: exI [of _ xs])
next
  case (ZRemRangeByScore spec)
  then show ?thesis using zset_remrangebyscore_ok [OF ok, of env spec] len
    by (auto simp: filter_score_zkey filter_score_zkey [of "\<lambda>s. \<not> score_in spec s"] intro!: exI [of _ "filter (\<lambda>e. \<not> score_in spec (el_score e)) xs"] le_SucI)
next
  case (ZRemRangeByRank start stop)
  have "length (zseq_remrange start stop xs) \<le> length xs" by (auto simp: zseq_remrange_def split: prod.split)
  then show ?thesis using zset_remrangebyrank_ok [OF ok, of env start stop] len ZRemRangeByRank
    by (auto simp: zseq_remrange_map zseq_range_map intro!: exI [of _ "zseq_remrange start stop xs"])
qed

primrec zset_run :: "('s \<Rightarrow> 's \<Rightarrow> 's option) \<Rightarrow> ('s zenv \<times> 's zop) list \<Rightarrow> ('s :: linorder) zset \<Rightarrow> ('s zset \<times> 's zres list) option" where
  "zset_run sum_of [] zs = Some (zs, [])"
| "zset_run sum_of (p # ops) zs = do {
     (zs, r) \<leftarrow> zset_step sum_of (fst p) (snd p) zs;
     (zs, rs) \<leftarrow> zset_run sum_of ops zs;
     Some (zs, r # rs) }"

primrec zseq_run :: "('s \<Rightarrow> 's \<Rightarrow> 's option) \<Rightarrow> 's zop list \<Rightarrow> ('s :: linorder) zseq \<Rightarrow> 's zseq \<times> 's zres list" where
  "zseq_run sum_of [] zl = (zl, [])"
| "zseq_run sum_of (op # ops) zl =
     (case zseq_step sum_of op zl of (zl, r) \<Rightarrow> (case zseq_run sum_of ops zl of (zl, rs) \<Rightarrow> (zl, r # rs)))"

theorem zset_run_ok:
  assumes "zset_ok zs xs" "\<forall>(env, op) \<in> set ops. env_ok env \<and> zop_ok op" "length xs + length ops \<le> 2 ^ 30"
  shows "\<exists>zs' ys rs. zset_run sum_of ops zs = Some (zs', rs) \<and> zset_ok zs' ys \<and> zseq_run sum_of (map snd ops) (map zkey xs) = (map zkey ys, rs)"
  using assms
proof (induction ops arbitrary: zs xs)
  case (Cons p ops)
  obtain zs1 ys r where s: "zset_step sum_of (fst p) (snd p) zs = Some (zs1, r)" "zset_ok zs1 ys" "zseq_step sum_of (snd p) (map zkey xs) = (map zkey ys, r)"
    "length ys \<le> Suc (length xs)"
    using zset_step_ok [OF Cons.prems(1), of "fst p" "snd p" sum_of] Cons.prems(2,3) by auto
  then show ?case using Cons.IH [OF s(2)] Cons.prems(2,3) by fastforce
qed auto

end
