(* ===== verification/T_zset_Add.thy ===== *)
theory T_zset_Add
  imports T_zset_Run
begin

text \<open>
  The commands \<open>ZADD\<close>, \<open>ZINCRBY\<close> and \<open>ZREM\<close>: parsing of the options, the loops over the arguments for a sorted set in the skip list encoding, and the reply.
  The conversion of an argument to a score is a parameter; the lookup of the key, and the events and replies as such, are left out.
\<close>

section \<open>Arguments of ZADD\<close>

record zadd_flags =
  za_incr :: bool
  za_nx :: bool
  za_xx :: bool
  za_ch :: bool

datatype zadd_error = SyntaxError | XXandNX | OnePairOnly | NotAFloat

definition zadd_option :: "zadd_flags \<Rightarrow> byte list \<Rightarrow> zadd_flags option" where
  "zadd_option flags opt =
     (if strcaseeq opt (bytes ''nx'') then Some (flags\<lparr>za_nx := True\<rparr>)
      else if strcaseeq opt (bytes ''xx'') then Some (flags\<lparr>za_xx := True\<rparr>)
      else if strcaseeq opt (bytes ''ch'') then Some (flags\<lparr>za_ch := True\<rparr>)
      else if strcaseeq opt (bytes ''incr'') then Some (flags\<lparr>za_incr := True\<rparr>)
      else None)"

text \<open>The loop over the options: the flags and \<open>scoreidx\<close>; \<open>args\<close> is what is left of \<open>argv\<close>.\<close>

primrec zadd_options :: "zadd_flags \<Rightarrow> nat \<Rightarrow> robj list \<Rightarrow> zadd_flags \<times> nat" where
  "zadd_options flags scoreidx [] = (flags, scoreidx)"
| "zadd_options flags scoreidx (arg # args) = (case zadd_option flags (cstring (str_val arg)) of
     Some flags \<Rightarrow> zadd_options flags (Suc scoreidx) args
   | None \<Rightarrow> (flags, scoreidx))"

primrec zadd_scores :: "(robj \<Rightarrow> 's option) \<Rightarrow> robj list \<Rightarrow> nat \<Rightarrow> nat list \<Rightarrow> 's list option" where
  "zadd_scores get_double argv scoreidx [] = Some []"
| "zadd_scores get_double argv scoreidx (j # js) = do {
     arg \<leftarrow> mem_get argv (scoreidx + j * 2);
     s \<leftarrow> get_double arg;
     ss \<leftarrow> zadd_scores get_double argv scoreidx js;
     Some (s # ss) }"

definition zadd_arguments :: "(robj \<Rightarrow> 's option) \<Rightarrow> zadd_flags \<Rightarrow> robj list \<Rightarrow> zadd_error + zadd_flags \<times> nat \<times> 's list" where
  "zadd_arguments get_double flags argv = (
     let (flags, scoreidx) = zadd_options flags 2 (drop 2 argv);
         elements = length argv - scoreidx
     in if elements mod 2 \<noteq> 0 then Inl SyntaxError
        else let elements = elements div 2 in
          if za_nx flags \<and> za_xx flags then Inl XXandNX
          else if za_incr flags \<and> elements > 1 then Inl OnePairOnly
          else (case zadd_scores get_double argv scoreidx [0..<elements] of
             None \<Rightarrow> Inl NotAFloat
           | Some scores \<Rightarrow> Inr (flags, scoreidx, scores)))"

text \<open>Whether the sorted set for a key that does not exist gets the skip list encoding.\<close>

definition zadd_new_skiplist :: "nat \<Rightarrow> nat \<Rightarrow> robj list \<Rightarrow> nat \<Rightarrow> bool option" where
  "zadd_new_skiplist zset_max_ziplist_entries zset_max_ziplist_value argv scoreidx =
     (if zset_max_ziplist_entries = 0 then Some True
      else do {
        arg \<leftarrow> mem_get argv (scoreidx + 1);
        s \<leftarrow> ptr_sds (o_ptr arg);
        Some (zset_max_ziplist_value < sdslen s) })"

section \<open>The loops\<close>

record 's zadd_state =
  zc_added :: nat
  zc_updated :: nat
  zc_processed :: nat
  zc_score :: 's

text \<open>The result tells also whether the loop was left because a sum is not a number.\<close>

primrec zadd_loop ::
  "('s \<Rightarrow> 's \<Rightarrow> 's option) \<Rightarrow> zadd_flags \<Rightarrow> ('s zenv \<times> 's \<times> robj) list \<Rightarrow> ('s :: linorder) zset \<Rightarrow> 's zadd_state \<Rightarrow>
   ('s zset \<times> 's zadd_state \<times> bool) option" where
  "zadd_loop sum_of flags [] zs c = Some (zs, c, False)"
| "zadd_loop sum_of flags (p # ps) zs c = (case p of (env, score, ele) \<Rightarrow> do {
     (zs, r) \<leftarrow> zadd_element sum_of (za_nx flags) (za_xx flags) (za_incr flags) env zs score ele;
     (case r of
        Skipped \<Rightarrow> zadd_loop sum_of flags ps zs (c\<lparr>zc_score := score\<rparr>)
      | NotANumber \<Rightarrow> Some (zs, c, True)
      | Unchanged s \<Rightarrow> zadd_loop sum_of flags ps zs (c\<lparr>zc_score := s, zc_processed := zc_processed c + 1\<rparr>)
      | Updated s \<Rightarrow> zadd_loop sum_of flags ps zs (c\<lparr>zc_score := s, zc_processed := zc_processed c + 1, zc_updated := zc_updated c + 1\<rparr>)
      | Added s \<Rightarrow> zadd_loop sum_of flags ps zs (c\<lparr>zc_score := s, zc_processed := zc_processed c + 1, zc_added := zc_added c + 1\<rparr>)) })"

datatype 's zadd_reply = NanError | ScoreReply 's | NullReply | CountReply nat

definition zadd_reply :: "zadd_flags \<Rightarrow> 's zadd_state \<Rightarrow> bool \<Rightarrow> 's zadd_reply" where
  "zadd_reply flags c nan =
     (if nan then NanError
      else if za_incr flags then (if zc_processed c \<noteq> 0 then ScoreReply (zc_score c) else NullReply)
      else CountReply (if za_ch flags then zc_added c + zc_updated c else zc_added c))"

text \<open>The loop of \<open>zremCommand\<close>: how many elements were deleted, and whether the key is to be deleted because none is left.\<close>

primrec zrem_loop :: "('s zenv \<times> robj) list \<Rightarrow> ('s :: linorder) zset \<Rightarrow> nat \<Rightarrow> ('s zset \<times> nat \<times> bool) option" where
  "zrem_loop [] zs deleted = Some (zs, deleted, False)"
| "zrem_loop (p # ps) zs deleted = do {
     (zs, ok) \<leftarrow> zrem_element (fst p) zs (snd p);
     if ok then (if dictSize (zs_dict zs) = 0 then Some (zs, deleted + 1, True) else zrem_loop ps zs (deleted + 1))
     else zrem_loop ps zs deleted }"

section \<open>What ZADD does\<close>

lemma zseq_lookup_iff: "zseq_wf zl \<Longrightarrow> zseq_lookup b zl = Some s \<longleftrightarrow> (s, b) \<in> set zl"
  using map_of_eq_Some_iff [of "map prod.swap zl" b s] by (force simp: zseq_lookup_def zseq_wf_def comp_def)

lemma zseq_lookup_insert:
  assumes "zseq_wf zl" "zseq_wf (zseq_insert s b zl)"
  shows "(\<lambda>x. zseq_lookup x (zseq_insert s b zl)) = (\<lambda>x. zseq_lookup x zl)(b \<mapsto> s)"
proof (rule ext)
  fix x
  have set: "set (zseq_insert s b zl) = insert (s, b) (set zl)" by (auto simp: zseq_insert_def)
  have "distinct (map snd (zseq_insert s b zl))" using assms(2) by (simp add: zseq_wf_def)
  then have no: "(t, b) \<notin> set zl" for t by (auto simp: zseq_insert_def image_iff)
  have "zseq_lookup x (zseq_insert s b zl) = Some t \<longleftrightarrow> ((\<lambda>x. zseq_lookup x zl)(b \<mapsto> s)) x = Some t" for t
    using zseq_lookup_iff [OF assms(2), of x t] zseq_lookup_iff [OF assms(1), of x t] no set by auto
  then show "zseq_lookup x (zseq_insert s b zl) = ((\<lambda>x. zseq_lookup x zl)(b \<mapsto> s)) x" by (metis not_None_eq)
qed

lemma zseq_lookup_delete: "zseq_wf zl \<Longrightarrow> (\<lambda>x. zseq_lookup x (zseq_delete b zl)) = (\<lambda>x. zseq_lookup x zl)(b := None)"
  unfolding zseq_lookup_def zseq_delete_def by (rule ext, induction zl) (auto simp: zseq_wf_def)

lemma zseq_wf_delete: "zseq_wf zl \<Longrightarrow> zseq_wf (zseq_delete b zl)"
  by (auto simp: zseq_wf_def zseq_delete_def sorted_wrt_filter distinct_map_filter)

abbreviation scores_of :: "'s elem list \<Rightarrow> byte list \<rightharpoonup> 's" where
  "scores_of xs \<equiv> \<lambda>b. zseq_lookup b (map zkey xs)"

lemma dom_scores: "dom (\<lambda>b. zseq_lookup b zl) = snd ` set zl"
  unfolding dom_def zseq_lookup_None by simp

lemma zseq_add_plain:
  assumes wf: "zseq_wf zl" "zseq_wf zl'" and add: "zseq_add sum_of False False False zl s b = (zl', r)"
  shows "(\<lambda>x. zseq_lookup x zl') = (\<lambda>x. zseq_lookup x zl)(b \<mapsto> s)"
    "r = (if zseq_lookup b zl = None then Added s else if zseq_lookup b zl = Some s then Unchanged s else Updated s)"
proof -
  show "r = (if zseq_lookup b zl = None then Added s else if zseq_lookup b zl = Some s then Unchanged s else Updated s)"
    using add by (auto simp: zseq_add_def split: option.splits if_splits)
  show "(\<lambda>x. zseq_lookup x zl') = (\<lambda>x. zseq_lookup x zl)(b \<mapsto> s)"
  proof (cases "zseq_lookup b zl")
    case None
    then have "zl' = zseq_insert s b zl" using add by (simp add: zseq_add_def)
    then show ?thesis using zseq_lookup_insert wf by metis
  next
    case (Some c)
    show ?thesis
    proof (cases "c = s")
      case True
      then have "zl' = zl" using add Some by (simp add: zseq_add_def)
      then show ?thesis using Some True by (auto simp: fun_eq_iff)
    next
      case False
      then have zl': "zl' = zseq_insert s b (zseq_delete b zl)" using add Some by (auto simp: zseq_add_def)
      show ?thesis using zseq_lookup_insert [OF zseq_wf_delete [OF wf(1)] wf(2) [unfolded zl']] zseq_lookup_delete [OF wf(1)] unfolding zl' by simp
    qed
  qed
qed

theorem zadd_loop_plain:
  assumes "zset_ok zs xs" "\<forall>(env, s, ele) \<in> set ps. env_ok env \<and> string_wf ele" "length xs + length ps \<le> 2 ^ 30"
    "\<not> za_nx flags" "\<not> za_xx flags" "\<not> za_incr flags"
  shows "\<exists>zs' ys c'. zadd_loop sum_of flags ps zs c = Some (zs', c', False) \<and> zset_ok zs' ys \<and>
    scores_of ys = scores_of xs ++ map_of (rev (map (\<lambda>(env, s, ele). (str_val ele, s)) ps)) \<and>
    zc_added c' + card (dom (scores_of xs)) = zc_added c + card (dom (scores_of ys)) \<and> zc_processed c' = zc_processed c + length ps"
  using assms
proof (induction ps arbitrary: zs xs c)
  case (Cons p ps)
  obtain env s ele where p: "p = (env, s, ele)" by (cases p)
  let ?b = "str_val ele"
  obtain zs1 ys r where a: "zadd_element sum_of False False False env zs s ele = Some (zs1, r)" "zset_ok zs1 ys"
    "zseq_add sum_of False False False (map zkey xs) s ?b = (map zkey ys, r)" "length ys \<le> Suc (length xs)"
    using zadd_element_ok [OF Cons.prems(1), of env ele sum_of False False False s] Cons.prems(2,3) p by auto
  note add = zseq_add_plain [OF zset_seq_wf [OF Cons.prems(1)] zset_seq_wf [OF a(2)] a(3)]
  have "length ys + length ps \<le> 2 ^ 30" using a(4) Cons.prems(3) by simp
  note IH = Cons.IH [OF a(2) _ this Cons.prems(4-6)]
  have fin: "finite (dom (scores_of xs))" by (simp add: dom_scores)
  define c1 where "c1 = (c\<lparr>zc_score := s, zc_processed := zc_processed c + 1,
    zc_added := zc_added c + (if scores_of xs ?b = None then 1 else 0),
    zc_updated := zc_updated c + (if scores_of xs ?b = None \<or> scores_of xs ?b = Some s then 0 else 1)\<rparr>)"
  have step: "zadd_loop sum_of flags (p # ps) zs c = zadd_loop sum_of flags ps zs1 c1"
    using a(1) add(2) Cons.prems(4-6) p by (auto simp: c1_def)
  obtain zs' ws c' where r: "zadd_loop sum_of flags ps zs1 c1 = Some (zs', c', False)" "zset_ok zs' ws"
    "scores_of ws = scores_of ys ++ map_of (rev (map (\<lambda>(env, s, ele). (str_val ele, s)) ps))"
    "zc_added c' + card (dom (scores_of ys)) = zc_added c1 + card (dom (scores_of ws))" "zc_processed c' = zc_processed c1 + length ps"
    using IH [of c1] Cons.prems(2) by auto
  have "card (dom (scores_of ys)) = card (dom (scores_of xs)) + (if scores_of xs ?b = None then 1 else 0)"
    unfolding add(1) using fin by (simp add: card_insert_if domIff)
  then have "zc_added c' + card (dom (scores_of xs)) = zc_added c + card (dom (scores_of ws))" using r(4) by (simp add: c1_def split: if_splits)
  moreover have "scores_of ws = scores_of xs ++ map_of (rev (map (\<lambda>(env, s, ele). (str_val ele, s)) (p # ps)))" unfolding r(3) add(1) p by simp
  moreover have "zc_processed c' = zc_processed c + length (p # ps)" using r(5) by (simp add: c1_def)
  ultimately show ?case using r(1,2) step by auto
qed auto

section \<open>What ZREM does\<close>

lemma zseq_delete_length:
  assumes "zseq_wf zl"
  shows "length (zseq_delete b zl) = length zl - (if b \<in> snd ` set zl then 1 else 0)"
proof -
  have fin: "finite (dom (\<lambda>x. zseq_lookup x zl))" by (simp add: dom_scores)
  have l: "length zm = card (dom (\<lambda>x. zseq_lookup x zm))" if "zseq_wf zm" for zm :: "'a zseq"
    unfolding dom_scores using that distinct_card [of "map snd zm"] by (simp add: zseq_wf_def)
  show ?thesis unfolding l [OF assms] l [OF zseq_wf_delete [OF assms]] zseq_lookup_delete [OF assms]
    using fin dom_scores [of zl] by (simp add: card_Diff_singleton_if)
qed

lemma zset_size: "zset_ok zs xs \<Longrightarrow> dictSize (zs_dict zs) = length xs"
  using plain_dom(2) [of "zs_dict zs"] dictSize_ents [of "zs_dict zs"] card_dom_entries [of xs] by (simp add: zset_ok_def plain_inv_def)

theorem zrem_loop_ok:
  assumes "zset_ok zs xs" "\<forall>(env, ele) \<in> set ps. string_wf ele" "length xs \<le> 2 ^ 30"
  defines "bs \<equiv> map (\<lambda>(env, ele). str_val ele) ps"
  shows "\<exists>zs' ys. zrem_loop ps zs deleted = Some (zs', deleted + (length xs - length ys), xs \<noteq> [] \<and> ys = []) \<and> zset_ok zs' ys \<and>
    map zkey ys = filter (\<lambda>k. snd k \<notin> set bs) (map zkey xs)"
  using assms(1-3) unfolding bs_def
proof (induction ps arbitrary: zs xs deleted)
  case (Cons p ps)
  obtain env ele where p: "p = (env, ele)" by (cases p)
  let ?b = "str_val ele"
  obtain zs1 ys where a: "zrem_element env zs ele = Some (zs1, ?b \<in> snd ` set (map zkey xs))" "zset_ok zs1 ys"
    "map zkey ys = zseq_delete ?b (map zkey xs)" "length ys \<le> length xs"
    using zrem_element_ok [OF Cons.prems(1), of ele env] Cons.prems(2,3) p by auto
  have len: "length ys = length xs - (if ?b \<in> snd ` set (map zkey xs) then 1 else 0)"
    using zset_seq_wf [OF Cons.prems(1)] arg_cong [OF a(3), of length] zseq_delete_length by fastforce
  obtain zs2 ws where r: "zrem_loop ps zs1 (deleted + (length xs - length ys)) = Some (zs2, deleted + (length xs - length ys) + (length ys - length ws), ys \<noteq> [] \<and> ws = [])"
    "zset_ok zs2 ws" "map zkey ws = filter (\<lambda>k. snd k \<notin> set (map (\<lambda>(env, ele). str_val ele) ps)) (map zkey ys)"
    using Cons.IH [OF a(2), of "deleted + (length xs - length ys)"] Cons.prems(2,3) a(4) by auto
  have ws: "map zkey ws = filter (\<lambda>k. snd k \<notin> set (map (\<lambda>(env, ele). str_val ele) (p # ps))) (map zkey xs)"
    unfolding r(3) a(3) zseq_delete_def p by (simp add: conj_commute)
  have "length ws \<le> length ys" using arg_cong [OF r(3), of length] length_filter_le by (metis length_map)
  show ?case
  proof (cases "?b \<in> snd ` set (map zkey xs)")
    case True
    then have "xs \<noteq> []" by auto
    then have xs: "xs \<noteq> []" "length xs - length ys = 1" using len True by (simp_all add: Suc_le_eq)
    show ?thesis
    proof (cases "ys = []")
      case True
      then have "zrem_loop (p # ps) zs deleted = Some (zs1, deleted + 1, True)" using a(1) p zset_size [OF a(2)] \<open>?b \<in> _\<close> by simp
      moreover have "ws = []" using \<open>length ws \<le> length ys\<close> True by simp
      ultimately show ?thesis using a(2) ws True xs by (intro exI [of _ zs1] exI [of _ ys]) auto
    next
      case False
      then have "zrem_loop (p # ps) zs deleted = zrem_loop ps zs1 (deleted + 1)" using a(1) p zset_size [OF a(2)] \<open>?b \<in> _\<close> by simp
      then show ?thesis using r(1,2) ws xs False \<open>length ws \<le> length ys\<close> a(4) by (intro exI [of _ zs2] exI [of _ ws]) auto
    qed
  next
    case False
    then have "zrem_loop (p # ps) zs deleted = zrem_loop ps zs1 deleted" using a(1) p by simp
    moreover have "length ys = length xs" "ys = [] \<longleftrightarrow> xs = []" using len False by (auto simp flip: length_0_conv)
    ultimately show ?thesis using r(1,2) ws by (intro exI [of _ zs2] exI [of _ ws]) auto
  qed
qed auto

section \<open>ZADD without elements\<close>

text \<open>Options without elements are accepted, and the encoding of the new sorted set is chosen by an argument that is not there.\<close>

lemma zadd_options_end: "zadd_options flags i args = (flags', j) \<Longrightarrow> i \<le> j \<and> j \<le> i + length args"
  by (induction args arbitrary: flags i) (force split: option.splits)+

lemma zadd_no_elements:
  assumes "zadd_options flags 2 (drop 2 argv) = (flags', length argv)" "\<not> (za_nx flags' \<and> za_xx flags')" "entries \<noteq> 0"
  shows "zadd_arguments get_double flags argv = Inr (flags', length argv, [])" "zadd_new_skiplist entries max_value argv (length argv) = None"
  using assms by (simp_all add: zadd_arguments_def zadd_new_skiplist_def mem_get_def)

section \<open>Small sorted sets on which the theorems are applied\<close>

definition sample_env :: "int zenv" where
  "sample_env = \<lparr>ze_garb = \<lambda>_. 0, ze_fresh = \<lambda>_. (None, 0), ze_back = None, ze_random = \<lambda>k. if k < 2 then 0 else 0xFFFF,
     ze_alloc = \<lambda>nodes. Suc (Max (insert 0 (dom nodes))), ze_refs = 1, ze_can = True\<rparr>"

lemma sample_env_ok: "env_ok sample_env"
proof -
  have "nodes (Suc (Max (insert 0 (dom nodes)))) = None" if "finite (dom nodes)" for nodes :: "int nodes"
  proof (rule ccontr)
    assume "nodes (Suc (Max (insert 0 (dom nodes)))) \<noteq> None"
    then have "Suc (Max (insert 0 (dom nodes))) \<in> insert 0 (dom nodes)" by blast
    with that have "Suc (Max (insert 0 (dom nodes))) \<le> Max (insert 0 (dom nodes))" by (intro Max_ge) simp_all
    then show False by simp
  qed
  moreover have "\<not> level_up (0xFFFF :: nat)" by code_simp
  ultimately show ?thesis by (auto simp: env_ok_def sample_env_def intro!: exI [of _ 2])
qed

abbreviation word_object :: "string \<Rightarrow> robj" where
  "word_object w \<equiv> raw_object (bytes w)"

lemma word_object_wf:
  assumes "length w \<le> 100"
  shows "string_wf (word_object w)" "str_val (word_object w) = bytes w"
  using raw_object_wf [of "bytes w"] assms by (simp_all add: bytes_def STRING_MAX_def)

definition sample_ops :: "int zop list" where
  "sample_ops = [ZAdd False False False 3 (word_object ''b''), ZAdd False False False 1 (word_object ''c''), ZAdd False False False 3 (word_object ''a''),
     ZAdd False False True 4 (word_object ''c''), ZRank False (word_object ''b''), ZRange True 0 (- 1), ZRem (word_object ''b''),
     ZCount \<lparr>zr_min = 3, zr_max = 5, zr_minex = True, zr_maxex = False\<rparr>]"

lemma sample_zset:
  "\<exists>zs e. zset_run (\<lambda>x y. None) [(sample_env, ZAdd False False False 0 (word_object ''a''))] (createZsetObject 0 0) = Some (zs, [RAdd (Added 0)]) \<and>
     zset_ok zs [e] \<and> el_score e = 0 \<and> el_str e = bytes ''a''"
proof -
  let ?ops = "[(sample_env, ZAdd False False False 0 (word_object ''a''))]"
  have "\<forall>(env, op) \<in> set ?ops. env_ok env \<and> zop_ok op" by (simp add: sample_env_ok word_object_wf)
  then obtain zs xs rs where r: "zset_run (\<lambda>x y. None) ?ops (createZsetObject 0 0) = Some (zs, rs)" "zset_ok zs xs"
    "zseq_run (\<lambda>x y. None) (map snd ?ops) [] = (map zkey xs, rs)"
    using zset_run_ok [OF createZsetObject_ok, of ?ops "\<lambda>x y. None" 0 0] by auto
  then have xs: "map zkey xs = [(0, bytes ''a'')]" "rs = [RAdd (Added 0)]"
    by (simp_all add: zseq_add_def zseq_lookup_def zseq_insert_def word_object_wf)
  then obtain e where "xs = [e]" "el_score e = 0" "el_str e = bytes ''a''" by (auto simp: zkey_def)
  then show ?thesis using r(1,2) xs(2) by blast
qed

end
