(* ===== verification/Spec2Isabelle.thy ===== *)
theory Spec2Isabelle
  imports Intset Dict_Map Dict_Scan Sds_Args Crc Glob Scenarios Protocol_Run Inline Ziplist_Overflow T_hash_Spec T_zset_Add
begin

text \<open>
  A verification development for the Redis server, version 3.0.7 (\<open>src/redis-stable/src\<close>).

  \<^bold>\<open>The program.\<close> Redis keeps databases of keys in memory. A client sends requests over a connection; the
  server reads bytes into a query buffer, parses them into arguments, looks the command up in its table, checks
  whether it may run, and runs or queues it. Commands read and change the keyspace, reply to the client, mark
  the clients that watch a changed key, and publish notifications. The containers underneath are the
  project's own: dynamic strings, hash tables with incremental rehashing, sorted integer arrays, packed lists, skip lists.

  \<^bold>\<open>The theories\<close>, from the bottom up. Memory blocks are lists with checked accesses: an access outside a
  block has no value, so a theorem that a function returns a value includes its memory safety. C integers keep
  their width (\<open>u32\<close>, \<open>s32\<close>, \<open>u64\<close>, words); a signed overflow has no value.

  \<^item> \<open>Prelude\<close>: blocks of memory, fixed width arithmetic, little endian integers.
  \<^item> \<open>Set_Interface\<close>, \<open>Map_Interface\<close>: the contracts of sets and maps as locales, with runs of operations against
    their mathematical counterparts; interpreted in \<open>Intset\<close> (\<open>intset.c\<close>), \<open>Dict_Map\<close> (\<open>dict.c\<close>), \<open>T_set\<close> and \<open>T_hash_Spec\<close>.
  \<^item> \<open>Dict\<close>, \<open>Dict_Inv\<close>, \<open>Dict_Ops\<close>, \<open>Dict_Scan\<close>: hash tables: the two tables, expansion, rehashing step by step,
    every operation, and the stateless cursor of \<open>dictScan\<close>. A table is the list of its chains.
    \<open>Dict_Hash\<close>: the hash functions.
  \<^item> \<open>Ziplist\<close> (\<open>ziplist.c\<close>): lists packed into one block, every function on the bytes. \<open>Ziplist_Repr\<close> gives the layout of an entry,
    \<open>Ziplist_Ops\<close>, \<open>Ziplist_Delete\<close> and \<open>Ziplist_Walk\<close> show what insertion, the cascading update, deletion and the walks do to it,
    \<open>Ziplist_List\<close> states the laws over the list of values, \<open>Ziplist_Values\<close> reads that list back from a block, and \<open>Ziplist_Overflow\<close> shows the
    one insertion that leaves the block.
  \<^item> \<open>T_set\<close> (\<open>t_set.c\<close>), \<open>T_hash\<close> and \<open>T_hash_Spec\<close> (\<open>t_hash.c\<close>): the set and hash objects in both encodings; they interpret the contracts
    of sets and maps on top of the containers' interpretations.
  \<^item> \<open>Skiplist\<close> (\<open>t_zset.c\<close>): skip lists of nodes in a store of addresses. \<open>Skiplist_Inv\<close> states which sequence of elements a store holds and what a
    search does, \<open>Skiplist_Patch\<close> how the loops change level arrays, \<open>Skiplist_Ops\<close> insertion and deletion, \<open>Skiplist_Order\<close> the order and the ranks,
    \<open>Skiplist_Range\<close> and \<open>Skiplist_Lex\<close> ranges. \<open>T_zset\<close>, \<open>T_zset_Range\<close>, \<open>T_zset_Run\<close>, \<open>T_zset_Add\<close>: sorted sets in the skip list encoding, a dict and a
    skip list that agree, with the bodies of their commands, refined by operations on the ordered sequence of pairs.
  \<^item> \<open>Util\<close> (\<open>util.c\<close>): integers to and from text; \<open>Glob\<close>: \<open>stringmatchlen\<close> against a declarative matcher;
    \<open>Crc\<close> (\<open>crc16.c\<close>, \<open>crc64.c\<close>): the tables against the polynomials.
  \<^item> \<open>Sds\<close>, \<open>Sds_Ops\<close>, \<open>Sds_Args\<close> (\<open>sds.c\<close>): dynamic strings: header, buffer and terminator; every operation
    against the byte string it stands for.
  \<^item> \<open>Objects\<close> (\<open>object.c\<close>): string objects and their encodings; \<open>Server\<close> (\<open>redis.h\<close>, \<open>networking.c\<close>): clients,
    databases, the server and the replies, which are the bytes queued for each client.
  \<^item> \<open>Registry\<close>: two-sided registries (a client knows its keys, a key its clients), used by \<open>Pubsub\<close> (\<open>pubsub.c\<close>) and
    \<open>Watch\<close> (\<open>multi.c\<close>); \<open>Notify\<close> (\<open>notify.c\<close>): keyspace notifications.
  \<^item> \<open>Db\<close> (\<open>db.c\<close>), with its specification \<open>Db_Spec\<close>: the abstract keyspace \<open>view\<close>, in which an expired key is gone, the
    invariant \<open>server_inv\<close>, and \<open>effect\<close>, what an operation may do; \<open>Outcome\<close>: the same with the reply of a command.
    \<open>Db_Commands\<close>, \<open>T_string\<close>, \<open>T_string_Spec\<close>, \<open>T_string_More\<close> (\<open>t_string.c\<close>): the commands, each with its outcome on
    every branch.
  \<^item> \<open>Multi\<close> (\<open>multi.c\<close>), \<open>Commands\<close> (\<open>redis.c\<close>): transactions, the command table, \<open>processCommand\<close> and \<open>call\<close>;
    \<open>Locking\<close>: what every modelled command does to the keys that a client watches; \<open>Clients\<close>: creating and freeing
    clients; \<open>Scenarios\<close>: small concrete servers on which the theorems are applied.
  \<^item> \<open>Protocol\<close>, \<open>Protocol_Spec\<close>, \<open>Protocol_Run\<close>, \<open>Inline\<close> (\<open>networking.c\<close>): the query buffer and the incremental parser;
    the locale \<open>executor\<close> states what the parser needs of the command executor and is interpreted on \<open>processCommand\<close>.

  \<^bold>\<open>What the properties below show.\<close> Transactions: a client that watches a key never executes its queue when the key
  reads differently (for all commands modelled), and the server invariant holds through every sequence of
  requests. Protocol: parsing does not depend on how the stream is cut. Containers: every sequence of operations refines the
  mathematical set or map, for the containers and for the set and hash types built on them, and a sorted set the ordered sequence of its pairs; a ziplist is the list it holds; scans end and miss nothing that stays. Commands: exact effect on the keyspace, the
  watchers and the reply, errors included. Clients and messages: freeing leaves no dangling reference,
  publishing reaches exactly the subscribers. Strings, numbers, checksums: equivalences and round trips.

  \<^bold>\<open>Bounds.\<close> Keys and values are at most 512 MB (\<open>STRING_MAX\<close>), the limit of the protocol; dynamic strings
  stay below 4 GB less the preallocation; integer sets below \<open>2 ^ 29\<close> elements, dicts and sorted sets below \<open>2 ^ 30\<close> entries, where the C
  types hold sizes; ziplists below a gigabyte (\<open>fits\<close>), which the limits of the small encodings imply (\<open>config_ok\<close>). The loop of \<open>processInputBuffer\<close> has as fuel the length of the buffer plus one: a round that goes on
  consumes a byte. Other loops are recursive over their data or have a termination proof.

  \<^bold>\<open>Parameters.\<close> Uninitialised memory (\<open>garb\<close>), reference counts (\<open>rc\<close>), the traversal order of a dict (\<open>ord\<close>), random
  numbers, the time and the result of \<open>read\<close> are arguments: the theorems hold for every value of them. The allocator of skip list nodes is an
  argument that returns an address not in use, and the values of \<open>random\<close> are such that the loop for a level ends (\<open>env_ok\<close>). Scores are an ordered type with a
  partial sum, in place of doubles, and their text is not modelled.

  \<^bold>\<open>Not modelled.\<close> Cluster, replication and Sentinel (the server is standalone or a replica as far as its flags
  matter), persistence (the commands passed to the append only file and to the replicas are recorded, not written),
  Lua, the memory limit, lists, the ziplist encoding of sorted sets, the commands on containers as changes of the keyspace (their values are opaque there), monitors, statistics, the event
  loop and the command line programs. The key of a dict is compared by its type's function; the databases are maps, which is
  what the dict theories justify.
\<close>

section \<open>Transactions\<close>



text \<open>
  C2. A transaction that was marked while it was open, because a watched key was touched or because a command
  could not be queued, is discarded by EXEC with the reply that tells which: nothing is executed, no other
  client is affected, and the client leaves the transaction with no watched key.
\<close>

theorem exec_aborts:
  assumes "server_inv s" "has_flag REDIS_MULTI (sv_clients s i)" "dirty s i \<or> has_flag REDIS_DIRTY_EXEC (sv_clients s i)"
  shows "\<exists>s'. execCommand f i s = Some s' \<and> server_inv s' \<and> view s' = view s \<and> same_globals s s' \<and> idle s' i \<and>
    out s' i = out s i @ (if has_flag REDIS_DIRTY_EXEC (sv_clients s i) then shared_execaborterr else shared_nullmultibulk) \<and>
    (\<forall>j. j \<noteq> i \<longrightarrow> sv_clients s' j = sv_clients s j)"
  by (rule execCommand_aborts [OF assms])

theorem exec_aborts_witness:
  "\<exists>s'. execCommand (\<lambda>_ _ _. None) 1 aborted = Some s' \<and> view s' = view aborted \<and> out s' 1 = out aborted 1 @ shared_execaborterr"
  using exec_aborts [OF aborted_facts(1,2), of "\<lambda>_ _ _. None"] aborted_facts(3) by auto



section \<open>The request protocol\<close>

text \<open>
  C4. A stream of encoded requests is executed as it was meant, however it is cut: for every way the network may split the
  bytes into reads, the requests that reach the executor are exactly the encoded ones, in order, each with its exact
  arguments, and the final state is that of executing them one after the other; no read overflows the buffer and no
  protocol error is raised. The executor is \<open>processCommand\<close> with any table of commands; the buffer limit is at most 1 GB.
\<close>

theorem protocol_stream:
  assumes "list_all good_request reqs" "length (concat (map encode reqs)) \<le> maxlen" "maxlen \<le> 2 ^ 30"
    "length (concat (map encode reqs)) \<le> length ks" "c_argv (sv_clients s i) = []" "\<not> closing i s"
  shows "\<exists>argvs. requests_carried argvs reqs \<and>
    feed garb (processCommand f cf tab) ord maxlen i ks (concat (map encode reqs)) (fresh_query garb) s = run_requests (processCommand f cf tab) i argvs s"
  by (rule feed_requests [OF assms])

theorem protocol_stream_witness:
  "\<exists>argvs. requests_carried argvs [[bytes ''GET'', bytes ''k''], [bytes ''QUIT'']] \<and>
    feed (\<lambda>_. 0) (processCommand (\<lambda>_ _ _ _. None) open_config []) (\<lambda>xs. xs) 1000 1 (replicate 100 2)
      (concat (map encode [[bytes ''GET'', bytes ''k''], [bytes ''QUIT'']])) (fresh_query (\<lambda>_. 0)) small_server =
    run_requests (processCommand (\<lambda>_ _ _ _. None) open_config []) 1 argvs small_server"
proof -
  let ?reqs = "[[bytes ''GET'', bytes ''k''], [bytes ''QUIT'']]"
  have "list_all good_request ?reqs" "length (concat (map encode ?reqs)) = 34"
    by (simp add: good_request_def bytes_def STRING_MAX_def) code_simp
  then show ?thesis
    by (intro protocol_stream) (simp_all add: closing_def has_flag_def new_client_def)
qed

text \<open>
  C5. An inline request of quoted words ended by \<open>\r\n\<close> is read as exactly those words, and the rest of the
  buffer is left for the next request.
\<close>

theorem inline_roundtrip:
  assumes "sds_inv (q_buf q)" "s_len (q_buf q) < 2 ^ 30" "sds_str (q_buf q) = join_ref [32] (map quote ps) @ [13, 10] @ rest"
    "\<forall>p \<in> set ps. p \<noteq> [] \<and> length p \<le> STRING_MAX"
  shows "\<exists>b argv. processInlineBuffer garb i q s = Some (q\<lparr>q_buf := b\<rparr>, set_argv i argv s, True) \<and>
    list_all2 carries argv ps \<and> sds_inv b \<and> sds_str b = rest"
  by (rule inline_words [OF assms])

theorem inline_roundtrip_witness:
  "\<exists>b argv. processInlineBuffer (\<lambda>_. 0) 1 ((fresh_query (\<lambda>_. 0))\<lparr>q_buf := \<lparr>s_len = 7, s_free = 0, s_buf = [34, 97, 32, 34, 13, 10, 42, 0]\<rparr>\<rparr>) small_server =
      Some ((fresh_query (\<lambda>_. 0))\<lparr>q_buf := b\<rparr>, set_argv 1 argv small_server, True) \<and>
    list_all2 carries argv [[97, 32]] \<and> sds_str b = [42]"
proof -
  let ?q = "(fresh_query (\<lambda>_. 0))\<lparr>q_buf := \<lparr>s_len = 7, s_free = 0, s_buf = [34, 97, 32, 34, 13, 10, 42, 0]\<rparr>\<rparr>"
  have "join_ref [32] (map quote [[97, 32]]) = [34, 97, 32, 34]" by code_simp
  then have "sds_inv (q_buf ?q)" "s_len (q_buf ?q) < 2 ^ 30" "sds_str (q_buf ?q) = join_ref [32] (map quote [[97, 32]]) @ [13, 10] @ [42]"
    "\<forall>p \<in> set [[97, 32 :: byte]]. p \<noteq> [] \<and> length p \<le> STRING_MAX"
    by (simp_all add: sds_inv_def sds_str_def STRING_MAX_def)
  from inline_roundtrip [OF this, of "\<lambda>_. 0" 1 small_server] show ?thesis by auto
qed

section \<open>Integer sets\<close>

text \<open>
  C6. Any sequence of \<open>intsetAdd\<close>, \<open>intsetRemove\<close> and \<open>intsetFind\<close> calls on 64-bit values, from
  \<open>intsetNew\<close>, stays within the allocated block, keeps the array sorted and reports what the
  mathematical set reports, encoding upgrades included.
\<close>

theorem intset_trace_refines:
  assumes "\<forall>c \<in> set cs. int64_range (op_arg c)" "length cs < 2 ^ 29"
  shows "\<exists>is'. set_run (intsetAdd garb) (intsetRemove garb) intset_find intsetNew cs = Some (is', snd (set_spec {} cs)) \<and>
    intset_inv is' \<and> set (intset_elems is') = fst (set_spec {} cs)"
proof -
  have "card (set (intset_elems intsetNew)) + length cs \<le> 2 ^ 29 - 1"
    using assms(2) by (simp add: intsetNew_inv)
  from int_set.run_refines [OF intsetNew_inv(1) assms(1) this] show ?thesis by (simp add: intsetNew_inv(2))
qed

theorem intset_trace_refines_witness:
  "\<exists>is'. set_run (intsetAdd (\<lambda>_. 0)) (intsetRemove (\<lambda>_. 0)) intset_find intsetNew [SAdd 5, SAdd 70000, SRemove 5, SFind 5]
     = Some (is', [True, True, True, False]) \<and> intset_inv is' \<and> set (intset_elems is') = {70000}"
  using intset_trace_refines [of "[SAdd 5, SAdd 70000, SRemove 5, SFind 5]" "\<lambda>_. 0"]
  by (simp add: int64_range_def insert_Diff_if)

section \<open>Hash tables\<close>

text \<open>
  C7. Any sequence of \<open>dictAdd\<close>, \<open>dictReplace\<close>, \<open>dictDelete\<close> and \<open>dictFetchValue\<close> calls on a new dict,
  expansions and incremental rehashing included, returns what the mathematical map returns.
\<close>

theorem dict_trace_refines:
  assumes "eq_type t" "length cs \<le> 2 ^ 30"
  shows "\<exists>d. map_run (dictAdd can) (dictReplace can) dictDelete dictFetchValue (dictCreate t) cs =
      Some (d, snd (map_spec Map.empty cs)) \<and> plain_inv d \<and> dict_abs d = fst (map_spec Map.empty cs)"
  using dict.run_refines_map [OF dictCreate_plain(1) [OF assms(1)], of cs can] assms(2)
  by (simp add: dictCreate_plain(2) [OF assms(1)])

theorem dict_trace_refines_witness:
  "\<exists>d. map_run (dictAdd True) (dictReplace True) dictDelete dictFetchValue (dictCreate identity_type)
     [MAdd 1 (), MDelete 2, MFetch 1] = Some (d, [Flag True, Flag False, Val (Some ())]) \<and> plain_inv d"
proof -
  have "eq_type identity_type"
    using identity_type_ok identity_compare by (simp add: eq_type_def identity_type_def)
  from dict_trace_refines [OF this, of "[MAdd 1 (), MDelete 2, MFetch 1]" True] show ?thesis by auto
qed

text \<open>
  C8. A full \<open>dictScan\<close> iteration reports every key that stays in the dict: the calls are made on
  successive states of the dict whose smaller table never shrinks, with any number of entries
  added, removed or rehashed in between, and the iteration ends.
\<close>

theorem dictScan_covers:
  assumes "\<forall>d \<in> set ds. dict_inv d \<and> d_type d = t \<and> (\<exists>e \<in> set (dict_ents d). compareKeys t key (de_key e))"
    "sorted_wrt (\<lambda>d d'. scan_size d \<le> scan_size d') ds" "2 ^ 31 \<le> length ds"
  shows "\<exists>es. scan_run ds 0 = Some (0, es) \<and> (\<exists>e \<in> set es. compareKeys t key (de_key e))"
  by (rule scan_run_covers [OF assms])

theorem dictScan_covers_witness:
  "\<exists>es. scan_run (replicate (2 ^ 31) shrink_before) 0 = Some (0, es) \<and> (\<exists>e \<in> set es. 4 = de_key e)"
proof -
  have t: "d_type shrink_before = identity_type"
    by (simp add: shrink_before_def shrink_start_def dictCreate_def dictInit_def)
  have "\<exists>es. scan_run (replicate (2 ^ 31) shrink_before) 0 = Some (0, es) \<and>
      (\<exists>e \<in> set es. compareKeys identity_type 4 (de_key e))"
    by (rule dictScan_covers) (simp_all add: shrink_before_inv t identity_compare sorted_wrt_iff_nth_less)
  then show ?thesis by (simp add: identity_compare)
qed



text \<open>
  C10. On a dict that does not change, the scan cursor returns to zero after as many calls as the smaller table has buckets, and
  the entries reported are those of the dict, each exactly once.
\<close>

theorem scan_static_exact:
  assumes "dict_inv d" "dict_ents d \<noteq> []"
  shows "\<exists>es. scan_run (replicate (scan_size d) d) 0 = Some (0, es) \<and> mset es = mset (dict_ents d)"
  by (rule scan_run_static [OF assms])

theorem scan_static_exact_witness:
  "\<exists>es. scan_run (replicate (scan_size shrink_before) shrink_before) 0 = Some (0, es) \<and> mset es = mset (dict_ents shrink_before)"
proof -
  have "dict_ents shrink_before \<noteq> []" using shrink_before_inv by auto
  from scan_static_exact [OF shrink_before_inv(1) this] show ?thesis .
qed

section \<open>Ziplists\<close>

text \<open>
  C11. A ziplist of the values \<open>vs\<close> behaves as that list, through every width of its length fields: a push at either end gives the block of the
  longer list; an index from the front or from the back leads to the entry with that value, or to no entry; a range is deleted; an entry is replaced by
  \<open>ziplistDelete\<close> and \<open>ziplistInsert\<close>; and \<open>ziplistLen\<close> is the length, also where the header's count has overflowed.
\<close>

theorem ziplist_refines_list:
  assumes "ziplist zl vs" "fits (s # vs)" "- (2 ^ 31) < k" "i < 2 ^ 31"
  shows "(\<exists>zl'. ziplistPush garb zl s wh = Some zl' \<and> ziplist zl' (if wh = ZIPLIST_HEAD then s # vs else vs @ [s])) \<and>
    (case norm_index k (length vs) of
       None \<Rightarrow> ziplistIndex zl k = Some None
     | Some j \<Rightarrow> \<exists>p zl1 zl2. ziplistIndex zl k = Some (Some p) \<and> ziplistGet zl (Some p) = Some (Some (zval_of (vs ! j))) \<and>
         ziplistDelete garb zl p = Some (zl1, p) \<and> ziplistInsert garb zl1 p s = Some zl2 \<and> ziplist zl2 (vs[j := s])) \<and>
    (\<exists>zl'. ziplistDeleteRange garb zl i n = Some zl' \<and> ziplist zl' (take i vs @ drop (i + n) vs)) \<and>
    (\<exists>zl'. ziplistLen zl = Some (zl', length vs) \<and> ziplist zl' vs)"
proof -
  have f: "fits vs" using assms(2) by (simp add: fits_def)
  have "\<exists>p zl1 zl2. ziplistIndex zl k = Some (Some p) \<and> ziplistGet zl (Some p) = Some (Some (zval_of (vs ! j))) \<and>
      ziplistDelete garb zl p = Some (zl1, p) \<and> ziplistInsert garb zl1 p s = Some zl2 \<and> ziplist zl2 (vs[j := s])"
    if j: "norm_index k (length vs) = Some j" for j
  proof -
    obtain p where p: "j < length vs" "ziplistIndex zl k = Some (Some p)" "cursor zl vs j p"
      using index_law [OF assms(1) f assms(3)] j by auto
    obtain zl1 zl2 where "ziplistDelete garb zl p = Some (zl1, p)" "ziplistInsert garb zl1 p s = Some zl2" "ziplist zl2 (vs[j := s])"
      using replace_law [OF p(3) assms(2) p(1)] by blast
    then show ?thesis using p get_law [OF p(3) f] by auto
  qed
  then show ?thesis using push_law [OF assms(1,2), of garb wh] index_law [OF assms(1) f assms(3)] delete_range_law [OF assms(1) f assms(4), of garb n]
      len_law [OF assms(1) f] by (auto split: option.splits)
qed

theorem ziplist_refines_list_witness:
  "\<exists>zl zl'. ziplistNew (\<lambda>_. 0) = Some zl \<and> ziplistPush (\<lambda>_. 0) zl (bytes ''12'') ZIPLIST_HEAD = Some zl' \<and> ziplist zl' [bytes ''12''] \<and>
     ziplistIndex zl (- 1) = Some None"
proof -
  obtain zl where zl: "ziplistNew (\<lambda>_. 0) = Some zl" "ziplist zl []" using ziplist_new by blast
  have "norm_index (- 1) (length ([] :: byte list list)) = None" by (simp add: norm_index_def)
  then show ?thesis using zl(1) ziplist_refines_list [OF zl(2), of "bytes ''12''" "- 1" 0 "\<lambda>_. 0" ZIPLIST_HEAD 0] by (auto simp: fits_def bytes_def)
qed

text \<open>
  C12. An insertion can leave the block: after pushing strings of 300, 250 and 2 bytes and deleting the first one, the entry with index 1 keeps a
  five-byte size field; inserting a one-digit number in front of it shrinks the block by two bytes and then moves bytes that are no longer in it.
\<close>

theorem ziplist_insert_unsafe:
  "\<exists>z0 z1 z2 z3 z4 p. ziplistNew garb = Some z0 \<and> ziplistPush garb z0 (replicate 300 97) ZIPLIST_TAIL = Some z1 \<and>
    ziplistPush garb z1 (replicate 250 98) ZIPLIST_TAIL = Some z2 \<and> ziplistPush garb z2 (bytes ''hi'') ZIPLIST_TAIL = Some z3 \<and>
    ziplistDeleteRange garb z3 0 1 = Some z4 \<and> ziplist z4 [replicate 250 98, bytes ''hi''] \<and>
    ziplistIndex z4 1 = Some (Some p) \<and> ziplistInsert garb z4 p (bytes ''1'') = None"
  using overflow_history [of "replicate 300 97" "replicate 250 98" "bytes ''hi''" "bytes ''1''" garb] digit_entry by (fastforce simp: bytes_def)

section \<open>The set and hash types\<close>

text \<open>
  C13. A set object, created by \<open>setTypeCreate\<close> for a first value, reports for every sequence of \<open>setTypeAdd\<close>, \<open>setTypeRemove\<close> and \<open>setTypeIsMember\<close> calls
  what the set of strings reports, and \<open>setTypeSize\<close> is its cardinality: the change from intset to dict and the resizing of the dict are not observable,
  nor are the encodings of the arguments.
\<close>

theorem set_type_refines:
  assumes "string_wf ob" "\<forall>c \<in> set cs. string_wf (enc (op_arg c)) \<and> str_val (enc (op_arg c)) = op_arg c" "length cs < 2 ^ 29"
  shows "\<exists>st st'. setTypeCreate seed ob = Some st \<and>
    set_run (\<lambda>st b. setTypeAdd garb can seed mx st (enc b)) (\<lambda>st b. setTypeRemove garb can st (enc b)) (\<lambda>st b. setTypeIsMember garb st (enc b)) st cs
      = Some (st', snd (set_spec {} cs)) \<and>
    set_inv st' \<and> set_elems st' = fst (set_spec {} cs) \<and> setTypeSize st' = card (fst (set_spec {} cs))"
proof -
  obtain st where st: "setTypeCreate seed ob = Some st" "set_inv st" "set_elems st = {}" using setTypeCreate_law [OF assms(1)] by blast
  have "card (set_elems st) + length cs \<le> 2 ^ 29 - 1" using assms(3) st(3) by simp
  from set_type.run_refines [where garb = garb and can = can and seed = seed and mx = mx, OF st(2) assms(2) this] st show ?thesis
    using setTypeSize_law by fastforce
qed

theorem set_type_refines_witness:
  "\<exists>st st'. setTypeCreate 0 (raw_object (bytes ''7'')) = Some st \<and>
    set_run (\<lambda>st b. setTypeAdd (\<lambda>_. 0) True 0 512 st (raw_object b)) (\<lambda>st b. setTypeRemove (\<lambda>_. 0) True st (raw_object b))
      (\<lambda>st b. setTypeIsMember (\<lambda>_. 0) st (raw_object b)) st [SAdd (bytes ''7''), SAdd (bytes ''x''), SRemove (bytes ''7''), SFind (bytes ''x'')]
      = Some (st', [True, True, True, True]) \<and> set_elems st' = {bytes ''x''} \<and> setTypeSize st' = 1"
proof -
  let ?cs = "[SAdd (bytes ''7''), SAdd (bytes ''x''), SRemove (bytes ''7''), SFind (bytes ''x'')]"
  have "bytes ''7'' \<noteq> bytes ''x''" by (simp add: bytes_def)
  then have spec: "set_spec {} ?cs = ({bytes ''x''}, [True, True, True, True])" by (simp add: insert_Diff_if)
  have ok: "\<forall>c \<in> set ?cs. string_wf (raw_object (op_arg c)) \<and> str_val (raw_object (op_arg c)) = op_arg c"
    using raw_object_wf by (simp add: bytes_def STRING_MAX_def)
  then show ?thesis using set_type_refines [of "raw_object (bytes ''7'')" ?cs raw_object 0 "\<lambda>_. 0" True 512] unfolding spec by fastforce
qed

text \<open>
  C14. A hash object reports for every sequence of the updates of \<open>HSETNX\<close>, \<open>HSET\<close> and \<open>HDEL\<close> and the lookups of \<open>HGET\<close> what the finite map from
  fields to values reports, for every configuration of the small encoding whose ziplists stay below a gigabyte: the change from
  ziplist to dict at either limit is not observable.
\<close>

theorem hash_type_refines:
  assumes "config_ok cf" "\<forall>c \<in> set cs. op_valid (\<lambda>b. string_wf (enc b) \<and> str_val (enc b) = b) (\<lambda>b. string_wf (enc b) \<and> str_val (enc b) = b) c"
    "length cs \<le> 2 ^ 29"
  shows "\<exists>h h' h''. createHashObject garb = Some h \<and>
    map_run (\<lambda>h f v. hsetnx_body garb cf refs refs' h (enc f) (enc v)) (\<lambda>h f v. hset_body garb cf refs refs' h (enc f) (enc v))
      (\<lambda>h f. hashTypeDelete garb cf h (enc f)) (\<lambda>h f. map_option (\<lambda>(h, r). (h, map_option str_val r)) (hashTypeGetObject garb h (enc f))) h cs
      = Some (h', snd (map_spec Map.empty cs)) \<and>
    hash_inv cf h' \<and> hash_abs h' = fst (map_spec Map.empty cs) \<and>
    hashTypeLength h' = Some (h'', card (dom (fst (map_spec Map.empty cs))))"
proof -
  obtain h where h: "createHashObject garb = Some h" "hash_inv cf h" "hash_abs h = Map.empty" using createHashObject_law [OF assms(1)] by blast
  have "card (dom (hash_abs h)) + length cs \<le> 2 ^ 29" using assms(3) h(3) by simp
  from hash_type.run_refines [where garb = garb and refs = refs and refs' = refs', OF h(2) assms(2) this]
  obtain h' where h': "map_run (\<lambda>h f v. hsetnx_body garb cf refs refs' h (enc f) (enc v)) (\<lambda>h f v. hset_body garb cf refs refs' h (enc f) (enc v))
      (\<lambda>h f. hashTypeDelete garb cf h (enc f)) (\<lambda>h f. map_option (\<lambda>(h, r). (h, map_option str_val r)) (hashTypeGetObject garb h (enc f))) h cs
      = Some (h', snd (map_spec (hash_abs h) cs))" "hash_inv cf h'" "hash_abs h' = fst (map_spec (hash_abs h) cs)" by blast
  then show ?thesis using h hashTypeLength_law [OF h'(2)] by auto
qed

theorem hash_type_refines_witness:
  "\<exists>h h'. createHashObject (\<lambda>_. 0) = Some h \<and>
    map_run (\<lambda>h f v. hsetnx_body (\<lambda>_. 0) default_hash 1 1 h (raw_object f) (raw_object v)) (\<lambda>h f v. hset_body (\<lambda>_. 0) default_hash 1 1 h (raw_object f) (raw_object v))
      (\<lambda>h f. hashTypeDelete (\<lambda>_. 0) default_hash h (raw_object f))
      (\<lambda>h f. map_option (\<lambda>(h, r). (h, map_option str_val r)) (hashTypeGetObject (\<lambda>_. 0) h (raw_object f))) h
      [MAdd (bytes ''a'') (bytes ''1''), MReplace (bytes ''a'') (replicate 65 98), MFetch (bytes ''a'')]
      = Some (h', [Flag True, Flag False, Val (Some (replicate 65 98))])"
proof -
  let ?cs = "[MAdd (bytes ''a'') (bytes ''1''), MReplace (bytes ''a'') (replicate 65 98), MFetch (bytes ''a'')]"
  have spec: "snd (map_spec Map.empty ?cs) = [Flag True, Flag False, Val (Some (replicate 65 98))]" by simp
  have "\<forall>c \<in> set ?cs. op_valid (\<lambda>b. string_wf (raw_object b) \<and> str_val (raw_object b) = b) (\<lambda>b. string_wf (raw_object b) \<and> str_val (raw_object b) = b) c"
    using raw_object_wf by (simp add: bytes_def STRING_MAX_def op_valid_def)
  moreover have "config_ok default_hash" by (simp add: config_ok_def default_hash_def hash_limit_def)
  ultimately show ?thesis using hash_type_refines [of default_hash ?cs raw_object "\<lambda>_. 0" 1 1] unfolding spec by fastforce
qed

section \<open>Sorted sets\<close>

text \<open>
  C15. A sorted set in the skip list encoding, from its creation on, behaves as the sequence of its pairs of score and string, ordered by score and then by the
  bytes of the string: adding with every option, incrementing, removing, score and rank from either end, ranges by index and by score in both directions with
  offset and limit, counting, and removing ranges give the contents and the replies of the same operations on that sequence, whatever levels the random
  numbers give the nodes and wherever the allocator puts them. No operation fails: every pointer leads to a node, every entry of the dict to the node of its string.
\<close>

theorem zset_refines_sequence:
  fixes ops :: "(('s :: {linorder, zero}) zenv \<times> 's zop) list"
  assumes "\<forall>(env, op) \<in> set ops. env_ok env \<and> zop_ok op" "length ops \<le> 2 ^ 30"
  shows "\<exists>zs xs rs. zset_run sum_of ops (createZsetObject seed a) = Some (zs, rs) \<and> zset_ok zs xs \<and>
    zseq_run sum_of (map snd ops) [] = (map zkey xs, rs) \<and> zseq_wf (map zkey xs)"
  using zset_run_ok [OF createZsetObject_ok, of ops sum_of seed a] assms zset_seq_wf by fastforce

theorem zset_refines_sequence_witness:
  "\<exists>zs xs. zset_run (\<lambda>x y. Some (x + y)) (map (Pair sample_env) sample_ops) (createZsetObject 0 0) = Some (zs,
       [RAdd (Added 3), RAdd (Added 1), RAdd (Added 3), RAdd (Updated 5), RRank (Some 1), RItems [(5, bytes ''c''), (3, bytes ''b''), (3, bytes ''a'')],
        RBool True, RInt 1]) \<and> zset_ok zs xs \<and> map zkey xs = [(3, bytes ''a''), (5, bytes ''c'')]"
proof -
  have "\<forall>(env, op) \<in> set (map (Pair sample_env) sample_ops). env_ok env \<and> zop_ok op"
    by (simp add: sample_ops_def sample_env_ok word_object_wf)
  moreover have "length (map (Pair sample_env) sample_ops) \<le> 2 ^ 30" by (simp add: sample_ops_def)
  ultimately obtain zs xs rs where r: "zset_run (\<lambda>x y. Some (x + y)) (map (Pair sample_env) sample_ops) (createZsetObject 0 0) = Some (zs, rs)"
    "zset_ok zs xs" "zseq_run (\<lambda>x y. Some (x + y)) (map snd (map (Pair sample_env) sample_ops)) [] = (map zkey xs, rs)"
    using zset_refines_sequence [of "map (Pair sample_env) sample_ops" "\<lambda>x y. Some (x + y)" 0 0] by blast
  have "bytes_less (bytes ''a'') (bytes ''b'')" "\<not> bytes_less (bytes ''b'') (bytes ''a'')" "bytes ''a'' \<noteq> bytes ''b''" "bytes ''a'' \<noteq> bytes ''c''" "bytes ''b'' \<noteq> bytes ''c''"
    by code_simp+
  then have "zseq_run (\<lambda>x y. Some (x + y)) sample_ops [] = ([(3, bytes ''a''), (5, bytes ''c'')],
      [RAdd (Added 3), RAdd (Added 1), RAdd (Added 3), RAdd (Updated 5), RRank (Some 1), RItems [(5, bytes ''c''), (3, bytes ''b''), (3, bytes ''a'')], RBool True, RInt 1])"
    by (simp add: sample_ops_def word_object_wf zseq_add_def zseq_lookup_def zseq_insert_def zseq_delete_def zseq_rank_def zseq_range_def zseq_slice_def
        score_in_def zslValueGteMin_def zslValueLteMax_def)
  moreover have "map snd (map (Pair sample_env) sample_ops) = sample_ops" by (simp add: comp_def)
  ultimately show ?thesis using r by fastforce
qed

text \<open>
  C16. \<open>ZADD\<close> without NX, XX and INCR, on a sorted set in the skip list encoding: afterwards every string has the score of its last pair among the arguments or
  the score it had before, and the reply is the number of strings that are new, also when a string is given several times.
\<close>

theorem zadd_sets_scores:
  assumes "zset_ok zs xs" "\<forall>(env, s, ele) \<in> set ps. env_ok env \<and> string_wf ele" "length xs + length ps \<le> 2 ^ 30"
    "\<not> za_nx flags" "\<not> za_xx flags" "\<not> za_incr flags" "\<not> za_ch flags"
  shows "\<exists>zs' ys c. zadd_loop sum_of flags ps zs \<lparr>zc_added = 0, zc_updated = 0, zc_processed = 0, zc_score = s\<rparr> = Some (zs', c, False) \<and> zset_ok zs' ys \<and>
    scores_of ys = scores_of xs ++ map_of (rev (map (\<lambda>(env, s, ele). (str_val ele, s)) ps)) \<and>
    zadd_reply flags c False = CountReply (card (dom (scores_of ys)) - card (dom (scores_of xs)))"
  using zadd_loop_plain [OF assms(1-6), of sum_of "\<lparr>zc_added = 0, zc_updated = 0, zc_processed = 0, zc_score = s\<rparr>"] assms(6,7)
  by (fastforce simp: zadd_reply_def)

theorem zadd_sets_scores_witness:
  "\<exists>zs' ys c. zadd_loop (\<lambda>x y. Some (x + y)) \<lparr>za_incr = False, za_nx = False, za_xx = False, za_ch = False\<rparr>
      [(sample_env, 1, word_object ''a''), (sample_env, 2, word_object ''a'')] (createZsetObject 0 0)
      \<lparr>zc_added = 0, zc_updated = 0, zc_processed = 0, zc_score = 0\<rparr> = Some (zs', c, False) \<and> zset_ok zs' ys \<and> scores_of ys = [bytes ''a'' \<mapsto> 2] \<and>
    zadd_reply \<lparr>za_incr = False, za_nx = False, za_xx = False, za_ch = False\<rparr> c False = CountReply 1"
proof -
  let ?ps = "[(sample_env, 1, word_object ''a''), (sample_env, 2, word_object ''a'')]" and ?f = "\<lparr>za_incr = False, za_nx = False, za_xx = False, za_ch = False\<rparr>"
  have z: "zset_ok (createZsetObject 0 0 :: int zset) []" by (rule createZsetObject_ok)
  have "\<forall>(env, s, ele) \<in> set ?ps. env_ok env \<and> string_wf ele" by (simp add: sample_env_ok word_object_wf)
  then obtain zs' ys c where r: "zadd_loop (\<lambda>x y. Some (x + y)) ?f ?ps (createZsetObject 0 0) \<lparr>zc_added = 0, zc_updated = 0, zc_processed = 0, zc_score = 0\<rparr> = Some (zs', c, False)"
    "zset_ok zs' ys" "scores_of ys = scores_of [] ++ map_of (rev (map (\<lambda>(env, s, ele). (str_val ele, s)) ?ps))"
    "zadd_reply ?f c False = CountReply (card (dom (scores_of ys)) - card (dom (scores_of ([] :: int elem list))))"
    using zadd_sets_scores [OF z, of ?ps ?f "\<lambda>x y. Some (x + y)" 0] by auto
  have s: "scores_of ys = [bytes ''a'' \<mapsto> 2]" unfolding r(3) by (simp add: zseq_lookup_def word_object_wf fun_eq_iff)
  then have "zadd_reply ?f c False = CountReply 1" using r(4) unfolding s by (simp add: zseq_lookup_def)
  then show ?thesis using r(1,2) s by blast
qed

text \<open>
  C17. On a sorted set whose elements have one score, \<open>ZRANGEBYLEX\<close>, \<open>ZREVRANGEBYLEX\<close> and \<open>ZLEXCOUNT\<close> list and count exactly the elements between the limits, in
  order and within offset and limit, and \<open>ZREMRANGEBYLEX\<close> removes exactly them, unless the range has an excluded limit that spells the name of a shared
  object (\<open>misjudged\<close>).
\<close>

theorem lex_ranges_exact:
  assumes "zset_ok zs xs" "\<forall>e \<in> set xs. el_score e = s" "lex_wf spec" "\<not> misjudged spec" "int64_range offset" "int64_range limit" "length xs \<le> 2 ^ 30"
  defines "ys \<equiv> filter (\<lambda>e. lex_in spec (el_str e)) xs"
  shows "zset_rangebylex garb reverse zs spec offset limit = Some (map (\<lambda>e. (el_score e, el_obj e)) (window offset limit (if reverse then rev ys else ys))) \<and>
    zset_lexcount garb zs spec = Some (int (length ys)) \<and>
    (\<exists>zs'. zset_remrangebylex env zs spec = Some (zs', length ys) \<and> zset_ok zs' (filter (\<lambda>e. \<not> lex_in spec (el_str e)) xs))"
  unfolding ys_def using zset_lex_ok [OF assms(1-4)] zset_remrangebylex_ok [OF assms(1,7,2,3), of env] assms(5,6,7) unfolding lex_in_def by simp

theorem lex_ranges_exact_witness:
  "\<exists>zs e. zset_ok zs [e] \<and> el_str e = bytes ''a'' \<and>
     zset_rangebylex (\<lambda>_. 0) True zs \<lparr>zl_min = MinString, zl_max = MaxString, zl_minex = False, zl_maxex = False\<rparr> 0 (- 1) = Some [(0 :: int, el_obj e)]"
proof -
  let ?spec = "\<lparr>zl_min = MinString, zl_max = MaxString, zl_minex = False, zl_maxex = False\<rparr>"
  obtain zs and e :: "int elem" where z: "zset_ok zs [e]" "el_score e = 0" "el_str e = bytes ''a''" using sample_zset by blast
  have "lex_wf ?spec" "\<not> misjudged ?spec" "int64_range 0" "int64_range (- 1)" "lex_in ?spec b" for b
    by (simp_all add: lex_wf_def misjudged_def int64_range_def lex_in_def lex_ge_def lex_le_def)
  then show ?thesis using lex_ranges_exact [OF z(1), of 0 ?spec 0 "- 1" "\<lambda>_. 0" True sample_env] z by (auto simp: window_def)
qed

text \<open>
  C18. The exception is real: the limits \<open>-\<close> and \<open>(minstring\<close> denote the strings before \<open>minstring\<close>, and \<open>ZREMRANGEBYLEX\<close> removes those, but \<open>ZRANGEBYLEX\<close> lists none of
  them and \<open>ZLEXCOUNT\<close> replies zero: the test for empty ranges compares the contents of the object that stands for the smallest string.
\<close>

theorem lex_range_misses:
  assumes "zset_ok zs xs" "\<forall>e \<in> set xs. el_score e = s" "length xs \<le> 2 ^ 30"
  shows "\<exists>spec zs'. zslParseLexRange garb (word_object ''-'') (word_object ''(minstring'') = Some (Some spec) \<and>
    (\<forall>b. lex_in spec b \<longleftrightarrow> bytes_less b (bytes ''minstring'')) \<and>
    zset_rangebylex garb False zs spec offset limit = Some [] \<and> zset_lexcount garb zs spec = Some 0 \<and>
    zset_remrangebylex env zs spec = Some (zs', length (filter (\<lambda>e. bytes_less (el_str e) (bytes ''minstring'')) xs))"
proof -
  obtain ob where ob: "zslParseLexRange garb (word_object ''-'') (word_object ''(minstring'') = Some (Some \<lparr>zl_min = MinString, zl_max = LexObj ob, zl_minex = False, zl_maxex = True\<rparr>)"
    "string_wf ob" "str_val ob = bytes ''minstring''"
    using parse_before_minstring by blast
  let ?spec = "\<lparr>zl_min = MinString, zl_max = LexObj ob, zl_minex = False, zl_maxex = True\<rparr>"
  have spec: "lex_wf ?spec" "misjudged ?spec" "lex_in ?spec b \<longleftrightarrow> bytes_less b (bytes ''minstring'')" for b
    using ob(2,3) by (simp_all add: lex_wf_def misjudged_def lex_in_def lex_ge_def lex_le_def)
  then show ?thesis using ob(1) zset_lex_misjudged [OF assms(1,2) spec(1,2)] zset_remrangebylex_ok [OF assms(1,3,2) spec(1), of env]
    unfolding lex_in_def by auto
qed

theorem lex_range_misses_witness:
  "\<exists>zs e spec zs'. zset_ok zs [e] \<and> el_score e = (0 :: int) \<and> el_str e = bytes ''a'' \<and> lex_in spec (bytes ''a'') \<and>
    zset_rangebylex (\<lambda>_. 0) False zs spec 0 (- 1) = Some [] \<and> zset_remrangebylex sample_env zs spec = Some (zs', 1)"
proof -
  obtain zs and e :: "int elem" where z: "zset_ok zs [e]" "el_score e = 0" "el_str e = bytes ''a''" using sample_zset by blast
  have less: "bytes_less (bytes ''a'') (bytes ''minstring'')" by code_simp
  obtain spec zs' where "\<forall>b. lex_in spec b \<longleftrightarrow> bytes_less b (bytes ''minstring'')" "zset_rangebylex (\<lambda>_. 0) False zs spec 0 (- 1) = Some []"
    "zset_remrangebylex sample_env zs spec = Some (zs', length (filter (\<lambda>e. bytes_less (el_str e) (bytes ''minstring'')) [e]))"
    using lex_range_misses [OF z(1), of 0 "\<lambda>_. 0" 0 "- 1" sample_env] z(2) by auto
  moreover have "length (filter (\<lambda>e. bytes_less (el_str e) (bytes ''minstring'')) [e]) = 1" using z(3) less by simp
  ultimately show ?thesis using z less by metis
qed



section \<open>Keys and strings\<close>

text \<open>
  C20. SET then GET: unless NX or XX stops it, SET stores the value with the expire time its options ask for,
  touches no other key of any database, and the next GET of the key replies with exactly the bytes given.
\<close>

theorem set_then_get:
  assumes inv: "server_inv s" and key: "length key \<le> STRING_MAX" and val: "string_wf val"
    and opts: "set_options opts 0 UNIT_SECONDS None = Some (flags, u, expire)" "good_expire s expire u w"
    and db: "db = c_db (sv_clients s i)" and go: "\<not> set_aborts flags (view s db key \<noteq> None)"
  shows "\<exists>s1 s2. setCommand garb rc i key val opts s = Some s1 \<and> server_inv s1 \<and>
    view s1 = vput db key (Some (CString (str_val val), w)) (view s) \<and>
    getCommand garb i key s1 = Some s2 \<and> result s1 i (view s1) {} (bulk (str_val val)) s2"
proof -
  obtain s1 where s1: "setCommand garb rc i key val opts s = Some s1" "set_outcome s i flags key (CString (str_val val)) w shared_ok shared_nullbulk s1"
    using setCommand_correct [OF inv key val opts] by blast
  have r: "result s i (vput db key (Some (CString (str_val val), w)) (view s)) {(key, db)} shared_ok s1"
    using s1(2) go db by (simp add: set_outcome_def Let_def)
  have "seen s1 i key = Str (str_val val)" by (rule get_after_set [OF s1(2)]) (use go db in simp)
  then show ?thesis using getCommand_correct [OF result_inv(1) [OF r] key, of garb i] s1(1) result_inv [OF r] by (auto simp: get_reply_def)
qed

theorem set_then_get_witness:
  "\<exists>s1 s2. setCommand (\<lambda>_. 0) (\<lambda>_. 1) 1 (bytes ''k'') (literal ''new'') [] stocked_server = Some s1 \<and>
    getCommand (\<lambda>_. 0) 1 (bytes ''k'') s1 = Some s2 \<and> result s1 1 (view s1) {} (bulk (bytes ''new'')) s2"
  using set_then_get [OF stocked_server_facts(1), of "bytes ''k''" "literal ''new''" "[]" 0 UNIT_SECONDS None None 0 1 "\<lambda>_. 0" "\<lambda>_. 1"]
    literals [of "''new''"] short_literal [of "''k''"]
  by (auto simp: good_expire_def set_aborts_def)

text \<open>
  C21. INCR, DECR and their relatives add exactly: on a missing key or a string that is a 64-bit number the
  stored value and the reply are the mathematical sum, the expire time is kept, and a sum outside the 64-bit
  range, another string or another type is refused without any change.
\<close>

theorem incr_exact:
  assumes "server_inv s" "length key \<le> STRING_MAX" "int64_range incr"
  shows "\<exists>s'. incrDecrCommand garb rc i key incr s = Some s' \<and> incr_outcome s i key incr s'"
  by (rule incrDecrCommand_correct [OF assms])

theorem incr_exact_witness:
  "\<exists>s'. incrDecrCommand (\<lambda>_. 0) (\<lambda>_. 1) 1 (bytes ''k'') 32 stocked_server = Some s' \<and>
    view s' 0 (bytes ''k'') = Some (CString (bytes ''42''), None)"
proof -
  have "parse_number (cstring (bytes ''10'')) = Some 10" "sdec 42 = bytes ''42''" by code_simp+
  then show ?thesis
    using incr_exact [OF stocked_server_facts(1), of "bytes ''k''" 32 "\<lambda>_. 0" "\<lambda>_. 1" 1] short_literal [of "''k''"]
    by (auto simp: incr_outcome_def stocked_server_seen incr_old_def incr_overflows_def int64_range_def result_def simp del: One_nat_def)
qed

text \<open>
  C22. Expiry is invisible: removing a key whose time has passed, as every lookup does first, leaves the
  abstract keyspace as it was, keeps the invariant and makes no watcher dirty, and afterwards no expired key is stored
  under that name.
\<close>

theorem lazy_expiry_refines:
  assumes "server_inv s" "length key \<le> STRING_MAX" "db < 2 ^ 31"
  shows "\<exists>s' b. expireIfNeeded garb db key s = Some (s', b) \<and> effect s (view s) {} s' \<and>
    \<not> past s' (db_expires (sv_dbs s' db) key)"
  by (rule expireIfNeeded_correct [OF assms])

theorem lazy_expiry_refines_witness:
  "\<exists>s' b. expireIfNeeded (\<lambda>_. 0) 0 (bytes ''old'') overdue = Some (s', b) \<and> view s' = view overdue"
  using lazy_expiry_refines [OF overdue_facts(1), of "bytes ''old''" 0 "\<lambda>_. 0"] short_literal [of "''old''"] by (auto simp: effect_def)

text \<open>
  C23. APPEND: the value becomes the concatenation and the reply its length; the expire time is kept; a result
  over 512 MB or a value of another type is refused without any change.
\<close>

theorem append_exact:
  assumes "server_inv s" "length key \<le> STRING_MAX" "string_wf arg" "sdsEncodedObject arg"
  shows "\<exists>s'. appendCommand garb rc i key arg s = Some s' \<and> append_outcome s i key (str_val arg) s'"
  by (rule appendCommand_correct [OF assms])

theorem append_exact_witness:
  "\<exists>s'. appendCommand (\<lambda>_. 0) (\<lambda>_. 1) 1 (bytes ''k'') (literal ''x'') stocked_server = Some s' \<and>
    view s' 0 (bytes ''k'') = Some (CString (bytes ''10x''), None)"
  using append_exact [OF stocked_server_facts(1), of "bytes ''k''" "literal ''x''" "\<lambda>_. 0" "\<lambda>_. 1" 1] literals [of "''x''"] short_literal [of "''k''"]
  by (auto simp: append_outcome_def stocked_server_seen result_def expiry_def bytes_def STRING_MAX_def simp del: One_nat_def)

text \<open>
  C24. SETRANGE overwrites exactly the bytes it is given, padding with zero bytes when it starts past the end, and
  GETRANGE returns exactly the bytes between two indices, negative ones counted from the end.
\<close>

theorem ranges_exact:
  assumes "server_inv s" "length key \<le> STRING_MAX" "string_wf x" "string_wf y"
    "parse_number (cstring (str_val x)) = Some a" "parse_number (cstring (str_val y)) = Some b" "a + int (length bs) < 2 ^ 63"
  shows "(\<exists>s'. setrangeCommand garb rc i key x bs s = Some s' \<and> setrange_outcome s i key a bs s') \<and>
    (\<exists>s'. getrangeCommand garb i key x y s = Some s' \<and> result s i (view s) {} (getrange_reply (seen s i key) a b) s')"
  using setrangeCommand_correct [OF assms(1,2,3,5,7)] getrangeCommand_correct [OF assms(1-6)] by blast

theorem ranges_exact_witness:
  "\<exists>s'. setrangeCommand (\<lambda>_. 0) (\<lambda>_. 1) 1 (bytes ''k'') (literal ''1'') (bytes ''yz'') stocked_server = Some s' \<and>
    view s' 0 (bytes ''k'') = Some (CString (bytes ''1yz''), None)"
proof -
  have p: "parse_number (cstring (str_val (literal ''1''))) = Some 1"
    using literals [of "''1''"] by simp code_simp
  show ?thesis
    using ranges_exact [OF stocked_server_facts(1) _ _ _ p p, of "bytes ''k''" "bytes ''yz''" "\<lambda>_. 0" "\<lambda>_. 1" 1] literals [of "''1''"] short_literal [of "''k''"]
    by (auto simp: setrange_outcome_def stocked_server_seen result_def expiry_def bytes_def STRING_MAX_def splice_def simp del: One_nat_def)
qed

text \<open>
  C25. MSET stores every pair, the last one winning for a repeated key; MSETNX stores all of them or, when any
  of the keys exists, none.
\<close>

theorem mset_all_or_nothing:
  assumes "server_inv s" "pairs args = Some kvs" "args_ok kvs"
  shows "\<exists>s'. msetGenericCommand garb rc i args nx s = Some s' \<and>
    (let db = c_db (sv_clients s i) in
     if nx \<and> any_present (view s) db kvs then result s i (view s) {} shared_czero s'
     else result s i (mset_view db kvs (view s)) ((\<lambda>(k, x). (k, db)) ` set kvs) (if nx then shared_cone else shared_ok) s')"
  by (rule msetGenericCommand_correct [OF assms])

theorem mset_all_or_nothing_witness:
  "\<exists>s'. msetGenericCommand (\<lambda>_. 0) (\<lambda>_. 1) 1 [literal ''a'', literal ''1'', literal ''k'', literal ''2''] True stocked_server = Some s' \<and>
    view s' = view stocked_server"
  using mset_all_or_nothing [OF stocked_server_facts(1), of "[literal ''a'', literal ''1'', literal ''k'', literal ''2'']"
      "[(bytes ''a'', literal ''1''), (bytes ''k'', literal ''2'')]" "\<lambda>_. 0" "\<lambda>_. 1" 1 True] literals short_literal
  by (auto simp: args_ok_def any_present_def result_def Let_def simp del: One_nat_def)

text \<open>
  C26. DEL removes exactly the keys it is given, replies with the number of distinct ones that were present,
  and makes exactly the watchers of those dirty.
\<close>

theorem del_exact:
  assumes "server_inv s" "\<forall>k \<in> set keys. length k \<le> STRING_MAX" "length keys < 2 ^ 31"
  shows "\<exists>s'. delCommand garb i keys s = Some s' \<and>
    (let db = c_db (sv_clients s i) in
     result s i (vdel db (set keys) (view s)) ((\<lambda>k. (k, db)) ` present (view s) db (set keys))
       (number_reply (int (card (present (view s) db (set keys))))) s')"
  by (rule delCommand_correct [OF assms])

theorem del_exact_witness:
  "\<exists>s'. delCommand (\<lambda>_. 0) 1 [bytes ''k'', bytes ''k'', bytes ''z''] stocked_server = Some s' \<and> view s' 0 (bytes ''k'') = None"
  using del_exact [OF stocked_server_facts(1), of "[bytes ''k'', bytes ''k'', bytes ''z'']" "\<lambda>_. 0" 1] short_literal
  by (auto simp: result_def vdel_def Let_def simp del: One_nat_def)

text \<open>
  C27. RENAME and RENAMENX move the value and its expire time to the new name, atomically for every observer of
  the keyspace, and refuse the same name, a missing source and, for RENAMENX, a present target.
\<close>

theorem rename_exact:
  assumes "server_inv s" "length src \<le> STRING_MAX" "length dst \<le> STRING_MAX"
  shows "\<exists>s'. renameGenericCommand garb i src dst nx s = Some s' \<and> rename_outcome s i src dst nx s'"
  by (rule renameGenericCommand_correct [OF assms])

theorem rename_exact_witness:
  "\<exists>s'. renameGenericCommand (\<lambda>_. 0) 1 (bytes ''k'') (bytes ''m'') False stocked_server = Some s' \<and>
    view s' 0 (bytes ''m'') = Some (CString (bytes ''10''), None) \<and> view s' 0 (bytes ''k'') = None"
proof -
  have "bytes ''k'' \<noteq> bytes ''m''" by (simp add: bytes_def)
  then show ?thesis
    using rename_exact [OF stocked_server_facts(1), of "bytes ''k''" "bytes ''m''" "\<lambda>_. 0" 1 False] short_literal [of "''k''"] short_literal [of "''m''"]
    by (auto simp: rename_outcome_def carried_def result_def Let_def simp del: One_nat_def)
qed

text \<open>
  C28. MOVE carries the value and its expire time to the other database, or refuses: a bad database number, the
  same database, a missing key or a key the target database already has.
\<close>

theorem move_exact:
  assumes "server_inv s" "length key \<le> STRING_MAX" "string_wf x"
  shows "\<exists>s'. moveCommand garb i key x s = Some s' \<and> move_outcome s i key (parse_number (cstring (str_val x))) s'"
  by (rule moveCommand_correct [OF assms])

theorem move_exact_witness:
  "\<exists>s'. moveCommand (\<lambda>_. 0) 1 (bytes ''k'') (literal ''3'') stocked_server = Some s' \<and>
    view s' 3 (bytes ''k'') = Some (CString (bytes ''10''), None) \<and> view s' 0 (bytes ''k'') = None"
proof -
  have p: "parse_number (cstring (bytes ''3'')) = Some 3" by code_simp
  show ?thesis
    using move_exact [OF stocked_server_facts(1), of "bytes ''k''" "literal ''3''" "\<lambda>_. 0" 1] short_literal [of "''k''"] literals [of "''3''"] p
    by (auto simp: move_outcome_def carried_def result_def Let_def simp del: One_nat_def)
qed

text \<open>
  C29. EXPIRE and its relatives set the time of an existing key, delete it at once when a master gets a time that
  is not in the future, and do nothing to a missing key; the values are those the unit and base of the command give.
\<close>

theorem expire_exact:
  assumes "server_inv s" "length key \<le> STRING_MAX" "string_wf x" "parse_number (cstring (str_val x)) = Some n"
    "int64_range (if u = UNIT_SECONDS then n * 1000 else n)" "int64_range w" "w = (if u = UNIT_SECONDS then n * 1000 else n) + base"
  shows "\<exists>s'. expireGenericCommand garb i key x base u s = Some s' \<and> expire_outcome s i key w s'"
  by (rule expireGenericCommand_correct [OF assms])

theorem expire_exact_witness:
  "\<exists>s'. expireGenericCommand (\<lambda>_. 0) 1 (bytes ''k'') (literal ''3'') 1000 UNIT_SECONDS stocked_server = Some s' \<and>
    view s' 0 (bytes ''k'') = Some (CString (bytes ''10''), Some 4000)"
proof -
  have p: "parse_number (cstring (str_val (literal ''3''))) = Some 3" using literals [of "''3''"] by simp code_simp
  have "\<not> past stocked_server (Some 4000)"
    using stocked_server_facts(1) by (simp add: past_def server_inv_def)
  moreover have "\<exists>s'. expireGenericCommand (\<lambda>_. 0) 1 (bytes ''k'') (literal ''3'') 1000 UNIT_SECONDS stocked_server = Some s' \<and>
      expire_outcome stocked_server 1 (bytes ''k'') 4000 s'"
    by (rule expire_exact [OF stocked_server_facts(1) short_literal _ p]) (simp_all add: int64_range_def literals)
  ultimately show ?thesis by (auto simp: expire_outcome_def result_def simp del: One_nat_def)
qed

text \<open>
  C30. TTL and PTTL reply with the remaining time of the key, rounded to seconds for TTL, with -1 for a key
  without expire time and with -2 for a key that is missing or has expired.
\<close>

theorem ttl_exact:
  assumes "server_inv s" "length key \<le> STRING_MAX" "0 \<le> sv_now s" "sv_now s < 2 ^ 62"
    "\<And>w. db_expires (sv_dbs s (c_db (sv_clients s i))) key = Some w \<Longrightarrow> 0 \<le> w \<and> w < 2 ^ 62"
  shows "\<exists>s'. ttlGenericCommand garb i key ms s = Some s' \<and> result s i (view s) {} (number_reply (ttl_value s i key ms)) s'"
  by (rule ttlGenericCommand_correct [OF assms])

theorem ttl_exact_witness:
  "\<exists>s'. ttlGenericCommand (\<lambda>_. 0) 1 (bytes ''old'') True overdue = Some s' \<and> result overdue 1 (view overdue) {} (number_reply (- 2)) s'"
proof -
  have "ttl_value overdue 1 (bytes ''old'') True = - 2" using overdue_facts(3) by (simp add: ttl_value_def overdue_facts(4) view_def)
  then show ?thesis
    using ttl_exact [OF overdue_facts(1), of "bytes ''old''" 1 "\<lambda>_. 0" True] short_literal [of "''old''"]
    by (simp add: overdue_facts(4-6) del: One_nat_def)
qed

text \<open>
  FLUSHDB empties the database of the client and no other, and makes exactly the watchers of its stored keys dirty.
\<close>

theorem flushdb_exact:
  assumes "server_inv s" "db = c_db (sv_clients s i)"
  shows "result s i (\<lambda>d k. if d = db then None else view s d k) {(k, d). d = db \<and> db_dict (sv_dbs s db) k \<noteq> None} shared_ok (flushdbCommand i s)"
  by (rule flushdbCommand_correct [OF assms])

theorem flushdb_exact_witness: "view (flushdbCommand 1 stocked_server) 0 (bytes ''k'') = None"
  using flushdb_exact [OF stocked_server_facts(1) refl, of 1] by (simp add: result_def)

section \<open>Clients and messages\<close>





text \<open>
  C33. Subscribing and unsubscribing keep the two sides of the registry consistent (the table of channels and the sets kept
  by each client), change exactly the pair they are given and report whether it was new or present.
\<close>

theorem subscriptions_exact:
  assumes "pubsub_inv s" "pubsubSubscribeChannel i chan s = (s1, r)"
  shows "pubsub_inv s1 \<and> channel_subs s1 = insert (i, chan) (channel_subs s) \<and> pattern_subs s1 = pattern_subs s \<and>
    r = (if (i, chan) \<in> channel_subs s then 0 else 1) \<and>
    (\<exists>s2. pubsubUnsubscribeChannel i chan notify s1 = Some (s2, 1) \<and> pubsub_inv s2 \<and>
      channel_subs s2 = channel_subs s - {(i, chan)} \<and> pattern_subs s2 = pattern_subs s)"
proof -
  note a = pubsubSubscribeChannel_correct [OF assms]
  obtain s2 where s2: "pubsubUnsubscribeChannel i chan notify s1 = Some (s2, if (i, chan) \<in> channel_subs s1 then 1 else 0)" "pubsub_inv s2"
    "channel_subs s2 = channel_subs s1 - {(i, chan)}" "pattern_subs s2 = pattern_subs s1"
    using pubsubUnsubscribeChannel_correct [OF a(1)] by blast
  then show ?thesis using a by auto
qed

theorem subscriptions_exact_witness:
  "pubsub_inv (fst (pubsubSubscribeChannel 2 (bytes ''news'') small_server))"
  using subscriptions_exact [of small_server 2 "bytes ''news''" "fst (pubsubSubscribeChannel 2 (bytes ''news'') small_server)"
      "snd (pubsubSubscribeChannel 2 (bytes ''news'') small_server)"] small_server_inv
  by (simp add: server_inv_def)

text \<open>
  The class string of the notification setting reads as the flags that were printed: for every value of
  the flags, \<open>keyspaceEventsStringToFlags\<close> of \<open>keyspaceEventsFlagsToString\<close> gives the flags that have a letter.
\<close>

theorem notify_flags_roundtrip:
  "\<exists>res. keyspaceEventsFlagsToString garb flags = Some res \<and> sds_inv res \<and>
    keyspaceEventsStringToFlags (sds_str res @ [0]) =
      Some (Some (flags AND (REDIS_NOTIFY_ALL OR REDIS_NOTIFY_KEYSPACE OR REDIS_NOTIFY_KEYEVENT)))"
  by (rule keyspace_events_roundtrip)

section \<open>Strings, numbers and checksums\<close>

text \<open>
  C34. \<open>stringmatchlen\<close> is glob matching: on every well-formed pattern and non-empty string it ends without reading outside
  its arguments and answers as the declarative matcher on the pattern's tokens does.
\<close>

theorem glob_exact:
  assumes "list_all token_ok ts" "s \<noteq> []"
  shows "stringmatchlen nocase (pattern_bytes ts @ [0]) (int (length (pattern_bytes ts))) (s @ [0]) (int (length s)) = Some (glob nocase ts s)"
  using stringmatchlen_correct [OF assms] by (simp add: matches_def)

theorem glob_exact_witness:
  "stringmatchlen False (bytes ''h?l*'' @ [0]) 4 (bytes ''hello'' @ [0]) 5 = Some True"
proof -
  let ?ts = "[Lit 104, AnyChar, Lit 108, Star]"
  have "pattern_bytes ?ts = bytes ''h?l*''" "list_all token_ok ?ts" "bytes ''hello'' \<noteq> []" "glob False ?ts (bytes ''hello'')" by code_simp+
  then show ?thesis using glob_exact [of ?ts "bytes ''hello''" False] by (simp add: bytes_def)
qed

text \<open>
  C35. \<open>string2ll\<close> accepts exactly the canonical decimal forms of the 64-bit numbers: no sign but a minus, no leading zero, no
  space, nothing out of range; so accepted strings and numbers correspond one to one.
\<close>

theorem string2ll_exact: "string2ll s = Some v \<longleftrightarrow> int64_range v \<and> s = sdec v"
  by (rule string2ll_correct)

text \<open>
  C36. Printing a 64-bit number with \<open>ll2string\<close> into a buffer that has room and reading it with \<open>string2ll\<close> gives the number,
  the smallest one included; the text is terminated and a buffer without room is left alone.
\<close>

theorem number_roundtrip:
  assumes "int64_range v" "dstlen \<le> length dst"
  shows "if length (sdec v) < dstlen
    then \<exists>n buf. ll2string dst dstlen v = Some (n, buf) \<and> length buf = length dst \<and> string2ll (take n buf) = Some v \<and> buf ! n = 0
    else ll2string dst dstlen v = Some (0, dst)"
  using ll2string_correct [OF assms] assms by (auto simp: string2ll_correct)

theorem number_roundtrip_witness:
  "\<exists>n buf. ll2string (replicate 21 0) 21 (- 9223372036854775808) = Some (n, buf) \<and> string2ll (take n buf) = Some (- 9223372036854775808)"
proof -
  have "length (sdec (- 9223372036854775808)) = 20" by code_simp
  then show ?thesis using number_roundtrip [of "- 9223372036854775808" 21 "replicate 21 0"] by (auto simp: int64_range_def)
qed

text \<open>
  C37. Appending to a dynamic string writes inside its allocation: \<open>sdscatlen\<close> of any bytes, zero bytes included, keeps the
  header consistent with the buffer and its terminator and appends exactly those bytes, below 4 GB.
\<close>

theorem sdscatlen_safe:
  assumes "sds_inv s" "n \<le> length t" "s_len s + n + SDS_MAX_PREALLOC < 2 ^ 32"
  shows "\<exists>s'. sdscatlen garb s t n = Some s' \<and> sds_inv s' \<and> sds_str s' = sds_str s @ take n t"
  by (rule sdscatlen_correct [OF assms])

theorem sdscatlen_safe_witness:
  "\<exists>s'. sdscatlen (\<lambda>_. 7) \<lparr>s_len = 1, s_free = 0, s_buf = [5, 0]\<rparr> [0, 9] 2 = Some s' \<and> sds_str s' = [5, 0, 9]"
  using sdscatlen_safe [of "\<lparr>s_len = 1, s_free = 0, s_buf = [5, 0]\<rparr>" 2 "[0, 9]" "\<lambda>_. 7"]
  by (auto simp: sds_inv_def sds_str_def SDS_MAX_PREALLOC_def)

text \<open>Splitting a text at a separator with \<open>sdssplitlen\<close> and joining the parts with \<open>sdsjoin\<close> gives the text.\<close>

theorem split_join_roundtrip:
  assumes "sep \<noteq> []" "s \<noteq> []" "0 \<notin> set s" "0 \<notin> set sep" "length s < 2 ^ 31"
  shows "\<exists>ts r. sdssplitlen garb s sep = Some (Some ts) \<and> (\<forall>t \<in> set ts. sds_inv t) \<and>
    sdsjoin garb (map (cstr \<circ> sds_str) ts) (cstr sep) = Some r \<and> sds_inv r \<and> sds_str r = s"
proof -
  obtain ts where ts: "sdssplitlen garb s sep = Some (Some ts)" "\<forall>t \<in> set ts. sds_inv t" "map sds_str ts = split_ref sep [] s"
    using sdssplitlen_correct [OF assms(1,2,5)] by blast
  have j: "join_ref sep (map sds_str ts) = s" using join_split_ref [of sep "[]" s] ts(3) by simp
  have "set t \<subseteq> set (join_ref sep us)" if "t \<in> set us" for t us using that by (cases us) (auto simp: join_ref_def)
  then have "\<forall>t \<in> set (map sds_str ts). 0 \<notin> set t" using assms(3) j by blast
  then show ?thesis using sdsjoin_correct [of "map sds_str ts" sep garb] assms(4,5) j ts(1,2) by (auto simp: SDS_MAX_PREALLOC_def)
qed

theorem split_join_roundtrip_witness:
  "\<exists>ts r. sdssplitlen (\<lambda>_. 0) (bytes ''a--b'') (bytes ''--'') = Some (Some ts) \<and>
    sdsjoin (\<lambda>_. 0) (map (cstr \<circ> sds_str) ts) (cstr (bytes ''--'')) = Some r \<and> sds_str r = bytes ''a--b''"
proof -
  have "bytes ''--'' \<noteq> []" "bytes ''a--b'' \<noteq> []" "0 \<notin> set (bytes ''a--b'')" "0 \<notin> set (bytes ''--'')" "length (bytes ''a--b'') < 2 ^ 31"
    by (simp_all add: bytes_def)
  from split_join_roundtrip [OF this, of "\<lambda>_. 0"] show ?thesis by blast
qed

text \<open>
  C38. Quoting is undone by argument splitting: \<open>sdscatrepr\<close> of any bytes appends a quoted form, and \<open>sdssplitargs\<close>
  of a line of quoted forms returns exactly the bytes that were quoted.
\<close>

theorem quoting_roundtrip:
  assumes "\<forall>p \<in> set ps. length p + SDS_MAX_PREALLOC < 2 ^ 32" "sds_inv s" "length (sds_str s) + length (quote q) + SDS_MAX_PREALLOC < 2 ^ 32"
  shows "(\<exists>s'. sdscatrepr garb s q = Some s' \<and> sds_inv s' \<and> sds_str s' = sds_str s @ quote q) \<and>
    (\<exists>ts. sdssplitargs garb (join_ref [32] (map quote ps)) = Some (Some ts) \<and> (\<forall>t \<in> set ts. sds_inv t) \<and> map sds_str ts = ps)"
  using splitargs_line [OF assms(1), of garb "[]"] sdscatrepr_correct [OF assms(2,3)] by (auto simp: sdssplitargs_def)

theorem quoting_roundtrip_witness:
  "\<exists>ts. sdssplitargs (\<lambda>_. 0) (join_ref [32] (map quote [[34, 0, 255], [], [32]])) = Some (Some ts) \<and> map sds_str ts = [[34, 0, 255], [], [32]]"
proof -
  have "length (quote []) = 2" by code_simp
  then show ?thesis
    using quoting_roundtrip [of "[[34, 0, 255], [], [32]]" "\<lparr>s_len = 0, s_free = 0, s_buf = [0]\<rparr>" "[]" "\<lambda>_. 0"]
    by (auto simp: sds_inv_def sds_str_def SDS_MAX_PREALLOC_def)
qed

text \<open>
  \<open>sdscatfmt\<close> renders its format: for every format and matching arguments the result is the text the format
  describes, whatever the lengths, and growth happens before a byte would be written outside the allocation.
\<close>

theorem sdscatfmt_renders:
  assumes "sds_inv s" "render fmt args = Some r" "\<forall>a \<in> set args. arg_ok a" "length (sds_str s) + length r + 1 + SDS_MAX_PREALLOC < 2 ^ 32"
  shows "\<exists>s'. sdscatfmt garb s fmt args = Some s' \<and> sds_inv s' \<and> sds_str s' = sds_str s @ r"
  by (rule sdscatfmt_correct [OF assms])

theorem sdscatfmt_renders_witness:
  "\<exists>s'. sdscatfmt (\<lambda>_. 0) \<lparr>s_len = 0, s_free = 0, s_buf = [0]\<rparr> (bytes ''a%%b'') [] = Some s' \<and> sds_str s' = bytes ''a%b''"
proof -
  have "render (bytes ''a%%b'') [] = Some (bytes ''a%b'')" by code_simp
  then show ?thesis
    using sdscatfmt_renders [of "\<lparr>s_len = 0, s_free = 0, s_buf = [0]\<rparr>" "bytes ''a%%b''" "[]" "bytes ''a%b''" "\<lambda>_. 0"]
    by (auto simp: sds_inv_def sds_str_def SDS_MAX_PREALLOC_def bytes_def)
qed

text \<open>
  C39. The table-driven checksums are the polynomial ones: \<open>crc16\<close> is the bitwise CRC with polynomial 0x1021, \<open>crc64\<close> the
  reflected bitwise CRC of its polynomial, so \<open>crc64\<close> of a stream does not depend on how it is cut into pieces.
\<close>

theorem checksums_exact:
  "crc16 buf = crc16_ref buf \<and> crc64 crc (a @ b) = crc64_ref crc (a @ b) \<and> crc64 crc (a @ b) = crc64 (crc64 crc a) b"
  by (simp add: crc16_correct crc64_correct [symmetric] crc64_append)

text \<open>
  C40. Encoding a string object, to a number, to an embedded string or with its free space released, keeps it a well-formed string object with
  the same bytes, and equality of objects is equality of those bytes whatever the two encodings.
\<close>

theorem encoding_keeps_value:
  assumes "string_wf a" "string_wf b"
  shows "\<exists>a'. tryObjectEncoding garb refs a = Some a' \<and> string_wf a' \<and> str_val a' = str_val a \<and>
    equalStringObjects garb a' b = Some (str_val a = str_val b)"
proof -
  obtain a' where a': "tryObjectEncoding garb refs a = Some a'" "string_wf a'" "str_val a' = str_val a"
    using tryObjectEncoding_correct [OF assms(1)] by blast
  then show ?thesis using equalStringObjects_correct [OF a'(2) assms(2)] by auto
qed

theorem encoding_keeps_value_witness:
  "\<exists>a'. tryObjectEncoding (\<lambda>_. 0) 1 (literal ''12'') = Some a' \<and> equalStringObjects (\<lambda>_. 0) a' (literal ''12'') = Some True"
  using encoding_keeps_value [of "literal ''12''" "literal ''12''" "\<lambda>_. 0" 1] literals [of "''12''"] by auto

end
